(* ===== verification/Prelude.thy ===== *)
theory Prelude
  imports
    Main
    "HOL-Library.Word"
    "HOL-Library.Char_ord"
    "HOL-Library.List_Lexorder"
    "HOL-Library.Signed_Division"
    "HOL-Library.Multiset"
begin

text \<open>
  Shared vocabulary of the development: the machine types of Go, the three-way
  comparison interface that every ordering of the datastore API implements
  (a negative, zero or positive number, as \<^verbatim>\<open>bytes.Compare\<close> and
  \<^verbatim>\<open>Property.Compare\<close> return), ways of building comparisons from smaller
  ones, and generic lemmas on lists, options and words.
\<close>

section \<open>Go's machine types\<close>

type_synonym byte = "8 word"
type_synonym int64 = "64 word"   \<comment> \<open>read with \<open>sint\<close>\<close>
type_synonym uint64 = "64 word"  \<comment> \<open>read with \<open>unat\<close>\<close>
type_synonym int32 = "32 word"
type_synonym uint32 = "32 word"

text \<open>A Go string is a sequence of bytes; \<open>char\<close> is HOL's eight-bit character.\<close>

definition str_bytes :: "string \<Rightarrow> byte list" where
  "str_bytes s = map of_char s"

definition bytes_str :: "byte list \<Rightarrow> string" where
  "bytes_str bs = map (\<lambda>b. char_of (unat b)) bs"

named_theorems go_order \<open>facts about Go's orderings\<close>
named_theorems codec_rt \<open>round trips of the writers and readers\<close>

lemma unat_of_char: "unat (of_char c :: byte) = of_char c"
proof -
  have "of_char c < (256 :: nat)"
    by simp
  then have "unat (of_nat (of_char c) :: byte) = of_char c"
    by (simp only: unat_of_nat) simp
  then show ?thesis by (simp only: of_nat_of_char)
qed

lemma bytes_str_bytes [simp]: "bytes_str (str_bytes s) = s"
  by (induction s) (simp_all add: bytes_str_def str_bytes_def unat_of_char)

lemma str_bytes_str [simp]: "str_bytes (bytes_str bs) = bs"
proof -
  have "(of_char (char_of (unat b)) :: byte) = b" for b :: byte
  proof -
    have "unat b < 256" using unsigned_less [of b] by simp
    then have "unat (of_char (char_of (unat b)) :: byte) = unat b"
      by (simp add: unat_of_char)
    then show ?thesis by (rule unsigned_word_eqI)
  qed
  then show ?thesis by (induction bs) (simp_all add: bytes_str_def str_bytes_def)
qed

lemma length_str_bytes [simp]: "length (str_bytes s) = length s"
  by (simp add: str_bytes_def)

lemma str_bytes_inj [simp]: "str_bytes a = str_bytes b \<longleftrightarrow> a = b"
  by (metis bytes_str_bytes)

section \<open>Three-way comparisons\<close>

text \<open>
  What a Go comparison function promises of the values it is meant for (\<open>ok\<close>):
  exchanging the arguments exchanges the sign, and ``not greater'' is transitive.
  Every ordering below is shown to be an instance.
\<close>

locale go_compare =
  fixes ok :: "'a \<Rightarrow> bool" and cmp :: "'a \<Rightarrow> 'a \<Rightarrow> int"
  assumes cmp_pos_iff: "ok x \<Longrightarrow> ok y \<Longrightarrow> 0 < cmp y x \<longleftrightarrow> cmp x y < 0"
    and cmp_le_trans: "ok x \<Longrightarrow> ok y \<Longrightarrow> ok z \<Longrightarrow>
      cmp x y \<le> 0 \<Longrightarrow> cmp y z \<le> 0 \<Longrightarrow> cmp x z \<le> 0"
begin

lemma cmp_zero_iff:
  assumes "ok x" "ok y" shows "cmp y x = 0 \<longleftrightarrow> cmp x y = 0"
  using cmp_pos_iff [OF assms] cmp_pos_iff [OF assms(2,1)] by linarith

lemma cmp_self: "ok x \<Longrightarrow> cmp x x = 0"
  using cmp_pos_iff [of x x] by linarith

lemma cmp_less_asym: "ok x \<Longrightarrow> ok y \<Longrightarrow> cmp x y < 0 \<Longrightarrow> \<not> cmp y x < 0"
  using cmp_pos_iff [of x y] by auto

lemma cmp_not_less: "ok x \<Longrightarrow> ok y \<Longrightarrow> \<not> cmp x y < 0 \<longleftrightarrow> cmp y x \<le> 0"
  using cmp_pos_iff [of x y] by auto

lemma cmp_le_less_trans:
  assumes ok: "ok x" "ok y" "ok z" and le: "cmp x y \<le> 0" and less: "cmp y z < 0"
  shows "cmp x z < 0"
proof (rule ccontr)
  assume "\<not> cmp x z < 0"
  then have "cmp z x \<le> 0" using ok by (simp add: cmp_not_less)
  then have "cmp z y \<le> 0" using ok le by (blast intro: cmp_le_trans)
  then have "\<not> cmp y z < 0" using ok by (simp add: cmp_not_less)
  then show False using less by simp
qed

lemma cmp_less_le_trans:
  assumes ok: "ok x" "ok y" "ok z" and less: "cmp x y < 0" and le: "cmp y z \<le> 0"
  shows "cmp x z < 0"
proof (rule ccontr)
  assume "\<not> cmp x z < 0"
  then have "cmp z x \<le> 0" using ok by (simp add: cmp_not_less)
  then have "cmp y x \<le> 0" using ok le by (blast intro: cmp_le_trans)
  then have "\<not> cmp x y < 0" using ok by (simp add: cmp_not_less)
  then show False using less by simp
qed

lemma cmp_less_trans:
  "ok x \<Longrightarrow> ok y \<Longrightarrow> ok z \<Longrightarrow> cmp x y < 0 \<Longrightarrow> cmp y z < 0 \<Longrightarrow> cmp x z < 0"
  by (rule cmp_less_le_trans [of x y z]) auto

lemma cmp_eq_trans:
  "ok x \<Longrightarrow> ok y \<Longrightarrow> ok z \<Longrightarrow> cmp x y = 0 \<Longrightarrow> cmp y z = 0 \<Longrightarrow> cmp x z = 0"
  using cmp_le_trans [of x y z] cmp_le_trans [of z y x] cmp_zero_iff [of x y] cmp_zero_iff [of y z]
    cmp_not_less [of x z] by linarith

end

text \<open>Comparisons are built from smaller ones; the laws carry over.\<close>

lemma go_compare_sign:
  assumes "go_compare ok c" and "\<And>x. ok' x \<Longrightarrow> ok x"
    and "\<And>x y. ok' x \<Longrightarrow> ok' y \<Longrightarrow> c' x y < 0 \<longleftrightarrow> c x y < 0"
    and "\<And>x y. ok' x \<Longrightarrow> ok' y \<Longrightarrow> 0 < c' x y \<longleftrightarrow> 0 < c x y"
  shows "go_compare ok' c'"
proof
  fix x y assume "ok' x" "ok' y"
  then show "0 < c' y x \<longleftrightarrow> c' x y < 0"
    using assms by (simp add: go_compare.cmp_pos_iff)
next
  fix x y z assume ok: "ok' x" "ok' y" "ok' z" and "c' x y \<le> 0" "c' y z \<le> 0"
  then have "c x y \<le> 0" "c y z \<le> 0"
    using assms(4) [of x y] assms(4) [of y z] by auto
  then have "c x z \<le> 0"
    using ok assms(1,2) by (blast intro: go_compare.cmp_le_trans)
  then show "c' x z \<le> 0" using assms(4) [of x z] ok by auto
qed

lemma go_compare_cong:
  assumes "go_compare ok c" and "\<And>x. ok' x \<Longrightarrow> ok x"
    and "\<And>x y. ok' x \<Longrightarrow> ok' y \<Longrightarrow> c' x y = c x y"
  shows "go_compare ok' c'"
  using assms by (auto intro: go_compare_sign)

lemma go_compare_inv: "go_compare ok c \<Longrightarrow> go_compare (\<lambda>x. ok (f x)) (\<lambda>x y. c (f x) (f y))"
  unfolding go_compare_def by blast

lemma go_compare_const: "go_compare ok (\<lambda>_ _. 0)"
  by unfold_locales simp_all

lemma go_compare_none: "(\<And>x. \<not> ok x) \<Longrightarrow> go_compare ok c"
  by unfold_locales simp_all

definition cmp_lex :: "('a \<Rightarrow> 'a \<Rightarrow> int) \<Rightarrow> ('a \<Rightarrow> 'a \<Rightarrow> int) \<Rightarrow> 'a \<Rightarrow> 'a \<Rightarrow> int" where
  "cmp_lex c d x y = (if c x y = 0 then d x y else c x y)"

text \<open>The second comparison need be lawful only among values the first calls equal.\<close>

lemma go_compare_lex_dep:
  assumes c: "go_compare ok c"
    and d: "\<And>t. ok t \<Longrightarrow> go_compare (\<lambda>x. ok x \<and> c t x = 0) d"
  shows "go_compare ok (cmp_lex c d)"
proof
  fix x y assume ok: "ok x" "ok y"
  note sym = go_compare.cmp_zero_iff [OF c ok] go_compare.cmp_pos_iff [OF c ok]
  show "0 < cmp_lex c d y x \<longleftrightarrow> cmp_lex c d x y < 0"
    using sym go_compare.cmp_pos_iff [OF d [OF ok(1)], of x y] go_compare.cmp_self [OF c ok(1)] ok
    by (auto simp: cmp_lex_def)
next
  fix x y z
  assume ok: "ok x" "ok y" "ok z"
    and xy: "cmp_lex c d x y \<le> 0" and yz: "cmp_lex c d y z \<le> 0"
  from xy yz have le: "c x y \<le> 0" "c y z \<le> 0"
    by (auto simp: cmp_lex_def split: if_splits)
  show "cmp_lex c d x z \<le> 0"
  proof (cases "c x y = 0 \<and> c y z = 0")
    case True
    then have "c x z = 0" using ok go_compare.cmp_eq_trans [OF c] by blast
    moreover have "d x y \<le> 0" "d y z \<le> 0" using True xy yz by (auto simp: cmp_lex_def)
    ultimately show ?thesis
      using True ok go_compare.cmp_le_trans [OF d [of x], of x y z] go_compare.cmp_self [OF c]
      by (simp add: cmp_lex_def)
  next
    case False
    then have "c x z < 0"
      using ok le go_compare.cmp_le_less_trans [OF c, of x y z]
        go_compare.cmp_less_le_trans [OF c, of x y z] by linarith
    then show ?thesis by (simp add: cmp_lex_def)
  qed
qed

lemma go_compare_lex:
  assumes "go_compare ok c" and "go_compare ok d"
  shows "go_compare ok (cmp_lex c d)"
  using assms(1) by (rule go_compare_lex_dep) (rule go_compare_cong [OF assms(2)], auto)

text \<open>The shape of \<^verbatim>\<open>cmpString\<close>, \<^verbatim>\<open>cmpInt\<close> and of the branches of \<^verbatim>\<open>Property.Compare\<close>.\<close>

definition cmp3 :: "'a::linorder \<Rightarrow> 'a \<Rightarrow> int" where
  "cmp3 a b = (if a = b then 0 else if a > b then 1 else -1)"

lemma cmp3_simps [simp]:
  "cmp3 a b = 0 \<longleftrightarrow> a = b"
  "cmp3 a b < 0 \<longleftrightarrow> a < b"
  "0 < cmp3 a b \<longleftrightarrow> b < a"
  "cmp3 a b \<le> 0 \<longleftrightarrow> a \<le> b"
  by (auto simp: cmp3_def)

lemma go_compare_cmp3: "go_compare ok cmp3"
proof
  fix x y z :: 'a
  assume "cmp3 x y \<le> 0" "cmp3 y z \<le> 0"
  then show "cmp3 x z \<le> 0" by auto
qed simp

text \<open>Lists compared element by element, a proper prefix first.\<close>

fun cmp_list :: "('a \<Rightarrow> 'a \<Rightarrow> int) \<Rightarrow> 'a list \<Rightarrow> 'a list \<Rightarrow> int" where
  "cmp_list c [] [] = 0"
| "cmp_list c [] (y # ys) = -1"
| "cmp_list c (x # xs) [] = 1"
| "cmp_list c (x # xs) (y # ys) = (if c x y = 0 then cmp_list c xs ys else c x y)"

lemma go_compare_list:
  assumes c: "go_compare ok c"
  shows "go_compare (list_all ok) (cmp_list c)"
proof
  fix xs ys :: "'a list"
  assume "list_all ok xs" "list_all ok ys"
  then show "0 < cmp_list c ys xs \<longleftrightarrow> cmp_list c xs ys < 0"
  proof (induction xs arbitrary: ys)
    case Nil
    then show ?case by (cases ys) auto
  next
    case (Cons x xs)
    show ?case
    proof (cases ys)
      case (Cons y ys')
      then show ?thesis
        using Cons.prems Cons.IH [of ys'] go_compare.cmp_zero_iff [OF c, of x y]
          go_compare.cmp_pos_iff [OF c, of x y] by auto
    qed simp
  qed
next
  fix xs ys zs :: "'a list"
  assume "list_all ok xs" "list_all ok ys" "list_all ok zs"
    and "cmp_list c xs ys \<le> 0" "cmp_list c ys zs \<le> 0"
  then show "cmp_list c xs zs \<le> 0"
  proof (induction xs arbitrary: ys zs)
    case Nil
    then show ?case by (cases zs) auto
  next
    case (Cons x xs)
    then obtain y ys' where ys: "ys = y # ys'" by (cases ys) auto
    with Cons.prems obtain z zs' where zs: "zs = z # zs'" by (cases zs) auto
    have ok: "ok x" "ok y" "ok z" using Cons.prems ys zs by auto
    have le: "c x y \<le> 0" "c y z \<le> 0"
      using Cons.prems ys zs by (auto split: if_splits)
    show ?case
    proof (cases "c x y = 0 \<and> c y z = 0")
      case True
      then have "c x z = 0" using ok go_compare.cmp_eq_trans [OF c] by blast
      moreover have "cmp_list c xs zs' \<le> 0"
        using True Cons.prems ys zs by (intro Cons.IH [of ys' zs']) auto
      ultimately show ?thesis using zs by simp
    next
      case False
      then have "c x z < 0"
        using ok le go_compare.cmp_le_less_trans [OF c, of x y z]
          go_compare.cmp_less_le_trans [OF c, of x y z] by linarith
      then show ?thesis using zs by simp
    qed
  qed
qed

lemma cmp_list_zero: "(\<And>x y. ok x \<Longrightarrow> ok y \<Longrightarrow> c x y = 0 \<longleftrightarrow> x = y) \<Longrightarrow>
  list_all ok xs \<Longrightarrow> list_all ok ys \<Longrightarrow> cmp_list c xs ys = 0 \<longleftrightarrow> xs = ys"
  by (induction c xs ys rule: cmp_list.induct) auto


text \<open>Strings and byte slices are compared byte by byte; the two agree.\<close>

lemma char_less_of_char: "(c < d) \<longleftrightarrow> (of_char c :: byte) < of_char d"
  by (simp add: less_char_def word_less_nat_alt unat_of_char)

lemma str_bytes_simps [simp]:
  "str_bytes [] = []"
  "str_bytes (c # s) = of_char c # str_bytes s"
  by (simp_all add: str_bytes_def)

lemma str_bytes_less [simp]: "str_bytes a < str_bytes b \<longleftrightarrow> a < b"
proof (induction a arbitrary: b)
  case Nil
  then show ?case by (cases b) simp_all
next
  case (Cons x a)
  show ?case
  proof (cases b)
    case b: (Cons y b')
    have "(of_char x :: byte) = of_char y \<longleftrightarrow> x = y" by (metis unat_of_char of_char_eq_iff)
    then show ?thesis using Cons.IH [of b'] by (simp only: b str_bytes_simps Cons_less_Cons char_less_of_char)
  qed simp
qed

section \<open>Go's maps\<close>

text \<open>
  A Go map with string keys is an association list with distinct keys, in the order in
  which a \<^verbatim>\<open>range\<close> over it happens to visit the entries.
\<close>

fun al_set :: "(string \<times> 'v) list \<Rightarrow> string \<Rightarrow> 'v \<Rightarrow> (string \<times> 'v) list" where
  "al_set [] k v = [(k, v)]"
| "al_set ((k', v') # m) k v = (if k' = k then (k, v) # m else (k', v') # al_set m k v)"

definition al_delete :: "(string \<times> 'v) list \<Rightarrow> string \<Rightarrow> (string \<times> 'v) list" where
  "al_delete m k = filter (\<lambda>(k', _). k' \<noteq> k) m"

text \<open>Reading a map of slices: a missing key gives the nil slice.\<close>

definition al_get :: "(string \<times> 'v list) list \<Rightarrow> string \<Rightarrow> 'v list" where
  "al_get m k = (case map_of m k of None \<Rightarrow> [] | Some v \<Rightarrow> v)"

lemma map_of_al_set: "map_of (al_set m k v) = (map_of m)(k \<mapsto> v)"
  by (induction m k v rule: al_set.induct) auto

lemma keys_al_set: "set (map fst (al_set m k v)) = insert k (set (map fst m))"
  by (induction m k v rule: al_set.induct) auto

lemma al_set_set: "al_set (al_set m k v) k w = al_set m k w"
  by (induction m k v rule: al_set.induct) auto

lemma al_set_new: "k \<notin> set (map fst m) \<Longrightarrow> al_set m k v = m @ [(k, v)]"
  by (induction m k v rule: al_set.induct) auto

lemma distinct_al_set: "distinct (map fst m) \<Longrightarrow> distinct (map fst (al_set m k v))"
proof (induction m k v rule: al_set.induct)
  case (2 k' v' m k v)
  then show ?case using keys_al_set [of m k v] by auto
qed simp

lemma map_of_al_delete: "map_of (al_delete m k) = (map_of m)(k := None)"
  by (induction m) (auto simp: al_delete_def)

lemma distinct_al_delete: "distinct (map fst m) \<Longrightarrow> distinct (map fst (al_delete m k))"
  by (simp add: al_delete_def distinct_map_filter)

text \<open>A sum over the entries changes by the entry that is written or deleted.\<close>

lemma sum_al_set:
  "distinct (map fst m) \<Longrightarrow>
   (\<Sum>(k, v) \<leftarrow> al_set m k v. f v) + (case map_of m k of None \<Rightarrow> 0 | Some w \<Rightarrow> f w) =
   (\<Sum>(k, v) \<leftarrow> m. f v) + (f v :: 'n::comm_monoid_add)"
  by (induction m k v rule: al_set.induct) (auto simp: ac_simps map_of_eq_None_iff split: option.splits)

lemma sum_al_delete:
  "distinct (map fst m) \<Longrightarrow>
   (\<Sum>(k, v) \<leftarrow> al_delete m k. f v) + (case map_of m k of None \<Rightarrow> 0 | Some w \<Rightarrow> f w) =
   (\<Sum>(k, v) \<leftarrow> m. (f v :: 'n::comm_monoid_add))"
proof (induction m)
  case (Cons a m)
  have "al_delete m (fst a) = m" if "fst a \<notin> fst ` set m"
    using that by (induction m) (auto simp: al_delete_def)
  then show ?case using Cons by (cases a) (auto simp: al_delete_def ac_simps)
qed (simp add: al_delete_def)

section \<open>Go's sort.Search\<close>

text \<open>
  The binary search of package \<^verbatim>\<open>sort\<close>: the smallest index in \<open>[i, j)\<close> at which
  \<open>f\<close> holds, for an \<open>f\<close> that is false and then true.
\<close>

function search_loop :: "(nat \<Rightarrow> bool) \<Rightarrow> nat \<Rightarrow> nat \<Rightarrow> nat" where
  "search_loop f i j =
     (if i < j then
        (let h = (i + j) div 2 in
         if \<not> f h then search_loop f (Suc h) j else search_loop f i h)
      else i)"
  by pat_completeness auto
termination
  by (relation "measure (\<lambda>(f, i, j). j - i)") (auto simp: Let_def)

declare search_loop.simps [simp del]

definition sort_Search :: "nat \<Rightarrow> (nat \<Rightarrow> bool) \<Rightarrow> nat" where
  "sort_Search n f = search_loop f 0 n"

lemma search_loop_spec:
  assumes mono: "\<And>a b. a \<le> b \<Longrightarrow> b < n \<Longrightarrow> f a \<Longrightarrow> f b"
  shows "i \<le> j \<Longrightarrow> j \<le> n \<Longrightarrow> (\<forall>a < i. \<not> f a) \<Longrightarrow> (\<forall>b. j \<le> b \<and> b < n \<longrightarrow> f b) \<Longrightarrow>
    search_loop f i j \<le> n \<and> (\<forall>a < search_loop f i j. \<not> f a) \<and>
    (\<forall>b. search_loop f i j \<le> b \<and> b < n \<longrightarrow> f b)"
proof (induction "j - i" arbitrary: i j rule: less_induct)
  case less
  note unfold = search_loop.simps [of f i j]
  show ?case
  proof (cases "i < j")
    case True
    define h where "h = (i + j) div 2"
    have h: "i \<le> h" "h < j" using True by (auto simp: h_def)
    show ?thesis
    proof (cases "f h")
      case False
      have below: "\<forall>a < Suc h. \<not> f a"
        using mono [of _ h] False h less.prems(2) by (auto simp: less_Suc_eq_le)
      have "search_loop f i j = search_loop f (Suc h) j"
        using True False by (simp add: unfold h_def Let_def)
      moreover have "j - Suc h < j - i" "Suc h \<le> j" using h by auto
      ultimately show ?thesis
        using less.hyps [OF _ _ less.prems(2) below less.prems(4)] by simp
    next
      case hT: True
      have above: "\<forall>b. h \<le> b \<and> b < n \<longrightarrow> f b" using hT mono by blast
      have "search_loop f i j = search_loop f i h"
        using True hT by (simp add: unfold h_def Let_def)
      moreover have "h - i < j - i" "h \<le> n" using h less.prems(2) by auto
      ultimately show ?thesis
        using less.hyps [OF _ h(1) _ less.prems(3) above] by simp
    qed
  next
    case False
    then have "search_loop f i j = i" by (simp add: unfold)
    then show ?thesis using less.prems False by auto
  qed
qed

lemma sort_Search_spec:
  assumes mono: "\<And>a b. a \<le> b \<Longrightarrow> b < n \<Longrightarrow> f a \<Longrightarrow> f b"
  shows sort_Search_le: "sort_Search n f \<le> n"
    and sort_Search_before: "a < sort_Search n f \<Longrightarrow> \<not> f a"
    and sort_Search_from: "sort_Search n f \<le> b \<Longrightarrow> b < n \<Longrightarrow> f b"
proof -
  have "sort_Search n f \<le> n \<and> (\<forall>a < sort_Search n f. \<not> f a) \<and>
      (\<forall>b. sort_Search n f \<le> b \<and> b < n \<longrightarrow> f b)"
    unfolding sort_Search_def by (rule search_loop_spec [OF mono]) auto
  then show "sort_Search n f \<le> n" "a < sort_Search n f \<Longrightarrow> \<not> f a"
    "sort_Search n f \<le> b \<Longrightarrow> b < n \<Longrightarrow> f b" by blast+
qed

end
