(* ===== verification/Go_Base.thy ===== *)
theory Go_Base
  imports Prelude
begin

text \<open>
  The parts of Go's standard library that the datastore types rest on: \<^verbatim>\<open>float64\<close>
  as its IEEE 754 bit pattern with Go's \<open>==\<close> and \<open><\<close>, and \<^verbatim>\<open>time.Time\<close> as an
  instant in nanoseconds with the one fact about its location that the code asks for.
  On top of them stand the repository's own time conversions
  (\<^verbatim>\<open>service/datastore/properties.go\<close>) and \<^verbatim>\<open>GeoPoint\<close>
  (\<^verbatim>\<open>service/datastore/types.go\<close>).
\<close>

unbundle bit_operations_syntax

section \<open>float64\<close>

datatype float64 = F64 (f64_bits: "64 word")

definition f64_magnitude :: "float64 \<Rightarrow> nat" where
  "f64_magnitude f = unat (f64_bits f AND 0x7FFFFFFFFFFFFFFF)"

definition f64_is_nan :: "float64 \<Rightarrow> bool" where
  "f64_is_nan f \<longleftrightarrow> f64_magnitude f > 0x7FF0000000000000"

text \<open>Sign and magnitude read as an integer: monotone in the represented number, and
  equal for the two zeros.\<close>

definition f64_rank :: "float64 \<Rightarrow> int" where
  "f64_rank f = (if bit (f64_bits f) 63 then - int (f64_magnitude f) else int (f64_magnitude f))"

definition f64_eq :: "float64 \<Rightarrow> float64 \<Rightarrow> bool" where
  "f64_eq a b \<longleftrightarrow> \<not> f64_is_nan a \<and> \<not> f64_is_nan b \<and> f64_rank a = f64_rank b"

definition f64_less :: "float64 \<Rightarrow> float64 \<Rightarrow> bool" where
  "f64_less a b \<longleftrightarrow> \<not> f64_is_nan a \<and> \<not> f64_is_nan b \<and> f64_rank a < f64_rank b"

definition f64_le :: "float64 \<Rightarrow> float64 \<Rightarrow> bool" where
  "f64_le a b \<longleftrightarrow> f64_less a b \<or> f64_eq a b"

abbreviation f64_zero :: float64 where "f64_zero \<equiv> F64 0"

text \<open>\<^verbatim>\<open>cmpFloat\<close> of \<^verbatim>\<open>properties.go\<close>.\<close>

definition cmpFloat :: "float64 \<Rightarrow> float64 \<Rightarrow> int" where
  "cmpFloat a b = (if f64_eq a b then 0 else if f64_less b a then 1 else -1)"

lemma cmpFloat_rank:
  "\<not> f64_is_nan a \<Longrightarrow> \<not> f64_is_nan b \<Longrightarrow> cmpFloat a b = cmp3 (f64_rank a) (f64_rank b)"
  by (simp add: cmpFloat_def f64_eq_def f64_less_def cmp3_def)

lemma go_compare_cmpFloat: "go_compare (\<lambda>f. \<not> f64_is_nan f) cmpFloat"
  by (rule go_compare_cong [OF go_compare_inv [where f = f64_rank, OF go_compare_cmp3]])
    (auto simp: cmpFloat_rank)

text \<open>Magnitude and sign are the two parts of the bit pattern.\<close>

lemma float_bits:
  "f64_magnitude f < 9223372036854775808"
  "unat (f64_bits f) = f64_magnitude f + (if bit (f64_bits f) 63 then 9223372036854775808 else 0)"
proof -
  define b where "b = f64_bits f"
  have "b AND 0x7FFFFFFFFFFFFFFF = take_bit 63 b" by (simp add: take_bit_eq_mask mask_eq_exp_minus_1)
  then have mag: "f64_magnitude f = unat b mod 2 ^ 63"
    unfolding f64_magnitude_def b_def [symmetric] by (simp only: unsigned_take_bit_eq) (simp add: take_bit_eq_mod)
  then show "f64_magnitude f < 9223372036854775808" by simp
  have "unat b < 2 ^ 64" using unsigned_less [of b] by simp
  then have "unat b div 2 ^ 63 < 2" by simp
  then have "unat b div 2 ^ 63 = 0 \<or> unat b div 2 ^ 63 = 1" by (rule less_2_cases [unfolded One_nat_def [symmetric]])
  moreover have "bit b 63 \<longleftrightarrow> odd (unat b div 2 ^ 63)"
    by (metis bit_iff_odd bit_unsigned_iff possible_bit_nat)
  ultimately have "unat b div 2 ^ 63 = (if bit b 63 then 1 else 0)" by (metis even_zero odd_one)
  then have "unat b = (if bit b 63 then 1 else 0) * 2 ^ 63 + unat b mod 2 ^ 63"
    using div_mult_mod_eq [of "unat b" "2 ^ 63"] by argo
  then show "unat (f64_bits f) = f64_magnitude f + (if bit (f64_bits f) 63 then 9223372036854775808 else 0)"
    unfolding mag b_def [symmetric] by (cases "bit b 63") (simp_all only: if_True if_False, simp_all)
qed

lemma f64_eq_bits:
  assumes "f64_eq a b" "f64_bits a \<noteq> 0x8000000000000000" "f64_bits b \<noteq> 0x8000000000000000"
  shows "a = b"
proof -
  have zero: "f64_magnitude f \<noteq> 0" if "bit (f64_bits f) 63" "f64_bits f \<noteq> 0x8000000000000000" for f
  proof
    assume "f64_magnitude f = 0"
    then have "unat (f64_bits f) = unat (0x8000000000000000 :: 64 word)"
      using float_bits(2) [of f] that(1) by simp
    then show False using that(2) by (simp only: word_unat_eq_iff)
  qed
  have "unat (f64_bits a) = unat (f64_bits b)"
    using assms zero [of a] zero [of b] unfolding float_bits(2) f64_eq_def f64_rank_def
    by (auto split: if_splits)
  then have "f64_bits a = f64_bits b" by (simp only: word_unat_eq_iff)
  then show ?thesis by (rule float64.expand)
qed

section \<open>GeoPoint\<close>

record GeoPoint =
  Lat :: float64
  Lng :: float64

text \<open>The constants are \<open>90\<close> and \<open>180\<close> with either sign.\<close>

definition f64_90 :: float64 where "f64_90 = F64 0x4056800000000000"
definition f64_minus_90 :: float64 where "f64_minus_90 = F64 0xC056800000000000"
definition f64_180 :: float64 where "f64_180 = F64 0x4066800000000000"
definition f64_minus_180 :: float64 where "f64_minus_180 = F64 0xC066800000000000"

definition GeoPoint_Valid :: "GeoPoint \<Rightarrow> bool" where
  "GeoPoint_Valid g \<longleftrightarrow> f64_le f64_minus_90 (Lat g) \<and> f64_le (Lat g) f64_90 \<and>
     f64_le f64_minus_180 (Lng g) \<and> f64_le (Lng g) f64_180"

lemma f64_le_not_nan: "f64_le a b \<Longrightarrow> \<not> f64_is_nan a \<and> \<not> f64_is_nan b"
  by (auto simp: f64_le_def f64_less_def f64_eq_def)

lemma GeoPoint_Valid_not_nan:
  "GeoPoint_Valid g \<Longrightarrow> \<not> f64_is_nan (Lat g) \<and> \<not> f64_is_nan (Lng g)"
  by (auto simp: GeoPoint_Valid_def dest: f64_le_not_nan)

section \<open>time.Time\<close>

text \<open>
  An instant in nanoseconds since the Unix epoch, and whether its location is UTC (the
  code never asks more of a location: \<^verbatim>\<open>timeLocationIsUTC\<close> and \<^verbatim>\<open>Zone()\<close>).
  The zero \<^verbatim>\<open>time.Time\<close> is the start of year 1.
\<close>

datatype gotime = Time (time_ns: int) (time_utc: bool)

definition zero_ns :: int where "zero_ns = - 62135596800 * 1000000000"

definition zero_time :: gotime where "zero_time = Time zero_ns True"

definition time_IsZero :: "gotime \<Rightarrow> bool" where
  "time_IsZero t \<longleftrightarrow> time_ns t = zero_ns"

definition time_Before :: "gotime \<Rightarrow> gotime \<Rightarrow> bool" where
  "time_Before a b \<longleftrightarrow> time_ns a < time_ns b"

definition time_After :: "gotime \<Rightarrow> gotime \<Rightarrow> bool" where
  "time_After a b \<longleftrightarrow> time_ns a > time_ns b"

definition time_Equal :: "gotime \<Rightarrow> gotime \<Rightarrow> bool" where
  "time_Equal a b \<longleftrightarrow> time_ns a = time_ns b"

text \<open>\<^verbatim>\<open>Round(d)\<close>: to the nearest multiple of \<open>d\<close> since the zero time, halves up;
  \<^verbatim>\<open>Truncate(d)\<close>: down to a multiple of \<open>d\<close> since the zero time.\<close>

definition time_Round :: "int \<Rightarrow> gotime \<Rightarrow> gotime" where
  "time_Round d t = (let r = (time_ns t - zero_ns) mod d in
     if r + r < d then Time (time_ns t - r) (time_utc t)
     else Time (time_ns t + (d - r)) (time_utc t))"

definition time_Truncate :: "int \<Rightarrow> gotime \<Rightarrow> gotime" where
  "time_Truncate d t = Time (time_ns t - (time_ns t - zero_ns) mod d) (time_utc t)"

definition time_Add :: "gotime \<Rightarrow> int \<Rightarrow> gotime" where
  "time_Add t d = Time (time_ns t + d) (time_utc t)"

text \<open>\<^verbatim>\<open>Unix()\<close>, \<^verbatim>\<open>Nanosecond()\<close>, and \<^verbatim>\<open>time.Unix(sec, nsec)\<close> in the local zone.\<close>

definition time_Unix :: "gotime \<Rightarrow> int" where
  "time_Unix t = time_ns t div 1000000000"

definition time_Nanosecond :: "gotime \<Rightarrow> int" where
  "time_Nanosecond t = time_ns t mod 1000000000"

definition unix_time :: "int \<Rightarrow> int \<Rightarrow> bool \<Rightarrow> gotime" where
  "unix_time sec nsec utc = Time (sec * 1000000000 + nsec) utc"

definition time_UTC :: "gotime \<Rightarrow> gotime" where
  "time_UTC t = Time (time_ns t) True"

section \<open>The repository's time conversions\<close>

definition RoundTime :: "gotime \<Rightarrow> gotime" where
  "RoundTime t = time_Round 1000 t"

definition minTime :: gotime where
  "minTime = unix_time ((- 9223372036854775808) sdiv 1000000) (((- 9223372036854775808) smod 1000000) * 1000) False"

definition maxTime :: gotime where
  "maxTime = unix_time (9223372036854775807 sdiv 1000000) ((9223372036854775807 smod 1000000) * 1000) False"

definition TimeToInt :: "gotime \<Rightarrow> int64" where
  "TimeToInt t =
     (if time_IsZero t then 0
      else let t = RoundTime t in
        word_of_int (time_Unix t * 1000000 + time_Nanosecond t div 1000))"

definition IntToTime :: "int64 \<Rightarrow> gotime" where
  "IntToTime v =
     (if v = 0 then zero_time
      else time_UTC (RoundTime
        (unix_time (sint v sdiv 1000000) ((sint v smod 1000000) * 1000) False)))"

subsection \<open>Rounding and the round trips\<close>

definition round_us :: "int \<Rightarrow> int" where
  "round_us n = (n + 500) div 1000"

lemma round_us_cases:
  "round_us n = (if n mod 1000 < 500 then n div 1000 else n div 1000 + 1)"
proof -
  have n: "n + 500 = (n mod 1000 + 500) + 1000 * (n div 1000)" by simp
  have "(n + 500) div 1000 = (n mod 1000 + 500) div 1000 + n div 1000"
    by (subst n, subst div_mult_self2) simp_all
  moreover have "(n mod 1000 + 500) div 1000 = (if n mod 1000 < 500 then 0 else 1)"
  proof -
    have "0 \<le> n mod 1000" "n mod 1000 < 1000" by simp_all
    then show ?thesis by (auto simp: div_pos_geq)
  qed
  ultimately show ?thesis by (simp add: round_us_def)
qed

lemma RoundTime_ns: "time_ns (RoundTime t) = round_us (time_ns t) * 1000"
proof -
  define n where "n = time_ns t"
  have "n - zero_ns = n + 1000 * 62135596800000000" by (simp add: zero_ns_def)
  then have "(n - zero_ns) mod 1000 = n mod 1000" by (simp only: mod_mult_self2)
  moreover have "n div 1000 * 1000 = n - n mod 1000" by (rule minus_mod_eq_div_mult [symmetric])
  ultimately show ?thesis
    by (auto simp: RoundTime_def time_Round_def Let_def round_us_cases n_def [symmetric])
qed

lemma RoundTime_utc [simp]: "time_utc (RoundTime t) = time_utc t"
  by (simp add: RoundTime_def time_Round_def Let_def)

lemma RoundTime_eq: "RoundTime t = Time (round_us (time_ns t) * 1000) (time_utc t)"
  by (rule gotime.expand) (simp add: RoundTime_ns)

lemma round_us_exact [simp]: "round_us (n * 1000) = n"
  by (simp add: round_us_cases)

lemma round_us_mono: "m \<le> n \<Longrightarrow> round_us m \<le> round_us n"
  by (simp add: round_us_def zdiv_mono1)

lemma RoundTime_idem [simp]: "RoundTime (RoundTime t) = RoundTime t"
  by (simp add: RoundTime_eq)

lemma RoundTime_zero [simp]: "time_IsZero t \<Longrightarrow> RoundTime t = t"
  by (rule gotime.expand) (simp add: time_IsZero_def RoundTime_eq zero_ns_def round_us_cases)

lemma micros_of_time: "time_Unix t * 1000000 + time_Nanosecond t div 1000 = time_ns t div 1000"
proof -
  define n where "n = time_ns t"
  have n: "n = n mod 1000000000 + 1000 * (n div 1000000000 * 1000000)" by simp
  have "n div 1000 = n mod 1000000000 div 1000 + n div 1000000000 * 1000000"
    by (subst n, subst div_mult_self2) simp_all
  then show ?thesis by (simp add: time_Unix_def time_Nanosecond_def n_def)
qed

lemma TimeToInt_eq:
  "TimeToInt t = (if time_IsZero t then 0 else word_of_int (round_us (time_ns t)))"
proof -
  have "time_ns (RoundTime t) div 1000 = round_us (time_ns t)"
    by (simp add: RoundTime_ns)
  then show ?thesis by (simp add: TimeToInt_def Let_def micros_of_time)
qed

lemma sdiv_smod_micros: "(n sdiv 1000000) * 1000000000 + (n smod 1000000) * 1000 = n * (1000 :: int)"
proof -
  have "n sdiv 1000000 * 1000000 + n smod 1000000 = n" by (rule sdiv_mult_smod_eq)
  then show ?thesis by linarith
qed

lemma IntToTime_eq: "IntToTime v = (if v = 0 then zero_time else Time (sint v * 1000) True)"
  by (simp add: IntToTime_def time_UTC_def RoundTime_eq unix_time_def sdiv_smod_micros)

lemma minTime_ns: "time_ns minTime = - 9223372036854775808 * 1000"
  by (simp add: minTime_def unix_time_def sdiv_smod_micros)

lemma maxTime_ns: "time_ns maxTime = 9223372036854775807 * 1000"
  by (simp add: maxTime_def unix_time_def sdiv_smod_micros)

lemma sint_int64_range: "- 9223372036854775808 \<le> sint (v :: int64) \<and> sint v \<le> 9223372036854775807"
  using sint_greater_eq [of v] sint_less [of v] by simp

lemma sint_word_of_int64:
  assumes "- 9223372036854775808 \<le> n" "n \<le> 9223372036854775807"
  shows "sint (word_of_int n :: int64) = n"
  using assms by (simp add: signed_of_int signed_take_bit_int_eq_self)

lemma TimeToInt_range:
  assumes "\<not> time_Before t minTime" "\<not> time_After t maxTime" "\<not> time_IsZero t"
  shows "sint (TimeToInt t) = round_us (time_ns t)"
proof -
  have "- 9223372036854775808 \<le> round_us (time_ns t)" "round_us (time_ns t) \<le> 9223372036854775807"
    using assms(1,2) round_us_mono [of "- 9223372036854775808 * 1000" "time_ns t"]
      round_us_mono [of "time_ns t" "9223372036854775807 * 1000"]
    unfolding round_us_exact time_Before_def time_After_def minTime_ns maxTime_ns
    by linarith+
  then show ?thesis using assms(3) by (simp add: TimeToInt_eq sint_word_of_int64)
qed

text \<open>
  C40. The conversions between a stored integer and a time: reading back a stored
  microsecond count gives the same count, except that the count of Go's zero time
  becomes 0; storing and reading back a time in the supported range gives that time
  rounded to the nearest microsecond in UTC (\<^verbatim>\<open>TimeToInt\<close> calls \<^verbatim>\<open>RoundTime\<close>, although its comment
  says that it truncates), except that every time that rounds to the Unix epoch
  comes back as Go's zero time, year 1.
\<close>

theorem time_int_round_trip:
  "TimeToInt (IntToTime v) = (if sint v = -62135596800000000 then 0 else v) \<and>
   (\<not> time_Before t minTime \<and> \<not> time_After t maxTime \<longrightarrow>
     IntToTime (TimeToInt t) = (if TimeToInt t = 0 then zero_time else time_UTC (RoundTime t)) \<and>
     (TimeToInt t = 0 \<longleftrightarrow> time_IsZero t \<or> time_ns (RoundTime t) = 0))"
proof (intro conjI impI)
  have "time_IsZero (Time (sint v * 1000) True) \<longleftrightarrow> sint v = -62135596800000000"
    by (simp add: time_IsZero_def zero_ns_def)
  moreover have "time_IsZero zero_time" by (simp add: zero_time_def time_IsZero_def)
  ultimately show "TimeToInt (IntToTime v) = (if sint v = -62135596800000000 then 0 else v)"
    by (auto simp: TimeToInt_eq IntToTime_eq)
next
  assume range: "\<not> time_Before t minTime \<and> \<not> time_After t maxTime"
  have zero: "TimeToInt t = 0 \<longleftrightarrow> time_IsZero t \<or> round_us (time_ns t) = 0"
    using TimeToInt_range [of t] range
    by (cases "time_IsZero t") (auto simp: TimeToInt_eq)
  show "TimeToInt t = 0 \<longleftrightarrow> time_IsZero t \<or> time_ns (RoundTime t) = 0"
    using zero by (simp add: RoundTime_ns)
  show "IntToTime (TimeToInt t) = (if TimeToInt t = 0 then zero_time else time_UTC (RoundTime t))"
    using TimeToInt_range [of t] range zero
    by (auto simp: IntToTime_eq time_UTC_def RoundTime_ns)
qed

theorem time_int_round_trip_witness:
  "\<not> time_Before (Time 1500 True) minTime \<and> \<not> time_After (Time 1500 True) maxTime \<and>
   TimeToInt (IntToTime 7) = 7 \<and> IntToTime (TimeToInt (Time 1500 True)) = Time 2000 True"
proof -
  have range: "\<not> time_Before (Time 1500 True) minTime \<and> \<not> time_After (Time 1500 True) maxTime"
    by (simp add: time_Before_def time_After_def minTime_ns maxTime_ns)
  have round: "RoundTime (Time 1500 True) = Time 2000 True"
    by (simp add: RoundTime_eq round_us_def)
  have "TimeToInt (Time 1500 True) \<noteq> 0"
    using time_int_round_trip [of 7 "Time 1500 True"] range round
    by (simp add: time_IsZero_def zero_ns_def)
  then show ?thesis
    using time_int_round_trip [of 7 "Time 1500 True"] range round by (simp add: time_UTC_def)
qed

end
