(* ===== verification/Keys.thy ===== *)
theory Keys
  imports Go_Base
begin

text \<open>
  \<^verbatim>\<open>service/datastore/key.go\<close>: key tokens, key contexts and keys, with every
  operation except the orderings (\<^verbatim>\<open>Less\<close> needs property comparison and is in
  theory Properties) and the printers. A \<^verbatim>\<open>*Key\<close> that may be nil is a
  \<open>Key option\<close>; an operation that may panic (an index out of range on a key without
  tokens, a bad \<^verbatim>\<open>MakeKey\<close> argument) returns \<open>None\<close> for the panic.
\<close>

section \<open>Data\<close>

record KeyTok =
  Kind :: string
  IntID :: int64
  StringID :: string

record KeyContext =
  AppID :: string
  Namespace :: string

record Key =
  kc :: KeyContext
  toks :: "KeyTok list"

definition mkTok :: "string \<Rightarrow> int64 \<Rightarrow> string \<Rightarrow> KeyTok" where
  "mkTok kind intID stringID = \<lparr>Kind = kind, IntID = intID, StringID = stringID\<rparr>"

section \<open>Tokens\<close>

definition KeyTok_IsIncomplete :: "KeyTok \<Rightarrow> bool" where
  "KeyTok_IsIncomplete t \<longleftrightarrow> StringID t = '''' \<and> IntID t = 0"

definition KeyTok_Special :: "KeyTok \<Rightarrow> bool" where
  "KeyTok_Special t \<longleftrightarrow> length (Kind t) \<ge> 2 \<and> take 2 (Kind t) = ''__'' \<and>
     drop (length (Kind t) - 2) (Kind t) = ''__''"

section \<open>Contexts\<close>

definition MkKeyContext :: "string \<Rightarrow> string \<Rightarrow> KeyContext" where
  "MkKeyContext appID namespace = \<lparr>AppID = appID, Namespace = namespace\<rparr>"

definition KeyContext_Matches :: "KeyContext \<Rightarrow> KeyContext \<Rightarrow> bool" where
  "KeyContext_Matches c o' \<longleftrightarrow> AppID c = AppID o' \<and> Namespace c = Namespace o'"

definition NewKeyToks :: "KeyContext \<Rightarrow> KeyTok list \<Rightarrow> Key option" where
  "NewKeyToks c ts = (if ts = [] then None else Some \<lparr>kc = c, toks = ts\<rparr>)"

definition NewKey :: "KeyContext \<Rightarrow> string \<Rightarrow> string \<Rightarrow> int64 \<Rightarrow> Key option \<Rightarrow> Key" where
  "NewKey c kind stringID intID parent =
     (case parent of
        None \<Rightarrow> \<lparr>kc = c, toks = [mkTok kind intID stringID]\<rparr>
      | Some p \<Rightarrow> \<lparr>kc = c, toks = toks p @ [mkTok kind intID stringID]\<rparr>)"

text \<open>The variadic arguments of \<^verbatim>\<open>MakeKey\<close>, by dynamic type; \<open>ElemInt\<close> stands for
  the five integer types its switch accepts, each already converted to \<^verbatim>\<open>int64\<close>.\<close>

datatype elem = ElemString string | ElemInt int64 | ElemOther

fun makeToks :: "elem list \<Rightarrow> KeyTok list option" where
  "makeToks [] = Some []"
| "makeToks (ElemString knd # ElemString x # es) =
     map_option ((#) (mkTok knd 0 x)) (makeToks es)"
| "makeToks (ElemString knd # ElemInt x # es) =
     map_option ((#) (mkTok knd x '''')) (makeToks es)"
| "makeToks _ = None"

definition MakeKey :: "KeyContext \<Rightarrow> elem list \<Rightarrow> Key option option" where
  "MakeKey c elems =
     (if elems = [] then Some None
      else if length elems mod 2 \<noteq> 0 then None
      else map_option (NewKeyToks c) (makeToks elems))"

section \<open>Accessors\<close>

definition LastTok :: "Key \<Rightarrow> KeyTok option" where
  "LastTok k = (if toks k = [] then None else Some (last (toks k)))"

definition Key_AppID :: "Key \<Rightarrow> string" where "Key_AppID k = AppID (kc k)"

definition Key_Namespace :: "Key \<Rightarrow> string" where "Key_Namespace k = Namespace (kc k)"

definition Key_Kind :: "Key \<Rightarrow> string option" where
  "Key_Kind k = map_option Kind (LastTok k)"

definition Key_StringID :: "Key \<Rightarrow> string option" where
  "Key_StringID k = map_option StringID (LastTok k)"

definition Key_IntID :: "Key \<Rightarrow> int64 option" where
  "Key_IntID k = map_option IntID (LastTok k)"

definition Key_IsIncomplete :: "Key \<Rightarrow> bool option" where
  "Key_IsIncomplete k = map_option KeyTok_IsIncomplete (LastTok k)"

definition Key_Split :: "Key \<Rightarrow> string \<times> string \<times> KeyTok list" where
  "Key_Split k = (AppID (kc k), Namespace (kc k), toks k)"

definition Key_Parent :: "Key \<Rightarrow> Key option" where
  "Key_Parent k = (if length (toks k) \<le> 1 then None else NewKeyToks (kc k) (butlast (toks k)))"

definition Key_Root :: "Key \<Rightarrow> Key" where
  "Key_Root k = (if length (toks k) > 1 then k\<lparr>toks := take 1 (toks k)\<rparr> else k)"

section \<open>Validity\<close>

definition tok_valid :: "bool \<Rightarrow> KeyTok \<Rightarrow> bool" where
  "tok_valid allowSpecial t \<longleftrightarrow>
     (if KeyTok_IsIncomplete t then False
      else if \<not> allowSpecial \<and> KeyTok_Special t then False
      else if Kind t = '''' then False
      else if StringID t \<noteq> '''' \<and> IntID t \<noteq> 0 then False
      else True)"

definition Key_Valid :: "Key \<Rightarrow> bool \<Rightarrow> KeyContext \<Rightarrow> bool" where
  "Key_Valid k allowSpecial c \<longleftrightarrow>
     (if \<not> KeyContext_Matches c (kc k) then False
      else list_all (tok_valid allowSpecial) (toks k))"

definition PartialValid :: "Key \<Rightarrow> KeyContext \<Rightarrow> bool option" where
  "PartialValid k c =
     Option.bind (Key_IsIncomplete k) (\<lambda>inc.
       if inc then
         (if \<not> KeyContext_Matches c (kc k) then Some False
          else Option.bind (Key_Kind k) (\<lambda>kind.
            Some (Key_Valid (NewKey c kind '''' 1 (Key_Parent k)) False c)))
       else Some (Key_Valid k False c))"

section \<open>Relations and derived keys\<close>

definition HasAncestor :: "Key \<Rightarrow> Key \<Rightarrow> bool" where
  "HasAncestor k other \<longleftrightarrow>
     (if \<not> KeyContext_Matches (kc k) (kc other) then False
      else if length (toks k) < length (toks other) then False
      else \<forall>i < length (toks other). toks other ! i = toks k ! i)"

definition IncompleteEqual :: "Key \<Rightarrow> Key \<Rightarrow> bool" where
  "IncompleteEqual k other \<longleftrightarrow>
     KeyContext_Matches (kc k) (kc other) \<and> length (toks k) = length (toks other) \<and>
     (\<forall>i < length (toks k).
        (if i = length (toks k) - 1 then Kind (toks k ! i) = Kind (toks other ! i)
         else toks k ! i = toks other ! i))"

definition Key_Equal :: "Key \<Rightarrow> Key \<Rightarrow> bool option" where
  "Key_Equal k other =
     (if IncompleteEqual k other then
        Option.bind (LastTok k) (\<lambda>a. Option.bind (LastTok other) (\<lambda>b. Some (a = b)))
      else Some False)"

definition Key_Incomplete :: "Key \<Rightarrow> Key option" where
  "Key_Incomplete k =
     Option.bind (Key_IsIncomplete k) (\<lambda>inc.
       if inc then Some k
       else Option.bind (Key_Kind k) (\<lambda>kind. Some (NewKey (kc k) kind '''' 0 (Key_Parent k))))"

definition WithID :: "Key \<Rightarrow> string \<Rightarrow> int64 \<Rightarrow> Key option" where
  "WithID k stringID intID =
     Option.bind (LastTok k) (\<lambda>t.
       if StringID t = stringID \<and> IntID t = intID then Some k
       else Some (NewKey (kc k) (Kind t) stringID intID (Key_Parent k)))"

definition Key_EstimateSize :: "Key \<Rightarrow> int" where
  "Key_EstimateSize k =
     foldl (\<lambda>ret t. ret + int (length (Kind t)) +
              (if StringID t \<noteq> '''' then int (length (StringID t)) else 8))
       (int (length (AppID (kc k))) + int (length (Namespace (kc k)))) (toks k)"

section \<open>Lemmas\<close>

text \<open>Every key that \<^verbatim>\<open>NewKey\<close>, \<^verbatim>\<open>NewKeyToks\<close> or \<^verbatim>\<open>MakeKey\<close> builds has a token.\<close>

lemma Matches_eq [simp]: "KeyContext_Matches c c' \<longleftrightarrow> c = c'"
  by (auto simp: KeyContext_Matches_def)

lemma LastTok_Some: "toks k \<noteq> [] \<Longrightarrow> LastTok k = Some (last (toks k))"
  by (simp add: LastTok_def)

lemma NewKey_nonempty [simp]: "toks (NewKey c kind s i p) \<noteq> []"
  by (cases p) (simp_all add: NewKey_def)

lemma Key_Parent_toks: "Key_Parent k = Some p \<Longrightarrow> toks p = butlast (toks k) \<and> kc p = kc k"
  by (auto simp: Key_Parent_def NewKeyToks_def split: if_splits)

lemma NewKey_Parent:
  assumes "toks k \<noteq> []"
  shows "NewKey c kind s i (Key_Parent k) =
    \<lparr>kc = c, toks = butlast (toks k) @ [mkTok kind i s]\<rparr>"
proof (cases "length (toks k) \<le> 1")
  case True
  then have "butlast (toks k) = []" using assms by (cases "toks k") auto
  then show ?thesis using True by (simp add: NewKey_def Key_Parent_def)
next
  case False
  then have "butlast (toks k) \<noteq> []" using assms by (cases "toks k") (auto split: if_splits)
  then show ?thesis using False by (simp add: NewKey_def Key_Parent_def NewKeyToks_def)
qed

lemma HasAncestor_iff:
  "HasAncestor k other \<longleftrightarrow> kc k = kc other \<and> take (length (toks other)) (toks k) = toks other"
proof -
  have "take (length (toks other)) (toks k) = toks other \<longleftrightarrow>
      \<not> length (toks k) < length (toks other) \<and> (\<forall>i < length (toks other). toks other ! i = toks k ! i)"
    by (auto simp: list_eq_iff_nth_eq)
  then show ?thesis by (auto simp: HasAncestor_def)
qed

lemma all_less_Suc: "(\<forall>i < Suc n. if i = n then P i else Q i) \<longleftrightarrow> (\<forall>i < n. Q i) \<and> P n"
  by (auto simp: less_Suc_eq)

lemma IncompleteEqual_iff:
  assumes "toks k \<noteq> []"
  shows "IncompleteEqual k other \<longleftrightarrow>
    kc k = kc other \<and> toks other \<noteq> [] \<and> butlast (toks k) = butlast (toks other) \<and>
    Kind (last (toks k)) = Kind (last (toks other))"
proof -
  obtain xs x where k: "toks k = xs @ [x]" using assms by (metis rev_exhaust)
  show ?thesis
  proof (cases "toks other" rule: rev_cases)
    case (snoc ys y)
    define P where "P \<longleftrightarrow> (\<forall>i < Suc (length xs).
        if i = length xs then Kind ((xs @ [x]) ! i) = Kind ((ys @ [y]) ! i)
        else (xs @ [x]) ! i = (ys @ [y]) ! i)"
    have eq: "P \<longleftrightarrow> xs = ys \<and> Kind x = Kind y" if len: "length xs = length ys"
    proof -
      have "(\<forall>i < length xs. (xs @ [x]) ! i = (ys @ [y]) ! i) \<longleftrightarrow> xs = ys"
        using len by (auto simp: list_eq_iff_nth_eq nth_append)
      moreover have "(xs @ [x]) ! length xs = x" "(ys @ [y]) ! length xs = y"
        using len by (simp_all add: nth_append)
      ultimately show ?thesis unfolding P_def all_less_Suc by simp
    qed
    have "IncompleteEqual k other \<longleftrightarrow> kc k = kc other \<and> length xs = length ys \<and> P"
      by (simp only: IncompleteEqual_def Matches_eq k snoc length_append_singleton diff_Suc_1
          nat.inject P_def)
    also have "\<dots> \<longleftrightarrow> kc k = kc other \<and> xs = ys \<and> Kind x = Kind y" using eq by blast
    finally show ?thesis using k snoc by simp
  qed (use k in \<open>simp add: IncompleteEqual_def\<close>)
qed

lemma Key_eqI: "kc a = kc b \<Longrightarrow> toks a = toks b \<Longrightarrow> a = (b :: Key)"
  by (cases a; cases b) simp

lemma Key_Equal_iff:
  assumes "toks k \<noteq> []" "toks other \<noteq> []"
  shows "Key_Equal k other = Some (k = other)"
proof -
  have "k = other \<longleftrightarrow> kc k = kc other \<and> toks k = toks other"
    by (auto intro: Key_eqI)
  also have "\<dots> \<longleftrightarrow> IncompleteEqual k other \<and> last (toks k) = last (toks other)"
    using assms by (auto simp: IncompleteEqual_iff) (metis append_butlast_last_id)
  finally show ?thesis using assms by (simp add: Key_Equal_def LastTok_Some)
qed

lemma WithID_toks:
  "toks k \<noteq> [] \<Longrightarrow>
   WithID k s i = Some (k\<lparr>toks := butlast (toks k) @ [mkTok (Kind (last (toks k))) i s]\<rparr>)"
proof -
  assume ne: "toks k \<noteq> []"
  show ?thesis
  proof (cases "StringID (last (toks k)) = s \<and> IntID (last (toks k)) = i")
    case True
    then have "mkTok (Kind (last (toks k))) i s = last (toks k)"
      by (cases "last (toks k)") (simp add: mkTok_def)
    then show ?thesis using ne True by (simp add: WithID_def LastTok_Some)
  next
    case False
    then show ?thesis
      using ne by (cases k) (auto simp: WithID_def LastTok_Some NewKey_Parent)
  qed
qed

lemma list_all_last:
  "xs \<noteq> [] \<Longrightarrow> list_all P xs \<longleftrightarrow> list_all P (butlast xs) \<and> P (last xs)"
  by (induction xs) auto

lemma PartialValid_eq:
  assumes "toks k \<noteq> []"
  shows "PartialValid k c = Some (kc k = c \<and> list_all (tok_valid False) (butlast (toks k)) \<and>
    (if KeyTok_IsIncomplete (last (toks k)) then tok_valid False (mkTok (Kind (last (toks k))) 1 '''')
     else tok_valid False (last (toks k))))"
  using assms by (auto simp: PartialValid_def Key_IsIncomplete_def Key_Kind_def LastTok_Some
      NewKey_Parent Key_Valid_def list_all_last)

text \<open>
  A key that \<^verbatim>\<open>PartialValid\<close> accepts for a Put becomes valid once the store fills
  in the last token's ID: for a non-nil key, \<^verbatim>\<open>PartialValid\<close> holds exactly when the key is
  already valid, or is incomplete and \<^verbatim>\<open>WithID\<close> with any integer ID other than 0 makes it
  valid; and such a completion is \<^verbatim>\<open>IncompleteEqual\<close> to the key.
\<close>

theorem PartialValid_completes:
  assumes "toks k \<noteq> []" and "i \<noteq> 0"
  shows "PartialValid k c = Some (Key_Valid k False c \<or>
      Key_IsIncomplete k = Some True \<and> (\<exists>k'. WithID k '''' i = Some k' \<and> Key_Valid k' False c))
    \<and> (\<exists>k'. WithID k '''' i = Some k' \<and> IncompleteEqual k k')"
proof -
  have "tok_valid False (mkTok knd i '''') = tok_valid False (mkTok knd 1 '''')" for knd
    using assms(2) by (simp add: tok_valid_def mkTok_def KeyTok_IsIncomplete_def KeyTok_Special_def)
  moreover have "\<not> tok_valid False t" if "KeyTok_IsIncomplete t" for t
    using that by (simp add: tok_valid_def)
  ultimately show ?thesis
    using assms(1) by (auto simp: PartialValid_eq WithID_toks Key_Valid_def list_all_last
        Key_IsIncomplete_def LastTok_Some IncompleteEqual_iff) (simp_all add: mkTok_def)
qed

theorem PartialValid_completes_witness:
  "PartialValid \<lparr>kc = MkKeyContext ''a'' ''n'', toks = [mkTok ''K'' 0 '''']\<rparr> (MkKeyContext ''a'' ''n'')
     = Some True \<and>
   (\<exists>k'. WithID \<lparr>kc = MkKeyContext ''a'' ''n'', toks = [mkTok ''K'' 0 '''']\<rparr> '''' 7 = Some k' \<and>
     Key_Valid k' False (MkKeyContext ''a'' ''n''))"
proof -
  let ?k = "\<lparr>kc = MkKeyContext ''a'' ''n'', toks = [mkTok ''K'' 0 '''']\<rparr>"
  have ne: "toks ?k \<noteq> []" and i: "(7 :: int64) \<noteq> 0" by simp_all
  have v: "PartialValid ?k (MkKeyContext ''a'' ''n'') = Some True" by code_simp
  have nv: "\<not> Key_Valid ?k False (MkKeyContext ''a'' ''n'')" by code_simp
  show ?thesis
    using PartialValid_completes [OF ne i, of "MkKeyContext ''a'' ''n''"] v nv by auto
qed

text \<open>
  \<^verbatim>\<open>HasAncestor\<close> is the ancestor relation of the key hierarchy: reflexive,
  transitive and antisymmetric; every non-root key descends from its \<^verbatim>\<open>Parent\<close>, which
  is the key without its last token; every key descends from its \<^verbatim>\<open>Root\<close>; and two keys
  with a common descendant are comparable, so the ancestors of a key form a chain.
\<close>

theorem HasAncestor_hierarchy:
  "HasAncestor k k \<and>
   (HasAncestor a b \<and> HasAncestor b c \<longrightarrow> HasAncestor a c) \<and>
   (HasAncestor a b \<and> HasAncestor b a \<longrightarrow> a = b) \<and>
   (\<forall>p. Key_Parent k = Some p \<longrightarrow> HasAncestor k p \<and> toks p \<noteq> [] \<and>
      (\<exists>t. toks k = toks p @ [t])) \<and>
   HasAncestor k (Key_Root k) \<and>
   (HasAncestor k a \<and> HasAncestor k b \<longrightarrow> HasAncestor a b \<or> HasAncestor b a)"
proof (intro conjI allI impI)
  show "HasAncestor k k" by (simp add: HasAncestor_iff)
  show "HasAncestor a c" if "HasAncestor a b \<and> HasAncestor b c"
    using that by (auto simp: HasAncestor_iff) (metis min.absorb_iff1 nat_le_linear take_all take_take)
  show "a = b" if "HasAncestor a b \<and> HasAncestor b a"
  proof -
    have pre: "kc a = kc b" "take (length (toks b)) (toks a) = toks b"
      "take (length (toks a)) (toks b) = toks a"
      using that unfolding HasAncestor_iff by blast+
    then have "length (toks b) \<le> length (toks a)" "length (toks a) \<le> length (toks b)"
      by (metis length_take min.cobounded1 min.cobounded2)+
    then have "toks a = toks b" using pre(2) by simp
    then show ?thesis using pre(1) by (rule Key_eqI [rotated])
  qed
  show "HasAncestor k (Key_Root k)"
    by (auto simp: HasAncestor_iff Key_Root_def)
  show "HasAncestor a b \<or> HasAncestor b a" if "HasAncestor k a \<and> HasAncestor k b"
    using that by (auto simp: HasAncestor_iff) (metis min.absorb_iff1 nat_le_linear take_take)
next
  fix p assume p: "Key_Parent k = Some p"
  then have ne: "toks p \<noteq> []" by (auto simp: Key_Parent_def NewKeyToks_def split: if_splits)
  then have toks: "toks p = butlast (toks k)" "kc p = kc k" "toks k \<noteq> []"
    using Key_Parent_toks [OF p] by auto
  show "HasAncestor k p" using toks by (simp add: HasAncestor_iff butlast_conv_take)
  show "toks p \<noteq> []" by (rule ne)
  show "\<exists>t. toks k = toks p @ [t]" using toks by (metis append_butlast_last_id)
qed

theorem HasAncestor_hierarchy_witness:
  "\<exists>k p. Key_Parent k = Some p \<and> HasAncestor k p \<and> HasAncestor k (Key_Root k)"
proof -
  let ?k = "\<lparr>kc = MkKeyContext ''a'' '''', toks = [mkTok ''P'' 1 '''', mkTok ''C'' 2 '''']\<rparr>"
  let ?p = "\<lparr>kc = MkKeyContext ''a'' '''', toks = [mkTok ''P'' 1 '''']\<rparr>"
  have "Key_Parent ?k = Some ?p" by (simp add: Key_Parent_def NewKeyToks_def)
  then show ?thesis using HasAncestor_hierarchy [of ?k] by blast
qed

end
