(* ===== verification/Properties.thy ===== *)
theory Properties
  imports Keys
begin

text \<open>
  \<^verbatim>\<open>service/datastore/properties.go\<close> and the orderings of
  \<^verbatim>\<open>service/datastore/key.go\<close>: property types and values, \<^verbatim>\<open>SetValue\<close>,
  \<^verbatim>\<open>IndexTypeAndValue\<close>, \<^verbatim>\<open>Project\<close>, \<^verbatim>\<open>Compare\<close>, size estimates, and
  \<^verbatim>\<open>PropertyMap\<close>. The property type and the stored value of a Go \<^verbatim>\<open>Property\<close> are
  private and always set together by \<^verbatim>\<open>SetValue\<close>; here one datatype holds both.
\<close>

section \<open>Types and values\<close>

datatype PropertyType = PTNull | PTInt | PTTime | PTBool | PTBytes | PTString | PTFloat
  | PTGeoPoint | PTKey | PTBlobKey | PTUnknown

text \<open>The byte value of the type constant (an \<^verbatim>\<open>iota\<close>).\<close>

fun pt_num :: "PropertyType \<Rightarrow> nat" where
  "pt_num PTNull = 0" | "pt_num PTInt = 1" | "pt_num PTTime = 2" | "pt_num PTBool = 3"
| "pt_num PTBytes = 4" | "pt_num PTString = 5" | "pt_num PTFloat = 6" | "pt_num PTGeoPoint = 7"
| "pt_num PTKey = 8" | "pt_num PTBlobKey = 9" | "pt_num PTUnknown = 10"

text \<open>
  A Go \<^verbatim>\<open>interface{}\<close> value by its dynamic type. The \<open>GConv\<close> constructors are the
  values whose own type is no property type but whose \<^verbatim>\<open>reflect.Kind\<close>
  \<^verbatim>\<open>UpconvertUnderlyingType\<close> converts (\<^verbatim>\<open>int16\<close>, \<^verbatim>\<open>type Foo string\<close>, ...), holding
  what \<^verbatim>\<open>v.Int()\<close>, \<^verbatim>\<open>v.Bool()\<close>, ... return; \<open>GUint32\<close> is the unsigned kinds
  of at most 32 bits; \<open>GNilKey\<close> is a nil \<^verbatim>\<open>*Key\<close>.
\<close>

datatype goval =
    GNil | GInt int64 | GBool bool | GString string | GBlobKey string | GFloat float64
  | GBytes "byte list" | GTime gotime | GGeo GeoPoint | GKey Key | GNilKey
  | GConvInt int64 | GUint32 uint32 | GConvBool bool | GConvString string | GConvFloat float64
  | GConvBytes "byte list" | GOther

text \<open>The internal storage of a property: \<^verbatim>\<open>propType\<close> with \<^verbatim>\<open>value\<close>.\<close>

datatype pval = PNil | PInt int64 | PBool bool | PFloat float64 | PTimeV gotime
  | PGeo GeoPoint | PKeyV Key | PString string | PBlobKey string | PBytes "byte list"

text \<open>\<^verbatim>\<open>IndexSetting\<close>: \<open>False\<close> is \<^verbatim>\<open>ShouldIndex\<close>, \<open>True\<close> is \<^verbatim>\<open>NoIndex\<close>.\<close>

abbreviation (input) ShouldIndex :: bool where "ShouldIndex \<equiv> False"
abbreviation (input) NoIndex :: bool where "NoIndex \<equiv> True"

record Property =
  pvalue :: pval
  indexSetting :: bool

datatype perror = TimeOutOfRange | TimeWrongLocation | InvalidGeoPoint | BadType | CannotProject

section \<open>SetValue\<close>

definition timeLocationIsUTC :: "gotime \<Rightarrow> bool" where
  "timeLocationIsUTC t = time_utc t"

definition PropertyTypeOf :: "goval \<Rightarrow> bool \<Rightarrow> PropertyType \<times> perror option" where
  "PropertyTypeOf v checkValid =
     (case v of
        GNil \<Rightarrow> (PTNull, None)
      | GInt _ \<Rightarrow> (PTInt, None)
      | GFloat _ \<Rightarrow> (PTFloat, None)
      | GBool _ \<Rightarrow> (PTBool, None)
      | GBytes _ \<Rightarrow> (PTBytes, None)
      | GBlobKey _ \<Rightarrow> (PTBlobKey, None)
      | GString _ \<Rightarrow> (PTString, None)
      | GKey _ \<Rightarrow> (PTKey, None)
      | GNilKey \<Rightarrow> (PTKey, None)
      | GTime x \<Rightarrow>
          (let err = (if checkValid \<and> (time_Before x minTime \<or> time_After x maxTime)
                      then Some TimeOutOfRange else None);
               err = (if checkValid \<and> \<not> timeLocationIsUTC x then Some TimeWrongLocation else err)
           in (PTTime, err))
      | GGeo x \<Rightarrow> (PTGeoPoint, if checkValid \<and> \<not> GeoPoint_Valid x then Some InvalidGeoPoint else None)
      | _ \<Rightarrow> (PTUnknown, Some BadType))"

definition UpconvertUnderlyingType :: "goval \<Rightarrow> goval" where
  "UpconvertUnderlyingType v =
     (case v of
        GConvInt i \<Rightarrow> GInt i
      | GUint32 u \<Rightarrow> GInt (ucast u)
      | GConvBool b \<Rightarrow> GBool b
      | GConvString s \<Rightarrow> GString s
      | GConvFloat f \<Rightarrow> GFloat f
      | GConvBytes bs \<Rightarrow> GBytes bs
      | GTime t \<Rightarrow> if \<not> time_IsZero t then GTime (RoundTime t) else GTime t
      | GNilKey \<Rightarrow> GNil
      | _ \<Rightarrow> v)"

definition SetValue :: "goval \<Rightarrow> bool \<Rightarrow> perror + Property" where
  "SetValue val is =
     (let val = (if val \<noteq> GNil then UpconvertUnderlyingType val else val) in
      case (if val \<noteq> GNil then snd (PropertyTypeOf val True) else None) of
        Some err \<Rightarrow> Inl err
      | None \<Rightarrow>
          (case val of
             GNil \<Rightarrow> Inr \<lparr>pvalue = PNil, indexSetting = is\<rparr>
           | GInt i \<Rightarrow> Inr \<lparr>pvalue = PInt i, indexSetting = is\<rparr>
           | GBool b \<Rightarrow> Inr \<lparr>pvalue = PBool b, indexSetting = is\<rparr>
           | GFloat f \<Rightarrow> Inr \<lparr>pvalue = PFloat f, indexSetting = is\<rparr>
           | GGeo g \<Rightarrow> Inr \<lparr>pvalue = PGeo g, indexSetting = is\<rparr>
           | GKey k \<Rightarrow> Inr \<lparr>pvalue = PKeyV k, indexSetting = is\<rparr>
           | GString s \<Rightarrow> Inr \<lparr>pvalue = PString s, indexSetting = is\<rparr>
           | GBlobKey s \<Rightarrow> Inr \<lparr>pvalue = PBlobKey s, indexSetting = is\<rparr>
           | GBytes bs \<Rightarrow> Inr \<lparr>pvalue = PBytes bs, indexSetting = is\<rparr>
           | GTime t \<Rightarrow> Inr \<lparr>pvalue = PTimeV (RoundTime t), indexSetting = is\<rparr>
           | _ \<Rightarrow> Inl BadType))"

text \<open>\<^verbatim>\<open>MkProperty\<close> and \<^verbatim>\<open>MkPropertyNI\<close> panic where \<^verbatim>\<open>SetValue\<close> fails.\<close>

definition MkProperty :: "goval \<Rightarrow> Property option" where
  "MkProperty val = (case SetValue val ShouldIndex of Inl _ \<Rightarrow> None | Inr p \<Rightarrow> Some p)"

definition MkPropertyNI :: "goval \<Rightarrow> Property option" where
  "MkPropertyNI val = (case SetValue val NoIndex of Inl _ \<Rightarrow> None | Inr p \<Rightarrow> Some p)"

section \<open>Reading a property\<close>

definition Property_Type :: "Property \<Rightarrow> PropertyType" where
  "Property_Type p =
     (case pvalue p of PNil \<Rightarrow> PTNull | PInt _ \<Rightarrow> PTInt | PBool _ \<Rightarrow> PTBool | PFloat _ \<Rightarrow> PTFloat
      | PTimeV _ \<Rightarrow> PTTime | PGeo _ \<Rightarrow> PTGeoPoint | PKeyV _ \<Rightarrow> PTKey | PString _ \<Rightarrow> PTString
      | PBlobKey _ \<Rightarrow> PTBlobKey | PBytes _ \<Rightarrow> PTBytes)"

definition Property_Value :: "Property \<Rightarrow> goval" where
  "Property_Value p =
     (case pvalue p of PNil \<Rightarrow> GNil | PInt i \<Rightarrow> GInt i | PBool b \<Rightarrow> GBool b | PFloat f \<Rightarrow> GFloat f
      | PTimeV t \<Rightarrow> GTime t | PGeo g \<Rightarrow> GGeo g | PKeyV k \<Rightarrow> GKey k | PString s \<Rightarrow> GString s
      | PBlobKey s \<Rightarrow> GBlobKey s | PBytes bs \<Rightarrow> GBytes bs)"

definition IndexTypeAndValue :: "Property \<Rightarrow> PropertyType \<times> goval" where
  "IndexTypeAndValue p =
     (case pvalue p of
        PTimeV t \<Rightarrow> (PTInt, GInt (TimeToInt t))
      | PString s \<Rightarrow> (PTString, GString s)
      | PBlobKey s \<Rightarrow> (PTString, GString s)
      | PBytes bs \<Rightarrow> (PTString, GBytes bs)
      | _ \<Rightarrow> (Property_Type p, Property_Value p))"

definition project_bytes :: "byte list \<Rightarrow> PropertyType \<Rightarrow> perror + goval" where
  "project_bytes bs to =
     (case to of PTBytes \<Rightarrow> Inr (GBytes bs) | PTString \<Rightarrow> Inr (GString (bytes_str bs))
      | PTBlobKey \<Rightarrow> Inr (GBlobKey (bytes_str bs)) | _ \<Rightarrow> Inl CannotProject)"

definition Project :: "Property \<Rightarrow> PropertyType \<Rightarrow> perror + goval" where
  "Project p to =
     (if to = PTNull then Inr GNil
      else case pvalue p of
        PBytes bs \<Rightarrow> project_bytes bs to
      | PString s \<Rightarrow> project_bytes (str_bytes s) to
      | PBlobKey s \<Rightarrow> project_bytes (str_bytes s) to
      | PTimeV t \<Rightarrow> (case to of PTInt \<Rightarrow> Inr (GInt (TimeToInt t)) | PTTime \<Rightarrow> Inr (GTime t)
                     | _ \<Rightarrow> Inl CannotProject)
      | PInt i \<Rightarrow> (case to of PTInt \<Rightarrow> Inr (GInt i) | PTTime \<Rightarrow> Inr (GTime (IntToTime i))
                   | _ \<Rightarrow> Inl CannotProject)
      | PNil \<Rightarrow>
          (case to of PTInt \<Rightarrow> Inr (GInt 0) | PTTime \<Rightarrow> Inr (GTime zero_time) | PTBool \<Rightarrow> Inr (GBool False)
           | PTBytes \<Rightarrow> Inr (GBytes []) | PTString \<Rightarrow> Inr (GString '''') | PTFloat \<Rightarrow> Inr (GFloat f64_zero)
           | PTGeoPoint \<Rightarrow> Inr (GGeo \<lparr>Lat = f64_zero, Lng = f64_zero\<rparr>) | PTKey \<Rightarrow> Inr GNil
           | PTBlobKey \<Rightarrow> Inr (GBlobKey '''') | _ \<Rightarrow> Inl CannotProject)
      | _ \<Rightarrow> if Property_Type p = to then Inr (Property_Value p) else Inl CannotProject)"

section \<open>Comparison\<close>

text \<open>The byte-by-byte comparison of two sequences of different representations.\<close>

fun cmpBytesSlow :: "byte list \<Rightarrow> byte list \<Rightarrow> int" where
  "cmpBytesSlow (x # xs) (y # ys) =
     (if x < y then -1 else if x > y then 1 else cmpBytesSlow xs ys)"
| "cmpBytesSlow xs ys = int (length xs) - int (length ys)"

text \<open>\<^verbatim>\<open>cmpByteSequence\<close>: the fast comparison where both sides have the same
  representation (\<^verbatim>\<open>bytes.Compare\<close>, string comparison), the slow one otherwise.\<close>

definition cmpByteSequence :: "goval \<Rightarrow> goval \<Rightarrow> int" where
  "cmpByteSequence a b =
     (case (a, b) of
        (GString s, GString t) \<Rightarrow> (if s = t then 0 else if s < t then -1 else 1)
      | (GBytes s, GBytes t) \<Rightarrow> cmp3 s t
      | (GString s, GBytes t) \<Rightarrow> cmpBytesSlow (str_bytes s) t
      | (GBytes s, GString t) \<Rightarrow> cmpBytesSlow s (str_bytes t)
      | _ \<Rightarrow> 0)"

text \<open>
  \<^verbatim>\<open>Property.Compare\<close>, over the comparison of two key values: keys are compared
  token by token, and tokens by comparing the properties of their IDs, which are
  integers or strings. Where the index types are equal, so are the shapes of the index
  values, and the last line (the code's panic) is not reached.
\<close>

definition prop_compare :: "(Key \<Rightarrow> Key \<Rightarrow> int) \<Rightarrow> Property \<Rightarrow> Property \<Rightarrow> int" where
  "prop_compare keycmp p other =
     (if indexSetting p \<and> \<not> indexSetting other then 1
      else if \<not> indexSetting p \<and> indexSetting other then -1
      else let (at, av) = IndexTypeAndValue p; (bt, bv) = IndexTypeAndValue other;
               cmp = int (pt_num at) - int (pt_num bt)
           in if cmp \<noteq> 0 then cmp
              else case at of
                PTNull \<Rightarrow> 0
              | PTString \<Rightarrow> cmpByteSequence av bv
              | _ \<Rightarrow>
                 (case (av, bv) of
                    (GBool a, GBool b) \<Rightarrow> (if a = b then 0 else if a \<and> \<not> b then 1 else -1)
                  | (GInt a, GInt b) \<Rightarrow> (if a = b then 0 else if sint a > sint b then 1 else -1)
                  | (GFloat a, GFloat b) \<Rightarrow> cmpFloat a b
                  | (GGeo a, GGeo b) \<Rightarrow>
                      (if cmpFloat (Lat a) (Lat b) \<noteq> 0 then cmpFloat (Lat a) (Lat b)
                       else cmpFloat (Lng a) (Lng b))
                  | (GKey a, GKey b) \<Rightarrow> keycmp a b
                  | _ \<Rightarrow> 0))"

definition KeyTok_ID :: "KeyTok \<Rightarrow> Property" where
  "KeyTok_ID t = (if StringID t \<noteq> '''' then \<lparr>pvalue = PString (StringID t), indexSetting = ShouldIndex\<rparr>
     else \<lparr>pvalue = PInt (IntID t), indexSetting = ShouldIndex\<rparr>)"

definition KeyTok_Less :: "KeyTok \<Rightarrow> KeyTok \<Rightarrow> bool" where
  "KeyTok_Less k other \<longleftrightarrow>
     (if Kind k < Kind other then True
      else if Kind k > Kind other then False
      else prop_compare (\<lambda>_ _. 0) (KeyTok_ID k) (KeyTok_ID other) < 0)"

fun toks_less :: "KeyTok list \<Rightarrow> KeyTok list \<Rightarrow> bool" where
  "toks_less (a # as) (b # bs) =
     (if KeyTok_Less a b then True else if KeyTok_Less b a then False else toks_less as bs)"
| "toks_less as bs \<longleftrightarrow> length as < length bs"

definition Key_Less :: "Key \<Rightarrow> Key \<Rightarrow> bool" where
  "Key_Less k other \<longleftrightarrow>
     (if AppID (kc k) < AppID (kc other) then True
      else if AppID (kc k) > AppID (kc other) then False
      else if Namespace (kc k) < Namespace (kc other) then True
      else if Namespace (kc k) > Namespace (kc other) then False
      else toks_less (toks k) (toks other))"

definition key_compare :: "Key \<Rightarrow> Key \<Rightarrow> int" where
  "key_compare a b = (if Key_Equal a b = Some True then 0 else if Key_Less b a then 1 else -1)"

definition Compare :: "Property \<Rightarrow> Property \<Rightarrow> int" where
  "Compare p other = prop_compare key_compare p other"

definition Property_Less :: "Property \<Rightarrow> Property \<Rightarrow> bool" where
  "Property_Less p other \<longleftrightarrow> Compare p other < 0"

definition Property_Equal :: "Property \<Rightarrow> Property \<Rightarrow> bool" where
  "Property_Equal p other \<longleftrightarrow> Compare p other = 0"

section \<open>The orderings are lawful\<close>

text \<open>Where the orderings are total: no NaN, and keys with at least one token, none of
  which has both a string and an integer ID (as \<^verbatim>\<open>Valid\<close> demands).\<close>

definition wf_tok :: "KeyTok \<Rightarrow> bool" where
  "wf_tok t \<longleftrightarrow> \<not> (StringID t \<noteq> '''' \<and> IntID t \<noteq> 0)"

definition wf_key :: "Key \<Rightarrow> bool" where
  "wf_key k \<longleftrightarrow> toks k \<noteq> [] \<and> list_all wf_tok (toks k)"

definition wf_prop :: "Property \<Rightarrow> bool" where
  "wf_prop p \<longleftrightarrow> (case pvalue p of PFloat f \<Rightarrow> \<not> f64_is_nan f
      | PGeo g \<Rightarrow> \<not> f64_is_nan (Lat g) \<and> \<not> f64_is_nan (Lng g)
      | PKeyV k \<Rightarrow> wf_key k | _ \<Rightarrow> True)"

lemma cmpBytesSlow_sign:
  "cmpBytesSlow xs ys < 0 \<longleftrightarrow> xs < ys" "0 < cmpBytesSlow xs ys \<longleftrightarrow> ys < xs"
proof (induction xs ys rule: cmpBytesSlow.induct [case_names both left right])
  case (both x xs y ys)
  { case 1 then show ?case using both.IH by auto }
  { case 2 then show ?case using both.IH by auto }
next
  case (left ys)
  { case 1 then show ?case by (cases ys) auto }
  { case 2 then show ?case by (cases ys) auto }
next
  case (right xs)
  { case 1 then show ?case by (cases xs) auto }
  { case 2 then show ?case by (cases xs) auto }
qed

fun seq_bytes :: "goval \<Rightarrow> byte list" where
  "seq_bytes (GString s) = str_bytes s"
| "seq_bytes (GBytes b) = b"
| "seq_bytes _ = []"

fun is_seq :: "goval \<Rightarrow> bool" where
  "is_seq (GString _) = True"
| "is_seq (GBytes _) = True"
| "is_seq _ = False"

lemma cmpByteSequence_sign:
  assumes "is_seq a" "is_seq b"
  shows "cmpByteSequence a b < 0 \<longleftrightarrow> cmp3 (seq_bytes a) (seq_bytes b) < 0"
    and "0 < cmpByteSequence a b \<longleftrightarrow> 0 < cmp3 (seq_bytes a) (seq_bytes b)"
  using assms by (cases a; cases b; auto simp: cmpByteSequence_def cmpBytesSlow_sign)+

text \<open>The comparison of two tokens as one lexicographic comparison.\<close>

definition tok_cmp :: "KeyTok \<Rightarrow> KeyTok \<Rightarrow> int" where
  "tok_cmp = cmp_lex (\<lambda>a b. cmp3 (Kind a) (Kind b))
     (cmp_lex (\<lambda>a b. cmp3 (StringID a \<noteq> '''') (StringID b \<noteq> ''''))
       (cmp_lex (\<lambda>a b. cmp3 (StringID a) (StringID b))
         (\<lambda>a b. if StringID a = '''' \<and> StringID b = '''' then cmp3 (sint (IntID a)) (sint (IntID b)) else 0)))"

lemma go_compare_tok_cmp: "go_compare (\<lambda>_. True) tok_cmp"
proof -
  note field = go_compare_inv [where ok = "\<lambda>_. True", OF go_compare_cmp3]
  have ids: "go_compare (\<lambda>_. True)
     (cmp_lex (\<lambda>a b. cmp3 (StringID a) (StringID b))
       (\<lambda>a b. if StringID a = [] \<and> StringID b = [] then cmp3 (sint (IntID a)) (sint (IntID b)) else 0))"
    by (rule go_compare_lex_dep [OF field]) (unfold_locales, auto split: if_splits)
  show ?thesis
    unfolding tok_cmp_def by (rule go_compare_lex [OF field go_compare_lex [OF field ids]])
qed

lemma sint_eq_iff: "sint (a :: 'a::len word) = sint b \<longleftrightarrow> a = b"
  by (metis signed_word_eqI)

lemma tok_cmp_zero: "wf_tok a \<Longrightarrow> wf_tok b \<Longrightarrow> tok_cmp a b = 0 \<longleftrightarrow> a = b"
  by (cases a; cases b) (auto simp: tok_cmp_def cmp_lex_def wf_tok_def sint_eq_iff)

lemma KeyTok_Less_iff: "KeyTok_Less a b \<longleftrightarrow> tok_cmp a b < 0"
  using sint_eq_iff [of "IntID a" "IntID b"]
  by (auto simp: KeyTok_Less_def tok_cmp_def cmp_lex_def prop_compare_def KeyTok_ID_def
      IndexTypeAndValue_def Property_Type_def Property_Value_def cmpByteSequence_def
      split: if_splits)

lemma toks_less_iff: "toks_less as bs \<longleftrightarrow> cmp_list tok_cmp as bs < 0"
proof (induction as bs rule: toks_less.induct [case_names both left right])
  case (both a as b bs)
  have "KeyTok_Less b a \<longleftrightarrow> 0 < tok_cmp a b"
    unfolding KeyTok_Less_iff using go_compare.cmp_pos_iff [OF go_compare_tok_cmp] by simp
  then show ?case using both by (auto simp: KeyTok_Less_iff)
next
  case (left bs)
  then show ?case by (cases bs) auto
next
  case (right as)
  then show ?case by (cases as) auto
qed

definition key_cmp :: "Key \<Rightarrow> Key \<Rightarrow> int" where
  "key_cmp = cmp_lex (\<lambda>a b. cmp3 (AppID (kc a)) (AppID (kc b)))
     (cmp_lex (\<lambda>a b. cmp3 (Namespace (kc a)) (Namespace (kc b)))
       (\<lambda>a b. cmp_list tok_cmp (toks a) (toks b)))"

lemma go_compare_key_cmp: "go_compare (\<lambda>_. True) key_cmp"
proof -
  have list: "go_compare (\<lambda>_. True) (cmp_list tok_cmp)"
    using go_compare_list [OF go_compare_tok_cmp] by (simp add: list_all_def)
  show ?thesis
    unfolding key_cmp_def
    by (intro go_compare_lex go_compare_inv [where ok = "\<lambda>_. True", OF go_compare_cmp3, simplified]
        go_compare_inv [where ok = "\<lambda>_. True", OF list, simplified])
qed

lemma Key_Less_iff: "Key_Less a b \<longleftrightarrow> key_cmp a b < 0"
  by (auto simp: Key_Less_def key_cmp_def cmp_lex_def toks_less_iff)

lemma key_cmp_zero: "wf_key a \<Longrightarrow> wf_key b \<Longrightarrow> key_cmp a b = 0 \<longleftrightarrow> a = b"
  using cmp_list_zero [of wf_tok tok_cmp "toks a" "toks b"] tok_cmp_zero
  by (auto simp: key_cmp_def cmp_lex_def wf_key_def intro: Key_eqI)

lemma key_compare_sign:
  assumes "wf_key a" "wf_key b"
  shows "key_compare a b < 0 \<longleftrightarrow> key_cmp a b < 0" "0 < key_compare a b \<longleftrightarrow> 0 < key_cmp a b"
proof -
  have "Key_Equal a b = Some (a = b)" using assms by (simp add: Key_Equal_iff wf_key_def)
  moreover have "Key_Less b a \<longleftrightarrow> 0 < key_cmp a b"
    unfolding Key_Less_iff using go_compare.cmp_pos_iff [OF go_compare_key_cmp] by simp
  ultimately show "key_compare a b < 0 \<longleftrightarrow> key_cmp a b < 0" "0 < key_compare a b \<longleftrightarrow> 0 < key_cmp a b"
    using key_cmp_zero [OF assms] by (auto simp: key_compare_def)
qed

interpretation kcmp: go_compare wf_key key_compare
  by (rule go_compare_sign [OF go_compare_key_cmp]) (simp_all add: key_compare_sign)

text \<open>The branch of \<^verbatim>\<open>Compare\<close> that is taken for equal index types.\<close>

definition val_compare :: "Property \<Rightarrow> Property \<Rightarrow> int" where
  "val_compare p q =
     (case fst (IndexTypeAndValue p) of
        PTNull \<Rightarrow> 0
      | PTString \<Rightarrow> cmpByteSequence (snd (IndexTypeAndValue p)) (snd (IndexTypeAndValue q))
      | _ \<Rightarrow>
         (case (snd (IndexTypeAndValue p), snd (IndexTypeAndValue q)) of
            (GBool a, GBool b) \<Rightarrow> (if a = b then 0 else if a \<and> \<not> b then 1 else -1)
          | (GInt a, GInt b) \<Rightarrow> (if a = b then 0 else if sint a > sint b then 1 else -1)
          | (GFloat a, GFloat b) \<Rightarrow> cmpFloat a b
          | (GGeo a, GGeo b) \<Rightarrow>
              (if cmpFloat (Lat a) (Lat b) \<noteq> 0 then cmpFloat (Lat a) (Lat b)
               else cmpFloat (Lng a) (Lng b))
          | (GKey a, GKey b) \<Rightarrow> key_compare a b
          | _ \<Rightarrow> 0))"

definition index_type :: "Property \<Rightarrow> PropertyType" where
  "index_type p = fst (IndexTypeAndValue p)"

lemma pt_num_inj [simp]: "pt_num a = pt_num b \<longleftrightarrow> a = b"
  by (cases a; cases b; simp)

lemma Compare_lex:
  "Compare = cmp_lex (\<lambda>p q. cmp3 (indexSetting p) (indexSetting q))
     (cmp_lex (\<lambda>p q. int (pt_num (index_type p)) - int (pt_num (index_type q))) val_compare)"
proof (intro ext)
  fix p q
  obtain at av bt bv where a: "IndexTypeAndValue p = (at, av)" and b: "IndexTypeAndValue q = (bt, bv)"
    by (metis surj_pair)
  show "Compare p q = cmp_lex (\<lambda>p q. cmp3 (indexSetting p) (indexSetting q))
     (cmp_lex (\<lambda>p q. int (pt_num (index_type p)) - int (pt_num (index_type q))) val_compare) p q"
    unfolding Compare_def prop_compare_def cmp_lex_def cmp3_def val_compare_def index_type_def
      a b Let_def prod.case fst_conv snd_conv by auto
qed

lemmas index_value_defs = index_type_def IndexTypeAndValue_def Property_Type_def Property_Value_def

lemma index_type_not [simp]:
  "index_type p \<noteq> PTTime" "index_type p \<noteq> PTBytes" "index_type p \<noteq> PTBlobKey"
  "index_type p \<noteq> PTUnknown"
  by (cases "pvalue p"; simp add: index_value_defs)+

text \<open>Among properties of one index type, the value comparison is lawful.\<close>

lemma go_compare_val:
  "go_compare (\<lambda>p. wf_prop p \<and> index_type p = t) val_compare"
proof (cases t)
  case PTNull
  show ?thesis
    by (rule go_compare_sign [OF go_compare_const])
      (auto simp: PTNull val_compare_def index_type_def)
next
  case PTInt
  let ?f = "\<lambda>p. case snd (IndexTypeAndValue p) of GInt i \<Rightarrow> sint i | _ \<Rightarrow> 0"
  show ?thesis
  proof (rule go_compare_sign [OF go_compare_inv [where f = ?f and ok = "\<lambda>_. True", OF go_compare_cmp3]])
    fix p q assume "wf_prop p \<and> index_type p = t" "wf_prop q \<and> index_type q = t"
    then obtain i j where "IndexTypeAndValue p = (PTInt, GInt i)" "IndexTypeAndValue q = (PTInt, GInt j)"
      using PTInt by (auto simp: index_value_defs split: pval.splits)
    then show "val_compare p q < 0 \<longleftrightarrow> cmp3 (?f p) (?f q) < 0" "0 < val_compare p q \<longleftrightarrow> 0 < cmp3 (?f p) (?f q)"
      using sint_eq_iff [of i j] by (auto simp: val_compare_def)
  qed simp
next
  case PTBool
  let ?f = "\<lambda>p. snd (IndexTypeAndValue p) = GBool True"
  show ?thesis
  proof (rule go_compare_sign [OF go_compare_inv [where f = ?f and ok = "\<lambda>_. True", OF go_compare_cmp3]])
    fix p q assume "wf_prop p \<and> index_type p = t" "wf_prop q \<and> index_type q = t"
    then obtain i j where "IndexTypeAndValue p = (PTBool, GBool i)" "IndexTypeAndValue q = (PTBool, GBool j)"
      using PTBool by (auto simp: index_value_defs split: pval.splits)
    then show "val_compare p q < 0 \<longleftrightarrow> cmp3 (?f p) (?f q) < 0" "0 < val_compare p q \<longleftrightarrow> 0 < cmp3 (?f p) (?f q)"
      by (auto simp: val_compare_def)
  qed simp
next
  case PTString
  let ?f = "\<lambda>p. seq_bytes (snd (IndexTypeAndValue p))"
  show ?thesis
  proof (rule go_compare_sign [OF go_compare_inv [where f = ?f and ok = "\<lambda>_. True", OF go_compare_cmp3]])
    fix p q assume ok: "wf_prop p \<and> index_type p = t" "wf_prop q \<and> index_type q = t"
    then have "is_seq (snd (IndexTypeAndValue p))" "is_seq (snd (IndexTypeAndValue q))"
      using PTString by (auto simp: index_value_defs split: pval.splits)
    moreover have "fst (IndexTypeAndValue p) = PTString" using ok PTString by (simp add: index_type_def)
    ultimately show "val_compare p q < 0 \<longleftrightarrow> cmp3 (?f p) (?f q) < 0" "0 < val_compare p q \<longleftrightarrow> 0 < cmp3 (?f p) (?f q)"
      by (simp_all add: val_compare_def cmpByteSequence_sign)
  qed simp
next
  case PTFloat
  let ?f = "\<lambda>p. case snd (IndexTypeAndValue p) of GFloat x \<Rightarrow> x | _ \<Rightarrow> f64_zero"
  have shape: "\<exists>x. IndexTypeAndValue p = (PTFloat, GFloat x) \<and> \<not> f64_is_nan x"
    if "wf_prop p \<and> index_type p = t" for p
    using that PTFloat by (auto simp: index_value_defs wf_prop_def split: pval.splits)
  show ?thesis
  proof (rule go_compare_cong [OF go_compare_inv [where f = ?f, OF go_compare_cmpFloat]])
    fix p q assume "wf_prop p \<and> index_type p = t" "wf_prop q \<and> index_type q = t"
    then show "val_compare p q = cmpFloat (?f p) (?f q)"
      using shape [of p] shape [of q] by (auto simp: val_compare_def)
  qed (use shape in force)
next
  case PTGeoPoint
  let ?f = "\<lambda>p. case snd (IndexTypeAndValue p) of GGeo g \<Rightarrow> Lat g | _ \<Rightarrow> f64_zero"
  let ?g = "\<lambda>p. case snd (IndexTypeAndValue p) of GGeo g \<Rightarrow> Lng g | _ \<Rightarrow> f64_zero"
  have shape: "\<exists>x. IndexTypeAndValue p = (PTGeoPoint, GGeo x) \<and>
      \<not> f64_is_nan (Lat x) \<and> \<not> f64_is_nan (Lng x)"
    if "wf_prop p \<and> index_type p = t" for p
    using that PTGeoPoint by (auto simp: index_value_defs wf_prop_def split: pval.splits)
  have coord: "go_compare (\<lambda>p. wf_prop p \<and> index_type p = t) (\<lambda>p q. cmpFloat (h p) (h q))"
    if "\<And>p. wf_prop p \<and> index_type p = t \<Longrightarrow> \<not> f64_is_nan (h p)" for h
    by (rule go_compare_cong [OF go_compare_inv [where f = h, OF go_compare_cmpFloat]])
      (use that in auto)
  have "go_compare (\<lambda>p. wf_prop p \<and> index_type p = t)
      (cmp_lex (\<lambda>p q. cmpFloat (?f p) (?f q)) (\<lambda>p q. cmpFloat (?g p) (?g q)))"
    by (intro go_compare_lex coord) (use shape in force)+
  then show ?thesis
  proof (rule go_compare_cong)
    fix p q assume "wf_prop p \<and> index_type p = t" "wf_prop q \<and> index_type q = t"
    then show "val_compare p q = cmp_lex (\<lambda>p q. cmpFloat (?f p) (?f q)) (\<lambda>p q. cmpFloat (?g p) (?g q)) p q"
      using shape [of p] shape [of q] by (auto simp: val_compare_def cmp_lex_def)
  qed
next
  case PTKey
  let ?f = "\<lambda>p. case snd (IndexTypeAndValue p) of GKey k \<Rightarrow> k | _ \<Rightarrow> undefined"
  have shape: "\<exists>k. IndexTypeAndValue p = (PTKey, GKey k) \<and> wf_key k"
    if "wf_prop p \<and> index_type p = t" for p
    using that PTKey by (auto simp: index_value_defs wf_prop_def split: pval.splits)
  show ?thesis
  proof (rule go_compare_cong [OF go_compare_inv [where f = ?f, OF kcmp.go_compare_axioms]])
    fix p q assume "wf_prop p \<and> index_type p = t" "wf_prop q \<and> index_type q = t"
    then show "val_compare p q = key_compare (?f p) (?f q)"
      using shape [of p] shape [of q] by (auto simp: val_compare_def)
  qed (use shape in force)
qed (rule go_compare_none, simp)+

interpretation pcmp: go_compare wf_prop Compare
  unfolding Compare_lex
proof (rule go_compare_lex)
  show "go_compare wf_prop (\<lambda>p q. cmp3 (indexSetting p) (indexSetting q))"
    by (rule go_compare_cong [OF go_compare_inv [where ok = "\<lambda>_. True", OF go_compare_cmp3]]) auto
  have tag: "go_compare wf_prop (\<lambda>p q. int (pt_num (index_type p)) - int (pt_num (index_type q)))"
    by unfold_locales auto
  then show "go_compare wf_prop
      (cmp_lex (\<lambda>p q. int (pt_num (index_type p)) - int (pt_num (index_type q))) val_compare)"
  proof (rule go_compare_lex_dep)
    fix t assume "wf_prop t"
    show "go_compare (\<lambda>x. wf_prop x \<and> int (pt_num (index_type t)) - int (pt_num (index_type x)) = 0) val_compare"
      by (rule go_compare_cong [OF go_compare_val [of "index_type t"]]) auto
  qed
qed

section \<open>Sizes and property maps\<close>

definition Property_EstimateSize :: "Property \<Rightarrow> int" where
  "Property_EstimateSize p =
     (case pvalue p of
        PNil \<Rightarrow> 1
      | PBool _ \<Rightarrow> 1 + 4
      | PInt _ \<Rightarrow> 1 + 8
      | PTimeV _ \<Rightarrow> 1 + 8
      | PFloat _ \<Rightarrow> 1 + 8
      | PGeo _ \<Rightarrow> 1 + (8 * 2)
      | PString s \<Rightarrow> 1 + int (length s)
      | PBlobKey s \<Rightarrow> 1 + int (length s)
      | PBytes bs \<Rightarrow> 1 + int (length bs)
      | PKeyV k \<Rightarrow> 1 + Key_EstimateSize k)"

text \<open>\<^verbatim>\<open>PropertyData\<close>: a single property or a slice.\<close>

datatype PropertyData = PSingle Property | PSlice "Property list"

definition PropertyData_Slice :: "PropertyData \<Rightarrow> Property list" where
  "PropertyData_Slice d = (case d of PSingle p \<Rightarrow> [p] | PSlice ps \<Rightarrow> ps)"

definition PropertyData_Clone :: "PropertyData \<Rightarrow> PropertyData" where
  "PropertyData_Clone d = (case d of PSingle p \<Rightarrow> PSingle p | PSlice ps \<Rightarrow> PSlice ps)"

definition PropertyData_estimateSize :: "PropertyData \<Rightarrow> int" where
  "PropertyData_estimateSize d =
     (case d of PSingle p \<Rightarrow> Property_EstimateSize p
      | PSlice ps \<Rightarrow> foldl (\<lambda>v p. v + Property_EstimateSize p) 0 ps)"

type_synonym PropertyMap = "(string \<times> PropertyData) list"

definition pm_wf :: "PropertyMap \<Rightarrow> bool" where
  "pm_wf pm \<longleftrightarrow> distinct (map fst pm)"

definition isMetaKey :: "string \<Rightarrow> bool" where
  "isMetaKey k \<longleftrightarrow> k = '''' \<or> hd k = CHR ''$''"

definition pm_Load :: "PropertyMap \<Rightarrow> PropertyMap \<Rightarrow> PropertyMap" where
  "pm_Load pm props = foldl (\<lambda>m (k, v). al_set m k (PropertyData_Clone v)) pm props"

definition pm_Save :: "PropertyMap \<Rightarrow> bool \<Rightarrow> PropertyMap" where
  "pm_Save pm withMeta =
     (if pm = [] then []
      else map (\<lambda>(k, v). (k, PropertyData_Clone v)) (filter (\<lambda>(k, v). withMeta \<or> \<not> isMetaKey k) pm))"

definition pm_Slice :: "PropertyMap \<Rightarrow> string \<Rightarrow> Property list" where
  "pm_Slice pm key = (case map_of pm key of Some d \<Rightarrow> PropertyData_Slice d | None \<Rightarrow> [])"

definition pm_GetMeta :: "PropertyMap \<Rightarrow> string \<Rightarrow> goval option" where
  "pm_GetMeta pm key =
     (case pm_Slice pm (CHR ''$'' # key) of p # _ \<Rightarrow> Some (Property_Value p) | [] \<Rightarrow> None)"

definition pm_GetAllMeta :: "PropertyMap \<Rightarrow> PropertyMap" where
  "pm_GetAllMeta pm = map (\<lambda>(k, v). (k, PropertyData_Clone v)) (filter (\<lambda>(k, v). isMetaKey k) pm)"

definition pm_SetMeta :: "PropertyMap \<Rightarrow> string \<Rightarrow> goval \<Rightarrow> PropertyMap \<times> bool" where
  "pm_SetMeta pm key val =
     (case SetValue val NoIndex of
        Inl _ \<Rightarrow> (pm, False)
      | Inr prop \<Rightarrow> (al_set pm (CHR ''$'' # key) (PSingle prop), True))"

definition pm_EstimateSize :: "PropertyMap \<Rightarrow> int" where
  "pm_EstimateSize pm =
     foldl (\<lambda>ret (k, vals). if \<not> isMetaKey k
              then ret + int (length k) + PropertyData_estimateSize vals else ret) 0 pm"

text \<open>The dynamic type of an \<^verbatim>\<open>interface{}\<close>, as \<^verbatim>\<open>reflect.TypeOf\<close> compares it.\<close>

fun go_typeof :: "goval \<Rightarrow> nat" where
  "go_typeof GNil = 0" | "go_typeof (GInt _) = 1" | "go_typeof (GBool _) = 2"
| "go_typeof (GString _) = 3" | "go_typeof (GBlobKey _) = 4" | "go_typeof (GFloat _) = 5"
| "go_typeof (GBytes _) = 6" | "go_typeof (GTime _) = 7" | "go_typeof (GGeo _) = 8"
| "go_typeof (GKey _) = 9" | "go_typeof GNilKey = 9" | "go_typeof (GConvInt _) = 10"
| "go_typeof (GUint32 _) = 11" | "go_typeof (GConvBool _) = 12" | "go_typeof (GConvString _) = 13"
| "go_typeof (GConvFloat _) = 14" | "go_typeof (GConvBytes _) = 15" | "go_typeof GOther = 16"

definition GetMetaDefault :: "PropertyMap \<Rightarrow> string \<Rightarrow> goval \<Rightarrow> goval" where
  "GetMetaDefault getter key dflt =
     (let dflt = UpconvertUnderlyingType dflt in
      case pm_GetMeta getter key of
        None \<Rightarrow> dflt
      | Some cur \<Rightarrow> if dflt \<noteq> GNil \<and> go_typeof cur \<noteq> go_typeof dflt then dflt else cur)"

section \<open>Lemmas on values and maps\<close>

lemma Clone_id [simp]: "PropertyData_Clone d = d"
  by (cases d) (simp_all add: PropertyData_Clone_def)

lemma pm_wf_set: "pm_wf pm \<Longrightarrow> pm_wf (al_set pm k v)"
  by (simp add: pm_wf_def distinct_al_set)

lemma pm_Save_eq: "pm_Save pm m = filter (\<lambda>(k, v). m \<or> \<not> isMetaKey k) pm"
proof -
  have "map (\<lambda>(k, v). (k, PropertyData_Clone v)) xs = xs" for xs by (induction xs) auto
  then show ?thesis by (simp add: pm_Save_def)
qed

lemma map_of_filter_key: "map_of (filter (\<lambda>(k, v). P k) pm) k = (if P k then map_of pm k else None)"
  by (induction pm) auto

lemma SetValue_simps [simp]:
  "SetValue GNil s = Inr \<lparr>pvalue = PNil, indexSetting = s\<rparr>"
  "SetValue (GInt i) s = Inr \<lparr>pvalue = PInt i, indexSetting = s\<rparr>"
  "SetValue (GBool b) s = Inr \<lparr>pvalue = PBool b, indexSetting = s\<rparr>"
  "SetValue (GString t) s = Inr \<lparr>pvalue = PString t, indexSetting = s\<rparr>"
  "SetValue (GBlobKey t) s = Inr \<lparr>pvalue = PBlobKey t, indexSetting = s\<rparr>"
  "SetValue (GFloat f) s = Inr \<lparr>pvalue = PFloat f, indexSetting = s\<rparr>"
  "SetValue (GBytes bs) s = Inr \<lparr>pvalue = PBytes bs, indexSetting = s\<rparr>"
  "SetValue (GKey k) s = Inr \<lparr>pvalue = PKeyV k, indexSetting = s\<rparr>"
  "SetValue (GGeo g) s = (if GeoPoint_Valid g then Inr \<lparr>pvalue = PGeo g, indexSetting = s\<rparr> else Inl InvalidGeoPoint)"
  "SetValue GNilKey s = Inr \<lparr>pvalue = PNil, indexSetting = s\<rparr>"
  "SetValue (GConvInt i) s = Inr \<lparr>pvalue = PInt i, indexSetting = s\<rparr>"
  "SetValue (GUint32 u) s = Inr \<lparr>pvalue = PInt (ucast u), indexSetting = s\<rparr>"
  "SetValue (GConvBool b) s = Inr \<lparr>pvalue = PBool b, indexSetting = s\<rparr>"
  "SetValue (GConvString t) s = Inr \<lparr>pvalue = PString t, indexSetting = s\<rparr>"
  "SetValue (GConvFloat f) s = Inr \<lparr>pvalue = PFloat f, indexSetting = s\<rparr>"
  "SetValue (GConvBytes bs) s = Inr \<lparr>pvalue = PBytes bs, indexSetting = s\<rparr>"
  "SetValue GOther s = Inl BadType"
  by (simp_all add: SetValue_def UpconvertUnderlyingType_def PropertyTypeOf_def)

definition time_storable :: "gotime \<Rightarrow> bool" where
  "time_storable t \<longleftrightarrow> time_utc t \<and> \<not> time_Before t minTime \<and> \<not> time_After t maxTime \<and> RoundTime t = t"

lemma SetValue_time:
  "SetValue (GTime t) s =
     (if \<not> time_utc t then Inl TimeWrongLocation
      else if \<not> time_storable (RoundTime t) then Inl TimeOutOfRange
      else Inr \<lparr>pvalue = PTimeV (RoundTime t), indexSetting = s\<rparr>)"
  by (auto simp: SetValue_def UpconvertUnderlyingType_def PropertyTypeOf_def Let_def
      timeLocationIsUTC_def time_storable_def)

lemma SetValue_Value: "SetValue v s = Inr p \<Longrightarrow> SetValue (Property_Value p) s' = Inr (p\<lparr>indexSetting := s'\<rparr>)"
  by (cases v) (auto simp: Property_Value_def SetValue_time split: if_splits simp: time_storable_def)

text \<open>What \<^verbatim>\<open>SetValue\<close> guarantees of a property.\<close>

definition prop_ok :: "Property \<Rightarrow> bool" where
  "prop_ok p \<longleftrightarrow> (case pvalue p of PTimeV t \<Rightarrow> time_storable t | PGeo g \<Rightarrow> GeoPoint_Valid g | _ \<Rightarrow> True)"

lemma SetValue_ok: "SetValue v s = Inr p \<Longrightarrow> prop_ok p \<and> indexSetting p = s"
  by (cases v) (auto simp: prop_ok_def SetValue_time time_storable_def split: if_splits)

lemma prop_ok_SetValue: "prop_ok p \<Longrightarrow> SetValue (Property_Value p) (indexSetting p) = Inr p"
  by (cases p; cases "pvalue p") (auto simp: prop_ok_def Property_Value_def SetValue_time time_storable_def)

text \<open>A storable time survives its integer form, the Unix epoch apart.\<close>

lemma IntToTime_TimeToInt:
  assumes t: "time_storable t" "t \<noteq> Time 0 True"
  shows "IntToTime (TimeToInt t) = t"
proof (cases "time_IsZero t")
  case True
  then have "t = zero_time"
    using t by (cases t) (simp add: time_IsZero_def zero_time_def time_storable_def)
  then show ?thesis using True by (simp add: TimeToInt_def IntToTime_def)
next
  case False
  have ns: "time_ns t = round_us (time_ns t) * 1000"
    using t(1) RoundTime_ns [of t] by (simp add: time_storable_def)
  have "sint (TimeToInt t) = round_us (time_ns t)"
    using t False by (intro TimeToInt_range) (simp_all add: time_storable_def)
  moreover have "round_us (time_ns t) \<noteq> 0"
    using t ns by (cases t) (auto simp: time_storable_def)
  ultimately show ?thesis
    using t ns by (cases t) (auto simp: IntToTime_eq time_storable_def)
qed

section \<open>Properties\<close>

text \<open>Two properties with the same index representation: strings and byte slices are
  compared by their bytes, floats by the number they denote.\<close>

definition index_same :: "Property \<Rightarrow> Property \<Rightarrow> bool" where
  "index_same p q \<longleftrightarrow> indexSetting p = indexSetting q \<and> index_type p = index_type q \<and>
     (case (snd (IndexTypeAndValue p), snd (IndexTypeAndValue q)) of
        (GFloat a, GFloat b) \<Rightarrow> f64_eq a b
      | (GGeo a, GGeo b) \<Rightarrow> f64_eq (Lat a) (Lat b) \<and> f64_eq (Lng a) (Lng b)
      | (a, b) \<Rightarrow> if is_seq a \<and> is_seq b then seq_bytes a = seq_bytes b else a = b)"

lemma cmpByteSequence_zero:
  "is_seq a \<Longrightarrow> is_seq b \<Longrightarrow> cmpByteSequence a b = 0 \<longleftrightarrow> seq_bytes a = seq_bytes b"
  using cmpByteSequence_sign [of a b] by (metis cmp3_simps less_irrefl linorder_less_linear)

lemma cmpFloat_zero: "cmpFloat a b = 0 \<longleftrightarrow> f64_eq a b"
  by (simp add: cmpFloat_def)

lemma Compare_zero:
  assumes "wf_prop p" "wf_prop q"
  shows "Compare p q = 0 \<longleftrightarrow> index_same p q"
proof -
  have "Compare p q = 0 \<longleftrightarrow> indexSetting p = indexSetting q \<and> index_type p = index_type q \<and>
      val_compare p q = 0"
    by (auto simp: Compare_lex cmp_lex_def)
  also have "\<dots> \<longleftrightarrow> index_same p q"
  proof (cases "index_type p = index_type q")
    case True
    have key: "key_compare a b = 0 \<longleftrightarrow> a = b" if "wf_key a" "wf_key b" for a b
      using key_compare_sign [OF that] key_cmp_zero [OF that] by linarith
    have str: "cmpByteSequence a b = 0 \<longleftrightarrow> seq_bytes a = seq_bytes b" if "is_seq a" "is_seq b" for a b
      using that by (rule cmpByteSequence_zero)
    show ?thesis
      using True assms
      by (cases "pvalue p"; cases "pvalue q")
        (simp_all add: index_same_def val_compare_def index_value_defs str cmpFloat_zero key
          wf_prop_def cmp3_def)
  qed (simp add: index_same_def)
  finally show ?thesis .
qed

text \<open>
  C20. \<^verbatim>\<open>Property.Compare\<close> orders all properties without NaN whose keys are well formed:
  any two are related in exactly one of the three ways, the order is transitive, and two
  properties compare equal exactly when their index representations are the same.
\<close>

theorem Compare_total_order:
  assumes "wf_prop p" "wf_prop q" "wf_prop r"
  shows "(Property_Equal p q \<longleftrightarrow> index_same p q) \<and>
    (Property_Less p q \<longleftrightarrow> \<not> Property_Equal p q \<and> \<not> Property_Less q p) \<and>
    (Property_Less p q \<and> Property_Less q r \<longrightarrow> Property_Less p r) \<and>
    (Property_Equal p q \<and> Property_Less q r \<longrightarrow> Property_Less p r) \<and>
    (Property_Less p q \<and> Property_Equal q r \<longrightarrow> Property_Less p r)"
  unfolding Property_Less_def Property_Equal_def
  using assms Compare_zero [OF assms(1,2)] pcmp.cmp_pos_iff [OF assms(1,2)] pcmp.cmp_zero_iff [OF assms(1,2)]
    pcmp.cmp_less_asym [OF assms(1,2)]
    pcmp.cmp_less_trans [OF assms] pcmp.cmp_le_less_trans [OF assms] pcmp.cmp_less_le_trans [OF assms]
  by auto

theorem Compare_total_order_witness:
  "Property_Less \<lparr>pvalue = PInt 3, indexSetting = False\<rparr> \<lparr>pvalue = PString ''b'', indexSetting = False\<rparr> \<and>
   \<not> Property_Less \<lparr>pvalue = PString ''b'', indexSetting = False\<rparr> \<lparr>pvalue = PInt 3, indexSetting = False\<rparr> \<and>
   Property_Equal \<lparr>pvalue = PString ''b'', indexSetting = False\<rparr> \<lparr>pvalue = PBytes [98], indexSetting = False\<rparr>"
proof -
  let ?i = "\<lparr>pvalue = PInt 3, indexSetting = False\<rparr>"
  let ?s = "\<lparr>pvalue = PString ''b'', indexSetting = False\<rparr>"
  let ?b = "\<lparr>pvalue = PBytes [98], indexSetting = False\<rparr>"
  have wf: "wf_prop ?i" "wf_prop ?s" "wf_prop ?b" by (simp_all add: wf_prop_def)
  have "index_same ?s ?b" by (simp add: index_same_def index_value_defs)
  moreover have "Property_Less ?i ?s"
    by (simp add: Property_Less_def Compare_def prop_compare_def index_value_defs)
  ultimately show ?thesis
    using Compare_total_order [OF wf(1,2,3)] Compare_total_order [OF wf(2,3,3)] by blast
qed

text \<open>
  \<^verbatim>\<open>Key.Less\<close> is a strict total order on well-formed keys, and it agrees with
  \<^verbatim>\<open>Key.Equal\<close>: of two keys exactly one is less, or they are equal, and \<^verbatim>\<open>Equal\<close> is
  then equality of all tokens and the context.
\<close>

theorem Key_Less_total_order:
  assumes "wf_key a" "wf_key b" "wf_key c"
  shows "Key_Equal a b = Some (a = b) \<and>
    (Key_Less a b \<longleftrightarrow> a \<noteq> b \<and> \<not> Key_Less b a) \<and>
    (Key_Less a b \<and> Key_Less b c \<longrightarrow> Key_Less a c)"
proof -
  have "Key_Equal a b = Some (a = b)" using assms by (simp add: Key_Equal_iff wf_key_def)
  moreover have "0 < key_cmp b a \<longleftrightarrow> key_cmp a b < 0" "0 < key_cmp a b \<longleftrightarrow> key_cmp b a < 0"
    using go_compare.cmp_pos_iff [OF go_compare_key_cmp, of a b]
      go_compare.cmp_pos_iff [OF go_compare_key_cmp, of b a] by blast+
  ultimately show ?thesis
    using key_cmp_zero [OF assms(1,2)] go_compare.cmp_less_trans [OF go_compare_key_cmp, of a b c]
    by (auto simp: Key_Less_iff)
qed

theorem Key_Less_total_order_witness:
  "Key_Less \<lparr>kc = MkKeyContext ''a'' '''', toks = [mkTok ''K'' 5 '''']\<rparr>
            \<lparr>kc = MkKeyContext ''a'' '''', toks = [mkTok ''K'' 0 ''x'']\<rparr> \<and>
   \<not> Key_Less \<lparr>kc = MkKeyContext ''a'' '''', toks = [mkTok ''K'' 0 ''x'']\<rparr>
              \<lparr>kc = MkKeyContext ''a'' '''', toks = [mkTok ''K'' 5 '''']\<rparr>"
proof -
  let ?a = "\<lparr>kc = MkKeyContext ''a'' '''', toks = [mkTok ''K'' 5 '''']\<rparr>"
  let ?b = "\<lparr>kc = MkKeyContext ''a'' '''', toks = [mkTok ''K'' 0 ''x'']\<rparr>"
  have wf: "wf_key ?a" "wf_key ?b" by (simp_all add: wf_key_def wf_tok_def mkTok_def)
  have "Key_Less ?a ?b"
    by (simp add: Key_Less_def KeyTok_Less_def KeyTok_ID_def mkTok_def prop_compare_def index_value_defs)
  then show ?thesis using Key_Less_total_order [OF wf(1,2,2)] by blast
qed

text \<open>The property that reading an index entry of \<open>p\<close> gives back: the index type and value,
  byte strings read as strings.\<close>

definition index_property :: "Property \<Rightarrow> Property" where
  "index_property p = p\<lparr>pvalue :=
     (case pvalue p of PTimeV t \<Rightarrow> PInt (TimeToInt t) | PBytes bs \<Rightarrow> PString (bytes_str bs)
      | PBlobKey s \<Rightarrow> PString s | v \<Rightarrow> v)\<rparr>"

text \<open>
  A property accepted by \<^verbatim>\<open>SetValue\<close> survives a projection query: \<^verbatim>\<open>Value\<close> gives a
  value that \<^verbatim>\<open>SetValue\<close> accepts and stores unchanged, and \<^verbatim>\<open>Project\<close> of its index form
  (integers for times, strings for byte strings and blob keys) to its own type recovers the value, for
  every type, except a time at the Unix epoch.
\<close>

theorem Project_index_round_trip:
  assumes "SetValue v s = Inr p"
  shows "SetValue (Property_Value p) s = Inr p \<and>
    (pvalue p \<noteq> PTimeV (Time 0 True) \<longrightarrow>
      Project (index_property p) (Property_Type p) = Inr (Property_Value p))"
proof
  have ok: "prop_ok p" and s: "indexSetting p = s" using SetValue_ok [OF assms] by auto
  then show "SetValue (Property_Value p) s = Inr p" using prop_ok_SetValue by blast
  show "pvalue p \<noteq> PTimeV (Time 0 True) \<longrightarrow>
      Project (index_property p) (Property_Type p) = Inr (Property_Value p)"
  proof
    assume epoch: "pvalue p \<noteq> PTimeV (Time 0 True)"
    show "Project (index_property p) (Property_Type p) = Inr (Property_Value p)"
      using ok epoch IntToTime_TimeToInt
      by (cases "pvalue p") (auto simp: Project_def index_property_def Property_Type_def
          Property_Value_def project_bytes_def prop_ok_def)
  qed
qed

theorem Project_index_round_trip_witness:
  "SetValue (GTime (Time 1000001 True)) False = Inr \<lparr>pvalue = PTimeV (Time 1000000 True), indexSetting = False\<rparr> \<and>
   Project (index_property \<lparr>pvalue = PTimeV (Time 1000000 True), indexSetting = False\<rparr>) PTTime
     = Inr (GTime (Time 1000000 True))"
proof -
  have set: "SetValue (GTime (Time 1000001 True)) False =
      Inr \<lparr>pvalue = PTimeV (Time 1000000 True), indexSetting = False\<rparr>"
    by (simp add: SetValue_time RoundTime_eq round_us_def time_storable_def time_Before_def
        time_After_def minTime_ns maxTime_ns)
  then show ?thesis
    using Project_index_round_trip [OF set] by (simp add: Property_Type_def Property_Value_def)
qed

end
