(* ===== verification/Indexes.thy ===== *)
theory Indexes
  imports Prelude "HOL-Library.Sublist"
begin

text \<open>
  \<^verbatim>\<open>service/datastore/index.go\<close>: index columns (parsing, printing, YAML), index
  definitions (normal form, full sort order, comparison, classification, printing).
  The orderings are instances of the comparison interface of the prelude.
\<close>

section \<open>strings.TrimSpace\<close>

text \<open>
  The UTF-8 encodings of the runes \<^verbatim>\<open>unicode.IsSpace\<close> accepts. A string is a
  sequence of bytes; \<^verbatim>\<open>TrimSpace\<close> removes these from both ends, as often as they occur.
\<close>

definition spaces :: "string list" where
  "spaces =
     [[CHR 0x09], [CHR 0x0A], [CHR 0x0B], [CHR 0x0C], [CHR 0x0D], [CHR 0x20],
      [CHR 0xC2, CHR 0x85], [CHR 0xC2, CHR 0xA0], [CHR 0xE1, CHR 0x9A, CHR 0x80],
      [CHR 0xE2, CHR 0x80, CHR 0x80], [CHR 0xE2, CHR 0x80, CHR 0x81], [CHR 0xE2, CHR 0x80, CHR 0x82],
      [CHR 0xE2, CHR 0x80, CHR 0x83], [CHR 0xE2, CHR 0x80, CHR 0x84], [CHR 0xE2, CHR 0x80, CHR 0x85],
      [CHR 0xE2, CHR 0x80, CHR 0x86], [CHR 0xE2, CHR 0x80, CHR 0x87], [CHR 0xE2, CHR 0x80, CHR 0x88],
      [CHR 0xE2, CHR 0x80, CHR 0x89], [CHR 0xE2, CHR 0x80, CHR 0x8A], [CHR 0xE2, CHR 0x80, CHR 0xA8],
      [CHR 0xE2, CHR 0x80, CHR 0xA9], [CHR 0xE2, CHR 0x80, CHR 0xAF], [CHR 0xE2, CHR 0x81, CHR 0x9F],
      [CHR 0xE3, CHR 0x80, CHR 0x80]]"

text \<open>Remove the words of a list from the front, while one of them is a prefix.\<close>

function trim_front :: "string list \<Rightarrow> string \<Rightarrow> string" where
  "trim_front ws s =
     (case List.find (\<lambda>w. w \<noteq> [] \<and> prefix w s) ws of
        None \<Rightarrow> s
      | Some w \<Rightarrow> trim_front ws (drop (length w) s))"
  by pat_completeness auto
termination
proof (relation "measure (\<lambda>(ws, s). length s)")
  fix ws s w assume "List.find (\<lambda>w. w \<noteq> [] \<and> prefix w s) ws = Some w"
  then have "w \<noteq> []" "prefix w s" by (auto simp: find_Some_iff)
  then show "((ws, drop (length w) s), ws, s) \<in> measure (\<lambda>(ws, s). length s)"
    by (auto simp: prefix_def)
qed simp

declare trim_front.simps [simp del]

definition TrimSpace :: "string \<Rightarrow> string" where
  "TrimSpace s = rev (trim_front (map rev spaces) (rev (trim_front spaces s)))"

section \<open>Index columns\<close>

record IndexColumn =
  col_Property :: string
  Descending :: bool

datatype ierror = InvalidOrder | EmptyOrder | YamlError | MissingName | NoYAML

definition ParseIndexColumn :: "string \<Rightarrow> ierror + IndexColumn" where
  "ParseIndexColumn spec =
     (let spec = TrimSpace spec in
      if prefix ''-'' spec then
        (let p = TrimSpace (tl spec) in
         if p = '''' then Inl EmptyOrder else Inr \<lparr>col_Property = p, Descending = True\<rparr>)
      else if prefix ''+'' spec then Inl InvalidOrder
      else (let p = TrimSpace spec in
         if p = '''' then Inl EmptyOrder else Inr \<lparr>col_Property = p, Descending = False\<rparr>))"

text \<open>The comparisons \<^verbatim>\<open>cmpBool\<close>, \<^verbatim>\<open>cmpInt\<close> and \<^verbatim>\<open>cmpString\<close>.\<close>

definition cmpBool :: "bool \<Rightarrow> bool \<Rightarrow> int" where
  "cmpBool a b = (if a = b then 0 else if a \<and> \<not> b then 1 else -1)"

definition cmpInt :: "nat \<Rightarrow> nat \<Rightarrow> int" where
  "cmpInt a b = (if a = b then 0 else if a > b then 1 else -1)"

definition cmpString :: "string \<Rightarrow> string \<Rightarrow> int" where
  "cmpString a b = (if a = b then 0 else if a > b then 1 else -1)"

definition IndexColumn_cmp :: "IndexColumn \<Rightarrow> IndexColumn \<Rightarrow> int" where
  "IndexColumn_cmp i other =
     (if \<not> Descending i \<and> Descending other then -1
      else if Descending i \<and> \<not> Descending other then 1
      else cmpString (col_Property i) (col_Property other))"

text \<open>\<^verbatim>\<open>UnmarshalYAML\<close> gets a function that decodes into a map or fails; here its result.\<close>

definition IndexColumn_UnmarshalYAML :: "unit + (string \<times> string) list \<Rightarrow> ierror + IndexColumn" where
  "IndexColumn_UnmarshalYAML unmarshal =
     (case unmarshal of
        Inl _ \<Rightarrow> Inl YamlError
      | Inr m \<Rightarrow>
          (case map_of m ''name'' of
             None \<Rightarrow> Inl MissingName
           | Some name \<Rightarrow>
               Inr \<lparr>col_Property = name, Descending = (map_of m ''direction'' = Some ''desc'')\<rparr>))"

text \<open>The YAML library's \<^verbatim>\<open>Marshal\<close> is a parameter.\<close>

definition IndexColumn_MarshalYAML :: "((string \<times> string) list \<Rightarrow> 'r) \<Rightarrow> IndexColumn \<Rightarrow> 'r" where
  "IndexColumn_MarshalYAML marshal i =
     marshal [(''name'', col_Property i), (''direction'', if Descending i then ''desc'' else ''asc'')]"

definition IndexColumn_String :: "IndexColumn \<Rightarrow> string" where
  "IndexColumn_String i = (if Descending i then ''-'' else '''') @ col_Property i"

section \<open>Index definitions\<close>

record IndexDefinition =
  ix_Kind :: string
  ix_Ancestor :: bool
  SortBy :: "IndexColumn list"

definition Index_Equal :: "IndexDefinition \<Rightarrow> IndexDefinition \<Rightarrow> bool" where
  "Index_Equal ix other \<longleftrightarrow>
     (if ix_Kind ix \<noteq> ix_Kind other \<or> ix_Ancestor ix \<noteq> ix_Ancestor other \<or>
         length (SortBy ix) \<noteq> length (SortBy other) then False
      else \<forall>i < length (SortBy ix). SortBy ix ! i = SortBy other ! i)"

abbreviation key_col :: IndexColumn where
  "key_col \<equiv> \<lparr>col_Property = ''__key__'', Descending = False\<rparr>"

definition Normalize :: "IndexDefinition \<Rightarrow> IndexDefinition" where
  "Normalize ix =
     (if SortBy ix \<noteq> [] \<and> col_Property (last (SortBy ix)) = ''__key__'' then ix
      else ix\<lparr>SortBy := SortBy ix @ [key_col]\<rparr>)"

definition GetFullSortOrder :: "IndexDefinition \<Rightarrow> IndexColumn list" where
  "GetFullSortOrder ix =
     (let ix = Normalize ix in
      if \<not> ix_Ancestor ix then SortBy ix
      else \<lparr>col_Property = ''__ancestor__'', Descending = False\<rparr> # SortBy ix)"

definition Flip :: "IndexDefinition \<Rightarrow> IndexDefinition" where
  "Flip ix = ix\<lparr>SortBy := rev (SortBy ix)\<rparr>"

definition PrepForIdxTable :: "IndexDefinition \<Rightarrow> IndexDefinition" where
  "PrepForIdxTable ix = Flip (Normalize ix)"

definition Builtin :: "IndexDefinition \<Rightarrow> bool" where
  "Builtin ix \<longleftrightarrow> \<not> ix_Ancestor ix \<and> length (SortBy ix) \<le> 1"

definition Compound :: "IndexDefinition \<Rightarrow> bool" where
  "Compound ix \<longleftrightarrow>
     (if ix_Kind ix = '''' \<or> Builtin ix then False
      else list_all (\<lambda>sb. \<not> (col_Property sb = '''' \<or> col_Property sb = ''__ancestor__'')) (SortBy ix))"

text \<open>The loops of \<^verbatim>\<open>Less\<close>: the first factor that is not zero decides.\<close>

fun decide :: "int list \<Rightarrow> bool option" where
  "decide [] = None"
| "decide (v # vs) = (if v > 0 then Some False else if v < 0 then Some True else decide vs)"

definition Index_Less :: "IndexDefinition \<Rightarrow> IndexDefinition \<Rightarrow> bool" where
  "Index_Less ix other \<longleftrightarrow>
     (case decide [cmpBool (Builtin ix) (Builtin other), cmpString (ix_Kind ix) (ix_Kind other),
                   cmpBool (ix_Ancestor ix) (ix_Ancestor other),
                   cmpInt (length (SortBy ix)) (length (SortBy other))] of
        Some ret \<Rightarrow> ret
      | None \<Rightarrow>
          (case decide (map (\<lambda>idx. IndexColumn_cmp (SortBy ix ! idx) (SortBy other ! idx))
                  [0 ..< length (SortBy ix)]) of
             Some ret \<Rightarrow> ret
           | None \<Rightarrow> False))"

text \<open>\<^verbatim>\<open>strings.Repeat("  ", indent)\<close> and the line writer of \<^verbatim>\<open>YAMLString\<close>.\<close>

definition yaml_line :: "nat \<Rightarrow> string \<Rightarrow> string" where
  "yaml_line indent s = concat (replicate indent ''  '') @ s"

fun join_lines :: "string list \<Rightarrow> string" where
  "join_lines [] = ''''"
| "join_lines [l] = l"
| "join_lines (l # ls) = l @ [CHR 0x0A] @ join_lines ls"

definition YAMLString :: "IndexDefinition \<Rightarrow> ierror + string" where
  "YAMLString ix =
     (if Builtin ix \<or> \<not> Compound ix then Inl NoYAML
      else Inr (join_lines
        (yaml_line 0 (''- kind: '' @ ix_Kind ix) #
         (if ix_Ancestor ix then [yaml_line 1 ''ancestor: yes''] else []) @
         yaml_line 1 ''properties:'' #
         concat (map (\<lambda>c. yaml_line 1 (''- name: '' @ col_Property c) #
                   (if Descending c then [yaml_line 2 ''direction: desc''] else [])) (SortBy ix)))))"

text \<open>The YAML library's \<^verbatim>\<open>Marshal\<close> of the three fields is a parameter.\<close>

definition Index_MarshalYAML ::
    "(string \<Rightarrow> bool \<Rightarrow> IndexColumn list \<Rightarrow> 'r) \<Rightarrow> IndexDefinition \<Rightarrow> ierror + 'r" where
  "Index_MarshalYAML marshal ix =
     (if Builtin ix \<or> \<not> Compound ix then Inl NoYAML
      else Inr (marshal (ix_Kind ix) (ix_Ancestor ix) (SortBy ix)))"

definition Index_String :: "IndexDefinition \<Rightarrow> string" where
  "Index_String ix =
     (if Builtin ix then ''B'' else ''C'') @ '':'' @ ix_Kind ix @ (if ix_Ancestor ix then ''|A'' else '''') @
     concat (map (\<lambda>sb. ''/'' @ (if Descending sb then ''-'' else '''') @ col_Property sb) (SortBy ix))"

section \<open>Trimming\<close>

lemma trim_front_find:
  "\<not> (\<exists>w \<in> set ws. w \<noteq> [] \<and> prefix w (trim_front ws s))"
proof (induction ws s rule: trim_front.induct)
  case (1 ws s)
  show ?case
  proof (cases "List.find (\<lambda>w. w \<noteq> [] \<and> prefix w s) ws")
    case None
    then have "trim_front ws s = s" by (subst trim_front.simps) simp
    then show ?thesis using None by (auto simp: find_None_iff)
  next
    case (Some w)
    then show ?thesis using 1 by (subst trim_front.simps) simp
  qed
qed

lemma trim_front_id:
  "\<not> (\<exists>w \<in> set ws. w \<noteq> [] \<and> prefix w s) \<Longrightarrow> trim_front ws s = s"
proof -
  assume "\<not> (\<exists>w \<in> set ws. w \<noteq> [] \<and> prefix w s)"
  then have "List.find (\<lambda>w. w \<noteq> [] \<and> prefix w s) ws = None" by (auto simp: find_None_iff)
  then show ?thesis by (subst trim_front.simps) simp
qed

lemma trim_front_suffix: "suffix (trim_front ws s) s"
proof (induction ws s rule: trim_front.induct)
  case (1 ws s)
  show ?case
  proof (cases "List.find (\<lambda>w. w \<noteq> [] \<and> prefix w s) ws")
    case None
    then show ?thesis by (subst trim_front.simps) simp
  next
    case (Some w)
    then have "suffix (trim_front ws (drop (length w) s)) (drop (length w) s)" using 1 by simp
    then show ?thesis using Some suffix_drop suffix_order.trans by (subst trim_front.simps) fastforce
  qed
qed

text \<open>A string with no space at either end.\<close>

definition trimmed :: "string \<Rightarrow> bool" where
  "trimmed s \<longleftrightarrow> \<not> (\<exists>w \<in> set spaces. prefix w s \<or> suffix w s)"

lemma spaces_nonempty: "w \<in> set spaces \<Longrightarrow> w \<noteq> []"
  by (auto simp: spaces_def)

lemma TrimSpace_id: "trimmed s \<Longrightarrow> TrimSpace s = s"
proof -
  assume t: "trimmed s"
  have "trim_front spaces s = s" using t by (intro trim_front_id) (auto simp: trimmed_def)
  moreover have "trim_front (map rev spaces) (rev s) = rev s"
    using t by (intro trim_front_id) (auto simp: trimmed_def suffix_to_prefix)
  ultimately show ?thesis by (simp add: TrimSpace_def)
qed

lemma TrimSpace_trimmed: "trimmed (TrimSpace s)"
proof -
  let ?t = "trim_front spaces s"
  have suf: "\<not> suffix w (TrimSpace s)" if "w \<in> set spaces" for w
  proof -
    have "\<not> prefix (rev w) (rev (TrimSpace s))"
      using trim_front_find [of "map rev spaces" "rev ?t"] spaces_nonempty [OF that] that
      by (auto simp: TrimSpace_def)
    then show ?thesis by (simp add: suffix_to_prefix)
  qed
  have "prefix (TrimSpace s) ?t"
    using trim_front_suffix [of "map rev spaces" "rev ?t"] by (simp add: TrimSpace_def suffix_to_prefix)
  then have "\<not> prefix w (TrimSpace s)" if "w \<in> set spaces" for w
    using trim_front_find [of spaces s] spaces_nonempty [OF that] that prefix_order.trans by blast
  then show ?thesis using suf by (auto simp: trimmed_def)
qed

lemma trimmed_minus: "trimmed s \<Longrightarrow> s \<noteq> [] \<Longrightarrow> trimmed (CHR ''-'' # s)"
proof -
  assume t: "trimmed s" and ne: "s \<noteq> []"
  have no_minus: "CHR ''-'' \<notin> set w" if "w \<in> set spaces" for w
    using that by (auto simp: spaces_def)
  have "\<not> prefix w (CHR ''-'' # s)" if w: "w \<in> set spaces" for w
    using no_minus [OF w] spaces_nonempty [OF w] by (cases w) auto
  moreover have "\<not> suffix w (CHR ''-'' # s)" if w: "w \<in> set spaces" for w
    using no_minus [OF w] t w by (auto simp: suffix_Cons trimmed_def)
  ultimately show ?thesis by (auto simp: trimmed_def)
qed

section \<open>Orderings\<close>

definition col_cmp :: "IndexColumn \<Rightarrow> IndexColumn \<Rightarrow> int" where
  "col_cmp = cmp_lex (\<lambda>a b. cmpBool (Descending a) (Descending b))
     (\<lambda>a b. cmpString (col_Property a) (col_Property b))"

lemma cmpBool_cmp3: "cmpBool a b = cmp3 a b"
  by (cases a; cases b) (simp_all add: cmpBool_def cmp3_def)

lemma cmpInt_cmp3: "cmpInt a b = cmp3 a b" and cmpString_cmp3: "cmpString s t = cmp3 s t"
  by (simp_all add: cmpInt_def cmpString_def cmp3_def)

lemma IndexColumn_cmp_lex: "IndexColumn_cmp = col_cmp"
  by (intro ext) (auto simp: IndexColumn_cmp_def col_cmp_def cmp_lex_def cmpBool_def)

lemma go_compare_cmp3_of: "go_compare ok (\<lambda>a b. cmp3 (f a) (f b))"
  using go_compare_inv [OF go_compare_cmp3 [of "\<lambda>_. True"], of f] by (rule go_compare_cong) simp_all

interpretation icol: go_compare "\<lambda>_. True" IndexColumn_cmp
  unfolding IndexColumn_cmp_lex col_cmp_def cmpBool_cmp3 cmpString_cmp3
  by (intro go_compare_lex go_compare_cmp3_of)

lemma IndexColumn_cmp_zero: "IndexColumn_cmp a b = 0 \<longleftrightarrow> a = b"
  by (cases a; cases b) (auto simp: IndexColumn_cmp_def cmpString_def)

text \<open>\<^verbatim>\<open>Less\<close> as one lexicographic comparison.\<close>

definition Index_cmp :: "IndexDefinition \<Rightarrow> IndexDefinition \<Rightarrow> int" where
  "Index_cmp =
     cmp_lex (\<lambda>a b. cmpBool (Builtin a) (Builtin b))
    (cmp_lex (\<lambda>a b. cmpString (ix_Kind a) (ix_Kind b))
    (cmp_lex (\<lambda>a b. cmpBool (ix_Ancestor a) (ix_Ancestor b))
    (cmp_lex (\<lambda>a b. cmpInt (length (SortBy a)) (length (SortBy b)))
             (\<lambda>a b. cmp_list IndexColumn_cmp (SortBy a) (SortBy b)))))"

interpretation idef: go_compare "\<lambda>_. True" Index_cmp
proof -
  have "go_compare (\<lambda>_. True) (\<lambda>a b :: IndexDefinition. cmp_list IndexColumn_cmp (SortBy a) (SortBy b))"
    using go_compare_inv [OF go_compare_list [OF icol.go_compare_axioms], of SortBy]
    by (rule go_compare_cong) (simp_all add: list_all_iff)
  then show "go_compare (\<lambda>_. True) Index_cmp"
    unfolding Index_cmp_def cmpBool_cmp3 cmpString_cmp3 cmpInt_cmp3
    by (intro go_compare_lex go_compare_cmp3_of)
qed

lemma decide_cols:
  "length xs = length ys \<Longrightarrow>
   decide (map (\<lambda>i. IndexColumn_cmp (xs ! i) (ys ! i)) [0 ..< length xs]) =
     (let v = cmp_list IndexColumn_cmp xs ys in
      if v > 0 then Some False else if v < 0 then Some True else None)"
proof (induction xs ys rule: list_induct2)
  case (Cons x xs y ys)
  have "map (\<lambda>i. IndexColumn_cmp ((x # xs) ! i) ((y # ys) ! i)) [0 ..< length (x # xs)]
      = IndexColumn_cmp x y # map (\<lambda>i. IndexColumn_cmp (xs ! i) (ys ! i)) [0 ..< length xs]"
    by (simp only: length_Cons upt_conv_Cons [OF zero_less_Suc] map_Suc_upt [symmetric])
      (simp add: comp_def)
  then show ?case using Cons.IH by (simp only: decide.simps) (simp add: Let_def)
qed simp

lemma Index_Less_cmp: "Index_Less a b \<longleftrightarrow> Index_cmp a b < 0"
proof (cases "length (SortBy a) = length (SortBy b)")
  case True
  then show ?thesis
    unfolding Index_Less_def decide_cols [OF True]
    by (auto simp: Index_cmp_def cmp_lex_def Let_def)
next
  case False
  then have "cmpInt (length (SortBy a)) (length (SortBy b)) \<noteq> 0" by (simp add: cmpInt_def)
  then show ?thesis by (auto simp: Index_Less_def Index_cmp_def cmp_lex_def)
qed

lemma Index_Equal_iff: "Index_Equal a b \<longleftrightarrow> a = b"
  by (cases a; cases b) (auto simp: Index_Equal_def list_eq_iff_nth_eq)

lemma Index_cmp_zero: "Index_cmp a b = 0 \<longleftrightarrow> a = b"
proof -
  have "cmp_list IndexColumn_cmp xs ys = 0 \<longleftrightarrow> xs = ys" for xs ys
    by (rule cmp_list_zero [of "\<lambda>_. True"]) (simp_all add: IndexColumn_cmp_zero list_all_iff)
  then show ?thesis
    by (cases a; cases b) (auto simp: Index_cmp_def cmp_lex_def cmpBool_cmp3 cmpString_cmp3 cmpInt_cmp3)
qed

section \<open>Properties\<close>

text \<open>
  \<^verbatim>\<open>ParseIndexColumn\<close> and \<^verbatim>\<open>IndexColumn.String\<close> are inverse: a column that came out of
  the parser is printed as a specification that parses back to it; and a column whose name is non-empty,
  carries no space at its ends and (if ascending) no sign at its front is parsed from its printed form.
\<close>

theorem ParseIndexColumn_round_trip:
  "(\<forall>spec c. ParseIndexColumn spec = Inr c \<longrightarrow> ParseIndexColumn (IndexColumn_String c) = Inr c) \<and>
   (\<forall>c. trimmed (col_Property c) \<and> col_Property c \<noteq> '''' \<and>
      (Descending c \<or> hd (col_Property c) \<notin> {CHR ''-'', CHR ''+''}) \<longrightarrow>
      ParseIndexColumn (IndexColumn_String c) = Inr c)"
proof -
  have print: "ParseIndexColumn (IndexColumn_String c) = Inr c"
    if "trimmed (col_Property c)" "col_Property c \<noteq> ''''"
      "Descending c \<or> hd (col_Property c) \<notin> {CHR ''-'', CHR ''+''}" for c
  proof (cases "Descending c")
    case True
    then show ?thesis
      using that by (cases c) (simp add: ParseIndexColumn_def IndexColumn_String_def trimmed_minus TrimSpace_id)
  next
    case False
    then show ?thesis
      using that by (cases c; cases "col_Property c")
        (auto simp: ParseIndexColumn_def IndexColumn_String_def TrimSpace_id)
  qed
  have "trimmed (col_Property c) \<and> col_Property c \<noteq> '''' \<and>
      (Descending c \<or> hd (col_Property c) \<notin> {CHR ''-'', CHR ''+''})"
    if "ParseIndexColumn spec = Inr c" for spec c
  proof -
    have "TrimSpace (TrimSpace spec) = TrimSpace spec" by (simp add: TrimSpace_id TrimSpace_trimmed)
    then show ?thesis using that TrimSpace_trimmed TrimSpace_trimmed [of spec]
      by (cases "TrimSpace spec") (auto simp: ParseIndexColumn_def Let_def split: if_splits)
  qed
  then show ?thesis using print by blast
qed

theorem ParseIndexColumn_round_trip_witness:
  "ParseIndexColumn ''-Field'' = Inr \<lparr>col_Property = ''Field'', Descending = True\<rparr>"
proof -
  have "trimmed ''Field''" by (simp add: trimmed_def spaces_def suffix_to_prefix)
  then show ?thesis
    using ParseIndexColumn_round_trip [THEN conjunct2, THEN spec,
        of "\<lparr>col_Property = ''Field'', Descending = True\<rparr>"]
    by (simp add: IndexColumn_String_def)
qed

text \<open>
  \<^verbatim>\<open>IndexDefinition.Less\<close> is a strict total order on index definitions, with
  \<^verbatim>\<open>Equal\<close> (which is equality of all fields) as its equality; built-in indexes come after the others.
\<close>

theorem Index_Less_total_order:
  "(Index_Equal a b \<longleftrightarrow> a = b) \<and>
   (Index_Less a b \<longleftrightarrow> a \<noteq> b \<and> \<not> Index_Less b a) \<and>
   (Index_Less a b \<and> Index_Less b c \<longrightarrow> Index_Less a c) \<and>
   (\<not> Builtin a \<and> Builtin b \<longrightarrow> Index_Less a b)"
proof (intro conjI impI)
  show "Index_Equal a b \<longleftrightarrow> a = b" by (rule Index_Equal_iff)
  show "Index_Less a b \<longleftrightarrow> a \<noteq> b \<and> \<not> Index_Less b a"
    using idef.cmp_pos_iff [of a b] idef.cmp_pos_iff [of b a] Index_cmp_zero [of a b]
    by (simp add: Index_Less_cmp) linarith
  show "Index_Less a c" if "Index_Less a b \<and> Index_Less b c"
    using that idef.cmp_less_trans [of a b c] by (simp add: Index_Less_cmp)
  show "Index_Less a b" if "\<not> Builtin a \<and> Builtin b"
    using that by (simp add: Index_Less_def cmpBool_def)
qed

theorem Index_Less_total_order_witness:
  "Index_Less \<lparr>ix_Kind = ''z'', ix_Ancestor = True, SortBy = []\<rparr> \<lparr>ix_Kind = ''a'', ix_Ancestor = False, SortBy = []\<rparr>"
  using Index_Less_total_order [of "\<lparr>ix_Kind = ''z'', ix_Ancestor = True, SortBy = []\<rparr>"
      "\<lparr>ix_Kind = ''a'', ix_Ancestor = False, SortBy = []\<rparr>", THEN conjunct2, THEN conjunct2, THEN conjunct2]
  by (simp add: Builtin_def)

text \<open>
  The normal form of an index: \<^verbatim>\<open>Normalize\<close> is idempotent and appends at most the key
  column; the full sort order ends in a key column and holds every column of the definition in order, after an
  ancestor column exactly for ancestor indexes; \<^verbatim>\<open>PrepForIdxTable\<close> puts the key column first and
  flipping it back gives the normal form.
\<close>

theorem Normalize_full_order:
  "Normalize (Normalize ix) = Normalize ix \<and>
   Flip (PrepForIdxTable ix) = Normalize ix \<and>
   SortBy (PrepForIdxTable ix) \<noteq> [] \<and> col_Property (hd (SortBy (PrepForIdxTable ix))) = ''__key__'' \<and>
   (\<exists>cs. GetFullSortOrder ix =
      (if ix_Ancestor ix then [\<lparr>col_Property = ''__ancestor__'', Descending = False\<rparr>] else []) @ SortBy ix @ cs
      \<and> cs = (if SortBy ix \<noteq> [] \<and> col_Property (last (SortBy ix)) = ''__key__'' then [] else [key_col])) \<and>
   col_Property (last (GetFullSortOrder ix)) = ''__key__''"
  by (auto simp: Normalize_def Flip_def PrepForIdxTable_def GetFullSortOrder_def hd_rev Let_def)

text \<open>
  YAML round trip of a column: the map \<^verbatim>\<open>MarshalYAML\<close> hands to the YAML library is read
  back by \<^verbatim>\<open>UnmarshalYAML\<close> as the same column, provided the library returns the map it was given.
\<close>

theorem IndexColumn_YAML_round_trip:
  assumes "\<And>m. unmarshal (marshal m) = Inr m"
  shows "IndexColumn_UnmarshalYAML (unmarshal (IndexColumn_MarshalYAML marshal c)) = Inr c"
  using assms by (cases c) (simp add: IndexColumn_UnmarshalYAML_def IndexColumn_MarshalYAML_def)

theorem IndexColumn_YAML_round_trip_witness:
  "IndexColumn_UnmarshalYAML (Inr (IndexColumn_MarshalYAML (\<lambda>m. m) \<lparr>col_Property = ''f'', Descending = True\<rparr>))
    = Inr \<lparr>col_Property = ''f'', Descending = True\<rparr>"
  using IndexColumn_YAML_round_trip [of Inr "\<lambda>m. m" "\<lparr>col_Property = ''f'', Descending = True\<rparr>"] by simp

end
