(* ===== verification/Serialize.thy ===== *)
theory Serialize
  imports Properties Indexes
begin

text \<open>
  \<^verbatim>\<open>service/datastore/serialize\<close>: the binary encodings of keys, properties, property
  maps and index definitions that the in-memory datastore keeps in its tables
  (\<^verbatim>\<open>serialize.go\<close>), the helpers on byte strings (\<^verbatim>\<open>binary_tools.go\<close>) and the
  inverting buffer used for descending columns (\<^verbatim>\<open>invertible.go\<close>). The encoders of
  single values come from the package \<^verbatim>\<open>cmpbin\<close>, which is not part of this repository;
  they are the fields of a parameter, and what its documentation promises (values are read
  back, and their encodings sort as the values do) is the hypothesis \<open>cmpbin_ok\<close>.
  A writer appends to a \<^verbatim>\<open>bytes.Buffer\<close>, which never fails, and is modelled by the bytes it
  appends; a reader takes the unread bytes and returns an error or a value with the bytes
  left. A \<^verbatim>\<open>panicIf\<close> under \<^verbatim>\<open>recoverTo\<close> returns the error.
\<close>

section \<open>Readers\<close>

datatype serror = EOF | CodecError | BadContext | HugeKey | BadIntID | BadTokType
  | BadGeoPoint | UnknownType | BadValue perror | HugeRows | HugeProps | HugeIndex

type_synonym 'a reader = "byte list \<Rightarrow> serror + 'a \<times> byte list"

definition rd_ret :: "'a \<Rightarrow> 'a reader" where
  "rd_ret v buf = Inr (v, buf)"

definition rd_err :: "serror \<Rightarrow> 'a reader" where
  "rd_err e buf = Inl e"

definition rd_bind :: "'a reader \<Rightarrow> ('a \<Rightarrow> 'b reader) \<Rightarrow> 'b reader" where
  "rd_bind m f buf = (case m buf of Inl e \<Rightarrow> Inl e | Inr (v, buf') \<Rightarrow> f v buf')"

definition ReadByte :: "byte reader" where
  "ReadByte buf = (case buf of [] \<Rightarrow> Inl EOF | b # rest \<Rightarrow> Inr (b, rest))"

text \<open>The functions of \<^verbatim>\<open>cmpbin\<close> that the package calls.\<close>

record cmpbin =
  wString :: "string \<Rightarrow> byte list"
  rString :: "string reader"
  wBytes :: "byte list \<Rightarrow> byte list"
  rBytes :: "byte list reader"
  wInt :: "int64 \<Rightarrow> byte list"
  rInt :: "int64 reader"
  wUint :: "uint64 \<Rightarrow> byte list"
  rUint :: "uint64 reader"
  wFloat64 :: "float64 \<Rightarrow> byte list"
  rFloat64 :: "float64 reader"

section \<open>Keys\<close>

text \<open>\<^verbatim>\<open>WithContext\<close> is \<open>True\<close>.\<close>

abbreviation (input) WithContext :: bool where "WithContext \<equiv> True"
abbreviation (input) WithoutContext :: bool where "WithoutContext \<equiv> False"

definition pt_byte :: "PropertyType \<Rightarrow> byte" where
  "pt_byte t = of_nat (pt_num t)"

definition WriteKeyTok :: "cmpbin \<Rightarrow> KeyTok \<Rightarrow> byte list" where
  "WriteKeyTok C tok =
     wString C (Kind tok) @
     (if StringID tok \<noteq> '''' then pt_byte PTString # wString C (StringID tok)
      else pt_byte PTInt # wInt C (IntID tok))"

definition WriteKey :: "cmpbin \<Rightarrow> bool \<Rightarrow> Key \<Rightarrow> byte list" where
  "WriteKey C context k =
     (let (appid, namespace, toks) = Key_Split k in
      (if context = WithContext then 1 # wString C appid @ wString C namespace else [0]) @
      concat (map (\<lambda>tok. 1 # WriteKeyTok C tok) toks) @ [0])"

definition ReadKeyTok :: "cmpbin \<Rightarrow> KeyTok reader" where
  "ReadKeyTok C =
     rd_bind (rString C) (\<lambda>kind. rd_bind ReadByte (\<lambda>typ.
       if typ = pt_byte PTString then rd_bind (rString C) (\<lambda>s. rd_ret (mkTok kind 0 s))
       else if typ = pt_byte PTInt then
         rd_bind (rInt C) (\<lambda>i. if sint i \<le> 0 then rd_err BadIntID else rd_ret (mkTok kind i ''''))
       else rd_err BadTokType))"

definition ReadKeyNumToksReasonableLimit :: nat where
  "ReadKeyNumToksReasonableLimit = 50"

text \<open>The loop of \<^verbatim>\<open>ReadKey\<close>; the argument is how many more tokens are allowed.\<close>

fun read_toks :: "cmpbin \<Rightarrow> nat \<Rightarrow> KeyTok list reader" where
  "read_toks C left =
     rd_bind ReadByte (\<lambda>ctrlByte.
       if ctrlByte = 0 then rd_ret []
       else case left of
         0 \<Rightarrow> rd_err HugeKey
       | Suc n \<Rightarrow> rd_bind (ReadKeyTok C) (\<lambda>tok. rd_bind (read_toks C n) (\<lambda>toks. rd_ret (tok # toks))))"

declare read_toks.simps [simp del]

definition ReadKey :: "cmpbin \<Rightarrow> bool \<Rightarrow> KeyContext \<Rightarrow> Key option reader" where
  "ReadKey C context inKC =
     rd_bind ReadByte (\<lambda>actualCtx.
       rd_bind (if actualCtx = 1 then
                  rd_bind (rString C) (\<lambda>a. rd_bind (rString C) (\<lambda>n. rd_ret (MkKeyContext a n)))
                else if actualCtx \<noteq> 0 then rd_err BadContext
                else rd_ret (MkKeyContext '''' ''''))
         (\<lambda>kc. let kc = (if context = WithoutContext then inKC else kc) in
            rd_bind (read_toks C ReadKeyNumToksReasonableLimit) (\<lambda>toks. rd_ret (NewKeyToks kc toks))))"

section \<open>Properties\<close>

definition WriteGeoPoint :: "cmpbin \<Rightarrow> GeoPoint \<Rightarrow> byte list" where
  "WriteGeoPoint C gp = wFloat64 C (Lat gp) @ wFloat64 C (Lng gp)"

definition ReadGeoPoint :: "cmpbin \<Rightarrow> GeoPoint reader" where
  "ReadGeoPoint C =
     rd_bind (rFloat64 C) (\<lambda>lat. rd_bind (rFloat64 C) (\<lambda>lng.
       let gp = \<lparr>Lat = lat, Lng = lng\<rparr> in
       if \<not> GeoPoint_Valid gp then rd_err BadGeoPoint else rd_ret gp))"

text \<open>\<^verbatim>\<open>WriteTime\<close>, with the result of \<^verbatim>\<open>t.Zone()\<close>; \<open>None\<close> is its panic.\<close>

definition WriteTime :: "cmpbin \<Rightarrow> string \<Rightarrow> int \<Rightarrow> gotime \<Rightarrow> byte list option" where
  "WriteTime C name off t =
     (if name \<noteq> ''UTC'' \<or> off \<noteq> 0 then None else Some (wInt C (TimeToInt t)))"

definition ReadTime :: "cmpbin \<Rightarrow> gotime reader" where
  "ReadTime C = rd_bind (rInt C) (\<lambda>v. rd_ret (IntToTime v))"

text \<open>\<^verbatim>\<open>writeIndexValue\<close>; \<open>None\<close> is the error for an unsupported type.\<close>

definition writeIndexValue :: "cmpbin \<Rightarrow> bool \<Rightarrow> goval \<Rightarrow> byte list option" where
  "writeIndexValue C context v =
     (case v of
        GNil \<Rightarrow> Some []
      | GBool b \<Rightarrow> Some [if b then 1 else 0]
      | GInt i \<Rightarrow> Some (wInt C i)
      | GFloat f \<Rightarrow> Some (wFloat64 C f)
      | GString s \<Rightarrow> Some (wString C s)
      | GBytes bs \<Rightarrow> Some (wBytes C bs)
      | GGeo g \<Rightarrow> Some (WriteGeoPoint C g)
      | GKey k \<Rightarrow> Some (WriteKey C context k)
      | _ \<Rightarrow> None)"

definition writePropertyImpl :: "cmpbin \<Rightarrow> bool \<Rightarrow> Property \<Rightarrow> bool \<Rightarrow> byte list option" where
  "writePropertyImpl C context p index =
     (let (it, v) = IndexTypeAndValue p;
          it = (if \<not> index then Property_Type p else it);
          typb = (if indexSetting p \<noteq> NoIndex then or (pt_byte it) 0x80 else pt_byte it)
      in map_option (\<lambda>bs. typb # bs) (writeIndexValue C context v))"

definition WriteProperty :: "cmpbin \<Rightarrow> bool \<Rightarrow> Property \<Rightarrow> byte list option" where
  "WriteProperty C context p = writePropertyImpl C context p False"

definition WriteIndexProperty :: "cmpbin \<Rightarrow> bool \<Rightarrow> Property \<Rightarrow> byte list option" where
  "WriteIndexProperty C context p = writePropertyImpl C context p True"

definition rd_map :: "('a \<Rightarrow> 'b) \<Rightarrow> 'a reader \<Rightarrow> 'b reader" where
  "rd_map f m = rd_bind m (\<lambda>v. rd_ret (f v))"

text \<open>The switch of \<^verbatim>\<open>ReadProperty\<close> on the type byte.\<close>

definition read_value :: "cmpbin \<Rightarrow> bool \<Rightarrow> KeyContext \<Rightarrow> byte \<Rightarrow> goval reader" where
  "read_value C context inKC t =
     (if t = pt_byte PTNull then rd_ret GNil
      else if t = pt_byte PTBool then rd_map (\<lambda>b. GBool (b \<noteq> 0)) ReadByte
      else if t = pt_byte PTInt then rd_map GInt (rInt C)
      else if t = pt_byte PTFloat then rd_map GFloat (rFloat64 C)
      else if t = pt_byte PTString then rd_map GString (rString C)
      else if t = pt_byte PTBytes then rd_map GBytes (rBytes C)
      else if t = pt_byte PTTime then rd_map GTime (ReadTime C)
      else if t = pt_byte PTGeoPoint then rd_map GGeo (ReadGeoPoint C)
      else if t = pt_byte PTKey then
        rd_map (\<lambda>k. case k of Some k \<Rightarrow> GKey k | None \<Rightarrow> GNilKey) (ReadKey C context inKC)
      else if t = pt_byte PTBlobKey then rd_map GBlobKey (rString C)
      else rd_err UnknownType)"

definition ReadProperty :: "cmpbin \<Rightarrow> bool \<Rightarrow> KeyContext \<Rightarrow> Property reader" where
  "ReadProperty C context inKC =
     rd_bind ReadByte (\<lambda>b.
       let is = (if and b 0x80 = 0 then NoIndex else ShouldIndex) in
       rd_bind (read_value C context inKC (and b 0x7f)) (\<lambda>val.
         case SetValue val is of Inl e \<Rightarrow> rd_err (BadValue e) | Inr p \<Rightarrow> rd_ret p))"

section \<open>Property maps\<close>

definition ReadPropertyMapReasonableLimit :: nat where
  "ReadPropertyMapReasonableLimit = 30000"

text \<open>The encodings of a list, or \<open>None\<close> if one of them fails.\<close>

definition concat_opt :: "byte list option list \<Rightarrow> byte list option" where
  "concat_opt xs = (if None \<in> set xs then None else Some (concat (map the xs)))"

definition write_row :: "cmpbin \<Rightarrow> bool \<Rightarrow> string \<times> PropertyData \<Rightarrow> byte list option" where
  "write_row C context row =
     (case row of (name, pdata) \<Rightarrow>
        (case pdata of
           PSingle p \<Rightarrow> map_option (\<lambda>bs. wString C name @ wInt C (-1) @ bs) (WriteProperty C context p)
         | PSlice ps \<Rightarrow> map_option (\<lambda>bs. wString C name @ wInt C (word_of_nat (length ps)) @ bs)
             (concat_opt (map (WriteProperty C context) ps))))"

text \<open>\<open>det\<close> is the package variable \<^verbatim>\<open>WritePropertyMapDeterministic\<close>.\<close>

definition WritePropertyMap :: "cmpbin \<Rightarrow> bool \<Rightarrow> bool \<Rightarrow> PropertyMap \<Rightarrow> byte list option" where
  "WritePropertyMap C det context pm =
     (let pm = pm_Save pm False;
          rows = map (write_row C context) pm
      in if None \<in> set rows then None
         else let rows = map the rows; rows = (if det then sort rows else rows)
              in Some (wUint C (word_of_nat (length pm)) @ concat rows))"

fun read_n :: "nat \<Rightarrow> 'a reader \<Rightarrow> 'a list reader" where
  "read_n 0 m = rd_ret []"
| "read_n (Suc n) m = rd_bind m (\<lambda>x. rd_bind (read_n n m) (\<lambda>xs. rd_ret (x # xs)))"

definition read_row :: "cmpbin \<Rightarrow> bool \<Rightarrow> KeyContext \<Rightarrow> (string \<times> PropertyData) reader" where
  "read_row C context inKC =
     rd_bind (rString C) (\<lambda>name. rd_bind (rInt C) (\<lambda>numProps.
       if sint numProps < 0 then rd_map (\<lambda>p. (name, PSingle p)) (ReadProperty C context inKC)
       else if unat numProps > ReadPropertyMapReasonableLimit then rd_err HugeProps
       else rd_map (\<lambda>ps. (name, PSlice ps)) (read_n (unat numProps) (ReadProperty C context inKC))))"

text \<open>\<open>pm[name] = ...\<close> for every row read, in order.\<close>

definition ReadPropertyMap :: "cmpbin \<Rightarrow> bool \<Rightarrow> KeyContext \<Rightarrow> PropertyMap reader" where
  "ReadPropertyMap C context inKC =
     rd_bind (rUint C) (\<lambda>numRows.
       if unat numRows > ReadPropertyMapReasonableLimit then rd_err HugeRows
       else rd_map (foldl (\<lambda>pm (name, d). al_set pm name d) [])
              (read_n (unat numRows) (read_row C context inKC)))"

section \<open>Indexes\<close>

definition MaxIndexColumns :: nat where "MaxIndexColumns = 64"

definition WriteIndexColumn :: "cmpbin \<Rightarrow> IndexColumn \<Rightarrow> byte list" where
  "WriteIndexColumn C c = (if \<not> Descending c then 0 else 1) # wString C (col_Property c)"

definition ReadIndexColumn :: "cmpbin \<Rightarrow> IndexColumn reader" where
  "ReadIndexColumn C =
     rd_bind ReadByte (\<lambda>dir. rd_bind (rString C) (\<lambda>p.
       rd_ret \<lparr>col_Property = p, Descending = (dir \<noteq> 0)\<rparr>))"

definition WriteIndexDefinition :: "cmpbin \<Rightarrow> IndexDefinition \<Rightarrow> byte list" where
  "WriteIndexDefinition C i =
     wString C (ix_Kind i) @ [if \<not> ix_Ancestor i then 0 else 1] @
     concat (map (\<lambda>sb. 1 # WriteIndexColumn C sb) (SortBy i)) @ [0]"

text \<open>The loop of \<^verbatim>\<open>ReadIndexDefinition\<close>: \<open>left\<close> is \<open>MaxIndexColumns + 1\<close> less the
  number of columns read so far, since the code tests \<open>len(i.SortBy) > MaxIndexColumns\<close>.\<close>

fun read_cols :: "cmpbin \<Rightarrow> nat \<Rightarrow> IndexColumn list reader" where
  "read_cols C left =
     rd_bind ReadByte (\<lambda>ctrl.
       if ctrl = 0 then rd_ret []
       else case left of
         0 \<Rightarrow> rd_err HugeIndex
       | Suc n \<Rightarrow> rd_bind (ReadIndexColumn C) (\<lambda>c. rd_bind (read_cols C n) (\<lambda>cs. rd_ret (c # cs))))"

declare read_cols.simps [simp del]

definition ReadIndexDefinition :: "cmpbin \<Rightarrow> IndexDefinition reader" where
  "ReadIndexDefinition C =
     rd_bind (rString C) (\<lambda>kind. rd_bind ReadByte (\<lambda>anc.
       rd_bind (read_cols C (MaxIndexColumns + 1)) (\<lambda>cols.
         rd_ret \<lparr>ix_Kind = kind, ix_Ancestor = (anc = 1), SortBy = cols\<rparr>)))"

section \<open>Serialised properties\<close>

text \<open>What \<^verbatim>\<open>toBytesErr\<close> dispatches on: the cases of its type switch.\<close>

datatype serializable = SIndexColumn IndexColumn | SIndexDefinition IndexDefinition
  | SKeyTok KeyTok | SProperty Property | SPropertyMap PropertyMap | SValue goval

definition toBytesErr :: "cmpbin \<Rightarrow> bool \<Rightarrow> serializable \<Rightarrow> bool \<Rightarrow> byte list option" where
  "toBytesErr C det i ctx =
     (case i of
        SIndexColumn t \<Rightarrow> Some (WriteIndexColumn C t)
      | SIndexDefinition t \<Rightarrow> Some (WriteIndexDefinition C t)
      | SKeyTok t \<Rightarrow> Some (WriteKeyTok C t)
      | SProperty t \<Rightarrow> WriteIndexProperty C ctx t
      | SPropertyMap t \<Rightarrow> WritePropertyMap C det ctx t
      | SValue v \<Rightarrow> Option.bind (MkProperty v) (\<lambda>p. writeIndexValue C ctx (snd (IndexTypeAndValue p))))"

definition ToBytes :: "cmpbin \<Rightarrow> bool \<Rightarrow> serializable \<Rightarrow> byte list option" where
  "ToBytes C det i = toBytesErr C det i WithoutContext"

definition ToBytesWithContext :: "cmpbin \<Rightarrow> bool \<Rightarrow> serializable \<Rightarrow> byte list option" where
  "ToBytesWithContext C det i = toBytesErr C det i WithContext"

text \<open>The loop of \<^verbatim>\<open>PropertySlice\<close>, with its set of encodings seen; a property always
  encodes, so \<^verbatim>\<open>ToBytes\<close> does not panic.\<close>

fun pslice_loop :: "cmpbin \<Rightarrow> byte list set \<Rightarrow> Property list \<Rightarrow> byte list list" where
  "pslice_loop C dups [] = []"
| "pslice_loop C dups (v # vals) =
     (if indexSetting v = NoIndex then pslice_loop C dups vals
      else let data = the (ToBytes C False (SProperty v)) in
           if data \<in> dups then pslice_loop C dups vals
           else data # pslice_loop C (insert data dups) vals)"

definition PropertySlice :: "cmpbin \<Rightarrow> Property list \<Rightarrow> byte list list" where
  "PropertySlice C vals = pslice_loop C {} vals"

text \<open>The keys from \<open>k\<close> up to its root, as the loop over \<^verbatim>\<open>Parent\<close> visits them.\<close>

function ancestor_chain :: "Key \<Rightarrow> Key list" where
  "ancestor_chain k = k # (case Key_Parent k of None \<Rightarrow> [] | Some p \<Rightarrow> ancestor_chain p)"
  by pat_completeness auto
termination
  by (relation "measure (\<lambda>k. length (toks k))")
    (auto simp: Key_Parent_def NewKeyToks_def split: if_splits)

declare ancestor_chain.simps [simp del]

definition key_prop :: "Key \<Rightarrow> Property" where
  "key_prop k = \<lparr>pvalue = PKeyV k, indexSetting = ShouldIndex\<rparr>"

type_synonym SerializedPmap = "string \<Rightarrow> byte list list option"

definition PropertyMapPartially :: "cmpbin \<Rightarrow> Key option \<Rightarrow> PropertyMap \<Rightarrow> SerializedPmap" where
  "PropertyMapPartially C k pm =
     foldl (\<lambda>ret (name, _). let newVals = PropertySlice C (pm_Slice pm name) in
              if newVals \<noteq> [] then ret(name \<mapsto> newVals) else ret)
       (case k of
          None \<Rightarrow> Map.empty
        | Some k \<Rightarrow> [''__key__'' \<mapsto> [the (ToBytes C False (SProperty (key_prop k)))],
                     ''__ancestor__'' \<mapsto>
                        map (\<lambda>a. the (ToBytes C False (SProperty (key_prop a)))) (ancestor_chain k)])
       pm"

section \<open>What cmpbin promises\<close>

definition reads_back :: "('a \<Rightarrow> byte list) \<Rightarrow> 'a reader \<Rightarrow> bool" where
  "reads_back w r \<longleftrightarrow> (\<forall>v rest. r (w v @ rest) = Inr (v, rest))"

text \<open>Every value is read back, and the bytes after it are left alone.\<close>

definition cmpbin_ok :: "cmpbin \<Rightarrow> bool" where
  "cmpbin_ok C \<longleftrightarrow> reads_back (wString C) (rString C) \<and> reads_back (wBytes C) (rBytes C) \<and>
     reads_back (wInt C) (rInt C) \<and> reads_back (wUint C) (rUint C) \<and>
     reads_back (wFloat64 C) (rFloat64 C)"

text \<open>The encodings sort bytewise as the values do; strings and byte slices are encoded alike.\<close>

definition cmpbin_sorted :: "cmpbin \<Rightarrow> bool" where
  "cmpbin_sorted C \<longleftrightarrow>
     (\<forall>a b. a < b \<longrightarrow> wString C a < wString C b) \<and>
     (\<forall>a b. sint a < sint b \<longrightarrow> wInt C a < wInt C b) \<and>
     (\<forall>a b. f64_less a b \<longrightarrow> wFloat64 C a < wFloat64 C b) \<and>
     (\<forall>bs. wBytes C bs = wString C (bytes_str bs))"

lemma cmpbin_okD [codec_rt]:
  assumes "cmpbin_ok C"
  shows "rString C (wString C s @ rest) = Inr (s, rest)"
    and "rBytes C (wBytes C bs @ rest) = Inr (bs, rest)"
    and "rInt C (wInt C i @ rest) = Inr (i, rest)"
    and "rUint C (wUint C u @ rest) = Inr (u, rest)"
    and "rFloat64 C (wFloat64 C f @ rest) = Inr (f, rest)"
  using assms by (simp_all add: cmpbin_ok_def reads_back_def)

lemma rd_bind_Inr [codec_rt]: "m buf = Inr (v, rest) \<Longrightarrow> rd_bind m f buf = f v rest"
  by (simp add: rd_bind_def)

lemma rd_bind_Inl [codec_rt]: "m buf = Inl e \<Longrightarrow> rd_bind m f buf = Inl e"
  by (simp add: rd_bind_def)

lemma rd_map_Inr [codec_rt]: "m buf = Inr (v, rest) \<Longrightarrow> rd_map f m buf = Inr (f v, rest)"
  by (simp add: rd_map_def rd_bind_def rd_ret_def)

lemma ReadByte_Cons [simp]: "ReadByte (b # rest) = Inr (b, rest)"
  by (simp add: ReadByte_def)

lemma rd_ret_eq [simp]: "rd_ret v buf = Inr (v, buf)"
  by (simp add: rd_ret_def)

lemma rd_err_eq [simp]: "rd_err e buf = Inl e"
  by (simp add: rd_err_def)

lemma pt_byte_simps [simp]:
  "pt_byte PTNull = 0" "pt_byte PTInt = 1" "pt_byte PTTime = 2" "pt_byte PTBool = 3"
  "pt_byte PTBytes = 4" "pt_byte PTString = 5" "pt_byte PTFloat = 6" "pt_byte PTGeoPoint = 7"
  "pt_byte PTKey = 8" "pt_byte PTBlobKey = 9" "pt_byte PTUnknown = 10"
  by (simp_all add: pt_byte_def)

section \<open>Keys are read back\<close>

text \<open>The tokens and keys that can be read: an ID of one kind only, integer IDs positive,
  at least one and at most 50 tokens.\<close>

definition tok_storable :: "KeyTok \<Rightarrow> bool" where
  "tok_storable t \<longleftrightarrow> (if StringID t \<noteq> '''' then IntID t = 0 else 0 < sint (IntID t))"

definition key_storable :: "Key \<Rightarrow> bool" where
  "key_storable k \<longleftrightarrow> toks k \<noteq> [] \<and> length (toks k) \<le> ReadKeyNumToksReasonableLimit \<and>
     list_all tok_storable (toks k)"

lemma ReadKeyTok_Write [codec_rt]:
  assumes "cmpbin_ok C" "tok_storable t"
  shows "ReadKeyTok C (WriteKeyTok C t @ rest) = Inr (t, rest)"
  using assms by (cases t) (auto simp: ReadKeyTok_def WriteKeyTok_def tok_storable_def mkTok_def codec_rt
      split: if_splits)

lemma read_toks_steps [simp]:
  "read_toks C n (0 # rest) = Inr ([], rest)"
  "read_toks C 0 (1 # rest) = Inl HugeKey"
  "read_toks C (Suc n) (1 # rest) =
     rd_bind (ReadKeyTok C) (\<lambda>t. rd_bind (read_toks C n) (\<lambda>ts. rd_ret (t # ts))) rest"
  by (simp_all add: read_toks.simps [of C n] read_toks.simps [of C 0] read_toks.simps [of C "Suc n"] codec_rt)

lemma read_toks_Write:
  assumes "cmpbin_ok C"
  shows "list_all tok_storable ts \<Longrightarrow> length ts \<le> n \<Longrightarrow>
    read_toks C n (concat (map (\<lambda>tok. 1 # WriteKeyTok C tok) ts) @ 0 # rest) = Inr (ts, rest)"
proof (induction ts arbitrary: n)
  case (Cons t ts)
  then show ?case using assms by (cases n) (simp_all add: codec_rt)
qed simp

lemma read_toks_huge:
  assumes "cmpbin_ok C"
  shows "list_all tok_storable ts \<Longrightarrow> n < length ts \<Longrightarrow>
    read_toks C n (concat (map (\<lambda>tok. 1 # WriteKeyTok C tok) ts) @ rest) = Inl HugeKey"
proof (induction ts arbitrary: n)
  case (Cons t ts)
  then show ?case using assms by (cases n) (simp_all add: codec_rt)
qed simp

lemma read_toks_incomplete:
  assumes "cmpbin_ok C" "KeyTok_IsIncomplete t"
  shows "list_all tok_storable ts \<Longrightarrow> length ts < n \<Longrightarrow>
    read_toks C n (concat (map (\<lambda>tok. 1 # WriteKeyTok C tok) ts) @ 1 # WriteKeyTok C t @ rest) =
      Inl BadIntID"
proof (induction ts arbitrary: n)
  case Nil
  have "ReadKeyTok C (WriteKeyTok C t @ rest) = Inl BadIntID"
    using assms by (simp add: ReadKeyTok_def WriteKeyTok_def KeyTok_IsIncomplete_def codec_rt)
  then show ?case using Nil by (cases n) (simp_all add: codec_rt)
next
  case (Cons u us)
  then show ?case using assms(1) by (cases n) (simp_all add: codec_rt)
qed

text \<open>The context a key gets when written with context \<open>wctx\<close> and read with \<open>rctx\<close>.\<close>

definition read_context :: "bool \<Rightarrow> bool \<Rightarrow> KeyContext \<Rightarrow> KeyContext \<Rightarrow> KeyContext" where
  "read_context wctx rctx inKC c =
     (if rctx = WithoutContext then inKC else if wctx = WithContext then c else MkKeyContext '''' '''')"

lemma MkKeyContext_id [simp]: "MkKeyContext (AppID c) (Namespace c) = c"
  by (cases c) (simp add: MkKeyContext_def)

lemma ReadKey_Write:
  assumes "cmpbin_ok C" "key_storable k"
  shows "ReadKey C rctx inKC (WriteKey C wctx k @ rest) =
    Inr (Some (k\<lparr>kc := read_context wctx rctx inKC (kc k)\<rparr>), rest)"
proof -
  have "read_toks C ReadKeyNumToksReasonableLimit
      (concat (map (\<lambda>tok. 1 # WriteKeyTok C tok) (toks k)) @ 0 # rest) = Inr (toks k, rest)"
    using assms by (intro read_toks_Write) (auto simp: key_storable_def)
  then show ?thesis
    using assms by (cases k) (auto simp: ReadKey_def WriteKey_def Key_Split_def codec_rt
        read_context_def NewKeyToks_def key_storable_def)
qed

section \<open>Properties are read back\<close>

definition prop_storable :: "Property \<Rightarrow> bool" where
  "prop_storable p \<longleftrightarrow> prop_ok p \<and>
     (case pvalue p of PKeyV k \<Rightarrow> key_storable k | PTimeV t \<Rightarrow> t \<noteq> Time 0 True | _ \<Rightarrow> True)"

definition recontext :: "bool \<Rightarrow> bool \<Rightarrow> KeyContext \<Rightarrow> Property \<Rightarrow> Property" where
  "recontext wctx rctx inKC p =
     (case pvalue p of PKeyV k \<Rightarrow> p\<lparr>pvalue := PKeyV (k\<lparr>kc := read_context wctx rctx inKC (kc k)\<rparr>)\<rparr>
      | _ \<Rightarrow> p)"

lemma ReadGeoPoint_Write [codec_rt]:
  assumes "cmpbin_ok C" "GeoPoint_Valid g"
  shows "ReadGeoPoint C (WriteGeoPoint C g @ rest) = Inr (g, rest)"
  using assms by (cases g) (simp add: ReadGeoPoint_def WriteGeoPoint_def codec_rt)

lemma ReadTime_Write [codec_rt]:
  "cmpbin_ok C \<Longrightarrow> ReadTime C (wInt C (TimeToInt t) @ rest) = Inr (IntToTime (TimeToInt t), rest)"
  by (simp add: ReadTime_def codec_rt)

lemma typ_bits:
  "and (pt_byte t) 0x80 = 0" "and (or (pt_byte t) 0x80) 0x80 = 0x80"
  "and (pt_byte t) 0x7f = pt_byte t" "and (or (pt_byte t) 0x80) 0x7f = pt_byte t"
  by (cases t; simp)+

lemma WriteProperty_Some: "\<exists>bs. WriteProperty C ctx p = Some bs"
  by (cases "pvalue p") (simp_all add: WriteProperty_def writePropertyImpl_def IndexTypeAndValue_def
      writeIndexValue_def Property_Value_def Let_def)

lemma ReadProperty_Write:
  assumes "cmpbin_ok C" "prop_storable p" "WriteProperty C wctx p = Some bs"
  shows "ReadProperty C rctx inKC (bs @ rest) = Inr (recontext wctx rctx inKC p, rest)"
proof -
  obtain val where bs: "bs = (if indexSetting p then pt_byte (Property_Type p) else or (pt_byte (Property_Type p)) 0x80) # val"
    and val: "writeIndexValue C wctx (snd (IndexTypeAndValue p)) = Some val"
    using assms(3) by (auto simp: WriteProperty_def writePropertyImpl_def Let_def split: prod.splits)
  have key: "SetValue (Property_Value (recontext wctx rctx inKC p)) (indexSetting p) =
      Inr (recontext wctx rctx inKC p)"
    using assms(2) prop_ok_SetValue [of "recontext wctx rctx inKC p"]
    by (cases "pvalue p") (auto simp: recontext_def prop_storable_def prop_ok_def)
  have "read_value C rctx inKC (pt_byte (Property_Type p)) (val @ rest) =
      Inr (Property_Value (recontext wctx rctx inKC p), rest)"
    using val assms(1,2)
    by (cases "pvalue p") (auto simp: read_value_def Property_Type_def Property_Value_def IndexTypeAndValue_def
        writeIndexValue_def recontext_def codec_rt ReadKey_Write prop_storable_def prop_ok_def
        IntToTime_TimeToInt)
  then show ?thesis
    using key by (auto simp: ReadProperty_def bs codec_rt typ_bits Let_def)
qed

section \<open>Property maps are read back\<close>

definition data_storable :: "PropertyData \<Rightarrow> bool" where
  "data_storable d = (case d of PSingle p \<Rightarrow> prop_storable p
     | PSlice ps \<Rightarrow> list_all prop_storable ps \<and> length ps \<le> ReadPropertyMapReasonableLimit)"

definition pm_storable :: "PropertyMap \<Rightarrow> bool" where
  "pm_storable pm \<longleftrightarrow> pm_wf pm \<and> length (pm_Save pm False) \<le> ReadPropertyMapReasonableLimit \<and>
     list_all (\<lambda>(name, d). data_storable d) (pm_Save pm False)"

definition recontext_data :: "bool \<Rightarrow> bool \<Rightarrow> KeyContext \<Rightarrow> PropertyData \<Rightarrow> PropertyData" where
  "recontext_data wctx rctx inKC d =
     (case d of PSingle p \<Rightarrow> PSingle (recontext wctx rctx inKC p)
      | PSlice ps \<Rightarrow> PSlice (map (recontext wctx rctx inKC) ps))"

lemma small_word:
  assumes "n \<le> ReadPropertyMapReasonableLimit"
  shows "unat (word_of_nat n :: 64 word) = n" "\<not> sint (word_of_nat n :: 64 word) < 0"
proof -
  have n: "n \<le> 30000" using assms by (simp add: ReadPropertyMapReasonableLimit_def)
  then show "unat (word_of_nat n :: 64 word) = n" by (simp add: unat_of_nat)
  have "sint (word_of_int (int n) :: 64 word) = int n" using n by (intro sint_word_of_int64) auto
  then show "\<not> sint (word_of_nat n :: 64 word) < 0" by simp
qed

text \<open>A list of encodings is read back by as many reads.\<close>

lemma read_n_concat:
  assumes "\<And>x rest. x \<in> set xs \<Longrightarrow> m (w x @ rest) = Inr (f x, rest)"
  shows "read_n (length xs) m (concat (map w xs) @ rest) = Inr (map f xs, rest)"
  using assms by (induction xs) (simp_all add: codec_rt)

lemma concat_opt_Some: "concat_opt (map (WriteProperty C ctx) ps) =
    Some (concat (map (\<lambda>p. the (WriteProperty C ctx p)) ps))"
  using WriteProperty_Some [of C ctx] by (auto simp: concat_opt_def comp_def) (metis option.distinct(1))

lemma write_row_Some: "\<exists>bs. write_row C ctx row = Some bs"
  using WriteProperty_Some [of C ctx]
  by (auto simp: write_row_def concat_opt_Some split: prod.splits PropertyData.splits)

lemma read_row_Write:
  assumes "cmpbin_ok C" "data_storable d"
  shows "read_row C rctx inKC (the (write_row C wctx (name, d)) @ rest) =
    Inr ((name, recontext_data wctx rctx inKC d), rest)"
proof (cases d)
  case (PSingle p)
  obtain bs where bs: "WriteProperty C wctx p = Some bs" using WriteProperty_Some by blast
  have "prop_storable p" using assms(2) PSingle by (simp add: data_storable_def)
  note read = ReadProperty_Write [OF assms(1) this bs]
  show ?thesis
    using assms(1) PSingle bs read by (simp add: read_row_def write_row_def recontext_data_def codec_rt)
next
  case (PSlice ps)
  let ?w = "\<lambda>p. the (WriteProperty C wctx p)"
  have ps: "list_all prop_storable ps" "length ps \<le> ReadPropertyMapReasonableLimit"
    using assms(2) PSlice by (auto simp: data_storable_def)
  have "ReadProperty C rctx inKC (?w p @ rest) = Inr (recontext wctx rctx inKC p, rest)"
    if "p \<in> set ps" for p rest
  proof -
    obtain bs where bs: "WriteProperty C wctx p = Some bs" using WriteProperty_Some by blast
    moreover have "prop_storable p" using ps that by (simp add: list_all_iff)
    ultimately show ?thesis using ReadProperty_Write [OF assms(1), of p wctx bs] by simp
  qed
  then have "read_n (length ps) (ReadProperty C rctx inKC) (concat (map ?w ps) @ rest) =
      Inr (map (recontext wctx rctx inKC) ps, rest)" by (rule read_n_concat)
  then show ?thesis
    using assms(1) PSlice ps(2) small_word [OF ps(2)]
    by (simp add: read_row_def write_row_def recontext_data_def codec_rt concat_opt_Some)
qed

lemma foldl_al_set:
  "distinct (map fst (acc @ rows)) \<Longrightarrow> foldl (\<lambda>pm (name, d). al_set pm name d) acc rows = acc @ rows"
proof (induction rows arbitrary: acc)
  case (Cons r rows)
  obtain k v where r: "r = (k, v)" by (cases r)
  then have "al_set acc k v = acc @ [(k, v)]" using Cons.prems by (intro al_set_new) auto
  then show ?case using Cons r by simp
qed simp

lemma sort_map: "sort (map f xs) = map f (sort_key f xs)"
  by (rule properties_for_sort) simp_all

lemma map_of_map_snd: "map_of (map (\<lambda>(k, v). (k, f v)) xs) k = map_option f (map_of xs k)"
  by (induction xs) auto

lemma ReadPropertyMap_Write:
  assumes C: "cmpbin_ok C" and pm: "pm_storable pm"
  shows "\<exists>bs pm'. WritePropertyMap C det wctx pm = Some bs \<and>
    ReadPropertyMap C rctx inKC (bs @ rest) = Inr (pm', rest) \<and> pm_wf pm' \<and>
    map_of pm' = (\<lambda>k. map_option (recontext_data wctx rctx inKC) (map_of (pm_Save pm False) k))"
proof -
  let ?w = "\<lambda>r. the (write_row C wctx r)" and ?f = "\<lambda>(k, d). (k, recontext_data wctx rctx inKC d)"
  define pm0 where "pm0 = pm_Save pm False"
  define rows where "rows = (if det then sort_key ?w pm0 else pm0)"
  have limit: "length pm0 \<le> ReadPropertyMapReasonableLimit"
    and st: "\<And>k d. (k, d) \<in> set pm0 \<Longrightarrow> data_storable d"
    using pm by (auto simp: pm_storable_def pm0_def list_all_iff)
  have dist0: "distinct (map fst pm0)"
    using pm by (simp add: pm_storable_def pm_wf_def pm0_def pm_Save_eq distinct_map_filter)
  have rows: "length rows = length pm0" "set rows = set pm0" "mset rows = mset pm0"
    by (simp_all add: rows_def)
  then have dist: "distinct (map fst rows)"
    using dist0 by (metis mset_eq_imp_distinct_iff mset_map)
  have dist': "distinct (map fst (map ?f rows))"
    using dist by (simp add: comp_def case_prod_beta)
  have wr: "WritePropertyMap C det wctx pm =
      Some (wUint C (word_of_nat (length pm0)) @ concat (map ?w rows))"
  proof -
    have "None \<noteq> write_row C wctx r" for r using write_row_Some [of C wctx r] by auto
    then have "None \<notin> set (map (write_row C wctx) pm0)" by auto
    then show ?thesis
      by (simp add: WritePropertyMap_def Let_def rows_def sort_map comp_def flip: pm0_def)
  qed
  have "read_n (length rows) (read_row C rctx inKC) (concat (map ?w rows) @ rest) = Inr (map ?f rows, rest)"
    using rows st read_row_Write [OF C] by (intro read_n_concat) auto
  then have "ReadPropertyMap C rctx inKC ((wUint C (word_of_nat (length pm0)) @ concat (map ?w rows)) @ rest)
      = Inr (map ?f rows, rest)"
    using C limit small_word [OF limit] rows foldl_al_set [of "[]" "map ?f rows"] dist'
    by (simp add: ReadPropertyMap_def codec_rt)
  moreover have "map_of (map ?f rows) = (\<lambda>k. map_option (recontext_data wctx rctx inKC) (map_of pm0 k))"
  proof -
    have "map_of rows = map_of pm0" using dist dist0 rows by (simp add: map_of_inject_set)
    then show ?thesis by (auto simp: map_of_map_snd)
  qed
  ultimately show ?thesis using wr dist' pm0_def by (auto simp: pm_wf_def)
qed

section \<open>Index definitions are read back\<close>

lemma ReadIndexColumn_Write [codec_rt]:
  "cmpbin_ok C \<Longrightarrow> ReadIndexColumn C (WriteIndexColumn C c @ rest) = Inr (c, rest)"
  by (cases c) (simp add: ReadIndexColumn_def WriteIndexColumn_def codec_rt)

lemma read_cols_steps [simp]:
  "read_cols C n (0 # rest) = Inr ([], rest)"
  "read_cols C 0 (1 # rest) = Inl HugeIndex"
  "read_cols C (Suc n) (1 # rest) =
     rd_bind (ReadIndexColumn C) (\<lambda>c. rd_bind (read_cols C n) (\<lambda>cs. rd_ret (c # cs))) rest"
  by (simp_all add: read_cols.simps [of C n] read_cols.simps [of C 0] read_cols.simps [of C "Suc n"] codec_rt)

lemma read_cols_Write:
  assumes "cmpbin_ok C"
  shows "length cs \<le> n \<Longrightarrow>
    read_cols C n (concat (map (\<lambda>c. 1 # WriteIndexColumn C c) cs) @ 0 # rest) = Inr (cs, rest)"
proof (induction cs arbitrary: n)
  case (Cons c cs)
  then show ?case using assms by (cases n) (simp_all add: codec_rt)
qed simp

lemma read_cols_huge:
  assumes "cmpbin_ok C"
  shows "n < length cs \<Longrightarrow>
    read_cols C n (concat (map (\<lambda>c. 1 # WriteIndexColumn C c) cs) @ rest) = Inl HugeIndex"
proof (induction cs arbitrary: n)
  case (Cons c cs)
  then show ?case using assms by (cases n) (simp_all add: codec_rt)
qed simp

end
