(* ===== verification/Byte_Tools.thy ===== *)
theory Byte_Tools
  imports Prelude
begin

text \<open>
  \<^verbatim>\<open>service/datastore/serialize/binary_tools.go\<close> and \<^verbatim>\<open>invertible.go\<close>: joining,
  inverting and incrementing byte strings, and the buffer that inverts what passes through
  it, which is how descending index columns are stored. Byte strings are ordered as
  \<^verbatim>\<open>bytes.Compare\<close> orders them, lexicographically.
\<close>

unbundle bit_operations_syntax

section \<open>Binary tools\<close>

definition Join :: "byte list list \<Rightarrow> byte list" where
  "Join itms = concat itms"

definition Invert :: "byte list \<Rightarrow> byte list" where
  "Invert bs = (if length bs = 0 then [] else map (\<lambda>b. 0xFF XOR b) bs)"

text \<open>The loop of \<^verbatim>\<open>Increment\<close>, which runs from the last byte to the first.\<close>

fun increment_rev :: "byte list \<Rightarrow> byte list \<times> bool" where
  "increment_rev [] = ([], True)"
| "increment_rev (b # bs) =
     (if b = 0xFF then (case increment_rev bs of (ret, overflow) \<Rightarrow> (0 # ret, overflow))
      else ((b + 1) # bs, False))"

definition Increment :: "byte list \<Rightarrow> byte list \<times> bool" where
  "Increment bstr =
     (case increment_rev (rev (Join [bstr])) of (ret, overflow) \<Rightarrow> (rev ret, overflow))"

section \<open>The inverting buffer\<close>

text \<open>The wrapped \<^verbatim>\<open>bytes.Buffer\<close> is the list of its unread bytes.\<close>

record invertibleBuffer =
  WriteBuffer :: "byte list"
  ib_invert :: bool

datatype 'a read_result = ReadOk 'a | ReadEOF

definition Invertible :: "byte list \<Rightarrow> invertibleBuffer" where
  "Invertible b = \<lparr>WriteBuffer = b, ib_invert = False\<rparr>"

definition ib_SetInvert :: "invertibleBuffer \<Rightarrow> bool \<Rightarrow> invertibleBuffer" where
  "ib_SetInvert ib inverted = ib\<lparr>ib_invert := inverted\<rparr>"

definition ib_WriteByte :: "invertibleBuffer \<Rightarrow> byte \<Rightarrow> invertibleBuffer" where
  "ib_WriteByte ib b =
     (let b = (if ib_invert ib then b XOR 0xFF else b) in ib\<lparr>WriteBuffer := WriteBuffer ib @ [b]\<rparr>)"

text \<open>\<^verbatim>\<open>Write\<close> and \<^verbatim>\<open>WriteString\<close> write the inverted bytes one at a time.\<close>

definition ib_Write :: "invertibleBuffer \<Rightarrow> byte list \<Rightarrow> invertibleBuffer" where
  "ib_Write ib bs =
     (if ib_invert ib
      then foldl (\<lambda>ib b. ib\<lparr>WriteBuffer := WriteBuffer ib @ [b XOR 0xFF]\<rparr>) ib bs
      else ib\<lparr>WriteBuffer := WriteBuffer ib @ bs\<rparr>)"

definition ib_WriteString :: "invertibleBuffer \<Rightarrow> string \<Rightarrow> invertibleBuffer" where
  "ib_WriteString ib s =
     (if ib_invert ib
      then foldl (\<lambda>ib b. ib\<lparr>WriteBuffer := WriteBuffer ib @ [b XOR 0xFF]\<rparr>) ib (str_bytes s)
      else ib\<lparr>WriteBuffer := WriteBuffer ib @ str_bytes s\<rparr>)"

definition ib_ReadByte :: "invertibleBuffer \<Rightarrow> byte read_result \<times> invertibleBuffer" where
  "ib_ReadByte ib =
     (case WriteBuffer ib of
        [] \<Rightarrow> (ReadEOF, ib)
      | b # rest \<Rightarrow>
          (ReadOk (if ib_invert ib then b XOR 0xFF else b), ib\<lparr>WriteBuffer := rest\<rparr>))"

text \<open>
  \<^verbatim>\<open>Read(bs)\<close> fills the front of \<open>bs\<close> with up to \<open>len(bs)\<close> bytes and returns how many
  (and EOF when the buffer is empty but \<open>bs\<close> is not); when inverting, the whole of \<open>bs\<close> is
  inverted, the part that was not filled too.
\<close>

definition ib_Read :: "invertibleBuffer \<Rightarrow> byte list \<Rightarrow> nat read_result \<times> byte list \<times> invertibleBuffer" where
  "ib_Read ib bs =
     (let n = min (length bs) (length (WriteBuffer ib));
          res = (if WriteBuffer ib = [] \<and> bs \<noteq> [] then ReadEOF else ReadOk n);
          bs' = take n (WriteBuffer ib) @ drop n bs;
          bs' = (if ib_invert ib then map (\<lambda>b. b XOR 0xFF) bs' else bs')
      in (res, bs', ib\<lparr>WriteBuffer := drop n (WriteBuffer ib)\<rparr>))"

text \<open>A sequence of single-byte writes, and of single-byte reads.\<close>

fun ib_WriteBytes :: "invertibleBuffer \<Rightarrow> byte list \<Rightarrow> invertibleBuffer" where
  "ib_WriteBytes ib [] = ib"
| "ib_WriteBytes ib (b # bs) = ib_WriteBytes (ib_WriteByte ib b) bs"

fun ib_ReadBytes :: "nat \<Rightarrow> invertibleBuffer \<Rightarrow> byte list read_result" where
  "ib_ReadBytes 0 ib = ReadOk []"
| "ib_ReadBytes (Suc n) ib =
     (case ib_ReadByte ib of
        (ReadEOF, _) \<Rightarrow> ReadEOF
      | (ReadOk b, ib') \<Rightarrow> (case ib_ReadBytes n ib' of ReadEOF \<Rightarrow> ReadEOF | ReadOk bs \<Rightarrow> ReadOk (b # bs)))"

section \<open>Strict order of encodings\<close>

text \<open>One byte string sorts before another whatever follows either of them.\<close>

definition sless :: "byte list \<Rightarrow> byte list \<Rightarrow> bool" where
  "sless a b \<longleftrightarrow> (\<exists>p x y as bs. a = p @ x # as \<and> b = p @ y # bs \<and> x < y)"

lemma sless_less: "sless a b \<Longrightarrow> a @ u < b @ v"
proof -
  have "p @ x # as @ u < p @ y # bs @ v" if "x < y" for p :: "byte list" and x y as bs
    using that by (induction p) simp_all
  then show "sless a b \<Longrightarrow> a @ u < b @ v" by (auto simp: sless_def)
qed

lemma sless_append: "sless a b \<Longrightarrow> sless (p @ a @ u) (p @ b @ v)"
  unfolding sless_def by (metis append.assoc append_Cons)

lemma sless_Cons: "sless a b \<Longrightarrow> sless (x # a) (x # b)"
  using sless_append [of a b "[x]" "[]" "[]"] by simp

lemma sless_front: "sless a b \<Longrightarrow> sless (a @ u) (b @ v)"
  using sless_append [of a b "[]"] by simp

lemma sless_head: "x < y \<Longrightarrow> sless (x # a) (y # b)"
  unfolding sless_def by (metis append_Nil)

lemma less_not_prefix_sless: "a < b \<Longrightarrow> (\<And>z. b \<noteq> a @ z) \<Longrightarrow> sless a b"
proof (induction a arbitrary: b)
  case Nil
  then show ?case by (cases b) auto
next
  case (Cons x a)
  then obtain y b' where b: "b = y # b'" by (cases b) auto
  show ?case
  proof (cases "x = y")
    case True
    then have "sless a b'" using Cons b by (intro Cons.IH) auto
    then show ?thesis using b True by (simp add: sless_Cons)
  next
    case False
    then show ?thesis using Cons.prems(1) b by (auto intro: sless_head)
  qed
qed

section \<open>Lemmas\<close>

lemma Invert_map: "Invert bs = map (\<lambda>b. 0xFF XOR b) bs"
  by (simp add: Invert_def)

lemma byte_FF: "(0xFF :: byte) = - 1"
  by simp

lemma invert_byte: "0xFF XOR b = - 1 - (b :: byte)"
proof -
  have "0xFF XOR b = NOT b" by (simp only: byte_FF bit.xor_one_left)
  then show ?thesis by (simp add: not_eq_complement)
qed

lemma invert_byte_less: "0xFF XOR a < 0xFF XOR (b :: byte) \<longleftrightarrow> b < a"
proof -
  have "unat (- 1 - x :: byte) = 255 - unat x" for x :: byte
  proof -
    have "unat (- 1 :: byte) = 255" unfolding byte_FF [symmetric] by simp
    then show ?thesis by (subst unat_sub) simp_all
  qed
  moreover have "unat a < 256" "unat b < 256" using unsigned_less [of a] unsigned_less [of b] by simp_all
  ultimately show ?thesis by (simp only: invert_byte word_less_nat_alt) linarith
qed

lemma Invert_Invert: "Invert (Invert bs) = bs"
proof -
  have "0xFF XOR (0xFF XOR b) = b" for b :: byte by (simp flip: xor.assoc)
  then show ?thesis by (simp add: Invert_map comp_def)
qed

lemma Invert_sless: "sless a b \<Longrightarrow> sless (Invert b) (Invert a)"
  unfolding sless_def Invert_map by (auto simp: invert_byte_less) (metis invert_byte_less)

text \<open>The number a byte string denotes, most significant byte first.\<close>

definition be_val :: "byte list \<Rightarrow> nat" where
  "be_val bs = foldl (\<lambda>v b. v * 256 + unat b) 0 bs"

fun le_val :: "byte list \<Rightarrow> nat" where
  "le_val [] = 0"
| "le_val (b # bs) = unat b + 256 * le_val bs"

lemma be_val_rev: "be_val (rev bs) = le_val bs"
  by (induction bs) (simp_all add: be_val_def)

lemma byte_succ: "b \<noteq> 0xFF \<Longrightarrow> unat (b + 1) = Suc (unat (b :: byte))"
proof -
  assume "b \<noteq> 0xFF"
  then have "1 + b \<noteq> 0" using eq_neg_iff_add_eq_0 [of b 1] unfolding byte_FF by (simp add: add.commute)
  then show ?thesis using unatSuc [of b] by (simp add: add.commute)
qed
lemma increment_rev_spec:
  "increment_rev bs = (ret, ov) \<Longrightarrow>
   length ret = length bs \<and> (ov \<longleftrightarrow> (\<forall>b \<in> set bs. b = 0xFF)) \<and>
   (ov \<longrightarrow> ret = replicate (length bs) 0) \<and>
   (\<not> ov \<longrightarrow> le_val ret = Suc (le_val bs) \<and> sless (rev bs) (rev ret))"
proof (induction bs arbitrary: ret ov)
  case (Cons b bs)
  show ?case
  proof (cases "b = 0xFF")
    case True
    obtain r ov' where r: "increment_rev bs = (r, ov')" by fastforce
    then have "ret = 0 # r" "ov = ov'" using Cons.prems True by auto
    then show ?thesis using Cons.IH [OF r] True by (auto intro: sless_front)
  next
    case False
    then have *: "ret = (b + 1) # bs" "\<not> ov" using Cons.prems by auto
    have "b < b + 1" using byte_succ [OF False] by (simp add: word_less_nat_alt)
    then have "sless (rev bs @ [b]) (rev bs @ [b + 1])"
      using sless_append [OF sless_head, of b "b + 1" "rev bs" "[]" "[]" "[]" "[]"] by simp
    then show ?thesis using * False byte_succ [OF False] by auto
  qed
qed simp

section \<open>Properties\<close>

text \<open>
  \<^verbatim>\<open>Increment\<close> adds one to the number its argument denotes: it overflows exactly when every
  byte is 0xFF (in particular on the empty string), and then returns zeros of the same length; otherwise the
  result has the same length, denotes the successor, and sorts after the argument and after every string that
  starts with it, so that it bounds a prefix scan from above.
\<close>

theorem Increment_spec:
  assumes "Increment bstr = (ret, overflow)"
  shows "length ret = length bstr \<and> (overflow \<longleftrightarrow> (\<forall>b \<in> set bstr. b = 0xFF)) \<and>
    (overflow \<longrightarrow> ret = replicate (length bstr) 0) \<and>
    (\<not> overflow \<longrightarrow> be_val ret = be_val bstr + 1 \<and> (\<forall>suffix. bstr @ suffix < ret))"
proof -
  obtain r where r: "increment_rev (rev bstr) = (r, overflow)" "ret = rev r"
    using assms by (auto simp: Increment_def Join_def split: prod.splits)
  then show ?thesis
    using increment_rev_spec [OF r(1)] be_val_rev [of r] be_val_rev [of "rev bstr"]
      sless_less [of bstr ret _ "[]"] by auto
qed

theorem Increment_spec_witness:
  "Increment [1, 0xFF] = ([2, 0], False) \<and> be_val [2, 0] = be_val [1, 0xFF] + 1 \<and> [1, 0xFF, 7] < [2, 0 :: byte]"
proof -
  have i: "Increment [1, 0xFF] = ([2, 0], False)" by code_simp
  show ?thesis using Increment_spec [OF i] i append.simps by auto
qed

text \<open>
  The inverting buffer: what is written while inverting is stored inverted and, read byte by byte
  while still inverting, comes back as it was written; \<^verbatim>\<open>Write\<close>, \<^verbatim>\<open>WriteString\<close> and
  repeated \<^verbatim>\<open>WriteByte\<close> store the same bytes; and inversion turns the order of two encodings
  round, whatever follows them.
\<close>

theorem invertible_round_trip:
  "WriteBuffer (ib_WriteBytes (ib_SetInvert (Invertible []) fl) bs) = (if fl then Invert bs else bs) \<and>
   ib_Write (ib_SetInvert (Invertible []) fl) bs = ib_WriteBytes (ib_SetInvert (Invertible []) fl) bs \<and>
   ib_WriteString (ib_SetInvert (Invertible []) fl) (bytes_str bs) =
     ib_WriteBytes (ib_SetInvert (Invertible []) fl) bs \<and>
   ib_ReadBytes (length bs) (ib_WriteBytes (ib_SetInvert (Invertible []) fl) bs) = ReadOk bs \<and>
   (sless a b \<longrightarrow> Invert b @ u < Invert a @ v)"
proof -
  let ?ib = "ib_SetInvert (Invertible []) fl"
  have bytes: "ib_WriteBytes ib bs = ib\<lparr>WriteBuffer := WriteBuffer ib @ (if ib_invert ib then Invert bs else bs)\<rparr>"
    for ib bs
    by (induction ib bs rule: ib_WriteBytes.induct) (simp_all add: ib_WriteByte_def Invert_map xor.commute)
  have fold: "foldl (\<lambda>ib b. ib\<lparr>WriteBuffer := WriteBuffer ib @ [b XOR 0xFF]\<rparr>) ib bs =
      ib\<lparr>WriteBuffer := WriteBuffer ib @ Invert bs\<rparr>" for ib :: invertibleBuffer and bs
    by (induction bs arbitrary: ib) (simp_all add: Invert_map xor.commute)
  have read: "ib_ReadBytes (length bs) (ib\<lparr>WriteBuffer := if ib_invert ib then Invert bs else bs\<rparr>) = ReadOk bs"
    for ib bs
  proof (induction bs arbitrary: ib)
    case (Cons c bs)
    have "(0xFF XOR c) XOR 0xFF = c" by (metis xor.assoc xor.commute xor_self_eq xor.right_neutral)
    then show ?case using Cons [of ib] by (auto simp: ib_ReadByte_def Invert_map)
  qed simp
  have "WriteBuffer ?ib = []" "ib_invert ?ib = fl"
    by (simp_all add: ib_SetInvert_def Invertible_def)
  moreover have "Invert b @ u < Invert a @ v" if "sless a b"
    using sless_less [OF Invert_sless [OF that]] .
  ultimately show ?thesis
    using read [of bs ?ib] by (auto simp: bytes ib_Write_def ib_WriteString_def fold)
qed

theorem invertible_round_trip_witness:
  "sless [1] [2] \<and> Invert [2] @ [9] < Invert [1] @ [8 :: byte]"
proof -
  have s: "sless [1] [2]" by (rule sless_head) simp
  then show ?thesis using invertible_round_trip [of True "[]" "[1]" "[2]" "[9]" "[8]"] by blast
qed

end
