(* ===== verification/Wire_Instance.thy ===== *)
theory Wire_Instance
  imports Serialize
begin

text \<open>
  A concrete value codec with the properties the package \<^verbatim>\<open>cmpbin\<close> documents: strings
  with a marker before every byte, and integers and floats as eight big-endian bytes of a
  number that grows with the value. It shows that the hypotheses about \<^verbatim>\<open>cmpbin\<close> can hold
  together, and the witnesses of the serialisation properties run on it.
\<close>

section \<open>Byte strings\<close>

definition enc_bytes :: "byte list \<Rightarrow> byte list" where
  "enc_bytes bs = concat (map (\<lambda>b. [1, b]) bs) @ [0]"

fun dec_bytes :: "byte list reader" where
  "dec_bytes [] = Inl EOF"
| "dec_bytes (c # rest) =
     (if c = 0 then Inr ([], rest)
      else case rest of
        [] \<Rightarrow> Inl EOF
      | b # rest' \<Rightarrow> (case dec_bytes rest' of Inl e \<Rightarrow> Inl e | Inr (bs, r) \<Rightarrow> Inr (b # bs, r)))"

lemma dec_enc_bytes: "dec_bytes (enc_bytes bs @ rest) = Inr (bs, rest)"
  by (induction bs) (simp_all add: enc_bytes_def)

lemma enc_bytes_less: "a < b \<Longrightarrow> enc_bytes a < enc_bytes b"
proof (induction a arbitrary: b)
  case Nil
  then show ?case by (cases b) (simp_all add: enc_bytes_def)
next
  case (Cons x a)
  then show ?case by (cases b) (auto simp: enc_bytes_def)
qed

section \<open>Numbers\<close>

fun enc_nat :: "nat \<Rightarrow> nat \<Rightarrow> byte list" where
  "enc_nat 0 n = []"
| "enc_nat (Suc k) n = word_of_nat (n div 256 ^ k) # enc_nat k (n mod 256 ^ k)"

fun dec_nat :: "nat \<Rightarrow> nat reader" where
  "dec_nat 0 buf = Inr (0, buf)"
| "dec_nat (Suc k) [] = Inl EOF"
| "dec_nat (Suc k) (b # buf) =
     (case dec_nat k buf of Inl e \<Rightarrow> Inl e | Inr (v, rest) \<Rightarrow> Inr (unat b * 256 ^ k + v, rest))"

lemma top_digit: "(n :: nat) < 256 ^ Suc k \<Longrightarrow> n div 256 ^ k < 256"
  by (simp add: less_mult_imp_div_less mult.commute)

lemma unat_byte: "n < 256 \<Longrightarrow> unat (word_of_nat n :: byte) = n"
  by (simp add: unat_of_nat)

lemma dec_enc_nat: "n < 256 ^ k \<Longrightarrow> dec_nat k (enc_nat k n @ rest) = Inr (n, rest)"
proof (induction k arbitrary: n)
  case (Suc k)
  have "n mod 256 ^ k < 256 ^ k" by simp
  then show ?case
    using Suc unat_byte [OF top_digit [OF Suc.prems]] div_mult_mod_eq [of n "256 ^ k"] by simp
qed simp

lemma enc_nat_less: "m < n \<Longrightarrow> n < 256 ^ k \<Longrightarrow> enc_nat k m < enc_nat k n"
proof (induction k arbitrary: m n)
  case (Suc k)
  have m: "m < 256 ^ Suc k" using Suc.prems by linarith
  note digits = unat_byte [OF top_digit [OF m]] unat_byte [OF top_digit [OF Suc.prems(2)]]
  show ?case
  proof (cases "m div 256 ^ k = n div 256 ^ k")
    case True
    then have "m mod 256 ^ k < n mod 256 ^ k"
      using Suc.prems(1) by (metis div_mult_mod_eq nat_add_left_cancel_less)
    moreover have "n mod 256 ^ k < 256 ^ k" by simp
    ultimately show ?thesis using True Suc.IH by simp
  next
    case False
    moreover have "m div 256 ^ k \<le> n div 256 ^ k" using Suc.prems(1) by (intro div_le_mono) simp
    ultimately have "(word_of_nat (m div 256 ^ k) :: byte) < word_of_nat (n div 256 ^ k)"
      using digits by (simp only: word_less_nat_alt)
    then show ?thesis by simp
  qed
qed simp

section \<open>The codec\<close>

definition int_num :: "int64 \<Rightarrow> nat" where
  "int_num i = nat (sint i + 9223372036854775808)"

definition num_int :: "nat \<Rightarrow> int64" where
  "num_int n = word_of_int (int n - 9223372036854775808)"

definition float_num :: "float64 \<Rightarrow> nat" where
  "float_num f = (if bit (f64_bits f) 63 then 9223372036854775807 - f64_magnitude f
     else 9223372036854775808 + f64_magnitude f)"

definition num_float :: "nat \<Rightarrow> float64" where
  "num_float n = F64 (word_of_nat (if n < 9223372036854775808 then 18446744073709551615 - n
     else n - 9223372036854775808))"

definition simple_cmpbin :: cmpbin where
  "simple_cmpbin =
     \<lparr>wString = (\<lambda>s. enc_bytes (str_bytes s)), rString = rd_map bytes_str dec_bytes,
      wBytes = enc_bytes, rBytes = dec_bytes,
      wInt = (\<lambda>i. enc_nat 8 (int_num i)), rInt = rd_map num_int (dec_nat 8),
      wUint = (\<lambda>u. enc_nat 8 (unat u)), rUint = rd_map word_of_nat (dec_nat 8),
      wFloat64 = (\<lambda>f. enc_nat 8 (float_num f)), rFloat64 = rd_map num_float (dec_nat 8)\<rparr>"

lemma pow8: "(256 :: nat) ^ 8 = 18446744073709551616" by simp

lemma int_num_range: "int_num i < 256 ^ 8"
proof -
  have "sint i + 9223372036854775808 < 18446744073709551616" using sint_int64_range [of i] by linarith
  then show ?thesis unfolding int_num_def pow8 by linarith
qed

lemma num_int_num: "num_int (int_num i) = i"
  using sint_int64_range [of i] by (simp add: num_int_def int_num_def)

lemma float_num_range: "float_num f < 256 ^ 8"
  using float_bits [of f] by (auto simp: float_num_def pow8)

lemma num_float_num: "num_float (float_num f) = f"
proof -
  have "num_float (float_num f) = F64 (word_of_nat (unat (f64_bits f)))"
    using float_bits [of f] by (auto simp: num_float_def float_num_def)
  then show ?thesis by simp
qed

lemma float_num_less: "f64_less a b \<Longrightarrow> float_num a < float_num b"
  using float_bits(1) [of a] float_bits(1) [of b]
  by (auto simp: f64_less_def f64_rank_def float_num_def split: if_splits)

lemma rd_map_eq: "rd_map f m buf = (case m buf of Inl e \<Rightarrow> Inl e | Inr (v, rest) \<Rightarrow> Inr (f v, rest))"
  by (auto simp: rd_map_def rd_bind_def split: sum.splits)

lemma simple_cmpbin_ok: "cmpbin_ok simple_cmpbin"
proof -
  have "unat u < 256 ^ 8" for u :: uint64 using unsigned_less [of u] by (simp add: pow8)
  note num = dec_enc_nat [OF this] dec_enc_nat [OF int_num_range] dec_enc_nat [OF float_num_range]
  show ?thesis
    by (simp add: cmpbin_ok_def reads_back_def simple_cmpbin_def dec_enc_bytes num rd_map_eq
        num_int_num num_float_num)
qed

lemma simple_cmpbin_sorted: "cmpbin_sorted simple_cmpbin"
proof -
  have "int_num a < int_num b" if "sint a < sint b" for a b
    using that sint_int64_range [of a] sint_int64_range [of b] by (simp add: int_num_def)
  then have "enc_nat 8 (int_num a) < enc_nat 8 (int_num b)" if "sint a < sint b" for a b
    using that int_num_range [of b] by (intro enc_nat_less)
  moreover have "enc_nat 8 (float_num a) < enc_nat 8 (float_num b)" if "f64_less a b" for a b
    using that float_num_range [of b] float_num_less by (intro enc_nat_less)
  ultimately show ?thesis
    by (simp add: cmpbin_sorted_def simple_cmpbin_def enc_bytes_less)
qed

lemma length_enc_nat: "length (enc_nat k n) = k"
  by (induction k n rule: enc_nat.induct) simp_all

end
