(* ===== verification/Serialize_Props.thy ===== *)
theory Serialize_Props
  imports Serialize Byte_Tools Wire_Instance
begin

text \<open>
  What the encodings of \<^verbatim>\<open>service/datastore/serialize\<close> promise: every reader inverts its
  writer, with the errors of the readers' limits; and the bytes of an index entry sort as
  \<^verbatim>\<open>Property.Compare\<close> orders the properties, which is what the tables of the in-memory
  datastore rely on.
\<close>

section \<open>Index entries sort as properties do\<close>

lemma reads_back_sless: "reads_back w r \<Longrightarrow> w u < w v \<Longrightarrow> sless (w u) (w v)"
proof (rule less_not_prefix_sless)
  fix z assume rb: "reads_back w r" and less: "w u < w v"
  show "w v \<noteq> w u @ z"
  proof
    assume eq: "w v = w u @ z"
    have "r (w v @ []) = Inr (v, [])" "r (w u @ z) = Inr (u, z)" using rb unfolding reads_back_def by blast+
    then have "Inr (v, []) = (Inr (u, z) :: serror + _)" unfolding append_Nil2 eq by (rule trans [OF sym])
    then have "u = v" by blast
    then show False using less by simp
  qed
qed

lemma cmpbin_sless:
  assumes "cmpbin_ok C" "cmpbin_sorted C"
  shows "a < b \<Longrightarrow> sless (wString C a) (wString C b)"
    and "sint i < sint j \<Longrightarrow> sless (wInt C i) (wInt C j)"
    and "f64_less f g \<Longrightarrow> sless (wFloat64 C f) (wFloat64 C g)"
    and "wBytes C bs = wString C (bytes_str bs)"
  using assms by (auto simp: cmpbin_ok_def cmpbin_sorted_def intro: reads_back_sless)

lemma sless_Cons_iff: "sless (x # a) (y # b) \<longleftrightarrow> x < y \<or> x = y \<and> sless a b"
proof
  assume "sless (x # a) (y # b)"
  then obtain p u v as bs where "x # a = p @ u # as" "y # b = p @ v # bs" "u < v" unfolding sless_def by blast
  then show "x < y \<or> x = y \<and> sless a b" by (cases p) (auto simp: sless_def)
qed (auto intro: sless_Cons sless_head)

lemma WriteKeyTok_sless:
  assumes C: "cmpbin_ok C" "cmpbin_sorted C" and less: "tok_cmp a b < 0"
  shows "sless (WriteKeyTok C a) (WriteKeyTok C b)"
proof (cases "Kind a = Kind b")
  case False
  then have "Kind a < Kind b" using less by (auto simp: tok_cmp_def cmp_lex_def)
  then show ?thesis unfolding WriteKeyTok_def by (intro sless_front cmpbin_sless [OF C])
next
  case True
  have "sless (if StringID a \<noteq> '''' then pt_byte PTString # wString C (StringID a) else pt_byte PTInt # wInt C (IntID a))
      (if StringID b \<noteq> '''' then pt_byte PTString # wString C (StringID b) else pt_byte PTInt # wInt C (IntID b))"
    using less True cmpbin_sless [OF C]
    by (auto simp: tok_cmp_def cmp_lex_def sless_Cons_iff split: if_splits)
  then show ?thesis using True sless_append [of _ _ _ "[]" "[]"] by (simp add: WriteKeyTok_def)
qed

lemma toks_sless:
  assumes C: "cmpbin_ok C" "cmpbin_sorted C"
  shows "list_all wf_tok xs \<Longrightarrow> list_all wf_tok ys \<Longrightarrow> cmp_list tok_cmp xs ys < 0 \<Longrightarrow>
    sless (concat (map (\<lambda>t. 1 # WriteKeyTok C t) xs) @ [0]) (concat (map (\<lambda>t. 1 # WriteKeyTok C t) ys) @ [0])"
proof (induction "tok_cmp" xs ys rule: cmp_list.induct)
  case (4 x xs y ys)
  show ?case
  proof (cases "tok_cmp x y = 0")
    case True
    then have "x = y" using 4 by (simp add: tok_cmp_zero)
    then show ?thesis using 4 True sless_append [of _ _ "1 # WriteKeyTok C y" "[]" "[]"] by simp
  next
    case False
    then have "sless (WriteKeyTok C x) (WriteKeyTok C y)" using 4 C by (intro WriteKeyTok_sless) auto
    then show ?thesis by (simp add: sless_Cons sless_front)
  qed
qed (auto intro: sless_head)

lemma WriteKey_sless:
  assumes C: "cmpbin_ok C" "cmpbin_sorted C" and wf: "wf_key a" "wf_key b"
    and less: "key_cmp a b < 0" and ctx: "ctx \<or> kc a = kc b"
  shows "sless (WriteKey C ctx a) (WriteKey C ctx b)"
proof -
  let ?t = "\<lambda>k. concat (map (\<lambda>t. 1 # WriteKeyTok C t) (toks k)) @ [0]"
  let ?c = "\<lambda>k. if ctx then 1 # wString C (AppID (kc k)) @ wString C (Namespace (kc k)) else [0]"
  have wr: "WriteKey C ctx k = ?c k @ ?t k" for k by (cases ctx) (simp_all add: WriteKey_def Key_Split_def)
  show ?thesis
  proof (cases "kc a = kc b")
    case True
    then have "sless (?t a) (?t b)"
      using less wf by (intro toks_sless [OF C]) (auto simp: key_cmp_def cmp_lex_def wf_key_def)
    then show ?thesis using True sless_append [of "?t a" "?t b" "?c b" "[]" "[]"] by (simp only: wr True append_Nil2)
  next
    case False
    then have ctx: ctx using ctx by simp
    have "sless (wString C (AppID (kc a)) @ wString C (Namespace (kc a)))
        (wString C (AppID (kc b)) @ wString C (Namespace (kc b)))"
    proof (cases "AppID (kc a) = AppID (kc b)")
      case True
      then have "Namespace (kc a) < Namespace (kc b)"
        using less True False Matches_eq [of "kc a" "kc b"]
        by (auto simp: key_cmp_def cmp_lex_def KeyContext_Matches_def split: if_splits)
      then show ?thesis using True sless_append [OF cmpbin_sless(1) [OF C], of _ _ _ "[]" "[]"] by simp
    next
      case False
      then show ?thesis using less by (intro sless_front cmpbin_sless(1) [OF C]) (auto simp: key_cmp_def cmp_lex_def)
    qed
    then show ?thesis unfolding wr using ctx by (simp add: sless_Cons sless_front del: append_assoc)
  qed
qed
text \<open>The properties whose index form is canonical: no NaN, no negative zero, keys well formed.\<close>

definition canon_float :: "float64 \<Rightarrow> bool" where
  "canon_float f \<longleftrightarrow> \<not> f64_is_nan f \<and> f64_bits f \<noteq> 0x8000000000000000"

definition index_canonical :: "Property \<Rightarrow> bool" where
  "index_canonical p \<longleftrightarrow> (case pvalue p of PFloat f \<Rightarrow> canon_float f
     | PGeo g \<Rightarrow> canon_float (Lat g) \<and> canon_float (Lng g) | PKeyV k \<Rightarrow> wf_key k | _ \<Rightarrow> True)"

text \<open>Keys written without their context must share it.\<close>

definition same_context :: "Property \<Rightarrow> Property \<Rightarrow> bool" where
  "same_context p q \<longleftrightarrow> (case (pvalue p, pvalue q) of (PKeyV a, PKeyV b) \<Rightarrow> kc a = kc b | _ \<Rightarrow> True)"

lemma canonical_wf: "index_canonical p \<Longrightarrow> wf_prop p"
  by (auto simp: index_canonical_def wf_prop_def canon_float_def split: pval.splits)

lemma same_context_sym: "same_context p q = same_context q p"
  by (auto simp: same_context_def split: pval.splits)

definition index_byte :: "Property \<Rightarrow> byte" where
  "index_byte p = (if indexSetting p then pt_byte (index_type p) else or (pt_byte (index_type p)) 0x80)"

lemma WriteIndexProperty_eq:
  "WriteIndexProperty C ctx p =
     map_option (\<lambda>bs. index_byte p # bs) (writeIndexValue C ctx (snd (IndexTypeAndValue p)))"
  by (simp add: WriteIndexProperty_def writePropertyImpl_def index_byte_def index_type_def split: prod.splits)

lemma index_byte_less:
  "indexSetting p = indexSetting q \<Longrightarrow> pt_num (index_type p) < pt_num (index_type q) \<Longrightarrow>
   index_byte p < index_byte q"
  unfolding index_byte_def by (cases "index_type p"; cases "index_type q"; simp)

lemma cmpFloat_less: "canon_float a \<Longrightarrow> canon_float b \<Longrightarrow> cmpFloat a b < 0 \<Longrightarrow> f64_less a b"
  by (auto simp: cmpFloat_rank canon_float_def f64_less_def)

lemma bytes_str_less: "a < b \<Longrightarrow> bytes_str a < bytes_str b"
  using str_bytes_less [of "bytes_str a" "bytes_str b"] by simp

lemma seq_bytes_write:
  "cmpbin_ok C \<Longrightarrow> cmpbin_sorted C \<Longrightarrow> is_seq v \<Longrightarrow>
   writeIndexValue C ctx v = Some (wString C (bytes_str (seq_bytes v)))"
  by (cases v) (simp_all add: writeIndexValue_def cmpbin_sless(4))

lemma writeIndexValue_sless:
  assumes C: "cmpbin_ok C" "cmpbin_sorted C" and can: "index_canonical p" "index_canonical q"
    and ty: "index_type p = index_type q" and less: "val_compare p q < 0"
    and ctx: "ctx \<or> same_context p q"
    and bp: "writeIndexValue C ctx (snd (IndexTypeAndValue p)) = Some bp"
    and bq: "writeIndexValue C ctx (snd (IndexTypeAndValue q)) = Some bq"
  shows "sless bp bq"
proof (cases "index_type p = PTString")
  case True
  then have seq: "is_seq (snd (IndexTypeAndValue p))" "is_seq (snd (IndexTypeAndValue q))"
    using ty by (auto simp: index_value_defs split: pval.splits)
  then have "seq_bytes (snd (IndexTypeAndValue p)) < seq_bytes (snd (IndexTypeAndValue q))"
    using less True by (simp add: val_compare_def cmpByteSequence_sign flip: index_type_def)
  then show ?thesis
    using bp bq seq_bytes_write [OF C seq(1)] seq_bytes_write [OF C seq(2)] cmpbin_sless(1) [OF C] bytes_str_less
    by fastforce
next
  case False
  have lat: "sless (WriteGeoPoint C a) (WriteGeoPoint C b)"
    if "cmpFloat (Lat a) (Lat b) < 0" "canon_float (Lat a)" "canon_float (Lat b)" for a b
    unfolding WriteGeoPoint_def using that by (intro sless_front cmpbin_sless(3) [OF C] cmpFloat_less)
  have lng: "sless (WriteGeoPoint C a) (WriteGeoPoint C b)"
    if "cmpFloat (Lat a) (Lat b) = 0" "cmpFloat (Lng a) (Lng b) < 0"
      "canon_float (Lat a)" "canon_float (Lat b)" "canon_float (Lng a)" "canon_float (Lng b)" for a b
  proof -
    have "Lat a = Lat b" using that f64_eq_bits by (auto simp: cmpFloat_zero canon_float_def)
    then show ?thesis
      using that sless_append [OF cmpbin_sless(3) [OF C], of _ _ _ "[]" "[]"]
      by (simp add: WriteGeoPoint_def cmpFloat_less)
  qed
  have int: "sless (wInt C a) (wInt C b)" if "a \<noteq> b" "\<not> sint b < sint a" for a b
    using that sint_eq_iff [of a b] by (intro cmpbin_sless(2) [OF C]) auto
  have key: "sless (WriteKey C ctx a) (WriteKey C ctx b)"
    if "key_compare a b < 0" "wf_key a" "wf_key b" "ctx \<or> kc a = kc b" for a b
    using that key_compare_sign [of a b] by (intro WriteKey_sless [OF C]) auto
  have flt: "sless (wFloat64 C a) (wFloat64 C b)" if "cmpFloat a b < 0" "canon_float a" "canon_float b" for a b
    using that by (intro cmpbin_sless(3) [OF C] cmpFloat_less)
  show ?thesis
    using False ty less can ctx bp bq
    by (cases "pvalue p"; cases "pvalue q")
      (auto simp: index_value_defs val_compare_def writeIndexValue_def index_canonical_def same_context_def
        split: if_splits intro: sless_head lat lng int key flt)
qed

lemma WriteIndexProperty_sless:
  assumes C: "cmpbin_ok C" "cmpbin_sorted C" and can: "index_canonical p" "index_canonical q"
    and iset: "indexSetting p = indexSetting q" and ctx: "ctx \<or> same_context p q"
    and bp: "WriteIndexProperty C ctx p = Some bp" and bq: "WriteIndexProperty C ctx q = Some bq"
    and less: "Compare p q < 0"
  shows "sless bp bq"
proof -
  obtain vp vq where v: "writeIndexValue C ctx (snd (IndexTypeAndValue p)) = Some vp" "bp = index_byte p # vp"
    "writeIndexValue C ctx (snd (IndexTypeAndValue q)) = Some vq" "bq = index_byte q # vq"
    using bp bq by (auto simp: WriteIndexProperty_eq)
  show ?thesis
  proof (cases "index_type p = index_type q")
    case True
    then have "val_compare p q < 0" using less iset by (simp add: Compare_lex cmp_lex_def cmp3_def)
    then have "sless vp vq" using v by (intro writeIndexValue_sless [OF C can True _ ctx])
    moreover have "index_byte p = index_byte q" using iset True by (simp add: index_byte_def)
    ultimately show ?thesis using v by (simp add: sless_Cons)
  next
    case False
    then have "pt_num (index_type p) < pt_num (index_type q)"
      using less iset by (simp add: Compare_lex cmp_lex_def cmp3_def)
    then show ?thesis using v index_byte_less [OF iset] by (simp add: sless_head)
  qed
qed

lemma canon_float_eq: "canon_float a \<Longrightarrow> canon_float b \<Longrightarrow> f64_eq a b \<Longrightarrow> a = b"
  by (auto simp: canon_float_def intro: f64_eq_bits)

lemma WriteIndexProperty_same:
  assumes C: "cmpbin_ok C" "cmpbin_sorted C" and can: "index_canonical p" "index_canonical q"
    and same: "index_same p q"
  shows "WriteIndexProperty C ctx p = WriteIndexProperty C ctx q"
proof -
  have "index_byte p = index_byte q" using same by (simp add: index_same_def index_byte_def)
  moreover have "writeIndexValue C ctx (snd (IndexTypeAndValue p)) = writeIndexValue C ctx (snd (IndexTypeAndValue q))"
  proof (cases "index_type p = PTString")
    case True
    then have seq: "is_seq (snd (IndexTypeAndValue p))" "is_seq (snd (IndexTypeAndValue q))"
      using same by (auto simp: index_same_def index_value_defs split: pval.splits)
    moreover from this have "seq_bytes (snd (IndexTypeAndValue p)) = seq_bytes (snd (IndexTypeAndValue q))"
      using same by (auto simp: index_same_def split: goval.splits)
    ultimately show ?thesis using seq_bytes_write [OF C] by simp
  next
    case False
    then show ?thesis
      using same can canon_float_eq canon_float_eq [THEN arg_cong [of _ _ "wFloat64 C"]]
      by (cases "pvalue p"; cases "pvalue q")
        (auto simp: index_same_def index_value_defs writeIndexValue_def WriteGeoPoint_def index_canonical_def)
  qed
  ultimately show ?thesis by (simp add: WriteIndexProperty_eq)
qed

section \<open>Properties\<close>

text \<open>
  C1. Index order: the bytes \<^verbatim>\<open>WriteIndexProperty\<close> produces sort exactly as
  \<^verbatim>\<open>Property.Compare\<close> orders the properties, whatever follows them in an index row, and equal
  properties have equal bytes; for properties with the same index setting, without NaN or negative zero,
  whose keys are well formed and (when written without context) share their app and namespace, given that
  \<^verbatim>\<open>cmpbin\<close> reads back what it writes and sorts single values.
\<close>

theorem index_bytes_order:
  assumes "cmpbin_ok C" "cmpbin_sorted C" "index_canonical p" "index_canonical q"
    and "indexSetting p = indexSetting q" "ctx \<or> same_context p q"
    and "WriteIndexProperty C ctx p = Some bp" "WriteIndexProperty C ctx q = Some bq"
  shows "(bp < bq \<longleftrightarrow> Property_Less p q) \<and> (bp = bq \<longleftrightarrow> Property_Equal p q) \<and>
    (Property_Less p q \<longrightarrow> bp @ u < bq @ v)"
proof -
  have less: "Compare p q < 0 \<Longrightarrow> sless bp bq" using WriteIndexProperty_sless [OF assms] .
  have greater: "Compare q p < 0 \<Longrightarrow> sless bq bp"
    using assms same_context_sym [of p q] by (intro WriteIndexProperty_sless [of C q p ctx]) auto
  have wf: "wf_prop p" "wf_prop q" using assms canonical_wf by auto
  have eq: "Compare p q = 0 \<Longrightarrow> bp = bq"
    using WriteIndexProperty_same [OF assms(1-4)] Compare_zero [OF wf] assms(7,8) by simp
  have pos: "0 < Compare q p \<longleftrightarrow> Compare p q < 0" "0 < Compare p q \<longleftrightarrow> Compare q p < 0"
    using pcmp.cmp_pos_iff [OF wf] pcmp.cmp_pos_iff [OF wf(2,1)] by blast+
  have "sless bp bq \<Longrightarrow> bp < bq" "sless bq bp \<Longrightarrow> bq < bp" using sless_less [of _ _ "[]" "[]"] by auto
  then show ?thesis
    unfolding Property_Less_def Property_Equal_def
    using less greater eq pos sless_less [of bp bq u v] by (metis less_asym less_irrefl linorder_less_linear)
qed

theorem index_bytes_order_witness:
  "\<exists>bp bq. WriteIndexProperty simple_cmpbin False \<lparr>pvalue = PInt 3, indexSetting = False\<rparr> = Some bp \<and>
    WriteIndexProperty simple_cmpbin False \<lparr>pvalue = PString ''a'', indexSetting = False\<rparr> = Some bq \<and> bp < bq"
proof -
  let ?p = "\<lparr>pvalue = PInt 3, indexSetting = False\<rparr>" and ?q = "\<lparr>pvalue = PString ''a'', indexSetting = False\<rparr>"
  have can: "index_canonical ?p" "index_canonical ?q" by (simp_all add: index_canonical_def)
  have w: "WriteIndexProperty simple_cmpbin False ?p = Some (0x81 # wInt simple_cmpbin 3)"
    "WriteIndexProperty simple_cmpbin False ?q = Some (0x85 # wString simple_cmpbin ''a'')"
    by (simp_all add: WriteIndexProperty_def writePropertyImpl_def index_value_defs writeIndexValue_def)
  have "Property_Less ?p ?q" by (simp add: Property_Less_def Compare_def prop_compare_def index_value_defs)
  then show ?thesis
    using index_bytes_order [OF simple_cmpbin_ok simple_cmpbin_sorted can _ _ w] w
    by (auto simp: same_context_def)
qed

text \<open>
  C21. Keys are read back: \<^verbatim>\<open>ReadKey\<close> of what \<^verbatim>\<open>WriteKey\<close> wrote returns the key and
  leaves the rest of the buffer, with the app and namespace that the two context flags call for, for every key
  of 1 to 50 tokens whose integer IDs are positive; a longer key is refused, and so is one whose last
  token is incomplete.
\<close>

theorem ReadKey_WriteKey:
  assumes "cmpbin_ok C"
  shows "(key_storable k \<longrightarrow>
      ReadKey C rctx inKC (WriteKey C wctx k @ rest) =
        Inr (Some (k\<lparr>kc := read_context wctx rctx inKC (kc k)\<rparr>), rest)) \<and>
    (list_all tok_storable (toks k) \<and> length (toks k) > ReadKeyNumToksReasonableLimit \<longrightarrow>
      ReadKey C rctx inKC (WriteKey C wctx k @ rest) = Inl HugeKey) \<and>
    (toks k \<noteq> [] \<and> list_all tok_storable (butlast (toks k)) \<and> KeyTok_IsIncomplete (last (toks k)) \<and>
      length (toks k) \<le> ReadKeyNumToksReasonableLimit \<longrightarrow>
      ReadKey C rctx inKC (WriteKey C wctx k @ rest) = Inl BadIntID)"
proof (intro conjI impI)
  let ?t = "\<lambda>ts. concat (map (\<lambda>t. 1 # WriteKeyTok C t) ts)"
  have toks: "ReadKey C rctx inKC (WriteKey C wctx k @ rest) = Inl e"
    if "read_toks C ReadKeyNumToksReasonableLimit (?t (toks k) @ 0 # rest) = Inl e" for e
    using assms that by (cases k) (auto simp: ReadKey_def WriteKey_def Key_Split_def codec_rt)
  show "key_storable k \<Longrightarrow> ReadKey C rctx inKC (WriteKey C wctx k @ rest) =
        Inr (Some (k\<lparr>kc := read_context wctx rctx inKC (kc k)\<rparr>), rest)"
    using ReadKey_Write [OF assms] .
  show "ReadKey C rctx inKC (WriteKey C wctx k @ rest) = Inl HugeKey"
    if "list_all tok_storable (toks k) \<and> length (toks k) > ReadKeyNumToksReasonableLimit"
    using that by (intro toks read_toks_huge [OF assms]) auto
  show "ReadKey C rctx inKC (WriteKey C wctx k @ rest) = Inl BadIntID"
    if "toks k \<noteq> [] \<and> list_all tok_storable (butlast (toks k)) \<and> KeyTok_IsIncomplete (last (toks k)) \<and>
      length (toks k) \<le> ReadKeyNumToksReasonableLimit"
  proof (rule toks)
    have "?t (toks k) = ?t (butlast (toks k)) @ 1 # WriteKeyTok C (last (toks k))"
      using that by (cases "toks k" rule: rev_cases) simp_all
    then show "read_toks C ReadKeyNumToksReasonableLimit (?t (toks k) @ 0 # rest) = Inl BadIntID"
      using that read_toks_incomplete [OF assms, of "last (toks k)" "butlast (toks k)"]
      by (cases "toks k") (auto simp: Suc_le_eq split: if_splits)
  qed
qed

theorem ReadKey_WriteKey_witness:
  "ReadKey simple_cmpbin True (MkKeyContext ''x'' '''')
     (WriteKey simple_cmpbin True \<lparr>kc = MkKeyContext ''app'' ''ns'', toks = [mkTok ''K'' 7 '''']\<rparr> @ [9]) =
   Inr (Some \<lparr>kc = MkKeyContext ''app'' ''ns'', toks = [mkTok ''K'' 7 '''']\<rparr>, [9])"
proof -
  have "key_storable \<lparr>kc = MkKeyContext ''app'' ''ns'', toks = [mkTok ''K'' 7 '''']\<rparr>"
    by (simp add: key_storable_def tok_storable_def mkTok_def ReadKeyNumToksReasonableLimit_def)
  then show ?thesis
    using ReadKey_WriteKey [OF simple_cmpbin_ok, of "\<lparr>kc = MkKeyContext ''app'' ''ns'', toks = [mkTok ''K'' 7 '''']\<rparr>"]
    by (simp add: read_context_def)
qed

text \<open>
  C2. Property maps that the format can hold are read back, given a number encoding that reads back (\<open>cmpbin_ok\<close>). Such a
  map (\<open>pm_storable\<close>) has each name once, at most 30000 names and at most 30000 values of a name, and its values other than
  metadata are valid geo points, keys of 1 to 50 tokens that all have either a name or a positive ID, times in UTC within the supported
  range and rounded to microseconds but not the Unix epoch itself, which would come back as the zero time, or of any other type. Then writing does
  not fail, and \<^verbatim>\<open>ReadPropertyMap\<close> of what \<^verbatim>\<open>WritePropertyMap\<close> wrote (sorted or not) leaves the rest of the buffer and
  returns a map with exactly the entries of the written map that are not metadata, single and multiple properties kept
  apart, values, types and index settings unchanged, keys in the context the flags call for.
\<close>

theorem ReadPropertyMap_WritePropertyMap:
  assumes "cmpbin_ok C" "pm_storable pm"
  shows "\<exists>bs pm'. WritePropertyMap C det wctx pm = Some bs \<and>
    ReadPropertyMap C rctx inKC (bs @ rest) = Inr (pm', rest) \<and> pm_wf pm' \<and>
    (\<forall>name. map_of pm' name =
      (if isMetaKey name then None else map_option (recontext_data wctx rctx inKC) (map_of pm name)))"
proof -
  have "map_of (pm_Save pm False) name = (if isMetaKey name then None else map_of pm name)" for name
    by (simp add: pm_Save_eq map_of_filter_key)
  then show ?thesis using ReadPropertyMap_Write [OF assms, of det wctx rctx inKC rest] by fastforce
qed

theorem ReadPropertyMap_WritePropertyMap_witness:
  "\<exists>bs pm'. WritePropertyMap simple_cmpbin True False
      [(''$id'', PSingle \<lparr>pvalue = PInt 1, indexSetting = True\<rparr>), (''v'', PSlice [\<lparr>pvalue = PBool True, indexSetting = False\<rparr>])]
      = Some bs \<and>
    ReadPropertyMap simple_cmpbin False (MkKeyContext '''' '''') (bs @ []) = Inr (pm', []) \<and>
    map_of pm' ''$id'' = None \<and>
    map_of pm' ''v'' = Some (PSlice [\<lparr>pvalue = PBool True, indexSetting = False\<rparr>])"
proof -
  let ?pm = "[(''$id'', PSingle \<lparr>pvalue = PInt 1, indexSetting = True\<rparr>),
    (''v'', PSlice [\<lparr>pvalue = PBool True, indexSetting = False\<rparr>])]"
  have "pm_storable ?pm"
    by (simp add: pm_storable_def pm_wf_def pm_Save_eq isMetaKey_def data_storable_def prop_storable_def
        prop_ok_def ReadPropertyMapReasonableLimit_def)
  from ReadPropertyMap_WritePropertyMap [OF simple_cmpbin_ok this, of True False False "MkKeyContext '''' ''''" "[]"]
  obtain bs pm' where "WritePropertyMap simple_cmpbin True False ?pm = Some bs"
    "ReadPropertyMap simple_cmpbin False (MkKeyContext '''' '''') (bs @ []) = Inr (pm', [])"
    "\<forall>name. map_of pm' name = (if isMetaKey name then None
      else map_option (recontext_data False False (MkKeyContext '''' '''')) (map_of ?pm name))" by blast
  then show ?thesis
    by (intro exI [of _ bs] exI [of _ pm']) (simp add: isMetaKey_def recontext_data_def recontext_def)
qed

lemma ReadProperty_WriteIndex:
  assumes "cmpbin_ok C" "cmpbin_sorted C" "prop_storable p"
  obtains ibs where "WriteIndexProperty C wctx p = Some ibs"
    "\<And>rctx inKC rest. ReadProperty C rctx inKC (ibs @ rest) = Inr (recontext wctx rctx inKC (index_property p), rest)"
proof -
  obtain ibs where ibs: "WriteProperty C wctx (index_property p) = Some ibs" using WriteProperty_Some by blast
  have "WriteIndexProperty C wctx p = WriteProperty C wctx (index_property p)"
    using cmpbin_sless(4) [OF assms(1,2)]
    by (cases "pvalue p") (simp_all add: WriteIndexProperty_def WriteProperty_def writePropertyImpl_def
        index_property_def index_value_defs writeIndexValue_def)
  moreover have "prop_storable (index_property p)"
    using assms(3) by (cases "pvalue p") (simp_all add: prop_storable_def index_property_def prop_ok_def)
  ultimately show ?thesis using that ibs ReadProperty_Write [OF assms(1) _ ibs] by simp
qed

lemma Project_recontext:
  assumes "prop_storable p"
  shows "Project (recontext wctx rctx inKC (index_property p)) (Property_Type p) = Inr (Property_Value (recontext wctx rctx inKC p))"
  using assms IntToTime_TimeToInt
  by (cases "pvalue p") (auto simp: Project_def index_property_def recontext_def Property_Type_def
      Property_Value_def project_bytes_def prop_storable_def prop_ok_def)

text \<open>
  C30. Single properties that the format can hold (\<open>prop_storable\<close>: any value but an invalid geo point, a key with no or more than
  50 tokens or with a token without an ID, or a time that is out of range, not rounded to microseconds in UTC, or the Unix epoch) are read back by
  \<^verbatim>\<open>ReadProperty\<close>, given a number encoding that reads back and keeps the order: from \<^verbatim>\<open>WriteProperty\<close> with value, type and
  index setting; from \<^verbatim>\<open>WriteIndexProperty\<close> as the index form of the property (times as integers, byte strings and blob
  keys as strings), and \<^verbatim>\<open>Project\<close> of that to the type of the property gives its value. The context of a key is that which the flags call for.
\<close>

theorem ReadProperty_round_trip:
  assumes "cmpbin_ok C" "cmpbin_sorted C" "prop_storable p"
  shows "\<exists>bs ibs. WriteProperty C wctx p = Some bs \<and> WriteIndexProperty C wctx p = Some ibs \<and>
    ReadProperty C rctx inKC (bs @ rest) = Inr (recontext wctx rctx inKC p, rest) \<and>
    (\<exists>ip. ReadProperty C rctx inKC (ibs @ rest) = Inr (ip, rest) \<and> ip = recontext wctx rctx inKC (index_property p) \<and>
       Project ip (Property_Type p) = Inr (Property_Value (recontext wctx rctx inKC p)))"
proof -
  obtain bs where bs: "WriteProperty C wctx p = Some bs" using WriteProperty_Some by blast
  obtain ibs where "WriteIndexProperty C wctx p = Some ibs"
    "ReadProperty C rctx inKC (ibs @ rest) = Inr (recontext wctx rctx inKC (index_property p), rest)"
    using ReadProperty_WriteIndex [OF assms] by metis
  then show ?thesis using bs ReadProperty_Write [OF assms(1,3) bs] Project_recontext [OF assms(3)] by auto
qed

theorem ReadProperty_round_trip_witness:
  "\<exists>ibs. WriteIndexProperty simple_cmpbin False \<lparr>pvalue = PBytes [65], indexSetting = False\<rparr> = Some ibs \<and>
    ReadProperty simple_cmpbin False (MkKeyContext '''' '''') (ibs @ []) =
      Inr (\<lparr>pvalue = PString ''A'', indexSetting = False\<rparr>, []) \<and>
    Project \<lparr>pvalue = PString ''A'', indexSetting = False\<rparr> PTBytes = Inr (GBytes [65])"
proof -
  have "prop_storable \<lparr>pvalue = PBytes [65], indexSetting = False\<rparr>" by (simp add: prop_storable_def prop_ok_def)
  moreover have "bytes_str [65] = ''A''" by code_simp
  ultimately show ?thesis
    using ReadProperty_round_trip [OF simple_cmpbin_ok simple_cmpbin_sorted,
        of "\<lparr>pvalue = PBytes [65], indexSetting = False\<rparr>" False False "MkKeyContext '''' ''''" "[]"]
    by (auto simp: recontext_def index_property_def Property_Type_def Property_Value_def)
qed

text \<open>
  C35. Index definitions are read back up to 65 columns, one more than \<^verbatim>\<open>MaxIndexColumns\<close>;
  a definition with more is refused. A column is always read back.
\<close>

theorem ReadIndexDefinition_WriteIndexDefinition:
  assumes "cmpbin_ok C"
  shows "ReadIndexColumn C (WriteIndexColumn C c @ rest) = Inr (c, rest) \<and>
    ReadIndexDefinition C (WriteIndexDefinition C i @ rest) =
      (if length (SortBy i) \<le> MaxIndexColumns + 1 then Inr (i, rest) else Inl HugeIndex)"
  using assms read_cols_Write [OF assms, of "SortBy i" "MaxIndexColumns + 1" rest]
    read_cols_huge [OF assms, of "MaxIndexColumns + 1" "SortBy i" "0 # rest"]
  by (cases i) (auto simp: ReadIndexDefinition_def WriteIndexDefinition_def codec_rt)

theorem ReadIndexDefinition_WriteIndexDefinition_witness:
  "ReadIndexDefinition simple_cmpbin (WriteIndexDefinition simple_cmpbin
     \<lparr>ix_Kind = ''K'', ix_Ancestor = True, SortBy = [\<lparr>col_Property = ''a'', Descending = True\<rparr>]\<rparr> @ [1]) =
   Inr (\<lparr>ix_Kind = ''K'', ix_Ancestor = True, SortBy = [\<lparr>col_Property = ''a'', Descending = True\<rparr>]\<rparr>, [1])"
  using ReadIndexDefinition_WriteIndexDefinition [OF simple_cmpbin_ok, THEN conjunct2,
      of "\<lparr>ix_Kind = ''K'', ix_Ancestor = True, SortBy = [\<lparr>col_Property = ''a'', Descending = True\<rparr>]\<rparr>" "[1]"]
  by simp

lemma HasAncestor_prefix: "HasAncestor k a \<longleftrightarrow> kc k = kc a \<and> prefix (toks a) (toks k)"
  unfolding HasAncestor_iff prefix_def by (metis append_eq_conv_conj)

lemma ancestor_chain_set:
  "toks k \<noteq> [] \<Longrightarrow> set (ancestor_chain k) = {a. HasAncestor k a \<and> toks a \<noteq> []}"
proof (induction k rule: ancestor_chain.induct)
  case (1 k)
  obtain xs x where k: "toks k = xs @ [x]" using 1 by (metis rev_exhaust)
  have self: "kc k = kc a \<and> toks a = xs @ [x] \<longleftrightarrow> a = k" for a
    using k Key_eqI [of a k] by auto
  show ?case
  proof (cases "xs = []")
    case True
    then have "Key_Parent k = None" using k by (simp add: Key_Parent_def)
    moreover have "HasAncestor k a \<and> toks a \<noteq> [] \<longleftrightarrow> a = k" for a
      unfolding HasAncestor_prefix k prefix_snoc self [symmetric] using True by auto
    ultimately show ?thesis by (subst ancestor_chain.simps) auto
  next
    case False
    let ?p = "\<lparr>kc = kc k, toks = xs\<rparr>"
    have p: "Key_Parent k = Some ?p" using k False by (simp add: Key_Parent_def NewKeyToks_def)
    have "HasAncestor k a \<longleftrightarrow> a = k \<or> HasAncestor ?p a" for a
      unfolding HasAncestor_prefix k prefix_snoc self [symmetric] by auto
    then show ?thesis using 1 p False by (subst ancestor_chain.simps) auto
  qed
qed

lemma ancestor_chain_length: "toks k \<noteq> [] \<Longrightarrow> length (ancestor_chain k) = length (toks k)"
proof (induction k rule: ancestor_chain.induct)
  case (1 k)
  show ?case
  proof (cases "Key_Parent k")
    case None
    then have "length (toks k) = 1"
      using 1 by (cases "toks k") (auto simp: Key_Parent_def NewKeyToks_def split: if_splits)
    then show ?thesis using None by (subst ancestor_chain.simps) simp
  next
    case (Some p)
    have p: "toks p = butlast (toks k)" "toks p \<noteq> []"
      using Key_Parent_toks [OF Some] Some by (auto simp: Key_Parent_def NewKeyToks_def split: if_splits)
    then have "length (ancestor_chain p) = length (toks k) - 1" "length (toks k) \<noteq> 0"
      using 1 Some by (simp_all only: length_butlast) auto
    then show ?thesis using Some by (subst ancestor_chain.simps) simp
  qed
qed

lemma pslice_loop_spec:
  "distinct (pslice_loop C dups vals) \<and>
   set (pslice_loop C dups vals) =
     (\<lambda>v. the (ToBytes C False (SProperty v))) ` {v \<in> set vals. indexSetting v = ShouldIndex} - dups"
proof (induction vals arbitrary: dups)
  case (Cons v vals)
  let ?d = "the (ToBytes C False (SProperty v))"
  show ?case
    using Cons [of dups] Cons [of "insert ?d dups"] by (auto simp: Let_def)
qed simp

definition prop_bytes :: "cmpbin \<Rightarrow> Property \<Rightarrow> byte list" where
  "prop_bytes C p = the (ToBytes C False (SProperty p))"

lemma PropertyMapPartially_lookup:
  "PropertyMapPartially C k pm name =
     (if name \<in> set (map fst pm) \<and> PropertySlice C (pm_Slice pm name) \<noteq> []
      then Some (PropertySlice C (pm_Slice pm name)) else PropertyMapPartially C k [] name)"
proof -
  have "foldl (\<lambda>ret (name, _). let newVals = f name in if newVals \<noteq> [] then ret(name \<mapsto> newVals) else ret) m rows name =
     (if name \<in> set (map fst rows) \<and> f name \<noteq> [] then Some (f name) else m name)"
    for f :: "string \<Rightarrow> byte list list" and m and rows :: PropertyMap
    by (induction rows arbitrary: m) (auto simp: Let_def)
  then show ?thesis by (simp add: PropertyMapPartially_def)
qed

lemma PropertySlice_spec:
  "distinct (PropertySlice C vals) \<and>
   set (PropertySlice C vals) = prop_bytes C ` {v \<in> set vals. indexSetting v = ShouldIndex}"
  using pslice_loop_spec [of C "{}" vals] unfolding PropertySlice_def prop_bytes_def by simp

text \<open>
  The rows an entity contributes to the indexes: under \<^verbatim>\<open>__key__\<close> the encoded key, under
  \<^verbatim>\<open>__ancestor__\<close> the encodings of exactly the keys the entity descends from (itself included), one
  per token; under every property name the encodings of exactly its indexed values, each once; and no row for
  a property without indexed values.
\<close>

theorem PropertyMapPartially_rows:
  assumes "toks k \<noteq> []" "''__key__'' \<notin> set (map fst pm)" "''__ancestor__'' \<notin> set (map fst pm)"
  shows "PropertyMapPartially C (Some k) pm ''__key__'' = Some [prop_bytes C (key_prop k)] \<and>
    (\<exists>as. PropertyMapPartially C (Some k) pm ''__ancestor__'' = Some as \<and> length as = length (toks k) \<and>
      set as = {prop_bytes C (key_prop a) | a. HasAncestor k a \<and> toks a \<noteq> []}) \<and>
    (name \<noteq> ''__key__'' \<and> name \<noteq> ''__ancestor__'' \<longrightarrow>
      (case PropertyMapPartially C (Some k) pm name of
         None \<Rightarrow> \<forall>v \<in> set (pm_Slice pm name). indexSetting v = NoIndex
       | Some vs \<Rightarrow> vs \<noteq> [] \<and> distinct vs \<and>
           set vs = prop_bytes C ` {v \<in> set (pm_Slice pm name). indexSetting v = ShouldIndex}))"
proof (intro conjI impI)
  let ?row = "PropertyMapPartially C (Some k)"
  have base: "?row [] ''__key__'' = Some [prop_bytes C (key_prop k)]"
    "?row [] ''__ancestor__'' = Some (map (\<lambda>a. prop_bytes C (key_prop a)) (ancestor_chain k))"
    by (simp_all add: PropertyMapPartially_def prop_bytes_def)
  show "?row pm ''__key__'' = Some [prop_bytes C (key_prop k)]"
    using assms base by (subst PropertyMapPartially_lookup) simp
  have "?row pm ''__ancestor__'' = Some (map (\<lambda>a. prop_bytes C (key_prop a)) (ancestor_chain k))"
    using assms base by (subst PropertyMapPartially_lookup) simp
  then show "\<exists>as. ?row pm ''__ancestor__'' = Some as \<and> length as = length (toks k) \<and>
      set as = {prop_bytes C (key_prop a) | a. HasAncestor k a \<and> toks a \<noteq> []}"
    using ancestor_chain_set [OF assms(1)] ancestor_chain_length [OF assms(1)] by auto
  assume "name \<noteq> ''__key__'' \<and> name \<noteq> ''__ancestor__''"
  then have other: "?row [] name = None" by (simp add: PropertyMapPartially_def)
  have slice: "pm_Slice pm name = []" if "name \<notin> set (map fst pm)"
    using that map_of_eq_None_iff [of pm name] by (simp add: pm_Slice_def)
  have spec: "distinct (PropertySlice C (pm_Slice pm name))"
    "set (PropertySlice C (pm_Slice pm name)) = prop_bytes C ` {v \<in> set (pm_Slice pm name). indexSetting v = ShouldIndex}"
    using PropertySlice_spec by blast+
  have row: "?row pm name = (if name \<in> set (map fst pm) \<and> PropertySlice C (pm_Slice pm name) \<noteq> []
      then Some (PropertySlice C (pm_Slice pm name)) else None)"
    using PropertyMapPartially_lookup [of C "Some k" pm name] other by simp
  show "case ?row pm name of
         None \<Rightarrow> \<forall>v \<in> set (pm_Slice pm name). indexSetting v = NoIndex
       | Some vs \<Rightarrow> vs \<noteq> [] \<and> distinct vs \<and>
           set vs = prop_bytes C ` {v \<in> set (pm_Slice pm name). indexSetting v = ShouldIndex}"
    unfolding row using slice spec by (cases "PropertySlice C (pm_Slice pm name) = []") auto
qed

theorem PropertyMapPartially_rows_witness:
  "\<exists>as. PropertyMapPartially simple_cmpbin
      (Some \<lparr>kc = MkKeyContext ''a'' '''', toks = [mkTok ''P'' 1 '''', mkTok ''C'' 2 '''']\<rparr>)
      [(''f'', PSingle \<lparr>pvalue = PInt 1, indexSetting = False\<rparr>)] ''__ancestor__'' = Some as \<and> length as = 2"
proof -
  let ?k = "\<lparr>kc = MkKeyContext ''a'' '''', toks = [mkTok ''P'' 1 '''', mkTok ''C'' 2 '''']\<rparr>"
  let ?pm = "[(''f'', PSingle \<lparr>pvalue = PInt 1, indexSetting = False\<rparr>)]"
  have "toks ?k \<noteq> []" "''__key__'' \<notin> set (map fst ?pm)" "''__ancestor__'' \<notin> set (map fst ?pm)" by simp_all
  from PropertyMapPartially_rows [OF this, of simple_cmpbin "''f''", THEN conjunct2, THEN conjunct1]
  obtain as where "PropertyMapPartially simple_cmpbin (Some ?k) ?pm ''__ancestor__'' = Some as"
    "length as = length (toks ?k)" by blast
  then show ?thesis by simp
qed

end
