(* ===== verification/MemStore.thy ===== *)
theory MemStore
  imports Serialize_Props Byte_Tools
begin

text \<open>
  \<^verbatim>\<open>impl/memory/memstore.go\<close> and \<^verbatim>\<open>memstore_iter.go\<close>: the ordered key-value store under the
  in-memory datastore. The balanced trees and their named collections come from the packages
  \<^verbatim>\<open>treapstore\<close> and \<^verbatim>\<open>gtreap\<close>, which are not part of this repository; their functions are the
  fields of the parameter \<open>treapstore\<close>, and what their documentation promises are the
  assumptions of the locale \<open>treap\<close>. A \<^verbatim>\<open>*treapstore.Collection\<close> is a handle into its store: it is modelled by
  the store and the collection's name, and an operation that changes it returns the store. A
  \<^verbatim>\<open>gtreap.Iterator\<close> runs over an immutable tree and is modelled by the entries it has
  still to deliver. A panic is \<open>None\<close>.
\<close>

section \<open>The parameter\<close>

type_synonym storeEntry = "byte list \<times> byte list"

record 's treapstore =
  ts_New :: 's
  ts_Snapshot :: "'s \<Rightarrow> 's"
  ts_IsReadOnly :: "'s \<Rightarrow> bool"
  ts_GetCollectionNames :: "'s \<Rightarrow> string list"
  ts_HasCollection :: "'s \<Rightarrow> string \<Rightarrow> bool"  \<comment> \<open>\<^verbatim>\<open>GetCollection\<close> is not nil\<close>
  ts_CreateCollection :: "'s \<Rightarrow> string \<Rightarrow> 's"
  tc_Get :: "'s \<Rightarrow> string \<Rightarrow> byte list \<Rightarrow> byte list option"
  tc_Put :: "'s \<Rightarrow> string \<Rightarrow> storeEntry \<Rightarrow> 's"
  tc_Delete :: "'s \<Rightarrow> string \<Rightarrow> byte list \<Rightarrow> 's"
  tc_Iterator :: "'s \<Rightarrow> string \<Rightarrow> byte list \<Rightarrow> storeEntry list"

section \<open>The store\<close>

text \<open>A value of type \<^verbatim>\<open>memCollection\<close>: \<open>None\<close> is nil.\<close>

type_synonym 's memCollection = "('s \<times> string) option"

definition ms_Snapshot :: "'s treapstore \<Rightarrow> 's \<Rightarrow> 's" where
  "ms_Snapshot T ms = (if ts_IsReadOnly T ms then ms else ts_Snapshot T ms)"

definition ms_GetCollection :: "'s treapstore \<Rightarrow> 's \<Rightarrow> string \<Rightarrow> 's memCollection" where
  "ms_GetCollection T ms name = (if ts_HasCollection T ms name then Some (ms, name) else None)"

text \<open>\<^verbatim>\<open>GetOrCreateCollection\<close>: the store after it; the collection is the one of that name.\<close>

definition ms_GetOrCreateCollection :: "'s treapstore \<Rightarrow> 's \<Rightarrow> string \<Rightarrow> 's" where
  "ms_GetOrCreateCollection T ms name =
     (if \<not> ts_HasCollection T ms name then ts_CreateCollection T ms name else ms)"

definition coll_IsReadOnly :: "'s treapstore \<Rightarrow> 's \<times> string \<Rightarrow> bool" where
  "coll_IsReadOnly T c = ts_IsReadOnly T (fst c)"

definition coll_Iterator :: "'s treapstore \<Rightarrow> 's \<times> string \<Rightarrow> byte list \<Rightarrow> storeEntry list option" where
  "coll_Iterator T c target =
     (if \<not> coll_IsReadOnly T c then None else Some (tc_Iterator T (fst c) (snd c) target))"

text \<open>\<^verbatim>\<open>ForEachItem\<close> visits the entries in ascending order; this is the list of them.\<close>

definition coll_ForEachItem :: "'s treapstore \<Rightarrow> 's \<times> string \<Rightarrow> storeEntry list" where
  "coll_ForEachItem T c = tc_Iterator T (fst c) (snd c) []"

definition coll_MinItem :: "'s treapstore \<Rightarrow> 's \<times> string \<Rightarrow> storeEntry option" where
  "coll_MinItem T c =
     (case tc_Iterator T (fst c) (snd c) [] of [] \<Rightarrow> None | e # _ \<Rightarrow> Some e)"

section \<open>Colliding two collections\<close>

text \<open>\<^verbatim>\<open>memStoreCollide\<close>: the calls of its callback, in order. The two iterators are at \<open>ls\<close>
  and \<open>rs\<close>; \<open>None\<close> in a call is the nil slice.\<close>

type_synonym collision = "byte list \<times> byte list option \<times> byte list option"

function collide_loop :: "storeEntry list \<Rightarrow> storeEntry list \<Rightarrow> collision list" where
  "collide_loop [] rs = map (\<lambda>(k, v). (k, None, Some v)) rs"
| "collide_loop (l # ls) [] = map (\<lambda>(k, v). (k, Some v, None)) (l # ls)"
| "collide_loop ((lk, lv) # ls) ((rk, rv) # rs) =
     (if lk < rk then (lk, Some lv, None) # collide_loop ls ((rk, rv) # rs)
      else if lk = rk then (lk, Some lv, Some rv) # collide_loop ls rs
      else (rk, None, Some rv) # collide_loop ((lk, lv) # ls) rs)"
  by pat_completeness auto
termination by (relation "measure (\<lambda>(ls, rs). length ls + length rs)") auto

definition coll_entries :: "'s treapstore \<Rightarrow> 's memCollection \<Rightarrow> storeEntry list option" where
  "coll_entries T c =
     (case c of
        None \<Rightarrow> Some []
      | Some c \<Rightarrow> if \<not> coll_IsReadOnly T c then None else coll_Iterator T c [])"

definition memStoreCollide ::
  "'s treapstore \<Rightarrow> 's memCollection \<Rightarrow> 's memCollection \<Rightarrow> collision list option" where
  "memStoreCollide T old new =
     Option.bind (coll_entries T old) (\<lambda>ls.
       Option.bind (coll_entries T new) (\<lambda>rs. Some (collide_loop ls rs)))"

lemma option_ext: "(\<And>v. a = Some v \<longleftrightarrow> b = Some v) \<Longrightarrow> a = b"
  by (cases a; cases b) auto

lemma collide_loop_keys: "set (map fst (collide_loop ls rs)) = fst ` set ls \<union> fst ` set rs"
  by (induction ls rs rule: collide_loop.induct [case_names nl nr both]) force+

lemma collide_loop_sorted:
  "sorted_wrt (<) (map fst ls) \<Longrightarrow> sorted_wrt (<) (map fst rs) \<Longrightarrow>
   sorted_wrt (<) (map fst (collide_loop ls rs))"
proof (induction ls rs rule: collide_loop.induct [case_names nl nr both])
  case (both lk lv ls rk rv rs)
  have k: "set (map fst (collide_loop ls ((rk, rv) # rs))) = fst ` set ls \<union> insert rk (fst ` set rs)"
    "set (map fst (collide_loop ls rs)) = fst ` set ls \<union> fst ` set rs"
    "set (map fst (collide_loop ((lk, lv) # ls) rs)) = insert lk (fst ` set ls) \<union> fst ` set rs"
    by (simp_all only: collide_loop_keys) auto
  have s: "\<forall>x \<in> fst ` set ls. lk < x" "\<forall>x \<in> fst ` set rs. rk < x" using both.prems by auto
  consider "lk < rk" | "lk = rk" | "rk < lk" by force
  then show ?case
    using both k s by cases (auto simp del: set_map)
qed (auto simp: comp_def case_prod_beta)

text \<open>Every key of either side is reported once, with the value each side has for it.\<close>

lemma collide_loop_values:
  "sorted_wrt (<) (map fst ls) \<Longrightarrow> sorted_wrt (<) (map fst rs) \<Longrightarrow>
   (k, ov, nv) \<in> set (collide_loop ls rs) \<longleftrightarrow>
     ov = map_of ls k \<and> nv = map_of rs k \<and> (ov \<noteq> None \<or> nv \<noteq> None)"
proof (induction ls rs rule: collide_loop.induct [case_names nl nr both])
  case (nl rs)
  then have "distinct (map fst rs)" by (simp add: strict_sorted_iff)
  then show ?case by (auto simp: image_iff split: prod.splits)
next
  case (nr l ls)
  then have "distinct (map fst (l # ls))" using strict_sorted_iff by blast
  then have "(k, v) \<in> set (l # ls) \<longleftrightarrow> map_of (l # ls) k = Some v" for v
    by (metis map_of_eq_Some_iff)
  moreover have "(k, ov, nv) \<in> set (collide_loop (l # ls) []) \<longleftrightarrow>
      nv = None \<and> (\<exists>v. ov = Some v \<and> (k, v) \<in> set (l # ls))"
    by (simp only: collide_loop.simps) (auto split: prod.splits)
  ultimately show ?case by (cases ov) (auto simp del: map_of.simps(2))
next
  case (both lk lv ls rk rv rs)
  have s: "\<forall>x \<in> fst ` set ls. lk < x" "\<forall>x \<in> fst ` set rs. rk < x" using both.prems by auto
  then have n: "x \<le> lk \<Longrightarrow> map_of ls x = None" "x \<le> rk \<Longrightarrow> map_of rs x = None" for x
    by (force simp: map_of_eq_None_iff)+
  consider "lk < rk" | "lk = rk" | "rk < lk" by force
  then show ?case
  proof cases
    case 1
    then show ?thesis using both.IH(1) both.prems n[of lk] by auto
  next
    case 2
    then show ?thesis using both.IH(2) both.prems n[of lk] by auto
  next
    case 3
    then show ?thesis using both.IH(3) both.prems n[of rk] by auto
  qed
qed

section \<open>What a client may rely on\<close>

lemma Nil_min [simp]: "[] \<le> (p :: byte list)"
  by (cases p) simp_all

text \<open>
  The documented behaviour of the two packages: a new store is empty; a snapshot is a read-only
  copy; a collection is created empty and leaves the others alone; \<^verbatim>\<open>Put\<close> and \<^verbatim>\<open>Delete\<close>
  change one entry; an iterator delivers the entries from the pivot on in ascending order of
  their keys; collection names are listed in order.
\<close>

locale treap =
  fixes T :: "'s treapstore"
  assumes New_rw: "\<not> ts_IsReadOnly T (ts_New T)"
    and New_empty: "\<not> ts_HasCollection T (ts_New T) n"
    and Snapshot_ro: "ts_IsReadOnly T (ts_Snapshot T s)"
    and Snapshot_has: "ts_HasCollection T (ts_Snapshot T s) = ts_HasCollection T s"
    and Snapshot_get: "tc_Get T (ts_Snapshot T s) = tc_Get T s"
    and Create_rw: "\<not> ts_IsReadOnly T s \<Longrightarrow> \<not> ts_HasCollection T s n \<Longrightarrow>
      \<not> ts_IsReadOnly T (ts_CreateCollection T s n)"
    and Create_has: "\<not> ts_IsReadOnly T s \<Longrightarrow> \<not> ts_HasCollection T s n \<Longrightarrow>
      ts_HasCollection T (ts_CreateCollection T s n) = (ts_HasCollection T s)(n := True)"
    and Create_get: "\<not> ts_IsReadOnly T s \<Longrightarrow> \<not> ts_HasCollection T s n \<Longrightarrow>
      tc_Get T (ts_CreateCollection T s n) = (tc_Get T s)(n := Map.empty)"
    and Put_rw: "\<not> ts_IsReadOnly T s \<Longrightarrow> ts_HasCollection T s n \<Longrightarrow>
      \<not> ts_IsReadOnly T (tc_Put T s n (k, v))"
    and Put_has: "\<not> ts_IsReadOnly T s \<Longrightarrow> ts_HasCollection T s n \<Longrightarrow>
      ts_HasCollection T (tc_Put T s n (k, v)) = ts_HasCollection T s"
    and Put_get: "\<not> ts_IsReadOnly T s \<Longrightarrow> ts_HasCollection T s n \<Longrightarrow>
      tc_Get T (tc_Put T s n (k, v)) = (tc_Get T s)(n := (tc_Get T s n)(k \<mapsto> v))"
    and Delete_rw: "\<not> ts_IsReadOnly T s \<Longrightarrow> ts_HasCollection T s n \<Longrightarrow>
      \<not> ts_IsReadOnly T (tc_Delete T s n k)"
    and Delete_has: "\<not> ts_IsReadOnly T s \<Longrightarrow> ts_HasCollection T s n \<Longrightarrow>
      ts_HasCollection T (tc_Delete T s n k) = ts_HasCollection T s"
    and Delete_get: "\<not> ts_IsReadOnly T s \<Longrightarrow> ts_HasCollection T s n \<Longrightarrow>
      tc_Get T (tc_Delete T s n k) = (tc_Get T s)(n := (tc_Get T s n)(k := None))"
    and Iterator_sorted: "ts_HasCollection T s n \<Longrightarrow> sorted_wrt (<) (map fst (tc_Iterator T s n p))"
    and Iterator_set: "ts_HasCollection T s n \<Longrightarrow>
      set (tc_Iterator T s n p) = {(k, v). tc_Get T s n k = Some v \<and> p \<le> k}"
    and Names_sorted: "sorted_wrt (<) (ts_GetCollectionNames T s)"
    and Names_set: "set (ts_GetCollectionNames T s) = {n. ts_HasCollection T s n}"
begin

abbreviation has where "has \<equiv> ts_HasCollection T"
abbreviation get where "get \<equiv> tc_Get T"
abbreviation rw where "rw s \<equiv> \<not> ts_IsReadOnly T s"

lemmas store_simps [simp] = New_rw New_empty Put_rw Put_has Put_get Delete_rw Delete_has Delete_get

lemma Snapshot [simp]:
  "ts_IsReadOnly T (ms_Snapshot T s)" "has (ms_Snapshot T s) = has s" "get (ms_Snapshot T s) = get s"
  by (simp_all add: ms_Snapshot_def Snapshot_ro Snapshot_has Snapshot_get)

lemma GetOrCreate [simp]:
  assumes "rw s"
  shows "rw (ms_GetOrCreateCollection T s n)"
    and "has (ms_GetOrCreateCollection T s n) = (has s)(n := True)"
    and "get (ms_GetOrCreateCollection T s n) = (if has s n then get s else (get s)(n := Map.empty))"
  using assms by (auto simp: ms_GetOrCreateCollection_def Create_rw Create_has Create_get fun_eq_iff)

lemma Iterator_map_of:
  assumes "has s n"
  shows "map_of (tc_Iterator T s n p) k = (if p \<le> k then get s n k else None)"
proof (rule option_ext)
  fix v
  have d: "distinct (map fst (tc_Iterator T s n p))"
    using Iterator_sorted [OF assms] strict_sorted_iff by blast
  have "map_of (tc_Iterator T s n p) k = Some v \<longleftrightarrow> (k, v) \<in> set (tc_Iterator T s n p)"
    using d by (simp only: map_of_eq_Some_iff)
  also have "\<dots> \<longleftrightarrow> get s n k = Some v \<and> p \<le> k" by (simp only: Iterator_set [OF assms] mem_Collect_eq prod.case)
  finally show "map_of (tc_Iterator T s n p) k = Some v \<longleftrightarrow> (if p \<le> k then get s n k else None) = Some v"
    by simp
qed

lemma Iterator_all: "has s n \<Longrightarrow> map_of (tc_Iterator T s n []) = get s n"
  by (rule ext) (simp add: Iterator_map_of)

lemma ForEach: "has s n \<Longrightarrow> set (coll_ForEachItem T (s, n)) = {(k, v). get s n k = Some v}"
  by (simp add: coll_ForEachItem_def Iterator_set)

text \<open>The entries of a possibly nil collection, as a map.\<close>

definition coll_map :: "'s memCollection \<Rightarrow> byte list \<Rightarrow> byte list option" where
  "coll_map c k = (case c of None \<Rightarrow> None | Some (s, n) \<Rightarrow> get s n k)"

definition coll_ready :: "'s memCollection \<Rightarrow> bool" where
  "coll_ready c = (case c of None \<Rightarrow> True | Some (s, n) \<Rightarrow> ts_IsReadOnly T s \<and> has s n)"

lemma coll_entries_ready:
  assumes "coll_ready c"
  obtains es where "coll_entries T c = Some es" "sorted_wrt (<) (map fst es)" "map_of es = coll_map c"
proof (cases c)
  case None
  then show ?thesis by (intro that [of "[]"]) (auto simp: coll_entries_def coll_map_def)
next
  case (Some sn)
  then show ?thesis
    using assms by (intro that [of "tc_Iterator T (fst sn) (snd sn) []"])
      (auto simp: coll_entries_def coll_map_def coll_ready_def coll_IsReadOnly_def coll_Iterator_def
        Iterator_sorted Iterator_map_of split: prod.splits)
qed

lemma collide:
  assumes "coll_ready old" "coll_ready new"
  obtains cs where "memStoreCollide T old new = Some cs" "sorted_wrt (<) (map fst cs)"
    "\<And>k ov nv. (k, ov, nv) \<in> set cs \<longleftrightarrow>
      ov = coll_map old k \<and> nv = coll_map new k \<and> (ov \<noteq> None \<or> nv \<noteq> None)"
proof -
  obtain ls where ls: "coll_entries T old = Some ls" "sorted_wrt (<) (map fst ls)" "map_of ls = coll_map old"
    using assms(1) by (rule coll_entries_ready)
  obtain rs where rs: "coll_entries T new = Some rs" "sorted_wrt (<) (map fst rs)" "map_of rs = coll_map new"
    using assms(2) by (rule coll_entries_ready)
  show ?thesis
    using ls rs collide_loop_sorted [OF ls(2) rs(2)] collide_loop_values [OF ls(2) rs(2)]
    by (intro that [of "collide_loop ls rs"]) (simp_all add: memStoreCollide_def)
qed

end

section \<open>A store with these laws\<close>

text \<open>Association lists, sorted when they are read, show that the laws can be met.\<close>

definition al_entries :: "(string \<times> storeEntry list) list \<Rightarrow> string \<Rightarrow> storeEntry list" where
  "al_entries m n = (case map_of m n of None \<Rightarrow> [] | Some es \<Rightarrow> es)"

definition simple_treapstore :: "(bool \<times> (string \<times> storeEntry list) list) treapstore" where
  "simple_treapstore =
     \<lparr>ts_New = (False, []),
      ts_Snapshot = \<lambda>(_, m). (True, m),
      ts_IsReadOnly = fst,
      ts_GetCollectionNames = \<lambda>(_, m). sort (remdups (map fst m)),
      ts_HasCollection = \<lambda>(_, m) n. n \<in> set (map fst m),
      ts_CreateCollection = \<lambda>(r, m) n. (r, (n, []) # m),
      tc_Get = \<lambda>(_, m) n k. map_of (al_entries m n) k,
      tc_Put = \<lambda>(r, m) n e. (r, (n, e # al_entries m n) # m),
      tc_Delete = \<lambda>(r, m) n k. (r, (n, filter (\<lambda>(k', _). k' \<noteq> k) (al_entries m n)) # m),
      tc_Iterator = \<lambda>(_, m) n p. map (\<lambda>k. (k, the (map_of (al_entries m n) k)))
        (filter (\<lambda>k. p \<le> k) (sort (remdups (map fst (al_entries m n)))))\<rparr>"

lemma al_entries_simps [simp]:
  "al_entries ((n, es) # m) = (al_entries m)(n := es)"
  by (auto simp: al_entries_def fun_eq_iff)

lemma map_of_filter_neq: "map_of (filter (\<lambda>(k', _). k' \<noteq> k) es) = (map_of es)(k := None)"
  by (induction es) (auto simp: fun_eq_iff)

interpretation simple_ts: treap simple_treapstore
proof unfold_locales
  fix s n p
  show "sorted_wrt (<) (map fst (tc_Iterator simple_treapstore s n p))"
    by (cases s) (simp add: simple_treapstore_def comp_def strict_sorted_iff sorted_wrt_filter)
  show "set (tc_Iterator simple_treapstore s n p) = {(k, v). tc_Get simple_treapstore s n k = Some v \<and> p \<le> k}"
    by (cases s) (force simp: simple_treapstore_def dom_map_of_conv_image_fst [symmetric] dom_def)
qed (auto simp: simple_treapstore_def strict_sorted_iff fun_eq_iff map_of_filter_neq, (force+)?)

section \<open>Iterators over a range of rows\<close>

text \<open>\<^verbatim>\<open>memstore_iter.go\<close>. The nil slices \<^verbatim>\<open>prefix\<close>, \<^verbatim>\<open>start\<close> and \<^verbatim>\<open>lastKey\<close> are \<open>[]\<close>, of which
  the code only uses the bytes; the end is \<open>None\<close> when nil, since the code tests it.\<close>

record 's iterDefinition =
  id_c :: "'s \<times> string"
  id_prefix :: "byte list"
  id_prefixLen :: nat
  id_start :: "byte list"
  id_end :: "byte list option"

record 's iterator =
  it_def :: "'s iterDefinition"
  it_base :: "storeEntry list option"
  it_start :: "byte list"
  it_end :: "byte list option"
  it_lastKey :: "byte list"

definition mkIter :: "'s treapstore \<Rightarrow> 's iterDefinition \<Rightarrow> 's iterator option" where
  "mkIter T d =
     (if \<not> coll_IsReadOnly T (id_c d) then None
      else Some \<lparr>it_def = d, it_base = None,
                 it_start = Join [id_prefix d, id_start d],
                 it_end = map_option (\<lambda>e. Join [id_prefix d, e]) (id_end d),
                 it_lastKey = []\<rparr>)"

definition it_skip :: "'s treapstore \<Rightarrow> 's iterator \<Rightarrow> byte list \<Rightarrow> 's iterator option" where
  "it_skip T it targ =
     (let targ = (if targ < it_start it then it_start it else targ) in
      if it_base it = None \<or> targ > it_lastKey it
      then map_option (\<lambda>b. it\<lparr>it_base := Some b\<rparr>) (coll_Iterator T (id_c (it_def it)) targ)
      else Some it)"

text \<open>\<^verbatim>\<open>base.Next\<close> and the tests of \<^verbatim>\<open>next\<close> on the entry it returns.\<close>

definition it_step :: "'s iterator \<Rightarrow> storeEntry list \<Rightarrow> storeEntry option \<times> 's iterator" where
  "it_step it b =
     (case b of
        [] \<Rightarrow> (None, it\<lparr>it_base := Some []\<rparr>)
      | ent # b' \<Rightarrow>
          let it = it\<lparr>it_base := Some b'\<rparr> in
          if \<not> prefix (id_prefix (it_def it)) (fst ent) then (None, it)
          else if (case it_end it of None \<Rightarrow> False | Some e \<Rightarrow> fst ent \<ge> e) then (None, it)
          else (Some ent, it\<lparr>it_lastKey := fst ent\<rparr>))"

definition it_next :: "'s treapstore \<Rightarrow> 's iterator \<Rightarrow> (storeEntry option \<times> 's iterator) option" where
  "it_next T it =
     Option.bind (if it_base it = None then it_skip T it [] else Some it)
       (\<lambda>it. Option.bind (it_base it) (\<lambda>b. Some (it_step it b)))"

text \<open>
  The body of \<^verbatim>\<open>MainLoop\<close> in \<^verbatim>\<open>multiIterate\<close>: one pass over the iterators from index \<open>idx\<close> on.
  It ends at the end of an iterator, restarts the main loop, or reaches the end of the list.
\<close>

datatype 's pass = PassEnd | PassRestart "byte list" nat "'s iterator list" | PassDone "byte list" "'s iterator list"

fun multi_pass ::
  "'s treapstore \<Rightarrow> nat \<Rightarrow> byte list \<Rightarrow> int \<Rightarrow> 's iterator list \<Rightarrow> 's iterator list \<Rightarrow> 's pass option" where
  "multi_pass T idx sfx skip seen [] = Some (PassDone sfx seen)"
| "multi_pass T idx sfx skip seen (it # its) =
     (if skip \<ge> 0 \<and> skip = int idx then multi_pass T (idx + 1) sfx skip (seen @ [it]) its
      else
        let pfxLen = id_prefixLen (it_def it) in
        if pfxLen > length (id_prefix (it_def it)) then None
        else
        Option.bind (it_skip T it (Join [take pfxLen (id_prefix (it_def it)), sfx])) (\<lambda>it.
        Option.bind (it_next T it) (\<lambda>(ent, it).
          case ent of
            None \<Rightarrow> Some PassEnd
          | Some (key, _) \<Rightarrow>
              if pfxLen > length key then None
              else
                let sfxRO = drop pfxLen key in
                if sfxRO > sfx then
                  (if idx \<noteq> 0 then Some (PassRestart sfxRO idx (seen @ it # its))
                   else multi_pass T (idx + 1) sfxRO (int idx) (seen @ [it]) its)
                else multi_pass T (idx + 1) sfx skip (seen @ [it]) its)))"

text \<open>
  \<^verbatim>\<open>multiIterate\<close>. The callback is a function on a state of the caller's that also says whether
  to stop with an error. The value \<open>None\<close> is a panic or a loop that does not end.
\<close>

partial_function (option) multi_loop ::
  "'s treapstore \<Rightarrow> ('st \<Rightarrow> byte list \<Rightarrow> 'st \<times> 'e option) \<Rightarrow> 'st \<Rightarrow> byte list \<Rightarrow> int \<Rightarrow>
   's iterator list \<Rightarrow> ('st \<times> 'e option) option" where
  "multi_loop T cb st sfx skip ts =
     Option.bind (multi_pass T 0 sfx skip [] ts) (\<lambda>r.
       case r of
         PassEnd \<Rightarrow> Some (st, None)
       | PassRestart sfx idx ts \<Rightarrow> multi_loop T cb st sfx (int idx) ts
       | PassDone sfx ts \<Rightarrow>
           (case cb st sfx of
              (st, Some err) \<Rightarrow> Some (st, Some err)
            | (st, None) \<Rightarrow> multi_loop T cb st [] (- 1) ts))"

declare multi_loop.simps [code]

fun make_iters :: "'s treapstore \<Rightarrow> 's iterDefinition list \<Rightarrow> 's iterator list option" where
  "make_iters T [] = Some []"
| "make_iters T (d # ds) =
     Option.bind (mkIter T d) (\<lambda>it. Option.bind (make_iters T ds) (\<lambda>its. Some (it # its)))"

definition multiIterate ::
  "'s treapstore \<Rightarrow> 's iterDefinition list \<Rightarrow> ('st \<Rightarrow> byte list \<Rightarrow> 'st \<times> 'e option) \<Rightarrow> 'st \<Rightarrow>
   ('st \<times> 'e option) option" where
  "multiIterate T defs cb st =
     (if defs = [] then Some (st, None)
      else Option.bind (make_iters T defs) (\<lambda>ts. multi_loop T cb st [] (- 1) ts))"

end
