(* ===== verification/Datastore_Index.thy ===== *)
theory Datastore_Index
  imports MemStore
begin

text \<open>
  \<^verbatim>\<open>impl/memory/datastore_index.go\<close>: the index rows of an entity and their upkeep when the
  entity changes. The environment holds what the code takes from elsewhere: the number
  encodings, the ordered store, the hash, and the package variables that make map iteration
  deterministic in tests. A panic is \<open>None\<close>.
\<close>

record 's dsenv =
  e_cmpbin :: cmpbin
  e_store :: "'s treapstore"
  e_sha256 :: "byte list \<Rightarrow> byte list"
  e_detmaps :: bool  \<comment> \<open>\<^verbatim>\<open>serialize.WritePropertyMapDeterministic\<close>\<close>
  e_detser :: bool  \<comment> \<open>\<^verbatim>\<open>serializationDeterministic\<close>\<close>

section \<open>Built-in indexes\<close>

fun idx_insert :: "IndexDefinition \<Rightarrow> IndexDefinition list \<Rightarrow> IndexDefinition list" where
  "idx_insert i [] = [i]"
| "idx_insert i (j # js) = (if Index_Less j i then j # idx_insert i js else i # j # js)"

text \<open>\<^verbatim>\<open>sort.Sort\<close> of a \<^verbatim>\<open>qIndexSlice\<close>.\<close>

definition qIndexSlice_sort :: "IndexDefinition list \<Rightarrow> IndexDefinition list" where
  "qIndexSlice_sort is = foldr idx_insert is []"

definition defaultIndexes :: "'s dsenv \<Rightarrow> string \<Rightarrow> PropertyMap \<Rightarrow> IndexDefinition list" where
  "defaultIndexes E kind pmap =
     (let ret = \<lparr>ix_Kind = kind, ix_Ancestor = False, SortBy = []\<rparr> #
            concat (map (\<lambda>(name, _).
              if list_ex (\<lambda>v. indexSetting v = ShouldIndex) (pm_Slice pmap name)
              then [\<lparr>ix_Kind = kind, ix_Ancestor = False,
                     SortBy = [\<lparr>col_Property = name, Descending = False\<rparr>]\<rparr>,
                    \<lparr>ix_Kind = kind, ix_Ancestor = False,
                     SortBy = [\<lparr>col_Property = name, Descending = True\<rparr>]\<rparr>]
              else []) pmap)
      in if e_detser E then qIndexSlice_sort ret else ret)"

section \<open>Index rows\<close>

record indexRowGen =
  propVec :: "byte list list list"
  decending :: "bool list"

text \<open>\<^verbatim>\<open>incPos\<close> on \<open>iVec\<close>: the loop runs from the last position to the first and stops at the
  first that does not wrap around. The result says whether one did not.\<close>

fun incPos :: "nat list \<Rightarrow> nat list \<Rightarrow> bool list \<Rightarrow> nat list \<times> bool" where
  "incPos (i # iVec) (lim # iVecLim) (desc # descs) =
     (case incPos iVec iVecLim descs of
        (iVec', True) \<Rightarrow> (i # iVec', True)
      | (iVec', False) \<Rightarrow>
          if \<not> desc then (let newVal = (i + 1) mod lim in (newVal # iVec', newVal \<noteq> 0))
          else if i = 0 then ((lim - 1) # iVec', False)
          else ((i - 1) # iVec', True))"
| "incPos _ _ _ = ([], False)"

text \<open>The row at a position; \<open>None\<close> is an index out of range.\<close>

fun permute_write :: "invertibleBuffer \<Rightarrow> byte list list list \<Rightarrow> bool list \<Rightarrow> nat list \<Rightarrow> invertibleBuffer option" where
  "permute_write buf (sps # vec) (desc # descs) (i # iVec) =
     (if i < length sps then permute_write (ib_Write (ib_SetInvert buf desc) (sps ! i)) vec descs iVec
      else None)"
| "permute_write buf [] [] [] = Some buf"
| "permute_write buf _ _ _ = None"

definition permute_row :: "indexRowGen \<Rightarrow> nat list \<Rightarrow> byte list option" where
  "permute_row s iVec = map_option WriteBuffer (permute_write (Invertible []) (propVec s) (decending s) iVec)"

text \<open>How many positions \<open>incPos\<close> has still to visit.\<close>

fun positions_left :: "nat list \<Rightarrow> nat list \<Rightarrow> bool list \<Rightarrow> nat" where
  "positions_left (i # iVec) (lim # iVecLim) (desc # descs) =
     (if desc then i else lim - 1 - i) * prod_list iVecLim + positions_left iVec iVecLim descs"
| "positions_left _ _ _ = 0"

lemma incPos_positions:
  "list_all2 (<) iVec iVecLim \<Longrightarrow> length descs = length iVecLim \<Longrightarrow>
   incPos iVec iVecLim descs = (iVec', again) \<Longrightarrow>
   list_all2 (<) iVec' iVecLim \<and>
   (if again then positions_left iVec iVecLim descs = Suc (positions_left iVec' iVecLim descs)
    else positions_left iVec iVecLim descs = 0 \<and> positions_left iVec' iVecLim descs + 1 = prod_list iVecLim)"
proof (induction iVec iVecLim descs arbitrary: iVec' again rule: incPos.induct [case_names step])
  case (step i iVec lim iVecLim desc descs)
  obtain jVec m where j: "incPos iVec iVecLim descs = (jVec, m)" by force
  have r: "i < lim" "list_all2 (<) iVec iVecLim" "length descs = length iVecLim" using step.prems by auto
  note IH = step.IH [OF r(2,3) j]
  show ?case
  proof (cases m)
    case True
    then show ?thesis using IH step.prems(3) j r by auto
  next
    case False
    have lim: "Suc (lim - 1) = lim" using r by simp
    show ?thesis
    proof (cases desc)
      case True
      show ?thesis
      proof (cases i)
        case 0
        have "(lim - 1) * prod_list iVecLim + prod_list iVecLim = lim * prod_list iVecLim"
          using lim mult_Suc [of "lim - 1" "prod_list iVecLim"] by simp
        then show ?thesis using IH step.prems(3) j r False True 0 by auto
      next
        case (Suc i')
        then show ?thesis using IH step.prems(3) j r False True by auto
      qed
    next
      case desc: False
      show ?thesis
      proof (cases "Suc i = lim")
        case True
        have "(lim - 1) * prod_list iVecLim + prod_list iVecLim = lim * prod_list iVecLim"
          using lim mult_Suc [of "lim - 1" "prod_list iVecLim"] by simp
        then show ?thesis using IH step.prems(3) j r False desc True by auto
      next
        case neq: False
        then have "Suc i < lim" using r by simp
        then have "lim - 1 - i = Suc (lim - 1 - Suc i)" "(i + 1) mod lim = Suc i" by auto
        then show ?thesis using IH step.prems(3) j r False desc \<open>Suc i < lim\<close> by auto
      qed
    qed
  qed
qed auto

lemma permute_write_range:
  "permute_write buf vec descs iVec = Some buf' \<Longrightarrow>
   list_all2 (<) iVec (map length vec) \<and> length descs = length vec"
  by (induction buf vec descs iVec rule: permute_write.induct) (auto split: if_splits)

text \<open>The main loop of \<^verbatim>\<open>permute\<close>, as the list of the rows it hands to the callback.\<close>

function permute_loop :: "indexRowGen \<Rightarrow> nat list \<Rightarrow> byte list list option" where
  "permute_loop s iVec =
     (case permute_row s iVec of
        None \<Rightarrow> None
      | Some row \<Rightarrow>
          (case incPos iVec (map length (propVec s)) (decending s) of
             (iVec', True) \<Rightarrow> map_option ((#) row) (permute_loop s iVec')
           | (_, False) \<Rightarrow> Some [row]))"
  by pat_completeness auto
termination
proof (relation "measure (\<lambda>(s, iVec). positions_left iVec (map length (propVec s)) (decending s))",
    goal_cases wf step)
  case (step s iVec row iVec' b)
  then have "list_all2 (<) iVec (map length (propVec s))" "length (decending s) = length (propVec s)"
    using permute_write_range by (auto simp: permute_row_def)
  then show ?case using incPos_positions [of iVec "map length (propVec s)" "decending s" iVec' True] step
    by auto
qed simp

declare permute_loop.simps [simp del]

definition permute :: "indexRowGen \<Rightarrow> byte list list option" where
  "permute s =
     permute_loop s (map (\<lambda>(sps, desc). if desc then length sps - 1 else 0) (zip (propVec s) (decending s)))"

text \<open>\<^verbatim>\<open>matcher.match\<close>; \<open>None\<close> is no match.\<close>

fun matcher_match :: "IndexColumn list \<Rightarrow> SerializedPmap \<Rightarrow> indexRowGen option" where
  "matcher_match [] sip = Some \<lparr>propVec = [], decending = []\<rparr>"
| "matcher_match (sb # sortBy) sip =
     (case sip (col_Property sb) of
        Some pv \<Rightarrow> map_option (\<lambda>b. \<lparr>propVec = pv # propVec b, decending = Descending sb # decending b\<rparr>)
                     (matcher_match sortBy sip)
      | None \<Rightarrow> None)"

section \<open>Index entries of one entity\<close>

definition idx_coll :: "string \<Rightarrow> byte list \<Rightarrow> string" where
  "idx_coll ns bin = ''idx:'' @ ns @ '':'' @ bytes_str bin"

definition coll_set_rows :: "'s treapstore \<Rightarrow> string \<Rightarrow> byte list list \<Rightarrow> 's \<Rightarrow> 's" where
  "coll_set_rows T name rows s = foldl (\<lambda>s row. tc_Put T s name (row, [])) s rows"

definition coll_del_rows :: "'s treapstore \<Rightarrow> string \<Rightarrow> byte list list \<Rightarrow> 's \<Rightarrow> 's" where
  "coll_del_rows T name rows s = foldl (\<lambda>s row. tc_Delete T s name row) s rows"

text \<open>The body of the loop of \<^verbatim>\<open>indexEntries\<close> for one definition.\<close>

definition index_entry :: "'s dsenv \<Rightarrow> Key \<Rightarrow> SerializedPmap \<Rightarrow> 's \<Rightarrow> IndexDefinition \<Rightarrow> 's option" where
  "index_entry E key sip ret idx =
     (let idx = Normalize idx; T = e_store E in
      Option.bind (if ix_Kind idx \<noteq> '''' then map_option (\<lambda>kind. ix_Kind idx \<noteq> kind) (Key_Kind key) else Some False) (\<lambda>otherKind.
      if otherKind then Some ret
      else case matcher_match (GetFullSortOrder idx) sip of
        None \<Rightarrow> Some ret
      | Some irg \<Rightarrow>
          Option.bind (ToBytes (e_cmpbin E) (e_detmaps E) (SIndexDefinition (PrepForIdxTable idx))) (\<lambda>idxBin.
          let ret = tc_Put T ret ''idx'' (idxBin, []);
              coll = idx_coll (Key_Namespace key) idxBin;
              ret = ms_GetOrCreateCollection T ret coll
          in map_option (\<lambda>rows. coll_set_rows T coll rows ret) (permute irg))))"

fun index_entries_loop :: "'s dsenv \<Rightarrow> Key \<Rightarrow> SerializedPmap \<Rightarrow> 's \<Rightarrow> IndexDefinition list \<Rightarrow> 's option" where
  "index_entries_loop E key sip ret [] = Some ret"
| "index_entries_loop E key sip ret (idx # idxs) =
     Option.bind (index_entry E key sip ret idx) (\<lambda>ret. index_entries_loop E key sip ret idxs)"

definition indexEntries :: "'s dsenv \<Rightarrow> Key \<Rightarrow> SerializedPmap \<Rightarrow> IndexDefinition list \<Rightarrow> 's option" where
  "indexEntries E key sip idxs =
     index_entries_loop E key sip
       (ms_GetOrCreateCollection (e_store E) (ts_New (e_store E)) ''idx'') idxs"

text \<open>A nil property map is \<open>None\<close>.\<close>

definition indexEntriesWithBuiltins ::
  "'s dsenv \<Rightarrow> Key \<Rightarrow> PropertyMap option \<Rightarrow> IndexDefinition list \<Rightarrow> 's option" where
  "indexEntriesWithBuiltins E k pm complexIdxs =
     (case pm of
        None \<Rightarrow> Some (ts_New (e_store E))
      | Some pm \<Rightarrow>
          let sip = PropertyMapPartially (e_cmpbin E) (Some k) pm in
          Option.bind (Key_Kind k) (\<lambda>kind.
            indexEntries E k sip (defaultIndexes E kind pm @ complexIdxs)))"

section \<open>The table of compound indexes\<close>

text \<open>The loop of \<^verbatim>\<open>walkCompIdxs\<close>; the callback also says whether to go on.\<close>

function walk_loop ::
  "'s dsenv \<Rightarrow> ('st \<Rightarrow> IndexDefinition \<Rightarrow> 'st \<times> bool) \<Rightarrow> 'st \<Rightarrow> 's iterator \<Rightarrow> 'st option" where
  "walk_loop E cb st it =
     (case it_next (e_store E) it of
        None \<Rightarrow> None
      | Some (None, _) \<Rightarrow> Some st
      | Some (Some ent, it') \<Rightarrow>
          (case ReadIndexDefinition (e_cmpbin E) (fst ent) of
             Inl _ \<Rightarrow> None
           | Inr (qi, _) \<Rightarrow>
               (case cb st (Flip qi) of
                  (st, False) \<Rightarrow> Some st
                | (st, True) \<Rightarrow> walk_loop E cb st it')))"
  by pat_completeness auto
termination
  by (relation "measures [\<lambda>(E, cb, st, it). if it_base it = None then 1 else 0,
      \<lambda>(E, cb, st, it). length (the (it_base it))]")
    (auto simp: it_next_def it_step_def it_skip_def Let_def
      split: if_splits option.splits list.splits bind_splits)

declare walk_loop.simps [simp del]

definition walkCompIdxs ::
  "'s dsenv \<Rightarrow> 's \<Rightarrow> IndexDefinition option \<Rightarrow> ('st \<Rightarrow> IndexDefinition \<Rightarrow> 'st \<times> bool) \<Rightarrow> 'st \<Rightarrow> 'st option" where
  "walkCompIdxs E store endsWith cb st =
     (case ms_GetCollection (e_store E) store ''idx'' of
        None \<Rightarrow> Some st
      | Some idxColl \<Rightarrow>
          Option.bind (case endsWith of
              None \<Rightarrow> Some []
            | Some i \<Rightarrow> map_option butlast (ToBytes (e_cmpbin E) (e_detmaps E) (SIndexDefinition (Flip i))))
          (\<lambda>pre. Option.bind (mkIter (e_store E)
               \<lparr>id_c = idxColl, id_prefix = pre, id_prefixLen = 0, id_start = [], id_end = None\<rparr>)
            (\<lambda>it. walk_loop E cb st it)))"

section \<open>Upkeep\<close>

text \<open>The callback of the outer \<^verbatim>\<open>memStoreCollide\<close> of \<^verbatim>\<open>mergeIndexes\<close>. Calling a method of
  a nil collection panics; the nested \<^verbatim>\<open>memStoreCollide\<close> takes nil collections.\<close>

definition merge_index :: "'s dsenv \<Rightarrow> string \<Rightarrow> 's \<Rightarrow> 's \<Rightarrow> 's \<Rightarrow> collision \<Rightarrow> 's option" where
  "merge_index E ns oldIdx newIdx store c =
     (case c of (k, ov, nv) \<Rightarrow>
        let T = e_store E; ks = idx_coll ns k;
            store = ms_GetOrCreateCollection T store ks;
            oldColl = ms_GetCollection T oldIdx ks;
            newColl = ms_GetCollection T newIdx ks
        in case (ov, nv) of
             (None, Some _) \<Rightarrow>
               map_option (\<lambda>c. coll_set_rows T ks (map fst (coll_ForEachItem T c)) store) newColl
           | (Some _, None) \<Rightarrow>
               map_option (\<lambda>c. coll_del_rows T ks (map fst (coll_ForEachItem T c)) store) oldColl
           | (Some _, Some _) \<Rightarrow>
               map_option (foldl (\<lambda>s (k, ov, nv). case nv of
                     None \<Rightarrow> tc_Delete T s ks k
                   | Some _ \<Rightarrow> tc_Put T s ks (k, [])) store)
                 (memStoreCollide T oldColl newColl)
           | (None, None) \<Rightarrow> None)"

fun merge_loop :: "'s dsenv \<Rightarrow> string \<Rightarrow> 's \<Rightarrow> 's \<Rightarrow> 's \<Rightarrow> collision list \<Rightarrow> 's option" where
  "merge_loop E ns oldIdx newIdx store [] = Some store"
| "merge_loop E ns oldIdx newIdx store (c # cs) =
     Option.bind (merge_index E ns oldIdx newIdx store c) (\<lambda>store. merge_loop E ns oldIdx newIdx store cs)"

definition mergeIndexes :: "'s dsenv \<Rightarrow> string \<Rightarrow> 's \<Rightarrow> 's \<Rightarrow> 's \<Rightarrow> 's option" where
  "mergeIndexes E ns store oldIdx newIdx =
     (let T = e_store E; oldIdx = ms_Snapshot T oldIdx; newIdx = ms_Snapshot T newIdx in
      Option.bind (memStoreCollide T (ms_GetCollection T oldIdx ''idx'') (ms_GetCollection T newIdx ''idx''))
        (merge_loop E ns oldIdx newIdx store))"

definition updateIndexes ::
  "'s dsenv \<Rightarrow> 's \<Rightarrow> Key \<Rightarrow> PropertyMap option \<Rightarrow> PropertyMap option \<Rightarrow> 's option" where
  "updateIndexes E store key oldEnt newEnt =
     Option.bind (walkCompIdxs E (ms_Snapshot (e_store E) store) None (\<lambda>compIdx i. (compIdx @ [i], True)) [])
       (\<lambda>compIdx.
     Option.bind (indexEntriesWithBuiltins E key oldEnt compIdx) (\<lambda>old.
     Option.bind (indexEntriesWithBuiltins E key newEnt compIdx) (\<lambda>new.
       mergeIndexes E (Key_Namespace key) store old new)))"

section \<open>Keys and entities in the store\<close>

text \<open>\<^verbatim>\<open>keyBytes\<close>, \<^verbatim>\<open>readPropMap\<close> and \<^verbatim>\<open>namespaces\<close> of \<^verbatim>\<open>datastore_data.go\<close>.\<close>

definition keyBytes :: "'s dsenv \<Rightarrow> Key \<Rightarrow> byte list option" where
  "keyBytes E key =
     Option.bind (MkProperty (GKey key)) (\<lambda>p. ToBytes (e_cmpbin E) (e_detmaps E) (SProperty p))"

definition readPropMap :: "'s dsenv \<Rightarrow> byte list \<Rightarrow> serror + PropertyMap" where
  "readPropMap E data = map_sum id fst (ReadPropertyMap (e_cmpbin E) WithContext (MkKeyContext '''' '''') data)"

definition trimPrefix :: "string \<Rightarrow> string \<Rightarrow> string \<times> bool" where
  "trimPrefix v p = (if prefix p v then (drop (length p) v, True) else (v, False))"

fun ns_loop :: "string list \<Rightarrow> string list \<Rightarrow> string list" where
  "ns_loop acc [] = acc"
| "ns_loop acc (c # cs) =
     (case trimPrefix c ''ents:'' of
        (ns, True) \<Rightarrow> ns_loop (acc @ [ns]) cs
      | (ns, False) \<Rightarrow> if acc \<noteq> [] then acc else ns_loop acc cs)"

definition namespaces :: "'s treapstore \<Rightarrow> 's \<Rightarrow> string list" where
  "namespaces T store = ns_loop [] (ts_GetCollectionNames T store)"

section \<open>Adding compound indexes\<close>

text \<open>The callback of \<^verbatim>\<open>addIndexes\<close> for one stored entity.\<close>

definition add_index_ent ::
  "'s dsenv \<Rightarrow> string \<Rightarrow> string \<Rightarrow> IndexDefinition list \<Rightarrow> 's \<Rightarrow> storeEntry \<Rightarrow> 's option" where
  "add_index_ent E aid ns normalized store ent =
     (case (readPropMap E (snd ent),
            ReadProperty (e_cmpbin E) WithoutContext (MkKeyContext aid ns) (fst ent)) of
        (Inr pm, Inr (prop, _)) \<Rightarrow>
          (case Property_Value prop of
             GKey k \<Rightarrow>
               Option.bind (indexEntries E k (PropertyMapPartially (e_cmpbin E) (Some k) pm) normalized)
                 (mergeIndexes E ns store (ts_New (e_store E)))
           | _ \<Rightarrow> None)
      | _ \<Rightarrow> None)"

fun add_index_ents ::
  "'s dsenv \<Rightarrow> string \<Rightarrow> string \<Rightarrow> IndexDefinition list \<Rightarrow> 's \<Rightarrow> storeEntry list \<Rightarrow> 's option" where
  "add_index_ents E aid ns normalized store [] = Some store"
| "add_index_ents E aid ns normalized store (ent # ents) =
     Option.bind (add_index_ent E aid ns normalized store ent)
       (\<lambda>store. add_index_ents E aid ns normalized store ents)"

fun add_index_nss ::
  "'s dsenv \<Rightarrow> string \<Rightarrow> IndexDefinition list \<Rightarrow> 's \<Rightarrow> string list \<Rightarrow> 's option" where
  "add_index_nss E aid normalized store [] = Some store"
| "add_index_nss E aid normalized store (ns # nss) =
     Option.bind
       (case ms_GetCollection (e_store E) (ms_Snapshot (e_store E) store) (''ents:'' @ ns) of
          None \<Rightarrow> Some store
        | Some allEnts \<Rightarrow> add_index_ents E aid ns normalized store (coll_ForEachItem (e_store E) allEnts))
       (\<lambda>store. add_index_nss E aid normalized store nss)"

fun add_index_defs :: "'s dsenv \<Rightarrow> 's \<Rightarrow> IndexDefinition list \<Rightarrow> 's option" where
  "add_index_defs E store [] = Some store"
| "add_index_defs E store (idx # idxs) =
     Option.bind (ToBytes (e_cmpbin E) (e_detmaps E) (SIndexDefinition (PrepForIdxTable idx)))
       (\<lambda>bin. add_index_defs E (tc_Put (e_store E) store ''idx'' (bin, [])) idxs)"

definition addIndexes :: "'s dsenv \<Rightarrow> 's \<Rightarrow> string \<Rightarrow> IndexDefinition list \<Rightarrow> 's option" where
  "addIndexes E store aid compIdx =
     (let normalized = map Normalize compIdx;
          store = ms_GetOrCreateCollection (e_store E) store ''idx''
      in Option.bind (add_index_defs E store normalized) (\<lambda>store.
           add_index_nss E aid normalized store (namespaces (e_store E) store)))"

end
