(* ===== verification/Datastore.thy ===== *)
theory Datastore
  imports Datastore_Index
begin

text \<open>
  \<^verbatim>\<open>impl/memory/datastore_data.go\<close>: the in-memory datastore. Its head store has one collection
  of entities per namespace, in which the code also keeps a version per entity group and the
  counters that IDs are drawn from, and one collection of rows per index. Every operation
  runs under the datastore's lock (a \<^verbatim>\<open>putMulti\<close> takes it once for each key), so an
  operation is one step on the state. A callback is modelled by a function that says
  whether it returns an error; the calls made to it are part of the result. A panic is
  \<open>None\<close>.
\<close>

section \<open>State\<close>

datatype dserror = ErrNoSuchEntity | ErrSpecialDisabled | ErrRead serror | ErrCrossGroup
  | ErrTooManyGroups | ErrTxnExpired | ErrTxnClosed | ErrConcurrentTransaction | ErrNestedTxn
  | ErrUser nat

record ds_Constraints =
  MaxGetSize :: int64
  MaxPutSize :: int64
  ds_MaxDeleteSize :: int64

definition DS :: ds_Constraints where
  "DS = \<lparr>MaxGetSize = 1000, MaxPutSize = 500, ds_MaxDeleteSize = 500\<rparr>"

record 's dataStoreData =
  aid :: string
  head :: 's
  snap :: "'s option"  \<comment> \<open>nil: always consistent\<close>
  txnFakeRetry :: int
  autoIndex :: bool
  disableSpecialEntities :: bool
  showSpecialProps :: bool
  ds_constraints :: ds_Constraints

definition newDataStoreData :: "'s dsenv \<Rightarrow> string \<Rightarrow> 's dataStoreData" where
  "newDataStoreData E a =
     (let h = ts_New (e_store E) in
      \<lparr>aid = a, head = h, snap = Some (ms_Snapshot (e_store E) h), txnFakeRetry = 0,
       autoIndex = False, disableSpecialEntities = False, showSpecialProps = False,
       ds_constraints = DS\<rparr>)"

section \<open>Settings and snapshots\<close>

definition setTxnRetry :: "'s dataStoreData \<Rightarrow> int \<Rightarrow> 's dataStoreData" where
  "setTxnRetry d n = d\<lparr>txnFakeRetry := n\<rparr>"

definition setConsistent :: "'s dsenv \<Rightarrow> 's dataStoreData \<Rightarrow> bool \<Rightarrow> 's dataStoreData" where
  "setConsistent E d always =
     d\<lparr>snap := (if always then None else Some (ms_Snapshot (e_store E) (head d)))\<rparr>"

definition ds_addIndexes :: "'s dsenv \<Rightarrow> 's dataStoreData \<Rightarrow> IndexDefinition list \<Rightarrow> 's dataStoreData option" where
  "ds_addIndexes E d idxs = map_option (\<lambda>h. d\<lparr>head := h\<rparr>) (addIndexes E (head d) (aid d) idxs)"

definition setAutoIndex :: "'s dataStoreData \<Rightarrow> bool \<Rightarrow> 's dataStoreData" where
  "setAutoIndex d enable = d\<lparr>autoIndex := enable\<rparr>"

text \<open>\<open>missing\<close> is the index of an \<^verbatim>\<open>ErrMissingIndex\<close>, or none for any other error.\<close>

definition maybeAutoIndex ::
  "'s dsenv \<Rightarrow> 's dataStoreData \<Rightarrow> IndexDefinition option \<Rightarrow> (bool \<times> 's dataStoreData) option" where
  "maybeAutoIndex E d missing =
     (case missing of
        None \<Rightarrow> Some (False, d)
      | Some idx \<Rightarrow>
          if \<not> autoIndex d then Some (False, d)
          else map_option (Pair True) (ds_addIndexes E d [idx]))"

definition setDisableSpecialEntities :: "'s dataStoreData \<Rightarrow> bool \<Rightarrow> 's dataStoreData" where
  "setDisableSpecialEntities d disabled = d\<lparr>disableSpecialEntities := disabled\<rparr>"

definition setShowSpecialProperties :: "'s dataStoreData \<Rightarrow> bool \<Rightarrow> 's dataStoreData" where
  "setShowSpecialProperties d b = d\<lparr>showSpecialProps := b\<rparr>"

definition ds_setConstraints :: "'s dataStoreData \<Rightarrow> ds_Constraints \<Rightarrow> 's dataStoreData" where
  "ds_setConstraints d c = d\<lparr>ds_constraints := c\<rparr>"

definition takeSnapshot :: "'s dsenv \<Rightarrow> 's dataStoreData \<Rightarrow> 's" where
  "takeSnapshot E d = ms_Snapshot (e_store E) (head d)"

text \<open>The stores for the index and the entities of a query.\<close>

definition getQuerySnaps :: "'s dsenv \<Rightarrow> 's dataStoreData \<Rightarrow> bool \<Rightarrow> 's \<times> 's" where
  "getQuerySnaps E d consistent =
     (case snap d of
        None \<Rightarrow> (let s = takeSnapshot E d in (s, s))
      | Some sn \<Rightarrow> (let h = takeSnapshot E d in (if consistent then h else sn, h)))"

definition setSnapshot :: "'s dataStoreData \<Rightarrow> 's \<Rightarrow> 's dataStoreData" where
  "setSnapshot d sn = (if snap d = None then d else d\<lparr>snap := Some sn\<rparr>)"

definition catchupIndexes :: "'s dsenv \<Rightarrow> 's dataStoreData \<Rightarrow> 's dataStoreData" where
  "catchupIndexes E d =
     (if snap d = None then d else d\<lparr>snap := Some (ms_Snapshot (e_store E) (head d))\<rparr>)"

definition ds_namespaces :: "'s dsenv \<Rightarrow> 's dataStoreData \<Rightarrow> string list" where
  "ds_namespaces E d = namespaces (e_store E) (head d)"

section \<open>Special properties\<close>

definition ensureSpecialProps :: "'s dsenv \<Rightarrow> byte list \<Rightarrow> PropertyMap \<Rightarrow> PropertyMap option" where
  "ensureSpecialProps E keyBlob pm =
     (let h = e_sha256 E keyBlob in
      case h of
        b0 # b1 # _ \<Rightarrow>
          if unat b0 * 256 + unat b1 \<ge> 32768
          then map_option (\<lambda>p. al_set pm ''__scatter__'' (PSingle p)) (MkProperty (GBytes h))
          else Some (al_delete pm ''__scatter__'')
      | _ \<Rightarrow> None)"

definition stripSpecialProps :: "PropertyMap \<Rightarrow> PropertyMap" where
  "stripSpecialProps pm = al_delete pm ''__scatter__''"

section \<open>Versions and counters\<close>

abbreviation no_ctx :: KeyContext where "no_ctx \<equiv> MkKeyContext '''' ''''"

definition groupMetaKey :: "'s dsenv \<Rightarrow> Key \<Rightarrow> byte list option" where
  "groupMetaKey E key = keyBytes E (NewKey no_ctx ''__entity_group__'' '''' 1 (Some (Key_Root key)))"

definition groupIDsKey :: "'s dsenv \<Rightarrow> Key \<Rightarrow> byte list option" where
  "groupIDsKey E key = keyBytes E (NewKey no_ctx ''__entity_group_ids__'' '''' 1 (Some (Key_Root key)))"

definition rootIDsKey :: "'s dsenv \<Rightarrow> string \<Rightarrow> byte list option" where
  "rootIDsKey E kind = keyBytes E (NewKey no_ctx ''__entity_root_ids__'' kind 0 None)"

definition curVersion :: "'s dsenv \<Rightarrow> 's memCollection \<Rightarrow> byte list \<Rightarrow> int64 option" where
  "curVersion E ents key =
     (case ents of
        None \<Rightarrow> Some 0
      | Some (s, n) \<Rightarrow>
          (case tc_Get (e_store E) s n key of
             None \<Rightarrow> Some 0
           | Some v \<Rightarrow>
               (case readPropMap E v of
                  Inl _ \<Rightarrow> None
                | Inr pm \<Rightarrow>
                    (case pm_Slice pm ''__version__'' of
                       [] \<Rightarrow> None
                     | p # _ \<Rightarrow> (case Property_Value p of GInt i \<Rightarrow> Some i | _ \<Rightarrow> None)))))"

text \<open>The first value of the new range, and the store in which the counter has its last.\<close>

definition incrementLocked ::
  "'s dsenv \<Rightarrow> 's \<Rightarrow> string \<Rightarrow> byte list \<Rightarrow> int64 \<Rightarrow> (int64 \<times> 's) option" where
  "incrementLocked E s ents key amt =
     (if sint amt \<le> 0 then None
      else
        Option.bind (curVersion E (Some (s, ents)) key) (\<lambda>v.
        let ret = v + 1 in
        Option.bind (MkPropertyNI (GInt (ret + (amt - 1)))) (\<lambda>p.
        Option.bind (ToBytes (e_cmpbin E) (e_detmaps E) (SPropertyMap [(''__version__'', PSingle p)])) (\<lambda>bs.
          Some (ret, tc_Put (e_store E) s ents (key, bs))))))"

definition allocateIDsLocked ::
  "'s dsenv \<Rightarrow> 's dataStoreData \<Rightarrow> string \<Rightarrow> Key \<Rightarrow> int64 \<Rightarrow> ((dserror + int64) \<times> 's dataStoreData) option" where
  "allocateIDsLocked E d ents incomplete n =
     (if disableSpecialEntities d then Some (Inl ErrSpecialDisabled, d)
      else
        Option.bind (if Key_Parent incomplete = None then Option.bind (Key_Kind incomplete) (rootIDsKey E)
                     else groupIDsKey E incomplete) (\<lambda>idKey.
        map_option (\<lambda>(start, h). (Inr start, d\<lparr>head := h\<rparr>)) (incrementLocked E (head d) ents idKey n)))"

definition fixKeyLocked ::
  "'s dsenv \<Rightarrow> 's dataStoreData \<Rightarrow> string \<Rightarrow> Key \<Rightarrow> ((dserror + Key) \<times> 's dataStoreData) option" where
  "fixKeyLocked E d ents key =
     Option.bind (Key_IsIncomplete key) (\<lambda>inc.
       if inc then
         Option.bind (allocateIDsLocked E d ents key 1) (\<lambda>(r, d).
           case r of
             Inl err \<Rightarrow> Some (Inl err, d)
           | Inr i \<Rightarrow> map_option (\<lambda>kind. (Inr (NewKey (kc key) kind '''' i (Key_Parent key)), d))
                        (Key_Kind key))
       else Some (Inr key, d))"

definition ents_coll :: "string \<Rightarrow> string" where
  "ents_coll ns = ''ents:'' @ ns"

definition open_ents :: "'s dsenv \<Rightarrow> 's dataStoreData \<Rightarrow> string \<Rightarrow> 's dataStoreData" where
  "open_ents E d ns = d\<lparr>head := ms_GetOrCreateCollection (e_store E) (head d) (ents_coll ns)\<rparr>"

definition fixKey :: "'s dsenv \<Rightarrow> 's dataStoreData \<Rightarrow> Key \<Rightarrow> ((dserror + Key) \<times> 's dataStoreData) option" where
  "fixKey E d key =
     Option.bind (Key_IsIncomplete key) (\<lambda>inc.
       if inc then fixKeyLocked E (open_ents E d (Key_Namespace key)) (ents_coll (Key_Namespace key)) key
       else Some (Inr key, d))"

section \<open>Put, get and delete\<close>

text \<open>The store after the version of the key's entity group has been incremented.\<close>

definition bump_group :: "'s dsenv \<Rightarrow> 's dataStoreData \<Rightarrow> string \<Rightarrow> Key \<Rightarrow> 's dataStoreData option" where
  "bump_group E d ents key =
     (if disableSpecialEntities d then Some d
      else Option.bind (groupMetaKey E key) (\<lambda>mkey.
        map_option (\<lambda>(_, h). d\<lparr>head := h\<rparr>) (incrementLocked E (head d) ents mkey 1)))"

text \<open>The function literal of \<^verbatim>\<open>putMulti\<close>, run under the lock for one key.\<close>

definition put_one ::
  "'s dsenv \<Rightarrow> 's dataStoreData \<Rightarrow> string \<Rightarrow> Key \<Rightarrow> PropertyMap \<Rightarrow> ((Key \<times> dserror option) \<times> 's dataStoreData) option" where
  "put_one E d ns k newPM =
     (let T = e_store E; ents = ents_coll ns; d = open_ents E d ns in
      Option.bind (fixKeyLocked E d ents k) (\<lambda>(r, d).
      case r of
        Inl err \<Rightarrow> Some ((k, Some err), d)
      | Inr key \<Rightarrow>
          Option.bind (bump_group E d ents key) (\<lambda>d.
          Option.bind (keyBytes E key) (\<lambda>keyBlob.
          Option.bind (ensureSpecialProps E keyBlob newPM) (\<lambda>newPM.
          case (case tc_Get T (head d) ents keyBlob of
                  None \<Rightarrow> Inr None
                | Some old \<Rightarrow> map_sum id Some (readPropMap E old)) of
            Inl e \<Rightarrow> Some ((key, Some (ErrRead e)), d)
          | Inr oldPM \<Rightarrow>
              Option.bind (ToBytesWithContext (e_cmpbin E) (e_detmaps E) (SPropertyMap newPM)) (\<lambda>bs.
              Option.bind (updateIndexes E (tc_Put T (head d) ents (keyBlob, bs)) key oldPM (Some newPM)) (\<lambda>h.
                Some ((key, None), d\<lparr>head := h\<rparr>))))))))"

text \<open>The calls of the callback, the error with which it stopped the loop, and the state. A nil
  value is \<open>None\<close>, which \<^verbatim>\<open>Save\<close> turns into the empty map.\<close>

fun put_loop ::
  "'s dsenv \<Rightarrow> (nat \<Rightarrow> Key \<Rightarrow> dserror option \<Rightarrow> dserror option) \<Rightarrow> 's dataStoreData \<Rightarrow> string \<Rightarrow> nat \<Rightarrow>
   Key list \<Rightarrow> PropertyMap option list \<Rightarrow> ((Key \<times> dserror option) list \<times> dserror option \<times> 's dataStoreData) option" where
  "put_loop E cb d ns i [] vals = Some ([], None, d)"
| "put_loop E cb d ns i (k # ks) [] = None"
| "put_loop E cb d ns i (k # ks) (v # vals) =
     Option.bind (put_one E d ns k (pm_Save (case v of None \<Rightarrow> [] | Some pm \<Rightarrow> pm) False)) (\<lambda>((k', err), d).
       case cb i k' err of
         Some e \<Rightarrow> Some ([(k', err)], Some e, d)
       | None \<Rightarrow> map_option (\<lambda>(calls, e, d). ((k', err) # calls, e, d)) (put_loop E cb d ns (i + 1) ks vals))"

definition putMulti ::
  "'s dsenv \<Rightarrow> (nat \<Rightarrow> Key \<Rightarrow> dserror option \<Rightarrow> dserror option) \<Rightarrow> 's dataStoreData \<Rightarrow>
   Key list \<Rightarrow> PropertyMap option list \<Rightarrow> ((Key \<times> dserror option) list \<times> dserror option \<times> 's dataStoreData) option" where
  "putMulti E cb d keys vals =
     (case keys of [] \<Rightarrow> None | k0 # _ \<Rightarrow> put_loop E cb d (Key_Namespace k0) 0 keys vals)"

text \<open>\<^verbatim>\<open>getMultiInner\<close>: what the callback is given for each key.\<close>

definition get_one :: "'s dsenv \<Rightarrow> 's memCollection \<Rightarrow> Key \<Rightarrow> (dserror + PropertyMap) option" where
  "get_one E ents k =
     (case ents of
        None \<Rightarrow> Some (Inl ErrNoSuchEntity)
      | Some (s, n) \<Rightarrow>
          map_option (\<lambda>kb.
            case tc_Get (e_store E) s n kb of
              None \<Rightarrow> Inl ErrNoSuchEntity
            | Some pdata \<Rightarrow> map_sum ErrRead id (readPropMap E pdata)) (keyBytes E k))"

fun getMultiInner :: "'s dsenv \<Rightarrow> Key list \<Rightarrow> 's memCollection \<Rightarrow> (dserror + PropertyMap) list option" where
  "getMultiInner E [] ents = Some []"
| "getMultiInner E (k # ks) ents =
     Option.bind (get_one E ents k) (\<lambda>r. map_option ((#) r) (getMultiInner E ks ents))"

definition stripSpecialPropsGetCB :: "'s dataStoreData \<Rightarrow> dserror + PropertyMap \<Rightarrow> dserror + PropertyMap" where
  "stripSpecialPropsGetCB d r = (if showSpecialProps d then r else map_sum id stripSpecialProps r)"

definition getMulti :: "'s dsenv \<Rightarrow> 's dataStoreData \<Rightarrow> Key list \<Rightarrow> (dserror + PropertyMap) list option" where
  "getMulti E d keys =
     (case keys of
        [] \<Rightarrow> None
      | k0 # _ \<Rightarrow>
          map_option (map (stripSpecialPropsGetCB d))
            (getMultiInner E keys (ms_GetCollection (e_store E) (takeSnapshot E d) (ents_coll (Key_Namespace k0)))))"

definition del_one :: "'s dsenv \<Rightarrow> 's dataStoreData \<Rightarrow> string \<Rightarrow> Key \<Rightarrow> (dserror option \<times> 's dataStoreData) option" where
  "del_one E d ns k =
     Option.bind (keyBytes E k) (\<lambda>kb.
     let T = e_store E; ents = ents_coll ns; d = open_ents E d ns in
     Option.bind (bump_group E d ents k) (\<lambda>d.
     case tc_Get T (head d) ents kb of
       None \<Rightarrow> Some (None, d)
     | Some old \<Rightarrow>
         (case readPropMap E old of
            Inl e \<Rightarrow> Some (Some (ErrRead e), d)
          | Inr oldPM \<Rightarrow>
              map_option (\<lambda>h. (None, d\<lparr>head := h\<rparr>))
                (updateIndexes E (tc_Delete T (head d) ents kb) k (Some oldPM) None))))"

fun del_loop ::
  "'s dsenv \<Rightarrow> (nat \<Rightarrow> dserror option \<Rightarrow> dserror option) \<Rightarrow> 's dataStoreData \<Rightarrow> string \<Rightarrow> nat \<Rightarrow>
   Key list \<Rightarrow> (dserror option list \<times> dserror option \<times> 's dataStoreData) option" where
  "del_loop E cb d ns i [] = Some ([], None, d)"
| "del_loop E cb d ns i (k # ks) =
     Option.bind (del_one E d ns k) (\<lambda>(err, d).
       case cb i err of
         Some e \<Rightarrow> Some ([err], Some e, d)
       | None \<Rightarrow> map_option (\<lambda>(calls, e, d). (err # calls, e, d)) (del_loop E cb d ns (i + 1) ks))"

text \<open>\<^verbatim>\<open>delMulti\<close>; \<^verbatim>\<open>GetOrCreateCollection\<close> never returns nil, so \<^verbatim>\<open>hasEntsInNS\<close> holds.\<close>

definition delMulti ::
  "'s dsenv \<Rightarrow> (nat \<Rightarrow> dserror option \<Rightarrow> dserror option) \<Rightarrow> 's dataStoreData \<Rightarrow>
   Key list \<Rightarrow> (dserror option list \<times> dserror option \<times> 's dataStoreData) option" where
  "delMulti E cb d keys =
     (case keys of
        [] \<Rightarrow> None
      | k0 # _ \<Rightarrow> del_loop E cb (open_ents E d (Key_Namespace k0)) (Key_Namespace k0) 0 keys)"

section \<open>Transactions\<close>

record txnMutation =
  m_key :: Key
  m_data :: "PropertyMap option"

record 's txnDataStoreData =
  td_closed :: bool
  td_isXG :: bool
  td_snap :: 's
  td_muts :: "(string \<times> txnMutation list) list"

definition xgEGLimit :: nat where "xgEGLimit = 25"

text \<open>\<open>xg\<close> is \<^verbatim>\<open>o != nil && o.XG\<close>.\<close>

definition mkTxn :: "'s dsenv \<Rightarrow> 's dataStoreData \<Rightarrow> bool \<Rightarrow> 's txnDataStoreData" where
  "mkTxn E d xg = \<lparr>td_closed = False, td_isXG = xg, td_snap = takeSnapshot E d, td_muts = []\<rparr>"

definition endTxn :: "'s txnDataStoreData \<Rightarrow> 's txnDataStoreData option" where
  "endTxn td = (if td_closed td then None else Some (td\<lparr>td_closed := True\<rparr>))"

definition writeMutation ::
  "'s dsenv \<Rightarrow> 's txnDataStoreData \<Rightarrow> bool \<Rightarrow> Key \<Rightarrow> PropertyMap option \<Rightarrow> (dserror option \<times> 's txnDataStoreData) option" where
  "writeMutation E td getOnly key data =
     map_option (\<lambda>kb.
       let rk = bytes_str kb;
           limit = (if td_isXG td then xgEGLimit else 1)
       in if map_of (td_muts td) rk = None \<and> length (td_muts td) + 1 > limit
          then (Some (if td_isXG td then ErrTooManyGroups else ErrCrossGroup), td)
          else
            let muts = (if map_of (td_muts td) rk = None then al_set (td_muts td) rk [] else td_muts td);
                muts = (if \<not> getOnly then al_set muts rk (al_get muts rk @ [\<lparr>m_key = key, m_data = data\<rparr>])
                        else muts)
            in (None, td\<lparr>td_muts := muts\<rparr>))
       (keyBytes E (Key_Root key))"

fun txn_putMulti ::
  "'s dsenv \<Rightarrow> 's dataStoreData \<Rightarrow> 's txnDataStoreData \<Rightarrow> Key list \<Rightarrow> PropertyMap option list \<Rightarrow>
   ((Key \<times> dserror option) list \<times> 's dataStoreData \<times> 's txnDataStoreData) option" where
  "txn_putMulti E d td [] vals = Some ([], d, td)"
| "txn_putMulti E d td (k # ks) [] = None"
| "txn_putMulti E d td (k # ks) (v # vals) =
     Option.bind (fixKey E d k) (\<lambda>(r, d).
     Option.bind (case r of
         Inl err \<Rightarrow> Some ((k, Some err), td)
       | Inr k' \<Rightarrow> map_option (\<lambda>(err, td). ((k', err), td)) (writeMutation E td False k' v))
     (\<lambda>(call, td).
       map_option (\<lambda>(calls, d, td). (call # calls, d, td)) (txn_putMulti E d td ks vals)))"

fun touch_all ::
  "'s dsenv \<Rightarrow> 's txnDataStoreData \<Rightarrow> Key list \<Rightarrow> (dserror option \<times> 's txnDataStoreData) option" where
  "touch_all E td [] = Some (None, td)"
| "touch_all E td (k # ks) =
     Option.bind (writeMutation E td True k None) (\<lambda>(err, td).
       case err of Some e \<Rightarrow> Some (Some e, td) | None \<Rightarrow> touch_all E td ks)"

definition txn_getMulti ::
  "'s dsenv \<Rightarrow> 's dataStoreData \<Rightarrow> 's txnDataStoreData \<Rightarrow> Key list \<Rightarrow>
   ((dserror + (dserror + PropertyMap) list) \<times> 's txnDataStoreData) option" where
  "txn_getMulti E d td keys =
     Option.bind (touch_all E td keys) (\<lambda>(err, td).
       case err of
         Some e \<Rightarrow> Some (Inl e, td)
       | None \<Rightarrow>
           (case keys of
              [] \<Rightarrow> None
            | k0 # _ \<Rightarrow>
                map_option (\<lambda>rs. (Inr (map (stripSpecialPropsGetCB d) rs), td))
                  (getMultiInner E keys (ms_GetCollection (e_store E) (td_snap td) (ents_coll (Key_Namespace k0))))))"

fun txn_delMulti ::
  "'s dsenv \<Rightarrow> 's txnDataStoreData \<Rightarrow> Key list \<Rightarrow> (dserror option list \<times> 's txnDataStoreData) option" where
  "txn_delMulti E td [] = Some ([], td)"
| "txn_delMulti E td (k # ks) =
     Option.bind (writeMutation E td False k None) (\<lambda>(err, td).
       map_option (\<lambda>(errs, td). (err # errs, td)) (txn_delMulti E td ks))"

text \<open>\<^verbatim>\<open>run\<close>: the operations of a transaction that has ended fail.\<close>

definition txn_run :: "'s txnDataStoreData \<Rightarrow> 'a option \<Rightarrow> (dserror + 'a) option" where
  "txn_run td f = (if td_closed td then Some (Inl ErrTxnExpired) else map_option Inr f)"

subsection \<open>Commit\<close>

text \<open>The collision check of \<^verbatim>\<open>beginCommit\<close> for one entity group.\<close>

definition group_unchanged :: "'s dsenv \<Rightarrow> 's dataStoreData \<Rightarrow> 's txnDataStoreData \<Rightarrow> txnMutation list \<Rightarrow> bool option" where
  "group_unchanged E d td muts =
     (case muts of
        [] \<Rightarrow> Some True
      | m # _ \<Rightarrow>
          let root = Key_Root (m_key m); entKey = ents_coll (Key_Namespace root) in
          Option.bind (groupMetaKey E root) (\<lambda>mkey.
          Option.bind (curVersion E (ms_GetCollection (e_store E) (head d) entKey) mkey) (\<lambda>vHead.
          Option.bind (curVersion E (ms_GetCollection (e_store E) (td_snap td) entKey) mkey) (\<lambda>vSnap.
            Some (vHead = vSnap)))))"

text \<open>Whether the commit can go ahead; \<open>False\<close> is the nil \<^verbatim>\<open>txnCommitOp\<close>.\<close>

fun check_groups :: "'s dsenv \<Rightarrow> 's dataStoreData \<Rightarrow> 's txnDataStoreData \<Rightarrow> (string \<times> txnMutation list) list \<Rightarrow> bool option" where
  "check_groups E d td [] = Some True"
| "check_groups E d td ((_, muts) # rest) =
     Option.bind (group_unchanged E d td muts) (\<lambda>ok. if ok then check_groups E d td rest else Some False)"

definition ds_beginCommit :: "'s dsenv \<Rightarrow> 's dataStoreData \<Rightarrow> 's txnDataStoreData \<Rightarrow> bool option" where
  "ds_beginCommit E d td = check_groups E d td (td_muts td)"

text \<open>\<^verbatim>\<open>apply\<close>. An error of a single put or delete is \<^verbatim>\<open>impossible\<close>: a panic.\<close>

definition apply_mutation :: "'s dsenv \<Rightarrow> 's dataStoreData \<Rightarrow> txnMutation \<Rightarrow> 's dataStoreData option" where
  "apply_mutation E d m =
     (case m_data m of
        None \<Rightarrow>
          Option.bind (delMulti E (\<lambda>_ e. e) d [m_key m]) (\<lambda>(_, err, d). if err = None then Some d else None)
      | Some pm \<Rightarrow>
          Option.bind (putMulti E (\<lambda>_ _ e. e) d [m_key m] [Some pm]) (\<lambda>(_, err, d).
            if err = None then Some d else None))"

fun apply_mutations :: "'s dsenv \<Rightarrow> 's dataStoreData \<Rightarrow> txnMutation list \<Rightarrow> 's dataStoreData option" where
  "apply_mutations E d [] = Some d"
| "apply_mutations E d (m # ms) = Option.bind (apply_mutation E d m) (\<lambda>d. apply_mutations E d ms)"

text \<open>The range over the map may visit the groups in another order than the check did; \<open>muts\<close> is
  the map in the order visited.\<close>

definition ds_apply :: "'s dsenv \<Rightarrow> 's dataStoreData \<Rightarrow> (string \<times> txnMutation list) list \<Rightarrow> 's dataStoreData option" where
  "ds_apply E d muts = apply_mutations E d (concat (map snd muts))"

end
