(* ===== verification/Index_Rows.thy ===== *)
theory Index_Rows
  imports Datastore_Index
begin

text \<open>
  What the row generator of \<^verbatim>\<open>datastore_index.go\<close> produces: \<open>permute\<close> is the nested loop over
  the values of each column, and rows built from distinct values are distinct and sort
  as the columns do.
\<close>

section \<open>The positions visited\<close>

fun all_positions :: "nat list \<Rightarrow> bool list \<Rightarrow> nat list list" where
  "all_positions (lim # lims) (desc # descs) =
     concat (map (\<lambda>i. map ((#) i) (all_positions lims descs)) (if desc then rev [0..<lim] else [0..<lim]))"
| "all_positions _ _ = [[]]"

fun positions_from :: "nat list \<Rightarrow> nat list \<Rightarrow> bool list \<Rightarrow> nat list list" where
  "positions_from (i # iVec) (lim # lims) (desc # descs) =
     map ((#) i) (positions_from iVec lims descs) @
     concat (map (\<lambda>i. map ((#) i) (all_positions lims descs)) (if desc then rev [0..<i] else [Suc i..<lim]))"
| "positions_from _ _ _ = [[]]"

definition first_position :: "nat list \<Rightarrow> bool list \<Rightarrow> nat list" where
  "first_position lims descs = map (\<lambda>(lim, desc). if desc then lim - 1 else 0) (zip lims descs)"

lemma first_position_simps [simp]:
  "first_position [] descs = []" "first_position lims [] = []"
  "first_position (lim # lims) (desc # descs) = (if desc then lim - 1 else 0) # first_position lims descs"
  by (simp_all add: first_position_def)

lemma positions_from_first:
  "length lims = length descs \<Longrightarrow> 0 \<notin> set lims \<Longrightarrow>
   positions_from (first_position lims descs) lims descs = all_positions lims descs"
proof (induction lims descs rule: list_induct2)
  case (Cons lim lims desc descs)
  then obtain n where n: "lim = Suc n" by (cases lim) auto
  show ?case
  proof (cases desc)
    case True
    then show ?thesis using Cons n by simp
  next
    case False
    then show ?thesis using Cons n upt_conv_Cons [of 0 lim] by (simp del: upt_Suc)
  qed
qed simp

lemma incPos_end:
  "list_all2 (<) iVec lims \<Longrightarrow> length lims = length descs \<Longrightarrow>
   incPos iVec lims descs = (iVec', False) \<Longrightarrow>
   iVec' = first_position lims descs \<and> positions_from iVec lims descs = [iVec]"
proof (induction iVec lims descs arbitrary: iVec' rule: incPos.induct [case_names step])
  case (step i iVec lim lims desc descs)
  obtain jVec again where j: "incPos iVec lims descs = (jVec, again)" by force
  then show ?case
    using step by (cases again; cases desc; cases "Suc i = lim") (auto split: if_splits)
qed auto

lemma positions_from_step:
  "list_all2 (<) iVec lims \<Longrightarrow> length lims = length descs \<Longrightarrow>
   incPos iVec lims descs = (iVec', True) \<Longrightarrow>
   positions_from iVec lims descs = iVec # positions_from iVec' lims descs"
proof (induction iVec lims descs arbitrary: iVec' rule: incPos.induct [case_names step])
  case (step i iVec lim lims desc descs)
  have r: "i < lim" "list_all2 (<) iVec lims" "length lims = length descs" using step.prems by auto
  obtain jVec again where j: "incPos iVec lims descs = (jVec, again)" by force
  show ?case
  proof (cases again)
    case True
    then show ?thesis using step.IH [OF r(2,3)] step.prems(3) j by auto
  next
    case False
    have "0 \<notin> set lims" using r(2) by (auto simp: list_all2_conv_all_nth in_set_conv_nth)
    then have first: "positions_from jVec lims descs = all_positions lims descs"
      "positions_from iVec lims descs = [iVec]"
      using incPos_end [OF r(2,3)] j False r(3) positions_from_first by auto
    show ?thesis
    proof (cases desc)
      case True
      then obtain n where "i = Suc n" "iVec' = n # jVec" using step.prems(3) j False by (cases i) auto
      then show ?thesis using first True by simp
    next
      case desc: False
      then have n: "Suc i < lim" "iVec' = Suc i # jVec"
        using step.prems(3) j False r(1) by (auto simp: mod_Suc split: if_splits)
      then show ?thesis using first desc upt_conv_Cons [of "Suc i" lim] by simp
    qed
  qed
qed auto

section \<open>The rows\<close>

text \<open>A nested loop over the values of each column; descending columns run backwards over the
  inverted bytes.\<close>

definition column_bytes :: "bool \<Rightarrow> byte list \<Rightarrow> byte list" where
  "column_bytes desc v = (if desc then Invert v else v)"

fun index_rows :: "byte list list list \<Rightarrow> bool list \<Rightarrow> byte list list" where
  "index_rows (sps # vec) (desc # descs) =
     concat (map (\<lambda>v. map ((@) (column_bytes desc v)) (index_rows vec descs)) (if desc then rev sps else sps))"
| "index_rows _ _ = [[]]"

fun row_at :: "byte list list list \<Rightarrow> bool list \<Rightarrow> nat list \<Rightarrow> byte list" where
  "row_at (sps # vec) (desc # descs) (i # iVec) = column_bytes desc (sps ! i) @ row_at vec descs iVec"
| "row_at _ _ _ = []"

lemma ib_Write_SetInvert:
  "WriteBuffer (ib_Write (ib_SetInvert buf desc) v) = WriteBuffer buf @ column_bytes desc v"
proof -
  have "foldl (\<lambda>ib b. ib\<lparr>WriteBuffer := WriteBuffer ib @ [b XOR 0xFF]\<rparr>) ib v =
      ib\<lparr>WriteBuffer := WriteBuffer ib @ Invert v\<rparr>" for ib :: invertibleBuffer
    by (induction v arbitrary: ib) (simp_all add: Invert_map xor.commute)
  then show ?thesis by (simp add: ib_Write_def ib_SetInvert_def column_bytes_def)
qed

lemma permute_write_at:
  "list_all2 (<) iVec (map length vec) \<Longrightarrow> length vec = length descs \<Longrightarrow>
   \<exists>buf'. permute_write buf vec descs iVec = Some buf' \<and> WriteBuffer buf' = WriteBuffer buf @ row_at vec descs iVec"
proof (induction buf vec descs iVec rule: permute_write.induct [case_names step])
  case (step buf sps vec desc descs i iVec)
  then show ?case by (auto simp: ib_Write_SetInvert)
qed auto

lemma rows_at_all_positions:
  "length vec = length descs \<Longrightarrow>
   map (row_at vec descs) (all_positions (map length vec) descs) = index_rows vec descs"
proof (induction vec descs rule: list_induct2)
  case (Cons sps vec desc descs)
  define c where "c i = map ((@) (column_bytes desc (sps ! i))) (index_rows vec descs)" for i
  have inner: "map (row_at (sps # vec) (desc # descs)) (map ((#) i) (all_positions (map length vec) descs)) = c i" for i
    by (simp add: c_def comp_def flip: Cons.IH)
  let ?is = "if desc then rev [0..<length sps] else [0..<length sps]"
  have "(if desc then rev sps else sps) = map ((!) sps) ?is"
    by (simp add: map_nth flip: rev_map)
  then have "index_rows (sps # vec) (desc # descs) = concat (map c ?is)"
    by (simp only: index_rows.simps map_map comp_def c_def [abs_def])
  then show ?case
    by (simp only: all_positions.simps list.map(2) map_concat map_map comp_def inner [unfolded map_map comp_def])
qed simp

lemma permute_loop_rows:
  "length (propVec s) = length (decending s) \<Longrightarrow> list_all2 (<) iVec (map length (propVec s)) \<Longrightarrow>
    permute_loop s iVec =
      Some (map (row_at (propVec s) (decending s)) (positions_from iVec (map length (propVec s)) (decending s)))"
proof (induction s iVec rule: permute_loop.induct [case_names step])
  case (step s iVec)
  have row: "permute_row s iVec = Some (row_at (propVec s) (decending s) iVec)"
    using permute_write_at [OF step.prems(2,1), of "Invertible []"] by (auto simp: permute_row_def Invertible_def)
  obtain iVec' again where inc: "incPos iVec (map length (propVec s)) (decending s) = (iVec', again)" by force
  show ?case
  proof (cases again)
    case True
    with inc have inc': "incPos iVec (map length (propVec s)) (decending s) = (iVec', True)" by simp
    have "list_all2 (<) iVec' (map length (propVec s))"
      using incPos_positions [OF step.prems(2) _ inc] step.prems(1) by simp
    then show ?thesis
      using step.IH [OF row inc [symmetric]] step.prems True inc row
        positions_from_step [OF step.prems(2) _ inc']
      by (simp add: permute_loop.simps [of s iVec])
  next
    case False
    with inc have inc': "incPos iVec (map length (propVec s)) (decending s) = (iVec', False)" by simp
    then show ?thesis
      using incPos_end [OF step.prems(2) _ inc'] step.prems(1) row
      by (simp add: permute_loop.simps [of s iVec])
  qed
qed

lemma permute_eq:
  assumes "length (propVec s) = length (decending s)" "[] \<notin> set (propVec s)"
  shows "permute s = Some (index_rows (propVec s) (decending s))"
proof -
  let ?lims = "map length (propVec s)"
  have first: "map (\<lambda>(sps, desc). if desc then length sps - 1 else 0) (zip (propVec s) (decending s)) =
      first_position ?lims (decending s)"
    by (simp add: first_position_def zip_map1 comp_def case_prod_beta')
  have "list_all2 (<) (first_position ?lims (decending s)) ?lims"
    using assms by (auto simp: list_all2_conv_all_nth first_position_def in_set_conv_nth)
  moreover have "0 \<notin> set ?lims" using assms(2) by auto
  ultimately show ?thesis
    using assms(1) positions_from_first [of ?lims "decending s"]
    by (simp add: permute_def first permute_loop_rows rows_at_all_positions)
qed

lemma set_index_rows_Cons:
  "r \<in> set (index_rows (sps # vec) (desc # descs)) \<longleftrightarrow>
     (\<exists>v \<in> set sps. \<exists>r' \<in> set (index_rows vec descs). r = column_bytes desc v @ r')"
  by auto

text \<open>Columns whose encodings are strictly ordered give strictly ordered rows.\<close>

lemma column_bytes_sless: "sless a b \<Longrightarrow> (if desc then sless (column_bytes desc b) (column_bytes desc a)
    else sless (column_bytes desc a) (column_bytes desc b))"
  by (simp add: column_bytes_def Invert_sless)

lemma append_less_cancel: "(p @ u < p @ v) \<longleftrightarrow> u < (v :: byte list)"
  by (induction p) simp_all

lemma sorted_wrt_concat:
  "sorted_wrt R (concat xss) \<longleftrightarrow>
     (\<forall>xs \<in> set xss. sorted_wrt R xs) \<and> sorted_wrt (\<lambda>xs ys. \<forall>x \<in> set xs. \<forall>y \<in> set ys. R x y) xss"
  by (induction xss) (auto simp: sorted_wrt_append)

lemma index_rows_sorted:
  "length vec = length descs \<Longrightarrow> \<forall>sps \<in> set vec. sorted_wrt sless sps \<Longrightarrow>
   sorted_wrt (<) (index_rows vec descs)"
proof (induction vec descs rule: list_induct2)
  case (Cons sps vec desc descs)
  let ?vs = "if desc then rev sps else sps" and ?f = "column_bytes desc"
  have "sorted_wrt (\<lambda>a b. sless (?f a) (?f b)) ?vs"
  proof (cases desc)
    case True
    have "sorted_wrt (\<lambda>a b. sless (?f b) (?f a)) sps"
      using Cons.prems True column_bytes_sless [where desc = desc] by (auto intro: sorted_wrt_mono_rel)
    then show ?thesis using True by (simp add: sorted_wrt_rev)
  next
    case False
    then show ?thesis
      using Cons.prems column_bytes_sless [where desc = desc] by (auto intro: sorted_wrt_mono_rel)
  qed
  then have "sorted_wrt (\<lambda>a b. \<forall>x \<in> set (index_rows vec descs). \<forall>y \<in> set (index_rows vec descs). ?f a @ x < ?f b @ y) ?vs"
    by (rule sorted_wrt_mono_rel [rotated]) (simp add: sless_less)
  moreover have "sorted_wrt (<) (index_rows vec descs)" using Cons by simp
  ultimately show ?case
    by (simp add: sorted_wrt_concat sorted_wrt_map append_less_cancel)
qed simp

section \<open>Rows determine their columns\<close>

text \<open>No encoding is a proper prefix of another.\<close>

definition prefix_free :: "byte list set \<Rightarrow> bool" where
  "prefix_free A \<longleftrightarrow> (\<forall>a \<in> A. \<forall>b \<in> A. \<forall>u v. a @ u = b @ v \<longrightarrow> a = b)"

lemma Invert_append_eq: "Invert a @ u = Invert b @ v \<Longrightarrow> a @ Invert u = b @ Invert v"
proof -
  have inv: "Invert (x @ y) = Invert x @ Invert y" "Invert (Invert x) = x" for x y
    by (simp_all add: Invert_map comp_def flip: xor.assoc)
  assume "Invert a @ u = Invert b @ v"
  then have "Invert (Invert a @ u) = Invert (Invert b @ v)" by simp
  then show ?thesis by (simp only: inv)
qed

lemma prefix_free_column:
  assumes "prefix_free A" "a \<in> A" "b \<in> A" "column_bytes desc a @ u = column_bytes desc b @ v"
  shows "a = b \<and> u = v"
proof -
  have "\<exists>u' v'. a @ u' = b @ v'"
  proof (cases desc)
    case True
    with assms(4) have "Invert a @ u = Invert b @ v" by (simp add: column_bytes_def)
    from Invert_append_eq [OF this] show ?thesis by blast
  next
    case False
    with assms(4) show ?thesis by (auto simp: column_bytes_def)
  qed
  then have "a = b" using assms unfolding prefix_free_def by blast
  then show ?thesis using assms(4) by simp
qed

text \<open>So a row common to two entities has the same value in every column of both.\<close>

lemma common_row:
  "length vec = length descs \<Longrightarrow> length wec = length descs \<Longrightarrow>
   (\<And>sps. sps \<in> set vec \<union> set wec \<Longrightarrow> set sps \<subseteq> A) \<Longrightarrow> prefix_free A \<Longrightarrow>
   r \<in> set (index_rows vec descs) \<Longrightarrow> r \<in> set (index_rows wec descs) \<Longrightarrow>
   list_all2 (\<lambda>sps sps'. set sps \<inter> set sps' \<noteq> {}) vec wec"
proof (induction vec descs arbitrary: wec r rule: list_induct2)
  case (Cons sps vec desc descs)
  then obtain sps' wec' where wec: "wec = sps' # wec'" by (cases wec) auto
  obtain v r' where v: "v \<in> set sps" "r' \<in> set (index_rows vec descs)" "r = column_bytes desc v @ r'"
    using Cons.prems(4) unfolding set_index_rows_Cons by blast
  obtain w s' where w: "w \<in> set sps'" "s' \<in> set (index_rows wec' descs)" "r = column_bytes desc w @ s'"
    using Cons.prems(5) unfolding wec set_index_rows_Cons by blast
  have "v \<in> A" "w \<in> A" using v(1) w(1) Cons.prems(2) [of sps] Cons.prems(2) [of sps'] wec by auto
  then have "v = w" "r' = s'" using prefix_free_column [OF Cons.prems(3)] v(3) w(3) by metis+
  moreover have "list_all2 (\<lambda>sps sps'. set sps \<inter> set sps' \<noteq> {}) vec wec'"
    using Cons.prems wec v(2) w(2) \<open>r' = s'\<close> by (intro Cons.IH [of wec' r']) auto
  ultimately show ?case using wec v(1) w(1) by auto
qed simp

section \<open>The rows of an entity in an index\<close>

lemma length_index_rows: "length vec = length descs \<Longrightarrow> length (index_rows vec descs) = prod_list (map length vec)"
  by (induction vec descs rule: list_induct2) (simp_all add: length_concat comp_def sum_list_triv)

lemma set_index_rows:
  "length vec = length descs \<Longrightarrow>
   set (index_rows vec descs) = {concat (map2 column_bytes descs vs) | vs. list_all2 (\<lambda>v sps. v \<in> set sps) vs vec}"
proof (induction vec descs rule: list_induct2)
  case (Cons sps vec desc descs)
  show ?case
  proof (intro set_eqI iffI)
    fix r assume "r \<in> set (index_rows (sps # vec) (desc # descs))"
    then obtain v vs where "v \<in> set sps" "list_all2 (\<lambda>v sps. v \<in> set sps) vs vec"
      "r = column_bytes desc v @ concat (map2 column_bytes descs vs)"
      unfolding set_index_rows_Cons Cons.IH by blast
    then show "r \<in> {concat (map2 column_bytes (desc # descs) vs) | vs. list_all2 (\<lambda>v sps. v \<in> set sps) vs (sps # vec)}"
      by (intro CollectI exI [of _ "v # vs"]) simp
  next
    fix r assume "r \<in> {concat (map2 column_bytes (desc # descs) vs) | vs. list_all2 (\<lambda>v sps. v \<in> set sps) vs (sps # vec)}"
    then show "r \<in> set (index_rows (sps # vec) (desc # descs))"
      unfolding set_index_rows_Cons Cons.IH by (fastforce simp: list_all2_Cons2)
  qed
qed simp

text \<open>
  C27. \<^verbatim>\<open>permute\<close> visits every combination of one value per column exactly once (a row for each, with the
  bytes of the descending columns inverted), and never indexes out of range. The rows come in
  ascending order when the values of each column do; as \<^verbatim>\<open>serialize.PropertySlice\<close> keeps
  the order in which the user listed the values, that is a condition on the entity, not a
  guarantee of \<^verbatim>\<open>permute\<close>.
\<close>

theorem permute_rows:
  assumes "length (propVec s) = length (decending s)" "[] \<notin> set (propVec s)"
  shows "\<exists>rs. permute s = Some rs \<and> length rs = prod_list (map length (propVec s)) \<and>
    set rs = {concat (map2 column_bytes (decending s) vs) | vs. list_all2 (\<lambda>v sps. v \<in> set sps) vs (propVec s)} \<and>
    ((\<forall>sps \<in> set (propVec s). sorted_wrt sless sps) \<longrightarrow> sorted_wrt (<) rs)"
  using permute_eq [OF assms] length_index_rows [OF assms(1)] set_index_rows [OF assms(1)]
    index_rows_sorted [OF assms(1)] by (intro exI conjI impI) simp_all

theorem permute_rows_witness:
  "\<exists>rs. permute \<lparr>propVec = [[[2], [1]], [[7]]], decending = [False, True]\<rparr> = Some rs \<and> length rs = 2 \<and>
    rs = [[2, 0xF8], [1, 0xF8]]"
proof -
  obtain rs where "permute \<lparr>propVec = [[[2], [1]], [[7]]], decending = [False, True]\<rparr> = Some rs" "length rs = 2"
    using permute_rows [of "\<lparr>propVec = [[[2], [1]], [[7]]], decending = [False, True]\<rparr>"] by auto
  moreover have "permute \<lparr>propVec = [[[2], [1]], [[7]]], decending = [False, True]\<rparr> = Some [[2, 0xF8], [1, 0xF8]]"
    by (subst permute_eq) (simp_all add: column_bytes_def Invert_map)
  ultimately show ?thesis by simp
qed

end
