(* ===== verification/Index_Store.thy ===== *)
theory Index_Store
  imports Index_Rows
begin

text \<open>
  The effect of the index functions on the store: which rows the index entries of an entity have,
  and that \<^verbatim>\<open>mergeIndexes\<close> takes the old rows out, puts the new ones in and touches nothing else.
\<close>

section \<open>The rows of an entity\<close>

text \<open>The rows that a definition gives an entity of a kind, if it applies to it.\<close>

definition def_rows :: "string \<Rightarrow> SerializedPmap \<Rightarrow> IndexDefinition \<Rightarrow> byte list list option" where
  "def_rows kind sip idx =
     (let idx = Normalize idx in
      if ix_Kind idx \<noteq> '''' \<and> ix_Kind idx \<noteq> kind then None
      else map_option (\<lambda>g. index_rows (propVec g) (decending g)) (matcher_match (GetFullSortOrder idx) sip))"

definition idx_bin :: "cmpbin \<Rightarrow> IndexDefinition \<Rightarrow> byte list" where
  "idx_bin C idx = WriteIndexDefinition C (PrepForIdxTable (Normalize idx))"

text \<open>The rows that a list of definitions gives it in the table of the index \<open>b\<close>.\<close>

definition entry_rows :: "cmpbin \<Rightarrow> string \<Rightarrow> SerializedPmap \<Rightarrow> IndexDefinition list \<Rightarrow> byte list \<Rightarrow> byte list set" where
  "entry_rows C kind sip idxs b =
     {r. \<exists>i \<in> set idxs. \<exists>rs. def_rows kind sip i = Some rs \<and> idx_bin C i = b \<and> r \<in> set rs}"

definition sip_ok :: "SerializedPmap \<Rightarrow> bool" where
  "sip_ok sip \<longleftrightarrow> (\<forall>n. sip n \<noteq> Some [])"

lemma matcher_match_eq:
  "matcher_match cols sip =
     (if \<forall>c \<in> set cols. sip (col_Property c) \<noteq> None
      then Some \<lparr>propVec = map (\<lambda>c. the (sip (col_Property c))) cols, decending = map Descending cols\<rparr>
      else None)"
  by (induction cols) (auto split: option.splits)

lemma matcher_match_props:
  assumes "matcher_match cols sip = Some g" "sip_ok sip"
  shows "length (propVec g) = length (decending g)" "[] \<notin> set (propVec g)"
  using assms by (auto simp: matcher_match_eq sip_ok_def split: if_splits) (metis option.collapse option.distinct(1))

lemma PropertyMapPartially_ok: "sip_ok (PropertyMapPartially C (Some k) pm)"
proof -
  have "PropertyMapPartially C (Some k) [] n \<noteq> Some []" for n
    by (subst PropertyMapPartially_def) (simp add: ancestor_chain.simps [of k])
  then show ?thesis unfolding sip_ok_def by (subst PropertyMapPartially_lookup) auto
qed

section \<open>The environment\<close>

locale ds_env = treap "e_store E" for E :: "'s dsenv" +
  assumes cmpbin_reads: "cmpbin_ok (e_cmpbin E)"
    and cmpbin_sorts: "cmpbin_sorted (e_cmpbin E)"
    and sha256_size: "length (e_sha256 E b) = 32"
begin

abbreviation T where "T \<equiv> e_store E"
abbreviation C where "C \<equiv> e_cmpbin E"

text \<open>The keys of a collection.\<close>

definition rows :: "'s \<Rightarrow> string \<Rightarrow> byte list set" where
  "rows s n = (if has s n then dom (get s n) else {})"

lemma rows_New [simp]: "rows (ts_New T) n = {}"
  by (simp add: rows_def)

lemma rows_Snapshot [simp]: "rows (ms_Snapshot T s) = rows s"
  by (simp add: rows_def fun_eq_iff)

lemma rows_GetOrCreate [simp]: "rw s \<Longrightarrow> rows (ms_GetOrCreateCollection T s n) = rows s"
  by (auto simp: rows_def fun_eq_iff)

lemma rows_Put [simp]: "rw s \<Longrightarrow> has s n \<Longrightarrow> rows (tc_Put T s n (k, v)) = (rows s)(n := insert k (rows s n))"
  by (auto simp: rows_def fun_eq_iff)

lemma rows_Delete [simp]: "rw s \<Longrightarrow> has s n \<Longrightarrow> rows (tc_Delete T s n k) = (rows s)(n := rows s n - {k})"
  by (auto simp: rows_def fun_eq_iff)

lemma coll_set_rows:
  assumes "rw s" "has s n"
  shows "rw (coll_set_rows T n rs s) \<and> has (coll_set_rows T n rs s) = has s \<and>
    rows (coll_set_rows T n rs s) = (rows s)(n := rows s n \<union> set rs) \<and>
    (\<forall>m. m \<noteq> n \<longrightarrow> get (coll_set_rows T n rs s) m = get s m)"
  using assms
proof (induction rs arbitrary: s)
  case Nil
  then show ?case by (simp add: coll_set_rows_def fun_upd_idem)
next
  case (Cons r rs)
  have "coll_set_rows T n (r # rs) s = coll_set_rows T n rs (tc_Put T s n (r, []))"
    by (simp add: coll_set_rows_def)
  then show ?case using Cons.IH [of "tc_Put T s n (r, [])"] Cons.prems by (auto simp: fun_eq_iff)
qed

lemma coll_del_rows:
  assumes "rw s" "has s n"
  shows "rw (coll_del_rows T n rs s) \<and> has (coll_del_rows T n rs s) = has s \<and>
    rows (coll_del_rows T n rs s) = (rows s)(n := rows s n - set rs) \<and>
    (\<forall>m. m \<noteq> n \<longrightarrow> get (coll_del_rows T n rs s) m = get s m)"
  using assms
proof (induction rs arbitrary: s)
  case Nil
  then show ?case by (simp add: coll_del_rows_def fun_upd_idem)
next
  case (Cons r rs)
  have "coll_del_rows T n (r # rs) s = coll_del_rows T n rs (tc_Delete T s n r)"
    by (simp add: coll_del_rows_def)
  then show ?case using Cons.IH [of "tc_Delete T s n r"] Cons.prems by (auto simp: fun_eq_iff)
qed

section \<open>Merging\<close>

text \<open>What \<^verbatim>\<open>indexEntries\<close> returns: the collection \<^verbatim>\<open>idx\<close> names the collections of rows.\<close>

definition index_store :: "string \<Rightarrow> 's \<Rightarrow> bool" where
  "index_store ns s \<longleftrightarrow>
     (\<forall>b. b \<in> rows s ''idx'' \<longrightarrow> has s (idx_coll ns b)) \<and>
     (\<forall>b. rows s (idx_coll ns b) \<noteq> {} \<longrightarrow> b \<in> rows s ''idx'')"

lemma index_store_New [simp]: "index_store ns (ts_New T)"
  by (simp add: index_store_def)

lemma index_store_Snapshot [simp]: "index_store ns (ms_Snapshot T s) \<longleftrightarrow> index_store ns s"
  by (simp add: index_store_def)

lemma idx_coll_inj [simp]: "idx_coll ns a = idx_coll ns b \<longleftrightarrow> a = b"
  by (auto simp: idx_coll_def dest: arg_cong [of _ _ str_bytes])

lemma idx_coll_neq [simp]: "idx_coll ns b \<noteq> ''idx''" "''idx'' \<noteq> idx_coll ns b"
  by (simp_all add: idx_coll_def)

lemma coll_map_GetCollection: "coll_map (ms_GetCollection T s n) k \<noteq> None \<longleftrightarrow> k \<in> rows s n"
  by (auto simp: coll_map_def ms_GetCollection_def rows_def)

lemma coll_map_None: "coll_map (ms_GetCollection T s n) k = None \<longleftrightarrow> k \<notin> rows s n"
  using coll_map_GetCollection by blast

lemma coll_map_Some: "(\<exists>v. coll_map (ms_GetCollection T s n) k = Some v) \<longleftrightarrow> k \<in> rows s n"
  using coll_map_GetCollection by (metis not_None_eq)

text \<open>What \<^verbatim>\<open>memStoreCollide\<close> reports of two collections of the same name.\<close>

definition colliding :: "'s \<Rightarrow> 's \<Rightarrow> string \<Rightarrow> collision \<Rightarrow> bool" where
  "colliding old new n c \<longleftrightarrow>
     fst (snd c) = coll_map (ms_GetCollection T old n) (fst c) \<and>
     snd (snd c) = coll_map (ms_GetCollection T new n) (fst c) \<and> fst c \<in> rows old n \<union> rows new n"

lemma colliding_sides:
  assumes "colliding old new n (k, ov, nv)"
  shows "ov = None \<longleftrightarrow> k \<notin> rows old n" "nv = None \<longleftrightarrow> k \<notin> rows new n" "k \<in> rows old n \<union> rows new n"
  using assms by (simp_all add: colliding_def coll_map_None)

lemma colliding_ex: "(\<exists>ov nv. colliding old new n (k, ov, nv)) \<longleftrightarrow> k \<in> rows old n \<union> rows new n"
  by (simp add: colliding_def)

lemma collide_rows:
  assumes "ts_IsReadOnly T old" "ts_IsReadOnly T new"
  obtains cs where "memStoreCollide T (ms_GetCollection T old n) (ms_GetCollection T new n) = Some cs"
    "distinct (map fst cs)" "\<And>c. c \<in> set cs \<longleftrightarrow> colliding old new n c"
    "set (map fst cs) = rows old n \<union> rows new n"
proof -
  have "coll_ready (ms_GetCollection T s n)" if "ts_IsReadOnly T s" for s
    using that by (auto simp: coll_ready_def ms_GetCollection_def)
  then obtain cs where cs: "memStoreCollide T (ms_GetCollection T old n) (ms_GetCollection T new n) = Some cs"
    "sorted_wrt (<) (map fst cs)"
    "\<And>k ov nv. (k, ov, nv) \<in> set cs \<longleftrightarrow> ov = coll_map (ms_GetCollection T old n) k \<and>
      nv = coll_map (ms_GetCollection T new n) k \<and> (ov \<noteq> None \<or> nv \<noteq> None)"
    using collide [of "ms_GetCollection T old n" "ms_GetCollection T new n"] assms by metis
  have c: "(k, ov, nv) \<in> set cs \<longleftrightarrow> colliding old new n (k, ov, nv)" for k ov nv
    by (simp only: cs(3) colliding_def fst_conv snd_conv Un_iff coll_map_GetCollection [symmetric]) blast
  have "k \<in> set (map fst cs) \<longleftrightarrow> (\<exists>ov nv. (k, ov, nv) \<in> set cs)" for k by force
  then have "set (map fst cs) = rows old n \<union> rows new n" unfolding c colliding_ex by blast
  moreover have "distinct (map fst cs)" using cs(2) strict_sorted_iff by blast
  ultimately show ?thesis using that cs(1) c by (metis prod_cases3)
qed

definition merge_fold :: "string \<Rightarrow> 's \<Rightarrow> collision list \<Rightarrow> 's" where
  "merge_fold ks s cs = foldl (\<lambda>s (k, ov, nv). case nv of
       None \<Rightarrow> tc_Delete T s ks k | Some _ \<Rightarrow> tc_Put T s ks (k, [])) s cs"

lemma merge_fold:
  assumes "rw s" "has s n" "distinct (map fst cs)"
  shows "rw (merge_fold n s cs) \<and> has (merge_fold n s cs) = has s \<and>
    rows (merge_fold n s cs) = (rows s)(n := rows s n -
      {k. \<exists>ov. (k, ov, None) \<in> set cs} \<union> {k. \<exists>ov v. (k, ov, Some v) \<in> set cs}) \<and>
    (\<forall>m. m \<noteq> n \<longrightarrow> get (merge_fold n s cs) m = get s m)"
  using assms
proof (induction cs arbitrary: s)
  case Nil
  then show ?case by (simp add: merge_fold_def fun_upd_idem)
next
  case (Cons c cs)
  obtain k ov nv where c: "c = (k, ov, nv)" by (cases c)
  have dist: "(k, x) \<notin> set cs" for x using Cons.prems c by (force simp: image_iff)
  show ?case
  proof (cases nv)
    case None
    have "merge_fold n s (c # cs) = merge_fold n (tc_Delete T s n k) cs" using c None by (simp add: merge_fold_def)
    then show ?thesis using Cons.IH [of "tc_Delete T s n k"] Cons.prems c None dist by (auto simp: fun_eq_iff)
  next
    case (Some v)
    have "merge_fold n s (c # cs) = merge_fold n (tc_Put T s n (k, [])) cs" using c Some by (simp add: merge_fold_def)
    then show ?thesis using Cons.IH [of "tc_Put T s n (k, [])"] Cons.prems c Some dist by (auto simp: fun_eq_iff)
  qed
qed

text \<open>One collision of the outer loop.\<close>

lemma merge_index:
  assumes ro: "ts_IsReadOnly T old" "ts_IsReadOnly T new" and st: "index_store ns old" "index_store ns new"
    and s: "rw s" and c: "colliding old new ''idx'' (k, ov, nv)"
  obtains s' where "merge_index E ns old new s (k, ov, nv) = Some s'" "rw s'"
    "has s' = (has s)(idx_coll ns k := True)"
    "rows s' = (rows s)(idx_coll ns k := rows s (idx_coll ns k) - rows old (idx_coll ns k) \<union> rows new (idx_coll ns k))"
    "\<And>m. m \<noteq> idx_coll ns k \<Longrightarrow> get s' m = get s m"
proof -
  let ?n = "idx_coll ns k"
  define s1 where "s1 = ms_GetOrCreateCollection T s ?n"
  have s1: "rw s1" "has s1 ?n" "rows s1 = rows s" "has s1 = (has s)(?n := True)"
    "\<And>m. m \<noteq> ?n \<Longrightarrow> get s1 m = get s m" using s by (auto simp: s1_def)
  note o' = colliding_sides [OF c]
  have old: "k \<in> rows old ''idx'' \<Longrightarrow> has old ?n" "k \<notin> rows old ''idx'' \<Longrightarrow> rows old ?n = {}"
    using st(1) unfolding index_store_def by blast+
  have new: "k \<in> rows new ''idx'' \<Longrightarrow> has new ?n" "k \<notin> rows new ''idx'' \<Longrightarrow> rows new ?n = {}"
    using st(2) unfolding index_store_def by blast+
  have items: "has x m \<Longrightarrow> set (map fst (coll_ForEachItem T (x, m))) = rows x m" for x m
    by (auto simp: ForEach rows_def image_def)
  consider v where "ov = None" "nv = Some v" | v where "ov = Some v" "nv = None"
    | v w where "ov = Some v" "nv = Some w" using o' by fastforce
  then show ?thesis
  proof cases
    case 1
    define rs where "rs = map fst (coll_ForEachItem T (new, ?n))"
    have "merge_index E ns old new s (k, ov, nv) = Some (coll_set_rows T ?n rs s1)"
      using 1 o' new(1) by (simp add: merge_index_def ms_GetCollection_def Let_def rs_def flip: s1_def)
    moreover have "set rs = rows new ?n" "rows old ?n = {}"
      using 1 o' items [of new ?n] new(1) old(2) by (auto simp: rs_def)
    ultimately show ?thesis
      using that [of "coll_set_rows T ?n rs s1"] coll_set_rows [OF s1(1,2), of rs] s1 by simp
  next
    case 2
    define rs where "rs = map fst (coll_ForEachItem T (old, ?n))"
    have "merge_index E ns old new s (k, ov, nv) = Some (coll_del_rows T ?n rs s1)"
      using 2 o' old(1) by (simp add: merge_index_def ms_GetCollection_def Let_def rs_def flip: s1_def)
    moreover have "set rs = rows old ?n" "rows new ?n = {}"
      using 2 o' items [of old ?n] old(1) new(2) by (auto simp: rs_def)
    ultimately show ?thesis
      using that [of "coll_del_rows T ?n rs s1"] coll_del_rows [OF s1(1,2), of rs] s1 by simp
  next
    case 3
    obtain cs where cs: "memStoreCollide T (ms_GetCollection T old ?n) (ms_GetCollection T new ?n) = Some cs"
      "distinct (map fst cs)" "\<And>c. c \<in> set cs \<longleftrightarrow> colliding old new ?n c" using collide_rows [OF ro] by metis
    have sets: "{k. \<exists>ov. (k, ov, None) \<in> set cs} = rows old ?n - rows new ?n"
      "{k. \<exists>ov v. (k, ov, Some v) \<in> set cs} = rows new ?n"
      unfolding cs(3) colliding_def fst_conv snd_conv set_eq_iff mem_Collect_eq Diff_iff Un_iff
      by (metis coll_map_None) (metis coll_map_None option.exhaust option.distinct(1))
    have "merge_index E ns old new s (k, ov, nv) = Some (merge_fold ?n s1 cs)"
      using 3 cs(1) by (simp add: merge_index_def Let_def merge_fold_def flip: s1_def)
    moreover have "rows s ?n - (rows old ?n - rows new ?n) \<union> rows new ?n = rows s ?n - rows old ?n \<union> rows new ?n"
      by blast
    ultimately show ?thesis
      using that [of "merge_fold ?n s1 cs"] merge_fold [OF s1(1,2) cs(2)] s1 unfolding sets by simp
  qed
qed

lemma merge_loop:
  assumes ro: "ts_IsReadOnly T old" "ts_IsReadOnly T new" and st: "index_store ns old" "index_store ns new"
    and s: "rw s" and dist: "distinct (map fst cs)" and cs: "\<And>c. c \<in> set cs \<Longrightarrow> colliding old new ''idx'' c"
  shows "\<exists>s'. merge_loop E ns old new s cs = Some s' \<and> rw s' \<and>
    (\<forall>n. has s' n \<longleftrightarrow> has s n \<or> n \<in> idx_coll ns ` set (map fst cs)) \<and>
    (\<forall>n. rows s' n = (if n \<in> idx_coll ns ` set (map fst cs) then rows s n - rows old n \<union> rows new n else rows s n)) \<and>
    (\<forall>n. n \<notin> range (idx_coll ns) \<longrightarrow> get s' n = get s n)"
  using s dist cs
proof (induction cs arbitrary: s)
  case (Cons c cs)
  obtain k ov nv where c: "c = (k, ov, nv)" by (cases c)
  have "colliding old new ''idx'' (k, ov, nv)" using Cons.prems(3) c by simp
  then obtain s1 where s1: "merge_index E ns old new s (k, ov, nv) = Some s1" "rw s1"
    "has s1 = (has s)(idx_coll ns k := True)"
    "rows s1 = (rows s)(idx_coll ns k := rows s (idx_coll ns k) - rows old (idx_coll ns k) \<union> rows new (idx_coll ns k))"
    "\<And>m. m \<noteq> idx_coll ns k \<Longrightarrow> get s1 m = get s m"
    using merge_index [OF ro st Cons.prems(1)] by metis
  obtain s' where s': "merge_loop E ns old new s1 cs = Some s'" "rw s'"
    "\<forall>n. has s' n \<longleftrightarrow> has s1 n \<or> n \<in> idx_coll ns ` set (map fst cs)"
    "\<forall>n. rows s' n = (if n \<in> idx_coll ns ` set (map fst cs) then rows s1 n - rows old n \<union> rows new n else rows s1 n)"
    "\<forall>n. n \<notin> range (idx_coll ns) \<longrightarrow> get s' n = get s1 n"
    using Cons.IH [OF s1(2)] Cons.prems(2,3) by auto
  have "idx_coll ns k \<notin> idx_coll ns ` set (map fst cs)" using Cons.prems(2) c by force
  moreover have "get s1 n = get s n" if "n \<notin> range (idx_coll ns)" for n using s1(5) that by blast
  ultimately show ?case using s1 s' c by auto
qed simp

lemma mergeIndexes:
  assumes "index_store ns old" "index_store ns new" "rw s"
  obtains s' where "mergeIndexes E ns s old new = Some s'" "rw s'" "\<And>n. has s n \<Longrightarrow> has s' n"
    "\<And>n. n \<notin> range (idx_coll ns) \<Longrightarrow> has s' n = has s n \<and> get s' n = get s n"
    "\<And>b. rows s' (idx_coll ns b) = rows s (idx_coll ns b) - rows old (idx_coll ns b) \<union> rows new (idx_coll ns b)"
proof -
  define o' n' where "o' = ms_Snapshot T old" and "n' = ms_Snapshot T new"
  have on: "ts_IsReadOnly T o'" "ts_IsReadOnly T n'" "index_store ns o'" "index_store ns n'"
    using assms by (simp_all add: o'_def n'_def)
  obtain cs where cs: "memStoreCollide T (ms_GetCollection T o' ''idx'') (ms_GetCollection T n' ''idx'') = Some cs"
    "distinct (map fst cs)" "\<And>c. c \<in> set cs \<longleftrightarrow> colliding o' n' ''idx'' c"
    "set (map fst cs) = rows o' ''idx'' \<union> rows n' ''idx''" using collide_rows [OF on(1,2)] by metis
  obtain s' where s': "merge_loop E ns o' n' s cs = Some s'" "rw s'"
    "\<forall>n. has s' n \<longleftrightarrow> has s n \<or> n \<in> idx_coll ns ` set (map fst cs)"
    "\<forall>n. rows s' n = (if n \<in> idx_coll ns ` set (map fst cs) then rows s n - rows o' n \<union> rows n' n else rows s n)"
    "\<forall>n. n \<notin> range (idx_coll ns) \<longrightarrow> get s' n = get s n"
    using merge_loop [OF on assms(3) cs(2)] cs(3) by auto
  show ?thesis
  proof (rule that [of s'])
    show "mergeIndexes E ns s old new = Some s'"
      using cs(1) s'(1) by (simp add: mergeIndexes_def Let_def flip: o'_def n'_def)
    show "has s n \<Longrightarrow> has s' n" for n using s'(3) by simp
    show "n \<notin> range (idx_coll ns) \<Longrightarrow> has s' n = has s n \<and> get s' n = get s n" for n using s'(3,5) by auto
    show "rows s' (idx_coll ns b) = rows s (idx_coll ns b) - rows old (idx_coll ns b) \<union> rows new (idx_coll ns b)" for b
    proof (cases "b \<in> set (map fst cs)")
      case False
      then have "rows old (idx_coll ns b) = {}" "rows new (idx_coll ns b) = {}"
        using cs(4) assms(1,2) unfolding index_store_def o'_def n'_def rows_Snapshot by blast+
      moreover have "idx_coll ns b \<notin> idx_coll ns ` set (map fst cs)" using False by (auto simp del: set_map)
      ultimately show ?thesis using s'(4) by (simp del: set_map)
    next
      case True
      then have "idx_coll ns b \<in> idx_coll ns ` set (map fst cs)" by blast
      then show ?thesis using s'(4) by (simp del: set_map add: o'_def n'_def)
    qed
  qed (rule s'(2))
qed

section \<open>Index entries\<close>

lemma index_entry:
  assumes s: "rw s" "has s ''idx''" and sip: "sip_ok sip" and k: "Key_Kind key = Some kind"
  obtains s' where "index_entry E key sip s i = Some s'" "rw s'"
    "case def_rows kind sip i of
       None \<Rightarrow> s' = s
     | Some rs \<Rightarrow> has s' = (has s)(idx_coll (Key_Namespace key) (idx_bin C i) := True) \<and>
         rows s' = (rows s)(''idx'' := insert (idx_bin C i) (rows s ''idx''),
           idx_coll (Key_Namespace key) (idx_bin C i) :=
             rows s (idx_coll (Key_Namespace key) (idx_bin C i)) \<union> set rs)"
proof (cases "def_rows kind sip i")
  case None
  then have "index_entry E key sip s i = Some s"
    using k by (auto simp: index_entry_def def_rows_def Let_def split: if_splits option.splits)
  then show ?thesis using that [of s] s None by simp
next
  case (Some rs)
  let ?n = "idx_coll (Key_Namespace key) (idx_bin C i)"
  obtain g where g: "matcher_match (GetFullSortOrder (Normalize i)) sip = Some g"
    and rs: "rs = index_rows (propVec g) (decending g)"
    and kind: "\<not> (ix_Kind (Normalize i) \<noteq> '''' \<and> ix_Kind (Normalize i) \<noteq> kind)"
    using Some by (auto simp: def_rows_def Let_def split: if_splits)
  have perm: "permute g = Some rs" using permute_eq matcher_match_props [OF g sip] rs by simp
  define s1 where "s1 = ms_GetOrCreateCollection T (tc_Put T s ''idx'' (idx_bin C i, [])) ?n"
  have s1: "rw s1" "has s1 = (has s)(?n := True)" "rows s1 = (rows s)(''idx'' := insert (idx_bin C i) (rows s ''idx''))"
    using s by (simp_all add: s1_def)
  have "index_entry E key sip s i = Some (coll_set_rows T ?n rs s1)"
    using k kind g perm by (auto simp: index_entry_def Let_def ToBytes_def toBytesErr_def idx_bin_def s1_def)
  then show ?thesis
    using that [of "coll_set_rows T ?n rs s1"] coll_set_rows [OF s1(1), of ?n rs] s1 Some by simp
qed

lemma index_entries_loop:
  assumes "sip_ok sip" "Key_Kind key = Some kind"
  shows "rw s \<Longrightarrow> has s ''idx'' \<Longrightarrow>
    \<exists>s'. index_entries_loop E key sip s idxs = Some s' \<and> rw s' \<and>
      (\<forall>n. has s' n \<longleftrightarrow> has s n \<or> (\<exists>i \<in> set idxs. def_rows kind sip i \<noteq> None \<and> n = idx_coll (Key_Namespace key) (idx_bin C i))) \<and>
      rows s' ''idx'' = rows s ''idx'' \<union> {idx_bin C i | i. i \<in> set idxs \<and> def_rows kind sip i \<noteq> None} \<and>
      (\<forall>b. rows s' (idx_coll (Key_Namespace key) b) =
        rows s (idx_coll (Key_Namespace key) b) \<union> entry_rows C kind sip idxs b)"
proof (induction idxs arbitrary: s)
  case Nil
  then show ?case by (simp add: entry_rows_def)
next
  case (Cons i idxs)
  let ?ns = "Key_Namespace key"
  obtain s1 where s1: "index_entry E key sip s i = Some s1" "rw s1"
    "case def_rows kind sip i of
       None \<Rightarrow> s1 = s
     | Some rs \<Rightarrow> has s1 = (has s)(idx_coll ?ns (idx_bin C i) := True) \<and>
         rows s1 = (rows s)(''idx'' := insert (idx_bin C i) (rows s ''idx''),
           idx_coll ?ns (idx_bin C i) := rows s (idx_coll ?ns (idx_bin C i)) \<union> set rs)"
    using index_entry [OF Cons.prems assms] by metis
  have has1: "has s1 ''idx''" using s1(3) Cons.prems by (auto split: option.splits)
  obtain s' where s': "index_entries_loop E key sip s1 idxs = Some s'" "rw s'"
    "\<forall>n. has s' n \<longleftrightarrow> has s1 n \<or> (\<exists>i \<in> set idxs. def_rows kind sip i \<noteq> None \<and> n = idx_coll ?ns (idx_bin C i))"
    "rows s' ''idx'' = rows s1 ''idx'' \<union> {idx_bin C i | i. i \<in> set idxs \<and> def_rows kind sip i \<noteq> None}"
    "\<forall>b. rows s' (idx_coll ?ns b) = rows s1 (idx_coll ?ns b) \<union> entry_rows C kind sip idxs b"
    using Cons.IH [OF s1(2) has1] by (elim exE conjE) (rule that)
  have er: "entry_rows C kind sip (i # idxs) b = (case def_rows kind sip i of
      None \<Rightarrow> {} | Some rs \<Rightarrow> if idx_bin C i = b then set rs else {}) \<union> entry_rows C kind sip idxs b" for b
    by (auto simp: entry_rows_def split: option.splits)
  show ?case
  proof (cases "def_rows kind sip i")
    case None
    then show ?thesis using s1 s' er by (intro exI [of _ s']) (auto simp: Cons.prems)
  next
    case (Some rs)
    then show ?thesis using s1 s' er by (intro exI [of _ s']) (auto simp: Cons.prems)
  qed
qed

lemma indexEntries:
  assumes "sip_ok sip" "Key_Kind key = Some kind"
  obtains s where "indexEntries E key sip idxs = Some s" "index_store (Key_Namespace key) s"
    "\<And>b. rows s (idx_coll (Key_Namespace key) b) = entry_rows C kind sip idxs b"
proof -
  let ?ns = "Key_Namespace key" and ?s0 = "ms_GetOrCreateCollection T (ts_New T) ''idx''"
  have "rw ?s0" "has ?s0 ''idx''" by simp_all
  from index_entries_loop [OF assms this, of idxs] obtain s where
    s: "indexEntries E key sip idxs = Some s"
      "\<forall>n. has s n \<longleftrightarrow> has ?s0 n \<or> (\<exists>i \<in> set idxs. def_rows kind sip i \<noteq> None \<and> n = idx_coll ?ns (idx_bin C i))"
      "rows s ''idx'' = rows ?s0 ''idx'' \<union> {idx_bin C i | i. i \<in> set idxs \<and> def_rows kind sip i \<noteq> None}"
      "\<forall>b. rows s (idx_coll ?ns b) = rows ?s0 (idx_coll ?ns b) \<union> entry_rows C kind sip idxs b"
    by (fold indexEntries_def, elim exE conjE) (rule that)
  have b: "rows s (idx_coll ?ns b) = entry_rows C kind sip idxs b" for b using s(4) by simp
  moreover have "index_store ?ns s"
    unfolding index_store_def b using s(2,3) by (auto simp: entry_rows_def)
  ultimately show ?thesis using that s(1) by blast
qed

text \<open>The index rows of an entity, or none for a missing one.\<close>

definition ent_rows :: "Key \<Rightarrow> PropertyMap option \<Rightarrow> IndexDefinition list \<Rightarrow> byte list \<Rightarrow> byte list set" where
  "ent_rows key pm cidx b =
     (case pm of
        None \<Rightarrow> {}
      | Some pm \<Rightarrow> entry_rows C (the (Key_Kind key)) (PropertyMapPartially C (Some key) pm)
          (defaultIndexes E (the (Key_Kind key)) pm @ cidx) b)"

lemma indexEntriesWithBuiltins:
  assumes "toks key \<noteq> []"
  obtains s where "indexEntriesWithBuiltins E key pm cidx = Some s" "index_store (Key_Namespace key) s"
    "\<And>b. rows s (idx_coll (Key_Namespace key) b) = ent_rows key pm cidx b"
proof (cases pm)
  case None
  then show ?thesis
    using that [of "ts_New T"] by (simp add: indexEntriesWithBuiltins_def ent_rows_def)
next
  case (Some pm')
  obtain kind where k: "Key_Kind key = Some kind" using assms by (simp add: Key_Kind_def LastTok_def)
  obtain s where s: "indexEntries E key (PropertyMapPartially C (Some key) pm') (defaultIndexes E kind pm' @ cidx) = Some s"
    "index_store (Key_Namespace key) s"
    "\<And>b. rows s (idx_coll (Key_Namespace key) b) =
      entry_rows C kind (PropertyMapPartially C (Some key) pm') (defaultIndexes E kind pm' @ cidx) b"
    using indexEntries [OF PropertyMapPartially_ok k] by metis
  then show ?thesis
    using that [of s] Some k by (simp add: indexEntriesWithBuiltins_def ent_rows_def)
qed

section \<open>The table of compound indexes\<close>

text \<open>Every key of the table is read as an index definition; these are the definitions.\<close>

definition table_ok :: "'s \<Rightarrow> bool" where
  "table_ok s \<longleftrightarrow> (\<forall>k \<in> rows s ''idx''. \<exists>r. ReadIndexDefinition C k = Inr r)"

definition table_entry :: "byte list \<Rightarrow> IndexDefinition" where
  "table_entry k = (case ReadIndexDefinition C k of Inr (i, _) \<Rightarrow> Flip i | Inl _ \<Rightarrow> \<lparr>ix_Kind = [], ix_Ancestor = False, SortBy = []\<rparr>)"

definition comp_idxs :: "'s \<Rightarrow> IndexDefinition list" where
  "comp_idxs s = (if has s ''idx'' then map (table_entry \<circ> fst) (tc_Iterator T s ''idx'' []) else [])"

lemma walk_loop_all:
  assumes "\<forall>e \<in> set es. \<exists>r. ReadIndexDefinition C (fst e) = Inr r"
    and "it_base it = Some es" "id_prefix (it_def it) = []" "it_end it = None"
  shows "walk_loop E (\<lambda>acc i. (acc @ [i], True)) acc it = Some (acc @ map (table_entry \<circ> fst) es)"
  using assms
proof (induction es arbitrary: acc it)
  case Nil
  then show ?case by (simp add: walk_loop.simps it_next_def it_step_def)
next
  case (Cons e es)
  obtain i rest where r: "ReadIndexDefinition C (fst e) = Inr (i, rest)" using Cons.prems(1) by force
  let ?it = "it\<lparr>it_base := Some es, it_lastKey := fst e\<rparr>"
  have "it_next T it = Some (Some e, ?it)"
    using Cons.prems by (simp add: it_next_def it_step_def)
  then show ?case
    using Cons.IH [of ?it "acc @ [Flip i]"] Cons.prems r
    by (simp add: walk_loop.simps [of _ _ _ it] table_entry_def)
qed

lemma walk_all:
  assumes "table_ok s" "ts_IsReadOnly T s"
  shows "walkCompIdxs E s None (\<lambda>acc i. (acc @ [i], True)) [] = Some (comp_idxs s)"
proof (cases "has s ''idx''")
  case True
  let ?es = "tc_Iterator T s ''idx'' []"
  let ?def = "\<lparr>id_c = (s, ''idx''), id_prefix = [], id_prefixLen = 0, id_start = [], id_end = None\<rparr> :: 's iterDefinition"
  let ?it = "\<lparr>it_def = ?def, it_base = None, it_start = [], it_end = None, it_lastKey = []\<rparr> :: 's iterator"
  have es: "\<forall>e \<in> set ?es. \<exists>r. ReadIndexDefinition C (fst e) = Inr r"
    using assms(1) True by (auto simp: table_ok_def rows_def Iterator_set)
  have "it_next T ?it = it_next T (?it\<lparr>it_base := Some ?es\<rparr>)"
    using assms(2) by (simp add: it_next_def it_skip_def coll_Iterator_def coll_IsReadOnly_def)
  then have "walk_loop E (\<lambda>acc i. (acc @ [i], True)) [] ?it =
      walk_loop E (\<lambda>acc i. (acc @ [i], True)) [] (?it\<lparr>it_base := Some ?es\<rparr>)"
    by (simp only: walk_loop.simps [of _ _ _ "?it"] walk_loop.simps [of _ _ _ "?it\<lparr>it_base := Some ?es\<rparr>"])
  then show ?thesis
    using True assms(2) walk_loop_all [OF es, of "?it\<lparr>it_base := Some ?es\<rparr>" "[]"]
    by (simp add: walkCompIdxs_def ms_GetCollection_def mkIter_def coll_IsReadOnly_def Join_def comp_idxs_def)
qed (simp add: walkCompIdxs_def ms_GetCollection_def comp_idxs_def)

lemma comp_idxs_cong:
  assumes "has s ''idx'' = has s' ''idx''" "rows s ''idx'' = rows s' ''idx''"
  shows "comp_idxs s = comp_idxs s'"
proof (cases "has s ''idx''")
  case True
  have "map fst (tc_Iterator T x ''idx'' []) = sorted_list_of_set (rows x ''idx'')" if "has x ''idx''" for x
  proof (rule sorted_list_of_set_unique [THEN iffD1, symmetric])
    show "finite (rows x ''idx'')"
      using that by (metis (no_types, lifting) Iterator_all List.finite_set dom_map_of_conv_image_fst finite_imageI rows_def)
    show "sorted_wrt (<) (map fst (tc_Iterator T x ''idx'' [])) \<and> set (map fst (tc_Iterator T x ''idx'' [])) = rows x ''idx'' \<and>
      length (map fst (tc_Iterator T x ''idx'' [])) = card (rows x ''idx'')"
    proof (intro conjI)
      show srt: "sorted_wrt (<) (map fst (tc_Iterator T x ''idx'' []))" using that by (rule Iterator_sorted)
      show st: "set (map fst (tc_Iterator T x ''idx'' [])) = rows x ''idx''"
        using that by (auto simp: rows_def Iterator_set image_def)
      show "length (map fst (tc_Iterator T x ''idx'' [])) = card (rows x ''idx'')"
        using srt by (metis distinct_card st strict_sorted_iff)
    qed
  qed
  then have "map fst (tc_Iterator T s ''idx'' []) = map fst (tc_Iterator T s' ''idx'' [])" using assms True by simp
  then show ?thesis using assms True by (simp add: comp_idxs_def flip: map_map)
qed (use assms in \<open>simp add: comp_idxs_def\<close>)

lemma updateIndexes:
  assumes "toks key \<noteq> []" "rw s" "table_ok s"
  obtains s' where "updateIndexes E s key old new = Some s'" "rw s'" "\<And>n. has s n \<Longrightarrow> has s' n"
    "\<And>n. n \<notin> range (idx_coll (Key_Namespace key)) \<Longrightarrow> has s' n = has s n \<and> get s' n = get s n"
    "\<And>b. rows s' (idx_coll (Key_Namespace key) b) = rows s (idx_coll (Key_Namespace key) b) -
       ent_rows key old (comp_idxs s) b \<union> ent_rows key new (comp_idxs s) b"
proof -
  have "comp_idxs (ms_Snapshot T s) = comp_idxs s" by (rule comp_idxs_cong) simp_all
  then have walk: "walkCompIdxs E (ms_Snapshot T s) None (\<lambda>acc i. (acc @ [i], True)) [] = Some (comp_idxs s)"
    using walk_all [of "ms_Snapshot T s"] assms(3) by (simp add: table_ok_def)
  obtain so where so: "indexEntriesWithBuiltins E key old (comp_idxs s) = Some so"
    "index_store (Key_Namespace key) so"
    "\<And>b. rows so (idx_coll (Key_Namespace key) b) = ent_rows key old (comp_idxs s) b"
    using indexEntriesWithBuiltins [OF assms(1)] by metis
  obtain sn where sn: "indexEntriesWithBuiltins E key new (comp_idxs s) = Some sn"
    "index_store (Key_Namespace key) sn"
    "\<And>b. rows sn (idx_coll (Key_Namespace key) b) = ent_rows key new (comp_idxs s) b"
    using indexEntriesWithBuiltins [OF assms(1)] by metis
  show ?thesis
    using mergeIndexes [OF so(2) sn(2) assms(2)] walk so(1) sn(1) that
    by (simp add: updateIndexes_def so(3) sn(3)) metis
qed

end

end
