(* ===== verification/Datastore_Inv.thy ===== *)
theory Datastore_Inv
  imports Datastore Index_Store
begin

text \<open>
  The invariant of the in-memory datastore and its abstract state: the entities, as a map from
  namespaces and key paths to property maps, and the versions of the entity groups.
\<close>

section \<open>Keys in the store\<close>

definition key_bytes :: "cmpbin \<Rightarrow> KeyTok list \<Rightarrow> byte list" where
  "key_bytes C ts = 0x88 # WriteKey C WithoutContext \<lparr>kc = MkKeyContext '''' '''', toks = ts\<rparr>"

lemma keyBytes_eq: "keyBytes E k = Some (key_bytes (e_cmpbin E) (toks k))"
  by (simp add: keyBytes_def MkProperty_def ToBytes_def toBytesErr_def WriteIndexProperty_def
      writePropertyImpl_def IndexTypeAndValue_def Property_Type_def writeIndexValue_def key_bytes_def
      WriteKey_def Key_Split_def Property_Value_def)

definition toks_storable :: "KeyTok list \<Rightarrow> bool" where
  "toks_storable ts \<longleftrightarrow> ts \<noteq> [] \<and> length ts \<le> ReadKeyNumToksReasonableLimit \<and> list_all tok_storable ts"

lemma key_storable_toks: "key_storable k \<longleftrightarrow> toks_storable (toks k)"
  by (simp add: key_storable_def toks_storable_def)

lemma key_bytes_inj:
  assumes "cmpbin_ok C" "toks_storable a" "toks_storable b"
  shows "key_bytes C a = key_bytes C b \<longleftrightarrow> a = b"
proof
  assume eq: "key_bytes C a = key_bytes C b"
  have r: "ReadKey C False no_ctx (WriteKey C False \<lparr>kc = no_ctx, toks = ts\<rparr> @ []) =
      Inr (Some \<lparr>kc = no_ctx, toks = ts\<rparr>, [])" if "toks_storable ts" for ts
  proof -
    have "key_storable \<lparr>kc = no_ctx, toks = ts\<rparr>" using that by (simp add: key_storable_toks)
    from ReadKey_Write [OF assms(1) this, of False no_ctx False "[]"] show ?thesis by (simp add: read_context_def)
  qed
  have "WriteKey C False \<lparr>kc = no_ctx, toks = a\<rparr> = WriteKey C False \<lparr>kc = no_ctx, toks = b\<rparr>"
    using eq by (simp add: key_bytes_def)
  then have "Inr (Some \<lparr>kc = no_ctx, toks = a\<rparr>, []) = (Inr (Some \<lparr>kc = no_ctx, toks = b\<rparr>, []) :: serror + Key option \<times> byte list)"
    using r [OF assms(2)] r [OF assms(3)] by metis
  then show "a = b" by simp
qed simp

text \<open>The kinds under which the store keeps its own records.\<close>

definition special_toks :: "KeyTok list \<Rightarrow> bool" where
  "special_toks ts \<longleftrightarrow>
     Kind (last ts) \<in> {''__entity_group__'', ''__entity_group_ids__'', ''__entity_root_ids__''}"

definition user_toks :: "KeyTok list \<Rightarrow> bool" where
  "user_toks ts \<longleftrightarrow> toks_storable ts \<and> \<not> special_toks ts"

abbreviation meta_toks :: "KeyTok \<Rightarrow> KeyTok list" where
  "meta_toks r \<equiv> [r, mkTok ''__entity_group__'' 1 '''']"

abbreviation ids_toks :: "KeyTok \<Rightarrow> KeyTok list" where
  "ids_toks r \<equiv> [r, mkTok ''__entity_group_ids__'' 1 '''']"

abbreviation root_ids_toks :: "string \<Rightarrow> KeyTok list" where
  "root_ids_toks kind \<equiv> [mkTok ''__entity_root_ids__'' 0 kind]"

lemma Root_toks: "toks k \<noteq> [] \<Longrightarrow> toks (Key_Root k) = [hd (toks k)]"
  by (cases "toks k") (auto simp: Key_Root_def)

lemma Root_kc [simp]: "kc (Key_Root k) = kc k"
  by (simp add: Key_Root_def)

lemma group_keys:
  assumes "toks k \<noteq> []"
  shows "groupMetaKey E k = Some (key_bytes (e_cmpbin E) (meta_toks (hd (toks k))))"
    and "groupIDsKey E k = Some (key_bytes (e_cmpbin E) (ids_toks (hd (toks k))))"
    and "rootIDsKey E kind = Some (key_bytes (e_cmpbin E) (root_ids_toks kind))"
  using assms by (simp_all add: groupMetaKey_def groupIDsKey_def rootIDsKey_def keyBytes_eq NewKey_def Root_toks)

lemma special_storable:
  "tok_storable r \<Longrightarrow> toks_storable (meta_toks r)" "tok_storable r \<Longrightarrow> toks_storable (ids_toks r)"
  "kind \<noteq> '''' \<Longrightarrow> toks_storable (root_ids_toks kind)"
  by (simp_all add: toks_storable_def tok_storable_def mkTok_def ReadKeyNumToksReasonableLimit_def)

lemma special_special:
  "special_toks (meta_toks r)" "special_toks (ids_toks r)" "special_toks (root_ids_toks kind)"
  by (simp_all add: special_toks_def mkTok_def)

section \<open>The abstract state\<close>

text \<open>The stored bytes of a key path in a namespace.\<close>

definition stored :: "'s dsenv \<Rightarrow> 's \<Rightarrow> string \<Rightarrow> KeyTok list \<Rightarrow> byte list option" where
  "stored E s ns ts =
     (if ts_HasCollection (e_store E) s (ents_coll ns)
      then tc_Get (e_store E) s (ents_coll ns) (key_bytes (e_cmpbin E) ts) else None)"

text \<open>The entity at a key path, as it is read and as a map from names to property data.\<close>

definition ent_pm :: "'s dsenv \<Rightarrow> 's \<Rightarrow> string \<Rightarrow> KeyTok list \<Rightarrow> PropertyMap option" where
  "ent_pm E s ns ts =
     (case stored E s ns ts of
        None \<Rightarrow> None
      | Some v \<Rightarrow> (case readPropMap E v of Inl _ \<Rightarrow> None | Inr pm \<Rightarrow> Some pm))"

definition entity :: "'s dsenv \<Rightarrow> 's \<Rightarrow> string \<Rightarrow> KeyTok list \<Rightarrow> (string \<rightharpoonup> PropertyData) option" where
  "entity E s ns ts = map_option map_of (ent_pm E s ns ts)"

text \<open>The counter in a special record, and the version of the entity group with root \<open>r\<close>.\<close>

definition counter :: "'s dsenv \<Rightarrow> 's \<Rightarrow> string \<Rightarrow> KeyTok list \<Rightarrow> int64" where
  "counter E s ns ts =
     the (curVersion E (ms_GetCollection (e_store E) s (ents_coll ns)) (key_bytes (e_cmpbin E) ts))"

definition version :: "'s dsenv \<Rightarrow> 's \<Rightarrow> string \<Rightarrow> KeyTok \<Rightarrow> int64" where
  "version E s ns r = counter E s ns (meta_toks r)"

definition version_prop :: "int64 \<Rightarrow> Property" where
  "version_prop i = \<lparr>pvalue = PInt i, indexSetting = NoIndex\<rparr>"

text \<open>What the store may hold: version records under the special kinds, entities elsewhere.\<close>

definition record_ok :: "'s dsenv \<Rightarrow> KeyTok list \<Rightarrow> byte list \<Rightarrow> bool" where
  "record_ok E ts v \<longleftrightarrow>
     (if special_toks ts then \<exists>i. readPropMap E v = Inr [(''__version__'', PSingle (version_prop i))]
      else \<exists>pm. readPropMap E v = Inr pm \<and> pm_storable pm \<and> (\<forall>(n, _) \<in> set pm. \<not> isMetaKey n))"

definition store_ok :: "'s dsenv \<Rightarrow> 's \<Rightarrow> bool" where
  "store_ok E s \<longleftrightarrow>
     (\<forall>k \<in> (if ts_HasCollection (e_store E) s ''idx'' then dom (tc_Get (e_store E) s ''idx'') else {}).
        \<exists>r. ReadIndexDefinition (e_cmpbin E) k = Inr r) \<and>
     (\<forall>ns k v. ts_HasCollection (e_store E) s (ents_coll ns) \<longrightarrow>
        tc_Get (e_store E) s (ents_coll ns) k = Some v \<longrightarrow>
        (\<exists>ts. toks_storable ts \<and> k = key_bytes (e_cmpbin E) ts \<and> record_ok E ts v))"

text \<open>The invariant of the datastore.\<close>

definition ds_ok :: "'s dsenv \<Rightarrow> 's dataStoreData \<Rightarrow> bool" where
  "ds_ok E d \<longleftrightarrow> \<not> ts_IsReadOnly (e_store E) (head d) \<and> store_ok E (head d)"

lemma ents_coll_simps [simp]:
  "ents_coll a = ents_coll a' \<longleftrightarrow> a = a'" "ents_coll ns \<noteq> ''idx''" "ents_coll ns \<noteq> idx_coll ms b"
  "''idx'' \<noteq> ents_coll ns" "idx_coll ms b \<noteq> ents_coll ns"
  by (simp_all add: ents_coll_def idx_coll_def)

text \<open>The property maps that a put can store, and what it stores for one.\<close>

definition putable :: "PropertyMap \<Rightarrow> bool" where
  "putable pm \<longleftrightarrow> pm_storable pm \<and> length (pm_Save pm False) < ReadPropertyMapReasonableLimit"

definition stored_map :: "'s dsenv \<Rightarrow> KeyTok list \<Rightarrow> PropertyMap \<Rightarrow> PropertyMap" where
  "stored_map E ts pm = the (ensureSpecialProps E (key_bytes (e_cmpbin E) ts) (pm_Save pm False))"

text \<open>What \<open>put_one\<close> does once the key is complete.\<close>

definition put_key ::
  "'s dsenv \<Rightarrow> 's dataStoreData \<Rightarrow> string \<Rightarrow> Key \<Rightarrow> PropertyMap \<Rightarrow> ((Key \<times> dserror option) \<times> 's dataStoreData) option" where
  "put_key E d ns key newPM =
     (let T = e_store E; ents = ents_coll ns in
      Option.bind (bump_group E d ents key) (\<lambda>d.
      Option.bind (keyBytes E key) (\<lambda>keyBlob.
      Option.bind (ensureSpecialProps E keyBlob newPM) (\<lambda>newPM.
      case (case tc_Get T (head d) ents keyBlob of
              None \<Rightarrow> Inr None
            | Some old \<Rightarrow> map_sum id Some (readPropMap E old)) of
        Inl e \<Rightarrow> Some ((key, Some (ErrRead e)), d)
      | Inr oldPM \<Rightarrow>
          Option.bind (ToBytesWithContext (e_cmpbin E) (e_detmaps E) (SPropertyMap newPM)) (\<lambda>bs.
          Option.bind (updateIndexes E (tc_Put T (head d) ents (keyBlob, bs)) key oldPM (Some newPM)) (\<lambda>h.
            Some ((key, None), d\<lparr>head := h\<rparr>)))))))"

lemma put_one_eq:
  "put_one E d ns k newPM =
     Option.bind (fixKeyLocked E (open_ents E d ns) (ents_coll ns) k) (\<lambda>(r, d).
       case r of Inl err \<Rightarrow> Some ((k, Some err), d) | Inr key \<Rightarrow> put_key E d ns key newPM)"
  by (simp only: put_one_def put_key_def Let_def)

context ds_env begin

lemma store_okD:
  assumes "store_ok E s"
  shows "table_ok s"
    and "stored E s ns ts = Some v \<Longrightarrow> toks_storable ts \<Longrightarrow> record_ok E ts v"
proof -
  show "table_ok s" using assms by (simp add: store_ok_def table_ok_def rows_def)
  show "record_ok E ts v" if "stored E s ns ts = Some v" "toks_storable ts"
  proof -
    have "has s (ents_coll ns)" "get s (ents_coll ns) (key_bytes C ts) = Some v"
      using that(1) by (auto simp: stored_def split: if_splits)
    then obtain ts' where ts': "toks_storable ts'" "key_bytes C ts = key_bytes C ts'" "record_ok E ts' v"
      using assms unfolding store_ok_def by blast
    then show ?thesis using key_bytes_inj [OF cmpbin_reads that(2) ts'(1)] by simp
  qed
qed

lemma store_ok_Snapshot [simp]: "store_ok E (ms_Snapshot T s) = store_ok E s"
  by (simp add: store_ok_def)

lemma store_views_Snapshot [simp]:
  "stored E (ms_Snapshot T s) = stored E s" "entity E (ms_Snapshot T s) = entity E s"
  "counter E (ms_Snapshot T s) = counter E s"
  by (simp_all add: fun_eq_iff entity_def ent_pm_def stored_def counter_def curVersion_def ms_GetCollection_def split: option.splits)

lemma stored_congs:
  assumes "\<And>ns. has s' (ents_coll ns) = has s (ents_coll ns) \<and> get s' (ents_coll ns) = get s (ents_coll ns)"
  shows "stored E s' = stored E s"
  using assms by (simp add: fun_eq_iff stored_def)

lemma views_stored:
  assumes "stored E s' ns ts = stored E s ns ts"
  shows "ent_pm E s' ns ts = ent_pm E s ns ts" "entity E s' ns ts = entity E s ns ts"
    and "counter E s' ns ts = counter E s ns ts"
  using assms by (auto simp: entity_def ent_pm_def counter_def curVersion_def ms_GetCollection_def stored_def split: if_splits option.splits)

section \<open>Creating the collection of a namespace\<close>

lemma open_ents [simp]:
  assumes "ds_ok E d"
  shows "ds_ok E (open_ents E d ns)" "has (head (open_ents E d ns)) (ents_coll ns)"
    "stored E (head (open_ents E d ns)) = stored E (head d)"
    "entity E (head (open_ents E d ns)) = entity E (head d)"
    "rows (head (open_ents E d ns)) = rows (head d)"
    "disableSpecialEntities (open_ents E d ns) = disableSpecialEntities d"
    "version E (head (open_ents E d ns)) = version E (head d)"
    "comp_idxs (head (open_ents E d ns)) = comp_idxs (head d)"
    "n \<noteq> ents_coll ns \<Longrightarrow> has (head (open_ents E d ns)) n = has (head d) n \<and> get (head (open_ents E d ns)) n = get (head d) n"
    "open_ents E d ns\<lparr>head := h\<rparr> = d\<lparr>head := h\<rparr>"
proof -
  have rw: "rw (head d)" using assms by (simp add: ds_ok_def)
  then show "has (head (open_ents E d ns)) (ents_coll ns)" "rows (head (open_ents E d ns)) = rows (head d)"
    by (simp_all add: open_ents_def)
  show st: "stored E (head (open_ents E d ns)) = stored E (head d)"
    using rw by (auto simp: fun_eq_iff stored_def open_ents_def)
  then show "entity E (head (open_ents E d ns)) = entity E (head d)" by (simp add: fun_eq_iff entity_def ent_pm_def)
  show "ds_ok E (open_ents E d ns)"
    using assms rw by (auto simp: ds_ok_def store_ok_def open_ents_def split: if_splits)
  show "version E (head (open_ents E d ns)) = version E (head d)"
    by (auto simp: fun_eq_iff version_def st intro!: views_stored(3))
  show "comp_idxs (head (open_ents E d ns)) = comp_idxs (head d)"
    using rw by (intro comp_idxs_cong) (simp_all add: open_ents_def)
  show "n \<noteq> ents_coll ns \<Longrightarrow> has (head (open_ents E d ns)) n = has (head d) n \<and> get (head (open_ents E d ns)) n = get (head d) n"
    using rw by (simp add: open_ents_def)
qed (simp_all add: open_ents_def)

section \<open>Counters\<close>

lemma single_map: "distinct (map fst xs) \<Longrightarrow> map_of xs = [n \<mapsto> d] \<Longrightarrow> xs = [(n, d)]"
proof -
  assume d: "distinct (map fst xs)" "map_of xs = [n \<mapsto> d]"
  then have "(x, y) \<in> set xs \<longleftrightarrow> x = n \<and> y = d" for x y
    using map_of_eq_Some_iff [OF d(1), of x y] by (cases "x = n") auto
  then have s: "set xs = {(n, d)}" by auto
  have "distinct xs" using d(1) by (simp add: distinct_map)
  then have "length xs = 1" using distinct_card [of xs] s by simp
  then show ?thesis using s by (cases xs) auto
qed

lemma version_record:
  obtains bs where "ToBytes C (e_detmaps E) (SPropertyMap [(''__version__'', PSingle (version_prop i))]) = Some bs"
    "readPropMap E bs = Inr [(''__version__'', PSingle (version_prop i))]"
proof -
  let ?pm = "[(''__version__'', PSingle (version_prop i))]"
  have meta: "\<not> isMetaKey ''__version__''" by (simp add: isMetaKey_def)
  have "pm_storable ?pm"
    using meta by (simp add: pm_storable_def pm_wf_def pm_Save_eq data_storable_def prop_storable_def prop_ok_def
        version_prop_def ReadPropertyMapReasonableLimit_def)
  then obtain bs pm' where bs: "WritePropertyMap C (e_detmaps E) False ?pm = Some bs"
    "ReadPropertyMap C True no_ctx (bs @ []) = Inr (pm', [])" "pm_wf pm'"
    "map_of pm' = (\<lambda>k. map_option (recontext_data False True no_ctx) (map_of (pm_Save ?pm False) k))"
    using ReadPropertyMap_Write [OF cmpbin_reads, where pm = ?pm and det = "e_detmaps E" and wctx = False
      and rctx = True and inKC = no_ctx and rest = "[]"] by metis
  have "map_of pm' = [''__version__'' \<mapsto> PSingle (version_prop i)]"
    unfolding bs(4) using meta by (auto simp: pm_Save_eq fun_eq_iff recontext_data_def recontext_def version_prop_def)
  then have "pm' = ?pm" using bs(3) by (intro single_map) (simp_all add: pm_wf_def)
  then show ?thesis using that bs(1,2) by (simp add: ToBytes_def toBytesErr_def readPropMap_def)
qed

lemma curVersion_counter:
  assumes "store_ok E s" "toks_storable ts" "special_toks ts"
  shows "curVersion E (ms_GetCollection T s (ents_coll ns)) (key_bytes C ts) = Some (counter E s ns ts)"
proof (cases "stored E s ns ts")
  case None
  then show ?thesis
    by (auto simp: counter_def curVersion_def ms_GetCollection_def stored_def split: if_splits option.splits)
next
  case (Some v)
  then have "record_ok E ts v" using store_okD(2) assms by blast
  then obtain i where "readPropMap E v = Inr [(''__version__'', PSingle (version_prop i))]"
    using assms(3) by (auto simp: record_ok_def)
  then show ?thesis
    using Some by (auto simp: counter_def curVersion_def ms_GetCollection_def stored_def pm_Slice_def
        PropertyData_Slice_def version_prop_def Property_Value_def split: if_splits)
qed

text \<open>Writing one record leaves the rest of the store alone.\<close>

lemma put_record:
  assumes s: "rw s" "store_ok E s" "has s (ents_coll ns)" and ts: "toks_storable ts" "record_ok E ts v"
  defines "s' \<equiv> tc_Put T s (ents_coll ns) (key_bytes C ts, v)"
  shows "rw s'" "store_ok E s'" "has s' = has s" "\<And>n. n \<noteq> ents_coll ns \<Longrightarrow> get s' n = get s n"
    "stored E s' ns ts = Some v"
    "\<And>ms us. toks_storable us \<Longrightarrow> (ms, us) \<noteq> (ns, ts) \<Longrightarrow> stored E s' ms us = stored E s ms us"
proof -
  have g: "get s' = (get s)(ents_coll ns := (get s (ents_coll ns))(key_bytes C ts \<mapsto> v))"
    using s by (simp add: s'_def)
  show "rw s'" and h: "has s' = has s" using s by (simp_all add: s'_def)
  show "\<And>n. n \<noteq> ents_coll ns \<Longrightarrow> get s' n = get s n" by (simp add: g)
  show "stored E s' ns ts = Some v" using s(3) by (simp add: stored_def h g)
  show "stored E s' ms us = stored E s ms us" if "toks_storable us" "(ms, us) \<noteq> (ns, ts)" for ms us
    using that key_bytes_inj [OF cmpbin_reads that(1) ts(1)] by (auto simp: stored_def h g)
  show "store_ok E s'"
    using s(2) ts unfolding store_ok_def h g by (auto split: if_splits)
qed

lemma incrementLocked:
  assumes s: "rw s" "store_ok E s" "has s (ents_coll ns)" and ts: "toks_storable ts" "special_toks ts"
    and amt: "0 < sint amt"
  obtains s' where "incrementLocked E s (ents_coll ns) (key_bytes C ts) amt = Some (counter E s ns ts + 1, s')"
    "rw s'" "store_ok E s'" "has s' = has s" "\<And>n. n \<noteq> ents_coll ns \<Longrightarrow> get s' n = get s n"
    "counter E s' ns ts = counter E s ns ts + amt"
    "\<And>ms us. toks_storable us \<Longrightarrow> (ms, us) \<noteq> (ns, ts) \<Longrightarrow> stored E s' ms us = stored E s ms us"
proof -
  let ?i = "counter E s ns ts + amt"
  obtain bs where bs: "ToBytes C (e_detmaps E) (SPropertyMap [(''__version__'', PSingle (version_prop ?i))]) = Some bs"
    "readPropMap E bs = Inr [(''__version__'', PSingle (version_prop ?i))]" by (rule version_record)
  have rec: "record_ok E ts bs" using ts bs(2) by (auto simp: record_ok_def)
  define s' where "s' = tc_Put T s (ents_coll ns) (key_bytes C ts, bs)"
  note p = put_record [OF s ts(1) rec, folded s'_def]
  have v: "curVersion E (Some (s, ents_coll ns)) (key_bytes C ts) = Some (counter E s ns ts)"
    using curVersion_counter [OF s(2) ts, of ns] s(3) by (simp add: ms_GetCollection_def)
  have "counter E s ns ts + 1 + (amt - 1) = ?i" by simp
  then have pr: "MkPropertyNI (GInt (counter E s ns ts + 1 + (amt - 1))) = Some (version_prop ?i)"
    by (simp only: MkPropertyNI_def version_prop_def SetValue_simps) simp
  have inc: "incrementLocked E s (ents_coll ns) (key_bytes C ts) amt = Some (counter E s ns ts + 1, s')"
    using amt by (simp only: incrementLocked_def Let_def v pr bs(1) Option.bind.simps s'_def) simp
  have c: "counter E s' ns ts = ?i"
    using p(5) bs(2) s(3) p(3) by (simp add: counter_def curVersion_def ms_GetCollection_def stored_def pm_Slice_def
        PropertyData_Slice_def version_prop_def Property_Value_def)
  show ?thesis by (rule that [OF inc p(1-3) p(4) c p(6)])
qed

section \<open>What is stored\<close>

lemma recontext_id: "recontext_data True True kx = (\<lambda>d. d)"
proof -
  have "recontext True True kx p = p" for p
    by (cases p; cases "pvalue p") (auto simp: recontext_def read_context_def)
  then have "recontext True True kx = (\<lambda>p. p)" by (rule ext)
  then show ?thesis by (intro ext) (simp add: recontext_data_def split: PropertyData.splits)
qed

lemma stored_map:
  assumes "putable pm"
  shows "ensureSpecialProps E (key_bytes C ts) (pm_Save pm False) = Some (stored_map E ts pm)"
    and "pm_storable (stored_map E ts pm)" "\<forall>(n, _) \<in> set (stored_map E ts pm). \<not> isMetaKey n"
    and "n \<noteq> ''__scatter__'' \<Longrightarrow> map_of (stored_map E ts pm) n = map_of (pm_Save pm False) n"
proof -
  define h where "h = e_sha256 E (key_bytes C ts)"
  obtain b0 b1 bs where h: "h = b0 # b1 # bs"
  proof -
    have "length h = 32" using sha256_size by (simp add: h_def)
    then show ?thesis using that by (cases h; cases "tl h") auto
  qed
  define pm0 where "pm0 = pm_Save pm False"
  define p where "p = PSingle \<lparr>pvalue = PBytes h, indexSetting = ShouldIndex\<rparr>"
  have sc: "\<not> isMetaKey ''__scatter__''" by (simp add: isMetaKey_def)
  have pm0: "distinct (map fst pm0)" "length pm0 < ReadPropertyMapReasonableLimit"
    "list_all (\<lambda>(n, d). data_storable d) pm0" "\<forall>(n, _) \<in> set pm0. \<not> isMetaKey n"
    using assms by (auto simp: putable_def pm_storable_def pm0_def pm_wf_def pm_Save_eq distinct_map_filter)
  have p: "data_storable p" by (simp add: p_def data_storable_def prop_storable_def prop_ok_def)
  have eq: "ensureSpecialProps E (key_bytes C ts) pm0 =
      Some (if unat b0 * 256 + unat b1 \<ge> 32768 then al_set pm0 ''__scatter__'' p else al_delete pm0 ''__scatter__'')"
    using h by (simp add: ensureSpecialProps_def Let_def MkProperty_def p_def flip: h_def)
  then show 1: "ensureSpecialProps E (key_bytes C ts) (pm_Save pm False) = Some (stored_map E ts pm)"
    by (simp add: stored_map_def pm0_def)
  have set_al: "set (al_set m n v) \<subseteq> insert (n, v) (set m)" "length (al_set m n v) \<le> Suc (length m)"
    for m :: PropertyMap and n v by (induction m) (auto split: if_splits)
  have m: "stored_map E ts pm = (if unat b0 * 256 + unat b1 \<ge> 32768 then al_set pm0 ''__scatter__'' p
      else al_delete pm0 ''__scatter__'')"
    using eq by (simp add: stored_map_def pm0_def)
  show "n \<noteq> ''__scatter__'' \<Longrightarrow> map_of (stored_map E ts pm) n = map_of (pm_Save pm False) n"
    by (simp add: m map_of_al_set map_of_al_delete pm0_def)
  show meta: "\<forall>(n, _) \<in> set (stored_map E ts pm). \<not> isMetaKey n"
    using pm0(4) sc set_al(1) [of pm0 "''__scatter__''" p] by (auto simp: m al_delete_def)
  then have "pm_Save (stored_map E ts pm) False = stored_map E ts pm"
    by (auto simp: pm_Save_eq filter_id_conv)
  moreover have "list_all (\<lambda>(n, d). data_storable d) (stored_map E ts pm)"
    using pm0(3) p set_al(1) [of pm0 "''__scatter__''" p] by (auto simp: m al_delete_def list_all_iff)
  moreover have "length (stored_map E ts pm) \<le> ReadPropertyMapReasonableLimit"
    using pm0(2) set_al(2) [of pm0 "''__scatter__''" p] le_trans [OF length_filter_le, of pm0]
    by (auto simp: m al_delete_def)
  moreover have "pm_wf (stored_map E ts pm)"
    using pm0(1) by (auto simp: m pm_wf_def distinct_al_set distinct_al_delete)
  ultimately show "pm_storable (stored_map E ts pm)" by (simp add: pm_storable_def)
qed

lemma stored_bytes:
  assumes pm: "pm_storable pm" "\<forall>(n, _) \<in> set pm. \<not> isMetaKey n" and ts: "\<not> special_toks ts"
  obtains bs pm' where "ToBytesWithContext C (e_detmaps E) (SPropertyMap pm) = Some bs"
    "readPropMap E bs = Inr pm'" "map_of pm' = map_of pm" "record_ok E ts bs"
proof -
  obtain bs pm' where bs: "WritePropertyMap C (e_detmaps E) True pm = Some bs"
    "ReadPropertyMap C True no_ctx (bs @ []) = Inr (pm', [])" "pm_wf pm'"
    "map_of pm' = (\<lambda>k. map_option (recontext_data True True no_ctx) (map_of (pm_Save pm False) k))"
    using ReadPropertyMap_Write [OF cmpbin_reads pm(1), where det = "e_detmaps E" and wctx = True
      and rctx = True and inKC = no_ctx and rest = "[]"] by metis
  have save: "pm_Save pm False = pm" using pm(2) by (auto simp: pm_Save_eq filter_id_conv)
  have m: "map_of pm' = map_of pm" unfolding bs(4) save
    by (rule ext) (simp add: recontext_id option.map_ident)
  have "distinct (map fst pm)" "distinct (map fst pm')" using pm(1) bs(3) by (simp_all add: pm_storable_def pm_wf_def)
  then have set: "set pm' = set pm" using m map_of_inject_set by blast
  have len: "length pm' = length pm"
    using set \<open>distinct (map fst pm)\<close> \<open>distinct (map fst pm')\<close> by (metis distinct_card distinct_map)
  have meta: "\<forall>(n, _) \<in> set pm'. \<not> isMetaKey n" using pm(2) set by simp
  then have "pm_Save pm' False = pm'" by (auto simp: pm_Save_eq filter_id_conv)
  then have "pm_storable pm'" using pm(1) bs(3) set len save by (simp add: pm_storable_def list_all_iff)
  moreover have "readPropMap E bs = Inr pm'" using bs(2) by (simp add: readPropMap_def)
  ultimately show ?thesis
    using that bs(1) m meta ts by (simp add: ToBytesWithContext_def toBytesErr_def record_ok_def)
qed

section \<open>Put and delete\<close>

text \<open>Where two states agree: on all entities but one, and on all versions but one.\<close>

definition agree_except :: "'s \<Rightarrow> 's \<Rightarrow> string \<Rightarrow> KeyTok list \<Rightarrow> bool" where
  "agree_except s' s ns ts \<longleftrightarrow>
     (\<forall>ms us. toks_storable us \<longrightarrow> (ms, us) \<noteq> (ns, ts) \<longrightarrow> (ms, us) \<noteq> (ns, meta_toks (hd ts)) \<longrightarrow>
        stored E s' ms us = stored E s ms us)"

lemma bump_group:
  assumes d: "ds_ok E d" "has (head d) (ents_coll ns)" "\<not> disableSpecialEntities d"
    and k: "toks_storable (toks k)"
  obtains s' where "bump_group E d (ents_coll ns) k = Some (d\<lparr>head := s'\<rparr>)"
    "ds_ok E (d\<lparr>head := s'\<rparr>)" "has s' = has (head d)" "\<And>n. n \<noteq> ents_coll ns \<Longrightarrow> get s' n = get (head d) n"
    "version E s' ns (hd (toks k)) = version E (head d) ns (hd (toks k)) + 1"
    "\<And>ms us. toks_storable us \<Longrightarrow> (ms, us) \<noteq> (ns, meta_toks (hd (toks k))) \<Longrightarrow>
      stored E s' ms us = stored E (head d) ms us"
proof -
  let ?ts = "meta_toks (hd (toks k))"
  have ne: "toks k \<noteq> []" "tok_storable (hd (toks k))" using k by (cases "toks k"; simp add: toks_storable_def)+
  obtain s' where s': "incrementLocked E (head d) (ents_coll ns) (key_bytes C ?ts) 1 =
      Some (counter E (head d) ns ?ts + 1, s')" "rw s'" "store_ok E s'" "has s' = has (head d)"
    "\<And>n. n \<noteq> ents_coll ns \<Longrightarrow> get s' n = get (head d) n" "counter E s' ns ?ts = counter E (head d) ns ?ts + 1"
    "\<And>ms us. toks_storable us \<Longrightarrow> (ms, us) \<noteq> (ns, ?ts) \<Longrightarrow> stored E s' ms us = stored E (head d) ms us"
    using incrementLocked [of "head d" ns ?ts 1] d special_storable(1) [OF ne(2)] special_special(1)
    by (auto simp: ds_ok_def)
  show ?thesis
    by (rule that [of s']) (use s' d(3) in \<open>simp_all add: bump_group_def group_keys [OF ne(1)] ds_ok_def version_def\<close>)
qed

text \<open>Changing one entity and its index rows.\<close>

lemma change_entity:
  assumes s: "rw s" "store_ok E s" "has s (ents_coll (Key_Namespace k))" and k: "user_toks (toks k)"
    and s1: "rw s1" "has s1 = has s" "\<forall>n. n \<noteq> ents_coll (Key_Namespace k) \<longrightarrow> get s1 n = get s n" "store_ok E s1"
    and upd: "updateIndexes E s1 k old new = Some s2"
  shows "rw s2" "store_ok E s2" "stored E s2 = stored E s1" "has s2 (ents_coll ns) = has s (ents_coll ns)"
    "rows s2 ''idx'' = rows s ''idx''" "has s2 ''idx'' = has s ''idx''"
    "n \<in> range (idx_coll (Key_Namespace k)) \<or> n = ents_coll (Key_Namespace k) \<or>
      has s2 n = has s n \<and> get s2 n = get s n"
    "rows s2 (idx_coll (Key_Namespace k) b) = rows s (idx_coll (Key_Namespace k) b) -
      ent_rows k old (comp_idxs s) b \<union> ent_rows k new (comp_idxs s) b"
proof -
  let ?ns = "Key_Namespace k"
  have ne: "toks k \<noteq> []" using k by (simp add: user_toks_def toks_storable_def)
  obtain s' where s': "updateIndexes E s1 k old new = Some s'" "rw s'" "\<And>n. has s1 n \<Longrightarrow> has s' n"
    "\<And>n. n \<notin> range (idx_coll ?ns) \<Longrightarrow> has s' n = has s1 n \<and> get s' n = get s1 n"
    "\<And>b. rows s' (idx_coll ?ns b) = rows s1 (idx_coll ?ns b) -
       ent_rows k old (comp_idxs s1) b \<union> ent_rows k new (comp_idxs s1) b"
    using updateIndexes [OF ne s1(1) store_okD(1) [OF s1(4)]] by metis
  have eq: "s' = s2" using s'(1) upd by simp
  have ents: "ents_coll ms \<notin> range (idx_coll ?ns)" "''idx'' \<notin> range (idx_coll ?ns)" for ms by auto
  have rows1: "n \<noteq> ents_coll ?ns \<Longrightarrow> rows s1 n = rows s n" for n using s1(2,3) by (simp add: rows_def)
  have comp: "comp_idxs s1 = comp_idxs s" using s1(2) rows1 by (intro comp_idxs_cong) simp_all
  show "rw s2" using s'(2) eq by simp
  show "stored E s2 = stored E s1" using s'(4) ents(1) eq by (intro stored_congs) blast
  show "store_ok E s2"
    using s1(4) s'(4) [OF ents(1)] s'(4) [OF ents(2)] unfolding eq store_ok_def by simp
  show "has s2 (ents_coll ns) = has s (ents_coll ns)" using s'(4) [OF ents(1)] eq s1(2) by simp
  show "rows s2 ''idx'' = rows s ''idx''" "has s2 ''idx'' = has s ''idx''"
    using s'(4) [OF ents(2)] eq s1(2) s1(3) by (simp_all add: rows_def)
  show "n \<in> range (idx_coll ?ns) \<or> n = ents_coll ?ns \<or> has s2 n = has s n \<and> get s2 n = get s n"
    using s'(4) eq s1(2,3) by metis
  show "rows s2 (idx_coll ?ns b) = rows s (idx_coll ?ns b) - ent_rows k old (comp_idxs s) b \<union> ent_rows k new (comp_idxs s) b"
    using s'(5) [of b] rows1 [of "idx_coll ?ns b"] eq comp by simp
qed

lemma user_not_meta: "user_toks ts \<Longrightarrow> ts \<noteq> meta_toks r"
  by (auto simp: user_toks_def special_special)

text \<open>An entity that is stored can be read.\<close>

lemma read_entity:
  assumes "store_ok E s" "toks_storable ts" "\<not> special_toks ts"
  shows "(stored E s ns ts = None \<and> ent_pm E s ns ts = None) \<or>
    (\<exists>v pm. stored E s ns ts = Some v \<and> readPropMap E v = Inr pm \<and> ent_pm E s ns ts = Some pm)"
proof (cases "stored E s ns ts")
  case (Some v)
  then show ?thesis using store_okD(2) [OF assms(1) Some assms(2)] assms(3) by (auto simp: record_ok_def ent_pm_def)
qed (simp add: ent_pm_def)

lemma delete_record:
  assumes s: "rw s" "store_ok E s" "has s (ents_coll ns)" and ts: "toks_storable ts"
  defines "s' \<equiv> tc_Delete T s (ents_coll ns) (key_bytes C ts)"
  shows "rw s'" "store_ok E s'" "has s' = has s" "\<And>n. n \<noteq> ents_coll ns \<Longrightarrow> get s' n = get s n"
    "stored E s' ns ts = None"
    "\<And>ms us. toks_storable us \<Longrightarrow> (ms, us) \<noteq> (ns, ts) \<Longrightarrow> stored E s' ms us = stored E s ms us"
proof -
  have g: "get s' = (get s)(ents_coll ns := (get s (ents_coll ns))(key_bytes C ts := None))"
    using s by (simp add: s'_def)
  show "rw s'" and h: "has s' = has s" using s by (simp_all add: s'_def)
  show "\<And>n. n \<noteq> ents_coll ns \<Longrightarrow> get s' n = get s n" by (simp add: g)
  show "stored E s' ns ts = None" using s(3) by (simp add: stored_def h g)
  show "stored E s' ms us = stored E s ms us" if "toks_storable us" "(ms, us) \<noteq> (ns, ts)" for ms us
    using that key_bytes_inj [OF cmpbin_reads that(1) ts(1)] by (auto simp: stored_def h g)
  show "store_ok E s'"
    using s(2) ts unfolding store_ok_def h g by (auto split: if_splits)
qed

lemma meta_same:
  assumes "user_toks ts"
    and "\<And>ms us. toks_storable us \<Longrightarrow> (ms, us) \<noteq> (ns, ts) \<Longrightarrow> stored E s' ms us = stored E s ms us"
  shows "version E s' ns (hd ts) = version E s ns (hd ts)"
proof -
  have "tok_storable (hd ts)" using assms(1) by (cases ts) (auto simp: user_toks_def toks_storable_def)
  then show ?thesis
    using assms(2) [of "meta_toks (hd ts)" ns] special_storable(1) user_not_meta [OF assms(1), symmetric]
    unfolding version_def by (intro views_stored(3)) auto
qed

lemma put_key:
  assumes d: "ds_ok E d" "has (head d) (ents_coll (Key_Namespace k))" "\<not> disableSpecialEntities d"
    and k: "user_toks (toks k)" and pm: "putable pm"
  obtains s' where "put_key E d (Key_Namespace k) k (pm_Save pm False) = Some ((k, None), d\<lparr>head := s'\<rparr>)"
    "ds_ok E (d\<lparr>head := s'\<rparr>)"
    "entity E s' (Key_Namespace k) (toks k) = Some (map_of (stored_map E (toks k) pm))"
    "version E s' (Key_Namespace k) (hd (toks k)) = version E (head d) (Key_Namespace k) (hd (toks k)) + 1"
    "agree_except s' (head d) (Key_Namespace k) (toks k)"
    "rows s' ''idx'' = rows (head d) ''idx''" "has s' ''idx'' = has (head d) ''idx''"
    "\<And>n. n \<in> range (idx_coll (Key_Namespace k)) \<or> n = ents_coll (Key_Namespace k) \<or>
      has s' n = has (head d) n \<and> get s' n = get (head d) n"
    "\<And>b. rows s' (idx_coll (Key_Namespace k) b) = rows (head d) (idx_coll (Key_Namespace k) b) -
      ent_rows k (ent_pm E (head d) (Key_Namespace k) (toks k)) (comp_idxs (head d)) b \<union>
      ent_rows k (Some (stored_map E (toks k) pm)) (comp_idxs (head d)) b"
proof -
  let ?ns = "Key_Namespace k" and ?ts = "toks k" and ?pm = "stored_map E (toks k) pm"
  have ts: "toks_storable ?ts" "\<not> special_toks ?ts" "?ts \<noteq> []" using k by (auto simp: user_toks_def toks_storable_def)
  obtain s0 where s0: "bump_group E d (ents_coll ?ns) k = Some (d\<lparr>head := s0\<rparr>)"
    "ds_ok E (d\<lparr>head := s0\<rparr>)" "has s0 = has (head d)" "\<And>n. n \<noteq> ents_coll ?ns \<Longrightarrow> get s0 n = get (head d) n"
    "version E s0 ?ns (hd ?ts) = version E (head d) ?ns (hd ?ts) + 1"
    "\<And>ms us. toks_storable us \<Longrightarrow> (ms, us) \<noteq> (?ns, meta_toks (hd ?ts)) \<Longrightarrow> stored E s0 ms us = stored E (head d) ms us"
    using bump_group [OF d ts(1)] by metis
  have ok0: "rw s0" "store_ok E s0" "has s0 (ents_coll ?ns)" using s0(2,3) d(2) by (simp_all add: ds_ok_def)
  have rd: "rw (head d)" "store_ok E (head d)" using d(1) by (simp_all add: ds_ok_def)
  have st0: "stored E s0 ?ns ?ts = stored E (head d) ?ns ?ts"
    using s0(6) ts(1) user_not_meta [OF k] by blast
  obtain bs pm' where bs: "ToBytesWithContext C (e_detmaps E) (SPropertyMap ?pm) = Some bs"
    "readPropMap E bs = Inr pm'" "map_of pm' = map_of ?pm" "record_ok E ?ts bs"
    using stored_bytes [OF stored_map(2,3) [OF pm] ts(2)] by metis
  define s1 where "s1 = tc_Put T s0 (ents_coll ?ns) (key_bytes C ?ts, bs)"
  note p = put_record [OF ok0 ts(1) bs(4), folded s1_def]
  define old where "old = ent_pm E (head d) ?ns ?ts"
  have old: "(case get s0 (ents_coll ?ns) (key_bytes C ?ts) of None \<Rightarrow> Inr None
      | Some v \<Rightarrow> map_sum id Some (readPropMap E v)) = Inr old"
    using read_entity [OF ok0(2) ts(1,2), of ?ns] ok0(3) st0 views_stored(1) [OF st0]
    by (auto simp: old_def stored_def)
  obtain s2 where s2: "updateIndexes E s1 k old (Some ?pm) = Some s2"
    using updateIndexes [OF ts(3) p(1) store_okD(1) [OF p(2)]] by metis
  have s1: "has s1 = has (head d)" "\<forall>n. n \<noteq> ents_coll ?ns \<longrightarrow> get s1 n = get (head d) n"
    using p(3,4) s0(3,4) by simp_all
  note c = change_entity [OF rd d(2) k p(1) s1 p(2) s2]
  show ?thesis
  proof (rule that [of s2])
    show "put_key E d ?ns k (pm_Save pm False) = Some ((k, None), d\<lparr>head := s2\<rparr>)"
      using s0(1) stored_map(1) [OF pm, of ?ts] old bs(1) s2
      by (simp add: put_key_def keyBytes_eq Let_def s1_def)
    show "ds_ok E (d\<lparr>head := s2\<rparr>)" using c(1,2) by (simp add: ds_ok_def)
    show "entity E s2 ?ns ?ts = Some (map_of ?pm)"
      using p(5) c(3) bs(2,3) by (simp add: entity_def ent_pm_def)
    show "version E s2 ?ns (hd ?ts) = version E (head d) ?ns (hd ?ts) + 1"
      using s0(5) meta_same [OF k, of ?ns s2 s0] p(6) c(3) by simp
    show "agree_except s2 (head d) ?ns ?ts"
      unfolding agree_except_def
    proof (intro allI impI)
      fix ms us assume us: "toks_storable us" "(ms, us) \<noteq> (?ns, ?ts)" "(ms, us) \<noteq> (?ns, meta_toks (hd ?ts))"
      have "stored E s2 ms us = stored E s1 ms us" by (simp only: c(3))
      also have "\<dots> = stored E s0 ms us" using us(1,2) by (rule p(6))
      also have "\<dots> = stored E (head d) ms us" using us(1,3) by (rule s0(6))
      finally show "stored E s2 ms us = stored E (head d) ms us" .
    qed
  qed (use c in \<open>simp_all add: old_def\<close>)
qed

lemma del_one:
  assumes d: "ds_ok E d" "\<not> disableSpecialEntities d" and k: "user_toks (toks k)"
  obtains s' where "del_one E d (Key_Namespace k) k = Some (None, d\<lparr>head := s'\<rparr>)"
    "ds_ok E (d\<lparr>head := s'\<rparr>)"
    "entity E s' (Key_Namespace k) (toks k) = None"
    "version E s' (Key_Namespace k) (hd (toks k)) = version E (head d) (Key_Namespace k) (hd (toks k)) + 1"
    "agree_except s' (head d) (Key_Namespace k) (toks k)"
    "rows s' ''idx'' = rows (head d) ''idx''" "has s' ''idx'' = has (head d) ''idx''"
    "\<And>n. n \<in> range (idx_coll (Key_Namespace k)) \<or> n = ents_coll (Key_Namespace k) \<or>
      has s' n = has (head d) n \<and> get s' n = get (head d) n"
    "\<And>b. rows s' (idx_coll (Key_Namespace k) b) = rows (head d) (idx_coll (Key_Namespace k) b) -
      ent_rows k (ent_pm E (head d) (Key_Namespace k) (toks k)) (comp_idxs (head d)) b"
proof -
  let ?ns = "Key_Namespace k" and ?ts = "toks k" and ?d = "open_ents E d (Key_Namespace k)"
  have ts: "toks_storable ?ts" "\<not> special_toks ?ts" "?ts \<noteq> []" using k by (auto simp: user_toks_def toks_storable_def)
  note o = open_ents [OF d(1), where ns = ?ns]
  obtain s0 where s0: "bump_group E ?d (ents_coll ?ns) k = Some (?d\<lparr>head := s0\<rparr>)"
    "ds_ok E (?d\<lparr>head := s0\<rparr>)" "has s0 = has (head ?d)" "\<And>n. n \<noteq> ents_coll ?ns \<Longrightarrow> get s0 n = get (head ?d) n"
    "version E s0 ?ns (hd ?ts) = version E (head ?d) ?ns (hd ?ts) + 1"
    "\<And>ms us. toks_storable us \<Longrightarrow> (ms, us) \<noteq> (?ns, meta_toks (hd ?ts)) \<Longrightarrow> stored E s0 ms us = stored E (head ?d) ms us"
    using bump_group [of ?d ?ns k] o(1,2,6) d(2) ts(1) by metis
  have ok0: "rw s0" "store_ok E s0" "has s0 (ents_coll ?ns)" using s0(2,3) o(2) by (simp_all add: ds_ok_def)
  have rd: "rw (head ?d)" "store_ok E (head ?d)" "has (head ?d) (ents_coll ?ns)" using o(1,2) by (simp_all add: ds_ok_def)
  have st0: "stored E s0 ?ns ?ts = stored E (head d) ?ns ?ts"
    using s0(6) ts(1) user_not_meta [OF k] o(3) by simp
  have del: "del_one E d ?ns k =
      (case stored E s0 ?ns ?ts of
         None \<Rightarrow> Some (None, d\<lparr>head := s0\<rparr>)
       | Some old \<Rightarrow> (case readPropMap E old of
            Inl e \<Rightarrow> Some (Some (ErrRead e), d\<lparr>head := s0\<rparr>)
          | Inr oldPM \<Rightarrow> map_option (\<lambda>h. (None, d\<lparr>head := h\<rparr>))
              (updateIndexes E (tc_Delete T s0 (ents_coll ?ns) (key_bytes C ?ts)) k (Some oldPM) None)))"
    using s0(1) ok0(3) o(10) by (simp add: del_one_def keyBytes_eq Let_def stored_def split: option.splits sum.splits)
  from read_entity [OF ok0(2) ts(1,2), of ?ns] show ?thesis
  proof (elim disjE exE conjE)
    assume none: "stored E s0 ?ns ?ts = None" "ent_pm E s0 ?ns ?ts = None"
    show ?thesis
    proof (rule that [of s0])
      show "rows s0 ''idx'' = rows (head d) ''idx''" "has s0 ''idx'' = has (head d) ''idx''"
        using s0(3,4) o(9) by (simp_all add: rows_def)
      show "n \<in> range (idx_coll ?ns) \<or> n = ents_coll ?ns \<or> has s0 n = has (head d) n \<and> get s0 n = get (head d) n" for n
        using s0(3,4) o(9) by metis
      show "rows s0 (idx_coll ?ns b) = rows (head d) (idx_coll ?ns b) -
          ent_rows k (ent_pm E (head d) ?ns ?ts) (comp_idxs (head d)) b" for b
        using s0(3,4) o(9) none(2) views_stored(1) [OF st0] by (simp add: rows_def ent_rows_def)
    qed (use del none s0(2,5,6) o in \<open>simp_all add: entity_def agree_except_def\<close>)
  next
    fix v pm
    assume some: "stored E s0 ?ns ?ts = Some v" "readPropMap E v = Inr pm" "ent_pm E s0 ?ns ?ts = Some pm"
    define s1 where "s1 = tc_Delete T s0 (ents_coll ?ns) (key_bytes C ?ts)"
    note p = delete_record [OF ok0 ts(1), folded s1_def]
    obtain s2 where s2: "updateIndexes E s1 k (Some pm) None = Some s2"
      using updateIndexes [OF ts(3) p(1) store_okD(1) [OF p(2)]] by metis
    have s1: "has s1 = has (head ?d)" "\<forall>n. n \<noteq> ents_coll ?ns \<longrightarrow> get s1 n = get (head ?d) n"
      using p(3,4) s0(3,4) by simp_all
    note c = change_entity [OF rd k p(1) s1 p(2) s2]
    show ?thesis
    proof (rule that [of s2])
      show "del_one E d ?ns k = Some (None, d\<lparr>head := s2\<rparr>)" using del some s2 by (simp flip: s1_def)
      show "ds_ok E (d\<lparr>head := s2\<rparr>)" using c(1,2) by (simp add: ds_ok_def)
      show "entity E s2 ?ns ?ts = None" using p(5) c(3) by (simp add: entity_def ent_pm_def)
      show "version E s2 ?ns (hd ?ts) = version E (head d) ?ns (hd ?ts) + 1"
        using s0(5) meta_same [OF k, of ?ns s2 s0] p(6) c(3) o(7) by simp
      show "agree_except s2 (head d) ?ns ?ts"
        unfolding agree_except_def
      proof (intro allI impI)
        fix ms us assume us: "toks_storable us" "(ms, us) \<noteq> (?ns, ?ts)" "(ms, us) \<noteq> (?ns, meta_toks (hd ?ts))"
        have "stored E s2 ms us = stored E s1 ms us" by (simp only: c(3))
        also have "\<dots> = stored E s0 ms us" using us(1,2) by (rule p(6))
        also have "\<dots> = stored E (head ?d) ms us" using us(1,3) by (rule s0(6))
        finally show "stored E s2 ms us = stored E (head d) ms us" by (simp only: o(3))
      qed
      show "rows s2 ''idx'' = rows (head d) ''idx''" "has s2 ''idx'' = has (head d) ''idx''"
        using c(5,6) o(5,9) by simp_all
      show "n \<in> range (idx_coll ?ns) \<or> n = ents_coll ?ns \<or> has s2 n = has (head d) n \<and> get s2 n = get (head d) n" for n
        using c(7) [of n] o(9) by metis
      show "rows s2 (idx_coll ?ns b) = rows (head d) (idx_coll ?ns b) -
          ent_rows k (ent_pm E (head d) ?ns ?ts) (comp_idxs (head d)) b" for b
        using c(8) [of b] o(5,8) some(3) views_stored(1) [OF st0] by (simp add: ent_rows_def)
    qed
  qed
qed

end

end
