(* ===== verification/Datastore_Props.thy ===== *)
theory Datastore_Props
  imports Datastore_Inv Wire_Instance
begin

text \<open>
  What the in-memory datastore guarantees: puts and deletes refine updates of a map from keys to
  entities, with a version per entity group that counts its writes, and a transaction commits
  exactly when no group it writes has been written since it began.
\<close>

section \<open>An environment\<close>

definition simple_env :: "(bool \<times> (string \<times> storeEntry list) list) dsenv" where
  "simple_env =
     \<lparr>e_cmpbin = simple_cmpbin, e_store = simple_treapstore, e_sha256 = \<lambda>_. replicate 32 0,
      e_detmaps = False, e_detser = False\<rparr>"

interpretation simple_ds: ds_env simple_env
proof -
  have "treap (e_store simple_env)" by (simp add: simple_env_def simple_ts.treap_axioms)
  then show "ds_env simple_env"
    by (rule ds_env.intro) (unfold_locales, simp_all add: simple_env_def simple_cmpbin_ok simple_cmpbin_sorted)
qed

section \<open>The abstract datastore\<close>

text \<open>Entities by namespace and key path, and a version for every entity group.\<close>

record ads =
  a_ents :: "string \<Rightarrow> KeyTok list \<Rightarrow> (string \<rightharpoonup> PropertyData) option"
  a_vers :: "string \<Rightarrow> KeyTok \<Rightarrow> int64"

definition abs_ds :: "'s dsenv \<Rightarrow> 's dataStoreData \<Rightarrow> ads" where
  "abs_ds E d =
     \<lparr>a_ents = \<lambda>ns ts. if user_toks ts then entity E (head d) ns ts else None,
      a_vers = \<lambda>ns r. if tok_storable r then version E (head d) ns r else 0\<rparr>"

definition a_bump :: "ads \<Rightarrow> string \<Rightarrow> KeyTok list \<Rightarrow> ads" where
  "a_bump a ns ts = a\<lparr>a_vers := (a_vers a)(ns := (a_vers a ns)(hd ts := a_vers a ns (hd ts) + 1))\<rparr>"

definition a_write :: "ads \<Rightarrow> string \<Rightarrow> KeyTok list \<Rightarrow> (string \<rightharpoonup> PropertyData) option \<Rightarrow> ads" where
  "a_write a ns ts v = (a_bump a ns ts)\<lparr>a_ents := (a_ents a)(ns := (a_ents a ns)(ts := v))\<rparr>"

context ds_env begin

lemma user_hd: "user_toks ts \<Longrightarrow> tok_storable (hd ts)"
  by (cases ts) (auto simp: user_toks_def toks_storable_def)

text \<open>The two views of a state, from what is stored.\<close>

lemma abs_write:
  assumes k: "user_toks ts" and e: "entity E s' ns ts = v"
    and v: "version E s' ns (hd ts) = version E (head d) ns (hd ts) + 1" and a: "agree_except s' (head d) ns ts"
  shows "abs_ds E (d\<lparr>head := s'\<rparr>) = a_write (abs_ds E d) ns ts v"
proof -
  have ents: "entity E s' ms us = entity E (head d) ms us" if "user_toks us" "(ms, us) \<noteq> (ns, ts)" for ms us
    using a that user_not_meta [OF that(1)] unfolding agree_except_def
    by (intro views_stored(2)) (auto simp: user_toks_def)
  have vers: "version E s' ms r = version E (head d) ms r" if "tok_storable r" "(ms, r) \<noteq> (ns, hd ts)" for ms r
  proof -
    have "(ms, meta_toks r) \<noteq> (ns, ts)" using user_not_meta [OF k] by auto
    moreover have "(ms, meta_toks r) \<noteq> (ns, meta_toks (hd ts))" using that(2) by auto
    ultimately show ?thesis
      using a special_storable(1) [OF that(1)] unfolding agree_except_def version_def
      by (intro views_stored(3)) simp
  qed
  show ?thesis
    using k e v ents vers user_hd [OF k] by (auto simp: abs_ds_def a_write_def a_bump_def fun_eq_iff)
qed

lemma fixKeyLocked_complete: "Key_IsIncomplete k = Some False \<Longrightarrow> fixKeyLocked E d n k = Some (Inr k, d)"
  by (simp add: fixKeyLocked_def)

lemma user_complete: "user_toks (toks k) \<Longrightarrow> Key_IsIncomplete k = Some False"
  by (cases "toks k" rule: rev_cases)
    (auto simp: Key_IsIncomplete_def LastTok_def user_toks_def toks_storable_def tok_storable_def KeyTok_IsIncomplete_def
      split: if_splits)

lemma put_one_complete:
  assumes d: "ds_ok E d" "\<not> disableSpecialEntities d" and k: "user_toks (toks k)" and pm: "putable pm"
  obtains s' where "put_one E d (Key_Namespace k) k (pm_Save pm False) = Some ((k, None), d\<lparr>head := s'\<rparr>)"
    "ds_ok E (d\<lparr>head := s'\<rparr>)"
    "abs_ds E (d\<lparr>head := s'\<rparr>) = a_write (abs_ds E d) (Key_Namespace k) (toks k) (Some (map_of (stored_map E (toks k) pm)))"
    "agree_except s' (head d) (Key_Namespace k) (toks k)"
    "version E s' (Key_Namespace k) (hd (toks k)) = version E (head d) (Key_Namespace k) (hd (toks k)) + 1"
    "rows s' ''idx'' = rows (head d) ''idx''" "has s' ''idx'' = has (head d) ''idx''"
    "\<And>n. n \<in> range (idx_coll (Key_Namespace k)) \<or> n = ents_coll (Key_Namespace k) \<or>
      has s' n = has (head d) n \<and> get s' n = get (head d) n"
    "\<And>b. rows s' (idx_coll (Key_Namespace k) b) = rows (head d) (idx_coll (Key_Namespace k) b) -
      ent_rows k (ent_pm E (head d) (Key_Namespace k) (toks k)) (comp_idxs (head d)) b \<union>
      ent_rows k (Some (stored_map E (toks k) pm)) (comp_idxs (head d)) b"
proof -
  let ?d = "open_ents E d (Key_Namespace k)"
  note o = open_ents [OF d(1), where ns = "Key_Namespace k"]
  obtain s' where s': "put_key E ?d (Key_Namespace k) k (pm_Save pm False) = Some ((k, None), ?d\<lparr>head := s'\<rparr>)"
    "ds_ok E (?d\<lparr>head := s'\<rparr>)" "entity E s' (Key_Namespace k) (toks k) = Some (map_of (stored_map E (toks k) pm))"
    "version E s' (Key_Namespace k) (hd (toks k)) = version E (head ?d) (Key_Namespace k) (hd (toks k)) + 1"
    "agree_except s' (head ?d) (Key_Namespace k) (toks k)"
    "rows s' ''idx'' = rows (head ?d) ''idx''" "has s' ''idx'' = has (head ?d) ''idx''"
    "\<And>n. n \<in> range (idx_coll (Key_Namespace k)) \<or> n = ents_coll (Key_Namespace k) \<or>
      has s' n = has (head ?d) n \<and> get s' n = get (head ?d) n"
    "\<And>b. rows s' (idx_coll (Key_Namespace k) b) = rows (head ?d) (idx_coll (Key_Namespace k) b) -
      ent_rows k (ent_pm E (head ?d) (Key_Namespace k) (toks k)) (comp_idxs (head ?d)) b \<union>
      ent_rows k (Some (stored_map E (toks k) pm)) (comp_idxs (head ?d)) b"
    using put_key [OF o(1,2) _ k pm] o(6) d(2) by metis
  have a: "agree_except s' (head d) (Key_Namespace k) (toks k)" using s'(5) o(3) by (simp add: agree_except_def)
  have put: "put_one E d (Key_Namespace k) k (pm_Save pm False) = Some ((k, None), d\<lparr>head := s'\<rparr>)"
    using s'(1) o(10) by (simp add: put_one_eq fixKeyLocked_complete [OF user_complete [OF k]])
  have v: "version E s' (Key_Namespace k) (hd (toks k)) = version E (head d) (Key_Namespace k) (hd (toks k)) + 1"
    using s'(4) o(7) by simp
  show ?thesis
  proof (rule that [OF put _ abs_write [OF k s'(3) v a] a v])
    show "ds_ok E (d\<lparr>head := s'\<rparr>)" using s'(2) o(10) by simp
    show "rows s' ''idx'' = rows (head d) ''idx''" "has s' ''idx'' = has (head d) ''idx''"
      using s'(6,7) o(5,9) by simp_all
    show "n \<in> range (idx_coll (Key_Namespace k)) \<or> n = ents_coll (Key_Namespace k) \<or>
        has s' n = has (head d) n \<and> get s' n = get (head d) n" for n
      using s'(8) [of n] o(9) by metis
    have "ent_pm E (head ?d) (Key_Namespace k) (toks k) = ent_pm E (head d) (Key_Namespace k) (toks k)"
      by (rule views_stored(1)) (simp only: o(3))
    then show "rows s' (idx_coll (Key_Namespace k) b) = rows (head d) (idx_coll (Key_Namespace k) b) -
        ent_rows k (ent_pm E (head d) (Key_Namespace k) (toks k)) (comp_idxs (head d)) b \<union>
        ent_rows k (Some (stored_map E (toks k) pm)) (comp_idxs (head d)) b" for b
      using s'(9) [of b] o(5,8) by simp
  qed
qed

lemma del_one_user:
  assumes d: "ds_ok E d" "\<not> disableSpecialEntities d" and k: "user_toks (toks k)"
  obtains s' where "del_one E d (Key_Namespace k) k = Some (None, d\<lparr>head := s'\<rparr>)"
    "ds_ok E (d\<lparr>head := s'\<rparr>)"
    "abs_ds E (d\<lparr>head := s'\<rparr>) = a_write (abs_ds E d) (Key_Namespace k) (toks k) None"
    "agree_except s' (head d) (Key_Namespace k) (toks k)"
    "version E s' (Key_Namespace k) (hd (toks k)) = version E (head d) (Key_Namespace k) (hd (toks k)) + 1"
    "rows s' ''idx'' = rows (head d) ''idx''" "has s' ''idx'' = has (head d) ''idx''"
    "\<And>n. n \<in> range (idx_coll (Key_Namespace k)) \<or> n = ents_coll (Key_Namespace k) \<or>
      has s' n = has (head d) n \<and> get s' n = get (head d) n"
    "\<And>b. rows s' (idx_coll (Key_Namespace k) b) = rows (head d) (idx_coll (Key_Namespace k) b) -
      ent_rows k (ent_pm E (head d) (Key_Namespace k) (toks k)) (comp_idxs (head d)) b"
proof -
  obtain s' where s': "del_one E d (Key_Namespace k) k = Some (None, d\<lparr>head := s'\<rparr>)"
    "ds_ok E (d\<lparr>head := s'\<rparr>)" "entity E s' (Key_Namespace k) (toks k) = None"
    "version E s' (Key_Namespace k) (hd (toks k)) = version E (head d) (Key_Namespace k) (hd (toks k)) + 1"
    "agree_except s' (head d) (Key_Namespace k) (toks k)"
    "rows s' ''idx'' = rows (head d) ''idx''" "has s' ''idx'' = has (head d) ''idx''"
    "\<And>n. n \<in> range (idx_coll (Key_Namespace k)) \<or> n = ents_coll (Key_Namespace k) \<or>
      has s' n = has (head d) n \<and> get s' n = get (head d) n"
    "\<And>b. rows s' (idx_coll (Key_Namespace k) b) = rows (head d) (idx_coll (Key_Namespace k) b) -
      ent_rows k (ent_pm E (head d) (Key_Namespace k) (toks k)) (comp_idxs (head d)) b"
    using del_one [OF assms] by metis
  show ?thesis using that [OF s'(1,2) abs_write [OF k s'(3,4,5)] s'(5,4,6-9)] .
qed

lemma putMulti_loop:
  assumes "ds_ok E d" "\<not> disableSpecialEntities d" "length pms = length ks"
    and "\<forall>k \<in> set ks. user_toks (toks k) \<and> Key_Namespace k = ns" "\<forall>pm \<in> set pms. putable pm"
  shows "\<exists>s'. put_loop E (\<lambda>_ _ _. None) d ns i ks (map Some pms) =
      Some (map (\<lambda>k. (k, None)) ks, None, d\<lparr>head := s'\<rparr>) \<and> ds_ok E (d\<lparr>head := s'\<rparr>) \<and>
    abs_ds E (d\<lparr>head := s'\<rparr>) = fold (\<lambda>(k, pm) a. a_write a ns (toks k) (Some (map_of (stored_map E (toks k) pm))))
      (zip ks pms) (abs_ds E d)"
  using assms
proof (induction ks arbitrary: pms d i)
  case Nil
  then show ?case by (intro exI [of _ "head d"]) simp
next
  case (Cons k ks)
  then obtain pm pms' where pms: "pms = pm # pms'" by (cases pms) auto
  have k: "user_toks (toks k)" "Key_Namespace k = ns" and pm: "putable pm" using Cons.prems pms by auto
  obtain s1 where s1: "put_one E d (Key_Namespace k) k (pm_Save pm False) = Some ((k, None), d\<lparr>head := s1\<rparr>)"
    "ds_ok E (d\<lparr>head := s1\<rparr>)"
    "abs_ds E (d\<lparr>head := s1\<rparr>) = a_write (abs_ds E d) (Key_Namespace k) (toks k) (Some (map_of (stored_map E (toks k) pm)))"
    using put_one_complete [OF Cons.prems(1,2) k(1) pm] by metis
  obtain s' where s': "put_loop E (\<lambda>_ _ _. None) (d\<lparr>head := s1\<rparr>) ns (i + 1) ks (map Some pms') =
      Some (map (\<lambda>k. (k, None)) ks, None, d\<lparr>head := s1\<rparr>\<lparr>head := s'\<rparr>)" "ds_ok E (d\<lparr>head := s1\<rparr>\<lparr>head := s'\<rparr>)"
    "abs_ds E (d\<lparr>head := s1\<rparr>\<lparr>head := s'\<rparr>) = fold (\<lambda>(k, pm) a. a_write a ns (toks k) (Some (map_of (stored_map E (toks k) pm))))
      (zip ks pms') (abs_ds E (d\<lparr>head := s1\<rparr>))"
    using Cons.IH [OF s1(2), of pms' "i + 1"] Cons.prems pms by auto
  then show ?case using s1 k pms by (intro exI [of _ s']) simp
qed

lemma delMulti_loop:
  assumes "ds_ok E d" "\<not> disableSpecialEntities d"
    and "\<forall>k \<in> set ks. user_toks (toks k) \<and> Key_Namespace k = ns"
  shows "\<exists>s'. del_loop E (\<lambda>_ _. None) d ns i ks = Some (map (\<lambda>_. None) ks, None, d\<lparr>head := s'\<rparr>) \<and>
    ds_ok E (d\<lparr>head := s'\<rparr>) \<and>
    abs_ds E (d\<lparr>head := s'\<rparr>) = fold (\<lambda>k a. a_write a ns (toks k) None) ks (abs_ds E d)"
  using assms
proof (induction ks arbitrary: d i)
  case Nil
  then show ?case by (intro exI [of _ "head d"]) simp
next
  case (Cons k ks)
  then have k: "user_toks (toks k)" "Key_Namespace k = ns" by auto
  obtain s1 where s1: "del_one E d (Key_Namespace k) k = Some (None, d\<lparr>head := s1\<rparr>)"
    "ds_ok E (d\<lparr>head := s1\<rparr>)"
    "abs_ds E (d\<lparr>head := s1\<rparr>) = a_write (abs_ds E d) (Key_Namespace k) (toks k) None"
    using del_one_user [OF Cons.prems(1,2) k(1)] by metis
  obtain s' where s': "del_loop E (\<lambda>_ _. None) (d\<lparr>head := s1\<rparr>) ns (i + 1) ks =
      Some (map (\<lambda>_. None) ks, None, d\<lparr>head := s1\<rparr>\<lparr>head := s'\<rparr>)" "ds_ok E (d\<lparr>head := s1\<rparr>\<lparr>head := s'\<rparr>)"
    "abs_ds E (d\<lparr>head := s1\<rparr>\<lparr>head := s'\<rparr>) = fold (\<lambda>k a. a_write a ns (toks k) None) ks (abs_ds E (d\<lparr>head := s1\<rparr>))"
    using Cons.IH [OF s1(2), of "i + 1"] Cons.prems by auto
  then show ?case using s1 k by (intro exI [of _ s']) simp
qed

lemma new_ok: "ds_ok E (newDataStoreData E a)" "\<not> disableSpecialEntities (newDataStoreData E a)"
  by (simp_all add: ds_ok_def store_ok_def newDataStoreData_def Let_def)

text \<open>Reading an entity of a store.\<close>

lemma get_one_entity:
  assumes "store_ok E s" "user_toks (toks k)"
  shows "\<exists>r. get_one E (ms_GetCollection T s (ents_coll ns)) k = Some r \<and>
    (case entity E s ns (toks k) of None \<Rightarrow> r = Inl ErrNoSuchEntity | Some m \<Rightarrow> \<exists>pm. r = Inr pm \<and> map_of pm = m)"
  using read_entity [of s "toks k" ns] assms
  by (auto simp: get_one_def ms_GetCollection_def keyBytes_eq stored_def entity_def user_toks_def)

lemma getMultiInner_entities:
  assumes "store_ok E s" "\<forall>k \<in> set ks. user_toks (toks k)"
  shows "\<exists>rs. getMultiInner E ks (ms_GetCollection T s (ents_coll ns)) = Some rs \<and>
    list_all2 (\<lambda>k r. case entity E s ns (toks k) of
      None \<Rightarrow> r = Inl ErrNoSuchEntity | Some m \<Rightarrow> \<exists>pm. r = Inr pm \<and> map_of pm = m) ks rs"
  using assms(2)
proof (induction ks)
  case (Cons k ks)
  then show ?case using get_one_entity [OF assms(1), of k ns] by auto
qed simp

end

section \<open>Properties\<close>

lemma map_of_strip: "map_of (stripSpecialProps pm) = (map_of pm)(''__scatter__'' := None)"
  by (simp add: stripSpecialProps_def map_of_al_delete)

text \<open>
  C3. The datastore refines a map from keys to entities, as long as it keeps the versions of entity groups (special entities
  are enabled, as \<^verbatim>\<open>newDataStoreData\<close> leaves them; with them disabled no version is kept). \<^verbatim>\<open>PutMulti\<close> of complete keys of users'
  entities in one namespace, with maps that can be stored (\<open>putable\<close>: as for the round trip of maps, so with times that are rounded and not
  the Unix epoch, and with less than 30000 properties), stores for each of them the properties given, metadata apart, in order, and increments the version of its entity
  group; \<^verbatim>\<open>DeleteMulti\<close> removes the keys and increments the versions likewise; both leave
  every other entity and version alone and keep the invariant; \<^verbatim>\<open>GetMulti\<close> returns the entity of
  each key, less the hidden \<^verbatim>\<open>__scatter__\<close> property unless that is to be shown, or \<^verbatim>\<open>ErrNoSuchEntity\<close>.
\<close>

theorem datastore_refines_map:
  assumes "ds_env E" "ds_ok E d" "\<not> disableSpecialEntities d" "ks \<noteq> []"
    and "\<forall>k \<in> set ks. user_toks (toks k) \<and> Key_Namespace k = ns"
    and "length pms = length ks" "\<forall>pm \<in> set pms. putable pm"
  shows "(\<exists>d'. putMulti E (\<lambda>_ _ _. None) d ks (map Some pms) = Some (map (\<lambda>k. (k, None)) ks, None, d') \<and>
      ds_ok E d' \<and>
      abs_ds E d' = fold (\<lambda>(k, pm) a. a_write a ns (toks k) (Some (map_of (stored_map E (toks k) pm))))
        (zip ks pms) (abs_ds E d)) \<and>
    (\<exists>d'. delMulti E (\<lambda>_ _. None) d ks = Some (map (\<lambda>_. None) ks, None, d') \<and> ds_ok E d' \<and>
      abs_ds E d' = fold (\<lambda>k a. a_write a ns (toks k) None) ks (abs_ds E d)) \<and>
    (\<exists>rs. getMulti E d ks = Some rs \<and>
      list_all2 (\<lambda>k r. case a_ents (abs_ds E d) ns (toks k) of
        None \<Rightarrow> r = Inl ErrNoSuchEntity
      | Some m \<Rightarrow> \<exists>pm. r = Inr pm \<and> map_of pm = (if showSpecialProps d then m else m(''__scatter__'' := None))) ks rs) \<and>
    (\<forall>pm \<in> set pms. \<forall>ts n. n \<noteq> ''__scatter__'' \<longrightarrow>
      map_of (stored_map E ts pm) n = (if isMetaKey n then None else map_of pm n))"
proof -
  obtain k0 where k0: "\<exists>ks'. ks = k0 # ks'" "Key_Namespace k0 = ns" using assms(4,5) by (cases ks) auto
  have put: "putMulti E (\<lambda>_ _ _. None) d ks (map Some pms) = put_loop E (\<lambda>_ _ _. None) d ns 0 ks (map Some pms)"
    using k0 by (auto simp: putMulti_def)
  have del: "delMulti E (\<lambda>_ _. None) d ks = del_loop E (\<lambda>_ _. None) (open_ents E d ns) ns 0 ks"
    using k0 by (auto simp: delMulti_def)
  note oe = ds_env.open_ents [OF assms(1,2), where ns = ns]
  have o: "ds_ok E (open_ents E d ns)" "\<not> disableSpecialEntities (open_ents E d ns)" "abs_ds E (open_ents E d ns) = abs_ds E d"
    using assms(3) oe(6) by (simp_all only: oe(1) abs_ds_def oe(4,7) not_False_eq_True)
  have get: "\<exists>rs. getMulti E d ks = Some rs \<and>
      list_all2 (\<lambda>k r. case a_ents (abs_ds E d) ns (toks k) of
        None \<Rightarrow> r = Inl ErrNoSuchEntity
      | Some m \<Rightarrow> \<exists>pm. r = Inr pm \<and> map_of pm = (if showSpecialProps d then m else m(''__scatter__'' := None))) ks rs"
  proof -
    have ok: "store_ok E (takeSnapshot E d)" "entity E (takeSnapshot E d) = entity E (head d)"
      using assms(2) ds_env.store_ok_Snapshot [OF assms(1)] ds_env.store_views_Snapshot(2) [OF assms(1)]
      by (auto simp: takeSnapshot_def ds_ok_def)
    obtain rs where rs: "getMultiInner E ks (ms_GetCollection (e_store E) (takeSnapshot E d) (ents_coll ns)) = Some rs"
      "list_all2 (\<lambda>k r. case entity E (head d) ns (toks k) of
        None \<Rightarrow> r = Inl ErrNoSuchEntity | Some m \<Rightarrow> \<exists>pm. r = Inr pm \<and> map_of pm = m) ks rs"
      using ds_env.getMultiInner_entities [OF assms(1) ok(1), of ks ns] assms(5) ok(2) by auto
    have "list_all2 (\<lambda>k r. case a_ents (abs_ds E d) ns (toks k) of
        None \<Rightarrow> r = Inl ErrNoSuchEntity
      | Some m \<Rightarrow> \<exists>pm. r = Inr pm \<and> map_of pm = (if showSpecialProps d then m else m(''__scatter__'' := None)))
      ks (map (stripSpecialPropsGetCB d) rs)"
      unfolding list_all2_map2
      by (rule list.rel_mono_strong [OF rs(2)])
        (use assms(5) in \<open>auto simp: abs_ds_def stripSpecialPropsGetCB_def map_of_strip split: option.splits\<close>)
    moreover have "getMulti E d ks = Some (map (stripSpecialPropsGetCB d) rs)"
      using rs(1) k0 by (auto simp: getMulti_def)
    ultimately show ?thesis by blast
  qed
  have stored: "map_of (stored_map E ts pm) n = (if isMetaKey n then None else map_of pm n)"
    if "pm \<in> set pms" "n \<noteq> ''__scatter__''" for pm ts n
  proof -
    have "map_of (filter (\<lambda>(k, _). \<not> isMetaKey k) pm) n = (if isMetaKey n then None else map_of pm n)"
      by (induction pm) auto
    then show ?thesis
      using ds_env.stored_map(4) [OF assms(1) bspec [OF assms(7) that(1)] that(2), of ts] by (simp add: pm_Save_eq)
  qed
  show ?thesis
    using ds_env.putMulti_loop [OF assms(1,2,3,6,5,7), of 0] ds_env.delMulti_loop [OF assms(1) o(1,2) assms(5), of 0] get stored
    unfolding put del o(3) by blast
qed

text \<open>A key and an entity for the examples.\<close>

definition ex_key :: "string \<Rightarrow> Key" where
  "ex_key ns = \<lparr>kc = MkKeyContext ''app'' ns, toks = [mkTok ''K'' 7 '''']\<rparr>"

definition ex_pm :: PropertyMap where
  "ex_pm = [(''a'', PSingle \<lparr>pvalue = PInt 1, indexSetting = ShouldIndex\<rparr>)]"

lemma ex_ok: "user_toks (toks (ex_key ns))" "Key_Namespace (ex_key ns) = ns" "putable ex_pm"
  "toks (ex_key ns) = [mkTok ''K'' 7 '''']" "hd (toks (ex_key ns)) = mkTok ''K'' 7 ''''"
  by (simp_all add: user_toks_def toks_storable_def special_toks_def ex_key_def mkTok_def tok_storable_def
      ReadKeyNumToksReasonableLimit_def Key_Namespace_def MkKeyContext_def putable_def pm_storable_def ex_pm_def pm_wf_def
      pm_Save_eq isMetaKey_def ReadPropertyMapReasonableLimit_def data_storable_def prop_storable_def prop_ok_def)

theorem datastore_refines_map_witness:
  "\<exists>d'. putMulti simple_env (\<lambda>_ _ _. None) (newDataStoreData simple_env ''app'') [ex_key ''n''] [Some ex_pm] =
      Some ([(ex_key ''n'', None)], None, d') \<and>
    a_ents (abs_ds simple_env d') ''n'' [mkTok ''K'' 7 ''''] \<noteq> None"
proof -
  note w = datastore_refines_map [OF simple_ds.ds_env_axioms simple_ds.new_ok [of "''app''"],
      where ks = "[ex_key ''n'']" and ns = "''n''" and pms = "[ex_pm]"]
  then obtain d' where "putMulti simple_env (\<lambda>_ _ _. None) (newDataStoreData simple_env ''app'') [ex_key ''n''] [Some ex_pm] =
      Some ([(ex_key ''n'', None)], None, d')"
    "abs_ds simple_env d' = a_write (abs_ds simple_env (newDataStoreData simple_env ''app'')) ''n''
      (toks (ex_key ''n'')) (Some (map_of (stored_map simple_env (toks (ex_key ''n'')) ex_pm)))"
    using ex_ok(1,2) [of "''n''"] ex_ok(3) by auto
  then show ?thesis by (simp add: a_write_def ex_ok)
qed

end
