(* ===== verification/Datastore_Txn.thy ===== *)
theory Datastore_Txn
  imports Datastore_Props
begin

text \<open>
  Transactions of the in-memory datastore. The lock is taken for one key at a time, so what
  happens between the snapshot of a transaction and its commit is a sequence of single puts,
  deletes and ID allocations, in any order.
\<close>

section \<open>Histories\<close>

datatype dop = OpPut Key PropertyMap | OpDelete Key | OpFixKey Key

definition exec_op :: "'s dsenv \<Rightarrow> 's dataStoreData \<Rightarrow> dop \<Rightarrow> 's dataStoreData option" where
  "exec_op E d op =
     (case op of
        OpPut k pm \<Rightarrow> map_option snd (put_one E d (Key_Namespace k) k (pm_Save pm False))
      | OpDelete k \<Rightarrow> map_option snd (del_one E d (Key_Namespace k) k)
      | OpFixKey k \<Rightarrow> map_option snd (fixKey E d k))"

fun run_ops :: "'s dsenv \<Rightarrow> 's dataStoreData \<Rightarrow> dop list \<Rightarrow> 's dataStoreData option" where
  "run_ops E d [] = Some d"
| "run_ops E d (op # ops) = Option.bind (exec_op E d op) (\<lambda>d. run_ops E d ops)"

definition op_ok :: "dop \<Rightarrow> bool" where
  "op_ok op =
     (case op of
        OpPut k pm \<Rightarrow> user_toks (toks k) \<and> putable pm
      | OpDelete k \<Rightarrow> user_toks (toks k)
      | OpFixKey k \<Rightarrow> toks k \<noteq> [] \<and> Kind (last (toks k)) \<noteq> '''' \<and> (length (toks k) > 1 \<longrightarrow> tok_storable (hd (toks k))))"

definition touches :: "string \<Rightarrow> KeyTok \<Rightarrow> dop \<Rightarrow> bool" where
  "touches ns r op =
     (case op of
        OpPut k _ \<Rightarrow> Key_Namespace k = ns \<and> hd (toks k) = r
      | OpDelete k \<Rightarrow> Key_Namespace k = ns \<and> hd (toks k) = r
      | OpFixKey _ \<Rightarrow> False)"

text \<open>How two states of a history differ: versions count the writes, and a group without writes
  is as it was.\<close>

definition counts :: "'s dsenv \<Rightarrow> 's \<Rightarrow> 's \<Rightarrow> dop list \<Rightarrow> bool" where
  "counts E s' s ops \<longleftrightarrow>
     (\<forall>ns r. tok_storable r \<longrightarrow>
        version E s' ns r = version E s ns r + of_nat (length (filter (touches ns r) ops))) \<and>
     (\<forall>ns ts. user_toks ts \<longrightarrow> (\<forall>op \<in> set ops. \<not> touches ns (hd ts) op) \<longrightarrow> stored E s' ns ts = stored E s ns ts)"

context ds_env begin

lemma counts_trans:
  "counts E s2 s1 ops \<Longrightarrow> counts E s1 s [op] \<Longrightarrow> counts E s2 s (op # ops)"
  unfolding counts_def by (auto split: if_splits)

lemma counts_write:
  assumes "user_toks (toks k)" "agree_except s' s (Key_Namespace k) (toks k)"
    and "version E s' (Key_Namespace k) (hd (toks k)) = version E s (Key_Namespace k) (hd (toks k)) + 1"
    and op: "\<And>ns r. touches ns r op \<longleftrightarrow> Key_Namespace k = ns \<and> hd (toks k) = r"
  shows "counts E s' s [op]"
proof -
  have "version E s' ns r = version E s ns r" if "tok_storable r" "(ns, r) \<noteq> (Key_Namespace k, hd (toks k))" for ns r
  proof -
    have "(ns, meta_toks r) \<noteq> (Key_Namespace k, toks k)" "(ns, meta_toks r) \<noteq> (Key_Namespace k, meta_toks (hd (toks k)))"
      using user_not_meta [OF assms(1), symmetric] that(2) by auto
    then show ?thesis
      using assms(2) special_storable(1) [OF that(1)] unfolding agree_except_def version_def
      by (intro views_stored(3)) simp
  qed
  moreover have "stored E s' ns ts = stored E s ns ts"
    if "user_toks ts" "(ns, hd ts) \<noteq> (Key_Namespace k, hd (toks k))" for ns ts
    using that assms(2) user_not_meta [OF that(1)] unfolding agree_except_def user_toks_def by auto
  ultimately show ?thesis using assms(3) op by (auto simp: counts_def)
qed

lemma counts_special:
  assumes "\<And>ms us. toks_storable us \<Longrightarrow> (ms, us) \<noteq> (ns, ts) \<Longrightarrow> stored E s' ms us = stored E s ms us"
    and "ts = ids_toks r' \<or> ts = root_ids_toks kind" and op: "\<And>ns r. \<not> touches ns r op"
  shows "counts E s' s [op]"
proof -
  have "meta_toks r \<noteq> ts" for r using assms(2) by (auto simp: mkTok_def)
  then have "version E s' ms r = version E s ms r" if "tok_storable r" for ms r
    unfolding version_def using assms(1) special_storable(1) [OF that] by (intro views_stored(3)) simp
  moreover have "stored E s' ms us = stored E s ms us" if "user_toks us" for ms us
  proof (rule assms(1))
    have "special_toks ts" using assms(2) special_special by metis
    then show "(ms, us) \<noteq> (ns, ts)" "toks_storable us" using that by (auto simp: user_toks_def)
  qed
  ultimately show ?thesis using op by (simp add: counts_def)
qed

lemma exec_fixKey:
  assumes d: "ds_ok E d" "\<not> disableSpecialEntities d" and op: "op_ok (OpFixKey k)"
  shows "\<exists>s'. exec_op E d (OpFixKey k) = Some (d\<lparr>head := s'\<rparr>) \<and> ds_ok E (d\<lparr>head := s'\<rparr>) \<and>
    counts E s' (head d) [OpFixKey k] \<and>
    (\<forall>n. n \<notin> range ents_coll \<longrightarrow> has s' n = has (head d) n \<and> get s' n = get (head d) n)"
proof (cases "Key_IsIncomplete k")
  case None
  then show ?thesis using op by (simp add: Key_IsIncomplete_def LastTok_def op_ok_def)
next
  case (Some inc)
  let ?ns = "Key_Namespace k" and ?d = "open_ents E d (Key_Namespace k)"
  show ?thesis
  proof (cases inc)
    case False
    then have "exec_op E d (OpFixKey k) = Some (d\<lparr>head := head d\<rparr>)" using Some by (simp add: exec_op_def fixKey_def)
    then show ?thesis using d by (intro exI [of _ "head d"]) (auto simp: counts_def touches_def)
  next
    case True
    note o = open_ents [OF d(1), where ns = ?ns]
    have kind: "Key_Kind k = Some (Kind (last (toks k)))" using op by (simp add: Key_Kind_def LastTok_def op_ok_def)
    define ts where "ts = (if Key_Parent k = None then root_ids_toks (Kind (last (toks k))) else ids_toks (hd (toks k)))"
    have par: "Key_Parent k = None \<longleftrightarrow> length (toks k) \<le> 1"
      using op by (cases "toks k" rule: rev_cases) (auto simp: Key_Parent_def NewKeyToks_def op_ok_def)
    have ts: "toks_storable ts" "special_toks ts"
      using op special_storable special_special unfolding ts_def par op_ok_def by auto
    have idk: "(if Key_Parent k = None then Option.bind (Key_Kind k) (rootIDsKey E) else groupIDsKey E k) =
        Some (key_bytes C ts)"
      using group_keys [of k E] op kind by (simp add: ts_def op_ok_def)
    obtain s' where s': "incrementLocked E (head ?d) (ents_coll ?ns) (key_bytes C ts) 1 = Some (counter E (head ?d) ?ns ts + 1, s')"
      "rw s'" "store_ok E s'"
      "\<And>ms us. toks_storable us \<Longrightarrow> (ms, us) \<noteq> (?ns, ts) \<Longrightarrow> stored E s' ms us = stored E (head ?d) ms us"
      "has s' = has (head ?d)" "\<And>n. n \<noteq> ents_coll ?ns \<Longrightarrow> get s' n = get (head ?d) n"
    proof -
      have "rw (head ?d)" "store_ok E (head ?d)" "0 < sint (1 :: int64)" using o(1) by (simp_all add: ds_ok_def)
      from incrementLocked [OF this(1,2) o(2) ts this(3)] that show ?thesis by metis
    qed
    have "exec_op E d (OpFixKey k) = Some (d\<lparr>head := s'\<rparr>)"
      using Some True d(2) o(6,10) s'(1) idk kind
      by (simp add: exec_op_def fixKey_def fixKeyLocked_def allocateIDsLocked_def)
    moreover have "counts E s' (head d) [OpFixKey k]"
      by (rule counts_special [of ?ns ts _ _ "hd (toks k)" "Kind (last (toks k))"])
        (use s'(4) o(3) in \<open>auto simp: ts_def touches_def\<close>)
    moreover have "has s' n = has (head d) n \<and> get s' n = get (head d) n" if "n \<notin> range ents_coll" for n
      using that s'(5,6) o(9) by auto
    ultimately show ?thesis using s'(2,3) by (intro exI [of _ s']) (simp add: ds_ok_def)
  qed
qed

lemma exec_op:
  assumes "ds_ok E d" "\<not> disableSpecialEntities d" "op_ok op"
  shows "\<exists>s'. exec_op E d op = Some (d\<lparr>head := s'\<rparr>) \<and> ds_ok E (d\<lparr>head := s'\<rparr>) \<and> counts E s' (head d) [op]"
proof (cases op)
  case (OpPut k pm)
  then have k: "user_toks (toks k)" "putable pm" using assms(3) by (simp_all add: op_ok_def)
  obtain s' where "put_one E d (Key_Namespace k) k (pm_Save pm False) = Some ((k, None), d\<lparr>head := s'\<rparr>)"
    "ds_ok E (d\<lparr>head := s'\<rparr>)" "agree_except s' (head d) (Key_Namespace k) (toks k)"
    "version E s' (Key_Namespace k) (hd (toks k)) = version E (head d) (Key_Namespace k) (hd (toks k)) + 1"
    using put_one_complete [OF assms(1,2) k] by metis
  then show ?thesis
    using OpPut counts_write [OF k(1), of s' "head d" op]
    by (intro exI [of _ s']) (simp add: exec_op_def touches_def)
next
  case (OpDelete k)
  then have k: "user_toks (toks k)" using assms(3) by (simp add: op_ok_def)
  obtain s' where "del_one E d (Key_Namespace k) k = Some (None, d\<lparr>head := s'\<rparr>)"
    "ds_ok E (d\<lparr>head := s'\<rparr>)" "agree_except s' (head d) (Key_Namespace k) (toks k)"
    "version E s' (Key_Namespace k) (hd (toks k)) = version E (head d) (Key_Namespace k) (hd (toks k)) + 1"
    using del_one_user [OF assms(1,2) k] by metis
  then show ?thesis
    using OpDelete counts_write [OF k, of s' "head d" op]
    by (intro exI [of _ s']) (simp add: exec_op_def touches_def)
next
  case (OpFixKey k)
  then show ?thesis using exec_fixKey [of d k] assms by auto
qed

lemma run_ops_counts:
  assumes "ds_ok E d" "\<not> disableSpecialEntities d" "\<forall>op \<in> set ops. op_ok op"
  shows "\<exists>s'. run_ops E d ops = Some (d\<lparr>head := s'\<rparr>) \<and> ds_ok E (d\<lparr>head := s'\<rparr>) \<and> counts E s' (head d) ops"
  using assms
proof (induction ops arbitrary: d)
  case Nil
  then show ?case by (intro exI [of _ "head d"]) (simp add: counts_def)
next
  case (Cons op ops)
  obtain s1 where s1: "exec_op E d op = Some (d\<lparr>head := s1\<rparr>)" "ds_ok E (d\<lparr>head := s1\<rparr>)" "counts E s1 (head d) [op]"
    using exec_op [OF Cons.prems(1,2)] Cons.prems(3) by auto
  obtain s' where s': "run_ops E (d\<lparr>head := s1\<rparr>) ops = Some (d\<lparr>head := s1\<rparr>\<lparr>head := s'\<rparr>)"
    "ds_ok E (d\<lparr>head := s1\<rparr>\<lparr>head := s'\<rparr>)" "counts E s' s1 ops"
    using Cons.IH [OF s1(2)] Cons.prems by auto
  then show ?case using s1 counts_trans [OF s'(3) s1(3)] by (intro exI [of _ s']) simp
qed

end

section \<open>Commit\<close>

definition mutation_ok :: "string \<Rightarrow> txnMutation \<Rightarrow> bool" where
  "mutation_ok ns m \<longleftrightarrow> user_toks (toks (m_key m)) \<and> Key_Namespace (m_key m) = ns \<and>
     (case m_data m of None \<Rightarrow> True | Some pm \<Rightarrow> putable pm)"

text \<open>The entity group of a non-empty list of mutations, as \<^verbatim>\<open>beginCommit\<close> takes it.\<close>

definition group_root :: "txnMutation list \<Rightarrow> KeyTok" where
  "group_root ms = hd (toks (m_key (hd ms)))"

definition a_mutation :: "'s dsenv \<Rightarrow> txnMutation \<Rightarrow> ads \<Rightarrow> ads" where
  "a_mutation E m a =
     a_write a (Key_Namespace (m_key m)) (toks (m_key m))
       (map_option (\<lambda>pm. map_of (stored_map E (toks (m_key m)) pm)) (m_data m))"

context ds_env begin

lemma apply_mutation:
  assumes d: "ds_ok E d" "\<not> disableSpecialEntities d" and m: "mutation_ok ns m"
  shows "\<exists>s'. apply_mutation E d m = Some (d\<lparr>head := s'\<rparr>) \<and> ds_ok E (d\<lparr>head := s'\<rparr>) \<and>
    abs_ds E (d\<lparr>head := s'\<rparr>) = a_mutation E m (abs_ds E d)"
proof -
  let ?k = "m_key m"
  have k: "user_toks (toks ?k)" using m by (simp add: mutation_ok_def)
  show ?thesis
  proof (cases "m_data m")
    case None
    let ?d = "open_ents E d (Key_Namespace ?k)"
    note o = open_ents [OF d(1), where ns = "Key_Namespace ?k"]
    have abs: "abs_ds E ?d = abs_ds E d" by (simp only: abs_ds_def o(4,7))
    obtain s' where s': "del_one E ?d (Key_Namespace ?k) ?k = Some (None, ?d\<lparr>head := s'\<rparr>)"
      "ds_ok E (?d\<lparr>head := s'\<rparr>)"
      "abs_ds E (?d\<lparr>head := s'\<rparr>) = a_write (abs_ds E ?d) (Key_Namespace ?k) (toks ?k) None"
      using del_one_user [OF o(1) _ k] o(6) d(2) by metis
    then show ?thesis
      using None o(10) abs by (intro exI [of _ s']) (simp add: apply_mutation_def delMulti_def a_mutation_def)
  next
    case (Some pm)
    then have pm: "putable pm" using m by (simp add: mutation_ok_def)
    obtain s' where s': "put_one E d (Key_Namespace ?k) ?k (pm_Save pm False) = Some ((?k, None), d\<lparr>head := s'\<rparr>)"
      "ds_ok E (d\<lparr>head := s'\<rparr>)"
      "abs_ds E (d\<lparr>head := s'\<rparr>) = a_write (abs_ds E d) (Key_Namespace ?k) (toks ?k) (Some (map_of (stored_map E (toks ?k) pm)))"
      using put_one_complete [OF d k pm] by metis
    then show ?thesis
      using Some by (intro exI [of _ s']) (simp add: apply_mutation_def putMulti_def a_mutation_def)
  qed
qed

lemma apply_mutations:
  assumes "ds_ok E d" "\<not> disableSpecialEntities d" "\<forall>m \<in> set ms. mutation_ok ns m"
  shows "\<exists>s'. apply_mutations E d ms = Some (d\<lparr>head := s'\<rparr>) \<and> ds_ok E (d\<lparr>head := s'\<rparr>) \<and>
    abs_ds E (d\<lparr>head := s'\<rparr>) = fold (a_mutation E) ms (abs_ds E d)"
  using assms
proof (induction ms arbitrary: d)
  case Nil
  then show ?case by (intro exI [of _ "head d"]) simp
next
  case (Cons m ms)
  obtain s1 where s1: "apply_mutation E d m = Some (d\<lparr>head := s1\<rparr>)" "ds_ok E (d\<lparr>head := s1\<rparr>)"
    "abs_ds E (d\<lparr>head := s1\<rparr>) = a_mutation E m (abs_ds E d)"
    using apply_mutation [OF Cons.prems(1,2), of ns m] Cons.prems(3) by auto
  obtain s' where "apply_mutations E (d\<lparr>head := s1\<rparr>) ms = Some (d\<lparr>head := s1\<rparr>\<lparr>head := s'\<rparr>)"
    "ds_ok E (d\<lparr>head := s1\<rparr>\<lparr>head := s'\<rparr>)"
    "abs_ds E (d\<lparr>head := s1\<rparr>\<lparr>head := s'\<rparr>) = fold (a_mutation E) ms (abs_ds E (d\<lparr>head := s1\<rparr>))"
    using Cons.IH [OF s1(2)] Cons.prems by auto
  then show ?case using s1 by (intro exI [of _ s']) simp
qed

lemma group_unchanged:
  assumes "store_ok E (head d)" "store_ok E (td_snap td)" "ms \<noteq> []" "mutation_ok ns (hd ms)"
  shows "group_unchanged E d td ms =
    Some (version E (head d) ns (group_root ms) = version E (td_snap td) ns (group_root ms))"
proof -
  obtain m ms' where ms: "ms = m # ms'" using assms(3) by (cases ms) auto
  let ?k = "m_key m"
  have k: "user_toks (toks ?k)" "Key_Namespace ?k = ns" using assms(4) ms by (simp_all add: mutation_ok_def)
  have ne: "toks ?k \<noteq> []" using k(1) by (simp add: user_toks_def toks_storable_def)
  have st: "toks_storable (meta_toks (hd (toks ?k)))" using special_storable(1) [OF user_hd [OF k(1)]] .
  have root: "Key_Namespace (Key_Root ?k) = ns" "toks (Key_Root ?k) = [hd (toks ?k)]"
    using k(2) Root_toks [OF ne] by (simp_all add: Key_Namespace_def)
  have "groupMetaKey E (Key_Root ?k) = Some (key_bytes C (meta_toks (hd (toks ?k))))"
    using group_keys(1) [of "Key_Root ?k" E] root(2) by simp
  then show ?thesis
    using curVersion_counter [OF assms(1) st special_special(1), of ns]
      curVersion_counter [OF assms(2) st special_special(1), of ns] root(1) ms
    by (simp add: group_unchanged_def version_def group_root_def Let_def)
qed

lemma check_groups:
  assumes "store_ok E (head d)" "store_ok E (td_snap td)" "\<forall>(_, ms) \<in> set muts. \<forall>m \<in> set ms. mutation_ok ns m"
  shows "check_groups E d td muts = Some (\<forall>(_, ms) \<in> set muts. ms \<noteq> [] \<longrightarrow>
    version E (head d) ns (group_root ms) = version E (td_snap td) ns (group_root ms))"
  using assms(3)
proof (induction muts)
  case (Cons g muts)
  obtain rk ms where g: "g = (rk, ms)" by (cases g)
  show ?case
  proof (cases "ms = []")
    case True
    then show ?thesis using Cons g by (simp add: group_unchanged_def)
  next
    case False
    then have "mutation_ok ns (hd ms)" using Cons.prems g by (cases ms) auto
    from group_unchanged [OF assms(1,2) False this] show ?thesis using Cons g False by simp
  qed
qed simp

end

lemma of_nat_int64_zero: "n < 2 ^ 64 \<Longrightarrow> of_nat n = (0 :: int64) \<longleftrightarrow> n = 0"
  using word_of_nat_eq_0_iff [where ?'a = 64, of n] by (auto dest: dvd_imp_le)

text \<open>
  C4. Optimistic concurrency is sound and exact for a transaction within one namespace, in a datastore that keeps the versions of
  entity groups (special entities enabled; with them disabled there are no versions to compare). The transaction's mutations, and the operations below, are on
  complete users' keys with property maps that can be stored. After the transaction has taken its snapshot, let any
  sequence of (fewer than \<open>2\<^sup>6\<^sup>4\<close>) puts, deletes and ID allocations, in any namespaces, run. Then its commit is let
  through if and only if none of them wrote to an entity group that the transaction writes; in that
  case everything the transaction could read of these groups in its snapshot is still current,
  and applying the mutations, in whatever order the groups are visited, has the effect of
  performing its puts and deletes on the current state.
\<close>

theorem commit_iff_unchanged:
  assumes "ds_env E" "ds_ok E d0" "\<not> disableSpecialEntities d0" "td_snap td = takeSnapshot E d0"
    and "\<forall>op \<in> set ops. op_ok op" "length ops < 2 ^ 64"
    and "\<forall>(_, ms) \<in> set (td_muts td). \<forall>m \<in> set ms. mutation_ok ns m" "mset muts = mset (td_muts td)"
  shows "\<exists>d b. run_ops E d0 ops = Some d \<and> ds_beginCommit E d td = Some b \<and>
    (b \<longleftrightarrow> (\<forall>(_, ms) \<in> set (td_muts td). ms \<noteq> [] \<longrightarrow> (\<forall>op \<in> set ops. \<not> touches ns (group_root ms) op))) \<and>
    (b \<longrightarrow> (\<forall>(_, ms) \<in> set (td_muts td). \<forall>ts. ms \<noteq> [] \<longrightarrow> user_toks ts \<longrightarrow> hd ts = group_root ms \<longrightarrow>
      entity E (td_snap td) ns ts = entity E (head d) ns ts)) \<and>
    (\<exists>d'. ds_apply E d muts = Some d' \<and> ds_ok E d' \<and>
      abs_ds E d' = fold (a_mutation E) (concat (map snd muts)) (abs_ds E d))"
proof -
  obtain s where s: "run_ops E d0 ops = Some (d0\<lparr>head := s\<rparr>)" "ds_ok E (d0\<lparr>head := s\<rparr>)" "counts E s (head d0) ops"
    using ds_env.run_ops_counts [OF assms(1-3,5)] by metis
  let ?d = "d0\<lparr>head := s\<rparr>" and ?snap = "td_snap td"
  let ?b = "\<forall>(_, ms) \<in> set (td_muts td). ms \<noteq> [] \<longrightarrow> version E s ns (group_root ms) = version E ?snap ns (group_root ms)"
  have snap: "store_ok E ?snap" "version E ?snap = version E (head d0)" "stored E ?snap = stored E (head d0)"
    using assms(2,4) ds_env.store_ok_Snapshot [OF assms(1)] ds_env.store_views_Snapshot [OF assms(1)]
    by (auto simp: takeSnapshot_def ds_ok_def version_def fun_eq_iff)
  have head: "store_ok E (head ?d)" using s(2) by (simp add: ds_ok_def)
  have commit: "ds_beginCommit E ?d td = Some ?b"
    using ds_env.check_groups [OF assms(1) head snap(1) assms(7)] by (simp add: ds_beginCommit_def)
  have same: "version E s ns (group_root ms) = version E ?snap ns (group_root ms) \<longleftrightarrow>
      (\<forall>op \<in> set ops. \<not> touches ns (group_root ms) op)" if "(rk, ms) \<in> set (td_muts td)" "ms \<noteq> []" for rk ms
  proof -
    have "user_toks (toks (m_key (hd ms)))" using assms(7) that by (cases ms) (auto simp: mutation_ok_def)
    then have "tok_storable (group_root ms)" unfolding group_root_def by (rule ds_env.user_hd [OF assms(1)])
    then have "version E s ns (group_root ms) =
        version E ?snap ns (group_root ms) + of_nat (length (filter (touches ns (group_root ms)) ops))"
      using s(3) snap(2) by (simp add: counts_def)
    moreover have "length (filter (touches ns (group_root ms)) ops) < 2 ^ 64"
      using assms(6) length_filter_le [of "touches ns (group_root ms)" ops] by linarith
    ultimately show ?thesis
      using of_nat_int64_zero by (auto simp: filter_empty_conv)
  qed
  have b: "?b \<longleftrightarrow> (\<forall>(_, ms) \<in> set (td_muts td). ms \<noteq> [] \<longrightarrow> (\<forall>op \<in> set ops. \<not> touches ns (group_root ms) op))"
  proof (rule ball_cong [OF refl])
    fix g assume "g \<in> set (td_muts td)"
    then have "(snd g \<noteq> [] \<longrightarrow> version E s ns (group_root (snd g)) = version E ?snap ns (group_root (snd g))) \<longleftrightarrow>
        (snd g \<noteq> [] \<longrightarrow> (\<forall>op \<in> set ops. \<not> touches ns (group_root (snd g)) op))"
      using same [of "fst g" "snd g"] by auto
    then show "(case g of (_, ms) \<Rightarrow> ms \<noteq> [] \<longrightarrow> version E s ns (group_root ms) = version E ?snap ns (group_root ms)) \<longleftrightarrow>
        (case g of (_, ms) \<Rightarrow> ms \<noteq> [] \<longrightarrow> (\<forall>op \<in> set ops. \<not> touches ns (group_root ms) op))"
      by (simp only: case_prod_beta)
  qed
  have cur: "entity E ?snap ns ts = entity E s ns ts"
    if "?b" "(rk, ms) \<in> set (td_muts td)" "ms \<noteq> []" "user_toks ts" "hd ts = group_root ms" for rk ms ts
  proof -
    have "\<forall>op \<in> set ops. \<not> touches ns (hd ts) op" using that same [of rk ms] by auto
    then have "stored E s ns ts = stored E ?snap ns ts" using s(3) snap(3) that(4) by (simp add: counts_def)
    then show ?thesis by (rule ds_env.views_stored(2) [OF assms(1), symmetric])
  qed
  have "\<forall>m \<in> set (concat (map snd muts)). mutation_ok ns m"
    using assms(7) mset_eq_setD [OF assms(8)] by force
  from ds_env.apply_mutations [OF assms(1) s(2) _ this] assms(3)
  obtain s' where "ds_apply E ?d muts = Some (?d\<lparr>head := s'\<rparr>)" "ds_ok E (?d\<lparr>head := s'\<rparr>)"
    "abs_ds E (?d\<lparr>head := s'\<rparr>) = fold (a_mutation E) (concat (map snd muts)) (abs_ds E ?d)"
    by (auto simp: ds_apply_def)
  then have ap: "\<exists>d'. ds_apply E ?d muts = Some d' \<and> ds_ok E d' \<and>
      abs_ds E d' = fold (a_mutation E) (concat (map snd muts)) (abs_ds E ?d)" by blast
  have "?b \<longrightarrow> (\<forall>(_, ms) \<in> set (td_muts td). \<forall>ts. ms \<noteq> [] \<longrightarrow> user_toks ts \<longrightarrow> hd ts = group_root ms \<longrightarrow>
      entity E ?snap ns ts = entity E (head ?d) ns ts)"
    using cur by (auto simp del: split_paired_All)
  then show ?thesis by (intro exI [of _ ?d] exI [of _ ?b] conjI s(1) commit b ap)
qed

definition ex_txn :: "'s dsenv \<Rightarrow> 's dataStoreData \<Rightarrow> 's txnDataStoreData" where
  "ex_txn E d = (mkTxn E d False)\<lparr>td_muts := [(''g'', [\<lparr>m_key = ex_key ''n'', m_data = Some ex_pm\<rparr>])]\<rparr>"

theorem commit_iff_unchanged_witness:
  "\<exists>d. run_ops simple_env (newDataStoreData simple_env ''app'') [OpDelete (ex_key ''n'')] = Some d \<and>
    ds_beginCommit simple_env d (ex_txn simple_env (newDataStoreData simple_env ''app'')) = Some False"
proof -
  let ?d = "newDataStoreData simple_env ''app''"
  have m: "mutation_ok ''n'' \<lparr>m_key = ex_key ''n'', m_data = Some ex_pm\<rparr>"
    using ex_ok(1,2) [of "''n''"] ex_ok(3) by (simp add: mutation_ok_def)
  have op: "op_ok (OpDelete (ex_key ''n''))" "touches ''n'' (hd (toks (ex_key ''n''))) (OpDelete (ex_key ''n''))"
    using ex_ok(1,2) [of "''n''"] by (simp_all add: op_ok_def touches_def)
  from commit_iff_unchanged [OF simple_ds.ds_env_axioms simple_ds.new_ok [of "''app''"],
      where td = "ex_txn simple_env ?d" and ops = "[OpDelete (ex_key ''n'')]" and ns = "''n''"
        and muts = "td_muts (ex_txn simple_env ?d)"] m op
  show ?thesis by (auto simp: ex_txn_def mkTxn_def group_root_def)
qed

section \<open>Recording mutations\<close>

text \<open>The groups of a transaction: one entry per root, all of its keys below that root, and no more
  than the limit.\<close>

definition group_key :: "'s dsenv \<Rightarrow> Key \<Rightarrow> string" where
  "group_key E k = bytes_str (key_bytes (e_cmpbin E) [hd (toks k)])"

definition txn_ok :: "'s dsenv \<Rightarrow> 's txnDataStoreData \<Rightarrow> bool" where
  "txn_ok E td \<longleftrightarrow> distinct (map fst (td_muts td)) \<and>
     length (td_muts td) \<le> (if td_isXG td then xgEGLimit else 1) \<and>
     (\<forall>(rk, ms) \<in> set (td_muts td). \<forall>m \<in> set ms. toks (m_key m) \<noteq> [] \<and> group_key E (m_key m) = rk)"

lemma al_get_set: "al_get (al_set m k v) k' = (if k' = k then v else al_get m k')"
  by (simp add: al_get_def map_of_al_set)

lemma set_al_set: "(a, b) \<in> set (al_set m k v) \<Longrightarrow> (a, b) = (k, v) \<or> (a, b) \<in> set m"
  by (induction m) (auto split: if_splits)

lemma length_al_set: "length (al_set m k v) = (if map_of m k = None then Suc (length m) else length m)"
  by (induction m) auto

text \<open>
  C25. \<^verbatim>\<open>writeMutation\<close>: a key in a group the transaction has not used yet is refused once the limit is
  reached (one group, or 25 in a cross-group transaction) and then nothing changes; otherwise the
  group is recorded and, unless the call only reads, the mutation is appended to its list, the
  other groups staying as they are. The limit and the grouping by root are invariants.
\<close>

theorem writeMutation_groups:
  assumes "txn_ok E td" "toks key \<noteq> []"
  shows "\<exists>err td'. writeMutation E td getOnly key data = Some (err, td') \<and> txn_ok E td' \<and>
    (err \<noteq> None \<longleftrightarrow> group_key E key \<notin> set (map fst (td_muts td)) \<and>
      length (td_muts td) = (if td_isXG td then xgEGLimit else 1)) \<and>
    (err \<noteq> None \<longrightarrow> td' = td) \<and>
    (err = None \<longrightarrow> td_isXG td' = td_isXG td \<and> td_snap td' = td_snap td \<and>
      set (map fst (td_muts td')) = insert (group_key E key) (set (map fst (td_muts td))) \<and>
      (\<forall>rk. al_get (td_muts td') rk = al_get (td_muts td) rk @
        (if \<not> getOnly \<and> rk = group_key E key then [\<lparr>m_key = key, m_data = data\<rparr>] else [])))"
proof -
  let ?rk = "group_key E key" and ?ms = "td_muts td" and ?lim = "if td_isXG td then xgEGLimit else 1"
  let ?m = "\<lparr>m_key = key, m_data = data\<rparr>"
  have rk: "keyBytes E (Key_Root key) = Some (key_bytes (e_cmpbin E) [hd (toks key)])"
    using assms(2) by (simp add: keyBytes_eq Root_toks)
  have new: "map_of ?ms ?rk = None \<longleftrightarrow> ?rk \<notin> set (map fst ?ms)" by (simp add: map_of_eq_None_iff)
  have len: "length ?ms \<le> ?lim" and dist: "distinct (map fst ?ms)" using assms(1) by (simp_all add: txn_ok_def)
  show ?thesis
  proof (cases "map_of ?ms ?rk = None \<and> length ?ms + 1 > ?lim")
    case True
    have "writeMutation E td getOnly key data = Some (Some (if td_isXG td then ErrTooManyGroups else ErrCrossGroup), td)"
      using True rk by (simp add: writeMutation_def Let_def group_key_def)
    moreover have "length ?ms = ?lim" using True len by linarith
    ultimately show ?thesis using assms(1) True new by (intro exI conjI) (assumption, auto)
  next
    case False
    define m1 where "m1 = (if map_of ?ms ?rk = None then al_set ?ms ?rk [] else ?ms)"
    define m2 where "m2 = (if \<not> getOnly then al_set m1 ?rk (al_get m1 ?rk @ [?m]) else m1)"
    have wr: "writeMutation E td getOnly key data = Some (None, td\<lparr>td_muts := m2\<rparr>)"
      unfolding m2_def m1_def using False rk by (simp add: writeMutation_def Let_def group_key_def)
    have m1: "distinct (map fst m1)" "map_of m1 ?rk \<noteq> None" "length m1 \<le> ?lim"
      "set (map fst m1) = insert ?rk (set (map fst ?ms))" "\<And>rk. al_get m1 rk = al_get ?ms rk"
      using False dist len new distinct_al_set [OF dist] keys_al_set [of ?ms ?rk "[]"]
      by (auto simp: m1_def length_al_set map_of_al_set al_get_set al_get_def simp del: map_of_eq_Some_iff)
    have m2: "distinct (map fst m2)" "length m2 \<le> ?lim" "set (map fst m2) = insert ?rk (set (map fst ?ms))"
      "\<And>rk. al_get m2 rk = al_get ?ms rk @ (if \<not> getOnly \<and> rk = ?rk then [?m] else [])"
      using m1 distinct_al_set [OF m1(1)] keys_al_set [of m1 ?rk "al_get m1 ?rk @ [?m]"]
      by (auto simp: m2_def length_al_set al_get_set)
    have "\<forall>m \<in> set (al_get ?ms rk). toks (m_key m) \<noteq> [] \<and> group_key E (m_key m) = rk" for rk
      using assms(1) by (auto simp: txn_ok_def al_get_def split: option.splits dest!: map_of_SomeD)
    then have get: "\<forall>m \<in> set (al_get m2 rk). toks (m_key m) \<noteq> [] \<and> group_key E (m_key m) = rk" for rk
      unfolding m2(4) using assms(2) by auto
    have group: "\<forall>m \<in> set ms. toks (m_key m) \<noteq> [] \<and> group_key E (m_key m) = rk"
      if "(rk, ms) \<in> set m2" for rk ms
    proof -
      have "ms = al_get m2 rk" using that m2(1) by (simp add: al_get_def)
      then show ?thesis using get [of rk] by simp
    qed
    have "txn_ok E (td\<lparr>td_muts := m2\<rparr>)" using m2(1,2) group by (auto simp: txn_ok_def)
    then show ?thesis using wr m2(3,4) False new by (intro exI conjI) (assumption, auto)
  qed
qed

theorem writeMutation_groups_witness:
  "let td = (mkTxn simple_env (newDataStoreData simple_env ''app'') False)\<lparr>td_muts := [('''', [])]\<rparr>
   in txn_ok simple_env td \<and> (\<exists>err. writeMutation simple_env td True (ex_key ''n'') None = Some (Some err, td))"
proof -
  let ?td = "(mkTxn simple_env (newDataStoreData simple_env ''app'') False)\<lparr>td_muts := [('''', [])]\<rparr>"
  have ok: "txn_ok simple_env ?td" by (simp add: txn_ok_def mkTxn_def)
  have ne: "toks (ex_key ''n'') \<noteq> []" "group_key simple_env (ex_key ''n'') \<noteq> ''''"
    by (simp_all add: ex_ok group_key_def key_bytes_def bytes_str_def)
  obtain err td' where "writeMutation simple_env ?td True (ex_key ''n'') None = Some (err, td')"
    "err \<noteq> None \<longleftrightarrow> group_key simple_env (ex_key ''n'') \<notin> set (map fst (td_muts ?td)) \<and>
      length (td_muts ?td) = (if td_isXG ?td then xgEGLimit else 1)" "err \<noteq> None \<longrightarrow> td' = ?td"
    using writeMutation_groups [OF ok ne(1), of True None] by (elim exE conjE) (rule that)
  then show ?thesis using ok ne(2) by (cases err) (simp_all add: mkTxn_def)
qed

section \<open>Groups across namespaces\<close>

text \<open>
  C26. The groups of a transaction are told apart by the bytes of their root without its namespace, and
  the collision check looks at the namespace of the first mutation of a group only. So a
  transaction (not a cross-group one) that writes below roots of the same path in two namespaces
  is accepted, and commits although another client has changed the second of them after the
  snapshot was taken: isolation holds within one namespace only.
\<close>

theorem txn_namespace_hole:
  assumes "ds_env E" "ds_ok E d0" "\<not> disableSpecialEntities d0"
    and "user_toks (toks k1)" "user_toks (toks k2)" "hd (toks k1) = hd (toks k2)"
    and "Key_Namespace k1 \<noteq> Key_Namespace k2" "putable pm" "putable pm1" "putable pm2"
  shows "\<exists>td1 td2 d. writeMutation E (mkTxn E d0 False) False k1 (Some pm1) = Some (None, td1) \<and>
    writeMutation E td1 False k2 (Some pm2) = Some (None, td2) \<and>
    run_ops E d0 [OpPut k2 pm] = Some d \<and>
    version E (head d) (Key_Namespace k2) (hd (toks k2)) \<noteq> version E (td_snap td2) (Key_Namespace k2) (hd (toks k2)) \<and>
    ds_beginCommit E d td2 = Some True"
proof -
  let ?td1 = "(mkTxn E d0 False)\<lparr>td_muts := [(group_key E k1, [\<lparr>m_key = k1, m_data = Some pm1\<rparr>])]\<rparr>"
  let ?ms = "[\<lparr>m_key = k1, m_data = Some pm1\<rparr>, \<lparr>m_key = k2, m_data = Some pm2\<rparr>]"
  let ?td2 = "(mkTxn E d0 False)\<lparr>td_muts := [(group_key E k1, ?ms)]\<rparr>"
  have ne: "toks k1 \<noteq> []" "toks k2 \<noteq> []" using assms(4,5) by (simp_all add: user_toks_def toks_storable_def)
  have w1: "writeMutation E (mkTxn E d0 False) False k1 (Some pm1) = Some (None, ?td1)"
    using ne by (simp add: writeMutation_def keyBytes_eq Root_toks group_key_def mkTxn_def al_get_def)
  have w2: "writeMutation E ?td1 False k2 (Some pm2) = Some (None, ?td2)"
    using ne assms(6) by (simp add: writeMutation_def keyBytes_eq Root_toks group_key_def mkTxn_def al_get_def)
  have "\<forall>op \<in> set [OpPut k2 pm]. op_ok op" using assms(5,8) by (simp add: op_ok_def)
  from ds_env.run_ops_counts [OF assms(1-3) this]
  obtain s where s: "run_ops E d0 [OpPut k2 pm] = Some (d0\<lparr>head := s\<rparr>)" "ds_ok E (d0\<lparr>head := s\<rparr>)"
    "counts E s (head d0) [OpPut k2 pm]" by metis
  have snap: "store_ok E (td_snap ?td2)" "version E (td_snap ?td2) = version E (head d0)"
    using assms(2) ds_env.store_ok_Snapshot [OF assms(1)] ds_env.store_views_Snapshot [OF assms(1)]
    by (auto simp: mkTxn_def takeSnapshot_def ds_ok_def version_def fun_eq_iff)
  have root: "tok_storable (hd (toks k2))" by (rule ds_env.user_hd [OF assms(1,5)])
  have v: "version E s (Key_Namespace k2) (hd (toks k2)) = version E (head d0) (Key_Namespace k2) (hd (toks k2)) + 1"
    "version E s (Key_Namespace k1) (hd (toks k1)) = version E (head d0) (Key_Namespace k1) (hd (toks k1))"
    using s(3) root assms(6,7) by (simp_all add: counts_def touches_def)
  have "store_ok E (head (d0\<lparr>head := s\<rparr>))" using s(2) by (simp add: ds_ok_def)
  moreover have "mutation_ok (Key_Namespace k1) (hd ?ms)" using assms(4,9) by (simp add: mutation_ok_def)
  ultimately have "group_unchanged E (d0\<lparr>head := s\<rparr>) ?td2 ?ms = Some True"
    using ds_env.group_unchanged [OF assms(1) _ snap(1), of "d0\<lparr>head := s\<rparr>" ?ms "Key_Namespace k1"] snap(2) v(2)
    by (simp add: group_root_def)
  then have "ds_beginCommit E (d0\<lparr>head := s\<rparr>) ?td2 = Some True" by (simp add: ds_beginCommit_def)
  then show ?thesis using w1 w2 s(1) v(1) snap(2) by auto
qed

theorem txn_namespace_hole_witness:
  "\<exists>td0 td d. writeMutation simple_env td0 False (ex_key ''m'') (Some ex_pm) = Some (None, td) \<and>
    run_ops simple_env (newDataStoreData simple_env ''app'') [OpPut (ex_key ''m'') ex_pm] = Some d \<and>
    version simple_env (head d) ''m'' (mkTok ''K'' 7 '''') \<noteq> version simple_env (td_snap td) ''m'' (mkTok ''K'' 7 '''') \<and>
    ds_beginCommit simple_env d td = Some True"
proof -
  let ?d = "newDataStoreData simple_env ''app''"
  have ok: "hd (toks (ex_key ''n'')) = hd (toks (ex_key ''m''))" "Key_Namespace (ex_key ''n'') \<noteq> Key_Namespace (ex_key ''m'')"
    by (simp_all add: ex_ok)
  obtain td1 td2 d where w: "writeMutation simple_env td1 False (ex_key ''m'') (Some ex_pm) = Some (None, td2)"
    "run_ops simple_env ?d [OpPut (ex_key ''m'') ex_pm] = Some d"
    "version simple_env (head d) ''m'' (mkTok ''K'' 7 '''') \<noteq> version simple_env (td_snap td2) ''m'' (mkTok ''K'' 7 '''')"
    "ds_beginCommit simple_env d td2 = Some True"
    using txn_namespace_hole [OF simple_ds.ds_env_axioms simple_ds.new_ok [of "''app''"]
        ex_ok(1) [of "''n''"] ex_ok(1) [of "''m''"] ok ex_ok(3,3,3)]
    unfolding ex_ok(2,5) by (elim exE conjE) (rule that)
  then show ?thesis by blast
qed

end
