(* ===== verification/Index_Consistency.thy ===== *)
theory Index_Consistency
  imports Datastore_Txn
begin

text \<open>
  The invariant of index maintenance: every index table of a namespace holds exactly the rows of
  the entities stored there, whatever puts and deletes have run.
\<close>

section \<open>The rows an index should have\<close>

definition coll_keys :: "'s dsenv \<Rightarrow> 's \<Rightarrow> string \<Rightarrow> byte list set" where
  "coll_keys E s n = (if ts_HasCollection (e_store E) s n then dom (tc_Get (e_store E) s n) else {})"

text \<open>The compound indexes of a store, as \<^verbatim>\<open>updateIndexes\<close> walks them.\<close>

definition compound_idxs :: "'s dsenv \<Rightarrow> 's \<Rightarrow> IndexDefinition list" where
  "compound_idxs E s = the (walkCompIdxs E (ms_Snapshot (e_store E) s) None (\<lambda>acc i. (acc @ [i], True)) [])"

definition path_key :: "KeyTok list \<Rightarrow> Key" where
  "path_key ts = \<lparr>kc = MkKeyContext '''' '''', toks = ts\<rparr>"

text \<open>The rows of an entity in the table of the index \<open>b\<close>.\<close>

definition entity_rows :: "'s dsenv \<Rightarrow> IndexDefinition list \<Rightarrow> KeyTok list \<Rightarrow> PropertyMap \<Rightarrow> byte list \<Rightarrow> byte list set" where
  "entity_rows E cidx ts pm b =
     entry_rows (e_cmpbin E) (Kind (last ts)) (PropertyMapPartially (e_cmpbin E) (Some (path_key ts)) pm)
       (defaultIndexes E (Kind (last ts)) pm @ cidx) b"

definition expected_rows :: "'s dsenv \<Rightarrow> 's \<Rightarrow> string \<Rightarrow> byte list \<Rightarrow> byte list set" where
  "expected_rows E s ns b =
     {r. \<exists>ts pm. user_toks ts \<and> ent_pm E s ns ts = Some pm \<and> r \<in> entity_rows E (compound_idxs E s) ts pm b}"

text \<open>Namespaces have no colon; a property must not take the place of the key column.\<close>

definition plain_ns :: "string \<Rightarrow> bool" where
  "plain_ns ns \<longleftrightarrow> CHR '':'' \<notin> set ns"

definition no_key_prop :: "PropertyMap \<Rightarrow> bool" where
  "no_key_prop pm \<longleftrightarrow> ''__key__'' \<notin> set (map fst pm)"

definition index_ok :: "'s dsenv \<Rightarrow> 's \<Rightarrow> bool" where
  "index_ok E s \<longleftrightarrow>
     (\<forall>ns ts pm. user_toks ts \<longrightarrow> ent_pm E s ns ts = Some pm \<longrightarrow> no_key_prop pm \<and> plain_ns ns) \<and>
     (\<forall>ns b. plain_ns ns \<longrightarrow> coll_keys E s (idx_coll ns b) = expected_rows E s ns b)"

lemma split_at_colon:
  "CHR '':'' \<notin> set xs \<Longrightarrow> CHR '':'' \<notin> set ys \<Longrightarrow> xs @ CHR '':'' # us = ys @ CHR '':'' # vs \<Longrightarrow> xs = ys \<and> us = vs"
proof (induction xs arbitrary: ys)
  case Nil
  then show ?case by (cases ys) simp_all
next
  case (Cons x xs)
  then show ?case by (cases ys) auto
qed

lemma idx_coll_plain:
  assumes "plain_ns ns" "plain_ns ms"
  shows "idx_coll ns a = idx_coll ms b \<longleftrightarrow> ns = ms \<and> a = b"
proof -
  have "bytes_str a = bytes_str b \<longleftrightarrow> a = b" by (metis str_bytes_str)
  moreover have "ns @ CHR '':'' # bytes_str a = ms @ CHR '':'' # bytes_str b \<longleftrightarrow> ns = ms \<and> bytes_str a = bytes_str b"
    using split_at_colon assms unfolding plain_ns_def by blast
  ultimately show ?thesis by (simp add: idx_coll_def)
qed

section \<open>Rows depend on the path and the properties only\<close>

lemma ancestor_chain_toks: "toks k = toks k' \<Longrightarrow> map toks (ancestor_chain k) = map toks (ancestor_chain k')"
proof (induction k arbitrary: k' rule: ancestor_chain.induct)
  case (1 k)
  have "Key_Parent k = None \<and> Key_Parent k' = None \<or>
      (\<exists>p p'. Key_Parent k = Some p \<and> Key_Parent k' = Some p' \<and> toks p = toks p')"
    using 1(2) by (auto simp: Key_Parent_def NewKeyToks_def split: if_splits)
  then show ?case
    using 1 by (subst (1 2) ancestor_chain.simps) auto
qed

lemma prop_bytes_key: "the (ToBytes C det (SProperty (key_prop k))) = key_bytes C (toks k)"
proof -
  let ?E = "\<lparr>e_cmpbin = C, e_store = undefined, e_sha256 = undefined, e_detmaps = det, e_detser = False\<rparr> :: unit dsenv"
  have "MkProperty (GKey k) = Some (key_prop k)" by (simp add: MkProperty_def key_prop_def)
  then show ?thesis using keyBytes_eq [of ?E k] by (simp add: keyBytes_def)
qed

lemma PropertyMapPartially_toks:
  assumes "toks k = toks k'"
  shows "PropertyMapPartially C (Some k) pm = PropertyMapPartially C (Some k') pm"
proof -
  have "map (\<lambda>a. key_bytes C (toks a)) (ancestor_chain k) = map (key_bytes C) (map toks (ancestor_chain k))" for k
    by simp
  then show ?thesis
    using ancestor_chain_toks [OF assms] assms by (simp only: PropertyMapPartially_def prop_bytes_key option.case)
qed

lemma set_qIndexSlice_sort: "set (qIndexSlice_sort is) = set is"
proof -
  have "set (idx_insert i js) = insert i (set js)" for i js by (induction i js rule: idx_insert.induct) auto
  then show ?thesis unfolding qIndexSlice_sort_def by (induction "is") auto
qed

lemma defaultIndexes_cong:
  assumes "set pm = set pm'" "map_of pm = map_of pm'"
  shows "set (defaultIndexes E kind pm) = set (defaultIndexes E kind pm')"
  using assms by (simp add: defaultIndexes_def Let_def set_qIndexSlice_sort pm_Slice_def)

lemma entity_rows_cong:
  assumes "distinct (map fst pm)" "distinct (map fst pm')" "map_of pm = map_of pm'"
  shows "entity_rows E cidx ts pm b = entity_rows E cidx ts pm' b"
proof -
  have set: "set pm = set pm'" using assms map_of_inject_set by blast
  have "PropertyMapPartially C k pm = PropertyMapPartially C k pm'" for C k
    by (rule ext, subst (1 2) PropertyMapPartially_lookup) (simp add: set assms(3) pm_Slice_def)
  moreover have "set (defaultIndexes E (Kind (last ts)) pm) = set (defaultIndexes E (Kind (last ts)) pm')"
    by (rule defaultIndexes_cong [OF set assms(3)])
  ultimately show ?thesis by (simp only: entity_rows_def entry_rows_def set_append)
qed

section \<open>Different entities have different rows\<close>

lemma wString_prefix:
  assumes "cmpbin_ok C" "wString C a @ u = wString C b @ v"
  shows "a = b \<and> u = v"
proof -
  have "rString C (wString C a @ u) = Inr (a, u)" "rString C (wString C b @ v) = Inr (b, v)"
    using assms(1) by (simp_all add: cmpbin_ok_def reads_back_def)
  then show ?thesis using assms(2) by (metis Inr_inject Pair_inject)
qed

lemma WriteIndexDefinition_inj:
  assumes C: "cmpbin_ok C" and eq: "WriteIndexDefinition C i = WriteIndexDefinition C j"
  shows "i = j"
proof -
  have cols: "concat (map (\<lambda>sb. 1 # WriteIndexColumn C sb) xs) @ [0] = concat (map (\<lambda>sb. 1 # WriteIndexColumn C sb) ys) @ [0] \<Longrightarrow>
      xs = ys" for xs ys
  proof (induction xs arbitrary: ys)
    case Nil
    then show ?case by (cases ys) simp_all
  next
    case (Cons x xs)
    then obtain y ys' where ys: "ys = y # ys'" by (cases ys) auto
    let ?f = "\<lambda>xs. concat (map (\<lambda>sb. 1 # WriteIndexColumn C sb) xs) @ [0]"
    have "wString C (col_Property x) @ ?f xs = wString C (col_Property y) @ ?f ys'" "Descending x = Descending y"
      using Cons.prems by (auto simp: ys WriteIndexColumn_def split: if_splits)
    from this(2) wString_prefix [OF C this(1)] Cons.IH [of ys'] show ?case by (simp add: ys)
  qed
  let ?rest = "\<lambda>i. (if \<not> ix_Ancestor i then 0 else 1) # concat (map (\<lambda>sb. 1 # WriteIndexColumn C sb) (SortBy i)) @ [0]"
  have "wString C (ix_Kind i) @ ?rest i = wString C (ix_Kind j) @ ?rest j"
    using eq by (simp add: WriteIndexDefinition_def)
  from wString_prefix [OF C this] have "ix_Kind i = ix_Kind j" and rest: "?rest i = ?rest j" by simp_all
  moreover have "ix_Ancestor i = ix_Ancestor j" using rest by (simp split: if_splits)
  moreover have "SortBy i = SortBy j" using rest by (intro cols) simp
  ultimately show ?thesis by simp
qed

lemma idx_bin_inj:
  assumes "cmpbin_ok C" "idx_bin C i = idx_bin C j"
  shows "Normalize i = Normalize j"
proof -
  have "PrepForIdxTable (Normalize i) = PrepForIdxTable (Normalize j)"
    using assms WriteIndexDefinition_inj by (simp add: idx_bin_def)
  then have "Flip (PrepForIdxTable (Normalize i)) = Flip (PrepForIdxTable (Normalize j))" by simp
  moreover have "Flip (PrepForIdxTable (Normalize x)) = Normalize x" for x
    by (simp add: PrepForIdxTable_def Flip_def) (simp add: Normalize_def)
  ultimately show ?thesis by simp
qed

text \<open>The encodings that can appear in a column.\<close>

definition column_values :: "cmpbin \<Rightarrow> byte list set" where
  "column_values C = {bs. \<exists>p. prop_storable p \<and> WriteIndexProperty C False p = Some bs}"

lemma column_values_prefix_free:
  assumes "cmpbin_ok C" "cmpbin_sorted C"
  shows "prefix_free (column_values C)"
  unfolding prefix_free_def
proof (intro ballI allI impI)
  fix a b u v assume a: "a \<in> column_values C" and b: "b \<in> column_values C" and eq: "a @ u = b @ v"
  have "\<exists>p. ReadProperty C False no_ctx (x @ w) = Inr (p, w)" if x: "x \<in> column_values C" for x w
  proof -
    obtain p where p: "prop_storable p" "WriteIndexProperty C False p = Some x" using x by (auto simp: column_values_def)
    obtain y where "WriteIndexProperty C False p = Some y"
      "ReadProperty C False no_ctx (y @ w) = Inr (recontext False False no_ctx (index_property p), w)"
      using ReadProperty_WriteIndex [OF assms p(1), of False] by metis
    then show ?thesis using p(2) by auto
  qed
  from this [OF a, of u] this [OF b, of v] eq have "u = v" by auto
  with eq show "a = b" by simp
qed

lemma column_value:
  assumes "cmpbin_ok C" "cmpbin_sorted C" "prop_storable p"
  shows "prop_bytes C p \<in> column_values C"
proof -
  obtain bs where "WriteIndexProperty C False p = Some bs" using ReadProperty_WriteIndex [OF assms] by metis
  then show ?thesis
    using assms(3) by (auto simp: prop_bytes_def column_values_def ToBytes_def toBytesErr_def)
qed

lemma sip_values:
  assumes C: "cmpbin_ok C" "cmpbin_sorted C" and ts: "toks_storable ts"
    and pm: "pm_storable pm" "\<forall>(n, _) \<in> set pm. \<not> isMetaKey n"
    and sps: "PropertyMapPartially C (Some (path_key ts)) pm n = Some sps"
  shows "set sps \<subseteq> column_values C"
proof (cases "n \<in> set (map fst pm) \<and> PropertySlice C (pm_Slice pm n) \<noteq> []")
  case True
  then have eq: "sps = PropertySlice C (pm_Slice pm n)"
    using sps PropertyMapPartially_lookup [of C "Some (path_key ts)" pm n] by simp
  have save: "pm_Save pm False = pm" using pm(2) by (auto simp: pm_Save_eq filter_id_conv)
  have "prop_storable p" if p: "p \<in> set (pm_Slice pm n)" for p
  proof -
    obtain d where d: "map_of pm n = Some d" "p \<in> set (PropertyData_Slice d)"
      using p by (cases "map_of pm n") (auto simp: pm_Slice_def)
    then have "data_storable d"
      using pm(1) save map_of_SomeD [OF d(1)] by (auto simp: pm_storable_def list_all_iff)
    then show ?thesis using d(2) by (cases d) (auto simp: data_storable_def PropertyData_Slice_def list_all_iff)
  qed
  then show ?thesis using PropertySlice_spec [of C "pm_Slice pm n"] column_value [OF C] eq by auto
next
  case False
  then have base: "PropertyMapPartially C (Some (path_key ts)) [] n = Some sps"
    using trans [OF PropertyMapPartially_lookup [of C "Some (path_key ts)" pm n, symmetric] sps] by (simp only: if_False)
  have key: "prop_bytes C (key_prop k) \<in> column_values C" if "k \<in> set (ancestor_chain (path_key ts))" for k
  proof -
    have "prefix (toks k) ts" "toks k \<noteq> []"
      using that ancestor_chain_set [of "path_key ts"] ts
      by (auto simp: HasAncestor_prefix path_key_def toks_storable_def)
    then have "toks_storable (toks k)"
      using ts by (auto simp: toks_storable_def prefix_def)
    then have "prop_storable (key_prop k)"
      by (simp add: prop_storable_def prop_ok_def key_prop_def key_storable_toks)
    then show ?thesis by (rule column_value [OF C])
  qed
  have "path_key ts \<in> set (ancestor_chain (path_key ts))" by (subst ancestor_chain.simps) simp
  then show ?thesis
    using base key by (auto simp: PropertyMapPartially_def prop_bytes_def split: if_splits)
qed

lemma def_rows_eq:
  "def_rows kind sip i = Some rs \<Longrightarrow>
     (\<forall>c \<in> set (GetFullSortOrder (Normalize i)). sip (col_Property c) \<noteq> None) \<and>
     rs = index_rows (map (\<lambda>c. the (sip (col_Property c))) (GetFullSortOrder (Normalize i)))
       (map Descending (GetFullSortOrder (Normalize i)))"
  by (auto simp: def_rows_def Let_def matcher_match_eq split: if_splits)

lemma full_order_key: "GetFullSortOrder i \<noteq> []" "col_Property (last (GetFullSortOrder i)) = ''__key__''"
  by (auto simp: GetFullSortOrder_def Normalize_def Let_def)

lemma sip_key:
  "no_key_prop pm \<Longrightarrow> PropertyMapPartially C (Some (path_key ts)) pm ''__key__'' = Some [key_bytes C ts]"
  using PropertyMapPartially_lookup [of C "Some (path_key ts)" pm "''__key__''"] prop_bytes_key [of C False "path_key ts"]
  by (auto simp: no_key_prop_def PropertyMapPartially_def path_key_def)

text \<open>What \<open>ent_pm\<close> returns for an entity of a store that satisfies the invariant.\<close>

definition pm_ok :: "PropertyMap \<Rightarrow> bool" where
  "pm_ok pm \<longleftrightarrow> pm_storable pm \<and> (\<forall>(n, _) \<in> set pm. \<not> isMetaKey n) \<and> no_key_prop pm"

lemma entity_rows_disjoint:
  assumes C: "cmpbin_ok (e_cmpbin E)" "cmpbin_sorted (e_cmpbin E)"
    and ts: "toks_storable ts" "toks_storable ts'" and pm: "pm_ok pm" "pm_ok pm'"
    and r: "r \<in> entity_rows E cidx ts pm b" "r \<in> entity_rows E cidx ts' pm' b"
  shows "ts = ts'"
proof -
  let ?C = "e_cmpbin E"
  let ?sip = "PropertyMapPartially ?C (Some (path_key ts)) pm" and ?sip' = "PropertyMapPartially ?C (Some (path_key ts')) pm'"
  obtain i rs where i: "def_rows (Kind (last ts)) ?sip i = Some rs" "idx_bin ?C i = b" "r \<in> set rs"
    using r(1) by (auto simp: entity_rows_def entry_rows_def)
  obtain j rs' where j: "def_rows (Kind (last ts')) ?sip' j = Some rs'" "idx_bin ?C j = b" "r \<in> set rs'"
    using r(2) by (auto simp: entity_rows_def entry_rows_def)
  have norm: "Normalize j = Normalize i" using idx_bin_inj [OF C(1), of j i] i(2) j(2) by simp
  define cs where "cs = GetFullSortOrder (Normalize i)"
  let ?vec = "\<lambda>sip. map (\<lambda>c. the (sip (col_Property c))) cs"
  have rows: "\<forall>c \<in> set cs. ?sip (col_Property c) \<noteq> None" "\<forall>c \<in> set cs. ?sip' (col_Property c) \<noteq> None"
    "r \<in> set (index_rows (?vec ?sip) (map Descending cs))" "r \<in> set (index_rows (?vec ?sip') (map Descending cs))"
    using def_rows_eq [OF i(1)] def_rows_eq [OF j(1)] i(3) j(3) unfolding cs_def norm by auto
  have vals: "set sps \<subseteq> column_values ?C" if "sps \<in> set (?vec ?sip) \<union> set (?vec ?sip')" for sps
    using that rows(1,2) sip_values [OF C ts(1), of pm] sip_values [OF C ts(2), of pm'] pm
    unfolding pm_ok_def by fastforce
  have "list_all2 (\<lambda>sps sps'. set sps \<inter> set sps' \<noteq> {}) (?vec ?sip) (?vec ?sip')"
    by (rule common_row [OF _ _ vals column_values_prefix_free [OF C] rows(3,4)]) simp_all
  then have "\<forall>c \<in> set cs. set (the (?sip (col_Property c))) \<inter> set (the (?sip' (col_Property c))) \<noteq> {}"
    by (simp add: list_all2_map1 list_all2_map2 list_all2_same)
  moreover have "last cs \<in> set cs" "col_Property (last cs) = ''__key__''"
    using full_order_key [of "Normalize i"] by (simp_all add: cs_def)
  ultimately have "key_bytes ?C ts = key_bytes ?C ts'"
    using sip_key pm unfolding pm_ok_def by fastforce
  then show ?thesis using key_bytes_inj [OF C(1) ts] by simp
qed

section \<open>Every operation keeps the indexes consistent\<close>

definition index_op :: "dop \<Rightarrow> bool" where
  "index_op op =
     (case op of
        OpPut k pm \<Rightarrow> plain_ns (Key_Namespace k) \<and> no_key_prop pm
      | OpDelete k \<Rightarrow> plain_ns (Key_Namespace k)
      | OpFixKey k \<Rightarrow> True)"

lemma split_ex:
  "P a \<Longrightarrow> {r. \<exists>u p. P u \<and> Q u p \<and> R r u p} =
     {r. \<exists>u p. u \<noteq> a \<and> P u \<and> Q u p \<and> R r u p} \<union> {r. \<exists>p. Q a p \<and> R r a p}"
  unfolding Un_def mem_Collect_eq by (rule Collect_cong) metis

context ds_env begin

lemma coll_keys_rows: "coll_keys E s n = rows s n"
  by (simp add: coll_keys_def rows_def)

lemma compound_comp: "store_ok E s \<Longrightarrow> compound_idxs E s = comp_idxs s"
proof -
  assume "store_ok E s"
  then have "table_ok (ms_Snapshot T s)" using store_okD(1) by (simp add: table_ok_def)
  moreover have "comp_idxs (ms_Snapshot T s) = comp_idxs s" by (rule comp_idxs_cong) simp_all
  ultimately show ?thesis using walk_all [of "ms_Snapshot T s"] by (simp add: compound_idxs_def)
qed

lemma ent_rows_entity: "toks k \<noteq> [] \<Longrightarrow> ent_rows k (Some pm) cidx b = entity_rows E cidx (toks k) pm b"
  using PropertyMapPartially_toks [of k "path_key (toks k)" C pm]
  by (simp add: ent_rows_def entity_rows_def Key_Kind_def LastTok_def path_key_def)

lemma stored_pm_ok:
  assumes "store_ok E s" "index_ok E s" "user_toks ts" "ent_pm E s ns ts = Some pm"
  shows "pm_ok pm"
proof -
  obtain v where v: "stored E s ns ts = Some v" "readPropMap E v = Inr pm"
    using assms(4) by (auto simp: ent_pm_def split: option.splits sum.splits)
  then have "record_ok E ts v" using store_okD(2) [OF assms(1)] assms(3) by (simp add: user_toks_def)
  then show ?thesis
    using v(2) assms(2-4) by (auto simp: record_ok_def pm_ok_def user_toks_def index_ok_def)
qed

text \<open>A change of one entity that replaces its rows.\<close>

lemma index_ok_write:
  assumes s: "store_ok E s" "index_ok E s" and s': "store_ok E s'"
    and k: "user_toks (toks k)" "plain_ns (Key_Namespace k)"
    and a: "agree_except s' s (Key_Namespace k) (toks k)"
    and idx: "rows s' ''idx'' = rows s ''idx''" "has s' ''idx'' = has s ''idx''"
    and others: "\<forall>n. n \<in> range (idx_coll (Key_Namespace k)) \<or> n = ents_coll (Key_Namespace k) \<or>
      has s' n = has s n \<and> get s' n = get s n"
    and upd: "\<forall>b. rows s' (idx_coll (Key_Namespace k) b) = rows s (idx_coll (Key_Namespace k) b) -
      ent_rows k (ent_pm E s (Key_Namespace k) (toks k)) (comp_idxs s) b \<union>
      ent_rows k (ent_pm E s' (Key_Namespace k) (toks k)) (comp_idxs s) b"
    and pm: "\<forall>pm. ent_pm E s' (Key_Namespace k) (toks k) = Some pm \<longrightarrow> no_key_prop pm"
  shows "index_ok E s'"
proof -
  let ?ns = "Key_Namespace k" and ?ts = "toks k"
  have ne: "?ts \<noteq> []" using k(1) by (simp add: user_toks_def toks_storable_def)
  have same: "ent_pm E s' ms us = ent_pm E s ms us" if "user_toks us" "(ms, us) \<noteq> (?ns, ?ts)" for ms us
    using a that user_not_meta [OF that(1)] unfolding agree_except_def
    by (intro views_stored(1)) (auto simp: user_toks_def)
  have comp: "compound_idxs E s' = comp_idxs s" "compound_idxs E s = comp_idxs s"
    using compound_comp s(1) s' comp_idxs_cong [OF idx(2,1)] by simp_all
  have "no_key_prop p \<and> plain_ns ms" if "user_toks us" "ent_pm E s' ms us = Some p" for ms us p
  proof (cases "(ms, us) = (?ns, ?ts)")
    case True
    then show ?thesis using that(2) pm k(2) by simp
  next
    case False
    then have "ent_pm E s ms us = Some p" using same [OF that(1), of ms] that(2) by simp
    then show ?thesis using that(1) s(2) unfolding index_ok_def by blast
  qed
  moreover have "rows s' (idx_coll ms b) = expected_rows E s' ms b" if ms: "plain_ns ms" for ms b
  proof (cases "ms = ?ns")
    case False
    then have "idx_coll ms b \<notin> range (idx_coll ?ns)" using idx_coll_plain [OF ms k(2)] by auto
    then have "rows s' (idx_coll ms b) = rows s (idx_coll ms b)" using others by (auto simp: rows_def)
    moreover have "expected_rows E s' ms b = expected_rows E s ms b"
      using same False comp by (auto simp: expected_rows_def)
    ultimately show ?thesis using s(2) ms by (simp add: index_ok_def coll_keys_rows)
  next
    case True
    let ?rest = "{r. \<exists>us p. us \<noteq> ?ts \<and> user_toks us \<and> ent_pm E s ?ns us = Some p \<and> r \<in> entity_rows E (comp_idxs s) us p b}"
    let ?old = "ent_rows k (ent_pm E s ?ns ?ts) (comp_idxs s) b" and ?new = "ent_rows k (ent_pm E s' ?ns ?ts) (comp_idxs s) b"
    have rows: "ent_rows k e (comp_idxs s) b = {r. \<exists>p. e = Some p \<and> r \<in> entity_rows E (comp_idxs s) ?ts p b}" for e
      using ent_rows_entity [OF ne] by (cases e) (simp_all add: ent_rows_def)
    have rest: "?rest = {r. \<exists>us p. us \<noteq> ?ts \<and> user_toks us \<and> ent_pm E s' ?ns us = Some p \<and> r \<in> entity_rows E (comp_idxs s) us p b}"
      using same by (intro Collect_cong ex_cong1) auto
    have split: "expected_rows E s ?ns b = ?rest \<union> ?old" unfolding expected_rows_def comp rows by (rule split_ex [where P = user_toks, OF k(1)])
    have split': "expected_rows E s' ?ns b = ?rest \<union> ?new"
      unfolding expected_rows_def comp rows rest by (rule split_ex [where P = user_toks, OF k(1)])
    have "?rest \<inter> ?old = {}"
    proof (rule ccontr)
      assume "?rest \<inter> ?old \<noteq> {}"
      then obtain r us p q where r: "us \<noteq> ?ts" "user_toks us" "ent_pm E s ?ns us = Some p" "ent_pm E s ?ns ?ts = Some q"
        "r \<in> entity_rows E (comp_idxs s) us p b" "r \<in> entity_rows E (comp_idxs s) ?ts q b"
        unfolding rows by blast
      have "us = ?ts"
        using r(2) k(1) stored_pm_ok [OF s r(2,3)] stored_pm_ok [OF s k(1) r(4)]
        by (intro entity_rows_disjoint [OF cmpbin_reads cmpbin_sorts _ _ _ _ r(5,6)]) (simp_all add: user_toks_def)
      with r(1) show False by simp
    qed
    moreover have "rows s (idx_coll ?ns b) = ?rest \<union> ?old"
      using s(2) k(2) split by (simp add: index_ok_def coll_keys_rows)
    ultimately show ?thesis using upd split' True by auto
  qed
  ultimately show ?thesis by (simp add: index_ok_def coll_keys_rows)
qed

text \<open>A change of counters only.\<close>

lemma index_ok_counters:
  assumes s: "store_ok E s" "index_ok E s" and s': "store_ok E s'"
    and st: "\<forall>ms us. user_toks us \<longrightarrow> stored E s' ms us = stored E s ms us"
    and other: "\<forall>n. n \<notin> range ents_coll \<longrightarrow> has s' n = has s n \<and> get s' n = get s n"
  shows "index_ok E s'"
proof -
  have pm: "ent_pm E s' ms us = ent_pm E s ms us" if "user_toks us" for ms us
    using st that by (intro views_stored(1)) simp
  have rows: "rows s' n = rows s n" "has s' n = has s n" if "n \<notin> range ents_coll" for n
    using other that by (simp_all add: rows_def)
  have "''idx'' \<notin> range ents_coll" by auto
  then have "comp_idxs s' = comp_idxs s" using rows by (intro comp_idxs_cong) auto
  then have "compound_idxs E s' = compound_idxs E s" using compound_comp s(1) s' by simp
  then have "expected_rows E s' = expected_rows E s" using pm by (auto simp: expected_rows_def fun_eq_iff)
  moreover have "idx_coll ns b \<notin> range ents_coll" for ns b by auto
  ultimately show ?thesis using s(2) pm rows(1) by (simp add: index_ok_def coll_keys_rows)
qed

lemma stored_map_no_key: "putable pm \<Longrightarrow> no_key_prop pm \<Longrightarrow> no_key_prop (stored_map E ts pm)"
proof -
  assume pm: "putable pm" "no_key_prop pm"
  then have "map_of (pm_Save pm False) ''__key__'' = None"
    by (auto simp: no_key_prop_def pm_Save_eq map_of_eq_None_iff)
  then have "map_of (stored_map E ts pm) ''__key__'' = None"
    using stored_map(4) [OF pm(1), of "''__key__''" ts] by simp
  then show ?thesis by (simp add: no_key_prop_def map_of_eq_None_iff)
qed

lemma abs_write_entity:
  assumes "abs_ds E d' = a_write (abs_ds E d) ns ts v" "user_toks ts"
  shows "entity E (head d') ns ts = v"
proof -
  have "a_ents (abs_ds E d') ns ts = v" unfolding assms(1) by (simp add: a_write_def)
  then show ?thesis using assms(2) by (simp add: abs_ds_def)
qed

text \<open>The property map read back from the store has the rows of the one that was put.\<close>

lemma stored_rows:
  assumes s: "store_ok E s'" and k: "user_toks (toks k)" and pm: "putable pm" "no_key_prop pm"
    and e: "entity E s' ns (toks k) = Some (map_of (stored_map E (toks k) pm))"
  obtains p where "ent_pm E s' ns (toks k) = Some p" "no_key_prop p"
    "\<And>cidx b. ent_rows k (Some (stored_map E (toks k) pm)) cidx b = ent_rows k (Some p) cidx b"
proof -
  let ?ts = "toks k" and ?pm = "stored_map E (toks k) pm"
  obtain p where p: "ent_pm E s' ns ?ts = Some p" "map_of p = map_of ?pm" using e by (auto simp: entity_def)
  have "fst ` set p = fst ` set ?pm" by (simp only: p(2) flip: dom_map_of_conv_image_fst)
  then have nk: "no_key_prop p" using stored_map_no_key [OF pm, of ?ts] by (simp add: no_key_prop_def)
  obtain v where v: "stored E s' ns ?ts = Some v" "readPropMap E v = Inr p"
    using p(1) by (auto simp: ent_pm_def split: option.splits sum.splits)
  then have "pm_storable p"
    using store_okD(2) [OF s v(1)] k by (auto simp: record_ok_def user_toks_def)
  then have dist: "distinct (map fst p)" "distinct (map fst ?pm)"
    using stored_map(2) [OF pm(1)] by (simp_all add: pm_storable_def pm_wf_def)
  have ne: "?ts \<noteq> []" using k by (simp add: user_toks_def toks_storable_def)
  have "ent_rows k (Some ?pm) cidx b = ent_rows k (Some p) cidx b" for cidx b
    by (simp add: ent_rows_entity [OF ne] entity_rows_cong [OF dist p(2)])
  then show ?thesis using that p(1) nk by blast
qed

lemma put_index_ok:
  assumes d: "ds_ok E d" "\<not> disableSpecialEntities d" "index_ok E (head d)"
    and k: "user_toks (toks k)" "putable pm" "plain_ns (Key_Namespace k)" "no_key_prop pm"
    and ex: "put_one E d (Key_Namespace k) k (pm_Save pm False) = Some (r, d')"
  shows "index_ok E (head d')"
proof -
  let ?ns = "Key_Namespace k" and ?ts = "toks k" and ?pm = "stored_map E (toks k) pm"
  have st: "store_ok E (head d)" using d(1) by (simp add: ds_ok_def)
  obtain s' where s': "put_one E d ?ns k (pm_Save pm False) = Some ((k, None), d\<lparr>head := s'\<rparr>)" "ds_ok E (d\<lparr>head := s'\<rparr>)"
    "abs_ds E (d\<lparr>head := s'\<rparr>) = a_write (abs_ds E d) ?ns ?ts (Some (map_of ?pm))"
    "agree_except s' (head d) ?ns ?ts" "rows s' ''idx'' = rows (head d) ''idx''" "has s' ''idx'' = has (head d) ''idx''"
    "\<forall>n. n \<in> range (idx_coll ?ns) \<or> n = ents_coll ?ns \<or> has s' n = has (head d) n \<and> get s' n = get (head d) n"
    "\<forall>b. rows s' (idx_coll ?ns b) = rows (head d) (idx_coll ?ns b) -
      ent_rows k (ent_pm E (head d) ?ns ?ts) (comp_idxs (head d)) b \<union> ent_rows k (Some ?pm) (comp_idxs (head d)) b"
    using put_one_complete [OF d(1,2) k(1,2)] by metis
  have ok': "store_ok E s'" using s'(2) by (simp add: ds_ok_def)
  have "entity E s' ?ns ?ts = Some (map_of ?pm)" using abs_write_entity [OF s'(3) k(1)] by simp
  then obtain p where p: "ent_pm E s' ?ns ?ts = Some p" "no_key_prop p"
    "\<And>cidx b. ent_rows k (Some ?pm) cidx b = ent_rows k (Some p) cidx b"
    using stored_rows [OF ok' k(1,2,4)] by metis
  have "index_ok E s'"
    by (rule index_ok_write [OF st d(3) ok' k(1,3) s'(4-7)]) (use s'(8) p in simp_all)
  then show ?thesis using ex s'(1) by auto
qed

lemma del_index_ok:
  assumes d: "ds_ok E d" "\<not> disableSpecialEntities d" "index_ok E (head d)"
    and k: "user_toks (toks k)" "plain_ns (Key_Namespace k)"
    and ex: "del_one E d (Key_Namespace k) k = Some (r, d')"
  shows "index_ok E (head d')"
proof -
  let ?ns = "Key_Namespace k" and ?ts = "toks k"
  have st: "store_ok E (head d)" using d(1) by (simp add: ds_ok_def)
  obtain s' where s': "del_one E d ?ns k = Some (None, d\<lparr>head := s'\<rparr>)" "ds_ok E (d\<lparr>head := s'\<rparr>)"
    "abs_ds E (d\<lparr>head := s'\<rparr>) = a_write (abs_ds E d) ?ns ?ts None"
    "agree_except s' (head d) ?ns ?ts" "rows s' ''idx'' = rows (head d) ''idx''" "has s' ''idx'' = has (head d) ''idx''"
    "\<forall>n. n \<in> range (idx_coll ?ns) \<or> n = ents_coll ?ns \<or> has s' n = has (head d) n \<and> get s' n = get (head d) n"
    "\<forall>b. rows s' (idx_coll ?ns b) = rows (head d) (idx_coll ?ns b) -
      ent_rows k (ent_pm E (head d) ?ns ?ts) (comp_idxs (head d)) b"
    using del_one_user [OF d(1,2) k(1)] by metis
  have ok': "store_ok E s'" using s'(2) by (simp add: ds_ok_def)
  have "ent_pm E s' ?ns ?ts = None" using abs_write_entity [OF s'(3) k(1)] by (simp add: entity_def)
  then have "index_ok E s'"
    by (intro index_ok_write [OF st d(3) ok' k s'(4-7)]) (use s'(8) in \<open>simp_all add: ent_rows_def\<close>)
  then show ?thesis using ex s'(1) by auto
qed

lemma fixKey_index_ok:
  assumes d: "ds_ok E d" "\<not> disableSpecialEntities d" "index_ok E (head d)"
    and op: "op_ok (OpFixKey k)" and ex: "exec_op E d (OpFixKey k) = Some d'"
  shows "index_ok E (head d')"
proof -
  have st: "store_ok E (head d)" using d(1) by (simp add: ds_ok_def)
  obtain s' where s': "exec_op E d (OpFixKey k) = Some (d\<lparr>head := s'\<rparr>)" "ds_ok E (d\<lparr>head := s'\<rparr>)"
    "counts E s' (head d) [OpFixKey k]"
    "\<forall>n. n \<notin> range ents_coll \<longrightarrow> has s' n = has (head d) n \<and> get s' n = get (head d) n"
    using exec_fixKey [OF d(1,2) op] by metis
  have "stored E s' ms us = stored E (head d) ms us" if "user_toks us" for ms us
    using s'(3) that by (simp add: counts_def touches_def)
  then have "index_ok E s'"
    using s'(2,4) by (intro index_ok_counters [OF st d(3)]) (simp_all add: ds_ok_def)
  then show ?thesis using ex s'(1) by auto
qed

lemma exec_op_index_ok:
  assumes "ds_ok E d" "\<not> disableSpecialEntities d" "index_ok E (head d)" "op_ok op" "index_op op" "exec_op E d op = Some d'"
  shows "index_ok E (head d')"
  using assms put_index_ok [OF assms(1-3)] del_index_ok [OF assms(1-3)] fixKey_index_ok [OF assms(1-3)]
  by (cases op) (auto simp: exec_op_def op_ok_def index_op_def)

end

end
