(* ===== verification/Index_Build.thy ===== *)
theory Index_Build
  imports Index_Consistency
begin

text \<open>
  Adding compound indexes to a store that has entities already: \<^verbatim>\<open>addIndexes\<close> records the
  definitions and fills their tables from every namespace.
\<close>

section \<open>The namespaces of a store\<close>

lemma prefix_between: "prefix p x \<Longrightarrow> prefix p z \<Longrightarrow> x \<le> y \<Longrightarrow> y \<le> (z :: string) \<Longrightarrow> prefix p y"
proof (induction p arbitrary: x y z)
  case (Cons a p)
  obtain x' where x: "x = a # x'" "prefix p x'" using Cons.prems(1) by (auto simp: prefix_def)
  obtain z' where z: "z = a # z'" "prefix p z'" using Cons.prems(2) by (auto simp: prefix_def)
  obtain b y' where y: "y = b # y'" using Cons.prems(3) x(1) by (cases y) simp_all
  have "a < b \<or> a = b \<and> x' \<le> y'" "b < a \<or> b = a \<and> y' \<le> z'"
    using Cons.prems(3,4) unfolding x(1) z(1) y Cons_le_Cons by simp_all
  then have "b = a" "x' \<le> y'" "y' \<le> z'" using less_asym by blast+
  then show ?case using Cons.IH [OF x(2) z(2)] y by simp
qed simp

lemma ns_loop_started: "acc \<noteq> [] \<Longrightarrow> ns_loop acc cs = acc @ map (drop (length ''ents:'')) (takeWhile (prefix ''ents:'') cs)"
  by (induction cs arbitrary: acc) (simp_all add: trimPrefix_def del: list.size)

lemma takeWhile_prefix:
  assumes "sorted_wrt (<) (c # cs)" "prefix p (c :: string)"
  shows "set (takeWhile (prefix p) cs) = {x \<in> set cs. prefix p x}"
  using assms
proof (induction cs)
  case (Cons x cs)
  show ?case
  proof (cases "prefix p x")
    case True
    then show ?thesis using Cons by auto
  next
    case False
    have "\<not> prefix p y" if "y \<in> set cs" for y
      using prefix_between [OF Cons.prems(2), of y x] Cons.prems(1) that False by force
    then show ?thesis using False by auto
  qed
qed simp

lemma drop_prefix_image: "drop (length p) ` {x \<in> S. prefix p x} = {ns. p @ ns \<in> S}"
  by (auto simp: prefix_def image_iff) (metis append_eq_conv_conj)

lemma namespaces_sorted:
  assumes "sorted_wrt (<) cs"
  shows "set (ns_loop [] cs) = {ns. ''ents:'' @ ns \<in> set cs}"
  using assms
proof (induction cs)
  case (Cons c cs)
  show ?case
  proof (cases "prefix ''ents:'' c")
    case True
    let ?n = "length ''ents:''"
    have "ns_loop [] (c # cs) = map (drop ?n) (c # takeWhile (prefix ''ents:'') cs)"
      using True by (simp add: trimPrefix_def ns_loop_started del: list.size)
    then have "set (ns_loop [] (c # cs)) = drop ?n ` {x \<in> set (c # cs). prefix ''ents:'' x}"
      using takeWhile_prefix [OF Cons.prems True] True by auto
    also have "\<dots> = {ns. ''ents:'' @ ns \<in> set (c # cs)}"
      by (rule drop_prefix_image)
    finally show ?thesis .
  next
    case False
    then show ?thesis using Cons by (auto simp: trimPrefix_def)
  qed
qed simp

section \<open>Filling the tables\<close>

text \<open>The rows of an entity for given definitions, and those of all records of a namespace.\<close>

definition new_rows :: "'s dsenv \<Rightarrow> IndexDefinition list \<Rightarrow> KeyTok list \<Rightarrow> PropertyMap \<Rightarrow> byte list \<Rightarrow> byte list set" where
  "new_rows E idxs ts pm b =
     entry_rows (e_cmpbin E) (Kind (last ts)) (PropertyMapPartially (e_cmpbin E) (Some (path_key ts)) pm) idxs b"

definition record_rows :: "'s dsenv \<Rightarrow> IndexDefinition list \<Rightarrow> storeEntry \<Rightarrow> byte list \<Rightarrow> byte list set" where
  "record_rows E idxs e b =
     {r. \<exists>ts pm. toks_storable ts \<and> fst e = key_bytes (e_cmpbin E) ts \<and> readPropMap E (snd e) = Inr pm \<and>
        r \<in> new_rows E idxs ts pm b}"

definition entry_ok :: "'s dsenv \<Rightarrow> storeEntry \<Rightarrow> bool" where
  "entry_ok E e \<longleftrightarrow> (\<exists>ts pm. toks_storable ts \<and> fst e = key_bytes (e_cmpbin E) ts \<and> readPropMap E (snd e) = Inr pm)"

context ds_env begin

lemma read_key_bytes:
  assumes "toks_storable ts"
  shows "ReadProperty C WithoutContext ctx (key_bytes C ts) =
    Inr (\<lparr>pvalue = PKeyV \<lparr>kc = ctx, toks = ts\<rparr>, indexSetting = ShouldIndex\<rparr>, [])"
proof -
  let ?p = "key_prop (path_key ts)"
  have p: "prop_storable ?p"
    using assms by (simp add: prop_storable_def prop_ok_def key_prop_def key_storable_toks path_key_def)
  obtain bs where bs: "WriteIndexProperty C False ?p = Some bs"
    "ReadProperty C WithoutContext ctx (bs @ []) = Inr (recontext False WithoutContext ctx (index_property ?p), [])"
    using ReadProperty_WriteIndex [OF cmpbin_reads cmpbin_sorts p, of False] by metis
  have "bs = key_bytes C ts"
    using prop_bytes_key [of C False "path_key ts"] bs(1) by (simp add: ToBytes_def toBytesErr_def path_key_def)
  moreover have "recontext False WithoutContext ctx (index_property ?p) =
      \<lparr>pvalue = PKeyV \<lparr>kc = ctx, toks = ts\<rparr>, indexSetting = ShouldIndex\<rparr>"
    by (simp add: recontext_def index_property_def key_prop_def path_key_def read_context_def)
  ultimately show ?thesis using bs(2) by simp
qed

lemma add_index_ent:
  assumes s: "rw s" and e: "entry_ok E e"
  obtains s' where "add_index_ent E app ns idxs s e = Some s'" "rw s'"
    "\<And>n. n \<notin> range (idx_coll ns) \<Longrightarrow> has s' n = has s n \<and> get s' n = get s n"
    "\<And>b. rows s' (idx_coll ns b) = rows s (idx_coll ns b) \<union> record_rows E idxs e b"
proof -
  obtain ts pm where ts: "toks_storable ts" "fst e = key_bytes C ts" and pm: "readPropMap E (snd e) = Inr pm"
    using e by (auto simp: entry_ok_def)
  let ?k = "\<lparr>kc = MkKeyContext app ns, toks = ts\<rparr>"
  have k: "Key_Kind ?k = Some (Kind (last ts))" "Key_Namespace ?k = ns"
    using ts(1) by (simp_all add: Key_Kind_def LastTok_def toks_storable_def Key_Namespace_def MkKeyContext_def)
  have sip: "PropertyMapPartially C (Some ?k) pm = PropertyMapPartially C (Some (path_key ts)) pm"
    by (rule PropertyMapPartially_toks) (simp add: path_key_def)
  obtain sn where sn: "indexEntries E ?k (PropertyMapPartially C (Some ?k) pm) idxs = Some sn" "index_store ns sn"
    "\<And>b. rows sn (idx_coll ns b) = entry_rows C (Kind (last ts)) (PropertyMapPartially C (Some ?k) pm) idxs b"
    using indexEntries [OF PropertyMapPartially_ok [of C ?k pm] k(1), of idxs] unfolding k(2) by metis
  obtain s' where s': "mergeIndexes E ns s (ts_New T) sn = Some s'" "rw s'"
    "\<And>n. n \<notin> range (idx_coll ns) \<Longrightarrow> has s' n = has s n \<and> get s' n = get s n"
    "\<And>b. rows s' (idx_coll ns b) = rows s (idx_coll ns b) - rows (ts_New T) (idx_coll ns b) \<union> rows sn (idx_coll ns b)"
    using mergeIndexes [OF index_store_New sn(2) s] by metis
  have "record_rows E idxs e b = new_rows E idxs ts pm b" for b
    using ts pm key_bytes_inj [OF cmpbin_reads] by (auto simp: record_rows_def)
  then show ?thesis
    using that s' sn(1,3) ts(2) pm read_key_bytes [OF ts(1)]
    by (simp add: add_index_ent_def Property_Value_def new_rows_def sip)
qed

lemma add_index_ents:
  assumes "rw s" "\<forall>e \<in> set es. entry_ok E e"
  shows "\<exists>s'. add_index_ents E app ns idxs s es = Some s' \<and> rw s' \<and>
    (\<forall>n. n \<notin> range (idx_coll ns) \<longrightarrow> has s' n = has s n \<and> get s' n = get s n) \<and>
    (\<forall>b. rows s' (idx_coll ns b) = rows s (idx_coll ns b) \<union> (\<Union>e \<in> set es. record_rows E idxs e b))"
  using assms
proof (induction es arbitrary: s)
  case (Cons e es)
  obtain s1 where s1: "add_index_ent E app ns idxs s e = Some s1" "rw s1"
    "\<And>n. n \<notin> range (idx_coll ns) \<Longrightarrow> has s1 n = has s n \<and> get s1 n = get s n"
    "\<And>b. rows s1 (idx_coll ns b) = rows s (idx_coll ns b) \<union> record_rows E idxs e b"
    using add_index_ent [OF Cons.prems(1)] Cons.prems(2) by (metis list.set_intros(1))
  obtain s' where s': "add_index_ents E app ns idxs s1 es = Some s'" "rw s'"
    "\<forall>n. n \<notin> range (idx_coll ns) \<longrightarrow> has s' n = has s1 n \<and> get s' n = get s1 n"
    "\<forall>b. rows s' (idx_coll ns b) = rows s1 (idx_coll ns b) \<union> (\<Union>e \<in> set es. record_rows E idxs e b)"
    using Cons.IH [OF s1(2)] Cons.prems(2) by auto
  then show ?case using s1 by (intro exI [of _ s']) (simp add: Un_assoc)
qed simp

text \<open>One namespace: the rows of its records, of which only the entities can have any.\<close>

definition ns_rows :: "'s \<Rightarrow> IndexDefinition list \<Rightarrow> string \<Rightarrow> byte list \<Rightarrow> byte list set" where
  "ns_rows s idxs ns b =
     {r. \<exists>ts pm. toks_storable ts \<and> ent_pm E s ns ts = Some pm \<and> r \<in> new_rows E idxs ts pm b}"

lemma ent_entries:
  assumes "store_ok E s" "has s (ents_coll ns)"
  shows "\<forall>e \<in> set (coll_ForEachItem T (ms_Snapshot T s, ents_coll ns)). entry_ok E e"
    and "(\<Union>e \<in> set (coll_ForEachItem T (ms_Snapshot T s, ents_coll ns)). record_rows E idxs e b) = ns_rows s idxs ns b"
proof -
  have es: "set (coll_ForEachItem T (ms_Snapshot T s, ents_coll ns)) = {(k, v). get s (ents_coll ns) k = Some v}"
    using assms(2) by (simp add: ForEach)
  have ok: "\<exists>ts. toks_storable ts \<and> k = key_bytes C ts \<and> record_ok E ts v" if "get s (ents_coll ns) k = Some v" for k v
    using assms that unfolding store_ok_def by blast
  then show "\<forall>e \<in> set (coll_ForEachItem T (ms_Snapshot T s, ents_coll ns)). entry_ok E e"
    unfolding es entry_ok_def record_ok_def by (fastforce split: if_splits)
  have "ent_pm E s ns ts = Some pm \<longleftrightarrow> (\<exists>v. get s (ents_coll ns) (key_bytes C ts) = Some v \<and> readPropMap E v = Inr pm)" for ts pm
    using assms(2) by (auto simp: ent_pm_def stored_def split: option.splits sum.splits)
  then show "(\<Union>e \<in> set (coll_ForEachItem T (ms_Snapshot T s, ents_coll ns)). record_rows E idxs e b) = ns_rows s idxs ns b"
    unfolding es record_rows_def ns_rows_def by (auto, metis)
qed

lemma same_ents:
  assumes "\<forall>n. n \<notin> \<Union> (range (range \<circ> idx_coll)) \<longrightarrow> has s' n = has s n \<and> get s' n = get s n"
  shows "stored E s' = stored E s" "ent_pm E s' = ent_pm E s" "store_ok E s' = store_ok E s"
proof -
  have e: "ents_coll ns \<notin> \<Union> (range (range \<circ> idx_coll))" "''idx'' \<notin> \<Union> (range (range \<circ> idx_coll))" for ns by auto
  have h: "has s' (ents_coll ns) = has s (ents_coll ns)" "get s' (ents_coll ns) = get s (ents_coll ns)"
    "has s' ''idx'' = has s ''idx''" "get s' ''idx'' = get s ''idx''" for ns using assms e by blast+
  show st: "stored E s' = stored E s" using h by (intro stored_congs) blast
  then show "ent_pm E s' = ent_pm E s" by (simp add: fun_eq_iff ent_pm_def)
  show "store_ok E s' = store_ok E s" by (simp only: store_ok_def h)
qed

lemma add_index_nss:
  assumes "rw s" "store_ok E s"
  shows "\<exists>s'. add_index_nss E app idxs s nss = Some s' \<and> rw s' \<and>
    (\<forall>n. n \<notin> \<Union> (range (range \<circ> idx_coll)) \<longrightarrow> has s' n = has s n \<and> get s' n = get s n) \<and>
    (\<forall>n. rows s' n = rows s n \<union> {r. \<exists>ns \<in> set nss. \<exists>b. n = idx_coll ns b \<and> r \<in> ns_rows s idxs ns b})"
  using assms
proof (induction nss arbitrary: s)
  case (Cons ns nss)
  have coll: "''ents:'' @ ns = ents_coll ns" by (simp add: ents_coll_def)
  have none: "ns_rows s idxs ns b = {}" if "\<not> has s (ents_coll ns)" for b
    using that by (simp add: ns_rows_def ent_pm_def stored_def)
  obtain s1 where s1: "(case ms_GetCollection T (ms_Snapshot T s) (ents_coll ns) of
       None \<Rightarrow> Some s
     | Some allEnts \<Rightarrow> add_index_ents E app ns idxs s (coll_ForEachItem T allEnts)) = Some s1" "rw s1"
    "\<forall>n. n \<notin> range (idx_coll ns) \<longrightarrow> has s1 n = has s n \<and> get s1 n = get s n"
    "\<forall>b. rows s1 (idx_coll ns b) = rows s (idx_coll ns b) \<union> ns_rows s idxs ns b"
  proof (cases "has s (ents_coll ns)")
    case True
    from add_index_ents [OF Cons.prems(1) ent_entries(1) [OF Cons.prems(2) True], of app ns idxs] that True
    show ?thesis unfolding ent_entries(2) [OF Cons.prems(2) True] by (auto simp: ms_GetCollection_def)
  next
    case False
    then show ?thesis using that [of s] Cons.prems(1) none by (simp add: ms_GetCollection_def)
  qed
  have same: "\<forall>n. n \<notin> \<Union> (range (range \<circ> idx_coll)) \<longrightarrow> has s1 n = has s n \<and> get s1 n = get s n" using s1(3) by fastforce
  note e = same_ents [OF same]
  obtain s' where s': "add_index_nss E app idxs s1 nss = Some s'" "rw s'"
    "\<forall>n. n \<notin> \<Union> (range (range \<circ> idx_coll)) \<longrightarrow> has s' n = has s1 n \<and> get s' n = get s1 n"
    "\<forall>n. rows s' n = rows s1 n \<union> {r. \<exists>ns \<in> set nss. \<exists>b. n = idx_coll ns b \<and> r \<in> ns_rows s1 idxs ns b}"
    using Cons.IH [OF s1(2)] Cons.prems(2) e(3) by auto
  have "rows s1 n = rows s n \<union> {r. \<exists>b. n = idx_coll ns b \<and> r \<in> ns_rows s idxs ns b}" for n
  proof (cases "n \<in> range (idx_coll ns)")
    case True
    then show ?thesis using s1(4) by auto
  next
    case False
    then show ?thesis using s1(3) by (auto simp: rows_def)
  qed
  moreover have "ns_rows s1 = ns_rows s" using e(2) by (simp add: ns_rows_def fun_eq_iff)
  ultimately have "rows s' n = rows s n \<union> {r. \<exists>ns \<in> set (ns # nss). \<exists>b. n = idx_coll ns b \<and> r \<in> ns_rows s idxs ns b}" for n
    using s'(4) by auto
  moreover have "add_index_nss E app idxs s (ns # nss) = Some s'"
    using s1(1) s'(1) unfolding add_index_nss.simps coll by simp
  ultimately show ?case using s'(2,3) same by (intro exI [of _ s']) simp
qed simp

lemma add_index_defs:
  assumes "rw s" "has s ''idx''"
  shows "\<exists>s'. add_index_defs E s (map Normalize idxs) = Some s' \<and> rw s' \<and> has s' = has s \<and>
    (\<forall>n. n \<noteq> ''idx'' \<longrightarrow> get s' n = get s n) \<and> rows s' ''idx'' = rows s ''idx'' \<union> idx_bin C ` set idxs"
  using assms
proof (induction idxs arbitrary: s)
  case (Cons i idxs)
  let ?s1 = "tc_Put T s ''idx'' (idx_bin C i, [])"
  have bin: "ToBytes C (e_detmaps E) (SIndexDefinition (PrepForIdxTable (Normalize i))) = Some (idx_bin C i)"
    by (simp add: ToBytes_def toBytesErr_def idx_bin_def)
  have "rw ?s1" "has ?s1 ''idx''" using Cons.prems by simp_all
  from Cons.IH [OF this] obtain s' where "add_index_defs E ?s1 (map Normalize idxs) = Some s'" "rw s'" "has s' = has ?s1"
    "\<forall>n. n \<noteq> ''idx'' \<longrightarrow> get s' n = get ?s1 n" "rows s' ''idx'' = rows ?s1 ''idx'' \<union> idx_bin C ` set idxs" by auto
  then show ?case using Cons.prems bin by (intro exI [of _ s']) auto
qed simp

text \<open>The definitions of a table.\<close>

lemma set_comp_idxs: "set (comp_idxs s) = table_entry ` rows s ''idx''"
  by (auto simp: comp_idxs_def rows_def Iterator_set image_iff)

lemma table_entry_bin:
  assumes "length (SortBy (Normalize i)) \<le> MaxIndexColumns + 1"
  shows "table_entry (idx_bin C i) = Normalize i" "\<exists>r. ReadIndexDefinition C (idx_bin C i) = Inr r"
proof -
  let ?j = "PrepForIdxTable (Normalize i)"
  have "length (SortBy ?j) \<le> MaxIndexColumns + 1"
    using assms by (simp add: PrepForIdxTable_def Flip_def) (simp add: Normalize_def)
  then have "ReadIndexDefinition C (WriteIndexDefinition C ?j @ []) = Inr (?j, [])"
    using read_cols_Write [OF cmpbin_reads, of "SortBy ?j" "MaxIndexColumns + 1" "[]"] cmpbin_reads
    by (cases ?j) (auto simp: ReadIndexDefinition_def WriteIndexDefinition_def codec_rt)
  then have r: "ReadIndexDefinition C (idx_bin C i) = Inr (?j, [])" by (simp add: idx_bin_def)
  have "Flip ?j = Normalize i" by (simp add: PrepForIdxTable_def Flip_def) (simp add: Normalize_def)
  then show "table_entry (idx_bin C i) = Normalize i" using r by (simp add: table_entry_def)
  show "\<exists>r. ReadIndexDefinition C (idx_bin C i) = Inr r" using r by blast
qed

end

text \<open>Indexes that can be added: not for the store's own records, and small enough to be read back.\<close>

definition addable :: "IndexDefinition \<Rightarrow> bool" where
  "addable i \<longleftrightarrow> ix_Kind i \<notin> {'''', ''__entity_group__'', ''__entity_group_ids__'', ''__entity_root_ids__''} \<and>
     length (SortBy (Normalize i)) \<le> MaxIndexColumns + 1"

lemma new_rows_special:
  assumes "special_toks ts" "\<forall>i \<in> set idxs. addable i"
  shows "new_rows E (map Normalize idxs) ts pm b = {}"
proof -
  have "ix_Kind (Normalize (Normalize i)) = ix_Kind i" for i by (simp add: Normalize_def)
  then show ?thesis using assms by (auto simp: new_rows_def entry_rows_def def_rows_def Let_def addable_def special_toks_def)
qed

lemma entity_rows_sets:
  "set c = set c1 \<union> set c2 \<Longrightarrow> entity_rows E c ts pm b = entity_rows E c1 ts pm b \<union> new_rows E c2 ts pm b"
  by (auto simp: entity_rows_def new_rows_def entry_rows_def)

context ds_env begin

lemma index_ok_new:
  fixes idxs
  defines "norm \<equiv> map Normalize idxs"
  assumes s: "index_ok E s" and idxs: "\<forall>i \<in> set idxs. addable i" and pm: "ent_pm E s' = ent_pm E s"
    and comp: "set (compound_idxs E s') = set (compound_idxs E s) \<union> set norm"
    and nss: "set nss = {ns. has s (ents_coll ns)}"
    and rows: "\<forall>ns b. rows s' (idx_coll ns b) = rows s (idx_coll ns b) \<union>
      {r. \<exists>ms \<in> set nss. \<exists>b'. idx_coll ns b = idx_coll ms b' \<and> r \<in> ns_rows s norm ms b'}"
  shows "index_ok E s'"
proof -
  let ?new = "\<lambda>ns b. {r. \<exists>ts pm. user_toks ts \<and> ent_pm E s ns ts = Some pm \<and> r \<in> new_rows E norm ts pm b}"
  have ns_rows: "ns_rows s norm ns b = ?new ns b" for ns b
    using new_rows_special [where E = E, OF _ idxs] unfolding ns_rows_def norm_def user_toks_def by (intro Collect_cong) blast
  have "coll_keys E s' (idx_coll ns b) = expected_rows E s' ns b" if ns: "plain_ns ns" for ns b
  proof -
    have "{r. \<exists>ms \<in> set nss. \<exists>b'. idx_coll ns b = idx_coll ms b' \<and> r \<in> ?new ms b'} = ?new ns b"
    proof (intro set_eqI iffI)
      fix r assume "r \<in> {r. \<exists>ms \<in> set nss. \<exists>b'. idx_coll ns b = idx_coll ms b' \<and> r \<in> ?new ms b'}"
      then obtain ms b' where ms: "idx_coll ns b = idx_coll ms b'" "r \<in> ?new ms b'" by blast
      then have "plain_ns ms" using s unfolding index_ok_def by blast
      then show "r \<in> ?new ns b" using ms idx_coll_plain [OF ns] by auto
    next
      fix r assume r: "r \<in> ?new ns b"
      then have "has s (ents_coll ns)" by (auto simp: ent_pm_def stored_def split: if_splits)
      then show "r \<in> {r. \<exists>ms \<in> set nss. \<exists>b'. idx_coll ns b = idx_coll ms b' \<and> r \<in> ?new ms b'}"
        using r nss by blast
    qed
    then have "coll_keys E s' (idx_coll ns b) = rows s (idx_coll ns b) \<union> ?new ns b"
      using rows by (simp add: coll_keys_rows ns_rows)
    also have "\<dots> = expected_rows E s ns b \<union> ?new ns b" using s ns by (simp add: index_ok_def coll_keys_rows)
    also have "\<dots> = expected_rows E s' ns b"
      using entity_rows_sets [OF comp, of E] by (auto simp: expected_rows_def pm)
    finally show ?thesis .
  qed
  moreover have "\<forall>ns ts p. user_toks ts \<longrightarrow> ent_pm E s' ns ts = Some p \<longrightarrow> no_key_prop p \<and> plain_ns ns"
    using s unfolding pm index_ok_def by blast
  ultimately show ?thesis by (simp add: index_ok_def)
qed

lemma addIndexes:
  assumes s: "rw s" "store_ok E s" "index_ok E s" and idxs: "\<forall>i \<in> set idxs. addable i"
  shows "\<exists>s'. addIndexes E s app idxs = Some s' \<and> rw s' \<and> store_ok E s' \<and> index_ok E s' \<and>
    set (compound_idxs E s') = set (compound_idxs E s) \<union> Normalize ` set idxs \<and> stored E s' = stored E s"
proof -
  let ?s0 = "ms_GetOrCreateCollection T s ''idx''" and ?norm = "map Normalize idxs"
  have rw0: "rw ?s0" "has ?s0 ''idx''" using s(1) by simp_all
  obtain s1 where s1: "add_index_defs E ?s0 ?norm = Some s1" "rw s1" "has s1 = has ?s0"
    "\<forall>n. n \<noteq> ''idx'' \<longrightarrow> get s1 n = get ?s0 n" "rows s1 ''idx'' = rows ?s0 ''idx'' \<union> idx_bin C ` set idxs"
    using add_index_defs [OF rw0, of idxs] by auto
  have s1': "has s1 n = has s n" "get s1 n = get s n" "rows s1 n = rows s n" if "n \<noteq> ''idx''" for n
    using that s1(3,4) s(1) by (simp_all add: rows_def)
  have tab: "rows s1 ''idx'' = rows s ''idx'' \<union> idx_bin C ` set idxs" using s1(5) s(1) by simp
  have st1: "store_ok E s1"
  proof -
    have "\<exists>r. ReadIndexDefinition C k = Inr r" if "k \<in> rows s1 ''idx''" for k
      using that tab store_okD(1) [OF s(2)] table_entry_bin(2) idxs by (auto simp: table_ok_def addable_def)
    then show ?thesis using s(2) s1' unfolding store_ok_def by (auto simp: rows_def)
  qed
  have ents: "stored E s1 = stored E s" by (rule stored_congs) (simp add: s1')
  then have pm: "ent_pm E s1 = ent_pm E s" by (simp add: fun_eq_iff ent_pm_def)
  let ?nss = "namespaces T s1"
  have nss: "set ?nss = {ns. has s (ents_coll ns)}"
    using namespaces_sorted [OF Names_sorted [of s1]] s1'(1)
    by (simp add: namespaces_def Names_set ents_coll_def [symmetric] del: append_Cons)
  obtain s' where s': "add_index_nss E app ?norm s1 ?nss = Some s'" "rw s'"
    "\<forall>n. n \<notin> \<Union> (range (range \<circ> idx_coll)) \<longrightarrow> has s' n = has s1 n \<and> get s' n = get s1 n"
    "\<forall>n. rows s' n = rows s1 n \<union> {r. \<exists>ns \<in> set ?nss. \<exists>b. n = idx_coll ns b \<and> r \<in> ns_rows s1 ?norm ns b}"
    using add_index_nss [OF s1(2) st1, of app ?norm ?nss] by auto
  note same = same_ents [OF s'(3)]
  have comp: "set (compound_idxs E s') = set (compound_idxs E s) \<union> set ?norm"
  proof -
    have "''idx'' \<notin> \<Union> (range (range \<circ> idx_coll))" by auto
    then have "rows s' ''idx'' = rows s1 ''idx''" using s'(3) unfolding rows_def by presburger
    moreover have "table_entry ` idx_bin C ` set idxs = Normalize ` set idxs"
      using table_entry_bin(1) idxs unfolding image_image by (intro image_cong) (auto simp: addable_def)
    ultimately show ?thesis
      using compound_comp [of s'] compound_comp [OF s(2)] same(3) st1 tab by (simp add: set_comp_idxs image_Un)
  qed
  have "index_ok E s'"
    by (rule index_ok_new [OF s(3) idxs _ comp nss]) (use s'(4) s1'(3) same(2) pm in \<open>simp_all add: ns_rows_def\<close>)
  then show ?thesis using s'(1,2) s1(1) same(1,3) st1 ents comp by (simp add: addIndexes_def Let_def)
qed

end

section \<open>The invariant\<close>

context ds_env begin

lemma open_ents_index_ok:
  assumes "ds_ok E d" "index_ok E (head d)"
  shows "index_ok E (head (open_ents E d ns))"
proof (rule index_ok_counters [of "head d"])
  note o = open_ents [OF assms(1), where ns = ns]
  show "store_ok E (head (open_ents E d ns))" using o(1) by (simp add: ds_ok_def)
  show "\<forall>ms us. user_toks us \<longrightarrow> stored E (head (open_ents E d ns)) ms us = stored E (head d) ms us" by (simp add: o(3))
  show "\<forall>n. n \<notin> range ents_coll \<longrightarrow>
      has (head (open_ents E d ns)) n = has (head d) n \<and> get (head (open_ents E d ns)) n = get (head d) n"
    using o(9) by blast
qed (use assms in \<open>simp_all add: ds_ok_def\<close>)

lemma run_ops_index_ok:
  assumes "ds_ok E d" "\<not> disableSpecialEntities d" "index_ok E (head d)" "\<forall>op \<in> set ops. op_ok op \<and> index_op op"
  shows "\<exists>d'. run_ops E d ops = Some d' \<and> ds_ok E d' \<and> index_ok E (head d')"
  using assms
proof (induction ops arbitrary: d)
  case (Cons op ops)
  obtain s' where s': "exec_op E d op = Some (d\<lparr>head := s'\<rparr>)" "ds_ok E (d\<lparr>head := s'\<rparr>)"
    using exec_op [OF Cons.prems(1,2)] Cons.prems(4) by auto
  have "index_ok E (head (d\<lparr>head := s'\<rparr>))"
    using exec_op_index_ok [OF Cons.prems(1-3) _ _ s'(1)] Cons.prems(4) by auto
  then show ?case using Cons.IH [OF s'(2)] Cons.prems s'(1) by auto
qed simp

text \<open>The mutations of a transaction whose data the index can hold.\<close>

lemma apply_mutations_index_ok:
  assumes "ds_ok E d" "\<not> disableSpecialEntities d" "index_ok E (head d)"
    and "\<forall>m \<in> set ms. mutation_ok ns m \<and> (case m_data m of None \<Rightarrow> True | Some pm \<Rightarrow> no_key_prop pm)" "plain_ns ns"
  shows "\<exists>d'. apply_mutations E d ms = Some d' \<and> ds_ok E d' \<and> index_ok E (head d')"
  using assms
proof (induction ms arbitrary: d)
  case (Cons m ms)
  have m: "mutation_ok ns m" using Cons.prems(4) by simp
  let ?k = "m_key m" and ?d = "open_ents E d (Key_Namespace (m_key m))"
  have k: "user_toks (toks ?k)" "plain_ns (Key_Namespace ?k)" using m Cons.prems(5) by (auto simp: mutation_ok_def)
  note o = open_ents [OF Cons.prems(1), where ns = "Key_Namespace ?k"]
  obtain s' where s': "apply_mutation E d m = Some (d\<lparr>head := s'\<rparr>)" "ds_ok E (d\<lparr>head := s'\<rparr>)"
    using apply_mutation [OF Cons.prems(1,2) m] by blast
  have "index_ok E s'"
  proof (cases "m_data m")
    case None
    obtain d1 where "del_one E ?d (Key_Namespace ?k) ?k = Some (None, d1)" using del_one_user [OF o(1) _ k(1)] o(6) Cons.prems(2) by metis
    then show ?thesis
      using del_index_ok [OF o(1) _ open_ents_index_ok [OF Cons.prems(1,3)] k, of None d1] o(6) Cons.prems(2) s'(1) None
      by (auto simp: apply_mutation_def delMulti_def)
  next
    case (Some pm)
    then have pm: "putable pm" "no_key_prop pm" using Cons.prems(4) by (auto simp: mutation_ok_def)
    obtain d1 where "put_one E d (Key_Namespace ?k) ?k (pm_Save pm False) = Some ((?k, None), d1)"
      using put_one_complete [OF Cons.prems(1,2) k(1) pm(1)] by metis
    then show ?thesis
      using put_index_ok [OF Cons.prems(1-3) k(1) pm(1) k(2) pm(2), of _ d1] s'(1) Some
      by (auto simp: apply_mutation_def putMulti_def)
  qed
  then show ?case using Cons.IH [OF s'(2)] Cons.prems s'(1) by auto
qed simp

lemma new_index_ok: "index_ok E (head (newDataStoreData E a))"
  by (simp add: index_ok_def newDataStoreData_def Let_def coll_keys_def expected_rows_def ent_pm_def stored_def)

end

text \<open>
  C5. Indexes are consistent with the entities, always: in a new datastore, after any sequence of puts,
  deletes and ID allocations, after a commit, and after compound indexes were added to a
  datastore that already has entities, the table of every index (built-in or compound) in every
  namespace holds exactly the rows of the entities stored there, in every order of the index columns,
  and adding indexes changes no entity. (Namespaces have no colon, and no property is named
  \<^verbatim>\<open>__key__\<close>.)
\<close>

theorem indexes_consistent:
  assumes "ds_env E" "ds_ok E d" "index_ok E (head d)"
  shows "index_ok E (head (newDataStoreData E a)) \<and>
    (\<forall>idxs. (\<forall>i \<in> set idxs. addable i) \<longrightarrow>
      (\<exists>d'. ds_addIndexes E d idxs = Some d' \<and> ds_ok E d' \<and> index_ok E (head d') \<and>
        set (compound_idxs E (head d')) = set (compound_idxs E (head d)) \<union> Normalize ` set idxs \<and>
        stored E (head d') = stored E (head d))) \<and>
    (\<not> disableSpecialEntities d \<longrightarrow>
      (\<forall>ops. (\<forall>op \<in> set ops. op_ok op \<and> index_op op) \<longrightarrow>
        (\<exists>d'. run_ops E d ops = Some d' \<and> ds_ok E d' \<and> index_ok E (head d'))) \<and>
      (\<forall>muts ns. plain_ns ns \<and> (\<forall>(_, ms) \<in> set muts. \<forall>m \<in> set ms. mutation_ok ns m \<and>
          (case m_data m of None \<Rightarrow> True | Some pm \<Rightarrow> no_key_prop pm)) \<longrightarrow>
        (\<exists>d'. ds_apply E d muts = Some d' \<and> ds_ok E d' \<and> index_ok E (head d'))))"
proof (intro conjI allI impI)
  show "index_ok E (head (newDataStoreData E a))" by (rule ds_env.new_index_ok [OF assms(1)])
next
  fix idxs assume "\<forall>i \<in> set idxs. addable i"
  from ds_env.addIndexes [OF assms(1) _ _ assms(3) this, of "aid d"] assms(2)
  show "\<exists>d'. ds_addIndexes E d idxs = Some d' \<and> ds_ok E d' \<and> index_ok E (head d') \<and>
      set (compound_idxs E (head d')) = set (compound_idxs E (head d)) \<union> Normalize ` set idxs \<and>
      stored E (head d') = stored E (head d)"
    by (auto simp: ds_addIndexes_def ds_ok_def)
next
  fix ops assume "\<not> disableSpecialEntities d" "\<forall>op \<in> set ops. op_ok op \<and> index_op op"
  then show "\<exists>d'. run_ops E d ops = Some d' \<and> ds_ok E d' \<and> index_ok E (head d')"
    using ds_env.run_ops_index_ok [OF assms(1,2) _ assms(3)] by blast
next
  fix muts :: "(string \<times> txnMutation list) list" and ns
  assume d: "\<not> disableSpecialEntities d"
    and "plain_ns ns \<and> (\<forall>(_, ms) \<in> set muts. \<forall>m \<in> set ms. mutation_ok ns m \<and>
          (case m_data m of None \<Rightarrow> True | Some pm \<Rightarrow> no_key_prop pm))"
  then have "\<forall>m \<in> set (concat (map snd muts)). mutation_ok ns m \<and> (case m_data m of None \<Rightarrow> True | Some pm \<Rightarrow> no_key_prop pm)"
    "plain_ns ns" by force+
  from ds_env.apply_mutations_index_ok [OF assms(1,2) d assms(3) this]
  show "\<exists>d'. ds_apply E d muts = Some d' \<and> ds_ok E d' \<and> index_ok E (head d')" by (simp add: ds_apply_def)
qed

theorem indexes_consistent_witness:
  "\<exists>d d'. run_ops simple_env (newDataStoreData simple_env ''app'') [OpPut (ex_key ''n'') ex_pm] = Some d \<and>
    ds_addIndexes simple_env d [\<lparr>ix_Kind = ''K'', ix_Ancestor = True, SortBy = [\<lparr>col_Property = ''a'', Descending = True\<rparr>]\<rparr>] =
      Some d' \<and> index_ok simple_env (head d')"
proof -
  let ?d = "newDataStoreData simple_env ''app''"
  note w = indexes_consistent [OF simple_ds.ds_env_axioms]
  have op: "op_ok (OpPut (ex_key ''n'') ex_pm) \<and> index_op (OpPut (ex_key ''n'') ex_pm)"
    using ex_ok(1,2) [of "''n''"] ex_ok(3) by (simp add: op_ok_def index_op_def plain_ns_def no_key_prop_def ex_pm_def)
  from w [OF simple_ds.new_ok(1) simple_ds.new_index_ok, of "''app''", THEN conjunct2, THEN conjunct2, THEN mp,
      OF simple_ds.new_ok(2), THEN conjunct1, THEN spec, of "[OpPut (ex_key ''n'') ex_pm]"] op
  obtain d where d: "run_ops simple_env ?d [OpPut (ex_key ''n'') ex_pm] = Some d" "ds_ok simple_env d" "index_ok simple_env (head d)"
    by (auto simp del: run_ops.simps)
  have "addable \<lparr>ix_Kind = ''K'', ix_Ancestor = True, SortBy = [\<lparr>col_Property = ''a'', Descending = True\<rparr>]\<rparr>"
    by (simp add: addable_def Normalize_def MaxIndexColumns_def)
  with w [OF d(2,3), THEN conjunct2, THEN conjunct1, THEN spec,
      of "[\<lparr>ix_Kind = ''K'', ix_Ancestor = True, SortBy = [\<lparr>col_Property = ''a'', Descending = True\<rparr>]\<rparr>]"] d(1)
  show ?thesis by (auto simp del: run_ops.simps)
qed

end
