(* ===== verification/Iterate.thy ===== *)
theory Iterate
  imports MemStore
begin

text \<open>
  The iterators of \<^verbatim>\<open>memstore_iter.go\<close>: an iterator delivers the rows of its range in order,
  and \<^verbatim>\<open>multiIterate\<close>, a zigzag over several of them, visits exactly the suffixes that all
  ranges share.
\<close>

section \<open>The rows of a range\<close>

definition def_keys :: "'s treapstore \<Rightarrow> 's iterDefinition \<Rightarrow> byte list set" where
  "def_keys T d =
     {k. tc_Get T (fst (id_c d)) (snd (id_c d)) k \<noteq> None \<and> prefix (id_prefix d) k \<and>
         id_prefix d @ id_start d \<le> k \<and> (case id_end d of None \<Rightarrow> True | Some e \<Rightarrow> k < id_prefix d @ e)}"

definition def_suffixes :: "'s treapstore \<Rightarrow> 's iterDefinition \<Rightarrow> byte list set" where
  "def_suffixes T d = drop (id_prefixLen d) ` def_keys T d"

definition def_ok :: "'s treapstore \<Rightarrow> 's iterDefinition \<Rightarrow> bool" where
  "def_ok T d \<longleftrightarrow> ts_IsReadOnly T (fst (id_c d)) \<and> ts_HasCollection T (fst (id_c d)) (snd (id_c d)) \<and>
     id_prefixLen d \<le> length (id_prefix d)"

text \<open>The callback run over a list of suffixes, until it reports an error.\<close>

fun run_cb :: "('st \<Rightarrow> byte list \<Rightarrow> 'st \<times> 'e option) \<Rightarrow> 'st \<Rightarrow> byte list list \<Rightarrow> 'st \<times> 'e option" where
  "run_cb cb st [] = (st, None)"
| "run_cb cb st (x # xs) = (case cb st x of (st, Some err) \<Rightarrow> (st, Some err) | (st, None) \<Rightarrow> run_cb cb st xs)"

lemma bytes_prefix_after:
  "prefix p x \<Longrightarrow> x \<le> y \<Longrightarrow> \<not> prefix p y \<Longrightarrow> y \<le> z \<Longrightarrow> \<not> prefix p (z :: byte list)"
proof (induction p arbitrary: x y z)
  case (Cons a p)
  obtain x' where x: "x = a # x'" "prefix p x'" using Cons.prems(1) by (auto simp: prefix_def)
  show ?case
  proof
    assume "prefix (a # p) z"
    then obtain z' where z: "z = a # z'" "prefix p z'" by (auto simp: prefix_def)
    obtain b y' where y: "y = b # y'" using Cons.prems(2) x(1) by (cases y) simp_all
    have "a < b \<or> a = b \<and> x' \<le> y'" "b < a \<or> b = a \<and> y' \<le> z'"
      using Cons.prems(2,4) unfolding x(1) z(1) y Cons_le_Cons by simp_all
    then have "b = a" "x' \<le> y'" "y' \<le> z'" using less_asym by blast+
    then show False using Cons.IH [OF x(2)] Cons.prems(3) z(2) y by simp
  qed
qed simp

lemma append_le_cancel: "(p @ u \<le> p @ v) \<longleftrightarrow> u \<le> (v :: byte list)"
  by (induction p) simp_all

lemma append_less_cancel_bytes: "(p @ u < p @ v) \<longleftrightarrow> u < (v :: byte list)"
  by (induction p) simp_all

section \<open>One iterator\<close>

text \<open>After an iterator has delivered \<open>l\<close>, its base holds the entries beyond it.\<close>

definition it_at :: "'s treapstore \<Rightarrow> 's iterDefinition \<Rightarrow> byte list option \<Rightarrow> 's iterator \<Rightarrow> bool" where
  "it_at T d l it \<longleftrightarrow>
     it_def it = d \<and> it_start it = id_prefix d @ id_start d \<and> it_end it = map_option ((@) (id_prefix d)) (id_end d) \<and>
     (case l of
        None \<Rightarrow> it_base it = None
      | Some k \<Rightarrow> it_lastKey it = k \<and> k \<in> def_keys T d \<and>
          (\<exists>b. it_base it = Some b \<and> sorted_wrt (<) (map fst b) \<and>
             set b = {(j, v). tc_Get T (fst (id_c d)) (snd (id_c d)) j = Some v \<and> k < j}))"

lemma mkIter_at: "def_ok T d \<Longrightarrow> \<exists>it. mkIter T d = Some it \<and> it_at T d None it"
  by (cases "id_end d") (simp_all add: mkIter_def def_ok_def coll_IsReadOnly_def it_at_def Join_def)

context treap begin

lemma it_step_least:
  assumes b: "sorted_wrt (<) (map fst b)" "set b = {(j, v). get (fst (id_c d)) (snd (id_c d)) j = Some v \<and> P j}"
    and P: "\<forall>i j. P i \<longrightarrow> i \<le> j \<longrightarrow> P j" "\<forall>j. P j \<longrightarrow> id_prefix d @ id_start d \<le> j"
    and it: "it_def it = d" "it_start it = id_prefix d @ id_start d" "it_end it = map_option ((@) (id_prefix d)) (id_end d)"
  shows "(\<exists>it'. it_step it b = (None, it') \<and> {k \<in> def_keys T d. P k} = {}) \<or>
    (\<exists>k v it'. it_step it b = (Some (k, v), it') \<and> k \<in> def_keys T d \<and> P k \<and>
       (\<forall>j \<in> def_keys T d. P j \<longrightarrow> k \<le> j) \<and> it_at T d (Some k) it')"
proof (cases b)
  case Nil
  then have "{k \<in> def_keys T d. P k} = {}" using b(2) by (auto simp: def_keys_def)
  then show ?thesis using Nil by (simp add: it_step_def)
next
  case (Cons e b')
  obtain k v where e: "e = (k, v)" by (cases e)
  have k: "get (fst (id_c d)) (snd (id_c d)) k = Some v" "P k" using b(2) Cons e by auto
  have least: "k \<le> j" if j: "j \<in> def_keys T d" "P j" for j
  proof -
    obtain w where "(j, w) \<in> set b" using j b(2) by (auto simp: def_keys_def)
    then show ?thesis using b(1) Cons e by (force simp: less_imp_le)
  qed
  let ?p = "id_prefix d"
  consider (out) "\<not> prefix ?p k" | (stop) c where "prefix ?p k" "id_end d = Some c" "?p @ c \<le> k"
    | (row) "prefix ?p k" "case id_end d of None \<Rightarrow> True | Some c \<Rightarrow> k < ?p @ c"
    by (cases "prefix ?p k"; cases "id_end d") (auto simp: not_less [symmetric])
  then show ?thesis
  proof cases
    case out
    have "\<not> prefix ?p j" if "j \<in> def_keys T d" "P j" for j
      by (rule bytes_prefix_after [OF _ P(2) [rule_format, OF k(2)] out least [OF that]]) simp
    then have "{k \<in> def_keys T d. P k} = {}" by (auto simp: def_keys_def)
    then show ?thesis using out Cons e it by (simp add: it_step_def Let_def)
  next
    case stop
    then have "{k \<in> def_keys T d. P k} = {}" using least by (force simp: def_keys_def)
    then show ?thesis using stop Cons e it by (simp add: it_step_def Let_def)
  next
    case row
    have keys: "k \<in> def_keys T d" using row k P(2) by (simp add: def_keys_def)
    have "set b' = {(j, v). get (fst (id_c d)) (snd (id_c d)) j = Some v \<and> k < j}"
    proof (intro set_eqI iffI; clarify)
      fix j w assume "(j, w) \<in> set b'"
      then show "get (fst (id_c d)) (snd (id_c d)) j = Some w \<and> k < j" using b Cons e by auto
    next
      fix j w assume j: "get (fst (id_c d)) (snd (id_c d)) j = Some w" "k < j"
      then have "(j, w) \<in> set b" using b(2) P(1) k(2) by auto
      then show "(j, w) \<in> set b'" using Cons e j(2) by auto
    qed
    then have "it_at T d (Some k) (it\<lparr>it_base := Some b', it_lastKey := k\<rparr>)"
      using it b(1) Cons keys by (simp add: it_at_def)
    moreover have "it_step it b = (Some (k, v), it\<lparr>it_base := Some b', it_lastKey := k\<rparr>)"
      using row Cons e it by (auto simp: it_step_def Let_def split: option.splits)
    ultimately show ?thesis using keys k(2) least by blast
  qed
qed

text \<open>\<^verbatim>\<open>skip\<close> to a target followed by \<^verbatim>\<open>next\<close>: the least row of the range from the target on that
  has not been delivered yet.\<close>

lemma skip_next:
  assumes d: "def_ok T d" and it: "it_at T d l it"
  obtains (stop) it1 it' where "it_skip T it t = Some it1" "it_next T it1 = Some (None, it')"
      "\<forall>k \<in> def_keys T d. \<not> (t \<le> k \<and> (\<forall>j. l = Some j \<longrightarrow> j < k))"
    | (row) it1 k v it' where "it_skip T it t = Some it1" "it_next T it1 = Some (Some (k, v), it')"
      "k \<in> def_keys T d" "t \<le> k" "\<forall>j. l = Some j \<longrightarrow> j < k"
      "\<forall>j \<in> def_keys T d. t \<le> j \<longrightarrow> (\<forall>i. l = Some i \<longrightarrow> i < j) \<longrightarrow> k \<le> j" "it_at T d (Some k) it'"
proof -
  let ?start = "id_prefix d @ id_start d" and ?get = "get (fst (id_c d)) (snd (id_c d))"
  define t' where "t' = (if t < ?start then ?start else t)"
  have itd: "it_def it = d" "it_start it = ?start" "it_end it = map_option ((@) (id_prefix d)) (id_end d)"
    using it by (simp_all add: it_at_def)
  have start: "?start \<le> k" if "k \<in> def_keys T d" for k using that by (simp add: def_keys_def)
  have t': "t' \<le> k \<longleftrightarrow> t \<le> k" if "k \<in> def_keys T d" for k
    using start [OF that] by (auto simp: t'_def)
  define P where "P k \<longleftrightarrow> t' \<le> k \<and> (\<forall>j. l = Some j \<longrightarrow> j < k)" for k
  have P: "\<forall>i j. P i \<longrightarrow> i \<le> j \<longrightarrow> P j" "\<forall>j. P j \<longrightarrow> ?start \<le> j"
    by (auto simp: P_def t'_def split: if_splits)
  have skip: "it_skip T it t = (if it_base it = None \<or> it_lastKey it < t'
      then map_option (\<lambda>b. it\<lparr>it_base := Some b\<rparr>) (coll_Iterator T (id_c d) t') else Some it)"
    by (simp only: it_skip_def Let_def itd t'_def)
  obtain b it1 where b: "it_skip T it t = Some it1" "it1 = it\<lparr>it_base := Some b\<rparr>" "sorted_wrt (<) (map fst b)"
    "set b = {(j, v). ?get j = Some v \<and> P j}"
  proof (cases "l = None \<or> (\<exists>k. l = Some k \<and> k < t')")
    case True
    let ?b = "tc_Iterator T (fst (id_c d)) (snd (id_c d)) t'"
    have "it_base it = None \<or> it_lastKey it < t'" using True it by (auto simp: it_at_def)
    then have "it_skip T it t = Some (it\<lparr>it_base := Some ?b\<rparr>)"
      using d by (simp add: skip coll_Iterator_def coll_IsReadOnly_def def_ok_def)
    moreover have "set ?b = {(j, v). ?get j = Some v \<and> P j}"
      using True d by (auto simp: Iterator_set def_ok_def P_def)
    ultimately show ?thesis using that d by (simp add: Iterator_sorted def_ok_def)
  next
    case False
    then obtain k where k: "l = Some k" "t' \<le> k" by (auto simp: not_less)
    then obtain b where "it_base it = Some b" "sorted_wrt (<) (map fst b)" "set b = {(j, v). ?get j = Some v \<and> k < j}"
      "it_lastKey it = k" using it by (auto simp: it_at_def)
    moreover have "P j \<longleftrightarrow> k < j" for j using k by (auto simp: P_def)
    moreover have "it_skip T it t = Some it"
      using calculation leD [OF k(2)] by (simp add: skip)
    ultimately show ?thesis using that [of it b] by simp
  qed
  have next1: "it_next T it1 = Some (it_step it1 b)" by (simp add: it_next_def b(2))
  have it1: "it_def it1 = d" "it_start it1 = ?start" "it_end it1 = map_option ((@) (id_prefix d)) (id_end d)"
    using itd by (simp_all add: b(2))
  from it_step_least [OF b(3,4) P it1] show ?thesis
  proof (elim disjE exE conjE)
    fix it' assume "it_step it1 b = (None, it')" "{k \<in> def_keys T d. P k} = {}"
    then show ?thesis using stop [OF b(1)] next1 t' by (auto simp: P_def)
  next
    fix k v it'
    assume "it_step it1 b = (Some (k, v), it')" "k \<in> def_keys T d" "P k" "\<forall>j \<in> def_keys T d. P j \<longrightarrow> k \<le> j" "it_at T d (Some k) it'"
    then show ?thesis using row [OF b(1)] next1 t' by (auto simp: P_def)
  qed
qed

section \<open>Suffixes\<close>

abbreviation stem :: "'s iterDefinition \<Rightarrow> byte list" where
  "stem d \<equiv> take (id_prefixLen d) (id_prefix d)"

lemma def_suffixes_stem:
  assumes "def_ok T d"
  shows "s \<in> def_suffixes T d \<longleftrightarrow> stem d @ s \<in> def_keys T d"
    and "k \<in> def_keys T d \<Longrightarrow> k = stem d @ drop (id_prefixLen d) k"
    and "finite (def_suffixes T d)"
proof -
  have pre: "k = stem d @ drop (id_prefixLen d) k" if k: "k \<in> def_keys T d" for k
  proof -
    obtain r where "k = id_prefix d @ r" using k by (auto simp: def_keys_def prefix_def)
    then show ?thesis using assms by (simp add: def_ok_def flip: append_assoc)
  qed
  then show "k \<in> def_keys T d \<Longrightarrow> k = stem d @ drop (id_prefixLen d) k" .
  have len: "length (stem d) = id_prefixLen d" using assms by (simp add: def_ok_def)
  show "s \<in> def_suffixes T d \<longleftrightarrow> stem d @ s \<in> def_keys T d"
  proof
    assume "s \<in> def_suffixes T d"
    then show "stem d @ s \<in> def_keys T d" using pre unfolding def_suffixes_def by force
  next
    assume k: "stem d @ s \<in> def_keys T d"
    show "s \<in> def_suffixes T d" unfolding def_suffixes_def by (rule image_eqI [OF _ k]) (use len in simp)
  qed
  have "def_keys T d \<subseteq> fst ` set (tc_Iterator T (fst (id_c d)) (snd (id_c d)) [])"
    using assms by (force simp: def_keys_def def_ok_def Iterator_set)
  then show "finite (def_suffixes T d)" unfolding def_suffixes_def by (meson List.finite_set finite_imageI finite_subset)
qed

definition it_sfx :: "'s iterDefinition \<Rightarrow> byte list option \<Rightarrow> 's iterator \<Rightarrow> bool" where
  "it_sfx d l it \<longleftrightarrow> it_at T d (map_option ((@) (stem d)) l) it"

lemma it_sfx_def_of: "it_sfx d l it \<Longrightarrow> it_def it = d"
  by (simp add: it_sfx_def it_at_def)

lemma advance:
  assumes d: "def_ok T d" and it: "it_sfx d l it"
  obtains (stop) it1 it' where "it_skip T it (Join [stem d, t]) = Some it1" "it_next T it1 = Some (None, it')"
      "\<forall>s \<in> def_suffixes T d. \<not> (t \<le> s \<and> (\<forall>j. l = Some j \<longrightarrow> j < s))"
    | (row) it1 s v it' where "it_skip T it (Join [stem d, t]) = Some it1" "it_next T it1 = Some (Some (stem d @ s, v), it')"
      "s \<in> def_suffixes T d" "t \<le> s" "\<forall>j. l = Some j \<longrightarrow> j < s"
      "\<forall>j \<in> def_suffixes T d. t \<le> j \<longrightarrow> (\<forall>i. l = Some i \<longrightarrow> i < j) \<longrightarrow> s \<le> j" "it_sfx d (Some s) it'"
proof (rule skip_next [OF d it [unfolded it_sfx_def], of "Join [stem d, t]"])
  fix it1 it'
  assume a: "it_skip T it (Join [stem d, t]) = Some it1" "it_next T it1 = Some (None, it')"
    "\<forall>k \<in> def_keys T d. \<not> (Join [stem d, t] \<le> k \<and> (\<forall>j. map_option ((@) (stem d)) l = Some j \<longrightarrow> j < k))"
  have "\<not> (t \<le> s \<and> (\<forall>j. l = Some j \<longrightarrow> j < s))" if "s \<in> def_suffixes T d" for s
    using a(3) that def_suffixes_stem(1) [OF d] by (auto simp: Join_def append_le_cancel append_less_cancel_bytes)
  then show thesis using stop [OF a(1,2)] by blast
next
  fix it1 k v it'
  assume a: "it_skip T it (Join [stem d, t]) = Some it1" "it_next T it1 = Some (Some (k, v), it')" "k \<in> def_keys T d"
    "Join [stem d, t] \<le> k" "\<forall>j. map_option ((@) (stem d)) l = Some j \<longrightarrow> j < k"
    "\<forall>j \<in> def_keys T d. Join [stem d, t] \<le> j \<longrightarrow> (\<forall>i. map_option ((@) (stem d)) l = Some i \<longrightarrow> i < j) \<longrightarrow> k \<le> j"
    "it_at T d (Some k) it'"
  obtain s where k: "k = stem d @ s" using def_suffixes_stem(2) [OF d a(3)] by blast
  show thesis
  proof (rule row)
    show "it_next T it1 = Some (Some (stem d @ s, v), it')" using a(2) k by simp
    show "s \<in> def_suffixes T d" using a(3) def_suffixes_stem(1) [OF d] k by simp
    show "t \<le> s" "\<forall>j. l = Some j \<longrightarrow> j < s" using a(4,5) k by (auto simp: Join_def append_le_cancel append_less_cancel_bytes)
    show "\<forall>j \<in> def_suffixes T d. t \<le> j \<longrightarrow> (\<forall>i. l = Some i \<longrightarrow> i < j) \<longrightarrow> s \<le> j"
    proof (intro ballI impI)
      fix j assume j: "j \<in> def_suffixes T d" "t \<le> j" "\<forall>i. l = Some i \<longrightarrow> i < j"
      have "stem d @ s \<le> stem d @ j"
        unfolding k [symmetric]
      proof (rule a(6) [rule_format])
        show "stem d @ j \<in> def_keys T d" using j(1) def_suffixes_stem(1) [OF d] by simp
        show "Join [stem d, t] \<le> stem d @ j" using j(2) by (simp add: Join_def append_le_cancel)
        show "i < stem d @ j" if "map_option ((@) (stem d)) l = Some i" for i
          using that j(3) by (auto simp: append_less_cancel_bytes)
      qed
      then show "s \<le> j" by (simp only: append_le_cancel)
    qed
    show "it_sfx d (Some s) it'" using a(7) k by (simp add: it_sfx_def)
  qed (rule a(1))
qed

section \<open>The zigzag\<close>

text \<open>What is still to be visited after the suffix \<open>c\<close>.\<close>

definition todo :: "'s iterDefinition list \<Rightarrow> byte list option \<Rightarrow> byte list set" where
  "todo ds c = {x. (\<forall>d \<in> set ds. x \<in> def_suffixes T d) \<and> (\<forall>a. c = Some a \<longrightarrow> a < x)}"

text \<open>
  The invariant of the main loop, with \<open>i\<close> iterators done in the current pass: nothing below the
  current suffix is left to visit; the iterators done and the one skipped stand at it; the others
  have passed nothing that is left to visit.
\<close>

definition zz_inv ::
  "'s iterDefinition list \<Rightarrow> byte list option \<Rightarrow> byte list \<Rightarrow> int \<Rightarrow> nat \<Rightarrow> byte list option list \<Rightarrow> bool" where
  "zz_inv ds c sfx skip i ls \<longleftrightarrow>
     length ls = length ds \<and> (\<forall>x \<in> todo ds c. sfx \<le> x) \<and>
     (\<forall>j < length ds. \<forall>a. c = Some a \<longrightarrow> (\<exists>l. ls ! j = Some l \<and> a \<le> l)) \<and>
     (\<forall>j < length ds. if int j = skip \<or> j < i then ls ! j = Some sfx \<and> sfx \<in> def_suffixes T (ds ! j)
        else \<forall>l. ls ! j = Some l \<longrightarrow> (\<forall>x \<in> todo ds c. l < x)) \<and>
     (skip \<ge> 0 \<or> i > 0 \<longrightarrow> (\<forall>a. c = Some a \<longrightarrow> a < sfx))"

definition at_all :: "'s iterDefinition list \<Rightarrow> byte list option list \<Rightarrow> 's iterator list \<Rightarrow> bool" where
  "at_all ds ls its \<longleftrightarrow> length ls = length ds \<and> length its = length ds \<and> (\<forall>j < length ds. it_sfx (ds ! j) (ls ! j) (its ! j))"

lemma zz_invD:
  assumes "zz_inv ds c sfx skip i ls" "j < length ds"
  shows "\<forall>x \<in> todo ds c. sfx \<le> x" "\<forall>a. c = Some a \<longrightarrow> (\<exists>l. ls ! j = Some l \<and> a \<le> l)"
    and "int j = skip \<or> j < i \<Longrightarrow> ls ! j = Some sfx \<and> sfx \<in> def_suffixes T (ds ! j)"
    and "\<not> (int j = skip \<or> j < i) \<Longrightarrow> \<forall>l. ls ! j = Some l \<longrightarrow> (\<forall>x \<in> todo ds c. l < x)"
  using assms unfolding zz_inv_def by presburger+

text \<open>The iterator at position \<open>i\<close> moves to \<open>s\<close>, which becomes the current suffix.\<close>

lemma zz_move:
  assumes inv: "zz_inv ds c sfx skip i ls" and i: "i < length ds" "int i \<noteq> skip"
    and s: "s \<in> def_suffixes T (ds ! i)" "sfx \<le> s" "\<forall>j. ls ! i = Some j \<longrightarrow> j < s"
      "\<forall>j \<in> def_suffixes T (ds ! i). sfx \<le> j \<longrightarrow> (\<forall>k. ls ! i = Some k \<longrightarrow> k < j) \<longrightarrow> s \<le> j"
  shows "\<forall>x \<in> todo ds c. s \<le> x" "\<forall>a. c = Some a \<longrightarrow> a < s"
proof -
  note z = zz_invD [OF inv i(1)]
  show "\<forall>x \<in> todo ds c. s \<le> x"
  proof
    fix x assume x: "x \<in> todo ds c"
    then have "x \<in> def_suffixes T (ds ! i)" using i(1) by (simp add: todo_def)
    then show "s \<le> x" using s(4) z(1,4) x i(2) by simp
  qed
  show "\<forall>a. c = Some a \<longrightarrow> a < s" using z(2) s(3) by (metis le_less_trans)
qed

lemma zz_same:
  assumes inv: "zz_inv ds c sfx skip i ls" and i: "i < length ds" "int i \<noteq> skip"
    and s: "sfx \<in> def_suffixes T (ds ! i)" "\<forall>a. c = Some a \<longrightarrow> a < sfx"
  shows "zz_inv ds c sfx skip (Suc i) (ls[i := Some sfx])"
  using inv i s unfolding zz_inv_def by (auto simp: nth_list_update less_Suc_eq order_less_imp_le)

lemma zz_up:
  assumes inv: "zz_inv ds c sfx skip i ls" and i: "i < length ds" "int i \<noteq> skip"
    and s: "s \<in> def_suffixes T (ds ! i)" "sfx < s" "\<forall>x \<in> todo ds c. s \<le> x" "\<forall>a. c = Some a \<longrightarrow> a < s"
  shows "zz_inv ds c s (int i) 0 (ls[i := Some s])"
proof -
  have "\<forall>x \<in> todo ds c. l < x" if "j < length ds" "j \<noteq> i" "ls ! j = Some l" for j l
  proof (cases "int j = skip \<or> j < i")
    case True
    then have "l = sfx" using zz_invD(3) [OF inv that(1)] that(3) by simp
    then show ?thesis using s(2,3) by (meson less_le_trans)
  next
    case False
    then show ?thesis using zz_invD(4) [OF inv that(1)] that(3) by blast
  qed
  then show ?thesis using inv i s unfolding zz_inv_def by (auto simp: nth_list_update order_less_imp_le)
qed

lemma zz_skip: "zz_inv ds c sfx (int i) i ls \<Longrightarrow> i < length ds \<Longrightarrow> zz_inv ds c sfx (int i) (Suc i) ls"
  unfolding zz_inv_def by (auto simp: less_Suc_eq)

lemma at_all_update:
  "at_all ds ls (before @ it # its) \<Longrightarrow> it_sfx (ds ! length before) l it' \<Longrightarrow> length before < length ds \<Longrightarrow>
   at_all ds (ls[length before := l]) (before @ it' # its)"
proof -
  assume a: "at_all ds ls (before @ it # its)" "it_sfx (ds ! length before) l it'" "length before < length ds"
  have "before @ it' # its = (before @ it # its)[length before := it']" by simp
  then show ?thesis using a unfolding at_all_def by (simp add: nth_list_update del: list_update_length)
qed

definition pass_ok :: "'s iterDefinition list \<Rightarrow> byte list option \<Rightarrow> byte list \<Rightarrow> 's pass \<Rightarrow> bool" where
  "pass_ok ds c sfx r =
     (case r of
        PassEnd \<Rightarrow> todo ds c = {}
      | PassRestart s k its \<Rightarrow> sfx < s \<and> (\<exists>d \<in> set ds. s \<in> def_suffixes T d) \<and>
          (\<exists>ls. zz_inv ds c s (int k) 0 ls \<and> at_all ds ls its)
      | PassDone s its \<Rightarrow> \<exists>skip ls. zz_inv ds c s skip (length ds) ls \<and> at_all ds ls its)"

lemma multi_pass:
  assumes ok: "\<forall>d \<in> set ds. def_ok T d"
  shows "zz_inv ds c sfx skip i ls \<Longrightarrow> at_all ds ls (before @ its) \<Longrightarrow> length before = i \<Longrightarrow>
    \<exists>r. multi_pass T i sfx skip before its = Some r \<and> pass_ok ds c sfx r"
proof (induction its arbitrary: sfx skip i ls before)
  case Nil
  then show ?case by (auto simp: pass_ok_def at_all_def)
next
  case (Cons it its)
  let ?d = "ds ! i"
  have i: "i < length ds" and it: "it_sfx ?d (ls ! i) it"
    using Cons.prems(2,3) by (auto simp: at_all_def nth_append dest: spec [of _ i])
  have d: "def_ok T ?d" "?d \<in> set ds" using ok i by simp_all
  then have len: "id_prefixLen ?d \<le> length (id_prefix ?d)" by (simp add: def_ok_def)
  show ?case
  proof (cases "int i = skip")
    case True
    then have "zz_inv ds c sfx skip (Suc i) ls" using zz_skip Cons.prems(1) i by blast
    from Cons.IH [OF this, of "before @ [it]"] Cons.prems(2,3) True show ?thesis by simp
  next
    case False
    then have ns: "skip \<noteq> int i" by auto
    show ?thesis
    proof (rule advance [OF d(1) it, of sfx])
      fix it1 it'
      assume a: "it_skip T it (Join [stem ?d, sfx]) = Some it1" "it_next T it1 = Some (None, it')"
        "\<forall>s \<in> def_suffixes T ?d. \<not> (sfx \<le> s \<and> (\<forall>j. ls ! i = Some j \<longrightarrow> j < s))"
      have "False" if x: "x \<in> todo ds c" for x
      proof -
        have "x \<in> def_suffixes T ?d" using x d(2) by (simp add: todo_def)
        then show False using a(3) zz_invD(1,4) [OF Cons.prems(1) i] False x by (metis less_irrefl nat_less_le)
      qed
      then have "todo ds c = {}" by blast
      then show ?thesis using a(1,2) ns len it_sfx_def_of [OF it] by (simp add: pass_ok_def Let_def)
    next
      fix it1 s v it'
      assume a: "it_skip T it (Join [stem ?d, sfx]) = Some it1" "it_next T it1 = Some (Some (stem ?d @ s, v), it')"
        "s \<in> def_suffixes T ?d" "sfx \<le> s" "\<forall>j. ls ! i = Some j \<longrightarrow> j < s"
        "\<forall>j \<in> def_suffixes T ?d. sfx \<le> j \<longrightarrow> (\<forall>k. ls ! i = Some k \<longrightarrow> k < j) \<longrightarrow> s \<le> j" "it_sfx ?d (Some s) it'"
      note m = zz_move [OF Cons.prems(1) i False a(3-6)]
      have at: "at_all ds (ls[i := Some s]) (before @ it' # its)"
        using at_all_update [OF Cons.prems(2)] a(7) i Cons.prems(3) by simp
      have pass: "multi_pass T i sfx skip before (it # its) =
          (if s > sfx then (if i \<noteq> 0 then Some (PassRestart s i (before @ it' # its))
             else multi_pass T (i + 1) s (int i) (before @ [it']) its)
           else multi_pass T (i + 1) sfx skip (before @ [it']) its)"
        using a(1,2) ns len it_sfx_def_of [OF it] by (simp add: Let_def)
      show ?thesis
      proof (cases "sfx < s")
        case up: True
        note z = zz_up [OF Cons.prems(1) i False a(3) up m]
        show ?thesis
        proof (cases "i = 0")
          case True
          have "zz_inv ds c s (int i) (Suc i) (ls[i := Some s])" using zz_skip [of ds c s i] z True i by simp
          from Cons.IH [OF this, of "before @ [it']"] at Cons.prems(3)
          obtain r where "multi_pass T (Suc i) s (int i) (before @ [it']) its = Some r" "pass_ok ds c s r" by auto
          moreover from this(2) have "pass_ok ds c sfx r"
            using up by (auto simp: pass_ok_def split: pass.splits intro: less_trans)
          ultimately show ?thesis using pass up True by simp
        next
          case False
          then show ?thesis using pass up z at a(3) d(2) by (auto simp: pass_ok_def)
        qed
      next
        case same: False
        then have s: "s = sfx" using a(4) by simp
        have "zz_inv ds c sfx skip (Suc i) (ls[i := Some sfx])" using zz_same [OF Cons.prems(1) i False] a(3) m(2) s by simp
        from Cons.IH [OF this, of "before @ [it']"] at Cons.prems(3) s pass show ?thesis by simp
      qed
    qed
  qed
qed

lemma finite_todo: "ds \<noteq> [] \<Longrightarrow> \<forall>d \<in> set ds. def_ok T d \<Longrightarrow> finite (todo ds c)"
  by (cases ds) (auto simp: todo_def intro: finite_subset [OF _ def_suffixes_stem(3)])

lemma sorted_list_least:
  assumes "finite A" "s \<in> A" "\<forall>x \<in> A. s \<le> (x :: byte list)"
  shows "sorted_list_of_set A = s # sorted_list_of_set {x \<in> A. s < x}"
proof -
  let ?B = "{x \<in> A. s < x}"
  have A: "A = insert s ?B" "finite ?B" "s \<notin> ?B" using assms by (auto simp: order_less_le)
  have "insort s xs = s # xs" if "\<forall>x \<in> set xs. s < x" for xs using that by (cases xs) auto
  then have "insort s (sorted_list_of_set ?B) = s # sorted_list_of_set ?B" using A(2) by simp
  then show ?thesis using sorted_list_of_set_insert [OF A(2,3)] A(1) by simp
qed

lemma multi_loop:
  assumes ok: "ds \<noteq> []" "\<forall>d \<in> set ds. def_ok T d"
  shows "zz_inv ds c sfx skip 0 ls \<Longrightarrow> at_all ds ls its \<Longrightarrow>
    multi_loop T cb st sfx skip its = Some (run_cb cb st (sorted_list_of_set (todo ds c)))"
proof (induction "(card (todo ds c), card {x \<in> (\<Union>d \<in> set ds. def_suffixes T d). sfx < x})"
    arbitrary: c sfx skip ls its st rule: wf_induct_rule [OF wf_lex_prod [OF wf_less_than wf_less_than]])
  case 1
  have fin: "finite (\<Union>d \<in> set ds. def_suffixes T d)" using ok def_suffixes_stem(3) by blast
  obtain r where r: "multi_pass T 0 sfx skip [] its = Some r" "pass_ok ds c sfx r"
    using multi_pass [OF ok(2) "1.prems"(1), of "[]"] "1.prems"(2) by auto
  show ?case
  proof (cases r)
    case PassEnd
    then show ?thesis using r by (simp add: multi_loop.simps [of T cb st sfx] pass_ok_def)
  next
    case (PassRestart s k its')
    then obtain ls' where ls: "sfx < s" "s \<in> (\<Union>d \<in> set ds. def_suffixes T d)" "zz_inv ds c s (int k) 0 ls'" "at_all ds ls' its'"
      using r(2) by (auto simp: pass_ok_def)
    have "card {x \<in> (\<Union>d \<in> set ds. def_suffixes T d). s < x} < card {x \<in> (\<Union>d \<in> set ds. def_suffixes T d). sfx < x}"
      using fin ls(1,2) by (intro psubset_card_mono) auto
    then show ?thesis
      using "1.hyps" [OF _ ls(3,4), of st] PassRestart r(1) by (simp add: multi_loop.simps [of T cb st sfx])
  next
    case (PassDone s its')
    then obtain skip' ls' where ls: "zz_inv ds c s skip' (length ds) ls'" "at_all ds ls' its'"
      using r(2) by (auto simp: pass_ok_def)
    have all: "ls' ! j = Some s" "s \<in> def_suffixes T (ds ! j)" if "j < length ds" for j
      using zz_invD(3) [OF ls(1) that] that by simp_all
    have s: "s \<in> todo ds c"
      using all(2) ls(1) ok(1) by (auto simp: todo_def zz_inv_def in_set_conv_nth)
    have least: "\<forall>x \<in> todo ds c. s \<le> x" using ls(1) by (simp add: zz_inv_def)
    have after: "todo ds (Some s) = {x \<in> todo ds c. s < x}"
      using s by (auto simp: todo_def intro: less_trans)
    have "card (todo ds (Some s)) < card (todo ds c)"
      unfolding after using s finite_todo [OF ok] by (intro psubset_card_mono) auto
    moreover have "zz_inv ds (Some s) [] (- 1) 0 ls'"
      using ls all by (auto simp: zz_inv_def todo_def)
    ultimately have "multi_loop T cb st' [] (- 1) its' = Some (run_cb cb st' (sorted_list_of_set (todo ds (Some s))))" for st'
      using "1.hyps" [of "Some s" "[]" "- 1" ls' its' st'] ls(2) by simp
    then show ?thesis
      using PassDone r(1) sorted_list_least [OF finite_todo [OF ok] s least]
      by (auto simp: multi_loop.simps [of T cb st sfx] after split: prod.splits option.splits)
  qed
qed

lemma multiIterate_runs:
  assumes "defs \<noteq> []" "\<forall>d \<in> set defs. def_ok T d"
  shows "multiIterate T defs cb st =
    Some (run_cb cb st (sorted_list_of_set (\<Inter>d \<in> set defs. def_suffixes T d)))"
proof -
  have "\<exists>its. make_iters T ds = Some its \<and> at_all ds (map (\<lambda>_. None) ds) its" if "\<forall>d \<in> set ds. def_ok T d" for ds
    using that
  proof (induction ds)
    case Nil
    then show ?case by (simp add: at_all_def)
  next
    case (Cons d ds)
    then obtain it its where "mkIter T d = Some it" "it_at T d None it" "make_iters T ds = Some its"
      "at_all ds (map (\<lambda>_. None) ds) its" using mkIter_at [of T d] by auto
    then show ?case
      by (auto simp: at_all_def it_sfx_def nth_Cons split: nat.splits)
  qed
  then obtain its where its: "make_iters T defs = Some its" "at_all defs (map (\<lambda>_. None) defs) its"
    using assms(2) by blast
  have "zz_inv defs None [] (- 1) 0 (map (\<lambda>_. None) defs)" by (simp add: zz_inv_def)
  from multi_loop [OF assms this its(2)] its(1) assms(1)
  show ?thesis by (simp add: multiIterate_def todo_def Inter_eq)
qed

end

text \<open>
  C14. \<^verbatim>\<open>multiIterate\<close> computes an intersection: it calls back exactly the suffixes that are in the range
  of every iterator definition (within prefix, start and end), each once, in ascending order, until the
  callback returns an error; it always ends and never indexes out of range.
\<close>

theorem multiIterate_intersection:
  assumes "treap T" "defs \<noteq> []" "\<forall>d \<in> set defs. def_ok T d"
  shows "multiIterate T defs cb st =
    Some (run_cb cb st (sorted_list_of_set (\<Inter>d \<in> set defs. def_suffixes T d)))"
  by (rule treap.multiIterate_runs [OF assms])

definition ex_range :: "string \<Rightarrow> byte \<Rightarrow> (bool \<times> (string \<times> storeEntry list) list) iterDefinition" where
  "ex_range n p = \<lparr>id_c = ((True, [(''c'', [([1, 2], []), ([1, 3], []), ([2], [])]), (''e'', [([9, 3], []), ([9, 4], [])])]), n),
     id_prefix = [p], id_prefixLen = 1, id_start = [], id_end = None\<rparr>"

theorem multiIterate_intersection_witness:
  "multiIterate simple_treapstore [ex_range ''c'' 1, ex_range ''e'' 9] (\<lambda>xs x. (xs @ [x], None :: unit option)) [] =
    Some ([[3]], None)"
proof -
  have ok: "\<forall>d \<in> set [ex_range ''c'' 1, ex_range ''e'' 9]. def_ok simple_treapstore d"
    by (simp add: def_ok_def ex_range_def simple_treapstore_def)
  have "def_keys simple_treapstore (ex_range ''c'' 1) = {[1, 2], [1, 3]}" "def_keys simple_treapstore (ex_range ''e'' 9) = {[9, 3], [9, 4]}"
    unfolding def_keys_def ex_range_def simple_treapstore_def al_entries_def
    by (auto simp: prefix_def split: if_splits)
  then have "def_suffixes simple_treapstore (ex_range ''c'' 1) = {[2], [3]}" "def_suffixes simple_treapstore (ex_range ''e'' 9) = {[3], [4]}"
    by (simp_all add: def_suffixes_def ex_range_def)
  then have "(\<Inter>d \<in> set [ex_range ''c'' 1, ex_range ''e'' 9]. def_suffixes simple_treapstore d) = {[3]}" by auto
  then show ?thesis
    using multiIterate_intersection [OF simple_ts.treap_axioms _ ok, of "\<lambda>xs x. (xs @ [x], None :: unit option)" "[]"] by simp
qed

end
