(* ===== verification/Query.thy ===== *)
theory Query
  imports Properties Indexes
begin

text \<open>
  \<^verbatim>\<open>service/datastore/query.go\<close> and \<^verbatim>\<open>finalized_query.go\<close>: the query builder and
  the normal form it is turned into. A \<^verbatim>\<open>Query\<close> is immutable: every builder method copies
  it, so the model returns a new record; the cache of \<^verbatim>\<open>Finalize\<close> (a \<^verbatim>\<open>sync.Once\<close>)
  can therefore not be seen and \<^verbatim>\<open>Finalize\<close> is a function. A nil map, set or slice and an
  empty one behave alike here and are the empty list.
\<close>

section \<open>The query\<close>

datatype qerror = QParse ierror | QEmptyField | QReservedField | QProjectKey | QValue perror
  | QKeyType | ErrMultipleInequalityFilter | ErrNullQuery | QKindlessIneq | QKindlessEq
  | QKindlessOrder | QKeysOnlyProject | QFirstOrder | QNotDescendant | QProjectEq | QPanic

text \<open>The interface \<^verbatim>\<open>Cursor\<close>: the in-memory datastore's \<^verbatim>\<open>queryCursor\<close>, a byte slice, or one
  of another implementation, known by its string.\<close>

datatype Cursor = queryCursor "byte list" | otherCursor string

record Query =
  q_kind :: string
  q_eventualConsistency :: bool
  q_keysOnly :: bool
  q_distinct :: bool
  q_limit :: "int32 option"
  q_offset :: "int32 option"
  q_order :: "IndexColumn list"
  q_project :: "string list"
  q_eqFilts :: "(string \<times> Property list) list"
  q_ineqFiltProp :: string
  q_ineqFiltLow :: Property
  q_ineqFiltLowIncl :: bool
  q_ineqFiltLowSet :: bool
  q_ineqFiltHigh :: Property
  q_ineqFiltHighIncl :: bool
  q_ineqFiltHighSet :: bool
  q_start :: "Cursor option"
  q_end :: "Cursor option"
  q_err :: "qerror option"

abbreviation zero_Property :: Property where
  "zero_Property \<equiv> \<lparr>pvalue = PNil, indexSetting = False\<rparr>"

definition NewQuery :: "string \<Rightarrow> Query" where
  "NewQuery kind =
     \<lparr>q_kind = kind, q_eventualConsistency = False, q_keysOnly = False, q_distinct = False,
      q_limit = None, q_offset = None, q_order = [], q_project = [], q_eqFilts = [],
      q_ineqFiltProp = '''', q_ineqFiltLow = zero_Property, q_ineqFiltLowIncl = False,
      q_ineqFiltLowSet = False, q_ineqFiltHigh = zero_Property, q_ineqFiltHighIncl = False,
      q_ineqFiltHighSet = False, q_start = None, q_end = None, q_err = None\<rparr>"

definition query_mod :: "Query \<Rightarrow> (Query \<Rightarrow> Query) \<Rightarrow> Query" where
  "query_mod q cb = (if q_err q \<noteq> None then q else cb q)"

section \<open>Builder methods\<close>

definition Query_Kind :: "Query \<Rightarrow> string \<Rightarrow> Query" where
  "Query_Kind q kind = query_mod q (\<lambda>q. q\<lparr>q_kind := kind\<rparr>)"

definition Query_Ancestor :: "Query \<Rightarrow> Key option \<Rightarrow> Query" where
  "Query_Ancestor q ancestor = query_mod q (\<lambda>q.
     case ancestor of
       None \<Rightarrow> q\<lparr>q_eqFilts := al_delete (q_eqFilts q) ''__ancestor__''\<rparr>
     | Some k \<Rightarrow> q\<lparr>q_eqFilts := al_set (q_eqFilts q) ''__ancestor__''
                    [\<lparr>pvalue = PKeyV k, indexSetting = ShouldIndex\<rparr>]\<rparr>)"

definition EventualConsistency :: "Query \<Rightarrow> bool \<Rightarrow> Query" where
  "EventualConsistency q on = query_mod q (\<lambda>q. q\<lparr>q_eventualConsistency := on\<rparr>)"

definition Query_Limit :: "Query \<Rightarrow> int32 \<Rightarrow> Query" where
  "Query_Limit q limit = query_mod q (\<lambda>q. q\<lparr>q_limit := if sint limit < 0 then None else Some limit\<rparr>)"

definition Query_Offset :: "Query \<Rightarrow> int32 \<Rightarrow> Query" where
  "Query_Offset q offset = query_mod q (\<lambda>q. q\<lparr>q_offset := if sint offset < 0 then None else Some offset\<rparr>)"

definition KeysOnly :: "Query \<Rightarrow> bool \<Rightarrow> Query" where
  "KeysOnly q on = query_mod q (\<lambda>q. q\<lparr>q_keysOnly := on\<rparr>)"

text \<open>\<^verbatim>\<open>reserved\<close>: the error it sets, if it refuses the field.\<close>

definition reserved :: "string \<Rightarrow> qerror option" where
  "reserved field =
     (if field = ''__key__'' \<or> field = ''__scatter__'' then None
      else if field = '''' then Some QEmptyField
      else if prefix ''__'' field \<and> suffix ''__'' field then Some QReservedField
      else None)"

fun order_loop :: "Query \<Rightarrow> string list \<Rightarrow> Query" where
  "order_loop q [] = q"
| "order_loop q (fn # fns) =
     (case ParseIndexColumn fn of
        Inl err \<Rightarrow> q\<lparr>q_err := Some (QParse err)\<rparr>
      | Inr ic \<Rightarrow>
          (case reserved (col_Property ic) of
             Some err \<Rightarrow> q\<lparr>q_err := Some err\<rparr>
           | None \<Rightarrow> order_loop (q\<lparr>q_order := q_order q @ [ic]\<rparr>) fns))"

definition Query_Order :: "Query \<Rightarrow> string list \<Rightarrow> Query" where
  "Query_Order q fieldNames =
     (if length fieldNames = 0 then q else query_mod q (\<lambda>q. order_loop q fieldNames))"

definition ClearOrder :: "Query \<Rightarrow> Query" where
  "ClearOrder q = query_mod q (\<lambda>q. q\<lparr>q_order := []\<rparr>)"

fun project_loop :: "Query \<Rightarrow> string list \<Rightarrow> Query" where
  "project_loop q [] = q"
| "project_loop q (f # fs) =
     (case reserved f of
        Some err \<Rightarrow> q\<lparr>q_err := Some err\<rparr>
      | None \<Rightarrow>
          if f = ''__key__'' then q\<lparr>q_err := Some QProjectKey\<rparr>
          else project_loop (q\<lparr>q_project := List.insert f (q_project q)\<rparr>) fs)"

definition Query_Project :: "Query \<Rightarrow> string list \<Rightarrow> Query" where
  "Query_Project q fieldNames =
     (if length fieldNames = 0 then q else query_mod q (\<lambda>q. project_loop q fieldNames))"

definition Query_Distinct :: "Query \<Rightarrow> bool \<Rightarrow> Query" where
  "Query_Distinct q on = query_mod q (\<lambda>q. q\<lparr>q_distinct := on\<rparr>)"

definition ClearProject :: "Query \<Rightarrow> Query" where
  "ClearProject q = query_mod q (\<lambda>q. q\<lparr>q_project := []\<rparr>)"

definition Query_Start :: "Query \<Rightarrow> Cursor option \<Rightarrow> Query" where
  "Query_Start q c = query_mod q (\<lambda>q. q\<lparr>q_start := c\<rparr>)"

definition Query_End :: "Query \<Rightarrow> Cursor option \<Rightarrow> Query" where
  "Query_End q c = query_mod q (\<lambda>q. q\<lparr>q_end := c\<rparr>)"

text \<open>One round of the loop of \<^verbatim>\<open>Eq\<close>: binary search for the place, insert if new.\<close>

definition eq_insert :: "Property list \<Rightarrow> Property \<Rightarrow> Property list" where
  "eq_insert s p =
     (let idx = sort_Search (length s) (\<lambda>i. Property_Equal (s ! i) p \<or> Property_Less p (s ! i)) in
      if idx = length s \<or> \<not> Property_Equal (s ! idx) p then take idx s @ [p] @ drop idx s else s)"

fun eq_loop :: "Property list \<Rightarrow> goval list \<Rightarrow> perror + Property list" where
  "eq_loop s [] = Inr s"
| "eq_loop s (value # values) =
     (case SetValue value ShouldIndex of
        Inl e \<Rightarrow> Inl e
      | Inr p \<Rightarrow> eq_loop (eq_insert s p) values)"

definition Query_Eq :: "Query \<Rightarrow> string \<Rightarrow> goval list \<Rightarrow> Query" where
  "Query_Eq q field values =
     (if length values = 0 then q
      else query_mod q (\<lambda>q.
        case reserved field of
          Some err \<Rightarrow> q\<lparr>q_err := Some err\<rparr>
        | None \<Rightarrow>
            (case eq_loop (al_get (q_eqFilts q) field) values of
               Inl e \<Rightarrow> q\<lparr>q_err := Some (QValue e)\<rparr>
             | Inr s \<Rightarrow> q\<lparr>q_eqFilts := al_set (q_eqFilts q) field s\<rparr>)))"

definition ineqOK :: "Query \<Rightarrow> string \<Rightarrow> Property \<Rightarrow> qerror option" where
  "ineqOK q field value =
     (case reserved field of
        Some err \<Rightarrow> Some err
      | None \<Rightarrow>
          if field = ''__key__'' \<and> Property_Type value \<noteq> PTKey then Some QKeyType
          else if q_ineqFiltProp q \<noteq> '''' \<and> q_ineqFiltProp q \<noteq> field then Some ErrMultipleInequalityFilter
          else None)"

definition set_high :: "Query \<Rightarrow> string \<Rightarrow> perror + Property \<Rightarrow> bool \<Rightarrow> Query" where
  "set_high q field p incl = query_mod q (\<lambda>q.
     case p of
       Inl err \<Rightarrow> q\<lparr>q_err := Some (QValue err)\<rparr>
     | Inr p \<Rightarrow>
         (case ineqOK q field p of
            Some err \<Rightarrow> q\<lparr>q_err := Some err\<rparr>
          | None \<Rightarrow> q\<lparr>q_ineqFiltProp := field, q_ineqFiltHighSet := True, q_ineqFiltHigh := p,
                      q_ineqFiltHighIncl := incl\<rparr>))"

definition set_low :: "Query \<Rightarrow> string \<Rightarrow> perror + Property \<Rightarrow> bool \<Rightarrow> Query" where
  "set_low q field p incl = query_mod q (\<lambda>q.
     case p of
       Inl err \<Rightarrow> q\<lparr>q_err := Some (QValue err)\<rparr>
     | Inr p \<Rightarrow>
         (case ineqOK q field p of
            Some err \<Rightarrow> q\<lparr>q_err := Some err\<rparr>
          | None \<Rightarrow> q\<lparr>q_ineqFiltProp := field, q_ineqFiltLowSet := True, q_ineqFiltLow := p,
                      q_ineqFiltLowIncl := incl\<rparr>))"

definition Query_Lt :: "Query \<Rightarrow> string \<Rightarrow> goval \<Rightarrow> Query" where
  "Query_Lt q field value =
     (case SetValue value ShouldIndex of
        Inr p \<Rightarrow>
          if q_ineqFiltHighSet q \<and> Property_Less (q_ineqFiltHigh q) p then q
          else if q_ineqFiltHighSet q \<and> Property_Equal (q_ineqFiltHigh q) p \<and> \<not> q_ineqFiltHighIncl q then q
          else set_high q field (Inr p) False
      | Inl e \<Rightarrow> set_high q field (Inl e) False)"

definition Query_Lte :: "Query \<Rightarrow> string \<Rightarrow> goval \<Rightarrow> Query" where
  "Query_Lte q field value =
     (case SetValue value ShouldIndex of
        Inr p \<Rightarrow>
          if q_ineqFiltHighSet q \<and> Property_Less (q_ineqFiltHigh q) p then q
          else if q_ineqFiltHighSet q \<and> Property_Equal (q_ineqFiltHigh q) p then q
          else set_high q field (Inr p) True
      | Inl e \<Rightarrow> set_high q field (Inl e) True)"

definition Query_Gt :: "Query \<Rightarrow> string \<Rightarrow> goval \<Rightarrow> Query" where
  "Query_Gt q field value =
     (case SetValue value ShouldIndex of
        Inr p \<Rightarrow>
          if q_ineqFiltLowSet q \<and> Property_Less p (q_ineqFiltLow q) then q
          else if q_ineqFiltLowSet q \<and> Property_Equal p (q_ineqFiltLow q) \<and> \<not> q_ineqFiltLowIncl q then q
          else set_low q field (Inr p) False
      | Inl e \<Rightarrow> set_low q field (Inl e) False)"

definition Query_Gte :: "Query \<Rightarrow> string \<Rightarrow> goval \<Rightarrow> Query" where
  "Query_Gte q field value =
     (case SetValue value ShouldIndex of
        Inr p \<Rightarrow>
          if q_ineqFiltLowSet q \<and> Property_Less p (q_ineqFiltLow q) then q
          else if q_ineqFiltLowSet q \<and> Property_Equal p (q_ineqFiltLow q) then q
          else set_low q field (Inr p) True
      | Inl e \<Rightarrow> set_low q field (Inl e) True)"

definition ClearFilters :: "Query \<Rightarrow> Query" where
  "ClearFilters q = query_mod q (\<lambda>q.
     q\<lparr>q_eqFilts := (case map_of (q_eqFilts q) ''__ancestor__'' of
                       Some anc \<Rightarrow> [(''__ancestor__'', anc)] | None \<Rightarrow> []),
       q_ineqFiltLowSet := False, q_ineqFiltHighSet := False\<rparr>)"

section \<open>The finalized query\<close>

record FinalizedQuery =
  fq_original :: Query
  fq_kind :: string
  fq_eventuallyConsistent :: bool
  fq_distinct :: bool
  fq_keysOnly :: bool
  fq_limit :: "int32 option"
  fq_offset :: "int32 option"
  fq_start :: "Cursor option"
  fq_end :: "Cursor option"
  fq_project :: "string list"
  fq_orders :: "IndexColumn list"
  fq_eqFilts :: "(string \<times> Property list) list"
  fq_ineqFiltProp :: string
  fq_ineqFiltLow :: Property
  fq_ineqFiltLowIncl :: bool
  fq_ineqFiltLowSet :: bool
  fq_ineqFiltHigh :: Property
  fq_ineqFiltHighIncl :: bool
  fq_ineqFiltHighSet :: bool

text \<open>The type assertion \<^verbatim>\<open>.Value().(*Key)\<close>; \<open>None\<close> is its panic.\<close>

definition as_key :: "Property \<Rightarrow> Key option" where
  "as_key p = (case pvalue p of PKeyV k \<Rightarrow> Some k | _ \<Rightarrow> None)"

text \<open>The filter on \<^verbatim>\<open>__ancestor__\<close>: an error only where the code would panic.\<close>

definition eq_ancestor :: "(string \<times> Property list) list \<Rightarrow> qerror + Key option" where
  "eq_ancestor filts =
     (case map_of filts ''__ancestor__'' of
        None \<Rightarrow> Inr None
      | Some vals \<Rightarrow>
          (case vals of
             [] \<Rightarrow> Inl QPanic
           | p # _ \<Rightarrow> (case as_key p of Some k \<Rightarrow> Inr (Some k) | None \<Rightarrow> Inl QPanic)))"

definition check_kindless :: "Query \<Rightarrow> Key option \<Rightarrow> qerror option" where
  "check_kindless q ancestor =
     (if q_kind q = '''' then
        if q_ineqFiltProp q \<noteq> '''' \<and> q_ineqFiltProp q \<noteq> ''__key__'' then Some QKindlessIneq
        else if length (q_eqFilts q) > (if ancestor \<noteq> None then 1 else 0) then Some QKindlessEq
        else if \<exists>c \<in> set (q_order q). col_Property c \<noteq> ''__key__'' \<or> Descending c then Some QKindlessOrder
        else None
      else None)"

text \<open>A key bound must descend from the ancestor.\<close>

definition check_bound :: "bool \<Rightarrow> Property \<Rightarrow> Key option \<Rightarrow> qerror option" where
  "check_bound is_set bound ancestor =
     (if \<not> is_set then None
      else case ancestor of
        None \<Rightarrow> None
      | Some anc \<Rightarrow>
          (case as_key bound of
             None \<Rightarrow> Some QPanic
           | Some k \<Rightarrow> if \<not> HasAncestor k anc then Some QNotDescendant else None))"

definition overconstrained :: "Query \<Rightarrow> bool" where
  "overconstrained q \<longleftrightarrow> q_ineqFiltLowSet q \<and> q_ineqFiltHighSet q \<and>
     (Property_Less (q_ineqFiltHigh q) (q_ineqFiltLow q) \<or>
      Property_Equal (q_ineqFiltHigh q) (q_ineqFiltLow q) \<and>
        (\<not> q_ineqFiltLowIncl q \<or> \<not> q_ineqFiltHighIncl q))"

definition check_ineq :: "Query \<Rightarrow> Key option \<Rightarrow> qerror option" where
  "check_ineq q ancestor =
     (if q_ineqFiltProp q \<noteq> '''' then
        if q_order q \<noteq> [] \<and> col_Property (hd (q_order q)) \<noteq> q_ineqFiltProp q then Some QFirstOrder
        else if overconstrained q then Some ErrNullQuery
        else if q_ineqFiltProp q = ''__key__'' then
          (case check_bound (q_ineqFiltLowSet q) (q_ineqFiltLow q) ancestor of
             Some e \<Rightarrow> Some e
           | None \<Rightarrow> check_bound (q_ineqFiltHighSet q) (q_ineqFiltHigh q) ancestor)
        else None
      else None)"

definition check_query :: "Query \<Rightarrow> Key option \<Rightarrow> qerror option" where
  "check_query q ancestor =
     (case check_kindless q ancestor of
        Some e \<Rightarrow> Some e
      | None \<Rightarrow>
          if q_keysOnly q \<and> q_project q \<noteq> [] then Some QKeysOnlyProject
          else (case check_ineq q ancestor of
             Some e \<Rightarrow> Some e
           | None \<Rightarrow>
               if \<exists>p \<in> set (q_project q). p \<in> set (map fst (q_eqFilts q)) then Some QProjectEq
               else None))"

text \<open>The loop over the orders, with the set of the columns seen.\<close>

fun orders_loop :: "string set \<Rightarrow> string set \<Rightarrow> IndexColumn list \<Rightarrow> IndexColumn list \<times> string set" where
  "orders_loop eqs seen [] = ([], seen)"
| "orders_loop eqs seen (c # cs) =
     (if col_Property c \<notin> eqs \<and> col_Property c \<notin> seen
      then (case orders_loop eqs (insert (col_Property c) seen) cs of (os, seen') \<Rightarrow> (c # os, seen'))
      else orders_loop eqs seen cs)"

abbreviation asc :: "string \<Rightarrow> IndexColumn" where
  "asc p \<equiv> \<lparr>col_Property = p, Descending = False\<rparr>"

definition final_project :: "Query \<Rightarrow> string list" where
  "final_project q =
     (let distinct = q_distinct q \<and> q_project q \<noteq> [];
          project = (if distinct \<and> q_ineqFiltProp q \<noteq> '''' \<and> q_ineqFiltProp q \<notin> set (q_project q)
                     then q_ineqFiltProp q # q_project q else q_project q)
      in sort project)"

definition final_orders :: "Query \<Rightarrow> IndexColumn list" where
  "final_orders q =
     (let first = (if q_order q = [] \<and> q_ineqFiltProp q \<noteq> '''' then [asc (q_ineqFiltProp q)] else []);
          (os, seen) = orders_loop (set (map fst (q_eqFilts q))) (set (map col_Property first)) (q_order q);
          orders = first @ os @ map asc (filter (\<lambda>p. p \<notin> seen) (final_project q))
      in if orders = [] \<or> col_Property (last orders) \<noteq> ''__key__'' then orders @ [asc ''__key__''] else orders)"

definition finalizeImpl :: "Query \<Rightarrow> qerror + FinalizedQuery" where
  "finalizeImpl q =
     (case eq_ancestor (q_eqFilts q) of
        Inl e \<Rightarrow> Inl e
      | Inr ancestor \<Rightarrow>
          (case check_query q ancestor of
             Some e \<Rightarrow> Inl e
           | None \<Rightarrow> Inr
               \<lparr>fq_original = q, fq_kind = q_kind q,
                fq_eventuallyConsistent = (q_eventualConsistency q \<or> ancestor = None),
                fq_distinct = (q_distinct q \<and> q_project q \<noteq> []),
                fq_keysOnly = q_keysOnly q, fq_limit = q_limit q,
                fq_offset = (if q_start q \<noteq> None then None else q_offset q),
                fq_start = q_start q, fq_end = q_end q,
                fq_project = final_project q, fq_orders = final_orders q,
                fq_eqFilts = q_eqFilts q, fq_ineqFiltProp = q_ineqFiltProp q,
                fq_ineqFiltLow = q_ineqFiltLow q, fq_ineqFiltLowIncl = q_ineqFiltLowIncl q,
                fq_ineqFiltLowSet = q_ineqFiltLowSet q, fq_ineqFiltHigh = q_ineqFiltHigh q,
                fq_ineqFiltHighIncl = q_ineqFiltHighIncl q, fq_ineqFiltHighSet = q_ineqFiltHighSet q\<rparr>))"

definition Finalize :: "Query \<Rightarrow> qerror + FinalizedQuery" where
  "Finalize q = (case q_err q of Some e \<Rightarrow> Inl e | None \<Rightarrow> finalizeImpl q)"

section \<open>Accessors\<close>

text \<open>\<^verbatim>\<open>Limit\<close> and \<^verbatim>\<open>Offset\<close> return the number and whether it is set.\<close>

definition FQ_Limit :: "FinalizedQuery \<Rightarrow> int32 \<times> bool" where
  "FQ_Limit q = (case fq_limit q of Some l \<Rightarrow> (l, True) | None \<Rightarrow> (0, False))"

definition FQ_Offset :: "FinalizedQuery \<Rightarrow> int32 \<times> bool" where
  "FQ_Offset q = (case fq_offset q of Some l \<Rightarrow> (l, True) | None \<Rightarrow> (0, False))"

definition FQ_Ancestor :: "FinalizedQuery \<Rightarrow> qerror + Key option" where
  "FQ_Ancestor q = eq_ancestor (fq_eqFilts q)"

definition IneqFilterLow :: "FinalizedQuery \<Rightarrow> string \<times> string \<times> Property" where
  "IneqFilterLow q =
     (if fq_ineqFiltLowSet q
      then (fq_ineqFiltProp q, if fq_ineqFiltLowIncl q then ''>='' else ''>'', fq_ineqFiltLow q)
      else ('''', '''', zero_Property))"

definition IneqFilterHigh :: "FinalizedQuery \<Rightarrow> string \<times> string \<times> Property" where
  "IneqFilterHigh q =
     (if fq_ineqFiltHighSet q
      then (fq_ineqFiltProp q, if fq_ineqFiltHighIncl q then ''<='' else ''<'', fq_ineqFiltHigh q)
      else ('''', '''', zero_Property))"

datatype verror = AncestorInvalid | AncestorIncomplete | LowInvalid | HighInvalid | VPanic

definition valid_bound :: "bool \<Rightarrow> Property \<Rightarrow> KeyContext \<Rightarrow> verror \<Rightarrow> verror option" where
  "valid_bound is_set bound c err =
     (if \<not> is_set then None
      else case as_key bound of None \<Rightarrow> Some VPanic
        | Some k \<Rightarrow> if \<not> Key_Valid k False c then Some err else None)"

definition FQ_Valid :: "FinalizedQuery \<Rightarrow> KeyContext \<Rightarrow> verror option" where
  "FQ_Valid q c =
     (let bounds =
        (if fq_ineqFiltProp q = ''__key__'' then
           (case valid_bound (fq_ineqFiltLowSet q) (fq_ineqFiltLow q) c LowInvalid of
              Some e \<Rightarrow> Some e
            | None \<Rightarrow> valid_bound (fq_ineqFiltHighSet q) (fq_ineqFiltHigh q) c HighInvalid)
         else None)
      in case FQ_Ancestor q of
           Inl _ \<Rightarrow> Some VPanic
         | Inr None \<Rightarrow> bounds
         | Inr (Some anc) \<Rightarrow>
             if \<not> Key_Valid anc False c then Some AncestorInvalid
             else (case Key_IsIncomplete anc of
                     None \<Rightarrow> Some VPanic
                   | Some True \<Rightarrow> Some AncestorIncomplete
                   | Some False \<Rightarrow> bounds))"

section \<open>Equality filters are kept sorted\<close>

text \<open>What binary search does on a list sorted by any lawful comparison.\<close>

context go_compare
begin

lemma search_split:
  assumes sorted: "sorted_wrt (\<lambda>a b. cmp a b < 0) s" and ok: "list_all ok s" "ok p"
  defines "idx \<equiv> sort_Search (length s) (\<lambda>i. cmp (s ! i) p = 0 \<or> cmp p (s ! i) < 0)"
  shows "idx \<le> length s" and "\<forall>i < idx. cmp (s ! i) p < 0"
    and "\<forall>i. idx \<le> i \<and> i < length s \<longrightarrow> cmp p (s ! i) \<le> 0"
proof -
  let ?f = "\<lambda>i. cmp (s ! i) p = 0 \<or> cmp p (s ! i) < 0"
  have oki: "ok (s ! i)" if "i < length s" for i using ok that by (simp add: list_all_length)
  have f: "?f i \<longleftrightarrow> cmp p (s ! i) \<le> 0" if "i < length s" for i
    using cmp_zero_iff [OF ok(2) oki [OF that]] by auto
  have mono: "?f b" if "a \<le> b" "b < length s" "?f a" for a b
  proof (cases "a = b")
    case False
    then have "cmp (s ! a) (s ! b) < 0" using that sorted_wrt_nth_less [OF sorted, of a b] by auto
    moreover have "cmp p (s ! a) \<le> 0" using f that by auto
    ultimately have "cmp p (s ! b) < 0"
      using cmp_le_less_trans [OF ok(2) oki oki, of a b] that by simp
    then show ?thesis by simp
  qed (use that in simp)
  show len: "idx \<le> length s" unfolding idx_def by (rule sort_Search_le) (rule mono)
  show "\<forall>i < idx. cmp (s ! i) p < 0"
  proof (intro allI impI)
    fix i assume i: "i < idx"
    then have il: "i < length s" using len by simp
    have "\<not> ?f i" by (rule sort_Search_before [OF mono i [unfolded idx_def]])
    then show "cmp (s ! i) p < 0"
      using f [OF il] cmp_pos_iff [OF oki [OF il] ok(2)] by simp
  qed
  show "\<forall>i. idx \<le> i \<and> i < length s \<longrightarrow> cmp p (s ! i) \<le> 0"
  proof (intro allI impI)
    fix i assume i: "idx \<le> i \<and> i < length s"
    then have "?f i" unfolding idx_def by (intro sort_Search_from [OF mono]) auto
    then show "cmp p (s ! i) \<le> 0" using f i by blast
  qed
qed

text \<open>Inserting there keeps the list sorted, adds the value, and drops nothing.\<close>

lemma search_insert:
  assumes sorted: "sorted_wrt (\<lambda>a b. cmp a b < 0) s" and ok: "list_all ok s" "ok p"
  defines "idx \<equiv> sort_Search (length s) (\<lambda>i. cmp (s ! i) p = 0 \<or> cmp p (s ! i) < 0)"
  defines "s' \<equiv> (if idx = length s \<or> cmp (s ! idx) p \<noteq> 0 then take idx s @ [p] @ drop idx s else s)"
  shows "sorted_wrt (\<lambda>a b. cmp a b < 0) s' \<and> list_all ok s' \<and> set s \<subseteq> set s' \<and> set s' \<subseteq> insert p (set s) \<and>
    (\<exists>x \<in> set s'. cmp x p = 0)"
proof -
  note split = search_split [OF sorted ok, folded idx_def]
  show ?thesis
  proof (cases "idx = length s \<or> cmp (s ! idx) p \<noteq> 0")
    case True
    have before: "cmp x p < 0" if "x \<in> set (take idx s)" for x
      using that split(1,2) by (auto simp: in_set_conv_nth)
    have after: "cmp p x < 0" if x: "x \<in> set (drop idx s)" for x
    proof -
      have idx: "idx < length s" using x by (cases "idx < length s") auto
      then have ne: "cmp (s ! idx) p \<noteq> 0" using True by simp
      have okidx: "ok (s ! idx)" using ok idx by (simp add: list_all_length)
      have first: "cmp p (s ! idx) < 0"
        using ne split(3) idx cmp_zero_iff [OF okidx ok(2)] by (metis le_refl order_less_le)
      obtain j where j: "x = s ! (idx + j)" "idx + j < length s"
        using x by (auto simp: in_set_conv_nth)
      show ?thesis
      proof (cases "j = 0")
        case False
        then have "cmp (s ! idx) x < 0" using j sorted_wrt_nth_less [OF sorted, of idx "idx + j"] by auto
        then show ?thesis
          using first cmp_less_trans [OF ok(2) okidx, of x] ok(1) j by (simp add: list_all_length)
      qed (use first j in simp)
    qed
    have "sorted_wrt (\<lambda>a b. cmp a b < 0) (take idx s @ drop idx s)" using sorted by simp
    then have "sorted_wrt (\<lambda>a b. cmp a b < 0) (take idx s @ [p] @ drop idx s)"
      using before after unfolding sorted_wrt_append by auto
    moreover have "set (take idx s) \<union> set (drop idx s) = set s" by (metis append_take_drop_id set_append)
    moreover have "list_all ok (take idx s @ [p] @ drop idx s)"
      using ok by (auto simp: list_all_iff dest: in_set_takeD in_set_dropD)
    ultimately show ?thesis using True cmp_self [OF ok(2)] by (auto simp: s'_def)
  next
    case False
    then have "idx < length s" using split(1) by simp
    then show ?thesis using False sorted ok by (auto simp: s'_def)
  qed
qed

end

lemma eq_insert_spec:
  assumes "sorted_wrt Property_Less s" "list_all wf_prop s" "wf_prop p"
  shows "sorted_wrt Property_Less (eq_insert s p) \<and> list_all wf_prop (eq_insert s p) \<and>
    set s \<subseteq> set (eq_insert s p) \<and> set (eq_insert s p) \<subseteq> insert p (set s) \<and>
    (\<exists>x \<in> set (eq_insert s p). Property_Equal x p)"
  using pcmp.search_insert [OF assms [unfolded Property_Less_def]]
  unfolding eq_insert_def Let_def Property_Less_def Property_Equal_def .

lemma eq_loop_append:
  "eq_loop s (vs @ ws) = (case eq_loop s vs of Inl e \<Rightarrow> Inl e | Inr s' \<Rightarrow> eq_loop s' ws)"
  by (induction s vs rule: eq_loop.induct) (auto split: sum.splits)

lemma eq_loop_spec:
  "eq_loop s vs = Inr s' \<Longrightarrow> sorted_wrt Property_Less s \<Longrightarrow> list_all wf_prop s \<Longrightarrow>
   (\<forall>v \<in> set vs. \<forall>p. SetValue v ShouldIndex = Inr p \<longrightarrow> wf_prop p) \<Longrightarrow>
   sorted_wrt Property_Less s' \<and> list_all wf_prop s' \<and> set s \<subseteq> set s' \<and>
   set s' \<subseteq> set s \<union> {p. \<exists>v \<in> set vs. SetValue v ShouldIndex = Inr p} \<and>
   (\<forall>v \<in> set vs. \<exists>p. SetValue v ShouldIndex = Inr p \<and> (\<exists>x \<in> set s'. Property_Equal x p))"
proof (induction s vs arbitrary: s' rule: eq_loop.induct)
  case (2 s v vs)
  then obtain p where p: "SetValue v ShouldIndex = Inr p" by (auto split: sum.splits)
  then have wf: "wf_prop p" using 2 by simp
  note ins = eq_insert_spec [OF 2(3,4) wf]
  have "eq_loop (eq_insert s p) vs = Inr s'" using 2(2) p by simp
  note IH = 2(1) [OF p this]
  show ?case using IH ins p 2(5) by auto
qed simp

section \<open>Queries built by the methods\<close>

text \<open>Every query a program can build: the builder methods applied to a new query.\<close>

inductive built :: "Query \<Rightarrow> bool" where
  new: "built (NewQuery kind)"
| kind: "built q \<Longrightarrow> built (Query_Kind q kind)"
| anc: "built q \<Longrightarrow> built (Query_Ancestor q anc)"
| ec: "built q \<Longrightarrow> built (EventualConsistency q on)"
| limit: "built q \<Longrightarrow> built (Query_Limit q l)"
| offset: "built q \<Longrightarrow> built (Query_Offset q l)"
| keys: "built q \<Longrightarrow> built (KeysOnly q on)"
| order: "built q \<Longrightarrow> built (Query_Order q fns)"
| clear_order: "built q \<Longrightarrow> built (ClearOrder q)"
| project: "built q \<Longrightarrow> built (Query_Project q fns)"
| distinct: "built q \<Longrightarrow> built (Query_Distinct q on)"
| clear_project: "built q \<Longrightarrow> built (ClearProject q)"
| start: "built q \<Longrightarrow> built (Query_Start q c)"
| stop: "built q \<Longrightarrow> built (Query_End q c)"
| eq: "built q \<Longrightarrow> built (Query_Eq q field vs)"
| lt: "built q \<Longrightarrow> built (Query_Lt q field v)"
| lte: "built q \<Longrightarrow> built (Query_Lte q field v)"
| gt: "built q \<Longrightarrow> built (Query_Gt q field v)"
| gte: "built q \<Longrightarrow> built (Query_Gte q field v)"
| clear_filters: "built q \<Longrightarrow> built (ClearFilters q)"

definition key_bound :: "Property \<Rightarrow> bool" where
  "key_bound p \<longleftrightarrow> (\<exists>k. pvalue p = PKeyV k)"

definition eq_inv :: "(string \<times> Property list) list \<Rightarrow> bool" where
  "eq_inv filts \<longleftrightarrow> distinct (map fst filts) \<and>
     (case map_of filts ''__ancestor__'' of None \<Rightarrow> True | Some s \<Rightarrow> \<exists>p. s = [p] \<and> key_bound p)"

definition q_inv :: "Query \<Rightarrow> bool" where
  "q_inv q \<longleftrightarrow>
     eq_inv (q_eqFilts q) \<and>
     (q_ineqFiltLowSet q \<or> q_ineqFiltHighSet q \<longrightarrow> q_ineqFiltProp q \<noteq> '''') \<and>
     (q_ineqFiltProp q = ''__key__'' \<longrightarrow>
        (q_ineqFiltLowSet q \<longrightarrow> key_bound (q_ineqFiltLow q)) \<and>
        (q_ineqFiltHighSet q \<longrightarrow> key_bound (q_ineqFiltHigh q))) \<and>
     distinct (q_project q) \<and> ''__key__'' \<notin> set (q_project q) \<and>
     q_err q \<noteq> Some QPanic"

lemma reserved_not: "reserved f = None \<Longrightarrow> f \<noteq> '''' \<and> f \<noteq> ''__ancestor__''"
proof -
  have "suffix ''__'' ''__ancestor__''" by (simp add: suffix_to_prefix)
  then show "reserved f = None \<Longrightarrow> f \<noteq> '''' \<and> f \<noteq> ''__ancestor__''"
    by (cases "f = ''__ancestor__''"; cases "f = ''''") (simp_all add: reserved_def)
qed

lemma reserved_no_panic: "reserved f \<noteq> Some QPanic"
  by (auto simp: reserved_def)

lemma Type_key: "Property_Type p = PTKey \<longleftrightarrow> key_bound p"
  by (auto simp: Property_Type_def key_bound_def split: pval.splits)

lemma q_inv_mod: "q_inv q \<Longrightarrow> (q_err q = None \<Longrightarrow> q_inv q \<Longrightarrow> q_inv (f q)) \<Longrightarrow> q_inv (query_mod q f)"
  by (simp add: query_mod_def)

lemma q_inv_order: "q_inv q \<Longrightarrow> q_inv (order_loop q fns)"
  by (induction q fns rule: order_loop.induct)
    (auto simp: q_inv_def reserved_no_panic split: sum.splits option.splits)

lemma q_inv_project: "q_inv q \<Longrightarrow> q_inv (project_loop q fns)"
  by (induction q fns rule: project_loop.induct)
    (auto simp: q_inv_def reserved_no_panic split: option.splits)

lemma eq_inv_ops:
  "key_bound p \<Longrightarrow> eq_inv m \<Longrightarrow> eq_inv (al_set m ''__ancestor__'' [p])"
  "f \<noteq> ''__ancestor__'' \<Longrightarrow> eq_inv m \<Longrightarrow> eq_inv (al_set m f s)"
  "eq_inv m \<Longrightarrow> eq_inv (al_delete m ''__ancestor__'')"
  by (simp_all add: eq_inv_def map_of_al_set distinct_al_set map_of_al_delete distinct_al_delete)

lemma q_inv_ancestor: "q_inv q \<Longrightarrow> q_inv (Query_Ancestor q anc)"
  unfolding Query_Ancestor_def
  by (intro q_inv_mod) (auto simp: q_inv_def eq_inv_ops key_bound_def split: option.splits)

lemma q_inv_eq: "q_inv q \<Longrightarrow> q_inv (Query_Eq q field vs)"
  unfolding Query_Eq_def
  by (auto intro!: q_inv_mod split: option.splits sum.splits)
    (auto simp: q_inv_def reserved_no_panic eq_inv_ops dest: reserved_not)

lemma q_inv_set:
  assumes "q_inv q" "field \<noteq> ''''" "q_ineqFiltProp q = '''' \<or> q_ineqFiltProp q = field"
    "field = ''__key__'' \<Longrightarrow> key_bound p"
  shows "q_inv (q\<lparr>q_ineqFiltProp := field, q_ineqFiltHighSet := True, q_ineqFiltHigh := p, q_ineqFiltHighIncl := incl\<rparr>)"
    and "q_inv (q\<lparr>q_ineqFiltProp := field, q_ineqFiltLowSet := True, q_ineqFiltLow := p, q_ineqFiltLowIncl := incl\<rparr>)"
  using assms by (auto simp: q_inv_def)

lemma q_inv_err: "q_inv q \<Longrightarrow> e \<noteq> QPanic \<Longrightarrow> q_inv (q\<lparr>q_err := Some e\<rparr>)"
  by (simp add: q_inv_def)

lemma ineqOK_cases:
  "case ineqOK q field p of
     Some e \<Rightarrow> e \<noteq> QPanic
   | None \<Rightarrow> field \<noteq> '''' \<and> (q_ineqFiltProp q = '''' \<or> q_ineqFiltProp q = field) \<and>
       (field = ''__key__'' \<longrightarrow> key_bound p)"
  using reserved_not [of field] reserved_no_panic [of field]
  by (cases "reserved field") (auto simp: ineqOK_def Type_key)

lemma q_inv_bounds:
  assumes "q_inv q"
  shows "q_inv (set_high q field p incl)" "q_inv (set_low q field p incl)"
proof -
  have "q_inv (case p of Inl err \<Rightarrow> q\<lparr>q_err := Some (QValue err)\<rparr>
      | Inr p \<Rightarrow> (case ineqOK q field p of Some err \<Rightarrow> q\<lparr>q_err := Some err\<rparr> | None \<Rightarrow> f p))"
    if "\<And>p. ineqOK q field p = None \<Longrightarrow> q_inv (f p)" for f
  proof (cases p)
    case (Inr p')
    then show ?thesis
      using that ineqOK_cases [of field q p'] q_inv_err [OF assms]
      by (cases "ineqOK q field p'") simp_all
  qed (simp add: q_inv_err assms)
  note step = this
  have ok: "field \<noteq> ''''" "q_ineqFiltProp q = '''' \<or> q_ineqFiltProp q = field" "field = ''__key__'' \<Longrightarrow> key_bound p"
    if "ineqOK q field p = None" for p
    using ineqOK_cases [of field q p] that by auto
  show "q_inv (set_high q field p incl)" "q_inv (set_low q field p incl)"
    unfolding set_high_def set_low_def
    by (intro q_inv_mod [OF assms] step q_inv_set [OF assms ok]; assumption)+
qed

lemma q_inv_clear: "q_inv q \<Longrightarrow> q_inv (ClearFilters q)"
proof -
  have "eq_inv (case map_of m ''__ancestor__'' of Some anc \<Rightarrow> [(''__ancestor__'', anc)] | None \<Rightarrow> [])"
    if "eq_inv m" for m
    using that by (cases "map_of m ''__ancestor__''") (simp_all add: eq_inv_def del: map_of_eq_Some_iff)
  then show "q_inv q \<Longrightarrow> q_inv (ClearFilters q)"
    unfolding ClearFilters_def by (intro q_inv_mod) (auto simp: q_inv_def)
qed

lemma built_inv: "built q \<Longrightarrow> q_inv q"
proof (induction rule: built.induct)
  case (new kind)
  then show ?case by (simp add: q_inv_def eq_inv_def NewQuery_def)
next
  case (order q fns)
  then show ?case unfolding Query_Order_def by (auto intro: q_inv_mod q_inv_order)
next
  case (project q fns)
  then show ?case unfolding Query_Project_def by (auto intro: q_inv_mod q_inv_project)
next
  case (lt q field v)
  then show ?case unfolding Query_Lt_def by (auto intro: q_inv_bounds split: sum.splits)
next
  case (lte q field v)
  then show ?case unfolding Query_Lte_def by (auto intro: q_inv_bounds split: sum.splits)
next
  case (gt q field v)
  then show ?case unfolding Query_Gt_def by (auto intro: q_inv_bounds split: sum.splits)
next
  case (gte q field v)
  then show ?case unfolding Query_Gte_def by (auto intro: q_inv_bounds split: sum.splits)
qed (auto intro: q_inv_ancestor q_inv_eq q_inv_clear,
    auto simp: q_inv_def query_mod_def Query_Kind_def EventualConsistency_def Query_Limit_def Query_Offset_def
      KeysOnly_def ClearOrder_def Query_Distinct_def ClearProject_def Query_Start_def Query_End_def)

end
