(* ===== verification/Query_Props.thy ===== *)
theory Query_Props
  imports Query
begin

text \<open>
  What the query builder promises: every query that can be built finalizes without a
  panic, into a normal form; inequality filters are conjunctions; equality filters are
  sorted sets; errors are reported where the documentation says, with the exceptions
  that the theorems name.
\<close>

section \<open>Orders\<close>

lemma orders_loop_spec:
  "orders_loop eqs seen cs = (os, seen') \<Longrightarrow>
   seen' = seen \<union> col_Property ` set os \<and> distinct (map col_Property os) \<and>
   col_Property ` set os \<inter> (seen \<union> eqs) = {} \<and> set os \<subseteq> set cs \<and>
   (\<forall>c \<in> set cs. col_Property c \<in> seen' \<union> eqs)"
proof (induction eqs seen cs arbitrary: os seen' rule: orders_loop.induct)
  case (2 eqs seen c cs)
  show ?case
  proof (cases "col_Property c \<notin> eqs \<and> col_Property c \<notin> seen")
    case True
    then obtain os' where os': "orders_loop eqs (insert (col_Property c) seen) cs = (os', seen')" "os = c # os'"
      using 2(3) by (auto split: prod.splits)
    show ?thesis using 2(1) [OF True os'(1)] os'(2) True by auto
  next
    case False
    then have "orders_loop eqs seen cs = (os, seen')" using 2(3) by auto
    then show ?thesis using 2(2) [OF False] False by fastforce
  qed
qed simp

lemma orders_loop_hd:
  "col_Property c \<notin> eqs \<Longrightarrow> orders_loop eqs {} (c # cs) = (os, seen') \<Longrightarrow> \<exists>os'. os = c # os'"
  by (auto split: prod.splits)

lemma final_project_spec:
  "set (final_project q) = set (q_project q) \<union>
     (if q_distinct q \<and> q_project q \<noteq> [] \<and> q_ineqFiltProp q \<noteq> '''' then {q_ineqFiltProp q} else {})"
  "distinct (q_project q) \<Longrightarrow> distinct (final_project q)" "sorted (final_project q)"
  by (auto simp: final_project_def Let_def)

lemma final_orders_spec:
  assumes "distinct (q_project q)" and fin: "fin = final_orders q"
  shows "fin \<noteq> [] \<and> col_Property (last fin) = ''__key__'' \<and> distinct (map col_Property (butlast fin)) \<and>
    (\<forall>p \<in> set (final_project q). p \<in> col_Property ` set fin) \<and>
    (\<forall>c \<in> set (q_order q). col_Property c \<in> col_Property ` set fin \<union> set (map fst (q_eqFilts q))) \<and>
    (q_ineqFiltProp q \<noteq> '''' \<and> q_ineqFiltProp q \<notin> set (map fst (q_eqFilts q)) \<and>
      (q_order q \<noteq> [] \<longrightarrow> col_Property (hd (q_order q)) = q_ineqFiltProp q) \<longrightarrow>
      col_Property (hd fin) = q_ineqFiltProp q)"
proof -
  define eqs where "eqs = set (map fst (q_eqFilts q))"
  define first where "first = (if q_order q = [] \<and> q_ineqFiltProp q \<noteq> '''' then [asc (q_ineqFiltProp q)] else [])"
  obtain os seen where loop: "orders_loop eqs (set (map col_Property first)) (q_order q) = (os, seen)" by fastforce
  define proj where "proj = filter (\<lambda>p. p \<notin> seen) (final_project q)"
  define orders where "orders = first @ os @ map asc proj"
  note spec = orders_loop_spec [OF loop]
  have fin': "fin = (if orders = [] \<or> col_Property (last orders) \<noteq> ''__key__'' then orders @ [asc ''__key__''] else orders)"
    unfolding fin final_orders_def Let_def first_def [symmetric] eqs_def [symmetric] loop prod.case
      proj_def [symmetric] orders_def [symmetric] ..
  have seen: "seen = col_Property ` set (first @ os)" using spec by auto
  have dist: "distinct (map col_Property orders)"
    using spec final_project_spec(2) [OF assms(1)] unfolding orders_def proj_def
    by (auto simp: first_def seen comp_def)
  have "distinct (map col_Property (butlast orders))" using dist by (metis distinct_butlast map_butlast)
  then have d: "distinct (map col_Property (butlast fin))" using dist fin' by auto
  have "p \<in> col_Property ` set orders" if "p \<in> set (final_project q)" for p
    using that seen unfolding orders_def proj_def by (cases "p \<in> seen") (force simp: image_iff)+
  then have p: "\<forall>p \<in> set (final_project q). p \<in> col_Property ` set fin" using fin' by auto
  have o: "\<forall>c \<in> set (q_order q). col_Property c \<in> col_Property ` set fin \<union> eqs"
    using spec seen fin' unfolding orders_def by auto
  have h: "col_Property (hd fin) = q_ineqFiltProp q"
    if i: "q_ineqFiltProp q \<noteq> '''' \<and> q_ineqFiltProp q \<notin> eqs \<and>
      (q_order q \<noteq> [] \<longrightarrow> col_Property (hd (q_order q)) = q_ineqFiltProp q)"
  proof (cases "q_order q")
    case Nil
    then show ?thesis using i fin' by (auto simp: orders_def first_def)
  next
    case (Cons c cs)
    then obtain os' where "os = c # os'" using i loop orders_loop_hd [of c eqs cs os seen] by (auto simp: first_def)
    then show ?thesis using i Cons fin' by (auto simp: orders_def first_def)
  qed
  have "fin \<noteq> [] \<and> col_Property (last fin) = ''__key__''" using fin' by auto
  then show ?thesis using d p o h unfolding eqs_def by blast
qed

section \<open>Properties\<close>

text \<open>
  Every query built with the builder methods either finalizes or reports an error, and never
  panics on a type assertion; an error set by a builder method is the one \<^verbatim>\<open>Finalize\<close> reports.
\<close>

theorem Finalize_no_panic:
  assumes "built q"
  shows "Finalize q \<noteq> Inl QPanic \<and> (\<forall>e. q_err q = Some e \<longrightarrow> Finalize q = Inl e)"
proof -
  have inv: "q_inv q" using assms by (rule built_inv)
  have bound: "check_bound b p anc \<noteq> Some QPanic" if "b \<longrightarrow> key_bound p" for b p anc
    using that by (auto simp: check_bound_def as_key_def key_bound_def split: option.splits)
  have "check_ineq q anc \<noteq> Some QPanic" for anc
    using inv bound [of "q_ineqFiltLowSet q" "q_ineqFiltLow q" anc]
      bound [of "q_ineqFiltHighSet q" "q_ineqFiltHigh q" anc]
    by (auto simp: check_ineq_def q_inv_def split: option.splits)
  then have "check_query q anc \<noteq> Some QPanic" for anc
    by (auto simp: check_query_def check_kindless_def split: option.splits)
  moreover have "\<exists>anc. eq_ancestor (q_eqFilts q) = Inr anc"
    using inv unfolding q_inv_def eq_inv_def eq_ancestor_def as_key_def key_bound_def
    by (auto split: option.splits simp del: map_of_eq_Some_iff)
  ultimately have "finalizeImpl q \<noteq> Inl QPanic" by (auto simp: finalizeImpl_def split: option.splits)
  then show ?thesis using inv by (auto simp: Finalize_def q_inv_def split: option.splits)
qed

theorem Finalize_no_panic_witness:
  "Finalize (Query_Lt (NewQuery ''K'') ''a'' (GInt 5)) \<noteq> Inl QPanic"
  using Finalize_no_panic [OF built.lt [OF built.new]] by blast

text \<open>
  C24. The normal form: a finalized query's sort orders end in \<^verbatim>\<open>__key__\<close>, name no other column twice,
  start with the inequality property if there is one (without an equality filter on it), and cover every
  projected field and every requested order that has no equality filter; projected fields are sorted,
  distinct, and absent from a keys-only query; when there are bounds on both sides the upper one is not below the lower one, and if
  they are equal both are inclusive (which does not mean that a value lies between them: above 5 and below 6 passes); and
  a start cursor cancels the offset.
\<close>

theorem Finalize_normal_form:
  assumes "built q" "Finalize q = Inr fq"
  shows "fq_orders fq \<noteq> [] \<and> col_Property (last (fq_orders fq)) = ''__key__'' \<and>
    distinct (map col_Property (butlast (fq_orders fq))) \<and>
    (fq_ineqFiltProp fq \<noteq> '''' \<and> fq_ineqFiltProp fq \<notin> set (map fst (fq_eqFilts fq)) \<longrightarrow>
      col_Property (hd (fq_orders fq)) = fq_ineqFiltProp fq) \<and>
    (\<forall>p \<in> set (fq_project fq). p \<in> col_Property ` set (fq_orders fq)) \<and>
    (\<forall>c \<in> set (q_order q). col_Property c \<in> col_Property ` set (fq_orders fq) \<union> set (map fst (fq_eqFilts fq))) \<and>
    sorted (fq_project fq) \<and> distinct (fq_project fq) \<and> (fq_keysOnly fq \<longrightarrow> fq_project fq = []) \<and>
    (fq_ineqFiltProp fq \<noteq> '''' \<and> fq_ineqFiltLowSet fq \<and> fq_ineqFiltHighSet fq \<longrightarrow>
      \<not> Property_Less (fq_ineqFiltHigh fq) (fq_ineqFiltLow fq) \<and>
      (Property_Equal (fq_ineqFiltHigh fq) (fq_ineqFiltLow fq) \<longrightarrow> fq_ineqFiltLowIncl fq \<and> fq_ineqFiltHighIncl fq)) \<and>
    (fq_start fq \<noteq> None \<longrightarrow> fq_offset fq = None)"
proof -
  have inv: "q_inv q" using assms(1) by (rule built_inv)
  then have dist: "distinct (q_project q)" by (simp add: q_inv_def)
  obtain anc where chk: "check_query q anc = None" and
    fq: "fq_orders fq = final_orders q" "fq_ineqFiltProp fq = q_ineqFiltProp q" "fq_eqFilts fq = q_eqFilts q"
      "fq_project fq = final_project q" "fq_keysOnly fq = q_keysOnly q"
      "fq_start fq \<noteq> None \<longrightarrow> fq_offset fq = None"
    and bounds: "fq_ineqFiltLow fq = q_ineqFiltLow q" "fq_ineqFiltLowIncl fq = q_ineqFiltLowIncl q" "fq_ineqFiltLowSet fq = q_ineqFiltLowSet q"
      "fq_ineqFiltHigh fq = q_ineqFiltHigh q" "fq_ineqFiltHighIncl fq = q_ineqFiltHighIncl q" "fq_ineqFiltHighSet fq = q_ineqFiltHighSet q"
    using assms(2) by (auto simp: Finalize_def finalizeImpl_def split: option.splits sum.splits)
  have hd: "q_ineqFiltProp q \<noteq> '''' \<Longrightarrow> q_order q \<noteq> [] \<Longrightarrow> col_Property (hd (q_order q)) = q_ineqFiltProp q"
    and over: "q_ineqFiltProp q \<noteq> '''' \<Longrightarrow> \<not> overconstrained q"
    and keys: "q_keysOnly q \<Longrightarrow> q_project q = []"
    using chk by (auto simp: check_query_def check_ineq_def split: option.splits if_splits)
  have "final_project q = []" if "q_keysOnly q" using keys [OF that] by (simp add: final_project_def)
  moreover have "fq_ineqFiltProp fq \<noteq> '''' \<and> fq_ineqFiltLowSet fq \<and> fq_ineqFiltHighSet fq \<longrightarrow>
      \<not> Property_Less (fq_ineqFiltHigh fq) (fq_ineqFiltLow fq) \<and>
      (Property_Equal (fq_ineqFiltHigh fq) (fq_ineqFiltLow fq) \<longrightarrow> fq_ineqFiltLowIncl fq \<and> fq_ineqFiltHighIncl fq)"
    using over fq(2) by (auto simp: bounds overconstrained_def)
  ultimately show ?thesis
    using final_orders_spec [OF dist refl] final_project_spec [of q] dist hd fq by auto
qed

theorem Finalize_normal_form_witness:
  "\<exists>fq. Finalize (Query_Lt (NewQuery ''K'') ''a'' (GInt 5)) = Inr fq \<and>
     col_Property (last (fq_orders fq)) = ''__key__'' \<and> col_Property (hd (fq_orders fq)) = ''a''"
proof -
  let ?q = "Query_Lt (NewQuery ''K'') ''a'' (GInt 5)"
  have q: "?q = (NewQuery ''K'')\<lparr>q_ineqFiltProp := ''a'', q_ineqFiltHighSet := True,
      q_ineqFiltHigh := \<lparr>pvalue = PInt 5, indexSetting = False\<rparr>, q_ineqFiltHighIncl := False\<rparr>"
    by (simp add: Query_Lt_def set_high_def query_mod_def ineqOK_def reserved_def NewQuery_def)
  have "\<exists>fq. Finalize ?q = Inr fq \<and> fq_ineqFiltProp fq = ''a'' \<and> fq_eqFilts fq = []"
    unfolding q by (simp add: Finalize_def finalizeImpl_def eq_ancestor_def check_query_def check_kindless_def
        check_ineq_def overconstrained_def NewQuery_def)
  then obtain fq where fq: "Finalize ?q = Inr fq" "fq_ineqFiltProp fq = ''a''" "fq_eqFilts fq = []" by blast
  show ?thesis using Finalize_normal_form [OF built.lt [OF built.new] fq(1)] fq by auto
qed
text \<open>A value lies within the inequality bounds of a query.\<close>

definition in_bounds :: "Query \<Rightarrow> Property \<Rightarrow> bool" where
  "in_bounds q v \<longleftrightarrow>
     (q_ineqFiltLowSet q \<longrightarrow>
        (if q_ineqFiltLowIncl q then Compare (q_ineqFiltLow q) v \<le> 0 else Compare (q_ineqFiltLow q) v < 0)) \<and>
     (q_ineqFiltHighSet q \<longrightarrow>
        (if q_ineqFiltHighIncl q then Compare v (q_ineqFiltHigh q) \<le> 0 else Compare v (q_ineqFiltHigh q) < 0))"

definition wf_bounds :: "Query \<Rightarrow> bool" where
  "wf_bounds q \<longleftrightarrow> (q_ineqFiltLowSet q \<longrightarrow> wf_prop (q_ineqFiltLow q)) \<and>
     (q_ineqFiltHighSet q \<longrightarrow> wf_prop (q_ineqFiltHigh q))"

lemma Compare_trans:
  assumes "wf_prop a" "wf_prop b" "wf_prop c"
  shows "Compare a b \<le> 0 \<Longrightarrow> Compare b c \<le> 0 \<Longrightarrow> Compare a c \<le> 0"
    and "Compare a b \<le> 0 \<Longrightarrow> Compare b c < 0 \<Longrightarrow> Compare a c < 0"
    and "Compare a b < 0 \<Longrightarrow> Compare b c \<le> 0 \<Longrightarrow> Compare a c < 0"
    and "0 < Compare a b \<longleftrightarrow> Compare b a < 0"
    and "Compare a b = 0 \<longleftrightarrow> Compare b a = 0"
  using pcmp.cmp_le_trans [OF assms] pcmp.cmp_le_less_trans [OF assms] pcmp.cmp_less_le_trans [OF assms]
    pcmp.cmp_pos_iff [OF assms(2,1)] pcmp.cmp_zero_iff [OF assms(2,1)] by blast+

text \<open>The filter can be set: no error so far, a field that may be filtered on, the only inequality field.\<close>

definition can_filter :: "Query \<Rightarrow> string \<Rightarrow> Property \<Rightarrow> bool" where
  "can_filter q field p \<longleftrightarrow> q_err q = None \<and> ineqOK q field p = None"

lemma high_bound:
  assumes "wf_prop h" "wf_prop p" "wf_prop v"
  shows "Compare h p < 0 \<Longrightarrow> Compare v h \<le> 0 \<Longrightarrow> Compare v p < 0"
    and "Compare h p \<le> 0 \<Longrightarrow> Compare v h < 0 \<Longrightarrow> Compare v p < 0"
    and "Compare h p \<le> 0 \<Longrightarrow> Compare v h \<le> 0 \<Longrightarrow> Compare v p \<le> 0"
    and "\<not> Compare h p < 0 \<Longrightarrow> Compare v p < 0 \<Longrightarrow> Compare v h < 0"
    and "\<not> Compare h p < 0 \<Longrightarrow> Compare v p \<le> 0 \<Longrightarrow> Compare v h \<le> 0"
    and "\<not> Compare h p \<le> 0 \<Longrightarrow> Compare v p \<le> 0 \<Longrightarrow> Compare v h < 0"
proof -
  have neg: "\<not> Compare h p < 0 \<longleftrightarrow> Compare p h \<le> 0" "\<not> Compare h p \<le> 0 \<longleftrightarrow> Compare p h < 0"
    using pcmp.cmp_not_less [OF assms(1,2)] pcmp.cmp_not_less [OF assms(2,1)] by blast+
  note up = Compare_trans [OF assms(3,1,2)] and down = Compare_trans [OF assms(3,2,1)]
  show "Compare h p < 0 \<Longrightarrow> Compare v h \<le> 0 \<Longrightarrow> Compare v p < 0" using up(2) by blast
  show "Compare h p \<le> 0 \<Longrightarrow> Compare v h < 0 \<Longrightarrow> Compare v p < 0" using up(3) by blast
  show "Compare h p \<le> 0 \<Longrightarrow> Compare v h \<le> 0 \<Longrightarrow> Compare v p \<le> 0" using up(1) by blast
  show "\<not> Compare h p < 0 \<Longrightarrow> Compare v p < 0 \<Longrightarrow> Compare v h < 0" unfolding neg using down(3) by blast
  show "\<not> Compare h p < 0 \<Longrightarrow> Compare v p \<le> 0 \<Longrightarrow> Compare v h \<le> 0" unfolding neg using down(1) by blast
  show "\<not> Compare h p \<le> 0 \<Longrightarrow> Compare v p \<le> 0 \<Longrightarrow> Compare v h < 0" unfolding neg using down(2) by blast
qed

lemma low_bound:
  assumes "wf_prop l" "wf_prop p" "wf_prop v"
  shows "Compare p l < 0 \<Longrightarrow> Compare l v \<le> 0 \<Longrightarrow> Compare p v < 0"
    and "Compare p l \<le> 0 \<Longrightarrow> Compare l v < 0 \<Longrightarrow> Compare p v < 0"
    and "Compare p l \<le> 0 \<Longrightarrow> Compare l v \<le> 0 \<Longrightarrow> Compare p v \<le> 0"
    and "\<not> Compare p l < 0 \<Longrightarrow> Compare p v < 0 \<Longrightarrow> Compare l v < 0"
    and "\<not> Compare p l < 0 \<Longrightarrow> Compare p v \<le> 0 \<Longrightarrow> Compare l v \<le> 0"
    and "\<not> Compare p l \<le> 0 \<Longrightarrow> Compare p v \<le> 0 \<Longrightarrow> Compare l v < 0"
proof -
  have neg: "\<not> Compare p l < 0 \<longleftrightarrow> Compare l p \<le> 0" "\<not> Compare p l \<le> 0 \<longleftrightarrow> Compare l p < 0"
    using pcmp.cmp_not_less [OF assms(1,2)] pcmp.cmp_not_less [OF assms(2,1)] by blast+
  note up = Compare_trans [OF assms(2,1,3)] and down = Compare_trans [OF assms(1,2,3)]
  show "Compare p l < 0 \<Longrightarrow> Compare l v \<le> 0 \<Longrightarrow> Compare p v < 0" using up(3) by blast
  show "Compare p l \<le> 0 \<Longrightarrow> Compare l v < 0 \<Longrightarrow> Compare p v < 0" using up(2) by blast
  show "Compare p l \<le> 0 \<Longrightarrow> Compare l v \<le> 0 \<Longrightarrow> Compare p v \<le> 0" using up(1) by blast
  show "\<not> Compare p l < 0 \<Longrightarrow> Compare p v < 0 \<Longrightarrow> Compare l v < 0" unfolding neg using down(2) by blast
  show "\<not> Compare p l < 0 \<Longrightarrow> Compare p v \<le> 0 \<Longrightarrow> Compare l v \<le> 0" unfolding neg using down(1) by blast
  show "\<not> Compare p l \<le> 0 \<Longrightarrow> Compare p v \<le> 0 \<Longrightarrow> Compare l v < 0" unfolding neg using down(3) by blast
qed

lemma in_bounds_high:
  assumes can: "can_filter q field p" and set: "SetValue x ShouldIndex = Inr p"
    and wf: "wf_prop p" "wf_prop v" "wf_bounds q"
  shows "q_err (Query_Lt q field x) = None \<and> (in_bounds (Query_Lt q field x) v \<longleftrightarrow> in_bounds q v \<and> Property_Less v p)"
    and "q_err (Query_Lte q field x) = None \<and>
      (in_bounds (Query_Lte q field x) v \<longleftrightarrow> in_bounds q v \<and> (Property_Less v p \<or> Property_Equal v p))"
proof -
  let ?h = "q_ineqFiltHigh q"
  have h: "q_ineqFiltHighSet q \<Longrightarrow> wf_prop ?h" using wf by (simp add: wf_bounds_def)
  note b = high_bound [OF h wf(1,2)]
  have le: "Property_Less v p \<or> Property_Equal v p \<longleftrightarrow> Compare v p \<le> 0"
    by (auto simp: Property_Less_def Property_Equal_def)
  have res: "Query_Lt q field x = (if q_ineqFiltHighSet q \<and> (Compare ?h p < 0 \<or> Compare ?h p = 0 \<and> \<not> q_ineqFiltHighIncl q)
      then q else q\<lparr>q_ineqFiltProp := field, q_ineqFiltHighSet := True, q_ineqFiltHigh := p, q_ineqFiltHighIncl := False\<rparr>)"
    "Query_Lte q field x = (if q_ineqFiltHighSet q \<and> Compare ?h p \<le> 0
      then q else q\<lparr>q_ineqFiltProp := field, q_ineqFiltHighSet := True, q_ineqFiltHigh := p, q_ineqFiltHighIncl := True\<rparr>)"
    using can set by (auto simp: Query_Lt_def Query_Lte_def set_high_def query_mod_def can_filter_def
        Property_Less_def Property_Equal_def)
  show "q_err (Query_Lt q field x) = None \<and> (in_bounds (Query_Lt q field x) v \<longleftrightarrow> in_bounds q v \<and> Property_Less v p)"
    unfolding res using can b by (auto simp: in_bounds_def can_filter_def Property_Less_def)
  show "q_err (Query_Lte q field x) = None \<and>
      (in_bounds (Query_Lte q field x) v \<longleftrightarrow> in_bounds q v \<and> (Property_Less v p \<or> Property_Equal v p))"
    unfolding res le using can b by (auto simp: in_bounds_def can_filter_def)
qed

lemma in_bounds_low:
  assumes can: "can_filter q field p" and set: "SetValue x ShouldIndex = Inr p"
    and wf: "wf_prop p" "wf_prop v" "wf_bounds q"
  shows "q_err (Query_Gt q field x) = None \<and> (in_bounds (Query_Gt q field x) v \<longleftrightarrow> in_bounds q v \<and> Property_Less p v)"
    and "q_err (Query_Gte q field x) = None \<and>
      (in_bounds (Query_Gte q field x) v \<longleftrightarrow> in_bounds q v \<and> (Property_Less p v \<or> Property_Equal p v))"
proof -
  let ?l = "q_ineqFiltLow q"
  have l: "q_ineqFiltLowSet q \<Longrightarrow> wf_prop ?l" using wf by (simp add: wf_bounds_def)
  note b = low_bound [OF l wf(1,2)]
  have le: "Property_Less p v \<or> Property_Equal p v \<longleftrightarrow> Compare p v \<le> 0"
    by (auto simp: Property_Less_def Property_Equal_def)
  have res: "Query_Gt q field x = (if q_ineqFiltLowSet q \<and> (Compare p ?l < 0 \<or> Compare p ?l = 0 \<and> \<not> q_ineqFiltLowIncl q)
      then q else q\<lparr>q_ineqFiltProp := field, q_ineqFiltLowSet := True, q_ineqFiltLow := p, q_ineqFiltLowIncl := False\<rparr>)"
    "Query_Gte q field x = (if q_ineqFiltLowSet q \<and> Compare p ?l \<le> 0
      then q else q\<lparr>q_ineqFiltProp := field, q_ineqFiltLowSet := True, q_ineqFiltLow := p, q_ineqFiltLowIncl := True\<rparr>)"
    using can set by (auto simp: Query_Gt_def Query_Gte_def set_low_def query_mod_def can_filter_def
        Property_Less_def Property_Equal_def)
  show "q_err (Query_Gt q field x) = None \<and> (in_bounds (Query_Gt q field x) v \<longleftrightarrow> in_bounds q v \<and> Property_Less p v)"
    unfolding res using can b by (auto simp: in_bounds_def can_filter_def Property_Less_def)
  show "q_err (Query_Gte q field x) = None \<and>
      (in_bounds (Query_Gte q field x) v \<longleftrightarrow> in_bounds q v \<and> (Property_Less p v \<or> Property_Equal p v))"
    unfolding res le using can b by (auto simp: in_bounds_def can_filter_def)
qed

text \<open>
  C29. Inequality filters are conjunctions: after \<^verbatim>\<open>Lt\<close>, \<^verbatim>\<open>Lte\<close>, \<^verbatim>\<open>Gt\<close> or
  \<^verbatim>\<open>Gte\<close> on the query's inequality field (or its first one), a value lies within the bounds of the new query
  exactly when it lay within the old bounds and satisfies the new comparison, whether the call replaced a
  bound or kept the tighter one; and no error is set. A query that \<^verbatim>\<open>Finalize\<close> refuses with
  \<^verbatim>\<open>ErrNullQuery\<close> has bounds that no value satisfies.
\<close>

theorem inequality_conjunction:
  assumes "can_filter q field p" "SetValue x ShouldIndex = Inr p" "wf_prop p" "wf_prop v" "wf_bounds q"
  shows "q_err (Query_Lt q field x) = None \<and> q_err (Query_Lte q field x) = None \<and>
    q_err (Query_Gt q field x) = None \<and> q_err (Query_Gte q field x) = None \<and>
    (in_bounds (Query_Lt q field x) v \<longleftrightarrow> in_bounds q v \<and> Property_Less v p) \<and>
    (in_bounds (Query_Lte q field x) v \<longleftrightarrow> in_bounds q v \<and> (Property_Less v p \<or> Property_Equal v p)) \<and>
    (in_bounds (Query_Gt q field x) v \<longleftrightarrow> in_bounds q v \<and> Property_Less p v) \<and>
    (in_bounds (Query_Gte q field x) v \<longleftrightarrow> in_bounds q v \<and> (Property_Less p v \<or> Property_Equal p v)) \<and>
    (Finalize q = Inl ErrNullQuery \<longrightarrow> \<not> in_bounds q v)"
proof -
  have "\<not> in_bounds q v" if over: "overconstrained q"
  proof -
    have set: "q_ineqFiltLowSet q" "q_ineqFiltHighSet q" using over by (auto simp: overconstrained_def)
    then have wf: "wf_prop (q_ineqFiltLow q)" "wf_prop (q_ineqFiltHigh q)"
      using assms(5) by (auto simp: wf_bounds_def)
    note t = Compare_trans [OF wf(1) assms(4) wf(2)] Compare_trans(4,5) [OF wf(2,1) assms(4)]
    show ?thesis
      using over t unfolding in_bounds_def overconstrained_def Property_Less_def Property_Equal_def
      by (auto split: if_splits)
  qed
  moreover have "overconstrained q" if "Finalize q = Inl ErrNullQuery"
  proof -
    have "finalizeImpl q = Inl ErrNullQuery" using that assms(1) by (simp add: Finalize_def can_filter_def)
    then obtain anc where "check_query q anc = Some ErrNullQuery"
      by (auto simp: finalizeImpl_def eq_ancestor_def split: sum.splits option.splits list.splits)
    then show ?thesis
      by (auto simp: check_query_def check_kindless_def check_ineq_def check_bound_def split: option.splits if_splits)
  qed
  ultimately show ?thesis using in_bounds_high [OF assms] in_bounds_low [OF assms] by blast
qed

theorem inequality_conjunction_witness:
  "in_bounds (Query_Lt (NewQuery ''K'') ''a'' (GInt 5)) \<lparr>pvalue = PInt 3, indexSetting = False\<rparr>"
proof -
  let ?p = "\<lparr>pvalue = PInt 5, indexSetting = False\<rparr>" and ?v = "\<lparr>pvalue = PInt 3, indexSetting = False\<rparr>"
  have "can_filter (NewQuery ''K'') ''a'' ?p"
    by (simp add: can_filter_def ineqOK_def reserved_def NewQuery_def)
  moreover have "wf_prop ?p" "wf_prop ?v" "wf_bounds (NewQuery ''K'')"
    by (simp_all add: wf_prop_def wf_bounds_def NewQuery_def)
  moreover have "in_bounds (NewQuery ''K'') ?v" by (simp add: in_bounds_def NewQuery_def)
  moreover have "Property_Less ?v ?p" by (simp add: Property_Less_def Compare_def prop_compare_def index_value_defs)
  ultimately show ?thesis using inequality_conjunction [of "NewQuery ''K''" "''a''" ?p "GInt 5" ?v] by simp
qed

lemma Query_Eq_ok:
  assumes "q_err q = None" "reserved field = None" "vs \<noteq> []"
  shows "Query_Eq q field vs =
    (case eq_loop (al_get (q_eqFilts q) field) vs of
       Inl e \<Rightarrow> q\<lparr>q_err := Some (QValue e)\<rparr>
     | Inr s \<Rightarrow> q\<lparr>q_eqFilts := al_set (q_eqFilts q) field s\<rparr>)"
  using assms by (simp add: Query_Eq_def query_mod_def)

text \<open>
  Equality filters: \<^verbatim>\<open>Eq\<close> keeps the values of a field strictly sorted and without two equal
  ones, keeps the old values, and holds a value equal to each new one; \<^verbatim>\<open>Eq(f, vs...).Eq(f, ws...)\<close> is
  \<^verbatim>\<open>Eq(f, vs..., ws...)\<close>, with the same error when a value is refused and the same query otherwise.
\<close>

theorem Eq_sorted_set:
  assumes "q_err q = None" "reserved field = None" "vs \<noteq> []" "ws \<noteq> []"
    and "sorted_wrt Property_Less (al_get (q_eqFilts q) field)" "list_all wf_prop (al_get (q_eqFilts q) field)"
    and "\<forall>v \<in> set vs. \<forall>p. SetValue v ShouldIndex = Inr p \<longrightarrow> wf_prop p"
  shows "(q_err (Query_Eq q field vs) = None \<longrightarrow>
      sorted_wrt Property_Less (al_get (q_eqFilts (Query_Eq q field vs)) field) \<and>
      set (al_get (q_eqFilts q) field) \<subseteq> set (al_get (q_eqFilts (Query_Eq q field vs)) field) \<and>
      (\<forall>v \<in> set vs. \<exists>p. SetValue v ShouldIndex = Inr p \<and>
        (\<exists>x \<in> set (al_get (q_eqFilts (Query_Eq q field vs)) field). Property_Equal x p))) \<and>
    q_err (Query_Eq (Query_Eq q field vs) field ws) = q_err (Query_Eq q field (vs @ ws)) \<and>
    (q_err (Query_Eq q field (vs @ ws)) = None \<longrightarrow>
      Query_Eq (Query_Eq q field vs) field ws = Query_Eq q field (vs @ ws))"
proof (cases "eq_loop (al_get (q_eqFilts q) field) vs")
  case (Inl e)
  then have one: "Query_Eq q field vs = q\<lparr>q_err := Some (QValue e)\<rparr>"
    using Query_Eq_ok [OF assms(1-3)] by simp
  moreover have "Query_Eq q field (vs @ ws) = q\<lparr>q_err := Some (QValue e)\<rparr>"
    using Query_Eq_ok [OF assms(1,2), of "vs @ ws"] assms(3) Inl by (simp add: eq_loop_append)
  ultimately show ?thesis by (simp add: Query_Eq_def query_mod_def)
next
  case (Inr s)
  let ?q = "q\<lparr>q_eqFilts := al_set (q_eqFilts q) field s\<rparr>"
  have one: "Query_Eq q field vs = ?q" using Query_Eq_ok [OF assms(1-3)] Inr by simp
  have get: "al_get (q_eqFilts ?q) field = s" by (simp add: al_get_def map_of_al_set)
  have two: "Query_Eq ?q field ws = (case eq_loop s ws of
       Inl e \<Rightarrow> ?q\<lparr>q_err := Some (QValue e)\<rparr>
     | Inr s' \<Rightarrow> ?q\<lparr>q_eqFilts := al_set (al_set (q_eqFilts q) field s) field s'\<rparr>)"
    using Query_Eq_ok [of ?q field ws] assms get by (cases "eq_loop s ws") simp_all
  have both: "Query_Eq q field (vs @ ws) = (case eq_loop s ws of
       Inl e \<Rightarrow> q\<lparr>q_err := Some (QValue e)\<rparr>
     | Inr s' \<Rightarrow> q\<lparr>q_eqFilts := al_set (q_eqFilts q) field s'\<rparr>)"
    using Query_Eq_ok [OF assms(1,2), of "vs @ ws"] assms(3) Inr by (simp add: eq_loop_append)
  have spec: "sorted_wrt Property_Less s \<and> set (al_get (q_eqFilts q) field) \<subseteq> set s \<and>
      (\<forall>v \<in> set vs. \<exists>p. SetValue v ShouldIndex = Inr p \<and> (\<exists>x \<in> set s. Property_Equal x p))"
    using eq_loop_spec [OF Inr assms(5-7)] by blast
  show ?thesis
    unfolding one two both get using spec assms(1) by (cases "eq_loop s ws") (simp_all add: al_set_set)
qed

theorem Eq_sorted_set_witness:
  "Query_Eq (Query_Eq (NewQuery ''K'') ''f'' [GInt 2]) ''f'' [GInt 1] = Query_Eq (NewQuery ''K'') ''f'' [GInt 2, GInt 1]"
proof -
  have "q_err (NewQuery ''K'') = None" "reserved ''f'' = None"
    "sorted_wrt Property_Less (al_get (q_eqFilts (NewQuery ''K'')) ''f'')"
    "list_all wf_prop (al_get (q_eqFilts (NewQuery ''K'')) ''f'')"
    by (simp_all add: NewQuery_def reserved_def al_get_def)
  moreover have "\<forall>v \<in> set [GInt 2]. \<forall>p. SetValue v ShouldIndex = Inr p \<longrightarrow> wf_prop p"
    by (simp add: wf_prop_def)
  moreover have "q_err (Query_Eq (NewQuery ''K'') ''f'' ([GInt 2] @ [GInt 1])) = None"
    by (simp add: Query_Eq_def query_mod_def reserved_def NewQuery_def)
  ultimately show ?thesis using Eq_sorted_set [of "NewQuery ''K''" "''f''" "[GInt 2]" "[GInt 1]"] by simp
qed

text \<open>
  C36. An inequality on a second field: with a valid value on a field that may be filtered,
  \<^verbatim>\<open>Lt\<close> and \<^verbatim>\<open>Gt\<close> report \<^verbatim>\<open>ErrMultipleInequalityFilter\<close>, except where the new bound is
  not tighter than the bound of the first field: then the call is ignored without an error.
\<close>

theorem second_inequality_field:
  assumes "q_err q = None" "SetValue x ShouldIndex = Inr p" "reserved field = None"
    "field = ''__key__'' \<longrightarrow> Property_Type p = PTKey" "q_ineqFiltProp q \<noteq> ''''" "q_ineqFiltProp q \<noteq> field"
  shows "(if q_ineqFiltHighSet q \<and> (Property_Less (q_ineqFiltHigh q) p \<or>
            Property_Equal (q_ineqFiltHigh q) p \<and> \<not> q_ineqFiltHighIncl q)
          then Query_Lt q field x = q
          else Finalize (Query_Lt q field x) = Inl ErrMultipleInequalityFilter) \<and>
    (if q_ineqFiltLowSet q \<and> (Property_Less p (q_ineqFiltLow q) \<or>
            Property_Equal p (q_ineqFiltLow q) \<and> \<not> q_ineqFiltLowIncl q)
          then Query_Gt q field x = q
          else Finalize (Query_Gt q field x) = Inl ErrMultipleInequalityFilter)"
  using assms
  by (auto simp: Query_Lt_def Query_Gt_def set_high_def set_low_def query_mod_def ineqOK_def Finalize_def)

theorem second_inequality_field_witness:
  "Query_Lt (Query_Lt (NewQuery ''K'') ''a'' (GInt 5)) ''b'' (GInt 10) = Query_Lt (NewQuery ''K'') ''a'' (GInt 5)"
proof -
  let ?q = "Query_Lt (NewQuery ''K'') ''a'' (GInt 5)"
  have q: "?q = (NewQuery ''K'')\<lparr>q_ineqFiltProp := ''a'', q_ineqFiltHighSet := True,
      q_ineqFiltHigh := \<lparr>pvalue = PInt 5, indexSetting = False\<rparr>, q_ineqFiltHighIncl := False\<rparr>"
    by (simp add: Query_Lt_def set_high_def query_mod_def ineqOK_def reserved_def NewQuery_def)
  have "q_err ?q = None" "reserved ''b'' = None" "q_ineqFiltProp ?q \<noteq> ''''" "q_ineqFiltProp ?q \<noteq> ''b''"
    "q_ineqFiltHighSet ?q" "Property_Less (q_ineqFiltHigh ?q) \<lparr>pvalue = PInt 10, indexSetting = False\<rparr>"
    unfolding q by (simp_all add: NewQuery_def reserved_def Property_Less_def Compare_def prop_compare_def index_value_defs)
  then show ?thesis
    using second_inequality_field [of ?q "GInt 10" "\<lparr>pvalue = PInt 10, indexSetting = False\<rparr>" "''b''"] by simp
qed

end
