(* ===== verification/Datastore_Query.thy ===== *)
theory Datastore_Query
  imports Index_Build Iterate Query_Props
begin

text \<open>
  \<^verbatim>\<open>impl/memory/datastore_query.go\<close>: from a finalized query to the pieces that index selection
  works with. A nil byte slice is \<open>None\<close> where the code tests for it. The order in which Go
  ranges over a map or a set is not specified: sets are lists of distinct elements, and a record of
  functions says in which order each range visits them. A panic is \<open>None\<close>.
\<close>

section \<open>Errors and unspecified orders\<close>

datatype qrerror = QRNull | QRInvalid verror | QRNoAncestor | QRTooLarge | QRBadPrefix
  | QRColumnCount | QRBadColumn serror | QRLastColumn | QRStartCursor | QREndCursor
  | QRCursorType | QRBase64 | QRMissingIndex string IndexDefinition | QRNamespaceCursor
  | QRFinalize qerror

record ranges =
  r_vals :: "byte list list \<Rightarrow> byte list list"  \<comment> \<open>the values of an equality filter\<close>
  r_props :: "string list \<Rightarrow> string list"  \<comment> \<open>the properties a query mentions\<close>
  r_terms :: "string list \<Rightarrow> string list"  \<comment> \<open>the terms no index covers\<close>

text \<open>Every order visits each element once.\<close>

definition ranges_ok :: "ranges \<Rightarrow> bool" where
  "ranges_ok R \<longleftrightarrow> (\<forall>xs. mset (r_vals R xs) = mset xs) \<and> (\<forall>xs. mset (r_props R xs) = mset xs) \<and>
     (\<forall>xs. mset (r_terms R xs) = mset xs)"

definition MaxQueryComponents :: nat where "MaxQueryComponents = 100"

section \<open>Cursors\<close>

text \<open>\<^verbatim>\<open>base64.RawURLEncoding\<close>: six bits a character, no padding. Decoding skips line breaks and
  does not look at the bits that are left over.\<close>

definition b64_alphabet :: string where
  "b64_alphabet = ''ABCDEFGHIJKLMNOPQRSTUVWXYZabcdefghijklmnopqrstuvwxyz0123456789-_''"

definition b64_char :: "nat \<Rightarrow> char" where
  "b64_char n = b64_alphabet ! n"

definition b64_digit :: "char \<Rightarrow> nat option" where
  "b64_digit c = map_of (zip b64_alphabet [0..<64]) c"

fun b64_encode :: "byte list \<Rightarrow> string" where
  "b64_encode (a # b # c # bs) =
     (let n = unat a * 65536 + unat b * 256 + unat c in
      b64_char (n div 262144) # b64_char (n div 4096 mod 64) # b64_char (n div 64 mod 64) #
      b64_char (n mod 64) # b64_encode bs)"
| "b64_encode [a, b] =
     (let n = unat a * 1024 + unat b * 4 in
      [b64_char (n div 4096), b64_char (n div 64 mod 64), b64_char (n mod 64)])"
| "b64_encode [a] = (let n = unat a * 16 in [b64_char (n div 64), b64_char (n mod 64)])"
| "b64_encode [] = []"

fun b64_digits :: "string \<Rightarrow> nat list option" where
  "b64_digits [] = Some []"
| "b64_digits (c # cs) =
     Option.bind (b64_digit c) (\<lambda>d. map_option ((#) d) (b64_digits cs))"

fun b64_bytes :: "nat list \<Rightarrow> byte list option" where
  "b64_bytes (a # b # c # d # ds) =
     (let n = a * 262144 + b * 4096 + c * 64 + d in
      map_option (\<lambda>bs. of_nat (n div 65536) # of_nat (n div 256 mod 256) # of_nat (n mod 256) # bs) (b64_bytes ds))"
| "b64_bytes [a, b, c] =
     (let n = a * 4096 + b * 64 + c in Some [of_nat (n div 1024), of_nat (n div 4 mod 256)])"
| "b64_bytes [a, b] = (let n = a * 64 + b in Some [of_nat (n div 16)])"
| "b64_bytes [a] = None"
| "b64_bytes [] = Some []"

definition b64_decode :: "string \<Rightarrow> byte list option" where
  "b64_decode s = Option.bind (b64_digits (filter (\<lambda>c. c \<noteq> CHR 0x0A \<and> c \<noteq> CHR 0x0D) s)) b64_bytes"

fun read_columns :: "cmpbin \<Rightarrow> nat \<Rightarrow> IndexColumn list reader" where
  "read_columns C 0 = rd_ret []"
| "read_columns C (Suc n) =
     rd_bind (ReadIndexColumn C) (\<lambda>c. rd_bind (read_columns C n) (\<lambda>cs. rd_ret (c # cs)))"

definition cursor_decode :: "cmpbin \<Rightarrow> byte list \<Rightarrow> qrerror + IndexColumn list \<times> byte list" where
  "cursor_decode C q =
     (case rUint C q of
        Inl _ \<Rightarrow> Inl QRBadPrefix
      | Inr (cnt, buf) \<Rightarrow>
          if cnt = 0 \<or> unat cnt > MaxIndexColumns then Inl QRColumnCount
          else case read_columns C (unat cnt) buf of
            Inl e \<Rightarrow> Inl (QRBadColumn e)
          | Inr (cols, buf) \<Rightarrow>
              if col_Property (last cols) \<noteq> ''__key__'' then Inl QRLastColumn else Inr (cols, buf))"

definition newCursor :: "cmpbin \<Rightarrow> string \<Rightarrow> qrerror + Cursor" where
  "newCursor C s =
     (case b64_decode s of
        None \<Rightarrow> Inl QRBase64
      | Some d \<Rightarrow> (case cursor_decode C d of Inl e \<Rightarrow> Inl e | Inr _ \<Rightarrow> Inr (queryCursor d)))"

fun Cursor_String :: "Cursor \<Rightarrow> string" where
  "Cursor_String (queryCursor q) = b64_encode q"
| "Cursor_String (otherCursor s) = s"

fun sortOrdersEqual :: "IndexColumn list \<Rightarrow> IndexColumn list \<Rightarrow> bool" where
  "sortOrdersEqual [] [] = True"
| "sortOrdersEqual (a # as) (b # bs) = (if a \<noteq> b then False else sortOrdersEqual as bs)"
| "sortOrdersEqual _ _ = False"

section \<open>Bounds\<close>

definition numComponents :: "FinalizedQuery \<Rightarrow> nat" where
  "numComponents fq =
     length (fq_orders fq) +
     (if fst (IneqFilterLow fq) \<noteq> '''' then 1 else 0) + (if fst (IneqFilterHigh fq) \<noteq> '''' then 1 else 0) +
     sum_list (map (length \<circ> snd) (fq_eqFilts fq))"

text \<open>\<^verbatim>\<open>increment\<close>, which panics on overflow.\<close>

definition q_increment :: "byte list \<Rightarrow> byte list option" where
  "q_increment bstr = (case Increment bstr of (ret, overflow) \<Rightarrow> if overflow then None else Some ret)"

text \<open>A bound of the inequality: \<open>Some None\<close> when there is none.\<close>

definition bound_bytes :: "'s dsenv \<Rightarrow> string \<Rightarrow> Property \<Rightarrow> string \<Rightarrow> byte list option option" where
  "bound_bytes E op v incr_op =
     (if op = '''' then Some None
      else Option.bind (ToBytes (e_cmpbin E) (e_detmaps E) (SProperty v)) (\<lambda>bs.
        map_option Some (if op = incr_op then q_increment bs else Some bs)))"

definition flip_bound :: "byte list option \<Rightarrow> byte list option option" where
  "flip_bound b =
     (case b of
        None \<Rightarrow> Some None
      | Some bs \<Rightarrow> if length bs > 0 then map_option Some (q_increment (Invert bs)) else Some None)"

definition GetBinaryBounds ::
  "'s dsenv \<Rightarrow> FinalizedQuery \<Rightarrow> (byte list option \<times> byte list option) option" where
  "GetBinaryBounds E fq =
     (if fq_ineqFiltProp fq \<noteq> '''' then
        Option.bind (case IneqFilterLow fq of (_, op, v) \<Rightarrow> bound_bytes E op v ''>'') (\<lambda>lower.
        Option.bind (case IneqFilterHigh fq of (_, op, v) \<Rightarrow> bound_bytes E op v ''<='') (\<lambda>upper.
        case fq_orders fq of
          [] \<Rightarrow> None
        | c # _ \<Rightarrow>
            if Descending c then
              Option.bind (flip_bound lower) (\<lambda>lo. Option.bind (flip_bound upper) (\<lambda>hi. Some (hi, lo)))
            else Some (lower, upper)))
      else Some (None, None))"

section \<open>Reduction\<close>

record reducedQuery =
  rq_kc :: KeyContext
  rq_kind :: string
  rq_eqFilters :: "(string \<times> byte list list) list"
  rq_suffixFormat :: "IndexColumn list"
  rq_start :: "byte list option"
  rq_end :: "byte list option"
  rq_numCols :: nat

text \<open>The set of the encodings of a filter's values.\<close>

fun filter_bytes :: "'s dsenv \<Rightarrow> byte list list \<Rightarrow> Property list \<Rightarrow> byte list list option" where
  "filter_bytes E sVals [] = Some sVals"
| "filter_bytes E sVals (v # vals) =
     Option.bind (ToBytes (e_cmpbin E) (e_detmaps E) (SProperty v)) (\<lambda>bs.
       filter_bytes E (List.insert bs sVals) vals)"

fun reduce_filters :: "'s dsenv \<Rightarrow> (string \<times> Property list) list \<Rightarrow> (string \<times> byte list list) list option" where
  "reduce_filters E [] = Some []"
| "reduce_filters E ((prop, vals) # eqFilts) =
     Option.bind (filter_bytes E [] vals) (\<lambda>sVals. map_option ((#) (prop, sVals)) (reduce_filters E eqFilts))"

text \<open>The check of a cursor against the query, and the row it stands for.\<close>

definition cursor_row :: "'s dsenv \<Rightarrow> IndexColumn list \<Rightarrow> qrerror \<Rightarrow> Cursor \<Rightarrow> qrerror + byte list" where
  "cursor_row E suffixFormat err c =
     (case c of
        otherCursor _ \<Rightarrow> Inl QRCursorType
      | queryCursor q \<Rightarrow>
          (case cursor_decode (e_cmpbin E) q of
             Inl e \<Rightarrow> Inl e
           | Inr (cols, d) \<Rightarrow> if \<not> sortOrdersEqual cols suffixFormat then Inl err else Inr d))"

definition cap_start :: "'s dsenv \<Rightarrow> IndexColumn list \<Rightarrow> byte list option \<Rightarrow> Cursor option \<Rightarrow> qrerror + byte list option" where
  "cap_start E suffixFormat start c =
     (case c of
        None \<Rightarrow> Inr start
      | Some c \<Rightarrow>
          (case cursor_row E suffixFormat QRStartCursor c of
             Inl e \<Rightarrow> Inl e
           | Inr startD \<Rightarrow>
               Inr (case start of None \<Rightarrow> Some startD | Some s \<Rightarrow> if s < startD then Some startD else start)))"

definition cap_end :: "'s dsenv \<Rightarrow> IndexColumn list \<Rightarrow> byte list option \<Rightarrow> Cursor option \<Rightarrow> qrerror + byte list option" where
  "cap_end E suffixFormat end c =
     (case c of
        None \<Rightarrow> Inr end
      | Some c \<Rightarrow>
          (case cursor_row E suffixFormat QREndCursor c of
             Inl e \<Rightarrow> Inl e
           | Inr endD \<Rightarrow>
               Inr (case end of None \<Rightarrow> Some endD | Some e \<Rightarrow> if endD < e then Some endD else end)))"

definition num_cols :: "(string \<times> byte list list) list \<Rightarrow> IndexColumn list \<Rightarrow> nat" where
  "num_cols eqFilters suffixFormat =
     length suffixFormat +
     sum_list (map (\<lambda>(prop, vals). if length suffixFormat = 1 \<and> prop = ''__ancestor__'' then 0 else length vals) eqFilters)"

definition bytes_of :: "byte list option \<Rightarrow> byte list" where
  "bytes_of b = (case b of None \<Rightarrow> [] | Some bs \<Rightarrow> bs)"

definition reduce :: "'s dsenv \<Rightarrow> FinalizedQuery \<Rightarrow> KeyContext \<Rightarrow> bool \<Rightarrow> (qrerror + reducedQuery) option" where
  "reduce E fq c isTxn =
     (case FQ_Valid fq c of
        Some VPanic \<Rightarrow> None
      | Some e \<Rightarrow> Some (Inl (QRInvalid e))
      | None \<Rightarrow>
          if isTxn \<and> FQ_Ancestor fq = Inr None then Some (Inl QRNoAncestor)
          else if numComponents fq > MaxQueryComponents then Some (Inl QRTooLarge)
          else
            Option.bind (reduce_filters E (fq_eqFilts fq)) (\<lambda>eqFilters.
            Option.bind (GetBinaryBounds E fq) (\<lambda>(startD, endD).
            Some (
              case cap_start E (fq_orders fq) startD (fq_start fq) of
                Inl e \<Rightarrow> Inl e
              | Inr start \<Rightarrow>
                  (case cap_end E (fq_orders fq) endD (fq_end fq) of
                     Inl e \<Rightarrow> Inl e
                   | Inr end \<Rightarrow>
                       if (case end of None \<Rightarrow> False | Some e \<Rightarrow> bytes_of start \<ge> e) then Inl QRNull
                       else Inr \<lparr>rq_kc = c, rq_kind = fq_kind fq, rq_eqFilters = eqFilters,
                                 rq_suffixFormat = fq_orders fq, rq_start = start, rq_end = end,
                                 rq_numCols = num_cols eqFilters (fq_orders fq)\<rparr>)))))"

end
