(* ===== verification/Index_Selection.thy ===== *)
theory Index_Selection
  imports Datastore_Query
begin

text \<open>
  \<^verbatim>\<open>impl/memory/datastore_index_selection.go\<close>: which index tables serve a reduced query, and
  the ranges of them whose common suffixes are its results. The collection of an index that has no
  table is nil (\<open>None\<close>).
\<close>

section \<open>Candidate indexes\<close>

record 's indexDefinitionSortable =
  ids_eqFilts :: "IndexColumn list"
  ids_coll :: "'s memCollection"

definition ids_hasAncestor :: "'s indexDefinitionSortable \<Rightarrow> bool" where
  "ids_hasAncestor i \<longleftrightarrow> length (ids_eqFilts i) > 0 \<and> col_Property (ids_eqFilts i ! 0) = ''__ancestor__''"

record constraints =
  c_constraints :: "(string \<times> byte list list) list"
  c_original :: "(string \<times> byte list list) list"
  c_residualMapping :: "(string \<times> nat) list"

definition numEqHits :: "'s indexDefinitionSortable \<Rightarrow> constraints \<Rightarrow> nat" where
  "numEqHits i c =
     length (filter (\<lambda>filt. map_of (c_constraints c) (col_Property filt) \<noteq> None) (ids_eqFilts i))"

text \<open>\<^verbatim>\<open>Less\<close>: indexes without a table first, then by number of columns, then by the columns.\<close>

fun eqFilts_less :: "IndexColumn list \<Rightarrow> IndexColumn list \<Rightarrow> bool" where
  "eqFilts_less (col # cols) (ocol # ocols) =
     (if \<not> Descending col \<and> Descending ocol then True
      else if Descending col \<and> \<not> Descending ocol then False
      else if col_Property col < col_Property ocol then True
      else if col_Property col > col_Property ocol then False
      else eqFilts_less cols ocols)"
| "eqFilts_less _ _ = False"

definition ids_Less :: "'s indexDefinitionSortable \<Rightarrow> 's indexDefinitionSortable \<Rightarrow> bool" where
  "ids_Less a b =
     (if ids_coll a = None \<and> ids_coll b \<noteq> None then True
      else if ids_coll a \<noteq> None \<and> ids_coll b = None then False
      else if length (ids_eqFilts a) < length (ids_eqFilts b) then True
      else if length (ids_eqFilts a) > length (ids_eqFilts b) then False
      else eqFilts_less (ids_eqFilts a) (ids_eqFilts b))"

fun ids_insert :: "'s indexDefinitionSortable \<Rightarrow> 's indexDefinitionSortable list \<Rightarrow> 's indexDefinitionSortable list" where
  "ids_insert i [] = [i]"
| "ids_insert i (j # js) = (if ids_Less j i then j # ids_insert i js else i # j # js)"

text \<open>\<^verbatim>\<open>sort.Sort\<close>. Candidates that \<^verbatim>\<open>Less\<close> does not order have the same columns and table.\<close>

definition ids_sort :: "'s indexDefinitionSortable list \<Rightarrow> 's indexDefinitionSortable list" where
  "ids_sort is = foldr ids_insert is []"

definition isSpecialProp :: "string \<Rightarrow> bool" where
  "isSpecialProp prop \<longleftrightarrow> prop = ''__scatter__''"

text \<open>The first test of \<^verbatim>\<open>maybeAddDefinition\<close> that refuses the index, for the full sort order.\<close>

definition usable :: "reducedQuery \<Rightarrow> IndexDefinition \<Rightarrow> bool" where
  "usable q idx =
     (let sortBy = GetFullSortOrder idx; numEqFilts = length sortBy - length (rq_suffixFormat q);
          anc = map_of (rq_eqFilters q) ''__ancestor__'' \<noteq> None
      in if length sortBy < length (rq_suffixFormat q) then False
         else if drop numEqFilts sortBy \<noteq> rq_suffixFormat q then False
         else if Builtin idx \<and> numEqFilts = 0 \<and>
                 (length (rq_eqFilters q) > 1 \<or> length (rq_eqFilters q) = 1 \<and> \<not> anc \<or>
                  length sortBy > 1 \<and> anc) then False
         else list_all (\<lambda>p. map_of (rq_eqFilters q) (col_Property p) \<noteq> None) (take numEqFilts sortBy))"

text \<open>\<^verbatim>\<open>numByProp\<close>: how often each property occurs among the columns.\<close>

definition numByProp :: "IndexColumn list \<Rightarrow> string \<Rightarrow> nat" where
  "numByProp eqFilts p = length (filter (\<lambda>c. col_Property c = p) eqFilts)"

definition perfect :: "reducedQuery \<Rightarrow> IndexColumn list \<Rightarrow> bool" where
  "perfect q eqFilts \<longleftrightarrow> length eqFilts + length (rq_suffixFormat q) = rq_numCols q \<and>
     list_all (\<lambda>c. numByProp eqFilts (col_Property c) \<ge> length (al_get (rq_eqFilters q) (col_Property c))) eqFilts"

text \<open>The candidates so far and the missing terms.\<close>

type_synonym 's candidates = "'s indexDefinitionSortable list \<times> string list"

definition maybeAddDefinition ::
  "'s dsenv \<Rightarrow> reducedQuery \<Rightarrow> 's \<Rightarrow> 's candidates \<Rightarrow> IndexDefinition \<Rightarrow> ('s candidates \<times> bool) option" where
  "maybeAddDefinition E q s st idx =
     (case st of (idxs, missingTerms) \<Rightarrow>
        if ix_Kind idx \<noteq> rq_kind q then None
        else if map_of (rq_eqFilters q) ''__ancestor__'' \<noteq> None \<and> \<not> ix_Ancestor idx \<and> \<not> Builtin idx then None
        else if \<not> usable q idx then Some (st, False)
        else
          let sortBy = GetFullSortOrder idx;
              eqFilts = take (length sortBy - length (rq_suffixFormat q)) sortBy
          in map_option (\<lambda>bin.
               let coll = ms_GetCollection (e_store E) s (idx_coll (Namespace (rq_kc q)) bin);
                   missingTerms = foldl (\<lambda>m sb. removeAll (col_Property sb) m) missingTerms eqFilts;
                   toAdd = \<lparr>ids_eqFilts = eqFilts, ids_coll = coll\<rparr>;
                   idxs = (if perfect q eqFilts then [toAdd] else idxs @ [toAdd])
               in ((idxs, missingTerms), missingTerms = []))
             (ToBytes (e_cmpbin E) (e_detmaps E) (SIndexDefinition (PrepForIdxTable idx))))"

text \<open>A run of \<^verbatim>\<open>maybeAddDefinition\<close> until one returns true.\<close>

fun add_definitions ::
  "'s dsenv \<Rightarrow> reducedQuery \<Rightarrow> 's \<Rightarrow> 's candidates \<Rightarrow> IndexDefinition list \<Rightarrow> ('s candidates \<times> bool) option" where
  "add_definitions E q s st [] = Some (st, False)"
| "add_definitions E q s st (idx # is) =
     Option.bind (maybeAddDefinition E q s st idx) (\<lambda>(st, ok).
       if ok then Some (st, True) else add_definitions E q s st is)"

text \<open>The built-in indexes in the order they are proposed.\<close>

definition builtin_defs :: "ranges \<Rightarrow> reducedQuery \<Rightarrow> IndexDefinition list" where
  "builtin_defs R q =
     (let props = remdups (map fst (rq_eqFilters q) @ map col_Property (butlast (rq_suffixFormat q)));
          def = (\<lambda>cols. \<lparr>ix_Kind = rq_kind q, ix_Ancestor = False, SortBy = cols\<rparr>)
      in def [] #
         concat (map (\<lambda>prop.
           if \<not> isSpecialProp prop \<and> prefix ''__'' prop \<and> suffix ''__'' prop then []
           else [def [\<lparr>col_Property = prop, Descending = False\<rparr>], def [\<lparr>col_Property = prop, Descending = True\<rparr>]])
           (r_props R props)))"

text \<open>The definition of an \<^verbatim>\<open>ErrMissingIndex\<close>; a built-in one is a panic.\<close>

definition missing_index :: "'s dsenv \<Rightarrow> ranges \<Rightarrow> reducedQuery \<Rightarrow> string list \<Rightarrow> IndexDefinition option" where
  "missing_index E R q missingTerms =
     (let terms = r_terms R missingTerms;
          terms = (if e_detser E then sort terms else terms);
          sb = map asc terms @ rq_suffixFormat q
      in if sb = [] then None
         else
           let sb = (if \<not> Descending (last sb) then butlast sb else sb);
               remains = \<lparr>ix_Kind = rq_kind q,
                          ix_Ancestor = (map_of (rq_eqFilters q) ''__ancestor__'' \<noteq> None), SortBy = sb\<rparr>
           in if Builtin remains then None else Some remains)"

definition getRelevantIndexes ::
  "'s dsenv \<Rightarrow> ranges \<Rightarrow> reducedQuery \<Rightarrow> 's \<Rightarrow> (qrerror + 's indexDefinitionSortable list) option" where
  "getRelevantIndexes E R q s =
     (let missingTerms = filter (\<lambda>k. k \<noteq> ''__ancestor__'') (map fst (rq_eqFilters q)) in
      if rq_suffixFormat q = [] then None
      else
        Option.bind (add_definitions E q s ([], missingTerms) (builtin_defs R q)) (\<lambda>(st, ok).
        if ok then Some (Inr (fst st))
        else
          let sfx = \<lparr>ix_Kind = rq_kind q, ix_Ancestor = (map_of (rq_eqFilters q) ''__ancestor__'' \<noteq> None),
                        SortBy = rq_suffixFormat q\<rparr>
          in Option.bind (walkCompIdxs E s (Some sfx)
               (\<lambda>st def. case Option.bind st (\<lambda>st. maybeAddDefinition E q s st def) of
                  None \<Rightarrow> (None, False)
                | Some (st, ok) \<Rightarrow> (Some st, \<not> ok)) (Some st)) (\<lambda>st.
             Option.bind st (\<lambda>(idxs, missingTerms).
               if length missingTerms > 0 \<or> length idxs = 0
               then map_option (\<lambda>remains. Inl (QRMissingIndex (Namespace (rq_kc q)) remains))
                      (missing_index E R q missingTerms)
               else Some (Inr idxs)))))"

section \<open>Constraints\<close>

text \<open>\<^verbatim>\<open>peel\<close>; an empty row is a division by zero.\<close>

definition peel :: "constraints \<Rightarrow> string \<Rightarrow> (byte list \<times> constraints) option" where
  "peel c prop =
     (case map_of (c_constraints c) prop of
        Some vals \<Rightarrow>
          (case vals of
             [] \<Rightarrow> None
           | v # vs \<Rightarrow>
               Some (v, c\<lparr>c_constraints := (if vs = [] then al_delete (c_constraints c) prop
                                            else al_set (c_constraints c) prop vs)\<rparr>))
      | None \<Rightarrow>
          let row = al_get (c_original c) prop;
              idx = (case map_of (c_residualMapping c) prop of Some n \<Rightarrow> n | None \<Rightarrow> 0)
          in if row = [] then None
             else Some (row ! (idx mod length row), c\<lparr>c_residualMapping := al_set (c_residualMapping c) prop (idx + 1)\<rparr>))"

definition c_empty :: "constraints \<Rightarrow> bool" where
  "c_empty c \<longleftrightarrow> length (c_constraints c) = 0"

definition calculateConstraints :: "ranges \<Rightarrow> reducedQuery \<Rightarrow> constraints" where
  "calculateConstraints R q =
     (let original = map (\<lambda>(prop, vals). (prop, r_vals R vals)) (rq_eqFilters q) in
      \<lparr>c_constraints = filter (\<lambda>(prop, _). prop \<noteq> ''__ancestor__'') original,
       c_original = original, c_residualMapping = []\<rparr>)"

section \<open>Iterator definitions\<close>

text \<open>The loop of \<^verbatim>\<open>generate\<close> over the columns.\<close>

fun peel_all :: "constraints \<Rightarrow> IndexColumn list \<Rightarrow> (byte list list \<times> constraints) option" where
  "peel_all c [] = Some ([], c)"
| "peel_all c (sb # sbs) =
     Option.bind (peel c (col_Property sb)) (\<lambda>(val, c).
     Option.bind (peel_all c sbs) (\<lambda>(vals, c).
       Some ((if Descending sb then Invert val else val) # vals, c)))"

text \<open>A bound without the bytes that move to the prefix.\<close>

definition chop_bound :: "byte list \<Rightarrow> byte list option \<Rightarrow> byte list option option" where
  "chop_bound chopped b =
     (case b of
        None \<Rightarrow> Some None
      | Some bs \<Rightarrow> if \<not> prefix chopped bs then None else Some (Some (drop (length chopped) bs)))"

text \<open>A nil collection is accepted by the code here and panics when the iterator is made.\<close>

definition generate ::
  "ranges \<Rightarrow> reducedQuery \<Rightarrow> 's indexDefinitionSortable \<Rightarrow> constraints \<Rightarrow> ('s iterDefinition \<times> constraints) option" where
  "generate R q idx c =
     Option.bind (ids_coll idx) (\<lambda>coll.
     Option.bind (peel_all c (ids_eqFilts idx)) (\<lambda>(vals, c).
     let pfx = Join (replicate (length (ids_eqFilts idx)) [] @ vals) in
     case map_of (rq_eqFilters q) ''__ancestor__'' of
       Some ancs \<Rightarrow>
         if \<not> ids_hasAncestor idx then
           if rq_suffixFormat q = [] \<or> length (rq_suffixFormat q) > 2 \<or>
              col_Property (last (rq_suffixFormat q)) \<noteq> ''__key__'' then None
           else
             (case r_vals R ancs of
                [] \<Rightarrow> None
              | anc # _ \<Rightarrow>
                  if anc = [] then None
                  else
                    let chopped = (if Descending (rq_suffixFormat q ! 0) then Invert (butlast anc) else butlast anc)
                    in Option.bind (chop_bound chopped (rq_start q)) (\<lambda>start.
                       Option.bind (chop_bound chopped (rq_end q)) (\<lambda>end.
                         Some (\<lparr>id_c = coll, id_prefix = Join [pfx, chopped], id_prefixLen = length pfx,
                                id_start = bytes_of start, id_end = end\<rparr>, c))))
         else Some (\<lparr>id_c = coll, id_prefix = pfx, id_prefixLen = length pfx,
                     id_start = bytes_of (rq_start q), id_end = rq_end q\<rparr>, c)
     | None \<Rightarrow> Some (\<lparr>id_c = coll, id_prefix = pfx, id_prefixLen = length pfx,
                     id_start = bytes_of (rq_start q), id_end = rq_end q\<rparr>, c)))"

section \<open>Choosing the indexes\<close>

text \<open>
  The candidates are a slice whose elements are removed in place, while \<^verbatim>\<open>bestIdx\<close> points into
  its backing array: \<open>relevantIdxs\<close> is the array and the length of the slice, and \<open>bestIdx\<close>
  is a position of the array, whose content moves when an element before it is removed.
\<close>

definition remove_slot :: "'a list \<Rightarrow> nat \<Rightarrow> nat \<Rightarrow> 'a list" where
  "remove_slot arr len i = take i arr @ drop (Suc i) (take len arr) @ drop (len - 1) arr"

text \<open>The inner loop, from position \<open>i - 1\<close> down to 0.\<close>

fun scan ::
  "constraints \<Rightarrow> 's indexDefinitionSortable list \<Rightarrow> nat \<Rightarrow> nat \<Rightarrow> nat option \<Rightarrow> nat \<Rightarrow>
   's indexDefinitionSortable list \<times> nat \<times> nat option" where
  "scan c arr len 0 bestIdx bestNumEqHits = (arr, len, bestIdx)"
| "scan c arr len (Suc i) bestIdx bestNumEqHits =
     (let idx = arr ! i in
      if length (ids_eqFilts idx) < bestNumEqHits then (arr, len, bestIdx)
      else
        let numHits = (if ids_coll idx \<noteq> None then numEqHits idx c else 0) in
        if numHits > bestNumEqHits then scan c arr len i (Some i) numHits
        else if numHits = 0 then scan c (remove_slot arr len i) (len - 1) i bestIdx bestNumEqHits
        else scan c arr len i bestIdx bestNumEqHits)"

lemma numEqHits_pos:
  "numEqHits i c > 0 \<longleftrightarrow> (\<exists>f \<in> set (ids_eqFilts i). map_of (c_constraints c) (col_Property f) \<noteq> None)"
  by (auto simp: numEqHits_def filter_empty_conv)

definition hit :: "constraints \<Rightarrow> 's indexDefinitionSortable \<Rightarrow> bool" where
  "hit c idx \<longleftrightarrow> ids_coll idx \<noteq> None \<and> numEqHits idx c > 0"

lemma remove_slot_nth:
  "i < len \<Longrightarrow> len \<le> length arr \<Longrightarrow> length (remove_slot arr len i) = length arr \<and>
   (\<forall>k < length arr. remove_slot arr len i ! k =
      (if k < i then arr ! k else if Suc k < len then arr ! Suc k else arr ! k))"
  by (auto simp: remove_slot_def nth_append min_def intro!: arg_cong [where f = "(!) arr"])

text \<open>Whatever has been visited and kept, and whatever \<^verbatim>\<open>bestIdx\<close> points at, is useful.\<close>

definition scan_inv :: "constraints \<Rightarrow> 's indexDefinitionSortable list \<Rightarrow> nat \<Rightarrow> nat \<Rightarrow> nat option \<Rightarrow> bool" where
  "scan_inv c arr len i bestIdx \<longleftrightarrow> i \<le> len \<and> len \<le> length arr \<and>
     (\<forall>k. i \<le> k \<longrightarrow> k < len \<longrightarrow> hit c (arr ! k)) \<and>
     (\<forall>b. bestIdx = Some b \<longrightarrow> i \<le> b \<and> b < length arr \<and> hit c (arr ! b)) \<and>
     (bestIdx = None \<longrightarrow> i = len)"

lemma scan_inv_remove:
  assumes "scan_inv c arr len (Suc i) bestIdx"
  shows "scan_inv c (remove_slot arr len i) (len - 1) i bestIdx"
proof -
  have r: "i < len" "len \<le> length arr" using assms by (simp_all add: scan_inv_def)
  note nth = remove_slot_nth [OF r]
  have "hit c (remove_slot arr len i ! k)" if "i \<le> k" "k < len - 1" for k
    using that assms r nth by (simp add: scan_inv_def)
  moreover have "hit c (remove_slot arr len i ! b)" if "bestIdx = Some b" for b
    using that assms r nth by (auto simp: scan_inv_def)
  ultimately show ?thesis using assms r nth by (auto simp: scan_inv_def)
qed

lemma scan_inv_keep:
  assumes "scan_inv c arr len (Suc i) bestIdx" "hit c (arr ! i)" "best' = Some i \<or> best' = bestIdx \<and> bestIdx \<noteq> None"
  shows "scan_inv c arr len i best'"
proof -
  have "hit c (arr ! k)" if "i \<le> k" "k < len" for k
    using that assms(1,2) by (cases "k = i") (simp_all add: scan_inv_def)
  moreover have "i \<le> b \<and> b < length arr \<and> hit c (arr ! b)" if "best' = Some b" for b
    using that assms by (auto simp: scan_inv_def)
  ultimately show ?thesis using assms(1,3) by (auto simp: scan_inv_def)
qed

lemma scan_hit:
  "scan_inv c arr len i bestIdx \<Longrightarrow> (bestIdx = None \<Longrightarrow> n = 0) \<Longrightarrow> scan c arr len i bestIdx n = (arr', len', best') \<Longrightarrow>
   (best' = Some b \<longrightarrow> b < length arr' \<and> hit c (arr' ! b)) \<and>
   (best' = None \<longrightarrow> bestIdx = None \<and> len' = 0)"
proof (induction c arr len i bestIdx n rule: scan.induct [case_names stop step])
  case (stop c arr len bestIdx n)
  then show ?case by (auto simp: scan_inv_def)
next
  case (step c arr len i bestIdx n)
  let ?idx = "arr ! i"
  let ?n = "if ids_coll ?idx \<noteq> None then numEqHits ?idx c else 0"
  show ?case
  proof (cases "length (ids_eqFilts ?idx) < n")
    case True
    then show ?thesis using step.prems by (auto simp: scan_inv_def)
  next
    case le: False
    consider (better) "?n > n" | (useless) "\<not> ?n > n" "?n = 0" | (kept) "\<not> ?n > n" "?n \<noteq> 0" by blast
    then show ?thesis
    proof cases
      case better
      then have "hit c ?idx" by (auto simp: hit_def split: if_splits)
      then have "scan_inv c arr len i (Some i)" by (rule scan_inv_keep [OF step.prems(1)]) simp
      then show ?thesis using step.IH(1) [OF refl le refl better] step.prems better le by (auto simp: Let_def)
    next
      case useless
      then show ?thesis
        using step.IH(2) [OF refl le refl useless] step.prems le scan_inv_remove [OF step.prems(1)] by (simp add: Let_def)
    next
      case kept
      then have "hit c ?idx" by (auto simp: hit_def split: if_splits)
      moreover have "bestIdx \<noteq> None" using kept step.prems(2) by auto
      ultimately have "scan_inv c arr len i bestIdx" by (intro scan_inv_keep [OF step.prems(1)]) simp_all
      then show ?thesis using step.IH(3) [OF refl le refl kept] step.prems kept le by (simp add: Let_def)
    qed
  qed
qed

text \<open>Every peel of a constrained property uses up a value.\<close>

definition c_size :: "constraints \<Rightarrow> nat" where
  "c_size c = (\<Sum>(_, vals) \<leftarrow> c_constraints c. length vals)"

lemma sum_al_set_less:
  "map_of m k = Some w \<Longrightarrow> f v < (f w :: nat) \<Longrightarrow> (\<Sum>(_, x) \<leftarrow> al_set m k v. f x) < (\<Sum>(_, x) \<leftarrow> m. f x)"
  by (induction m k v rule: al_set.induct) (auto split: if_splits)

lemma sum_al_delete_le: "(\<Sum>(_, x) \<leftarrow> al_delete m k. f x) \<le> (\<Sum>(_, x) \<leftarrow> m. (f x :: nat))"
  by (induction m) (auto simp: al_delete_def)

lemma sum_al_delete_less:
  "map_of m k = Some w \<Longrightarrow> 0 < (f w :: nat) \<Longrightarrow> (\<Sum>(_, x) \<leftarrow> al_delete m k. f x) < (\<Sum>(_, x) \<leftarrow> m. f x)"
proof (induction m)
  case (Cons a m)
  then show ?case using sum_al_delete_le [of f m k] by (cases a) (auto simp: al_delete_def split: if_splits)
qed simp

lemma peel_size:
  "peel c p = Some (v, c') \<Longrightarrow>
     (if map_of (c_constraints c) p = None then c_constraints c' = c_constraints c else c_size c' < c_size c)"
  using sum_al_set_less [of "c_constraints c" p] sum_al_delete_less [of "c_constraints c" p]
  by (auto simp: peel_def c_size_def Let_def split: option.splits list.splits if_splits)

lemma peel_all_size:
  "peel_all c cols = Some (vals, c') \<Longrightarrow>
     (if \<exists>f \<in> set cols. map_of (c_constraints c) (col_Property f) \<noteq> None then c_size c' < c_size c
      else c_constraints c' = c_constraints c)"
proof (induction c cols arbitrary: vals c' rule: peel_all.induct [case_names Nil Cons])
  case (Cons c sb sbs)
  obtain v c1 vs where p: "peel c (col_Property sb) = Some (v, c1)" "peel_all c1 sbs = Some (vs, c')"
    using Cons.prems by (auto simp: bind_eq_Some_conv)
  have le: "c_size c' \<le> c_size c1" using Cons.IH [OF p(1) refl p(2)] by (auto simp: c_size_def split: if_splits)
  show ?case
  proof (cases "map_of (c_constraints c) (col_Property sb) = None")
    case True
    then have "c_constraints c1 = c_constraints c" using peel_size [OF p(1)] by simp
    then show ?thesis using Cons.IH [OF p(1) refl p(2)] True by (auto simp: c_size_def split: if_splits)
  next
    case False
    then show ?thesis using peel_size [OF p(1)] le by auto
  qed
qed simp

lemma generate_peel:
  assumes "generate R q idx c = Some (d, c')"
  obtains vals where "peel_all c (ids_eqFilts idx) = Some (vals, c')"
proof -
  obtain coll vals c1 where *: "ids_coll idx = Some coll" "peel_all c (ids_eqFilts idx) = Some (vals, c1)"
    using assms by (auto simp: generate_def bind_eq_Some_conv)
  then have "c1 = c'"
    using assms unfolding generate_def Let_def
    by (simp split: option.split_asm if_split_asm list.split_asm bind_split_asm prod.split_asm)
  then show ?thesis using * that by blast
qed

text \<open>The main loop; \<open>ErrNullQuery\<close> is \<open>QRNull\<close>, a deadlock is a panic. A slice is never longer
  than its array.\<close>

definition best_index ::
  "constraints \<Rightarrow> 's indexDefinitionSortable list \<Rightarrow> nat \<Rightarrow> bool \<Rightarrow>
   ('s indexDefinitionSortable list \<times> nat \<times> nat option)" where
  "best_index c arr len first =
     (if first then (arr, len, if len = 0 then None else Some (len - 1)) else scan c arr len len None 0)"

function select_loop ::
  "ranges \<Rightarrow> reducedQuery \<Rightarrow> 's indexDefinitionSortable list \<Rightarrow> nat \<Rightarrow> constraints \<Rightarrow> 's iterDefinition list \<Rightarrow>
   (qrerror + 's iterDefinition list) option" where
  "select_loop R q arr len c ret =
     (if c_empty c \<and> ret \<noteq> [] then Some (Inr ret)
      else if len > length arr then None
      else case best_index c arr len (ret = []) of (arr, len, bestIdx) \<Rightarrow>
        (case bestIdx of
           None \<Rightarrow> None
         | Some b \<Rightarrow>
             if ret = [] \<and> ids_coll (arr ! b) = None then Some (Inl QRNull)
             else (case generate R q (arr ! b) c of
                     None \<Rightarrow> None
                   | Some (d, c) \<Rightarrow> select_loop R q arr len c (ret @ [d]))))"
  by pat_completeness auto
termination
proof (relation "measures [\<lambda>(R, q, arr, len, c, ret). if ret = [] then 1 else 0,
    \<lambda>(R, q, arr, len, c, ret). c_size c]", goal_cases wf step)
  case (step R q arr len c ret arr' y len' best b r d c')
  show ?case
  proof (cases "ret = []")
    case False
    then have "scan c arr len len None 0 = (arr', len', Some b)" using step by (simp add: best_index_def)
    moreover have "scan_inv c arr len len None" using step by (simp add: scan_inv_def)
    ultimately have "hit c (arr' ! b)" using scan_hit by blast
    moreover obtain vals where "peel_all c (ids_eqFilts (arr' ! b)) = Some (vals, c')"
      using step generate_peel by metis
    ultimately have "c_size c' < c_size c"
      using peel_all_size [of c "ids_eqFilts (arr' ! b)" vals c'] by (auto simp: hit_def numEqHits_pos)
    then show ?thesis using False by simp
  qed simp
qed simp

declare select_loop.simps [simp del]

definition getIndexes ::
  "'s dsenv \<Rightarrow> ranges \<Rightarrow> reducedQuery \<Rightarrow> 's \<Rightarrow> (qrerror + 's iterDefinition list) option" where
  "getIndexes E R q s =
     Option.bind
       (if rq_kind q = '''' then
          Some (Inr (case ms_GetCollection (e_store E) s (''ents:'' @ Namespace (rq_kc q)) of
                       None \<Rightarrow> []
                     | Some coll \<Rightarrow> [\<lparr>ids_eqFilts = [], ids_coll = Some coll\<rparr>]))
        else getRelevantIndexes E R q s)
       (\<lambda>r. case r of
          Inl e \<Rightarrow> Some (Inl e)
        | Inr relevantIdxs \<Rightarrow>
            if length relevantIdxs = 0 then Some (Inl QRNull)
            else
              let relevantIdxs = ids_sort relevantIdxs in
              select_loop R q relevantIdxs (length relevantIdxs) (calculateConstraints R q) [])"

end
