(* ===== verification/Query_Execution.thy ===== *)
theory Query_Execution
  imports Index_Selection
begin

text \<open>
  \<^verbatim>\<open>impl/memory/datastore_query_execution.go\<close> and the query methods of \<^verbatim>\<open>datastore.go\<close>. The
  user's callback is a function on a state of the user's that also says whether it returns an
  error; of the function for the cursor it is given the result, which may be a panic.
\<close>

type_synonym getCursor = "(qrerror + Cursor) option"
type_synonym ('st, 'e) RawRunCB = "'st \<Rightarrow> Key \<Rightarrow> PropertyMap option \<Rightarrow> getCursor \<Rightarrow> 'st \<times> 'e option"

text \<open>Why an iteration stops early: an error of the callback, or a panic.\<close>

datatype 'e halt = HaltErr 'e | HaltPanic

section \<open>Strategies\<close>

text \<open>A strategy and, beside it, its set of what it has returned so far (\<^verbatim>\<open>dedup\<close> or
  \<^verbatim>\<open>distinct\<close>). A projection lookup is a suffix index and a property name.\<close>

datatype 's queryStrategy =
    keysOnlyStrategy
  | projectionStrategy "(nat \<times> string) list" bool
  | normalStrategy KeyContext "'s \<times> string"

fun suffix_index :: "string \<Rightarrow> IndexColumn list \<Rightarrow> nat option" where
  "suffix_index prop [] = None"
| "suffix_index prop (col # cols) =
     (if col_Property col = prop then Some 0 else map_option Suc (suffix_index prop cols))"

fun projection_lookups :: "IndexColumn list \<Rightarrow> string list \<Rightarrow> (nat \<times> string) list option" where
  "projection_lookups suffixFormat [] = Some []"
| "projection_lookups suffixFormat (prop # proj) =
     Option.bind (suffix_index prop suffixFormat) (\<lambda>j.
       map_option ((#) (j, prop)) (projection_lookups suffixFormat proj))"

definition newProjectionStrategy :: "FinalizedQuery \<Rightarrow> reducedQuery \<Rightarrow> 's queryStrategy option" where
  "newProjectionStrategy fq rq =
     map_option (\<lambda>project. projectionStrategy project (fq_distinct fq))
       (projection_lookups (rq_suffixFormat rq) (fq_project fq))"

text \<open>The nil strategy is \<open>None\<close>.\<close>

definition newNormalStrategy :: "'s dsenv \<Rightarrow> KeyContext \<Rightarrow> 's \<Rightarrow> 's queryStrategy option" where
  "newNormalStrategy E c hd_st =
     map_option (normalStrategy c) (ms_GetCollection (e_store E) hd_st (''ents:'' @ Namespace c))"

definition pickQueryStrategy ::
  "'s dsenv \<Rightarrow> FinalizedQuery \<Rightarrow> reducedQuery \<Rightarrow> 's \<Rightarrow> 's queryStrategy option option" where
  "pickQueryStrategy E fq rq hd_st =
     (if fq_keysOnly fq then Some (Some keysOnlyStrategy)
      else if length (fq_project fq) > 0 then map_option Some (newProjectionStrategy fq rq)
      else Some (newNormalStrategy E (rq_kc rq) hd_st))"

text \<open>The loop of \<^verbatim>\<open>projectionStrategy.handle\<close>: the raw values and the projected map.\<close>

fun project_row ::
  "byte list list \<Rightarrow> Property list \<Rightarrow> byte list list \<Rightarrow> PropertyMap \<Rightarrow> (nat \<times> string) list \<Rightarrow>
   (byte list list \<times> PropertyMap) option" where
  "project_row rawData decodedProps projectedRaw pmap [] = Some (projectedRaw, pmap)"
| "project_row rawData decodedProps projectedRaw pmap ((j, name) # project) =
     (if j < length rawData \<and> j < length decodedProps
      then project_row rawData decodedProps (projectedRaw @ [rawData ! j])
             (al_set pmap name (PSingle (decodedProps ! j))) project
      else None)"

definition handle ::
  "'s dsenv \<Rightarrow> 's queryStrategy \<Rightarrow> ('st, 'e) RawRunCB \<Rightarrow> byte list list \<times> 'st \<Rightarrow> byte list list \<Rightarrow>
   Property list \<Rightarrow> Key \<Rightarrow> getCursor \<Rightarrow> (byte list list \<times> 'st) \<times> 'e halt option" where
  "handle E strategy cb s rawData decodedProps key gc =
     (case s of (seen, st) \<Rightarrow>
        let call = (\<lambda>seen pm. case cb st key pm gc of (st, err) \<Rightarrow> ((seen, st), map_option HaltErr err)) in
        case strategy of
          keysOnlyStrategy \<Rightarrow>
            if rawData = [] then (s, Some HaltPanic)
            else if last rawData \<in> set seen then (s, None)
            else call (last rawData # seen) None
        | projectionStrategy project dist \<Rightarrow>
            (case project_row rawData decodedProps [] [] project of
               None \<Rightarrow> (s, Some HaltPanic)
             | Some (projectedRaw, pmap) \<Rightarrow>
                 if dist \<and> length project > length decodedProps then (s, Some HaltPanic)
                 else if dist \<and> Join projectedRaw \<in> set seen then (s, None)
                 else call (if dist then Join projectedRaw # seen else seen) (Some pmap))
        | normalStrategy c hd_st \<Rightarrow>
            if rawData = [] then (s, Some HaltPanic)
            else if last rawData \<in> set seen then (s, None)
            else
              (case tc_Get (e_store E) (fst hd_st) (snd hd_st) (last rawData) of
                 None \<Rightarrow> ((last rawData # seen, st), None)
               | Some rawEnt \<Rightarrow>
                   (case ReadPropertyMap (e_cmpbin E) WithoutContext c rawEnt of
                      Inl _ \<Rightarrow> (s, Some HaltPanic)
                    | Inr (pm, _) \<Rightarrow> call (last rawData # seen) (Some pm))))"

section \<open>Rows\<close>

text \<open>
  The loop of \<^verbatim>\<open>parseSuffix\<close> from column \<open>i\<close> on. The inverting buffer shows the reader the
  inverted bytes of what is left. A negative count is no limit; columns beyond it stay zero.
\<close>

fun parse_columns ::
  "'s dsenv \<Rightarrow> KeyContext \<Rightarrow> IndexColumn list \<Rightarrow> byte list \<Rightarrow> int \<Rightarrow> nat \<Rightarrow>
   (byte list list \<times> Property list) option" where
  "parse_columns E c [] sfx cnt i = Some ([], [])"
| "parse_columns E c (col # cols) sfx cnt i =
     (if cnt \<ge> 0 \<and> int i \<ge> cnt
      then Some (replicate (Suc (length cols)) [], replicate (Suc (length cols)) zero_Property)
      else
        let needInvert = Descending col in
        (case ReadProperty (e_cmpbin E) WithoutContext c (if needInvert then Invert sfx else sfx) of
           Inl _ \<Rightarrow> None
         | Inr (p, rest) \<Rightarrow>
             let offset = length sfx - length rest;
                 raw = take offset sfx;
                 raw = (if needInvert then Invert raw else raw)
             in map_option (\<lambda>(raws, ps). (raw # raws, p # ps))
                  (parse_columns E c cols (drop offset sfx) cnt (i + 1))))"

definition parseSuffix ::
  "'s dsenv \<Rightarrow> string \<Rightarrow> string \<Rightarrow> IndexColumn list \<Rightarrow> byte list \<Rightarrow> int \<Rightarrow>
   (byte list list \<times> Property list) option" where
  "parseSuffix E a ns suffixFormat sfx cnt =
     parse_columns E (MkKeyContext a ns) suffixFormat sfx cnt 0"

text \<open>\<^verbatim>\<open>getCursorFn\<close>.\<close>

definition cursorPrefix :: "'s dsenv \<Rightarrow> IndexColumn list \<Rightarrow> byte list" where
  "cursorPrefix E suffixFormat =
     wUint (e_cmpbin E) (of_nat (length suffixFormat)) @
     concat (map (WriteIndexColumn (e_cmpbin E)) suffixFormat)"

definition getCursorFn :: "'s dsenv \<Rightarrow> IndexColumn list \<Rightarrow> byte list \<Rightarrow> getCursor" where
  "getCursorFn E suffixFormat sfx =
     map_option (\<lambda>bs. Inr (queryCursor (Join [cursorPrefix E suffixFormat, bs]))) (q_increment sfx)"

text \<open>The callback that \<^verbatim>\<open>executeQuery\<close> gives to \<^verbatim>\<open>multiIterate\<close>.\<close>

definition exec_row ::
  "'s dsenv \<Rightarrow> KeyContext \<Rightarrow> reducedQuery \<Rightarrow> 's queryStrategy \<Rightarrow> bool \<Rightarrow> ('st, 'e) RawRunCB \<Rightarrow>
   int32 \<times> int32 \<times> byte list list \<times> 'st \<Rightarrow> byte list \<Rightarrow> (int32 \<times> int32 \<times> byte list list \<times> 'st) \<times> 'e halt option" where
  "exec_row E c rq strategy hasLimit cb s sfx =
     (case s of (offset, limit, s) \<Rightarrow>
        if sint offset > 0 then ((offset - 1, limit, s), None)
        else if hasLimit \<and> sint limit \<le> 0 then ((offset, limit, s), None)
        else
          let limit = (if hasLimit then limit - 1 else limit) in
          (case parseSuffix E (AppID c) (Namespace c) (rq_suffixFormat rq) sfx (- 1) of
             None \<Rightarrow> ((offset, limit, s), Some HaltPanic)
           | Some (rawData, decodedProps) \<Rightarrow>
               if decodedProps = [] then ((offset, limit, s), Some HaltPanic)
               else (case pvalue (last decodedProps) of
                  PKeyV key \<Rightarrow>
                    (case handle E strategy cb s rawData decodedProps key
                            (getCursorFn E (rq_suffixFormat rq) sfx) of
                       (s, err) \<Rightarrow> ((offset, limit, s), err))
                | _ \<Rightarrow> ((offset, limit, s), Some HaltPanic))))"

section \<open>Queries\<close>

text \<open>The loop of \<^verbatim>\<open>executeNamespaceQuery\<close>.\<close>

fun namespace_rows ::
  "KeyContext \<Rightarrow> ('st, 'e) RawRunCB \<Rightarrow> int32 option \<Rightarrow> int32 option \<Rightarrow> 'st \<Rightarrow> string list \<Rightarrow> 'st \<times> 'e option" where
  "namespace_rows c cb offset limit st [] = (st, None)"
| "namespace_rows c cb offset limit st (ns # nss) =
     (case offset of
        Some ofs \<Rightarrow>
          if sint ofs > 0 then namespace_rows c cb (Some (ofs - 1)) limit st nss
          else namespace_rows c cb None limit st (ns # nss)
      | None \<Rightarrow>
          if (case limit of Some l \<Rightarrow> sint l \<le> 0 | None \<Rightarrow> False) then (st, None)
          else
            let k = (if ns = '''' then NewKey c ''__namespace__'' '''' 1 None
                     else NewKey c ''__namespace__'' ns 0 None)
            in case cb st k None (Some (Inl QRNamespaceCursor)) of
                 (st, Some err) \<Rightarrow> (st, Some err)
               | (st, None) \<Rightarrow> namespace_rows c cb None (map_option (\<lambda>l. l - 1) limit) st nss)"

definition executeNamespaceQuery ::
  "'s dsenv \<Rightarrow> FinalizedQuery \<Rightarrow> KeyContext \<Rightarrow> 's \<Rightarrow> ('st, 'e) RawRunCB \<Rightarrow> 'st \<Rightarrow> 'st \<times> (qrerror + 'e) option" where
  "executeNamespaceQuery E fq c hd_st cb st =
     (if length (fq_eqFilts fq) > 0 \<or> length (fq_project fq) > 0 \<or> length (fq_orders fq) > 1 then (st, None)
      else if \<not> (fq_ineqFiltProp fq = '''' \<or> fq_ineqFiltProp fq = ''__key__'') then (st, None)
      else if \<not> (fq_start fq = None \<and> fq_end fq = None) then (st, Some (Inl QRNamespaceCursor))
      else apsnd (map_option Inr)
        (namespace_rows (c\<lparr>Namespace := ''''\<rparr>) cb (fq_offset fq) (fq_limit fq) st (namespaces (e_store E) hd_st)))"

text \<open>How an iteration ends.\<close>

definition run_result ::
  "((int32 \<times> int32 \<times> byte list list \<times> 'st) \<times> 'e halt option) \<Rightarrow> ('st \<times> (qrerror + 'e) option) option" where
  "run_result r =
     (case r of ((_, _, _, st), err) \<Rightarrow>
        (case err of
           None \<Rightarrow> Some (st, None)
         | Some (HaltErr e) \<Rightarrow> Some (st, Some (Inr e))
         | Some HaltPanic \<Rightarrow> None))"

definition executeQuery ::
  "'s dsenv \<Rightarrow> ranges \<Rightarrow> FinalizedQuery \<Rightarrow> KeyContext \<Rightarrow> bool \<Rightarrow> 's \<Rightarrow> 's \<Rightarrow> ('st, 'e) RawRunCB \<Rightarrow> 'st \<Rightarrow>
   ('st \<times> (qrerror + 'e) option) option" where
  "executeQuery E R fq c isTxn idx hd_st cb st =
     Option.bind (reduce E fq c isTxn) (\<lambda>r.
     case r of
       Inl QRNull \<Rightarrow> Some (st, None)
     | Inl err \<Rightarrow> Some (st, Some (Inl err))
     | Inr rq \<Rightarrow>
         if rq_kind rq = ''__namespace__'' then Some (executeNamespaceQuery E fq c hd_st cb st)
         else
           Option.bind (getIndexes E R rq idx) (\<lambda>r.
           case r of
             Inl QRNull \<Rightarrow> Some (st, None)
           | Inl err \<Rightarrow> Some (st, Some (Inl err))
           | Inr idxs \<Rightarrow>
               Option.bind (pickQueryStrategy E fq rq hd_st) (\<lambda>strategy.
               case strategy of
                 None \<Rightarrow> Some (st, None)
               | Some strategy \<Rightarrow>
                   let (offset, _) = FQ_Offset fq; (limit, hasLimit) = FQ_Limit fq in
                   Option.bind (multiIterate (e_store E) idxs (exec_row E c rq strategy hasLimit cb)
                     (offset, limit, [], st)) run_result)))"

text \<open>\<^verbatim>\<open>countQuery\<close>; the counter is an \<^verbatim>\<open>int64\<close>.\<close>

definition countQuery ::
  "'s dsenv \<Rightarrow> ranges \<Rightarrow> FinalizedQuery \<Rightarrow> KeyContext \<Rightarrow> bool \<Rightarrow> 's \<Rightarrow> 's \<Rightarrow> (int64 \<times> qrerror option) option" where
  "countQuery E R fq c isTxn idx hd_st =
     (case (if length (fq_project fq) = 0 \<and> \<not> fq_keysOnly fq
            then Finalize (KeysOnly (fq_original fq) True) else Inr fq) of
        Inl e \<Rightarrow> Some (0, Some (QRFinalize e))
      | Inr fq \<Rightarrow>
          map_option (apsnd (map_option (\<lambda>err. case err of Inl e \<Rightarrow> e | Inr e \<Rightarrow> e)))
            (executeQuery E R fq c isTxn idx hd_st (\<lambda>n _ _ _. (n + 1, None)) 0))"

section \<open>The service\<close>

definition stripSpecialPropsRunCB :: "'s dataStoreData \<Rightarrow> ('st, 'e) RawRunCB \<Rightarrow> ('st, 'e) RawRunCB" where
  "stripSpecialPropsRunCB d cb =
     (if showSpecialProps d then cb else (\<lambda>st key val gc. cb st key (map_option stripSpecialProps val) gc))"

text \<open>The missing index an error carries, for \<^verbatim>\<open>maybeAutoIndex\<close>.\<close>

definition missing_of :: "qrerror option \<Rightarrow> IndexDefinition option" where
  "missing_of err = (case err of Some (QRMissingIndex _ idx) \<Rightarrow> Some idx | _ \<Rightarrow> None)"

definition qr_err :: "(qrerror + 'e) option \<Rightarrow> qrerror option" where
  "qr_err err = (case err of Some (Inl e) \<Rightarrow> Some e | _ \<Rightarrow> None)"

definition ds_Run ::
  "'s dsenv \<Rightarrow> ranges \<Rightarrow> 's dataStoreData \<Rightarrow> KeyContext \<Rightarrow> FinalizedQuery \<Rightarrow> ('st, 'e) RawRunCB \<Rightarrow> 'st \<Rightarrow>
   (('st \<times> (qrerror + 'e) option) \<times> 's dataStoreData) option" where
  "ds_Run E R d c fq cb st =
     (let cb = stripSpecialPropsRunCB d cb; consistent = \<not> fq_eventuallyConsistent fq;
          (idx, hd_st) = getQuerySnaps E d consistent
      in Option.bind (executeQuery E R fq c False idx hd_st cb st) (\<lambda>(st, err).
         Option.bind (maybeAutoIndex E d (missing_of (qr_err err))) (\<lambda>(again, d).
           if again then
             let (idx, hd_st) = getQuerySnaps E d consistent in
             map_option (\<lambda>r. (r, d)) (executeQuery E R fq c False idx hd_st cb st)
           else Some ((st, err), d))))"

definition ds_Count ::
  "'s dsenv \<Rightarrow> ranges \<Rightarrow> 's dataStoreData \<Rightarrow> KeyContext \<Rightarrow> FinalizedQuery \<Rightarrow>
   ((int64 \<times> qrerror option) \<times> 's dataStoreData) option" where
  "ds_Count E R d c fq =
     (let consistent = \<not> fq_eventuallyConsistent fq; (idx, hd_st) = getQuerySnaps E d consistent
      in Option.bind (countQuery E R fq c False idx hd_st) (\<lambda>(n, err).
         Option.bind (maybeAutoIndex E d (missing_of err)) (\<lambda>(again, d).
           if again then
             let (idx, hd_st) = getQuerySnaps E d consistent in
             map_option (\<lambda>r. (r, d)) (countQuery E R fq c False idx hd_st)
           else Some ((n, err), d))))"

text \<open>\<^verbatim>\<open>AddIndexes\<close> panics on an index that is not compound.\<close>

definition ds_AddIndexes :: "'s dsenv \<Rightarrow> 's dataStoreData \<Rightarrow> IndexDefinition list \<Rightarrow> 's dataStoreData option" where
  "ds_AddIndexes E d idxs =
     (if length idxs = 0 then Some d
      else if \<not> list_all Compound idxs then None
      else ds_addIndexes E d idxs)"

text \<open>Queries of a transaction see its snapshot and take no part in automatic indexing.\<close>

definition txn_Run ::
  "'s dsenv \<Rightarrow> ranges \<Rightarrow> 's dataStoreData \<Rightarrow> 's txnDataStoreData \<Rightarrow> KeyContext \<Rightarrow> FinalizedQuery \<Rightarrow>
   ('st, 'e) RawRunCB \<Rightarrow> 'st \<Rightarrow> ('st \<times> (qrerror + 'e) option) option" where
  "txn_Run E R d td c q cb st =
     executeQuery E R q c True (td_snap td) (td_snap td) (stripSpecialPropsRunCB d cb) st"

definition txn_Count ::
  "'s dsenv \<Rightarrow> ranges \<Rightarrow> 's txnDataStoreData \<Rightarrow> KeyContext \<Rightarrow> FinalizedQuery \<Rightarrow> (int64 \<times> qrerror option) option" where
  "txn_Count E R td c fq = countQuery E R fq c True (td_snap td) (td_snap td)"

end
