(* ===== verification/Selection_Props.thy ===== *)
theory Selection_Props
  imports Index_Selection
begin

text \<open>
  Index selection makes progress: the loop of \<^verbatim>\<open>getIndexes\<close> ends, and the ranges it returns
  use every value of every equality filter, exactly when each filter has a candidate index
  whose table exists.
\<close>

section \<open>Peeling constraints\<close>

definition c_ok :: "constraints \<Rightarrow> bool" where
  "c_ok c \<longleftrightarrow> (\<forall>p vs. map_of (c_constraints c) p = Some vs \<longrightarrow> vs \<noteq> [] \<and> set vs \<subseteq> set (al_get (c_original c) p))"

text \<open>The values that no range uses yet.\<close>

definition pending :: "constraints \<Rightarrow> (string \<times> byte list) set" where
  "pending c = {(p, v). \<exists>vs. map_of (c_constraints c) p = Some vs \<and> v \<in> set vs}"

lemma c_empty_pending: "c_ok c \<Longrightarrow> c_empty c \<longleftrightarrow> pending c = {}"
proof -
  assume ok: "c_ok c"
  have "pending c \<noteq> {}" if "c_constraints c = (p, vs) # rest" for p vs rest
  proof -
    have "map_of (c_constraints c) p = Some vs" using that by simp
    moreover from this have "vs \<noteq> []" using ok by (auto simp: c_ok_def)
    ultimately show ?thesis by (auto simp: pending_def neq_Nil_conv) (metis list.set_intros(1))
  qed
  then show ?thesis by (cases "c_constraints c") (auto simp: c_empty_def pending_def)
qed

lemma peel_spec:
  assumes ok: "c_ok c" and p: "al_get (c_original c) p \<noteq> []"
  obtains v c' where "peel c p = Some (v, c')" "c_ok c'" "c_original c' = c_original c"
    "v \<in> set (al_get (c_original c) p)" "pending c \<subseteq> insert (p, v) (pending c')" "pending c' \<subseteq> pending c"
    "\<forall>q. q \<noteq> p \<longrightarrow> map_of (c_constraints c') q = map_of (c_constraints c) q"
proof (cases "map_of (c_constraints c) p")
  case None
  let ?row = "al_get (c_original c) p" and ?n = "case map_of (c_residualMapping c) p of Some n \<Rightarrow> n | None \<Rightarrow> 0"
  have "?row ! (?n mod length ?row) \<in> set ?row" using p by simp
  then show ?thesis
    using None p ok by (intro that [of "?row ! (?n mod length ?row)"
        "c\<lparr>c_residualMapping := al_set (c_residualMapping c) p (?n + 1)\<rparr>"])
      (auto simp: peel_def Let_def c_ok_def pending_def)
next
  case (Some vals)
  then have "vals \<noteq> []" and sub: "set vals \<subseteq> set (al_get (c_original c) p)" using ok by (auto simp: c_ok_def)
  then obtain v vs where vals: "vals = v # vs" "set vals \<subseteq> set (al_get (c_original c) p)" by (cases vals) auto
  let ?c = "c\<lparr>c_constraints := (if vs = [] then al_delete (c_constraints c) p else al_set (c_constraints c) p vs)\<rparr>"
  have m: "map_of (c_constraints ?c) = (map_of (c_constraints c))(p := if vs = [] then None else Some vs)"
    by (simp add: map_of_al_delete map_of_al_set)
  have "peel c p = Some (v, ?c)" using Some vals by (simp add: peel_def)
  moreover have "c_ok ?c" using ok vals m by (auto simp: c_ok_def)
  moreover have "pending c \<subseteq> insert (p, v) (pending ?c)" "pending ?c \<subseteq> pending c"
    using m Some vals by (auto simp: pending_def split: if_splits)
  ultimately show ?thesis using m vals by (intro that [of v ?c]) auto
qed

text \<open>The bytes of a prefix whose columns have the values \<open>cvs\<close>.\<close>

definition column_join :: "(IndexColumn \<times> byte list) list \<Rightarrow> byte list" where
  "column_join cvs = concat (map (\<lambda>(col, v). column_bytes (Descending col) v) cvs)"

definition col_values :: "(IndexColumn \<times> byte list) list \<Rightarrow> (string \<times> byte list) set" where
  "col_values cvs = (\<lambda>(col, v). (col_Property col, v)) ` set cvs"

lemma peel_all_spec:
  assumes "c_ok c" "\<forall>f \<in> set cols. al_get (c_original c) (col_Property f) \<noteq> []"
  shows "\<exists>cvs c'. peel_all c cols = Some (map (\<lambda>(col, v). column_bytes (Descending col) v) cvs, c') \<and> map fst cvs = cols \<and>
    c_ok c' \<and> c_original c' = c_original c \<and> (\<forall>(p, v) \<in> col_values cvs. v \<in> set (al_get (c_original c) p)) \<and>
    pending c \<subseteq> col_values cvs \<union> pending c' \<and> pending c' \<subseteq> pending c \<and>
    (\<forall>p. p \<notin> col_Property ` set cols \<longrightarrow> map_of (c_constraints c') p = map_of (c_constraints c) p)"
  using assms
proof (induction cols arbitrary: c)
  case Nil
  then show ?case by (auto intro!: exI [of _ "[]"] simp: col_values_def)
next
  case (Cons col cols)
  have "al_get (c_original c) (col_Property col) \<noteq> []" using Cons.prems(2) by simp
  then obtain v c1 where p: "peel c (col_Property col) = Some (v, c1)" "c_ok c1" "c_original c1 = c_original c"
    "v \<in> set (al_get (c_original c) (col_Property col))" "pending c \<subseteq> insert (col_Property col, v) (pending c1)"
    "pending c1 \<subseteq> pending c" "\<forall>q. q \<noteq> col_Property col \<longrightarrow> map_of (c_constraints c1) q = map_of (c_constraints c) q"
    using peel_spec [OF Cons.prems(1)] by blast
  obtain cvs c' where q: "peel_all c1 cols = Some (map (\<lambda>(col, v). column_bytes (Descending col) v) cvs, c')" "map fst cvs = cols"
    "c_ok c'" "c_original c' = c_original c1" "\<forall>(p, v) \<in> col_values cvs. v \<in> set (al_get (c_original c1) p)"
    "pending c1 \<subseteq> col_values cvs \<union> pending c'" "pending c' \<subseteq> pending c1"
    "\<forall>p. p \<notin> col_Property ` set cols \<longrightarrow> map_of (c_constraints c') p = map_of (c_constraints c1) p"
    using Cons.IH [OF p(2)] Cons.prems(2) p(3) by auto
  have "col_values ((col, v) # cvs) = insert (col_Property col, v) (col_values cvs)" by (simp add: col_values_def)
  then show ?case
    using p q by (intro exI [of _ "(col, v) # cvs"] exI [of _ c']) (auto simp: column_bytes_def)
qed

section \<open>The candidates in the slice\<close>

lemma take_remove_slot:
  "i < len \<Longrightarrow> len \<le> length arr \<Longrightarrow>
   take (len - 1) (remove_slot arr len i) = take i arr @ drop (Suc i) (take len arr)"
  by (cases "i = len - 1") (auto simp: remove_slot_def min_def)

lemma set_take_split: "i < len \<Longrightarrow> len \<le> length arr \<Longrightarrow>
  set (take len arr) = insert (arr ! i) (set (take i arr @ drop (Suc i) (take len arr)))"
proof -
  assume r: "i < len" "len \<le> length arr"
  then have "take len arr = take i arr @ arr ! i # drop (Suc i) (take len arr)"
    using id_take_nth_drop [of i "take len arr"] by (simp add: min_def)
  then show ?thesis by (metis list.simps(15) set_append sup_commute Un_insert_right Un_insert_left)
qed

text \<open>Only useless candidates leave the slice, and \<^verbatim>\<open>bestIdx\<close> points at one of the candidates.\<close>

definition slice_inv ::
  "constraints \<Rightarrow> 's indexDefinitionSortable set \<Rightarrow> 's indexDefinitionSortable list \<Rightarrow> nat \<Rightarrow> nat option \<Rightarrow> bool" where
  "slice_inv c S arr len best \<longleftrightarrow> len \<le> length arr \<and> set (take len arr) \<subseteq> S \<and> {x \<in> S. hit c x} \<subseteq> set (take len arr) \<and>
     (\<forall>b. best = Some b \<longrightarrow> b < length arr \<and> arr ! b \<in> S)"

lemma slice_nth: "slice_inv c S arr len best \<Longrightarrow> i < len \<Longrightarrow> arr ! i \<in> S"
proof -
  assume *: "slice_inv c S arr len best" "i < len"
  then have "take len arr ! i \<in> set (take len arr)" by (intro nth_mem) (simp add: slice_inv_def)
  then show ?thesis using * by (auto simp: slice_inv_def)
qed

lemma slice_inv_remove:
  assumes "slice_inv c S arr len best" "i < len" "\<not> hit c (arr ! i)"
  shows "slice_inv c S (remove_slot arr len i) (len - 1) best"
proof -
  have r: "len \<le> length arr" using assms(1) by (simp add: slice_inv_def)
  note nth = remove_slot_nth [OF assms(2) r] and tk = take_remove_slot [OF assms(2) r]
  note split = set_take_split [OF assms(2) r]
  have sub: "{x \<in> S. hit c x} \<subseteq> set (take len arr)" "set (take len arr) \<subseteq> S"
    using assms(1) [unfolded slice_inv_def] by (simp_all only:)
  have "{x \<in> S. hit c x} \<subseteq> set (take i arr @ drop (Suc i) (take len arr))"
    using sub(1) assms(3) unfolding split by auto
  moreover have "remove_slot arr len i ! b \<in> S" if "best = Some b" for b
  proof -
    have b: "b < length arr" "arr ! b \<in> S" using that assms(1) by (simp_all add: slice_inv_def)
    have "Suc b < len \<Longrightarrow> arr ! Suc b \<in> S" by (rule slice_nth [OF assms(1)])
    then show ?thesis using b nth by simp
  qed
  moreover have "set (take i arr @ drop (Suc i) (take len arr)) \<subseteq> S" using sub(2) unfolding split by auto
  moreover have "len - 1 \<le> length arr" "\<forall>b. best = Some b \<longrightarrow> b < length arr" using assms(1) r by (simp_all add: slice_inv_def)
  ultimately show ?thesis unfolding slice_inv_def tk conjunct1 [OF nth] by (intro conjI allI impI) simp_all
qed

lemma scan_slice:
  "scan c arr len i best n = (arr', len', best') \<Longrightarrow> i \<le> len \<Longrightarrow> slice_inv c S arr len best \<Longrightarrow> slice_inv c S arr' len' best'"
proof (induction c arr len i best n rule: scan.induct [case_names stop step])
  case (step c arr len i best n)
  let ?idx = "arr ! i"
  let ?n = "if ids_coll ?idx \<noteq> None then numEqHits ?idx c else 0"
  have "?idx \<in> S" using slice_nth [OF step.prems(3)] step.prems(2) by simp
  then have some: "slice_inv c S arr len (Some i)" using step.prems(2,3) by (simp add: slice_inv_def)
  show ?case
  proof (cases "length (ids_eqFilts ?idx) < n")
    case True
    then show ?thesis using step.prems by simp
  next
    case le: False
    consider (better) "?n > n" | (useless) "\<not> ?n > n" "?n = 0" | (kept) "\<not> ?n > n" "?n \<noteq> 0" by blast
    then show ?thesis
    proof cases
      case better
      then show ?thesis using step.IH(1) [OF refl le refl better _ _ some] step.prems le by (simp add: Let_def)
    next
      case useless
      have "\<not> hit c ?idx" using useless by (auto simp: hit_def)
      then have "slice_inv c S (remove_slot arr len i) (len - 1) best"
        using step.prems(2,3) by (intro slice_inv_remove) simp_all
      then show ?thesis using step.IH(2) [OF refl le refl useless] step.prems le useless by (simp add: Let_def)
    next
      case kept
      then show ?thesis using step.IH(3) [OF refl le refl kept] step.prems le by (simp add: Let_def)
    qed
  qed
qed simp

section \<open>The loop\<close>

text \<open>The range of a candidate whose columns have the values \<open>cvs\<close>, for a query without ancestor.\<close>

definition range_for :: "reducedQuery \<Rightarrow> 's indexDefinitionSortable set \<Rightarrow> 's iterDefinition \<Rightarrow> (IndexColumn \<times> byte list) list \<Rightarrow> bool" where
  "range_for q S d cvs \<longleftrightarrow>
     (\<exists>x \<in> S. ids_coll x = Some (id_c d) \<and> map fst cvs = ids_eqFilts x) \<and>
     (\<forall>(p, v) \<in> col_values cvs. v \<in> set (al_get (rq_eqFilters q) p)) \<and>
     id_prefix d = column_join cvs \<and> id_prefixLen d = length (id_prefix d) \<and>
     id_start d = bytes_of (rq_start q) \<and> id_end d = rq_end q"

definition no_ancestor :: "reducedQuery \<Rightarrow> bool" where
  "no_ancestor q \<longleftrightarrow> map_of (rq_eqFilters q) ''__ancestor__'' = None"

definition cols_of :: "'s indexDefinitionSortable \<Rightarrow> string set" where
  "cols_of x = col_Property ` set (ids_eqFilts x)"

lemma hit_iff: "hit c x \<longleftrightarrow> ids_coll x \<noteq> None \<and> cols_of x \<inter> dom (map_of (c_constraints c)) \<noteq> {}"
  unfolding hit_def numEqHits_pos cols_of_def by auto

lemma pending_dom: "c_ok c \<Longrightarrow> fst ` pending c = dom (map_of (c_constraints c))"
  by (force simp: pending_def c_ok_def neq_Nil_conv dom_def)

definition orig_ok :: "reducedQuery \<Rightarrow> constraints \<Rightarrow> bool" where
  "orig_ok q c \<longleftrightarrow> (\<forall>p. set (al_get (c_original c) p) = set (al_get (rq_eqFilters q) p))"

lemma generate_spec:
  assumes "no_ancestor q" "c_ok c" "orig_ok q c" "x \<in> S" "ids_coll x \<noteq> None"
    "\<forall>p \<in> cols_of x. al_get (rq_eqFilters q) p \<noteq> []"
  obtains d cvs c' where "generate R q x c = Some (d, c')" "range_for q S d cvs" "map fst cvs = ids_eqFilts x" "c_ok c'" "orig_ok q c'"
    "pending c \<subseteq> col_values cvs \<union> pending c'" "pending c' \<subseteq> pending c"
    "\<forall>p. p \<notin> cols_of x \<longrightarrow> map_of (c_constraints c') p = map_of (c_constraints c) p"
proof -
  have "\<forall>f \<in> set (ids_eqFilts x). al_get (c_original c) (col_Property f) \<noteq> []"
    using assms(3,6) by (metis cols_of_def imageI orig_ok_def set_empty)
  from peel_all_spec [OF assms(2) this]
  obtain cvs c' where p: "peel_all c (ids_eqFilts x) = Some (map (\<lambda>(col, v). column_bytes (Descending col) v) cvs, c')"
    "map fst cvs = ids_eqFilts x" "c_ok c'" "c_original c' = c_original c"
    "\<forall>(p, v) \<in> col_values cvs. v \<in> set (al_get (c_original c) p)" "pending c \<subseteq> col_values cvs \<union> pending c'"
    "pending c' \<subseteq> pending c" "\<forall>p. p \<notin> cols_of x \<longrightarrow> map_of (c_constraints c') p = map_of (c_constraints c) p"
    unfolding cols_of_def by blast
  obtain coll where coll: "ids_coll x = Some coll" using assms(5) by blast
  let ?d = "\<lparr>id_c = coll, id_prefix = column_join cvs, id_prefixLen = length (column_join cvs),
      id_start = bytes_of (rq_start q), id_end = rq_end q\<rparr>"
  have j: "Join (replicate n [] @ map (\<lambda>(col, v). column_bytes (Descending col) v) cvs) = column_join cvs" for n
    by (simp add: Join_def column_join_def)
  have "generate R q x c = Some (?d, c')"
    using assms(1) coll p(1) j by (simp add: generate_def no_ancestor_def Let_def)
  moreover have "range_for q S ?d cvs"
    using p(2,5) assms(3,4) coll by (auto simp: range_for_def orig_ok_def)
  ultimately show ?thesis using that p assms(3) by (auto simp: orig_ok_def)
qed

lemma select_loop_spec:
  assumes "no_ancestor q" "\<forall>x \<in> S. \<forall>p \<in> cols_of x. al_get (rq_eqFilters q) p \<noteq> []"
  shows "ret \<noteq> [] \<Longrightarrow> c_ok c \<Longrightarrow> orig_ok q c \<Longrightarrow> slice_inv c S arr len None \<Longrightarrow>
    (if \<forall>p \<in> dom (map_of (c_constraints c)). \<exists>x \<in> S. ids_coll x \<noteq> None \<and> p \<in> cols_of x
     then \<exists>ds cvss. select_loop R q arr len c ret = Some (Inr (ret @ ds)) \<and> list_all2 (range_for q S) ds cvss \<and>
            pending c \<subseteq> \<Union> (col_values ` set cvss)
     else select_loop R q arr len c ret = None)"
  using assms
proof (induction R q arr len c ret rule: select_loop.induct [case_names step])
  case (step R q arr len c ret)
  let ?cov = "\<lambda>c. \<forall>p \<in> dom (map_of (c_constraints c)). \<exists>x \<in> S. ids_coll x \<noteq> None \<and> p \<in> cols_of x"
  show ?case
  proof (cases "c_empty c")
    case True
    then have "pending c = {}" "map_of (c_constraints c) = Map.empty" using step.prems c_empty_pending by (auto simp: c_empty_def)
    then show ?thesis
      using step.prems True by (subst (1 2) select_loop.simps) (auto intro!: exI [of _ "[]"])
  next
    case ne: False
    have len: "\<not> len > length arr" using step.prems(4) by (simp add: slice_inv_def)
    obtain arr' len' best where sc: "scan c arr len len None 0 = (arr', len', best)" by (metis prod_cases3)
    have inv: "scan_inv c arr len len None" using len by (simp add: scan_inv_def)
    have slice: "slice_inv c S arr' len' best" by (rule scan_slice [OF sc]) (use step.prems(4) in simp_all)
    have bi: "best_index c arr len (ret = []) = (arr', len', best)" using sc step.prems(1) by (simp add: best_index_def)
    show ?thesis
    proof (cases best)
      case None
      then have "len' = 0" using scan_hit [OF inv _ sc] by simp
      then have "\<forall>x \<in> S. \<not> hit c x" using slice by (auto simp: slice_inv_def)
      moreover have "dom (map_of (c_constraints c)) \<noteq> {}" using ne by (cases "c_constraints c") (auto simp: c_empty_def)
      ultimately have "\<not> ?cov c" unfolding hit_iff by blast
      then show ?thesis using ne len bi None step.prems(1) by (subst (1 2) select_loop.simps) simp
    next
      case (Some b)
      have hit: "hit c (arr' ! b)" and S: "arr' ! b \<in> S" using scan_hit [OF inv _ sc] Some slice by (auto simp: slice_inv_def)
      let ?x = "arr' ! b"
      have coll: "ids_coll ?x \<noteq> None" using hit by (simp add: hit_def)
      obtain d cvs c' where g: "generate R q ?x c = Some (d, c')" "range_for q S d cvs" "map fst cvs = ids_eqFilts ?x" "c_ok c'" "orig_ok q c'"
        "pending c \<subseteq> col_values cvs \<union> pending c'" "pending c' \<subseteq> pending c"
        "\<forall>p. p \<notin> cols_of ?x \<longrightarrow> map_of (c_constraints c') p = map_of (c_constraints c) p"
        using generate_spec [OF step.prems(5,2,3) S coll] step.prems(6) S by metis
      have dom: "dom (map_of (c_constraints c')) \<subseteq> dom (map_of (c_constraints c))"
        using g(7) pending_dom [OF step.prems(2)] pending_dom [OF g(4)] by (metis image_mono)
      have "slice_inv c' S arr' len' None"
        using slice dom unfolding slice_inv_def hit_iff by blast
      note IH = step.IH [OF _ len bi [symmetric] refl Some _ g(1) refl _ g(4,5) this step.prems(5,6)]
      have eq: "select_loop R q arr len c ret = select_loop R q arr' len' c' (ret @ [d])"
        using ne len bi Some g(1) coll step.prems(1) by (subst select_loop.simps) simp
      have cov: "?cov c \<longleftrightarrow> ?cov c'"
      proof (intro iffI ballI)
        fix p assume cov: "?cov c'" and p: "p \<in> dom (map_of (c_constraints c))"
        show "\<exists>x \<in> S. ids_coll x \<noteq> None \<and> p \<in> cols_of x"
        proof (cases "p \<in> cols_of ?x")
          case False
          then have "p \<in> dom (map_of (c_constraints c'))" using g(8) p by (simp add: dom_def)
          with cov show ?thesis by (rule bspec)
        qed (use S coll in blast)
      qed (use dom in blast)
      show ?thesis
      proof (cases "?cov c")
        case True
        then obtain ds cvss where r: "select_loop R q arr' len' c' (ret @ [d]) = Some (Inr ((ret @ [d]) @ ds))"
          "list_all2 (range_for q S) ds cvss" "pending c' \<subseteq> \<Union> (col_values ` set cvss)"
          using IH cov ne step.prems(1) by auto
        moreover have "pending c \<subseteq> \<Union> (col_values ` set (cvs # cvss))" using g(6) r(3) by auto
        ultimately show ?thesis
          using eq g(2) unfolding if_P [OF True] by (intro exI [of _ "d # ds"] exI [of _ "cvs # cvss"]) simp
      next
        case False
        note False [unfolded cov]
        with IH have "select_loop R q arr' len' c' (ret @ [d]) = None" using ne step.prems(1) by (simp only: if_not_P) simp
        then show ?thesis unfolding if_not_P [OF False] eq .
      qed
    qed
  qed
qed

section \<open>Sorting the candidates\<close>

abbreviation nil_first :: "'s indexDefinitionSortable \<Rightarrow> 's indexDefinitionSortable \<Rightarrow> bool" where
  "nil_first a b \<equiv> ids_coll b = None \<longrightarrow> ids_coll a = None"

lemma set_ids_sort: "set (ids_sort is) = set is"
proof -
  have "set (ids_insert i js) = insert i (set js)" for i js by (induction i js rule: ids_insert.induct) auto
  then show ?thesis unfolding ids_sort_def by (induction "is") auto
qed

lemma ids_sort_nil_first: "sorted_wrt nil_first (ids_sort is)"
proof -
  have ins: "set (ids_insert i js) = insert i (set js)" for i and js :: "'a indexDefinitionSortable list"
    by (induction i js rule: ids_insert.induct) auto
  have "sorted_wrt nil_first js \<Longrightarrow> sorted_wrt nil_first (ids_insert i js)" for i and js :: "'a indexDefinitionSortable list"
  proof (induction i js rule: ids_insert.induct [case_names Nil Cons])
    case (Cons i j js)
    show ?case
    proof (cases "ids_Less j i")
      case True
      then have "nil_first j i" by (cases "ids_coll j") (auto simp: ids_Less_def split: if_splits)
      then show ?thesis using Cons True ins [of i js] by auto
    next
      case False
      then have "nil_first i j" by (cases "ids_coll i") (auto simp: ids_Less_def split: if_splits)
      then show ?thesis using Cons.prems False by auto
    qed
  qed simp
  then show ?thesis unfolding ids_sort_def by (induction "is") auto
qed

text \<open>So the last candidate has no table only if none has.\<close>

lemma ids_sort_last:
  assumes "is \<noteq> []"
  shows "last (ids_sort is) \<in> set is" "ids_coll (last (ids_sort is)) = None \<longleftrightarrow> (\<forall>x \<in> set is. ids_coll x = None)"
proof -
  have ne: "ids_sort is \<noteq> []" using assms set_ids_sort [of "is"] by (metis set_empty)
  then obtain ys y where y: "ids_sort is = ys @ [y]" by (metis append_butlast_last_id)
  have "\<forall>x \<in> set ys. nil_first x y" using ids_sort_nil_first [of "is"] by (simp add: y sorted_wrt_append)
  moreover have "set is = insert y (set ys)" using set_ids_sort [of "is"] by (simp add: y)
  ultimately show "last (ids_sort is) \<in> set is" "ids_coll (last (ids_sort is)) = None \<longleftrightarrow> (\<forall>x \<in> set is. ids_coll x = None)"
    by (simp_all add: y) blast
qed

section \<open>getIndexes\<close>

definition rq_ok :: "reducedQuery \<Rightarrow> bool" where
  "rq_ok q \<longleftrightarrow> distinct (map fst (rq_eqFilters q)) \<and> (\<forall>(_, vs) \<in> set (rq_eqFilters q). vs \<noteq> [])"

lemma rq_ok_get: "rq_ok q \<Longrightarrow> map_of (rq_eqFilters q) p \<noteq> None \<Longrightarrow> al_get (rq_eqFilters q) p \<noteq> []"
  by (auto simp: rq_ok_def al_get_def dest!: map_of_SomeD)

lemma constraints_start:
  assumes R: "ranges_ok R" and q: "rq_ok q" "no_ancestor q"
  defines "c \<equiv> calculateConstraints R q"
  shows "c_ok c" "orig_ok q c" "pending c = {(p, v). v \<in> set (al_get (rq_eqFilters q) p)}"
    "dom (map_of (c_constraints c)) = fst ` set (rq_eqFilters q)"
proof -
  have sets: "set (r_vals R vs) = set vs" for vs using R by (metis mset_eq_setD ranges_ok_def)
  have anc: "p \<noteq> ''__ancestor__''" if "(p, vs) \<in> set (rq_eqFilters q)" for p vs
    using q(2) that by (force simp: no_ancestor_def map_of_eq_None_iff)
  have "filter (\<lambda>(p, _). p \<noteq> ''__ancestor__'') (map (\<lambda>(p, vs). (p, r_vals R vs)) (rq_eqFilters q)) =
      map (\<lambda>(p, vs). (p, r_vals R vs)) (rq_eqFilters q)"
    using anc by (auto simp: filter_id_conv)
  then have con: "c_constraints c = map (\<lambda>(p, vs). (p, r_vals R vs)) (rq_eqFilters q)" "c_original c = c_constraints c"
    by (simp_all only: c_def calculateConstraints_def Let_def constraints.simps)
  have m: "map_of (c_constraints c) p = map_option (r_vals R) (map_of (rq_eqFilters q) p)" for p
  proof -
    have "map_of (map (\<lambda>(p, vs). (p, r_vals R vs)) l) p = map_option (r_vals R) (map_of l p)" for l by (induction l) auto
    then show ?thesis by (simp add: con(1))
  qed
  show "c_ok c"
  proof (unfold c_ok_def, intro allI impI)
    fix p vs assume vs: "map_of (c_constraints c) p = Some vs"
    then obtain ws where ws: "map_of (rq_eqFilters q) p = Some ws" "vs = r_vals R ws" using m by auto
    then have "ws \<noteq> []" using q(1) by (auto simp: rq_ok_def dest!: map_of_SomeD)
    then have "vs \<noteq> []" using sets [of ws] ws(2) by (metis set_empty)
    then show "vs \<noteq> [] \<and> set vs \<subseteq> set (al_get (c_original c) p)" using vs con(2) by (simp add: al_get_def)
  qed
  show "orig_ok q c" using m sets by (auto simp: orig_ok_def con(2) al_get_def split: option.splits)
  have "(p, v) \<in> pending c \<longleftrightarrow> v \<in> set (al_get (rq_eqFilters q) p)" for p v
    by (cases "map_of (rq_eqFilters q) p") (simp_all add: pending_def al_get_def m sets)
  then show "pending c = {(p, v). v \<in> set (al_get (rq_eqFilters q) p)}" by auto
  show "dom (map_of (c_constraints c)) = fst ` set (rq_eqFilters q)"
    by (simp add: con(1) dom_map_of_conv_image_fst image_image case_prod_beta')
qed

lemma select_all:
  assumes R: "ranges_ok R" and q: "rq_ok q" "no_ancestor q" and ne: "idxs \<noteq> []"
    and cols: "\<forall>x \<in> set idxs. \<forall>p \<in> cols_of x. map_of (rq_eqFilters q) p \<noteq> None"
  defines "r \<equiv> select_loop R q (ids_sort idxs) (length (ids_sort idxs)) (calculateConstraints R q) []"
  shows "if \<forall>x \<in> set idxs. ids_coll x = None then r = Some (Inl QRNull)
    else if \<forall>p \<in> fst ` set (rq_eqFilters q). \<exists>x \<in> set idxs. ids_coll x \<noteq> None \<and> p \<in> cols_of x
    then \<exists>ds cvss. r = Some (Inr ds) \<and> ds \<noteq> [] \<and> list_all2 (range_for q (set idxs)) ds cvss \<and>
      (\<forall>p. \<forall>v \<in> set (al_get (rq_eqFilters q) p). \<exists>cvs \<in> set cvss. (p, v) \<in> col_values cvs)
    else r = None"
proof -
  let ?c = "calculateConstraints R q" and ?arr = "ids_sort idxs" and ?S = "set idxs"
  note c = constraints_start [OF R q]
  have ne': "?arr \<noteq> []" using ne set_ids_sort [of idxs] by (metis set_empty)
  let ?x = "last ?arr"
  note x = ids_sort_last [OF ne]
  have nth: "?arr ! (length ?arr - 1) = ?x" using ne' by (simp add: last_conv_nth)
  have unf: "r = (if ids_coll ?x = None then Some (Inl QRNull)
      else case generate R q ?x ?c of None \<Rightarrow> None | Some (d, c) \<Rightarrow> select_loop R q ?arr (length ?arr) c [d])"
    unfolding r_def by (subst select_loop.simps) (use ne' nth in \<open>simp add: best_index_def cong: option.case_cong\<close>)
  have cols': "\<forall>x \<in> ?S. \<forall>p \<in> cols_of x. al_get (rq_eqFilters q) p \<noteq> []" using cols rq_ok_get [OF q(1)] by blast
  show ?thesis
  proof (cases "ids_coll ?x = None")
    case True
    then show ?thesis using unf x(2) by simp
  next
    case False
    obtain d cvs c' where g: "generate R q ?x ?c = Some (d, c')" "range_for q ?S d cvs" "map fst cvs = ids_eqFilts ?x"
      "c_ok c'" "orig_ok q c'" "pending ?c \<subseteq> col_values cvs \<union> pending c'" "pending c' \<subseteq> pending ?c"
      "\<forall>p. p \<notin> cols_of ?x \<longrightarrow> map_of (c_constraints c') p = map_of (c_constraints ?c) p"
      using generate_spec [OF q(2) c(1,2) x(1) False] cols' x(1) by metis
    have r: "r = select_loop R q ?arr (length ?arr) c' [d]" using unf False g(1) by simp
    have slice: "slice_inv c' ?S ?arr (length ?arr) None" using set_ids_sort [of idxs] by (auto simp: slice_inv_def)
    have dom: "dom (map_of (c_constraints c')) \<subseteq> fst ` set (rq_eqFilters q)"
      using g(7) pending_dom [OF c(1)] pending_dom [OF g(4)] c(4) by (metis image_mono)
    have cov: "(\<forall>p \<in> dom (map_of (c_constraints c')). \<exists>x \<in> ?S. ids_coll x \<noteq> None \<and> p \<in> cols_of x) \<longleftrightarrow>
        (\<forall>p \<in> fst ` set (rq_eqFilters q). \<exists>x \<in> ?S. ids_coll x \<noteq> None \<and> p \<in> cols_of x)" (is "?l \<longleftrightarrow> ?r")
    proof (intro iffI ballI)
      fix p assume l: ?l and p: "p \<in> fst ` set (rq_eqFilters q)"
      show "\<exists>x \<in> ?S. ids_coll x \<noteq> None \<and> p \<in> cols_of x"
      proof (cases "p \<in> cols_of ?x")
        case False
        then have "p \<in> dom (map_of (c_constraints c'))" using g(8) p c(4) by (metis domIff)
        with l show ?thesis by (rule bspec)
      qed (use x(1) False in blast)
    qed (use dom in blast)
    have nn: "\<not> (\<forall>x \<in> set idxs. ids_coll x = None)" using False x(2) by simp
    note spec = select_loop_spec [OF q(2) cols' _ g(4,5) slice, of "[d]" R, folded r, unfolded cov]
    show ?thesis
    proof (cases ?r)
      case True
      then obtain ds cvss where ds: "r = Some (Inr (d # ds))" "list_all2 (range_for q ?S) ds cvss"
        "pending c' \<subseteq> \<Union> (col_values ` set cvss)" using spec by auto
      have "\<exists>cvs' \<in> set (cvs # cvss). (p, v) \<in> col_values cvs'" if "v \<in> set (al_get (rq_eqFilters q) p)" for p v
      proof -
        have "(p, v) \<in> pending ?c" using that c(3) by simp
        then show ?thesis using g(6) ds(3) by auto
      qed
      then have "\<forall>p. \<forall>v \<in> set (al_get (rq_eqFilters q) p). \<exists>cvs' \<in> set (cvs # cvss). (p, v) \<in> col_values cvs'" by blast
      moreover have "list_all2 (range_for q ?S) (d # ds) (cvs # cvss)" using ds(2) g(2) by simp
      ultimately show ?thesis unfolding if_not_P [OF nn] if_P [OF True] using ds(1) by blast
    next
      case False
      then show ?thesis unfolding if_not_P [OF nn] if_not_P [OF False] using spec by simp
    qed
  qed
qed

section \<open>Where candidates come from\<close>

lemma walk_loop_inv:
  assumes "it_base it = Some es" "walk_loop E cb st it = Some st'" "P st"
    and "\<forall>e \<in> set es. \<forall>i r. ReadIndexDefinition (e_cmpbin E) (fst e) = Inr (i, r) \<longrightarrow> (\<forall>st. P st \<longrightarrow> P (fst (cb st (Flip i))))"
  shows "P st'"
  using assms
proof (induction es arbitrary: st it)
  case Nil
  then show ?case by (simp add: walk_loop.simps it_next_def it_step_def)
next
  case (Cons e es)
  obtain oe it' where step: "it_step it (e # es) = (oe, it')" by force
  then have nx: "it_next (e_store E) it = Some (oe, it')" "it_base it' = Some es" "oe = None \<or> oe = Some e"
    using Cons.prems(1) by (auto simp: it_next_def it_step_def Let_def split: if_splits)
  show ?case
  proof (cases oe)
    case None
    then show ?thesis using nx Cons.prems by (simp add: walk_loop.simps [of _ _ _ it])
  next
    case (Some e')
    then have e: "oe = Some e" using nx(3) by simp
    then obtain i r where i: "ReadIndexDefinition (e_cmpbin E) (fst e) = Inr (i, r)"
      using Cons.prems(2) nx by (simp add: walk_loop.simps [of _ _ _ it] split: sum.splits prod.splits)
    obtain st1 go where cb: "cb st (Flip i) = (st1, go)" by force
    have "P st1" using Cons.prems(3,4) i cb by (metis fst_conv list.set_intros(1))
    then show ?thesis
      using Cons.IH [OF nx(2)] Cons.prems(2,4) nx(1) e i cb
      by (cases go) (simp_all add: walk_loop.simps [of _ _ _ it])
  qed
qed

lemma walkCompIdxs_inv:
  assumes "walkCompIdxs E s ew cb st = Some st'" "P st"
    and "\<forall>i. ts_HasCollection (e_store E) s ''idx'' \<and>
        (\<exists>p. \<exists>e \<in> set (tc_Iterator (e_store E) s ''idx'' p). \<exists>r. ReadIndexDefinition (e_cmpbin E) (fst e) = Inr (i, r)) \<longrightarrow>
      (\<forall>st. P st \<longrightarrow> P (fst (cb st (Flip i))))"
  shows "P st'"
proof (cases "ms_GetCollection (e_store E) s ''idx''")
  case None
  then show ?thesis using assms(1,2) by (simp add: walkCompIdxs_def)
next
  case (Some coll)
  then have coll: "coll = (s, ''idx'')" "ts_HasCollection (e_store E) s ''idx''" by (simp_all add: ms_GetCollection_def split: if_splits)
  then obtain pre it where it: "mkIter (e_store E) \<lparr>id_c = (s, ''idx''), id_prefix = pre, id_prefixLen = 0, id_start = [], id_end = None\<rparr> = Some it"
    "walk_loop E cb st it = Some st'"
    using assms(1) Some by (auto simp: walkCompIdxs_def bind_eq_Some_conv)
  then have ro: "ts_IsReadOnly (e_store E) s" "it_base it = None" "it_start it = pre" "id_c (it_def it) = (s, ''idx'')"
    by (auto simp: mkIter_def coll_IsReadOnly_def Join_def split: if_splits)
  let ?es = "tc_Iterator (e_store E) s ''idx'' pre"
  have "it_next (e_store E) it = it_next (e_store E) (it\<lparr>it_base := Some ?es\<rparr>)"
    using ro by (cases pre) (simp_all add: it_next_def it_skip_def Let_def coll_Iterator_def coll_IsReadOnly_def)
  then have "walk_loop E cb st (it\<lparr>it_base := Some ?es\<rparr>) = Some st'"
    using it(2) by (simp only: walk_loop.simps [of _ _ _ it] walk_loop.simps [of _ _ _ "it\<lparr>it_base := Some ?es\<rparr>"])
  then show ?thesis by (rule walk_loop_inv [rotated]) (use assms(2,3) coll(2) in auto)
qed

text \<open>A candidate and the definition it was made from.\<close>

definition candidate :: "'s dsenv \<Rightarrow> reducedQuery \<Rightarrow> 's \<Rightarrow> IndexDefinition \<Rightarrow> 's indexDefinitionSortable \<Rightarrow> bool" where
  "candidate E q s i x \<longleftrightarrow> ix_Kind i = rq_kind q \<and> GetFullSortOrder i = ids_eqFilts x @ rq_suffixFormat q \<and>
     ids_coll x = ms_GetCollection (e_store E) s
       (idx_coll (Namespace (rq_kc q)) (WriteIndexDefinition (e_cmpbin E) (PrepForIdxTable i))) \<and>
     (\<forall>p \<in> cols_of x. map_of (rq_eqFilters q) p \<noteq> None)"

text \<open>The definitions the candidates are drawn from.\<close>

definition known_def :: "'s dsenv \<Rightarrow> reducedQuery \<Rightarrow> 's \<Rightarrow> IndexDefinition \<Rightarrow> bool" where
  "known_def E q s i \<longleftrightarrow>
     (\<exists>cols. i = \<lparr>ix_Kind = rq_kind q, ix_Ancestor = False, SortBy = cols\<rparr> \<and>
        (\<forall>c \<in> set cols. isSpecialProp (col_Property c) \<or> \<not> (prefix ''__'' (col_Property c) \<and> suffix ''__'' (col_Property c))) \<and>
        length cols \<le> 1) \<or>
     ts_HasCollection (e_store E) s ''idx'' \<and>
     (\<exists>p. \<exists>e \<in> set (tc_Iterator (e_store E) s ''idx'' p). \<exists>j r. ReadIndexDefinition (e_cmpbin E) (fst e) = Inr (j, r) \<and> i = Flip j)"

definition cands_ok :: "'s dsenv \<Rightarrow> reducedQuery \<Rightarrow> 's \<Rightarrow> 's candidates \<Rightarrow> bool" where
  "cands_ok E q s st \<longleftrightarrow> (\<forall>x \<in> set (fst st). \<exists>i. known_def E q s i \<and> candidate E q s i x)"

lemma usable_split:
  assumes "usable q i"
  obtains eqs where "GetFullSortOrder i = eqs @ rq_suffixFormat q"
    "take (length (GetFullSortOrder i) - length (rq_suffixFormat q)) (GetFullSortOrder i) = eqs"
    "\<forall>c \<in> set eqs. map_of (rq_eqFilters q) (col_Property c) \<noteq> None"
proof -
  let ?n = "length (GetFullSortOrder i) - length (rq_suffixFormat q)"
  have "drop ?n (GetFullSortOrder i) = rq_suffixFormat q"
    "\<forall>c \<in> set (take ?n (GetFullSortOrder i)). map_of (rq_eqFilters q) (col_Property c) \<noteq> None"
    using assms by (auto simp: usable_def Let_def list_all_iff split: if_splits)
  then show ?thesis using that [of "take ?n (GetFullSortOrder i)"] by (metis append_take_drop_id)
qed

lemma maybeAdd_cands:
  assumes "cands_ok E q s st" "known_def E q s i" "maybeAddDefinition E q s st i = Some (st', ok)"
  shows "cands_ok E q s st'"
proof -
  obtain idxs m where st: "st = (idxs, m)" by force
  show ?thesis
  proof (cases "usable q i")
    case False
    then show ?thesis using assms(1,3) st by (auto simp: maybeAddDefinition_def split: if_splits)
  next
    case True
    then obtain eqs where eqs: "GetFullSortOrder i = eqs @ rq_suffixFormat q"
      "take (length (GetFullSortOrder i) - length (rq_suffixFormat q)) (GetFullSortOrder i) = eqs"
      "\<forall>c \<in> set eqs. map_of (rq_eqFilters q) (col_Property c) \<noteq> None" by (rule usable_split)
    let ?x = "\<lparr>ids_eqFilts = eqs, ids_coll = ms_GetCollection (e_store E) s
       (idx_coll (Namespace (rq_kc q)) (WriteIndexDefinition (e_cmpbin E) (PrepForIdxTable i)))\<rparr>"
    have kind: "ix_Kind i = rq_kind q" using assms(3) st by (auto simp: maybeAddDefinition_def split: if_splits)
    have "candidate E q s i ?x" using eqs(1,3) kind by (auto simp: candidate_def cols_of_def)
    moreover have "fst st' = [?x] \<or> fst st' = idxs @ [?x]"
      using assms(3) True st eqs(2)
      by (auto simp: maybeAddDefinition_def Let_def ToBytes_def toBytesErr_def split: if_splits)
    ultimately show ?thesis using assms(1,2) st unfolding cands_ok_def by auto
  qed
qed

lemma add_definitions_cands:
  "add_definitions E q s st is = Some (st', ok) \<Longrightarrow> cands_ok E q s st \<Longrightarrow> \<forall>i \<in> set is. known_def E q s i \<Longrightarrow> cands_ok E q s st'"
proof (induction E q s st "is" rule: add_definitions.induct [case_names Nil Cons])
  case (Cons E q s st idx "is")
  obtain st1 ok1 where m: "maybeAddDefinition E q s st idx = Some (st1, ok1)"
    using Cons.prems(1) by (auto simp: bind_eq_Some_conv)
  then have "cands_ok E q s st1" using maybeAdd_cands [OF Cons.prems(2) _ m] Cons.prems(3) by simp
  then show ?case using Cons.IH [OF m refl] Cons.prems m by (cases ok1) auto
qed simp

lemma builtin_known:
  assumes "i \<in> set (builtin_defs R q)"
  shows "known_def E q s i"
proof -
  let ?def = "\<lambda>cols. \<lparr>ix_Kind = rq_kind q, ix_Ancestor = False, SortBy = cols\<rparr>"
  consider (none) "i = ?def []" | (one) p desc where "isSpecialProp p \<or> \<not> (prefix ''__'' p \<and> suffix ''__'' p)"
    "i = ?def [\<lparr>col_Property = p, Descending = desc\<rparr>]"
  proof (cases "i = ?def []")
    case False
    then obtain p where p: "\<not> (\<not> isSpecialProp p \<and> prefix ''__'' p \<and> suffix ''__'' p)"
      "i \<in> {?def [\<lparr>col_Property = p, Descending = False\<rparr>], ?def [\<lparr>col_Property = p, Descending = True\<rparr>]}"
      using assms by (simp add: builtin_defs_def Let_def) (auto split: if_splits)
    then show ?thesis using that(2) by blast
  qed (use that in blast)
  then show ?thesis
  proof cases
    case none
    then show ?thesis unfolding known_def_def by (intro disjI1 exI [of _ "[]"]) simp
  next
    case one
    then show ?thesis unfolding known_def_def by (intro disjI1 exI [of _ "[\<lparr>col_Property = p, Descending = desc\<rparr>]"]) simp
  qed
qed

lemma relevant_candidates:
  assumes r: "getRelevantIndexes E R q s = Some (Inr idxs)"
  shows "\<forall>x \<in> set idxs. \<exists>i. known_def E q s i \<and> candidate E q s i x"
proof -
  let ?m = "filter (\<lambda>k. k \<noteq> ''__ancestor__'') (map fst (rq_eqFilters q))"
  obtain st ok where b: "add_definitions E q s ([], ?m) (builtin_defs R q) = Some (st, ok)"
    "ok \<longrightarrow> idxs = fst st" using r by (auto simp: getRelevantIndexes_def Let_def bind_eq_Some_conv split: if_splits)
  have st: "cands_ok E q s st"
    by (rule add_definitions_cands [OF b(1)]) (use builtin_known in \<open>auto simp: cands_ok_def\<close>)
  show ?thesis
  proof (cases ok)
    case True
    then show ?thesis using st b(2) by (simp add: cands_ok_def)
  next
    case False
    let ?cb = "\<lambda>st def. case Option.bind st (\<lambda>st. maybeAddDefinition E q s st def) of
      None \<Rightarrow> (None, False) | Some (st, ok) \<Rightarrow> (Some st, \<not> ok)"
    obtain ew st2 where w: "walkCompIdxs E s ew ?cb (Some st) = Some (Some st2)" "idxs = fst st2"
      using r b(1) False by (auto simp: getRelevantIndexes_def Let_def bind_eq_Some_conv split: if_splits)
    let ?P = "\<lambda>st. case st of None \<Rightarrow> True | Some st \<Rightarrow> cands_ok E q s st"
    have "?P (Some st2)"
    proof (rule walkCompIdxs_inv [OF w(1), where P = ?P], goal_cases)
      case 1
      then show ?case using st by simp
    next
      case 2
      show ?case
      proof (intro allI impI)
        fix i st assume i: "ts_HasCollection (e_store E) s ''idx'' \<and>
            (\<exists>p. \<exists>e \<in> set (tc_Iterator (e_store E) s ''idx'' p). \<exists>r. ReadIndexDefinition (e_cmpbin E) (fst e) = Inr (i, r))"
          and P: "?P st"
        have "known_def E q s (Flip i)" using i unfolding known_def_def by blast
        then show "?P (fst (?cb st (Flip i)))"
          using P maybeAdd_cands [of E q s _ "Flip i"] by (auto split: option.splits prod.splits simp: bind_eq_Some_conv)
      qed
    qed
    then show ?thesis using w(2) by (simp add: cands_ok_def)
  qed
qed

lemma relevant_nonempty: "getRelevantIndexes E R q s = Some (Inr idxs) \<Longrightarrow> idxs \<noteq> []"
proof -
  have one: "maybeAddDefinition E q s st i = Some (st', True) \<Longrightarrow> fst st' \<noteq> []" for st st' i
    by (auto simp: maybeAddDefinition_def Let_def split: prod.splits if_splits)
  have "add_definitions E q s st is = Some (st', True) \<Longrightarrow> fst st' \<noteq> []" for st st' "is"
  proof (induction "is" arbitrary: st)
    case (Cons i "is")
    obtain st1 ok where m: "maybeAddDefinition E q s st i = Some (st1, ok)" using Cons.prems by (auto simp: bind_eq_Some_conv)
    then show ?case using Cons one [of st i st1] by (cases ok) auto
  qed simp
  then show "getRelevantIndexes E R q s = Some (Inr idxs) \<Longrightarrow> idxs \<noteq> []"
    by (fastforce simp: getRelevantIndexes_def Let_def bind_eq_Some_conv split: if_splits)
qed

section \<open>Property\<close>

text \<open>
  C13. Index selection makes progress. Given the candidate indexes of a query with a kind and without
  ancestor, the loop of \<^verbatim>\<open>getIndexes\<close> always ends: with \<^verbatim>\<open>ErrNullQuery\<close> if no candidate has a
  table; with ranges of candidates, all bounded by the query's bounds, whose prefixes together use
  every value of every equality filter and no other value, if every filtered property is a column of a
  candidate that has a table; and with the deadlock panic in every other case, that is when some
  candidate has a table but a filtered property is a column only of candidates without one. It holds for
  every order in which Go ranges over its maps and sets, and although removing a candidate
  in place may change what \<^verbatim>\<open>bestIdx\<close> points at.
\<close>

theorem getIndexes_progress:
  assumes "ranges_ok R" "rq_ok q" "no_ancestor q" "rq_kind q \<noteq> ''''" "getRelevantIndexes E R q s = Some (Inr idxs)"
  shows "if \<forall>x \<in> set idxs. ids_coll x = None then getIndexes E R q s = Some (Inl QRNull)
    else if \<forall>p \<in> fst ` set (rq_eqFilters q). \<exists>x \<in> set idxs. ids_coll x \<noteq> None \<and> p \<in> cols_of x
    then \<exists>ds cvss. getIndexes E R q s = Some (Inr ds) \<and> ds \<noteq> [] \<and> list_all2 (range_for q (set idxs)) ds cvss \<and>
      (\<forall>p. \<forall>v \<in> set (al_get (rq_eqFilters q) p). \<exists>cvs \<in> set cvss. (p, v) \<in> col_values cvs)
    else getIndexes E R q s = None"
proof -
  have ne: "idxs \<noteq> []" by (rule relevant_nonempty [OF assms(5)])
  then have eq: "getIndexes E R q s =
      select_loop R q (ids_sort idxs) (length (ids_sort idxs)) (calculateConstraints R q) []"
    using assms(4,5) by (simp add: getIndexes_def Let_def)
  have "\<forall>x \<in> set idxs. \<forall>p \<in> cols_of x. map_of (rq_eqFilters q) p \<noteq> None"
    using relevant_candidates [OF assms(5)] unfolding candidate_def by blast
  from select_all [OF assms(1-3) ne this] show ?thesis unfolding eq .
qed

definition ex_ranges :: ranges where
  "ex_ranges = \<lparr>r_vals = rev, r_props = id, r_terms = id\<rparr>"

definition ex_rq :: "string list \<Rightarrow> reducedQuery" where
  "ex_rq ps = \<lparr>rq_kc = MkKeyContext ''app'' ''n'', rq_kind = ''K'', rq_eqFilters = map (\<lambda>p. (p, [[1]])) ps,
     rq_suffixFormat = [asc ''__key__''], rq_start = None, rq_end = None, rq_numCols = 1 + length ps\<rparr>"

definition ex_table :: "string \<Rightarrow> bool \<Rightarrow> string" where
  "ex_table p desc = idx_coll ''n'' (WriteIndexDefinition simple_cmpbin
     (PrepForIdxTable \<lparr>ix_Kind = ''K'', ix_Ancestor = False, SortBy = [\<lparr>col_Property = p, Descending = desc\<rparr>]\<rparr>))"

text \<open>A store with tables for \<^verbatim>\<open>a\<close> only, and a query for \<^verbatim>\<open>a\<close>: it is served. A query for \<^verbatim>\<open>a\<close> and \<^verbatim>\<open>b\<close> panics.\<close>

definition ex_store :: "bool \<times> (string \<times> storeEntry list) list" where
  "ex_store = (True, [(ex_table ''a'' False, []), (ex_table ''a'' True, [])])"

lemma ex_ok_ranges: "ranges_ok ex_ranges" "rq_ok (ex_rq [''a'', ''b''])" "no_ancestor (ex_rq [''a'', ''b''])" "rq_kind (ex_rq [''a'', ''b'']) \<noteq> ''''"
  by (simp_all add: ranges_ok_def ex_ranges_def rq_ok_def ex_rq_def no_ancestor_def)

lemma ex_table_inj: "ex_table p d = ex_table p' d' \<longleftrightarrow> p = p' \<and> d = d'"
proof -
  have "ex_table p d = ex_table p' d' \<longleftrightarrow> PrepForIdxTable \<lparr>ix_Kind = ''K'', ix_Ancestor = False, SortBy = [\<lparr>col_Property = p, Descending = d\<rparr>]\<rparr> =
      PrepForIdxTable \<lparr>ix_Kind = ''K'', ix_Ancestor = False, SortBy = [\<lparr>col_Property = p', Descending = d'\<rparr>]\<rparr>"
    using WriteIndexDefinition_inj [OF simple_cmpbin_ok] by (auto simp: ex_table_def idx_coll_plain plain_ns_def)
  then show ?thesis by (auto simp: PrepForIdxTable_def Normalize_def Flip_def)
qed

lemma ex_relevant:
  "getRelevantIndexes simple_env ex_ranges (ex_rq [''a'', ''b'']) ex_store =
     Some (Inr [\<lparr>ids_eqFilts = [asc ''a''], ids_coll = Some (ex_store, ex_table ''a'' False)\<rparr>,
                \<lparr>ids_eqFilts = [\<lparr>col_Property = ''a'', Descending = True\<rparr>], ids_coll = Some (ex_store, ex_table ''a'' True)\<rparr>,
                \<lparr>ids_eqFilts = [asc ''b''], ids_coll = None\<rparr>])"
proof -
  let ?def = "\<lambda>p d. \<lparr>ix_Kind = ''K'', ix_Ancestor = False, SortBy = [\<lparr>col_Property = p, Descending = d\<rparr>]\<rparr>"
  let ?q = "ex_rq [''a'', ''b'']"
  have defs: "builtin_defs ex_ranges ?q =
      [\<lparr>ix_Kind = ''K'', ix_Ancestor = False, SortBy = []\<rparr>, ?def ''a'' False, ?def ''a'' True, ?def ''b'' False, ?def ''b'' True]"
    by (simp add: builtin_defs_def ex_rq_def ex_ranges_def)
  have none: "maybeAddDefinition simple_env ?q ex_store st \<lparr>ix_Kind = ''K'', ix_Ancestor = False, SortBy = []\<rparr> = Some (st, False)" for st
    by (cases st) (simp add: maybeAddDefinition_def usable_def ex_rq_def GetFullSortOrder_def Normalize_def Builtin_def)
  have add: "maybeAddDefinition simple_env ?q ex_store (idxs, m) (?def p d) =
      Some ((idxs @ [\<lparr>ids_eqFilts = [\<lparr>col_Property = p, Descending = d\<rparr>],
        ids_coll = ms_GetCollection simple_treapstore ex_store (ex_table p d)\<rparr>], removeAll p m), removeAll p m = [])"
    if "p = ''a'' \<or> p = ''b''" for p d m idxs
    using that by (auto simp: maybeAddDefinition_def usable_def ex_rq_def GetFullSortOrder_def Normalize_def Builtin_def
        perfect_def numByProp_def al_get_def ToBytes_def toBytesErr_def ex_table_def simple_env_def Let_def MkKeyContext_def)
  have coll: "ms_GetCollection simple_treapstore ex_store (ex_table p d) = (if p = ''a'' then Some (ex_store, ex_table p d) else None)" for p d
    by (cases d) (auto simp: ms_GetCollection_def simple_treapstore_def ex_store_def ex_table_inj)
  show ?thesis
    by (simp add: getRelevantIndexes_def defs none add coll) (simp add: ex_rq_def)
qed

theorem getIndexes_progress_witness:
  "getIndexes simple_env ex_ranges (ex_rq [''a'', ''b'']) ex_store = None"
  using getIndexes_progress [OF ex_ok_ranges ex_relevant] by (simp add: cols_of_def) (simp add: ex_rq_def)

end
