(* ===== verification/Query_Bounds.thy ===== *)
theory Query_Bounds
  imports Query_Execution Selection_Props
begin

text \<open>
  The byte ranges of a query: what an incremented bound separates, how the bounds of an inequality
  correspond to values, and what a cursor resumes.
\<close>

section \<open>Incremented byte strings\<close>

lemma increment_rev_form:
  "increment_rev bs = (ret, False) \<Longrightarrow>
   \<exists>n c p. bs = replicate n 0xFF @ c # p \<and> c \<noteq> 0xFF \<and> ret = replicate n 0 @ (c + 1) # p"
proof (induction bs arbitrary: ret)
  case (Cons b bs)
  show ?case
  proof (cases "b = 0xFF")
    case True
    then obtain r where r: "increment_rev bs = (r, False)" "ret = 0 # r" using Cons.prems by (auto split: prod.splits)
    obtain n c p where "bs = replicate n 0xFF @ c # p" "c \<noteq> 0xFF" "r = replicate n 0 @ (c + 1) # p"
      using Cons.IH [OF r(1)] by blast
    then show ?thesis using True r(2) by (intro exI [of _ "Suc n"] exI [of _ c] exI [of _ p]) simp
  next
    case False
    then show ?thesis using Cons.prems by (intro exI [of _ 0] exI [of _ b] exI [of _ bs]) auto
  qed
qed simp

lemma Increment_form:
  assumes "Increment a = (b, False)"
  obtains p c n where "a = p @ c # replicate n 0xFF" "c \<noteq> 0xFF" "b = p @ (c + 1) # replicate n 0"
proof -
  obtain r where r: "increment_rev (rev a) = (r, False)" "b = rev r"
    using assms by (auto simp: Increment_def Join_def split: prod.splits)
  obtain n c p where f: "rev a = replicate n 0xFF @ c # p" "c \<noteq> 0xFF" "r = replicate n 0 @ (c + 1) # p"
    using increment_rev_form [OF r(1)] by blast
  have "a = rev p @ c # replicate n 0xFF" using f(1) by (metis append.assoc append_Cons append_Nil rev.simps(2) rev_append rev_replicate rev_rev_ident)
  then show ?thesis using that f(2,3) r(2) by simp
qed

lemma q_increment_Some: "x \<in> set bs \<Longrightarrow> x \<noteq> 0xFF \<Longrightarrow> \<exists>b. q_increment bs = Some b"
proof -
  assume x: "x \<in> set bs" "x \<noteq> 0xFF"
  obtain r ov where r: "increment_rev (rev bs) = (r, ov)" by force
  have "\<not> ov" using increment_rev_spec [OF r] x by auto
  then show ?thesis using r by (simp add: q_increment_def Increment_def Join_def)
qed

lemma byte_less_succ: "c \<noteq> 0xFF \<Longrightarrow> c + 1 \<le> d \<longleftrightarrow> c < (d :: byte)"
  by (simp add: word_le_nat_alt word_less_nat_alt byte_succ Suc_le_eq)

lemma FF_max: "\<not> 0xFF < (d :: byte)"
  using unsigned_less [of d, where 'a = nat] by (simp add: word_less_nat_alt)

lemma FF_prefix: "replicate n 0xFF < (y :: byte list) \<Longrightarrow> prefix (replicate n 0xFF) y"
proof (induction n arbitrary: y)
  case (Suc n)
  then show ?case using FF_max by (cases y) (auto simp: less_le)
qed simp

lemma zeros_le: "\<not> strict_prefix y (replicate n 0) \<Longrightarrow> replicate n 0 \<le> (y :: byte list)"
proof (induction n arbitrary: y)
  case (Suc n)
  then show ?case by (cases y) (auto simp: word_gt_0)
qed simp

text \<open>The bound \<open>b\<close> after \<open>a\<close> separates what starts with \<open>a\<close> from what lies beyond it.\<close>

lemma increment_le:
  assumes "q_increment a = Some b" "\<not> strict_prefix x b"
  shows "b \<le> x \<longleftrightarrow> a < x \<and> \<not> prefix a x"
proof -
  obtain p c n where f: "a = p @ c # replicate n 0xFF" "c \<noteq> 0xFF" "b = p @ (c + 1) # replicate n 0"
    using assms(1) Increment_form [of a b] by (auto simp: q_increment_def split: prod.splits if_splits)
  have base: "(c + 1) # replicate n 0 \<le> z \<longleftrightarrow> c # replicate n 0xFF < z \<and> \<not> prefix (c # replicate n 0xFF) z"
    if z: "\<not> strict_prefix z ((c + 1) # replicate n 0)" for z
  proof (cases z)
    case (Cons d y)
    have "c = d \<Longrightarrow> replicate n 0xFF < y \<Longrightarrow> prefix (replicate n 0xFF) y" by (rule FF_prefix)
    moreover have "c + 1 = d \<Longrightarrow> replicate n 0 \<le> y" using z Cons by (intro zeros_le) auto
    ultimately show ?thesis using Cons byte_less_succ [OF f(2), of d] by (auto simp: order_le_less)
  qed simp
  show ?thesis using assms(2) unfolding f(1,3)
  proof (induction p arbitrary: x)
    case Nil
    then show ?case using base by simp
  next
    case (Cons e p)
    show ?case
    proof (cases x)
      case Nil
      then show ?thesis using Cons.prems by simp
    next
      case x: (Cons d y)
      show ?thesis
      proof (cases "d = e")
        case True
        then show ?thesis using Cons.IH [of y] Cons.prems x by simp
      next
        case False
        then show ?thesis using x by auto
      qed
    qed
  qed
qed

lemma increment_greater: "q_increment a = Some b \<Longrightarrow> \<not> strict_prefix x b \<Longrightarrow> x < b \<longleftrightarrow> x \<le> a \<or> prefix a x"
  using increment_le by (metis not_le)

text \<open>Inverting and incrementing twice gives the inverse.\<close>

lemma increment_Invert:
  assumes "q_increment a = Some b"
  shows "q_increment (Invert b) = Some (Invert a)"
proof -
  obtain p c n where f: "a = p @ c # replicate n 0xFF" "c \<noteq> 0xFF" "b = p @ (c + 1) # replicate n 0"
    using assms Increment_form [of a b] by (auto simp: q_increment_def split: prod.splits if_splits)
  have "0xFF XOR c \<noteq> (0 :: byte)" unfolding invert_byte right_minus_eq using f(2) byte_FF by metis
  moreover have "0xFF XOR (c + 1) = (0xFF XOR c) - 1" by (simp only: invert_byte diff_diff_eq)
  ultimately have inv: "0xFF XOR (c + 1) = (0xFF XOR c) - 1" "0xFF XOR c \<noteq> (0 :: byte)" by simp_all
  have rev: "increment_rev (replicate n 0xFF @ (d - 1) # q) = (replicate n 0 @ d # q, False)" if "d \<noteq> 0" for d :: byte and q
    using that by (induction n) (auto simp: byte_FF eq_diff_eq)
  have eqs: "rev (Invert b) = replicate n 0xFF @ ((0xFF XOR c) - 1) # rev (Invert p)"
    "rev (Invert a) = replicate n 0 @ (0xFF XOR c) # rev (Invert p)"
    unfolding f Invert_map by (simp_all add: inv(1))
  have "increment_rev (rev (Invert b)) = (rev (Invert a), False)" unfolding eqs by (rule rev [OF inv(2)])
  then show ?thesis by (simp add: q_increment_def Increment_def Join_def)
qed

section \<open>A row against a bound\<close>

text \<open>Encodings of two values: one sorts before the other, whatever follows, or they are the same.\<close>

definition comparable :: "byte list \<Rightarrow> byte list \<Rightarrow> bool" where
  "comparable a b \<longleftrightarrow> a = b \<or> sless a b \<or> sless b a"

lemma sless_not_prefix: "sless a b \<Longrightarrow> \<not> prefix a (b @ z)" "sless a b \<Longrightarrow> \<not> prefix b (a @ z)"
proof -
  have "\<not> prefix (p @ x # xs) (p @ y # ys)" if "x \<noteq> y" for p xs ys and x y :: byte
    using that by (induction p) simp_all
  then show "sless a b \<Longrightarrow> \<not> prefix a (b @ z)" "sless a b \<Longrightarrow> \<not> prefix b (a @ z)"
    by (auto simp: sless_def)
qed

lemma sless_asym: "sless a b \<Longrightarrow> \<not> sless b a"
  using sless_less [of a b "[]" "[]"] sless_less [of b a "[]" "[]"] by auto

lemma sless_irrefl: "\<not> sless a a"
  using sless_asym by blast

lemma row_ge: "comparable l e \<Longrightarrow> l \<le> e @ rest \<longleftrightarrow> \<not> sless e l"
  using sless_less [of e l rest "[]"] sless_less [of l e "[]" rest] sless_irrefl [of l] sless_asym [of l e]
    append_le_cancel [of e "[]" rest]
  by (auto simp: comparable_def prefix_order.less_imp_le)

text \<open>The row has another column, whose first byte is not 0.\<close>

lemma row_ge_increment:
  assumes c: "comparable l e" and b: "q_increment l = Some b" and z: "z \<noteq> 0"
  shows "b \<le> e @ z # rest \<longleftrightarrow> sless l e"
proof -
  let ?x = "e @ z # rest"
  obtain p c n where f: "l = p @ c # replicate n 0xFF" "c \<noteq> 0xFF" "b = p @ (c + 1) # replicate n 0"
    using b Increment_form [of l b] by (auto simp: q_increment_def split: prod.splits if_splits)
  have len: "length b = length l" using f by simp
  have "\<not> strict_prefix ?x b"
  proof
    assume sp: "strict_prefix ?x b"
    then have lt: "length ?x < length b" by (rule prefix_length_less)
    have nth: "b ! length e = z" using sp by (auto simp: strict_prefix_def prefix_def nth_append)
    have "length e \<le> length p"
    proof (rule ccontr)
      assume "\<not> length e \<le> length p"
      then have "b ! length e = 0" using lt unfolding f(3) by (auto simp: nth_append nth_Cons')
      then show False using nth z by simp
    qed
    moreover have "prefix e b" using sp by (auto simp: strict_prefix_def prefix_def)
    ultimately have "prefix e p" unfolding f(3) by (metis append_eq_conv_conj prefix_def prefix_length_prefix)
    then have "prefix e l" by (simp add: f(1))
    then have "e = l" using c sless_not_prefix(1) [of e l "[]"] sless_not_prefix(2) [of l e "[]"] by (auto simp: comparable_def)
    then show False using lt len by simp
  qed
  from increment_le [OF b this] show ?thesis
    using c sless_not_prefix(1) [of l e "z # rest"] sless_less [of l e "[]" "z # rest"] sless_less [of e l "z # rest" "[]"]
      sless_irrefl [of l] sless_asym [of l e]
    by (auto simp: comparable_def prefix_def)
qed

text \<open>Whether a row lies in the range of two optional bounds.\<close>

definition in_range :: "byte list option \<Rightarrow> byte list option \<Rightarrow> byte list \<Rightarrow> bool" where
  "in_range lo hi x \<longleftrightarrow> bytes_of lo \<le> x \<and> (case hi of None \<Rightarrow> True | Some e \<Rightarrow> x < e)"

definition fq_in_bounds :: "FinalizedQuery \<Rightarrow> Property \<Rightarrow> bool" where
  "fq_in_bounds fq v \<longleftrightarrow>
     (fq_ineqFiltLowSet fq \<longrightarrow>
        (if fq_ineqFiltLowIncl fq then Compare (fq_ineqFiltLow fq) v \<le> 0 else Compare (fq_ineqFiltLow fq) v < 0)) \<and>
     (fq_ineqFiltHighSet fq \<longrightarrow>
        (if fq_ineqFiltHighIncl fq then Compare v (fq_ineqFiltHigh fq) \<le> 0 else Compare v (fq_ineqFiltHigh fq) < 0))"

text \<open>Values that are indexed and may be compared by their encodings.\<close>

definition enc_ok :: "Property \<Rightarrow> Property \<Rightarrow> bool" where
  "enc_ok p v \<longleftrightarrow> index_canonical p \<and> index_canonical v \<and> indexSetting p = ShouldIndex \<and> indexSetting v = ShouldIndex \<and>
     same_context p v"

lemma enc_compare:
  assumes C: "cmpbin_ok C" "cmpbin_sorted C" and ok: "enc_ok p v"
    and e: "WriteIndexProperty C False p = Some l" "WriteIndexProperty C False v = Some e"
  shows "comparable l e" "sless l e \<longleftrightarrow> Compare p v < 0" "sless e l \<longleftrightarrow> Compare v p < 0" "Compare v p \<le> 0 \<longleftrightarrow> \<not> sless l e"
    "Compare p v \<le> 0 \<longleftrightarrow> \<not> sless e l"
proof -
  have wf: "wf_prop p" "wf_prop v" using ok canonical_wf by (auto simp: enc_ok_def)
  have less: "Compare p v < 0 \<Longrightarrow> sless l e" "Compare v p < 0 \<Longrightarrow> sless e l"
    using ok same_context_sym [of p v] WriteIndexProperty_sless [OF C _ _ _ _ e] WriteIndexProperty_sless [OF C _ _ _ _ e(2,1)]
    by (auto simp: enc_ok_def)
  have eq: "Compare p v = 0 \<Longrightarrow> l = e"
    using WriteIndexProperty_same [OF C, of p v False] Compare_zero [OF wf] e ok by (simp add: enc_ok_def)
  have tri: "Compare p v = 0 \<and> Compare v p = 0 \<or> Compare p v < 0 \<and> \<not> Compare v p \<le> 0 \<or> Compare v p < 0 \<and> \<not> Compare p v \<le> 0"
    using pcmp.cmp_zero_iff [OF wf] pcmp.cmp_pos_iff [OF wf] pcmp.cmp_pos_iff [OF wf(2,1)] by linarith
  then show "comparable l e" "sless l e \<longleftrightarrow> Compare p v < 0" "sless e l \<longleftrightarrow> Compare v p < 0" "Compare v p \<le> 0 \<longleftrightarrow> \<not> sless l e"
    "Compare p v \<le> 0 \<longleftrightarrow> \<not> sless e l"
    using less eq sless_irrefl [of l] sless_asym [of l e] unfolding comparable_def by auto
qed

lemma Invert_ne: "Invert bs = [] \<longleftrightarrow> bs = []"
  by (simp add: Invert_map)

lemma comparable_Invert: "comparable a b \<Longrightarrow> comparable (Invert a) (Invert b)"
  using Invert_sless by (auto simp: comparable_def)

lemma sless_Invert_iff: "sless (Invert a) (Invert b) \<longleftrightarrow> sless b a"
  using Invert_sless [of b a] Invert_sless [of "Invert a" "Invert b"] by (auto simp: Invert_Invert)

text \<open>The first byte of an indexed value is neither 0 nor 255, also when inverted.\<close>

lemma index_byte_range:
  "indexSetting p = ShouldIndex \<Longrightarrow> index_byte p \<noteq> 0 \<and> index_byte p \<noteq> 0xFF \<and> 0xFF XOR index_byte p \<noteq> 0 \<and> 0xFF XOR index_byte p \<noteq> 0xFF"
  unfolding index_byte_def by (cases "index_type p") simp_all

lemma encoded_first:
  assumes "WriteIndexProperty C ctx p = Some l" "indexSetting p = ShouldIndex"
  shows "\<exists>x xs. l = x # xs \<and> x \<noteq> 0 \<and> x \<noteq> 0xFF \<and> 0xFF XOR x \<noteq> 0 \<and> 0xFF XOR x \<noteq> 0xFF"
  using assms index_byte_range [of p] by (auto simp: WriteIndexProperty_eq)

lemma increment_encoded:
  assumes "WriteIndexProperty C ctx p = Some l" "indexSetting p = ShouldIndex"
  obtains b c where "q_increment l = Some b" "q_increment (Invert l) = Some c" "q_increment (Invert b) = Some (Invert l)"
    "l \<noteq> []" "b \<noteq> []"
proof -
  obtain x xs where x: "l = x # xs" "x \<noteq> 0xFF" "0xFF XOR x \<noteq> 0xFF" using encoded_first [OF assms] by blast
  obtain b where b: "q_increment l = Some b" using q_increment_Some [OF _ x(2), of l] x(1) by auto
  obtain c where "q_increment (Invert l) = Some c" using q_increment_Some [OF _ x(3), of "Invert l"] x(1) by (auto simp: Invert_map)
  moreover have "b \<noteq> []" using b Increment_form [of l b] by (auto simp: q_increment_def split: prod.splits if_splits)
  ultimately show ?thesis using that b increment_Invert [OF b] x(1) by blast
qed

text \<open>One bound of an inequality in an ascending and in a descending column.\<close>

lemma low_bound_bytes:
  fixes incl :: bool and z :: byte
  assumes C: "cmpbin_ok (e_cmpbin E)" "cmpbin_sorted (e_cmpbin E)" and ok: "enc_ok p v"
    and e: "WriteIndexProperty (e_cmpbin E) False p = Some l" "WriteIndexProperty (e_cmpbin E) False v = Some e" and z: "z \<noteq> 0"
  defines "ok_v \<equiv> if incl then Compare p v \<le> 0 else Compare p v < 0"
  obtains lo lo' where "bound_bytes E (if incl then ''>='' else ''>'') p ''>'' = Some (Some lo)" "flip_bound (Some lo) = Some (Some lo')"
    "lo \<le> e @ z # rest \<longleftrightarrow> ok_v" "Invert e @ z # rest < lo' \<longleftrightarrow> ok_v"
proof -
  note cmp = enc_compare [OF C ok e]
  have idx: "indexSetting p = ShouldIndex" using ok by (simp add: enc_ok_def)
  obtain b c where b: "q_increment l = Some b" "q_increment (Invert l) = Some c" "q_increment (Invert b) = Some (Invert l)" "l \<noteq> []" "b \<noteq> []"
    by (rule increment_encoded [OF e(1) idx])
  note inv = comparable_Invert [OF cmp(1)]
  have "lo \<le> e @ z # rest \<longleftrightarrow> ok_v" "Invert e @ z # rest < lo' \<longleftrightarrow> ok_v"
    if "lo = (if incl then l else b)" "lo' = (if incl then c else Invert l)" for lo lo'
    using that row_ge [OF cmp(1), of "z # rest"] row_ge_increment [OF cmp(1) b(1) z, of rest]
      row_ge [OF inv, of "z # rest"] row_ge_increment [OF inv b(2) z, of rest] cmp(2,5)
    by (auto simp: ok_v_def sless_Invert_iff not_le [symmetric])
  moreover have "bound_bytes E (if incl then ''>='' else ''>'') p ''>'' = Some (Some (if incl then l else b))"
    "flip_bound (Some (if incl then l else b)) = Some (Some (if incl then c else Invert l))"
    using e(1) b by (simp_all add: bound_bytes_def flip_bound_def ToBytes_def toBytesErr_def)
  ultimately show ?thesis using that by blast
qed

lemma high_bound_bytes:
  fixes incl :: bool and z :: byte
  assumes C: "cmpbin_ok (e_cmpbin E)" "cmpbin_sorted (e_cmpbin E)" and ok: "enc_ok p v"
    and e: "WriteIndexProperty (e_cmpbin E) False p = Some l" "WriteIndexProperty (e_cmpbin E) False v = Some e" and z: "z \<noteq> 0"
  defines "ok_v \<equiv> if incl then Compare v p \<le> 0 else Compare v p < 0"
  obtains hi hi' where "bound_bytes E (if incl then ''<='' else ''<'') p ''<='' = Some (Some hi)" "flip_bound (Some hi) = Some (Some hi')"
    "e @ z # rest < hi \<longleftrightarrow> ok_v" "hi' \<le> Invert e @ z # rest \<longleftrightarrow> ok_v"
proof -
  note cmp = enc_compare [OF C ok e]
  have idx: "indexSetting p = ShouldIndex" using ok by (simp add: enc_ok_def)
  obtain b c where b: "q_increment l = Some b" "q_increment (Invert l) = Some c" "q_increment (Invert b) = Some (Invert l)" "l \<noteq> []" "b \<noteq> []"
    by (rule increment_encoded [OF e(1) idx])
  note inv = comparable_Invert [OF cmp(1)]
  have "e @ z # rest < hi \<longleftrightarrow> ok_v" "hi' \<le> Invert e @ z # rest \<longleftrightarrow> ok_v"
    if "hi = (if incl then b else l)" "hi' = (if incl then Invert l else c)" for hi hi'
    using that row_ge [OF cmp(1), of "z # rest"] row_ge_increment [OF cmp(1) b(1) z, of rest]
      row_ge [OF inv, of "z # rest"] row_ge_increment [OF inv b(2) z, of rest] cmp(3,4)
    by (auto simp: ok_v_def sless_Invert_iff not_le [symmetric])
  moreover have "bound_bytes E (if incl then ''<='' else ''<'') p ''<='' = Some (Some (if incl then b else l))"
    "flip_bound (Some (if incl then b else l)) = Some (Some (if incl then Invert l else c))"
    using e(1) b by (simp_all add: bound_bytes_def flip_bound_def ToBytes_def toBytesErr_def)
  ultimately show ?thesis using that by blast
qed

section \<open>The bounds of an inequality\<close>

lemma index_encodes: "WriteIndexProperty C False p = Some (prop_bytes C p)"
  by (cases "pvalue p") (simp_all add: prop_bytes_def ToBytes_def toBytesErr_def WriteIndexProperty_def writePropertyImpl_def
      index_value_defs writeIndexValue_def)

text \<open>What a value has to satisfy, and the bounds in the two directions, when they are set.\<close>

definition low_ok :: "FinalizedQuery \<Rightarrow> Property \<Rightarrow> bool" where
  "low_ok fq v \<longleftrightarrow> (fq_ineqFiltLowSet fq \<longrightarrow>
     (if fq_ineqFiltLowIncl fq then Compare (fq_ineqFiltLow fq) v \<le> 0 else Compare (fq_ineqFiltLow fq) v < 0))"

definition high_ok :: "FinalizedQuery \<Rightarrow> Property \<Rightarrow> bool" where
  "high_ok fq v \<longleftrightarrow> (fq_ineqFiltHighSet fq \<longrightarrow>
     (if fq_ineqFiltHighIncl fq then Compare v (fq_ineqFiltHigh fq) \<le> 0 else Compare v (fq_ineqFiltHigh fq) < 0))"

lemma low_side:
  fixes E :: "'s dsenv" and z :: byte
  assumes C: "cmpbin_ok (e_cmpbin E)" "cmpbin_sorted (e_cmpbin E)" and z: "z \<noteq> 0"
    and ok: "fq_ineqFiltLowSet fq \<longrightarrow> enc_ok (fq_ineqFiltLow fq) v"
  obtains lo lo' where "(case IneqFilterLow fq of (_, op, v) \<Rightarrow> bound_bytes E op v ''>'') = Some lo" "flip_bound lo = Some lo'"
    "bytes_of lo \<le> prop_bytes (e_cmpbin E) v @ z # rest \<longleftrightarrow> low_ok fq v"
    "(case lo' of None \<Rightarrow> True | Some b \<Rightarrow> Invert (prop_bytes (e_cmpbin E) v) @ z # rest < b) \<longleftrightarrow> low_ok fq v"
proof (cases "fq_ineqFiltLowSet fq")
  case True
  then have "enc_ok (fq_ineqFiltLow fq) v" using ok by simp
  from low_bound_bytes [OF C this index_encodes index_encodes z, of "fq_ineqFiltLowIncl fq" rest]
  obtain b b' where "bound_bytes E (if fq_ineqFiltLowIncl fq then ''>='' else ''>'') (fq_ineqFiltLow fq) ''>'' = Some (Some b)"
    "flip_bound (Some b) = Some (Some b')" "b \<le> prop_bytes (e_cmpbin E) v @ z # rest \<longleftrightarrow> low_ok fq v"
    "Invert (prop_bytes (e_cmpbin E) v) @ z # rest < b' \<longleftrightarrow> low_ok fq v"
    using True unfolding low_ok_def by metis
  then show ?thesis using True by (intro that [of "Some b" "Some b'"]) (simp_all add: IneqFilterLow_def bytes_of_def)
next
  case False
  then show ?thesis
    by (intro that [of None None]) (simp_all add: IneqFilterLow_def bound_bytes_def flip_bound_def bytes_of_def low_ok_def)
qed

lemma high_side:
  fixes E :: "'s dsenv" and z :: byte
  assumes C: "cmpbin_ok (e_cmpbin E)" "cmpbin_sorted (e_cmpbin E)" and z: "z \<noteq> 0"
    and ok: "fq_ineqFiltHighSet fq \<longrightarrow> enc_ok (fq_ineqFiltHigh fq) v"
  obtains hi hi' where "(case IneqFilterHigh fq of (_, op, v) \<Rightarrow> bound_bytes E op v ''<='') = Some hi" "flip_bound hi = Some hi'"
    "(case hi of None \<Rightarrow> True | Some b \<Rightarrow> prop_bytes (e_cmpbin E) v @ z # rest < b) \<longleftrightarrow> high_ok fq v"
    "bytes_of hi' \<le> Invert (prop_bytes (e_cmpbin E) v) @ z # rest \<longleftrightarrow> high_ok fq v"
proof (cases "fq_ineqFiltHighSet fq")
  case True
  then have "enc_ok (fq_ineqFiltHigh fq) v" using ok by simp
  from high_bound_bytes [OF C this index_encodes index_encodes z, of "fq_ineqFiltHighIncl fq" rest]
  obtain b b' where "bound_bytes E (if fq_ineqFiltHighIncl fq then ''<='' else ''<'') (fq_ineqFiltHigh fq) ''<='' = Some (Some b)"
    "flip_bound (Some b) = Some (Some b')" "prop_bytes (e_cmpbin E) v @ z # rest < b \<longleftrightarrow> high_ok fq v"
    "b' \<le> Invert (prop_bytes (e_cmpbin E) v) @ z # rest \<longleftrightarrow> high_ok fq v"
    using True unfolding high_ok_def by metis
  then show ?thesis using True by (intro that [of "Some b" "Some b'"]) (simp_all add: IneqFilterHigh_def bytes_of_def)
next
  case False
  then show ?thesis
    by (intro that [of None None]) (simp_all add: IneqFilterHigh_def bound_bytes_def flip_bound_def bytes_of_def high_ok_def)
qed

text \<open>
  C15. \<^verbatim>\<open>GetBinaryBounds\<close> translates an inequality exactly and never panics: the row of a value, followed
  by whatever column comes next, lies in the byte range from the first bound up to, not including, the
  second if and only if the value satisfies the query's lower and upper bounds, strict or not, present or
  not, in an ascending as in a descending column, where the bounds are inverted, exchanged and incremented.
\<close>

theorem GetBinaryBounds_exact:
  fixes E :: "'s dsenv" and z :: byte
  assumes "cmpbin_ok (e_cmpbin E)" "cmpbin_sorted (e_cmpbin E)" "fq_ineqFiltProp fq \<noteq> ''''" "fq_orders fq = col # cols"
    and "fq_ineqFiltLowSet fq \<longrightarrow> enc_ok (fq_ineqFiltLow fq) v" "fq_ineqFiltHighSet fq \<longrightarrow> enc_ok (fq_ineqFiltHigh fq) v"
    and "z \<noteq> 0"
  shows "\<exists>lo hi. GetBinaryBounds E fq = Some (lo, hi) \<and>
    (in_range lo hi (column_bytes (Descending col) (prop_bytes (e_cmpbin E) v) @ z # rest) \<longleftrightarrow> fq_in_bounds fq v)"
proof -
  let ?e = "prop_bytes (e_cmpbin E) v"
  obtain lo lo' where lo: "(case IneqFilterLow fq of (_, op, v) \<Rightarrow> bound_bytes E op v ''>'') = Some lo" "flip_bound lo = Some lo'"
    "bytes_of lo \<le> ?e @ z # rest \<longleftrightarrow> low_ok fq v" "(case lo' of None \<Rightarrow> True | Some b \<Rightarrow> Invert ?e @ z # rest < b) \<longleftrightarrow> low_ok fq v"
    by (rule low_side [OF assms(1,2,7,5)])
  obtain hi hi' where hi: "(case IneqFilterHigh fq of (_, op, v) \<Rightarrow> bound_bytes E op v ''<='') = Some hi" "flip_bound hi = Some hi'"
    "(case hi of None \<Rightarrow> True | Some b \<Rightarrow> ?e @ z # rest < b) \<longleftrightarrow> high_ok fq v" "bytes_of hi' \<le> Invert ?e @ z # rest \<longleftrightarrow> high_ok fq v"
    by (rule high_side [OF assms(1,2,7,6)])
  have gb: "GetBinaryBounds E fq = Some (if Descending col then (hi', lo') else (lo, hi))"
    unfolding GetBinaryBounds_def lo(1) hi(1) assms(4) using assms(3) lo(2) hi(2) by simp
  have "fq_in_bounds fq v \<longleftrightarrow> low_ok fq v \<and> high_ok fq v" by (simp add: fq_in_bounds_def low_ok_def high_ok_def)
  then show ?thesis
    using gb lo(3,4) hi(3,4) by (cases "Descending col") (simp_all add: in_range_def column_bytes_def conj_commute)
qed

definition ex_int :: "int64 \<Rightarrow> Property" where
  "ex_int n = \<lparr>pvalue = PInt n, indexSetting = ShouldIndex\<rparr>"

theorem GetBinaryBounds_exact_witness:
  "\<exists>fq lo hi. Finalize (Query_Lte (Query_Order (NewQuery ''K'') [''-a'']) ''a'' (GInt 7)) = Inr fq \<and>
    GetBinaryBounds simple_env fq = Some (lo, hi) \<and>
    in_range lo hi (column_bytes True (prop_bytes simple_cmpbin (ex_int 7)) @ [0x88]) \<and>
    \<not> in_range lo hi (column_bytes True (prop_bytes simple_cmpbin (ex_int 8)) @ [0x88])"
proof -
  let ?q = "Query_Lte (Query_Order (NewQuery ''K'') [''-a'']) ''a'' (GInt 7)"
  have "case Finalize ?q of Inl _ \<Rightarrow> False | Inr fq \<Rightarrow> fq_ineqFiltProp fq = ''a'' \<and> \<not> fq_ineqFiltLowSet fq \<and> fq_ineqFiltHighSet fq \<and>
      fq_ineqFiltHighIncl fq \<and> fq_ineqFiltHigh fq = ex_int 7 \<and> fq_orders fq = [\<lparr>col_Property = ''a'', Descending = True\<rparr>, asc ''__key__'']"
    by code_simp
  then obtain fq where fq: "Finalize ?q = Inr fq" "fq_ineqFiltProp fq \<noteq> ''''" "\<not> fq_ineqFiltLowSet fq" "fq_ineqFiltHighSet fq"
    "fq_ineqFiltHighIncl fq" "fq_ineqFiltHigh fq = ex_int 7" "fq_orders fq = [\<lparr>col_Property = ''a'', Descending = True\<rparr>, asc ''__key__'']"
    by (cases "Finalize ?q") auto
  have C: "cmpbin_ok (e_cmpbin simple_env)" "cmpbin_sorted (e_cmpbin simple_env)" "e_cmpbin simple_env = simple_cmpbin"
    by (simp_all add: simple_env_def simple_cmpbin_ok simple_cmpbin_sorted)
  have ok: "enc_ok (ex_int 7) (ex_int n)" for n by (simp add: enc_ok_def ex_int_def index_canonical_def same_context_def)
  have z: "(0x88 :: byte) \<noteq> 0" by simp
  have b: "\<exists>lo hi. GetBinaryBounds simple_env fq = Some (lo, hi) \<and>
      (in_range lo hi (column_bytes True (prop_bytes simple_cmpbin (ex_int n)) @ [0x88]) \<longleftrightarrow> fq_in_bounds fq (ex_int n))" for n
    using GetBinaryBounds_exact [OF C(1,2) fq(2,7) _ _ z, of "ex_int n" "[]"] ok fq(3,6) C(3) by simp
  have "fq_in_bounds fq (ex_int 7)" "\<not> fq_in_bounds fq (ex_int 8)"
    using fq(3-6) by (simp_all add: fq_in_bounds_def ex_int_def Compare_def prop_compare_def index_value_defs)
  then show ?thesis using fq(1) b [of 7] b [of 8] by auto
qed

end
