(* ===== verification/Query_Cursor.thy ===== *)
theory Query_Cursor
  imports Query_Bounds
begin

text \<open>
  Cursors: their text form, what decoding gives back, and that a query that starts at a cursor
  goes on with the rows after the one the cursor was taken at.
\<close>

section \<open>Base 64\<close>

lemma b64_digit_char: "n < 64 \<Longrightarrow> b64_digit (b64_char n) = Some n \<and> b64_char n \<noteq> CHR 0x0A \<and> b64_char n \<noteq> CHR 0x0D"
proof -
  have "list_all (\<lambda>n. b64_digit (b64_char n) = Some n \<and> b64_char n \<noteq> CHR 0x0A \<and> b64_char n \<noteq> CHR 0x0D) [0..<64]" by code_simp
  then show "n < 64 \<Longrightarrow> b64_digit (b64_char n) = Some n \<and> b64_char n \<noteq> CHR 0x0A \<and> b64_char n \<noteq> CHR 0x0D" by (simp add: list_all_iff)
qed

lemma base64_digits:
  fixes n :: nat
  shows "n div 262144 * 262144 + n div 4096 mod 64 * 4096 + n div 64 mod 64 * 64 + n mod 64 = n"
    "n div 4096 * 4096 + n div 64 mod 64 * 64 + n mod 64 = n" "n div 64 * 64 + n mod 64 = n"
proof -
  have d: "n div 4096 = n div 64 div 64" "n div 262144 = n div 64 div 64 div 64" by (simp_all add: div_mult2_eq)
  show "n div 64 * 64 + n mod 64 = n" by simp
  then show two: "n div 4096 * 4096 + n div 64 mod 64 * 64 + n mod 64 = n"
    unfolding d using div_mult_mod_eq [of "n div 64" 64] by linarith
  then show "n div 262144 * 262144 + n div 4096 mod 64 * 4096 + n div 64 mod 64 * 64 + n mod 64 = n"
    unfolding d using div_mult_mod_eq [of "n div 64 div 64" 64] by linarith
qed

lemma byte_groups:
  fixes a b c :: byte
  shows "(unat a * 65536 + unat b * 256 + unat c) div 65536 = unat a" "(unat a * 65536 + unat b * 256 + unat c) div 256 mod 256 = unat b"
    "(unat a * 65536 + unat b * 256 + unat c) mod 256 = unat c" "(unat a * 65536 + unat b * 256 + unat c) div 262144 < 64"
    "(unat a * 1024 + unat b * 4) div 1024 = unat a" "(unat a * 1024 + unat b * 4) div 4 mod 256 = unat b"
    "(unat a * 1024 + unat b * 4) div 4096 < 64" "unat a * 16 div 64 < 64"
proof -
  have lt: "unat a < 256" "unat b < 256" "unat c < 256"
    using unsigned_less [of a, where 'a = nat] unsigned_less [of b, where 'a = nat] unsigned_less [of c, where 'a = nat] by simp_all
  have "(unat a * 65536 + unat b * 256 + unat c) div 256 = unat a * 256 + unat b" using lt by (intro div_nat_eqI) simp_all
  moreover have "(unat a * 256 + unat b) mod 256 = unat b" using lt by simp
  ultimately show "(unat a * 65536 + unat b * 256 + unat c) div 256 mod 256 = unat b" by simp
  show "(unat a * 65536 + unat b * 256 + unat c) mod 256 = unat c" using lt by (simp add: mod_simps flip: mod_add_eq)
  show "(unat a * 65536 + unat b * 256 + unat c) div 65536 = unat a" "(unat a * 65536 + unat b * 256 + unat c) div 262144 < 64"
    "(unat a * 1024 + unat b * 4) div 1024 = unat a" "(unat a * 1024 + unat b * 4) div 4096 < 64" "unat a * 16 div 64 < 64"
    using lt by (simp_all add: div_nat_eqI less_mult_imp_div_less)
  have "(unat a * 1024 + unat b * 4) div 4 = unat a * 256 + unat b" using lt by (intro div_nat_eqI) simp_all
  then show "(unat a * 1024 + unat b * 4) div 4 mod 256 = unat b" using lt by simp
qed

lemma b64_round_trip: "b64_decode (b64_encode q) = Some q"
proof -
  have "\<exists>ds. b64_digits (b64_encode q) = Some ds \<and> b64_bytes ds = Some q \<and>
      filter (\<lambda>c. c \<noteq> CHR 0x0A \<and> c \<noteq> CHR 0x0D) (b64_encode q) = b64_encode q"
  proof (induction q rule: b64_encode.induct [case_names three two one none])
    case (three a b c bs)
    let ?n = "unat a * 65536 + unat b * 256 + unat c"
    obtain ds where "b64_digits (b64_encode bs) = Some ds" "b64_bytes ds = Some bs"
      "filter (\<lambda>c. c \<noteq> CHR 0x0A \<and> c \<noteq> CHR 0x0D) (b64_encode bs) = b64_encode bs" using three [OF refl] by blast
    then show ?case
      using b64_digit_char base64_digits(1) [of ?n] byte_groups(1-4) [of a b c]
      by (intro exI [of _ "?n div 262144 # ?n div 4096 mod 64 # ?n div 64 mod 64 # ?n mod 64 # ds"]) (simp add: Let_def)
  next
    case (two a b)
    let ?n = "unat a * 1024 + unat b * 4"
    show ?case using b64_digit_char base64_digits(2) [of ?n] byte_groups(5-7) [of a b]
      by (intro exI [of _ "[?n div 4096, ?n div 64 mod 64, ?n mod 64]"]) (simp add: Let_def)
  next
    case (one a)
    show ?case using b64_digit_char base64_digits(3) [of "unat a * 16"] byte_groups(8) [of a]
      by (intro exI [of _ "[unat a * 16 div 64, unat a * 16 mod 64]"]) (simp add: Let_def)
  qed simp
  then show ?thesis by (auto simp: b64_decode_def)
qed

section \<open>Rows of one format\<close>

text \<open>A row of the given columns: encoded values, the last of them a key.\<close>

definition row_of :: "cmpbin \<Rightarrow> IndexColumn list \<Rightarrow> (IndexColumn \<times> byte list) list \<Rightarrow> bool" where
  "row_of C cols cvs \<longleftrightarrow> map fst cvs = cols \<and> cvs \<noteq> [] \<and> snd ` set cvs \<subseteq> column_values C \<and>
     (\<exists>ts. toks_storable ts \<and> snd (last cvs) = key_bytes C ts)"

lemma column_join_simps [simp]:
  "column_join [] = []" "column_join ((col, v) # cvs) = column_bytes (Descending col) v @ column_join cvs"
  "column_join (cvs @ cvs') = column_join cvs @ column_join cvs'"
  by (simp_all add: column_join_def)

lemma column_join_inj:
  assumes "prefix_free A"
  shows "map fst cvs = map fst cvs' \<Longrightarrow> snd ` set cvs \<subseteq> A \<Longrightarrow> snd ` set cvs' \<subseteq> A \<Longrightarrow>
    column_join cvs @ u = column_join cvs' @ v \<Longrightarrow> cvs = cvs' \<and> u = v"
proof (induction cvs arbitrary: cvs')
  case (Cons cv cvs)
  obtain col x where cv: "cv = (col, x)" by force
  then obtain y ds where cvs': "cvs' = (col, y) # ds" "map fst cvs = map fst ds" using Cons.prems(1) by (cases cvs') auto
  have "column_bytes (Descending col) x @ column_join cvs @ u = column_bytes (Descending col) y @ column_join ds @ v"
    using Cons.prems(4) by (simp add: cv cvs'(1))
  from prefix_free_column [OF assms _ _ this] have "x = y" "column_join cvs @ u = column_join ds @ v"
    using Cons.prems(2,3) by (auto simp: cv cvs'(1))
  then show ?case using Cons.IH [OF cvs'(2)] Cons.prems(2,3) by (auto simp: cv cvs'(1))
qed simp

lemma WriteKeyTok_nonzero: "\<not> set (WriteKeyTok C t) \<subseteq> {0}"
  by (auto simp: WriteKeyTok_def)

text \<open>A key does not consist of a shorter key and, in place of its end mark, 1 and zeros.\<close>

lemma key_tail:
  assumes C: "cmpbin_ok C" and ts: "toks_storable ts" "toks_storable ts'"
    and k: "key_bytes C ts' = K @ [0]" "key_bytes C ts = K @ 1 # replicate n 0"
  shows False
proof -
  let ?w = "\<lambda>ts. concat (map (\<lambda>tok. 1 # WriteKeyTok C tok) ts)"
  have kb: "key_bytes C ts = 0x88 # 0 # ?w ts @ [0]" for ts by (simp add: key_bytes_def WriteKey_def Key_Split_def)
  have K: "K = 0x88 # 0 # ?w ts'" using k(1) unfolding kb by (metis append_Cons butlast_snoc)
  then have "?w ts @ [0] = ?w ts' @ 1 # replicate n 0" using k(2) unfolding kb by simp
  moreover have "list_all tok_storable ts" "list_all tok_storable ts'" using ts by (simp_all add: toks_storable_def)
  ultimately show False
  proof (induction ts' arbitrary: ts)
    case Nil
    then obtain t us where t: "ts = t # us" by (cases ts) auto
    then have "WriteKeyTok C t @ ?w us @ [0] = replicate n 0" using Nil(1) by simp
    then have "set (WriteKeyTok C t @ ?w us @ [0]) \<subseteq> {0}" by (simp only: set_replicate_conv_if) simp
    then have "set (WriteKeyTok C t) \<subseteq> {0}" by simp
    then show False using WriteKeyTok_nonzero by blast
  next
    case (Cons t' us')
    then obtain t us where t: "ts = t # us" by (cases ts) auto
    let ?a = "?w us @ [0]" and ?b = "?w us' @ 1 # replicate n 0"
    have eq: "WriteKeyTok C t @ ?a = WriteKeyTok C t' @ ?b" using Cons.prems(1) t by simp
    have st: "tok_storable t" "tok_storable t'" using Cons.prems(2,3) t by simp_all
    have "Inr (t, ?a) = (Inr (t', ?b) :: serror + KeyTok \<times> byte list)"
      using ReadKeyTok_Write [OF C st(1), of ?a] ReadKeyTok_Write [OF C st(2), of ?b] unfolding eq by (rule trans [OF sym])
    then have "?a = ?b" by (simp only: sum.inject prod.inject)
    then show False using Cons.IH [of us] Cons.prems(2,3) t by simp
  qed
qed

lemma key_bytes_end: "\<exists>K. key_bytes C ts = K @ [0]"
  by (simp add: key_bytes_def WriteKey_def Key_Split_def)

text \<open>No row is a proper beginning of the bound after another.\<close>

lemma row_not_prefix_bound:
  assumes C: "cmpbin_ok C" "cmpbin_sorted C" and r: "row_of C cols cvs" "row_of C cols cvs'"
    and b: "q_increment (column_join cvs) = Some b"
  shows "\<not> strict_prefix (column_join cvs') b"
proof
  assume sp: "strict_prefix (column_join cvs') b"
  let ?s = "column_join cvs" and ?x = "column_join cvs'"
  obtain p c n where f: "?s = p @ c # replicate n 0xFF" "c \<noteq> 0xFF" "b = p @ (c + 1) # replicate n 0"
    using b Increment_form [of ?s b] by (auto simp: q_increment_def split: prod.splits if_splits)
  note pf = column_values_prefix_free [OF C]
  have rr: "map fst cvs' = map fst cvs" "snd ` set cvs \<subseteq> column_values C" "snd ` set cvs' \<subseteq> column_values C"
    using r by (simp_all add: row_of_def)
  have lt: "length ?x < length ?s" using prefix_length_less [OF sp] f by simp
  have npre: "\<not> prefix ?x p"
  proof
    assume "prefix ?x p"
    then have "prefix ?x ?s" by (simp add: f(1))
    then obtain u where "?x @ u = ?s @ []" by (auto simp: prefix_def)
    from column_join_inj [OF pf rr(1,3,2) this] lt show False by simp
  qed
  obtain ws col kb where w: "cvs = ws @ [(col, kb)]" using r(1) by (cases cvs rule: rev_cases) (auto simp: row_of_def)
  obtain ws' kb' where w': "cvs' = ws' @ [(col, kb')]" "map fst ws' = map fst ws"
    using rr(1) unfolding w by (cases cvs' rule: rev_cases) auto
  obtain ts ts' where ts: "toks_storable ts" "kb = key_bytes C ts" "toks_storable ts'" "kb' = key_bytes C ts'"
    using r w w'(1) by (auto simp: row_of_def)
  obtain K K' where K: "kb = K @ [0]" "kb' = K' @ [0]" using key_bytes_end ts by metis
  obtain m where m: "?x = p @ (c + 1) # replicate m 0" "m \<le> n"
  proof -
    have "prefix ?x (p @ (c + 1) # replicate n 0)" using sp unfolding f(3) by (rule prefix_order.less_imp_le)
    then obtain y where y: "?x = p @ y" "prefix y ((c + 1) # replicate n 0)" using npre unfolding prefix_append by blast
    then obtain z where z: "y = (c + 1) # z" "prefix z (replicate n 0)" using npre by (cases y) auto
    moreover from z(2) have "set z \<subseteq> {0}" using set_mono_prefix by (force simp: set_replicate_conv_if split: if_splits)
    moreover from this have "replicate (length z) 0 = z" by (intro replicate_length_same) auto
    ultimately have "z = replicate (length z) 0" "length z \<le> n" using prefix_length_le [OF z(2)] by simp_all
    then show ?thesis using that y(1) z(1) by metis
  qed
  show False
  proof (cases "Descending col")
    case False
    then have "last ?s = 0" using w K by (simp add: column_bytes_def)
    then have "n = 0" using f(1) by (cases n) (simp_all split: if_splits)
    then show False using m(1) lt f(1) by simp
  next
    case True
    have inv: "Invert (K @ [0]) = Invert K @ [0xFF]" for K by (simp add: Invert_map)
    have x: "?x = column_join ws' @ Invert K' @ [0xFF]" using w'(1) K(2) True by (simp add: column_bytes_def inv)
    then have "last ?x = 0xFF" by simp
    then have "m = 0" using m(1) by (cases m) (simp_all split: if_splits)
    then have "p = column_join ws' @ Invert K'" and "c + 1 = 0xFF" using m(1) x by simp_all
    moreover from this(2) have "c = 0xFF - 1" by (simp only: eq_diff_eq)
    moreover have "(0xFF - 1 :: byte) = 0xFE" by simp
    ultimately have "column_join ws @ Invert kb = column_join ws' @ Invert K' @ 0xFE # replicate n 0xFF"
      using f(1) w True by (simp add: column_bytes_def)
    from column_join_inj [OF pf w'(2) [symmetric] _ _ this] have "Invert kb = Invert K' @ 0xFE # replicate n 0xFF"
      using rr(2,3) w w'(1) by auto
    then have "kb = Invert (Invert K' @ 0xFE # replicate n 0xFF)" using Invert_Invert [of kb] by simp
    also have "\<dots> = Invert (Invert K') @ 1 # replicate n 0" by (simp only: Invert_map) simp
    finally have "kb = K' @ 1 # replicate n 0" by (simp only: Invert_Invert)
    then show False using key_tail [OF C(1) ts(1,3), of K' n] K(2) ts by simp
  qed
qed

section \<open>Property\<close>

lemma read_columns_write:
  assumes "cmpbin_ok C"
  shows "read_columns C (length cols) (concat (map (WriteIndexColumn C) cols) @ rest) = Inr (cols, rest)"
  by (induction cols) (simp_all add: rd_ret_def rd_bind_def ReadIndexColumn_Write [OF assms])

lemma sortOrdersEqual_iff: "sortOrdersEqual as bs \<longleftrightarrow> as = bs"
  by (induction as bs rule: sortOrdersEqual.induct) auto

lemma cursor_decode_prefix:
  assumes C: "cmpbin_ok (e_cmpbin E)" and cols: "cols \<noteq> []" "length cols \<le> MaxIndexColumns" "col_Property (last cols) = ''__key__''"
  shows "cursor_decode (e_cmpbin E) (cursorPrefix E cols @ b) = Inr (cols, b)"
proof -
  have "length cols < 2 ^ 64" using cols(2) by (simp add: MaxIndexColumns_def)
  then have n: "unat (of_nat (length cols) :: uint64) = length cols" by (simp add: unat_of_nat)
  then have "(of_nat (length cols) :: uint64) \<noteq> 0" using cols(1) by (metis length_0_conv unat_0)
  moreover have "rUint (e_cmpbin E) (wUint (e_cmpbin E) u @ r) = Inr (u, r)" for u r
    using C by (simp add: cmpbin_ok_def reads_back_def)
  ultimately show ?thesis
    using n cols read_columns_write [OF C, of cols b] by (simp add: cursor_decode_def cursorPrefix_def)
qed

text \<open>
  C16. Cursors resume a query. For a row of the query's format (at most \<^verbatim>\<open>MaxIndexColumns\<close> columns ending
  with the key) the function handed to the callback returns a cursor and does not panic; the
  cursor's text form is decoded to the same cursor; used with a query of the same format it stands
  for a position, and of the other rows of that format exactly those that come after the row
  are at or beyond it, so that as a start cursor it resumes after the row and as an end cursor it stops
  with it, whether the key column is ascending or descending.
\<close>

theorem cursor_resumes:
  fixes E :: "'s dsenv"
  assumes "cmpbin_ok (e_cmpbin E)" "cmpbin_sorted (e_cmpbin E)"
    and "length cols \<le> MaxIndexColumns" "col_Property (last cols) = ''__key__''"
    and "row_of (e_cmpbin E) cols cvs" "row_of (e_cmpbin E) cols cvs'"
  shows "\<exists>q b. getCursorFn E cols (column_join cvs) = Some (Inr (queryCursor q)) \<and>
    newCursor (e_cmpbin E) (Cursor_String (queryCursor q)) = Inr (queryCursor q) \<and>
    cursor_row E cols err (queryCursor q) = Inr b \<and>
    (b \<le> column_join cvs' \<longleftrightarrow> column_join cvs < column_join cvs')"
proof -
  let ?C = "e_cmpbin E" and ?s = "column_join cvs" and ?x = "column_join cvs'"
  have cols: "cols \<noteq> []" using assms(5) by (auto simp: row_of_def)
  obtain ws col kb where w: "cvs = ws @ [(col, kb)]" using assms(5) by (cases cvs rule: rev_cases) (auto simp: row_of_def)
  obtain ts where "kb = key_bytes ?C ts" using assms(5) w by (auto simp: row_of_def)
  then have "(if Descending col then 0x77 else 0x88) \<in> set ?s"
    using w by (simp add: key_bytes_def column_bytes_def Invert_map)
  moreover have "(if Descending col then 0x77 else 0x88) \<noteq> (0xFF :: byte)" by simp
  ultimately obtain b where b: "q_increment ?s = Some b" using q_increment_Some by blast
  let ?q = "cursorPrefix E cols @ b"
  note dec = cursor_decode_prefix [OF assms(1) cols assms(3,4), of b]
  have "newCursor ?C (Cursor_String (queryCursor ?q)) = Inr (queryCursor ?q)"
    using dec by (simp add: newCursor_def b64_round_trip)
  moreover have "cursor_row E cols err (queryCursor ?q) = Inr b" using dec by (simp add: cursor_row_def sortOrdersEqual_iff)
  moreover have "getCursorFn E cols ?s = Some (Inr (queryCursor ?q))" using b by (simp add: getCursorFn_def Join_def)
  moreover have "b \<le> ?x \<longleftrightarrow> ?s < ?x"
  proof -
    have "\<not> prefix ?s ?x" if lt: "?s < ?x"
    proof
      assume "prefix ?s ?x"
      then obtain u where "?s @ u = ?x @ []" by (auto simp: prefix_def)
      from column_join_inj [OF column_values_prefix_free [OF assms(1,2)] _ _ _ this] have "cvs = cvs'"
        using assms(5,6) by (simp add: row_of_def)
      then show False using lt by simp
    qed
    then show ?thesis using increment_le [OF b row_not_prefix_bound [OF assms(1,2,5,6) b]] by blast
  qed
  ultimately show ?thesis by blast
qed

theorem cursor_resumes_witness:
  "\<exists>q b. getCursorFn simple_env [asc ''__key__''] (key_bytes simple_cmpbin [mkTok ''K'' 1 '''']) = Some (Inr (queryCursor q)) \<and>
    newCursor simple_cmpbin (Cursor_String (queryCursor q)) = Inr (queryCursor q) \<and>
    cursor_row simple_env [asc ''__key__''] QRStartCursor (queryCursor q) = Inr b \<and> \<not> b \<le> key_bytes simple_cmpbin [mkTok ''K'' 1 '''']"
proof -
  let ?cvs = "[(asc ''__key__'', key_bytes simple_cmpbin [mkTok ''K'' 1 ''''])]"
  have C: "cmpbin_ok (e_cmpbin simple_env)" "cmpbin_sorted (e_cmpbin simple_env)" "e_cmpbin simple_env = simple_cmpbin"
    by (simp_all add: simple_env_def simple_cmpbin_ok simple_cmpbin_sorted)
  have ts: "toks_storable [mkTok ''K'' 1 '''']"
    by (simp add: toks_storable_def tok_storable_def mkTok_def ReadKeyNumToksReasonableLimit_def)
  then have "prop_storable (key_prop (path_key [mkTok ''K'' 1 '''']))"
    by (simp add: prop_storable_def prop_ok_def key_prop_def key_storable_toks path_key_def)
  from column_value [OF simple_cmpbin_ok simple_cmpbin_sorted this]
  have "key_bytes simple_cmpbin [mkTok ''K'' 1 ''''] \<in> column_values simple_cmpbin"
    using prop_bytes_key [of simple_cmpbin False "path_key [mkTok ''K'' 1 '''']"] by (simp add: prop_bytes_def path_key_def)
  then have r: "row_of (e_cmpbin simple_env) [asc ''__key__''] ?cvs" using ts C(3) by (auto simp: row_of_def)
  have "length [asc ''__key__''] \<le> MaxIndexColumns" "col_Property (last [asc ''__key__'']) = ''__key__''"
    by (simp_all add: MaxIndexColumns_def)
  from cursor_resumes [OF C(1,2) this r r, of QRStartCursor] show ?thesis by (simp add: C(3) column_bytes_def)
qed

end
