(* ===== verification/Query_Rows.thy ===== *)
theory Query_Rows
  imports Query_Cursor
begin

text \<open>
  What the ranges of a query have in common: the suffixes of the rows of exactly the
  entities that satisfy its equality filters.
\<close>

section \<open>Values of an entity\<close>

text \<open>The encoded values of a stored entity under a name.\<close>

definition ent_vals :: "cmpbin \<Rightarrow> KeyTok list \<Rightarrow> PropertyMap \<Rightarrow> string \<Rightarrow> byte list set" where
  "ent_vals C ts pm p = (case PropertyMapPartially C (Some (path_key ts)) pm p of None \<Rightarrow> {} | Some vs \<Rightarrow> set vs)"

text \<open>A row with one value of the entity in each column.\<close>

definition ent_row :: "cmpbin \<Rightarrow> KeyTok list \<Rightarrow> PropertyMap \<Rightarrow> (IndexColumn \<times> byte list) list \<Rightarrow> bool" where
  "ent_row C ts pm cvs \<longleftrightarrow> (\<forall>(col, v) \<in> set cvs. v \<in> ent_vals C ts pm (col_Property col))"

lemma ent_row_simps [simp]:
  "ent_row C ts pm []" "ent_row C ts pm ((col, v) # cvs) \<longleftrightarrow> v \<in> ent_vals C ts pm (col_Property col) \<and> ent_row C ts pm cvs"
  "ent_row C ts pm (cvs @ cvs') \<longleftrightarrow> ent_row C ts pm cvs \<and> ent_row C ts pm cvs'"
  by (auto simp: ent_row_def)

lemma index_rows_join:
  "set (index_rows (map f cols) (map Descending cols)) =
     {column_join cvs | cvs. map fst cvs = cols \<and> (\<forall>(col, v) \<in> set cvs. v \<in> set (f col))}"
proof (induction cols)
  case Nil
  then show ?case by simp
next
  case (Cons col cols)
  show ?case
  proof (intro set_eqI iffI)
    fix r assume "r \<in> set (index_rows (map f (col # cols)) (map Descending (col # cols)))"
    then obtain v r' where "v \<in> set (f col)" "r' \<in> set (index_rows (map f cols) (map Descending cols))"
      "r = column_bytes (Descending col) v @ r'" unfolding list.map set_index_rows_Cons by blast
    moreover from this(2) obtain cvs where "r' = column_join cvs" "map fst cvs = cols" "\<forall>(col, v) \<in> set cvs. v \<in> set (f col)"
      unfolding Cons.IH by blast
    ultimately show "r \<in> {column_join cvs | cvs. map fst cvs = col # cols \<and> (\<forall>(col, v) \<in> set cvs. v \<in> set (f col))}"
      by (intro CollectI exI [of _ "(col, v) # cvs"]) simp
  next
    fix r assume "r \<in> {column_join cvs | cvs. map fst cvs = col # cols \<and> (\<forall>(col, v) \<in> set cvs. v \<in> set (f col))}"
    then obtain v cvs where "r = column_bytes (Descending col) v @ column_join cvs" "map fst cvs = cols" "v \<in> set (f col)"
      "\<forall>(col, v) \<in> set cvs. v \<in> set (f col)" by force
    then show "r \<in> set (index_rows (map f (col # cols)) (map Descending (col # cols)))"
      unfolding list.map set_index_rows_Cons Cons.IH by blast
  qed
qed

text \<open>The rows an entity contributes to the table of an index, when the index applies to it.\<close>

lemma def_rows_join:
  "(\<exists>rs. def_rows (Kind (last ts)) (PropertyMapPartially C (Some (path_key ts)) pm) i = Some rs \<and> r \<in> set rs) \<longleftrightarrow>
    (ix_Kind i = '''' \<or> ix_Kind i = Kind (last ts)) \<and>
    (\<exists>cvs. r = column_join cvs \<and> map fst cvs = GetFullSortOrder (Normalize i) \<and> ent_row C ts pm cvs)"
proof -
  let ?sip = "PropertyMapPartially C (Some (path_key ts)) pm" and ?cols = "GetFullSortOrder (Normalize i)"
  have kind: "ix_Kind (Normalize i) = ix_Kind i" by (simp add: Normalize_def)
  show ?thesis
  proof (cases "\<forall>c \<in> set ?cols. ?sip (col_Property c) \<noteq> None")
    case True
    have eq: "(\<forall>(col, v) \<in> set cvs. v \<in> set (the (?sip (col_Property col)))) \<longleftrightarrow> ent_row C ts pm cvs"
      if cvs: "map fst cvs = ?cols" for cvs
    proof -
      have "?sip (col_Property (fst cv)) \<noteq> None" if "cv \<in> set cvs" for cv using that cvs True by (metis list.set_map image_eqI)
      then show ?thesis by (fastforce simp: ent_row_def ent_vals_def)
    qed
    have "def_rows (Kind (last ts)) ?sip i =
        (if ix_Kind i \<noteq> '''' \<and> ix_Kind i \<noteq> Kind (last ts) then None
         else Some (index_rows (map (\<lambda>c. the (?sip (col_Property c))) ?cols) (map Descending ?cols)))"
      using True by (simp add: def_rows_def kind matcher_match_eq)
    then show ?thesis using eq by (simp add: index_rows_join) blast
  next
    case False
    then have "def_rows (Kind (last ts)) ?sip i = None" by (auto simp: def_rows_def matcher_match_eq Let_def)
    moreover have "\<not> ent_row C ts pm cvs" if cvs: "map fst cvs = ?cols" for cvs
    proof -
      obtain c where c: "c \<in> set ?cols" "?sip (col_Property c) = None" using False by blast
      then obtain v where "(c, v) \<in> set cvs" using cvs by (metis imageE list.set_map prod.collapse)
      then show ?thesis using c(2) by (auto simp: ent_row_def ent_vals_def intro!: bexI [of _ "(c, v)"])
    qed
    ultimately show ?thesis by auto
  qed
qed

section \<open>The table of a candidate\<close>

lemma Normalize_Normalize: "Normalize (Normalize i) = Normalize i" "GetFullSortOrder (Normalize i) = GetFullSortOrder i"
  "ix_Kind (Normalize i) = ix_Kind i"
  by (simp_all add: Normalize_def GetFullSortOrder_def)

lemma special_names: "isSpecialProp p \<or> \<not> (prefix ''__'' p \<and> suffix ''__'' p) \<Longrightarrow> p \<noteq> ''__key__'' \<and> p \<noteq> ''__ancestor__''"
  by (auto simp: isSpecialProp_def suffix_def prefix_def)

text \<open>An entity with a value for a property has the built-in indexes of the property.\<close>

lemma default_index:
  assumes p: "isSpecialProp p \<or> \<not> (prefix ''__'' p \<and> suffix ''__'' p)" and v: "ent_vals C ts pm p \<noteq> {}"
  shows "\<lparr>ix_Kind = kind, ix_Ancestor = False, SortBy = [\<lparr>col_Property = p, Descending = desc\<rparr>]\<rparr> \<in> set (defaultIndexes E kind pm)"
proof -
  have "PropertyMapPartially C (Some (path_key ts)) [] p = None"
    using special_names [OF p] by (simp add: PropertyMapPartially_def)
  then have has: "p \<in> set (map fst pm)" "PropertySlice C (pm_Slice pm p) \<noteq> []"
    using v PropertyMapPartially_lookup [of C "Some (path_key ts)" pm p] by (auto simp: ent_vals_def split: if_splits)
  then have "set (PropertySlice C (pm_Slice pm p)) \<noteq> {}" by simp
  then have "list_ex (\<lambda>v. indexSetting v = ShouldIndex) (pm_Slice pm p)"
    using PropertySlice_spec [of C "pm_Slice pm p"] by (auto simp: list_ex_iff)
  moreover obtain d where "(p, d) \<in> set pm" using has(1) by auto
  ultimately show ?thesis
    by (cases desc) (auto simp: defaultIndexes_def Let_def set_qIndexSlice_sort intro!: bexI [of _ "(p, d)"])
qed

context ds_env begin

lemma known_index:
  assumes s: "store_ok E s" and i: "known_def E q s i" and kind: "Kind (last ts) = rq_kind q"
    and row: "map fst cvs = GetFullSortOrder i" "ent_row C ts pm cvs"
  shows "i \<in> set (defaultIndexes E (Kind (last ts)) pm) \<union> set (compound_idxs E s)"
  using i unfolding known_def_def
proof (elim disjE exE conjE bexE)
  fix cols assume c: "i = \<lparr>ix_Kind = rq_kind q, ix_Ancestor = False, SortBy = cols\<rparr>" "length cols \<le> 1"
    "\<forall>c \<in> set cols. isSpecialProp (col_Property c) \<or> \<not> (prefix ''__'' (col_Property c) \<and> suffix ''__'' (col_Property c))"
  show ?thesis
  proof (cases cols)
    case Nil
    then show ?thesis using c(1) kind by (simp add: defaultIndexes_def Let_def set_qIndexSlice_sort)
  next
    case (Cons col cols')
    obtain p desc where col: "col = \<lparr>col_Property = p, Descending = desc\<rparr>" by (cases col)
    then have i': "i = \<lparr>ix_Kind = rq_kind q, ix_Ancestor = False, SortBy = [\<lparr>col_Property = p, Descending = desc\<rparr>]\<rparr>"
      "isSpecialProp p \<or> \<not> (prefix ''__'' p \<and> suffix ''__'' p)" using c Cons by auto
    then have "p \<noteq> ''__key__''" using special_names by blast
    then have "GetFullSortOrder i = [\<lparr>col_Property = p, Descending = desc\<rparr>, key_col]"
      by (simp add: i'(1) GetFullSortOrder_def Normalize_def)
    then obtain v w where "cvs = [(\<lparr>col_Property = p, Descending = desc\<rparr>, v), w]" using row(1) by (auto simp: map_eq_Cons_conv)
    then have "ent_vals C ts pm p \<noteq> {}" using row(2) by (cases w) auto
    then show ?thesis using default_index [OF i'(2), of C ts pm "Kind (last ts)" desc E] kind i'(1) by simp
  qed
next
  fix p e j r assume e: "has s ''idx''" "e \<in> set (tc_Iterator T s ''idx'' p)" "ReadIndexDefinition C (fst e) = Inr (j, r)" "i = Flip j"
  then have "e \<in> set (tc_Iterator T s ''idx'' [])" by (auto simp: Iterator_set)
  then have "i \<in> set (comp_idxs s)" using e by (force simp: comp_idxs_def table_entry_def)
  then show ?thesis using compound_comp [OF s] by simp
qed

lemma candidate_rows:
  assumes s: "store_ok E s" "index_ok E s" and ns: "plain_ns (Namespace (rq_kc q))" and kind: "rq_kind q \<noteq> ''''"
    and i: "known_def E q s i" "candidate E q s i x"
  defines "b \<equiv> WriteIndexDefinition C (PrepForIdxTable i)"
  shows "r \<in> rows s (idx_coll (Namespace (rq_kc q)) b) \<longleftrightarrow>
    (\<exists>ts pm cvs. user_toks ts \<and> ent_pm E s (Namespace (rq_kc q)) ts = Some pm \<and> Kind (last ts) = rq_kind q \<and>
      r = column_join cvs \<and> map fst cvs = ids_eqFilts x @ rq_suffixFormat q \<and> ent_row C ts pm cvs)"
proof -
  let ?ns = "Namespace (rq_kc q)"
  have b: "b = idx_bin C i" by (simp add: b_def idx_bin_def PrepForIdxTable_def Normalize_Normalize)
  have ik: "ix_Kind i = rq_kind q" "GetFullSortOrder i = ids_eqFilts x @ rq_suffixFormat q" using i(2) by (simp_all add: candidate_def)
  have rows: "r \<in> entity_rows E (compound_idxs E s) ts pm b \<longleftrightarrow> Kind (last ts) = rq_kind q \<and>
      (\<exists>cvs. r = column_join cvs \<and> map fst cvs = ids_eqFilts x @ rq_suffixFormat q \<and> ent_row C ts pm cvs)" for ts pm
  proof
    assume "r \<in> entity_rows E (compound_idxs E s) ts pm b"
    then obtain j rs where j: "def_rows (Kind (last ts)) (PropertyMapPartially C (Some (path_key ts)) pm) j = Some rs"
      "r \<in> set rs" "idx_bin C j = idx_bin C i" by (auto simp: entity_rows_def entry_rows_def b)
    then have "Normalize j = Normalize i" using idx_bin_inj [OF cmpbin_reads] by blast
    then have "ix_Kind j = rq_kind q" "GetFullSortOrder (Normalize j) = ids_eqFilts x @ rq_suffixFormat q"
      using ik Normalize_Normalize(2,3) by metis+
    with def_rows_join [of ts C pm j r] j(1,2) kind
    show "Kind (last ts) = rq_kind q \<and>
      (\<exists>cvs. r = column_join cvs \<and> map fst cvs = ids_eqFilts x @ rq_suffixFormat q \<and> ent_row C ts pm cvs)" by auto
  next
    assume "Kind (last ts) = rq_kind q \<and>
      (\<exists>cvs. r = column_join cvs \<and> map fst cvs = ids_eqFilts x @ rq_suffixFormat q \<and> ent_row C ts pm cvs)"
    then obtain cvs where k: "Kind (last ts) = rq_kind q" and cvs: "r = column_join cvs" "map fst cvs = GetFullSortOrder i" "ent_row C ts pm cvs"
      using ik(2) by auto
    have "i \<in> set (defaultIndexes E (Kind (last ts)) pm @ compound_idxs E s)" using known_index [OF s(1) i(1) k cvs(2,3)] by simp
    moreover have "\<exists>rs. def_rows (Kind (last ts)) (PropertyMapPartially C (Some (path_key ts)) pm) i = Some rs \<and> r \<in> set rs"
      using def_rows_join [of ts C pm i r] ik(1) k cvs by (auto simp: Normalize_Normalize)
    ultimately show "r \<in> entity_rows E (compound_idxs E s) ts pm b"
      unfolding entity_rows_def entry_rows_def b by blast
  qed
  have "rows s (idx_coll ?ns b) = expected_rows E s ?ns b"
    using s(2) ns by (simp add: index_ok_def coll_keys_rows)
  then show ?thesis using rows by (auto simp: expected_rows_def)
qed

end

section \<open>What the ranges share\<close>

text \<open>The suffixes a query is about: those of the rows of the entities of its kind and namespace that have every
  value its filters ask for.\<close>

definition filters_hold :: "cmpbin \<Rightarrow> reducedQuery \<Rightarrow> KeyTok list \<Rightarrow> PropertyMap \<Rightarrow> bool" where
  "filters_hold C q ts pm \<longleftrightarrow> Kind (last ts) = rq_kind q \<and>
     (\<forall>p. \<forall>v \<in> set (al_get (rq_eqFilters q) p). v \<in> ent_vals C ts pm p)"

definition query_rows :: "'s dsenv \<Rightarrow> reducedQuery \<Rightarrow> 's \<Rightarrow> byte list set" where
  "query_rows E q s =
     {column_join cvs | ts pm cvs. user_toks ts \<and> ent_pm E s (Namespace (rq_kc q)) ts = Some pm \<and>
        filters_hold (e_cmpbin E) q ts pm \<and> map fst cvs = rq_suffixFormat q \<and> ent_row (e_cmpbin E) ts pm cvs \<and>
        in_range (rq_start q) (rq_end q) (column_join cvs)}"

text \<open>The filters and the format of a reduced query: encoded values, and a last column for the key.\<close>

definition rq_format :: "cmpbin \<Rightarrow> reducedQuery \<Rightarrow> bool" where
  "rq_format C q \<longleftrightarrow> rq_ok q \<and> rq_suffixFormat q \<noteq> [] \<and> col_Property (last (rq_suffixFormat q)) = ''__key__'' \<and>
     (\<forall>p. set (al_get (rq_eqFilters q) p) \<subseteq> column_values C)"

lemma split_map_fst: "map fst cvs = xs @ ys \<Longrightarrow> \<exists>as bs. cvs = as @ bs \<and> map fst as = xs \<and> map fst bs = ys"
  by (auto simp: map_eq_append_conv)

context ds_env begin

lemma ent_vals_column:
  assumes s: "store_ok E s" "index_ok E s" and e: "user_toks ts" "ent_pm E s ns ts = Some pm"
  shows "ent_vals C ts pm p \<subseteq> column_values C" "ent_vals C ts pm ''__key__'' = {key_bytes C ts}"
proof -
  have ok: "pm_ok pm" by (rule stored_pm_ok [OF s e])
  then show "ent_vals C ts pm p \<subseteq> column_values C"
    using sip_values [OF cmpbin_reads cmpbin_sorts, of ts pm p] e(1) by (auto simp: ent_vals_def pm_ok_def user_toks_def split: option.splits)
  show "ent_vals C ts pm ''__key__'' = {key_bytes C ts}" using ok sip_key [of pm C ts] by (simp add: ent_vals_def pm_ok_def)
qed

text \<open>Rows of an entity are rows in the sense of the cursors.\<close>

lemma ent_row_row_of:
  assumes s: "store_ok E s" "index_ok E s" and e: "user_toks ts" "ent_pm E s ns ts = Some pm"
    and r: "map fst cvs = cols" "ent_row C ts pm cvs" "cols \<noteq> []" "col_Property (last cols) = ''__key__''"
  shows "row_of C cols cvs" "snd (last cvs) = key_bytes C ts"
proof -
  have vals: "snd ` set cvs \<subseteq> column_values C" using r(2) ent_vals_column(1) [OF s e] by (fastforce simp: ent_row_def)
  have ne: "cvs \<noteq> []" using r(1,3) by auto
  moreover have "fst (last cvs) = last cols" using r(1) ne by (metis last_map)
  ultimately have "snd (last cvs) \<in> ent_vals C ts pm ''__key__''"
    using r(2,4) last_in_set [OF ne] by (cases "last cvs") (auto simp: ent_row_def)
  then show last: "snd (last cvs) = key_bytes C ts" using ent_vals_column(2) [OF s e] by simp
  show "row_of C cols cvs" using r(1) vals ne last e(1) by (auto simp: row_of_def user_toks_def)
qed

lemma same_row_same_entity:
  assumes s: "store_ok E s" "index_ok E s" and f: "cols \<noteq> []" "col_Property (last cols) = ''__key__''"
    and e: "user_toks ts" "ent_pm E s ns ts = Some pm" "map fst cvs = cols" "ent_row C ts pm cvs"
    and e': "user_toks ts'" "ent_pm E s ns ts' = Some pm'" "map fst cvs' = cols" "ent_row C ts' pm' cvs'"
    and eq: "column_join cvs = column_join cvs'"
  shows "ts = ts' \<and> pm = pm' \<and> cvs = cvs'"
proof -
  note r = ent_row_row_of [OF s e(1,2,3,4) f] and r' = ent_row_row_of [OF s e'(1,2,3,4) f]
  have "cvs = cvs'"
    using column_join_inj [OF column_values_prefix_free [OF cmpbin_reads cmpbin_sorts], of cvs cvs' "[]" "[]"] r(1) r'(1) eq
    by (simp add: row_of_def)
  then have "key_bytes C ts = key_bytes C ts'" using r(2) r'(2) by simp
  then have "ts = ts'" using key_bytes_inj [OF cmpbin_reads] e(1) e'(1) by (simp add: user_toks_def)
  then show ?thesis using e(2) e'(2) \<open>cvs = cvs'\<close> by simp
qed

lemma range_suffixes:
  assumes s: "store_ok E s" "index_ok E s" and ns: "plain_ns (Namespace (rq_kc q))" and kind: "rq_kind q \<noteq> ''''"
    and q: "rq_format C q" and idxs: "\<forall>x \<in> S. \<exists>i. known_def E q s i \<and> candidate E q s i x" and d: "range_for q S d cvs"
  shows "x \<in> def_suffixes T d \<longleftrightarrow>
    (\<exists>ts pm bs. user_toks ts \<and> ent_pm E s (Namespace (rq_kc q)) ts = Some pm \<and> Kind (last ts) = rq_kind q \<and> ent_row C ts pm cvs \<and>
       x = column_join bs \<and> map fst bs = rq_suffixFormat q \<and> ent_row C ts pm bs \<and> in_range (rq_start q) (rq_end q) x)"
proof -
  let ?ns = "Namespace (rq_kc q)" and ?pfx = "column_join cvs"
  obtain y i where y: "y \<in> S" "ids_coll y = Some (id_c d)" "map fst cvs = ids_eqFilts y" "known_def E q s i" "candidate E q s i y"
    using d idxs by (auto simp: range_for_def)
  let ?b = "WriteIndexDefinition C (PrepForIdxTable i)"
  have coll: "id_c d = (s, idx_coll ?ns ?b)" "has s (idx_coll ?ns ?b)"
    using y(2,5) by (simp_all add: candidate_def ms_GetCollection_def split: if_splits)
  have pfx: "id_prefix d = ?pfx" "id_prefixLen d = length ?pfx" "id_start d = bytes_of (rq_start q)" "id_end d = rq_end q"
    using d by (simp_all add: range_for_def)
  have vals: "snd ` set cvs \<subseteq> column_values C" using d q by (fastforce simp: range_for_def rq_format_def col_values_def)
  have "x \<in> def_suffixes T d \<longleftrightarrow> ?pfx @ x \<in> def_keys T d"
  proof
    assume "x \<in> def_suffixes T d"
    then obtain k where k: "k \<in> def_keys T d" "x = drop (id_prefixLen d) k" unfolding def_suffixes_def by blast
    then have "prefix ?pfx k" using pfx(1) by (simp add: def_keys_def)
    then show "?pfx @ x \<in> def_keys T d" using k pfx(2) by (auto simp: prefix_def)
  next
    assume "?pfx @ x \<in> def_keys T d"
    moreover have "x = drop (id_prefixLen d) (?pfx @ x)" using pfx(2) by simp
    ultimately show "x \<in> def_suffixes T d" unfolding def_suffixes_def by (rule rev_image_eqI)
  qed
  also have "\<dots> \<longleftrightarrow> ?pfx @ x \<in> rows s (idx_coll ?ns ?b) \<and> in_range (rq_start q) (rq_end q) x"
    using pfx coll by (auto simp: def_keys_def rows_def in_range_def append_le_cancel append_less_cancel_bytes split: option.splits)
  also have "?pfx @ x \<in> rows s (idx_coll ?ns ?b) \<longleftrightarrow>
      (\<exists>ts pm bs. user_toks ts \<and> ent_pm E s ?ns ts = Some pm \<and> Kind (last ts) = rq_kind q \<and> ent_row C ts pm cvs \<and>
        x = column_join bs \<and> map fst bs = rq_suffixFormat q \<and> ent_row C ts pm bs)" (is "_ \<longleftrightarrow> ?rhs")
  proof
    assume "?pfx @ x \<in> rows s (idx_coll ?ns ?b)"
    then obtain ts pm ws where w: "user_toks ts" "ent_pm E s ?ns ts = Some pm" "Kind (last ts) = rq_kind q"
      "?pfx @ x = column_join ws" "map fst ws = ids_eqFilts y @ rq_suffixFormat q" "ent_row C ts pm ws"
      using candidate_rows [OF s ns kind y(4,5)] by blast
    obtain as bs where ab: "ws = as @ bs" "map fst as = ids_eqFilts y" "map fst bs = rq_suffixFormat q"
      using split_map_fst [OF w(5)] by blast
    have "snd ` set as \<subseteq> column_values C" using w(6) ab(1) ent_vals_column(1) [OF s w(1,2)] by (fastforce simp: ent_row_def)
    then have "cvs = as \<and> x = column_join bs"
      using w(4) ab y(3) vals by (intro column_join_inj [OF column_values_prefix_free [OF cmpbin_reads cmpbin_sorts]]) simp_all
    then show ?rhs using w ab by auto
  next
    assume ?rhs
    then obtain ts pm bs where "user_toks ts" "ent_pm E s ?ns ts = Some pm" "Kind (last ts) = rq_kind q" "ent_row C ts pm cvs"
      "x = column_join bs" "map fst bs = rq_suffixFormat q" "ent_row C ts pm bs" by blast
    then show "?pfx @ x \<in> rows s (idx_coll ?ns ?b)"
      using y(3) unfolding candidate_rows [OF s ns kind y(4,5)]
      by (intro exI [of _ ts] exI [of _ pm] exI [of _ "cvs @ bs"]) simp
  qed
  finally show ?thesis by blast
qed

lemma ranges_intersect:
  assumes s: "store_ok E s" "index_ok E s" and ns: "plain_ns (Namespace (rq_kc q))" and kind: "rq_kind q \<noteq> ''''"
    and q: "rq_format C q" and idxs: "\<forall>x \<in> S. \<exists>i. known_def E q s i \<and> candidate E q s i x"
    and ds: "ds \<noteq> []" "list_all2 (range_for q S) ds cvss"
    and cover: "\<forall>p. \<forall>v \<in> set (al_get (rq_eqFilters q) p). \<exists>cvs \<in> set cvss. (p, v) \<in> col_values cvs"
  shows "(\<Inter>d \<in> set ds. def_suffixes T d) = query_rows E q s"
proof (intro set_eqI iffI)
  let ?ns = "Namespace (rq_kc q)"
  have f: "rq_suffixFormat q \<noteq> []" "col_Property (last (rq_suffixFormat q)) = ''__key__''" using q by (simp_all add: rq_format_def)
  note rs = range_suffixes [OF s ns kind q idxs]
  have pair: "\<exists>cvs \<in> set cvss. range_for q S d cvs" if "d \<in> set ds" for d
    using that ds(2) by (metis in_set_conv_nth list_all2_conv_all_nth)
  have pair': "\<exists>d \<in> set ds. range_for q S d cvs" if "cvs \<in> set cvss" for cvs
    using that ds(2) by (metis in_set_conv_nth list_all2_conv_all_nth)
  {
    fix x assume x: "x \<in> (\<Inter>d \<in> set ds. def_suffixes T d)"
    obtain d0 where "d0 \<in> set ds" using ds(1) by (cases ds) auto
    then obtain cvs0 where c0: "range_for q S d0 cvs0" and "x \<in> def_suffixes T d0" using x pair by blast
    then obtain ts pm bs where e: "user_toks ts" "ent_pm E s ?ns ts = Some pm" "Kind (last ts) = rq_kind q"
      "x = column_join bs" "map fst bs = rq_suffixFormat q" "ent_row C ts pm bs" "in_range (rq_start q) (rq_end q) x"
      unfolding rs [OF c0] by blast
    have "ent_row C ts pm cvs" if cvs: "cvs \<in> set cvss" for cvs
    proof -
      obtain d where d: "d \<in> set ds" "range_for q S d cvs" using pair' [OF cvs] by blast
      then have "x \<in> def_suffixes T d" using x by blast
      then obtain ts' pm' bs' where e': "user_toks ts'" "ent_pm E s ?ns ts' = Some pm'" "ent_row C ts' pm' cvs"
        "x = column_join bs'" "map fst bs' = rq_suffixFormat q" "ent_row C ts' pm' bs'"
        unfolding rs [OF d(2)] by blast
      then have "ts = ts' \<and> pm = pm'"
        using same_row_same_entity [OF s f e(1,2,5,6) e'(1,2,5,6)] e(4) by simp
      then show ?thesis using e'(3) by simp
    qed
    then have "filters_hold C q ts pm"
      using cover e(3) unfolding filters_hold_def by (fastforce simp: col_values_def ent_row_def)
    then show "x \<in> query_rows E q s" using e unfolding query_rows_def by blast
  next
    fix x assume "x \<in> query_rows E q s"
    then obtain ts pm bs where e: "user_toks ts" "ent_pm E s ?ns ts = Some pm" "filters_hold C q ts pm"
      "x = column_join bs" "map fst bs = rq_suffixFormat q" "ent_row C ts pm bs" "in_range (rq_start q) (rq_end q) x"
      unfolding query_rows_def by blast
    show "x \<in> (\<Inter>d \<in> set ds. def_suffixes T d)"
    proof
      fix d assume "d \<in> set ds"
      then obtain cvs where cvs: "range_for q S d cvs" using pair by blast
      then have "ent_row C ts pm cvs"
        using e(3) by (fastforce simp: range_for_def filters_hold_def col_values_def ent_row_def)
      moreover have "Kind (last ts) = rq_kind q" using e(3) by (simp add: filters_hold_def)
      ultimately show "x \<in> def_suffixes T d" unfolding rs [OF cvs] using e by blast
    qed
  }
qed

end

end
