(* ===== verification/Query_Correct.thy ===== *)
theory Query_Correct
  imports Query_Rows
begin

text \<open>
  Keys-only queries from end to end: on a snapshot whose indexes are consistent, running a query delivers the keys
  of exactly the entities that match it, each once, in the order of their rows; offset and limit
  count rows, and \<^verbatim>\<open>countQuery\<close> counts what is delivered.
\<close>

section \<open>Reading a row\<close>

context ds_env begin

lemma column_value_read:
  assumes "v \<in> column_values C"
  obtains p where "\<And>rest. ReadProperty C WithoutContext c (v @ rest) = Inr (p, rest)"
proof -
  obtain w where w: "prop_storable w" "WriteIndexProperty C False w = Some v" using assms by (auto simp: column_values_def)
  show ?thesis using ReadProperty_WriteIndex [OF cmpbin_reads cmpbin_sorts w(1), of False] w(2) that by (metis option.inject)
qed

lemma key_bytes_read:
  assumes "toks_storable ts"
  shows "\<exists>i. ReadProperty C WithoutContext c (key_bytes C ts @ rest) = Inr (\<lparr>pvalue = PKeyV \<lparr>kc = c, toks = ts\<rparr>, indexSetting = i\<rparr>, rest)"
proof -
  have st: "prop_storable (key_prop (path_key ts))"
    using assms by (simp add: prop_storable_def prop_ok_def key_prop_def key_storable_toks path_key_def)
  have w: "WriteIndexProperty C False (key_prop (path_key ts)) = Some (key_bytes C ts)"
    using index_encodes [of C "key_prop (path_key ts)"] prop_bytes_key [of C False "path_key ts"] by (simp add: path_key_def prop_bytes_def)
  obtain ibs where "WriteIndexProperty C False (key_prop (path_key ts)) = Some ibs"
    "\<And>rctx inKC rest. ReadProperty C rctx inKC (ibs @ rest) = Inr (recontext False rctx inKC (index_property (key_prop (path_key ts))), rest)"
    using ReadProperty_WriteIndex [OF cmpbin_reads cmpbin_sorts st] by blast
  then show ?thesis using w by (auto simp: recontext_def index_property_def key_prop_def path_key_def read_context_def)
qed

lemma Invert_append: "Invert (a @ b) = Invert a @ Invert b"
  by (simp add: Invert_map)

lemma length_Invert: "length (Invert a) = length a" "Invert [] = []"
  by (simp_all add: Invert_map)

lemma parse_columns_row:
  "snd ` set cvs \<subseteq> column_values C \<Longrightarrow>
   \<exists>ps. parse_columns E c (map fst cvs) (column_join cvs) (- 1) i = Some (map snd cvs, ps) \<and>
     list_all2 (\<lambda>cv p. \<forall>rest. ReadProperty C WithoutContext c (snd cv @ rest) = Inr (p, rest)) cvs ps"
proof (induction cvs arbitrary: i)
  case (Cons cv cvs)
  obtain col v where cv: "cv = (col, v)" by force
  obtain p where p: "\<And>rest. ReadProperty C WithoutContext c (v @ rest) = Inr (p, rest)"
    using column_value_read [of v c] Cons.prems cv by auto
  obtain ps where ps: "parse_columns E c (map fst cvs) (column_join cvs) (- 1) (i + 1) = Some (map snd cvs, ps)"
    "list_all2 (\<lambda>cv p. \<forall>rest. ReadProperty C WithoutContext c (snd cv @ rest) = Inr (p, rest)) cvs ps"
    using Cons.IH [of "i + 1"] Cons.prems by auto
  have "(if Descending col then Invert (column_join (cv # cvs)) else column_join (cv # cvs)) =
      v @ (if Descending col then Invert (column_join cvs) else column_join cvs)"
    by (simp add: cv column_bytes_def Invert_append Invert_Invert)
  then have "parse_columns E c (map fst (cv # cvs)) (column_join (cv # cvs)) (- 1) i = Some (map snd (cv # cvs), p # ps)"
    using p ps(1) by (cases "Descending col") (simp_all add: cv column_bytes_def Invert_Invert Invert_append length_Invert Let_def)
  then show ?case using ps(2) p cv by auto
qed simp

lemma parse_row:
  assumes "row_of C cols cvs" "snd (last cvs) = key_bytes C ts" "toks_storable ts"
  obtains ps where "parseSuffix E (AppID c) (Namespace c) cols (column_join cvs) (- 1) = Some (map snd cvs, ps)" "ps \<noteq> []"
    "pvalue (last ps) = PKeyV \<lparr>kc = c, toks = ts\<rparr>"
proof -
  have cvs: "map fst cvs = cols" "cvs \<noteq> []" "snd ` set cvs \<subseteq> column_values C" using assms(1) by (simp_all add: row_of_def)
  obtain ps where ps: "parse_columns E c cols (column_join cvs) (- 1) 0 = Some (map snd cvs, ps)"
    "list_all2 (\<lambda>cv p. \<forall>rest. ReadProperty C WithoutContext c (snd cv @ rest) = Inr (p, rest)) cvs ps"
    using parse_columns_row [OF cvs(3), of c 0] cvs(1) by auto
  have ne: "ps \<noteq> []" using ps(2) cvs(2) by auto
  then have "\<forall>rest. ReadProperty C WithoutContext c (snd (last cvs) @ rest) = Inr (last ps, rest)"
    using ps(2) cvs(2) list_all2_lengthD [OF ps(2)] by (simp add: last_conv_nth list_all2_conv_all_nth)
  then have "pvalue (last ps) = PKeyV \<lparr>kc = c, toks = ts\<rparr>"
    using key_bytes_read [OF assms(3), of c "[]"] assms(2) by (metis Inr_inject Property.select_convs(1) prod.inject)
  then show ?thesis using that ps(1) ne by (simp add: parseSuffix_def)
qed

end

section \<open>Delivering keys\<close>

text \<open>The first occurrences of a list's elements, without those already seen.\<close>

fun firsts :: "'a list \<Rightarrow> 'a list \<Rightarrow> 'a list" where
  "firsts seen [] = []"
| "firsts seen (x # xs) = (if x \<in> set seen then firsts seen xs else x # firsts (x # seen) xs)"

lemma firsts_spec: "set (firsts seen xs) = set xs - set seen \<and> distinct (firsts seen xs)"
  by (induction seen xs rule: firsts.induct) auto

text \<open>The rows an offset and a limit leave.\<close>

definition window :: "int32 \<Rightarrow> int32 \<Rightarrow> bool \<Rightarrow> 'a list \<Rightarrow> 'a list" where
  "window offset limit hasLimit xs =
     (let xs = drop (nat (sint offset)) xs in if hasLimit then take (nat (sint limit)) xs else xs)"

lemma sint_dec: "sint (w :: int32) > 0 \<Longrightarrow> nat (sint w) = Suc (nat (sint (w - 1)))"
proof -
  assume "sint w > 0"
  moreover have "sint w < 2 ^ 31" using sint_lt [of w] by simp
  ultimately have "sint (w - 1) = sint w - 1" by (simp add: signed_take_bit_int_eq_self sint_word_ariths)
  then show ?thesis using \<open>sint w > 0\<close> by simp
qed

lemma window_simps:
  "window offset limit hasLimit [] = []"
  "sint offset > 0 \<Longrightarrow> window offset limit hasLimit (x # xs) = window (offset - 1) limit hasLimit xs"
  "\<not> sint offset > 0 \<Longrightarrow> hasLimit \<Longrightarrow> sint limit \<le> 0 \<Longrightarrow> window offset limit hasLimit xs = []"
  "\<not> sint offset > 0 \<Longrightarrow> \<not> (hasLimit \<and> sint limit \<le> 0) \<Longrightarrow>
     window offset limit hasLimit (x # xs) = x # window offset (if hasLimit then limit - 1 else limit) hasLimit xs"
  by (auto simp: window_def Let_def sint_dec)

text \<open>A row and the path of the entity it belongs to.\<close>

definition row_entity :: "cmpbin \<Rightarrow> IndexColumn list \<Rightarrow> byte list \<Rightarrow> KeyTok list \<Rightarrow> bool" where
  "row_entity C cols x ts \<longleftrightarrow> toks_storable ts \<and> (\<exists>cvs. row_of C cols cvs \<and> x = column_join cvs \<and> snd (last cvs) = key_bytes C ts)"

context ds_env begin

lemma exec_key_row:
  fixes seen :: "KeyTok list list"
  assumes "row_entity C (rq_suffixFormat rq) x ts" "\<forall>t \<in> set seen. toks_storable t"
    "\<not> sint offset > 0" "\<not> (hasLimit \<and> sint limit \<le> 0)"
  shows "exec_row E c rq keysOnlyStrategy hasLimit (\<lambda>st k _ _. (f st k, None :: 'e option)) (offset, limit, map (key_bytes C) seen, st) x =
    (let limit = (if hasLimit then limit - 1 else limit) in
     if ts \<in> set seen then ((offset, limit, map (key_bytes C) seen, st), None)
     else ((offset, limit, map (key_bytes C) (ts # seen), f st \<lparr>kc = c, toks = ts\<rparr>), None))"
proof -
  obtain cvs where cvs: "row_of C (rq_suffixFormat rq) cvs" "x = column_join cvs" "snd (last cvs) = key_bytes C ts" "toks_storable ts"
    using assms(1) by (auto simp: row_entity_def)
  obtain ps where ps: "parseSuffix E (AppID c) (Namespace c) (rq_suffixFormat rq) x (- 1) = Some (map snd cvs, ps)" "ps \<noteq> []"
    "pvalue (last ps) = PKeyV \<lparr>kc = c, toks = ts\<rparr>" using parse_row [OF cvs(1,3,4)] cvs(2) by blast
  have ne: "cvs \<noteq> []" using cvs(1) by (simp add: row_of_def)
  have "key_bytes C ts \<in> key_bytes C ` set seen \<longleftrightarrow> ts \<in> set seen"
    using key_bytes_inj [OF cmpbin_reads] assms(2) cvs(4) by blast
  then show ?thesis
    using assms(3,4) ps ne cvs(3) by (simp add: exec_row_def handle_def Let_def last_map)
qed

lemma run_key_rows:
  assumes "list_all2 (row_entity C (rq_suffixFormat rq)) xs tss" "\<forall>t \<in> set seen. toks_storable t"
  shows "run_result (run_cb (exec_row E c rq keysOnlyStrategy hasLimit (\<lambda>st k _ _. (f st k, None :: 'e option)))
      (offset, limit, map (key_bytes C) seen, st) xs) =
    Some (foldl f st (map (\<lambda>ts. \<lparr>kc = c, toks = ts\<rparr>) (firsts seen (window offset limit hasLimit tss))), None)"
  using assms
proof (induction xs tss arbitrary: offset limit seen st rule: list_all2_induct)
  case Nil
  then show ?case by (simp add: window_simps(1) run_result_def)
next
  case (Cons x xs ts tss)
  let ?cb = "\<lambda>st k _ _. (f st k, None :: 'e option)"
  consider (skip) "sint offset > 0" | (full) "\<not> sint offset > 0" "hasLimit" "sint limit \<le> 0"
    | (row) "\<not> sint offset > 0" "\<not> (hasLimit \<and> sint limit \<le> 0)" by blast
  then show ?case
  proof cases
    case skip
    then show ?thesis using Cons.IH [OF Cons.prems] by (simp add: window_simps(2) exec_row_def)
  next
    case full
    then show ?thesis using Cons.IH [OF Cons.prems, of offset limit st] by (simp add: window_simps(3) exec_row_def)
  next
    case row
    have ts: "toks_storable ts" using Cons.hyps(1) by (simp add: row_entity_def)
    let ?limit = "if hasLimit then limit - 1 else limit"
    have step: "exec_row E c rq keysOnlyStrategy hasLimit ?cb (offset, limit, map (key_bytes C) seen, st) x =
       (if ts \<in> set seen then ((offset, ?limit, map (key_bytes C) seen, st), None)
        else ((offset, ?limit, map (key_bytes C) (ts # seen), f st \<lparr>kc = c, toks = ts\<rparr>), None))"
      using exec_key_row [OF Cons.hyps(1) Cons.prems row] by (simp only: Let_def)
    show ?thesis
      using Cons.IH [OF Cons.prems, of offset "if hasLimit then limit - 1 else limit" st] step
        Cons.IH [of "ts # seen" offset "if hasLimit then limit - 1 else limit" "f st \<lparr>kc = c, toks = ts\<rparr>"] Cons.prems ts
      by (simp add: window_simps(4) [OF row])
  qed
qed

end

lemma list_all2_partner:
  "list_all2 P xs ys \<Longrightarrow> x \<in> set xs \<Longrightarrow> \<exists>y \<in> set ys. P x y"
  "list_all2 P xs ys \<Longrightarrow> y \<in> set ys \<Longrightarrow> \<exists>x \<in> set xs. P x y"
  by (induction rule: list_all2_induct) auto

section \<open>Which entities a query is about\<close>

text \<open>A keys-only query for a kind, without ancestor, as \<^verbatim>\<open>Finalize\<close> makes it; its values can be stored.\<close>

definition keys_query :: "FinalizedQuery \<Rightarrow> bool" where
  "keys_query fq \<longleftrightarrow> fq_keysOnly fq \<and> fq_kind fq \<noteq> '''' \<and> fq_kind fq \<noteq> ''__namespace__'' \<and>
     fq_orders fq \<noteq> [] \<and> col_Property (last (fq_orders fq)) = ''__key__'' \<and> distinct (map fst (fq_eqFilts fq)) \<and>
     list_all (\<lambda>(p, vs). p \<noteq> ''__ancestor__'' \<and> vs \<noteq> [] \<and> list_all prop_storable vs) (fq_eqFilts fq)"

text \<open>The paths of the entities of the query's kind that have, under every filtered property, an indexed value
  encoded like every value of the filter, and a value for every sort order such that the row is in range.\<close>

definition matching :: "'s dsenv \<Rightarrow> FinalizedQuery \<Rightarrow> reducedQuery \<Rightarrow> 's \<Rightarrow> KeyTok list set" where
  "matching E fq rq s =
     {ts. user_toks ts \<and> (\<exists>pm. ent_pm E s (Namespace (rq_kc rq)) ts = Some pm \<and> Kind (last ts) = fq_kind fq \<and>
        (\<forall>(p, vs) \<in> set (fq_eqFilts fq). \<forall>v \<in> set vs. prop_bytes (e_cmpbin E) v \<in> ent_vals (e_cmpbin E) ts pm p) \<and>
        (\<exists>cvs. map fst cvs = fq_orders fq \<and> ent_row (e_cmpbin E) ts pm cvs \<and> in_range (rq_start rq) (rq_end rq) (column_join cvs)))}"

lemma filter_bytes_set:
  "filter_bytes E sVals vals = Some bs \<Longrightarrow>
   set bs = set sVals \<union> prop_bytes (e_cmpbin E) ` set vals \<and> (vals \<noteq> [] \<longrightarrow> bs \<noteq> [])"
proof (induction E sVals vals rule: filter_bytes.induct)
  case (2 E sVals v vals)
  have v: "ToBytes (e_cmpbin E) (e_detmaps E) (SProperty v) = Some (prop_bytes (e_cmpbin E) v)"
    using index_encodes [of "e_cmpbin E" v] by (simp add: ToBytes_def toBytesErr_def)
  have *: "set bs = set (List.insert (prop_bytes (e_cmpbin E) v) sVals) \<union> prop_bytes (e_cmpbin E) ` set vals"
    using 2(1) [of "prop_bytes (e_cmpbin E) v"] 2(2) v by simp
  then have "set bs \<noteq> {}" by simp
  then show ?case using * by auto
qed auto

lemma reduce_filters_spec:
  "reduce_filters E filts = Some rs \<Longrightarrow> map fst rs = map fst filts \<and>
   (\<forall>p. map_of filts p = None \<longrightarrow> map_of rs p = None) \<and>
   (\<forall>p vs. map_of filts p = Some vs \<longrightarrow>
      (\<exists>bs. map_of rs p = Some bs \<and> set bs = prop_bytes (e_cmpbin E) ` set vs \<and> (vs \<noteq> [] \<longrightarrow> bs \<noteq> [])))"
proof (induction E filts arbitrary: rs rule: reduce_filters.induct)
  case (2 E name vals eqFilts)
  obtain bs rs' where r: "filter_bytes E [] vals = Some bs" "reduce_filters E eqFilts = Some rs'" "rs = (name, bs) # rs'"
    using 2(2) by (auto simp: bind_eq_Some_conv)
  from 2(1) [OF r(1,2)] filter_bytes_set [OF r(1)] show ?case unfolding r(3) by auto
qed simp

lemma reduce_spec:
  assumes r: "reduce E fq c isTxn = Some (Inr rq)"
  shows "rq_kc rq = c" "rq_kind rq = fq_kind fq" "rq_suffixFormat rq = fq_orders fq"
    "reduce_filters E (fq_eqFilts fq) = Some (rq_eqFilters rq)"
  using r unfolding reduce_def
  by (auto split: option.split_asm verror.split_asm if_split_asm sum.split_asm bind_split_asm prod.split_asm)

context ds_env begin

lemma keys_query_reduced:
  assumes q: "keys_query fq" and r: "reduce E fq c isTxn = Some (Inr rq)"
  shows "rq_format C rq" "no_ancestor rq" "rq_kind rq \<noteq> ''''"
    "\<And>ts pm. filters_hold C rq ts pm \<longleftrightarrow> Kind (last ts) = fq_kind fq \<and>
       (\<forall>(p, vs) \<in> set (fq_eqFilts fq). \<forall>v \<in> set vs. prop_bytes C v \<in> ent_vals C ts pm p)"
proof -
  note rs = reduce_spec [OF r] and f = reduce_filters_spec [OF reduce_spec(4) [OF r]]
  have dist: "distinct (map fst (fq_eqFilts fq))" using q by (simp add: keys_query_def)
  have get: "set (al_get (rq_eqFilters rq) p) = (case map_of (fq_eqFilts fq) p of None \<Rightarrow> {} | Some vs \<Rightarrow> prop_bytes C ` set vs)" for p
  proof (cases "map_of (fq_eqFilts fq) p")
    case (Some vs)
    then obtain bs where "map_of (rq_eqFilters rq) p = Some bs" "set bs = prop_bytes C ` set vs" using f by blast
    then show ?thesis using Some by (simp add: al_get_def)
  qed (use f in \<open>simp add: al_get_def\<close>)
  have anc: "map_of (fq_eqFilts fq) ''__ancestor__'' = None"
    using q by (auto simp: keys_query_def list_all_iff map_of_eq_None_iff)
  then show "no_ancestor rq" using f by (simp add: no_ancestor_def)
  show "rq_kind rq \<noteq> ''''" using q rs(2) by (simp add: keys_query_def)
  have vals: "list_all prop_storable vs" "vs \<noteq> []" if "map_of (fq_eqFilts fq) p = Some vs" for p vs
    using that q by (auto simp: keys_query_def list_all_iff dest!: map_of_SomeD)
  have "set (al_get (rq_eqFilters rq) p) \<subseteq> column_values C" for p
    using get [of p] vals [of p] column_value [OF cmpbin_reads cmpbin_sorts] by (auto simp: list_all_iff split: option.splits)
  moreover have "vs \<noteq> []" if "(p, vs) \<in> set (rq_eqFilters rq)" for p vs
  proof -
    have m: "map_of (rq_eqFilters rq) p = Some vs" using that dist f by (simp add: map_of_eq_Some_iff)
    then obtain ws where "map_of (fq_eqFilts fq) p = Some ws" using f by (metis not_Some_eq option.distinct(1))
    then show ?thesis using f m vals(2) by fastforce
  qed
  then have "rq_ok rq" using f dist by (auto simp: rq_ok_def)
  ultimately show "rq_format C rq" using q rs(3) by (simp add: rq_format_def keys_query_def)
  fix ts pm
  have "(\<forall>p. \<forall>v \<in> set (al_get (rq_eqFilters rq) p). v \<in> ent_vals C ts pm p) \<longleftrightarrow>
      (\<forall>p vs. map_of (fq_eqFilts fq) p = Some vs \<longrightarrow> (\<forall>v \<in> set vs. prop_bytes C v \<in> ent_vals C ts pm p))"
    unfolding get by (auto split: option.splits)
  also have "\<dots> \<longleftrightarrow> (\<forall>(p, vs) \<in> set (fq_eqFilts fq). \<forall>v \<in> set vs. prop_bytes C v \<in> ent_vals C ts pm p)"
    using dist by (auto simp: map_of_eq_Some_iff)
  finally show "filters_hold C rq ts pm \<longleftrightarrow> Kind (last ts) = fq_kind fq \<and>
       (\<forall>(p, vs) \<in> set (fq_eqFilts fq). \<forall>v \<in> set vs. prop_bytes C v \<in> ent_vals C ts pm p)"
    using rs(2) by (simp add: filters_hold_def)
qed

end

section \<open>Running a query\<close>

text \<open>The candidates of a query suffice: none has a table, or every filtered property is a column of one that has.\<close>

definition covered :: "reducedQuery \<Rightarrow> 's indexDefinitionSortable list \<Rightarrow> bool" where
  "covered rq idxs \<longleftrightarrow> (\<forall>x \<in> set idxs. ids_coll x = None) \<or>
     (\<forall>p \<in> fst ` set (rq_eqFilters rq). \<exists>x \<in> set idxs. ids_coll x \<noteq> None \<and> p \<in> cols_of x)"

context ds_env begin

lemma no_tables:
  assumes s: "store_ok E s" "index_ok E s" and ns: "plain_ns (Namespace (rq_kc q))" and kind: "rq_kind q \<noteq> ''''"
    and q: "rq_format C q" and x: "known_def E q s i" "candidate E q s i x" "ids_coll x = None"
  shows "query_rows E q s = {}"
proof (rule ccontr)
  assume "query_rows E q s \<noteq> {}"
  then obtain ts pm cvs where e: "user_toks ts" "ent_pm E s (Namespace (rq_kc q)) ts = Some pm" "filters_hold C q ts pm"
    "map fst cvs = rq_suffixFormat q" "ent_row C ts pm cvs" unfolding query_rows_def by blast
  have vals: "\<exists>v. v \<in> ent_vals C ts pm (col_Property col)" if "col \<in> set (ids_eqFilts x)" for col
  proof -
    have "map_of (rq_eqFilters q) (col_Property col) \<noteq> None" using x(2) that by (auto simp: candidate_def cols_of_def)
    then have "al_get (rq_eqFilters q) (col_Property col) \<noteq> []" using rq_ok_get q by (auto simp: rq_format_def)
    then obtain v where "v \<in> set (al_get (rq_eqFilters q) (col_Property col))" using list.set_sel(1) by blast
    then show ?thesis using e(3) by (auto simp: filters_hold_def)
  qed
  have "\<exists>as. map fst as = cols \<and> ent_row C ts pm as" if "set cols \<subseteq> set (ids_eqFilts x)" for cols
    using that
  proof (induction cols)
    case (Cons col cols)
    then obtain as v where "map fst as = cols" "ent_row C ts pm as" "v \<in> ent_vals C ts pm (col_Property col)"
      using vals [of col] by auto
    then show ?case by (intro exI [of _ "(col, v) # as"]) simp
  qed (intro exI [of _ "[]"], simp)
  then obtain as where "map fst as = ids_eqFilts x" "ent_row C ts pm as" by blast
  then have "column_join (as @ cvs) \<in> rows s (idx_coll (Namespace (rq_kc q)) (WriteIndexDefinition C (PrepForIdxTable i)))"
    unfolding candidate_rows [OF s ns kind x(1,2)] using e by (intro exI [of _ ts] exI [of _ pm] exI [of _ "as @ cvs"]) (simp add: filters_hold_def)
  moreover have "\<not> has s (idx_coll (Namespace (rq_kc q)) (WriteIndexDefinition C (PrepForIdxTable i)))"
    using x(2,3) by (simp add: candidate_def ms_GetCollection_def split: if_splits)
  ultimately show False by (simp add: rows_def)
qed

lemma query_ranges:
  assumes s: "store_ok E s" "index_ok E s" "ts_IsReadOnly T s" and ns: "plain_ns (Namespace (rq_kc q))" and kind: "rq_kind q \<noteq> ''''"
    and q: "rq_format C q" "no_ancestor q" and R: "ranges_ok R"
    and idxs: "getRelevantIndexes E R q s = Some (Inr idxs)" "covered q idxs"
  shows "getIndexes E R q s = Some (Inl QRNull) \<and> query_rows E q s = {} \<or>
    (\<exists>ds. getIndexes E R q s = Some (Inr ds) \<and> ds \<noteq> [] \<and> (\<forall>d \<in> set ds. def_ok T d) \<and>
      (\<Inter>d \<in> set ds. def_suffixes T d) = query_rows E q s)"
proof -
  have ne: "idxs \<noteq> []" by (rule relevant_nonempty [OF idxs(1)])
  have eq: "getIndexes E R q s = select_loop R q (ids_sort idxs) (length (ids_sort idxs)) (calculateConstraints R q) []"
    using kind idxs(1) ne by (simp add: getIndexes_def Let_def)
  note cands = relevant_candidates [OF idxs(1)]
  then have cols: "\<forall>x \<in> set idxs. \<forall>p \<in> cols_of x. map_of (rq_eqFilters q) p \<noteq> None" unfolding candidate_def by blast
  have ok: "rq_ok q" using q(1) by (simp add: rq_format_def)
  note sel = select_all [OF R ok q(2) ne cols, folded eq]
  show ?thesis
  proof (cases "\<forall>x \<in> set idxs. ids_coll x = None")
    case True
    obtain x where x: "x \<in> set idxs" using ne by (cases idxs) auto
    obtain i where "known_def E q s i" "candidate E q s i x" using cands x by blast
    moreover have "ids_coll x = None" using True x by blast
    ultimately have "query_rows E q s = {}" by (rule no_tables [OF s(1,2) ns kind q(1)])
    moreover have "getIndexes E R q s = Some (Inl QRNull)" using sel unfolding if_P [OF True] .
    ultimately show ?thesis by blast
  next
    case False
    then have cov: "\<forall>p \<in> fst ` set (rq_eqFilters q). \<exists>x \<in> set idxs. ids_coll x \<noteq> None \<and> p \<in> cols_of x"
      using idxs(2) unfolding covered_def by blast
    obtain ds cvss where d: "getIndexes E R q s = Some (Inr ds)" "ds \<noteq> []" "list_all2 (range_for q (set idxs)) ds cvss"
      "\<forall>p. \<forall>v \<in> set (al_get (rq_eqFilters q) p). \<exists>cvs \<in> set cvss. (p, v) \<in> col_values cvs"
      using sel unfolding if_not_P [OF False] if_P [OF cov] by blast
    have "def_ok T d" if dm: "d \<in> set ds" for d
    proof -
      obtain cvs where r: "range_for q (set idxs) d cvs" using list_all2_partner(1) [OF d(3) dm] by blast
      then obtain x where "x \<in> set idxs" and c: "ids_coll x = Some (id_c d)" unfolding range_for_def by blast
      then obtain i where "candidate E q s i x" using cands by blast
      note x = c this
      then have "fst (id_c d) = s" "has s (snd (id_c d))" by (auto simp: candidate_def ms_GetCollection_def split: if_splits)
      then show ?thesis using r s(3) by (simp add: def_ok_def range_for_def)
    qed
    then show ?thesis using d(1,2) ranges_intersect [OF s(1,2) ns kind q(1) cands d(2-4)] by blast
  qed
qed

lemma query_row_entity:
  assumes s: "store_ok E s" "index_ok E s" and q: "rq_format C q" and x: "x \<in> query_rows E q s"
  shows "\<exists>ts pm cvs. user_toks ts \<and> ent_pm E s (Namespace (rq_kc q)) ts = Some pm \<and> filters_hold C q ts pm \<and>
    map fst cvs = rq_suffixFormat q \<and> ent_row C ts pm cvs \<and> in_range (rq_start q) (rq_end q) (column_join cvs) \<and>
    (\<forall>us. row_entity C (rq_suffixFormat q) x us \<longleftrightarrow> us = ts)"
proof -
  have f: "rq_suffixFormat q \<noteq> []" "col_Property (last (rq_suffixFormat q)) = ''__key__''" using q by (simp_all add: rq_format_def)
  obtain ts pm cvs where e: "user_toks ts" "ent_pm E s (Namespace (rq_kc q)) ts = Some pm" "filters_hold C q ts pm"
    "map fst cvs = rq_suffixFormat q" "ent_row C ts pm cvs" "x = column_join cvs" "in_range (rq_start q) (rq_end q) x"
    using x unfolding query_rows_def by blast
  note r = ent_row_row_of [OF s e(1,2,4,5) f]
  have "us = ts" if row: "row_entity C (rq_suffixFormat q) x us" for us
  proof -
    obtain cvs' where r': "toks_storable us" "row_of C (rq_suffixFormat q) cvs'" "x = column_join cvs'" "snd (last cvs') = key_bytes C us"
      using row unfolding row_entity_def by blast
    have "cvs = cvs'"
      using column_join_inj [OF column_values_prefix_free [OF cmpbin_reads cmpbin_sorts], of cvs cvs' "[]" "[]"] r(1) r'(2,3) e(6)
      by (simp add: row_of_def)
    then show ?thesis using key_bytes_inj [OF cmpbin_reads r'(1), of ts] r(2) r'(4) e(1) by (simp add: user_toks_def)
  qed
  moreover have "row_entity C (rq_suffixFormat q) x ts" using r e(1,6) unfolding row_entity_def user_toks_def by blast
  ultimately show ?thesis using e by blast
qed

lemma matching_rows:
  assumes s: "store_ok E s" "index_ok E s" and q: "keys_query fq" and r: "reduce E fq c isTxn = Some (Inr rq)"
    and xs: "set xs = query_rows E rq s" "list_all2 (row_entity C (rq_suffixFormat rq)) xs tss"
  shows "set tss = matching E fq rq s"
proof -
  note kq = keys_query_reduced [OF q r] and rs = reduce_spec [OF r]
  have m: "ts \<in> matching E fq rq s \<longleftrightarrow> user_toks ts \<and> (\<exists>pm. ent_pm E s (Namespace (rq_kc rq)) ts = Some pm \<and> filters_hold C rq ts pm \<and>
      (\<exists>cvs. map fst cvs = rq_suffixFormat rq \<and> ent_row C ts pm cvs \<and> in_range (rq_start rq) (rq_end rq) (column_join cvs)))" for ts
    unfolding matching_def kq(4) rs(3) by blast
  show ?thesis
  proof (intro set_eqI iffI)
    fix ts assume "ts \<in> set tss"
    then obtain x where x: "x \<in> set xs" "row_entity C (rq_suffixFormat rq) x ts"
      using list_all2_partner(2) [OF xs(2)] by blast
    then have xq: "x \<in> query_rows E rq s" using xs(1) by simp
    obtain us pm cvs where u: "user_toks us" "ent_pm E s (Namespace (rq_kc rq)) us = Some pm" "filters_hold C rq us pm"
      "map fst cvs = rq_suffixFormat rq" "ent_row C us pm cvs" "in_range (rq_start rq) (rq_end rq) (column_join cvs)"
      "\<forall>vs. row_entity C (rq_suffixFormat rq) x vs \<longleftrightarrow> vs = us" using query_row_entity [OF s kq(1) xq] by blast
    then have "ts = us" using x(2) by simp
    with u(1-6) show "ts \<in> matching E fq rq s" unfolding m by blast
  next
    fix ts assume "ts \<in> matching E fq rq s"
    then obtain pm cvs where e: "user_toks ts" "ent_pm E s (Namespace (rq_kc rq)) ts = Some pm" "filters_hold C rq ts pm"
      "map fst cvs = rq_suffixFormat rq" "ent_row C ts pm cvs" "in_range (rq_start rq) (rq_end rq) (column_join cvs)" unfolding m by blast
    then have xq: "column_join cvs \<in> query_rows E rq s" unfolding query_rows_def by blast
    then obtain ts' where ts': "ts' \<in> set tss" "row_entity C (rq_suffixFormat rq) (column_join cvs) ts'"
      using list_all2_partner(1) [OF xs(2)] xs(1) by blast
    have f: "rq_suffixFormat rq \<noteq> []" "col_Property (last (rq_suffixFormat rq)) = ''__key__''" using kq(1) by (simp_all add: rq_format_def)
    have "row_entity C (rq_suffixFormat rq) (column_join cvs) ts"
      using ent_row_row_of [OF s e(1,2,4,5) f] e(1) unfolding row_entity_def user_toks_def by blast
    moreover obtain us where "\<forall>vs. row_entity C (rq_suffixFormat rq) (column_join cvs) vs \<longleftrightarrow> vs = us"
      using query_row_entity [OF s kq(1) xq] by blast
    ultimately have "ts = ts'" using ts'(2) by simp
    then show "ts \<in> set tss" using ts'(1) by simp
  qed
qed

end

context ds_env begin

text \<open>The query run with a callback that does not fail.\<close>

lemma run_keys_query:
  assumes s: "store_ok E s" "index_ok E s" "ts_IsReadOnly T s" and ns: "plain_ns (Namespace c)" and R: "ranges_ok R"
    and q: "keys_query fq" and r: "reduce E fq c isTxn = Some (Inr rq)"
    and idxs: "getRelevantIndexes E R rq s = Some (Inr idxs)" "covered rq idxs"
    and tss: "list_all2 (row_entity C (rq_suffixFormat rq)) (sorted_list_of_set (query_rows E rq s)) tss"
  shows "executeQuery E R fq c isTxn s hd_st (\<lambda>st k _ _. (f st k, None :: 'e option)) st =
    Some (foldl f st (map (\<lambda>ts. \<lparr>kc = c, toks = ts\<rparr>)
      (firsts [] (window (fst (FQ_Offset fq)) (fst (FQ_Limit fq)) (snd (FQ_Limit fq)) tss))), None)"
proof -
  note kq = keys_query_reduced [OF q r] and rs = reduce_spec [OF r]
  have kind: "rq_kind rq \<noteq> ''__namespace__''" "fq_keysOnly fq" using q rs(2) by (simp_all add: keys_query_def)
  have "plain_ns (Namespace (rq_kc rq))" using ns rs(1) by simp
  from query_ranges [OF s this kq(3) kq(1,2) R idxs] show ?thesis
  proof (elim disjE exE conjE)
    assume "getIndexes E R rq s = Some (Inl QRNull)" "query_rows E rq s = {}"
    moreover from this(2) have "tss = []" using tss by simp
    ultimately show ?thesis using r kind(1) by (simp add: executeQuery_def window_simps(1))
  next
    fix ds assume d: "getIndexes E R rq s = Some (Inr ds)" "ds \<noteq> []" "\<forall>d \<in> set ds. def_ok T d"
      "(\<Inter>d \<in> set ds. def_suffixes T d) = query_rows E rq s"
    have "multiIterate T ds (exec_row E c rq keysOnlyStrategy h (\<lambda>st k _ _. (f st k, None :: 'e option))) (o0, l0, [], st) =
      Some (run_cb (exec_row E c rq keysOnlyStrategy h (\<lambda>st k _ _. (f st k, None))) (o0, l0, [], st)
        (sorted_list_of_set (query_rows E rq s)))" for h o0 l0
      using multiIterate_runs [OF d(2,3)] d(4) by simp
    then have "executeQuery E R fq c isTxn s hd_st (\<lambda>st k _ _. (f st k, None :: 'e option)) st =
      run_result (run_cb (exec_row E c rq keysOnlyStrategy (snd (FQ_Limit fq)) (\<lambda>st k _ _. (f st k, None :: 'e option)))
        (fst (FQ_Offset fq), fst (FQ_Limit fq), [], st) (sorted_list_of_set (query_rows E rq s)))"
      using r kind d(1)
      by (simp add: executeQuery_def pickQueryStrategy_def split: prod.splits)
    also have "\<dots> = Some (foldl f st (map (\<lambda>ts. \<lparr>kc = c, toks = ts\<rparr>)
        (firsts [] (window (fst (FQ_Offset fq)) (fst (FQ_Limit fq)) (snd (FQ_Limit fq)) tss))), None)"
      using run_key_rows [OF tss, of "[]"] by simp
    finally show ?thesis .
  qed
qed

lemma keys_query_rows:
  assumes s: "store_ok E s" "index_ok E s" "ts_IsReadOnly T s" and ns: "plain_ns (Namespace c)" and R: "ranges_ok R"
    and q: "keys_query fq" and r: "reduce E fq c isTxn = Some (Inr rq)"
    and idxs: "getRelevantIndexes E R rq s = Some (Inr idxs)" "covered rq idxs"
  shows "finite (query_rows E rq s)"
    "\<exists>tss. list_all2 (row_entity C (rq_suffixFormat rq)) (sorted_list_of_set (query_rows E rq s)) tss"
proof -
  note kq = keys_query_reduced [OF q r] and rs = reduce_spec [OF r]
  have "plain_ns (Namespace (rq_kc rq))" using ns rs(1) by simp
  from query_ranges [OF s this kq(3) kq(1,2) R idxs] show fin: "finite (query_rows E rq s)"
  proof (elim disjE exE conjE)
    fix ds assume d: "ds \<noteq> []" "\<forall>d \<in> set ds. def_ok T d" "(\<Inter>d \<in> set ds. def_suffixes T d) = query_rows E rq s"
    then obtain d where "d \<in> set ds" by (cases ds) auto
    then have "finite (def_suffixes T d)" "query_rows E rq s \<subseteq> def_suffixes T d" using d(2,3) def_suffixes_stem(3) by blast+
    then show ?thesis by (rule finite_subset [rotated])
  qed simp
  have "\<exists>tss. list_all2 (row_entity C (rq_suffixFormat rq)) xs tss" if "set xs \<subseteq> query_rows E rq s" for xs
    using that
  proof (induction xs)
    case (Cons x xs)
    then obtain tss where "list_all2 (row_entity C (rq_suffixFormat rq)) xs tss" by auto
    moreover obtain ts where "row_entity C (rq_suffixFormat rq) x ts" using query_row_entity [OF s(1,2) kq(1), of x] Cons.prems by auto
    ultimately show ?case by (intro exI [of _ "ts # tss"]) simp
  qed (intro exI [of _ "[]"], simp)
  then show "\<exists>tss. list_all2 (row_entity C (rq_suffixFormat rq)) (sorted_list_of_set (query_rows E rq s)) tss"
    using fin by simp
qed

lemma index_ok_Snapshot:
  assumes "store_ok E s" "index_ok E s"
  shows "index_ok E (ms_Snapshot T s)"
proof -
  have "comp_idxs (ms_Snapshot T s) = comp_idxs s" by (rule comp_idxs_cong) simp_all
  then have "compound_idxs E (ms_Snapshot T s) = compound_idxs E s" using compound_comp assms(1) by simp
  then show ?thesis using assms(2) by (simp add: index_ok_def coll_keys_rows expected_rows_def ent_pm_def)
qed

lemma matching_Snapshot:
  "query_rows E rq (ms_Snapshot T s) = query_rows E rq s" "matching E fq rq (ms_Snapshot T s) = matching E fq rq s"
  by (simp_all add: query_rows_def matching_def ent_pm_def)

lemma query_snaps: "(\<not> consistent \<longrightarrow> snap d = None) \<Longrightarrow> getQuerySnaps E d consistent = (takeSnapshot E d, takeSnapshot E d)"
  by (cases "snap d") (simp_all add: getQuerySnaps_def Let_def)

end

lemma stripSpecialProps_keys:
  "stripSpecialPropsRunCB d (\<lambda>st k _ _. (f st k, None :: 'e option)) = (\<lambda>st k _ _. (f st k, None))"
  by (simp add: stripSpecialPropsRunCB_def)

lemma foldl_count: "foldl (\<lambda>n _. n + 1) n xs = n + (of_nat (length xs) :: int64)"
  by (induction xs arbitrary: n) simp_all

text \<open>
  C6. Keys-only queries are exact. On a datastore whose indexes are consistent and that is set to answer from its current
  state (an eventually consistent query may otherwise see an older snapshot), for a kind and without ancestor, when the indexes suffice (none has a table, or every filtered property is a column of one that has): let the
  rows of the query in their order belong to the entities \<open>tss\<close>; these are the stored entities of the kind and namespace that
  have, under each filtered property, an indexed value encoded as each value of the filter, and values for the sort
  orders whose row lies between the bounds and cursors, and no others. \<^verbatim>\<open>Run\<close> passes to the callback the key of the
  first occurrence of each entity among the rows that offset and limit leave, in order, and ends without error and without a
  change of the datastore, whatever the callback computes, and \<^verbatim>\<open>Count\<close> returns their number; without offset and
  limit that is every matching entity exactly once. It holds for every order in which Go ranges over its maps.
\<close>

theorem keys_query_exact:
  assumes "ds_env E" "ds_ok E d" "index_ok E (head d)" "plain_ns (Namespace c)" "ranges_ok R"
    and "keys_query fq" "fq_eventuallyConsistent fq \<longrightarrow> snap d = None" "reduce E fq c False = Some (Inr rq)"
    and "getRelevantIndexes E R rq (takeSnapshot E d) = Some (Inr idxs)" "covered rq idxs"
  shows "\<exists>tss. list_all2 (row_entity (e_cmpbin E) (fq_orders fq)) (sorted_list_of_set (query_rows E rq (head d))) tss \<and>
    finite (query_rows E rq (head d)) \<and> set tss = matching E fq rq (head d) \<and>
    (let ks = map (\<lambda>ts. \<lparr>kc = c, toks = ts\<rparr>) (firsts [] (window (fst (FQ_Offset fq)) (fst (FQ_Limit fq)) (snd (FQ_Limit fq)) tss)) in
     ds_Run E R d c fq (\<lambda>st k _ _. (f st k, None :: 'e option)) st = Some ((foldl f st ks, None), d) \<and>
     ds_Count E R d c fq = Some ((of_nat (length ks), None), d) \<and>
     (fq_offset fq = None \<and> fq_limit fq = None \<longrightarrow>
       distinct ks \<and> set ks = (\<lambda>ts. \<lparr>kc = c, toks = ts\<rparr>) ` matching E fq rq (head d)))"
proof -
  let ?s = "takeSnapshot E d"
  have s: "store_ok E ?s" "index_ok E ?s"
    using assms(2,3) ds_env.index_ok_Snapshot [OF assms(1)] ds_env.store_ok_Snapshot [OF assms(1)]
    by (auto simp: takeSnapshot_def ds_ok_def)
  have ro: "ts_IsReadOnly (e_store E) ?s"
    using treap.Snapshot_ro [OF ds_env.axioms(1) [OF assms(1)]] by (simp add: takeSnapshot_def ms_Snapshot_def)
  have eq: "query_rows E rq ?s = query_rows E rq (head d)" "matching E fq rq ?s = matching E fq rq (head d)"
    by (simp_all add: takeSnapshot_def ds_env.matching_Snapshot [OF assms(1)])
  note hyps = assms(1) s ro assms(4-6,8-10)
  note fin = ds_env.keys_query_rows [OF hyps, unfolded eq] and run = ds_env.run_keys_query [OF hyps, unfolded eq]
  have snaps: "getQuerySnaps E d (\<not> fq_eventuallyConsistent fq) = (?s, ?s)"
    using ds_env.query_snaps [OF assms(1), of "\<not> fq_eventuallyConsistent fq" d] assms(7) by blast
  obtain tss where tss: "list_all2 (row_entity (e_cmpbin E) (rq_suffixFormat rq)) (sorted_list_of_set (query_rows E rq (head d))) tss"
    using fin(2) by blast
  have m: "set tss = matching E fq rq (head d)"
    using ds_env.matching_rows [OF assms(1) s(1,2) assms(6,8) _ tss] fin(1) by (simp add: eq)
  let ?ks = "map (\<lambda>ts. \<lparr>kc = c, toks = ts\<rparr>) (firsts [] (window (fst (FQ_Offset fq)) (fst (FQ_Limit fq)) (snd (FQ_Limit fq)) tss))"
  have cnt: "ds_Count E R d c fq = Some ((of_nat (length ?ks), None), d)"
    using assms(6) run [OF tss, of ?s "\<lambda>n _. n + 1" "0 :: int64", where 'e = qrerror]
    by (simp add: ds_Count_def countQuery_def keys_query_def foldl_count snaps missing_of_def maybeAutoIndex_def)
  have go: "ds_Run E R d c fq (\<lambda>st k _ _. (f st k, None :: 'e option)) st = Some ((foldl f st ?ks, None), d)"
    using run [OF tss, of ?s f st, where 'e = 'e]
    by (simp add: ds_Run_def stripSpecialProps_keys snaps missing_of_def maybeAutoIndex_def qr_err_def)
  have all: "distinct ?ks \<and> set ?ks = (\<lambda>ts. \<lparr>kc = c, toks = ts\<rparr>) ` matching E fq rq (head d)" if "fq_offset fq = None \<and> fq_limit fq = None"
  proof -
    have "window (fst (FQ_Offset fq)) (fst (FQ_Limit fq)) (snd (FQ_Limit fq)) tss = tss"
      using that by (simp add: FQ_Offset_def FQ_Limit_def window_def)
    then show ?thesis using firsts_spec [of "[]" tss] m by (simp add: distinct_map inj_on_def)
  qed
  show ?thesis
    using tss fin(1) m cnt go all reduce_spec(3) [OF assms(8)] by (intro exI [of _ tss]) (simp add: Let_def)
qed

definition ex_keys_query :: FinalizedQuery where
  "ex_keys_query = (case Finalize (KeysOnly (NewQuery ''K'') True) of Inr fq \<Rightarrow> fq)"

definition ex_reduced :: reducedQuery where
  "ex_reduced = \<lparr>rq_kc = MkKeyContext ''app'' ''n'', rq_kind = ''K'', rq_eqFilters = [], rq_suffixFormat = [asc ''__key__''],
     rq_start = None, rq_end = None, rq_numCols = 1\<rparr>"

lemma ex_keys_query: "Finalize (KeysOnly (NewQuery ''K'') True) = Inr ex_keys_query" "keys_query ex_keys_query"
  "fq_orders ex_keys_query = [asc ''__key__'']" "fq_eqFilts ex_keys_query = []"
  "fq_kind ex_keys_query = ''K''" "fq_offset ex_keys_query = None" "fq_limit ex_keys_query = None"
  "fq_ineqFiltProp ex_keys_query = ''''" "\<not> fq_ineqFiltLowSet ex_keys_query" "\<not> fq_ineqFiltHighSet ex_keys_query"
  "fq_start ex_keys_query = None" "fq_end ex_keys_query = None"
  by code_simp+

lemma ex_reduce: "reduce simple_env ex_keys_query (MkKeyContext ''app'' ''n'') False = Some (Inr ex_reduced)"
  by (simp add: reduce_def FQ_Valid_def FQ_Ancestor_def eq_ancestor_def numComponents_def IneqFilterLow_def IneqFilterHigh_def
      GetBinaryBounds_def cap_start_def cap_end_def num_cols_def ex_keys_query ex_reduced_def MaxQueryComponents_def)

lemma ex_covered:
  "\<exists>idxs. getRelevantIndexes simple_env ex_ranges ex_reduced s = Some (Inr idxs) \<and> covered ex_reduced idxs"
proof -
  have "\<exists>x. maybeAddDefinition simple_env ex_reduced s ([], []) \<lparr>ix_Kind = ''K'', ix_Ancestor = False, SortBy = []\<rparr> = Some (([x], []), True)"
    by (simp add: maybeAddDefinition_def usable_def ex_reduced_def GetFullSortOrder_def Normalize_def Builtin_def
        perfect_def ToBytes_def toBytesErr_def)
  moreover have "builtin_defs ex_ranges ex_reduced = [\<lparr>ix_Kind = ''K'', ix_Ancestor = False, SortBy = []\<rparr>]"
    by (simp add: builtin_defs_def ex_reduced_def ex_ranges_def)
  ultimately show ?thesis
    by (auto simp: getRelevantIndexes_def covered_def) (auto simp: ex_reduced_def)
qed

theorem keys_query_exact_witness:
  "\<exists>d. run_ops simple_env (setConsistent simple_env (newDataStoreData simple_env ''app'') True) [OpPut (ex_key ''n'') ex_pm] = Some d \<and>
    ds_Run simple_env ex_ranges d (MkKeyContext ''app'' ''n'') ex_keys_query (\<lambda>ks k _ _. (ks @ [k], None :: unit option)) [] =
      Some (([ex_key ''n''], None), d) \<and>
    ds_Count simple_env ex_ranges d (MkKeyContext ''app'' ''n'') ex_keys_query = Some ((1, None), d)"
proof -
  let ?E = "simple_env" and ?ts = "[mkTok ''K'' 7 '''']" and ?c = "MkKeyContext ''app'' ''n''" and ?k = "ex_key ''n''"
  let ?d = "setConsistent ?E (newDataStoreData ?E ''app'') True"
  have new: "ds_ok ?E ?d" "\<not> disableSpecialEntities ?d" "index_ok ?E (head ?d)" "snap ?d = None"
    using simple_ds.new_ok [of "''app''"] simple_ds.new_index_ok [of "''app''"] by (simp_all add: setConsistent_def ds_ok_def)
  have none: "a_ents (abs_ds ?E ?d) ns ts = None" for ns ts
    by (simp add: abs_ds_def entity_def ent_pm_def stored_def setConsistent_def newDataStoreData_def Let_def simple_env_def)
  obtain s where s: "put_one ?E ?d ''n'' ?k (pm_Save ex_pm False) = Some ((?k, None), ?d\<lparr>head := s\<rparr>)"
    "ds_ok ?E (?d\<lparr>head := s\<rparr>)" "abs_ds ?E (?d\<lparr>head := s\<rparr>) = a_write (abs_ds ?E ?d) ''n'' ?ts (Some (map_of (stored_map ?E ?ts ex_pm)))"
    using simple_ds.put_one_complete [OF new(1,2) ex_ok(1,3), of "''n''"] by (metis ex_ok(2,4))
  have idx: "index_ok ?E s"
    using simple_ds.put_index_ok [OF new(1-3) ex_ok(1,3), of "''n''" "(?k, None)" "?d\<lparr>head := s\<rparr>"] s(1)
    by (simp add: ex_ok(2) plain_ns_def no_key_prop_def ex_pm_def)
  let ?d' = "?d\<lparr>head := s\<rparr>"
  have ents: "(\<exists>pm. ent_pm ?E s ns ts = Some pm) \<longleftrightarrow> ns = ''n'' \<and> ts = ?ts" if "user_toks ts" for ns ts
    using arg_cong [OF s(3), of "\<lambda>a. a_ents a ns ts"] none [of ns ts] that
    by (auto simp: a_write_def abs_ds_def entity_def a_bump_def split: if_splits)
  have key: "user_toks ?ts" using ex_ok(1,4) by metis
  obtain pm where pm: "ent_pm ?E s ''n'' ?ts = Some pm" using ents [OF key] by blast
  have kv: "ent_vals simple_cmpbin ?ts pm ''__key__'' = {key_bytes simple_cmpbin ?ts}"
    using simple_ds.ent_vals_column(2) [OF _ idx key pm] s(2) by (simp add: ds_ok_def simple_env_def)
  have m: "matching ?E ex_keys_query ex_reduced s = {?ts}"
  proof (intro equalityI subsetI)
    fix ts assume "ts \<in> matching ?E ex_keys_query ex_reduced s"
    then have u: "user_toks ts" and "\<exists>pm. ent_pm ?E s (Namespace (rq_kc ex_reduced)) ts = Some pm" unfolding matching_def by blast+
    then have "ts = ?ts" using ents [OF u] by blast
    then show "ts \<in> {?ts}" by simp
  next
    fix ts assume "ts \<in> {?ts}"
    then have ts: "ts = ?ts" by simp
    have "ent_pm ?E s (Namespace (rq_kc ex_reduced)) ?ts = Some pm" using pm by (simp add: ex_reduced_def MkKeyContext_def)
    moreover have "in_range (rq_start ex_reduced) (rq_end ex_reduced) x" for x by (simp add: ex_reduced_def in_range_def bytes_of_def)
    moreover have "ent_row (e_cmpbin ?E) ?ts pm [(asc ''__key__'', key_bytes simple_cmpbin ?ts)]" using kv by (simp add: simple_env_def)
    moreover have "Kind (last ?ts) = fq_kind ex_keys_query" by (simp add: mkTok_def ex_keys_query)
    ultimately show "ts \<in> matching ?E ex_keys_query ex_reduced s"
      unfolding ts matching_def ex_keys_query(3,4) using key
      by (intro CollectI conjI exI [of _ pm] exI [of _ "[(asc ''__key__'', key_bytes simple_cmpbin ?ts)]"]) simp_all
  qed
  have run: "run_ops ?E ?d [OpPut ?k ex_pm] = Some ?d'" using s(1) by (simp add: exec_op_def ex_ok(2))
  obtain idxs where i: "getRelevantIndexes ?E ex_ranges ex_reduced (takeSnapshot ?E ?d') = Some (Inr idxs)" "covered ex_reduced idxs"
    using ex_covered by blast
  have ns: "plain_ns (Namespace ?c)" by (simp add: plain_ns_def MkKeyContext_def)
  have hd: "index_ok ?E (head ?d')" "fq_eventuallyConsistent ex_keys_query \<longrightarrow> snap ?d' = None" using idx new(4) by simp_all
  from keys_query_exact [OF simple_ds.ds_env_axioms s(2) hd(1) ns ex_ok_ranges(1) ex_keys_query(2) hd(2) ex_reduce i,
      where f = "\<lambda>ks k. ks @ [k]" and st = "[]" and 'e = unit]
  obtain ks where ks: "ds_Run ?E ex_ranges ?d' ?c ex_keys_query (\<lambda>ks k _ _. (ks @ [k], None :: unit option)) [] =
      Some ((foldl (\<lambda>ks k. ks @ [k]) [] ks, None), ?d')"
    "ds_Count ?E ex_ranges ?d' ?c ex_keys_query = Some ((of_nat (length ks), None), ?d')"
    "distinct ks" "set ks = (\<lambda>ts. \<lparr>kc = ?c, toks = ts\<rparr>) ` matching ?E ex_keys_query ex_reduced s"
    using ex_keys_query(6,7) by (auto simp: Let_def)
  have "ks = [?k]" using ks(3,4) m by (cases ks; cases "tl ks") (auto simp: ex_key_def)
  then show ?thesis using run ks(1,2) by auto
qed

end
