(* ===== verification/Raw_Interface.thy ===== *)
theory Raw_Interface
  imports Query_Correct
begin

text \<open>
  \<^verbatim>\<open>RawInterface\<close> of \<^verbatim>\<open>service/datastore/raw_interface.go\<close> as filters use it: operations on the state of a
  datastore, each of which may fail as a whole or for single keys. What a client may rely on is
  stated by locales, and the in-memory datastore that \<^verbatim>\<open>NewDatastore\<close> makes satisfies them.
  A panic is \<open>None\<close>; the callbacks a filter passes never stop an operation, so an operation returns all results.
\<close>

section \<open>The interface\<close>

datatype rierror = RIErr dserror | RIQuery qrerror | ErrTooManyRoots | ErrTransactionTooLarge | ErrNoCursors
  | ErrFinalize qerror | ErrInvalidKey | ErrMismatched | ErrStop

record 's RawInterface =
  ri_GetMulti :: "'s \<Rightarrow> Key list \<Rightarrow> ((rierror + (rierror + PropertyMap) list) \<times> 's) option"
  ri_PutMulti :: "'s \<Rightarrow> Key list \<Rightarrow> PropertyMap list \<Rightarrow> ((rierror + rierror option list) \<times> 's) option"
  ri_DeleteMulti :: "'s \<Rightarrow> Key list \<Rightarrow> ((rierror + rierror option list) \<times> 's) option"
  ri_AllocateIDs :: "'s \<Rightarrow> Key list \<Rightarrow> ((rierror + (rierror + Key) list) \<times> 's) option"
  ri_Run :: "'s \<Rightarrow> FinalizedQuery \<Rightarrow> (((Key \<times> PropertyMap option) list \<times> rierror option) \<times> 's) option"

abbreviation NoSuchEntity :: rierror where "NoSuchEntity \<equiv> RIErr ErrNoSuchEntity"

section \<open>The in-memory datastore\<close>

text \<open>The methods of \<^verbatim>\<open>dsImpl\<close>.\<close>

definition mem_GetMulti :: "'s dsenv \<Rightarrow> 's dataStoreData \<Rightarrow> Key list \<Rightarrow> ((rierror + (rierror + PropertyMap) list) \<times> 's dataStoreData) option" where
  "mem_GetMulti E d keys = map_option (\<lambda>rs. (Inr (map (map_sum RIErr id) rs), d)) (getMulti E d keys)"

definition mem_PutMulti ::
  "'s dsenv \<Rightarrow> 's dataStoreData \<Rightarrow> Key list \<Rightarrow> PropertyMap list \<Rightarrow> ((rierror + rierror option list) \<times> 's dataStoreData) option" where
  "mem_PutMulti E d keys vals =
     map_option (\<lambda>(calls, _, d). (Inr (map (\<lambda>(_, err). map_option RIErr err) calls), d))
       (putMulti E (\<lambda>_ _ _. None) d keys (map Some vals))"

definition mem_DeleteMulti :: "'s dsenv \<Rightarrow> 's dataStoreData \<Rightarrow> Key list \<Rightarrow> ((rierror + rierror option list) \<times> 's dataStoreData) option" where
  "mem_DeleteMulti E d keys =
     map_option (\<lambda>(calls, _, d). (Inr (map (map_option RIErr) calls), d)) (delMulti E (\<lambda>_ _. None) d keys)"

definition mem_Run ::
  "'s dsenv \<Rightarrow> ranges \<Rightarrow> KeyContext \<Rightarrow> 's dataStoreData \<Rightarrow> FinalizedQuery \<Rightarrow>
   (((Key \<times> PropertyMap option) list \<times> rierror option) \<times> 's dataStoreData) option" where
  "mem_Run E R c d fq =
     map_option (\<lambda>((res, err), d). ((res, map_option (\<lambda>e. case e of Inl q \<Rightarrow> RIQuery q | Inr x \<Rightarrow> x) err), d))
       (ds_Run E R d c fq (\<lambda>acc k pm _. (acc @ [(k, pm)], None :: rierror option)) [])"

text \<open>\<^verbatim>\<open>allocateIDs\<close> groups the keys by their printed form, which is not modelled: it is an argument.\<close>

definition mem_interface ::
  "'s dsenv \<Rightarrow> ranges \<Rightarrow> ('s dataStoreData \<Rightarrow> Key list \<Rightarrow> ((rierror + (rierror + Key) list) \<times> 's dataStoreData) option) \<Rightarrow>
   KeyContext \<Rightarrow> 's dataStoreData RawInterface" where
  "mem_interface E R allocateIDs c =
     \<lparr>ri_GetMulti = mem_GetMulti E, ri_PutMulti = mem_PutMulti E, ri_DeleteMulti = mem_DeleteMulti E,
      ri_AllocateIDs = allocateIDs, ri_Run = mem_Run E R c\<rparr>"

section \<open>The check filter\<close>

text \<open>
  \<^verbatim>\<open>checkFilter\<close> of \<^verbatim>\<open>checkfilter.go\<close>, which \<^verbatim>\<open>Raw\<close> puts around every datastore. With an invalid key among
  the keys the calls report an error for each invalid key and nil for the others, and do not reach the datastore; a nil property
  map is the empty map here. The callbacks are never nil, nor are the maps to put.
\<close>

definition check_complete :: "KeyContext \<Rightarrow> bool \<Rightarrow> Key \<Rightarrow> rierror option option" where
  "check_complete c allowSpecial k =
     map_option (\<lambda>inc. if inc \<or> \<not> Key_Valid k allowSpecial c then Some ErrInvalidKey else None) (Key_IsIncomplete k)"

definition check_partial :: "KeyContext \<Rightarrow> Key \<Rightarrow> rierror option option" where
  "check_partial c k = map_option (\<lambda>ok. if ok then None else Some ErrInvalidKey) (PartialValid k c)"

fun check_all :: "(Key \<Rightarrow> rierror option option) \<Rightarrow> Key list \<Rightarrow> rierror option list option" where
  "check_all chk [] = Some []"
| "check_all chk (k # ks) = Option.bind (chk k) (\<lambda>err. map_option ((#) err) (check_all chk ks))"

definition check_GetMulti ::
  "KeyContext \<Rightarrow> 's RawInterface \<Rightarrow> 's \<Rightarrow> Key list \<Rightarrow> ((rierror + (rierror + PropertyMap) list) \<times> 's) option" where
  "check_GetMulti c P s keys =
     (if keys = [] then Some (Inr [], s)
      else Option.bind (check_all (check_complete c True) keys) (\<lambda>errs.
        if list_ex (\<lambda>err. err \<noteq> None) errs
        then Some (Inr (map (\<lambda>err. case err of None \<Rightarrow> Inr [] | Some e \<Rightarrow> Inl e) errs), s)
        else ri_GetMulti P s keys))"

definition check_PutMulti ::
  "KeyContext \<Rightarrow> 's RawInterface \<Rightarrow> 's \<Rightarrow> Key list \<Rightarrow> PropertyMap list \<Rightarrow> ((rierror + rierror option list) \<times> 's) option" where
  "check_PutMulti c P s keys vals =
     (if length keys \<noteq> length vals then Some (Inl ErrMismatched, s)
      else if keys = [] then Some (Inr [], s)
      else Option.bind (check_all (check_partial c) keys) (\<lambda>errs.
        if list_ex (\<lambda>err. err \<noteq> None) errs then Some (Inr errs, s)
        else ri_PutMulti P s keys vals))"

definition check_DeleteMulti ::
  "KeyContext \<Rightarrow> 's RawInterface \<Rightarrow> 's \<Rightarrow> Key list \<Rightarrow> ((rierror + rierror option list) \<times> 's) option" where
  "check_DeleteMulti c P s keys =
     (if keys = [] then Some (Inr [], s)
      else Option.bind (check_all (check_complete c False) keys) (\<lambda>errs.
        if list_ex (\<lambda>err. err \<noteq> None) errs then Some (Inr errs, s)
        else ri_DeleteMulti P s keys))"

definition checkFilter :: "KeyContext \<Rightarrow> 's RawInterface \<Rightarrow> 's RawInterface" where
  "checkFilter c P = P\<lparr>ri_GetMulti := check_GetMulti c P, ri_PutMulti := check_PutMulti c P, ri_DeleteMulti := check_DeleteMulti c P\<rparr>"

text \<open>\<^verbatim>\<open>NewDatastore\<close>: automatic indexes, always consistent, no special entities.\<close>

definition NewDatastore :: "'s dsenv \<Rightarrow> string \<Rightarrow> 's dataStoreData" where
  "NewDatastore E a =
     setDisableSpecialEntities (setConsistent E (setAutoIndex (newDataStoreData E a) True) True) True"

section \<open>Contracts\<close>

text \<open>The keys of a transaction, what a put keeps of a property map, and what a read of an entity returns.\<close>

definition entity_toks :: "KeyTok list \<Rightarrow> bool" where
  "entity_toks ts \<longleftrightarrow> user_toks ts \<and> list_all (tok_valid False) ts"

definition txn_key :: "KeyContext \<Rightarrow> Key \<Rightarrow> bool" where
  "txn_key c k \<longleftrightarrow> kc k = c \<and> entity_toks (toks k)"

lemma entity_user: "entity_toks ts \<Longrightarrow> user_toks ts"
  by (simp add: entity_toks_def)

lemma txn_keyD:
  assumes "txn_key c k"
  shows "kc k = c" "Key_Namespace k = Namespace c" "entity_toks (toks k)" "Key_IsIncomplete k = Some False"
    "Key_Valid k b c" "PartialValid k c = Some True"
proof -
  show k: "kc k = c" "Key_Namespace k = Namespace c" "entity_toks (toks k)" using assms by (simp_all add: txn_key_def Key_Namespace_def)
  then have ne: "toks k \<noteq> []" "list_all (tok_valid False) (toks k)" by (auto simp: entity_toks_def user_toks_def toks_storable_def)
  then have "tok_valid False (last (toks k))" by (simp add: list_all_last)
  then show inc: "Key_IsIncomplete k = Some False" using ne(1) by (auto simp: Key_IsIncomplete_def LastTok_def tok_valid_def split: if_splits)
  have "KeyContext_Matches c (kc k)" using k(1) by (simp add: Matches_eq)
  then show "Key_Valid k b c" using ne(2) by (auto simp: Key_Valid_def list_all_iff tok_valid_def split: if_splits)
  then have "Key_Valid k False c" using \<open>KeyContext_Matches c (kc k)\<close> ne(2) by (simp add: Key_Valid_def)
  then show "PartialValid k c = Some True" using inc by (simp add: PartialValid_def)
qed

definition saved :: "PropertyMap \<Rightarrow> string \<rightharpoonup> PropertyData" where
  "saved pm = (map_of (pm_Save pm False))(''__scatter__'' := None)"

fun reads :: "(string \<rightharpoonup> PropertyData) option \<Rightarrow> rierror + PropertyMap \<Rightarrow> bool" where
  "reads None r = (r = Inl NoSuchEntity)"
| "reads (Some m) r = (\<exists>pm. r = Inr pm \<and> map_of pm = m)"

text \<open>The entity as a query without the keys' context reads it.\<close>

definition in_context :: "KeyContext \<Rightarrow> (string \<rightharpoonup> PropertyData) \<Rightarrow> string \<rightharpoonup> PropertyData" where
  "in_context c m = (\<lambda>n. map_option (recontext_data WithContext WithoutContext c) (m n))"

text \<open>A datastore that can be read: a read may fail, but returns no wrong entity.\<close>

locale raw_reader =
  fixes P :: "'p RawInterface" and pinv :: "'p \<Rightarrow> bool" and pabs :: "'p \<Rightarrow> KeyTok list \<Rightarrow> (string \<rightharpoonup> PropertyData) option"
    and c :: KeyContext
  assumes get_reads: "pinv p \<Longrightarrow> ks \<noteq> [] \<Longrightarrow> \<forall>k \<in> set ks. txn_key c k \<Longrightarrow>
    \<exists>r p'. ri_GetMulti P p ks = Some (r, p') \<and> pinv p' \<and> pabs p' = pabs p \<and>
      (case r of Inl _ \<Rightarrow> True
       | Inr rs \<Rightarrow> list_all2 (\<lambda>k r. reads (pabs p (toks k)) r \<or> (\<exists>e. e \<noteq> NoSuchEntity \<and> r = Inl e)) ks rs)"

text \<open>A datastore whose operations on keys of the transaction never fail.\<close>

locale raw_store = raw_reader +
  assumes get_total: "pinv p \<Longrightarrow> ks \<noteq> [] \<Longrightarrow> \<forall>k \<in> set ks. txn_key c k \<Longrightarrow>
    \<exists>rs p'. ri_GetMulti P p ks = Some (Inr rs, p') \<and> list_all2 (\<lambda>k r. reads (pabs p (toks k)) r) ks rs"
    and put: "pinv p \<Longrightarrow> ks \<noteq> [] \<Longrightarrow> \<forall>k \<in> set ks. txn_key c k \<Longrightarrow> length pms = length ks \<Longrightarrow> \<forall>pm \<in> set pms. putable pm \<Longrightarrow>
    \<exists>p'. ri_PutMulti P p ks pms = Some (Inr (map (\<lambda>_. None) ks), p') \<and> pinv p' \<and>
      pabs p' = fold (\<lambda>(k, pm) a. a(toks k := Some (saved pm))) (zip ks pms) (pabs p)"
    and del: "pinv p \<Longrightarrow> ks \<noteq> [] \<Longrightarrow> \<forall>k \<in> set ks. txn_key c k \<Longrightarrow>
    \<exists>p'. ri_DeleteMulti P p ks = Some (Inr (map (\<lambda>_. None) ks), p') \<and> pinv p' \<and>
      pabs p' = fold (\<lambda>k a. a(toks k := None)) ks (pabs p)"

text \<open>A datastore from which a kindless query returns every entity.\<close>

locale raw_buffer = raw_store +
  assumes dump: "pinv p \<Longrightarrow> Finalize (NewQuery '''') = Inr fq \<Longrightarrow>
    \<exists>res. ri_Run P p fq = Some ((res, None), p) \<and> distinct (map fst res) \<and>
      fst ` set res = {k. txn_key c k \<and> pabs p (toks k) \<noteq> None} \<and>
      (\<forall>(k, v) \<in> set res. \<exists>pm. v = Some pm \<and> putable pm \<and> saved pm = map_of pm \<and> map_of pm = in_context c (the (pabs p (toks k))))"
    and only_txn: "pinv p \<Longrightarrow> pabs p ts \<noteq> None \<Longrightarrow> entity_toks ts"

text \<open>A datastore that returns the results of this query in the order of the keys' bytes.\<close>

locale raw_sorted = raw_buffer P pinv pabs c
  for P :: "'p RawInterface" and pinv :: "'p \<Rightarrow> bool" and pabs :: "'p \<Rightarrow> KeyTok list \<Rightarrow> (string \<rightharpoonup> PropertyData) option" and c :: KeyContext +
  fixes C :: cmpbin
  assumes dump_sorted: "pinv p \<Longrightarrow> Finalize (NewQuery '''') = Inr fq \<Longrightarrow> ri_Run P p fq = Some ((res, err), p') \<Longrightarrow>
    sorted (map (\<lambda>r. key_bytes C (toks (fst r))) res)"

text \<open>The check filter lets the keys of a transaction pass, so it keeps the contracts.\<close>

lemma check_all_pass: "\<forall>k \<in> set ks. chk k = Some None \<Longrightarrow> check_all chk ks = Some (map (\<lambda>_. None) ks)"
  by (induction ks) auto

lemma checkFilter_pass:
  assumes "ks \<noteq> []" "\<forall>k \<in> set ks. txn_key c k"
  shows "ri_GetMulti (checkFilter c P) p ks = ri_GetMulti P p ks" "ri_DeleteMulti (checkFilter c P) p ks = ri_DeleteMulti P p ks"
    "length pms = length ks \<Longrightarrow> ri_PutMulti (checkFilter c P) p ks pms = ri_PutMulti P p ks pms"
proof -
  have "check_all (check_complete c b) ks = Some (map (\<lambda>_. None) ks)" for b
  proof (intro check_all_pass ballI)
    fix k assume "k \<in> set ks"
    then have "txn_key c k" using assms(2) by blast
    from txn_keyD(4,5) [OF this] show "check_complete c b k = Some None" by (simp add: check_complete_def)
  qed
  moreover have "check_all (check_partial c) ks = Some (map (\<lambda>_. None) ks)"
  proof (intro check_all_pass ballI)
    fix k assume "k \<in> set ks"
    then have "txn_key c k" using assms(2) by blast
    from txn_keyD(6) [OF this] show "check_partial c k = Some None" by (simp add: check_partial_def)
  qed
  ultimately show "ri_GetMulti (checkFilter c P) p ks = ri_GetMulti P p ks" "ri_DeleteMulti (checkFilter c P) p ks = ri_DeleteMulti P p ks"
    "length pms = length ks \<Longrightarrow> ri_PutMulti (checkFilter c P) p ks pms = ri_PutMulti P p ks pms"
    using assms(1) by (simp_all add: checkFilter_def check_GetMulti_def check_DeleteMulti_def check_PutMulti_def list_ex_iff)
qed

lemma checkFilter_contract:
  "raw_reader P pinv pabs c \<Longrightarrow> raw_reader (checkFilter c P) pinv pabs c"
  "raw_store P pinv pabs c \<Longrightarrow> raw_store (checkFilter c P) pinv pabs c"
  "raw_buffer P pinv pabs c \<Longrightarrow> raw_buffer (checkFilter c P) pinv pabs c"
  "raw_sorted P pinv pabs c C \<Longrightarrow> raw_sorted (checkFilter c P) pinv pabs c C"
proof -
  have run: "ri_Run (checkFilter c P) = ri_Run P" by (simp add: checkFilter_def)
  show "raw_reader P pinv pabs c \<Longrightarrow> raw_reader (checkFilter c P) pinv pabs c"
    by (simp add: raw_reader_def checkFilter_pass)
  then show "raw_store P pinv pabs c \<Longrightarrow> raw_store (checkFilter c P) pinv pabs c"
    by (simp add: raw_store_def raw_store_axioms_def checkFilter_pass)
  then show "raw_buffer P pinv pabs c \<Longrightarrow> raw_buffer (checkFilter c P) pinv pabs c"
    by (simp add: raw_buffer_def raw_buffer_axioms_def run)
  then show "raw_sorted P pinv pabs c C \<Longrightarrow> raw_sorted (checkFilter c P) pinv pabs c C"
    by (simp add: raw_sorted_def raw_sorted_axioms_def run)
qed

end
