(* ===== verification/Mem_Buffer.thy ===== *)
theory Mem_Buffer
  imports Raw_Interface
begin

text \<open>
  The in-memory datastore of \<^verbatim>\<open>NewDatastore\<close>, without special entities, satisfies the contracts of
  \<open>Raw_Interface\<close>: it stores what is put, and a kindless query returns all of it.
\<close>

section \<open>The kindless query\<close>

lemma all_query:
  "check_query (NewQuery '''') None = None" "eq_ancestor (q_eqFilts (NewQuery '''')) = Inr None"
  "final_orders (NewQuery '''') = [asc ''__key__'']" "final_project (NewQuery '''') = []" "q_err (NewQuery '''') = None" "eq_ancestor [] = Inr None"
  by code_simp+

lemma dump_query:
  assumes "Finalize (NewQuery '''') = Inr fq"
  shows "\<not> fq_keysOnly fq" "fq_project fq = []" "FQ_Limit fq = (0, False)" "FQ_Offset fq = (0, False)"
    "\<exists>rq. reduce E fq c False = Some (Inr rq) \<and> rq_kc rq = c \<and> rq_kind rq = '''' \<and> rq_eqFilters rq = [] \<and>
      rq_suffixFormat rq = [asc ''__key__''] \<and> bytes_of (rq_start rq) = [] \<and> rq_end rq = None"
  using assms [symmetric] unfolding Finalize_def finalizeImpl_def all_query option.case sum.case
  by (simp_all add: all_query(6) NewQuery_def FQ_Limit_def FQ_Offset_def reduce_def FQ_Valid_def FQ_Ancestor_def numComponents_def
      GetBinaryBounds_def cap_start_def cap_end_def bytes_of_def MaxQueryComponents_def IneqFilterLow_def IneqFilterHigh_def)

section \<open>Invariant\<close>

text \<open>Every record of the namespace was written by a put.\<close>

definition buf_record :: "'s dsenv \<Rightarrow> byte list \<Rightarrow> byte list \<Rightarrow> bool" where
  "buf_record E k v \<longleftrightarrow> (\<exists>ts pm. entity_toks ts \<and> k = key_bytes (e_cmpbin E) ts \<and> putable pm \<and>
     WritePropertyMap (e_cmpbin E) (e_detmaps E) WithContext (stored_map E ts pm) = Some v)"

definition buf_ok :: "'s dsenv \<Rightarrow> string \<Rightarrow> 's dataStoreData \<Rightarrow> bool" where
  "buf_ok E ns d \<longleftrightarrow> ds_ok E d \<and> disableSpecialEntities d \<and> \<not> showSpecialProps d \<and> snap d = None \<and>
     (\<forall>k v. ts_HasCollection (e_store E) (head d) (ents_coll ns) \<longrightarrow>
        tc_Get (e_store E) (head d) (ents_coll ns) k = Some v \<longrightarrow> buf_record E k v)"

definition buf_abs :: "'s dsenv \<Rightarrow> string \<Rightarrow> 's dataStoreData \<Rightarrow> KeyTok list \<Rightarrow> (string \<rightharpoonup> PropertyData) option" where
  "buf_abs E ns d ts =
     (if entity_toks ts then map_option (\<lambda>m. m(''__scatter__'' := None)) (entity E (head d) ns ts) else None)"

context ds_env begin

lemma stored_map_saved: "putable pm \<Longrightarrow> (map_of (stored_map E ts pm))(''__scatter__'' := None) = saved pm"
  using stored_map(4) [of pm] by (auto simp: saved_def fun_eq_iff)

lemma buf_abs_rows:
  assumes "store_ok E s" "user_toks ts"
  shows "stored E s ns ts = None \<Longrightarrow> entity E s ns ts = None"
    and "stored E s ns ts = Some v \<Longrightarrow> \<exists>pm. readPropMap E v = Inr pm \<and> entity E s ns ts = Some (map_of pm)"
  using read_entity [of s ts ns] assms by (auto simp: entity_def user_toks_def)

section \<open>Writing\<close>

text \<open>One record of the namespace changes, besides index tables.\<close>

definition writes_one :: "'s dataStoreData \<Rightarrow> 's \<Rightarrow> string \<Rightarrow> KeyTok list \<Rightarrow> byte list option \<Rightarrow> bool" where
  "writes_one d s' ns ts v \<longleftrightarrow> rw s' \<and> store_ok E s' \<and> has s' (ents_coll ns) \<and>
     get s' (ents_coll ns) = (if has (head d) (ents_coll ns) then get (head d) (ents_coll ns) else Map.empty)(key_bytes C ts := v)"

lemma writes_one_abs:
  assumes d: "ds_ok E d" and k: "entity_toks ts" and w: "writes_one d s' ns ts v"
  shows "buf_abs E ns (d\<lparr>head := s'\<rparr>) = (buf_abs E ns d)(ts :=
    map_option (\<lambda>v. (map_of (case readPropMap E v of Inr pm \<Rightarrow> pm | Inl _ \<Rightarrow> []))(''__scatter__'' := None)) v)"
proof (rule ext)
  fix us
  have ok: "store_ok E s'" "store_ok E (head d)" using w d by (simp_all add: writes_one_def ds_ok_def)
  show "buf_abs E ns (d\<lparr>head := s'\<rparr>) us = ((buf_abs E ns d)(ts :=
    map_option (\<lambda>v. (map_of (case readPropMap E v of Inr pm \<Rightarrow> pm | Inl _ \<Rightarrow> []))(''__scatter__'' := None)) v)) us"
  proof (cases "entity_toks us \<and> us \<noteq> ts")
    case True
    then have "key_bytes C us \<noteq> key_bytes C ts" using key_bytes_inj [OF cmpbin_reads, of us ts] k by (auto simp: entity_toks_def user_toks_def)
    then have "stored E s' ns us = stored E (head d) ns us"
      using w unfolding stored_def writes_one_def by (cases "has (head d) (ents_coll ns)") simp_all
    then have "entity E s' ns us = entity E (head d) ns us" by (rule views_stored(2))
    then show ?thesis using True unfolding buf_abs_def by simp
  next
    case False
    have st: "stored E s' ns ts = v" using w by (simp add: stored_def writes_one_def)
    consider "us = ts" | "\<not> entity_toks us" "us \<noteq> ts" using False by blast
    then show ?thesis
    proof cases
      case 1
      show ?thesis
      proof (cases v)
        case None
        then show ?thesis using 1 k st buf_abs_rows(1) [OF ok(1) entity_user [OF k]] by (simp add: buf_abs_def)
      next
        case (Some b)
        then obtain pm where "readPropMap E b = Inr pm" "entity E s' ns ts = Some (map_of pm)"
          using buf_abs_rows(2) [OF ok(1) entity_user [OF k]] st by blast
        then show ?thesis using 1 k Some by (simp add: buf_abs_def)
      qed
    qed (simp add: buf_abs_def)
  qed
qed

lemma writes_one_ok:
  assumes d: "buf_ok E ns d" and w: "writes_one d s' ns ts v" and v: "\<forall>b. v = Some b \<longrightarrow> buf_record E (key_bytes C ts) b"
  shows "buf_ok E ns (d\<lparr>head := s'\<rparr>)"
  using d w v by (auto simp: buf_ok_def writes_one_def ds_ok_def split: if_splits)

lemma plain_group: "disableSpecialEntities d \<Longrightarrow> bump_group E d n k = Some d"
  by (simp add: bump_group_def)

lemma put_one_plain:
  assumes d: "ds_ok E d" "disableSpecialEntities d" and k: "user_toks (toks k)" and pm: "putable pm"
  obtains s' bs where "put_one E d (Key_Namespace k) k (pm_Save pm False) = Some ((k, None), d\<lparr>head := s'\<rparr>)"
    "writes_one d s' (Key_Namespace k) (toks k) (Some bs)"
    "WritePropertyMap C (e_detmaps E) WithContext (stored_map E (toks k) pm) = Some bs"
    "\<exists>pm'. readPropMap E bs = Inr pm' \<and> map_of pm' = map_of (stored_map E (toks k) pm)"
proof -
  let ?ns = "Key_Namespace k" and ?ts = "toks k" and ?pm = "stored_map E (toks k) pm" and ?d = "open_ents E d (Key_Namespace k)"
  note o = open_ents [OF d(1), where ns = ?ns]
  have ts: "toks_storable ?ts" "\<not> special_toks ?ts" "?ts \<noteq> []" using k by (auto simp: user_toks_def toks_storable_def)
  have ok: "rw (head ?d)" "store_ok E (head ?d)" "has (head ?d) (ents_coll ?ns)" using o(1,2) by (simp_all add: ds_ok_def)
  obtain bs pm' where bs: "ToBytesWithContext C (e_detmaps E) (SPropertyMap ?pm) = Some bs"
    "readPropMap E bs = Inr pm'" "map_of pm' = map_of ?pm" "record_ok E ?ts bs"
    using stored_bytes [OF stored_map(2,3) [OF pm] ts(2)] by metis
  define s1 where "s1 = tc_Put T (head ?d) (ents_coll ?ns) (key_bytes C ?ts, bs)"
  note p = put_record [OF ok ts(1) bs(4), folded s1_def]
  define old where "old = ent_pm E (head ?d) ?ns ?ts"
  have old: "(case get (head ?d) (ents_coll ?ns) (key_bytes C ?ts) of None \<Rightarrow> Inr None
      | Some v \<Rightarrow> map_sum id Some (readPropMap E v)) = Inr old"
    using read_entity [OF ok(2) ts(1,2), of ?ns] ok(3) by (auto simp: old_def stored_def)
  obtain s2 where s2: "updateIndexes E s1 k old (Some ?pm) = Some s2"
    using updateIndexes [OF ts(3) p(1) store_okD(1) [OF p(2)]] by metis
  have s1: "has s1 = has (head ?d)" "\<forall>n. n \<noteq> ents_coll ?ns \<longrightarrow> get s1 n = get (head ?d) n" using p(3,4) by simp_all
  note c = change_entity [OF ok k p(1) s1 p(2) s2]
  obtain s' where u: "updateIndexes E s1 k old (Some ?pm) = Some s'" "\<And>n. n \<notin> range (idx_coll ?ns) \<Longrightarrow> has s' n = has s1 n \<and> get s' n = get s1 n"
    using updateIndexes [OF ts(3) p(1) store_okD(1) [OF p(2)]] by metis
  have "ents_coll ?ns \<notin> range (idx_coll ?ns)" by auto
  then have g: "get s2 (ents_coll ?ns) = get s1 (ents_coll ?ns)" "has s2 (ents_coll ?ns)" using u s2 c(4) ok(3) by auto
  have empty: "get (head ?d) (ents_coll ?ns) = (if has (head d) (ents_coll ?ns) then get (head d) (ents_coll ?ns) else Map.empty)"
    using d(1) by (auto simp: open_ents_def ds_ok_def)
  have w: "writes_one d s2 ?ns ?ts (Some bs)"
    using c(1,2) g ok empty by (simp add: writes_one_def s1_def)
  have "put_one E d ?ns k (pm_Save pm False) = Some ((k, None), d\<lparr>head := s2\<rparr>)"
    using o(6,10) d(2) stored_map(1) [OF pm, of ?ts] old bs(1) s2
    by (simp add: put_one_eq put_key_def fixKeyLocked_complete [OF user_complete [OF k]] plain_group keyBytes_eq Let_def s1_def)
  then show ?thesis using that w bs by (auto simp: ToBytesWithContext_def toBytesErr_def)
qed

lemma del_one_plain:
  assumes d: "ds_ok E d" "disableSpecialEntities d" and k: "user_toks (toks k)"
  obtains s' where "del_one E d (Key_Namespace k) k = Some (None, d\<lparr>head := s'\<rparr>)"
    "writes_one d s' (Key_Namespace k) (toks k) None"
proof -
  let ?ns = "Key_Namespace k" and ?ts = "toks k" and ?d = "open_ents E d (Key_Namespace k)"
  note o = open_ents [OF d(1), where ns = ?ns]
  have ts: "toks_storable ?ts" "\<not> special_toks ?ts" "?ts \<noteq> []" using k by (auto simp: user_toks_def toks_storable_def)
  have ok: "rw (head ?d)" "store_ok E (head ?d)" "has (head ?d) (ents_coll ?ns)" using o(1,2) by (simp_all add: ds_ok_def)
  have empty: "get (head ?d) (ents_coll ?ns) = (if has (head d) (ents_coll ?ns) then get (head d) (ents_coll ?ns) else Map.empty)"
    using d(1) by (auto simp: open_ents_def ds_ok_def)
  have del: "del_one E d ?ns k =
      (case get (head ?d) (ents_coll ?ns) (key_bytes C ?ts) of
         None \<Rightarrow> Some (None, d\<lparr>head := head ?d\<rparr>)
       | Some old \<Rightarrow> (case readPropMap E old of
            Inl e \<Rightarrow> Some (Some (ErrRead e), ?d)
          | Inr oldPM \<Rightarrow> map_option (\<lambda>h. (None, d\<lparr>head := h\<rparr>))
              (updateIndexes E (tc_Delete T (head ?d) (ents_coll ?ns) (key_bytes C ?ts)) k (Some oldPM) None)))"
    using o(6,10) d(2) by (simp add: del_one_def keyBytes_eq Let_def plain_group split: option.splits sum.splits) (simp add: open_ents_def)
  from read_entity [OF ok(2) ts(1,2), of ?ns] show ?thesis
  proof (elim disjE exE conjE)
    assume "stored E (head ?d) ?ns ?ts = None"
    then have none: "get (head ?d) (ents_coll ?ns) (key_bytes C ?ts) = None" using ok(3) by (simp add: stored_def)
    then have "(get (head ?d) (ents_coll ?ns))(key_bytes C ?ts := None) = get (head ?d) (ents_coll ?ns)" by (simp add: fun_eq_iff)
    then have "writes_one d (head ?d) ?ns ?ts None" using ok empty by (simp add: writes_one_def)
    then show ?thesis using that [of "head ?d"] del none by simp
  next
    fix v pm assume "stored E (head ?d) ?ns ?ts = Some v" "readPropMap E v = Inr pm"
    then have some: "get (head ?d) (ents_coll ?ns) (key_bytes C ?ts) = Some v" "readPropMap E v = Inr pm" using ok(3) by (simp_all add: stored_def)
    define s1 where "s1 = tc_Delete T (head ?d) (ents_coll ?ns) (key_bytes C ?ts)"
    note p = delete_record [OF ok ts(1), folded s1_def]
    obtain s2 where u: "updateIndexes E s1 k (Some pm) None = Some s2"
      "\<And>n. n \<notin> range (idx_coll ?ns) \<Longrightarrow> has s2 n = has s1 n \<and> get s2 n = get s1 n"
      using updateIndexes [OF ts(3) p(1) store_okD(1) [OF p(2)]] by metis
    have s1: "has s1 = has (head ?d)" "\<forall>n. n \<noteq> ents_coll ?ns \<longrightarrow> get s1 n = get (head ?d) n" using p(3,4) by simp_all
    note c = change_entity [OF ok k p(1) s1 p(2) u(1)]
    have "ents_coll ?ns \<notin> range (idx_coll ?ns)" by auto
    then have g: "get s2 (ents_coll ?ns) = get s1 (ents_coll ?ns)" "has s2 (ents_coll ?ns)" using u c(4) ok(3) by auto
    then have "writes_one d s2 ?ns ?ts None" using c(1,2) ok empty by (simp add: writes_one_def s1_def)
    then show ?thesis using that [of s2] del some u(1) by (simp flip: s1_def)
  qed
qed

lemma buf_put:
  assumes d: "buf_ok E ns d" and k: "entity_toks (toks k)" "Key_Namespace k = ns" and pm: "putable pm"
  obtains d' where "put_one E d ns k (pm_Save pm False) = Some ((k, None), d')" "buf_ok E ns d'"
    "buf_abs E ns d' = (buf_abs E ns d)(toks k := Some (saved pm))"
proof -
  have ok: "ds_ok E d" "disableSpecialEntities d" using d by (simp_all add: buf_ok_def)
  from put_one_plain [OF ok entity_user [OF k(1)] pm] obtain s' bs where s: "put_one E d ns k (pm_Save pm False) = Some ((k, None), d\<lparr>head := s'\<rparr>)"
    "writes_one d s' ns (toks k) (Some bs)" "WritePropertyMap C (e_detmaps E) WithContext (stored_map E (toks k) pm) = Some bs"
    "\<exists>pm'. readPropMap E bs = Inr pm' \<and> map_of pm' = map_of (stored_map E (toks k) pm)" unfolding k(2) by metis
  have "buf_record E (key_bytes C (toks k)) bs" using s(3) k(1) pm by (auto simp: buf_record_def)
  then have "buf_ok E ns (d\<lparr>head := s'\<rparr>)" using writes_one_ok [OF d s(2)] by simp
  moreover have "buf_abs E ns (d\<lparr>head := s'\<rparr>) = (buf_abs E ns d)(toks k := Some (saved pm))"
    using writes_one_abs [OF ok(1) k(1) s(2)] s(4) stored_map_saved [OF pm, of "toks k"] by auto
  ultimately show ?thesis using that s(1) by blast
qed

lemma buf_del:
  assumes d: "buf_ok E ns d" and k: "entity_toks (toks k)" "Key_Namespace k = ns"
  obtains d' where "del_one E d ns k = Some (None, d')" "buf_ok E ns d'" "buf_abs E ns d' = (buf_abs E ns d)(toks k := None)"
proof -
  have ok: "ds_ok E d" "disableSpecialEntities d" using d by (simp_all add: buf_ok_def)
  from del_one_plain [OF ok entity_user [OF k(1)]] obtain s' where s: "del_one E d ns k = Some (None, d\<lparr>head := s'\<rparr>)"
    "writes_one d s' ns (toks k) None" unfolding k(2) by metis
  show ?thesis using that s(1) writes_one_ok [OF d s(2)] writes_one_abs [OF ok(1) k(1) s(2)] by simp
qed

lemma buf_put_loop:
  assumes "buf_ok E ns d" "\<forall>k \<in> set ks. entity_toks (toks k) \<and> Key_Namespace k = ns" "length pms = length ks" "\<forall>pm \<in> set pms. putable pm"
  shows "\<exists>d'. put_loop E (\<lambda>_ _ _. None) d ns i ks (map Some pms) = Some (map (\<lambda>k. (k, None)) ks, None, d') \<and>
    buf_ok E ns d' \<and> buf_abs E ns d' = fold (\<lambda>(k, pm) a. a(toks k := Some (saved pm))) (zip ks pms) (buf_abs E ns d)"
  using assms
proof (induction ks arbitrary: pms d i)
  case (Cons k ks)
  then obtain pm pms' where pms: "pms = pm # pms'" by (cases pms) auto
  obtain d1 where d1: "put_one E d ns k (pm_Save pm False) = Some ((k, None), d1)" "buf_ok E ns d1"
    "buf_abs E ns d1 = (buf_abs E ns d)(toks k := Some (saved pm))"
    using buf_put [OF Cons.prems(1), of k pm] Cons.prems pms by auto
  from Cons.IH [OF d1(2), of pms' "i + 1"] Cons.prems pms
  show ?case using d1 by (auto simp: pms)
qed simp

lemma buf_del_loop:
  assumes "buf_ok E ns d" "\<forall>k \<in> set ks. entity_toks (toks k) \<and> Key_Namespace k = ns"
  shows "\<exists>d'. del_loop E (\<lambda>_ _. None) d ns i ks = Some (map (\<lambda>k. None) ks, None, d') \<and>
    buf_ok E ns d' \<and> buf_abs E ns d' = fold (\<lambda>k a. a(toks k := None)) ks (buf_abs E ns d)"
  using assms
proof (induction ks arbitrary: d i)
  case (Cons k ks)
  obtain d1 where d1: "del_one E d ns k = Some (None, d1)" "buf_ok E ns d1" "buf_abs E ns d1 = (buf_abs E ns d)(toks k := None)"
    using buf_del [OF Cons.prems(1), of k] Cons.prems by auto
  from Cons.IH [OF d1(2), of "i + 1"] Cons.prems show ?case using d1 by auto
qed simp

lemma buf_open:
  assumes d: "buf_ok E ns d"
  shows "buf_ok E ns (open_ents E d ns)" "buf_abs E ns (open_ents E d ns) = buf_abs E ns d"
proof -
  have ok: "ds_ok E d" using d by (simp add: buf_ok_def)
  note o = open_ents [OF ok, where ns = ns]
  show "buf_ok E ns (open_ents E d ns)"
    using d o(1) by (auto simp: buf_ok_def open_ents_def ds_ok_def split: if_splits)
  show "buf_abs E ns (open_ents E d ns) = buf_abs E ns d" using o(4) unfolding buf_abs_def by (simp only:)
qed

section \<open>Reading\<close>

lemma buf_get:
  assumes d: "buf_ok E ns d" and k: "\<forall>k \<in> set ks. entity_toks (toks k) \<and> Key_Namespace k = ns" and ks: "ks \<noteq> []"
  shows "\<exists>rs. getMulti E d ks = Some rs \<and> list_all2 (\<lambda>k r. reads (buf_abs E ns d (toks k)) (map_sum RIErr id r)) ks rs"
proof -
  have ok: "store_ok E (takeSnapshot E d)" "entity E (takeSnapshot E d) = entity E (head d)" "\<not> showSpecialProps d"
    using d store_ok_Snapshot store_views_Snapshot(2) by (auto simp: takeSnapshot_def ds_ok_def buf_ok_def)
  obtain rs where rs: "getMultiInner E ks (ms_GetCollection T (takeSnapshot E d) (ents_coll ns)) = Some rs"
    "list_all2 (\<lambda>k r. case entity E (head d) ns (toks k) of
      None \<Rightarrow> r = Inl ErrNoSuchEntity | Some m \<Rightarrow> \<exists>pm. r = Inr pm \<and> map_of pm = m) ks rs"
    using getMultiInner_entities [OF ok(1), of ks ns] k ok(2) entity_user by auto
  have "list_all2 (\<lambda>k r. reads (buf_abs E ns d (toks k)) (map_sum RIErr id r)) ks (map (stripSpecialPropsGetCB d) rs)"
    unfolding list_all2_map2
    by (rule list.rel_mono_strong [OF rs(2)])
      (use k ok(3) in \<open>auto simp: buf_abs_def stripSpecialPropsGetCB_def map_of_strip split: option.splits\<close>)
  moreover have "getMulti E d ks = Some (map (stripSpecialPropsGetCB d) rs)"
    using rs(1) k ks by (cases ks) (auto simp: getMulti_def)
  ultimately show ?thesis by blast
qed

text \<open>What a query reads can be put again, and is what was put but for the context of keys.\<close>

lemma recontext_storable: "data_storable x \<Longrightarrow> data_storable (recontext_data w r c x)"
  by (auto simp: data_storable_def recontext_data_def recontext_def prop_storable_def prop_ok_def key_storable_def
      list_all_iff split: PropertyData.splits pval.splits)

lemma image_putable:
  assumes pm0: "putable pm0" and pm: "pm_wf pm" "map_of pm = (\<lambda>n. map_option f (saved pm0 n))"
    and f: "\<And>x. data_storable x \<Longrightarrow> data_storable (f x)"
  shows "putable pm" "saved pm = map_of pm"
proof -
  have m: "\<exists>y. x = f y \<and> n \<noteq> ''__scatter__'' \<and> (n, y) \<in> set (pm_Save pm0 False)" if "(n, x) \<in> set pm" for n x
  proof -
    have "map_of pm n = Some x" using that pm(1) by (simp add: pm_wf_def)
    then show ?thesis using pm(2) by (auto simp: saved_def dest!: map_of_SomeD split: if_splits)
  qed
  have "\<not> isMetaKey n" if "(n, x) \<in> set pm" for n x using m [OF that] by (auto simp: pm_Save_eq)
  then have save: "pm_Save pm False = pm" by (auto simp: pm_Save_eq intro!: filter_True)
  have "map_of pm ''__scatter__'' = None" by (simp add: pm(2) saved_def)
  then show "saved pm = map_of pm" by (auto simp: saved_def save)
  have "length pm = card (fst ` set pm)" using pm(1) distinct_card [of "map fst pm"] by (simp add: pm_wf_def)
  also have "\<dots> \<le> card (fst ` set (pm_Save pm0 False))" using m by (intro card_mono) (force+)
  also have "\<dots> \<le> length (pm_Save pm0 False)" using card_length [of "map fst (pm_Save pm0 False)"] by simp
  finally show "putable pm"
    using pm0 pm(1) m f by (fastforce simp: putable_def pm_storable_def save list_all_iff)
qed

lemma query_reads:
  assumes "buf_record E k v"
  obtains ts pm rest m where "entity_toks ts" "k = key_bytes C ts" "ReadPropertyMap C WithoutContext c v = Inr (pm, rest)"
    "readPropMap E v = Inr m" "map_of (stripSpecialProps pm) = in_context c ((map_of m)(''__scatter__'' := None))"
    "putable (stripSpecialProps pm)" "saved (stripSpecialProps pm) = map_of (stripSpecialProps pm)"
proof -
  obtain ts pm0 where r: "entity_toks ts" "k = key_bytes C ts" "putable pm0"
    "WritePropertyMap C (e_detmaps E) WithContext (stored_map E ts pm0) = Some v"
    using assms by (auto simp: buf_record_def)
  note st = stored_map(2,3) [OF r(3), of ts]
  have save: "pm_Save (stored_map E ts pm0) False = stored_map E ts pm0" using st(2) by (auto simp: pm_Save_eq intro!: filter_True)
  obtain m where m: "readPropMap E v = Inr m" "map_of m = map_of (stored_map E ts pm0)"
    using ReadPropertyMap_Write [OF cmpbin_reads st(1), of "e_detmaps E" WithContext WithContext no_ctx "[]"] r(4)
    by (auto simp: readPropMap_def recontext_id save option.map_ident)
  obtain pm where pm: "ReadPropertyMap C WithoutContext c v = Inr (pm, [])" "pm_wf pm"
    "map_of pm = (\<lambda>n. map_option (recontext_data WithContext WithoutContext c) (map_of (stored_map E ts pm0) n))"
    using ReadPropertyMap_Write [OF cmpbin_reads st(1), of "e_detmaps E" WithContext WithoutContext c "[]"] r(4) by (auto simp: save)
  have saved: "(map_of m)(''__scatter__'' := None) = saved pm0" using stored_map_saved [OF r(3), of ts] m(2) by simp
  have strip: "map_of (stripSpecialProps pm) = in_context c ((map_of m)(''__scatter__'' := None))"
    using pm(3) m(2) by (auto simp: map_of_strip in_context_def)
  have "pm_wf (stripSpecialProps pm)" using pm(2) by (simp add: pm_wf_def stripSpecialProps_def distinct_al_delete)
  from image_putable [OF r(3) this _ recontext_storable] strip saved
  show ?thesis using that [OF r(1,2) pm(1) m(1) strip] by (simp add: in_context_def)
qed

lemma key_row: "toks_storable ts \<Longrightarrow> row_of C [asc ''__key__''] [(asc ''__key__'', key_bytes C ts)]"
proof -
  assume ts: "toks_storable ts"
  then have "prop_storable (key_prop (path_key ts))"
    by (simp add: prop_storable_def prop_ok_def key_prop_def key_storable_toks path_key_def)
  from column_value [OF cmpbin_reads cmpbin_sorts this] have "key_bytes C ts \<in> column_values C" by (simp add: prop_bytes_key prop_bytes_def path_key_def)
  then show ?thesis using ts by (auto simp: row_of_def)
qed

text \<open>The rows of the kindless query.\<close>

lemma run_dump:
  assumes "\<forall>x \<in> set xs. x = key_bytes C (f x) \<and> toks_storable (f x) \<and>
      (\<exists>v r. tc_Get T (fst h) (snd h) x = Some v \<and> ReadPropertyMap C WithoutContext c v = Inr (g x, r))"
    "distinct xs" "set xs \<inter> set seen = {}" "rq_suffixFormat rq = [asc ''__key__'']"
  shows "run_result (run_cb (exec_row E c rq (normalStrategy c h) False
      (\<lambda>acc k pm _. (acc @ [(k, map_option stripSpecialProps pm)], None :: 'e option))) (0, l, seen, acc) xs) =
    Some (acc @ map (\<lambda>x. (\<lparr>kc = c, toks = f x\<rparr>, Some (stripSpecialProps (g x)))) xs, None)"
  using assms(1-3)
proof (induction xs arbitrary: seen acc)
  case Nil
  then show ?case by (simp add: run_result_def)
next
  case (Cons x xs)
  let ?cb = "\<lambda>acc k pm _. (acc @ [(k, map_option stripSpecialProps pm)], None :: 'e option)"
  obtain v r where x: "x = key_bytes C (f x)" "toks_storable (f x)" "tc_Get T (fst h) (snd h) x = Some v"
    "ReadPropertyMap C WithoutContext c v = Inr (g x, r)" using Cons.prems(1) by auto
  obtain ps where "parseSuffix E (AppID c) (Namespace c) [asc ''__key__''] (column_join [(asc ''__key__'', key_bytes C (f x))]) (- 1) =
      Some (map snd [(asc ''__key__'', key_bytes C (f x))], ps)" "ps \<noteq> []" "pvalue (last ps) = PKeyV \<lparr>kc = c, toks = f x\<rparr>"
    using parse_row [OF key_row [OF x(2)], of "f x" c] x(2) by auto
  then have ps: "parseSuffix E (AppID c) (Namespace c) [asc ''__key__''] x (- 1) = Some ([x], ps)" "ps \<noteq> []"
    "pvalue (last ps) = PKeyV \<lparr>kc = c, toks = f x\<rparr>" using x(1) by (simp_all add: column_bytes_def)
  have "exec_row E c rq (normalStrategy c h) False ?cb (0, l, seen, acc) x =
      ((0, l, x # seen, acc @ [(\<lparr>kc = c, toks = f x\<rparr>, Some (stripSpecialProps (g x)))]), None)"
    using ps x(3,4) Cons.prems(3) by (simp add: exec_row_def assms(4) handle_def Let_def)
  moreover note Cons.IH [of "x # seen" "acc @ [(\<lparr>kc = c, toks = f x\<rparr>, Some (stripSpecialProps (g x)))]"]
  ultimately show ?case using Cons.prems by simp
qed

lemma dump_ranges:
  assumes R: "ranges_ok R" and rq: "rq_kc rq = c" "rq_kind rq = ''''" "rq_eqFilters rq = []" "bytes_of (rq_start rq) = []" "rq_end rq = None"
    and s: "ts_IsReadOnly T s" "has s (ents_coll (Namespace c))"
  obtains ds where "getIndexes E R rq s = Some (Inr ds)" "ds \<noteq> []" "\<forall>d \<in> set ds. def_ok T d"
    "(\<Inter>d \<in> set ds. def_suffixes T d) = dom (get s (ents_coll (Namespace c)))"
proof -
  let ?n = "ents_coll (Namespace c)" and ?x = "\<lparr>ids_eqFilts = [], ids_coll = Some (s, ents_coll (Namespace c))\<rparr>"
  have q: "rq_ok rq" "no_ancestor rq" by (simp_all add: rq_ok_def no_ancestor_def rq(3))
  have eq: "getIndexes E R rq s = select_loop R rq (ids_sort [?x]) (length (ids_sort [?x])) (calculateConstraints R rq) []"
    using s(2) rq(1,2) by (simp add: getIndexes_def ms_GetCollection_def ents_coll_def Let_def)
  obtain ds cvss where ds: "getIndexes E R rq s = Some (Inr ds)" "ds \<noteq> []" "list_all2 (range_for rq (set [?x])) ds cvss"
    using select_all [OF R q, of "[?x]"] unfolding eq by (auto simp: cols_of_def rq(3))
  have d: "id_c d = (s, ?n) \<and> id_prefix d = [] \<and> id_prefixLen d = 0 \<and> id_start d = [] \<and> id_end d = None" if dd: "d \<in> set ds" for d
  proof -
    obtain cvs where "range_for rq (set [?x]) d cvs" using ds(3) dd by (auto simp: list_all2_conv_all_nth in_set_conv_nth)
    then show ?thesis using rq(4,5) by (simp add: range_for_def)
  qed
  have suf: "def_suffixes T d = dom (get s ?n)" if "d \<in> set ds" for d
    using d [OF that] by (auto simp: def_suffixes_def def_keys_def)
  have "\<forall>d \<in> set ds. def_ok T d" using d s by (simp add: def_ok_def)
  moreover have "(\<Inter>d \<in> set ds. def_suffixes T d) = dom (get s ?n)" using suf ds(2) by (cases ds) auto
  ultimately show ?thesis using that ds(1,2) by blast
qed

lemma buf_records:
  assumes d: "buf_ok E ns d" "has (head d) (ents_coll ns)" and x: "x \<in> dom (get (head d) (ents_coll ns))"
  obtains ts pm where "entity_toks ts" "x = key_bytes C ts"
    "\<exists>v r. get (head d) (ents_coll ns) x = Some v \<and> ReadPropertyMap C WithoutContext c v = Inr (pm, r)"
    "buf_abs E ns d ts \<noteq> None" "putable (stripSpecialProps pm)" "saved (stripSpecialProps pm) = map_of (stripSpecialProps pm)"
    "map_of (stripSpecialProps pm) = in_context c (the (buf_abs E ns d ts))"
proof -
  obtain v where v: "get (head d) (ents_coll ns) x = Some v" using x by blast
  then have "buf_record E x v" using d by (auto simp: buf_ok_def)
  then obtain ts pm r m where q: "entity_toks ts" "x = key_bytes C ts" "ReadPropertyMap C WithoutContext c v = Inr (pm, r)"
    "readPropMap E v = Inr m" "map_of (stripSpecialProps pm) = in_context c ((map_of m)(''__scatter__'' := None))"
    "putable (stripSpecialProps pm)" "saved (stripSpecialProps pm) = map_of (stripSpecialProps pm)"
    by (rule query_reads)
  have "stored E (head d) ns ts = Some v" using v d(2) q(2) by (simp add: stored_def)
  then have "entity E (head d) ns ts = Some (map_of m)"
    using buf_abs_rows(2) [of "head d" ts ns v] entity_user [OF q(1)] q(4) d(1) by (auto simp: buf_ok_def ds_ok_def)
  then have "buf_abs E ns d ts = Some ((map_of m)(''__scatter__'' := None))" using q(1) by (simp add: buf_abs_def)
  then show ?thesis using that [OF q(1,2)] v q by simp
qed

lemma buf_abs_stored:
  assumes "buf_ok E ns d" "buf_abs E ns d ts \<noteq> None"
  shows "entity_toks ts" "has (head d) (ents_coll ns)" "key_bytes C ts \<in> dom (get (head d) (ents_coll ns))"
proof -
  show ts: "entity_toks ts" using assms(2) by (auto simp: buf_abs_def split: if_splits)
  have "stored E (head d) ns ts \<noteq> None"
  proof
    assume "stored E (head d) ns ts = None"
    then have "entity E (head d) ns ts = None" using buf_abs_rows(1) [OF _ entity_user [OF ts]] assms(1) by (simp add: buf_ok_def ds_ok_def)
    then have "buf_abs E ns d ts = None" by (simp add: buf_abs_def)
    then show False using assms(2) by simp
  qed
  then show "has (head d) (ents_coll ns)" "key_bytes C ts \<in> dom (get (head d) (ents_coll ns))"
    by (auto simp: stored_def split: if_splits)
qed

lemma buf_run:
  assumes d: "buf_ok E (Namespace c) d" and R: "ranges_ok R" and fq: "Finalize (NewQuery '''') = Inr fq"
    and exec: "executeQuery E R fq c False (takeSnapshot E d) (takeSnapshot E d)
      (\<lambda>acc k pm _. (acc @ [(k, map_option stripSpecialProps pm)], None :: rierror option)) [] = Some (res, None)"
  shows "mem_Run E R c d fq = Some ((res, None), d)"
proof -
  have "getQuerySnaps E d consistent = (takeSnapshot E d, takeSnapshot E d)" for consistent
    using d by (simp add: getQuerySnaps_def buf_ok_def Let_def)
  then show ?thesis using d exec
    by (simp add: mem_Run_def ds_Run_def stripSpecialPropsRunCB_def buf_ok_def maybeAutoIndex_def missing_of_def qr_err_def)
qed

lemma buf_dump:
  assumes d: "buf_ok E (Namespace c) d" and R: "ranges_ok R" and fq: "Finalize (NewQuery '''') = Inr fq"
  shows "\<exists>res. mem_Run E R c d fq = Some ((res, None), d) \<and> distinct (map fst res) \<and>
    fst ` set res = {k. txn_key c k \<and> buf_abs E (Namespace c) d (toks k) \<noteq> None} \<and>
    (\<forall>(k, v) \<in> set res. \<exists>pm. v = Some pm \<and> putable pm \<and> saved pm = map_of pm \<and>
       map_of pm = in_context c (the (buf_abs E (Namespace c) d (toks k)))) \<and>
    sorted (map (\<lambda>r. key_bytes C (toks (fst r))) res)"
proof (cases "has (head d) (ents_coll (Namespace c))")
  let ?s = "takeSnapshot E d" and ?n = "ents_coll (Namespace c)"
  have snap: "ts_IsReadOnly T ?s" "has ?s = has (head d)" "get ?s = get (head d)"
    using d by (auto simp: takeSnapshot_def buf_ok_def ds_ok_def)
  note q = dump_query [OF fq]
  obtain rq where r: "reduce E fq c False = Some (Inr rq)"
    and rq: "rq_kc rq = c" "rq_kind rq = ''''" "rq_eqFilters rq = []" "bytes_of (rq_start rq) = []" "rq_end rq = None"
      "rq_suffixFormat rq = [asc ''__key__'']" using q(5) [of E c] by auto
  {
    case False
    then have "getIndexes E R rq ?s = Some (Inl QRNull)"
      using rq(1,2) snap(2) by (simp add: getIndexes_def ms_GetCollection_def ents_coll_def)
    then have "mem_Run E R c d fq = Some (([], None), d)"
      using r rq(2) by (intro buf_run [OF d R fq]) (simp add: executeQuery_def)
    moreover have "buf_abs E (Namespace c) d ts = None" for ts using buf_abs_stored(2) [OF d, of ts] False by blast
    ultimately show ?thesis by simp
  next
    case True
    then obtain ds where ds: "getIndexes E R rq ?s = Some (Inr ds)" "ds \<noteq> []" "\<forall>d \<in> set ds. def_ok T d"
      "(\<Inter>d \<in> set ds. def_suffixes T d) = dom (get (head d) ?n)"
      using dump_ranges [OF R rq(1-5) snap(1)] snap(2,3) by auto
    have fin: "finite (dom (get (head d) ?n))"
    proof -
      obtain d0 where "d0 \<in> set ds" using ds(2) by (cases ds) auto
      then have "finite (def_suffixes T d0)" "dom (get (head d) ?n) \<subseteq> def_suffixes T d0" using ds(3,4) def_suffixes_stem(3) by blast+
      then show ?thesis by (rule finite_subset [rotated])
    qed
    obtain f g where fg: "\<forall>x \<in> dom (get (head d) ?n). entity_toks (f x) \<and> x = key_bytes C (f x) \<and>
        (\<exists>v r. get (head d) ?n x = Some v \<and> ReadPropertyMap C WithoutContext c v = Inr (g x, r)) \<and>
        buf_abs E (Namespace c) d (f x) \<noteq> None \<and> putable (stripSpecialProps (g x)) \<and>
        saved (stripSpecialProps (g x)) = map_of (stripSpecialProps (g x)) \<and>
        map_of (stripSpecialProps (g x)) = in_context c (the (buf_abs E (Namespace c) d (f x)))"
      by (metis buf_records [OF d True])
    define xs where "xs = sorted_list_of_set (dom (get (head d) ?n))"
    have xs: "set xs = dom (get (head d) ?n)" "distinct xs" using fin by (simp_all add: xs_def)
    let ?res = "map (\<lambda>x. (\<lparr>kc = c, toks = f x\<rparr>, Some (stripSpecialProps (g x)))) xs"
    let ?cb = "\<lambda>acc k pm _. (acc @ [(k, map_option stripSpecialProps pm)], None :: rierror option)"
    have "run_result (run_cb (exec_row E c rq (normalStrategy c (?s, ?n)) False ?cb) (0, 0, [], []) xs) = Some ([] @ ?res, None)"
      using fg xs rq(6) snap(3) by (intro run_dump) (auto simp: entity_toks_def user_toks_def)
    moreover have "multiIterate T ds (exec_row E c rq (normalStrategy c (?s, ?n)) False ?cb) (0, 0, [], []) =
        Some (run_cb (exec_row E c rq (normalStrategy c (?s, ?n)) False ?cb) (0, 0, [], []) xs)"
      using multiIterate_runs [OF ds(2,3)] ds(4) by (simp add: xs_def)
    moreover have "pickQueryStrategy E fq rq ?s = Some (Some (normalStrategy c (?s, ?n)))"
      using q(1,2) True snap(2) rq(1) by (simp add: pickQueryStrategy_def newNormalStrategy_def ms_GetCollection_def ents_coll_def)
    ultimately have "mem_Run E R c d fq = Some ((?res, None), d)"
      using r ds(1) rq(2) q(3,4) by (intro buf_run [OF d R fq]) (simp add: executeQuery_def)
    moreover have "distinct (map fst ?res)"
    proof -
      have "\<forall>x \<in> set xs. x = key_bytes C (f x)" using fg xs(1) by blast
      then have "inj_on (\<lambda>x. \<lparr>kc = c, toks = f x\<rparr>) (set xs)" by (intro inj_on_inverseI [of _ "\<lambda>k. key_bytes C (toks k)"]) simp
      then show ?thesis using xs(2) by (simp add: distinct_map comp_def)
    qed
    moreover have "fst ` set ?res = {k. txn_key c k \<and> buf_abs E (Namespace c) d (toks k) \<noteq> None}"
    proof (intro equalityI subsetI)
      fix k assume "k \<in> {k. txn_key c k \<and> buf_abs E (Namespace c) d (toks k) \<noteq> None}"
      then have k: "kc k = c" "entity_toks (toks k)" "key_bytes C (toks k) \<in> set xs"
        using buf_abs_stored(3) [OF d] xs(1) by (auto simp: txn_key_def)
      then have "f (key_bytes C (toks k)) = toks k"
        using fg xs(1) key_bytes_inj [OF cmpbin_reads] by (metis entity_toks_def user_toks_def)
      then have "k = \<lparr>kc = c, toks = f (key_bytes C (toks k))\<rparr>" using k(1) by simp
      then show "k \<in> fst ` set ?res" using k(3) by (auto simp: image_image)
    next
      fix k assume "k \<in> fst ` set ?res"
      then obtain x where x: "x \<in> set xs" "k = \<lparr>kc = c, toks = f x\<rparr>" by auto
      then have "entity_toks (f x)" "buf_abs E (Namespace c) d (f x) \<noteq> None" using fg xs(1) by blast+
      then show "k \<in> {k. txn_key c k \<and> buf_abs E (Namespace c) d (toks k) \<noteq> None}" using x(2) by (simp add: txn_key_def)
    qed
    moreover have "\<forall>(k, v) \<in> set ?res. \<exists>pm. v = Some pm \<and> putable pm \<and> saved pm = map_of pm \<and>
        map_of pm = in_context c (the (buf_abs E (Namespace c) d (toks k)))" using fg xs by auto
    moreover have "sorted (map (\<lambda>r. key_bytes C (toks (fst r))) ?res)"
    proof -
      have "\<forall>x \<in> set xs. key_bytes C (f x) = x" using fg xs(1) by metis
      then have "map (\<lambda>r. key_bytes C (toks (fst r))) ?res = xs" by (simp add: comp_def map_idI)
      then show ?thesis by (simp only: xs_def sorted_sorted_list_of_set)
    qed
    ultimately show ?thesis by blast
  }
qed

end

section \<open>The contracts\<close>

locale mem_datastore = ds_env E for E :: "'s dsenv" +
  fixes R :: ranges
    and allocateIDs :: "'s dataStoreData \<Rightarrow> Key list \<Rightarrow> ((rierror + (rierror + Key) list) \<times> 's dataStoreData) option"
    and c :: KeyContext
  assumes R_ok: "ranges_ok R"
begin

lemma mem_get:
  assumes "buf_ok E (Namespace c) d" "ks \<noteq> []" "\<forall>k \<in> set ks. txn_key c k"
  shows "\<exists>rs. ri_GetMulti (mem_interface E R allocateIDs c) d ks = Some (Inr rs, d) \<and>
    list_all2 (\<lambda>k r. reads (buf_abs E (Namespace c) d (toks k)) r) ks rs"
proof -
  have k: "\<forall>k \<in> set ks. entity_toks (toks k) \<and> Key_Namespace k = Namespace c" using assms(3) txn_keyD(2,3) by blast
  from buf_get [OF assms(1) k assms(2)] show ?thesis by (auto simp: mem_interface_def mem_GetMulti_def list_all2_map2)
qed

lemma mem_put:
  assumes "buf_ok E (Namespace c) d" "ks \<noteq> []" "\<forall>k \<in> set ks. txn_key c k" "length pms = length ks" "\<forall>pm \<in> set pms. putable pm"
  shows "\<exists>d'. ri_PutMulti (mem_interface E R allocateIDs c) d ks pms = Some (Inr (map (\<lambda>_. None) ks), d') \<and>
    buf_ok E (Namespace c) d' \<and>
    buf_abs E (Namespace c) d' = fold (\<lambda>(k, pm) a. a(toks k := Some (saved pm))) (zip ks pms) (buf_abs E (Namespace c) d)"
proof -
  have k: "\<forall>k \<in> set ks. entity_toks (toks k) \<and> Key_Namespace k = Namespace c" using assms(3) txn_keyD(2,3) by blast
  then have "putMulti E (\<lambda>_ _ _. None) d ks vals = put_loop E (\<lambda>_ _ _. None) d (Namespace c) 0 ks vals" for vals
    using assms(2) by (cases ks) (auto simp: putMulti_def)
  with buf_put_loop [OF assms(1) k assms(4,5), of 0] show ?thesis by (auto simp: mem_interface_def mem_PutMulti_def comp_def)
qed

lemma mem_del:
  assumes "buf_ok E (Namespace c) d" "ks \<noteq> []" "\<forall>k \<in> set ks. txn_key c k"
  shows "\<exists>d'. ri_DeleteMulti (mem_interface E R allocateIDs c) d ks = Some (Inr (map (\<lambda>_. None) ks), d') \<and>
    buf_ok E (Namespace c) d' \<and> buf_abs E (Namespace c) d' = fold (\<lambda>k a. a(toks k := None)) ks (buf_abs E (Namespace c) d)"
proof -
  have k: "\<forall>k \<in> set ks. entity_toks (toks k) \<and> Key_Namespace k = Namespace c" using assms(3) txn_keyD(2,3) by blast
  then have "delMulti E (\<lambda>_ _. None) d ks = del_loop E (\<lambda>_ _. None) (open_ents E d (Namespace c)) (Namespace c) 0 ks"
    using assms(2) by (cases ks) (auto simp: delMulti_def)
  with buf_del_loop [OF buf_open(1) [OF assms(1)] k, of 0] buf_open(2) [OF assms(1)]
  show ?thesis by (auto simp: mem_interface_def mem_DeleteMulti_def comp_def)
qed

lemma mem_contract: "raw_buffer (mem_interface E R allocateIDs c) (buf_ok E (Namespace c)) (buf_abs E (Namespace c)) c"
proof (unfold_locales, goal_cases)
  case (1 d ks)
  from mem_get [OF this] obtain rs where rs: "ri_GetMulti (mem_interface E R allocateIDs c) d ks = Some (Inr rs, d)"
    "list_all2 (\<lambda>k r. reads (buf_abs E (Namespace c) d (toks k)) r) ks rs" by blast
  have "list_all2 (\<lambda>k r. reads (buf_abs E (Namespace c) d (toks k)) r \<or> (\<exists>e. e \<noteq> NoSuchEntity \<and> r = Inl e)) ks rs"
    by (rule list.rel_mono_strong [OF rs(2)]) (rule disjI1)
  then show ?case using rs(1) 1(1) by (intro exI [of _ "Inr rs"] exI [of _ d]) simp
next
  case (2 d ks)
  from mem_get [OF this] show ?case by blast
next
  case (3 d ks pms)
  from mem_put [OF this] show ?case .
next
  case (4 d ks)
  from mem_del [OF this] show ?case .
next
  case (5 d fq)
  from buf_dump [OF 5(1) R_ok 5(2)] show ?case unfolding mem_interface_def by (simp only: RawInterface.simps) blast
next
  case (6 d ts)
  from buf_abs_stored(1) [OF this] show ?case .
qed

lemma mem_sorted: "raw_sorted (mem_interface E R allocateIDs c) (buf_ok E (Namespace c)) (buf_abs E (Namespace c)) c C"
proof -
  have "sorted (map (\<lambda>r. key_bytes C (toks (fst r))) res)"
    if d: "buf_ok E (Namespace c) d" and q: "Finalize (NewQuery '''') = Inr fq" and r: "mem_Run E R c d fq = Some ((res, err), d')" for d fq res err d'
    using buf_dump [OF d R_ok q] r by auto
  then show ?thesis using mem_contract by (simp add: raw_sorted_def raw_sorted_axioms_def mem_interface_def)
qed

lemma new_buffer: "buf_ok E (Namespace c) (NewDatastore E a)" "buf_abs E (Namespace c) (NewDatastore E a) ts = None"
proof -
  show ok: "buf_ok E (Namespace c) (NewDatastore E a)"
    by (simp add: buf_ok_def NewDatastore_def newDataStoreData_def setAutoIndex_def setConsistent_def
        setDisableSpecialEntities_def Let_def ds_ok_def store_ok_def)
  show "buf_abs E (Namespace c) (NewDatastore E a) ts = None"
  proof (rule ccontr)
    assume "buf_abs E (Namespace c) (NewDatastore E a) ts \<noteq> None"
    from buf_abs_stored(2) [OF ok this] show False
      by (simp add: NewDatastore_def newDataStoreData_def setAutoIndex_def setConsistent_def setDisableSpecialEntities_def Let_def)
  qed
qed

end

sublocale mem_datastore \<subseteq> mem: raw_sorted "checkFilter c (mem_interface E R allocateIDs c)" "buf_ok E (Namespace c)" "buf_abs E (Namespace c)" c "e_cmpbin E"
  by (rule checkFilter_contract(4) [OF mem_sorted])

interpretation simple_mem: mem_datastore simple_env ex_ranges allocateIDs c for allocateIDs c
  by unfold_locales (rule ex_ok_ranges)

end
