(* ===== verification/TxnBuf.thy ===== *)
theory TxnBuf
  imports Mem_Buffer "HOL-Library.AList"
begin

text \<open>
  The transaction buffer filter, \<^verbatim>\<open>filter/txnBuf/state.go\<close>, \<^verbatim>\<open>ds_txn.go\<close> and \<^verbatim>\<open>ds.go\<close>: writes of a transaction go to an
  in-memory datastore, reads see them on top of the parent, and the end of the transaction applies them to
  the parent, which is the real datastore or the buffer of an enclosing transaction.

  The operations take the state of the buffer and of the parent and return them updated; the lock is held
  throughout. A panic is \<open>None\<close>. The orders in which Go visits maps and sets are parameters.
\<close>

section \<open>Sizes\<close>

definition DefaultSizeBudget :: int where "DefaultSizeBudget = 9500000"
definition DefaultWriteCountBudget :: int where "DefaultWriteCountBudget = 500"
definition XGTransactionGroupLimit :: nat where "XGTransactionGroupLimit = 25"

text \<open>Sizes are far below the range of \<^verbatim>\<open>int64\<close>.\<close>

record sizeTracker =
  keyToSize :: "(byte list \<times> int) list"
  st_total :: int

definition st_set :: "sizeTracker \<Rightarrow> byte list \<Rightarrow> int \<Rightarrow> sizeTracker" where
  "st_set s key val =
     (let prev = (case map_of (keyToSize s) key of None \<Rightarrow> 0 | Some v \<Rightarrow> v);
          existed = (map_of (keyToSize s) key \<noteq> None);
          tot = st_total s + (val - prev)
      in \<lparr>keyToSize = AList.update key val (keyToSize s),
          st_total = (if existed then tot else tot + int (length key))\<rparr>)"

definition st_get :: "sizeTracker \<Rightarrow> byte list \<Rightarrow> int \<times> bool" where
  "st_get s key = (case map_of (keyToSize s) key of None \<Rightarrow> (0, False) | Some v \<Rightarrow> (v, True))"

definition st_has :: "sizeTracker \<Rightarrow> byte list \<Rightarrow> bool" where
  "st_has s key \<longleftrightarrow> map_of (keyToSize s) key \<noteq> None"

definition numWrites :: "sizeTracker \<Rightarrow> nat" where
  "numWrites s = length (keyToSize s)"

definition st_empty :: sizeTracker where "st_empty = \<lparr>keyToSize = [], st_total = 0\<rparr>"

definition st_dup :: "sizeTracker \<Rightarrow> sizeTracker" where
  "st_dup s = (if length (keyToSize s) = 0 then st_empty else s)"

section \<open>State\<close>

record 'b txnBufState =
  entState :: sizeTracker
  bufDS :: 'b
  tb_roots :: "byte list list"
  rootLimit :: nat
  tb_kc :: KeyContext
  sizeBudget :: int
  writeCountBudget :: int

text \<open>What a transaction runs with: the number encoding, the buffer's operations, and the orders of \<^verbatim>\<open>Iter\<close> and of the range
  over \<^verbatim>\<open>keyToSize\<close>.\<close>

record ('s, 'b) txnenv =
  t_env :: "'s dsenv"
  t_buf :: "'b RawInterface"
  t_iter :: "byte list list \<Rightarrow> byte list list"
  t_range :: "(byte list \<times> int) list \<Rightarrow> (byte list \<times> int) list"

abbreviation t_cmpbin :: "('s, 'b) txnenv \<Rightarrow> cmpbin" where
  "t_cmpbin V \<equiv> e_cmpbin (t_env V)"

definition set_add :: "'a list \<Rightarrow> 'a \<Rightarrow> 'a list" where
  "set_add xs x = (if x \<in> set xs then xs else xs @ [x])"

fun propose :: "byte list list \<Rightarrow> nat \<Rightarrow> byte list list \<Rightarrow> byte list list \<Rightarrow> byte list list" where
  "propose cur limit proposed [] = proposed"
| "propose cur limit proposed (root # roots) =
     (let proposed = (if root \<in> set cur then proposed else set_add proposed root) in
      if length proposed + length cur \<le> limit then propose cur limit proposed roots else proposed)"

definition updateRootsLocked :: "('s, 'b) txnenv \<Rightarrow> 'b txnBufState \<Rightarrow> byte list list \<Rightarrow> rierror option \<times> 'b txnBufState" where
  "updateRootsLocked V t roots =
     (let proposedRoots = propose (tb_roots t) (rootLimit t) [] (t_iter V roots) in
      if length proposedRoots + length (tb_roots t) > rootLimit t then (Some ErrTooManyRoots, t)
      else (None, t\<lparr>tb_roots := foldl set_add (tb_roots t) (t_iter V proposedRoots)\<rparr>))"

text \<open>\<^verbatim>\<open>toEncoded\<close>: the keys' bytes and the set of their roots' bytes.\<close>

definition key_enc :: "('s, 'b) txnenv \<Rightarrow> Key \<Rightarrow> byte list option" where
  "key_enc V k = ToBytes (t_cmpbin V) False (SValue (GKey k))"

fun toEncoded :: "('s, 'b) txnenv \<Rightarrow> byte list list \<Rightarrow> Key list \<Rightarrow> (byte list list \<times> byte list list) option" where
  "toEncoded V roots [] = Some ([], roots)"
| "toEncoded V roots (k # ks) =
     Option.bind (key_enc V (Key_Root k)) (\<lambda>root.
     Option.bind (key_enc V k) (\<lambda>enc.
     map_option (\<lambda>(full, roots). (enc # full, roots)) (toEncoded V (set_add roots root) ks)))"

section \<open>Operations\<close>

text \<open>A callback that stores its \<open>j\<close>-th result at the place \<open>idxMap ! j\<close>.\<close>

definition scatter :: "nat list \<Rightarrow> 'a list \<Rightarrow> 'a list \<Rightarrow> 'a list" where
  "scatter idxMap vals arr = foldl (\<lambda>arr (i, v). arr[i := v]) arr (zip idxMap vals)"

definition parent_err :: "rierror + PropertyMap \<Rightarrow> rierror option" where
  "parent_err r = (case r of Inl e \<Rightarrow> if e \<noteq> NoSuchEntity then Some e else None | Inr _ \<Rightarrow> None)"

definition parent_data :: "rierror + PropertyMap \<Rightarrow> PropertyMap option" where
  "parent_data r = (case r of Inl _ \<Rightarrow> None | Inr pm \<Rightarrow> Some pm)"

definition item_result :: "PropertyMap option \<Rightarrow> rierror option \<Rightarrow> rierror + PropertyMap" where
  "item_result data err =
     (case err of Some e \<Rightarrow> Inl e
      | None \<Rightarrow> (case data of None \<Rightarrow> Inl NoSuchEntity | Some pm \<Rightarrow> Inr pm))"

text \<open>The part of \<^verbatim>\<open>getMulti\<close> that reads the buffer; an error of the call as a whole is dropped.\<close>

definition get_buffered ::
  "('s, 'b) txnenv \<Rightarrow> 'b txnBufState \<Rightarrow> Key list \<Rightarrow> byte list list \<Rightarrow> (PropertyMap option list \<times> 'b txnBufState) option" where
  "get_buffered V t keys encKeys =
     (let idxMap = filter (\<lambda>i. snd (st_get (entState t) (encKeys ! i)) \<and> fst (st_get (entState t) (encKeys ! i)) > 0)
                     [0..<length keys];
          data = replicate (length keys) None
      in if idxMap = [] then Some (data, t)
         else Option.bind (ri_GetMulti (t_buf V) (bufDS t) (map ((!) keys) idxMap)) (\<lambda>(r, b).
           case r of
             Inl _ \<Rightarrow> Some (data, t\<lparr>bufDS := b\<rparr>)
           | Inr rs \<Rightarrow> if list_ex isl rs then None
                      else Some (scatter idxMap (map (\<lambda>r. Some (projr r)) rs) data, t\<lparr>bufDS := b\<rparr>)))"

definition tb_getMulti ::
  "('s, 'b) txnenv \<Rightarrow> 'p RawInterface \<Rightarrow> 'b txnBufState \<Rightarrow> 'p \<Rightarrow> Key list \<Rightarrow>
   ((rierror + (rierror + PropertyMap) list) \<times> 'b txnBufState \<times> 'p) option" where
  "tb_getMulti V P t p keys =
     Option.bind (toEncoded V [] keys) (\<lambda>(encKeys, roots).
     case updateRootsLocked V t roots of
       (Some err, t) \<Rightarrow> Some (Inl err, t, p)
     | (None, t) \<Rightarrow>
         Option.bind (get_buffered V t keys encKeys) (\<lambda>(data, t).
         let n = length keys;
             idxMap = filter (\<lambda>i. \<not> snd (st_get (entState t) (encKeys ! i))) [0..<n]
         in if idxMap = [] then Some (Inr (map2 item_result data (replicate n None)), t, p)
            else Option.bind (ri_GetMulti P p (map ((!) keys) idxMap)) (\<lambda>(r, p).
              case r of
                Inl err \<Rightarrow> Some (Inl err, t, p)
              | Inr rs \<Rightarrow> Some (Inr (map2 item_result (scatter idxMap (map parent_data rs) data)
                                   (scatter idxMap (map parent_err rs) (replicate n None))), t, p))))"

definition tb_deleteMulti ::
  "('s, 'b) txnenv \<Rightarrow> 'b txnBufState \<Rightarrow> Key list \<Rightarrow> ((rierror + rierror option list) \<times> 'b txnBufState) option" where
  "tb_deleteMulti V t keys =
     Option.bind (toEncoded V [] keys) (\<lambda>(encKeys, roots).
     case updateRootsLocked V t roots of
       (Some err, t) \<Rightarrow> Some (Inl err, t)
     | (None, t) \<Rightarrow>
         Option.bind (ri_DeleteMulti (t_buf V) (bufDS t) keys) (\<lambda>(r, b).
         case r of
           Inl _ \<Rightarrow> None
         | Inr errs \<Rightarrow>
             if list_ex (\<lambda>err. err \<noteq> None) errs then None
             else Some (Inr (map (\<lambda>_. None) keys),
               t\<lparr>bufDS := b, entState := foldl (\<lambda>s (key, _). st_set s key 0) (entState t) (zip encKeys errs)\<rparr>)))"

text \<open>\<^verbatim>\<open>fixKeys\<close>: an error of \<^verbatim>\<open>AllocateIDs\<close>, the errors of single keys, or complete keys.\<close>

datatype fixres = FixErr rierror | FixMulti "rierror option list" | FixKeys "Key list"

fun incomplete_idxs :: "nat \<Rightarrow> Key list \<Rightarrow> nat list option" where
  "incomplete_idxs i [] = Some []"
| "incomplete_idxs i (k # ks) =
     Option.bind (Key_IsIncomplete k) (\<lambda>inc.
       map_option (\<lambda>is. if inc then i # is else is) (incomplete_idxs (i + 1) ks))"

definition fixKeys :: "'p RawInterface \<Rightarrow> 'p \<Rightarrow> Key list \<Rightarrow> (fixres \<times> 'p) option" where
  "fixKeys P p keys =
     Option.bind (incomplete_idxs 0 keys) (\<lambda>idxs.
       if length idxs = 0 then Some (FixKeys keys, p)
       else Option.bind (ri_AllocateIDs P p (map ((!) keys) idxs)) (\<lambda>(r, p).
         case r of
           Inl err \<Rightarrow> Some (FixErr err, p)
         | Inr rs \<Rightarrow>
             let errs = scatter idxs (map (\<lambda>r. case r of Inl e \<Rightarrow> Some e | Inr _ \<Rightarrow> None) rs) (replicate (length keys) None);
                 keys = foldl (\<lambda>keys (i, r). case r of Inl _ \<Rightarrow> keys | Inr k \<Rightarrow> keys[i := k]) keys (zip idxs rs)
             in Some (if list_ex (\<lambda>err. err \<noteq> None) errs then FixMulti errs else FixKeys keys, p)))"

text \<open>
  \<^verbatim>\<open>putMulti\<close>, with the calls of the callback. The error of \<^verbatim>\<open>fixKeys\<close> is asserted to be a \<^verbatim>\<open>MultiError\<close>, which the error
  of a whole \<^verbatim>\<open>AllocateIDs\<close> call need not be.
\<close>

definition tb_putMulti ::
  "('s, 'b) txnenv \<Rightarrow> 'p RawInterface \<Rightarrow> 'b txnBufState \<Rightarrow> 'p \<Rightarrow> Key list \<Rightarrow> PropertyMap list \<Rightarrow>
   ((rierror + (Key option \<times> rierror option) list) \<times> 'b txnBufState \<times> 'p) option" where
  "tb_putMulti V P t p keys vals =
     Option.bind (fixKeys P p keys) (\<lambda>(r, p).
     case r of
       FixErr _ \<Rightarrow> None
     | FixMulti errs \<Rightarrow> Some (Inr (map (Pair None) errs), t, p)
     | FixKeys keys \<Rightarrow>
         Option.bind (toEncoded V [] keys) (\<lambda>(encKeys, roots).
         case updateRootsLocked V t roots of
           (Some err, t) \<Rightarrow> Some (Inl err, t, p)
         | (None, t) \<Rightarrow>
             Option.bind (ri_PutMulti (t_buf V) (bufDS t) keys vals) (\<lambda>(r, b).
             case r of
               Inl _ \<Rightarrow> None
             | Inr errs \<Rightarrow>
                 if list_ex (\<lambda>err. err \<noteq> None) errs then None
                 else Some (Inr (map (\<lambda>k. (Some k, None)) keys),
                   t\<lparr>bufDS := b,
                     entState := foldl (\<lambda>s (key, v). st_set s key (pm_EstimateSize v)) (entState t) (zip encKeys (take (length errs) vals))\<rparr>,
                   p))))"

section \<open>Commit\<close>

fun effect_dels :: "cmpbin \<Rightarrow> KeyContext \<Rightarrow> (byte list \<times> int) list \<Rightarrow> Key list option" where
  "effect_dels C c [] = Some []"
| "effect_dels C c ((keyStr, sz) # xs) =
     (if sz = 0 then
        (case ReadKey C WithoutContext c keyStr of
           Inr (Some k, _) \<Rightarrow> map_option ((#) k) (effect_dels C c xs)
         | _ \<Rightarrow> None)
      else effect_dels C c xs)"

text \<open>\<^verbatim>\<open>effect\<close>: the values and keys to put, and the keys to delete.\<close>

definition effect :: "('s, 'b) txnenv \<Rightarrow> 'b txnBufState \<Rightarrow> (PropertyMap list \<times> Key list \<times> Key list) option" where
  "effect V t =
     (case Finalize (NewQuery '''') of
        Inl _ \<Rightarrow> None
      | Inr fq \<Rightarrow>
          Option.bind (ri_Run (t_buf V) (bufDS t) fq) (\<lambda>((res, err), _).
            if err \<noteq> None then None
            else map_option (\<lambda>toDel. (map (\<lambda>(_, data). case data of None \<Rightarrow> [] | Some pm \<Rightarrow> pm) res, map fst res, toDel))
                   (effect_dels (t_cmpbin V) (tb_kc t) (t_range V (keyToSize (entState t))))))"

text \<open>The errors of a call: its own, or those of single keys.\<close>

definition multi_errs :: "rierror + rierror option list \<Rightarrow> rierror list" where
  "multi_errs r = (case r of Inl e \<Rightarrow> [e] | Inr errs \<Rightarrow> List.map_filter id errs)"

text \<open>\<^verbatim>\<open>commitToReal\<close>: the put and the delete run in parallel, here one whole call after the other in either order; it returns their
  errors. Interleavings inside the two calls are the parent's.\<close>

definition commitToReal ::
  "('s, 'b) txnenv \<Rightarrow> 'p RawInterface \<Rightarrow> bool \<Rightarrow> 'b txnBufState \<Rightarrow> 'p \<Rightarrow> (rierror list \<times> 'p) option" where
  "commitToReal V P putFirst s p =
     Option.bind (effect V s) (\<lambda>(toPut, toPutKeys, toDel).
       let put = (\<lambda>p. if length toPut > 0 then map_option (apfst multi_errs) (ri_PutMulti P p toPutKeys toPut) else Some ([], p));
           del = (\<lambda>p. if length toDel > 0 then map_option (apfst multi_errs) (ri_DeleteMulti P p toDel) else Some ([], p));
           (first, second) = (if putFirst then (put, del) else (del, put))
       in Option.bind (first p) (\<lambda>(e1, p). map_option (\<lambda>(e2, p). (e1 @ e2, p)) (second p)))"

definition canApplyLocked :: "('s, 'b) txnenv \<Rightarrow> 'b txnBufState \<Rightarrow> 'b txnBufState \<Rightarrow> rierror option" where
  "canApplyLocked V t s =
     (let proposedState = foldl (\<lambda>st (k, v). st_set st k v) (st_dup (entState t)) (t_range V (keyToSize (entState s))) in
      if int (numWrites proposedState) > writeCountBudget t \<or> st_total proposedState > sizeBudget t
      then Some ErrTransactionTooLarge else None)"

text \<open>\<^verbatim>\<open>commitLocked\<close> panics on every error.\<close>

definition commitLocked ::
  "('s, 'b) txnenv \<Rightarrow> 'p RawInterface \<Rightarrow> 'b txnBufState \<Rightarrow> 'p \<Rightarrow> 'b txnBufState \<Rightarrow> ('b txnBufState \<times> 'p) option" where
  "commitLocked V P t p s =
     Option.bind (effect V s) (\<lambda>(toPut, toPutKeys, toDel).
     Option.bind
       (if length toPut > 0 then
          Option.bind (tb_putMulti V P t p toPutKeys toPut) (\<lambda>(r, t, p).
            case r of Inl _ \<Rightarrow> None | Inr calls \<Rightarrow> if list_ex (\<lambda>(_, err). err \<noteq> None) calls then None else Some (t, p))
        else Some (t, p)) (\<lambda>(t, p).
     if length toDel > 0 then
       Option.bind (tb_deleteMulti V t toDel) (\<lambda>(r, t).
         case r of Inl _ \<Rightarrow> None | Inr errs \<Rightarrow> if list_ex (\<lambda>err. err \<noteq> None) errs then None else Some (t, p))
     else Some (t, p)))"

section \<open>Transactions\<close>

text \<open>The state that \<^verbatim>\<open>withTxnBuf\<close> makes; \<open>b\<close> is the new buffer.\<close>

definition newTxnBuf :: "'b \<Rightarrow> KeyContext \<Rightarrow> bool \<Rightarrow> 'b txnBufState option \<Rightarrow> 'b txnBufState" where
  "newTxnBuf b c xg parentState =
     (case parentState of
        None \<Rightarrow> \<lparr>entState = st_empty, bufDS = b, tb_roots = [],
                 rootLimit = (if xg then XGTransactionGroupLimit else 1), tb_kc = c,
                 sizeBudget = DefaultSizeBudget, writeCountBudget = DefaultWriteCountBudget\<rparr>
      | Some ps \<Rightarrow> \<lparr>entState = st_empty, bufDS = b, tb_roots = tb_roots ps, rootLimit = rootLimit ps, tb_kc = c,
                    sizeBudget = sizeBudget ps - st_total (entState ps),
                    writeCountBudget = writeCountBudget ps - int (numWrites (entState ps))\<rparr>)"

text \<open>\<^verbatim>\<open>withTxnBuf\<close> of an outermost transaction, and of one inside the transaction \<open>ps\<close>; the user's function
  works on the new state and on the parent.\<close>

definition withTxnBuf_root ::
  "('s, 'b) txnenv \<Rightarrow> 'p RawInterface \<Rightarrow> bool \<Rightarrow> 'b \<Rightarrow> KeyContext \<Rightarrow> bool \<Rightarrow>
   ('b txnBufState \<times> 'p \<Rightarrow> (rierror option \<times> 'b txnBufState \<times> 'p) option) \<Rightarrow> 'p \<Rightarrow> (rierror list \<times> 'p) option" where
  "withTxnBuf_root V P putFirst b c xg cb p =
     Option.bind (cb (newTxnBuf b c xg None, p)) (\<lambda>(err, state, p).
       case err of Some e \<Rightarrow> Some ([e], p) | None \<Rightarrow> commitToReal V P putFirst state p)"

definition withTxnBuf_nested ::
  "('s, 'b) txnenv \<Rightarrow> 'p RawInterface \<Rightarrow> 'b \<Rightarrow> KeyContext \<Rightarrow> bool \<Rightarrow>
   ('b txnBufState \<times> ('b txnBufState \<times> 'p) \<Rightarrow> (rierror option \<times> 'b txnBufState \<times> ('b txnBufState \<times> 'p)) option) \<Rightarrow>
   'b txnBufState \<times> 'p \<Rightarrow> (rierror option \<times> 'b txnBufState \<times> 'p) option" where
  "withTxnBuf_nested V P b c xg cb pp =
     Option.bind (cb (newTxnBuf b c xg (Some (fst pp)), pp)) (\<lambda>(err, state, ps, p).
       case err of
         Some e \<Rightarrow> Some (Some e, ps, p)
       | None \<Rightarrow>
           (case canApplyLocked V ps state of
              Some e \<Rightarrow> Some (Some e, ps, p)
            | None \<Rightarrow> map_option (Pair None) (commitLocked V P ps p state)))"

end
