(* ===== verification/Txn_Query.thy ===== *)
theory Txn_Query
  imports TxnBuf
begin

text \<open>
  Queries inside a buffered transaction, \<^verbatim>\<open>filter/txnBuf/query_merger.go\<close> and \<^verbatim>\<open>ds_txn.go\<close>: the query runs on the buffer and on the
  parent, and the two sorted streams of results are merged.

  A goroutine that runs a query and sends its results through a channel is the list of the results and the error
  that follows them; a result is a key and its data.
\<close>

section \<open>The query that is run\<close>

definition adjustQuery :: "FinalizedQuery \<Rightarrow> qerror + FinalizedQuery" where
  "adjustQuery fq =
     (let q = fq_original fq;
          q = Query_Limit q (- 1);
          q = Query_Offset q (- 1);
          q = Query_Distinct q False;
          orders = fq_orders fq;
          q = (if length (fq_project fq) > 0 \<or> fq_keysOnly fq \<and> length orders > 1
               then foldl (\<lambda>q ord. if col_Property ord = ''__key__'' then q else Query_Project q [col_Property ord])
                      (KeysOnly q False) orders
               else q)
      in Finalize q)"

section \<open>Rows for comparison\<close>

text \<open>The loops of \<^verbatim>\<open>toComparableString\<close>: over the values of a column, and over the columns.\<close>

fun cmp_values :: "bool \<Rightarrow> bool \<Rightarrow> byte list \<Rightarrow> byte list \<Rightarrow> byte list list \<Rightarrow> byte list option" where
  "cmp_values desc doCmp start soFar [] = None"
| "cmp_values desc doCmp start soFar (serialized # row) =
     (let maybe = Join [soFar, if desc then Invert serialized else serialized] in
      if doCmp \<longrightarrow> maybe \<ge> start then Some maybe else cmp_values desc doCmp start soFar row)"

definition column_row :: "cmpbin \<Rightarrow> SerializedPmap \<Rightarrow> PropertyMap \<Rightarrow> string \<Rightarrow> byte list list" where
  "column_row C ps pm name =
     sort (case ps name of
             Some row \<Rightarrow> row
           | None \<Rightarrow> let pslice = pm_Slice pm name in if length pslice > 0 then PropertySlice C pslice else [])"

fun cmp_columns ::
  "cmpbin \<Rightarrow> SerializedPmap \<Rightarrow> PropertyMap \<Rightarrow> byte list \<Rightarrow> bool \<Rightarrow> byte list \<Rightarrow> IndexColumn list \<Rightarrow> byte list option" where
  "cmp_columns C ps pm start doCmp soFar [] = Some soFar"
| "cmp_columns C ps pm start doCmp soFar (ord # order) =
     (case cmp_values (Descending ord) doCmp start soFar (column_row C ps pm (col_Property ord)) of
        None \<Rightarrow> None
      | Some soFar \<Rightarrow> cmp_columns C ps pm start (doCmp \<and> length soFar < length start) soFar order)"

text \<open>The row; nil is the empty row.\<close>

definition toComparableString ::
  "cmpbin \<Rightarrow> byte list option \<Rightarrow> byte list option \<Rightarrow> IndexColumn list \<Rightarrow> Key \<Rightarrow> PropertyMap \<Rightarrow> byte list" where
  "toComparableString C start end order k pm =
     (case cmp_columns C (PropertyMapPartially C (Some k) []) pm (bytes_of start) True [] order of
        None \<Rightarrow> []
      | Some soFar \<Rightarrow> if (case end of None \<Rightarrow> False | Some e \<Rightarrow> soFar \<ge> e) then [] else soFar)"

section \<open>Merging\<close>

type_synonym item = "Key \<times> PropertyMap option"
type_synonym stream = "item list \<times> rierror option"

text \<open>A key always encodes; the row of an item does not depend on when it is first asked for.\<close>

definition getEncKey :: "cmpbin \<Rightarrow> item \<Rightarrow> byte list" where
  "getEncKey C i = the (ToBytes C False (SValue (GKey (fst i))))"

definition getCmpRow :: "cmpbin \<Rightarrow> byte list option \<Rightarrow> byte list option \<Rightarrow> IndexColumn list \<Rightarrow> item \<Rightarrow> byte list" where
  "getCmpRow C lower upper order i =
     toComparableString C lower upper order (fst i) (case snd i of None \<Rightarrow> [] | Some pm \<Rightarrow> pm)"

text \<open>\<^verbatim>\<open>parItemGet\<close> and \<^verbatim>\<open>memItemGet\<close>: the next item that is not to be skipped, or none with the error of the stream.\<close>

fun item_get :: "(item \<Rightarrow> bool) \<Rightarrow> stream \<Rightarrow> item option \<times> rierror option \<times> stream" where
  "item_get skip ([], err) = (None, err, ([], None))"
| "item_get skip (i # is, err) = (if skip i then item_get skip (is, err) else (Some i, None, (is, err)))"

record merge_env =
  g_cmpbin :: cmpbin
  g_sizes :: sizeTracker
  g_row :: "item \<Rightarrow> byte list"  \<comment> \<open>\<^verbatim>\<open>cmpFn\<close>\<close>
  g_distinctOrder :: "IndexColumn list"

definition seen_in :: "byte list list option \<Rightarrow> byte list \<Rightarrow> bool" where
  "seen_in s x = (case s of None \<Rightarrow> False | Some xs \<Rightarrow> x \<in> set xs)"

definition par_skip :: "merge_env \<Rightarrow> byte list list option \<Rightarrow> item \<Rightarrow> bool" where
  "par_skip G dedup i =
     (let encKey = getEncKey (g_cmpbin G) i in st_has (g_sizes G) encKey \<or> seen_in dedup encKey)"

definition mem_skip :: "merge_env \<Rightarrow> byte list list option \<Rightarrow> item \<Rightarrow> bool" where
  "mem_skip G dedup i = seen_in dedup (getEncKey (g_cmpbin G) i)"

lemma item_get_length:
  "length (fst (snd (snd (item_get skip s)))) + (if fst (item_get skip s) = None then 0 else 1) \<le> length (fst s)"
  by (induction skip s rule: item_get.induct) auto

text \<open>The head of the loop: the item to use, and the streams after the next item was taken in its place.\<close>

definition merge_next ::
  "merge_env \<Rightarrow> byte list list option \<Rightarrow> item option \<times> stream \<Rightarrow> item option \<times> stream \<Rightarrow>
   item \<times> (item option \<times> stream) \<times> (item option \<times> stream) \<times> rierror option" where
  "merge_next G dedup par mem =
     (let usePitm = (case (fst par, fst mem) of
                       (Some pi, Some mi) \<Rightarrow> g_row G pi < g_row G mi
                     | _ \<Rightarrow> fst par \<noteq> None)
      in if usePitm
         then case item_get (par_skip G dedup) (snd par) of (i, err, s) \<Rightarrow> (the (fst par), (i, s), mem, err)
         else case item_get (mem_skip G dedup) (snd mem) of (i, err, s) \<Rightarrow> (the (fst mem), par, (i, s), err))"

definition merge_size :: "item option \<times> stream \<Rightarrow> nat" where
  "merge_size x = length (fst (snd x)) + (if fst x = None then 0 else 1)"

lemma merge_next_size:
  assumes "merge_next G dedup par mem = (i, par', mem', err)" "\<not> (fst par = None \<and> fst mem = None)"
  shows "merge_size par' + merge_size mem' < merge_size par + merge_size mem"
  using assms item_get_length [of "par_skip G dedup" "snd par"] item_get_length [of "mem_skip G dedup" "snd mem"]
  by (auto simp: merge_next_def merge_size_def Let_def split: prod.splits option.splits if_splits)

text \<open>
  The loop. The callback returns its state and the error with which it stops; the result is the state
  and the error that is returned.
\<close>

function runMerged_loop ::
  "merge_env \<Rightarrow> ('st \<Rightarrow> item \<Rightarrow> 'st \<times> rierror option) \<Rightarrow> item option \<times> stream \<Rightarrow> item option \<times> stream \<Rightarrow> rierror option \<Rightarrow>
   byte list list option \<Rightarrow> byte list list option \<Rightarrow> 'st \<Rightarrow> 'st \<times> rierror option" where
  "runMerged_loop G cb par mem err dedup dist st =
     (case err of
        Some e \<Rightarrow> (st, Some e)
      | None \<Rightarrow>
          if fst par = None \<and> fst mem = None then (st, None)
          else
            (case merge_next G dedup par mem of (toUse, par, mem, err) \<Rightarrow>
               let encKey = getEncKey (g_cmpbin G) toUse;
                   distRow = getCmpRow (g_cmpbin G) None None (g_distinctOrder G) toUse
               in if seen_in dedup encKey then runMerged_loop G cb par mem err dedup dist st
                  else if seen_in dist distRow then runMerged_loop G cb par mem err (map_option ((#) encKey) dedup) dist st
                  else (case cb st toUse of
                          (st, Some e) \<Rightarrow> (st, Some e)
                        | (st, None) \<Rightarrow> runMerged_loop G cb par mem err (map_option ((#) encKey) dedup) (map_option ((#) distRow) dist) st)))"
  by pat_completeness auto
termination
  by (relation "measure (\<lambda>(_, _, par, mem, _). merge_size par + merge_size mem)") (auto dest!: merge_next_size [OF sym])

declare runMerged_loop.simps [simp del]

text \<open>
  \<^verbatim>\<open>runMergedQueries\<close>: both queries are started, the first item of the parent is awaited before that of the
  buffer. It returns the callback's state, the error and the states of the buffer and the parent.
\<close>

definition runMergedQueries ::
  "('s, 'b) txnenv \<Rightarrow> 'p RawInterface \<Rightarrow> FinalizedQuery \<Rightarrow> sizeTracker \<Rightarrow> 'b \<Rightarrow> 'p \<Rightarrow> ('st \<Rightarrow> item \<Rightarrow> 'st \<times> rierror option) \<Rightarrow> 'st \<Rightarrow>
   (('st \<times> rierror option) \<times> 'b \<times> 'p) option" where
  "runMergedQueries V P fq sizes memDS parentDS cb st =
     (case adjustQuery fq of
        Inl e \<Rightarrow> Some ((st, Some (ErrFinalize e)), memDS, parentDS)
      | Inr toRun \<Rightarrow>
          Option.bind (GetBinaryBounds (t_env V) fq) (\<lambda>(cmpLower, cmpUpper).
          let project = fq_project fq;
              G = \<lparr>g_cmpbin = t_cmpbin V, g_sizes = sizes, g_row = getCmpRow (t_cmpbin V) cmpLower cmpUpper (fq_orders fq),
                   g_distinctOrder = map asc project\<rparr>;
              dedup = (if length project > 0 then None else Some []);
              dist = (if length project > 0 \<and> fq_distinct fq then Some [] else None)
          in Option.bind (ri_Run P parentDS toRun) (\<lambda>(par, parentDS).
             Option.bind (ri_Run (t_buf V) memDS toRun) (\<lambda>(mem, memDS).
               case item_get (par_skip G dedup) par of
                 (_, Some e, _) \<Rightarrow> Some ((st, Some e), memDS, parentDS)
               | (pitm, None, par) \<Rightarrow>
                   (case item_get (mem_skip G dedup) mem of
                      (_, Some e, _) \<Rightarrow> Some ((st, Some e), memDS, parentDS)
                    | (mitm, None, mem) \<Rightarrow>
                        Some (runMerged_loop G cb (pitm, par) (mitm, mem) None dedup dist st, memDS, parentDS))))))"

section \<open>The transaction's datastore\<close>

text \<open>The callback of \<^verbatim>\<open>dsTxnBuf.Run\<close>, with the offset and the limit that are left. A projected property that an item lacks is left out here,
  where the code stores nil for it; the items come from queries with the same projection, so none lacks one.\<close>

definition run_item ::
  "FinalizedQuery \<Rightarrow> int32 \<times> int32 \<times> item list \<Rightarrow> item \<Rightarrow> (int32 \<times> int32 \<times> item list) \<times> rierror option" where
  "run_item fq st i =
     (case st of (offset, limit, res) \<Rightarrow>
        if sint offset > 0 then ((offset - 1, limit, res), None)
        else if snd (FQ_Limit fq) \<and> limit = 0 then (st, Some ErrStop)
        else
          let limit = (if snd (FQ_Limit fq) then limit - 1 else limit);
              data = (if fq_keysOnly fq then None
                      else if length (fq_project fq) > 0
                      then map_option (\<lambda>pm. List.map_filter (\<lambda>p. map_option (Pair p) (map_of pm p)) (fq_project fq)) (snd i)
                      else snd i)
          in ((offset, limit, res @ [(fst i, data)]), None))"

definition tb_Run ::
  "('s, 'b) txnenv \<Rightarrow> 'p RawInterface \<Rightarrow> 'b txnBufState \<times> 'p \<Rightarrow> FinalizedQuery \<Rightarrow>
   ((item list \<times> rierror option) \<times> 'b txnBufState \<times> 'p) option" where
  "tb_Run V P tp fq =
     (if fq_start fq \<noteq> None \<or> fq_end fq \<noteq> None then Some (([], Some ErrNoCursors), tp)
      else
        map_option (\<lambda>(((_, _, res), err), b, p). ((res, err), (fst tp)\<lparr>bufDS := b\<rparr>, p))
          (runMergedQueries V P fq (st_dup (entState (fst tp))) (bufDS (fst tp)) (snd tp) (run_item fq)
             (fst (FQ_Offset fq), fst (FQ_Limit fq), [])))"

text \<open>\<^verbatim>\<open>Count\<close> runs the query; the counter is an \<^verbatim>\<open>int64\<close>.\<close>

definition tb_Count ::
  "('s, 'b) txnenv \<Rightarrow> 'p RawInterface \<Rightarrow> 'b txnBufState \<times> 'p \<Rightarrow> FinalizedQuery \<Rightarrow>
   ((int64 \<times> rierror option) \<times> 'b txnBufState \<times> 'p) option" where
  "tb_Count V P tp fq =
     (case (if length (fq_project fq) = 0 \<and> \<not> fq_keysOnly fq then Finalize (KeysOnly (fq_original fq) True) else Inr fq) of
        Inl e \<Rightarrow> Some ((0, Some (ErrFinalize e)), tp)
      | Inr fq \<Rightarrow> map_option (\<lambda>((res, err), tp). ((of_nat (length res), err), tp)) (tb_Run V P tp fq))"

text \<open>A buffered transaction as its client, or a nested transaction, sees it.\<close>

definition dsTxnBuf :: "('s, 'b) txnenv \<Rightarrow> 'p RawInterface \<Rightarrow> ('b txnBufState \<times> 'p) RawInterface" where
  "dsTxnBuf V P =
     \<lparr>ri_GetMulti = \<lambda>(t, p). tb_getMulti V P t p,
      ri_PutMulti = \<lambda>(t, p) keys vals. map_option (apfst (map_sum id (map snd))) (tb_putMulti V P t p keys vals),
      ri_DeleteMulti = \<lambda>(t, p) keys. map_option (\<lambda>(r, t). (r, t, p)) (tb_deleteMulti V t keys),
      ri_AllocateIDs = \<lambda>(t, p) keys. map_option (\<lambda>(r, p). (r, t, p)) (ri_AllocateIDs P p keys),
      ri_Run = tb_Run V P\<rparr>"

end
