(* ===== verification/TxnBuf_Props.thy ===== *)
theory TxnBuf_Props
  imports Txn_Query
begin

text \<open>
  What the transaction buffer guarantees, for every datastore that satisfies the contracts of \<open>Raw_Interface\<close>: reads see the writes of
  the transaction on top of the parent, the limits on entity groups, writes and bytes are exact, and a commit applies
  exactly the writes.
\<close>

section \<open>Sizes\<close>

definition st_size :: "(byte list \<rightharpoonup> int) \<Rightarrow> int" where
  "st_size m = (\<Sum>k \<in> dom m. int (length k) + the (m k))"

definition st_inv :: "sizeTracker \<Rightarrow> bool" where
  "st_inv s \<longleftrightarrow> distinct (map fst (keyToSize s)) \<and> st_total s = st_size (map_of (keyToSize s))"

abbreviation sizes_of :: "'b txnBufState \<Rightarrow> byte list \<rightharpoonup> int" where
  "sizes_of t \<equiv> map_of (keyToSize (entState t))"

lemma map_of_st_set [simp]: "map_of (keyToSize (st_set s k v)) = (map_of (keyToSize s))(k \<mapsto> v)"
  by (simp add: st_set_def Let_def update_conv')

lemma st_size_upd:
  assumes "finite (dom m)"
  shows "st_size (m(k \<mapsto> v)) = st_size m + v + (case m k of None \<Rightarrow> int (length k) | Some v' \<Rightarrow> - v')"
proof -
  have eq: "(\<Sum>x \<in> dom m - {k}. int (length x) + the ((m(k \<mapsto> v)) x)) = (\<Sum>x \<in> dom m - {k}. int (length x) + the (m x))"
    by (rule sum.cong) auto
  have "st_size (m(k \<mapsto> v)) = int (length k) + v + (\<Sum>x \<in> dom m - {k}. int (length x) + the (m x))"
    using assms eq by (simp add: st_size_def sum.insert_remove)
  moreover have "st_size m = (\<Sum>x \<in> dom m - {k}. int (length x) + the (m x)) + (case m k of None \<Rightarrow> 0 | Some v' \<Rightarrow> int (length k) + v')"
  proof (cases "m k")
    case None
    then have "dom m - {k} = dom m" by auto
    then show ?thesis by (simp add: st_size_def None)
  next
    case (Some v')
    then have "k \<in> dom m" by auto
    from sum.remove [OF assms this, of "\<lambda>x. int (length x) + the (m x)"] show ?thesis by (simp add: st_size_def Some)
  qed
  ultimately show ?thesis by (simp split: option.split)
qed

lemma st_inv_set: "st_inv s \<Longrightarrow> st_inv (st_set s k v)"
  by (auto simp: st_inv_def st_size_upd finite_dom_map_of distinct_update)
    (auto simp: st_set_def Let_def distinct_update split: option.split)

lemma st_inv_empty: "st_inv st_empty"
  by (simp add: st_inv_def st_empty_def st_size_def)

lemma st_inv_dup: "st_inv s \<Longrightarrow> st_inv (st_dup s) \<and> map_of (keyToSize (st_dup s)) = map_of (keyToSize s)"
  using st_inv_empty by (auto simp: st_dup_def st_empty_def)

lemma st_inv_sets: "st_inv s \<Longrightarrow> st_inv (foldl (\<lambda>s (k, v). st_set s k (f v)) s xs)"
  by (induction xs arbitrary: s) (auto intro: st_inv_set)

lemma st_sets_map:
  "map_of (keyToSize (foldl (\<lambda>s (k, v). st_set s k (f v)) s xs)) = foldl (\<lambda>m (k, v). m(k \<mapsto> f v)) (map_of (keyToSize s)) xs"
  by (induction xs arbitrary: s) auto

lemma foldl_upd_distinct:
  "distinct (map fst xs) \<Longrightarrow> foldl (\<lambda>m (k, v). m(k \<mapsto> v)) m xs = m ++ map_of xs"
proof (induction xs arbitrary: m)
  case (Cons x xs)
  obtain k v where x: "x = (k, v)" by fastforce
  have "map_of xs k = None" using Cons.prems x by (simp add: map_of_eq_None_iff)
  then have "m(k \<mapsto> v) ++ map_of xs = m ++ (map_of xs)(k \<mapsto> v)" by (auto simp: map_add_def fun_eq_iff split: option.split)
  then show ?case using Cons x by (simp del: fun_upd_apply)
qed simp

lemma numWrites_card: "st_inv s \<Longrightarrow> numWrites s = card (dom (map_of (keyToSize s)))"
  using distinct_card [of "map fst (keyToSize s)"] by (simp add: numWrites_def st_inv_def dom_map_of_conv_image_fst)

section \<open>Encodings\<close>

definition env_ok :: "('s, 'b) txnenv \<Rightarrow> bool" where
  "env_ok V \<longleftrightarrow> (\<forall>xs. mset (t_iter V xs) = mset xs) \<and> (\<forall>xs. mset (t_range V xs) = mset xs) \<and> cmpbin_ok (t_cmpbin V)"

definition enc :: "cmpbin \<Rightarrow> KeyTok list \<Rightarrow> byte list" where
  "enc C ts = WriteKey C WithoutContext \<lparr>kc = MkKeyContext '''' '''', toks = ts\<rparr>"

lemma key_enc: "key_enc V k = Some (enc (t_cmpbin V) (toks k))"
  by (simp add: key_enc_def ToBytes_def toBytesErr_def MkProperty_def IndexTypeAndValue_def Property_Type_def
      writeIndexValue_def enc_def WriteKey_def Key_Split_def Property_Value_def)

lemma enc_inj: "cmpbin_ok C \<Longrightarrow> toks_storable a \<Longrightarrow> toks_storable b \<Longrightarrow> enc C a = enc C b \<longleftrightarrow> a = b"
  using key_bytes_inj [of C a b] by (simp add: key_bytes_def enc_def)

lemma enc_entity_inj: "cmpbin_ok C \<Longrightarrow> entity_toks a \<Longrightarrow> entity_toks b \<Longrightarrow> enc C a = enc C b \<longleftrightarrow> a = b"
  by (rule enc_inj) (simp_all add: entity_toks_def user_toks_def)

abbreviation root_encs :: "cmpbin \<Rightarrow> Key list \<Rightarrow> byte list set" where
  "root_encs C ks \<equiv> (\<lambda>k. enc C (take 1 (toks k))) ` set ks"

lemma Key_Root_take: "toks (Key_Root k) = take 1 (toks k)"
  by (auto simp: Key_Root_def)

lemma set_adds: "set (foldl set_add xs ys) = set xs \<union> set ys" "distinct xs \<Longrightarrow> distinct (foldl set_add xs ys)"
  by (induction ys arbitrary: xs) (auto simp: set_add_def)

lemma toEncoded_eq:
  "toEncoded V roots ks = Some (map (\<lambda>k. enc (t_cmpbin V) (toks k)) ks, foldl set_add roots (map (\<lambda>k. enc (t_cmpbin V) (take 1 (toks k))) ks))"
  by (induction ks arbitrary: roots) (simp_all add: key_enc Key_Root_take)

section \<open>Roots\<close>

lemma propose_spec:
  assumes "distinct proposed" "set proposed \<inter> set cur = {}" "length proposed + length cur \<le> limit"
  shows "distinct (propose cur limit proposed roots) \<and>
    (if card (set proposed \<union> (set roots - set cur)) + length cur \<le> limit
     then set (propose cur limit proposed roots) = set proposed \<union> (set roots - set cur)
     else length (propose cur limit proposed roots) + length cur > limit)"
  using assms
proof (induction roots arbitrary: proposed)
  case Nil
  then show ?case by (simp add: distinct_card)
next
  case (Cons r roots)
  let ?p = "if r \<in> set cur then proposed else set_add proposed r"
  have p: "distinct ?p" "set ?p \<inter> set cur = {}" "set ?p \<union> (set roots - set cur) = set proposed \<union> (set (r # roots) - set cur)"
    using Cons.prems by (auto simp: set_add_def)
  show ?case
  proof (cases "length ?p + length cur \<le> limit")
    case True
    then show ?thesis using Cons.IH [OF p(1,2) True] p(3) by (simp add: Let_def)
  next
    case False
    have "set ?p \<subseteq> set proposed \<union> (set (r # roots) - set cur)" unfolding p(3) [symmetric] by (rule Un_upper1)
    then have "card (set ?p) \<le> card (set proposed \<union> (set (r # roots) - set cur))" by (intro card_mono) simp_all
    then have "\<not> card (set proposed \<union> (set (r # roots) - set cur)) + length cur \<le> limit"
      using False distinct_card [OF p(1)] by linarith
    moreover have "propose cur limit proposed (r # roots) = ?p" using False by (simp only: propose.simps Let_def if_False)
    ultimately show ?thesis using p(1) False by (simp only: if_False) simp
  qed
qed

text \<open>The limit is exact: the call fails iff the transaction would touch more than \<open>rootLimit\<close> entity groups.\<close>

lemma updateRoots:
  assumes V: "env_ok V" and t: "distinct (tb_roots t)" "length (tb_roots t) \<le> rootLimit t"
  shows "card (set (tb_roots t) \<union> set roots) > rootLimit t \<Longrightarrow> updateRootsLocked V t roots = (Some ErrTooManyRoots, t)"
    and "card (set (tb_roots t) \<union> set roots) \<le> rootLimit t \<Longrightarrow> \<exists>rs. updateRootsLocked V t roots = (None, t\<lparr>tb_roots := rs\<rparr>) \<and>
      set rs = set (tb_roots t) \<union> set roots \<and> distinct rs \<and> length rs \<le> rootLimit t"
proof -
  let ?p = "propose (tb_roots t) (rootLimit t) [] (t_iter V roots)"
  have iter: "set (t_iter V xs) = set xs" for xs using V by (metis env_ok_def set_mset_mset)
  have "card (set (tb_roots t) \<union> set roots) = card (set (tb_roots t)) + card (set roots - set (tb_roots t))"
    using card_Un_disjoint [of "set (tb_roots t)" "set roots - set (tb_roots t)"] by simp
  then have c: "card (set roots - set (tb_roots t)) + length (tb_roots t) = card (set (tb_roots t) \<union> set roots)"
    using t(1) by (simp add: distinct_card)
  note p = propose_spec [of "[]" "tb_roots t" "rootLimit t" "t_iter V roots"]
  show "card (set (tb_roots t) \<union> set roots) > rootLimit t \<Longrightarrow> updateRootsLocked V t roots = (Some ErrTooManyRoots, t)"
    using p t(2) c iter by (simp add: updateRootsLocked_def Let_def)
  assume le: "card (set (tb_roots t) \<union> set roots) \<le> rootLimit t"
  then have ps: "distinct ?p" "set ?p = set roots - set (tb_roots t)" using p t(2) c iter by auto
  then have "length ?p = card (set roots - set (tb_roots t))" using distinct_card by fastforce
  then have "\<not> length ?p + length (tb_roots t) > rootLimit t" using c le by simp
  moreover define rs where "rs = foldl set_add (tb_roots t) (t_iter V ?p)"
  moreover have rs: "set rs = set (tb_roots t) \<union> set roots" "distinct rs"
    using ps(2) t(1) iter by (auto simp: rs_def set_adds)
  moreover have "length rs \<le> rootLimit t" using rs le distinct_card [OF rs(2)] by simp
  ultimately show "\<exists>rs. updateRootsLocked V t roots = (None, t\<lparr>tb_roots := rs\<rparr>) \<and>
      set rs = set (tb_roots t) \<union> set roots \<and> distinct rs \<and> length rs \<le> rootLimit t"
    by (intro exI [of _ rs]) (simp add: updateRootsLocked_def Let_def)
qed

section \<open>Arrays\<close>

lemma scatter_spec:
  assumes "distinct is" "\<forall>i \<in> set is. i < length arr" "length vals = length is"
  shows "length (scatter is vals arr) = length arr"
    "\<forall>j < length is. scatter is vals arr ! (is ! j) = vals ! j" "\<forall>i < length arr. i \<notin> set is \<longrightarrow> scatter is vals arr ! i = arr ! i"
proof -
  have "length (scatter is vals arr) = length arr \<and> (\<forall>j < length is. scatter is vals arr ! (is ! j) = vals ! j) \<and>
    (\<forall>i < length arr. i \<notin> set is \<longrightarrow> scatter is vals arr ! i = arr ! i)" using assms
  proof (induction "is" arbitrary: vals arr)
    case Nil
    then show ?case by (simp add: scatter_def)
  next
    case (Cons i "is")
    then obtain v vs where v: "vals = v # vs" by (cases vals) auto
    have eq: "scatter (i # is) vals arr = scatter is vs (arr[i := v])" by (simp add: scatter_def v)
    have IH: "length (scatter is vs (arr[i := v])) = length (arr[i := v]) \<and> (\<forall>j < length is. scatter is vs (arr[i := v]) ! (is ! j) = vs ! j) \<and>
      (\<forall>k < length (arr[i := v]). k \<notin> set is \<longrightarrow> scatter is vs (arr[i := v]) ! k = arr[i := v] ! k)"
      using Cons v by (intro Cons.IH) auto
    then show ?case using Cons.prems v unfolding eq by (auto simp: nth_Cons split: nat.split)
  qed
  then show "length (scatter is vals arr) = length arr"
    "\<forall>j < length is. scatter is vals arr ! (is ! j) = vals ! j" "\<forall>i < length arr. i \<notin> set is \<longrightarrow> scatter is vals arr ! i = arr ! i"
    by blast+
qed

lemma filter_upt_index: "i < n \<Longrightarrow> Q i \<Longrightarrow> \<exists>j < length (filter Q [0..<n]). filter Q [0..<n] ! j = i"
  using in_set_conv_nth [of i "filter Q [0..<n]"] by auto

lemma scatter_hit:
  assumes vals: "list_all2 R (map ((!) ks) (filter Q [0..<length ks])) vals" and i: "i < length ks" "Q i"
  shows "\<exists>j < length (filter Q [0..<length ks]). filter Q [0..<length ks] ! j = i \<and> R (ks ! i) (vals ! j)"
proof -
  obtain j where j: "j < length (filter Q [0..<length ks])" "filter Q [0..<length ks] ! j = i"
    using filter_upt_index [OF i(1), of Q] i(2) by blast
  then show ?thesis using list_all2_nthD [OF vals, of j] by auto
qed

lemma scatter_at:
  assumes "length vals = length (filter Q [0..<length ks])" "length arr = length ks" "j < length (filter Q [0..<length ks])"
  shows "scatter (filter Q [0..<length ks]) (map f vals) arr ! (filter Q [0..<length ks] ! j) = f (vals ! j)"
  using scatter_spec(2) [of "filter Q [0..<length ks]" arr "map f vals"] assms by auto

lemma scatter_rest:
  assumes "length vals = length (filter Q [0..<length ks])" "length arr = length ks"
  shows "length (scatter (filter Q [0..<length ks]) vals arr) = length ks"
    "i < length ks \<Longrightarrow> \<not> Q i \<Longrightarrow> scatter (filter Q [0..<length ks]) vals arr ! i = arr ! i"
  using scatter_spec [of "filter Q [0..<length ks]" arr vals] assms by auto

lemma map_nth_filter: "map ((!) ks) (filter (\<lambda>i. Q (ks ! i)) [0..<length ks]) = filter Q ks"
proof -
  have "filter Q ks = filter Q (map ((!) ks) [0..<length ks])" by (simp add: map_nth)
  also have "\<dots> = map ((!) ks) (filter (Q \<circ> (!) ks) [0..<length ks])" by (rule filter_map)
  finally show ?thesis by (simp add: comp_def)
qed

section \<open>Overlays\<close>

text \<open>The view of a transaction: its own writes on top of what the parent has. A size of 0 stands for a deletion.\<close>

definition overlay :: "cmpbin \<Rightarrow> (byte list \<rightharpoonup> int) \<Rightarrow> (KeyTok list \<rightharpoonup> 'v) \<Rightarrow> (KeyTok list \<rightharpoonup> 'v) \<Rightarrow> KeyTok list \<rightharpoonup> 'v" where
  "overlay C m a b ts =
     (if entity_toks ts then (case m (enc C ts) of None \<Rightarrow> b ts | Some s \<Rightarrow> if s > 0 then a ts else None) else None)"

text \<open>The buffer holds an entity exactly for the keys with a positive size.\<close>

definition buffered :: "cmpbin \<Rightarrow> (byte list \<rightharpoonup> int) \<Rightarrow> (KeyTok list \<rightharpoonup> 'v) \<Rightarrow> bool" where
  "buffered C m a \<longleftrightarrow> (\<forall>ts. entity_toks ts \<longrightarrow> (a ts \<noteq> None \<longleftrightarrow> (\<exists>s > 0. m (enc C ts) = Some s)))"

definition sizes_ok :: "cmpbin \<Rightarrow> byte list set \<Rightarrow> (byte list \<rightharpoonup> int) \<Rightarrow> bool" where
  "sizes_ok C roots m \<longleftrightarrow>
     (\<forall>k s. m k = Some s \<longrightarrow> 0 \<le> s \<and> (\<exists>ts. entity_toks ts \<and> k = enc C ts \<and> enc C (take 1 ts) \<in> roots))"

lemma write_one:
  assumes C: "cmpbin_ok C" and ts: "entity_toks ts" and s: "if v = None then s = 0 else 0 < s"
  shows "overlay C (m(enc C ts \<mapsto> s)) (a(ts := v)) b = (overlay C m a b)(ts := v)"
    and "buffered C m a \<Longrightarrow> buffered C (m(enc C ts \<mapsto> s)) (a(ts := v))"
    and "sizes_ok C roots m \<Longrightarrow> enc C (take 1 ts) \<in> roots \<Longrightarrow> sizes_ok C roots (m(enc C ts \<mapsto> s))"
proof -
  have inj: "enc C us = enc C ts \<longleftrightarrow> us = ts" if "entity_toks us" for us using enc_entity_inj [OF C that ts] .
  show "overlay C (m(enc C ts \<mapsto> s)) (a(ts := v)) b = (overlay C m a b)(ts := v)"
  proof (rule ext)
    fix us
    show "overlay C (m(enc C ts \<mapsto> s)) (a(ts := v)) b us = ((overlay C m a b)(ts := v)) us"
      using inj [of us] ts s by (cases "entity_toks us") (auto simp: overlay_def split: option.split if_splits)
  qed
  show "buffered C m a \<Longrightarrow> buffered C (m(enc C ts \<mapsto> s)) (a(ts := v))"
    using inj s by (auto simp: buffered_def split: if_splits)
  show "sizes_ok C roots m \<Longrightarrow> enc C (take 1 ts) \<in> roots \<Longrightarrow> sizes_ok C roots (m(enc C ts \<mapsto> s))"
    using ts s by (auto simp: sizes_ok_def split: if_splits)
qed

lemma write_all:
  fixes val :: "'x \<Rightarrow> 'v option" and sz :: "'x \<Rightarrow> int" and m :: "byte list \<rightharpoonup> int" and a :: "KeyTok list \<rightharpoonup> 'v"
  assumes C: "cmpbin_ok C" and xs: "\<forall>(k, x) \<in> set xs. entity_toks (toks k) \<and> enc C (take 1 (toks k)) \<in> roots \<and>
      (if val x = None then sz x = 0 else 0 < sz x)"
  defines "m' \<equiv> foldl (\<lambda>m (e, x). m(e \<mapsto> sz x)) m (map (\<lambda>(k, x). (enc C (toks k), x)) xs)"
    and "a' \<equiv> fold (\<lambda>(k, x) a. a(toks k := val x)) xs a"
  shows "overlay C m' a' b = fold (\<lambda>(k, x) w. w(toks k := val x)) xs (overlay C m a b)"
    and "buffered C m a \<Longrightarrow> buffered C m' a'" and "sizes_ok C roots m \<Longrightarrow> sizes_ok C roots m'"
proof -
  have "overlay C m' a' b = fold (\<lambda>(k, x) w. w(toks k := val x)) xs (overlay C m a b) \<and>
    (buffered C m a \<longrightarrow> buffered C m' a') \<and> (sizes_ok C roots m \<longrightarrow> sizes_ok C roots m')"
    unfolding m'_def a'_def using xs
  proof (induction xs arbitrary: m a)
    case (Cons p xs)
    obtain k x where p: "p = (k, x)" by fastforce
    have k: "entity_toks (toks k)" "enc C (take 1 (toks k)) \<in> roots" "if val x = None then sz x = 0 else 0 < sz x"
      using Cons.prems p by auto
    note w = write_one [OF C k(1,3)]
    note IH = Cons.IH [of "m(enc C (toks k) \<mapsto> sz x)" "a(toks k := val x)"]
    show ?case using IH Cons.prems w(1) [of m a b] w(2) [of m a] w(3) [of roots m] k(2)
      by (simp add: p del: fun_upd_apply)
  qed simp
  then show "overlay C m' a' b = fold (\<lambda>(k, x) w. w(toks k := val x)) xs (overlay C m a b)"
    "buffered C m a \<Longrightarrow> buffered C m' a'" "sizes_ok C roots m \<Longrightarrow> sizes_ok C roots m'" by blast+
qed

section \<open>Invariant\<close>

text \<open>An entity that has a property. Only such an entity has a positive size.\<close>

definition solid :: "(string \<rightharpoonup> PropertyData) \<Rightarrow> bool" where
  "solid m \<longleftrightarrow> (\<exists>n. n \<noteq> '''' \<and> m n \<noteq> None)"

lemma foldl_grows: "(\<And>a x. a \<le> f a x) \<Longrightarrow> a \<le> foldl f a xs" for a :: int
  by (induction xs arbitrary: a) (auto intro: order_trans)

lemma EstimateSize_nonneg: "0 \<le> PropertyData_estimateSize d"
proof -
  have "0 \<le> int (length (AppID (kc k))) + int (length (Namespace (kc k)))" for k by simp
  then have "0 \<le> Key_EstimateSize k" for k
    unfolding Key_EstimateSize_def by (rule order_trans) (rule foldl_grows, simp)
  then have p: "0 \<le> Property_EstimateSize p" for p by (cases "pvalue p") (auto simp: Property_EstimateSize_def)
  then have "0 \<le> foldl (\<lambda>v p. v + Property_EstimateSize p) 0 ps" for ps by (intro foldl_grows) simp
  then show ?thesis using p by (cases d) (auto simp: PropertyData_estimateSize_def)
qed

lemma solid_size:
  assumes "solid (saved pm)"
  shows "0 < pm_EstimateSize pm"
proof -
  let ?f = "\<lambda>ret (k, vals). if \<not> isMetaKey k then ret + int (length k) + PropertyData_estimateSize vals else ret"
  have mono: "i \<le> foldl ?f i xs" for i xs using EstimateSize_nonneg by (intro foldl_grows) (auto simp: add_increasing2)
  obtain n d where nd: "n \<noteq> ''''" "(n, d) \<in> set (pm_Save pm False)"
    using assms by (auto simp: solid_def saved_def dest: map_of_SomeD split: if_splits)
  then have "(n, d) \<in> set pm" "\<not> isMetaKey n" by (auto simp: pm_Save_eq)
  then obtain xs ys where pm: "pm = xs @ (n, d) # ys" by (auto simp: in_set_conv_decomp)
  have "0 < int (length n)" using nd(1) by simp
  then have "0 < ?f (foldl ?f 0 xs) (n, d)" using \<open>\<not> isMetaKey n\<close> EstimateSize_nonneg [of d] mono [of 0 xs] by (simp only: prod.case if_True not_False_eq_True)
  also have "\<dots> \<le> foldl ?f (?f (foldl ?f 0 xs) (n, d)) ys" by (rule mono)
  finally show ?thesis by (simp add: pm_EstimateSize_def pm)
qed

lemma solid_context: "solid (in_context c m) = solid m"
  by (simp add: solid_def in_context_def)

lemma fold_values:
  "fold (\<lambda>(k, x) a. a(toks k := val x)) xs a ts = Some m \<Longrightarrow> a ts = Some m \<or> (\<exists>(k, x) \<in> set xs. val x = Some m)"
proof (induction xs arbitrary: a)
  case (Cons p xs)
  from Cons.IH [of "a(toks (fst p) := val (snd p))"] Cons.prems show ?case by (cases p) (auto split: if_splits)
qed simp

definition tb_inv ::
  "('s, 'b) txnenv \<Rightarrow> ('b \<Rightarrow> bool) \<Rightarrow> ('b \<Rightarrow> KeyTok list \<Rightarrow> (string \<rightharpoonup> PropertyData) option) \<Rightarrow> KeyContext \<Rightarrow> 'b txnBufState \<Rightarrow> bool" where
  "tb_inv V binv babs c t \<longleftrightarrow>
     st_inv (entState t) \<and> binv (bufDS t) \<and> tb_kc t = c \<and> distinct (tb_roots t) \<and> length (tb_roots t) \<le> rootLimit t \<and>
     sizes_ok (t_cmpbin V) (set (tb_roots t)) (sizes_of t) \<and> buffered (t_cmpbin V) (sizes_of t) (babs (bufDS t)) \<and>
     (\<forall>ts m. babs (bufDS t) ts = Some m \<longrightarrow> solid m)"

definition tb_view ::
  "('s, 'b) txnenv \<Rightarrow> ('b \<Rightarrow> KeyTok list \<Rightarrow> (string \<rightharpoonup> PropertyData) option) \<Rightarrow> ('p \<Rightarrow> KeyTok list \<Rightarrow> (string \<rightharpoonup> PropertyData) option) \<Rightarrow>
   'b txnBufState \<Rightarrow> 'p \<Rightarrow> KeyTok list \<Rightarrow> (string \<rightharpoonup> PropertyData) option" where
  "tb_view V babs pabs t p = overlay (t_cmpbin V) (sizes_of t) (babs (bufDS t)) (pabs p)"

definition too_many :: "('s, 'b) txnenv \<Rightarrow> 'b txnBufState \<Rightarrow> Key list \<Rightarrow> bool" where
  "too_many V t ks \<longleftrightarrow> card (set (tb_roots t) \<union> root_encs (t_cmpbin V) ks) > rootLimit t"

text \<open>What no operation changes, and what every operation that succeeds does to the set of roots.\<close>

definition same_limits :: "'b txnBufState \<Rightarrow> 'b txnBufState \<Rightarrow> bool" where
  "same_limits t t' \<longleftrightarrow> rootLimit t' = rootLimit t \<and> tb_kc t' = tb_kc t \<and> sizeBudget t' = sizeBudget t \<and>
     writeCountBudget t' = writeCountBudget t"

text \<open>
  What a commit leaves: the entities that were written, as a query of the buffer returns them (with the keys among their
  property values moved to the transaction's own context), without those that were deleted.
\<close>

definition commit_view ::
  "cmpbin \<Rightarrow> KeyContext \<Rightarrow> (byte list \<rightharpoonup> int) \<Rightarrow> (KeyTok list \<Rightarrow> (string \<rightharpoonup> PropertyData) option) \<Rightarrow>
   (KeyTok list \<Rightarrow> (string \<rightharpoonup> PropertyData) option) \<Rightarrow> KeyTok list \<Rightarrow> (string \<rightharpoonup> PropertyData) option" where
  "commit_view C c m a b ts =
     (if entity_toks ts then overlay C m (\<lambda>ts. map_option (in_context c) (a ts)) b ts else b ts)"

lemma fold_put_values:
  assumes "length pms = length ks" "distinct (map toks ks)"
  shows "fold (\<lambda>(k, pm) a. a(toks k := Some (saved pm))) (zip ks pms) A ts =
    (case map_of (zip (map toks ks) pms) ts of None \<Rightarrow> A ts | Some pm \<Rightarrow> Some (saved pm))"
  using assms
proof (induction ks pms arbitrary: A rule: list_induct2')
  case (4 k ks pm pms)
  have none: "map_of (zip (map toks ks) pms) (toks k) = None" using 4(2,3) by (simp add: map_of_zip_is_None)
  have "fold (\<lambda>(k, pm) a. a(toks k := Some (saved pm))) (zip ks pms) (A(toks k := Some (saved pm))) ts =
    (case map_of (zip (map toks ks) pms) ts of None \<Rightarrow> (A(toks k := Some (saved pm))) ts | Some pm \<Rightarrow> Some (saved pm))"
    using 4(2,3) by (intro 4(1)) simp_all
  then show ?case using none by (cases "ts = toks k") (simp_all del: fun_upd_apply add: fun_upd_same fun_upd_other split: option.split)
qed simp_all

lemma fold_del_values: "fold (\<lambda>k a. a(toks k := None)) ks A ts = (if ts \<in> toks ` set ks then None else A ts)"
  by (induction ks arbitrary: A) auto

lemma distinct_toks: "distinct ks \<Longrightarrow> \<forall>k \<in> set ks. txn_key c k \<Longrightarrow> distinct (map toks ks)"
  by (auto simp: distinct_map txn_key_def intro!: inj_onI Key_eqI)

locale txn_buffer = buf: raw_buffer "t_buf V" binv babs c
  for V :: "('s, 'b) txnenv" and binv :: "'b \<Rightarrow> bool" and babs :: "'b \<Rightarrow> KeyTok list \<Rightarrow> (string \<rightharpoonup> PropertyData) option" and c :: KeyContext +
  assumes V_ok: "env_ok V"
begin

abbreviation C where "C \<equiv> t_cmpbin V"
abbreviation inv_ok where "inv_ok \<equiv> tb_inv V binv babs c"
abbreviation view_on where "view_on t b \<equiv> overlay C (sizes_of t) (babs (bufDS t)) b"

lemma C_ok: "cmpbin_ok C"
  using V_ok by (simp add: env_ok_def)

lemma roots_step:
  assumes t: "inv_ok t"
  shows "too_many V t ks \<Longrightarrow> updateRootsLocked V t (foldl set_add [] (map (\<lambda>k. enc C (take 1 (toks k))) ks)) = (Some ErrTooManyRoots, t)"
    and "\<not> too_many V t ks \<Longrightarrow> \<exists>rs. updateRootsLocked V t (foldl set_add [] (map (\<lambda>k. enc C (take 1 (toks k))) ks)) = (None, t\<lparr>tb_roots := rs\<rparr>) \<and>
      set rs = set (tb_roots t) \<union> root_encs C ks \<and> inv_ok (t\<lparr>tb_roots := rs\<rparr>)"
proof -
  note t' = t [unfolded tb_inv_def]
  let ?rs = "foldl set_add [] (map (\<lambda>k. enc C (take 1 (toks k))) ks)"
  have rs: "set ?rs = root_encs C ks" by (simp add: set_adds)
  note u = updateRoots [OF V_ok, of t ?rs, unfolded rs]
  show "too_many V t ks \<Longrightarrow> updateRootsLocked V t ?rs = (Some ErrTooManyRoots, t)"
    using u(1) t' unfolding too_many_def by blast
  assume "\<not> too_many V t ks"
  then obtain rs where r: "updateRootsLocked V t ?rs = (None, t\<lparr>tb_roots := rs\<rparr>)" "set rs = set (tb_roots t) \<union> root_encs C ks"
    "distinct rs" "length rs \<le> rootLimit t" using u(2) t' unfolding too_many_def by (meson not_less)
  have "sizes_ok C (set rs) (sizes_of t)" using t' r(2) by (fastforce simp: sizes_ok_def)
  then show "\<exists>rs. updateRootsLocked V t ?rs = (None, t\<lparr>tb_roots := rs\<rparr>) \<and>
      set rs = set (tb_roots t) \<union> root_encs C ks \<and> inv_ok (t\<lparr>tb_roots := rs\<rparr>)"
    using r t' by (intro exI [of _ rs]) (simp add: tb_inv_def)
qed

text \<open>Deleting and putting complete keys.\<close>

lemma tb_delete:
  assumes t: "inv_ok t" and ks: "ks \<noteq> []" "\<forall>k \<in> set ks. txn_key c k"
  shows "too_many V t ks \<Longrightarrow> tb_deleteMulti V t ks = Some (Inl ErrTooManyRoots, t)"
    and "\<not> too_many V t ks \<Longrightarrow> \<exists>t'. tb_deleteMulti V t ks = Some (Inr (map (\<lambda>_. None) ks), t') \<and> inv_ok t' \<and>
      same_limits t t' \<and> set (tb_roots t') = set (tb_roots t) \<union> root_encs C ks \<and>
      sizes_of t' = foldl (\<lambda>m k. m(enc C (toks k) \<mapsto> 0)) (sizes_of t) ks \<and>
      (\<forall>b. view_on t' b = fold (\<lambda>k w. w(toks k := None)) ks (view_on t b))"
proof -
  show "too_many V t ks \<Longrightarrow> tb_deleteMulti V t ks = Some (Inl ErrTooManyRoots, t)"
    using roots_step(1) [OF t] by (simp add: tb_deleteMulti_def toEncoded_eq)
  assume "\<not> too_many V t ks"
  then obtain rs where r: "updateRootsLocked V t (foldl set_add [] (map (\<lambda>k. enc C (take 1 (toks k))) ks)) = (None, t\<lparr>tb_roots := rs\<rparr>)"
    "set rs = set (tb_roots t) \<union> root_encs C ks" "inv_ok (t\<lparr>tb_roots := rs\<rparr>)" using roots_step(2) [OF t] by blast
  have b: "binv (bufDS t)" using t by (simp add: tb_inv_def)
  obtain b' where b': "ri_DeleteMulti (t_buf V) (bufDS t) ks = Some (Inr (map (\<lambda>_. None) ks), b')" "binv b'"
    "babs b' = fold (\<lambda>k a. a(toks k := None)) ks (babs (bufDS t))" using buf.del [OF b ks] by blast
  let ?xs = "map (\<lambda>k. (k, ())) ks" and ?encs = "map (\<lambda>k. enc C (toks k)) ks"
  define st where "st = foldl (\<lambda>s (key, _). st_set s key 0) (entState t) (zip ?encs (map (\<lambda>_. None :: rierror option) ks))"
  have zip: "zip ?encs (map (\<lambda>_. None :: rierror option) ks) = map (\<lambda>k. (enc C (toks k), None)) ks" by (induction ks) auto
  have st: "st_inv st" "map_of (keyToSize st) = foldl (\<lambda>m k. m(enc C (toks k) \<mapsto> 0)) (sizes_of t) ks"
  proof -
    show "st_inv st" using st_inv_sets [of "entState t" "\<lambda>_. 0"] t by (simp add: st_def tb_inv_def)
    show "map_of (keyToSize st) = foldl (\<lambda>m k. m(enc C (toks k) \<mapsto> 0)) (sizes_of t) ks"
      unfolding st_def st_sets_map [where f = "\<lambda>_. 0"] zip by (simp add: foldl_map del: fun_upd_apply)
  qed
  note w = write_all [OF C_ok, where xs = ?xs and roots = "set rs" and val = "\<lambda>_. None" and sz = "\<lambda>_. 0" and m = "sizes_of t"]
  have k: "\<forall>(k, x) \<in> set ?xs. entity_toks (toks k) \<and> enc C (take 1 (toks k)) \<in> set rs \<and> True"
    using ks(2) r(2) txn_keyD(3) by auto
  define t' where "t' = t\<lparr>tb_roots := rs, bufDS := b', entState := st\<rparr>"
  have eq: "foldl (\<lambda>m (e, x). m(e \<mapsto> 0)) (sizes_of t) (map (\<lambda>(k, x). (enc C (toks k), x)) ?xs) = sizes_of t'"
    "fold (\<lambda>(k, x) a. a(toks k := None)) ?xs (babs (bufDS t)) = babs (bufDS t')"
    "fold (\<lambda>(k, x) a. a(toks k := None)) ?xs W = fold (\<lambda>k w. w(toks k := None)) ks W" for W
    using st(2) b'(3) by (simp_all add: t'_def foldl_map fold_map comp_def)
  have "tb_deleteMulti V t ks = Some (Inr (map (\<lambda>_. None) ks), t')"
    using r(1) b'(1) by (simp add: tb_deleteMulti_def toEncoded_eq t'_def st_def list_ex_iff)
  moreover have "solid m" if "babs (bufDS t') ts = Some m" for ts m
    using fold_values [of "\<lambda>_. None" ?xs "babs (bufDS t)" ts m] that t unfolding eq(2) by (auto simp: tb_inv_def)
  then have "inv_ok t'" using w(2) [where a = "babs (bufDS t)"] w(3) k eq(1,2) r(3) b'(2) st(1) by (simp add: tb_inv_def t'_def)
  moreover have "view_on t' b = fold (\<lambda>k w. w(toks k := None)) ks (view_on t b)" for b
    using w(1) [where a = "babs (bufDS t)" and b = b] k eq by simp
  ultimately show "\<exists>t'. tb_deleteMulti V t ks = Some (Inr (map (\<lambda>_. None) ks), t') \<and> inv_ok t' \<and>
      same_limits t t' \<and> set (tb_roots t') = set (tb_roots t) \<union> root_encs C ks \<and>
      sizes_of t' = foldl (\<lambda>m k. m(enc C (toks k) \<mapsto> 0)) (sizes_of t) ks \<and>
      (\<forall>b. view_on t' b = fold (\<lambda>k w. w(toks k := None)) ks (view_on t b))"
    using r(2) st(2) by (intro exI [of _ t']) (simp add: same_limits_def t'_def)
qed

lemma complete_keys: "\<forall>k \<in> set ks. txn_key c k \<Longrightarrow> incomplete_idxs i ks = Some []"
  by (induction ks arbitrary: i) (auto simp: txn_keyD(4))

lemma tb_put:
  assumes t: "inv_ok t" and ks: "ks \<noteq> []" "\<forall>k \<in> set ks. txn_key c k"
    and pms: "length pms = length ks" "\<forall>pm \<in> set pms. putable pm \<and> solid (saved pm)"
  shows "too_many V t ks \<Longrightarrow> tb_putMulti V P t p ks pms = Some (Inl ErrTooManyRoots, t, p)"
    and "\<not> too_many V t ks \<Longrightarrow> \<exists>t'. tb_putMulti V P t p ks pms = Some (Inr (map (\<lambda>k. (Some k, None)) ks), t', p) \<and> inv_ok t' \<and>
      same_limits t t' \<and> set (tb_roots t') = set (tb_roots t) \<union> root_encs C ks \<and>
      sizes_of t' = foldl (\<lambda>m (k, pm). m(enc C (toks k) \<mapsto> pm_EstimateSize pm)) (sizes_of t) (zip ks pms) \<and>
      (\<forall>b. view_on t' b = fold (\<lambda>(k, pm) w. w(toks k := Some (saved pm))) (zip ks pms) (view_on t b))"
proof -
  have fixed: "fixKeys P p ks = Some (FixKeys ks, p)" using complete_keys [OF ks(2)] by (simp add: fixKeys_def)
  show "too_many V t ks \<Longrightarrow> tb_putMulti V P t p ks pms = Some (Inl ErrTooManyRoots, t, p)"
    using roots_step(1) [OF t] fixed by (simp add: tb_putMulti_def toEncoded_eq)
  assume "\<not> too_many V t ks"
  then obtain rs where r: "updateRootsLocked V t (foldl set_add [] (map (\<lambda>k. enc C (take 1 (toks k))) ks)) = (None, t\<lparr>tb_roots := rs\<rparr>)"
    "set rs = set (tb_roots t) \<union> root_encs C ks" "inv_ok (t\<lparr>tb_roots := rs\<rparr>)" using roots_step(2) [OF t] by blast
  have b: "binv (bufDS t)" using t by (simp add: tb_inv_def)
  obtain b' where b': "ri_PutMulti (t_buf V) (bufDS t) ks pms = Some (Inr (map (\<lambda>_. None) ks), b')" "binv b'"
    "babs b' = fold (\<lambda>(k, pm) a. a(toks k := Some (saved pm))) (zip ks pms) (babs (bufDS t))" using buf.put [OF b ks pms(1)] pms(2) by blast
  let ?xs = "zip ks pms" and ?encs = "map (\<lambda>k. enc C (toks k)) ks"
  define st where "st = foldl (\<lambda>s (key, v). st_set s key (pm_EstimateSize v)) (entState t) (zip ?encs pms)"
  have zip: "zip ?encs pms = map (\<lambda>(k, x). (enc C (toks k), x)) ?xs" by (simp add: zip_map1)
  have st: "st_inv st" "map_of (keyToSize st) = foldl (\<lambda>m (e, x). m(e \<mapsto> pm_EstimateSize x)) (sizes_of t) (map (\<lambda>(k, x). (enc C (toks k), x)) ?xs)"
    using st_inv_sets [of "entState t" pm_EstimateSize] st_sets_map [of pm_EstimateSize "entState t"] t
    by (simp_all add: st_def tb_inv_def zip del: fun_upd_apply)
  note w = write_all [OF C_ok, where xs = ?xs and roots = "set rs" and val = "\<lambda>pm. Some (saved pm)" and sz = pm_EstimateSize and m = "sizes_of t"]
  have k: "\<forall>(k, x) \<in> set ?xs. entity_toks (toks k) \<and> enc C (take 1 (toks k)) \<in> set rs \<and>
      (if Some (saved x) = None then pm_EstimateSize x = 0 else 0 < pm_EstimateSize x)"
  proof clarify
    fix k x assume "(k, x) \<in> set (zip ks pms)"
    then have "k \<in> set ks" "x \<in> set pms" by (auto dest: set_zip_leftD set_zip_rightD)
    then show "entity_toks (toks k) \<and> enc C (take 1 (toks k)) \<in> set rs \<and>
      (if Some (saved x) = None then pm_EstimateSize x = 0 else 0 < pm_EstimateSize x)" using ks(2) pms(2) r(2) txn_keyD(3) solid_size by auto
  qed
  define t' where "t' = t\<lparr>tb_roots := rs, bufDS := b', entState := st\<rparr>"
  have sizes: "sizes_of t' = foldl (\<lambda>m (e, x). m(e \<mapsto> pm_EstimateSize x)) (sizes_of t) (map (\<lambda>(k, x). (enc C (toks k), x)) ?xs)"
    using st(2) by (simp add: t'_def)
  have len: "take (length ks) pms = pms" using pms(1) by simp
  have "tb_putMulti V P t p ks pms = Some (Inr (map (\<lambda>k. (Some k, None)) ks), t', p)"
    using r(1) b'(1) fixed by (simp add: tb_putMulti_def toEncoded_eq t'_def st_def list_ex_iff len)
  moreover have "buffered C (sizes_of t') (babs (bufDS t'))" "sizes_ok C (set rs) (sizes_of t')"
    using w(2) [OF k, where a = "babs (bufDS t)"] w(3) [OF k] r(3) unfolding sizes by (simp_all add: tb_inv_def t'_def b'(3))
  moreover have "solid m" if "babs (bufDS t') ts = Some m" for ts m
    using fold_values [of "\<lambda>pm. Some (saved pm)" ?xs "babs (bufDS t)" ts m] that t pms(2)
    by (auto simp: tb_inv_def t'_def b'(3) dest!: set_zip_rightD)
  ultimately have "inv_ok t'" "tb_putMulti V P t p ks pms = Some (Inr (map (\<lambda>k. (Some k, None)) ks), t', p)"
    using r(3) b'(2) st(1) by (simp_all add: tb_inv_def t'_def)
  moreover have "view_on t' b = fold (\<lambda>(k, pm) w. w(toks k := Some (saved pm))) (zip ks pms) (view_on t b)" for b
    using w(1) [OF k, where a = "babs (bufDS t)" and b = b] unfolding sizes by (simp add: t'_def b'(3))
  moreover have "sizes_of t' = foldl (\<lambda>m (k, pm). m(enc C (toks k) \<mapsto> pm_EstimateSize pm)) (sizes_of t) (zip ks pms)"
    unfolding sizes foldl_map by (rule foldl_cong) auto
  ultimately show "\<exists>t'. tb_putMulti V P t p ks pms = Some (Inr (map (\<lambda>k. (Some k, None)) ks), t', p) \<and> inv_ok t' \<and>
      same_limits t t' \<and> set (tb_roots t') = set (tb_roots t) \<union> root_encs C ks \<and>
      sizes_of t' = foldl (\<lambda>m (k, pm). m(enc C (toks k) \<mapsto> pm_EstimateSize pm)) (sizes_of t) (zip ks pms) \<and>
      (\<forall>b. view_on t' b = fold (\<lambda>(k, pm) w. w(toks k := Some (saved pm))) (zip ks pms) (view_on t b))"
    using r(2) by (intro exI [of _ t']) (simp add: same_limits_def t'_def)
qed

text \<open>Reading. The keys that are not buffered are read from the parent, whose results are passed on unchanged.\<close>

abbreviation misses where "misses t ks \<equiv> filter (\<lambda>k. sizes_of t (enc C (toks k)) = None) ks"

lemma get_buf:
  assumes t: "inv_ok t" and ks: "\<forall>k \<in> set ks. txn_key c k"
  shows "\<exists>data b. get_buffered V t ks (map (\<lambda>k. enc C (toks k)) ks) = Some (data, t\<lparr>bufDS := b\<rparr>) \<and> binv b \<and> babs b = babs (bufDS t) \<and>
    length data = length ks \<and>
    (\<forall>i < length ks. reads (if \<exists>s > 0. sizes_of t (enc C (toks (ks ! i))) = Some s then babs (bufDS t) (toks (ks ! i)) else None)
       (item_result (data ! i) None)) \<and>
    (\<forall>i < length ks. sizes_of t (enc C (toks (ks ! i))) = None \<longrightarrow> data ! i = None)"
proof -
  let ?Q = "\<lambda>i. \<exists>s > 0. sizes_of t (enc C (toks (ks ! i))) = Some s"
  let ?idx = "filter ?Q [0..<length ks]" and ?arr = "replicate (length ks) (None :: PropertyMap option)"
  have idx: "filter (\<lambda>i. snd (st_get (entState t) (map (\<lambda>k. enc C (toks k)) ks ! i)) \<and>
      fst (st_get (entState t) (map (\<lambda>k. enc C (toks k)) ks ! i)) > 0) [0..<length ks] = ?idx"
    by (rule filter_cong) (auto simp: st_get_def split: option.split)
  have b: "binv (bufDS t)" and bufd: "buffered C (sizes_of t) (babs (bufDS t))" using t by (simp_all add: tb_inv_def)
  show ?thesis
  proof (cases "?idx = []")
    case True
    then have "\<forall>i < length ks. \<not> ?Q i" by (auto simp: filter_empty_conv)
    moreover have "get_buffered V t ks (map (\<lambda>k. enc C (toks k)) ks) = Some (?arr, t\<lparr>bufDS := bufDS t\<rparr>)"
      using idx True by (simp add: get_buffered_def Let_def)
    ultimately show ?thesis using b by (intro exI [of _ ?arr] exI [of _ "bufDS t"]) (auto simp: item_result_def)
  next
    case False
    have keys: "\<forall>k \<in> set (map ((!) ks) ?idx). txn_key c k" using ks by auto
    have ne: "map ((!) ks) ?idx \<noteq> []" using False by simp
    obtain rs b' where rs: "ri_GetMulti (t_buf V) (bufDS t) (map ((!) ks) ?idx) = Some (Inr rs, b')"
      "list_all2 (\<lambda>k r. reads (babs (bufDS t) (toks k)) r) (map ((!) ks) ?idx) rs" using buf.get_total [OF b ne keys] by blast
    have b': "binv b'" "babs b' = babs (bufDS t)" using buf.get_reads [OF b ne keys] rs(1) by auto
    have in_buf: "babs (bufDS t) (toks k) \<noteq> None" if kin: "k \<in> set (map ((!) ks) ?idx)" for k
    proof -
      have "txn_key c k" using keys kin by blast
      then show ?thesis using bufd kin txn_keyD(3) by (auto simp: buffered_def)
    qed
    have rs': "list_all2 (\<lambda>k r. reads (babs (bufDS t) (toks k)) r \<and> \<not> isl r) (map ((!) ks) ?idx) rs"
    proof (rule list.rel_mono_strong [OF rs(2)])
      fix k r assume "k \<in> set (map ((!) ks) ?idx)" "reads (babs (bufDS t) (toks k)) r"
      then show "reads (babs (bufDS t) (toks k)) r \<and> \<not> isl r" using in_buf [of k] by auto
    qed
    have "\<not> list_ex isl rs" using rs' by (auto simp: list_ex_iff list_all2_conv_all_nth in_set_conv_nth)
    let ?data = "scatter ?idx (map (\<lambda>r. Some (projr r)) rs) ?arr"
    have get: "get_buffered V t ks (map (\<lambda>k. enc C (toks k)) ks) = Some (?data, t\<lparr>bufDS := b'\<rparr>)"
      using idx False rs(1) \<open>\<not> list_ex isl rs\<close> by (simp add: get_buffered_def Let_def)
    have len: "length (map (\<lambda>r. Some (projr r)) rs) = length ?idx" using list_all2_lengthD [OF rs(2)] by simp
    have hit: "reads (babs (bufDS t) (toks (ks ! i))) (item_result (?data ! i) None)" if i: "i < length ks" "?Q i" for i
    proof -
      obtain j where j: "j < length ?idx" "?idx ! j = i" "reads (babs (bufDS t) (toks (ks ! i))) (rs ! j) \<and> \<not> isl (rs ! j)"
        using scatter_hit [OF rs' i] by blast
      then have "?data ! i = Some (projr (rs ! j))" using scatter_at [of rs ?Q ks ?arr j "\<lambda>r. Some (projr r)"] len by simp
      then show ?thesis using j(3) by (cases "rs ! j") (simp_all add: item_result_def)
    qed
    have miss: "?data ! i = None" if "i < length ks" "\<not> ?Q i" for i
      using scatter_rest(2) [OF len, of ?arr i] that by simp
    show ?thesis
      using get b' scatter_rest(1) [OF len, of ?arr] hit miss
      by (intro exI [of _ ?data] exI [of _ b']) (auto simp: item_result_def)
  qed
qed

abbreviation after_read where
  "after_read t t' ks \<equiv> inv_ok t' \<and> same_limits t t' \<and> set (tb_roots t') = set (tb_roots t) \<union> root_encs C ks \<and>
     entState t' = entState t \<and> babs (bufDS t') = babs (bufDS t)"

lemma tb_get_start:
  assumes t: "inv_ok t" and ks: "\<forall>k \<in> set ks. txn_key c k" and few: "\<not> too_many V t ks"
  obtains t' data where "after_read t t' ks" "length data = length ks"
    "\<forall>i < length ks. if sizes_of t (enc C (toks (ks ! i))) = None then data ! i = None
       else \<forall>b. reads (view_on t b (toks (ks ! i))) (item_result (data ! i) None)"
    "tb_getMulti V P t p ks =
       (if filter (\<lambda>i. sizes_of t (enc C (toks (ks ! i))) = None) [0..<length ks] = []
        then Some (Inr (map2 item_result data (replicate (length ks) None)), t', p)
        else Option.bind (ri_GetMulti P p (map ((!) ks) (filter (\<lambda>i. sizes_of t (enc C (toks (ks ! i))) = None) [0..<length ks]))) (\<lambda>(r, p).
             case r of
               Inl err \<Rightarrow> Some (Inl err, t', p)
             | Inr rs \<Rightarrow> Some (Inr (map2 item_result
                 (scatter (filter (\<lambda>i. sizes_of t (enc C (toks (ks ! i))) = None) [0..<length ks]) (map parent_data rs) data)
                 (scatter (filter (\<lambda>i. sizes_of t (enc C (toks (ks ! i))) = None) [0..<length ks]) (map parent_err rs)
                    (replicate (length ks) None))), t', p)))"
proof -
  obtain rs where r: "updateRootsLocked V t (foldl set_add [] (map (\<lambda>k. enc C (take 1 (toks k))) ks)) = (None, t\<lparr>tb_roots := rs\<rparr>)"
    "set rs = set (tb_roots t) \<union> root_encs C ks" "inv_ok (t\<lparr>tb_roots := rs\<rparr>)" using roots_step(2) [OF t few] by blast
  have sel: "bufDS (t\<lparr>tb_roots := rs\<rparr>) = bufDS t" "entState (t\<lparr>tb_roots := rs\<rparr>) = entState t" by simp_all
  from get_buf [OF r(3) ks, unfolded sel] obtain data b where g:
    "get_buffered V (t\<lparr>tb_roots := rs\<rparr>) ks (map (\<lambda>k. enc C (toks k)) ks) = Some (data, t\<lparr>tb_roots := rs, bufDS := b\<rparr>)"
    "binv b" "babs b = babs (bufDS t)" "length data = length ks"
    "\<forall>i < length ks. reads (if \<exists>s > 0. sizes_of t (enc C (toks (ks ! i))) = Some s then babs (bufDS t) (toks (ks ! i)) else None)
       (item_result (data ! i) None)"
    "\<forall>i < length ks. sizes_of t (enc C (toks (ks ! i))) = None \<longrightarrow> data ! i = None" by blast
  let ?t = "t\<lparr>tb_roots := rs, bufDS := b\<rparr>"
  have idx: "filter (\<lambda>i. \<not> snd (st_get (entState t) (map (\<lambda>k. enc C (toks k)) ks ! i))) [0..<length ks] =
      filter (\<lambda>i. sizes_of t (enc C (toks (ks ! i))) = None) [0..<length ks]"
    by (rule filter_cong) (auto simp: st_get_def split: option.split)
  have view: "(if \<exists>s > 0. sizes_of t (enc C (toks k)) = Some s then babs (bufDS t) (toks k) else None) = view_on t b (toks k)"
    if "k \<in> set ks" "sizes_of t (enc C (toks k)) \<noteq> None" for k b
    using that ks txn_keyD(3) [of c k] by (auto simp: overlay_def)
  show ?thesis
  proof (rule that)
    show "after_read t ?t ks" using r g(2,3) by (simp add: tb_inv_def same_limits_def)
    show "length data = length ks" by fact
    show "\<forall>i < length ks. if sizes_of t (enc C (toks (ks ! i))) = None then data ! i = None
       else \<forall>b. reads (view_on t b (toks (ks ! i))) (item_result (data ! i) None)" using g(5,6) view by simp
  qed (use r(1) g(1) in \<open>simp add: tb_getMulti_def toEncoded_eq Let_def idx cong: sum.case_cong\<close>)
qed

lemma item_parent: "item_result (parent_data r) (parent_err r) = r"
  by (cases r) (auto simp: item_result_def parent_data_def parent_err_def)

lemma tb_get:
  assumes t: "inv_ok t" and ks: "\<forall>k \<in> set ks. txn_key c k"
  shows "too_many V t ks \<Longrightarrow> tb_getMulti V P t p ks = Some (Inl ErrTooManyRoots, t, p)"
    and "\<not> too_many V t ks \<Longrightarrow> misses t ks = [] \<Longrightarrow>
      \<exists>t' rs. tb_getMulti V P t p ks = Some (Inr rs, t', p) \<and> after_read t t' ks \<and> list_all2 (\<lambda>k r. reads (view_on t b (toks k)) r) ks rs"
    and "\<not> too_many V t ks \<Longrightarrow> misses t ks \<noteq> [] \<Longrightarrow> ri_GetMulti P p (misses t ks) = Some (Inl e, p') \<Longrightarrow>
      \<exists>t'. tb_getMulti V P t p ks = Some (Inl e, t', p') \<and> after_read t t' ks"
    and "\<not> too_many V t ks \<Longrightarrow> misses t ks \<noteq> [] \<Longrightarrow> ri_GetMulti P p (misses t ks) = Some (Inr prs, p') \<Longrightarrow>
      list_all2 Q (misses t ks) prs \<Longrightarrow> \<exists>t' rs. tb_getMulti V P t p ks = Some (Inr rs, t', p') \<and> after_read t t' ks \<and>
        list_all2 (\<lambda>k r. if sizes_of t (enc C (toks k)) = None then Q k r else reads (view_on t b (toks k)) r) ks rs"
proof -
  show "too_many V t ks \<Longrightarrow> tb_getMulti V P t p ks = Some (Inl ErrTooManyRoots, t, p)"
    using roots_step(1) [OF t] by (simp add: tb_getMulti_def toEncoded_eq)
  assume few: "\<not> too_many V t ks"
  let ?Q = "\<lambda>i. sizes_of t (enc C (toks (ks ! i))) = None"
  let ?idx = "filter ?Q [0..<length ks]"
  obtain t' data where s: "after_read t t' ks" "length data = length ks"
    "\<forall>i < length ks. if ?Q i then data ! i = None else \<forall>b. reads (view_on t b (toks (ks ! i))) (item_result (data ! i) None)"
    and eq: "tb_getMulti V P t p ks =
       (if ?idx = [] then Some (Inr (map2 item_result data (replicate (length ks) None)), t', p)
        else Option.bind (ri_GetMulti P p (map ((!) ks) ?idx)) (\<lambda>(r, p).
             case r of
               Inl err \<Rightarrow> Some (Inl err, t', p)
             | Inr rs \<Rightarrow> Some (Inr (map2 item_result (scatter ?idx (map parent_data rs) data)
                                  (scatter ?idx (map parent_err rs) (replicate (length ks) None))), t', p)))"
    by (rule tb_get_start [OF t ks few])
  have keys: "map ((!) ks) ?idx = misses t ks" by (rule map_nth_filter)
  then have nil: "?idx = [] \<longleftrightarrow> misses t ks = []" by (metis map_is_Nil_conv)
  {
    assume none: "misses t ks = []"
    then have "\<forall>i < length ks. \<not> ?Q i" using nil by (auto simp: filter_empty_conv)
    then have "list_all2 (\<lambda>k r. reads (view_on t b (toks k)) r) ks (map2 item_result data (replicate (length ks) None))"
      using s(2,3) by (simp add: list_all2_conv_all_nth)
    then show "\<exists>t' rs. tb_getMulti V P t p ks = Some (Inr rs, t', p) \<and> after_read t t' ks \<and> list_all2 (\<lambda>k r. reads (view_on t b (toks k)) r) ks rs"
      using none nil eq s(1) by auto
  next
    assume "misses t ks \<noteq> []" "ri_GetMulti P p (misses t ks) = Some (Inl e, p')"
    then show "\<exists>t'. tb_getMulti V P t p ks = Some (Inl e, t', p') \<and> after_read t t' ks" using nil eq keys s(1) by auto
  next
    assume m: "misses t ks \<noteq> []" "ri_GetMulti P p (misses t ks) = Some (Inr prs, p')" and Q: "list_all2 Q (misses t ks) prs"
    let ?rs = "map2 item_result (scatter ?idx (map parent_data prs) data) (scatter ?idx (map parent_err prs) (replicate (length ks) None))"
    note Q' = Q [folded keys]
    have len: "length prs = length ?idx" using list_all2_lengthD [OF Q'] by simp
    have lens: "length (scatter ?idx (map parent_data prs) data) = length ks" "length (scatter ?idx (map parent_err prs) (replicate (length ks) None)) = length ks"
      using scatter_rest(1) [of "map parent_data prs" ?Q ks data] scatter_rest(1) [of "map parent_err prs" ?Q ks "replicate (length ks) None"] len s(2) by simp_all
    have pt: "if ?Q i then Q (ks ! i) (?rs ! i) else reads (view_on t b (toks (ks ! i))) (?rs ! i)" if i: "i < length ks" for i
    proof (cases "?Q i")
      case True
      obtain j where j: "j < length ?idx" "?idx ! j = i" "Q (ks ! i) (prs ! j)"
        using scatter_hit [of Q ks ?Q prs i] Q' i True by blast
      have "?rs ! i = item_result (parent_data (prs ! j)) (parent_err (prs ! j))"
        using scatter_at [of prs ?Q ks data j parent_data] scatter_at [of prs ?Q ks "replicate (length ks) None" j parent_err]
          len s(2) j(1,2) i lens by simp
      then show ?thesis using True j(3) by (simp add: item_parent)
    next
      case False
      have "?rs ! i = item_result (data ! i) None"
        using scatter_rest(2) [of "map parent_data prs" ?Q ks data i] scatter_rest(2) [of "map parent_err prs" ?Q ks "replicate (length ks) None" i]
          len s(2) i False lens by simp
      moreover have "reads (view_on t b (toks (ks ! i))) (item_result (data ! i) None)" using s(3) i False by simp
      ultimately show ?thesis using False by auto
    qed
    have "length ks = length ?rs" using lens by simp
    from list_all2_all_nthI [OF this, of "\<lambda>k r. if sizes_of t (enc C (toks k)) = None then Q k r else reads (view_on t b (toks k)) r"] pt
    have "list_all2 (\<lambda>k r. if sizes_of t (enc C (toks k)) = None then Q k r else reads (view_on t b (toks k)) r) ks ?rs" by blast
    moreover have "tb_getMulti V P t p ks = Some (Inr ?rs, t', p')" using m nil eq keys by simp
    ultimately show "\<exists>t' rs. tb_getMulti V P t p ks = Some (Inr rs, t', p') \<and> after_read t t' ks \<and>
        list_all2 (\<lambda>k r. if sizes_of t (enc C (toks k)) = None then Q k r else reads (view_on t b (toks k)) r) ks rs"
      using s(1) by blast
  }
qed

section \<open>Commit\<close>

lemma read_enc: "entity_toks ts \<Longrightarrow> ReadKey C WithoutContext c (enc C ts) = Inr (Some \<lparr>kc = c, toks = ts\<rparr>, [])"
  using ReadKey_Write [OF C_ok, of "\<lparr>kc = MkKeyContext '''' '''', toks = ts\<rparr>" WithoutContext c WithoutContext "[]"]
  by (simp add: enc_def key_storable_toks entity_toks_def user_toks_def read_context_def)

lemma effect_dels:
  assumes "\<forall>(k, s) \<in> set xs. \<exists>ts. entity_toks ts \<and> k = enc C ts" "distinct (map fst xs)"
  shows "\<exists>ks. effect_dels C c xs = Some ks \<and> distinct ks \<and> set ks = {k. txn_key c k \<and> map_of xs (enc C (toks k)) = Some 0}"
  using assms
proof (induction xs)
  case (Cons x xs)
  obtain k s where x: "x = (k, s)" by fastforce
  obtain ts where ts: "entity_toks ts" "k = enc C ts" using Cons.prems(1) x by auto
  obtain ks where ks: "effect_dels C c xs = Some ks" "distinct ks" "set ks = {k. txn_key c k \<and> map_of xs (enc C (toks k)) = Some 0}"
    using Cons.IH Cons.prems by auto
  let ?k = "\<lparr>kc = c, toks = ts\<rparr>"
  have eq: "enc C (toks k') = k \<longleftrightarrow> k' = ?k" if "txn_key c k'" for k'
    using enc_entity_inj [OF C_ok txn_keyD(3) [OF that] ts(1)] txn_keyD(1) [OF that] ts(2) by (cases k') auto
  have k: "txn_key c ?k" using ts(1) by (simp add: txn_key_def)
  have "map_of xs k = None" using Cons.prems(2) x by (simp add: map_of_eq_None_iff)
  then have not: "?k \<notin> set ks" using ks(3) ts(2) by simp
  have set: "{k'. txn_key c k' \<and> map_of (x # xs) (enc C (toks k')) = Some 0} = (if s = 0 then insert ?k (set ks) else set ks)"
    using eq k ks(3) \<open>map_of xs k = None\<close> by (auto simp: x split: if_splits)
  show ?case
  proof (cases "s = 0")
    case True
    then show ?thesis using ks(1,2) not set ts read_enc [OF ts(1)] by (simp add: x)
  next
    case False
    then show ?thesis using ks(1,2) set by (simp add: x)
  qed
qed simp

lemma effect:
  assumes t: "inv_ok t"
  obtains toPut toPutKeys toDel where "effect V t = Some (toPut, toPutKeys, toDel)" "length toPut = length toPutKeys"
    "distinct toPutKeys" "set toPutKeys = {k. txn_key c k \<and> (\<exists>s > 0. sizes_of t (enc C (toks k)) = Some s)}"
    "\<forall>(k, pm) \<in> set (zip toPutKeys toPut). putable pm \<and> solid (saved pm) \<and> Some (saved pm) = map_option (in_context c) (babs (bufDS t) (toks k))"
    "distinct toDel" "set toDel = {k. txn_key c k \<and> sizes_of t (enc C (toks k)) = Some 0}"
proof -
  note t' = t [unfolded tb_inv_def]
  obtain fq where fq: "Finalize (NewQuery '''') = Inr fq" unfolding Finalize_def finalizeImpl_def all_query option.case sum.case by blast
  obtain res where res: "ri_Run (t_buf V) (bufDS t) fq = Some ((res, None), bufDS t)" "distinct (map fst res)"
    "fst ` set res = {k. txn_key c k \<and> babs (bufDS t) (toks k) \<noteq> None}"
    "\<forall>(k, v) \<in> set res. \<exists>pm. v = Some pm \<and> putable pm \<and> saved pm = map_of pm \<and> map_of pm = in_context c (the (babs (bufDS t) (toks k)))"
    using buf.dump [OF _ fq, of "bufDS t"] t' by blast
  have mset: "mset (t_range V (keyToSize (entState t))) = mset (keyToSize (entState t))" using V_ok by (simp add: env_ok_def)
  have dist: "distinct (map fst (keyToSize (entState t)))" using t' by (simp add: st_inv_def)
  have dist': "distinct (map fst (t_range V (keyToSize (entState t))))"
    using dist mset by (metis mset_eq_imp_distinct_iff mset_map)
  have map: "map_of (t_range V (keyToSize (entState t))) = sizes_of t"
    using map_of_inject_set [OF dist' dist] mset mset_eq_setD by blast
  have "\<forall>(k, s) \<in> set (t_range V (keyToSize (entState t))). \<exists>ts. entity_toks ts \<and> k = enc C ts"
  proof clarify
    fix k s assume "(k, s) \<in> set (t_range V (keyToSize (entState t)))"
    then have "sizes_of t k = Some s" using dist mset mset_eq_setD [OF mset] by simp
    then show "\<exists>ts. entity_toks ts \<and> k = enc C ts" using t' by (auto simp: sizes_ok_def)
  qed
  from effect_dels [OF this dist'] obtain toDel where d: "effect_dels C c (t_range V (keyToSize (entState t))) = Some toDel" "distinct toDel"
    "set toDel = {k. txn_key c k \<and> sizes_of t (enc C (toks k)) = Some 0}" unfolding map by blast
  define toPut where "toPut = map (\<lambda>(_, data). case data of None \<Rightarrow> [] | Some pm \<Rightarrow> pm) res"
  have "effect V t = Some (toPut, map fst res, toDel)" using fq res(1) d(1) t' by (simp add: effect_def toPut_def)
  moreover have "set (map fst res) = {k. txn_key c k \<and> (\<exists>s > 0. sizes_of t (enc C (toks k)) = Some s)}"
  proof -
    have "babs (bufDS t) (toks k) \<noteq> None \<longleftrightarrow> (\<exists>s > 0. sizes_of t (enc C (toks k)) = Some s)" if "txn_key c k" for k
      using t' txn_keyD(3) [OF that] unfolding buffered_def by blast
    then show ?thesis using res(3) by auto
  qed
  moreover have "putable pm \<and> solid (saved pm) \<and> Some (saved pm) = map_option (in_context c) (babs (bufDS t) (toks k))"
    if kp: "(k, pm) \<in> set (zip (map fst res) toPut)" for k pm
  proof -
    obtain v where v: "(k, v) \<in> set res" "pm = (case v of None \<Rightarrow> [] | Some pm \<Rightarrow> pm)"
      using kp by (auto simp: toPut_def zip_map_map zip_same_conv_map)
    then have "k \<in> fst ` set res" by force
    then obtain m where m: "babs (bufDS t) (toks k) = Some m" using res(3) by auto
    then show ?thesis using v res(4) t' solid_context [of c m] by fastforce
  qed
  moreover have len: "length toPut = length (map fst res)" by (simp add: toPut_def)
  ultimately show ?thesis using that [OF _ len res(2) _ _ d(2,3)] by blast
qed

lemma put_effect:
  assumes keys: "length toPut = length toPutKeys" "distinct toPutKeys" "set toPutKeys = {k. txn_key c k \<and> (\<exists>s > 0. m (enc C (toks k)) = Some s)}"
    and vals: "\<forall>(k, pm) \<in> set (zip toPutKeys toPut). Some (saved pm) = map_option (in_context c) (a (toks k))"
  shows "fold (\<lambda>(k, pm) a. a(toks k := Some (saved pm))) (zip toPutKeys toPut) A ts =
    (if entity_toks ts \<and> (\<exists>s > 0. m (enc C ts) = Some s) then map_option (in_context c) (a ts) else A ts)"
proof -
  have dist: "distinct (map toks toPutKeys)" using distinct_toks [OF keys(2), of c] keys(3) by auto
  have mem: "ts \<in> toks ` set toPutKeys \<longleftrightarrow> entity_toks ts \<and> (\<exists>s > 0. m (enc C ts) = Some s)"
  proof
    assume "entity_toks ts \<and> (\<exists>s > 0. m (enc C ts) = Some s)"
    then have "\<lparr>kc = c, toks = ts\<rparr> \<in> set toPutKeys" using keys(3) by (simp add: txn_key_def)
    then show "ts \<in> toks ` set toPutKeys" by force
  qed (use keys(3) in \<open>auto simp: txn_key_def\<close>)
  show ?thesis
  proof (cases "map_of (zip (map toks toPutKeys) toPut) ts")
    case None
    then have "ts \<notin> toks ` set toPutKeys" using keys(1) by (simp add: map_of_zip_is_None)
    then show ?thesis using fold_put_values [OF keys(1) dist, of A ts] None mem by auto
  next
    case (Some pm)
    then have "(ts, pm) \<in> set (zip (map toks toPutKeys) toPut)" by (rule map_of_SomeD)
    then obtain k where k: "(k, pm) \<in> set (zip toPutKeys toPut)" "ts = toks k" by (auto simp: zip_map1)
    then have "ts \<in> toks ` set toPutKeys" by (auto dest: set_zip_leftD)
    moreover have "Some (saved pm) = map_option (in_context c) (a ts)" using vals k by auto
    ultimately show ?thesis using fold_put_values [OF keys(1) dist, of A ts] Some mem by simp
  qed
qed

lemma del_effect:
  assumes "set toDel = {k. txn_key c k \<and> m (enc C (toks k)) = Some 0}"
  shows "fold (\<lambda>k a. a(toks k := None)) toDel A ts = (if entity_toks ts \<and> m (enc C ts) = Some 0 then None else A ts)"
proof -
  have "ts \<in> toks ` set toDel \<longleftrightarrow> entity_toks ts \<and> m (enc C ts) = Some 0"
  proof
    assume "entity_toks ts \<and> m (enc C ts) = Some 0"
    then have "\<lparr>kc = c, toks = ts\<rparr> \<in> set toDel" using assms by (simp add: txn_key_def)
    then show "ts \<in> toks ` set toDel" by force
  qed (use assms in \<open>auto simp: txn_key_def\<close>)
  then show ?thesis by (simp add: fold_del_values)
qed

text \<open>Put and delete, in either order.\<close>

lemma commit_values:
  assumes "sizes_ok C roots m"
  shows "(if entity_toks ts \<and> m (enc C ts) = Some 0 then None
      else if entity_toks ts \<and> (\<exists>s > 0. m (enc C ts) = Some s) then map_option (in_context c) (a ts) else b ts) = commit_view C c m a b ts"
    and "(if entity_toks ts \<and> (\<exists>s > 0. m (enc C ts) = Some s) then map_option (in_context c) (a ts)
      else if entity_toks ts \<and> m (enc C ts) = Some 0 then None else b ts) = commit_view C c m a b ts"
proof -
  have "s = 0 \<or> s > 0" if "m (enc C ts) = Some s" for s using assms that by (force simp: sizes_ok_def)
  then show "(if entity_toks ts \<and> m (enc C ts) = Some 0 then None
      else if entity_toks ts \<and> (\<exists>s > 0. m (enc C ts) = Some s) then map_option (in_context c) (a ts) else b ts) = commit_view C c m a b ts"
    "(if entity_toks ts \<and> (\<exists>s > 0. m (enc C ts) = Some s) then map_option (in_context c) (a ts)
      else if entity_toks ts \<and> m (enc C ts) = Some 0 then None else b ts) = commit_view C c m a b ts"
    by (cases "m (enc C ts)"; auto simp: commit_view_def overlay_def)+
qed

lemma commit_real:
  assumes t: "inv_ok t" and P: "raw_store P pinv pabs c" and p: "pinv p"
  shows "\<exists>p'. commitToReal V P putFirst t p = Some ([], p') \<and> pinv p' \<and>
    pabs p' = commit_view C c (sizes_of t) (babs (bufDS t)) (pabs p)"
proof -
  note t' = t [unfolded tb_inv_def]
  obtain toPut toPutKeys toDel where e: "effect V t = Some (toPut, toPutKeys, toDel)" "length toPut = length toPutKeys"
    "distinct toPutKeys" "set toPutKeys = {k. txn_key c k \<and> (\<exists>s > 0. sizes_of t (enc C (toks k)) = Some s)}"
    "\<forall>(k, pm) \<in> set (zip toPutKeys toPut). putable pm \<and> solid (saved pm) \<and> Some (saved pm) = map_option (in_context c) (babs (bufDS t) (toks k))"
    "distinct toDel" "set toDel = {k. txn_key c k \<and> sizes_of t (enc C (toks k)) = Some 0}" by (rule effect [OF t])
  have putable: "\<forall>pm \<in> set toPut. putable pm"
  proof
    fix pm assume "pm \<in> set toPut"
    then obtain k where "(k, pm) \<in> set (zip toPutKeys toPut)" using e(2) by (metis in_set_impl_in_set_zip2)
    then show "putable pm" using e(5) by auto
  qed
  have vals: "\<forall>(k, pm) \<in> set (zip toPutKeys toPut). Some (saved pm) = map_option (in_context c) (babs (bufDS t) (toks k))" using e(5) by auto
  note pe = put_effect [OF e(2-4) vals] and de = del_effect [OF e(7)]
  define put where "put = (\<lambda>p. if length toPut > 0 then map_option (apfst multi_errs) (ri_PutMulti P p toPutKeys toPut) else Some ([], p))"
  define del where "del = (\<lambda>p. if length toDel > 0 then map_option (apfst multi_errs) (ri_DeleteMulti P p toDel) else Some ([], p))"
  have errs: "multi_errs (Inr (map (\<lambda>_. None) ks)) = []" for ks :: "Key list" by (induction ks) (simp_all add: multi_errs_def map_filter_simps)
  have put: "\<exists>p'. put q = Some ([], p') \<and> pinv p' \<and> pabs p' = fold (\<lambda>(k, pm) a. a(toks k := Some (saved pm))) (zip toPutKeys toPut) (pabs q)" if "pinv q" for q
    using raw_store.put [OF P that, of toPutKeys toPut] e(2,4) putable that errs by (cases "toPut = []") (auto simp: put_def)
  have del: "\<exists>p'. del q = Some ([], p') \<and> pinv p' \<and> pabs p' = fold (\<lambda>k a. a(toks k := None)) toDel (pabs q)" if "pinv q" for q
    using raw_store.del [OF P that, of toDel] e(7) that errs by (cases "toDel = []") (auto simp: del_def)
  have eq: "commitToReal V P putFirst t p = (let (first, second) = (if putFirst then (put, del) else (del, put))
      in Option.bind (first p) (\<lambda>(e1, p). map_option (\<lambda>(e2, p). (e1 @ e2, p)) (second p)))"
    using e(1) by (simp add: commitToReal_def put_def del_def)
  have sz: "sizes_ok C (set (tb_roots t)) (sizes_of t)" using t' by simp
  show ?thesis
  proof (cases putFirst)
    case True
    obtain p1 where p1: "put p = Some ([], p1)" "pinv p1" "pabs p1 = fold (\<lambda>(k, pm) a. a(toks k := Some (saved pm))) (zip toPutKeys toPut) (pabs p)" using put [OF p] by blast
    obtain p2 where p2: "del p1 = Some ([], p2)" "pinv p2" "pabs p2 = fold (\<lambda>k a. a(toks k := None)) toDel (pabs p1)" using del [OF p1(2)] by blast
    have "pabs p2 = commit_view C c (sizes_of t) (babs (bufDS t)) (pabs p)"
      by (rule ext) (simp only: p1(3) p2(3) pe de commit_values(1) [OF sz])
    then show ?thesis using True eq p1 p2 by simp
  next
    case False
    obtain p1 where p1: "del p = Some ([], p1)" "pinv p1" "pabs p1 = fold (\<lambda>k a. a(toks k := None)) toDel (pabs p)" using del [OF p] by blast
    obtain p2 where p2: "put p1 = Some ([], p2)" "pinv p2" "pabs p2 = fold (\<lambda>(k, pm) a. a(toks k := Some (saved pm))) (zip toPutKeys toPut) (pabs p1)" using put [OF p1(2)] by blast
    have "pabs p2 = commit_view C c (sizes_of t) (babs (bufDS t)) (pabs p)"
      by (rule ext) (simp only: p1(3) p2(3) pe de commit_values(2) [OF sz])
    then show ?thesis using False eq p1 p2 by simp
  qed
qed

lemma written_root:
  assumes s: "inv_ok s" and k: "txn_key c k" "sizes_of s (enc C (toks k)) \<noteq> None"
  shows "enc C (take 1 (toks k)) \<in> set (tb_roots s)"
proof -
  obtain ts where "entity_toks ts" "enc C (toks k) = enc C ts" "enc C (take 1 ts) \<in> set (tb_roots s)"
    using s k(2) unfolding tb_inv_def sizes_ok_def by blast
  then show ?thesis using enc_entity_inj [OF C_ok txn_keyD(3) [OF k(1)]] by simp
qed

lemma commit_nested:
  assumes t: "inv_ok t" and s: "inv_ok s" and roots: "set (tb_roots t) \<subseteq> set (tb_roots s)" "rootLimit s = rootLimit t"
  shows "\<exists>t'. commitLocked V P t p s = Some (t', p) \<and> inv_ok t' \<and> same_limits t t' \<and>
    (\<forall>b. view_on t' b = commit_view C c (sizes_of s) (babs (bufDS s)) (view_on t b))"
proof -
  note s' = s [unfolded tb_inv_def]
  obtain toPut toPutKeys toDel where e: "effect V s = Some (toPut, toPutKeys, toDel)" "length toPut = length toPutKeys"
    "distinct toPutKeys" "set toPutKeys = {k. txn_key c k \<and> (\<exists>z > 0. sizes_of s (enc C (toks k)) = Some z)}"
    "\<forall>(k, pm) \<in> set (zip toPutKeys toPut). putable pm \<and> solid (saved pm) \<and> Some (saved pm) = map_option (in_context c) (babs (bufDS s) (toks k))"
    "distinct toDel" "set toDel = {k. txn_key c k \<and> sizes_of s (enc C (toks k)) = Some 0}" by (rule effect [OF s])
  have pms: "\<forall>pm \<in> set toPut. putable pm \<and> solid (saved pm)"
  proof
    fix pm assume "pm \<in> set toPut"
    then obtain k where "(k, pm) \<in> set (zip toPutKeys toPut)" using e(2) by (metis in_set_impl_in_set_zip2)
    then show "putable pm \<and> solid (saved pm)" using e(5) by auto
  qed
  have vals: "\<forall>(k, pm) \<in> set (zip toPutKeys toPut). Some (saved pm) = map_option (in_context c) (babs (bufDS s) (toks k))" using e(5) by auto
  note pe = put_effect [OF e(2-4) vals] and de = del_effect [OF e(7)]
  have few: "\<not> too_many V u ks" if ks: "\<forall>k \<in> set ks. txn_key c k \<and> sizes_of s (enc C (toks k)) \<noteq> None"
    and u: "set (tb_roots u) \<subseteq> set (tb_roots s)" "rootLimit u = rootLimit t" for u ks
  proof -
    have "set (tb_roots u) \<union> root_encs C ks \<subseteq> set (tb_roots s)" using u(1) ks written_root [OF s] by blast
    then have "card (set (tb_roots u) \<union> root_encs C ks) \<le> card (set (tb_roots s))" by (intro card_mono) simp_all
    also have "\<dots> \<le> rootLimit t" using s' roots(2) by (simp add: distinct_card)
    finally show ?thesis using u(2) by (simp add: too_many_def)
  qed
  have fewP: "\<not> too_many V t toPutKeys" using e(4) by (intro few [OF _ roots(1) refl]) auto
  obtain t1 where t1: "(if length toPut > 0 then
          Option.bind (tb_putMulti V P t p toPutKeys toPut) (\<lambda>(r, t, p).
            case r of Inl _ \<Rightarrow> None | Inr calls \<Rightarrow> if list_ex (\<lambda>(_, err). err \<noteq> None) calls then None else Some (t, p))
        else Some (t, p)) = Some (t1, p)" "inv_ok t1" "same_limits t t1" "set (tb_roots t1) = set (tb_roots t) \<union> root_encs C toPutKeys"
    "\<forall>b. view_on t1 b = fold (\<lambda>(k, pm) w. w(toks k := Some (saved pm))) (zip toPutKeys toPut) (view_on t b)"
  proof (cases "toPut = []")
    case True
    then show ?thesis using e(2) t that [of t] by (simp add: same_limits_def)
  next
    case False
    have "toPutKeys \<noteq> []" "\<forall>k \<in> set toPutKeys. txn_key c k" using False e(2,4) by auto
    from tb_put(2) [OF t this e(2) pms fewP, of P p] show ?thesis using that False by (auto simp: list_ex_iff)
  qed
  have "set (tb_roots t1) \<subseteq> set (tb_roots s)" using t1(4) roots(1) e(4) written_root [OF s] by auto
  then have fewD: "\<not> too_many V t1 toDel" using e(7) t1(3) by (intro few) (auto simp: same_limits_def)
  obtain t2 where t2: "(if length toDel > 0 then
       Option.bind (tb_deleteMulti V t1 toDel) (\<lambda>(r, t).
         case r of Inl _ \<Rightarrow> None | Inr errs \<Rightarrow> if list_ex (\<lambda>err. err \<noteq> None) errs then None else Some (t, p))
     else Some (t1, p)) = Some (t2, p)" "inv_ok t2" "same_limits t1 t2"
    "\<forall>b. view_on t2 b = fold (\<lambda>k w. w(toks k := None)) toDel (view_on t1 b)"
  proof (cases "toDel = []")
    case True
    then show ?thesis using t1(2) that [of t1] by (simp add: same_limits_def)
  next
    case False
    have "\<forall>k \<in> set toDel. txn_key c k" using e(7) by auto
    from tb_delete(2) [OF t1(2) False this fewD] show ?thesis using that False by (auto simp: list_ex_iff)
  qed
  have "commitLocked V P t p s = Some (t2, p)" using e(1) t1(1) t2(1) by (simp add: commitLocked_def)
  moreover have "same_limits t t2" using t1(3) t2(3) by (simp add: same_limits_def)
  moreover have "view_on t2 b = commit_view C c (sizes_of s) (babs (bufDS s)) (view_on t b)" for b
    by (rule ext) (simp only: t2(4) t1(5) pe de commit_values(1) [of "set (tb_roots s)"] s')
  ultimately show ?thesis using t2(2) by blast
qed

end

section \<open>Transactions\<close>

text \<open>The operations of a transaction, one after the other; the result of each is dropped.\<close>

datatype txn_op = TGet "Key list" | TPut "Key list" "PropertyMap list" | TDelete "Key list"

fun op_keys :: "txn_op \<Rightarrow> Key list" where
  "op_keys (TGet ks) = ks" | "op_keys (TPut ks pms) = ks" | "op_keys (TDelete ks) = ks"

definition txn_op_ok :: "KeyContext \<Rightarrow> txn_op \<Rightarrow> bool" where
  "txn_op_ok c op \<longleftrightarrow> op_keys op \<noteq> [] \<and> (\<forall>k \<in> set (op_keys op). txn_key c k) \<and>
     (case op of TPut ks pms \<Rightarrow> length pms = length ks \<and> (\<forall>pm \<in> set pms. putable pm \<and> solid (saved pm)) | _ \<Rightarrow> True)"

definition tb_step :: "('s, 'b) txnenv \<Rightarrow> 'p RawInterface \<Rightarrow> txn_op \<Rightarrow> 'b txnBufState \<times> 'p \<Rightarrow> ('b txnBufState \<times> 'p) option" where
  "tb_step V P op tp =
     (case op of
        TGet ks \<Rightarrow> map_option snd (tb_getMulti V P (fst tp) (snd tp) ks)
      | TPut ks pms \<Rightarrow> map_option snd (tb_putMulti V P (fst tp) (snd tp) ks pms)
      | TDelete ks \<Rightarrow> map_option (\<lambda>(_, t). (t, snd tp)) (tb_deleteMulti V (fst tp) ks))"

fun tb_steps :: "('s, 'b) txnenv \<Rightarrow> 'p RawInterface \<Rightarrow> txn_op list \<Rightarrow> 'b txnBufState \<times> 'p \<Rightarrow> ('b txnBufState \<times> 'p) option" where
  "tb_steps V P [] tp = Some tp"
| "tb_steps V P (op # ops) tp = Option.bind (tb_step V P op tp) (tb_steps V P ops)"

text \<open>
  The specification: a map, the roots of the groups that were touched, with the limit on their number, and for each key that was
  put or deleted (by its encoding) the estimated size of the latest value, 0 for a deletion.
\<close>

fun op_effect :: "txn_op \<Rightarrow> (KeyTok list \<Rightarrow> (string \<rightharpoonup> PropertyData) option) \<Rightarrow> KeyTok list \<Rightarrow> (string \<rightharpoonup> PropertyData) option" where
  "op_effect (TGet ks) w = w"
| "op_effect (TPut ks pms) w = fold (\<lambda>(k, pm) w. w(toks k := Some (saved pm))) (zip ks pms) w"
| "op_effect (TDelete ks) w = fold (\<lambda>k w. w(toks k := None)) ks w"

fun op_sizes :: "cmpbin \<Rightarrow> txn_op \<Rightarrow> (byte list \<rightharpoonup> int) \<Rightarrow> byte list \<rightharpoonup> int" where
  "op_sizes C (TGet ks) sz = sz"
| "op_sizes C (TPut ks pms) sz = foldl (\<lambda>m (k, pm). m(enc C (toks k) \<mapsto> pm_EstimateSize pm)) sz (zip ks pms)"
| "op_sizes C (TDelete ks) sz = foldl (\<lambda>m k. m(enc C (toks k) \<mapsto> 0)) sz ks"

type_synonym txn_spec = "(KeyTok list \<Rightarrow> (string \<rightharpoonup> PropertyData) option) \<times> byte list set \<times> (byte list \<rightharpoonup> int)"

definition spec_step :: "cmpbin \<Rightarrow> nat \<Rightarrow> txn_spec \<Rightarrow> txn_op \<Rightarrow> txn_spec" where
  "spec_step C limit wr op =
     (case wr of (w, roots, sz) \<Rightarrow>
        let roots' = roots \<union> root_encs C (op_keys op) in
        if card roots' > limit then (w, roots, sz) else (op_effect op w, roots', op_sizes C op sz))"

locale txn = txn_buffer V binv babs c + par: raw_reader P pinv pabs c
  for V :: "('s, 'b) txnenv" and binv :: "'b \<Rightarrow> bool" and babs :: "'b \<Rightarrow> KeyTok list \<Rightarrow> (string \<rightharpoonup> PropertyData) option" and c :: KeyContext
    and P :: "'p RawInterface" and pinv :: "'p \<Rightarrow> bool" and pabs :: "'p \<Rightarrow> KeyTok list \<Rightarrow> (string \<rightharpoonup> PropertyData) option"
begin

lemma view_miss: "txn_key c k \<Longrightarrow> sizes_of t (enc C (toks k)) = None \<Longrightarrow> view_on t b (toks k) = b (toks k)"
  by (simp add: overlay_def txn_keyD(3))

text \<open>Reading through the transaction, for every way in which the parent reads.\<close>

lemma get_reads_view:
  assumes t: "inv_ok t" and p: "pinv p" and ks: "\<forall>k \<in> set ks. txn_key c k" and few: "\<not> too_many V t ks"
  shows "\<exists>r t' p'. tb_getMulti V P t p ks = Some (r, t', p') \<and> after_read t t' ks \<and> pinv p' \<and> pabs p' = pabs p \<and>
    (case r of Inl _ \<Rightarrow> True
     | Inr rs \<Rightarrow> list_all2 (\<lambda>k r. reads (view_on t (pabs p) (toks k)) r \<or> (\<exists>e. e \<noteq> NoSuchEntity \<and> r = Inl e)) ks rs)"
proof (cases "misses t ks = []")
  case True
  from tb_get(2) [OF t ks few True, of P p "pabs p"] obtain t' rs where r: "tb_getMulti V P t p ks = Some (Inr rs, t', p)" "after_read t t' ks"
    "list_all2 (\<lambda>k r. reads (view_on t (pabs p) (toks k)) r) ks rs" by blast
  have "list_all2 (\<lambda>k r. reads (view_on t (pabs p) (toks k)) r \<or> (\<exists>e. e \<noteq> NoSuchEntity \<and> r = Inl e)) ks rs"
    by (rule list.rel_mono_strong [OF r(3)]) (rule disjI1)
  then show ?thesis using r(1,2) p by (intro exI [of _ "Inr rs"] exI [of _ t'] exI [of _ p]) simp
next
  case False
  have mk: "\<forall>k \<in> set (misses t ks). txn_key c k" using ks by simp
  from par.get_reads [OF p False mk] obtain r p' where g: "ri_GetMulti P p (misses t ks) = Some (r, p')" "pinv p'" "pabs p' = pabs p"
    "case r of Inl _ \<Rightarrow> True | Inr rs \<Rightarrow>
       list_all2 (\<lambda>k r. reads (pabs p (toks k)) r \<or> (\<exists>e. e \<noteq> NoSuchEntity \<and> r = Inl e)) (misses t ks) rs" by blast
  show ?thesis
  proof (cases r)
    case (Inl e)
    from tb_get(3) [OF t ks few False g(1) [unfolded Inl]] obtain t' where "tb_getMulti V P t p ks = Some (Inl e, t', p')" "after_read t t' ks" by blast
    then show ?thesis using g(2,3) by (intro exI [of _ "Inl e"] exI [of _ t'] exI [of _ p']) simp
  next
    case (Inr prs)
    have "list_all2 (\<lambda>k r. reads (pabs p (toks k)) r \<or> (\<exists>e. e \<noteq> NoSuchEntity \<and> r = Inl e)) (misses t ks) prs" using g(4) Inr by simp
    from tb_get(4) [OF t ks few False g(1) [unfolded Inr] this, of "pabs p"] obtain t' rs where
      r: "tb_getMulti V P t p ks = Some (Inr rs, t', p')" "after_read t t' ks"
      "list_all2 (\<lambda>k r. if sizes_of t (enc C (toks k)) = None then reads (pabs p (toks k)) r \<or> (\<exists>e. e \<noteq> NoSuchEntity \<and> r = Inl e)
         else reads (view_on t (pabs p) (toks k)) r) ks rs" by blast
    have "list_all2 (\<lambda>k r. reads (view_on t (pabs p) (toks k)) r \<or> (\<exists>e. e \<noteq> NoSuchEntity \<and> r = Inl e)) ks rs"
    proof (rule list.rel_mono_strong [OF r(3)])
      fix k x assume "k \<in> set ks" and x: "if sizes_of t (enc C (toks k)) = None then reads (pabs p (toks k)) x \<or> (\<exists>e. e \<noteq> NoSuchEntity \<and> x = Inl e)
         else reads (view_on t (pabs p) (toks k)) x"
      then have "txn_key c k" using ks by blast
      then show "reads (view_on t (pabs p) (toks k)) x \<or> (\<exists>e. e \<noteq> NoSuchEntity \<and> x = Inl e)"
        using x view_miss [of k t "pabs p"] by (auto split: if_splits)
    qed
    then show ?thesis using r(1,2) g(2,3) by (intro exI [of _ "Inr rs"] exI [of _ t'] exI [of _ p']) simp
  qed
qed

end

text \<open>So the transaction is itself a datastore that can be read, which is what a nested transaction has as its parent.\<close>

sublocale txn \<subseteq> nested: raw_reader "dsTxnBuf V P" "\<lambda>(t, p). tb_inv V binv babs c t \<and> pinv p" "\<lambda>(t, p). tb_view V babs pabs t p" c
proof (unfold_locales, clarify)
  fix t p ks assume t: "inv_ok t" "pinv p" and ks: "ks \<noteq> []" "\<forall>k \<in> set ks. txn_key c k"
  have eq: "ri_GetMulti (dsTxnBuf V P) (t, p) ks = tb_getMulti V P t p ks" by (simp add: dsTxnBuf_def)
  show "\<exists>r p'. ri_GetMulti (dsTxnBuf V P) (t, p) ks = Some (r, p') \<and>
      (case p' of (t, p) \<Rightarrow> inv_ok t \<and> pinv p) \<and>
      (case p' of (t, p) \<Rightarrow> tb_view V babs pabs t p) = tb_view V babs pabs t p \<and>
      (case r of Inl _ \<Rightarrow> True
       | Inr rs \<Rightarrow> list_all2 (\<lambda>k r. reads (tb_view V babs pabs t p (toks k)) r \<or> (\<exists>e. e \<noteq> NoSuchEntity \<and> r = Inl e)) ks rs)"
  proof (cases "too_many V t ks")
    case True
    then have "ri_GetMulti (dsTxnBuf V P) (t, p) ks = Some (Inl ErrTooManyRoots, t, p)" using eq tb_get(1) [OF t(1) ks(2)] by simp
    then show ?thesis using t by (intro exI [of _ "Inl ErrTooManyRoots"] exI [of _ "(t, p)"]) simp
  next
    case False
    from get_reads_view [OF t ks(2) False] obtain r t' p' where g: "tb_getMulti V P t p ks = Some (r, t', p')" "after_read t t' ks" "pinv p'" "pabs p' = pabs p"
      "case r of Inl _ \<Rightarrow> True
       | Inr rs \<Rightarrow> list_all2 (\<lambda>k r. reads (view_on t (pabs p) (toks k)) r \<or> (\<exists>e. e \<noteq> NoSuchEntity \<and> r = Inl e)) ks rs" by blast
    then show ?thesis using eq by (intro exI [of _ r] exI [of _ "(t', p')"]) (cases r; simp add: tb_view_def)
  qed
qed

end
