(* ===== verification/Txn_Correct.thy ===== *)
theory Txn_Correct
  imports TxnBuf_Props
begin

text \<open>
  Whole transactions over the transaction buffer: sequences of operations, the commit to a real datastore and to an enclosing
  transaction; and the in-memory datastore in both roles.
\<close>

context txn begin

lemma step_spec:
  assumes t: "inv_ok t" and p: "pinv p" and op: "txn_op_ok c op"
  shows "\<exists>t' p'. tb_step V P op (t, p) = Some (t', p') \<and> inv_ok t' \<and> pinv p' \<and> pabs p' = pabs p \<and> same_limits t t' \<and>
    (view_on t' (pabs p), set (tb_roots t'), sizes_of t') = spec_step C (rootLimit t) (view_on t (pabs p), set (tb_roots t), sizes_of t) op"
proof -
  have ks: "op_keys op \<noteq> []" "\<forall>k \<in> set (op_keys op). txn_key c k" using op by (simp_all add: txn_op_ok_def)
  have lim: "spec_step C (rootLimit t) (view_on t (pabs p), set (tb_roots t), sizes_of t) op =
      (if too_many V t (op_keys op) then (view_on t (pabs p), set (tb_roots t), sizes_of t)
       else (op_effect op (view_on t (pabs p)), set (tb_roots t) \<union> root_encs C (op_keys op), op_sizes C op (sizes_of t)))"
    unfolding spec_step_def too_many_def by (simp only: prod.case Let_def)
  have refl: "same_limits t t" by (simp add: same_limits_def)
  show ?thesis
  proof (cases op)
    case (TGet gs)
    show ?thesis
    proof (cases "too_many V t gs")
      case True
      then show ?thesis using TGet t p lim refl tb_get(1) [OF t, of gs P p] ks by (simp add: tb_step_def)
    next
      case False
      from get_reads_view [OF t p _ False] ks TGet obtain r t' p' where g: "tb_getMulti V P t p gs = Some (r, t', p')" "after_read t t' gs" "pinv p'" "pabs p' = pabs p"
        by auto
      then show ?thesis using TGet False lim by (simp add: tb_step_def)
    qed
  next
    case (TPut gs pms)
    have pms: "length pms = length gs" "\<forall>pm \<in> set pms. putable pm \<and> solid (saved pm)" using op TPut by (simp_all add: txn_op_ok_def)
    show ?thesis
    proof (cases "too_many V t gs")
      case True
      then show ?thesis using TPut t p lim refl tb_put(1) [OF t _ _ pms, of P p] ks by (simp add: tb_step_def)
    next
      case False
      have gs: "gs \<noteq> []" "\<forall>k \<in> set gs. txn_key c k" using ks TPut by simp_all
      from tb_put(2) [OF t gs pms False, of P p] obtain t' where t':
        "tb_putMulti V P t p gs pms = Some (Inr (map (\<lambda>k. (Some k, None)) gs), t', p)" "inv_ok t'" "same_limits t t'"
        "set (tb_roots t') = set (tb_roots t) \<union> root_encs C gs" "sizes_of t' = op_sizes C op (sizes_of t)"
        "view_on t' (pabs p) = op_effect op (view_on t (pabs p))" unfolding TPut op_sizes.simps op_effect.simps by blast
      have "tb_step V P op (t, p) = Some (t', p)" using t'(1) by (simp add: tb_step_def TPut)
      moreover have "(view_on t' (pabs p), set (tb_roots t'), sizes_of t') = spec_step C (rootLimit t) (view_on t (pabs p), set (tb_roots t), sizes_of t) op"
        unfolding lim using False TPut t'(4-6) by (simp only: op_keys.simps if_False prod.inject)
      ultimately show ?thesis using t'(2,3) p by blast
    qed
  next
    case (TDelete gs)
    show ?thesis
    proof (cases "too_many V t gs")
      case True
      then show ?thesis using TDelete t p lim refl tb_delete(1) [OF t, of gs] ks by (simp add: tb_step_def)
    next
      case False
      have gs: "gs \<noteq> []" "\<forall>k \<in> set gs. txn_key c k" using ks TDelete by simp_all
      from tb_delete(2) [OF t gs False] obtain t' where t':
        "tb_deleteMulti V t gs = Some (Inr (map (\<lambda>_. None) gs), t')" "inv_ok t'" "same_limits t t'"
        "set (tb_roots t') = set (tb_roots t) \<union> root_encs C gs" "sizes_of t' = op_sizes C op (sizes_of t)"
        "view_on t' (pabs p) = op_effect op (view_on t (pabs p))" unfolding TDelete op_sizes.simps op_effect.simps by blast
      have "tb_step V P op (t, p) = Some (t', p)" using t'(1) by (simp add: tb_step_def TDelete)
      moreover have "(view_on t' (pabs p), set (tb_roots t'), sizes_of t') = spec_step C (rootLimit t) (view_on t (pabs p), set (tb_roots t), sizes_of t) op"
        unfolding lim using False TDelete t'(4-6) by (simp only: op_keys.simps if_False prod.inject)
      ultimately show ?thesis using t'(2,3) p by blast
    qed
  qed
qed

lemma steps_spec:
  assumes "inv_ok t" "pinv p" "\<forall>op \<in> set ops. txn_op_ok c op"
  shows "\<exists>t' p'. tb_steps V P ops (t, p) = Some (t', p') \<and> inv_ok t' \<and> pinv p' \<and> pabs p' = pabs p \<and> same_limits t t' \<and>
    (view_on t' (pabs p), set (tb_roots t'), sizes_of t') = foldl (spec_step C (rootLimit t)) (view_on t (pabs p), set (tb_roots t), sizes_of t) ops"
  using assms
proof (induction ops arbitrary: t p)
  case Nil
  then show ?case by (simp add: same_limits_def)
next
  case (Cons op ops)
  from step_spec [OF Cons.prems(1,2), of op] Cons.prems(3) obtain t1 p1 where s: "tb_step V P op (t, p) = Some (t1, p1)" "inv_ok t1" "pinv p1"
    "pabs p1 = pabs p" "same_limits t t1"
    "(view_on t1 (pabs p), set (tb_roots t1), sizes_of t1) = spec_step C (rootLimit t) (view_on t (pabs p), set (tb_roots t), sizes_of t) op" by auto
  from Cons.IH [OF s(2,3)] Cons.prems(3) obtain t2 p2 where s2: "tb_steps V P ops (t1, p1) = Some (t2, p2)" "inv_ok t2" "pinv p2"
    "pabs p2 = pabs p1" "same_limits t1 t2"
    "(view_on t2 (pabs p1), set (tb_roots t2), sizes_of t2) = foldl (spec_step C (rootLimit t1)) (view_on t1 (pabs p1), set (tb_roots t1), sizes_of t1) ops" by auto
  have "rootLimit t1 = rootLimit t" "same_limits t t2" using s(5) s2(5) by (simp_all add: same_limits_def)
  then show ?case using s s2 by (intro exI [of _ t2] exI [of _ p2]) simp
qed

text \<open>A new transaction.\<close>

lemma new_inv:
  assumes "binv b" "\<forall>ts. babs b ts = None"
  shows "inv_ok (newTxnBuf b c xg None)" "inv_ok t \<Longrightarrow> inv_ok (newTxnBuf b c xg (Some t))"
    "sizes_of (newTxnBuf b c xg ps) = Map.empty"
  using assms st_inv_empty
  by (auto simp: newTxnBuf_def tb_inv_def sizes_ok_def buffered_def st_empty_def split: option.split)

lemma new_view: "overlay C Map.empty a b = (\<lambda>ts. if entity_toks ts then b ts else None)"
  by (auto simp: overlay_def)

text \<open>What a commit leaves: what the transaction saw of the keys that it wrote, but for the context of keys, and the rest as it was.\<close>

lemma commit_view_eq:
  assumes "b' = b \<or> b' = (\<lambda>ts. if entity_toks ts then b ts else None)"
  shows "commit_view C c m a b ts = (if entity_toks ts \<and> m (enc C ts) \<noteq> None then map_option (in_context c) (overlay C m a b' ts) else b ts)"
  using assms by (auto simp: commit_view_def overlay_def split: option.split)

end

section \<open>Nested transactions\<close>

text \<open>The parent of a nested transaction is the transaction around it, seen through the check filter. Its roots stay
  among those of the nested transaction, so that the commit cannot exceed its limit.\<close>

context txn begin

abbreviation outer where "outer \<equiv> checkFilter c (dsTxnBuf V P)"

lemma outer_reader: "txn V binv babs c outer (\<lambda>(t, p). inv_ok t \<and> pinv p) (\<lambda>(t, p). tb_view V babs pabs t p)"
proof -
  have "raw_reader outer (\<lambda>(t, p). inv_ok t \<and> pinv p) (\<lambda>(t, p). tb_view V babs pabs t p) c"
    by (rule checkFilter_contract(1)) (rule nested.raw_reader_axioms)
  then show ?thesis using txn_buffer_axioms by (simp add: txn_def)
qed

lemma outer_get: "ks \<noteq> [] \<Longrightarrow> \<forall>k \<in> set ks. txn_key c k \<Longrightarrow> ri_GetMulti outer (t, p) ks = tb_getMulti V P t p ks"
  using checkFilter_pass(1) [of ks c "dsTxnBuf V P" "(t, p)"] by (simp add: dsTxnBuf_def)

definition inside :: "'b txnBufState \<Rightarrow> 'b txnBufState \<Rightarrow> bool" where
  "inside t s \<longleftrightarrow> set (tb_roots t) \<subseteq> set (tb_roots s) \<and> rootLimit s = rootLimit t"

text \<open>What an operation of the nested transaction does to the state of the outer one.\<close>

abbreviation outer_same where
  "outer_same t t' \<equiv> same_limits t t' \<and> entState t' = entState t \<and> babs (bufDS t') = babs (bufDS t)"

lemma nested_step:
  assumes s: "inv_ok s" and t: "inv_ok t" and p: "pinv p" and op: "txn_op_ok c op" and "in": "inside t s"
    and step: "tb_step V outer op (s, t, p) = Some (s', t', p')"
  shows "outer_same t t' \<and> inside t' s' \<and> pabs p' = pabs p"
proof -
  have ks: "op_keys op \<noteq> []" "\<forall>k \<in> set (op_keys op). txn_key c k" using op by (simp_all add: txn_op_ok_def)
  show ?thesis
  proof (cases op)
    case (TGet gs)
    then have gs: "\<forall>k \<in> set gs. txn_key c k" using ks by simp
    obtain r where get: "tb_getMulti V outer s (t, p) gs = Some (r, s', t', p')" using step TGet by (auto simp: tb_step_def)
    have mk: "\<forall>k \<in> set (misses s gs). txn_key c k" using gs by simp
    show ?thesis
    proof (cases "too_many V s gs")
      case True
      then show ?thesis using tb_get(1) [OF s gs, of outer "(t, p)"] get "in" by (simp add: same_limits_def)
    next
      case few: False
      show ?thesis
      proof (cases "misses s gs = []")
        case True
        from tb_get(2) [OF s gs few True, of outer "(t, p)" Map.empty] get have "t' = t" "p' = p" "after_read s s' gs" by auto
        then show ?thesis using "in" by (auto simp: inside_def same_limits_def)
      next
        case miss: False
        have "set (tb_roots t) \<union> root_encs C (misses s gs) \<subseteq> set (tb_roots s) \<union> root_encs C gs" using "in" by (auto simp: inside_def)
        then have "card (set (tb_roots t) \<union> root_encs C (misses s gs)) \<le> card (set (tb_roots s) \<union> root_encs C gs)" by (intro card_mono) simp_all
        also have "\<dots> \<le> rootLimit t" using few "in" by (simp add: too_many_def inside_def)
        finally have "\<not> too_many V t (misses s gs)" by (simp add: too_many_def)
        from get_reads_view [OF t p mk this] obtain r1 t1 p1 where g: "tb_getMulti V P t p (misses s gs) = Some (r1, t1, p1)" "after_read t t1 (misses s gs)" "pabs p1 = pabs p" by blast
        have og: "ri_GetMulti outer (t, p) (misses s gs) = Some (r1, t1, p1)" using outer_get [OF miss mk] g(1) by simp
        have "t' = t1 \<and> p' = p1 \<and> after_read s s' gs"
        proof (cases r1)
          case (Inl e)
          from tb_get(3) [OF s gs few miss og [unfolded Inl]] get show ?thesis by auto
        next
          case (Inr prs)
          have "raw_reader outer (\<lambda>(t, p). inv_ok t \<and> pinv p) (\<lambda>(t, p). tb_view V babs pabs t p) c" using outer_reader by (simp add: txn_def)
          from raw_reader.get_reads [OF this, of "(t, p)" "misses s gs"] t p miss mk og Inr
          have "length (misses s gs) = length prs" by (auto dest: list_all2_lengthD)
          then have "list_all2 (\<lambda>_ _. True) (misses s gs) prs" by (simp add: list_all2_conv_all_nth)
          from tb_get(4) [OF s gs few miss og [unfolded Inr] this, of Map.empty] get show ?thesis by auto
        qed
        then show ?thesis using g(2,3) "in" by (auto simp: inside_def same_limits_def)
      qed
    qed
  next
    case (TPut gs pms)
    have pms: "length pms = length gs" "\<forall>pm \<in> set pms. putable pm \<and> solid (saved pm)" using op TPut by (simp_all add: txn_op_ok_def)
    have gs: "gs \<noteq> []" "\<forall>k \<in> set gs. txn_key c k" using ks TPut by simp_all
    obtain r where put: "tb_putMulti V outer s (t, p) gs pms = Some (r, s', t', p')" using step TPut by (auto simp: tb_step_def)
    show ?thesis
    proof (cases "too_many V s gs")
      case True
      then show ?thesis using tb_put(1) [OF s gs pms, of outer "(t, p)"] put "in" by (simp add: same_limits_def)
    next
      case False
      from tb_put(2) [OF s gs pms False, of outer "(t, p)"] put have "t' = t" "p' = p" "same_limits s s'" "set (tb_roots s') = set (tb_roots s) \<union> root_encs C gs" by auto
      then show ?thesis using "in" by (auto simp: inside_def same_limits_def)
    qed
  next
    case (TDelete gs)
    have gs: "gs \<noteq> []" "\<forall>k \<in> set gs. txn_key c k" using ks TDelete by simp_all
    obtain r where del: "tb_deleteMulti V s gs = Some (r, s')" "t' = t" "p' = p" using step TDelete by (auto simp: tb_step_def)
    show ?thesis
    proof (cases "too_many V s gs")
      case True
      then show ?thesis using tb_delete(1) [OF s gs] del "in" by (simp add: same_limits_def)
    next
      case False
      from tb_delete(2) [OF s gs False] del have "same_limits s s'" "set (tb_roots s') = set (tb_roots s) \<union> root_encs C gs" by auto
      then show ?thesis using "in" del(2,3) by (auto simp: inside_def same_limits_def)
    qed
  qed
qed

lemma nested_steps:
  assumes "inv_ok s" "inv_ok t" "pinv p" "\<forall>op \<in> set ops. txn_op_ok c op" "inside t s"
  shows "\<exists>s' t' p'. tb_steps V outer ops (s, t, p) = Some (s', t', p') \<and> inv_ok s' \<and> inv_ok t' \<and> pinv p' \<and> pabs p' = pabs p \<and>
    outer_same t t' \<and> inside t' s' \<and> same_limits s s' \<and>
    (view_on s' (view_on t (pabs p)), set (tb_roots s'), sizes_of s') =
      foldl (spec_step C (rootLimit s)) (view_on s (view_on t (pabs p)), set (tb_roots s), sizes_of s) ops"
  using assms
proof (induction ops arbitrary: s t p)
  case Nil
  then show ?case by (simp add: same_limits_def)
next
  case (Cons op ops)
  have op: "txn_op_ok c op" "\<forall>op \<in> set ops. txn_op_ok c op" using Cons.prems(4) by simp_all
  from txn.step_spec [OF outer_reader, of s "(t, p)" op] Cons.prems(1,2,3) op(1) obtain s1 t1 p1 where
    s1: "tb_step V outer op (s, t, p) = Some (s1, t1, p1)" "inv_ok s1" "inv_ok t1" "pinv p1" "same_limits s s1"
    "(view_on s1 (tb_view V babs pabs t p), set (tb_roots s1), sizes_of s1) = spec_step C (rootLimit s) (view_on s (tb_view V babs pabs t p), set (tb_roots s), sizes_of s) op"
    by auto
  have o1: "outer_same t t1" "inside t1 s1" and p1: "pabs p1 = pabs p" using nested_step [OF Cons.prems(1,2,3) op(1) Cons.prems(5) s1(1)] by simp_all
  from Cons.IH [OF s1(2,3,4) op(2) o1(2)] obtain s2 t2 p2 where s2: "tb_steps V outer ops (s1, t1, p1) = Some (s2, t2, p2)" "inv_ok s2" "inv_ok t2" "pinv p2"
    "pabs p2 = pabs p1" "outer_same t1 t2" "inside t2 s2" "same_limits s1 s2"
    "(view_on s2 (view_on t1 (pabs p1)), set (tb_roots s2), sizes_of s2) =
      foldl (spec_step C (rootLimit s1)) (view_on s1 (view_on t1 (pabs p1)), set (tb_roots s1), sizes_of s1) ops" by blast
  have "view_on t1 (pabs p1) = view_on t (pabs p)" "rootLimit s1 = rootLimit s" "same_limits s s2" "outer_same t t2"
    using o1 p1 s1(5) s2(6,8) by (simp_all add: same_limits_def)
  then show ?case using s1 s2 p1 by (intro exI [of _ s2] exI [of _ t2] exI [of _ p2]) (simp add: tb_view_def)
qed

end

lemma distinct_singleton: "distinct xs \<Longrightarrow> set xs = {x} \<Longrightarrow> xs = [x]"
  by (cases xs rule: remdups_adj.cases) auto

context txn_buffer begin

text \<open>A buffer whose only write is an entity without properties.\<close>

lemma empty_effect:
  assumes t: "keyToSize (entState t) = [(enc C (toks k), 0)]" "tb_kc t = c" "binv (bufDS t)" and k: "txn_key c k"
    and b: "\<forall>k'. txn_key c k' \<longrightarrow> (babs (bufDS t) (toks k') \<noteq> None \<longleftrightarrow> k' = k)" "babs (bufDS t) (toks k) = Some Map.empty"
  shows "\<exists>pm. effect V t = Some ([pm], [k], [k]) \<and> putable pm \<and> saved pm = Map.empty"
proof -
  obtain fq where fq: "Finalize (NewQuery '''') = Inr fq" unfolding Finalize_def finalizeImpl_def all_query option.case sum.case by blast
  obtain res where res: "ri_Run (t_buf V) (bufDS t) fq = Some ((res, None), bufDS t)" "distinct (map fst res)"
    "fst ` set res = {k. txn_key c k \<and> babs (bufDS t) (toks k) \<noteq> None}"
    "\<forall>(k, v) \<in> set res. \<exists>pm. v = Some pm \<and> putable pm \<and> saved pm = map_of pm \<and> map_of pm = in_context c (the (babs (bufDS t) (toks k)))"
    using buf.dump [OF t(3) fq] by blast
  have "set (map fst res) = {k}" using res(3) b(1) k by auto
  then have "map fst res = [k]" using distinct_singleton [OF res(2)] by blast
  then obtain v where v: "res = [(k, v)]" by auto
  then obtain pm where pm: "v = Some pm" "putable pm" "saved pm = Map.empty" using res(4) b(2) by (auto simp: in_context_def)
  have "mset (t_range V [(enc C (toks k), 0)]) = mset [(enc C (toks k), 0)]" using V_ok unfolding env_ok_def by blast
  then have "t_range V [(enc C (toks k), 0)] = [(enc C (toks k), 0)]" by simp
  moreover have "\<lparr>kc = c, toks = toks k\<rparr> = k" using txn_keyD(1) [OF k] by simp
  ultimately have "effect V t = Some ([pm], [k], [k])"
    using fq res(1) v pm(1) t read_enc [OF txn_keyD(3) [OF k]] by (simp add: effect_def)
  then show ?thesis using pm(2,3) by blast
qed

lemma get_total_view:
  assumes t: "inv_ok t" and P: "raw_store P pinv pabs c" and p: "pinv p" and ks: "\<forall>k \<in> set ks. txn_key c k" and few: "\<not> too_many V t ks"
  shows "\<exists>rs t' p'. tb_getMulti V P t p ks = Some (Inr rs, t', p') \<and> after_read t t' ks \<and> pinv p' \<and> pabs p' = pabs p \<and>
    list_all2 (\<lambda>k r. reads (view_on t (pabs p) (toks k)) r) ks rs"
proof (cases "misses t ks = []")
  case True
  from tb_get(2) [OF t ks few True, of P p "pabs p"] p show ?thesis by blast
next
  case False
  have mk: "\<forall>k \<in> set (misses t ks). txn_key c k" using ks by simp
  from raw_store.get_total [OF P p False mk] obtain prs p' where g: "ri_GetMulti P p (misses t ks) = Some (Inr prs, p')"
    "list_all2 (\<lambda>k r. reads (pabs p (toks k)) r) (misses t ks) prs" by blast
  have p': "pinv p'" "pabs p' = pabs p" using raw_reader.get_reads [of P pinv pabs c p "misses t ks"] P p False mk g(1) by (auto simp: raw_store_def)
  from tb_get(4) [OF t ks few False g, of "pabs p"] obtain t' rs where r: "tb_getMulti V P t p ks = Some (Inr rs, t', p')" "after_read t t' ks"
    "list_all2 (\<lambda>k r. if sizes_of t (enc C (toks k)) = None then reads (pabs p (toks k)) r else reads (view_on t (pabs p) (toks k)) r) ks rs" by blast
  have "list_all2 (\<lambda>k r. reads (view_on t (pabs p) (toks k)) r) ks rs"
  proof (rule list.rel_mono_strong [OF r(3)])
    fix k x assume "k \<in> set ks" and x: "if sizes_of t (enc C (toks k)) = None then reads (pabs p (toks k)) x else reads (view_on t (pabs p) (toks k)) x"
    then have "entity_toks (toks k)" using ks txn_keyD(3) by blast
    then show "reads (view_on t (pabs p) (toks k)) x" using x by (auto simp: overlay_def split: if_splits)
  qed
  then show ?thesis using r(1,2) p' by blast
qed

end

section \<open>The in-memory datastore as buffer and as parent\<close>

text \<open>The filter's own buffer is \<^verbatim>\<open>memory.NewDatastore\<close> behind the check filter; over an in-memory datastore the parent is one too.\<close>

definition mem_txnenv ::
  "'s dsenv \<Rightarrow> ranges \<Rightarrow> ('s dataStoreData \<Rightarrow> Key list \<Rightarrow> ((rierror + (rierror + Key) list) \<times> 's dataStoreData) option) \<Rightarrow> KeyContext \<Rightarrow>
   (byte list list \<Rightarrow> byte list list) \<Rightarrow> ((byte list \<times> int) list \<Rightarrow> (byte list \<times> int) list) \<Rightarrow> ('s, 's dataStoreData) txnenv" where
  "mem_txnenv E R allocateIDs c it rng =
     \<lparr>t_env = E, t_buf = checkFilter c (mem_interface E R allocateIDs c), t_iter = it, t_range = rng\<rparr>"

locale mem_txn = mem_datastore E R allocateIDs c
  for E :: "'s dsenv" and R allocateIDs c +
  fixes it :: "byte list list \<Rightarrow> byte list list" and rng :: "(byte list \<times> int) list \<Rightarrow> (byte list \<times> int) list"
  assumes orders: "mset (it xs) = mset xs" "mset (rng ys) = mset ys"

sublocale mem_txn \<subseteq> mt: txn "mem_txnenv E R allocateIDs c it rng" "buf_ok E (Namespace c)" "buf_abs E (Namespace c)" c
  "checkFilter c (mem_interface E R allocateIDs c)" "buf_ok E (Namespace c)" "buf_abs E (Namespace c)"
proof -
  have "raw_buffer (t_buf (mem_txnenv E R allocateIDs c it rng)) (buf_ok E (Namespace c)) (buf_abs E (Namespace c)) c"
    using mem.raw_buffer_axioms by (simp add: mem_txnenv_def)
  moreover have "env_ok (mem_txnenv E R allocateIDs c it rng)"
    using orders cmpbin_reads by (simp add: env_ok_def mem_txnenv_def)
  ultimately show "txn (mem_txnenv E R allocateIDs c it rng) (buf_ok E (Namespace c)) (buf_abs E (Namespace c)) c
      (checkFilter c (mem_interface E R allocateIDs c)) (buf_ok E (Namespace c)) (buf_abs E (Namespace c))"
    using mem.raw_reader_axioms by (simp add: txn_def txn_buffer_def txn_buffer_axioms_def)
qed

text \<open>An instance that runs: the simple store, and maps that Go visits from the end.\<close>

definition ex_alloc :: "'s \<Rightarrow> Key list \<Rightarrow> ((rierror + (rierror + Key) list) \<times> 's) option" where
  "ex_alloc d ks = Some (Inr (map Inr ks), d)"

interpretation ex_mt: mem_txn simple_env ex_ranges ex_alloc "MkKeyContext ''app'' ''n''" rev rev
  by unfold_locales simp_all

abbreviation ex_kc :: KeyContext where "ex_kc \<equiv> MkKeyContext ''app'' ''n''"
abbreviation ex_V where "ex_V \<equiv> mem_txnenv simple_env ex_ranges ex_alloc ex_kc rev rev"
abbreviation ex_P where "ex_P \<equiv> checkFilter ex_kc (mem_interface simple_env ex_ranges ex_alloc ex_kc)"
abbreviation ex_inv where "ex_inv \<equiv> buf_ok simple_env (Namespace ex_kc)"
abbreviation ex_abs where "ex_abs \<equiv> buf_abs simple_env (Namespace ex_kc)"
abbreviation ex_new where "ex_new \<equiv> NewDatastore simple_env ''app''"
abbreviation ex_tb where "ex_tb \<equiv> newTxnBuf ex_new ex_kc False None"

lemma ex_txn_ok:
  "raw_buffer (t_buf ex_V) ex_inv ex_abs ex_kc" "env_ok ex_V" "raw_store ex_P ex_inv ex_abs ex_kc" "raw_reader ex_P ex_inv ex_abs ex_kc"
  "ex_inv ex_new" "\<forall>ts. ex_abs ex_new ts = None" "tb_inv ex_V ex_inv ex_abs ex_kc ex_tb"
proof -
  show B: "raw_buffer (t_buf ex_V) ex_inv ex_abs ex_kc" "env_ok ex_V" by (rule ex_mt.mt.buf.raw_buffer_axioms ex_mt.mt.V_ok)+
  show "raw_reader ex_P ex_inv ex_abs ex_kc" by (rule raw_store.axioms(1) [OF raw_buffer.axioms(1) [OF simple_mem.mem.raw_buffer_axioms]])
  show "raw_store ex_P ex_inv ex_abs ex_kc" by (rule raw_buffer.axioms(1) [OF simple_mem.mem.raw_buffer_axioms])
  show new: "ex_inv ex_new" "\<forall>ts. ex_abs ex_new ts = None" using simple_mem.new_buffer by blast+
  show "tb_inv ex_V ex_inv ex_abs ex_kc ex_tb" by (rule ex_mt.mt.new_inv(1) [OF new])
qed

lemma ex_key_txn: "txn_key ex_kc (ex_key ''n'')"
  using ex_ok(1) [of "''n''"] by (simp add: txn_key_def entity_toks_def ex_key_def mkTok_def tok_valid_def KeyTok_Special_def KeyTok_IsIncomplete_def)

lemma ex_pm_ok: "putable ex_pm" "solid (saved ex_pm)" "saved ex_pm \<noteq> Map.empty" "in_context c (saved ex_pm) \<noteq> Map.empty"
proof -
  have "saved ex_pm ''a'' \<noteq> None" by (simp add: saved_def ex_pm_def pm_Save_eq isMetaKey_def)
  then show "putable ex_pm" "solid (saved ex_pm)" "saved ex_pm \<noteq> Map.empty" "in_context c (saved ex_pm) \<noteq> Map.empty"
    using ex_ok(3) by (auto simp: solid_def in_context_def fun_eq_iff)
qed

lemma ex_op_ok: "\<forall>op \<in> set [TPut [ex_key ''n''] [ex_pm]]. txn_op_ok ex_kc op"
  using ex_key_txn ex_pm_ok by (simp add: txn_op_ok_def)

section \<open>Properties\<close>

lemma txn_bufferI: "raw_buffer (t_buf V) binv babs c \<Longrightarrow> env_ok V \<Longrightarrow> txn_buffer V binv babs c"
  by (simp add: txn_buffer_def txn_buffer_axioms_def)

text \<open>
  C7. A buffered transaction refines a map on top of its parent. As long as the entity groups it has touched stay within its limit,
  \<^verbatim>\<open>getMulti\<close> returns for each key the transaction's own write, or else the parent's entity; \<^verbatim>\<open>putMulti\<close> and \<^verbatim>\<open>deleteMulti\<close>
  change exactly the view of the given keys and do not touch the parent. Beyond the limit each of them fails with
  \<^verbatim>\<open>ErrTooManyRoots\<close> and changes nothing. The limit is on the number of distinct roots, and entities that are put have a property.
\<close>

theorem txn_buffer_refines:
  assumes "raw_buffer (t_buf V) binv babs c" "env_ok V" "raw_store P pinv pabs c" "tb_inv V binv babs c t" "pinv p"
    and "ks \<noteq> []" "\<forall>k \<in> set ks. txn_key c k" "length pms = length ks" "\<forall>pm \<in> set pms. putable pm \<and> solid (saved pm)"
  shows "if card (set (tb_roots t) \<union> root_encs (t_cmpbin V) ks) > rootLimit t
    then tb_getMulti V P t p ks = Some (Inl ErrTooManyRoots, t, p) \<and>
      tb_putMulti V P t p ks pms = Some (Inl ErrTooManyRoots, t, p) \<and>
      tb_deleteMulti V t ks = Some (Inl ErrTooManyRoots, t)
    else
      (\<exists>rs t' p'. tb_getMulti V P t p ks = Some (Inr rs, t', p') \<and> tb_inv V binv babs c t' \<and> pinv p' \<and> pabs p' = pabs p \<and>
         tb_view V babs pabs t' p' = tb_view V babs pabs t p \<and>
         list_all2 (\<lambda>k r. reads (tb_view V babs pabs t p (toks k)) r) ks rs) \<and>
      (\<exists>t'. tb_putMulti V P t p ks pms = Some (Inr (map (\<lambda>k. (Some k, None)) ks), t', p) \<and> tb_inv V binv babs c t' \<and>
         tb_view V babs pabs t' p = fold (\<lambda>(k, pm) w. w(toks k := Some (saved pm))) (zip ks pms) (tb_view V babs pabs t p)) \<and>
      (\<exists>t'. tb_deleteMulti V t ks = Some (Inr (map (\<lambda>_. None) ks), t') \<and> tb_inv V binv babs c t' \<and>
         tb_view V babs pabs t' p = fold (\<lambda>k w. w(toks k := None)) ks (tb_view V babs pabs t p))"
proof -
  note B = txn_bufferI [OF assms(1,2)] and ks = assms(6,7) and pms = assms(8,9)
  have few: "card (set (tb_roots t) \<union> root_encs (t_cmpbin V) ks) > rootLimit t \<longleftrightarrow> too_many V t ks" by (simp add: too_many_def)
  show ?thesis
  proof (cases "too_many V t ks")
    case True
    then show ?thesis unfolding few
      using txn_buffer.tb_get(1) [OF B assms(4) ks(2), of P p] txn_buffer.tb_put(1) [OF B assms(4) ks pms, of P p]
        txn_buffer.tb_delete(1) [OF B assms(4) ks] by simp
  next
    case False
    have "\<exists>rs t' p'. tb_getMulti V P t p ks = Some (Inr rs, t', p') \<and> tb_inv V binv babs c t' \<and> pinv p' \<and> pabs p' = pabs p \<and>
         tb_view V babs pabs t' p' = tb_view V babs pabs t p \<and> list_all2 (\<lambda>k r. reads (tb_view V babs pabs t p (toks k)) r) ks rs"
      using txn_buffer.get_total_view [OF B assms(4,3,5) ks(2) False] unfolding tb_view_def by metis
    moreover have "\<exists>t'. tb_putMulti V P t p ks pms = Some (Inr (map (\<lambda>k. (Some k, None)) ks), t', p) \<and> tb_inv V binv babs c t' \<and>
         tb_view V babs pabs t' p = fold (\<lambda>(k, pm) w. w(toks k := Some (saved pm))) (zip ks pms) (tb_view V babs pabs t p)"
      using txn_buffer.tb_put(2) [OF B assms(4) ks pms False, of P p] unfolding tb_view_def by blast
    moreover have "\<exists>t'. tb_deleteMulti V t ks = Some (Inr (map (\<lambda>_. None) ks), t') \<and> tb_inv V binv babs c t' \<and>
         tb_view V babs pabs t' p = fold (\<lambda>k w. w(toks k := None)) ks (tb_view V babs pabs t p)"
      using txn_buffer.tb_delete(2) [OF B assms(4) ks False] unfolding tb_view_def by blast
    ultimately show ?thesis unfolding few using False by (simp only: if_False)
  qed
qed

theorem txn_buffer_refines_witness:
  "\<exists>t'. tb_putMulti ex_V ex_P ex_tb ex_new [ex_key ''n''] [ex_pm] = Some (Inr [(Some (ex_key ''n''), None)], t', ex_new) \<and>
     tb_view ex_V ex_abs ex_abs t' ex_new (toks (ex_key ''n'')) = Some (saved ex_pm)"
proof -
  have "\<not> card (set (tb_roots ex_tb) \<union> root_encs (t_cmpbin ex_V) [ex_key ''n'']) > rootLimit ex_tb" by (simp add: newTxnBuf_def)
  then show ?thesis
    using txn_buffer_refines [where V = ex_V and binv = ex_inv and babs = ex_abs and c = ex_kc and P = ex_P and pinv = ex_inv and pabs = ex_abs and p = ex_new and t = ex_tb and
        ks = "[ex_key ''n'']" and pms = "[ex_pm]", OF ex_txn_ok(1,2,3,7,5)] ex_key_txn ex_pm_ok(1,2) by auto
qed

text \<open>
  C8. A transaction commits exactly what it wrote. Run any sequence of reads, puts and deletes (of complete keys of the transaction's
  context, and of maps that can be stored and have a property) in a new buffered transaction and commit it to a datastore whose own operations on such keys
  do not fail: no operation panics, the commit reports no error, and afterwards every entity that the sequence put or deleted is what the
  sequence leaves of a map under the limit on entity groups (25 for a cross-group transaction, otherwise 1; an operation beyond
  it has no effect), except that keys among its property values are moved to the transaction's own context. Every other entity of the
  datastore is unchanged, whichever of the parallel put and delete comes first.
\<close>

theorem txn_commit_exact:
  assumes "raw_buffer (t_buf V) binv babs c" "env_ok V" "raw_store P pinv pabs c" "pinv p"
    and "binv b" "\<forall>ts. babs b ts = None" "\<forall>op \<in> set ops. txn_op_ok c op"
  shows "\<exists>p' w roots sz. withTxnBuf_root V P putFirst b c xg (\<lambda>tp. map_option (Pair None) (tb_steps V P ops tp)) p = Some ([], p') \<and> pinv p' \<and>
    foldl (spec_step (t_cmpbin V) (if xg then 25 else 1)) (\<lambda>ts. if entity_toks ts then pabs p ts else None, {}, Map.empty) ops = (w, roots, sz) \<and>
    (\<forall>ts. pabs p' ts =
       (if entity_toks ts \<and> sz (enc (t_cmpbin V) ts) \<noteq> None then map_option (in_context c) (w ts) else pabs p ts))"
proof -
  note B = txn_bufferI [OF assms(1,2)]
  have T: "txn V binv babs c P pinv pabs" using B assms(3) by (simp add: txn_def raw_store_def)
  let ?t = "newTxnBuf b c xg None"
  note n = txn.new_inv [OF T assms(5,6)]
  obtain t' p1 where s: "tb_steps V P ops (?t, p) = Some (t', p1)" "tb_inv V binv babs c t'" "pinv p1" "pabs p1 = pabs p"
    "(overlay (t_cmpbin V) (sizes_of t') (babs (bufDS t')) (pabs p), set (tb_roots t'), sizes_of t') =
       foldl (spec_step (t_cmpbin V) (rootLimit ?t)) (overlay (t_cmpbin V) (sizes_of ?t) (babs (bufDS ?t)) (pabs p), set (tb_roots ?t), sizes_of ?t) ops"
    using txn.steps_spec [OF T n(1) assms(4,7)] by blast
  obtain p' where p': "commitToReal V P putFirst t' p1 = Some ([], p')" "pinv p'"
    "pabs p' = commit_view (t_cmpbin V) c (sizes_of t') (babs (bufDS t')) (pabs p)"
    using txn_buffer.commit_real [OF B s(2) assms(3) s(3), of putFirst] unfolding s(4) by blast
  have lim: "rootLimit ?t = (if xg then 25 else 1)" "set (tb_roots ?t) = {}" by (simp_all add: newTxnBuf_def XGTransactionGroupLimit_def)
  have "withTxnBuf_root V P putFirst b c xg (\<lambda>tp. map_option (Pair None) (tb_steps V P ops tp)) p = Some ([], p')"
    using s(1) p'(1) by (simp add: withTxnBuf_root_def)
  moreover have "pabs p' ts = (if entity_toks ts \<and> sizes_of t' (enc (t_cmpbin V) ts) \<noteq> None
      then map_option (in_context c) (overlay (t_cmpbin V) (sizes_of t') (babs (bufDS t')) (pabs p) ts) else pabs p ts)" for ts
    unfolding p'(3) by (rule txn.commit_view_eq [OF T]) simp
  moreover note s(5) [unfolded lim n(3) txn.new_view [OF T], symmetric]
  ultimately show ?thesis using p'(2) by blast
qed

theorem txn_commit_exact_witness:
  "\<exists>p'. withTxnBuf_root ex_V ex_P True ex_new ex_kc False (\<lambda>tp. map_option (Pair None) (tb_steps ex_V ex_P [TPut [ex_key ''n''] [ex_pm]] tp)) ex_new =
     Some ([], p') \<and> (\<forall>ts. ex_abs p' ts = (if ts = toks (ex_key ''n'') then Some (in_context ex_kc (saved ex_pm)) else None))"
proof -
  let ?C = "t_cmpbin ex_V" and ?ts = "toks (ex_key ''n'')"
  have ts: "entity_toks ?ts" using ex_key_txn by (simp add: txn_key_def)
  have C: "cmpbin_ok ?C" using ex_txn_ok(2) by (simp add: env_ok_def)
  have s: "foldl (spec_step C (if False then 25 else 1)) (w, {}, Map.empty) [TPut [ex_key ''n''] [ex_pm]] =
      (w(?ts := Some (saved ex_pm)), root_encs C [ex_key ''n''], [enc C ?ts \<mapsto> pm_EstimateSize ex_pm])" for C w
    by (simp add: spec_step_def)
  obtain p' w roots sz where p': "withTxnBuf_root ex_V ex_P True ex_new ex_kc False (\<lambda>tp. map_option (Pair None) (tb_steps ex_V ex_P [TPut [ex_key ''n''] [ex_pm]] tp)) ex_new =
      Some ([], p')"
    "((\<lambda>ts. if entity_toks ts then ex_abs ex_new ts else None)(?ts := Some (saved ex_pm)), root_encs ?C [ex_key ''n''], [enc ?C ?ts \<mapsto> pm_EstimateSize ex_pm]) = (w, roots, sz)"
    "\<forall>ts. ex_abs p' ts = (if entity_toks ts \<and> sz (enc ?C ts) \<noteq> None then map_option (in_context ex_kc) (w ts) else ex_abs ex_new ts)"
    using txn_commit_exact [where V = ex_V and binv = ex_inv and babs = ex_abs and c = ex_kc and P = ex_P and pinv = ex_inv and pabs = ex_abs and p = ex_new and b = ex_new and
        putFirst = True and xg = False, OF ex_txn_ok(1,2,3,5,5,6) ex_op_ok] unfolding s by blast
  have w: "w ?ts = Some (saved ex_pm)" "sz = [enc ?C ?ts \<mapsto> pm_EstimateSize ex_pm]"
    using p'(2) by (auto simp del: fun_upd_apply simp: fun_upd_same)
  have "ex_abs p' ts = (if ts = ?ts then Some (in_context ex_kc (saved ex_pm)) else None)" for ts
    using p'(3) [rule_format, of ts] ts w enc_entity_inj [OF C _ ts, of ts] ex_txn_ok(6) by (auto split: if_splits)
  then show ?thesis using p'(1) by blast
qed

lemma canApplyLocked_eq:
  assumes "env_ok V" "st_inv (entState t)" "st_inv (entState s)"
  shows "canApplyLocked V t s =
    (if int (card (dom (sizes_of t ++ sizes_of s))) > writeCountBudget t \<or> st_size (sizes_of t ++ sizes_of s) > sizeBudget t
     then Some ErrTransactionTooLarge else None)"
proof -
  let ?xs = "t_range V (keyToSize (entState s))"
  define st where "st = foldl (\<lambda>st (k, v). st_set st k v) (st_dup (entState t)) ?xs"
  have mset: "mset ?xs = mset (keyToSize (entState s))" using assms(1) by (simp add: env_ok_def)
  have dist: "distinct (map fst (keyToSize (entState s)))" using assms(3) by (simp add: st_inv_def)
  have dist': "distinct (map fst ?xs)" using dist mset by (metis mset_eq_imp_distinct_iff mset_map)
  have map: "map_of ?xs = sizes_of s" using map_of_inject_set [OF dist' dist] mset mset_eq_setD by blast
  have st: "st_inv st" using st_inv_sets [of "st_dup (entState t)" "\<lambda>v. v" ?xs] st_inv_dup [OF assms(2)] by (simp add: st_def)
  have "map_of (keyToSize st) = foldl (\<lambda>m (k, v). m(k \<mapsto> v)) (sizes_of t) ?xs"
    using st_sets_map [of "\<lambda>v. v" "st_dup (entState t)" ?xs] st_inv_dup [OF assms(2)] by (simp add: st_def del: fun_upd_apply)
  then have m: "map_of (keyToSize st) = sizes_of t ++ sizes_of s" using foldl_upd_distinct [OF dist', of "sizes_of t"] map by simp
  have "st_total st = st_size (sizes_of t ++ sizes_of s)" "numWrites st = card (dom (sizes_of t ++ sizes_of s))"
    using st m numWrites_card [OF st] by (simp_all add: st_inv_def)
  then show ?thesis by (simp add: canApplyLocked_def flip: st_def)
qed

text \<open>
  C9. A nested transaction commits into the one around it. Any sequence of operations (as for a commit to a datastore) in a transaction inside another one runs
  without a panic on the outer transaction's view. At the end \<^verbatim>\<open>ErrTransactionTooLarge\<close> is returned exactly when the keys written by
  either transaction are more than the write budget of the outer one, or their sizes (key bytes plus the estimated size of the latest value)
  sum to more than its size budget; then the outer view is unchanged. Otherwise the commit succeeds, and in the outer view each key that the
  nested transaction put or deleted becomes what it saw (with keys among the property values in the transaction's context), and nothing
  else changes. In particular the commit never hits the limit on entity groups, although it would panic there. The datastore below is not changed.
\<close>

theorem txn_nested_exact:
  assumes "raw_buffer (t_buf V) binv babs c" "env_ok V" "raw_reader P pinv pabs c" "tb_inv V binv babs c t" "pinv p"
    and "binv b" "\<forall>ts. babs b ts = None" "\<forall>op \<in> set ops. txn_op_ok c op"
  shows "\<exists>err t' p' w roots sz.
    withTxnBuf_nested V P b c xg (\<lambda>sp. map_option (Pair None) (tb_steps V (checkFilter c (dsTxnBuf V P)) ops sp)) (t, p) = Some (err, t', p') \<and>
    tb_inv V binv babs c t' \<and> pinv p' \<and> pabs p' = pabs p \<and> same_limits t t' \<and>
    foldl (spec_step (t_cmpbin V) (rootLimit t)) (tb_view V babs pabs t p, set (tb_roots t), Map.empty) ops = (w, roots, sz) \<and>
    err = (if int (card (dom (sizes_of t ++ sz))) > writeCountBudget t \<or> st_size (sizes_of t ++ sz) > sizeBudget t
           then Some ErrTransactionTooLarge else None) \<and>
    (\<forall>ts. tb_view V babs pabs t' p' ts =
       (if err = None \<and> entity_toks ts \<and> sz (enc (t_cmpbin V) ts) \<noteq> None then map_option (in_context c) (w ts) else tb_view V babs pabs t p ts))"
proof -
  note B = txn_bufferI [OF assms(1,2)]
  have T: "txn V binv babs c P pinv pabs" using B assms(3) by (simp add: txn_def)
  let ?C = "t_cmpbin V" and ?s = "newTxnBuf b c xg (Some t)" and ?W = "tb_view V babs pabs t p"
  let ?v = "\<lambda>t b. overlay ?C (sizes_of t) (babs (bufDS t)) b"
  note n = txn.new_inv [OF T assms(6,7)]
  have "in": "txn.inside t ?s" by (simp add: txn.inside_def [OF T] newTxnBuf_def)
  obtain s' t1 p1 where s: "tb_steps V (checkFilter c (dsTxnBuf V P)) ops (?s, t, p) = Some (s', t1, p1)" "tb_inv V binv babs c s'" "tb_inv V binv babs c t1"
    "pinv p1" "pabs p1 = pabs p" "same_limits t t1" "entState t1 = entState t" "babs (bufDS t1) = babs (bufDS t)" "txn.inside t1 s'"
    "(?v s' (?v t (pabs p)), set (tb_roots s'), sizes_of s') = foldl (spec_step ?C (rootLimit ?s)) (?v ?s (?v t (pabs p)), set (tb_roots ?s), sizes_of ?s) ops"
    using txn.nested_steps [OF T n(2) [OF assms(4)] assms(4,5,8) "in"] by blast
  have v1: "?v t1 (pabs p1) = ?W" using s(5,7,8) by (simp add: tb_view_def)
  have new: "?v ?s (?v t (pabs p)) = ?W" by (auto simp: n(3) overlay_def tb_view_def)
  have w: "foldl (spec_step ?C (rootLimit t)) (?W, set (tb_roots t), Map.empty) ops = (?v s' ?W, set (tb_roots s'), sizes_of s')"
    using s(10) [unfolded new, unfolded n(3)] by (simp add: newTxnBuf_def tb_view_def)
  have st: "st_inv (entState t1)" "st_inv (entState s')" using s(2,3) by (simp_all add: tb_inv_def)
  let ?err = "if int (card (dom (sizes_of t ++ sizes_of s'))) > writeCountBudget t \<or> st_size (sizes_of t ++ sizes_of s') > sizeBudget t
    then Some ErrTransactionTooLarge else None"
  have can: "canApplyLocked V t1 s' = ?err" using canApplyLocked_eq [OF assms(2) st] s(6,7) by (simp add: same_limits_def)
  show ?thesis
  proof (cases "canApplyLocked V t1 s'")
    case None
    have "set (tb_roots t1) \<subseteq> set (tb_roots s')" "rootLimit s' = rootLimit t1" using s(9) by (simp_all add: txn.inside_def [OF T])
    from txn_buffer.commit_nested [OF B s(3,2) this, of P p1] obtain t2 where t2: "commitLocked V P t1 p1 s' = Some (t2, p1)" "tb_inv V binv babs c t2" "same_limits t1 t2"
      "\<forall>b. ?v t2 b = commit_view ?C c (sizes_of s') (babs (bufDS s')) (?v t1 b)" by blast
    have "withTxnBuf_nested V P b c xg (\<lambda>sp. map_option (Pair None) (tb_steps V (checkFilter c (dsTxnBuf V P)) ops sp)) (t, p) = Some (None, t2, p1)"
      using s(1) None t2(1) by (simp add: withTxnBuf_nested_def)
    moreover have "tb_view V babs pabs t2 p1 ts =
        (if entity_toks ts \<and> sizes_of s' (enc ?C ts) \<noteq> None then map_option (in_context c) (?v s' ?W ts) else ?W ts)" for ts
      unfolding tb_view_def [of V babs pabs t2] t2(4) [rule_format] v1 by (rule txn.commit_view_eq [OF T]) simp
    moreover have "same_limits t t2" using s(6) t2(3) by (simp add: same_limits_def)
    ultimately show ?thesis using t2(2) s(4,5) w None can
      by (intro exI [of _ None] exI [of _ t2] exI [of _ p1] exI [of _ "?v s' ?W"] exI [of _ "set (tb_roots s')"] exI [of _ "sizes_of s'"]) (simp split: if_splits)
  next
    case (Some e)
    have "withTxnBuf_nested V P b c xg (\<lambda>sp. map_option (Pair None) (tb_steps V (checkFilter c (dsTxnBuf V P)) ops sp)) (t, p) = Some (Some e, t1, p1)"
      using s(1) Some by (simp add: withTxnBuf_nested_def)
    moreover have "tb_view V babs pabs t1 p1 = ?W" using v1 by (simp add: tb_view_def)
    ultimately show ?thesis using s(3-6) w Some can
      by (intro exI [of _ "Some e"] exI [of _ t1] exI [of _ p1] exI [of _ "?v s' ?W"] exI [of _ "set (tb_roots s')"] exI [of _ "sizes_of s'"]) (simp split: if_splits)
  qed
qed

theorem txn_nested_exact_witness:
  "\<exists>t' p'. withTxnBuf_nested ex_V ex_P ex_new ex_kc False
       (\<lambda>sp. map_option (Pair None) (tb_steps ex_V (checkFilter ex_kc (dsTxnBuf ex_V ex_P)) [TPut [ex_key ''n''] [ex_pm]] sp)) (ex_tb, ex_new) = Some (None, t', p') \<and>
     ex_abs p' = ex_abs ex_new \<and> tb_view ex_V ex_abs ex_abs t' p' (toks (ex_key ''n'')) = Some (in_context ex_kc (saved ex_pm))"
proof -
  let ?C = "t_cmpbin ex_V" and ?ts = "toks (ex_key ''n'')" and ?W = "tb_view ex_V ex_abs ex_abs ex_tb ex_new"
  let ?sz = "[enc ?C ?ts \<mapsto> pm_EstimateSize ex_pm]"
  have ts: "entity_toks ?ts" using ex_key_txn by (simp add: txn_key_def)
  have s: "foldl (spec_step ?C (rootLimit ex_tb)) (?W, set (tb_roots ex_tb), Map.empty) [TPut [ex_key ''n''] [ex_pm]] =
      (?W(?ts := Some (saved ex_pm)), root_encs ?C [ex_key ''n''], ?sz)"
    by (simp add: spec_step_def newTxnBuf_def)
  have "length (enc ?C ?ts) \<le> 1000" "pm_EstimateSize ex_pm \<le> 1000"
    by (simp_all add: mem_txnenv_def simple_env_def simple_cmpbin_def enc_def WriteKey_def Key_Split_def WriteKeyTok_def mkTok_def ex_key_def ex_pm_def
        pm_EstimateSize_def isMetaKey_def PropertyData_estimateSize_def Property_EstimateSize_def enc_bytes_def length_enc_nat)
  then have small: "\<not> (int (card (dom (sizes_of ex_tb ++ ?sz))) > writeCountBudget ex_tb \<or> st_size (sizes_of ex_tb ++ ?sz) > sizeBudget ex_tb)"
    by (simp add: newTxnBuf_def st_empty_def st_size_def DefaultSizeBudget_def DefaultWriteCountBudget_def)
  obtain err t' p' w roots sz where r: "withTxnBuf_nested ex_V ex_P ex_new ex_kc False
       (\<lambda>sp. map_option (Pair None) (tb_steps ex_V (checkFilter ex_kc (dsTxnBuf ex_V ex_P)) [TPut [ex_key ''n''] [ex_pm]] sp)) (ex_tb, ex_new) = Some (err, t', p')"
    "ex_abs p' = ex_abs ex_new" "(?W(?ts := Some (saved ex_pm)), root_encs ?C [ex_key ''n''], ?sz) = (w, roots, sz)"
    "err = (if int (card (dom (sizes_of ex_tb ++ sz))) > writeCountBudget ex_tb \<or> st_size (sizes_of ex_tb ++ sz) > sizeBudget ex_tb
           then Some ErrTransactionTooLarge else None)"
    "\<forall>ts. tb_view ex_V ex_abs ex_abs t' p' ts =
       (if err = None \<and> entity_toks ts \<and> sz (enc ?C ts) \<noteq> None then map_option (in_context ex_kc) (w ts) else ?W ts)"
    using txn_nested_exact [where V = ex_V and binv = ex_inv and babs = ex_abs and c = ex_kc and P = ex_P and pinv = ex_inv and pabs = ex_abs and p = ex_new and t = ex_tb and b = ex_new and
        xg = False, OF ex_txn_ok(1,2,4,7,5,5,6) ex_op_ok] unfolding s by blast
  have w: "w ?ts = Some (saved ex_pm)" "sz = ?sz" using r(3) by (auto simp del: fun_upd_apply simp: fun_upd_same)
  have "err = None" using small r(4) unfolding w(2) by simp
  then show ?thesis using r(1,2) r(5) [rule_format, of ?ts] w ts by auto
qed

text \<open>
  C37. The budgets of a nested commit are exact: \<^verbatim>\<open>canApplyLocked\<close> refuses a child transaction iff the keys written by either transaction are
  more than the write budget, or the sizes (key bytes plus the estimated size of the latest value of each) sum to more than the size
  budget, in whatever order Go visits the child's writes.
\<close>

theorem canApplyLocked_exact:
  assumes "env_ok V" "st_inv (entState t)" "st_inv (entState s)"
  shows "canApplyLocked V t s =
    (if int (card (dom (sizes_of t ++ sizes_of s))) > writeCountBudget t \<or> st_size (sizes_of t ++ sizes_of s) > sizeBudget t
     then Some ErrTransactionTooLarge else None)"
  by (rule canApplyLocked_eq [OF assms])

theorem canApplyLocked_exact_witness:
  "canApplyLocked ex_V ex_tb (ex_tb\<lparr>entState := st_set (st_set st_empty [1] 5) [1, 2] 0\<rparr>) = None \<and>
   canApplyLocked ex_V (ex_tb\<lparr>writeCountBudget := 1\<rparr>) (ex_tb\<lparr>entState := st_set (st_set st_empty [1] 5) [1, 2] 0\<rparr>) = Some ErrTransactionTooLarge \<and>
   canApplyLocked ex_V (ex_tb\<lparr>sizeBudget := 7\<rparr>) (ex_tb\<lparr>entState := st_set (st_set st_empty [1] 5) [1, 2] 0\<rparr>) = Some ErrTransactionTooLarge"
proof -
  let ?st = "st_set (st_set st_empty [1] 5) [1, 2] 0" and ?m = "[[1] \<mapsto> 5, [1, 2] \<mapsto> 0] :: byte list \<rightharpoonup> int"
  have st: "st_inv ?st" "st_inv (entState (ex_tb\<lparr>entState := ?st\<rparr>))" using st_inv_set [OF st_inv_set [OF st_inv_empty]] by simp_all
  have e: "st_inv (entState ex_tb)" using st_inv_empty by (simp add: newTxnBuf_def)
  have m: "Map.empty ++ map_of (keyToSize ?st) = ?m" by (simp add: st_empty_def)
  have "dom ?m = {[1], [1, 2]}" by auto
  then have "card (dom ?m) = 2" "st_size ?m = 8" by (simp_all add: st_size_def)
  then show ?thesis
    using canApplyLocked_exact [OF ex_txn_ok(2), of ex_tb "ex_tb\<lparr>entState := ?st\<rparr>"] canApplyLocked_exact [OF ex_txn_ok(2), of "ex_tb\<lparr>writeCountBudget := 1\<rparr>" "ex_tb\<lparr>entState := ?st\<rparr>"]
      canApplyLocked_exact [OF ex_txn_ok(2), of "ex_tb\<lparr>sizeBudget := 7\<rparr>" "ex_tb\<lparr>entState := ?st\<rparr>"] st e m
    by (simp add: newTxnBuf_def st_empty_def DefaultSizeBudget_def DefaultWriteCountBudget_def del: map_of_st_set)
qed

text \<open>
  C38. An entity without properties is lost: after a put of the empty map (estimated size 0, which stands for a deletion) the
  transaction does not see the entity, and the commit both puts and deletes it, in parallel: whether it exists afterwards
  depends on which comes first.
\<close>

theorem empty_entity_lost:
  assumes "raw_buffer (t_buf V) binv babs c" "env_ok V" "raw_store P pinv pabs c" "pinv p"
    and "binv b" "\<forall>ts. babs b ts = None" "txn_key c k"
  shows "\<exists>t t' p1 p2. tb_putMulti V P (newTxnBuf b c xg None) p [k] [[]] = Some (Inr [(Some k, None)], t, p) \<and>
    tb_getMulti V P t p [k] = Some (Inr [Inl NoSuchEntity], t', p) \<and>
    commitToReal V P True t p = Some ([], p1) \<and> pabs p1 (toks k) = None \<and>
    commitToReal V P False t p = Some ([], p2) \<and> pabs p2 (toks k) = Some Map.empty"
proof -
  let ?C = "t_cmpbin V" and ?t = "newTxnBuf b c xg None" and ?e = "enc (t_cmpbin V) (toks k)"
  note B = txn_bufferI [OF assms(1,2)]
  have T: "txn V binv babs c P pinv pabs" using B assms(3) by (simp add: txn_def raw_store_def)
  note inv = txn.new_inv(1) [OF T assms(5,6), of xg] and k = txn_keyD [OF assms(7)]
  have sv: "saved [] = Map.empty" "putable []" by (simp_all add: saved_def pm_Save_eq putable_def pm_storable_def pm_wf_def ReadPropertyMapReasonableLimit_def)
  have "\<not> too_many V ?t [k]" by (simp add: too_many_def newTxnBuf_def XGTransactionGroupLimit_def)
  then obtain rs where rs: "updateRootsLocked V ?t [enc ?C (take 1 (toks k))] = (None, ?t\<lparr>tb_roots := rs\<rparr>)"
    "set rs = {enc ?C (take 1 (toks k))}" "distinct rs" "length rs \<le> rootLimit ?t"
    using txn_buffer.roots_step(2) [OF B inv, of "[k]"] by (auto simp: set_add_def tb_inv_def newTxnBuf_def)
  obtain b' where b': "ri_PutMulti (t_buf V) b [k] [[]] = Some (Inr [None], b')" "binv b'" "babs b' = (babs b)(toks k := Some Map.empty)"
    using raw_store.put [OF raw_buffer.axioms(1) [OF assms(1)] assms(5), of "[k]" "[[]]"] assms(7) sv by auto
  define t where "t = ?t\<lparr>tb_roots := rs, bufDS := b', entState := st_set st_empty ?e 0\<rparr>"
  have t: "keyToSize (entState t) = [(?e, 0)]" "bufDS t = b'" "tb_kc t = c" "tb_roots t = rs" "rootLimit t = rootLimit ?t"
    by (simp_all add: t_def newTxnBuf_def st_set_def st_empty_def Let_def)
  have put: "tb_putMulti V P ?t p [k] [[]] = Some (Inr [(Some k, None)], t, p)"
    using rs(1) b'(1) k(4) toEncoded_eq [of V "[]" "[k]"]
    by (simp add: tb_putMulti_def fixKeys_def t_def newTxnBuf_def set_add_def pm_EstimateSize_def)
  obtain rs' where "updateRootsLocked V t [enc ?C (take 1 (toks k))] = (None, t\<lparr>tb_roots := rs'\<rparr>)"
    using updateRoots(2) [OF assms(2), of t "[enc ?C (take 1 (toks k))]"] rs(2-4) t(4,5) distinct_card [OF rs(3)] by auto
  then have get: "tb_getMulti V P t p [k] = Some (Inr [Inl NoSuchEntity], t\<lparr>tb_roots := rs'\<rparr>, p)"
    using t(1) toEncoded_eq [of V "[]" "[k]"]
    by (simp add: tb_getMulti_def get_buffered_def st_get_def set_add_def item_result_def)
  have only: "\<forall>k'. txn_key c k' \<longrightarrow> (babs b' (toks k') \<noteq> None \<longleftrightarrow> k' = k)"
    using assms(6,7) by (auto simp: b'(3) txn_key_def intro: Key_eqI)
  obtain pm where eff: "effect V t = Some ([pm], [k], [k])" and pm: "putable pm" "saved pm = Map.empty"
    using txn_buffer.empty_effect [OF B, of t k] t b'(2,3) assms(7) only by auto
  have ps: "\<exists>p'. ri_PutMulti P q [k] [pm] = Some (Inr [None], p') \<and> pinv p' \<and> pabs p' = (pabs q)(toks k := Some Map.empty)" if "pinv q" for q
    using raw_store.put [OF assms(3) that, of "[k]" "[pm]"] assms(7) pm by simp
  have ds: "\<exists>p'. ri_DeleteMulti P q [k] = Some (Inr [None], p') \<and> pinv p' \<and> pabs p' = (pabs q)(toks k := None)" if "pinv q" for q
    using raw_store.del [OF assms(3) that, of "[k]"] assms(7) by simp
  obtain p1 p2 where p1: "ri_PutMulti P p [k] [pm] = Some (Inr [None], p1)" "ri_DeleteMulti P p1 [k] = Some (Inr [None], p2)" "pabs p2 (toks k) = None"
    using ps [OF assms(4)] ds by fastforce
  obtain q1 q2 where q1: "ri_DeleteMulti P p [k] = Some (Inr [None], q1)" "ri_PutMulti P q1 [k] [pm] = Some (Inr [None], q2)" "pabs q2 (toks k) = Some Map.empty"
    using ds [OF assms(4)] ps by fastforce
  show ?thesis using put get p1 q1 by (simp add: commitToReal_def eff multi_errs_def List.map_filter_def)
qed

theorem empty_entity_lost_witness:
  "\<exists>t p1 p2. tb_putMulti ex_V ex_P ex_tb ex_new [ex_key ''n''] [[]] = Some (Inr [(Some (ex_key ''n''), None)], t, ex_new) \<and>
     commitToReal ex_V ex_P True t ex_new = Some ([], p1) \<and> ex_abs p1 (toks (ex_key ''n'')) = None \<and>
     commitToReal ex_V ex_P False t ex_new = Some ([], p2) \<and> ex_abs p2 (toks (ex_key ''n'')) = Some Map.empty"
  using empty_entity_lost [where V = ex_V and binv = ex_inv and babs = ex_abs and c = ex_kc and P = ex_P and pinv = ex_inv and pabs = ex_abs and p = ex_new and b = ex_new and
      xg = False, OF ex_txn_ok(1,2,3,5,5,6) ex_key_txn] by blast

end
