(* ===== verification/Txn_Merge.thy ===== *)
theory Txn_Merge
  imports Txn_Correct
begin

text \<open>
  The merge of a query's results on the buffer and on the parent of a transaction: on streams sorted by the rows that the code
  compares, it is the stable sort of both, without the entities of the parent that the transaction wrote, and with the first
  occurrence of each key only.
\<close>

section \<open>Streams\<close>

fun fresh :: "('a \<Rightarrow> 'k) \<Rightarrow> 'k list \<Rightarrow> 'a list \<Rightarrow> 'a list" where
  "fresh e seen [] = []"
| "fresh e seen (x # xs) = (if e x \<in> set seen then fresh e seen xs else x # fresh e (e x # seen) xs)"

lemma fresh_filter: "set D \<subseteq> set seen \<Longrightarrow> fresh e seen (filter (\<lambda>x. e x \<notin> set D) xs) = fresh e seen xs"
  by (induction e seen xs rule: fresh.induct) auto

lemma fresh_image: "e ` set (fresh e seen xs) = e ` set xs - set seen"
  by (induction e seen xs rule: fresh.induct) auto

lemma fresh_subset: "set (fresh e seen xs) \<subseteq> set xs"
  by (induction e seen xs rule: fresh.induct) auto

lemma fresh_distinct: "distinct (map e (fresh e seen xs))"
proof (induction e seen xs rule: fresh.induct)
  case (2 e seen x xs)
  then show ?case using fresh_image [of e "e x # seen" xs] by (simp del: image_eqI)
qed simp

lemma fresh_sorted: "sorted (map f xs) \<Longrightarrow> sorted (map f (fresh e seen xs))"
proof (induction e seen xs rule: fresh.induct)
  case (2 e seen x xs)
  then show ?case using fresh_subset [of e "e x # seen" xs] by auto
qed simp

text \<open>The callback on a list of items, up to its first error.\<close>

fun feed :: "('st \<Rightarrow> 'i \<Rightarrow> 'st \<times> 'e option) \<Rightarrow> 'st \<Rightarrow> 'i list \<Rightarrow> 'st \<times> 'e option" where
  "feed cb st [] = (st, None)"
| "feed cb st (x # xs) = (case cb st x of (st, Some e) \<Rightarrow> (st, Some e) | (st, None) \<Rightarrow> feed cb st xs)"

lemma sort_key_merge:
  fixes f :: "'a \<Rightarrow> 'k::linorder"
  assumes "sorted (map f (m # ms))" "sorted (map f (p # ps))"
  shows "f p < f m \<Longrightarrow> sort_key f ((m # ms) @ p # ps) = p # sort_key f ((m # ms) @ ps)"
    and "\<not> f p < f m \<Longrightarrow> sort_key f ((m # ms) @ p # ps) = m # sort_key f (ms @ p # ps)"
proof -
  have le: "\<forall>x \<in> set ms. f m \<le> f x" "\<forall>x \<in> set ps. f p \<le> f x" using assms by auto
  have stable: "filter (\<lambda>x. f k = f x) (sort_key f xs) = filter (\<lambda>x. f k = f x) xs" for k xs
    using sort_key_stable [of f "f k" xs] by (simp add: eq_commute)
  show "f p < f m \<Longrightarrow> sort_key f ((m # ms) @ p # ps) = p # sort_key f ((m # ms) @ ps)"
  proof (rule properties_for_sort_key)
    assume lt: "f p < f m"
    show "filter (\<lambda>x. f k = f x) (p # sort_key f ((m # ms) @ ps)) = filter (\<lambda>x. f k = f x) ((m # ms) @ p # ps)" for k
    proof -
      have "filter (\<lambda>x. f k = f x) (sort_key f ((m # ms) @ ps)) = filter (\<lambda>x. f k = f x) ((m # ms) @ ps)" by (rule stable)
      moreover have "filter (\<lambda>x. f k = f x) (m # ms) = []" if "f k = f p" using that lt le(1) by (auto simp: filter_empty_conv)
      ultimately show ?thesis by (auto simp del: sort_key_simps)
    qed
    show "sorted (map f (p # sort_key f ((m # ms) @ ps)))" using lt le by (auto simp del: sort_key_simps)
  qed simp
  show "\<not> f p < f m \<Longrightarrow> sort_key f ((m # ms) @ p # ps) = m # sort_key f (ms @ p # ps)"
  proof (rule properties_for_sort_key)
    assume "\<not> f p < f m"
    then show "sorted (map f (m # sort_key f (ms @ p # ps)))" using le by auto
  qed (simp_all add: stable)
qed

lemma merge_take:
  fixes f :: "'a \<Rightarrow> 'k::linorder"
  shows "sorted (map f (p # ps)) \<Longrightarrow> sorted (map f ms) \<Longrightarrow> ms = [] \<or> f p < f (hd ms) \<Longrightarrow> sort_key f (ms @ p # ps) = p # sort_key f (ms @ ps)"
    and "sorted (map f (m # ms)) \<Longrightarrow> sorted (map f ps) \<Longrightarrow> ps = [] \<or> \<not> f (hd ps) < f m \<Longrightarrow> sort_key f ((m # ms) @ ps) = m # sort_key f (ms @ ps)"
proof -
  show "sorted (map f (p # ps)) \<Longrightarrow> sorted (map f ms) \<Longrightarrow> ms = [] \<or> f p < f (hd ms) \<Longrightarrow> sort_key f (ms @ p # ps) = p # sort_key f (ms @ ps)"
    using sort_key_merge(1) [of f "hd ms" "tl ms" p ps] by (cases ms) (auto simp: sort_key_id_if_sorted insort_is_Cons)
  show "sorted (map f (m # ms)) \<Longrightarrow> sorted (map f ps) \<Longrightarrow> ps = [] \<or> \<not> f (hd ps) < f m \<Longrightarrow> sort_key f ((m # ms) @ ps) = m # sort_key f (ms @ ps)"
    using sort_key_merge(2) [of f m ms "hd ps" "tl ps"] by (cases ps) (auto simp: sort_key_id_if_sorted insort_is_Cons)
qed

section \<open>The loop\<close>

text \<open>The items of one side that are left: the one that was taken and those behind it.\<close>

fun left :: "item option \<times> stream \<Rightarrow> item list" where
  "left (None, s) = []"
| "left (Some i, (is, err)) = i # is"

abbreviation taken :: "(item \<Rightarrow> bool) \<Rightarrow> item list \<Rightarrow> item option \<times> stream" where
  "taken skip xs \<equiv> (case dropWhile skip xs of [] \<Rightarrow> (None, [], None) | x # xs \<Rightarrow> (Some x, xs, None))"

lemma item_get_taken: "item_get skip (xs, None) = (fst (taken skip xs), None, snd (taken skip xs))"
  by (induction xs) simp_all

lemma left_taken: "left (taken skip xs) = dropWhile skip xs"
  by (cases "dropWhile skip xs") (simp_all only: list.case left.simps)

definition par_written :: "merge_env \<Rightarrow> item \<Rightarrow> bool" where
  "par_written G i = st_has (g_sizes G) (getEncKey (g_cmpbin G) i)"

text \<open>The results, in the order in which they reach the callback.\<close>

definition merged_items :: "merge_env \<Rightarrow> byte list list \<Rightarrow> item list \<Rightarrow> item list \<Rightarrow> item list" where
  "merged_items G seen ps ms =
     fresh (getEncKey (g_cmpbin G)) seen (sort_key (g_row G) (ms @ filter (\<lambda>i. \<not> par_written G i) ps))"

lemma merged_skip:
  assumes "set D \<subseteq> set seen"
  shows "merged_items G seen (dropWhile (par_skip G (Some D)) ps) ms = merged_items G seen ps ms"
    and "merged_items G seen ps (dropWhile (mem_skip G (Some D)) ms) = merged_items G seen ps ms"
proof -
  let ?e = "getEncKey (g_cmpbin G)"
  have eq: "merged_items G seen ps ms = merged_items G seen (filter (\<lambda>i. \<not> par_skip G (Some D) i) ps) (filter (\<lambda>i. \<not> mem_skip G (Some D) i) ms)" for ps ms
  proof -
    have "merged_items G seen ps ms = fresh ?e seen (filter (\<lambda>i. ?e i \<notin> set D) (sort_key (g_row G) (ms @ filter (\<lambda>i. \<not> par_written G i) ps)))"
      unfolding merged_items_def fresh_filter [OF assms] ..
    also have "\<dots> = fresh ?e seen (filter (\<lambda>i. ?e i \<notin> set D) (sort_key (g_row G)
        (filter (\<lambda>i. \<not> mem_skip G (Some D) i) ms @ filter (\<lambda>i. \<not> par_written G i) (filter (\<lambda>i. \<not> par_skip G (Some D) i) ps))))"
      by (simp add: filter_sort mem_skip_def par_skip_def seen_in_def par_written_def Let_def conj_commute cong: conj_cong)
    also have "\<dots> = merged_items G seen (filter (\<lambda>i. \<not> par_skip G (Some D) i) ps) (filter (\<lambda>i. \<not> mem_skip G (Some D) i) ms)"
      unfolding merged_items_def fresh_filter [OF assms] ..
    finally show ?thesis .
  qed
  have drop: "filter (\<lambda>i. \<not> Q i) (dropWhile Q xs) = filter (\<lambda>i. \<not> Q i) xs" for Q and xs :: "item list" by (induction xs) auto
  show "merged_items G seen (dropWhile (par_skip G (Some D)) ps) ms = merged_items G seen ps ms"
    by (subst (1 2) eq) (simp only: drop)
  show "merged_items G seen ps (dropWhile (mem_skip G (Some D)) ms) = merged_items G seen ps ms"
    by (subst (1 2) eq) (simp only: drop)
qed

definition side_ok :: "merge_env \<Rightarrow> item option \<times> stream \<Rightarrow> bool" where
  "side_ok G x \<longleftrightarrow> sorted (map (g_row G) (left x)) \<and> snd (snd x) = None"

abbreviation par_ok :: "merge_env \<Rightarrow> item option \<times> stream \<Rightarrow> bool" where
  "par_ok G x \<equiv> side_ok G x \<and> (\<forall>i. fst x = Some i \<longrightarrow> \<not> par_written G i)"

lemma taken_ok:
  assumes "sorted (map (g_row G) xs)"
  shows "side_ok G (taken skip xs)" "par_ok G (taken (par_skip G D) xs)"
proof -
  have "sorted (map (g_row G) (dropWhile skip xs))" for skip
    using sorted_append [of "map (g_row G) (takeWhile skip xs)" "map (g_row G) (dropWhile skip xs)"] assms
    by (simp flip: map_append)
  then show ok: "side_ok G (taken skip xs)" for skip
    by (simp add: side_ok_def left_taken) (simp split: list.split)
  have "\<not> par_written G i" if "dropWhile (par_skip G D) xs = i # ys" for i ys
    using hd_dropWhile [of "par_skip G D" xs] that by (auto simp: par_skip_def par_written_def Let_def)
  then show "par_ok G (taken (par_skip G D) xs)" using ok by (auto split: list.split)
qed

lemma merged_head:
  assumes "sort_key (g_row G) (ms @ filter (\<lambda>i. \<not> par_written G i) ps) = x # sort_key (g_row G) (ms' @ filter (\<lambda>i. \<not> par_written G i) ps')"
  shows "merged_items G seen ps ms = (if getEncKey (g_cmpbin G) x \<in> set seen then merged_items G seen ps' ms'
    else x # merged_items G (getEncKey (g_cmpbin G) x # seen) ps' ms')"
  unfolding merged_items_def assms by simp

text \<open>One step: the item that is used is the next one of the sorted results.\<close>

lemma merge_step:
  assumes par: "par_ok G par" and mem: "side_ok G mem" and some: "\<not> (fst par = None \<and> fst mem = None)"
  obtains x par' mem' where "merge_next G (Some seen) par mem = (x, par', mem', None)" "par_ok G par'" "side_ok G mem'"
    "merged_items G seen (left par) (left mem) =
       (if getEncKey (g_cmpbin G) x \<in> set seen then merged_items G seen (left par') (left mem')
        else x # merged_items G (getEncKey (g_cmpbin G) x # seen) (left par') (left mem'))"
proof -
  obtain pi ps where p: "par = (pi, ps, None)" using par by (cases par) (auto simp: side_ok_def)
  obtain mi ms where m: "mem = (mi, ms, None)" using mem by (cases mem) (auto simp: side_ok_def)
  let ?use = "case (pi, mi) of (Some pi, Some mi) \<Rightarrow> g_row G pi < g_row G mi | _ \<Rightarrow> pi \<noteq> None"
  have sub: "set seen \<subseteq> set seen" "set seen \<subseteq> set (getEncKey (g_cmpbin G) x # seen)" for x by auto
  have lm: "left mem = [] \<longleftrightarrow> mi = None" "left par = [] \<longleftrightarrow> pi = None" by (auto simp: p m elim: left.elims)
  show ?thesis
  proof (cases ?use)
    case True
    then obtain i where i: "pi = Some i" by (auto split: option.splits)
    let ?par = "taken (par_skip G (Some seen)) ps"
    have "sort_key (g_row G) (left mem @ filter (\<lambda>i. \<not> par_written G i) (left par)) = i # sort_key (g_row G) (left mem @ filter (\<lambda>i. \<not> par_written G i) ps)"
    proof -
      have "filter (\<lambda>i. \<not> par_written G i) (left par) = i # filter (\<lambda>i. \<not> par_written G i) ps" using par by (simp add: p i)
      moreover have "sorted (map (g_row G) (i # filter (\<lambda>i. \<not> par_written G i) ps))" using par by (auto simp: p i side_ok_def intro: sorted_filter)
      moreover have "left mem = [] \<or> g_row G i < g_row G (hd (left mem))" using True by (cases mi) (auto simp: m i)
      ultimately show ?thesis using merge_take(1) [of "g_row G" i "filter (\<lambda>i. \<not> par_written G i) ps" "left mem"] mem by (simp only: side_ok_def)
    qed
    note merged_head [OF this, of seen]
    moreover have "merge_next G (Some seen) par mem = (i, ?par, mem, None)"
      using True by (cases mi) (simp_all add: merge_next_def p m i Let_def item_get_taken)
    moreover have "par_ok G ?par" using par by (intro taken_ok(2)) (simp add: p i side_ok_def)
    ultimately show ?thesis
      using mem by (intro that [of i ?par mem]) (assumption | simp only: left_taken merged_skip(1) [OF sub(1)] merged_skip(1) [OF sub(2)])+
  next
    case False
    then obtain i where i: "mi = Some i" using some by (auto simp: p m split: option.splits)
    let ?mem = "taken (mem_skip G (Some seen)) ms"
    have "sort_key (g_row G) (left mem @ filter (\<lambda>i. \<not> par_written G i) (left par)) = i # sort_key (g_row G) (ms @ filter (\<lambda>i. \<not> par_written G i) (left par))"
    proof -
      have "left mem = i # ms" by (simp add: m i)
      moreover have "sorted (map (g_row G) (filter (\<lambda>i. \<not> par_written G i) (left par)))" using par by (auto simp: side_ok_def intro: sorted_filter)
      moreover have "filter (\<lambda>i. \<not> par_written G i) (left par) = [] \<or> \<not> g_row G (hd (filter (\<lambda>i. \<not> par_written G i) (left par))) < g_row G i"
        using False par by (cases pi) (auto simp: p m i)
      ultimately show ?thesis using merge_take(2) [of "g_row G" i ms "filter (\<lambda>i. \<not> par_written G i) (left par)"] mem by (simp only: side_ok_def)
    qed
    note merged_head [OF this, of seen]
    moreover have "merge_next G (Some seen) par mem = (i, par, ?mem, None)"
      using False by (cases pi) (simp_all add: merge_next_def p m i Let_def item_get_taken)
    moreover have "side_ok G ?mem" using mem by (intro taken_ok(1)) (simp add: m i side_ok_def)
    ultimately show ?thesis
      using par by (intro that [of i par ?mem]) (assumption | simp only: left_taken merged_skip(2) [OF sub(1)] merged_skip(2) [OF sub(2)])+
  qed
qed

lemma merge_loop_exact:
  assumes "par_ok G par" "side_ok G mem"
  shows "runMerged_loop G cb par mem None (Some seen) None st = feed cb st (merged_items G seen (left par) (left mem))"
  using assms
proof (induction "merge_size par + merge_size mem" arbitrary: par mem seen st rule: less_induct)
  case less
  let ?e = "getEncKey (g_cmpbin G)"
  show ?case
  proof (cases "fst par = None \<and> fst mem = None")
    case True
    then have "left par = []" "left mem = []" by (metis left.simps(1) prod.collapse)+
    then show ?thesis using True by (simp add: runMerged_loop.simps [of G cb] merged_items_def)
  next
    case False
    obtain x par' mem' where s: "merge_next G (Some seen) par mem = (x, par', mem', None)" "par_ok G par'" "side_ok G mem'"
      "merged_items G seen (left par) (left mem) =
         (if ?e x \<in> set seen then merged_items G seen (left par') (left mem') else x # merged_items G (?e x # seen) (left par') (left mem'))"
      by (rule merge_step [OF less.prems False])
    note IH = less.hyps [OF merge_next_size [OF s(1) False] s(2,3)]
    have "runMerged_loop G cb par mem None (Some seen) None st =
        (if ?e x \<in> set seen then runMerged_loop G cb par' mem' None (Some seen) None st
         else case cb st x of (st, Some e) \<Rightarrow> (st, Some e) | (st, None) \<Rightarrow> runMerged_loop G cb par' mem' None (Some (?e x # seen)) None st)"
      by (subst runMerged_loop.simps) (simp only: option.case False if_False s(1) prod.case Let_def seen_in_def option.map)
    then show ?thesis unfolding s(4) IH by (simp split: prod.split option.split)
  qed
qed

section \<open>Queries in a transaction\<close>

text \<open>The callback of \<^verbatim>\<open>Run\<close> leaves the offset and stops at the limit.\<close>

definition run_data :: "FinalizedQuery \<Rightarrow> item \<Rightarrow> item" where
  "run_data fq i = (fst i, if fq_keysOnly fq then None else snd i)"

lemma feed_run_item:
  assumes "fq_project fq = []" "0 \<le> sint limit"
  shows "\<exists>off lim. feed (run_item fq) (offset, limit, res) xs =
    ((off, lim, res @ map (run_data fq) (window offset limit (snd (FQ_Limit fq)) xs)),
     if snd (FQ_Limit fq) \<and> length xs > nat (sint offset) + nat (sint limit) then Some ErrStop else None)"
  using assms(2)
proof (induction xs arbitrary: offset limit res)
  case Nil
  then show ?case by (simp add: window_simps)
next
  case (Cons x xs)
  let ?h = "snd (FQ_Limit fq)"
  show ?case
  proof (cases "sint offset > 0")
    case True
    then show ?thesis using Cons.IH [OF Cons.prems, of "offset - 1" res] sint_dec [OF True] by (simp add: run_item_def window_simps(2))
  next
    case off: False
    show ?thesis
    proof (cases "?h \<and> sint limit \<le> 0")
      case True
      then have "sint limit = sint (0 :: int32)" using Cons.prems by simp
      then have "limit = 0" using sint_word_ariths(8) by (metis signed_word_eqI)
      then show ?thesis using True off by (simp add: run_item_def window_simps(3))
    next
      case False
      let ?l = "if ?h then limit - 1 else limit"
      have l: "0 \<le> sint ?l" "\<not> (?h \<and> limit = 0)" "?h \<longrightarrow> nat (sint limit) = Suc (nat (sint ?l))"
        using False Cons.prems sint_dec [of limit] sint_lt [of limit] by (auto simp: signed_take_bit_int_eq_self sint_word_ariths)
      have "run_item fq (offset, limit, res) x = ((offset, ?l, res @ [run_data fq x]), None)"
        using off l(2) assms(1) by (auto simp: run_item_def run_data_def Let_def)
      then show ?thesis using Cons.IH [OF l(1), of offset "res @ [run_data fq x]"] window_simps(4) [OF off False, of x xs] l(3) off
        by (cases ?h) auto
    qed
  qed
qed

lemma tb_Run_merge:
  assumes "fq_start fq = None" "fq_end fq = None" "fq_project fq = []" "0 \<le> sint (fst (FQ_Limit fq))"
    and "adjustQuery fq = Inr q" "GetBinaryBounds (t_env V) fq = Some (lo, hi)"
    and "ri_Run P p q = Some ((ps, None), p')" "ri_Run (t_buf V) (bufDS t) q = Some ((ms, None), b')"
    and "st_inv (entState t)"
    and "sorted (map (getCmpRow (t_cmpbin V) lo hi (fq_orders fq)) ps)" "sorted (map (getCmpRow (t_cmpbin V) lo hi (fq_orders fq)) ms)"
  shows "\<exists>xs. tb_Run V P (t, p) fq =
      Some ((map (run_data fq) (window (fst (FQ_Offset fq)) (fst (FQ_Limit fq)) (snd (FQ_Limit fq)) xs),
             if snd (FQ_Limit fq) \<and> length xs > nat (sint (fst (FQ_Offset fq))) + nat (sint (fst (FQ_Limit fq))) then Some ErrStop else None),
            t\<lparr>bufDS := b'\<rparr>, p') \<and>
    xs = fresh (getEncKey (t_cmpbin V)) []
      (sort_key (getCmpRow (t_cmpbin V) lo hi (fq_orders fq)) (ms @ filter (\<lambda>i. sizes_of t (getEncKey (t_cmpbin V) i) = None) ps)) \<and>
    distinct (map (getEncKey (t_cmpbin V)) xs) \<and> sorted (map (getCmpRow (t_cmpbin V) lo hi (fq_orders fq)) xs) \<and>
    getEncKey (t_cmpbin V) ` set xs =
      getEncKey (t_cmpbin V) ` set ms \<union> {k \<in> getEncKey (t_cmpbin V) ` set ps. sizes_of t k = None}"
proof -
  let ?C = "t_cmpbin V" and ?row = "getCmpRow (t_cmpbin V) lo hi (fq_orders fq)"
  define G where "G = \<lparr>g_cmpbin = ?C, g_sizes = st_dup (entState t), g_row = ?row, g_distinctOrder = []\<rparr>"
  define xs where "xs = merged_items G [] ps ms"
  have w: "par_written G i \<longleftrightarrow> sizes_of t (getEncKey ?C i) \<noteq> None" for i
    using st_inv_dup [OF assms(9)] by (simp add: par_written_def G_def st_has_def)
  then have xs: "xs = fresh (getEncKey ?C) [] (sort_key ?row (ms @ filter (\<lambda>i. sizes_of t (getEncKey ?C i) = None) ps))"
    by (simp add: xs_def merged_items_def G_def)
  have r: "g_row G = ?row" by (simp add: G_def)
  have ok: "par_ok G (taken (par_skip G (Some [])) ps)" by (rule taken_ok(2)) (simp only: r assms(10))
  have ok2: "side_ok G (taken (mem_skip G (Some [])) ms)" by (rule taken_ok(1)) (simp only: r assms(11))
  let ?st = "(fst (FQ_Offset fq), fst (FQ_Limit fq), [])"
  have "runMerged_loop G (run_item fq) (taken (par_skip G (Some [])) ps) (taken (mem_skip G (Some [])) ms) None (Some []) None ?st = feed (run_item fq) ?st xs"
    using merge_loop_exact [OF ok ok2, of "run_item fq" "[]" ?st] unfolding left_taken xs_def by (simp only: merged_skip [OF order_refl])
  then have "runMergedQueries V P fq (st_dup (entState t)) (bufDS t) p (run_item fq) ?st = Some (feed (run_item fq) ?st xs, b', p')"
    using assms(3,5-8) by (simp add: runMergedQueries_def item_get_taken Let_def flip: G_def)
  moreover have "\<exists>off lim. feed (run_item fq) (fst (FQ_Offset fq), fst (FQ_Limit fq), []) xs =
      ((off, lim, map (run_data fq) (window (fst (FQ_Offset fq)) (fst (FQ_Limit fq)) (snd (FQ_Limit fq)) xs)),
       if snd (FQ_Limit fq) \<and> length xs > nat (sint (fst (FQ_Offset fq))) + nat (sint (fst (FQ_Limit fq))) then Some ErrStop else None)"
    using feed_run_item [OF assms(3,4), of "fst (FQ_Offset fq)" "[]" xs] by simp
  ultimately have "tb_Run V P (t, p) fq =
      Some ((map (run_data fq) (window (fst (FQ_Offset fq)) (fst (FQ_Limit fq)) (snd (FQ_Limit fq)) xs),
             if snd (FQ_Limit fq) \<and> length xs > nat (sint (fst (FQ_Offset fq))) + nat (sint (fst (FQ_Limit fq))) then Some ErrStop else None),
            t\<lparr>bufDS := b'\<rparr>, p')"
    using assms(1,2) by (auto simp: tb_Run_def)
  moreover have "getEncKey ?C ` set xs = getEncKey ?C ` set ms \<union> {k \<in> getEncKey ?C ` set ps. sizes_of t k = None}"
    by (auto simp: xs fresh_image)
  moreover have "distinct (map (getEncKey ?C) xs)" "sorted (map ?row xs)"
    unfolding xs by (rule fresh_distinct) (rule fresh_sorted, rule sorted_sort_key)
  ultimately show ?thesis using xs by blast
qed

text \<open>
  C10. A query inside a transaction merges the buffer into the parent's results. For a query that is no projection, whose results on the
  buffer and on the parent come in the order of the rows the filter compares: \<^verbatim>\<open>Run\<close> leaves out the entities of the
  parent that the transaction wrote or deleted, returns the others together with those of the buffer in the order of their
  rows, with equal rows of the buffer first, each key once; then it applies the query's own offset and limit. No result is lost,
  although the merge skips and reorders the streams while it reads them.
\<close>

theorem txn_query_merge:
  assumes "fq_start fq = None" "fq_end fq = None" "fq_project fq = []" "0 \<le> sint (fst (FQ_Limit fq))"
    and "adjustQuery fq = Inr q" "GetBinaryBounds (t_env V) fq = Some (lo, hi)"
    and "ri_Run P p q = Some ((ps, None), p')" "ri_Run (t_buf V) (bufDS t) q = Some ((ms, None), b')"
    and "st_inv (entState t)"
    and "sorted (map (getCmpRow (t_cmpbin V) lo hi (fq_orders fq)) ps)" "sorted (map (getCmpRow (t_cmpbin V) lo hi (fq_orders fq)) ms)"
  shows "\<exists>xs. tb_Run V P (t, p) fq =
      Some ((map (run_data fq) (window (fst (FQ_Offset fq)) (fst (FQ_Limit fq)) (snd (FQ_Limit fq)) xs),
             if snd (FQ_Limit fq) \<and> length xs > nat (sint (fst (FQ_Offset fq))) + nat (sint (fst (FQ_Limit fq))) then Some ErrStop else None),
            t\<lparr>bufDS := b'\<rparr>, p') \<and>
    xs = fresh (getEncKey (t_cmpbin V)) []
      (sort_key (getCmpRow (t_cmpbin V) lo hi (fq_orders fq)) (ms @ filter (\<lambda>i. sizes_of t (getEncKey (t_cmpbin V) i) = None) ps)) \<and>
    distinct (map (getEncKey (t_cmpbin V)) xs) \<and> sorted (map (getCmpRow (t_cmpbin V) lo hi (fq_orders fq)) xs) \<and>
    getEncKey (t_cmpbin V) ` set xs =
      getEncKey (t_cmpbin V) ` set ms \<union> {k \<in> getEncKey (t_cmpbin V) ` set ps. sizes_of t k = None}"
  by (rule tb_Run_merge [OF assms])

section \<open>An example\<close>

lemma dump_adjust:
  assumes "Finalize (NewQuery '''') = Inr fq"
  shows "fq_original fq = NewQuery ''''" "fq_orders fq = [asc ''__key__'']" "fq_start fq = None" "fq_end fq = None"
    "GetBinaryBounds E fq = Some (None, None)" "adjustQuery fq = Inr fq"
proof -
  show q: "fq_original fq = NewQuery ''''" "fq_orders fq = [asc ''__key__'']" "fq_start fq = None" "fq_end fq = None"
    "GetBinaryBounds E fq = Some (None, None)"
    using assms [symmetric] unfolding Finalize_def finalizeImpl_def all_query option.case sum.case
    by (simp_all add: all_query NewQuery_def GetBinaryBounds_def IneqFilterLow_def IneqFilterHigh_def)
  have "Query_Distinct (Query_Offset (Query_Limit (NewQuery '''') (- 1)) (- 1)) False = NewQuery ''''" by code_simp
  then show "adjustQuery fq = Inr fq" using assms q(1) dump_query(1,2) [OF assms] by (simp add: adjustQuery_def Let_def)
qed

lemma cmp_row_key: "getCmpRow C None None [asc ''__key__''] = (\<lambda>i. key_bytes C (toks (fst i)))"
proof (rule ext)
  fix i
  have "ToBytes C False (SProperty (key_prop k)) = Some (key_bytes C (toks k))" for k
    by (simp add: key_prop_def MkProperty_def ToBytes_def toBytesErr_def WriteIndexProperty_def
      writePropertyImpl_def IndexTypeAndValue_def Property_Type_def writeIndexValue_def key_bytes_def
      WriteKey_def Key_Split_def Property_Value_def)
  then show "getCmpRow C None None [asc ''__key__''] i = key_bytes C (toks (fst i))"
    by (simp add: getCmpRow_def toComparableString_def column_row_def PropertyMapPartially_def Join_def bytes_of_def Let_def)
qed

lemma key_enc_item: "getEncKey (t_cmpbin V) = (\<lambda>i. enc (t_cmpbin V) (toks (fst i)))"
  using key_enc [of V] by (simp add: getEncKey_def key_enc_def fun_eq_iff)

text \<open>A transaction that has put one entity, over a datastore with another one.\<close>

definition ex_key2 :: Key where
  "ex_key2 = \<lparr>kc = ex_kc, toks = [mkTok ''K'' 8 '''']\<rparr>"

lemma ex_key2_txn: "txn_key ex_kc ex_key2"
  by (simp add: ex_key2_def txn_key_def entity_toks_def user_toks_def toks_storable_def special_toks_def mkTok_def tok_storable_def
      ReadKeyNumToksReasonableLimit_def tok_valid_def KeyTok_Special_def KeyTok_IsIncomplete_def)

lemma ex_put:
  obtains fq t p where "Finalize (NewQuery '''') = Inr fq" "ex_inv p"
    "ri_PutMulti ex_P ex_new [ex_key2] [ex_pm] = Some (Inr [None], p)" "ex_abs p = (ex_abs ex_new)(toks ex_key2 := Some (saved ex_pm))"
    "tb_putMulti ex_V ex_P ex_tb p [ex_key ''n''] [ex_pm] = Some (Inr [(Some (ex_key ''n''), None)], t, p)"
    "tb_inv ex_V ex_inv ex_abs ex_kc t" "sizes_of t = [enc (t_cmpbin ex_V) (toks (ex_key ''n'')) \<mapsto> pm_EstimateSize ex_pm]"
    "ex_abs (bufDS t) (toks (ex_key ''n'')) \<noteq> None"
proof -
  obtain fq where fq: "Finalize (NewQuery '''') = Inr fq" unfolding Finalize_def finalizeImpl_def all_query option.case sum.case by blast
  from raw_store.put [where P = ex_P and pinv = ex_inv and pabs = ex_abs and c = ex_kc and p = ex_new and ks = "[ex_key2]" and pms = "[ex_pm]", OF ex_txn_ok(3,5)]
  obtain p where p: "ri_PutMulti ex_P ex_new [ex_key2] [ex_pm] = Some (Inr [None], p)" "ex_inv p" "ex_abs p = (ex_abs ex_new)(toks ex_key2 := Some (saved ex_pm))"
    using ex_key2_txn ex_pm_ok(1) by auto
  have "\<not> too_many ex_V ex_tb [ex_key ''n'']" by (simp add: too_many_def newTxnBuf_def)
  then obtain t where t: "tb_putMulti ex_V ex_P ex_tb p [ex_key ''n''] [ex_pm] = Some (Inr [(Some (ex_key ''n''), None)], t, p)"
    "tb_inv ex_V ex_inv ex_abs ex_kc t" "sizes_of t = [enc (t_cmpbin ex_V) (toks (ex_key ''n'')) \<mapsto> pm_EstimateSize ex_pm]"
    "\<forall>b. overlay (t_cmpbin ex_V) (sizes_of t) (ex_abs (bufDS t)) b =
       (overlay (t_cmpbin ex_V) (sizes_of ex_tb) (ex_abs (bufDS ex_tb)) b)(toks (ex_key ''n'') := Some (saved ex_pm))"
    using ex_mt.mt.tb_put(2) [OF ex_txn_ok(7), of "[ex_key ''n'']" "[ex_pm]" ex_P p] ex_key_txn ex_pm_ok
    by (auto simp: newTxnBuf_def st_empty_def)
  have "overlay (t_cmpbin ex_V) (sizes_of t) (ex_abs (bufDS t)) (\<lambda>_. None) (toks (ex_key ''n'')) = Some (saved ex_pm)" unfolding t(4) [rule_format] by (rule fun_upd_same)
  then have "ex_abs (bufDS t) (toks (ex_key ''n'')) \<noteq> None" by (auto simp: overlay_def split: option.splits if_splits)
  then show ?thesis using that [OF fq p(2,1,3) t(1-3)] by blast
qed

theorem txn_query_merge_witness:
  "\<exists>fq p t ps ms xs. Finalize (NewQuery '''') = Inr fq \<and>
     ri_PutMulti ex_P ex_new [ex_key2] [ex_pm] = Some (Inr [None], p) \<and>
     tb_putMulti ex_V ex_P ex_tb p [ex_key ''n''] [ex_pm] = Some (Inr [(Some (ex_key ''n''), None)], t, p) \<and>
     ri_Run ex_P p fq = Some ((ps, None), p) \<and> ri_Run (t_buf ex_V) (bufDS t) fq = Some ((ms, None), bufDS t) \<and> ps \<noteq> [] \<and> ms \<noteq> [] \<and>
     tb_Run ex_V ex_P (t, p) fq = Some ((map (run_data fq) xs, None), t\<lparr>bufDS := bufDS t\<rparr>, p) \<and>
     getEncKey (t_cmpbin ex_V) ` set xs = getEncKey (t_cmpbin ex_V) ` (set ms \<union> set ps)"
proof -
  obtain fq t p where t: "Finalize (NewQuery '''') = Inr fq" "ex_inv p"
    "ri_PutMulti ex_P ex_new [ex_key2] [ex_pm] = Some (Inr [None], p)" "ex_abs p = (ex_abs ex_new)(toks ex_key2 := Some (saved ex_pm))"
    "tb_putMulti ex_V ex_P ex_tb p [ex_key ''n''] [ex_pm] = Some (Inr [(Some (ex_key ''n''), None)], t, p)"
    "tb_inv ex_V ex_inv ex_abs ex_kc t" "sizes_of t = [enc (t_cmpbin ex_V) (toks (ex_key ''n'')) \<mapsto> pm_EstimateSize ex_pm]"
    "ex_abs (bufDS t) (toks (ex_key ''n'')) \<noteq> None" by (rule ex_put)
  note q = dump_adjust [OF t(1)] dump_query(1-4) [OF t(1)] and t' = t(6) [unfolded tb_inv_def]
  have V: "t_buf ex_V = ex_P" "t_cmpbin ex_V = e_cmpbin simple_env" by (simp_all add: mem_txnenv_def)
  have S: "raw_sorted ex_P ex_inv ex_abs ex_kc (e_cmpbin simple_env)" by (rule simple_mem.mem.raw_sorted_axioms)
  have b: "ex_inv (bufDS t)" using t' by blast
  note dump = raw_buffer.dump [where P = ex_P and pinv = ex_inv and pabs = ex_abs and c = ex_kc and fq = fq, OF raw_sorted.axioms(1) [OF S] _ t(1)]
    and sort = raw_sorted.dump_sorted [where P = ex_P and pinv = ex_inv and pabs = ex_abs and c = ex_kc, OF S _ t(1)]
  from dump [OF b] obtain ms where ms: "ri_Run ex_P (bufDS t) fq = Some ((ms, None), bufDS t)"
    "fst ` set ms = {k. txn_key ex_kc k \<and> ex_abs (bufDS t) (toks k) \<noteq> None}" by blast
  from dump [OF t(2)] obtain ps where ps: "ri_Run ex_P p fq = Some ((ps, None), p)"
    "fst ` set ps = {k. txn_key ex_kc k \<and> ex_abs p (toks k) \<noteq> None}" by blast
  have ne: "ms \<noteq> []" "ps \<noteq> []"
    using ms(2) ps(2) ex_key_txn ex_key2_txn t(4,8) by (force simp: fun_upd_same)+
  have new: "sizes_of t (getEncKey (t_cmpbin ex_V) i) = None" if "i \<in> set ps" for i
  proof -
    have "fst i \<in> fst ` set ps" using that by blast
    then have k: "txn_key ex_kc (fst i)" "toks (fst i) = toks ex_key2" using ps(2) t(4) ex_txn_ok(6) by (auto split: if_splits)
    have "toks ex_key2 \<noteq> toks (ex_key ''n'')" by (simp add: ex_key2_def ex_key_def mkTok_def)
    moreover have "cmpbin_ok (t_cmpbin ex_V)" using ex_txn_ok(2) by (simp add: env_ok_def)
    ultimately have "enc (t_cmpbin ex_V) (toks (fst i)) \<noteq> enc (t_cmpbin ex_V) (toks (ex_key ''n''))"
      using enc_entity_inj txn_keyD(3) [OF ex_key2_txn] txn_keyD(3) [OF ex_key_txn] k(2) by metis
    then show ?thesis unfolding t(7) key_enc_item by simp
  qed
  have st: "st_inv (entState t)" using t' by blast
  have sorted: "sorted (map (getCmpRow (t_cmpbin ex_V) None None (fq_orders fq)) ps)" "sorted (map (getCmpRow (t_cmpbin ex_V) None None (fq_orders fq)) ms)"
    using sort [OF t(2) ps(1)] sort [OF b ms(1)] by (simp_all add: q cmp_row_key V)
  have lim: "0 \<le> sint (fst (FQ_Limit fq))" by (simp add: q)
  from txn_query_merge [where V = ex_V and P = ex_P and p = p and t = t, OF q(3,4,8) lim q(6) q(5) ps(1) ms(1) [folded V(1)] st sorted] q
  obtain xs where xs: "tb_Run ex_V ex_P (t, p) fq = Some ((map (run_data fq) xs, None), t\<lparr>bufDS := bufDS t\<rparr>, p)"
    "getEncKey (t_cmpbin ex_V) ` set xs =
       getEncKey (t_cmpbin ex_V) ` set ms \<union> {k \<in> getEncKey (t_cmpbin ex_V) ` set ps. sizes_of t k = None}" by (auto simp: window_def)
  have "{k \<in> getEncKey (t_cmpbin ex_V) ` set ps. sizes_of t k = None} = getEncKey (t_cmpbin ex_V) ` set ps" using new by auto
  then show ?thesis using t(1,3,5) ms(1) [folded V(1)] ps(1) ne xs by (auto simp: image_Un)
qed

section \<open>Descending orders\<close>

abbreviation int_prop :: "int64 \<Rightarrow> Property" where
  "int_prop n \<equiv> \<lparr>pvalue = PInt n, indexSetting = ShouldIndex\<rparr>"

abbreviation int_bytes :: "cmpbin \<Rightarrow> int64 \<Rightarrow> byte list" where
  "int_bytes C n \<equiv> the (ToBytes C False (SProperty (int_prop n)))"

lemma int_bytes_sless:
  assumes "cmpbin_ok C" "cmpbin_sorted C" "sint x < sint y"
  shows "sless (int_bytes C x) (int_bytes C y)"
  using cmpbin_sless(2) [OF assms(1,2,3)]
  by (simp add: ToBytes_def toBytesErr_def WriteIndexProperty_def writePropertyImpl_def IndexTypeAndValue_def Property_Type_def
      writeIndexValue_def Property_Value_def sless_Cons_iff)

text \<open>
  C39. The row of an entity under a descending order is not its first row in the index: \<^verbatim>\<open>toComparableString\<close> takes the smallest value and
  inverts it, although in the index the inverted largest value comes first. So an entity with the values \<open>x\<close> and \<open>z\<close>, which a query
  returns before one with the value \<open>y\<close> between them, is merged behind it: the streams of the two queries are not sorted by the
  rows that the merge compares.
\<close>

theorem descending_row_not_first:
  assumes "cmpbin_ok C" "cmpbin_sorted C" "sint x < sint y" "sint y < sint z"
  shows "let row = (\<lambda>ns. toComparableString C None None [\<lparr>col_Property = ''a'', Descending = True\<rparr>] k [(''a'', PSlice (map int_prop ns))])
    in row [x, z] = Invert (int_bytes C x) \<and> row [y] = Invert (int_bytes C y) \<and>
       Invert (int_bytes C z) < Invert (int_bytes C y) \<and> row [y] < row [x, z]"
proof -
  note l = int_bytes_sless [OF assms(1,2)]
  have xz: "sint x < sint z" using assms(3,4) by simp
  have less: "int_bytes C x < int_bytes C z" "Invert (int_bytes C z) < Invert (int_bytes C y)" "Invert (int_bytes C y) < Invert (int_bytes C x)"
    using sless_less [OF l [OF xz], of "[]" "[]"] sless_less [OF Invert_sless [OF l [OF assms(4)]], of "[]" "[]"]
      sless_less [OF Invert_sless [OF l [OF assms(3)]], of "[]" "[]"] by simp_all
  have ne: "PropertyMapPartially C (Some k) [] ''a'' = None" by (simp add: PropertyMapPartially_def)
  have sl: "pm_Slice [(''a'', PSlice ps)] ''a'' = ps" for ps by (simp add: pm_Slice_def PropertyData_Slice_def)
  show ?thesis using less ne sl
    by (auto simp: toComparableString_def column_row_def Let_def PropertySlice_def Join_def bytes_of_def)
qed

theorem descending_row_not_first_witness:
  "let row = (\<lambda>ns. toComparableString simple_cmpbin None None [\<lparr>col_Property = ''a'', Descending = True\<rparr>] (ex_key ''n'')
       [(''a'', PSlice (map int_prop ns))])
   in Invert (int_bytes simple_cmpbin 5) < Invert (int_bytes simple_cmpbin 3) \<and> row [3] < row [1, 5]"
proof -
  have "sint (1 :: int64) < sint (3 :: int64)" "sint (3 :: int64) < sint (5 :: int64)" by simp_all
  from descending_row_not_first [OF simple_cmpbin_ok simple_cmpbin_sorted this, of "ex_key ''n''"] show ?thesis unfolding Let_def by blast
qed

end
