(* ===== verification/Memcache.thy ===== *)
theory Memcache
  imports Go_Base Byte_Tools
begin

text \<open>
  \<^verbatim>\<open>impl/memory/memcache.go\<close>: the in-memory memcache service. Every operation on one item
  runs under the lock of \<^verbatim>\<open>memcacheData\<close> and is one state-passing function; the multi
  operations are folds of them over their arguments, reading the clock once. Because the
  lock is released between items, concurrent calls interleave item by item: the step relation
  \<open>mc_step\<close> takes one item operation at a time, with any clock reading, and so covers every
  interleaving.
\<close>

section \<open>Items\<close>

record mcItem =
  it_key :: string
  it_value :: "byte list"
  it_flags :: uint32
  it_expiration :: int64   \<comment> \<open>a \<^verbatim>\<open>time.Duration\<close> in nanoseconds\<close>
  it_CasID :: uint64

definition NewItem :: "string \<Rightarrow> mcItem" where
  "NewItem key = \<lparr>it_key = key, it_value = [], it_flags = 0, it_expiration = 0, it_CasID = 0\<rparr>"

definition SetAll :: "mcItem \<Rightarrow> mcItem option \<Rightarrow> mcItem" where
  "SetAll m other = (case other of None \<Rightarrow> NewItem (it_key m) | Some x \<Rightarrow> x\<lparr>it_key := it_key m\<rparr>)"

record mcDataItem =
  d_value :: "byte list"
  d_flags :: uint32
  d_expiration :: gotime
  d_casID :: uint64

definition toUserItem :: "mcDataItem \<Rightarrow> string \<Rightarrow> mcItem" where
  "toUserItem m key = \<lparr>it_key = key, it_value = d_value m, it_flags = d_flags m, it_expiration = 0,
     it_CasID = d_casID m\<rparr>"

record Statistics =
  Hits :: uint64
  Misses :: uint64
  ByteHits :: uint64
  Items :: uint64
  Bytes :: uint64
  Oldest :: int64

definition zero_stats :: Statistics where
  "zero_stats = \<lparr>Hits = 0, Misses = 0, ByteHits = 0, Items = 0, Bytes = 0, Oldest = 0\<rparr>"

record memcacheData =
  mc_items :: "(string \<times> mcDataItem) list"
  mc_casID :: uint64
  mc_stats :: Statistics

datatype mc_error = ErrCacheMiss | ErrCASConflict | ErrNotStored | ErrInvalidValue

section \<open>Operations under the lock\<close>

definition mkDataItemLocked :: "memcacheData \<Rightarrow> gotime \<Rightarrow> mcItem \<Rightarrow> mcDataItem \<times> memcacheData" where
  "mkDataItemLocked m now i =
     (let m = m\<lparr>mc_casID := mc_casID m + 1\<rparr>;
          exp = (if it_expiration i \<noteq> 0
                 then time_Truncate 1000000000 (time_Add now (sint (it_expiration i))) else zero_time)
      in (\<lparr>d_value = it_value i, d_flags = it_flags i, d_expiration = exp, d_casID = mc_casID m\<rparr>, m))"

definition count_out :: "Statistics \<Rightarrow> mcDataItem \<Rightarrow> Statistics" where
  "count_out s d = s\<lparr>Items := Items s - 1, Bytes := Bytes s - word_of_nat (length (d_value d))\<rparr>"

definition setItemLocked :: "memcacheData \<Rightarrow> gotime \<Rightarrow> mcItem \<Rightarrow> memcacheData" where
  "setItemLocked m now i =
     (let stats = (case map_of (mc_items m) (it_key i) of
                     Some cur \<Rightarrow> count_out (mc_stats m) cur | None \<Rightarrow> mc_stats m);
          stats = stats\<lparr>Items := Items stats + 1, Bytes := Bytes stats + word_of_nat (length (it_value i))\<rparr>;
          (d, m) = mkDataItemLocked (m\<lparr>mc_stats := stats\<rparr>) now i
      in m\<lparr>mc_items := al_set (mc_items m) (it_key i) d\<rparr>)"

definition delItemLocked :: "memcacheData \<Rightarrow> string \<Rightarrow> memcacheData" where
  "delItemLocked m k =
     (case map_of (mc_items m) k of
        Some itm \<Rightarrow> m\<lparr>mc_stats := count_out (mc_stats m) itm, mc_items := al_delete (mc_items m) k\<rparr>
      | None \<Rightarrow> m)"

definition mc_reset :: "memcacheData \<Rightarrow> memcacheData" where
  "mc_reset m = m\<lparr>mc_stats := zero_stats, mc_items := []\<rparr>"

definition expired :: "gotime \<Rightarrow> mcDataItem \<Rightarrow> bool" where
  "expired now d \<longleftrightarrow> \<not> time_IsZero (d_expiration d) \<and> time_Before (d_expiration d) now"

definition hasItemLocked :: "memcacheData \<Rightarrow> gotime \<Rightarrow> string \<Rightarrow> bool \<times> memcacheData" where
  "hasItemLocked m now key =
     (case map_of (mc_items m) key of
        None \<Rightarrow> (False, m)
      | Some d \<Rightarrow> if expired now d then (False, delItemLocked m key) else (True, m))"

definition retrieveLocked ::
    "memcacheData \<Rightarrow> gotime \<Rightarrow> string \<Rightarrow> (mc_error + mcDataItem) \<times> memcacheData" where
  "retrieveLocked m now key =
     (case hasItemLocked m now key of
        (False, m) \<Rightarrow> (Inl ErrCacheMiss, m\<lparr>mc_stats := (mc_stats m)\<lparr>Misses := Misses (mc_stats m) + 1\<rparr>\<rparr>)
      | (True, m) \<Rightarrow>
          (case map_of (mc_items m) key of
             None \<Rightarrow> (Inl ErrCacheMiss, m)
           | Some ret \<Rightarrow>
               (Inr ret, m\<lparr>mc_stats := (mc_stats m)\<lparr>Hits := Hits (mc_stats m) + 1,
                   ByteHits := ByteHits (mc_stats m) + word_of_nat (length (d_value ret))\<rparr>\<rparr>)))"

section \<open>Item operations\<close>

definition mc_Add :: "gotime \<Rightarrow> mcItem \<Rightarrow> memcacheData \<Rightarrow> mc_error option \<times> memcacheData" where
  "mc_Add now itm m =
     (case hasItemLocked m now (it_key itm) of
        (False, m) \<Rightarrow> (None, setItemLocked m now itm)
      | (True, m) \<Rightarrow> (Some ErrNotStored, m))"

definition mc_CompareAndSwap :: "gotime \<Rightarrow> mcItem \<Rightarrow> memcacheData \<Rightarrow> mc_error option \<times> memcacheData" where
  "mc_CompareAndSwap now itm m =
     (case retrieveLocked m now (it_key itm) of
        (Inr cur, m) \<Rightarrow>
          if d_casID cur = it_CasID itm then (None, setItemLocked m now itm)
          else (Some ErrCASConflict, m)
      | (Inl _, m) \<Rightarrow> (Some ErrNotStored, m))"

definition mc_Set :: "gotime \<Rightarrow> mcItem \<Rightarrow> memcacheData \<Rightarrow> mc_error option \<times> memcacheData" where
  "mc_Set now itm m = (None, setItemLocked m now itm)"

definition mc_Get :: "gotime \<Rightarrow> string \<Rightarrow> memcacheData \<Rightarrow> (mc_error + mcItem) \<times> memcacheData" where
  "mc_Get now k m =
     (case retrieveLocked m now k of
        (Inl err, m) \<Rightarrow> (Inl err, m)
      | (Inr val, m) \<Rightarrow> (Inr (toUserItem val k), m))"

definition mc_Delete :: "gotime \<Rightarrow> string \<Rightarrow> memcacheData \<Rightarrow> mc_error option \<times> memcacheData" where
  "mc_Delete now k m =
     (case retrieveLocked m now k of
        (Inl err, m) \<Rightarrow> (Some err, m)
      | (Inr _, m) \<Rightarrow> (None, delItemLocked m k))"

definition mc_Flush :: "memcacheData \<Rightarrow> memcacheData" where
  "mc_Flush m = mc_reset m"

text \<open>\<^verbatim>\<open>binary.LittleEndian\<close>: eight bytes, the lowest first.\<close>

fun le_digits :: "nat \<Rightarrow> nat \<Rightarrow> byte list" where
  "le_digits 0 n = []"
| "le_digits (Suc k) n = word_of_nat (n mod 256) # le_digits k (n div 256)"

definition PutUint64 :: "uint64 \<Rightarrow> byte list" where
  "PutUint64 v = le_digits 8 (unat v)"

definition Uint64 :: "byte list \<Rightarrow> uint64" where
  "Uint64 bs = word_of_nat (le_val bs)"

text \<open>The arithmetic of \<^verbatim>\<open>Increment\<close>: \<^verbatim>\<open>uint64(-delta)\<close> is the two's complement negation.\<close>

definition incr_value :: "uint64 \<Rightarrow> int64 \<Rightarrow> uint64" where
  "incr_value cur delta =
     (if sint delta < 0 then (if - delta > cur then 0 else cur - (- delta)) else cur + delta)"

definition mc_Increment ::
    "gotime \<Rightarrow> string \<Rightarrow> int64 \<Rightarrow> uint64 option \<Rightarrow> memcacheData \<Rightarrow> (mc_error + uint64) \<times> memcacheData" where
  "mc_Increment now key delta initialValue m =
     (case retrieveLocked m now key of (item, m) \<Rightarrow>
        (case (case item of
                 Inl err \<Rightarrow> if err = ErrCacheMiss \<and> initialValue \<noteq> None then Inr (the initialValue) else Inl err
               | Inr d \<Rightarrow> if length (d_value d) \<noteq> 8 then Inl ErrInvalidValue else Inr (Uint64 (d_value d))) of
           Inl err \<Rightarrow> (Inl err, m)
         | Inr cur \<Rightarrow>
             (let cur = incr_value cur delta in
              (Inr cur, setItemLocked m now ((NewItem key)\<lparr>it_value := PutUint64 cur\<rparr>)))))"

section \<open>Multi operations\<close>

text \<open>\<^verbatim>\<open>doCBs\<close> and the loops of \<^verbatim>\<open>GetMulti\<close> and \<^verbatim>\<open>DeleteMulti\<close>: the results, in the
  order in which the callback gets them, and the final state.\<close>

fun doCBs :: "('i \<Rightarrow> memcacheData \<Rightarrow> 'r \<times> memcacheData) \<Rightarrow> 'i list \<Rightarrow> memcacheData \<Rightarrow> 'r list \<times> memcacheData" where
  "doCBs inner [] m = ([], m)"
| "doCBs inner (i # rest) m =
     (case inner i m of (r, m) \<Rightarrow> (case doCBs inner rest m of (rs, m) \<Rightarrow> (r # rs, m)))"

definition AddMulti :: "gotime \<Rightarrow> mcItem list \<Rightarrow> memcacheData \<Rightarrow> mc_error option list \<times> memcacheData" where
  "AddMulti now items m = doCBs (mc_Add now) items m"

definition CompareAndSwapMulti :: "gotime \<Rightarrow> mcItem list \<Rightarrow> memcacheData \<Rightarrow> mc_error option list \<times> memcacheData" where
  "CompareAndSwapMulti now items m = doCBs (mc_CompareAndSwap now) items m"

definition SetMulti :: "gotime \<Rightarrow> mcItem list \<Rightarrow> memcacheData \<Rightarrow> mc_error option list \<times> memcacheData" where
  "SetMulti now items m = doCBs (mc_Set now) items m"

definition GetMulti :: "gotime \<Rightarrow> string list \<Rightarrow> memcacheData \<Rightarrow> (mc_error + mcItem) list \<times> memcacheData" where
  "GetMulti now keys m = doCBs (mc_Get now) keys m"

definition DeleteMulti :: "gotime \<Rightarrow> string list \<Rightarrow> memcacheData \<Rightarrow> mc_error option list \<times> memcacheData" where
  "DeleteMulti now keys m = doCBs (mc_Delete now) keys m"

definition new_memcacheData :: memcacheData where
  "new_memcacheData = \<lparr>mc_items = [], mc_casID = 0, mc_stats = zero_stats\<rparr>"

text \<open>The factory of \<^verbatim>\<open>useMC\<close>: the data of the caller's namespace, made on first use.\<close>

definition useMC :: "(string \<times> memcacheData) list \<Rightarrow> string \<Rightarrow> memcacheData \<times> (string \<times> memcacheData) list" where
  "useMC mcdMap ns =
     (case map_of mcdMap ns of
        Some mcd \<Rightarrow> (mcd, mcdMap)
      | None \<Rightarrow> (new_memcacheData, al_set mcdMap ns new_memcacheData))"

section \<open>Reachable states\<close>

inductive mc_step :: "memcacheData \<Rightarrow> memcacheData \<Rightarrow> bool" where
  add: "mc_step m (snd (mc_Add now itm m))"
| cas: "mc_step m (snd (mc_CompareAndSwap now itm m))"
| set: "mc_step m (snd (mc_Set now itm m))"
| get: "mc_step m (snd (mc_Get now k m))"
| delete: "mc_step m (snd (mc_Delete now k m))"
| flush: "mc_step m (mc_Flush m)"
| increment: "mc_step m (snd (mc_Increment now k delta init m))"

section \<open>The statistics\<close>

definition mc_inv :: "memcacheData \<Rightarrow> bool" where
  "mc_inv m \<longleftrightarrow> distinct (map fst (mc_items m)) \<and>
     Items (mc_stats m) = (\<Sum>(k, d) \<leftarrow> mc_items m. 1) \<and>
     Bytes (mc_stats m) = (\<Sum>(k, d) \<leftarrow> mc_items m. word_of_nat (length (d_value d)))"

lemma setItemLocked_eq:
  "setItemLocked m now i =
     (let stats = (case map_of (mc_items m) (it_key i) of
                     Some cur \<Rightarrow> count_out (mc_stats m) cur | None \<Rightarrow> mc_stats m) in
      m\<lparr>mc_items := al_set (mc_items m) (it_key i) (fst (mkDataItemLocked m now i)),
        mc_casID := mc_casID m + 1,
        mc_stats := stats\<lparr>Items := Items stats + 1, Bytes := Bytes stats + word_of_nat (length (it_value i))\<rparr>\<rparr>)"
  by (simp add: setItemLocked_def mkDataItemLocked_def Let_def)

lemma mc_inv_set: "mc_inv m \<Longrightarrow> mc_inv (setItemLocked m now i)"
proof -
  assume inv: "mc_inv m"
  let ?d = "fst (mkDataItemLocked m now i)"
  have d: "d_value ?d = it_value i" by (simp add: mkDataItemLocked_def Let_def)
  have dist: "distinct (map fst (mc_items m))" using inv by (simp add: mc_inv_def)
  note sums = sum_al_set [OF dist, where k = "it_key i" and v = ?d and f = "\<lambda>_. 1 :: uint64"]
    sum_al_set [OF dist, where k = "it_key i" and v = ?d and f = "\<lambda>d. word_of_nat (length (d_value d)) :: uint64"]
  show ?thesis
    using inv sums d dist unfolding setItemLocked_eq Let_def mc_inv_def
    by (cases "map_of (mc_items m) (it_key i)")
      (auto simp: distinct_al_set count_out_def eq_diff_eq [symmetric] simp del: map_of_eq_Some_iff)
qed

lemma mc_inv_del: "mc_inv m \<Longrightarrow> mc_inv (delItemLocked m k)"
proof -
  assume inv: "mc_inv m"
  then have dist: "distinct (map fst (mc_items m))" by (simp add: mc_inv_def)
  note sums = sum_al_delete [OF dist, where k = k and f = "\<lambda>_. 1 :: uint64"]
    sum_al_delete [OF dist, where k = k and f = "\<lambda>d. word_of_nat (length (d_value d)) :: uint64"]
  show ?thesis
    using inv sums dist unfolding delItemLocked_def mc_inv_def
    by (cases "map_of (mc_items m) k")
      (auto simp: distinct_al_delete count_out_def eq_diff_eq [symmetric] simp del: map_of_eq_Some_iff)
qed

lemma mc_inv_cong:
  "mc_inv m \<Longrightarrow> Items s = Items (mc_stats m) \<Longrightarrow> Bytes s = Bytes (mc_stats m) \<Longrightarrow> mc_inv (m\<lparr>mc_stats := s\<rparr>)"
  by (simp add: mc_inv_def)

lemma mc_inv_has: "mc_inv m \<Longrightarrow> mc_inv (snd (hasItemLocked m now k))"
  by (auto simp: hasItemLocked_def mc_inv_del split: option.splits)

lemma mc_inv_retrieve: "mc_inv m \<Longrightarrow> mc_inv (snd (retrieveLocked m now k))"
  using mc_inv_has [of m now k]
  by (cases "hasItemLocked m now k") (auto simp: retrieveLocked_def intro: mc_inv_cong split: bool.splits option.splits)

lemma mc_step_inv: "mc_step m m' \<Longrightarrow> mc_inv m \<Longrightarrow> mc_inv m'"
proof (induction rule: mc_step.induct)
  case (add m now itm)
  then show ?case using mc_inv_has [of m now "it_key itm"]
    by (auto simp: mc_Add_def mc_inv_set split: prod.splits bool.splits)
next
  case (cas m now itm)
  then show ?case using mc_inv_retrieve [of m now "it_key itm"]
    by (auto simp: mc_CompareAndSwap_def mc_inv_set split: prod.splits sum.splits)
next
  case (get m now k)
  then show ?case using mc_inv_retrieve [of m now k]
    by (auto simp: mc_Get_def split: prod.splits sum.splits)
next
  case (delete m now k)
  then show ?case using mc_inv_retrieve [of m now k]
    by (auto simp: mc_Delete_def mc_inv_del split: prod.splits sum.splits)
next
  case (increment m now k delta init)
  then show ?case using mc_inv_retrieve [of m now k]
    by (auto simp: mc_Increment_def Let_def mc_inv_set split: prod.splits sum.splits)
next
  case (set m now itm)
  then show ?case by (simp add: mc_Set_def mc_inv_set)
next
  case (flush m)
  then show ?case by (simp add: mc_Flush_def mc_reset_def mc_inv_def zero_stats_def)
qed

section \<open>CAS identifiers\<close>

text \<open>Every data item carries the counter value of the write that made it.\<close>

definition written_since :: "memcacheData \<Rightarrow> memcacheData \<Rightarrow> bool" where
  "written_since m0 m \<longleftrightarrow> unat (mc_casID m0) \<le> unat (mc_casID m) \<and>
     (\<forall>k d. map_of (mc_items m) k = Some d \<longrightarrow>
        map_of (mc_items m0) k = Some d \<or>
        unat (mc_casID m0) < unat (d_casID d) \<and> unat (d_casID d) \<le> unat (mc_casID m))"

text \<open>One operation writes at most one item; the counter does not wrap in it.\<close>

definition no_wrap :: "memcacheData \<Rightarrow> bool" where
  "no_wrap m \<longleftrightarrow> mc_casID m + 1 \<noteq> 0"

lemma written_since_refl: "written_since m m"
  by (simp add: written_since_def)

lemma written_since_trans:
  "written_since a b \<Longrightarrow> written_since b c \<Longrightarrow> written_since a c"
  unfolding written_since_def by (meson le_less_trans le_trans order_less_le_trans)

lemma written_since_set: "no_wrap m \<Longrightarrow> written_since m (setItemLocked m now i)"
proof -
  assume "no_wrap m"
  then have "unat (mc_casID m + 1) = Suc (unat (mc_casID m))"
    using unatSuc [of "mc_casID m"] by (simp add: no_wrap_def add.commute)
  then show ?thesis
    by (auto simp: written_since_def setItemLocked_eq map_of_al_set mkDataItemLocked_def Let_def)
qed

lemma written_since_del: "written_since m (delItemLocked m k)"
  by (auto simp: written_since_def delItemLocked_def map_of_al_delete split: option.splits if_splits)

lemma casID_del [simp]: "mc_casID (delItemLocked m k) = mc_casID m"
  by (simp add: delItemLocked_def split: option.splits)

lemma written_since_stats: "written_since m (m'\<lparr>mc_stats := s\<rparr>) = written_since m m'"
  by (simp add: written_since_def)

lemma written_since_has:
  "written_since m (snd (hasItemLocked m now k)) \<and> mc_casID (snd (hasItemLocked m now k)) = mc_casID m"
  by (auto simp: hasItemLocked_def written_since_refl written_since_del split: option.splits)

lemma written_since_retrieve:
  "written_since m (snd (retrieveLocked m now k)) \<and> mc_casID (snd (retrieveLocked m now k)) = mc_casID m"
  using written_since_has [of m now k]
  by (cases "hasItemLocked m now k")
    (auto simp: retrieveLocked_def written_since_stats split: bool.splits option.splits)

lemma written_since_then_set:
  "written_since m m' \<Longrightarrow> mc_casID m' = mc_casID m \<Longrightarrow> no_wrap m \<Longrightarrow> written_since m (setItemLocked m' now i)"
  by (rule written_since_trans) (auto simp: no_wrap_def intro: written_since_set)

lemma mc_step_written: "mc_step m m' \<Longrightarrow> no_wrap m \<Longrightarrow> written_since m m'"
proof (induction rule: mc_step.induct)
  case (add m now itm)
  then show ?case using written_since_has [of m now "it_key itm"]
    by (auto simp: mc_Add_def written_since_then_set split: prod.splits bool.splits)
next
  case (cas m now itm)
  then show ?case using written_since_retrieve [of m now "it_key itm"]
    by (auto simp: mc_CompareAndSwap_def written_since_then_set split: prod.splits sum.splits)
next
  case (get m now k)
  then show ?case using written_since_retrieve [of m now k]
    by (auto simp: mc_Get_def split: prod.splits sum.splits)
next
  case (delete m now k)
  then show ?case using written_since_retrieve [of m now k]
    by (auto simp: mc_Delete_def intro: written_since_trans written_since_del split: prod.splits sum.splits)
next
  case (increment m now k delta init)
  then show ?case using written_since_retrieve [of m now k]
    by (auto simp: mc_Increment_def Let_def written_since_then_set split: prod.splits sum.splits)
next
  case (set m now itm)
  then show ?case by (simp add: mc_Set_def written_since_set)
next
  case (flush m)
  then show ?case by (simp add: mc_Flush_def mc_reset_def written_since_def)
qed

section \<open>What a client sees\<close>

text \<open>The abstract cache at a moment: the items that have not expired.\<close>

definition live :: "gotime \<Rightarrow> memcacheData \<Rightarrow> string \<Rightarrow> mcDataItem option" where
  "live now m k = (case map_of (mc_items m) k of
     Some d \<Rightarrow> if expired now d then None else Some d | None \<Rightarrow> None)"

definition user_view :: "gotime \<Rightarrow> memcacheData \<Rightarrow> string \<Rightarrow> (byte list \<times> uint32) option" where
  "user_view now m k = map_option (\<lambda>d. (d_value d, d_flags d)) (live now m k)"

lemma live_del: "live now (delItemLocked m k) = (live now m)(k := None)"
  by (auto simp: live_def delItemLocked_def map_of_al_delete split: option.splits)

lemma live_has:
  "fst (hasItemLocked m now k) \<longleftrightarrow> live now m k \<noteq> None"
  "live now (snd (hasItemLocked m now k)) = live now m"
  by (auto simp: hasItemLocked_def live_del live_def split: option.splits)

lemma live_stats [simp]: "live now (m\<lparr>mc_stats := s\<rparr>) = live now m"
  by (auto simp: live_def)

lemma has_map_of:
  "hasItemLocked m now k = (True, m') \<Longrightarrow> m' = m \<and> map_of (mc_items m) k = live now m k"
  by (auto simp: hasItemLocked_def live_def split: option.splits if_splits)

lemma retrieve_live:
  "fst (retrieveLocked m now k) = (case live now m k of None \<Rightarrow> Inl ErrCacheMiss | Some d \<Rightarrow> Inr d)"
  "live now (snd (retrieveLocked m now k)) = live now m"
proof -
  obtain b m' where h: "hasItemLocked m now k = (b, m')" by fastforce
  have b: "b \<longleftrightarrow> live now m k \<noteq> None" and l: "live now m' = live now m"
    using live_has [where m = m and now = now and k = k] h by auto
  show "fst (retrieveLocked m now k) = (case live now m k of None \<Rightarrow> Inl ErrCacheMiss | Some d \<Rightarrow> Inr d)"
    "live now (snd (retrieveLocked m now k)) = live now m"
    using b l h has_map_of [of m now k m']
    by (cases b; auto simp: retrieveLocked_def split: option.splits)+
qed

definition stored :: "gotime \<Rightarrow> mcItem \<Rightarrow> uint64 \<Rightarrow> mcDataItem" where
  "stored now i cas = \<lparr>d_value = it_value i, d_flags = it_flags i,
     d_expiration = (if it_expiration i \<noteq> 0
       then time_Truncate 1000000000 (time_Add now (sint (it_expiration i))) else zero_time), d_casID = cas\<rparr>"

lemma live_set:
  "live now (setItemLocked m now' i) =
     (live now m)(it_key i := if expired now (stored now' i (mc_casID m + 1)) then None
                              else Some (stored now' i (mc_casID m + 1)))"
  by (auto simp: live_def setItemLocked_eq mkDataItemLocked_def Let_def map_of_al_set stored_def)

lemma never_expires: "it_expiration i = 0 \<Longrightarrow> \<not> expired now (stored now' i cas)"
  by (simp add: expired_def stored_def time_IsZero_def zero_time_def)

lemma le_val_digits: "le_val (le_digits k n) = n mod 256 ^ k"
proof (induction k arbitrary: n)
  case (Suc k)
  have "unat (word_of_nat (n mod 256) :: byte) = n mod 256" by (simp add: unat_of_nat)
  moreover have "n mod (256 * 256 ^ k) = n mod 256 + 256 * (n div 256 mod 256 ^ k)"
    by (simp add: mod_mult2_eq)
  ultimately show ?case using Suc by simp
qed simp

lemma length_le_digits: "length (le_digits k n) = k"
  by (induction k arbitrary: n) simp_all

lemma Uint64_Put: "Uint64 (PutUint64 v) = v"
proof -
  have "unat v < 256 ^ 8" using unsigned_less [of v] by simp
  then show ?thesis by (simp add: Uint64_def PutUint64_def le_val_digits)
qed

lemma unat_word_of_int64:
  assumes "0 \<le> n" "n < 18446744073709551616"
  shows "unat (word_of_int n :: uint64) = nat n"
  using assms by (simp add: unsigned_of_int take_bit_int_eq_self)

lemma incr_value_spec:
  "unat (incr_value cur delta) =
     (if sint delta < 0 then nat (max 0 (int (unat cur) + sint delta))
      else (unat cur + nat (sint delta)) mod 2 ^ 64)"
proof (cases "sint delta < 0")
  case True
  have "unat (word_of_int (- sint delta) :: uint64) = nat (- sint delta)"
    using True sint_int64_range [of delta] by (intro unat_word_of_int64) auto
  then have neg: "unat (- delta) = nat (- sint delta)" by simp
  show ?thesis
  proof (cases "cur < - delta")
    case less: True
    then have "unat cur < nat (- sint delta)" using neg by (simp only: word_less_nat_alt)
    then have "int (unat cur) + sint delta < 0" by linarith
    then show ?thesis using True less by (simp add: incr_value_def)
  next
    case False
    then have le: "- delta \<le> cur" by simp
    then have "unat (cur - (- delta)) = unat cur - nat (- sint delta)" using neg by (simp only: unat_sub)
    moreover have "nat (- sint delta) \<le> unat cur" using le neg by (simp add: word_le_nat_alt)
    moreover have "x - nat (- y) = nat (max 0 (int x + y))" if "nat (- y) \<le> x" "y < 0" for x y
      using that by linarith
    ultimately show ?thesis using True False by (simp only: incr_value_def if_True if_False)
  qed
next
  case False
  have "unat (word_of_int (sint delta) :: uint64) = nat (sint delta)"
    using False sint_int64_range [of delta] by (intro unat_word_of_int64) auto
  then have "unat delta = nat (sint delta)" by simp
  then show ?thesis using False by (simp add: incr_value_def unat_word_ariths)
qed

section \<open>Properties\<close>

text \<open>
  The statistics of the in-memory memcache are exact in every state that any interleaving of item
  operations reaches: \<^verbatim>\<open>Items\<close> is the number of stored items and \<^verbatim>\<open>Bytes\<close> the total size of their
  values (modulo 2^64, the counters' width), and no key is stored twice.
\<close>

theorem memcache_statistics:
  assumes "mc_step\<^sup>*\<^sup>* new_memcacheData m"
  shows "Items (mc_stats m) = word_of_nat (length (mc_items m)) \<and>
    Bytes (mc_stats m) = word_of_nat (\<Sum>(k, d) \<leftarrow> mc_items m. length (d_value d)) \<and>
    distinct (map fst (mc_items m))"
proof -
  have "mc_inv new_memcacheData" by (simp add: mc_inv_def new_memcacheData_def zero_stats_def)
  with assms have inv: "mc_inv m" by (induction rule: rtranclp_induct) (auto intro: mc_step_inv)
  have "(\<Sum>(k, d) \<leftarrow> xs. 1) = (word_of_nat (length xs) :: uint64)"
    "(\<Sum>(k, d) \<leftarrow> xs. word_of_nat (length (d_value d))) = (word_of_nat (\<Sum>(k, d) \<leftarrow> xs. length (d_value d)) :: uint64)"
    for xs :: "(string \<times> mcDataItem) list" by (induction xs) auto
  then show ?thesis using inv by (simp add: mc_inv_def)
qed

theorem memcache_statistics_witness:
  "Items (mc_stats (snd (mc_Set zero_time (NewItem ''k'') new_memcacheData))) = 1"
proof -
  let ?m = "snd (mc_Set zero_time (NewItem ''k'') new_memcacheData)"
  have "mc_step\<^sup>*\<^sup>* new_memcacheData ?m" by (rule r_into_rtranclp) (rule mc_step.set)
  moreover have "length (mc_items ?m) = 1"
    by (simp add: mc_Set_def setItemLocked_eq Let_def new_memcacheData_def)
  ultimately show ?thesis using memcache_statistics [of ?m] by simp
qed

text \<open>
  C19. Compare-and-swap safety: take an item from \<^verbatim>\<open>Get\<close> in one state and offer it (with any new contents) to
  \<^verbatim>\<open>CompareAndSwap\<close> in a later state, whatever other operations ran in between, as long as the 64-bit write
  counter did not wrap. It is stored, under a new identifier and changing no other key, exactly when the key still holds,
  unexpired, the very item that was read; otherwise nothing visible changes and the answer is \<^verbatim>\<open>ErrNotStored\<close> if
  the key holds nothing and \<^verbatim>\<open>ErrCASConflict\<close> if it was rewritten, even with the same value.
\<close>

theorem CompareAndSwap_safe:
  assumes run0: "(\<lambda>a b. mc_step a b \<and> no_wrap a)\<^sup>*\<^sup>* new_memcacheData m0"
    and run: "(\<lambda>a b. mc_step a b \<and> no_wrap a)\<^sup>*\<^sup>* m0 m"
    and got: "fst (mc_Get now0 k m0) = Inr itm"
    and new: "it_key itm' = k" "it_CasID itm' = it_CasID itm"
  shows "fst (mc_CompareAndSwap now itm' m) =
    (if live now m k = None then Some ErrNotStored
     else if map_of (mc_items m) k = map_of (mc_items m0) k then None
     else Some ErrCASConflict) \<and>
    live now (snd (mc_CompareAndSwap now itm' m)) =
    (if live now m k \<noteq> None \<and> map_of (mc_items m) k = map_of (mc_items m0) k
     then (live now m)(k := let new = stored now itm' (mc_casID m + 1) in if expired now new then None else Some new)
     else live now m)"
proof -
  have since: "written_since a b" if "(\<lambda>a b. mc_step a b \<and> no_wrap a)\<^sup>*\<^sup>* a b" for a b
    using that by (induction rule: rtranclp_induct) (auto intro: written_since_refl written_since_trans mc_step_written)
  obtain d0 where d0: "map_of (mc_items m0) k = Some d0" and id0: "it_CasID itm' = d_casID d0"
  proof -
    have "live now0 m0 k \<noteq> None" using got retrieve_live(1) [of m0 now0 k]
      by (auto simp: mc_Get_def split: prod.splits sum.splits option.splits)
    then obtain d where d: "live now0 m0 k = Some d" by blast
    then have "it_CasID itm = d_casID d"
      using got retrieve_live(1) [of m0 now0 k] by (auto simp: mc_Get_def toUserItem_def split: prod.splits)
    moreover have "map_of (mc_items m0) k = Some d"
      using d by (auto simp: live_def split: option.splits if_splits)
    ultimately show ?thesis using that new by simp
  qed
  have old: "unat (d_casID d0) \<le> unat (mc_casID m0)"
    using since [OF run0] d0 by (auto simp: written_since_def new_memcacheData_def)
  obtain r m1 where r: "retrieveLocked m now k = (r, m1)" by fastforce
  have rl: "r = (case live now m k of None \<Rightarrow> Inl ErrCacheMiss | Some d \<Rightarrow> Inr d)" "live now m1 = live now m" "mc_casID m1 = mc_casID m"
    using retrieve_live [where m = m and now = now and k = k] written_since_retrieve [of m now k] r by auto
  show ?thesis
  proof (cases "live now m k")
    case None
    then show ?thesis using r rl new by (simp add: mc_CompareAndSwap_def)
  next
    case (Some d)
    then have d: "map_of (mc_items m) k = Some d" by (auto simp: live_def split: option.splits if_splits)
    have "d_casID d = d_casID d0 \<longleftrightarrow> d = d0"
      using since [OF run] d d0 old unfolding written_since_def by fastforce
    then show ?thesis
      using Some r rl new id0 d d0 by (simp add: mc_CompareAndSwap_def live_set Let_def)
  qed
qed

theorem CompareAndSwap_safe_witness:
  "let m = snd (mc_Set zero_time (NewItem ''k'') new_memcacheData);
       itm = (toUserItem \<lparr>d_value = [], d_flags = 0, d_expiration = zero_time, d_casID = 1\<rparr> ''k'')\<lparr>it_value := [7]\<rparr>;
       r = mc_CompareAndSwap zero_time itm m
   in fst r = None \<and> live zero_time (snd r) ''k'' = Some \<lparr>d_value = [7], d_flags = 0, d_expiration = zero_time, d_casID = 2\<rparr>"
proof -
  let ?m = "snd (mc_Set zero_time (NewItem ''k'') new_memcacheData)"
  let ?itm = "toUserItem \<lparr>d_value = [], d_flags = 0, d_expiration = zero_time, d_casID = 1\<rparr> ''k''"
  have items: "mc_items ?m = [(''k'', \<lparr>d_value = [], d_flags = 0, d_expiration = zero_time, d_casID = 1\<rparr>)]"
    by (simp add: mc_Set_def setItemLocked_eq mkDataItemLocked_def NewItem_def Let_def new_memcacheData_def)
  have live: "live zero_time ?m ''k'' = Some \<lparr>d_value = [], d_flags = 0, d_expiration = zero_time, d_casID = 1\<rparr>"
    unfolding live_def items by (simp add: expired_def time_IsZero_def zero_time_def)
  have run: "(\<lambda>a b. mc_step a b \<and> no_wrap a)\<^sup>*\<^sup>* new_memcacheData ?m"
    by (rule r_into_rtranclp) (simp add: mc_step.set no_wrap_def new_memcacheData_def)
  have got: "fst (mc_Get zero_time ''k'' ?m) = Inr ?itm"
    using retrieve_live(1) [of ?m zero_time "''k''"] live by (auto simp: mc_Get_def split: prod.splits)
  have cas: "mc_casID ?m = 1"
    by (simp add: mc_Set_def setItemLocked_eq mkDataItemLocked_def NewItem_def Let_def new_memcacheData_def)
  show ?thesis
    using CompareAndSwap_safe [OF run rtranclp.rtrancl_refl got, of "?itm\<lparr>it_value := [7]\<rparr>" zero_time] live cas
      never_expires [of "?itm\<lparr>it_value := [7]\<rparr>" zero_time]
    by (simp add: toUserItem_def stored_def Let_def)
qed

text \<open>
  C28. What a client sees, at one clock reading, is a map: \<^verbatim>\<open>Get\<close> returns the live item of a key (a
  copy of value and flags, the expiration cleared) or a cache miss, and changes nothing visible; \<^verbatim>\<open>Set\<close>
  replaces the key; \<^verbatim>\<open>Add\<close> does so only if the key has no live item and is refused otherwise;
  \<^verbatim>\<open>Delete\<close> removes a live item and misses otherwise; \<^verbatim>\<open>Flush\<close> removes everything. Other keys never
  change.
\<close>

theorem memcache_refines_map:
  "fst (mc_Get now k m) = (case live now m k of None \<Rightarrow> Inl ErrCacheMiss | Some d \<Rightarrow> Inr (toUserItem d k)) \<and>
   live now (snd (mc_Get now k m)) = live now m \<and>
   (let new = stored now itm (mc_casID m + 1);
        after = (live now m)(it_key itm := if expired now new then None else Some new) in
    live now (snd (mc_Set now itm m)) = after \<and>
    (if live now m (it_key itm) = None
     then fst (mc_Add now itm m) = None \<and> live now (snd (mc_Add now itm m)) = after
     else fst (mc_Add now itm m) = Some ErrNotStored \<and> live now (snd (mc_Add now itm m)) = live now m)) \<and>
   fst (mc_Delete now k m) = (if live now m k = None then Some ErrCacheMiss else None) \<and>
   live now (snd (mc_Delete now k m)) = (live now m)(k := None) \<and>
   live now (mc_Flush m) = (\<lambda>_. None)"
proof -
  obtain r m1 where r: "retrieveLocked m now k = (r, m1)" by fastforce
  have rl: "r = (case live now m k of None \<Rightarrow> Inl ErrCacheMiss | Some d \<Rightarrow> Inr d)" "live now m1 = live now m"
    using retrieve_live [where m = m and now = now and k = k] r by auto
  obtain b m2 where h: "hasItemLocked m now (it_key itm) = (b, m2)" by fastforce
  have hl: "b \<longleftrightarrow> live now m (it_key itm) \<noteq> None" "live now m2 = live now m"
    using live_has [where m = m and now = now and k = "it_key itm"] h by auto
  have cas: "mc_casID m2 = mc_casID m" using written_since_has [of m now "it_key itm"] h by simp
  have "fst (mc_Get now k m) = (case live now m k of None \<Rightarrow> Inl ErrCacheMiss | Some d \<Rightarrow> Inr (toUserItem d k))"
    "live now (snd (mc_Get now k m)) = live now m"
    using r rl by (auto simp: mc_Get_def split: option.splits)
  moreover have "fst (mc_Delete now k m) = (if live now m k = None then Some ErrCacheMiss else None)"
    "live now (snd (mc_Delete now k m)) = (live now m)(k := None)"
    using r rl by (auto simp: mc_Delete_def live_del split: option.splits)
  moreover have "live now (mc_Flush m) = (\<lambda>_. None)"
    by (auto simp: mc_Flush_def mc_reset_def live_def)
  moreover have "live now (snd (mc_Set now itm m)) = (live now m)(it_key itm :=
      if expired now (stored now itm (mc_casID m + 1)) then None else Some (stored now itm (mc_casID m + 1)))"
    by (simp add: mc_Set_def live_set)
  moreover have "if live now m (it_key itm) = None
     then fst (mc_Add now itm m) = None \<and> live now (snd (mc_Add now itm m)) = (live now m)(it_key itm :=
       if expired now (stored now itm (mc_casID m + 1)) then None else Some (stored now itm (mc_casID m + 1)))
     else fst (mc_Add now itm m) = Some ErrNotStored \<and> live now (snd (mc_Add now itm m)) = live now m"
    using h hl cas by (cases b) (auto simp: mc_Add_def live_set)
  ultimately show ?thesis by (simp add: Let_def)
qed

text \<open>
  C34. \<^verbatim>\<open>Increment\<close> adds a signed delta to the little-endian number stored under a key (or to the initial
  value if the key has no live item): a negative delta stops at 0, a positive one wraps at 2^64; the new number
  is stored without expiration and read back by the next \<^verbatim>\<open>Increment\<close>. A value that is not eight bytes long, or
  a missing key without an initial value, is an error and changes nothing visible.
\<close>

theorem Increment_arithmetic:
  "case mc_Increment now key delta init m of (res, m') \<Rightarrow>
     (let cur = (case live now m key of
                   None \<Rightarrow> (case init of None \<Rightarrow> Inl ErrCacheMiss | Some v \<Rightarrow> Inr v)
                 | Some d \<Rightarrow> if length (d_value d) = 8 then Inr (Uint64 (d_value d)) else Inl ErrInvalidValue) in
      case cur of
        Inl e \<Rightarrow> res = Inl e \<and> live now m' = live now m
      | Inr c \<Rightarrow> (\<exists>v d. res = Inr v \<and> live now m' = (live now m)(key \<mapsto> d) \<and>
          length (d_value d) = 8 \<and> Uint64 (d_value d) = v \<and> d_expiration d = zero_time \<and>
          int (unat v) = (if sint delta < 0 then max 0 (int (unat c) + sint delta)
                          else (int (unat c) + sint delta) mod 2 ^ 64)))"
proof -
  obtain r m1 where r: "retrieveLocked m now key = (r, m1)" by fastforce
  have rl: "r = (case live now m key of None \<Rightarrow> Inl ErrCacheMiss | Some d \<Rightarrow> Inr d)" "live now m1 = live now m"
    using retrieve_live [where m = m and now = now and k = key] r by auto
  have put: "\<exists>d. live now (setItemLocked m1 now ((NewItem key)\<lparr>it_value := PutUint64 v\<rparr>)) = (live now m)(key \<mapsto> d) \<and>
      length (d_value d) = 8 \<and> Uint64 (d_value d) = v \<and> d_expiration d = zero_time" for v
  proof -
    let ?i = "(NewItem key)\<lparr>it_value := PutUint64 v\<rparr>"
    have "it_key ?i = key" "it_expiration ?i = 0" "it_value ?i = PutUint64 v" by (simp_all add: NewItem_def)
    then show ?thesis
      using never_expires [of ?i] rl(2)
      by (intro exI [of _ "stored now ?i (mc_casID m1 + 1)"])
        (simp add: live_set, simp add: stored_def Uint64_Put, simp add: PutUint64_def length_le_digits)
  qed
  have num: "int (unat (incr_value c delta)) = (if sint delta < 0 then max 0 (int (unat c) + sint delta)
      else (int (unat c) + sint delta) mod 2 ^ 64)" for c
    by (simp add: incr_value_spec zmod_int)
  show ?thesis
    unfolding mc_Increment_def r prod.case
    using rl put num by (auto simp: Let_def split: option.splits)
qed

end
