(* ===== verification/Go_Heap.thy ===== *)
theory Go_Heap
  imports Main "HOL-Library.Multiset"
begin

text \<open>
  Go's \<^verbatim>\<open>container/heap\<close> on a slice: the array heap that the task indexes of
  \<^verbatim>\<open>impl/memory/taskqueue_data.go\<close> are kept in. The functions take the element order as
  an argument, as the package takes it from the \<^verbatim>\<open>heap.Interface\<close>; the laws the order has
  to obey are the locale \<open>heap_order\<close>, in which the operations are proved to keep the
  heap property, to move the right elements, and to find the least one.
\<close>

section \<open>The operations\<close>

definition swap_at :: "'a list \<Rightarrow> nat \<Rightarrow> nat \<Rightarrow> 'a list" where
  "swap_at xs i j = xs[i := xs ! j, j := xs ! i]"

text \<open>\<^verbatim>\<open>up\<close>: at the root Go's \<^verbatim>\<open>(j-1)/2\<close> is \<open>0\<close>, so that \<^verbatim>\<open>i == j\<close> ends the loop.\<close>

definition heap_parent :: "nat \<Rightarrow> nat" where
  "heap_parent j = (j - 1) div 2"

lemma heap_parent_less: "0 < k \<Longrightarrow> heap_parent k < k"
  unfolding heap_parent_def by linarith

lemma heap_parent_le: "heap_parent k \<le> k"
  unfolding heap_parent_def by linarith

lemma heap_parent_eq: "heap_parent k = k \<longleftrightarrow> k = 0"
  unfolding heap_parent_def by linarith

lemma child_cases: "0 < k \<Longrightarrow> heap_parent k = i \<longleftrightarrow> k = 2 * i + 1 \<or> k = 2 * i + (2 :: nat)"
  unfolding heap_parent_def by linarith

function heap_up :: "('a \<Rightarrow> 'a \<Rightarrow> bool) \<Rightarrow> 'a list \<Rightarrow> nat \<Rightarrow> 'a list" where
  "heap_up lt xs j =
     (let i = heap_parent j in
      if i = j \<or> \<not> lt (xs ! j) (xs ! i) then xs else heap_up lt (swap_at xs i j) i)"
  by pat_completeness auto
termination
  by (relation "measure (\<lambda>(lt, xs, j). j)") (auto simp: heap_parent_eq intro: heap_parent_less)

text \<open>\<^verbatim>\<open>down\<close> on the first \<open>n\<close> elements, with the position at which the loop stops.\<close>

function heap_down :: "('a \<Rightarrow> 'a \<Rightarrow> bool) \<Rightarrow> 'a list \<Rightarrow> nat \<Rightarrow> nat \<Rightarrow> 'a list \<times> nat" where
  "heap_down lt xs i n =
     (let j1 = 2 * i + 1 in
      if j1 \<ge> n then (xs, i)
      else let j2 = j1 + 1; j = (if j2 < n \<and> lt (xs ! j2) (xs ! j1) then j2 else j1) in
        if \<not> lt (xs ! j) (xs ! i) then (xs, i) else heap_down lt (swap_at xs i j) j n)"
  by pat_completeness auto
termination
  by (relation "measure (\<lambda>(lt, xs, i, n). n - i)") (auto simp: Let_def split: if_splits)

declare heap_up.simps [simp del] heap_down.simps [simp del]

definition heap_Push :: "('a \<Rightarrow> 'a \<Rightarrow> bool) \<Rightarrow> 'a list \<Rightarrow> 'a \<Rightarrow> 'a list" where
  "heap_Push lt xs x = heap_up lt (xs @ [x]) (length xs)"

text \<open>\<^verbatim>\<open>Pop\<close> and \<^verbatim>\<open>Remove\<close> are called on a non-empty slice and an index inside it.\<close>

definition heap_Pop :: "('a \<Rightarrow> 'a \<Rightarrow> bool) \<Rightarrow> 'a list \<Rightarrow> 'a \<times> 'a list" where
  "heap_Pop lt xs =
     (let n = length xs - 1; ys = fst (heap_down lt (swap_at xs 0 n) 0 n) in (last ys, butlast ys))"

definition heap_Remove :: "('a \<Rightarrow> 'a \<Rightarrow> bool) \<Rightarrow> 'a list \<Rightarrow> nat \<Rightarrow> 'a \<times> 'a list" where
  "heap_Remove lt xs i =
     (let n = length xs - 1;
          ys = (if n \<noteq> i
                then (case heap_down lt (swap_at xs i n) i n of (ys, i') \<Rightarrow>
                        if \<not> i' > i then heap_up lt ys i else ys)
                else xs)
      in (last ys, butlast ys))"

section \<open>Elements are only moved\<close>

lemma length_swap_at [simp]: "length (swap_at xs i j) = length xs"
  by (simp add: swap_at_def)

lemma nth_swap_at:
  "i < length xs \<Longrightarrow> j < length xs \<Longrightarrow>
   swap_at xs i j ! k = (if k = j then xs ! i else if k = i then xs ! j else xs ! k)"
  by (simp add: swap_at_def nth_list_update)

lemma mset_swap_at: "i < length xs \<Longrightarrow> j < length xs \<Longrightarrow> mset (swap_at xs i j) = mset xs"
  unfolding swap_at_def by (rule mset_swap)

lemma mset_heap_up: "j < length xs \<Longrightarrow> mset (heap_up lt xs j) = mset xs"
proof (induction lt xs j rule: heap_up.induct)
  case (1 lt xs j)
  let ?i = "heap_parent j"
  show ?case
  proof (cases "?i = j \<or> \<not> lt (xs ! j) (xs ! ?i)")
    case True
    then show ?thesis by (simp add: heap_up.simps [of lt xs j] Let_def)
  next
    case False
    then have "mset (heap_up lt (swap_at xs ?i j) ?i) = mset (swap_at xs ?i j)"
      using 1(2) heap_parent_le [of j] by (intro 1(1)) auto
    then show ?thesis using False 1(2) heap_parent_le [of j]
      by (simp add: heap_up.simps [of lt xs j] Let_def mset_swap_at)
  qed
qed

lemma length_heap_up [simp]: "length (heap_up lt xs j) = length xs"
proof (induction lt xs j rule: heap_up.induct)
  case (1 lt xs j)
  then show ?case by (subst heap_up.simps) (auto simp: Let_def)
qed

lemma heap_up_frame: "j < k \<Longrightarrow> heap_up lt xs j ! k = xs ! k"
proof (induction lt xs j rule: heap_up.induct)
  case (1 lt xs j)
  have "swap_at xs (heap_parent j) j ! k = xs ! k"
    using 1(2) heap_parent_le [of j] by (simp add: swap_at_def)
  then show ?case using 1 heap_parent_le [of j] by (subst heap_up.simps) (auto simp: Let_def)
qed

text \<open>What \<^verbatim>\<open>down\<close> does in one turn.\<close>

definition least_child :: "('a \<Rightarrow> 'a \<Rightarrow> bool) \<Rightarrow> 'a list \<Rightarrow> nat \<Rightarrow> nat \<Rightarrow> nat" where
  "least_child lt xs i n =
     (if 2 * i + 2 < n \<and> lt (xs ! (2 * i + 2)) (xs ! (2 * i + 1)) then 2 * i + 2 else 2 * i + 1)"

lemma heap_down_stop:
  "n \<le> 2 * i + 1 \<or> \<not> lt (xs ! least_child lt xs i n) (xs ! i) \<Longrightarrow> heap_down lt xs i n = (xs, i)"
  by (subst heap_down.simps) (auto simp: Let_def least_child_def)

lemma heap_down_step:
  "2 * i + 1 < n \<Longrightarrow> lt (xs ! least_child lt xs i n) (xs ! i) \<Longrightarrow>
   heap_down lt xs i n = heap_down lt (swap_at xs i (least_child lt xs i n)) (least_child lt xs i n) n"
  by (subst heap_down.simps) (auto simp: Let_def least_child_def)

lemma least_child_bounds:
  "2 * i + 1 < n \<Longrightarrow> i < least_child lt xs i n \<and> least_child lt xs i n < n"
  by (auto simp: least_child_def)

lemma heap_down_induct [case_names stop step]:
  assumes "\<And>xs i. n \<le> 2 * i + 1 \<or> \<not> lt (xs ! least_child lt xs i n) (xs ! i) \<Longrightarrow> P xs i"
    and "\<And>xs i. 2 * i + 1 < n \<Longrightarrow> lt (xs ! least_child lt xs i n) (xs ! i) \<Longrightarrow>
      P (swap_at xs i (least_child lt xs i n)) (least_child lt xs i n) \<Longrightarrow> P xs i"
  shows "P xs i"
proof (induction "n - i" arbitrary: xs i rule: less_induct)
  case less
  show ?case
  proof (cases "n \<le> 2 * i + 1 \<or> \<not> lt (xs ! least_child lt xs i n) (xs ! i)")
    case False
    then have "2 * i + 1 < n" by auto
    from least_child_bounds [OF this, of lt xs] have "n - least_child lt xs i n < n - i" by arith
    from less [OF this] False show ?thesis by (blast intro: assms(2) leI)
  qed (rule assms(1))
qed

lemma heap_down_frame:
  "n \<le> length xs \<Longrightarrow>
   length (fst (heap_down lt xs i n)) = length xs \<and> mset (fst (heap_down lt xs i n)) = mset xs \<and>
   (\<forall>k. n \<le> k \<longrightarrow> fst (heap_down lt xs i n) ! k = xs ! k) \<and> i \<le> snd (heap_down lt xs i n)"
proof (induction xs i rule: heap_down_induct [where lt = lt and n = n])
  case (stop xs i)
  then show ?case by (simp add: heap_down_stop)
next
  case (step xs i)
  with least_child_bounds [OF step(1), of lt xs] show ?case
    by (auto simp: heap_down_step mset_swap_at nth_swap_at)
qed

section \<open>The heap property\<close>

text \<open>The laws of \<^verbatim>\<open>Less\<close>: no two elements are each below the other, and what is not
  below anything of a chain is not below its end.\<close>

locale heap_order =
  fixes lt :: "'a \<Rightarrow> 'a \<Rightarrow> bool"
  assumes asym: "lt x y \<Longrightarrow> \<not> lt y x"
    and neg_trans: "\<not> lt x y \<Longrightarrow> \<not> lt y z \<Longrightarrow> \<not> lt x z"

text \<open>Position \<open>k\<close> respects its parent.\<close>

definition above_parent :: "('a \<Rightarrow> 'a \<Rightarrow> bool) \<Rightarrow> 'a list \<Rightarrow> nat \<Rightarrow> bool" where
  "above_parent lt xs k \<longleftrightarrow> \<not> lt (xs ! k) (xs ! heap_parent k)"

definition is_heap :: "('a \<Rightarrow> 'a \<Rightarrow> bool) \<Rightarrow> 'a list \<Rightarrow> bool" where
  "is_heap lt xs \<longleftrightarrow> (\<forall>k < length xs. 0 < k \<longrightarrow> above_parent lt xs k)"

text \<open>The first \<open>n\<close> positions form a heap but for the element at \<open>i\<close>, which may be
  below its parent or above its children.\<close>

definition heap_hole :: "('a \<Rightarrow> 'a \<Rightarrow> bool) \<Rightarrow> 'a list \<Rightarrow> nat \<Rightarrow> nat \<Rightarrow> bool" where
  "heap_hole lt xs n i \<longleftrightarrow>
     (\<forall>k < n. 0 < k \<and> k \<noteq> i \<and> heap_parent k \<noteq> i \<longrightarrow> above_parent lt xs k) \<and>
     (\<forall>k < n. 0 < k \<and> heap_parent k = i \<and> 0 < i \<longrightarrow> \<not> lt (xs ! k) (xs ! heap_parent i))"

definition heap_to :: "('a \<Rightarrow> 'a \<Rightarrow> bool) \<Rightarrow> 'a list \<Rightarrow> nat \<Rightarrow> bool" where
  "heap_to lt xs n \<longleftrightarrow> (\<forall>k < n. 0 < k \<longrightarrow> above_parent lt xs k)"

lemma is_heap_to: "is_heap lt xs \<longleftrightarrow> heap_to lt xs (length xs)"
  by (simp add: is_heap_def heap_to_def)

lemma is_heap_Nil [simp]: "is_heap lt []"
  by (simp add: is_heap_def)


context heap_order
begin

lemma irrefl: "\<not> lt x x"
  using asym by blast

lemma trans: "lt x y \<Longrightarrow> lt y z \<Longrightarrow> lt x z"
  using asym neg_trans by blast

lemma less_of_not: "lt x y \<Longrightarrow> \<not> lt z y \<Longrightarrow> lt x z"
  using neg_trans by blast

text \<open>\<^verbatim>\<open>up\<close> closes a hole whose children are in order.\<close>

lemma heap_up_to:
  assumes "heap_hole lt xs n j" and "j < n" "n \<le> length xs"
    and "\<And>k. k < n \<Longrightarrow> 0 < k \<Longrightarrow> heap_parent k = j \<Longrightarrow> above_parent lt xs k"
  shows "heap_to lt (heap_up lt xs j) n"
  using assms
proof (induction j arbitrary: xs rule: less_induct)
  case (less j)
  let ?i = "heap_parent j"
  show ?case
  proof (cases "?i = j \<or> \<not> lt (xs ! j) (xs ! ?i)")
    case True
    then have "heap_up lt xs j = xs" by (simp add: heap_up.simps [of lt xs j] Let_def)
    moreover have "above_parent lt xs k" if "k < n" "0 < k" for k
      using that True less.prems(1,4) by (cases "k = j") (auto simp: heap_hole_def above_parent_def)
    ultimately show ?thesis by (simp add: heap_to_def)
  next
    case False
    then have ij: "?i < j" "0 < j" "lt (xs ! j) (xs ! ?i)"
      using heap_parent_less [of j] by (auto simp: heap_parent_eq)
    let ?ys = "swap_at xs ?i j"
    have up: "heap_up lt xs j = heap_up lt ?ys ?i"
      using False by (simp add: heap_up.simps [of lt xs j] Let_def)
    have ys: "?ys ! k = (if k = j then xs ! ?i else if k = ?i then xs ! j else xs ! k)" for k
      using less.prems(2,3) ij by (intro nth_swap_at) auto
    have old: "above_parent lt xs k" if "k < n" "0 < k" "k \<noteq> j" for k
      using less.prems(1,4) that by (cases "heap_parent k = j") (auto simp: heap_hole_def)
    have "above_parent lt ?ys k" if k: "k < n" "0 < k" "k \<noteq> ?i" "heap_parent k \<noteq> ?i" for k
    proof -
      have "k \<noteq> j" using k(4) by blast
      moreover have "\<not> lt (xs ! k) (xs ! ?i)" if "heap_parent k = j"
        using less.prems(1) that k(1,2) ij(2) unfolding heap_hole_def by blast
      ultimately show ?thesis using k old [of k] by (simp add: above_parent_def ys)
    qed
    moreover have "\<not> lt (?ys ! k) (?ys ! heap_parent ?i)" if k: "k < n" "0 < k" "heap_parent k = ?i" "0 < ?i" for k
    proof -
      have i: "above_parent lt xs ?i" using k(4) ij(1) less.prems(2) by (intro old) auto
      have "\<not> lt (xs ! k) (xs ! heap_parent ?i)" if "k \<noteq> j"
        using old [OF k(1,2) that] i neg_trans unfolding above_parent_def k(3) by blast
      then show ?thesis using k i heap_parent_less [OF k(4)] heap_parent_less [OF k(2)] ij(1) by (simp add: ys above_parent_def)
    qed
    ultimately have "heap_hole lt ?ys n ?i" by (simp add: heap_hole_def)
    moreover have "above_parent lt ?ys k" if k: "k < n" "0 < k" "heap_parent k = ?i" for k
    proof -
      have "\<not> lt (xs ! k) (xs ! j)" if "k \<noteq> j"
        using old [OF k(1,2) that] ij(3) trans unfolding above_parent_def k(3) by blast
      then show ?thesis using k(3) heap_parent_less [OF k(2)] ij asym by (simp add: above_parent_def ys)
    qed
    ultimately show ?thesis
      unfolding up using ij less.prems(2,3) by (intro less.IH) auto
  qed
qed

text \<open>A turn of \<^verbatim>\<open>down\<close> moves the hole to the least child; the position it leaves is
  in order.\<close>

lemma least_child_least:
  assumes "0 < k" "k < n" "heap_parent k = i"
  shows "\<not> lt (xs ! k) (xs ! least_child lt xs i n)"
proof -
  from assms have "k = 2 * i + 1 \<or> k = 2 * i + 2" by (simp add: child_cases)
  then show ?thesis using assms(2) asym irrefl by (auto simp: least_child_def)
qed

lemma heap_parent_least_child: "heap_parent (least_child lt xs i n) = i"
  by (simp add: least_child_def heap_parent_def)

lemma heap_down_step_hole:
  assumes hole: "heap_hole lt xs n i" and n: "2 * i + 1 < n" "n \<le> length xs"
    and less: "lt (xs ! least_child lt xs i n) (xs ! i)"
  defines "c \<equiv> least_child lt xs i n"
  shows "heap_hole lt (swap_at xs i c) n c \<and> above_parent lt (swap_at xs i c) c"
proof -
  have c: "i < c" "c < n" "heap_parent c = i"
    using least_child_bounds [OF n(1)] heap_parent_least_child by (auto simp: c_def)
  have ys: "swap_at xs i c ! k = (if k = c then xs ! i else if k = i then xs ! c else xs ! k)" for k
    using n c by (intro nth_swap_at) auto
  have ok: "above_parent lt (swap_at xs i c) k" if k: "0 < k" "k < n" "heap_parent k \<noteq> c" for k
  proof -
    have "\<not> lt (xs ! i) (xs ! c)" using less asym by (simp add: c_def)
    moreover have "\<not> lt (xs ! c) (xs ! heap_parent i)" if "0 < i"
      using hole c that unfolding heap_hole_def by auto
    moreover have "\<not> lt (xs ! k) (xs ! c)" if "heap_parent k = i"
      using least_child_least [OF k(1,2) that] by (simp add: c_def)
    moreover have "above_parent lt xs k" if "k \<noteq> i" "heap_parent k \<noteq> i"
      using hole k that unfolding heap_hole_def by auto
    ultimately show ?thesis
      using k c heap_parent_less [OF k(1)] by (auto simp: above_parent_def ys)
  qed
  moreover have "\<not> lt (swap_at xs i c ! k) (swap_at xs i c ! heap_parent c)"
    if k: "0 < k" "k < n" "heap_parent k = c" for k
  proof -
    have "above_parent lt xs k"
      using hole k c heap_parent_less [OF k(1)] unfolding heap_hole_def by auto
    then show ?thesis using k c heap_parent_less [OF k(1)] by (auto simp: above_parent_def ys)
  qed
  ultimately show ?thesis using c heap_parent_less [of c] by (auto simp: heap_hole_def)
qed

lemma heap_down_to:
  assumes "n \<le> length xs"
  shows "heap_hole lt xs n i \<Longrightarrow> 0 < i \<and> i < n \<longrightarrow> above_parent lt xs i \<Longrightarrow>
    heap_to lt (fst (heap_down lt xs i n)) n"
  using assms
proof (induction xs i rule: heap_down_induct [where lt = lt and n = n])
  case (stop xs i)
  have "above_parent lt xs k" if k: "k < n" "0 < k" for k
  proof (cases "heap_parent k = i")
    case True
    then have "\<not> n \<le> 2 * i + 1" using k child_cases [of k i] by auto
    then show ?thesis
      using stop(1) least_child_least [OF k(2,1) True, of xs] neg_trans True
      unfolding above_parent_def by blast
  next
    case False
    then show ?thesis using stop(2,3) k by (cases "k = i") (auto simp: heap_hole_def)
  qed
  then show ?case using stop(1) by (simp add: heap_down_stop heap_to_def)
next
  case (step xs i)
  then show ?case
    using heap_down_step_hole [OF step(4,1,6,2)] by (simp add: heap_down_step)
qed

lemma heap_down_moves:
  assumes hole: "heap_hole lt xs n i" and n: "n \<le> length xs"
  shows "heap_down lt xs i n = (xs, i) \<and> (\<forall>k < n. 0 < k \<and> heap_parent k = i \<longrightarrow> above_parent lt xs k) \<or>
    i < snd (heap_down lt xs i n) \<and> heap_to lt (fst (heap_down lt xs i n)) n"
proof (cases "n \<le> 2 * i + 1 \<or> \<not> lt (xs ! least_child lt xs i n) (xs ! i)")
  case True
  have "above_parent lt xs k" if k: "k < n" "0 < k" "heap_parent k = i" for k
  proof -
    have "\<not> n \<le> 2 * i + 1" using k child_cases [of k i] by auto
    then show ?thesis
      using True least_child_least [OF k(2,1,3), of xs] neg_trans k(3)
      unfolding above_parent_def by blast
  qed
  then show ?thesis using heap_down_stop [of n i lt xs] True by blast
next
  case False
  then have 1: "2 * i + 1 < n" and 2: "lt (xs ! least_child lt xs i n) (xs ! i)" by auto
  let ?c = "least_child lt xs i n"
  note hole' = heap_down_step_hole [OF hole 1 n 2]
  have "heap_to lt (fst (heap_down lt (swap_at xs i ?c) ?c n)) n"
    using hole' n by (intro heap_down_to) auto
  moreover have "i < snd (heap_down lt (swap_at xs i ?c) ?c n)"
    using heap_down_frame [of n "swap_at xs i ?c" lt ?c] n least_child_bounds [OF 1, of lt xs] by auto
  ultimately show ?thesis using heap_down_step [of i n lt xs] 1 2 by simp
qed

section \<open>What the operations do\<close>

lemma heap_to_take: "heap_to lt xs n \<Longrightarrow> n \<le> length xs \<Longrightarrow> is_heap lt (take n xs)"
proof -
  assume heap: "heap_to lt xs n" and n: "n \<le> length xs"
  have "above_parent lt (take n xs) k" if k: "k < n" "0 < k" for k
    using heap k heap_parent_less [OF k(2)] by (auto simp: heap_to_def above_parent_def)
  then show ?thesis using n by (simp add: is_heap_def)
qed

lemma heap_least:
  assumes "is_heap lt xs" shows "x \<in> set xs \<Longrightarrow> \<not> lt x (xs ! 0)"
proof -
  have "k < length xs \<Longrightarrow> \<not> lt (xs ! k) (xs ! 0)" for k
  proof (induction k rule: less_induct)
    case (less k)
    show ?case
    proof (cases "k = 0")
      case False
      then show ?thesis
        using less heap_parent_less [of k] neg_trans assms
        unfolding is_heap_def above_parent_def by (meson less_trans neq0_conv)
    qed (simp add: irrefl)
  qed
  then show "x \<in> set xs \<Longrightarrow> \<not> lt x (xs ! 0)" by (auto simp: in_set_conv_nth)
qed

lemma is_heap_Push: "is_heap lt xs \<Longrightarrow> is_heap lt (heap_Push lt xs x)"
proof -
  assume heap: "is_heap lt xs"
  have old: "above_parent lt (xs @ [x]) k" if "k < length xs" "0 < k" for k
    using heap that heap_parent_less [of k] by (auto simp: is_heap_def above_parent_def nth_append)
  have "heap_parent k \<noteq> length xs" if "k < Suc (length xs)" "0 < k" for k
    using that heap_parent_less [of k] by auto
  with old have "heap_to lt (heap_up lt (xs @ [x]) (length xs)) (Suc (length xs))"
    by (intro heap_up_to) (auto simp: heap_hole_def less_Suc_eq)
  then show ?thesis by (simp add: is_heap_to heap_Push_def)
qed

text \<open>Swapping position \<open>i\<close> of a heap with the last one leaves a hole at \<open>i\<close>.\<close>

lemma heap_hole_swap_last:
  assumes heap: "is_heap lt xs" and i: "i < length xs - 1"
  shows "heap_hole lt (swap_at xs i (length xs - 1)) (length xs - 1) i"
proof -
  define n where "n = length xs - 1"
  have ys: "swap_at xs i n ! k = (if k = n then xs ! i else if k = i then xs ! n else xs ! k)" for k
    using i by (intro nth_swap_at) (auto simp: n_def)
  have i: "i < n" "n < length xs" using i by (auto simp: n_def)
  have old: "\<not> lt (xs ! k) (xs ! heap_parent k)" if "k < length xs" "0 < k" for k
    using heap that by (simp add: is_heap_def above_parent_def)
  have "above_parent lt (swap_at xs i n) k" if "k < n" "0 < k" "k \<noteq> i" "heap_parent k \<noteq> i" for k
    using that i old [of k] heap_parent_less [of k] by (simp add: above_parent_def ys)
  moreover have "\<not> lt (swap_at xs i n ! k) (swap_at xs i n ! heap_parent i)"
    if k: "k < n" "0 < k" "heap_parent k = i" "0 < i" for k
  proof -
    have "\<not> lt (xs ! k) (xs ! heap_parent i)"
      using old [of k] old [of i] k i neg_trans by (metis less_trans)
    then show ?thesis using k i heap_parent_less [of i] heap_parent_less [of k] by (auto simp: ys)
  qed
  ultimately show ?thesis unfolding n_def [symmetric] by (simp add: heap_hole_def)
qed

lemma heap_Remove_spec:
  assumes heap: "is_heap lt xs" and i: "i < length xs"
  shows "\<exists>ys. heap_Remove lt xs i = (xs ! i, ys) \<and> is_heap lt ys \<and> mset xs = add_mset (xs ! i) (mset ys)"
proof -
  define n where "n = length xs - 1"
  have close: "\<exists>ys. (last zs, butlast zs) = (xs ! i, ys) \<and> is_heap lt ys \<and> mset xs = add_mset (xs ! i) (mset ys)"
    if zs: "length zs = length xs" "mset zs = mset xs" "zs ! n = xs ! i" "heap_to lt zs n" for zs
  proof -
    have ne: "zs \<noteq> []" using i zs(1) by auto
    then have last: "last zs = xs ! i" using zs(1,3) by (simp add: last_conv_nth n_def)
    have "butlast zs = take n zs" using zs(1) by (simp add: butlast_conv_take n_def)
    then have "is_heap lt (butlast zs)" using heap_to_take [OF zs(4)] zs(1) by (simp add: n_def)
    moreover have "mset zs = add_mset (last zs) (mset (butlast zs))"
      using append_butlast_last_id [OF ne] by (metis mset_append mset.simps union_mset_add_mset_right add.right_neutral)
    ultimately show ?thesis using zs(2) last by auto
  qed
  show ?thesis
  proof (cases "n = i")
    case True
    have "heap_to lt xs n" using heap by (auto simp: is_heap_def heap_to_def n_def)
    then show ?thesis using close [of xs] True by (simp add: heap_Remove_def n_def)
  next
    case False
    then have lt: "i < n" using i by (simp add: n_def)
    let ?ys = "swap_at xs i n"
    have hole: "heap_hole lt ?ys n i" using heap_hole_swap_last [OF heap] lt by (simp add: n_def)
    have n: "n < length xs" using i by (simp add: n_def)
    note frame = heap_down_frame [of n ?ys lt i]
    have ys: "mset ?ys = mset xs" "?ys ! n = xs ! i" using lt n by (simp_all add: mset_swap_at nth_swap_at)
    from heap_down_moves [OF hole] n consider
      (stay) "heap_down lt ?ys i n = (?ys, i)" "\<forall>k < n. 0 < k \<and> heap_parent k = i \<longrightarrow> above_parent lt ?ys k"
    | (move) "i < snd (heap_down lt ?ys i n)" "heap_to lt (fst (heap_down lt ?ys i n)) n" by auto
    then show ?thesis
    proof cases
      case stay
      have "heap_to lt (heap_up lt ?ys i) n" using stay(2) hole lt n by (intro heap_up_to) auto
      moreover have "heap_up lt ?ys i ! n = xs ! i" using heap_up_frame [of i n lt ?ys] lt ys by simp
      ultimately show ?thesis
        using close [of "heap_up lt ?ys i"] stay(1) False ys lt n by (simp add: heap_Remove_def n_def mset_heap_up)
    next
      case move
      then show ?thesis using close [of "fst (heap_down lt ?ys i n)"] frame ys n False
        by (simp add: heap_Remove_def n_def split_beta Let_def)
    qed
  qed
qed

lemma heap_Pop_Remove: "heap_Pop lt xs = heap_Remove lt xs 0"
proof (cases "length xs \<le> 1")
  case True
  then show ?thesis
    by (cases xs) (simp_all add: heap_Pop_def heap_Remove_def heap_down_stop swap_at_def)
next
  case False
  have "heap_up lt ys 0 = ys" for ys :: "'a list" by (simp add: heap_up.simps heap_parent_def)
  then show ?thesis using False by (simp add: heap_Pop_def heap_Remove_def Let_def split_beta)
qed

lemma heap_Pop_spec:
  assumes "is_heap lt xs" and "xs \<noteq> []"
  shows "\<exists>ys. heap_Pop lt xs = (xs ! 0, ys) \<and> is_heap lt ys \<and> mset xs = add_mset (xs ! 0) (mset ys)"
  unfolding heap_Pop_Remove using assms by (intro heap_Remove_spec) auto

end

lemma mset_heap_Push: "mset (heap_Push lt xs x) = add_mset x (mset xs)"
  by (simp add: heap_Push_def mset_heap_up)

end
