(* ===== verification/TaskQueue.thy ===== *)
theory TaskQueue
  imports Go_Base Go_Heap "HOL-Library.Product_Lexorder" "HOL-Library.Monad_Syntax"
begin

text \<open>
  \<^verbatim>\<open>impl/memory/taskqueue_data.go\<close>, \<^verbatim>\<open>impl/memory/taskqueue.go\<close> and the task type of
  \<^verbatim>\<open>service/taskqueue\<close>: the in-memory task queue service. A queue keeps its tasks in a map
  by name and, for pull queues, in array heaps ordered by (ETA, name): one for the queue and
  one per tag. Map and heaps share the \<^verbatim>\<open>*tq.Task\<close> objects, so the model has the objects in
  a memory of their own (\<open>sq_mem\<close>) and map and heaps hold pointers into it: giving a
  task a new ETA is a write that all of them see.

  An operation that can panic returns an \<open>option\<close>, with \<open>None\<close> for the panic. Every
  operation runs under the lock of \<^verbatim>\<open>taskQueueData\<close> and so is one atomic function on the
  state.
\<close>

section \<open>Tasks\<close>

record RetryOptions =
  RetryLimit :: int32
  AgeLimit :: int64
  MinBackoff :: int64
  MaxBackoff :: int64
  MaxDoublings :: int32
  ApplyZeroMaxDoublings :: bool

text \<open>An \<^verbatim>\<open>http.Header\<close> is a map from header names to lists of values; a nil and an empty
  header have the same entries. A deep copy (\<^verbatim>\<open>Task.Duplicate\<close>) of a value is the value.\<close>

record Task =
  Path :: string
  Payload :: "byte list"
  Header :: "(string \<times> string list) list"
  Method :: string
  Name :: string
  Delay :: int64   \<comment> \<open>a \<^verbatim>\<open>time.Duration\<close> in nanoseconds\<close>
  ETA :: gotime
  RetryCount :: int32
  Tag :: string
  Task_RetryOptions :: "RetryOptions option"

record tq_Statistics =
  st_Tasks :: nat
  OldestETA :: gotime
  Executed1Minute :: int
  InFlight :: int
  EnforcedRate :: float64

record tq_Constraints =
  MaxAddSize :: int
  MaxDeleteSize :: int

definition TQ :: tq_Constraints where
  "TQ = \<lparr>MaxAddSize = 100, MaxDeleteSize = 1000\<rparr>"

datatype tq_error =
    errBadRequest | errInvalidTaskName | errUnknownQueue | errTombstonedTask | errUnknownTask
  | errInvalidQueueMode | errTaskLeaseExpired | ErrTaskAlreadyAdded
  | errNilTask | errNamedInTxn string | errBadMethod string | errNotInTxn string
  | errTxnExpired | errTxnClosed | tq_MultiError "tq_error option list"

section \<open>Checking and preparing tasks\<close>

definition currentNamespace :: string where
  "currentNamespace = ''X-Appengine-Current-Namespace''"

definition validTaskName :: "string \<Rightarrow> bool" where
  "validTaskName s \<longleftrightarrow> length s \<le> 500 \<and>
     list_all (\<lambda>c. CHR ''0'' \<le> c \<and> c \<le> CHR ''9'' \<or> CHR ''a'' \<le> c \<and> c \<le> CHR ''z'' \<or>
       CHR ''A'' \<le> c \<and> c \<le> CHR ''Z'' \<or> c = CHR ''-'' \<or> c = CHR ''_'') s"

definition checkTask :: "Task option \<Rightarrow> bool \<Rightarrow> tq_error option" where
  "checkTask task isTxn =
     (case task of
        None \<Rightarrow> Some errNilTask
      | Some task \<Rightarrow>
          if isTxn \<and> Name task \<noteq> '''' then Some (errNamedInTxn (Name task))
          else if Name task \<noteq> '''' \<and> \<not> validTaskName (Name task) then Some errInvalidTaskName
          else if Method task \<in> {'''', ''POST'', ''PUT'', ''PULL'', ''GET'', ''HEAD'', ''DELETE''} then None
          else Some (errBadMethod (Method task)))"

text \<open>\<open>lme\<close> is the \<^verbatim>\<open>Get\<close> of a \<^verbatim>\<open>LazyMultiError\<close> of package \<^verbatim>\<open>luci/common/errors\<close>
  to which the given errors were assigned.\<close>

definition checkManyTasks ::
    "(tq_error option list \<Rightarrow> tq_error option) \<Rightarrow> Task option list \<Rightarrow> bool \<Rightarrow> tq_error option" where
  "checkManyTasks lme tasks isTxn = lme (map (\<lambda>t. checkTask t isTxn) tasks)"

text \<open>The stages of \<^verbatim>\<open>prepTask\<close>: the time, the method, and the path and headers.\<close>

definition prep_ETA :: "gotime \<Rightarrow> Task \<Rightarrow> Task option" where
  "prep_ETA now toSched =
     (if time_IsZero (ETA toSched) then Some (toSched\<lparr>ETA := time_Add now (sint (Delay toSched)), Delay := 0\<rparr>)
      else if Delay toSched \<noteq> 0 then None
      else Some (toSched\<lparr>Delay := 0\<rparr>))"

definition prep_Method :: "Task \<Rightarrow> Task option" where
  "prep_Method toSched =
     (if Method toSched = '''' then Some (toSched\<lparr>Method := ''POST''\<rparr>)
      else if Method toSched \<in> {''POST'', ''PUT'', ''PULL''} then Some toSched
      else if Method toSched \<in> {''GET'', ''HEAD'', ''DELETE''} then Some (toSched\<lparr>Payload := []\<rparr>)
      else None)"

definition prep_HTTP :: "string \<Rightarrow> string \<Rightarrow> Task \<Rightarrow> Task" where
  "prep_HTTP queueName ns toSched =
     (if Method toSched = ''PULL'' then toSched\<lparr>Path := '''', Header := []\<rparr>
      else
        let toSched = (if Path toSched = '''' then toSched\<lparr>Path := ''/_ah/queue/'' @ queueName\<rparr> else toSched)
        in if map_of (Header toSched) currentNamespace = None \<and> ns \<noteq> ''''
           then toSched\<lparr>Header := al_set (Header toSched) currentNamespace [ns]\<rparr>
           else toSched)"

definition prepTask :: "gotime \<Rightarrow> Task \<Rightarrow> string \<Rightarrow> string \<Rightarrow> string \<Rightarrow> Task option" where
  "prepTask now task taskName queueName ns =
     (if taskName = '''' then None else do {
        toSched \<leftarrow> prep_ETA now (task\<lparr>Name := taskName\<rparr>);
        toSched \<leftarrow> prep_Method toSched;
        Some (prep_HTTP queueName ns toSched) })"

text \<open>\<^verbatim>\<open>Header.Get\<close>: the first value of the header, or the empty string.\<close>

definition taskNamespace :: "Task \<Rightarrow> string" where
  "taskNamespace task = (case al_get (Header task) currentNamespace of [] \<Rightarrow> '''' | v # _ \<Rightarrow> v)"

section \<open>The task index\<close>

type_synonym task_ptr = nat

definition task_Less :: "Task list \<Rightarrow> task_ptr \<Rightarrow> task_ptr \<Rightarrow> bool" where
  "task_Less mem i j =
     (if time_Equal (ETA (mem ! i)) (ETA (mem ! j)) then Name (mem ! i) < Name (mem ! j)
      else time_Before (ETA (mem ! i)) (ETA (mem ! j)))"

definition idx_add :: "Task list \<Rightarrow> task_ptr list \<Rightarrow> task_ptr \<Rightarrow> task_ptr list" where
  "idx_add mem idx t = heap_Push (task_Less mem) idx t"

definition idx_remove :: "Task list \<Rightarrow> task_ptr list \<Rightarrow> task_ptr \<Rightarrow> task_ptr list" where
  "idx_remove mem idx t =
     (let i = length (takeWhile (\<lambda>task. t \<noteq> task) idx) in
      if i < length idx then snd (heap_Remove (task_Less mem) idx i) else idx)"

definition idx_peek :: "task_ptr list \<Rightarrow> task_ptr option" where
  "idx_peek idx = (if length idx = 0 then None else Some (idx ! 0))"

text \<open>The loop of \<^verbatim>\<open>extract\<close>; its bound is the number of tasks that may still be taken.\<close>

primrec idx_extract :: "Task list \<Rightarrow> gotime \<Rightarrow> nat \<Rightarrow> task_ptr list \<Rightarrow> task_ptr list \<times> task_ptr list" where
  "idx_extract mem now 0 idx = ([], idx)"
| "idx_extract mem now (Suc m) idx =
     (if length idx > 0 \<and> \<not> time_After (ETA (mem ! (idx ! 0))) now
      then (case heap_Pop (task_Less mem) idx of (t, idx) \<Rightarrow>
              case idx_extract mem now m idx of (out, idx) \<Rightarrow> (t # out, idx))
      else ([], idx))"

section \<open>The sorted queue\<close>

record sortedQueue =
  sq_name :: string
  isPullQueue :: bool
  nextAutoGenID :: uint64
  sq_tasks :: "(string \<times> task_ptr) list"
  sq_archived :: "(string \<times> task_ptr) list"
  sq_sorted :: "task_ptr list"
  sq_sortedPerTag :: "(string \<times> task_ptr list) list"
  sq_mem :: "Task list"

text \<open>\<^verbatim>\<open>fnv.New64\<close>: the FNV-1 hash.\<close>

definition fnv64 :: "byte list \<Rightarrow> uint64" where
  "fnv64 bs = foldl (\<lambda>hash b. xor (hash * 1099511628211) (ucast b)) 14695981039346656037 bs"

definition newSortedQueue :: "string \<Rightarrow> bool \<Rightarrow> sortedQueue" where
  "newSortedQueue name pull =
     \<lparr>sq_name = name, isPullQueue = pull, nextAutoGenID = fnv64 (str_bytes name), sq_tasks = [],
      sq_archived = [], sq_sorted = [], sq_sortedPerTag = [], sq_mem = []\<rparr>"

text \<open>\<^verbatim>\<open>fmt.Sprintf("%d", n)\<close> of an unsigned number.\<close>

fun dec_string :: "nat \<Rightarrow> string" where
  "dec_string n =
     (if n < 10 then [char_of (48 + n)] else dec_string (n div 10) @ [char_of (48 + n mod 10)])"

declare dec_string.simps [simp del]

definition genTaskName :: "sortedQueue \<Rightarrow> string \<times> sortedQueue" where
  "genTaskName q = (let n = nextAutoGenID q + 1 in (dec_string (unat n), q\<lparr>nextAutoGenID := n\<rparr>))"

text \<open>The argument of \<^verbatim>\<open>addTask\<close> is an object that only the caller knows (\<^verbatim>\<open>prepTask\<close>
  makes it); once added it has a place in the queue's memory.\<close>

definition addTask :: "sortedQueue \<Rightarrow> Task \<Rightarrow> tq_error option \<times> sortedQueue" where
  "addTask q task =
     (if Method task = ''PULL'' \<and> \<not> isPullQueue q then (Some errInvalidQueueMode, q)
      else if Method task \<noteq> ''PULL'' \<and> isPullQueue q then (Some errInvalidQueueMode, q)
      else if map_of (sq_archived q) (Name task) \<noteq> None then (Some ErrTaskAlreadyAdded, q)
      else if map_of (sq_tasks q) (Name task) \<noteq> None then (Some ErrTaskAlreadyAdded, q)
      else
        (let t = length (sq_mem q);
             q = q\<lparr>sq_mem := sq_mem q @ [task]\<rparr>;
             q = q\<lparr>sq_tasks := al_set (sq_tasks q) (Name task) t\<rparr>
         in if isPullQueue q then
              (let q = q\<lparr>sq_sorted := idx_add (sq_mem q) (sq_sorted q) t\<rparr>;
                   perTag = al_get (sq_sortedPerTag q) (Tag task)
               in (None, q\<lparr>sq_sortedPerTag := al_set (sq_sortedPerTag q) (Tag task) (idx_add (sq_mem q) perTag t)\<rparr>))
            else (None, q)))"

text \<open>\<^verbatim>\<open>q.sortedPerTag[t.Tag].remove(t)\<close> and \<^verbatim>\<open>.add(t)\<close>: without an index for the tag the
  method runs on a nil pointer.\<close>

definition perTag_remove :: "sortedQueue \<Rightarrow> task_ptr \<Rightarrow> sortedQueue option" where
  "perTag_remove q t =
     (let tag = Tag (sq_mem q ! t) in
      case map_of (sq_sortedPerTag q) tag of
        None \<Rightarrow> None
      | Some idx \<Rightarrow> Some (q\<lparr>sq_sortedPerTag := al_set (sq_sortedPerTag q) tag (idx_remove (sq_mem q) idx t)\<rparr>))"

definition perTag_add :: "sortedQueue \<Rightarrow> task_ptr \<Rightarrow> sortedQueue option" where
  "perTag_add q t =
     (let tag = Tag (sq_mem q ! t) in
      case map_of (sq_sortedPerTag q) tag of
        None \<Rightarrow> None
      | Some idx \<Rightarrow> Some (q\<lparr>sq_sortedPerTag := al_set (sq_sortedPerTag q) tag (idx_add (sq_mem q) idx t)\<rparr>))"

definition sorted_remove :: "sortedQueue \<Rightarrow> task_ptr \<Rightarrow> sortedQueue" where
  "sorted_remove q t = q\<lparr>sq_sorted := idx_remove (sq_mem q) (sq_sorted q) t\<rparr>"

definition sorted_add :: "sortedQueue \<Rightarrow> task_ptr \<Rightarrow> sortedQueue" where
  "sorted_add q t = q\<lparr>sq_sorted := idx_add (sq_mem q) (sq_sorted q) t\<rparr>"

definition deleteTask :: "sortedQueue \<Rightarrow> Task \<Rightarrow> (tq_error option \<times> sortedQueue) option" where
  "deleteTask q task =
     (if map_of (sq_archived q) (Name task) \<noteq> None then Some (Some errTombstonedTask, q)
      else case map_of (sq_tasks q) (Name task) of
        None \<Rightarrow> Some (Some errUnknownTask, q)
      | Some t \<Rightarrow>
          (let q = q\<lparr>sq_archived := al_set (sq_archived q) (Name task) t\<rparr>;
               q = q\<lparr>sq_tasks := al_delete (sq_tasks q) (Name task)\<rparr>
           in if isPullQueue q
              then do { q \<leftarrow> perTag_remove (sorted_remove q t) t; Some (None, q) }
              else Some (None, q)))"

text \<open>\<^verbatim>\<open>int(leaseTime / time.Second)\<close>: the division of Go truncates towards zero.\<close>

definition leaseSeconds :: "int64 \<Rightarrow> int" where
  "leaseSeconds leaseTime = sint leaseTime sdiv 1000000000"

definition set_ETA :: "sortedQueue \<Rightarrow> task_ptr \<Rightarrow> gotime \<Rightarrow> sortedQueue" where
  "set_ETA q t eta = q\<lparr>sq_mem := (sq_mem q)[t := (sq_mem q ! t)\<lparr>ETA := eta\<rparr>]\<rparr>"

text \<open>The loops of \<^verbatim>\<open>leaseTasks\<close> over the tasks that were extracted.\<close>

fun lease_remove_tags :: "sortedQueue \<Rightarrow> task_ptr list \<Rightarrow> sortedQueue option" where
  "lease_remove_tags q [] = Some q"
| "lease_remove_tags q (t # ts) = do { q \<leftarrow> perTag_remove q t; lease_remove_tags q ts }"

fun lease_requeue :: "sortedQueue \<Rightarrow> gotime \<Rightarrow> task_ptr list \<Rightarrow> sortedQueue option" where
  "lease_requeue q newETA [] = Some q"
| "lease_requeue q newETA (t # ts) = do {
     let q = set_ETA q t newETA;
     let q = sorted_add q t;
     q \<leftarrow> perTag_add q t;
     lease_requeue q newETA ts }"

text \<open>The tag to lease for: \<open>None\<close> when no task is ready to give its tag.\<close>

definition lease_tag :: "sortedQueue \<Rightarrow> gotime \<Rightarrow> bool \<Rightarrow> string \<Rightarrow> string option" where
  "lease_tag q now useTag tag =
     (if useTag \<and> tag = ''''
      then case idx_peek (sq_sorted q) of
             None \<Rightarrow> None
           | Some t \<Rightarrow> if time_After (ETA (sq_mem q ! t)) now then None else Some (Tag (sq_mem q ! t))
      else Some tag)"

definition lease_extract ::
    "sortedQueue \<Rightarrow> gotime \<Rightarrow> nat \<Rightarrow> bool \<Rightarrow> string \<Rightarrow> (task_ptr list \<times> sortedQueue) option" where
  "lease_extract q now maxTasks useTag tag =
     (if useTag then
        (case map_of (sq_sortedPerTag q) tag of
           None \<Rightarrow> Some ([], q)
         | Some perTag \<Rightarrow>
             (case idx_extract (sq_mem q) now maxTasks perTag of (tasks, perTag) \<Rightarrow>
                (let q = q\<lparr>sq_sortedPerTag := al_set (sq_sortedPerTag q) tag perTag\<rparr>
                 in Some (tasks, foldl sorted_remove q tasks))))
      else
        (case idx_extract (sq_mem q) now maxTasks (sq_sorted q) of (tasks, srt) \<Rightarrow>
           do { q \<leftarrow> lease_remove_tags (q\<lparr>sq_sorted := srt\<rparr>) tasks; Some (tasks, q) }))"

definition leaseTasks ::
    "sortedQueue \<Rightarrow> gotime \<Rightarrow> int \<Rightarrow> int64 \<Rightarrow> bool \<Rightarrow> string \<Rightarrow> ((tq_error + Task list) \<times> sortedQueue) option" where
  "leaseTasks q now maxTasks leaseTime useTag tag =
     (if \<not> isPullQueue q then Some (Inl errInvalidQueueMode, q)
      else if maxTasks \<le> 0 then Some (Inl errBadRequest, q)
      else let leaseSec = leaseSeconds leaseTime in
        if leaseSec < 0 then Some (Inl errBadRequest, q)
        else if \<not> useTag \<and> tag \<noteq> '''' then None
        else (case lease_tag q now useTag tag of
                None \<Rightarrow> Some (Inr [], q)
              | Some tag \<Rightarrow> do {
                  (tasks, q) \<leftarrow> lease_extract q now (nat maxTasks) useTag tag;
                  let newETA = time_Add now (leaseSec * 1000000000);
                  q \<leftarrow> lease_requeue q newETA tasks;
                  Some (Inr (map (\<lambda>t. sq_mem q ! t) tasks), q) }))"

text \<open>\<^verbatim>\<open>modifyTaskLease\<close>; the result holds the caller's task, whose ETA it writes.\<close>

definition modifyTaskLease ::
    "sortedQueue \<Rightarrow> gotime \<Rightarrow> Task \<Rightarrow> int64 \<Rightarrow> ((tq_error + Task) \<times> sortedQueue) option" where
  "modifyTaskLease q now t leaseTime =
     (if \<not> isPullQueue q then Some (Inl errInvalidQueueMode, q)
      else let leaseSec = leaseSeconds leaseTime in
        if leaseSec < 0 then Some (Inl errBadRequest, q)
        else if map_of (sq_archived q) (Name t) \<noteq> None then Some (Inl errTombstonedTask, q)
        else case map_of (sq_tasks q) (Name t) of
          None \<Rightarrow> Some (Inl errUnknownTask, q)
        | Some task \<Rightarrow>
            if \<not> time_Equal (ETA (sq_mem q ! task)) (ETA t) then Some (Inl errTaskLeaseExpired, q)
            else if time_After now (ETA (sq_mem q ! task)) then Some (Inl errTaskLeaseExpired, q)
            else do {
              let q = sorted_remove q task;
              q \<leftarrow> perTag_remove q task;
              let q = set_ETA q task (time_Add now (leaseSec * 1000000000));
              let q = sorted_add q task;
              q \<leftarrow> perTag_add q task;
              Some (Inr (t\<lparr>ETA := ETA (sq_mem q ! task)\<rparr>), q) })"

definition sq_purge :: "sortedQueue \<Rightarrow> sortedQueue" where
  "sq_purge q = q\<lparr>sq_tasks := [], sq_archived := [], sq_sorted := [], sq_sortedPerTag := []\<rparr>"

definition getStats :: "sortedQueue \<Rightarrow> tq_Statistics" where
  "getStats q =
     foldl (\<lambda>s (_, t). let eta = ETA (sq_mem q ! t) in
              if time_IsZero (OldestETA s) then s\<lparr>OldestETA := eta\<rparr>
              else if time_Before eta (OldestETA s) then s\<lparr>OldestETA := eta\<rparr> else s)
       \<lparr>st_Tasks = length (sq_tasks q), OldestETA = zero_time, Executed1Minute = 0, InFlight = 0,
        EnforcedRate = F64 0\<rparr> (sq_tasks q)"

section \<open>The queues of the service\<close>

record taskQueueData =
  queues :: "(string \<times> sortedQueue) list"
  constraints :: tq_Constraints

definition newTaskQueueData :: taskQueueData where
  "newTaskQueueData = \<lparr>queues = [(''default'', newSortedQueue ''default'' False)], constraints = TQ\<rparr>"

text \<open>A queue is found with the key it is stored under, so that a changed queue can be put
  back (\<open>put_queue\<close>).\<close>

definition getQueueLocked :: "taskQueueData \<Rightarrow> string \<Rightarrow> tq_error + string \<times> sortedQueue" where
  "getQueueLocked t queueName =
     (let queueName = (if queueName = '''' then ''default'' else queueName) in
      case map_of (queues t) queueName of
        None \<Rightarrow> Inl errUnknownQueue
      | Some q \<Rightarrow> Inr (queueName, q))"

definition put_queue :: "taskQueueData \<Rightarrow> string \<Rightarrow> sortedQueue \<Rightarrow> taskQueueData" where
  "put_queue t qn q = t\<lparr>queues := al_set (queues t) qn q\<rparr>"

definition createQueueInternal :: "taskQueueData \<Rightarrow> string \<Rightarrow> bool \<Rightarrow> taskQueueData option" where
  "createQueueInternal t queueName pull =
     (if map_of (queues t) queueName \<noteq> None then None
      else Some (put_queue t queueName (newSortedQueue queueName pull)))"

definition createQueue :: "taskQueueData \<Rightarrow> string \<Rightarrow> taskQueueData option" where
  "createQueue t queueName = createQueueInternal t queueName False"

definition createPullQueue :: "taskQueueData \<Rightarrow> string \<Rightarrow> taskQueueData option" where
  "createPullQueue t queueName = createQueueInternal t queueName True"

definition tasks_in_ns :: "sortedQueue \<Rightarrow> (string \<times> task_ptr) list \<Rightarrow> string \<Rightarrow> (string \<times> Task) list" where
  "tasks_in_ns q m ns =
     map (\<lambda>(tn, t). (tn, sq_mem q ! t)) (filter (\<lambda>(tn, t). taskNamespace (sq_mem q ! t) = ns) m)"

definition getScheduledTasks :: "taskQueueData \<Rightarrow> string \<Rightarrow> (string \<times> (string \<times> Task) list) list" where
  "getScheduledTasks t ns = map (\<lambda>(qn, q). (qn, tasks_in_ns q (sq_tasks q) ns)) (queues t)"

definition getTombstonedTasks :: "taskQueueData \<Rightarrow> string \<Rightarrow> (string \<times> (string \<times> Task) list) list" where
  "getTombstonedTasks t ns = map (\<lambda>(qn, q). (qn, tasks_in_ns q (sq_archived q) ns)) (queues t)"

definition resetTasks :: "taskQueueData \<Rightarrow> taskQueueData" where
  "resetTasks t = t\<lparr>queues := map (\<lambda>(qn, q). (qn, sq_purge q)) (queues t)\<rparr>"

definition purgeLocked :: "taskQueueData \<Rightarrow> string \<Rightarrow> tq_error option \<times> taskQueueData" where
  "purgeLocked t queueName =
     (case getQueueLocked t queueName of
        Inl err \<Rightarrow> (Some err, t)
      | Inr (qn, q) \<Rightarrow> (None, put_queue t qn (sq_purge q)))"

definition setConstraints :: "taskQueueData \<Rightarrow> tq_Constraints option \<Rightarrow> taskQueueData" where
  "setConstraints t c =
     t\<lparr>constraints := (case c of None \<Rightarrow> \<lparr>MaxAddSize = 0, MaxDeleteSize = 0\<rparr> | Some c \<Rightarrow> c)\<rparr>"

section \<open>The service\<close>

text \<open>The callback gets, task by task, the error or the added task. \<^verbatim>\<open>clock.Now\<close> is read anew for
  every task: \<open>clk i\<close> is the reading for the task at position \<open>i\<close>.\<close>

fun addMulti_loop ::
    "(nat \<Rightarrow> gotime) \<Rightarrow> nat \<Rightarrow> string \<Rightarrow> sortedQueue \<Rightarrow> Task list \<Rightarrow>
     ((tq_error + Task) list \<times> sortedQueue) option" where
  "addMulti_loop clk i ns q [] = Some ([], q)"
| "addMulti_loop clk i ns q (task # tasks) = do {
     let (name, q) = (if Name task = '''' then genTaskName q else (Name task, q));
     task \<leftarrow> prepTask (clk i) task name (sq_name q) ns;
     let (err, q) = addTask q task;
     (rs, q) \<leftarrow> addMulti_loop clk (Suc i) ns q tasks;
     Some ((case err of Some err \<Rightarrow> Inl err | None \<Rightarrow> Inr task) # rs, q) }"

definition tq_AddMulti ::
    "(tq_error option list \<Rightarrow> tq_error option) \<Rightarrow> (nat \<Rightarrow> gotime) \<Rightarrow> string \<Rightarrow> Task option list \<Rightarrow> string \<Rightarrow>
     taskQueueData \<Rightarrow>
     ((tq_error + (tq_error + Task) list) \<times> taskQueueData) option" where
  "tq_AddMulti lme clk ns tasks queueName t =
     (case checkManyTasks lme tasks False of
        Some err \<Rightarrow> Some (Inl err, t)
      | None \<Rightarrow>
          (case getQueueLocked t queueName of
             Inl err \<Rightarrow> Some (Inl err, t)
           | Inr (qn, q) \<Rightarrow> do {
               (rs, q) \<leftarrow> addMulti_loop clk 0 ns q (map the tasks);
               Some (Inr rs, put_queue t qn q) }))"

fun deleteMulti_loop ::
    "sortedQueue \<Rightarrow> nat \<Rightarrow> Task list \<Rightarrow> ((nat \<times> tq_error) list \<times> sortedQueue) option" where
  "deleteMulti_loop q i [] = Some ([], q)"
| "deleteMulti_loop q i (task # tasks) = do {
     (err, q) \<leftarrow> deleteTask q task;
     (rs, q) \<leftarrow> deleteMulti_loop q (Suc i) tasks;
     Some ((case err of Some err \<Rightarrow> [(i, err)] | None \<Rightarrow> []) @ rs, q) }"

definition tq_DeleteMulti ::
    "Task list \<Rightarrow> string \<Rightarrow> taskQueueData \<Rightarrow> ((tq_error + (nat \<times> tq_error) list) \<times> taskQueueData) option" where
  "tq_DeleteMulti tasks queueName t =
     (case getQueueLocked t queueName of
        Inl err \<Rightarrow> Some (Inl err, t)
      | Inr (qn, q) \<Rightarrow> do {
          (rs, q) \<leftarrow> deleteMulti_loop q 0 tasks;
          Some (Inr rs, put_queue t qn q) })"

definition tq_Lease ::
    "gotime \<Rightarrow> int \<Rightarrow> string \<Rightarrow> int64 \<Rightarrow> taskQueueData \<Rightarrow> ((tq_error + Task list) \<times> taskQueueData) option" where
  "tq_Lease now maxTasks queueName leaseTime t =
     (case getQueueLocked t queueName of
        Inl err \<Rightarrow> Some (Inl err, t)
      | Inr (qn, q) \<Rightarrow> do {
          (r, q) \<leftarrow> leaseTasks q now maxTasks leaseTime False '''';
          Some (r, put_queue t qn q) })"

definition tq_LeaseByTag ::
    "gotime \<Rightarrow> int \<Rightarrow> string \<Rightarrow> int64 \<Rightarrow> string \<Rightarrow> taskQueueData \<Rightarrow>
     ((tq_error + Task list) \<times> taskQueueData) option" where
  "tq_LeaseByTag now maxTasks queueName leaseTime tag t =
     (case getQueueLocked t queueName of
        Inl err \<Rightarrow> Some (Inl err, t)
      | Inr (qn, q) \<Rightarrow> do {
          (r, q) \<leftarrow> leaseTasks q now maxTasks leaseTime True tag;
          Some (r, put_queue t qn q) })"

definition tq_ModifyLease ::
    "gotime \<Rightarrow> Task \<Rightarrow> string \<Rightarrow> int64 \<Rightarrow> taskQueueData \<Rightarrow> ((tq_error + Task) \<times> taskQueueData) option" where
  "tq_ModifyLease now task queueName leaseTime t =
     (case getQueueLocked t queueName of
        Inl err \<Rightarrow> Some (Inl err, t)
      | Inr (qn, q) \<Rightarrow> do {
          (r, q) \<leftarrow> modifyTaskLease q now task leaseTime;
          Some (r, put_queue t qn q) })"

definition tq_Purge :: "string \<Rightarrow> taskQueueData \<Rightarrow> tq_error option \<times> taskQueueData" where
  "tq_Purge queueName t = purgeLocked t queueName"

definition tq_Stats :: "string list \<Rightarrow> taskQueueData \<Rightarrow> (tq_error + tq_Statistics) list" where
  "tq_Stats queueNames t =
     map (\<lambda>qn. case getQueueLocked t qn of Inl err \<Rightarrow> Inl err | Inr (_, q) \<Rightarrow> Inr (getStats q)) queueNames"

section \<open>Transactions\<close>

text \<open>\<^verbatim>\<open>impl/memory/transaction.go\<close>: the state of the context's current transaction.\<close>

record transactionImpl =
  txi_closed :: bool
  isXG :: bool

definition txi_close :: "transactionImpl \<Rightarrow> tq_error option \<times> transactionImpl" where
  "txi_close ti = (if txi_closed ti then (Some errTxnClosed, ti) else (None, ti\<lparr>txi_closed := True\<rparr>))"

definition txi_valid :: "transactionImpl \<Rightarrow> tq_error option" where
  "txi_valid ti = (if txi_closed ti then Some errTxnExpired else None)"

definition assertTxnValid :: "transactionImpl option \<Rightarrow> tq_error option" where
  "assertTxnValid t = (case t of None \<Rightarrow> None | Some ti \<Rightarrow> txi_valid ti)"

text \<open>The tasks of a transaction, per queue; \<open>None\<close> is the nil map a commit leaves.\<close>

record txnTaskQueueData =
  txn_closed :: bool
  anony :: "(string \<times> Task list) list option"

definition tq_mkTxn :: txnTaskQueueData where
  "tq_mkTxn = \<lparr>txn_closed = False, anony = Some []\<rparr>"

definition txn_endTxn :: "txnTaskQueueData \<Rightarrow> txnTaskQueueData option" where
  "txn_endTxn x = (if txn_closed x then None else Some (x\<lparr>txn_closed := True\<rparr>))"

definition anony_list :: "txnTaskQueueData \<Rightarrow> (string \<times> Task list) list" where
  "anony_list x = (case anony x of None \<Rightarrow> [] | Some m \<Rightarrow> m)"

text \<open>Writing to a nil map panics.\<close>

definition txn_addLocked ::
    "gotime \<Rightarrow> string \<Rightarrow> txnTaskQueueData \<Rightarrow> Task \<Rightarrow> string \<Rightarrow> string \<Rightarrow>
     ((tq_error + Task) \<times> txnTaskQueueData) option" where
  "txn_addLocked now ns x task taskName queueName =
     (let numTasks = (\<Sum>(_, vs) \<leftarrow> anony_list x. length vs) in
      if numTasks + 1 > 5 then Some (Inl errBadRequest, x)
      else do {
        toSched \<leftarrow> prepTask now task taskName queueName ns;
        m \<leftarrow> anony x;
        Some (Inr toSched, x\<lparr>anony := Some (al_set m queueName (al_get m queueName @ [toSched]))\<rparr>) })"

fun genTaskNames :: "sortedQueue \<Rightarrow> nat \<Rightarrow> string list \<times> sortedQueue" where
  "genTaskNames q 0 = ([], q)"
| "genTaskNames q (Suc n) =
     (case genTaskName q of (name, q) \<Rightarrow> (case genTaskNames q n of (names, q) \<Rightarrow> (name # names, q)))"

fun txn_addMulti_loop ::
    "(nat \<Rightarrow> gotime) \<Rightarrow> nat \<Rightarrow> string \<Rightarrow> string \<Rightarrow> txnTaskQueueData \<Rightarrow> (Task \<times> string) list \<Rightarrow>
     ((tq_error + Task) list \<times> txnTaskQueueData) option" where
  "txn_addMulti_loop clk i ns queueName x [] = Some ([], x)"
| "txn_addMulti_loop clk i ns queueName x ((task, name) # rest) = do {
     (r, x) \<leftarrow> txn_addLocked (clk i) ns x task name queueName;
     (rs, x) \<leftarrow> txn_addMulti_loop clk (Suc i) ns queueName x rest;
     Some (r # rs, x) }"

definition txn_AddMulti ::
    "(tq_error option list \<Rightarrow> tq_error option) \<Rightarrow> transactionImpl option \<Rightarrow> (nat \<Rightarrow> gotime) \<Rightarrow> string \<Rightarrow>
     Task option list \<Rightarrow> string \<Rightarrow> taskQueueData \<times> txnTaskQueueData \<Rightarrow>
     ((tq_error + (tq_error + Task) list) \<times> taskQueueData \<times> txnTaskQueueData) option" where
  "txn_AddMulti lme cur clk ns tasks queueName s =
     (case s of (t, x) \<Rightarrow>
      case assertTxnValid cur of Some err \<Rightarrow> Some (Inl err, t, x)
      | None \<Rightarrow>
        (case checkManyTasks lme tasks True of Some err \<Rightarrow> Some (Inl err, t, x)
         | None \<Rightarrow>
           (case getQueueLocked t queueName of Inl err \<Rightarrow> Some (Inl err, t, x)
            | Inr (qn, q) \<Rightarrow> do {
                let queueName = sq_name q;
                let (names, q) = genTaskNames q (length tasks);
                (rs, x) \<leftarrow> txn_addMulti_loop clk 0 ns queueName x (zip (map the tasks) names);
                Some (Inr rs, put_queue t qn q, x) })))"

text \<open>The other operations of a transaction fail.\<close>

definition txn_refused :: "string \<Rightarrow> tq_error" where
  "txn_refused op = errNotInTxn (''taskqueue: cannot '' @ op @ '' from a transaction'')"

definition txn_resetTasks :: "taskQueueData \<times> txnTaskQueueData \<Rightarrow> taskQueueData \<times> txnTaskQueueData" where
  "txn_resetTasks s =
     (case s of (t, x) \<Rightarrow> (resetTasks t, x\<lparr>anony := map_option (map (\<lambda>(qn, _). (qn, []))) (anony x)\<rparr>))"

text \<open>Tasks of other namespaces stay nil in the result.\<close>

definition getTransactionTasks :: "txnTaskQueueData \<Rightarrow> string \<Rightarrow> (string \<times> Task option list) list" where
  "getTransactionTasks x ns =
     map (\<lambda>(k, vs). (k, map (\<lambda>v. if taskNamespace v = ns then Some v else None) vs)) (anony_list x)"

text \<open>The \<^verbatim>\<open>apply\<close> of \<^verbatim>\<open>beginCommit\<close>: a task that cannot be added, or a queue that does
  not exist, is a panic.\<close>

fun commit_tasks :: "sortedQueue \<Rightarrow> Task list \<Rightarrow> sortedQueue option" where
  "commit_tasks q [] = Some q"
| "commit_tasks q (tsk # tasks) =
     (case addTask q tsk of (Some err, _) \<Rightarrow> None | (None, q) \<Rightarrow> commit_tasks q tasks)"

fun commit_queues :: "taskQueueData \<Rightarrow> (string \<times> Task list) list \<Rightarrow> taskQueueData option" where
  "commit_queues t [] = Some t"
| "commit_queues t ((qn, tasks) # rest) =
     (case map_of (queues t) qn of
        None \<Rightarrow> if tasks = [] then commit_queues t rest else None
      | Some q \<Rightarrow> do { q \<leftarrow> commit_tasks q tasks; commit_queues (put_queue t qn q) rest })"

definition tq_commit :: "taskQueueData \<times> txnTaskQueueData \<Rightarrow> (taskQueueData \<times> txnTaskQueueData) option" where
  "tq_commit s =
     (case s of (t, x) \<Rightarrow> do {
        t \<leftarrow> commit_queues t (anony_list x);
        Some (t, x\<lparr>anony := None\<rparr>) })"

section \<open>Steps\<close>

text \<open>One call on the shared state, from any goroutine, and with it the calls of one
  transaction. Calls that panic take no step.\<close>

inductive tq_step ::
    "(tq_error option list \<Rightarrow> tq_error option) \<Rightarrow> taskQueueData \<times> txnTaskQueueData \<Rightarrow>
     taskQueueData \<times> txnTaskQueueData \<Rightarrow> bool" for lme where
  add: "tq_AddMulti lme clk ns tasks qn t = Some (r, t') \<Longrightarrow> tq_step lme (t, x) (t', x)"
| delete: "tq_DeleteMulti dts qn t = Some (r, t') \<Longrightarrow> tq_step lme (t, x) (t', x)"
| lease: "tq_Lease now m qn d t = Some (r, t') \<Longrightarrow> tq_step lme (t, x) (t', x)"
| leaseTag: "tq_LeaseByTag now m qn d tag t = Some (r, t') \<Longrightarrow> tq_step lme (t, x) (t', x)"
| modify: "tq_ModifyLease now task qn d t = Some (r, t') \<Longrightarrow> tq_step lme (t, x) (t', x)"
| purge: "tq_Purge qn t = (e, t') \<Longrightarrow> tq_step lme (t, x) (t', x)"
| create: "createQueue t qn = Some t' \<Longrightarrow> tq_step lme (t, x) (t', x)"
| createPull: "createPullQueue t qn = Some t' \<Longrightarrow> tq_step lme (t, x) (t', x)"
| reset: "tq_step lme (t, x) (resetTasks t, x)"
| set: "tq_step lme (t, x) (setConstraints t c, x)"
| begin_txn: "tq_step lme (t, x) (t, tq_mkTxn)"
| txn_add: "txn_AddMulti lme cur clk ns tasks qn s = Some (r, s') \<Longrightarrow> tq_step lme s s'"
| txn_reset: "tq_step lme s (txn_resetTasks s)"
| commit: "tq_commit s = Some s' \<Longrightarrow> tq_step lme s s'"
| end_txn: "txn_endTxn x = Some x' \<Longrightarrow> tq_step lme (t, x) (t, x')"

inductive_cases tq_stepE: "tq_step lme s s'"

end
