(* ===== verification/TaskQueue_Inv.thy ===== *)
theory TaskQueue_Inv
  imports TaskQueue
begin

text \<open>
  The invariant of a queue and what each operation does to it: the indexes of a pull queue
  hold exactly its live tasks, in heap order, the name maps agree with the task objects, and
  no operation meets a missing index. Each operation is described by its effect on two finite
  maps, the live tasks (\<open>sq_task\<close>) and the tombstones (\<open>sq_tomb\<close>); what a lease hands
  out is the list specification \<open>spec_lease\<close>.
\<close>

section \<open>The task order\<close>

definition task_key :: "Task \<Rightarrow> int \<times> string" where
  "task_key t = (time_ns (ETA t), Name t)"

lemma task_Less_key: "task_Less mem i j \<longleftrightarrow> task_key (mem ! i) < task_key (mem ! j)"
  by (auto simp: task_Less_def task_key_def time_Equal_def time_Before_def less_prod_def)

interpretation tl: heap_order "task_Less mem" for mem
  by unfold_locales (auto simp: task_Less_key)

section \<open>The indexes\<close>

definition idx_ok :: "Task list \<Rightarrow> task_ptr multiset \<Rightarrow> task_ptr list \<Rightarrow> bool" where
  "idx_ok mem M idx \<longleftrightarrow> is_heap (task_Less mem) idx \<and> mset idx = M"

lemma idx_ok_Nil [simp]: "idx_ok mem M [] \<longleftrightarrow> M = {#}"
  by (auto simp: idx_ok_def)

lemma idx_ok_mem:
  assumes "idx_ok mem M idx" and same: "\<And>p. p \<in># M \<Longrightarrow> mem' ! p = mem ! p"
  shows "idx_ok mem' M idx"
proof -
  have "mem' ! (idx ! k) = mem ! (idx ! k)" if "k < length idx" for k
    using assms that by (auto simp: idx_ok_def simp del: mset_eq_setD)
  then have "above_parent (task_Less mem') idx k \<longleftrightarrow> above_parent (task_Less mem) idx k"
    if "k < length idx" "0 < k" for k
    using that heap_parent_less [of k] by (simp add: above_parent_def task_Less_key)
  then show ?thesis using assms(1) by (simp add: idx_ok_def is_heap_def)
qed

lemma idx_ok_add: "idx_ok mem M idx \<Longrightarrow> idx_ok mem (add_mset p M) (idx_add mem idx p)"
  by (simp add: idx_ok_def idx_add_def tl.is_heap_Push mset_heap_Push)

lemma idx_ok_remove:
  assumes "idx_ok mem M idx" shows "idx_ok mem (M - {#p#}) (idx_remove mem idx p)"
proof -
  define i where "i = length (takeWhile (\<lambda>x. p \<noteq> x) idx)"
  show ?thesis
  proof (cases "i < length idx")
    case True
    then have "idx ! i = p" using nth_length_takeWhile [of "\<lambda>x. p \<noteq> x" idx] by (simp add: i_def)
    then show ?thesis
      using tl.heap_Remove_spec [of mem idx i] True assms
      by (auto simp: idx_ok_def idx_remove_def i_def Let_def)
  next
    case False
    then have "takeWhile (\<lambda>x. p \<noteq> x) idx = idx"
      by (metis i_def length_takeWhile_le le_less takeWhile_eq_take take_all_iff not_le)
    then have "p \<notin> set idx" by (auto simp: takeWhile_eq_all_conv)
    then show ?thesis using assms False
      by (auto simp: idx_ok_def idx_remove_def i_def Let_def diff_single_trivial)
  qed
qed

text \<open>\<^verbatim>\<open>extract\<close> takes the first ready tasks of the index in sorted order.\<close>

definition ready :: "gotime \<Rightarrow> Task \<Rightarrow> bool" where
  "ready now t \<longleftrightarrow> \<not> time_After (ETA t) now"

definition in_order :: "Task list \<Rightarrow> Task list" where
  "in_order ts = sort_key task_key ts"

lemma in_order_unique:
  "mset ys = mset xs \<Longrightarrow> inj_on task_key (set xs) \<Longrightarrow> sorted (map task_key ys) \<Longrightarrow> in_order xs = ys"
  unfolding in_order_def by (rule sort_key_inj_key_eq) auto

lemma in_order_least:
  assumes "mset xs = add_mset x (mset ys)" and inj: "inj_on task_key (set xs)"
    and least: "\<And>y. y \<in> set xs \<Longrightarrow> \<not> task_key y < task_key x"
  shows "in_order xs = x # in_order ys"
proof (rule in_order_unique)
  have "set ys \<subseteq> set xs" using assms(1) by (metis set_mset_mset set_mset_add_mset_insert subset_insertI)
  then show "sorted (map task_key (x # in_order ys))"
    using least by (force simp: in_order_def)
qed (use assms in \<open>auto simp: in_order_def\<close>)

lemma idx_extract_spec:
  assumes "idx_ok mem M idx" and "inj_on (\<lambda>p. task_key (mem ! p)) (set_mset M)"
  shows "\<exists>out idx'. idx_extract mem now m idx = (out, idx') \<and> idx_ok mem (M - mset out) idx' \<and> mset out \<subseteq># M \<and>
    map ((!) mem) out = take m (filter (ready now) (in_order (map ((!) mem) idx)))"
  using assms
proof (induction m arbitrary: idx M)
  case (Suc m)
  let ?ts = "map ((!) mem) idx"
  note heap = Suc.prems(1) [unfolded idx_ok_def]
  have keys: "inj_on task_key (set ?ts)" using Suc.prems heap by (force simp: inj_on_def)
  have least: "\<not> task_key y < task_key (mem ! (idx ! 0))" if "y \<in> set ?ts" for y
    using that tl.heap_least [of mem idx] heap by (auto simp: task_Less_key)
  show ?case
  proof (cases "length idx > 0 \<and> \<not> time_After (ETA (mem ! (idx ! 0))) now")
    case True
    then obtain idx' where pop: "heap_Pop (task_Less mem) idx = (idx ! 0, idx')"
      "is_heap (task_Less mem) idx'" "mset idx = add_mset (idx ! 0) (mset idx')"
      using tl.heap_Pop_spec [of mem idx] heap by auto
    have M: "M = add_mset (idx ! 0) (mset idx')" using pop heap by simp
    have "inj_on (\<lambda>p. task_key (mem ! p)) (set_mset (mset idx'))"
      using Suc.prems(2) by (rule inj_on_subset) (auto simp: M)
    from Suc.IH [OF _ this, of idx'] pop(2) obtain out idx'' where IH:
      "idx_extract mem now m idx' = (out, idx'')" "idx_ok mem (mset idx' - mset out) idx''" "mset out \<subseteq># mset idx'"
      "map ((!) mem) out = take m (filter (ready now) (in_order (map ((!) mem) idx')))"
      by (auto simp: idx_ok_def)
    have "in_order ?ts = mem ! (idx ! 0) # in_order (map ((!) mem) idx')"
      using pop(3) keys least by (intro in_order_least) auto
    moreover have "ready now (mem ! (idx ! 0))" using True by (simp add: ready_def)
    ultimately show ?thesis using True pop(1) IH M by simp
  next
    case False
    have "\<not> ready now y" if "y \<in> set (in_order ?ts)" for y
      using that False least [of y] by (auto simp: in_order_def ready_def time_After_def task_key_def less_prod_def)
    then show ?thesis using False Suc.prems by (auto simp: filter_empty_conv)
  qed
qed auto

section \<open>The queue invariant\<close>

abbreviation with_tag :: "Task list \<Rightarrow> string \<Rightarrow> task_ptr multiset \<Rightarrow> task_ptr multiset" where
  "with_tag mem tag M \<equiv> filter_mset (\<lambda>p. Tag (mem ! p) = tag) M"

definition tags_ok :: "Task list \<Rightarrow> task_ptr multiset \<Rightarrow> (string \<times> task_ptr list) list \<Rightarrow> bool" where
  "tags_ok mem M D \<longleftrightarrow> (\<forall>tag idx. map_of D tag = Some idx \<longrightarrow> idx_ok mem (with_tag mem tag M) idx)"

definition live_ptrs :: "sortedQueue \<Rightarrow> task_ptr multiset" where
  "live_ptrs q = mset (map snd (sq_tasks q))"

definition entry_ok :: "sortedQueue \<Rightarrow> string \<Rightarrow> task_ptr \<Rightarrow> bool" where
  "entry_ok q n p \<longleftrightarrow> p < length (sq_mem q) \<and> Name (sq_mem q ! p) = n \<and>
     (Method (sq_mem q ! p) = ''PULL'' \<longleftrightarrow> isPullQueue q)"

definition names_ok :: "sortedQueue \<Rightarrow> bool" where
  "names_ok q \<longleftrightarrow> distinct (map fst (sq_tasks q)) \<and> distinct (map fst (sq_archived q)) \<and>
     fst ` set (sq_tasks q) \<inter> fst ` set (sq_archived q) = {} \<and>
     (\<forall>n p. (n, p) \<in> set (sq_tasks q) \<or> (n, p) \<in> set (sq_archived q) \<longrightarrow> entry_ok q n p)"

text \<open>The indexes hold the pointers \<open>M\<close>: all live tasks between operations, fewer while
  an operation has some of them in hand.\<close>

definition pull_inv :: "sortedQueue \<Rightarrow> task_ptr multiset \<Rightarrow> bool" where
  "pull_inv q M \<longleftrightarrow> idx_ok (sq_mem q) M (sq_sorted q) \<and> tags_ok (sq_mem q) M (sq_sortedPerTag q) \<and>
     (\<forall>p \<in># live_ptrs q. map_of (sq_sortedPerTag q) (Tag (sq_mem q ! p)) \<noteq> None)"

definition sq_inv :: "sortedQueue \<Rightarrow> bool" where
  "sq_inv q \<longleftrightarrow> names_ok q \<and>
     (if isPullQueue q then pull_inv q (live_ptrs q) else sq_sorted q = [] \<and> sq_sortedPerTag q = [])"

lemma tags_ok_get: "tags_ok mem M D \<Longrightarrow> map_of D tag = Some idx \<Longrightarrow> idx_ok mem (with_tag mem tag M) idx"
  by (simp add: tags_ok_def)

lemma tags_ok_mem:
  assumes "tags_ok mem M D" and "\<And>p. p \<in># M \<Longrightarrow> mem' ! p = mem ! p"
  shows "tags_ok mem' M D"
proof -
  have "with_tag mem' tag M = with_tag mem tag M" for tag
    using assms(2) by (intro filter_mset_cong) auto
  moreover have "idx_ok mem' (with_tag mem tag M) idx" if "map_of D tag = Some idx" for tag idx
    using tags_ok_get [OF assms(1) that] assms(2) by (rule idx_ok_mem) auto
  ultimately show ?thesis by (simp add: tags_ok_def)
qed

lemma tags_ok_add:
  assumes "tags_ok mem M D" "idx_ok mem (with_tag mem (Tag (mem ! p)) M) idx"
  shows "tags_ok mem (add_mset p M) (al_set D (Tag (mem ! p)) (idx_add mem idx p))"
  using assms by (auto simp: tags_ok_def map_of_al_set idx_ok_add)

lemma tags_ok_remove:
  assumes "tags_ok mem M D" "map_of D (Tag (mem ! p)) = Some idx"
  shows "tags_ok mem (M - {#p#}) (al_set D (Tag (mem ! p)) (idx_remove mem idx p))"
proof -
  have "with_tag mem tag (M - {#p#}) = with_tag mem tag M" if "tag \<noteq> Tag (mem ! p)" for tag
    using that by (simp add: filter_diff_mset)
  moreover have "with_tag mem (Tag (mem ! p)) (M - {#p#}) = with_tag mem (Tag (mem ! p)) M - {#p#}"
    by (simp add: filter_diff_mset)
  ultimately show ?thesis
    using assms idx_ok_remove [OF tags_ok_get [OF assms], of p] by (auto simp: tags_ok_def map_of_al_set)
qed

text \<open>Pointers of live tasks are distinct, and so are the task keys.\<close>

lemma names_ok_task:
  "names_ok q \<Longrightarrow> map_of (sq_tasks q) n = Some p \<Longrightarrow>
   entry_ok q n p"
  unfolding names_ok_def by (blast dest: map_of_SomeD)

lemma live_iff:
  "names_ok q \<Longrightarrow> p \<in># live_ptrs q \<longleftrightarrow> map_of (sq_tasks q) (Name (sq_mem q ! p)) = Some p"
proof -
  assume ok: "names_ok q"
  have "Name (sq_mem q ! p) = n" if "(n, p) \<in> set (sq_tasks q)" for n
    using ok that by (simp add: names_ok_def entry_ok_def)
  then have "p \<in># live_ptrs q \<longleftrightarrow> (Name (sq_mem q ! p), p) \<in> set (sq_tasks q)" by (force simp: live_ptrs_def)
  then show ?thesis using ok by (simp add: names_ok_def)
qed

lemma live_less: "names_ok q \<Longrightarrow> p \<in># live_ptrs q \<Longrightarrow> p < length (sq_mem q)"
  using live_iff names_ok_task entry_ok_def by blast

lemma distinct_live: "names_ok q \<Longrightarrow> distinct (map snd (sq_tasks q))"
proof -
  assume ok: "names_ok q"
  have "map (\<lambda>x. Name (sq_mem q ! snd x)) (sq_tasks q) = map fst (sq_tasks q)"
    using ok by (intro map_cong) (auto simp: names_ok_def entry_ok_def)
  then have "distinct (map (\<lambda>p. Name (sq_mem q ! p)) (map snd (sq_tasks q)))"
    using ok by (simp only: map_map comp_def names_ok_def)
  then show ?thesis using distinct_map by blast
qed

lemma inj_names: "names_ok q \<Longrightarrow> inj_on (\<lambda>p. Name (sq_mem q ! p)) (set_mset (live_ptrs q))"
  by (rule inj_onI) (metis live_iff option.inject)

lemma inj_mem: "names_ok q \<Longrightarrow> inj_on ((!) (sq_mem q)) (set_mset (live_ptrs q))"
  using inj_names by (rule inj_on_imageI2 [of Name, unfolded comp_def])

lemma inj_task_keys: "names_ok q \<Longrightarrow> inj_on (\<lambda>p. task_key (sq_mem q ! p)) (set_mset (live_ptrs q))"
  using inj_names by (fastforce simp: inj_on_def task_key_def)

section \<open>What a queue holds\<close>

definition sq_task :: "sortedQueue \<Rightarrow> string \<Rightarrow> Task option" where
  "sq_task q n = map_option ((!) (sq_mem q)) (map_of (sq_tasks q) n)"

definition sq_tomb :: "sortedQueue \<Rightarrow> string \<Rightarrow> Task option" where
  "sq_tomb q n = map_option ((!) (sq_mem q)) (map_of (sq_archived q) n)"

lemma names_ok_updates [simp]:
  "names_ok (q\<lparr>sq_sorted := a\<rparr>) = names_ok q" "names_ok (q\<lparr>sq_sortedPerTag := b\<rparr>) = names_ok q"
  "names_ok (q\<lparr>nextAutoGenID := c\<rparr>) = names_ok q"
  by (simp_all add: names_ok_def entry_ok_def)

lemma live_updates [simp]:
  "live_ptrs (q\<lparr>sq_sorted := a\<rparr>) = live_ptrs q" "live_ptrs (q\<lparr>sq_sortedPerTag := b\<rparr>) = live_ptrs q"
  "live_ptrs (q\<lparr>nextAutoGenID := c\<rparr>) = live_ptrs q" "live_ptrs (q\<lparr>sq_mem := d\<rparr>) = live_ptrs q"
  by (simp_all add: live_ptrs_def)

lemma sq_task_updates [simp]:
  "sq_task (q\<lparr>sq_sorted := a\<rparr>) = sq_task q" "sq_task (q\<lparr>sq_sortedPerTag := b\<rparr>) = sq_task q"
  "sq_task (q\<lparr>nextAutoGenID := c\<rparr>) = sq_task q"
  "sq_tomb (q\<lparr>sq_sorted := a\<rparr>) = sq_tomb q" "sq_tomb (q\<lparr>sq_sortedPerTag := b\<rparr>) = sq_tomb q"
  "sq_tomb (q\<lparr>nextAutoGenID := c\<rparr>) = sq_tomb q"
  by (rule ext, simp add: sq_task_def sq_tomb_def)+

subsection \<open>Adding\<close>

definition put_task :: "sortedQueue \<Rightarrow> Task \<Rightarrow> sortedQueue" where
  "put_task q task = q\<lparr>sq_mem := sq_mem q @ [task], sq_tasks := al_set (sq_tasks q) (Name task) (length (sq_mem q))\<rparr>"

lemma stored_props:
  assumes "names_ok q" "map_of (sq_archived q) (Name task) = None" "map_of (sq_tasks q) (Name task) = None"
    and "Method task = ''PULL'' \<longleftrightarrow> isPullQueue q"
  shows names_ok_stored: "names_ok (put_task q task)"
    and live_stored: "live_ptrs (put_task q task) = add_mset (length (sq_mem q)) (live_ptrs q)"
    and sq_task_stored: "sq_task (put_task q task) = (sq_task q)(Name task \<mapsto> task)"
    and sq_tomb_stored: "sq_tomb (put_task q task) = sq_tomb q"
proof -
  have fresh: "Name task \<notin> fst ` set (sq_tasks q)" "Name task \<notin> fst ` set (sq_archived q)"
    using assms(2,3) by (simp_all add: map_of_eq_None_iff)
  then have set: "al_set (sq_tasks q) (Name task) p = sq_tasks q @ [(Name task, p)]" for p
    by (simp add: al_set_new)
  have old: "entry_ok (put_task q task) n p" if "entry_ok q n p" for n p
    using that by (simp add: entry_ok_def put_task_def nth_append)
  have new: "entry_ok (put_task q task) (Name task) (length (sq_mem q))"
    using assms(4) by (simp add: entry_ok_def put_task_def)
  have sel: "sq_tasks (put_task q task) = sq_tasks q @ [(Name task, length (sq_mem q))]"
    "sq_archived (put_task q task) = sq_archived q" "sq_mem (put_task q task) = sq_mem q @ [task]"
    by (simp_all add: put_task_def set)
  show "names_ok (put_task q task)"
    unfolding names_ok_def sel using assms(1) fresh old new by (auto simp: names_ok_def)
  show "live_ptrs (put_task q task) = add_mset (length (sq_mem q)) (live_ptrs q)" by (simp add: live_ptrs_def sel)
  have bound: "p < length (sq_mem q)" if "map_of (sq_tasks q) n = Some p \<or> map_of (sq_archived q) n = Some p" for n p
    using assms(1) that unfolding names_ok_def entry_ok_def by (blast dest: map_of_SomeD)
  show "sq_task (put_task q task) = (sq_task q)(Name task \<mapsto> task)"
    using bound assms(3) by (auto simp: sq_task_def sel fun_eq_iff map_add_def nth_append split: option.splits)
  show "sq_tomb (put_task q task) = sq_tomb q"
  proof
    fix n
    show "sq_tomb (put_task q task) n = sq_tomb q n"
      using bound [of n] by (cases "map_of (sq_archived q) n") (simp_all add: sq_tomb_def sel nth_append)
  qed
qed

lemma addTask_stored:
  assumes inv: "sq_inv q" and add: "addTask q task = (None, q')"
  shows "\<exists>a b. q' = (put_task q task)\<lparr>sq_sorted := a, sq_sortedPerTag := b\<rparr> \<and> sq_inv q' \<and>
    map_of (sq_archived q) (Name task) = None \<and> map_of (sq_tasks q) (Name task) = None \<and>
    (Method task = ''PULL'' \<longleftrightarrow> isPullQueue q)"
proof -
  have guard: "map_of (sq_archived q) (Name task) = None" "map_of (sq_tasks q) (Name task) = None"
    "Method task = ''PULL'' \<longleftrightarrow> isPullQueue q"
    using add by (auto simp: addTask_def split: if_splits)
  have names: "names_ok q" using inv by (simp add: sq_inv_def)
  note st = stored_props [OF names guard]
  show ?thesis
  proof (cases "isPullQueue q")
    case False
    then have "q' = put_task q task" using add guard by (auto simp: addTask_def put_task_def Let_def)
    then show ?thesis using False inv st(1) guard
      by (intro exI [of _ "sq_sorted q"] exI [of _ "sq_sortedPerTag q"]) (auto simp: sq_inv_def put_task_def)
  next
    case True
    let ?p = "length (sq_mem q)" and ?mem = "sq_mem q @ [task]"
    let ?D = "sq_sortedPerTag q" and ?M = "live_ptrs q"
    let ?srt = "idx_add ?mem (sq_sorted q) ?p"
    let ?tags = "al_set ?D (Tag task) (idx_add ?mem (al_get ?D (Tag task)) ?p)"
    have q': "q' = (put_task q task)\<lparr>sq_sorted := ?srt, sq_sortedPerTag := ?tags\<rparr>"
      using add guard True by (auto simp: addTask_def put_task_def Let_def)
    have pull: "pull_inv q ?M" using inv True by (simp add: sq_inv_def)
    have mem: "?mem ! p = sq_mem q ! p" if "p \<in># ?M" for p
      using live_less [OF names that] by (simp add: nth_append)
    from pull have pull': "idx_ok (sq_mem q) ?M (sq_sorted q)" "tags_ok (sq_mem q) ?M ?D" by (simp_all add: pull_inv_def)
    have srt: "idx_ok ?mem (add_mset ?p ?M) ?srt" by (rule idx_ok_add [OF idx_ok_mem [OF pull'(1) mem]])
    have tags: "tags_ok ?mem ?M ?D" by (rule tags_ok_mem [OF pull'(2) mem])
    have "idx_ok ?mem (with_tag ?mem (Tag task) ?M) (al_get ?D (Tag task))"
    proof (cases "map_of ?D (Tag task)")
      case None
      then have "Tag (?mem ! p) \<noteq> Tag task" if "p \<in># ?M" for p
        using pull that mem [OF that] by (auto simp: pull_inv_def)
      then have "with_tag ?mem (Tag task) ?M = {#}" by (auto simp: multiset_eq_iff count_eq_zero_iff)
      then show ?thesis using None by (simp add: al_get_def)
    next
      case (Some idx)
      then show ?thesis using tags_ok_get [OF tags] by (simp add: al_get_def)
    qed
    with tags have tags': "tags_ok ?mem (add_mset ?p ?M) ?tags"
      using tags_ok_add [of ?mem ?M ?D ?p "al_get ?D (Tag task)"] by simp
    have "sq_inv q'"
      using st(1,2) srt tags' True pull mem
      by (auto simp: sq_inv_def pull_inv_def q' put_task_def map_of_al_set)
    then show ?thesis using q' guard by blast
  qed
qed

lemma addTask_error: "addTask q task = (Some e, q') \<Longrightarrow> q' = q"
  by (auto simp: addTask_def Let_def split: if_splits)

lemma addTask_inv: "sq_inv q \<Longrightarrow> addTask q task = (e, q') \<Longrightarrow> sq_inv q'"
  using addTask_stored addTask_error by (cases e) blast+

lemma addTask_effect:
  assumes "sq_inv q" "addTask q task = (None, q')"
  shows "sq_task q' = (sq_task q)(Name task \<mapsto> task)" "sq_tomb q' = sq_tomb q"
  using addTask_stored [OF assms] stored_props [of q task] assms(1) by (auto simp: sq_inv_def)

subsection \<open>Taking a task out of the indexes and putting it back\<close>

text \<open>The operations on the indexes of a pull queue.\<close>

lemma perTag_remove_ok:
  assumes tags: "tags_ok (sq_mem q) M (sq_sortedPerTag q)" and dom: "map_of (sq_sortedPerTag q) (Tag (sq_mem q ! p)) \<noteq> None"
  shows "\<exists>D. perTag_remove q p = Some (q\<lparr>sq_sortedPerTag := D\<rparr>) \<and> tags_ok (sq_mem q) (M - {#p#}) D \<and>
    (\<forall>tag. map_of D tag = None \<longleftrightarrow> map_of (sq_sortedPerTag q) tag = None)"
proof -
  from dom obtain idx where idx: "map_of (sq_sortedPerTag q) (Tag (sq_mem q ! p)) = Some idx" by auto
  let ?D = "al_set (sq_sortedPerTag q) (Tag (sq_mem q ! p)) (idx_remove (sq_mem q) idx p)"
  have "map_of ?D tag = None \<longleftrightarrow> map_of (sq_sortedPerTag q) tag = None" for tag
    using idx by (auto simp: map_of_al_set)
  then show ?thesis using idx tags_ok_remove [OF tags idx] by (auto simp: perTag_remove_def Let_def)
qed

lemma perTag_add_ok:
  assumes tags: "tags_ok (sq_mem q) M (sq_sortedPerTag q)" and dom: "map_of (sq_sortedPerTag q) (Tag (sq_mem q ! p)) \<noteq> None"
  shows "\<exists>D. perTag_add q p = Some (q\<lparr>sq_sortedPerTag := D\<rparr>) \<and> tags_ok (sq_mem q) (add_mset p M) D \<and>
    (\<forall>tag. map_of D tag = None \<longleftrightarrow> map_of (sq_sortedPerTag q) tag = None)"
proof -
  from dom obtain idx where idx: "map_of (sq_sortedPerTag q) (Tag (sq_mem q ! p)) = Some idx" by auto
  let ?D = "al_set (sq_sortedPerTag q) (Tag (sq_mem q ! p)) (idx_add (sq_mem q) idx p)"
  have "map_of ?D tag = None \<longleftrightarrow> map_of (sq_sortedPerTag q) tag = None" for tag
    using idx by (auto simp: map_of_al_set)
  then show ?thesis using idx tags_ok_add [OF tags tags_ok_get [OF tags idx]] by (auto simp: perTag_add_def Let_def)
qed

lemma mset_al_delete:
  assumes "distinct (map fst m)" and "map_of m k = Some v"
  shows "mset (map snd (al_delete m k)) = mset (map snd m) - {#v#}"
proof -
  have "mset m = add_mset (k, v) (mset (al_delete m k))"
    using assms
  proof (induction m)
    case (Cons a m)
    have "al_delete m k = m" if "k \<notin> fst ` set m"
      using that by (induction m) (auto simp: al_delete_def)
    then show ?case using Cons by (cases "fst a = k") (cases a; simp add: al_delete_def)+
  qed simp
  then show ?thesis by (simp only: mset_map image_mset_add_mset snd_conv add_mset_remove_trivial)
qed

lemma deleteTask_effect:
  assumes inv: "sq_inv q" and name: "map_of (sq_tasks q) (Name task) = Some t"
    and tomb: "map_of (sq_archived q) (Name task) = None"
  shows "\<exists>q'. deleteTask q task = Some (None, q') \<and> sq_inv q' \<and> isPullQueue q' = isPullQueue q \<and>
    sq_task q' = (sq_task q)(Name task := None) \<and> sq_tomb q' = (sq_tomb q)(Name task := sq_task q (Name task))"
proof -
  define q1 where "q1 = q\<lparr>sq_archived := al_set (sq_archived q) (Name task) t,
    sq_tasks := al_delete (sq_tasks q) (Name task)\<rparr>"
  have names: "names_ok q" using inv by (simp add: sq_inv_def)
  have arch: "al_set (sq_archived q) (Name task) t = sq_archived q @ [(Name task, t)]"
    using tomb by (simp add: al_set_new map_of_eq_None_iff)
  have t: "entry_ok q (Name task) t" "(Name task, t) \<in> set (sq_tasks q)"
    using names_ok_task [OF names name] map_of_SomeD [OF name] by auto
  have fresh: "Name task \<notin> fst ` set (sq_archived q)" using tomb by (simp add: map_of_eq_None_iff)
  have entry: "entry_ok q1 = entry_ok q" by (simp add: entry_ok_def q1_def fun_eq_iff)
  have sel: "sq_tasks q1 = al_delete (sq_tasks q) (Name task)" "sq_archived q1 = sq_archived q @ [(Name task, t)]"
    by (simp_all add: q1_def arch)
  have names1: "names_ok q1"
  proof -
    have sub: "set (al_delete (sq_tasks q) (Name task)) \<subseteq> set (sq_tasks q)"
      "Name task \<notin> fst ` set (al_delete (sq_tasks q) (Name task))" by (auto simp: al_delete_def)
    have old: "distinct (map fst (sq_tasks q))" "distinct (map fst (sq_archived q))"
      "fst ` set (sq_tasks q) \<inter> fst ` set (sq_archived q) = {}"
      "\<And>n p. (n, p) \<in> set (sq_tasks q) \<or> (n, p) \<in> set (sq_archived q) \<Longrightarrow> entry_ok q n p"
      using names by (auto simp: names_ok_def)
    have "fst ` set (al_delete (sq_tasks q) (Name task)) \<inter> fst ` set (sq_archived q @ [(Name task, t)]) = {}"
      using old(3) sub by auto
    moreover have "entry_ok q n p" if "(n, p) \<in> set (al_delete (sq_tasks q) (Name task)) \<or>
        (n, p) \<in> set (sq_archived q @ [(Name task, t)])" for n p
      using that old(4) sub(1) t(1) by auto
    ultimately show ?thesis
      using distinct_al_delete [OF old(1), of "Name task"] old(2) fresh
      unfolding names_ok_def entry sel by auto
  qed
  have live1: "live_ptrs q1 = live_ptrs q - {#t#}"
    using names mset_al_delete [OF _ name] by (simp add: live_ptrs_def q1_def names_ok_def)
  have task1: "sq_task q1 = (sq_task q)(Name task := None)" "sq_tomb q1 = (sq_tomb q)(Name task := sq_task q (Name task))"
    using name by (auto simp: sq_task_def sq_tomb_def q1_def map_of_al_delete map_of_al_set)
  show ?thesis
  proof (cases "isPullQueue q")
    case False
    then show ?thesis
      using inv names1 task1 name tomb by (auto simp: deleteTask_def sq_inv_def q1_def Let_def)
  next
    case True
    let ?q = "sorted_remove q1 t"
    have pull: "pull_inv q (live_ptrs q)" and mem: "sq_mem q1 = sq_mem q" "sq_sortedPerTag q1 = sq_sortedPerTag q" "sq_sorted q1 = sq_sorted q"
      using True inv by (simp_all add: sq_inv_def q1_def)
    have "t \<in># live_ptrs q" using t(2) by (force simp: live_ptrs_def)
    then obtain D where D: "perTag_remove ?q t = Some (?q\<lparr>sq_sortedPerTag := D\<rparr>)"
        "tags_ok (sq_mem q) (live_ptrs q - {#t#}) D" "\<And>tag. map_of D tag = None \<longleftrightarrow> map_of (sq_sortedPerTag q) tag = None"
      using perTag_remove_ok [of ?q "live_ptrs q" t] pull mem by (auto simp: pull_inv_def sorted_remove_def)
    let ?q' = "?q\<lparr>sq_sortedPerTag := D\<rparr>"
    have "deleteTask q task = Some (None, ?q')"
      using True name tomb D(1) by (simp add: deleteTask_def q1_def Let_def)
    moreover have "pull_inv ?q' (live_ptrs ?q')"
      using pull D(2,3) idx_ok_remove [of "sq_mem q" "live_ptrs q" "sq_sorted q" t] mem
      by (auto simp: pull_inv_def sorted_remove_def live1 simp del: not_None_eq dest: in_diffD)
    ultimately show ?thesis
      using names1 task1 True by (auto simp: sq_inv_def sorted_remove_def q1_def)
  qed
qed

subsection \<open>Leasing\<close>

text \<open>Leases change neither the maps nor the queue's identity.\<close>

definition same_book :: "sortedQueue \<Rightarrow> sortedQueue \<Rightarrow> bool" where
  "same_book q q' \<longleftrightarrow> sq_name q' = sq_name q \<and> isPullQueue q' = isPullQueue q \<and>
     nextAutoGenID q' = nextAutoGenID q \<and> sq_tasks q' = sq_tasks q \<and> sq_archived q' = sq_archived q"

lemma same_book_refl [simp]: "same_book q q"
  by (simp add: same_book_def)

lemma same_book_trans: "same_book q q' \<Longrightarrow> same_book q' q'' \<Longrightarrow> same_book q q''"
  by (simp add: same_book_def)

lemma same_book_live: "same_book q q' \<Longrightarrow> live_ptrs q' = live_ptrs q"
  by (simp add: same_book_def live_ptrs_def)

lemma names_ok_frame:
  assumes "names_ok q" "same_book q q'" "length (sq_mem q') = length (sq_mem q)"
    and "\<And>p. Name (sq_mem q' ! p) = Name (sq_mem q ! p) \<and> Method (sq_mem q' ! p) = Method (sq_mem q ! p)"
  shows "names_ok q'"
  using assms by (auto simp: names_ok_def same_book_def entry_ok_def)

text \<open>Taking one task out of both indexes, and putting one back under a new ETA.\<close>

lemma take_out:
  assumes "pull_inv q M" "t \<in># live_ptrs q"
  shows "\<exists>q'. perTag_remove (sorted_remove q t) t = Some q' \<and> pull_inv q' (M - {#t#}) \<and>
    same_book q q' \<and> sq_mem q' = sq_mem q"
proof -
  let ?q = "sorted_remove q t"
  obtain D where D: "perTag_remove ?q t = Some (?q\<lparr>sq_sortedPerTag := D\<rparr>)"
      "tags_ok (sq_mem q) (M - {#t#}) D" "\<And>tag. map_of D tag = None \<longleftrightarrow> map_of (sq_sortedPerTag q) tag = None"
    using perTag_remove_ok [of ?q M t] assms by (auto simp: pull_inv_def sorted_remove_def)
  show ?thesis
    using D assms idx_ok_remove [of "sq_mem q" M "sq_sorted q" t]
    by (auto simp: pull_inv_def sorted_remove_def same_book_def simp del: not_None_eq)
qed

lemma set_ETA_nth:
  "t < length (sq_mem q) \<Longrightarrow>
   sq_mem (set_ETA q t e) ! p = (if p = t then (sq_mem q ! p)\<lparr>ETA := e\<rparr> else sq_mem q ! p)"
  by (simp add: set_ETA_def nth_list_update)

lemma put_back:
  assumes names: "names_ok q" and pull: "pull_inv q M" and t: "t \<in># live_ptrs q" "t \<notin># M"
  shows "\<exists>q'. perTag_add (sorted_add (set_ETA q t e) t) t = Some q' \<and> pull_inv q' (add_mset t M) \<and>
    same_book q q' \<and> names_ok q' \<and> length (sq_mem q') = length (sq_mem q) \<and>
    (\<forall>p. sq_mem q' ! p = (if p = t then (sq_mem q ! p)\<lparr>ETA := e\<rparr> else sq_mem q ! p))"
proof -
  let ?mem = "sq_mem (set_ETA q t e)" and ?q = "sorted_add (set_ETA q t e) t"
  have len: "t < length (sq_mem q)" using names t(1) by (rule live_less)
  note nth = set_ETA_nth [OF len, of e]
  have sel: "sq_mem ?q = ?mem" "sq_sortedPerTag ?q = sq_sortedPerTag q" "sq_sorted ?q = idx_add ?mem (sq_sorted q) t"
    "same_book q ?q" "length ?mem = length (sq_mem q)"
    by (simp_all add: sorted_add_def set_ETA_def same_book_def)
  have tag: "Tag (?mem ! p) = Tag (sq_mem q ! p)" for p by (simp add: nth)
  have mem: "?mem ! p = sq_mem q ! p" if "p \<in># M" for p using that t(2) nth by auto
  from pull have p1: "idx_ok (sq_mem q) M (sq_sorted q)" and p2: "tags_ok (sq_mem q) M (sq_sortedPerTag q)"
    by (simp_all add: pull_inv_def)
  have tags: "tags_ok ?mem M (sq_sortedPerTag q)" by (rule tags_ok_mem [OF p2 mem])
  obtain D where D: "perTag_add ?q t = Some (?q\<lparr>sq_sortedPerTag := D\<rparr>)"
      "tags_ok ?mem (add_mset t M) D" "\<And>tag. map_of D tag = None \<longleftrightarrow> map_of (sq_sortedPerTag q) tag = None"
    using perTag_add_ok [of ?q M t] tags pull t(1) by (auto simp: pull_inv_def sel tag)
  let ?q' = "?q\<lparr>sq_sortedPerTag := D\<rparr>"
  have book: "same_book q ?q'" using sel(4) by (simp add: same_book_def)
  have "pull_inv ?q' (add_mset t M)"
    using idx_ok_add [OF idx_ok_mem [OF p1 mem], of t] D(2,3) pull same_book_live [OF sel(4)]
    by (auto simp: pull_inv_def sel tag simp del: not_None_eq)
  moreover have "names_ok ?q'" by (rule names_ok_frame [OF names book]) (simp_all add: sel nth)
  ultimately show ?thesis using D(1) book sel nth by auto
qed

lemma lease_requeue_ok:
  assumes "names_ok q" "pull_inv q M" "distinct ts" "\<And>p. p \<in> set ts \<Longrightarrow> p \<in># live_ptrs q \<and> p \<notin># M"
  shows "\<exists>q'. lease_requeue q e ts = Some q' \<and> pull_inv q' (M + mset ts) \<and> same_book q q' \<and> names_ok q' \<and>
    length (sq_mem q') = length (sq_mem q) \<and>
    (\<forall>p. sq_mem q' ! p = (if p \<in> set ts then (sq_mem q ! p)\<lparr>ETA := e\<rparr> else sq_mem q ! p))"
  using assms
proof (induction ts arbitrary: q M)
  case (Cons t ts)
  from put_back [of q M t e] Cons.prems obtain q1 where q1:
    "perTag_add (sorted_add (set_ETA q t e) t) t = Some q1" "pull_inv q1 (add_mset t M)" "same_book q q1"
    "names_ok q1" "length (sq_mem q1) = length (sq_mem q)"
    "\<And>p. sq_mem q1 ! p = (if p = t then (sq_mem q ! p)\<lparr>ETA := e\<rparr> else sq_mem q ! p)" by auto
  from Cons.IH [OF q1(4,2)] Cons.prems(3,4) same_book_live [OF q1(3)] obtain q2 where q2:
    "lease_requeue q1 e ts = Some q2" "pull_inv q2 (add_mset t M + mset ts)" "same_book q1 q2" "names_ok q2"
    "length (sq_mem q2) = length (sq_mem q1)"
    "\<And>p. sq_mem q2 ! p = (if p \<in> set ts then (sq_mem q1 ! p)\<lparr>ETA := e\<rparr> else sq_mem q1 ! p)" by auto
  show ?case
    using q1 q2 same_book_trans [OF q1(3) q2(3)] by (auto simp: Let_def)
qed simp

lemma lease_remove_tags_ok:
  assumes "tags_ok (sq_mem q) M (sq_sortedPerTag q)"
    and "\<And>p. p \<in> set ts \<Longrightarrow> map_of (sq_sortedPerTag q) (Tag (sq_mem q ! p)) \<noteq> None"
  shows "\<exists>D. lease_remove_tags q ts = Some (q\<lparr>sq_sortedPerTag := D\<rparr>) \<and> tags_ok (sq_mem q) (M - mset ts) D \<and>
    (\<forall>tag. map_of D tag = None \<longleftrightarrow> map_of (sq_sortedPerTag q) tag = None)"
  using assms
proof (induction ts arbitrary: q M)
  case Nil
  then show ?case by (intro exI [of _ "sq_sortedPerTag q"]) simp
next
  case (Cons t ts)
  from perTag_remove_ok [OF Cons.prems(1), of t] Cons.prems(2) obtain D where D:
    "perTag_remove q t = Some (q\<lparr>sq_sortedPerTag := D\<rparr>)" "tags_ok (sq_mem q) (M - {#t#}) D"
    "\<forall>tag. map_of D tag = None \<longleftrightarrow> map_of (sq_sortedPerTag q) tag = None" by auto
  with Cons.IH [of "q\<lparr>sq_sortedPerTag := D\<rparr>" "M - {#t#}"] Cons.prems(2) show ?case
    by (auto simp: D(1) simp del: not_None_eq)
qed

lemma sorted_removes_ok:
  assumes "idx_ok (sq_mem q) M (sq_sorted q)"
  shows "\<exists>idx. foldl sorted_remove q ts = q\<lparr>sq_sorted := idx\<rparr> \<and> idx_ok (sq_mem q) (M - mset ts) idx"
  using assms
proof (induction ts arbitrary: q M)
  case Nil
  then show ?case by (intro exI [of _ "sq_sorted q"]) simp
next
  case (Cons t ts)
  let ?q = "sorted_remove q t"
  have "idx_ok (sq_mem ?q) (M - {#t#}) (sq_sorted ?q)"
    using idx_ok_remove [OF Cons.prems, of t] by (simp add: sorted_remove_def)
  from Cons.IH [OF this] show ?case by (auto simp: sorted_remove_def)
qed

subsection \<open>What a lease hands out\<close>

definition sq_view :: "sortedQueue \<Rightarrow> Task list" where
  "sq_view q = map (\<lambda>(n, p). sq_mem q ! p) (sq_tasks q)"

definition spec_tag :: "gotime \<Rightarrow> bool \<Rightarrow> string \<Rightarrow> Task list \<Rightarrow> string option" where
  "spec_tag now useTag tag ts =
     (if useTag \<and> tag = '''' then (case filter (ready now) (in_order ts) of [] \<Rightarrow> None | t # _ \<Rightarrow> Some (Tag t))
      else Some tag)"

definition spec_lease :: "gotime \<Rightarrow> nat \<Rightarrow> bool \<Rightarrow> string \<Rightarrow> Task list \<Rightarrow> Task list" where
  "spec_lease now m useTag tag ts =
     (case spec_tag now useTag tag ts of
        None \<Rightarrow> []
      | Some tag \<Rightarrow> take m (filter (ready now) (in_order (filter (\<lambda>t. useTag \<longrightarrow> Tag t = tag) ts))))"

lemma in_order_cong:
  "mset xs = mset ys \<Longrightarrow> inj_on task_key (set xs) \<Longrightarrow> in_order xs = in_order ys"
  by (rule in_order_unique) (simp_all add: in_order_def)

lemma sq_view_alt: "sq_view q = map ((!) (sq_mem q)) (map snd (sq_tasks q))"
  by (simp add: sq_view_def split_beta)

lemma inj_view: "names_ok q \<Longrightarrow> inj_on task_key (set (sq_view q))"
  using inj_task_keys [of q] by (fastforce simp: sq_view_alt live_ptrs_def inj_on_def)

lemma in_order_idx:
  assumes "names_ok q" "idx_ok (sq_mem q) (filter_mset P (live_ptrs q)) idx"
    and "\<And>p. P p \<longleftrightarrow> R (sq_mem q ! p)"
  shows "in_order (map ((!) (sq_mem q)) idx) = in_order (filter R (sq_view q))"
proof (rule in_order_cong [symmetric])
  have "filter R (sq_view q) = map ((!) (sq_mem q)) (filter P (map snd (sq_tasks q)))"
    using assms(3) by (simp add: sq_view_alt filter_map comp_def)
  then have "mset (filter R (sq_view q)) = image_mset ((!) (sq_mem q)) (filter_mset P (live_ptrs q))"
    by (simp add: live_ptrs_def filter_mset_image_mset)
  then show "mset (filter R (sq_view q)) = mset (map ((!) (sq_mem q)) idx)"
    using assms(2) by (simp add: idx_ok_def)
  show "inj_on task_key (set (filter R (sq_view q)))"
    using inj_view [OF assms(1)] by (rule inj_on_subset) auto
qed

lemma lease_tag_spec:
  assumes "names_ok q" "pull_inv q (live_ptrs q)"
  shows "lease_tag q now useTag tag = spec_tag now useTag tag (sq_view q)"
proof -
  let ?idx = "sq_sorted q" and ?mem = "sq_mem q"
  have idx: "idx_ok ?mem (live_ptrs q) ?idx" using assms(2) by (simp add: pull_inv_def)
  have order: "in_order (map ((!) ?mem) ?idx) = in_order (sq_view q)"
    using in_order_idx [OF assms(1), of "\<lambda>_. True" ?idx "\<lambda>_. True"] idx by simp
  obtain out idx' where out: "idx_extract ?mem now (Suc 0) ?idx = (out, idx')"
      "map ((!) ?mem) out = take (Suc 0) (filter (ready now) (in_order (sq_view q)))"
    using idx_extract_spec [OF idx inj_task_keys [OF assms(1)], of now "Suc 0"] order by auto
  show ?thesis
  proof (cases "?idx \<noteq> [] \<and> \<not> time_After (ETA (?mem ! (?idx ! 0))) now")
    case True
    then have "out = [?idx ! 0]" using tl.heap_Pop_spec [of ?mem ?idx] idx out(1) by (auto simp: idx_ok_def)
    then obtain ts where "filter (ready now) (in_order (sq_view q)) = ?mem ! (?idx ! 0) # ts"
      using out(2) by (cases "filter (ready now) (in_order (sq_view q))") auto
    then show ?thesis using True by (simp add: lease_tag_def spec_tag_def idx_peek_def)
  next
    case False
    then have "out = []" using out(1) by auto
    then have "filter (ready now) (in_order (sq_view q)) = []" using out(2) by simp
    then show ?thesis using False by (auto simp: lease_tag_def spec_tag_def idx_peek_def)
  qed
qed

lemma lease_extract_spec:
  assumes names: "names_ok q" and pull: "pull_inv q (live_ptrs q)"
  shows "\<exists>ts q'. lease_extract q now m useTag tag = Some (ts, q') \<and> pull_inv q' (live_ptrs q - mset ts) \<and> mset ts \<subseteq># live_ptrs q \<and>
    same_book q q' \<and> sq_mem q' = sq_mem q \<and> map ((!) (sq_mem q)) ts =
      take m (filter (ready now) (in_order (filter (\<lambda>t. useTag \<longrightarrow> Tag t = tag) (sq_view q))))"
proof -
  let ?mem = "sq_mem q" and ?M = "live_ptrs q" and ?D = "sq_sortedPerTag q"
  have idx: "idx_ok ?mem ?M (sq_sorted q)" and tags: "tags_ok ?mem ?M ?D"
    and known: "\<And>p. p \<in># ?M \<Longrightarrow> map_of ?D (Tag (?mem ! p)) \<noteq> None"
    using pull by (auto simp: pull_inv_def)
  note inj = inj_task_keys [OF names]
  show ?thesis
  proof (cases useTag)
    case False
    from idx_extract_spec [OF idx inj, of now m] in_order_idx [OF names, of "\<lambda>_. True" _ "\<lambda>_. True"] idx
    obtain ts srt where ext: "idx_extract ?mem now m (sq_sorted q) = (ts, srt)" "idx_ok ?mem (?M - mset ts) srt"
      "mset ts \<subseteq># ?M" "map ((!) ?mem) ts = take m (filter (ready now) (in_order (sq_view q)))" by auto
    have ts: "map_of ?D (Tag (?mem ! p)) \<noteq> None" if "p \<in> set ts" for p
      using known [of p] mset_subset_eqD [OF ext(3), of p] that by simp
    obtain D where D: "lease_remove_tags (q\<lparr>sq_sorted := srt\<rparr>) ts = Some (q\<lparr>sq_sorted := srt, sq_sortedPerTag := D\<rparr>)"
        "tags_ok ?mem (?M - mset ts) D" "\<And>tag. map_of D tag = None \<longleftrightarrow> map_of ?D tag = None"
      using lease_remove_tags_ok [of "q\<lparr>sq_sorted := srt\<rparr>" ?M ts] tags ts by auto
    show ?thesis
      using False ext D known
      by (auto simp: lease_extract_def pull_inv_def same_book_def simp del: not_None_eq)
  next
    case True
    show ?thesis
    proof (cases "map_of ?D tag")
      case None
      then have "filter (\<lambda>t. Tag t = tag) (sq_view q) = []"
        using known by (force simp: sq_view_alt live_ptrs_def filter_empty_conv)
      then show ?thesis using True None pull by (simp add: lease_extract_def in_order_def)
    next
      case (Some perTag)
      note per = tags_ok_get [OF tags Some]
      have "inj_on (\<lambda>p. task_key (?mem ! p)) (set_mset (with_tag ?mem tag ?M))"
        using inj by (rule inj_on_subset) auto
      from idx_extract_spec [OF per this, of now m] in_order_idx [OF names per, of "\<lambda>t. Tag t = tag"]
      obtain ts idx' where ext: "idx_extract ?mem now m perTag = (ts, idx')" "idx_ok ?mem (with_tag ?mem tag ?M - mset ts) idx'"
        "mset ts \<subseteq># with_tag ?mem tag ?M"
        "map ((!) ?mem) ts = take m (filter (ready now) (in_order (filter (\<lambda>t. Tag t = tag) (sq_view q))))" by auto
      let ?D' = "al_set ?D tag idx'"
      have ts: "Tag (?mem ! p) = tag" if "p \<in> set ts" for p
        using mset_subset_eqD [OF ext(3), of p] that by simp
      then have "with_tag ?mem tag' (mset ts) = filter_mset (\<lambda>_. tag = tag') (mset ts)" for tag'
        by (intro filter_mset_cong) auto
      then have diff: "with_tag ?mem tag' (?M - mset ts) = (if tag' = tag then with_tag ?mem tag ?M - mset ts else with_tag ?mem tag' ?M)" for tag'
        by (auto simp: filter_diff_mset)
      have tags': "tags_ok ?mem (?M - mset ts) ?D'"
        using tags ext(2) by (auto simp: tags_ok_def map_of_al_set diff simp del: filter_diff_mset)
      have "idx_ok (sq_mem (q\<lparr>sq_sortedPerTag := ?D'\<rparr>)) ?M (sq_sorted (q\<lparr>sq_sortedPerTag := ?D'\<rparr>))"
        using idx by simp
      from sorted_removes_ok [OF this, of ts] obtain idx'' where
        "foldl sorted_remove (q\<lparr>sq_sortedPerTag := ?D'\<rparr>) ts = q\<lparr>sq_sortedPerTag := ?D', sq_sorted := idx''\<rparr>"
        "idx_ok ?mem (?M - mset ts) idx''" by auto
      moreover have "mset ts \<subseteq># ?M" using ext(3) multiset_filter_subset subset_mset.order_trans by blast
      ultimately show ?thesis
        using True Some ext(1,4) tags' known
        by (auto simp: lease_extract_def pull_inv_def same_book_def map_of_al_set simp del: not_None_eq)
    qed
  qed
qed

definition lease_end :: "gotime \<Rightarrow> int64 \<Rightarrow> gotime" where
  "lease_end now leaseTime = time_Add now (leaseSeconds leaseTime * 1000000000)"

lemma mset_subset_distinct: "mset ts \<subseteq># mset xs \<Longrightarrow> distinct xs \<Longrightarrow> distinct ts"
proof -
  assume sub: "mset ts \<subseteq># mset xs" and xs: "distinct xs"
  from sub obtain zs where "mset xs = mset (ts @ zs)"
    by (metis mset_subset_eq_exists_conv ex_mset mset_append)
  then have "distinct (ts @ zs)" using xs mset_eq_imp_distinct_iff by blast
  then show ?thesis by simp
qed

lemma sq_task_frame:
  assumes "same_book q q'" and "\<And>n p. map_of (sq_tasks q) n = Some p \<Longrightarrow> sq_mem q' ! p = f (sq_mem q ! p)"
  shows "sq_task q' = (\<lambda>n. map_option f (sq_task q n))"
  using assms by (auto simp: sq_task_def same_book_def fun_eq_iff option.map_comp intro!: option.map_cong0)

lemma archived_not_live:
  "names_ok q \<Longrightarrow> map_of (sq_archived q) n = Some p \<Longrightarrow> p \<notin># live_ptrs q"
proof
  assume ok: "names_ok q" and arch: "map_of (sq_archived q) n = Some p" and "p \<in># live_ptrs q"
  then obtain m where "(m, p) \<in> set (sq_tasks q)" by (force simp: live_ptrs_def)
  moreover have "(n, p) \<in> set (sq_archived q)" using arch by (rule map_of_SomeD)
  ultimately have "m = n" "m \<in> fst ` set (sq_tasks q)" "n \<in> fst ` set (sq_archived q)"
    using ok by (auto simp: names_ok_def entry_ok_def intro: rev_image_eqI)
  then show False using ok by (auto simp: names_ok_def)
qed

lemma sq_tomb_frame:
  assumes "names_ok q" "same_book q q'" "\<And>p. p \<notin># live_ptrs q \<Longrightarrow> sq_mem q' ! p = sq_mem q ! p"
  shows "sq_tomb q' = sq_tomb q"
  using assms archived_not_live [OF assms(1)]
  by (auto simp: sq_tomb_def same_book_def fun_eq_iff intro!: option.map_cong0)

lemma leaseTasks_effect:
  fixes now :: gotime
  assumes inv: "sq_inv q" and pull: "isPullQueue q" and args: "0 < maxTasks" "0 \<le> leaseSeconds leaseTime" "useTag \<or> tag = ''''"
  defines "L \<equiv> spec_lease now (nat maxTasks) useTag tag (sq_view q)"
  shows "\<exists>q'. leaseTasks q now maxTasks leaseTime useTag tag =
      Some (Inr (map (\<lambda>t. t\<lparr>ETA := lease_end now leaseTime\<rparr>) L), q') \<and>
    sq_inv q' \<and> isPullQueue q' \<and> sq_tomb q' = sq_tomb q \<and>
    sq_task q' = (\<lambda>n. map_option (\<lambda>t. if t \<in> set L then t\<lparr>ETA := lease_end now leaseTime\<rparr> else t) (sq_task q n))"
proof -
  let ?e = "lease_end now leaseTime"
  have names: "names_ok q" and pinv: "pull_inv q (live_ptrs q)" using inv pull by (simp_all add: sq_inv_def)
  note tag_eq = lease_tag_spec [OF names pinv, of now useTag tag]
  show ?thesis
  proof (cases "spec_tag now useTag tag (sq_view q)")
    case None
    then show ?thesis using inv pull args tag_eq
      by (auto simp: leaseTasks_def L_def spec_lease_def Let_def option.map_ident)
  next
    case (Some tag')
    obtain ts q1 where ext: "lease_extract q now (nat maxTasks) useTag tag' = Some (ts, q1)"
      "pull_inv q1 (live_ptrs q - mset ts)" "mset ts \<subseteq># live_ptrs q" "same_book q q1" "sq_mem q1 = sq_mem q"
      "map ((!) (sq_mem q)) ts = L"
      using lease_extract_spec [OF names pinv, of now "nat maxTasks" useTag tag'] Some
      by (auto simp: L_def spec_lease_def)
    have dist: "distinct ts"
      using ext(3) distinct_live [OF names] unfolding live_ptrs_def by (rule mset_subset_distinct)
    have ts: "p \<in># live_ptrs q1" "p \<notin># live_ptrs q - mset ts" if "p \<in> set ts" for p
    proof -
      show "p \<in># live_ptrs q1" using mset_subset_eqD [OF ext(3), of p] that same_book_live [OF ext(4)] by simp
      have "count (live_ptrs q) p \<le> 1"
        using distinct_live [OF names] by (auto simp: live_ptrs_def distinct_count_atmost_1)
      moreover have "0 < count (mset ts) p" using that by (simp only: count_greater_zero_iff set_mset_mset)
      ultimately have "count (live_ptrs q - mset ts) p = 0" by (simp only: count_diff)
      then show "p \<notin># live_ptrs q - mset ts" by (simp only: count_eq_zero_iff not_False_eq_True)
    qed
    have names1: "names_ok q1" using ext(4,5) by (intro names_ok_frame [OF names]) auto
    obtain q2 where q2: "lease_requeue q1 ?e ts = Some q2" "pull_inv q2 (live_ptrs q - mset ts + mset ts)" "same_book q1 q2"
      "names_ok q2" "\<And>p. sq_mem q2 ! p = (if p \<in> set ts then (sq_mem q1 ! p)\<lparr>ETA := ?e\<rparr> else sq_mem q1 ! p)"
      using lease_requeue_ok [OF names1 ext(2) dist, of ?e] ts by auto
    have book: "same_book q q2" using ext(4) q2(3) by (rule same_book_trans)
    have "leaseTasks q now maxTasks leaseTime useTag tag = Some (Inr (map ((!) (sq_mem q2)) ts), q2)"
      using pull args tag_eq Some ext(1) q2(1) by (auto simp: leaseTasks_def Let_def lease_end_def)
    moreover have "map ((!) (sq_mem q2)) ts = map (\<lambda>t. t\<lparr>ETA := ?e\<rparr>) L"
      by (simp flip: ext(6) add: q2(5) ext(5))
    moreover have "sq_inv q2"
      using pull q2(2,4) book same_book_live [OF book] ext(3) by (simp add: sq_inv_def same_book_def)
    moreover have "isPullQueue q2" using book pull by (simp add: same_book_def)
    moreover have "sq_tomb q2 = sq_tomb q"
      using mset_subset_eqD [OF ext(3)] by (intro sq_tomb_frame [OF names book]) (auto simp: q2(5) ext(5))
    moreover have "sq_task q2 = (\<lambda>n. map_option (\<lambda>t. if t \<in> set L then t\<lparr>ETA := ?e\<rparr> else t) (sq_task q n))"
    proof (rule sq_task_frame [OF book])
      fix n p assume "map_of (sq_tasks q) n = Some p"
      then have "p \<in># live_ptrs q" by (force simp: live_ptrs_def dest: map_of_SomeD)
      moreover have "set ts \<subseteq> set_mset (live_ptrs q)" using ext(3) set_mset_mono by fastforce
      ultimately have "p \<in> set ts \<longleftrightarrow> sq_mem q ! p \<in> set L"
        using inj_on_image_mem_iff [OF inj_mem [OF names]] unfolding ext(6) [symmetric] by simp
      then show "sq_mem q2 ! p = (if sq_mem q ! p \<in> set L then (sq_mem q ! p)\<lparr>ETA := ?e\<rparr> else sq_mem q ! p)"
        by (simp add: q2(5) ext(5))
    qed
    ultimately show ?thesis by auto
  qed
qed

subsection \<open>Modifying a lease\<close>

lemma live_task: "map_of (sq_tasks q) n = Some p \<Longrightarrow> p \<in># live_ptrs q"
  by (force simp: live_ptrs_def dest: map_of_SomeD)

lemma modifyTaskLease_effect:
  assumes inv: "sq_inv q" and pull: "isPullQueue q" and args: "0 \<le> leaseSeconds leaseTime"
    and task: "sq_task q (Name t) = Some task" "time_Equal (ETA task) (ETA t)" "\<not> time_After now (ETA task)"
  shows "\<exists>q'. modifyTaskLease q now t leaseTime = Some (Inr (t\<lparr>ETA := lease_end now leaseTime\<rparr>), q') \<and>
    sq_inv q' \<and> isPullQueue q' \<and> sq_tomb q' = sq_tomb q \<and>
    sq_task q' = (sq_task q)(Name t \<mapsto> task\<lparr>ETA := lease_end now leaseTime\<rparr>)"
proof -
  let ?e = "lease_end now leaseTime"
  have names: "names_ok q" and pinv: "pull_inv q (live_ptrs q)" using inv pull by (simp_all add: sq_inv_def)
  obtain p where p: "map_of (sq_tasks q) (Name t) = Some p" "task = sq_mem q ! p"
    using task(1) by (auto simp: sq_task_def)
  have pl: "p \<in># live_ptrs q" using p(1) by (rule live_task)
  have tomb: "map_of (sq_archived q) (Name t) = None"
    using names imageI [OF map_of_SomeD [OF p(1)], of fst] by (auto simp: names_ok_def map_of_eq_None_iff)
  obtain q1 where q1: "perTag_remove (sorted_remove q p) p = Some q1" "pull_inv q1 (live_ptrs q - {#p#})"
    "same_book q q1" "sq_mem q1 = sq_mem q" using take_out [OF pinv pl] by auto
  have names1: "names_ok q1" using q1(3,4) by (intro names_ok_frame [OF names]) auto
  have "count (live_ptrs q) p \<le> 1" using distinct_live [OF names] by (auto simp: live_ptrs_def distinct_count_atmost_1)
  then have "p \<notin># live_ptrs q - {#p#}" by (simp add: not_in_iff)
  then obtain q2 where q2: "perTag_add (sorted_add (set_ETA q1 p ?e) p) p = Some q2"
    "pull_inv q2 (add_mset p (live_ptrs q - {#p#}))" "same_book q1 q2" "names_ok q2"
    "\<And>x. sq_mem q2 ! x = (if x = p then (sq_mem q ! x)\<lparr>ETA := ?e\<rparr> else sq_mem q ! x)"
    using put_back [OF names1 q1(2), of p ?e] pl same_book_live [OF q1(3)] q1(4) by auto
  have book: "same_book q q2" using q1(3) q2(3) by (rule same_book_trans)
  have "modifyTaskLease q now t leaseTime = Some (Inr (t\<lparr>ETA := ?e\<rparr>), q2)"
    using pull args task p tomb q1(1) q2(1,5) by (simp add: modifyTaskLease_def Let_def lease_end_def)
  moreover have "sq_inv q2"
    using pull q2(2,4) book same_book_live [OF book] pl by (simp add: sq_inv_def same_book_def)
  moreover have "isPullQueue q2" using book pull by (simp add: same_book_def)
  moreover have "sq_tomb q2 = sq_tomb q" using pl by (intro sq_tomb_frame [OF names book]) (auto simp: q2(5))
  moreover have "sq_task q2 = (sq_task q)(Name t \<mapsto> task\<lparr>ETA := ?e\<rparr>)"
  proof
    fix n
    have "n = Name t" if "map_of (sq_tasks q) n = Some p"
      using that names_ok_task [OF names] p(1) by (auto simp: entry_ok_def simp del: map_of_eq_Some_iff)
    then show "sq_task q2 n = ((sq_task q)(Name t \<mapsto> task\<lparr>ETA := ?e\<rparr>)) n"
      using p book by (cases "map_of (sq_tasks q) n") (auto simp: sq_task_def q2(5) same_book_def)
  qed
  ultimately show ?thesis by blast
qed

lemma modifyTaskLease_error:
  assumes "\<nexists>task. isPullQueue q \<and> 0 \<le> leaseSeconds leaseTime \<and> sq_tomb q (Name t) = None \<and>
    sq_task q (Name t) = Some task \<and> time_Equal (ETA task) (ETA t) \<and> \<not> time_After now (ETA task)"
  shows "\<exists>e. modifyTaskLease q now t leaseTime = Some (Inl e, q)"
  using assms by (cases "map_of (sq_tasks q) (Name t)") (auto simp: modifyTaskLease_def sq_task_def sq_tomb_def Let_def)

lemma leaseTasks_error:
  assumes "\<not> (isPullQueue q \<and> 0 < maxTasks \<and> 0 \<le> leaseSeconds leaseTime)"
  shows "\<exists>e. leaseTasks q now maxTasks leaseTime useTag tag = Some (Inl e, q)"
  using assms by (auto simp: leaseTasks_def Let_def)

section \<open>No operation on a queue breaks the invariant or panics\<close>

lemma sq_inv_new: "sq_inv (newSortedQueue n pull)"
  by (simp add: sq_inv_def names_ok_def newSortedQueue_def pull_inv_def tags_ok_def live_ptrs_def)

lemma sq_inv_purge: "sq_inv (sq_purge q)"
  by (simp add: sq_inv_def names_ok_def sq_purge_def pull_inv_def tags_ok_def live_ptrs_def)

lemma sq_inv_genTaskName: "sq_inv q \<Longrightarrow> sq_inv (snd (genTaskName q))"
  by (auto simp: sq_inv_def genTaskName_def Let_def pull_inv_def)

lemma sq_inv_genTaskNames: "sq_inv q \<Longrightarrow> sq_inv (snd (genTaskNames q n))"
proof (induction n arbitrary: q)
  case (Suc n)
  then show ?case using sq_inv_genTaskName [OF Suc.prems] by (auto simp: split_beta)
qed simp

lemma deleteTask_ok:
  assumes "sq_inv q" shows "\<exists>e q'. deleteTask q task = Some (e, q') \<and> sq_inv q'"
proof (cases "map_of (sq_archived q) (Name task) = None \<and> map_of (sq_tasks q) (Name task) \<noteq> None")
  case True
  then show ?thesis using deleteTask_effect [OF assms] by blast
next
  case False
  then show ?thesis using assms by (auto simp: deleteTask_def)
qed

lemma modifyTaskLease_ok:
  assumes "sq_inv q" shows "\<exists>e q'. modifyTaskLease q now t d = Some (e, q') \<and> sq_inv q'"
  using modifyTaskLease_effect [OF assms] modifyTaskLease_error [of q d t now] assms by metis

lemma leaseTasks_ok:
  assumes "sq_inv q" "useTag \<or> tag = ''''"
  shows "\<exists>r q'. leaseTasks q now m d useTag tag = Some (r, q') \<and> sq_inv q'"
proof (cases "isPullQueue q \<and> 0 < m \<and> 0 \<le> leaseSeconds d")
  case True
  then show ?thesis using leaseTasks_effect [of q m d useTag tag now] assms by blast
next
  case False
  then show ?thesis using leaseTasks_error [of q m d now useTag tag] assms by blast
qed

end
