(* ===== verification/TaskQueue_Props.thy ===== *)
theory TaskQueue_Props
  imports TaskQueue_Inv
begin

text \<open>
  What the task queue service guarantees in every reachable state: its queues keep their
  invariant and their operations do not panic; leasing hands out the ready tasks in
  (ETA, name) order and hides them until the lease ends; only the holder of a lease can
  modify it; deleted names stay taken until a purge; a transaction adds all its tasks when
  it commits.
\<close>

section \<open>The service invariant\<close>

definition tqd_inv :: "taskQueueData \<Rightarrow> bool" where
  "tqd_inv t \<longleftrightarrow> (\<forall>qn q. map_of (queues t) qn = Some q \<longrightarrow> sq_inv q \<and> sq_name q = qn) \<and>
     map_of (queues t) ''default'' \<noteq> None"

definition txn_inv :: "txnTaskQueueData \<Rightarrow> bool" where
  "txn_inv x \<longleftrightarrow> distinct (map fst (anony_list x)) \<and> (\<Sum>(_, vs) \<leftarrow> anony_list x. length vs) \<le> 5"

lemma tqd_inv_queue: "tqd_inv t \<Longrightarrow> getQueueLocked t qn = Inr (k, q) \<Longrightarrow> sq_inv q \<and> sq_name q = k \<and> map_of (queues t) k = Some q"
  by (auto simp: tqd_inv_def getQueueLocked_def Let_def simp del: not_None_eq split: option.splits)

lemma tqd_inv_put: "tqd_inv t \<Longrightarrow> sq_inv q \<Longrightarrow> sq_name q = k \<Longrightarrow> tqd_inv (put_queue t k q)"
  by (auto simp: tqd_inv_def put_queue_def map_of_al_set)

lemma sq_name_addTask: "addTask q task = (e, q') \<Longrightarrow> sq_name q' = sq_name q"
  by (auto simp: addTask_def Let_def split: if_splits)

lemma sq_name_genTaskName [simp]: "sq_name (snd (genTaskName q)) = sq_name q"
  by (simp add: genTaskName_def Let_def)

lemma sq_name_genTaskNames [simp]: "sq_name (snd (genTaskNames q n)) = sq_name q"
  by (induction n arbitrary: q) (auto simp: split_beta)

lemma perTag_name:
  "perTag_remove q t = Some q' \<Longrightarrow> sq_name q' = sq_name q"
  "perTag_add q t = Some q' \<Longrightarrow> sq_name q' = sq_name q"
  by (auto simp: perTag_remove_def perTag_add_def Let_def split: option.splits)

lemma sq_name_deleteTask: "deleteTask q task = Some (e, q') \<Longrightarrow> sq_name q' = sq_name q"
  by (auto simp: deleteTask_def Let_def sorted_remove_def split: option.splits if_splits bind_splits dest!: perTag_name)

lemma sq_name_modify: "modifyTaskLease q now t d = Some (r, q') \<Longrightarrow> sq_name q' = sq_name q"
  by (auto simp: modifyTaskLease_def Let_def sorted_remove_def sorted_add_def set_ETA_def
      split: option.splits if_splits bind_splits dest!: perTag_name)

lemma sq_name_requeue: "lease_requeue q e ts = Some q' \<Longrightarrow> sq_name q' = sq_name q"
  by (induction q e ts rule: lease_requeue.induct)
    (auto simp: Let_def sorted_add_def set_ETA_def split: bind_splits dest!: perTag_name)

lemma sq_name_remove_tags: "lease_remove_tags q ts = Some q' \<Longrightarrow> sq_name q' = sq_name q"
  by (induction q ts rule: lease_remove_tags.induct) (auto split: bind_splits dest!: perTag_name)

lemma sq_name_sorted_removes: "sq_name (foldl sorted_remove q ts) = sq_name q"
  by (induction ts arbitrary: q) (auto simp: sorted_remove_def)

lemma sq_name_lease: "leaseTasks q now m d useTag tag = Some (r, q') \<Longrightarrow> sq_name q' = sq_name q"
  by (auto simp: leaseTasks_def lease_extract_def Let_def sq_name_sorted_removes
      split: option.splits if_splits bind_splits prod.splits dest!: sq_name_requeue sq_name_remove_tags)

text \<open>The loops of the service over a queue.\<close>

lemma addMulti_loop_inv:
  "addMulti_loop clk i ns q tasks = Some (rs, q') \<Longrightarrow> sq_inv q \<Longrightarrow> sq_inv q' \<and> sq_name q' = sq_name q"
proof (induction tasks arbitrary: i q rs q')
  case (Cons task tasks)
  define nq where "nq = (if Name task = '''' then genTaskName q else (Name task, q))"
  have nq: "sq_inv (snd nq)" "sq_name (snd nq) = sq_name q"
    using Cons.prems(2) sq_inv_genTaskName by (simp_all add: nq_def)
  from Cons.prems(1) obtain task' e q1 rs' where s: "prepTask (clk i) task (fst nq) (sq_name (snd nq)) ns = Some task'"
      "addTask (snd nq) task' = (e, q1)" "addMulti_loop clk (Suc i) ns q1 tasks = Some (rs', q')"
    by (auto simp: nq_def Let_def split: prod.splits bind_splits)
  have "sq_inv q1" "sq_name q1 = sq_name q" using addTask_inv [OF nq(1) s(2)] sq_name_addTask [OF s(2)] nq(2) by auto
  with Cons.IH [OF s(3)] show ?case by simp
qed simp

lemma deleteMulti_loop_ok:
  "sq_inv q \<Longrightarrow> \<exists>rs q'. deleteMulti_loop q i tasks = Some (rs, q') \<and> sq_inv q' \<and> sq_name q' = sq_name q"
proof (induction tasks arbitrary: q i)
  case (Cons task tasks)
  from deleteTask_ok [OF Cons.prems] obtain e q1 where q1: "deleteTask q task = Some (e, q1)" "sq_inv q1" by blast
  from Cons.IH [OF q1(2), of "Suc i"] show ?case using q1 sq_name_deleteTask [OF q1(1)] by auto
qed simp

text \<open>The transaction side.\<close>

lemma sum_lengths_al_set:
  "distinct (map fst m) \<Longrightarrow>
   (\<Sum>(_, vs) \<leftarrow> al_set m k (al_get m k @ [v]). length vs) = Suc (\<Sum>(_, vs) \<leftarrow> m. length vs)"
  using sum_al_set [where m = m and k = k and v = "al_get m k @ [v]" and f = length]
  by (auto simp: al_get_def split: option.splits simp del: map_of_eq_Some_iff)

lemma txn_addLocked_inv:
  "txn_addLocked now ns x task name qn = Some (r, x') \<Longrightarrow> txn_inv x \<Longrightarrow> txn_inv x'"
  by (auto simp: txn_addLocked_def txn_inv_def Let_def anony_list_def distinct_al_set sum_lengths_al_set
      split: if_splits bind_splits option.splits)

lemma txn_addMulti_loop_inv:
  "txn_addMulti_loop clk i ns qn x tns = Some (rs, x') \<Longrightarrow> txn_inv x \<Longrightarrow> txn_inv x'"
proof (induction tns arbitrary: i x rs x')
  case (Cons tn tns)
  then show ?case by (cases tn) (auto split: bind_splits dest!: txn_addLocked_inv)
qed simp

lemma commit_tasks_inv:
  "commit_tasks q tasks = Some q' \<Longrightarrow> sq_inv q \<Longrightarrow> sq_inv q' \<and> sq_name q' = sq_name q"
proof (induction tasks arbitrary: q)
  case (Cons task tasks)
  from Cons.prems(1) obtain q1 where q1: "addTask q task = (None, q1)" "commit_tasks q1 tasks = Some q'"
    by (auto split: prod.splits option.splits)
  then show ?case using Cons.IH [OF q1(2)] addTask_inv [OF Cons.prems(2) q1(1)] sq_name_addTask [OF q1(1)] by simp
qed simp

lemma commit_queues_inv: "commit_queues t m = Some t' \<Longrightarrow> tqd_inv t \<Longrightarrow> tqd_inv t'"
proof (induction t m rule: commit_queues.induct)
  case (2 t qn tasks rest)
  show ?case
  proof (cases "map_of (queues t) qn")
    case None
    then show ?thesis using 2 by (auto split: if_splits)
  next
    case (Some q)
    with 2(3) obtain q1 where q1: "commit_tasks q tasks = Some q1" "commit_queues (put_queue t qn q1) rest = Some t'"
      by (auto split: bind_splits)
    have "sq_inv q" "sq_name q = qn" using 2(4) Some by (auto simp: tqd_inv_def simp del: not_None_eq)
    then have "tqd_inv (put_queue t qn q1)" using 2(4) commit_tasks_inv [OF q1(1)] by (auto intro: tqd_inv_put)
    then show ?thesis using 2(2) [OF Some q1] by simp
  qed
qed simp

lemma tqd_inv_reset: "tqd_inv t \<Longrightarrow> tqd_inv (resetTasks t)"
proof -
  have "map_of (map (\<lambda>(k, v). (k, sq_purge v)) m) n = map_option sq_purge (map_of m n)" for m :: "(string \<times> sortedQueue) list" and n
    by (induction m) auto
  then show "tqd_inv t \<Longrightarrow> tqd_inv (resetTasks t)"
    by (auto simp: tqd_inv_def resetTasks_def sq_inv_purge) (simp add: sq_purge_def)
qed

lemma txn_inv_reset: "txn_inv x \<Longrightarrow> txn_inv (x\<lparr>anony := map_option (map (\<lambda>(qn, _). (qn, []))) (anony x)\<rparr>)"
proof -
  have "fst \<circ> (\<lambda>(qn, _). (qn, [] :: Task list)) = (fst :: string \<times> Task list \<Rightarrow> string)"
    "(\<lambda>(_, vs). length vs) \<circ> (\<lambda>(qn, _). (qn, [] :: Task list)) = (\<lambda>_ :: string \<times> Task list. 0)" by auto
  then show "txn_inv x \<Longrightarrow> ?thesis" by (auto simp: txn_inv_def anony_list_def split: option.splits)
qed

lemma tq_inv_init: "tqd_inv newTaskQueueData \<and> txn_inv tq_mkTxn"
  by (auto simp: tqd_inv_def newTaskQueueData_def sq_inv_new txn_inv_def tq_mkTxn_def anony_list_def)
    (simp add: newSortedQueue_def)

text \<open>Every operation of the service on one queue has the same shape.\<close>

lemma on_queue_inv:
  assumes "tqd_inv t"
    and "(case getQueueLocked t qn of Inl err \<Rightarrow> Some (Inl err, t)
          | Inr (k, q) \<Rightarrow> do { (r, q) \<leftarrow> f q; Some (g r, put_queue t k q) }) = Some (r, t')"
    and "\<And>q r q'. sq_inv q \<Longrightarrow> f q = Some (r, q') \<Longrightarrow> sq_inv q' \<and> sq_name q' = sq_name q"
  shows "tqd_inv t'"
proof (cases "getQueueLocked t qn")
  case (Inr kq)
  then obtain k q where kq: "getQueueLocked t qn = Inr (k, q)" by (cases kq) auto
  from tqd_inv_queue [OF assms(1) this] have q: "sq_inv q" "sq_name q = k" by auto
  from assms(2) obtain r q' where f: "f q = Some (r, q')" and t': "t' = put_queue t k q'"
    by (auto simp: kq split: bind_splits)
  from assms(3) [OF q(1) f] q(2) show ?thesis unfolding t' by (intro tqd_inv_put [OF assms(1)]) auto
qed (use assms in auto)

lemma step_lease:
  assumes "sq_inv q" "useTag \<or> tag = ''''" "leaseTasks q now m d useTag tag = Some (r, q')"
  shows "sq_inv q' \<and> sq_name q' = sq_name q"
  using leaseTasks_ok [OF assms(1,2), of now m d] assms(3) sq_name_lease [OF assms(3)] by auto

lemma step_modify:
  assumes "sq_inv q" "modifyTaskLease q now task d = Some (r, q')"
  shows "sq_inv q' \<and> sq_name q' = sq_name q"
  using modifyTaskLease_ok [OF assms(1), of now task d] assms(2) sq_name_modify [OF assms(2)] by auto

lemma step_delete:
  assumes "sq_inv q" "deleteMulti_loop q 0 tasks = Some (r, q')"
  shows "sq_inv q' \<and> sq_name q' = sq_name q"
  using deleteMulti_loop_ok [OF assms(1), of 0 tasks] assms(2) by auto

lemma tq_step_inv:
  "tq_step lme s s' \<Longrightarrow> tqd_inv (fst s) \<and> txn_inv (snd s) \<Longrightarrow> tqd_inv (fst s') \<and> txn_inv (snd s')"
proof (induction rule: tq_step.induct)
  case (add clk ns tasks qn t r t' x)
  then have "checkManyTasks lme tasks False = None \<or> t' = t" by (auto simp: tq_AddMulti_def split: option.splits)
  then show ?case
    using add on_queue_inv [where t = t and qn = qn and t' = t' and r = r and f = "\<lambda>q. addMulti_loop clk 0 ns q (map the tasks)" and g = Inr] addMulti_loop_inv
    by (auto simp: tq_AddMulti_def)
next
  case (delete dts qn t r t' x)
  then show ?case
    using on_queue_inv [where t = t and qn = qn and t' = t' and r = r and f = "\<lambda>q. deleteMulti_loop q 0 dts" and g = Inr] step_delete
    by (auto simp: tq_DeleteMulti_def)
next
  case (lease now m qn d t r t' x)
  then show ?case
    using on_queue_inv [where t = t and qn = qn and t' = t' and r = r and f = "\<lambda>q. leaseTasks q now m d False ''''" and g = "\<lambda>r. r"]
      step_lease [of _ False "''''"]
    by (auto simp: tq_Lease_def)
next
  case (leaseTag now m qn d tag t r t' x)
  then show ?case
    using on_queue_inv [where t = t and qn = qn and t' = t' and r = r and f = "\<lambda>q. leaseTasks q now m d True tag" and g = "\<lambda>r. r"]
      step_lease [of _ True tag]
    by (auto simp: tq_LeaseByTag_def)
next
  case (modify now task qn d t r t' x)
  then show ?case
    using on_queue_inv [where t = t and qn = qn and t' = t' and r = r and f = "\<lambda>q. modifyTaskLease q now task d" and g = "\<lambda>r. r"] step_modify
    by (auto simp: tq_ModifyLease_def)
next
  case (purge qn t e t' x)
  have "sq_name (sq_purge q) = sq_name q" for q by (simp add: sq_purge_def)
  then show ?case using purge tqd_inv_queue [of t qn]
    by (auto simp: tq_Purge_def purgeLocked_def sq_inv_purge split: sum.splits intro!: tqd_inv_put)
next
  case (create t qn t' x)
  then show ?case
    by (auto simp: createQueue_def createQueueInternal_def sq_inv_new split: if_splits intro!: tqd_inv_put)
      (simp add: newSortedQueue_def)
next
  case (createPull t qn t' x)
  then show ?case
    by (auto simp: createPullQueue_def createQueueInternal_def sq_inv_new split: if_splits intro!: tqd_inv_put)
      (simp add: newSortedQueue_def)
next
  case (txn_add cur clk ns tasks qn s r s')
  obtain t x where s: "s = (t, x)" by (cases s)
  show ?case
  proof (cases "getQueueLocked t qn")
    case (Inr kq)
    then obtain k q where kq: "getQueueLocked t qn = Inr (k, q)" by (cases kq) auto
    from tqd_inv_queue [OF _ this] txn_add show ?thesis
      using sq_inv_genTaskNames [of q "length tasks"]
      by (auto simp: txn_AddMulti_def s kq Let_def split_beta split: option.splits bind_splits
          dest!: txn_addMulti_loop_inv intro!: tqd_inv_put)
  qed (use txn_add s in \<open>auto simp: txn_AddMulti_def split: option.splits\<close>)
next
  case (commit s s')
  then show ?case
    by (cases s) (auto simp: tq_commit_def txn_inv_def anony_list_def split: bind_splits dest: commit_queues_inv)
next
  case (end_txn x x' t)
  then show ?case by (auto simp: txn_endTxn_def txn_inv_def anony_list_def split: if_splits)
next
  case (set t x c)
  then show ?case by (simp add: setConstraints_def tqd_inv_def)
qed (auto simp: tqd_inv_reset txn_inv_reset txn_resetTasks_def tq_inv_init split: prod.splits)

lemma tq_reach_inv:
  assumes "(tq_step lme)\<^sup>*\<^sup>* (newTaskQueueData, tq_mkTxn) s"
  shows "tqd_inv (fst s) \<and> txn_inv (snd s)"
  using assms by (induction rule: rtranclp_induct) (use tq_inv_init in \<open>auto dest: tq_step_inv\<close>)

section \<open>Properties\<close>

text \<open>A small pull queue, for examples.\<close>

definition ex_task :: "string \<Rightarrow> int \<Rightarrow> string \<Rightarrow> Task" where
  "ex_task n ns tag = \<lparr>Path = '''', Payload = [], Header = [], Method = ''PULL'', Name = n, Delay = 0,
     ETA = Time ns True, RetryCount = 0, Tag = tag, Task_RetryOptions = None\<rparr>"

definition ex_queue :: sortedQueue where
  "ex_queue = foldl (\<lambda>q t. snd (addTask q t)) (newSortedQueue ''q'' True)
     [ex_task ''b'' 20 ''x'', ex_task ''a'' 20 ''y'', ex_task ''c'' 10 ''y'']"

lemma ex_queue_inv: "sq_inv ex_queue"
proof -
  have step: "sq_inv (snd (addTask q t))" if "sq_inv q" for q t
    using addTask_inv [OF that, of t] by (cases "addTask q t") auto
  show ?thesis by (simp add: ex_queue_def step sq_inv_new)
qed

lemma sq_view_tasks: "names_ok q \<Longrightarrow> t \<in> set (sq_view q) \<longleftrightarrow> sq_task q (Name t) = Some t"
proof -
  assume ok: "names_ok q"
  have "t \<in> set (sq_view q) \<longleftrightarrow> (\<exists>p. p \<in># live_ptrs q \<and> t = sq_mem q ! p)" by (auto simp: sq_view_alt live_ptrs_def)
  then show ?thesis using live_iff [OF ok] names_ok_task [OF ok]
    by (auto simp: sq_task_def entry_ok_def simp del: map_of_eq_Some_iff)
qed

text \<open>
  C17. In every state the service reaches, by calls of any kind in any order and with the
  calls of a transaction among them, every queue satisfies its invariant: names of live and
  of deleted tasks are disjoint and agree with the task objects, a pull queue's index and its
  per-tag indexes are heaps that hold exactly the live tasks (of that tag), every live task
  has an index for its tag; and the transaction holds at most five tasks.
\<close>
theorem tq_invariant:
  assumes "(tq_step lme)\<^sup>*\<^sup>* (newTaskQueueData, tq_mkTxn) (t, x)"
  shows "(\<forall>qn q. map_of (queues t) qn = Some q \<longrightarrow> sq_inv q \<and> sq_name q = qn) \<and>
    (\<Sum>(_, vs) \<leftarrow> anony_list x. length vs) \<le> 5"
  using tq_reach_inv [OF assms] by (auto simp: tqd_inv_def txn_inv_def)

theorem tq_invariant_witness:
  "\<exists>t :: taskQueueData. (\<forall>qn q. map_of (queues t) qn = Some q \<longrightarrow> sq_inv q \<and> sq_name q = qn) \<and> length (queues t) = 2"
proof -
  let ?t = "put_queue newTaskQueueData ''q'' (newSortedQueue ''q'' True)"
  have "createPullQueue newTaskQueueData ''q'' = Some ?t"
    by (simp add: createPullQueue_def createQueueInternal_def newTaskQueueData_def)
  then have "(tq_step (\<lambda>_. None))\<^sup>*\<^sup>* (newTaskQueueData, tq_mkTxn) (?t, tq_mkTxn)"
    by (intro r_into_rtranclp tq_step.createPull)
  note inv = tq_invariant [OF this, THEN conjunct1]
  have "length (queues ?t) = 2" by (simp add: newTaskQueueData_def put_queue_def)
  with inv show ?thesis by blast
qed

text \<open>
  C31. In every reachable state, deleting, leasing and modifying leases return: they never
  meet a task without an index for its tag (which would be a nil dereference).
\<close>
theorem tq_no_panic:
  assumes "(tq_step lme)\<^sup>*\<^sup>* (newTaskQueueData, tq_mkTxn) (t, x)"
  shows "(\<exists>r t'. tq_DeleteMulti dts qn t = Some (r, t')) \<and> (\<exists>r t'. tq_Lease now m qn d t = Some (r, t')) \<and>
    (\<exists>r t'. tq_LeaseByTag now m qn d tag t = Some (r, t')) \<and> (\<exists>r t'. tq_ModifyLease now task qn d t = Some (r, t'))"
proof (cases "getQueueLocked t qn")
  case (Inl e)
  then show ?thesis by (simp add: tq_DeleteMulti_def tq_Lease_def tq_LeaseByTag_def tq_ModifyLease_def)
next
  case (Inr kq)
  then obtain k q where kq: "getQueueLocked t qn = Inr (k, q)" by (cases kq) auto
  have inv: "sq_inv q" using tqd_inv_queue [OF _ kq] tq_reach_inv [OF assms] by simp
  obtain rs q1 where "deleteMulti_loop q 0 dts = Some (rs, q1)" using deleteMulti_loop_ok [OF inv] by blast
  moreover obtain r q2 where "leaseTasks q now m d False '''' = Some (r, q2)" using leaseTasks_ok [OF inv] by blast
  moreover obtain r' q3 where "leaseTasks q now m d True tag = Some (r', q3)" using leaseTasks_ok [OF inv] by blast
  moreover obtain e q4 where "modifyTaskLease q now task d = Some (e, q4)" using modifyTaskLease_ok [OF inv] by blast
  ultimately show ?thesis by (simp add: tq_DeleteMulti_def tq_Lease_def tq_LeaseByTag_def tq_ModifyLease_def kq)
qed

theorem tq_no_panic_witness:
  "\<exists>r t'. tq_Lease (Time 0 True) 1 ''default'' 0 newTaskQueueData = Some (r, t')"
  using tq_no_panic [OF rtranclp.rtrancl_refl] by blast

text \<open>
  C18. A lease refines its specification: on a queue in order, with a valid request, the
  tasks handed out are the first ready ones in (ETA, name) order, at most \<^verbatim>\<open>maxTasks\<close> of
  them, all of the requested tag (or of the tag of the first ready task when the tag is
  empty); each gets the ETA at which the lease ends, in the answer and in the queue; no other
  task and no tombstone changes. With an invalid request nothing changes.
\<close>
theorem leaseTasks_refines:
  assumes "sq_inv q" "useTag \<or> tag = ''''"
  shows "let L = spec_lease now (nat maxTasks) useTag tag (sq_view q); e = lease_end now leaseTime in
    if isPullQueue q \<and> 0 < maxTasks \<and> 0 \<le> leaseSeconds leaseTime
    then \<exists>q'. leaseTasks q now maxTasks leaseTime useTag tag = Some (Inr (map (\<lambda>t. t\<lparr>ETA := e\<rparr>) L), q') \<and>
      sq_inv q' \<and> sq_tomb q' = sq_tomb q \<and>
      sq_task q' = (\<lambda>n. map_option (\<lambda>t. if t \<in> set L then t\<lparr>ETA := e\<rparr> else t) (sq_task q n))
    else \<exists>err. leaseTasks q now maxTasks leaseTime useTag tag = Some (Inl err, q)"
  using leaseTasks_effect [OF assms(1) _ _ _ assms(2), of maxTasks leaseTime now]
    leaseTasks_error [of q maxTasks leaseTime now useTag tag]
  unfolding Let_def by (simp only: split: if_split) blast

theorem leaseTasks_refines_witness:
  "map Name (spec_lease (Time 20 True) 2 False '''' (sq_view ex_queue)) = [''c'', ''a''] \<and>
   (\<exists>q' out. leaseTasks ex_queue (Time 20 True) 2 5000000000 False '''' = Some (Inr out, q') \<and> map Name out = [''c'', ''a''])"
proof -
  have pull: "isPullQueue ex_queue" by code_simp
  have sec: "0 \<le> leaseSeconds 5000000000" by (simp add: leaseSeconds_def signed_divide_int_def)
  have L: "map Name (spec_lease (Time 20 True) 2 False '''' (sq_view ex_queue)) = [''c'', ''a'']"
    by code_simp
  show ?thesis using leaseTasks_refines [OF ex_queue_inv, of False "''''" "Time 20 True" 2 5000000000] pull sec L
    by (auto simp: Let_def comp_def)
qed

lemma spec_lease_ready: "t \<in> set (spec_lease now m useTag tag ts) \<Longrightarrow> t \<in> set ts \<and> ready now t"
  by (auto simp: spec_lease_def in_order_def split: option.splits dest: in_set_takeD)

text \<open>What a successful lease returned and left behind.\<close>

lemma leaseTasks_result:
  assumes "sq_inv q" "leaseTasks q now m d useTag tag = Some (Inr out, q')"
  shows "sq_inv q' \<and> (\<exists>L. out = map (\<lambda>t. t\<lparr>ETA := lease_end now d\<rparr>) L \<and>
    (\<forall>t \<in> set L. sq_task q (Name t) = Some t \<and> ready now t) \<and>
    sq_task q' = (\<lambda>n. map_option (\<lambda>t. if t \<in> set L then t\<lparr>ETA := lease_end now d\<rparr> else t) (sq_task q n)))"
proof -
  have tag: "useTag \<or> tag = ''''" and ok: "isPullQueue q" "0 < m" "0 \<le> leaseSeconds d"
    using assms(2) by (auto simp: leaseTasks_def Let_def split: if_splits)
  let ?L = "spec_lease now (nat m) useTag tag (sq_view q)"
  have "sq_task q (Name t) = Some t \<and> ready now t" if "t \<in> set ?L" for t
    using spec_lease_ready [OF that] sq_view_tasks [of q t] assms(1) by (simp add: sq_inv_def)
  moreover have "sq_inv q' \<and> out = map (\<lambda>t. t\<lparr>ETA := lease_end now d\<rparr>) ?L \<and>
      sq_task q' = (\<lambda>n. map_option (\<lambda>t. if t \<in> set ?L then t\<lparr>ETA := lease_end now d\<rparr> else t) (sq_task q n))"
    using leaseTasks_effect [OF assms(1) ok tag, of now] unfolding assms(2) by auto
  ultimately show ?thesis by blast
qed

text \<open>
  C23. A task that is leased is not leased again before the lease ends: two successive
  leases, the second at a time before the first lease ends, have no task in common.
\<close>
theorem lease_exclusive:
  assumes inv: "sq_inv q" and first: "leaseTasks q now m d useTag tag = Some (Inr out, q')"
    and second: "leaseTasks q' now' m' d' useTag' tag' = Some (Inr out', q'')"
    and before: "time_Before now' (lease_end now d)"
  shows "Name ` set out \<inter> Name ` set out' = {}"
proof (rule ccontr)
  assume "Name ` set out \<inter> Name ` set out' \<noteq> {}"
  then obtain a b where ab: "a \<in> set out" "b \<in> set out'" "Name a = Name b" by auto
  from leaseTasks_result [OF inv first] obtain L where inv': "sq_inv q'" and
    L: "out = map (\<lambda>t. t\<lparr>ETA := lease_end now d\<rparr>) L" "\<forall>t \<in> set L. sq_task q (Name t) = Some t \<and> ready now t"
    "sq_task q' = (\<lambda>n. map_option (\<lambda>t. if t \<in> set L then t\<lparr>ETA := lease_end now d\<rparr> else t) (sq_task q n))" by blast
  from leaseTasks_result [OF inv' second] obtain L' where
    L': "out' = map (\<lambda>t. t\<lparr>ETA := lease_end now' d'\<rparr>) L'" "\<forall>t \<in> set L'. sq_task q' (Name t) = Some t \<and> ready now' t"
    by blast
  from ab L(1) L'(1) obtain t t' where t: "t \<in> set L" "t' \<in> set L'" "Name t = Name t'" by auto
  then have "sq_task q (Name t') = Some t" "sq_task q' (Name t') = Some t'" using L(2) L'(2) by (metis, blast)
  then have "t' = t\<lparr>ETA := lease_end now d\<rparr>" using t(1) L(3) by simp
  then show False using L'(2) t(2) before by (auto simp: ready_def time_After_def time_Before_def)
qed

definition ex_first :: "(tq_error + Task list) \<times> sortedQueue" where
  "ex_first = the (leaseTasks ex_queue (Time 20 True) 2 5000000000 False '''')"

definition ex_second :: "(tq_error + Task list) \<times> sortedQueue" where
  "ex_second = the (leaseTasks (snd ex_first) (Time 30 True) 9 0 False '''')"

theorem lease_exclusive_witness:
  "map Name (projr (fst ex_first)) = [''c'', ''a''] \<and> map Name (projr (fst ex_second)) = [''b''] \<and>
   Name ` set (projr (fst ex_first)) \<inter> Name ` set (projr (fst ex_second)) = {}"
proof -
  have 1: "leaseTasks ex_queue (Time 20 True) 2 5000000000 False '''' = Some (Inr (projr (fst ex_first)), snd ex_first)"
    by code_simp
  have 2: "leaseTasks (snd ex_first) (Time 30 True) 9 0 False '''' = Some (Inr (projr (fst ex_second)), snd ex_second)"
    by code_simp
  have 3: "time_Before (Time 30 True) (lease_end (Time 20 True) 5000000000)" by code_simp
  have "map Name (projr (fst ex_first)) = [''c'', ''a'']" "map Name (projr (fst ex_second)) = [''b'']" by code_simp+
  then show ?thesis using lease_exclusive [OF ex_queue_inv 1 2 3] by blast
qed

text \<open>
  C32. A lease can be modified only by its holder and in time: the call succeeds exactly if
  the queue is a pull queue, the lease time is not negative, the task is live, the caller's
  ETA is the task's ETA and the lease has not run out. Then the caller's task and the queue's
  get the same new ETA and nothing else changes; otherwise the queue stays as it is.
\<close>
theorem modifyTaskLease_owner:
  assumes "sq_inv q"
  shows "(\<exists>q'. modifyTaskLease q now t d = Some (Inr (t\<lparr>ETA := lease_end now d\<rparr>), q') \<and> sq_inv q' \<and>
      isPullQueue q \<and> 0 \<le> leaseSeconds d \<and> sq_tomb q' = sq_tomb q \<and>
      (\<exists>task. sq_task q (Name t) = Some task \<and> time_Equal (ETA task) (ETA t) \<and> \<not> time_After now (ETA task) \<and>
        sq_task q' = (sq_task q)(Name t \<mapsto> task\<lparr>ETA := lease_end now d\<rparr>))) \<or>
    (\<exists>e. modifyTaskLease q now t d = Some (Inl e, q)) \<and>
    \<not> (isPullQueue q \<and> 0 \<le> leaseSeconds d \<and>
       (\<exists>task. sq_task q (Name t) = Some task \<and> time_Equal (ETA task) (ETA t) \<and> \<not> time_After now (ETA task)))"
proof (cases "isPullQueue q \<and> 0 \<le> leaseSeconds d \<and>
    (\<exists>task. sq_task q (Name t) = Some task \<and> time_Equal (ETA task) (ETA t) \<and> \<not> time_After now (ETA task))")
  case True
  then show ?thesis using modifyTaskLease_effect [OF assms, of d t _ now] by blast
next
  case False
  then show ?thesis using modifyTaskLease_error [of q d t now] by blast
qed

theorem modifyTaskLease_owner_witness:
  "(\<exists>q'. modifyTaskLease ex_queue (Time 5 True) (ex_task ''c'' 10 '''') 0 = Some (Inr (ex_task ''c'' 5 ''''), q')) \<and>
   (\<exists>e. modifyTaskLease ex_queue (Time 5 True) (ex_task ''c'' 11 '''') 0 = Some (Inl e, ex_queue))"
proof -
  have facts: "isPullQueue ex_queue" "0 \<le> leaseSeconds 0"
    "sq_task ex_queue ''c'' = Some (ex_task ''c'' 10 ''y'')" "lease_end (Time 5 True) 0 = Time 5 True" by code_simp+
  have names: "Name (ex_task n i s) = n" "ETA (ex_task n i s) = Time i True"
    "(ex_task n i s)\<lparr>ETA := Time j True\<rparr> = ex_task n j s" for n i j s
    by (simp_all add: ex_task_def)
  show ?thesis
    using modifyTaskLease_owner [OF ex_queue_inv, of "Time 5 True" "ex_task ''c'' 10 ''''" 0]
      modifyTaskLease_owner [OF ex_queue_inv, of "Time 5 True" "ex_task ''c'' 11 ''''" 0] facts
    by (auto simp: names time_Equal_def time_After_def)
qed

text \<open>
  Deleting a live task turns it into a tombstone and removes it from the tasks; a
  tombstoned name can then be neither added (the error is the one for a name in use), nor
  deleted, nor leased further; the call on an unknown or a tombstoned name changes nothing.
\<close>
theorem deleteTask_tombstone:
  assumes inv: "sq_inv q"
  shows "\<exists>e q'. deleteTask q task = Some (e, q') \<and> sq_inv q' \<and>
    (e = None \<longleftrightarrow> sq_tomb q (Name task) = None \<and> sq_task q (Name task) \<noteq> None) \<and>
    (e \<noteq> None \<longrightarrow> q' = q \<and> e = Some (if sq_tomb q (Name task) \<noteq> None then errTombstonedTask else errUnknownTask)) \<and>
    (e = None \<longrightarrow> sq_task q' = (sq_task q)(Name task := None) \<and>
       sq_tomb q' = (sq_tomb q)(Name task := sq_task q (Name task)) \<and>
       deleteTask q' task = Some (Some errTombstonedTask, q') \<and>
       ((Method task2 = ''PULL'' \<longleftrightarrow> isPullQueue q) \<and> Name task2 = Name task \<longrightarrow>
         addTask q' task2 = (Some ErrTaskAlreadyAdded, q')))"
proof (cases "sq_tomb q (Name task) = None \<and> sq_task q (Name task) \<noteq> None")
  case True
  then obtain t where t: "map_of (sq_tasks q) (Name task) = Some t" "map_of (sq_archived q) (Name task) = None"
    by (auto simp: sq_tomb_def sq_task_def)
  from deleteTask_effect [OF inv t] obtain q' where q': "deleteTask q task = Some (None, q')" "sq_inv q'"
    "isPullQueue q' = isPullQueue q" "sq_task q' = (sq_task q)(Name task := None)"
    "sq_tomb q' = (sq_tomb q)(Name task := sq_task q (Name task))" by blast
  have "map_of (sq_archived q') (Name task) \<noteq> None"
    using True fun_cong [OF q'(5), of "Name task"] by (auto simp: sq_tomb_def)
  then have "deleteTask q' task = Some (Some errTombstonedTask, q')"
    "(Method task2 = ''PULL'' \<longleftrightarrow> isPullQueue q) \<and> Name task2 = Name task \<longrightarrow> addTask q' task2 = (Some ErrTaskAlreadyAdded, q')"
    using q'(3) by (auto simp: deleteTask_def addTask_def)
  then show ?thesis using q' True by blast
next
  case False
  then have "deleteTask q task = Some (Some (if sq_tomb q (Name task) \<noteq> None then errTombstonedTask else errUnknownTask), q)"
    by (auto simp: deleteTask_def sq_tomb_def sq_task_def)
  then show ?thesis using inv False by auto
qed

theorem deleteTask_tombstone_witness:
  "\<exists>q'. deleteTask ex_queue (ex_task ''a'' 0 '''') = Some (None, q') \<and> sq_task q' ''a'' = None \<and>
     addTask q' (ex_task ''a'' 7 '''') = (Some ErrTaskAlreadyAdded, q')"
proof -
  have facts: "sq_tomb ex_queue ''a'' = None" "sq_task ex_queue ''a'' = Some (ex_task ''a'' 20 ''y'')" "isPullQueue ex_queue"
    by code_simp+
  show ?thesis
    using deleteTask_tombstone [OF ex_queue_inv, of "ex_task ''a'' 0 ''''" "ex_task ''a'' 7 ''''"] facts
    by (auto simp: ex_task_def)
qed

text \<open>
  The statistics of a queue: the number of its tasks, and the earliest of their ETAs
  when none of them is the zero time.
\<close>
theorem getStats_correct:
  assumes inv: "sq_inv q" and eta: "\<And>t. t \<in> set (sq_view q) \<Longrightarrow> \<not> time_IsZero (ETA t)"
  shows "st_Tasks (getStats q) = card (dom (sq_task q)) \<and>
    (if sq_view q = [] then OldestETA (getStats q) = zero_time
     else OldestETA (getStats q) \<in> ETA ` set (sq_view q) \<and>
       (\<forall>t \<in> set (sq_view q). \<not> time_Before (ETA t) (OldestETA (getStats q))))"
proof -
  define f where "f = (\<lambda>(s :: tq_Statistics) (t :: Task). if time_IsZero (OldestETA s) then s\<lparr>OldestETA := ETA t\<rparr>
     else if time_Before (ETA t) (OldestETA s) then s\<lparr>OldestETA := ETA t\<rparr> else s)"
  have fold_map: "foldl (\<lambda>s (_, t). f s (mem ! t)) s ts = foldl f s (map (\<lambda>(n, p). mem ! p) ts)"
    for s mem and ts :: "(string \<times> task_ptr) list" by (induction ts arbitrary: s) auto
  let ?s0 = "\<lparr>st_Tasks = length (sq_tasks q), OldestETA = zero_time, Executed1Minute = 0, InFlight = 0, EnforcedRate = F64 0\<rparr>"
  have stats: "getStats q = foldl f ?s0 (sq_view q)"
    unfolding sq_view_def fold_map [symmetric] getStats_def by (simp add: f_def Let_def)
  have count: "st_Tasks (foldl f s ts) = st_Tasks s" for s ts by (induction ts arbitrary: s) (auto simp: f_def)
  have old: "OldestETA (foldl f s ts) \<in> insert (OldestETA s) (ETA ` set ts) \<and>
      (\<forall>t \<in> set ts. \<not> time_Before (ETA t) (OldestETA (foldl f s ts))) \<and>
      \<not> time_Before (OldestETA s) (OldestETA (foldl f s ts))"
    if "\<not> time_IsZero (OldestETA s)" "\<And>t. t \<in> set ts \<Longrightarrow> \<not> time_IsZero (ETA t)" for s ts
    using that
  proof (induction ts arbitrary: s)
    case (Cons t ts)
    let ?s = "f s t"
    have "\<not> time_IsZero (OldestETA ?s)" "OldestETA ?s \<in> {OldestETA s, ETA t}"
      "\<not> time_Before (OldestETA s) (OldestETA ?s)" "\<not> time_Before (ETA t) (OldestETA ?s)"
      using Cons.prems by (auto simp: f_def time_Before_def)
    with Cons.IH [of ?s] Cons.prems(2) show ?case by (auto simp: time_Before_def)
  qed (simp add: time_Before_def)
  have "card (dom (sq_task q)) = length (sq_tasks q)"
  proof -
    have "dom (sq_task q) = fst ` set (sq_tasks q)"
      by (simp add: sq_task_def dom_def flip: dom_map_of_conv_image_fst)
    then show ?thesis using inv distinct_card [of "map fst (sq_tasks q)"] by (simp add: sq_inv_def names_ok_def)
  qed
  moreover have "OldestETA (getStats q) \<in> ETA ` set (sq_view q) \<and>
       (\<forall>t \<in> set (sq_view q). \<not> time_Before (ETA t) (OldestETA (getStats q)))" if ne: "sq_view q \<noteq> []"
  proof -
    obtain t ts where v: "sq_view q = t # ts" using ne by (cases "sq_view q") auto
    have "getStats q = foldl f (?s0\<lparr>OldestETA := ETA t\<rparr>) ts"
      by (simp add: stats v f_def time_IsZero_def zero_time_def)
    with old [of "?s0\<lparr>OldestETA := ETA t\<rparr>" ts] eta v show ?thesis by auto
  qed
  ultimately show ?thesis by (auto simp: stats count)
qed

theorem getStats_correct_witness: "st_Tasks (getStats ex_queue) = 3 \<and> OldestETA (getStats ex_queue) = Time 10 True"
proof -
  have view: "sq_view ex_queue = [ex_task ''b'' 20 ''x'', ex_task ''a'' 20 ''y'', ex_task ''c'' 10 ''y'']" by code_simp
  have "\<not> time_IsZero (ETA t)" if "t \<in> set (sq_view ex_queue)" for t
    using that by (auto simp: view ex_task_def time_IsZero_def zero_ns_def)
  from getStats_correct [OF ex_queue_inv this]
  have "OldestETA (getStats ex_queue) = Time 10 True"
    by (auto simp: view ex_task_def time_Before_def)
  moreover have "st_Tasks (getStats ex_queue) = 3" by code_simp
  ultimately show ?thesis by simp
qed

section \<open>Adding in batches\<close>

definition good_methods :: "string set" where
  "good_methods = {'''', ''POST'', ''PUT'', ''PULL'', ''GET'', ''HEAD'', ''DELETE''}"

lemma checkTask_None:
  "checkTask task isTxn = None \<longleftrightarrow> (\<exists>t. task = Some t \<and> (isTxn \<longrightarrow> Name t = '''') \<and>
     (Name t \<noteq> '''' \<longrightarrow> validTaskName (Name t)) \<and> Method t \<in> good_methods)"
  by (auto simp: checkTask_def good_methods_def split: option.splits)

lemma prep_ETA_total:
  "time_IsZero (ETA t) \<or> Delay t = 0 \<Longrightarrow>
   \<exists>t'. prep_ETA now t = Some t' \<and> Name t' = Name t \<and> Method t' = Method t \<and> Delay t' = 0"
  by (auto simp: prep_ETA_def)

lemma prep_Method_total:
  "Method t \<in> good_methods \<Longrightarrow> \<exists>t'. prep_Method t = Some t' \<and> Name t' = Name t \<and> Method t' \<noteq> ''''"
  by (auto simp: prep_Method_def good_methods_def)

lemma prep_HTTP_Name [simp]: "Name (prep_HTTP qn ns t) = Name t"
  by (simp add: prep_HTTP_def Let_def)

lemma prepTask_total:
  assumes "name \<noteq> ''''" "Method task \<in> good_methods" "time_IsZero (ETA task) \<or> Delay task = 0"
  shows "\<exists>t. prepTask now task name qn ns = Some t \<and> Name t = name"
proof -
  obtain t where "prep_ETA now (task\<lparr>Name := name\<rparr>) = Some t" "Name t = name" "Method t = Method task"
    using prep_ETA_total [of "task\<lparr>Name := name\<rparr>" now] assms(3) by auto
  with prep_Method_total [of t] assms(1,2) show ?thesis by (auto simp: prepTask_def)
qed

lemma dec_string_ne [simp]: "dec_string n \<noteq> ''''"
  by (subst dec_string.simps) simp

lemma genTaskName_view [simp]:
  "sq_task (snd (genTaskName q)) = sq_task q" "sq_tomb (snd (genTaskName q)) = sq_tomb q"
  "fst (genTaskName q) \<noteq> ''''"
  by (simp_all add: genTaskName_def Let_def)

definition added :: "(tq_error + Task) list \<Rightarrow> Task list" where
  "added rs = concat (map (\<lambda>r. case r of Inl _ \<Rightarrow> [] | Inr t \<Rightarrow> [t]) rs)"

lemma added_simps [simp]: "added [] = []" "added (Inl e # rs) = added rs" "added (Inr t # rs) = t # added rs"
  by (simp_all add: added_def)

text \<open>Tasks by name; the names of one batch that were added are distinct.\<close>

definition by_name :: "Task list \<Rightarrow> string \<Rightarrow> Task option" where
  "by_name ts = map_of (map (\<lambda>t. (Name t, t)) ts)"

lemma by_name_simps [simp]: "by_name [] = Map.empty" "by_name (t # ts) = (by_name ts)(Name t \<mapsto> t)"
  by (auto simp: by_name_def)

lemma dom_by_name: "dom (by_name ts) = Name ` set ts"
  by (simp add: by_name_def dom_map_of_conv_image_fst image_image)

lemma map_add_by_name:
  "Name t \<notin> Name ` set ts \<Longrightarrow> m(Name t \<mapsto> t) ++ by_name ts = m ++ by_name (t # ts)"
proof -
  assume "Name t \<notin> Name ` set ts"
  then have "by_name ts (Name t) = None" using dom_by_name [of ts] by (auto simp: domIff)
  then show ?thesis by (auto simp: map_add_def fun_eq_iff split: option.splits)
qed

definition ex_lme :: "tq_error option list \<Rightarrow> tq_error option" where
  "ex_lme es = (if list_all (\<lambda>e. e = None) es then None else Some (tq_MultiError es))"

lemma ex_lme_None: "ex_lme es = None \<longleftrightarrow> (\<forall>e \<in> set es. e = None)"
  by (simp add: ex_lme_def list_all_iff)

lemma addTask_fresh:
  assumes "sq_inv q" "addTask q task = (None, q')"
  shows "sq_task q (Name task) = None \<and> sq_tomb q (Name task) = None \<and> (Method task = ''PULL'' \<longleftrightarrow> isPullQueue q) \<and>
    isPullQueue q' = isPullQueue q"
  using addTask_stored [OF assms] by (auto simp: sq_task_def sq_tomb_def put_task_def)

lemma addMulti_loop_total:
  assumes "sq_inv q" "\<And>t. t \<in> set tasks \<Longrightarrow> Method t \<in> good_methods \<and> (time_IsZero (ETA t) \<or> Delay t = 0)"
  shows "\<exists>rs q'. addMulti_loop clk i ns q tasks = Some (rs, q') \<and> length rs = length tasks \<and> sq_inv q' \<and>
    sq_tomb q' = sq_tomb q \<and> sq_task q' = sq_task q ++ by_name (added rs) \<and> distinct (map Name (added rs)) \<and>
    dom (sq_task q) \<inter> Name ` set (added rs) = {}"
  using assms
proof (induction tasks arbitrary: q i)
  case (Cons task tasks)
  define nq where "nq = (if Name task = '''' then genTaskName q else (Name task, q))"
  have nq: "sq_inv (snd nq)" "fst nq \<noteq> ''''" "sq_task (snd nq) = sq_task q" "sq_tomb (snd nq) = sq_tomb q"
    using Cons.prems(1) sq_inv_genTaskName by (simp_all add: nq_def)
  obtain task' where prep: "prepTask (clk i) task (fst nq) (sq_name (snd nq)) ns = Some task'" "Name task' = fst nq"
    using prepTask_total [OF nq(2), of task "clk i" "sq_name (snd nq)" ns] Cons.prems(2) [of task] by auto
  obtain e q1 where add: "addTask (snd nq) task' = (e, q1)" by (cases "addTask (snd nq) task'")
  have inv1: "sq_inv q1" using addTask_inv [OF nq(1) add] .
  from Cons.IH [OF inv1, of "Suc i"] Cons.prems(2) obtain rs q' where
    rs: "addMulti_loop clk (Suc i) ns q1 tasks = Some (rs, q')" "length rs = length tasks" "sq_inv q'" "sq_tomb q' = sq_tomb q1"
    "sq_task q' = sq_task q1 ++ by_name (added rs)" "distinct (map Name (added rs))"
    "dom (sq_task q1) \<inter> Name ` set (added rs) = {}" by auto
  have loop: "addMulti_loop clk i ns q (task # tasks) =
      Some ((case e of Some err \<Rightarrow> Inl err | None \<Rightarrow> Inr task') # rs, q')"
    using prep(1) add rs(1) unfolding nq_def [symmetric] addMulti_loop.simps Let_def by (simp add: split_beta)
  show ?case
  proof (cases e)
    case (Some err)
    then have "q1 = snd nq" using add addTask_error by auto
    then show ?thesis using loop rs nq Some by simp
  next
    case None
    note eff = addTask_effect [OF nq(1) add [unfolded None]] addTask_fresh [OF nq(1) add [unfolded None]]
    have notin: "Name task' \<notin> Name ` set (added rs)" using rs(7) eff(1) by auto
    then have "sq_task q' = sq_task q ++ by_name (task' # added rs)"
      using rs(5) eff(1) nq(3) map_add_by_name [OF notin, of "sq_task q"] by simp
    then show ?thesis using loop rs nq None eff notin by auto
  qed
qed simp

text \<open>
  C33. Adding a batch: if one task of the batch is unacceptable (nil, a bad name or a bad
  method) the whole batch is refused and nothing changes; otherwise there is one answer per
  task, and the queue has gained exactly the tasks that the answers show as added, none of
  which was there before or is there twice. (\<open>lme\<close> is a lazy multi-error: it is nil
  exactly if all errors assigned to it are. Delay and ETA are not both set.)
\<close>
theorem tq_AddMulti_batch:
  assumes lme: "\<And>es. lme es = None \<longleftrightarrow> (\<forall>e \<in> set es. e = None)"
    and inv: "tqd_inv t" and queue: "getQueueLocked t qn = Inr (k, q)"
    and eta: "\<And>task. Some task \<in> set tasks \<Longrightarrow> time_IsZero (ETA task) \<or> Delay task = 0"
  shows "if \<exists>task \<in> set tasks. checkTask task False \<noteq> None
    then \<exists>e. tq_AddMulti lme clk ns tasks qn t = Some (Inl e, t)
    else \<exists>rs q'. tq_AddMulti lme clk ns tasks qn t = Some (Inr rs, put_queue t k q') \<and> length rs = length tasks \<and>
      sq_inv q' \<and> sq_tomb q' = sq_tomb q \<and> sq_task q' = sq_task q ++ by_name (added rs) \<and>
      distinct (map Name (added rs)) \<and> dom (sq_task q) \<inter> Name ` set (added rs) = {}"
proof (cases "\<exists>task \<in> set tasks. checkTask task False \<noteq> None")
  case True
  then have "checkManyTasks lme tasks False \<noteq> None" using lme by (auto simp: checkManyTasks_def)
  then show ?thesis using True by (auto simp: tq_AddMulti_def)
next
  case False
  then have check: "checkManyTasks lme tasks False = None" using lme by (auto simp: checkManyTasks_def)
  have q: "sq_inv q" using tqd_inv_queue [OF inv queue] by simp
  have "Method x \<in> good_methods \<and> (time_IsZero (ETA x) \<or> Delay x = 0)" if "x \<in> set (map the tasks)" for x
  proof -
    from that obtain task where task: "task \<in> set tasks" "x = the task" by auto
    with False have "checkTask task False = None" by blast
    then show ?thesis using eta [of x] task by (auto simp: checkTask_None)
  qed
  from addMulti_loop_total [OF q this, where tasks = "map the tasks" and clk = clk and i = 0 and ns = ns]
  obtain rs q' where "addMulti_loop clk 0 ns q (map the tasks) = Some (rs, q')" "length rs = length tasks" "sq_inv q'"
    "sq_tomb q' = sq_tomb q" "sq_task q' = sq_task q ++ by_name (added rs)" "distinct (map Name (added rs))"
    "dom (sq_task q) \<inter> Name ` set (added rs) = {}" by auto
  then show ?thesis using False check by (auto simp: tq_AddMulti_def queue)
qed

theorem tq_AddMulti_batch_witness:
  "(\<exists>rs q'. tq_AddMulti ex_lme (\<lambda>_. Time 1 True) '''' [Some ((ex_task ''a'' 1 '''')\<lparr>Method := ''''\<rparr>)] '''' newTaskQueueData =
      Some (Inr rs, put_queue newTaskQueueData ''default'' q') \<and> length rs = 1) \<and>
   (\<exists>e. tq_AddMulti ex_lme (\<lambda>_. Time 1 True) '''' [Some (ex_task ''a'' 1 ''''), None] '''' newTaskQueueData =
      Some (Inl e, newTaskQueueData))"
proof -
  have q: "getQueueLocked newTaskQueueData '''' = Inr (''default'', newSortedQueue ''default'' False)"
    by (simp add: getQueueLocked_def newTaskQueueData_def Let_def)
  note batch = tq_AddMulti_batch [OF ex_lme_None conjunct1 [OF tq_inv_init] q, where clk = "\<lambda>_. Time 1 True" and ns = "''''"]
  have "checkTask (Some ((ex_task ''a'' 1 '''')\<lparr>Method := ''''\<rparr>)) False = None" "checkTask None False \<noteq> None" by code_simp+
  then show ?thesis
    using batch [of "[Some ((ex_task ''a'' 1 '''')\<lparr>Method := ''''\<rparr>)]"] batch [of "[Some (ex_task ''a'' 1 ''''), None]"]
    by (auto simp: ex_task_def simp del: not_None_eq)
qed

section \<open>Committing a transaction\<close>

text \<open>The tasks a queue can take over: of its mode, with names that are free and distinct.\<close>

definition acceptable :: "sortedQueue \<Rightarrow> Task list \<Rightarrow> bool" where
  "acceptable q ts \<longleftrightarrow> distinct (map Name ts) \<and>
     (\<forall>t \<in> set ts. (Method t = ''PULL'' \<longleftrightarrow> isPullQueue q) \<and> sq_task q (Name t) = None \<and> sq_tomb q (Name t) = None)"

lemma addTask_accepts:
  "(Method t = ''PULL'' \<longleftrightarrow> isPullQueue q) \<and> sq_task q (Name t) = None \<and> sq_tomb q (Name t) = None \<Longrightarrow>
   fst (addTask q t) = None"
  by (auto simp: addTask_def sq_task_def sq_tomb_def Let_def)

lemma commit_tasks_spec:
  "sq_inv q \<Longrightarrow>
   (if acceptable q ts
    then \<exists>q'. commit_tasks q ts = Some q' \<and> sq_inv q' \<and> sq_task q' = sq_task q ++ by_name ts \<and> sq_tomb q' = sq_tomb q
    else commit_tasks q ts = None)"
proof (induction ts arbitrary: q)
  case (Cons t ts)
  obtain e q1 where add: "addTask q t = (e, q1)" by (cases "addTask q t")
  show ?case
  proof (cases e)
    case (Some err)
    then have "\<not> acceptable q (t # ts)" using add addTask_accepts [of t q] by (auto simp: acceptable_def)
    then show ?thesis using add Some by simp
  next
    case None
    note add = add [unfolded None]
    note eff = addTask_effect [OF Cons.prems add] addTask_fresh [OF Cons.prems add]
    have "sq_task q1 (Name s) = None \<longleftrightarrow> sq_task q (Name s) = None \<and> Name s \<noteq> Name t" for s by (simp add: eff(1))
    moreover have "Name t \<in> Name ` set ts \<longleftrightarrow> (\<exists>s \<in> set ts. Name s = Name t)" unfolding image_iff by metis
    ultimately have acc: "acceptable q (t # ts) \<longleftrightarrow> acceptable q1 ts"
      using eff(2,3) unfolding acceptable_def by (auto simp del: fun_upd_apply)
    show ?thesis
    proof (cases "acceptable q1 ts")
      case True
      then have "Name t \<notin> Name ` set ts" using acc by (auto simp: acceptable_def)
      then show ?thesis
        using Cons.IH [OF addTask_inv [OF Cons.prems add]] True acc add eff map_add_by_name [of t ts "sq_task q"] by auto
    next
      case False
      then show ?thesis using Cons.IH [OF addTask_inv [OF Cons.prems add]] acc add by auto
    qed
  qed
qed (simp add: acceptable_def)

lemma map_of_put_queue: "map_of (queues (put_queue t k q)) = (map_of (queues t))(k \<mapsto> q)"
  by (simp add: put_queue_def map_of_al_set)

definition committable :: "taskQueueData \<Rightarrow> (string \<times> Task list) list \<Rightarrow> bool" where
  "committable t m \<longleftrightarrow>
     (\<forall>(qn, ts) \<in> set m. ts = [] \<or> (\<exists>q. map_of (queues t) qn = Some q \<and> acceptable q ts))"

definition committed :: "taskQueueData \<Rightarrow> (string \<times> Task list) list \<Rightarrow> taskQueueData \<Rightarrow> bool" where
  "committed t m t' \<longleftrightarrow> (\<forall>qn q. map_of (queues t) qn = Some q \<longrightarrow>
     (\<exists>q'. map_of (queues t') qn = Some q' \<and> sq_inv q' \<and> sq_task q' = sq_task q ++ by_name (al_get m qn) \<and>
       sq_tomb q' = sq_tomb q))"

lemma commit_queues_spec:
  "tqd_inv t \<Longrightarrow> distinct (map fst m) \<Longrightarrow>
   (if committable t m then \<exists>t'. commit_queues t m = Some t' \<and> committed t m t' else commit_queues t m = None)"
proof (induction m arbitrary: t)
  case Nil
  then show ?case by (auto simp: al_get_def tqd_inv_def committable_def committed_def)
next
  case (Cons c m)
  obtain qn ts where c: "c = (qn, ts)" by (cases c)
  have fresh: "map_of m qn = None" using Cons.prems(2) by (simp add: c map_of_eq_None_iff)
  have get: "al_get (c # m) k = (if k = qn then ts else al_get m k)" "al_get m qn = []" for k
    using fresh by (simp_all add: c al_get_def)
  have IH: "tqd_inv s \<Longrightarrow> if committable s m then \<exists>t'. commit_queues s m = Some t' \<and> committed s m t'
      else commit_queues s m = None" for s using Cons.IH Cons.prems(2) by simp
  show ?case
  proof (cases "map_of (queues t) qn")
    case None
    show ?thesis
    proof (cases "ts = []")
      case True
      have "committed t (c # m) t'" if "committed t m t'" for t'
        using that None by (auto simp: committed_def get)
      then show ?thesis using IH [OF Cons.prems(1)] None True by (auto simp: committable_def c)
    next
      case False
      then show ?thesis using None by (auto simp: committable_def c)
    qed
  next
    case (Some q)
    have q: "sq_inv q" "sq_name q = qn" using Cons.prems(1) Some by (auto simp: tqd_inv_def simp del: not_None_eq)
    show ?thesis
    proof (cases "acceptable q ts")
      case False
      then have "ts \<noteq> []" by (auto simp: acceptable_def)
      then show ?thesis using False Some commit_tasks_spec [OF q(1), of ts] by (auto simp: committable_def c)
    next
      case True
      then obtain q1 where q1: "commit_tasks q ts = Some q1" "sq_inv q1" "sq_task q1 = sq_task q ++ by_name ts" "sq_tomb q1 = sq_tomb q"
        using commit_tasks_spec [OF q(1), of ts] by auto
      let ?t = "put_queue t qn q1"
      have inv: "tqd_inv ?t" using commit_tasks_inv [OF q1(1) q(1)] q(2) Cons.prems(1) by (intro tqd_inv_put) auto
      have "committable ?t m \<longleftrightarrow> committable t (c # m)"
      proof -
        have "a \<noteq> qn" if "(a, us) \<in> set m" for a us using Cons.prems(2) that by (force simp: c)
        then have "committable ?t m \<longleftrightarrow> committable t m" by (auto simp: committable_def map_of_put_queue)
        then show ?thesis using True Some by (simp add: committable_def c)
      qed
      moreover have "committed t (c # m) t'" if com: "committed ?t m t'" for t'
        unfolding committed_def
      proof (intro allI impI)
        fix k r assume r: "map_of (queues t) k = Some r"
        show "\<exists>q'. map_of (queues t') k = Some q' \<and> sq_inv q' \<and> sq_task q' = sq_task r ++ by_name (al_get (c # m) k) \<and> sq_tomb q' = sq_tomb r"
        proof (cases "k = qn")
          case True
          then have "map_of (queues ?t) k = Some q1" by (simp add: map_of_put_queue)
          then show ?thesis using com r Some True q1 get unfolding committed_def by fastforce
        next
          case False
          then have "map_of (queues ?t) k = Some r" using r by (simp add: map_of_put_queue)
          then show ?thesis using com False get(1) [of k] unfolding committed_def by simp
        qed
      qed
      ultimately show ?thesis using IH [OF inv] Some q1(1) by (auto simp: c)
    qed
  qed
qed

text \<open>
  C22. Committing the task part of a transaction, in any reachable state: if every queue can
  take the tasks meant for it (it exists, the tasks are of its mode, and their names are
  free) then each queue gains exactly those tasks, the tombstones stay, and the transaction
  is empty; otherwise the commit panics.
\<close>
theorem tq_commit_spec:
  assumes "(tq_step lme)\<^sup>*\<^sup>* (newTaskQueueData, tq_mkTxn) (t, x)"
  shows "if committable t (anony_list x)
    then \<exists>t'. tq_commit (t, x) = Some (t', x\<lparr>anony := None\<rparr>) \<and> committed t (anony_list x) t'
    else tq_commit (t, x) = None"
  using commit_queues_spec [of t "anony_list x"] tq_reach_inv [OF assms]
  by (auto simp: tq_commit_def txn_inv_def split: if_splits)

text \<open>A transaction on a pull queue, and one that adds a push task to it.\<close>

definition ex_pull :: taskQueueData where
  "ex_pull = the (createPullQueue newTaskQueueData ''pull'')"

definition ex_txn :: "string \<Rightarrow> (tq_error + (tq_error + Task) list) \<times> taskQueueData \<times> txnTaskQueueData" where
  "ex_txn meth = the (txn_AddMulti ex_lme None (\<lambda>_. Time 1 True) '''' [Some ((ex_task '''' 1 '''')\<lparr>Method := meth\<rparr>)] ''pull''
     (ex_pull, tq_mkTxn))"

lemma ex_pull_queue: "map_of (queues ex_pull) ''pull'' = Some (newSortedQueue ''pull'' True)"
  "createPullQueue newTaskQueueData ''pull'' = Some ex_pull"
  by (simp_all add: ex_pull_def createPullQueue_def createQueueInternal_def newTaskQueueData_def put_queue_def)

lemma ex_txn_call:
  assumes "meth = ''PULL'' \<or> meth = ''POST''"
  shows "\<exists>task q. Method task = meth \<and> sq_tasks q = [] \<and> sq_archived q = [] \<and> isPullQueue q \<and>
    txn_AddMulti ex_lme None (\<lambda>_. Time 1 True) '''' [Some ((ex_task '''' 1 '''')\<lparr>Method := meth\<rparr>)] ''pull''
      (ex_pull, tq_mkTxn) = Some (ex_txn meth) \<and>
    ex_txn meth = (Inr [Inr task], put_queue ex_pull ''pull'' q, \<lparr>txn_closed = False, anony = Some [(''pull'', [task])]\<rparr>)"
proof -
  let ?task = "(ex_task '''' 1 '''')\<lparr>Method := meth\<rparr>"
  let ?q = "newSortedQueue ''pull'' True"
  have check: "checkManyTasks ex_lme [Some ?task] True = None"
    using assms by (auto simp: checkManyTasks_def ex_lme_def checkTask_def ex_task_def)
  have get: "getQueueLocked ex_pull ''pull'' = Inr (''pull'', ?q)"
    by (simp add: getQueueLocked_def ex_pull_queue Let_def)
  have name: "sq_name ?q = ''pull''" by (simp add: newSortedQueue_def)
  obtain task where task: "prepTask (Time 1 True) ?task (fst (genTaskName ?q)) ''pull'' '''' = Some task" "Method task = meth"
    using assms by (auto simp: prepTask_def prep_ETA_def prep_Method_def prep_HTTP_def ex_task_def time_IsZero_def zero_ns_def)
  show ?thesis
    using task by (intro exI [of _ task] exI [of _ "snd (genTaskName ?q)"])
      (auto simp: ex_txn_def txn_AddMulti_def assertTxnValid_def check get name split_beta txn_addLocked_def
        anony_list_def tq_mkTxn_def al_get_def genTaskName_def newSortedQueue_def Let_def)
qed

lemma ex_txn_reach:
  assumes "meth = ''PULL'' \<or> meth = ''POST''"
  shows "(tq_step ex_lme)\<^sup>*\<^sup>* (newTaskQueueData, tq_mkTxn) (snd (ex_txn meth))"
proof -
  have "tq_step ex_lme (newTaskQueueData, tq_mkTxn) (ex_pull, tq_mkTxn)"
    by (rule tq_step.createPull) (rule ex_pull_queue)
  moreover have "tq_step ex_lme (ex_pull, tq_mkTxn) (snd (ex_txn meth))"
    using ex_txn_call [OF assms] tq_step.txn_add by fastforce
  ultimately show ?thesis by auto
qed

theorem tq_commit_spec_witness:
  "\<exists>t'. tq_commit (snd (ex_txn ''PULL'')) = Some (t', (snd (snd (ex_txn ''PULL'')))\<lparr>anony := None\<rparr>)"
proof -
  obtain task q where q: "Method task = ''PULL''" "sq_tasks q = []" "sq_archived q = []" "isPullQueue q"
    "ex_txn ''PULL'' = (Inr [Inr task], put_queue ex_pull ''pull'' q, \<lparr>txn_closed = False, anony = Some [(''pull'', [task])]\<rparr>)"
    using ex_txn_call [of "''PULL''"] by auto
  have "committable (put_queue ex_pull ''pull'' q) [(''pull'', [task])]"
    using q by (simp add: committable_def map_of_put_queue acceptable_def sq_task_def sq_tomb_def)
  moreover have "(tq_step ex_lme)\<^sup>*\<^sup>* (newTaskQueueData, tq_mkTxn)
      (put_queue ex_pull ''pull'' q, \<lparr>txn_closed = False, anony = Some [(''pull'', [task])]\<rparr>)"
    using ex_txn_reach [of "''PULL''"] by (simp add: q(5))
  ultimately show ?thesis
    using tq_commit_spec [of ex_lme "put_queue ex_pull ''pull'' q" "\<lparr>txn_closed = False, anony = Some [(''pull'', [task])]\<rparr>"]
    by (auto simp: q(5) anony_list_def)
qed

text \<open>
  The comment on the commit says that the tasks of a transaction ``must be good'';
  they need not be: \<^verbatim>\<open>AddMulti\<close> in a transaction accepts a push task for a pull queue,
  and the commit of that transaction panics.
\<close>
theorem txn_commit_can_panic:
  "\<exists>s r. (tq_step ex_lme)\<^sup>*\<^sup>* (newTaskQueueData, tq_mkTxn) s \<and>
     txn_AddMulti ex_lme None (\<lambda>_. Time 1 True) '''' [Some ((ex_task '''' 1 '''')\<lparr>Method := ''POST''\<rparr>)] ''pull''
       (ex_pull, tq_mkTxn) = Some (Inr [Inr r], s) \<and> tq_commit s = None"
proof -
  obtain task q where q: "Method task = ''POST''" "isPullQueue q"
    "txn_AddMulti ex_lme None (\<lambda>_. Time 1 True) '''' [Some ((ex_task '''' 1 '''')\<lparr>Method := ''POST''\<rparr>)] ''pull''
       (ex_pull, tq_mkTxn) = Some (ex_txn ''POST'')"
    "ex_txn ''POST'' = (Inr [Inr task], put_queue ex_pull ''pull'' q, \<lparr>txn_closed = False, anony = Some [(''pull'', [task])]\<rparr>)"
    using ex_txn_call [of "''POST''"] by auto
  have "tq_commit (snd (ex_txn ''POST'')) = None"
    using q by (simp add: tq_commit_def anony_list_def map_of_put_queue addTask_def)
  then show ?thesis using ex_txn_reach [of "''POST''"] q(3,4) by auto
qed

end
