(* ===== verification/DsCache.thy ===== *)
theory DsCache
  imports Raw_Interface Memcache
begin

text \<open>
  \<^verbatim>\<open>filter/dscache\<close>: the cache of datastore entities in memcache. Each call is a program over atomic operations of memcache (one
  item under the lock) and of the datastore (one key), so that calls of any number of clients interleave between
  them; the semantics are in \<open>DsCache_Run\<close>, the properties in \<open>DsCache_Props\<close>.

  The hash of keys, the compression and the random numbers come from packages outside the repository and are parameters.
\<close>

section \<open>Keys\<close>

definition LockTimeSeconds :: int64 where "LockTimeSeconds = 31"
definition CacheTimeSeconds :: int64 where "CacheTimeSeconds = 86400"
definition CompressionThreshold :: nat where "CompressionThreshold = 860"
definition DefaultShards :: int where "DefaultShards = 1"
definition MaxShards :: int where "MaxShards = 256"
definition Sha1B64Padding :: nat where "Sha1B64Padding = 1"
definition ValueSizeLimit :: nat where "ValueSizeLimit = 1000 * 1000 - 96 - 2"
definition NonceBytes :: nat where "NonceBytes = 8"
definition ItemHasData :: uint32 where "ItemHasData = 1"
definition ItemHasLock :: uint32 where "ItemHasLock = 2"

record cache_env =
  c_cmpbin :: cmpbin
  c_det :: bool  \<comment> \<open>\<^verbatim>\<open>WritePropertyMapDeterministic\<close>\<close>
  c_kc :: KeyContext
  c_sha1 :: "byte list \<Rightarrow> byte list"
  c_zlib :: "byte list \<Rightarrow> byte list"
  c_unzlib :: "byte list \<Rightarrow> byte list option"
  shardsForKey :: "(Key \<Rightarrow> int option) list"

text \<open>\<^verbatim>\<open>base64.StdEncoding\<close>, with its padding.\<close>

definition b64_std :: "byte list \<Rightarrow> string" where
  "b64_std bs =
     map (\<lambda>c. if c = CHR ''-'' then CHR ''+'' else if c = CHR ''_'' then CHR ''/'' else c) (b64_encode bs) @
     replicate ((3 - length bs mod 3) mod 3) (CHR ''='')"

definition HashKey :: "cache_env \<Rightarrow> Key \<Rightarrow> string" where
  "HashKey E k =
     (let dgst = c_sha1 E (the (ToBytes (c_cmpbin E) False (SValue (GKey k)))); buf = b64_std dgst
      in take (length buf - Sha1B64Padding) buf)"

text \<open>The verb \<^verbatim>\<open>%x\<close>.\<close>

fun hex :: "nat \<Rightarrow> string" where
  "hex n = (if n < 16 then [''0123456789abcdef'' ! n] else hex (n div 16) @ [''0123456789abcdef'' ! (n mod 16)])"

declare hex.simps [simp del]

definition memcache_key :: "nat \<Rightarrow> string \<Rightarrow> string" where
  "memcache_key shard hash = ''gae:1:'' @ hex shard @ '':'' @ hash"

definition MakeMemcacheKey :: "cache_env \<Rightarrow> nat \<Rightarrow> Key \<Rightarrow> string" where
  "MakeMemcacheKey E shard k = memcache_key shard (HashKey E k)"

definition numShards :: "cache_env \<Rightarrow> Key \<Rightarrow> nat" where
  "numShards E k =
     (let ret = foldl (\<lambda>ret fn. case fn k of Some amt \<Rightarrow> amt | None \<Rightarrow> ret) DefaultShards (shardsForKey E)
      in if ret < 1 then 0 else if ret > MaxShards then nat MaxShards else nat ret)"

section \<open>Values\<close>

text \<open>A property map that cannot be written is \<open>None\<close>; the code ignores the error, which no map that the datastore returns
  has.\<close>

definition encodeItemValue :: "cache_env \<Rightarrow> PropertyMap \<Rightarrow> byte list option" where
  "encodeItemValue E pm =
     map_option (\<lambda>bs. let data = 0 # bs in if length data > CompressionThreshold then 1 # c_zlib E (tl data) else data)
       (WritePropertyMap (c_cmpbin E) (c_det E) WithoutContext (pm_Save pm False))"

datatype decoded = DecNoEntity | DecError | DecEntity PropertyMap

definition decodeItemValue :: "cache_env \<Rightarrow> byte list \<Rightarrow> decoded" where
  "decodeItemValue E val =
     (case val of
        [] \<Rightarrow> DecNoEntity
      | compTypeByte # buf \<Rightarrow>
          (case (if compTypeByte = 1 then c_unzlib E buf else Some buf) of
             None \<Rightarrow> DecError
           | Some buf \<Rightarrow>
               (case ReadPropertyMap (c_cmpbin E) WithoutContext (c_kc E) buf of Inl _ \<Rightarrow> DecError | Inr (pm, _) \<Rightarrow> DecEntity pm)))"

section \<open>Programs\<close>

datatype cmd =
  McAdd mcItem | McGet string | McCAS mcItem | McSet mcItem | McDelete string
  | DsGet Key | DsPut Key PropertyMap | DsDelete Key
  | DsEnd  \<comment> \<open>the end of a call of the datastore, with the error of the call as a whole\<close>

datatype resp =
  McFail  \<comment> \<open>memcache cannot be reached\<close>
  | McErr "mc_error option" | McItem "mc_error + mcItem" | DsItem "rierror + PropertyMap" | DsErr "rierror option"

datatype 'a prog = Ret 'a | Do cmd "resp \<Rightarrow> 'a prog"

fun each :: "('i \<Rightarrow> cmd) \<Rightarrow> 'i list \<Rightarrow> resp list \<Rightarrow> (resp list \<Rightarrow> 'a prog) \<Rightarrow> 'a prog" where
  "each c [] acc f = f acc"
| "each c (i # is) acc f = Do (c i) (\<lambda>r. each c is (acc @ [r]) f)"

section \<open>Locks\<close>

text \<open>The metadata of an entity that the cache looks at, if it is there and has the type that \<^verbatim>\<open>GetMetaDefault\<close> is asked for.\<close>

record cache_meta =
  CacheEnableMeta :: "bool option"
  CacheExpirationMeta :: "int64 option"

definition meta_default :: "'a option \<Rightarrow> 'a \<Rightarrow> 'a" where
  "meta_default cur dflt = (case cur of None \<Rightarrow> dflt | Some x \<Rightarrow> x)"

text \<open>\<open>intn\<close> are the random numbers: for each key, a number below its argument. The empty string stands for no key.\<close>

definition mkRandKeys :: "cache_env \<Rightarrow> (nat \<Rightarrow> nat \<Rightarrow> nat) \<Rightarrow> Key list \<Rightarrow> (nat \<Rightarrow> cache_meta) \<Rightarrow> string list" where
  "mkRandKeys E intn keys metas =
     (let ret = map (\<lambda>(i, key). if \<not> meta_default (CacheEnableMeta (metas i)) True then ''''
                       else let shards = numShards E key in
                            if shards = 0 then '''' else MakeMemcacheKey E (intn i shards) key)
                  (enumerate 0 keys)
      in if list_all (\<lambda>k. k = '''') ret then [] else ret)"

definition mkAllKeys :: "cache_env \<Rightarrow> Key list \<Rightarrow> string list" where
  "mkAllKeys E keys =
     concat (map (\<lambda>key. if Key_IsIncomplete key = Some False then map (\<lambda>shard. memcache_key shard (HashKey E key)) [0..<numShards E key] else [])
               keys)"

definition lock_item :: "string \<Rightarrow> byte list \<Rightarrow> mcItem" where
  "lock_item k val =
     (NewItem k)\<lparr>it_flags := ItemHasLock, it_expiration := 1000000000 * LockTimeSeconds, it_value := val\<rparr>"

definition mkRandLockItems ::
  "cache_env \<Rightarrow> (nat \<Rightarrow> nat \<Rightarrow> nat) \<Rightarrow> byte list \<Rightarrow> Key list \<Rightarrow> (nat \<Rightarrow> cache_meta) \<Rightarrow> mcItem option list" where
  "mkRandLockItems E intn nonce keys metas =
     map (\<lambda>k. if k = '''' then None else Some (lock_item k nonce)) (mkRandKeys E intn keys metas)"

definition mkAllLockItems :: "cache_env \<Rightarrow> Key list \<Rightarrow> mcItem list \<times> string list" where
  "mkAllLockItems E keys = (let mcKeys = mkAllKeys E keys in (map (\<lambda>k. lock_item k []) mcKeys, mcKeys))"

section \<open>Reading\<close>

text \<open>\<^verbatim>\<open>filterItems\<close> of the memcache service drops the nils; its \<^verbatim>\<open>Get\<close> fills in the items that were found.\<close>

definition filterItems :: "mcItem option list \<Rightarrow> mcItem list" where
  "filterItems items = List.map_filter id items"

fun got_items :: "mcItem option list \<Rightarrow> resp list \<Rightarrow> mcItem option list" where
  "got_items [] rs = []"
| "got_items (None # items) rs = None # got_items items rs"
| "got_items (Some i # items) [] = Some i # got_items items []"
| "got_items (Some i # items) (r # rs) =
     Some (case r of McItem (Inr item) \<Rightarrow> SetAll i (Some item) | _ \<Rightarrow> i) # got_items items rs"

record plan =
  idxMap :: "nat list"
  toGet :: "Key list"
  toSave :: "mcItem option list"
  p_decoded :: "PropertyMap option list"
  p_lme :: "rierror option list"

definition plan_add :: "plan \<Rightarrow> nat \<Rightarrow> Key \<Rightarrow> mcItem option \<Rightarrow> plan" where
  "plan_add p idx get save = p\<lparr>idxMap := idxMap p @ [idx], toGet := toGet p @ [get], toSave := toSave p @ [save]\<rparr>"

definition plan_item :: "cache_env \<Rightarrow> byte list \<Rightarrow> plan \<Rightarrow> nat \<times> Key \<times> mcItem option \<Rightarrow> plan" where
  "plan_item E nonce p x =
     (case x of (i, getKey, lockItm) \<Rightarrow>
        case lockItm of
          None \<Rightarrow> plan_add p i getKey None
        | Some lockItm \<Rightarrow>
            if it_flags lockItm = ItemHasLock
            then plan_add p i getKey (if nonce = it_value lockItm then Some lockItm else None)
            else if it_flags lockItm = ItemHasData
            then (case decodeItemValue E (it_value lockItm) of
                    DecEntity pmap \<Rightarrow> p\<lparr>p_decoded := (p_decoded p)[i := Some pmap]\<rparr>
                  | DecNoEntity \<Rightarrow> p\<lparr>p_lme := (p_lme p)[i := Some NoSuchEntity]\<rparr>
                  | DecError \<Rightarrow> plan_add p i getKey None)
            else plan_add p i getKey None)"

definition makeFetchPlan :: "cache_env \<Rightarrow> byte list \<Rightarrow> Key list \<Rightarrow> mcItem option list \<Rightarrow> plan" where
  "makeFetchPlan E nonce getKeys lockItems =
     foldl (plan_item E nonce)
       \<lparr>idxMap = [], toGet = [], toSave = [], p_decoded = replicate (length lockItems) None, p_lme = replicate (length lockItems) None\<rparr>
       (zip [0..<length lockItems] (zip getKeys lockItems))"

text \<open>The callback of \<^verbatim>\<open>GetMulti\<close> for the result \<open>r\<close> of one key: the data to store, and the item to swap in. With a map that
  cannot be written there is none.\<close>

definition save_item :: "cache_env \<Rightarrow> cache_meta \<Rightarrow> mcItem \<Rightarrow> rierror + PropertyMap \<Rightarrow> mcItem option" where
  "save_item E mg item r =
     map_option (\<lambda>data.
       if length data > ValueSizeLimit then item\<lparr>it_flags := ItemHasLock, it_expiration := 0, it_value := []\<rparr>
       else item\<lparr>it_flags := ItemHasData,
              it_expiration := meta_default (CacheExpirationMeta mg) CacheTimeSeconds * 1000000000, it_value := data\<rparr>)
       (case r of
          Inr pm \<Rightarrow> encodeItemValue E pm
        | Inl e \<Rightarrow> if e = NoSuchEntity then Some [] else None)"

definition ds_result :: "resp \<Rightarrow> rierror + PropertyMap" where
  "ds_result r = (case r of DsItem x \<Rightarrow> x | _ \<Rightarrow> Inl ErrStop)"

fun fetched ::
  "cache_env \<Rightarrow> (nat \<Rightarrow> cache_meta) \<Rightarrow> plan \<Rightarrow> (nat \<times> mcItem option \<times> resp) list \<Rightarrow> mcItem list \<Rightarrow> plan \<times> mcItem list" where
  "fetched E metas p [] toCas = (p, toCas)"
| "fetched E metas p ((i, save, r) # xs) toCas =
     (let x = ds_result r;
          p = (case x of Inr pm \<Rightarrow> p\<lparr>p_decoded := (p_decoded p)[i := Some pm]\<rparr> | Inl err \<Rightarrow> p\<lparr>p_lme := (p_lme p)[i := Some err]\<rparr>);
          toCas = (case Option.bind save (\<lambda>save. save_item E (metas i) save x) of None \<Rightarrow> toCas | Some item \<Rightarrow> toCas @ [item])
      in fetched E metas p xs toCas)"

definition plan_results :: "plan \<Rightarrow> (rierror + PropertyMap) list" where
  "plan_results p =
     map2 (\<lambda>dec err. case err of Some e \<Rightarrow> Inl e | None \<Rightarrow> Inr (case dec of None \<Rightarrow> [] | Some pm \<Rightarrow> pm)) (p_decoded p) (p_lme p)"

type_synonym call_result = "rierror + (rierror + PropertyMap) list"

definition ds_end :: "resp \<Rightarrow> rierror option" where
  "ds_end r = (case r of DsErr e \<Rightarrow> e | _ \<Rightarrow> Some ErrStop)"

text \<open>\<^verbatim>\<open>GetMulti\<close>; the list of results is what the caller's callback gets, key by key.\<close>

definition dsc_GetMulti ::
  "cache_env \<Rightarrow> (nat \<Rightarrow> nat \<Rightarrow> nat) \<Rightarrow> byte list \<Rightarrow> Key list \<Rightarrow> (nat \<Rightarrow> cache_meta) \<Rightarrow> call_result prog" where
  "dsc_GetMulti E intn nonce keys metas =
     (let lockItems = mkRandLockItems E intn nonce keys metas in
      if lockItems = [] then
        each DsGet keys [] (\<lambda>rs. Do DsEnd (\<lambda>r. case ds_end r of Some err \<Rightarrow> Ret (Inl err) | None \<Rightarrow> Ret (Inr (map ds_result rs))))
      else
        each McAdd (filterItems lockItems) [] (\<lambda>_.
        each McGet (map it_key (filterItems lockItems)) [] (\<lambda>gs.
        let p = makeFetchPlan E nonce keys (got_items lockItems gs) in
        if idxMap p = [] then Ret (Inr (plan_results p))
        else
          each DsGet (toGet p) [] (\<lambda>rs. Do DsEnd (\<lambda>r.
          case ds_end r of
            Some err \<Rightarrow> Ret (Inl err)
          | None \<Rightarrow>
              (case fetched E metas p (zip (idxMap p) (zip (toSave p) rs)) [] of (p, toCas) \<Rightarrow>
                 each McCAS toCas [] (\<lambda>_. Ret (Inr (plan_results p)))))))))"

section \<open>Writing\<close>

definition mc_failed :: "resp \<Rightarrow> bool" where
  "mc_failed r = (case r of McErr e \<Rightarrow> e \<noteq> None | _ \<Rightarrow> True)"

text \<open>The datastore's part \<open>f\<close> of a mutation: one operation for each key, then the result of the call. The caller's callback goes to
  the datastore as it is; the result of the call carries only its error.\<close>

definition ds_ops :: "cmd list \<Rightarrow> (rierror option \<Rightarrow> 'a prog) \<Rightarrow> 'a prog" where
  "ds_ops ops f = each id ops [] (\<lambda>_. Do DsEnd (\<lambda>r. f (ds_end r)))"

text \<open>The part that \<^verbatim>\<open>mutation\<close> and transactions share: set all locks, stop if one fails (\<open>ErrStop\<close> stands for memcache's error), run the
  datastore's part, and delete the locks if it succeeded. Errors of the deletes are only logged.\<close>

definition locked_ops :: "mcItem list \<Rightarrow> string list \<Rightarrow> cmd list \<Rightarrow> call_result prog" where
  "locked_ops lockItems lockKeys ops =
     each McSet lockItems [] (\<lambda>rs.
       if list_ex mc_failed rs then Ret (Inl ErrStop)
       else ds_ops ops (\<lambda>err.
         case err of
           None \<Rightarrow> each McDelete lockKeys [] (\<lambda>_. Ret (Inr []))
         | Some e \<Rightarrow> Ret (Inl e)))"

definition mutation :: "cache_env \<Rightarrow> Key list \<Rightarrow> cmd list \<Rightarrow> call_result prog" where
  "mutation E keys ops =
     (case mkAllLockItems E keys of (lockItems, lockKeys) \<Rightarrow>
        if lockItems = [] then ds_ops ops (\<lambda>err. case err of None \<Rightarrow> Ret (Inr []) | Some e \<Rightarrow> Ret (Inl e))
        else locked_ops lockItems lockKeys ops)"

definition dsc_PutMulti :: "cache_env \<Rightarrow> Key list \<Rightarrow> PropertyMap list \<Rightarrow> call_result prog" where
  "dsc_PutMulti E keys vals = mutation E keys (map2 DsPut keys vals)"

definition dsc_DeleteMulti :: "cache_env \<Rightarrow> Key list \<Rightarrow> call_result prog" where
  "dsc_DeleteMulti E keys = mutation E keys (map DsDelete keys)"

section \<open>Transactions\<close>

record dsTxnState =
  toLock :: "mcItem list"
  toDelete :: "string list"

definition txn_reset :: dsTxnState where
  "txn_reset = \<lparr>toLock = [], toDelete = []\<rparr>"

definition txn_add :: "cache_env \<Rightarrow> dsTxnState \<Rightarrow> Key list \<Rightarrow> dsTxnState" where
  "txn_add E s keys =
     foldl (\<lambda>s (li, k). if k \<in> set (toDelete s) then s else s\<lparr>toLock := toLock s @ [li], toDelete := toDelete s @ [k]\<rparr>)
       s (case mkAllLockItems E keys of (lockItems, lockKeys) \<Rightarrow> zip lockItems lockKeys)"

text \<open>
  \<^verbatim>\<open>RunInTransaction\<close>: the calls \<open>calls\<close> of the user's function each record their keys; \<^verbatim>\<open>apply\<close> sets the locks, the
  datastore commits the operations \<open>ops\<close>, and \<^verbatim>\<open>release\<close> deletes the locks in the order in which Go visits the
  map of keys. A transaction whose function fails does nothing to either store; a retry starts from \<^verbatim>\<open>reset\<close> and is a further call.
\<close>

definition dsc_RunInTransaction :: "cache_env \<Rightarrow> (string list \<Rightarrow> string list) \<Rightarrow> Key list list \<Rightarrow> cmd list \<Rightarrow> call_result prog" where
  "dsc_RunInTransaction E order calls ops =
     (let s = foldl (txn_add E) txn_reset calls in locked_ops (toLock s) (order (toDelete s)) ops)"

end
