(* ===== verification/DsCache_Run.thy ===== *)
theory DsCache_Run
  imports DsCache
begin

text \<open>
  Runs of the cache filter: the programs of \<open>DsCache\<close> of any number of concurrent calls against one memcache and one
  datastore, item by item and key by key, with memcache dropping items at any moment; what each operation of memcache
  does to the entries.
\<close>

section \<open>Runs\<close>

record shared =
  sh_mc :: memcacheData
  sh_ds :: "Key \<Rightarrow> PropertyMap option"

definition is_mc :: "cmd \<Rightarrow> bool" where
  "is_mc c = (case c of McAdd _ \<Rightarrow> True | McGet _ \<Rightarrow> True | McCAS _ \<Rightarrow> True | McSet _ \<Rightarrow> True | McDelete _ \<Rightarrow> True | _ \<Rightarrow> False)"

text \<open>One operation. The clock shows any time. Memcache may be out of reach; the datastore may report an error whether the write
  happened or not.\<close>

inductive exec :: "shared \<Rightarrow> cmd \<Rightarrow> resp \<Rightarrow> shared \<Rightarrow> bool" where
  add: "mc_Add now itm (sh_mc s) = (e, m) \<Longrightarrow> exec s (McAdd itm) (McErr e) (s\<lparr>sh_mc := m\<rparr>)"
| cas: "mc_CompareAndSwap now itm (sh_mc s) = (e, m) \<Longrightarrow> exec s (McCAS itm) (McErr e) (s\<lparr>sh_mc := m\<rparr>)"
| set: "mc_Set now itm (sh_mc s) = (e, m) \<Longrightarrow> exec s (McSet itm) (McErr e) (s\<lparr>sh_mc := m\<rparr>)"
| get: "mc_Get now x (sh_mc s) = (r, m) \<Longrightarrow> exec s (McGet x) (McItem r) (s\<lparr>sh_mc := m\<rparr>)"
| delete: "mc_Delete now x (sh_mc s) = (e, m) \<Longrightarrow> exec s (McDelete x) (McErr e) (s\<lparr>sh_mc := m\<rparr>)"
| mc_down: "is_mc c \<Longrightarrow> exec s c McFail s"
| ds_get: "exec s (DsGet k) (DsItem (case sh_ds s k of None \<Rightarrow> Inl NoSuchEntity | Some pm \<Rightarrow> Inr pm)) s"
| ds_get_error: "e \<noteq> NoSuchEntity \<Longrightarrow> exec s (DsGet k) (DsItem (Inl e)) s"
| ds_put: "exec s (DsPut k pm) (DsErr e) (s\<lparr>sh_ds := (sh_ds s)(k := Some pm)\<rparr>)"
| ds_put_lost: "exec s (DsPut k pm) (DsErr (Some e)) s"
| ds_delete: "exec s (DsDelete k) (DsErr e) (s\<lparr>sh_ds := (sh_ds s)(k := None)\<rparr>)"
| ds_delete_lost: "exec s (DsDelete k) (DsErr (Some e)) s"
| ds_end: "exec s DsEnd (DsErr e) s"

text \<open>
  The calls, and what the callers and the check filter guarantee about their arguments. \<open>K\<close> are the keys in use: complete
  keys of the cache's context, no two of which have the same hash. The nonce has its eight bytes, the random numbers are in range.
\<close>

datatype call =
  CGet "nat \<Rightarrow> nat \<Rightarrow> nat" "byte list" "Key list" "nat \<Rightarrow> cache_meta"
  | CPut "Key list" "PropertyMap list"
  | CDelete "Key list"
  | CTxn "string list \<Rightarrow> string list" "Key list list" "cmd list"

fun call_prog :: "cache_env \<Rightarrow> call \<Rightarrow> call_result prog" where
  "call_prog E (CGet intn nonce keys metas) = dsc_GetMulti E intn nonce keys metas"
| "call_prog E (CPut keys vals) = dsc_PutMulti E keys vals"
| "call_prog E (CDelete keys) = dsc_DeleteMulti E keys"
| "call_prog E (CTxn order calls ops) = dsc_RunInTransaction E order calls ops"

definition keys_ok :: "cache_env \<Rightarrow> Key set \<Rightarrow> bool" where
  "keys_ok E K \<longleftrightarrow> inj_on (HashKey E) K \<and> (\<forall>k \<in> K. Key_IsIncomplete k = Some False)"

definition write_ok :: "Key set \<Rightarrow> cmd \<Rightarrow> bool" where
  "write_ok K c = (case c of DsPut k pm \<Rightarrow> k \<in> K \<and> putable pm | DsDelete k \<Rightarrow> k \<in> K | _ \<Rightarrow> False)"

fun call_ok :: "Key set \<Rightarrow> call \<Rightarrow> bool" where
  "call_ok K (CGet intn nonce keys metas) \<longleftrightarrow> set keys \<subseteq> K \<and> length nonce = NonceBytes \<and> (\<forall>i n. 0 < n \<longrightarrow> intn i n < n)"
| "call_ok K (CPut keys vals) \<longleftrightarrow> set keys \<subseteq> K \<and> length vals = length keys \<and> list_all putable vals"
| "call_ok K (CDelete keys) \<longleftrightarrow> set keys \<subseteq> K"
| "call_ok K (CTxn order calls ops) \<longleftrightarrow>
     set (concat calls) \<subseteq> K \<and> list_all (write_ok (set (concat calls))) ops \<and> (\<forall>xs. set (order xs) = set xs)"

text \<open>The memcache keys of an entity, and the entries that a mutation leaves there.\<close>

definition mkeys :: "cache_env \<Rightarrow> Key \<Rightarrow> string set" where
  "mkeys E k = (\<lambda>shard. MakeMemcacheKey E shard k) ` {..<numShards E k}"

abbreviation entry :: "memcacheData \<Rightarrow> string \<Rightarrow> mcDataItem option" where
  "entry m \<equiv> map_of (mc_items m)"

definition mutation_lock :: "mcDataItem \<Rightarrow> bool" where
  "mutation_lock d \<longleftrightarrow> d_flags d = ItemHasLock \<and> d_value d = []"

text \<open>
  The memcache keys whose entry is exposed: the entity was written while a reader's lock or a value was there instead of the
  lock of a mutation, and the entry has not been removed or locked again since.
\<close>

fun written :: "cmd \<Rightarrow> Key set" where
  "written (DsPut k pm) = {k}"
| "written (DsDelete k) = {k}"
| "written _ = {}"

definition expose :: "cache_env \<Rightarrow> Key set \<Rightarrow> shared \<Rightarrow> shared \<Rightarrow> string set \<Rightarrow> string set" where
  "expose E ks s s' U =
     {x \<in> U \<union> {x. (\<exists>k \<in> ks. x \<in> mkeys E k) \<and> (\<exists>d. entry (sh_mc s) x = Some d \<and> \<not> mutation_lock d)}.
        \<exists>d. entry (sh_mc s') x = Some d \<and> (entry (sh_mc s) x = Some d \<or> d_flags d \<noteq> ItemHasLock)}"

text \<open>What a call has done, with the state that each of its operations met.\<close>

record event =
  ev_cmd :: cmd
  ev_resp :: resp
  ev_at :: shared
  ev_exposed :: "string set"

record system =
  sy_shared :: shared
  sy_exposed :: "string set"
  sy_calls :: "(call \<times> event list \<times> call_result prog) list"

text \<open>A call starts; a call does its next operation (the counter of memcache writes does not wrap); memcache drops an
  item or everything.\<close>

definition do_event :: "cache_env \<Rightarrow> system \<Rightarrow> cmd \<Rightarrow> resp \<Rightarrow> shared \<Rightarrow> nat \<Rightarrow> call \<times> event list \<times> call_result prog \<Rightarrow> system" where
  "do_event E S cm r s' i cl =
     S\<lparr>sy_shared := s', sy_exposed := expose E (written cm) (sy_shared S) s' (sy_exposed S), sy_calls := (sy_calls S)[i := cl]\<rparr>"

inductive cache_step :: "cache_env \<Rightarrow> Key set \<Rightarrow> system \<Rightarrow> system \<Rightarrow> bool" for E K where
  start: "call_ok K c \<Longrightarrow> cache_step E K S (S\<lparr>sy_calls := sy_calls S @ [(c, [], call_prog E c)]\<rparr>)"
| run: "i < length (sy_calls S) \<Longrightarrow> sy_calls S ! i = (c, log, Do cm f) \<Longrightarrow> no_wrap (sh_mc (sy_shared S)) \<Longrightarrow>
    exec (sy_shared S) cm r s' \<Longrightarrow>
    e = \<lparr>ev_cmd = cm, ev_resp = r, ev_at = sy_shared S, ev_exposed = sy_exposed S\<rparr> \<Longrightarrow>
    cache_step E K S (do_event E S cm r s' i (c, log @ [e], f r))"
| drop: "m = delItemLocked (sh_mc (sy_shared S)) x \<or> m = mc_Flush (sh_mc (sy_shared S)) \<Longrightarrow> s' = (sy_shared S)\<lparr>sh_mc := m\<rparr> \<Longrightarrow>
    cache_step E K S (S\<lparr>sy_shared := s', sy_exposed := expose E {} (sy_shared S) s' (sy_exposed S)\<rparr>)"

definition cache_init :: "(Key \<Rightarrow> PropertyMap option) \<Rightarrow> system" where
  "cache_init D = \<lparr>sy_shared = \<lparr>sh_mc = \<lparr>mc_items = [], mc_casID = 0, mc_stats = zero_stats\<rparr>, sh_ds = D\<rparr>, sy_exposed = {}, sy_calls = []\<rparr>"

definition cache_reachable :: "cache_env \<Rightarrow> Key set \<Rightarrow> system \<Rightarrow> bool" where
  "cache_reachable E K S \<longleftrightarrow> (\<exists>D. (\<forall>k pm. D k = Some pm \<longrightarrow> putable pm) \<and> (cache_step E K)\<^sup>*\<^sup>* (cache_init D) S)"

section \<open>The operations of memcache\<close>

text \<open>An operation keeps an entry, drops it, or writes a new one with the next identifier.\<close>

definition mc_eff :: "memcacheData \<Rightarrow> memcacheData \<Rightarrow> (string \<Rightarrow> mcDataItem \<Rightarrow> bool) \<Rightarrow> bool" where
  "mc_eff m m' new \<longleftrightarrow> unat (mc_casID m) \<le> unat (mc_casID m') \<and>
     (\<forall>x d. entry m' x = Some d \<longrightarrow>
        entry m x = Some d \<or> unat (mc_casID m) < unat (d_casID d) \<and> unat (d_casID d) \<le> unat (mc_casID m') \<and> new x d)"

definition made_of :: "mcItem \<Rightarrow> string \<Rightarrow> mcDataItem \<Rightarrow> bool" where
  "made_of itm x d \<longleftrightarrow> x = it_key itm \<and> d_value d = it_value itm \<and> d_flags d = it_flags itm"

lemma mc_eff_del: "mc_eff m (delItemLocked m x) (\<lambda>_ _. False)"
  by (auto simp: mc_eff_def delItemLocked_def map_of_al_delete split: option.splits if_splits)

lemma mc_eff_has: "mc_eff m (snd (hasItemLocked m now x)) (\<lambda>_ _. False) \<and> mc_casID (snd (hasItemLocked m now x)) = mc_casID m"
  using mc_eff_del [of m x] by (auto simp: hasItemLocked_def mc_eff_def split: option.splits)

lemma mc_eff_retrieve: "mc_eff m (snd (retrieveLocked m now x)) (\<lambda>_ _. False) \<and> mc_casID (snd (retrieveLocked m now x)) = mc_casID m"
  using mc_eff_has [of m now x]
  by (cases "hasItemLocked m now x") (auto simp: retrieveLocked_def mc_eff_def split: bool.splits option.splits)

lemma mc_eff_set: "no_wrap m \<Longrightarrow> mc_eff m (setItemLocked m now itm) (made_of itm)"
proof -
  assume "no_wrap m"
  then have "unat (mc_casID m + 1) = Suc (unat (mc_casID m))"
    using unatSuc [of "mc_casID m"] by (simp add: no_wrap_def add.commute)
  then show ?thesis
    by (auto simp: mc_eff_def made_of_def setItemLocked_eq map_of_al_set mkDataItemLocked_def Let_def)
qed

lemma mc_eff_then_set:
  assumes "mc_eff m m' (\<lambda>_ _. False)" "mc_casID m' = mc_casID m" "no_wrap m"
  shows "mc_eff m (setItemLocked m' now itm) (made_of itm)"
proof -
  have "no_wrap m'" using assms(2,3) by (simp add: no_wrap_def)
  from mc_eff_set [OF this, of now itm] show ?thesis using assms(1,2) unfolding mc_eff_def by metis
qed

lemma mc_eff_Add: "mc_Add now itm m = (e, m') \<Longrightarrow> no_wrap m \<Longrightarrow> mc_eff m m' (made_of itm)"
  using mc_eff_has [of m now "it_key itm"] mc_eff_then_set [of m _ now itm]
  by (auto simp: mc_Add_def mc_eff_def split: prod.splits bool.splits)

lemma mc_eff_Set: "mc_Set now itm m = (e, m') \<Longrightarrow> no_wrap m \<Longrightarrow> mc_eff m m' (made_of itm)"
  using mc_eff_set [of m now itm] by (auto simp: mc_Set_def)

lemma mc_eff_Get:
  assumes "mc_Get now x m = (r, m')"
  shows "mc_eff m m' (\<lambda>_ _. False)" "r = Inr it \<Longrightarrow> \<exists>d. entry m x = Some d \<and> it = toUserItem d x"
proof -
  show "mc_eff m m' (\<lambda>_ _. False)"
    using assms mc_eff_retrieve [of m now x] by (auto simp: mc_Get_def split: prod.splits sum.splits)
  assume "r = Inr it"
  then obtain d where "fst (retrieveLocked m now x) = Inr d" "it = toUserItem d x"
    using assms by (auto simp: mc_Get_def split: prod.splits sum.splits)
  then have "live now m x = Some d" "it = toUserItem d x"
    using retrieve_live(1) [of m now x] by (auto split: option.splits)
  then show "\<exists>d. entry m x = Some d \<and> it = toUserItem d x" by (auto simp: live_def split: option.splits if_splits)
qed

lemma mc_eff_Delete:
  assumes "mc_Delete now x m = (e, m')"
  shows "mc_eff m m' (\<lambda>_ _. False)" "entry m' x = None"
proof -
  obtain r m1 where r: "retrieveLocked m now x = (r, m1)" by fastforce
  have e1: "mc_eff m m1 (\<lambda>_ _. False)" using mc_eff_retrieve [of m now x] r by simp
  have m': "m' = (case r of Inl _ \<Rightarrow> m1 | Inr _ \<Rightarrow> delItemLocked m1 x)" using assms r by (auto simp: mc_Delete_def split: sum.splits)
  have "mc_eff m (delItemLocked m1 x) (\<lambda>_ _. False)" using mc_eff_del [of m1 x] e1 unfolding mc_eff_def by (metis order_trans)
  then show "mc_eff m m' (\<lambda>_ _. False)" using e1 m' by (cases r) simp_all
  show "entry m' x = None"
  proof (cases r)
    case (Inl err)
    then show ?thesis using r m'
      by (auto simp: retrieveLocked_def hasItemLocked_def delItemLocked_def map_of_al_delete split: option.splits if_splits prod.splits)
  next
    case (Inr d)
    then show ?thesis using m' by (auto simp: delItemLocked_def map_of_al_delete split: option.splits)
  qed
qed

lemma mc_eff_CAS:
  assumes "mc_CompareAndSwap now itm m = (e, m')" "no_wrap m"
  shows "mc_eff m m' (\<lambda>x d. made_of itm x d \<and> (\<exists>old. entry m x = Some old \<and> d_casID old = it_CasID itm))"
proof -
  obtain r m1 where r: "retrieveLocked m now (it_key itm) = (r, m1)" by fastforce
  have e1: "mc_eff m m1 (\<lambda>_ _. False)" "mc_casID m1 = mc_casID m" using mc_eff_retrieve [of m now "it_key itm"] r by simp_all
  show ?thesis
  proof (cases "\<exists>d. r = Inr d \<and> d_casID d = it_CasID itm")
    case True
    then obtain d where d: "r = Inr d" "d_casID d = it_CasID itm" by blast
    have "live now m (it_key itm) = Some d" using retrieve_live(1) [of m now "it_key itm"] r d(1) by (auto split: option.splits)
    then have "entry m (it_key itm) = Some d" by (auto simp: live_def split: option.splits if_splits)
    moreover have "m' = setItemLocked m1 now itm" using assms(1) r d by (simp add: mc_CompareAndSwap_def)
    ultimately show ?thesis
      using mc_eff_then_set [OF e1 assms(2), of now itm] d(2) unfolding mc_eff_def made_of_def by blast
  next
    case False
    then have "m' = m1" using assms(1) r by (auto simp: mc_CompareAndSwap_def split: sum.splits if_splits)
    then show ?thesis using e1(1) unfolding mc_eff_def by blast
  qed
qed

section \<open>Where a program is\<close>

text \<open>The rest of a program after the events of a log.\<close>

fun after :: "'a prog \<Rightarrow> event list \<Rightarrow> 'a prog option" where
  "after p [] = Some p"
| "after (Ret a) (e # l) = None"
| "after (Do c f) (e # l) = (if ev_cmd e = c then after (f (ev_resp e)) l else None)"

lemma after_snoc: "after p l = Some (Do (ev_cmd e) f) \<Longrightarrow> after p (l @ [e]) = Some (f (ev_resp e))"
  by (induction p l rule: after.induct) (auto split: if_splits)

lemma after_Do:
  assumes "after (Do c f) l = Some p"
  obtains "l = []" "p = Do c f" | e l' where "l = e # l'" "ev_cmd e = c" "after (f (ev_resp e)) l' = Some p"
  using assms by (cases l) (auto split: if_splits)

lemma after_Ret [simp]: "after (Ret a) l = Some p \<longleftrightarrow> l = [] \<and> p = Ret a"
  by (cases l) auto

text \<open>In a loop over items the program is at one of them, or past all of them.\<close>

lemma after_each_ex:
  "after (each c is acc f) l = Some p \<Longrightarrow>
    (\<exists>n g. n < length is \<and> map ev_cmd l = map c (take n is) \<and> p = Do (c (is ! n)) g) \<or>
    (\<exists>l1 l2. l = l1 @ l2 \<and> map ev_cmd l1 = map c is \<and> after (f (acc @ map ev_resp l1)) l2 = Some p)"
proof (induction "is" arbitrary: acc l)
  case (Cons i "is")
  from Cons.prems show ?case
  proof (cases rule: after_Do [OF Cons.prems [unfolded each.simps]])
    case 1
    then show ?thesis by (intro disjI1 exI [of _ 0]) simp
  next
    case (2 e l')
    from Cons.IH [OF 2(3)] show ?thesis
    proof (elim disjE exE conjE)
      fix n g assume "n < length is" "map ev_cmd l' = map c (take n is)" "p = Do (c (is ! n)) g"
      then show ?thesis using 2(1,2) by (intro disjI1 exI [of _ "Suc n"]) simp
    next
      fix l1 l2 assume "l' = l1 @ l2" "map ev_cmd l1 = map c is" "after (f ((acc @ [ev_resp e]) @ map ev_resp l1)) l2 = Some p"
      then show ?thesis using 2(1,2) by (intro disjI2 exI [of _ "e # l1"] exI [of _ l2]) simp
    qed
  qed
qed simp

lemma after_each:
  assumes "after (each c is acc f) l = Some p"
  obtains (at) n g where "n < length is" "map ev_cmd l = map c (take n is)" "p = Do (c (is ! n)) g"
  | (past) l1 l2 where "l = l1 @ l2" "map ev_cmd l1 = map c is" "after (f (acc @ map ev_resp l1)) l2 = Some p"
  using after_each_ex [OF assms] by blast

section \<open>What a call knows\<close>

text \<open>
  The entries that a call has seen and that are not locks of mutations, by their identifiers, and the data that it has read from
  the datastore since. An identifier of zero is that of no entry.
\<close>

definition known :: "event list \<Rightarrow> string \<Rightarrow> uint64 \<Rightarrow> bool" where
  "known l x i \<longleftrightarrow> i = 0 \<or> (\<exists>e \<in> set l. ev_cmd e = McGet x \<and>
     (\<exists>it. ev_resp e = McItem (Inr it) \<and> it_CasID it = i \<and> \<not> (it_flags it = ItemHasLock \<and> it_value it = [])))"

definition resp_data :: "cache_env \<Rightarrow> rierror + PropertyMap \<Rightarrow> byte list option" where
  "resp_data E r = (case r of Inr pm \<Rightarrow> encodeItemValue E pm | Inl e \<Rightarrow> if e = NoSuchEntity then Some [] else None)"

definition claimed :: "cache_env \<Rightarrow> event list \<Rightarrow> Key \<Rightarrow> string \<Rightarrow> uint64 \<Rightarrow> byte list \<Rightarrow> bool" where
  "claimed E l k x i v \<longleftrightarrow> (\<exists>l1 e l2 r. l = l1 @ e # l2 \<and> known l1 x i \<and> ev_cmd e = DsGet k \<and> ev_resp e = DsItem r \<and> resp_data E r = Some v)"

lemma known_append: "known l x i \<Longrightarrow> known (l @ l') x i" "known l' x i \<Longrightarrow> known (l @ l') x i"
  by (auto simp: known_def)

lemma known_snoc:
  "known (l @ [e]) x i \<longleftrightarrow> known l x i \<or> (ev_cmd e = McGet x \<and>
     (\<exists>it. ev_resp e = McItem (Inr it) \<and> it_CasID it = i \<and> \<not> (it_flags it = ItemHasLock \<and> it_value it = [])))"
  by (auto simp: known_def)

lemma claimed_known: "claimed E l k x i v \<Longrightarrow> known l x i"
  unfolding claimed_def using known_append by metis

lemma claimed_snoc:
  "claimed E (l @ [e]) k x i v \<longleftrightarrow>
     claimed E l k x i v \<or> known l x i \<and> ev_cmd e = DsGet k \<and> (\<exists>r. ev_resp e = DsItem r \<and> resp_data E r = Some v)"
proof
  assume "claimed E (l @ [e]) k x i v"
  then obtain l1 e' l2 r where c: "l @ [e] = l1 @ e' # l2" "known l1 x i" "ev_cmd e' = DsGet k" "ev_resp e' = DsItem r" "resp_data E r = Some v"
    unfolding claimed_def by blast
  show "claimed E l k x i v \<or> known l x i \<and> ev_cmd e = DsGet k \<and> (\<exists>r. ev_resp e = DsItem r \<and> resp_data E r = Some v)"
  proof (cases l2 rule: rev_cases)
    case Nil
    then show ?thesis using c by simp
  next
    case (snoc l3 e3)
    then have "l = l1 @ e' # l3" using c(1) by simp
    then show ?thesis unfolding claimed_def using c(2-5) by blast
  qed
next
  assume "claimed E l k x i v \<or> known l x i \<and> ev_cmd e = DsGet k \<and> (\<exists>r. ev_resp e = DsItem r \<and> resp_data E r = Some v)"
  then show "claimed E (l @ [e]) k x i v" unfolding claimed_def by (metis append_Cons append_assoc append_Nil)
qed

end
