(* ===== verification/DsCache_Inv.thy ===== *)
theory DsCache_Inv
  imports DsCache_Run
begin

text \<open>
  The invariant of the cache: outside the exposed keys an entry that is not a lock is the data of the datastore, and so is what
  a call may still swap in. Every step keeps it as long as the calls do only what \<open>permitted\<close> says; that they do is
  in \<open>DsCache_Props\<close>.
\<close>

section \<open>The memcache keys of entities\<close>

lemma colon_not_hex: "CHR '':'' \<notin> set (hex n)"
proof (induction n rule: hex.induct)
  case (1 n)
  have digit: "CHR '':'' \<noteq> ''0123456789abcdef'' ! m" if "m < 16" for m
  proof -
    have "''0123456789abcdef'' ! m \<in> set ''0123456789abcdef''" using that by (intro nth_mem) simp
    then show ?thesis by auto
  qed
  show ?case
  proof (cases "n < 16")
    case True
    then show ?thesis using digit [of n] by (subst hex.simps) simp
  next
    case False
    then show ?thesis using 1 digit [of "n mod 16"] by (subst hex.simps) simp
  qed
qed

lemma split_at: "c \<notin> set a \<Longrightarrow> c \<notin> set b \<Longrightarrow> a @ c # u = b @ c # v \<longleftrightarrow> a = b \<and> u = v"
proof (induction a arbitrary: b)
  case Nil
  then show ?case by (cases b) auto
next
  case (Cons x a)
  then show ?case by (cases b) auto
qed

lemma memcache_key_eq: "memcache_key m a = memcache_key n b \<longleftrightarrow> hex m = hex n \<and> a = b"
  using split_at [OF colon_not_hex colon_not_hex] by (auto simp: memcache_key_def)

lemma mkeys_disjoint: "inj_on (HashKey E) K \<Longrightarrow> k \<in> K \<Longrightarrow> k' \<in> K \<Longrightarrow> x \<in> mkeys E k \<Longrightarrow> x \<in> mkeys E k' \<Longrightarrow> k = k'"
  by (auto simp: mkeys_def MakeMemcacheKey_def memcache_key_eq dest: inj_onD)

section \<open>The invariant\<close>

definition permitted :: "cache_env \<Rightarrow> Key set \<Rightarrow> event list \<Rightarrow> cmd \<Rightarrow> bool" where
  "permitted E K l c =
     (case c of
        McAdd itm \<Rightarrow> it_flags itm = ItemHasLock
      | McSet itm \<Rightarrow> it_flags itm = ItemHasLock
      | McCAS itm \<Rightarrow> it_flags itm = ItemHasLock \<or>
          (\<exists>k \<in> K. it_key itm \<in> mkeys E k \<and> claimed E l k (it_key itm) (it_CasID itm) (it_value itm))
      | DsPut k pm \<Rightarrow> putable pm
      | _ \<Rightarrow> True)"

definition data_of :: "cache_env \<Rightarrow> shared \<Rightarrow> Key \<Rightarrow> byte list" where
  "data_of E s k = (case sh_ds s k of None \<Rightarrow> [] | Some pm \<Rightarrow> the (encodeItemValue E pm))"

definition known_ok :: "shared \<Rightarrow> event list \<Rightarrow> bool" where
  "known_ok s l \<longleftrightarrow> (\<forall>x i. known l x i \<longrightarrow> unat i \<le> unat (mc_casID (sh_mc s)) \<and>
     (\<forall>d. entry (sh_mc s) x = Some d \<and> d_casID d = i \<longrightarrow> \<not> mutation_lock d))"

definition claims_ok :: "cache_env \<Rightarrow> shared \<Rightarrow> string set \<Rightarrow> event list \<Rightarrow> bool" where
  "claims_ok E s U l \<longleftrightarrow> (\<forall>k x i v d. claimed E l k x i v \<and> x \<in> mkeys E k \<and> entry (sh_mc s) x = Some d \<and> d_casID d = i \<longrightarrow>
     v = data_of E s k \<or> x \<in> U)"

definition event_ok :: "cache_env \<Rightarrow> Key set \<Rightarrow> event \<Rightarrow> bool" where
  "event_ok E K e =
     ((\<forall>k pm. sh_ds (ev_at e) k = Some pm \<longrightarrow> putable pm) \<and>
      (\<forall>x it. ev_cmd e = McGet x \<and> ev_resp e = McItem (Inr it) \<and> it_flags it \<noteq> ItemHasLock \<longrightarrow>
         (\<forall>k \<in> K. x \<in> mkeys E k \<longrightarrow> it_value it = data_of E (ev_at e) k \<or> x \<in> ev_exposed e)) \<and>
      (\<forall>k r. ev_cmd e = DsGet k \<and> ev_resp e = DsItem r \<longrightarrow>
         (case r of Inr pm \<Rightarrow> sh_ds (ev_at e) k = Some pm | Inl err \<Rightarrow> err = NoSuchEntity \<longrightarrow> sh_ds (ev_at e) k = None)))"

definition entries_ok :: "cache_env \<Rightarrow> Key set \<Rightarrow> shared \<Rightarrow> string set \<Rightarrow> bool" where
  "entries_ok E K s U \<longleftrightarrow>
     (\<forall>x d. entry (sh_mc s) x = Some d \<longrightarrow> 0 < unat (d_casID d) \<and> unat (d_casID d) \<le> unat (mc_casID (sh_mc s))) \<and>
     (\<forall>k \<in> K. \<forall>x \<in> mkeys E k. \<forall>d. entry (sh_mc s) x = Some d \<longrightarrow> d_flags d \<noteq> ItemHasLock \<longrightarrow> d_value d = data_of E s k \<or> x \<in> U)"

definition call_inv :: "cache_env \<Rightarrow> Key set \<Rightarrow> shared \<Rightarrow> string set \<Rightarrow> call \<times> event list \<times> call_result prog \<Rightarrow> bool" where
  "call_inv E K s U cl \<longleftrightarrow> (case cl of (c, l, p) \<Rightarrow>
     call_ok K c \<and> after (call_prog E c) l = Some p \<and> list_all (event_ok E K) l \<and> known_ok s l \<and> claims_ok E s U l)"

definition cache_inv :: "cache_env \<Rightarrow> Key set \<Rightarrow> system \<Rightarrow> bool" where
  "cache_inv E K S \<longleftrightarrow>
     entries_ok E K (sy_shared S) (sy_exposed S) \<and>
     (\<forall>k pm. sh_ds (sy_shared S) k = Some pm \<longrightarrow> putable pm) \<and>
     list_all (call_inv E K (sy_shared S) (sy_exposed S)) (sy_calls S)"

text \<open>A change that keeps what is known, with the entries that are \<open>new\<close>.\<close>

definition keeps :: "cache_env \<Rightarrow> shared \<Rightarrow> string set \<Rightarrow> shared \<Rightarrow> string set \<Rightarrow> (string \<Rightarrow> mcDataItem \<Rightarrow> bool) \<Rightarrow> bool" where
  "keeps E s U s' U' new \<longleftrightarrow> mc_eff (sh_mc s) (sh_mc s') new \<and>
     (\<forall>k x v d. x \<in> mkeys E k \<longrightarrow> entry (sh_mc s) x = Some d \<longrightarrow> entry (sh_mc s') x = Some d \<longrightarrow> \<not> mutation_lock d \<longrightarrow>
        v = data_of E s k \<or> x \<in> U \<longrightarrow> v = data_of E s' k \<or> x \<in> U')"

lemma keeps_expose:
  assumes "mc_eff (sh_mc s) (sh_mc s') new" "\<And>k. k \<notin> ks \<Longrightarrow> sh_ds s' k = sh_ds s k"
  shows "keeps E s U s' (expose E ks s s' U) new"
  unfolding keeps_def
proof (intro conjI allI impI assms(1))
  fix k x v d
  assume x: "x \<in> mkeys E k" "entry (sh_mc s) x = Some d" "entry (sh_mc s') x = Some d" "\<not> mutation_lock d" "v = data_of E s k \<or> x \<in> U"
  show "v = data_of E s' k \<or> x \<in> expose E ks s s' U"
  proof (cases "k \<in> ks \<or> x \<in> U")
    case True
    then show ?thesis using x by (auto simp: expose_def)
  next
    case False
    then have "data_of E s' k = data_of E s k" using assms(2) [of k] by (simp add: data_of_def)
    then show ?thesis using x(5) False by simp
  qed
qed

lemma known_keeps:
  assumes "keeps E s U s' U' new" "known_ok s l"
  shows "known_ok s' l"
proof -
  have e: "mc_eff (sh_mc s) (sh_mc s') new" using assms(1) by (simp add: keeps_def)
  have "unat i \<le> unat (mc_casID (sh_mc s')) \<and> (\<forall>d. entry (sh_mc s') x = Some d \<and> d_casID d = i \<longrightarrow> \<not> mutation_lock d)"
    if k: "known l x i" for x i
  proof -
    have i: "unat i \<le> unat (mc_casID (sh_mc s))" using assms(2) k unfolding known_ok_def by blast
    have "\<not> mutation_lock d" if d: "entry (sh_mc s') x = Some d" "d_casID d = i" for d
    proof -
      have "entry (sh_mc s) x = Some d" using e i d unfolding mc_eff_def by fastforce
      then show ?thesis using assms(2) k d(2) unfolding known_ok_def by blast
    qed
    moreover have "unat i \<le> unat (mc_casID (sh_mc s'))" using e i unfolding mc_eff_def by linarith
    ultimately show ?thesis by blast
  qed
  then show ?thesis by (simp add: known_ok_def)
qed

lemma claims_keeps:
  assumes k: "keeps E s U s' U' new" and "known_ok s l" "claims_ok E s U l"
  shows "claims_ok E s' U' l"
  unfolding claims_ok_def
proof (intro allI impI, elim conjE)
  fix k x i v d assume c: "claimed E l k x i v" "x \<in> mkeys E k" "entry (sh_mc s') x = Some d" "d_casID d = i"
  have e: "mc_eff (sh_mc s) (sh_mc s') new" using assms(1) by (simp add: keeps_def)
  have i: "unat i \<le> unat (mc_casID (sh_mc s))" using claimed_known [OF c(1)] assms(2) unfolding known_ok_def by blast
  then have d: "entry (sh_mc s) x = Some d" using c(3,4) e unfolding mc_eff_def by fastforce
  then have "\<not> mutation_lock d" using claimed_known [OF c(1)] assms(2) c(4) unfolding known_ok_def by blast
  moreover have "v = data_of E s k \<or> x \<in> U" using assms(3) c d unfolding claims_ok_def by blast
  ultimately show "v = data_of E s' k \<or> x \<in> U'" using assms(1) c(2,3) d unfolding keeps_def by blast
qed

lemma call_keeps: "keeps E s U s' U' new \<Longrightarrow> call_inv E K s U cl \<Longrightarrow> call_inv E K s' U' cl"
  using known_keeps claims_keeps unfolding call_inv_def by (cases cl) fastforce

lemma entries_keeps:
  assumes k: "keeps E s U s' U' new" and e: "entries_ok E K s U"
    and new: "\<And>k x d. new x d \<Longrightarrow> entry (sh_mc s') x = Some d \<Longrightarrow> k \<in> K \<Longrightarrow> x \<in> mkeys E k \<Longrightarrow> d_flags d \<noteq> ItemHasLock \<Longrightarrow> d_value d = data_of E s' k \<or> x \<in> U'"
  shows "entries_ok E K s' U'"
proof -
  have c: "unat (mc_casID (sh_mc s)) \<le> unat (mc_casID (sh_mc s'))"
    "entry (sh_mc s) x = Some d \<or> unat (mc_casID (sh_mc s)) < unat (d_casID d) \<and> unat (d_casID d) \<le> unat (mc_casID (sh_mc s')) \<and> new x d"
    if "entry (sh_mc s') x = Some d" for x d
    using k that unfolding keeps_def mc_eff_def by blast+
  have old: "0 < unat (d_casID d) \<and> unat (d_casID d) \<le> unat (mc_casID (sh_mc s))" if "entry (sh_mc s) x = Some d" for x d
    using e that unfolding entries_ok_def by blast
  have ids: "0 < unat (d_casID d) \<and> unat (d_casID d) \<le> unat (mc_casID (sh_mc s'))" if d: "entry (sh_mc s') x = Some d" for x d
    using c [OF d] old [of x d] by linarith
  have data: "d_value d = data_of E s' k0 \<or> x \<in> U'"
    if d: "entry (sh_mc s') x = Some d" and k0: "k0 \<in> K" "x \<in> mkeys E k0" "d_flags d \<noteq> ItemHasLock" for x d k0
  proof (cases "entry (sh_mc s) x = Some d")
    case True
    then have "d_value d = data_of E s k0 \<or> x \<in> U" using e k0 unfolding entries_ok_def by blast
    moreover have "\<not> mutation_lock d" using k0 by (simp add: mutation_lock_def)
    ultimately show ?thesis using k k0(2) True d unfolding keeps_def by blast
  next
    case False
    then show ?thesis using c(2) [OF d] new d k0 by blast
  qed
  show ?thesis unfolding entries_ok_def using ids data by blast
qed

section \<open>Steps\<close>

text \<open>The entries that an operation writes.\<close>

definition writes :: "shared \<Rightarrow> cmd \<Rightarrow> string \<Rightarrow> mcDataItem \<Rightarrow> bool" where
  "writes s cm x d =
     (case cm of
        McAdd itm \<Rightarrow> made_of itm x d
      | McSet itm \<Rightarrow> made_of itm x d
      | McCAS itm \<Rightarrow> made_of itm x d \<and> (\<exists>old. entry (sh_mc s) x = Some old \<and> d_casID old = it_CasID itm)
      | _ \<Rightarrow> False)"

lemma mc_eff_refl: "mc_eff m m new"
  by (simp add: mc_eff_def)

lemma mc_eff_mono: "mc_eff m m' (\<lambda>_ _. False) \<Longrightarrow> mc_eff m m' new"
  unfolding mc_eff_def by blast

lemma exec_eff:
  assumes "exec s cm r s'" "no_wrap (sh_mc s)"
  shows "mc_eff (sh_mc s) (sh_mc s') (writes s cm) \<and> (\<forall>k. k \<notin> written cm \<longrightarrow> sh_ds s' k = sh_ds s k)"
  using assms
proof (cases rule: exec.cases)
  case (add now itm e m)
  then show ?thesis using mc_eff_Add [OF add(4) assms(2)] by (simp add: writes_def [abs_def])
next
  case (cas now itm e m)
  then show ?thesis using mc_eff_CAS [OF cas(4) assms(2)] by (simp add: writes_def [abs_def])
next
  case (set now itm e m)
  then show ?thesis using mc_eff_Set [OF set(4) assms(2)] by (simp add: writes_def [abs_def])
next
  case (get now x r m)
  then show ?thesis using mc_eff_mono [OF mc_eff_Get(1) [OF get(4)]] by simp
next
  case (delete now x e m)
  then show ?thesis using mc_eff_mono [OF mc_eff_Delete(1) [OF delete(4)]] by simp
qed (simp_all add: mc_eff_refl)

lemma exec_keeps: "exec s cm r s' \<Longrightarrow> no_wrap (sh_mc s) \<Longrightarrow> keeps E s U s' (expose E (written cm) s s' U) (writes s cm)"
  using exec_eff keeps_expose by metis

text \<open>What the call learns.\<close>

lemma learn_known:
  assumes ex: "exec s cm r s'" and wrap: "no_wrap (sh_mc s)" and e: "ev_cmd e = cm" "ev_resp e = r"
    and ok: "entries_ok E K s U" "known_ok s l"
  shows "known_ok s' (l @ [e])"
proof -
  note k = exec_keeps [OF ex wrap, where U = U]
  have "unat i \<le> unat (mc_casID (sh_mc s')) \<and> (\<forall>d. entry (sh_mc s') x = Some d \<and> d_casID d = i \<longrightarrow> \<not> mutation_lock d)"
    if new: "cm = McGet x" "r = McItem (Inr it)" "it_CasID it = i" "\<not> (it_flags it = ItemHasLock \<and> it_value it = [])" for x i it
  proof -
    obtain now m where g: "mc_Get now x (sh_mc s) = (Inr it, m)" "s' = s\<lparr>sh_mc := m\<rparr>" using ex new(1,2) by (auto elim: exec.cases)
    obtain d where d: "entry (sh_mc s) x = Some d" "it = toUserItem d x" using mc_eff_Get(2) [OF g(1) refl] by blast
    have i: "i = d_casID d" "\<not> mutation_lock d" using new(3,4) d(2) by (auto simp: toUserItem_def mutation_lock_def)
    have le: "unat i \<le> unat (mc_casID (sh_mc s))" using ok(1) d(1) i(1) unfolding entries_ok_def by blast
    have eff: "mc_eff (sh_mc s) (sh_mc s') (\<lambda>_ _. False)" using mc_eff_Get(1) [OF g(1)] g(2) by simp
    have "d' = d" if "entry (sh_mc s') x = Some d'" for d' using eff that d(1) unfolding mc_eff_def by fastforce
    moreover have "unat i \<le> unat (mc_casID (sh_mc s'))" using eff le unfolding mc_eff_def by linarith
    ultimately show ?thesis using i(2) by blast
  qed
  then show ?thesis using known_keeps [OF k ok(2)] unfolding known_ok_def known_snoc e by blast
qed

lemma learn_claims:
  assumes ex: "exec s cm r s'" and wrap: "no_wrap (sh_mc s)" and e: "ev_cmd e = cm" "ev_resp e = r"
    and ok: "known_ok s l" "claims_ok E s U l"
  shows "claims_ok E s' (expose E (written cm) s s' U) (l @ [e])"
proof -
  have "v = data_of E s' k" if new: "cm = DsGet k" "r = DsItem res" "resp_data E res = Some v" for k v res
    using ex new by (cases rule: exec.cases) (auto simp: resp_data_def data_of_def split: option.splits if_splits)
  then show ?thesis using claims_keeps [OF exec_keeps [OF ex wrap] ok] unfolding claims_ok_def claimed_snoc e by blast
qed

lemma learn_event:
  assumes ex: "exec s cm r s'" and ok: "entries_ok E K s U" "\<forall>k pm. sh_ds s k = Some pm \<longrightarrow> putable pm"
  shows "event_ok E K \<lparr>ev_cmd = cm, ev_resp = r, ev_at = s, ev_exposed = U\<rparr>"
proof -
  have "it_value it = data_of E s k \<or> x \<in> U"
    if g: "cm = McGet x" "r = McItem (Inr it)" "it_flags it \<noteq> ItemHasLock" "k \<in> K" "x \<in> mkeys E k" for x it k
  proof -
    obtain now m where "mc_Get now x (sh_mc s) = (Inr it, m)" using ex g(1,2) by (auto elim: exec.cases)
    then obtain d where "entry (sh_mc s) x = Some d" "it = toUserItem d x" using mc_eff_Get(2) by blast
    then show ?thesis using ok(1) g(3-5) unfolding entries_ok_def toUserItem_def by fastforce
  qed
  moreover have "case res of Inr pm \<Rightarrow> sh_ds s k = Some pm | Inl err \<Rightarrow> err = NoSuchEntity \<longrightarrow> sh_ds s k = None"
    if "cm = DsGet k" "r = DsItem res" for k res
    using ex that by (cases rule: exec.cases) (auto split: option.splits)
  ultimately show ?thesis using ok(2) unfolding event_ok_def event.simps by blast
qed

text \<open>The entries after an operation that is permitted.\<close>

lemma entries_step:
  assumes ex: "exec s cm r s'" and wrap: "no_wrap (sh_mc s)" and inj: "inj_on (HashKey E) K"
    and ok: "entries_ok E K s U" "claims_ok E s U l" and perm: "permitted E K l cm"
  shows "entries_ok E K s' (expose E (written cm) s s' U)"
proof (rule entries_keeps [OF exec_keeps [OF ex wrap] ok(1)])
  fix k x d
  assume new: "writes s cm x d" "entry (sh_mc s') x = Some d" "k \<in> K" "x \<in> mkeys E k" "d_flags d \<noteq> ItemHasLock"
  then obtain itm old where c: "cm = McCAS itm" "made_of itm x d" "entry (sh_mc s) x = Some old" "d_casID old = it_CasID itm"
    using perm by (auto simp: writes_def permitted_def made_of_def split: cmd.splits)
  then obtain k' where k': "k' \<in> K" "x \<in> mkeys E k'" "claimed E l k' x (it_CasID itm) (d_value d)"
    using perm new(5) by (auto simp: permitted_def made_of_def)
  have "k' = k" by (rule mkeys_disjoint [OF inj k'(1) new(3) k'(2) new(4)])
  then have "d_value d = data_of E s k \<or> x \<in> U" using ok(2) k'(3) new(4) c(3,4) unfolding claims_ok_def by blast
  moreover have "data_of E s' k = data_of E s k" using exec_eff [OF ex wrap] c(1) by (simp add: data_of_def)
  ultimately show "d_value d = data_of E s' k \<or> x \<in> expose E (written cm) s s' U" using new(2,5) by (auto simp: expose_def)
qed

lemma putable_step:
  assumes "exec s cm r s'" "permitted E K l cm" "\<forall>k pm. sh_ds s k = Some pm \<longrightarrow> putable pm"
  shows "\<forall>k pm. sh_ds s' k = Some pm \<longrightarrow> putable pm"
  using assms by (cases rule: exec.cases) (auto simp: permitted_def split: if_splits)

lemma cache_step_inv:
  assumes step: "cache_step E K S S'" and inv: "cache_inv E K S" and inj: "inj_on (HashKey E) K"
    and perm: "\<And>c l cm f. call_ok K c \<Longrightarrow> after (call_prog E c) l = Some (Do cm f) \<Longrightarrow> permitted E K l cm"
  shows "cache_inv E K S'"
  using step
proof (cases rule: cache_step.cases)
  case (start c)
  have "d_casID d \<noteq> 0" if "entry (sh_mc (sy_shared S)) x = Some d" for x d
    using inv that by (fastforce simp: cache_inv_def entries_ok_def)
  then have "call_inv E K (sy_shared S) (sy_exposed S) (c, [], call_prog E c)"
    using start by (auto simp: call_inv_def known_ok_def claims_ok_def known_def claimed_def)
  then show ?thesis using inv start by (simp add: cache_inv_def)
next
  case (run i c l cm f r s' e)
  let ?s = "sy_shared S" and ?U = "sy_exposed S"
  let ?U' = "expose E (written cm) ?s s' ?U"
  have cl: "call_inv E K ?s ?U (c, l, Do cm f)" using inv run(2,3) by (auto simp: cache_inv_def list_all_length)
  then have c: "call_ok K c" "after (call_prog E c) l = Some (Do cm f)" "list_all (event_ok E K) l" "known_ok ?s l" "claims_ok E ?s ?U l"
    by (simp_all add: call_inv_def)
  have ok: "entries_ok E K ?s ?U" "\<forall>k pm. sh_ds ?s k = Some pm \<longrightarrow> putable pm" using inv by (simp_all add: cache_inv_def)
  have p: "permitted E K l cm" using perm c(1,2) .
  have e: "ev_cmd e = cm" "ev_resp e = r" using run(6) by simp_all
  have "call_inv E K s' ?U' (c, l @ [e], f r)"
    using c(1,3) after_snoc [of "call_prog E c" l e f] c(2) e learn_event [OF run(5) ok] run(6)
      learn_known [OF run(5,4) e ok(1) c(4)] learn_claims [OF run(5,4) e c(4,5)] by (simp add: call_inv_def)
  moreover have "list_all (call_inv E K s' ?U') (sy_calls S)"
    using inv call_keeps [OF exec_keeps [OF run(5,4)]] by (auto simp: cache_inv_def list_all_iff)
  ultimately have "list_all (call_inv E K s' ?U') ((sy_calls S)[i := (c, l @ [e], f r)])"
    using set_update_subset_insert [of "sy_calls S" i "(c, l @ [e], f r)"] unfolding list_all_iff by blast
  then show ?thesis
    using run(1) entries_step [OF run(5,4) inj ok(1) c(5) p] putable_step [OF run(5) p ok(2)] by (simp add: cache_inv_def do_event_def)
next
  case (drop m x s')
  let ?s = "sy_shared S" and ?U = "sy_exposed S"
  have "mc_eff (sh_mc ?s) m (\<lambda>_ _. False)"
    using drop(2) mc_eff_del [of "sh_mc ?s" x] by (auto simp: mc_eff_def mc_Flush_def mc_reset_def)
  then have k: "keeps E ?s ?U s' (expose E {} ?s s' ?U) (\<lambda>_ _. False)" using drop(3) by (intro keeps_expose) simp_all
  have "list_all (call_inv E K s' (expose E {} ?s s' ?U)) (sy_calls S)"
    using inv call_keeps [OF k] by (auto simp: cache_inv_def list_all_iff)
  then show ?thesis using drop(1,3) inv entries_keeps [OF k, of K] by (simp add: cache_inv_def)
qed

end
