(* ===== verification/DsCache_Get.thy ===== *)
theory DsCache_Get
  imports DsCache_Inv
begin

text \<open>
  Reading through the cache: where the program of \<^verbatim>\<open>GetMulti\<close> can be, the plan it makes, that it swaps in only data that it has read
  from the datastore under its own lock, and where each of its results comes from.
\<close>

section \<open>Programs\<close>

primrec all_cmds :: "(cmd \<Rightarrow> bool) \<Rightarrow> 'a prog \<Rightarrow> bool" where
  "all_cmds Q (Ret a) = True"
| "all_cmds Q (Do c f) = (Q c \<and> (\<forall>r. all_cmds Q (f r)))"

lemma after_all_cmds: "after p l = Some p' \<Longrightarrow> all_cmds Q p \<Longrightarrow> all_cmds Q p'"
  by (induction p l rule: after.induct) (auto split: if_splits)

lemma all_cmds_each: "(\<And>i. i \<in> set is \<Longrightarrow> Q (c i)) \<Longrightarrow> (\<And>acc. all_cmds Q (f acc)) \<Longrightarrow> all_cmds Q (each c is acc f)"
  by (induction "is" arbitrary: acc) auto

section \<open>The items of a read\<close>

lemma filterItems_set: "itm \<in> set (filterItems L) \<longleftrightarrow> Some itm \<in> set L"
  by (force simp: filterItems_def List.map_filter_def)

lemma filterItems_simps [simp]: "filterItems [] = []" "filterItems (None # L) = filterItems L" "filterItems (Some i # L) = i # filterItems L"
  by (simp_all add: filterItems_def List.map_filter_def)

text \<open>An item after \<^verbatim>\<open>Get\<close>: the lock as it was made, or what memcache returned for its key.\<close>

definition got_from :: "event list \<Rightarrow> mcItem \<Rightarrow> mcItem \<Rightarrow> bool" where
  "got_from l lk itm \<longleftrightarrow> itm = lk \<or>
     (\<exists>e it. e \<in> set l \<and> ev_cmd e = McGet (it_key lk) \<and> ev_resp e = McItem (Inr it) \<and> it_key itm = it_key lk \<and>
        it_flags itm = it_flags it \<and> it_value itm = it_value it \<and> it_CasID itm = it_CasID it)"

lemma got_items_from:
  "map ev_cmd l = map (\<lambda>i. McGet (it_key i)) (filterItems L) \<Longrightarrow>
    list_all2 (\<lambda>a b. case a of None \<Rightarrow> b = None | Some lk \<Rightarrow> \<exists>itm. b = Some itm \<and> got_from l lk itm) L (got_items L (map ev_resp l))"
proof (induction L arbitrary: l)
  case (Cons a L)
  show ?case
  proof (cases a)
    case None
    then show ?thesis using Cons by simp
  next
    case (Some lk)
    then obtain e l' where l: "l = e # l'" "ev_cmd e = McGet (it_key lk)" "map ev_cmd l' = map (\<lambda>i. McGet (it_key i)) (filterItems L)"
      using Cons.prems by auto
    have mono: "got_from l' lk' itm \<Longrightarrow> got_from l lk' itm" for lk' itm unfolding got_from_def l(1) by auto
    have "list_all2 (\<lambda>a b. case a of None \<Rightarrow> b = None | Some lk \<Rightarrow> \<exists>itm. b = Some itm \<and> got_from l lk itm) L (got_items L (map ev_resp l'))"
      by (rule list.rel_mono_strong [OF Cons.IH [OF l(3)]]) (auto split: option.splits dest: mono)
    moreover have "got_from l lk (case ev_resp e of McItem (Inr item) \<Rightarrow> SetAll lk (Some item) | _ \<Rightarrow> lk)"
      using l(1,2) by (auto simp: got_from_def SetAll_def split: resp.splits sum.splits)
    ultimately show ?thesis using Some l(1) by simp
  qed
qed simp

section \<open>The plan\<close>

text \<open>
  After the first items of the list: for every entry of the plan its key and its item to save, which is a lock of this call; and
  every key so far is in the plan or has its result.
\<close>

definition plan_ok :: "cache_env \<Rightarrow> byte list \<Rightarrow> Key list \<Rightarrow> mcItem option list \<Rightarrow> nat \<Rightarrow> plan \<Rightarrow> bool" where
  "plan_ok E nonce keys got n p \<longleftrightarrow>
     distinct (idxMap p) \<and> length (toGet p) = length (idxMap p) \<and> length (toSave p) = length (idxMap p) \<and>
     length (p_decoded p) = length got \<and> length (p_lme p) = length got \<and>
     (\<forall>j < length (idxMap p). idxMap p ! j < n \<and> toGet p ! j = keys ! (idxMap p ! j) \<and>
        (\<forall>itm. toSave p ! j = Some itm \<longrightarrow> got ! (idxMap p ! j) = Some itm \<and> it_flags itm = ItemHasLock \<and> it_value itm = nonce)) \<and>
     (\<forall>i < length got. i \<in> set (idxMap p) \<or> n \<le> i \<longrightarrow> p_decoded p ! i = None \<and> p_lme p ! i = None) \<and>
     (\<forall>i < n. i \<notin> set (idxMap p) \<longrightarrow>
        (\<exists>itm. got ! i = Some itm \<and> it_flags itm = ItemHasData \<and>
          (decodeItemValue E (it_value itm) = DecNoEntity \<and> p_lme p ! i = Some NoSuchEntity \<or>
           (\<exists>pm. decodeItemValue E (it_value itm) = DecEntity pm \<and> p_decoded p ! i = Some pm \<and> p_lme p ! i = None))))"

lemma plan_ok_add:
  assumes "plan_ok E nonce keys got n p" "n < length got"
    and "\<forall>itm. save = Some itm \<longrightarrow> got ! n = Some itm \<and> it_flags itm = ItemHasLock \<and> it_value itm = nonce"
  shows "plan_ok E nonce keys got (Suc n) (plan_add p n (keys ! n) save)"
  using assms unfolding plan_ok_def plan_add_def
  by (auto simp: nth_append less_Suc_eq not_less in_set_conv_nth intro: less_SucI)

lemma plan_ok_step:
  assumes ok: "plan_ok E nonce keys got n p" and n: "n < length got" "n < length keys"
  shows "plan_ok E nonce keys got (Suc n) (plan_item E nonce p (n, keys ! n, got ! n))"
proof (cases "\<exists>itm. got ! n = Some itm \<and> it_flags itm = ItemHasData \<and> decodeItemValue E (it_value itm) \<noteq> DecError")
  case True
  then obtain itm where itm: "got ! n = Some itm" "it_flags itm = ItemHasData" "decodeItemValue E (it_value itm) \<noteq> DecError" by blast
  have notin: "n \<notin> set (idxMap p)" using ok by (auto simp: plan_ok_def in_set_conv_nth)
  have f: "ItemHasData \<noteq> ItemHasLock" by (simp add: ItemHasData_def ItemHasLock_def)
  have fresh: "p_lme p ! n = None" using ok n by (simp add: plan_ok_def)
  show ?thesis
  proof (cases "decodeItemValue E (it_value itm)")
    case (DecEntity pm)
    then have "plan_item E nonce p (n, keys ! n, got ! n) = p\<lparr>p_decoded := (p_decoded p)[n := Some pm]\<rparr>" using itm f by (simp add: plan_item_def)
    then show ?thesis using ok n itm DecEntity notin fresh by (auto simp: plan_ok_def nth_list_update less_Suc_eq)
  next
    case DecNoEntity
    then have "plan_item E nonce p (n, keys ! n, got ! n) = p\<lparr>p_lme := (p_lme p)[n := Some NoSuchEntity]\<rparr>" using itm f by (simp add: plan_item_def)
    then show ?thesis using ok n itm DecNoEntity notin by (auto simp: plan_ok_def nth_list_update less_Suc_eq)
  qed (use itm in simp)
next
  case False
  define save where "save = (case got ! n of None \<Rightarrow> None | Some itm \<Rightarrow> if it_flags itm = ItemHasLock \<and> it_value itm = nonce then Some itm else None)"
  have "plan_item E nonce p (n, keys ! n, got ! n) = plan_add p n (keys ! n) save"
    using False by (auto simp: plan_item_def save_def split: option.split decoded.split)
  moreover have "\<forall>itm. save = Some itm \<longrightarrow> got ! n = Some itm \<and> it_flags itm = ItemHasLock \<and> it_value itm = nonce"
    by (auto simp: save_def split: option.splits if_splits)
  ultimately show ?thesis using plan_ok_add [OF ok n(1)] by simp
qed

lemma makeFetchPlan_ok:
  assumes "length got = length keys"
  shows "plan_ok E nonce keys got (length keys) (makeFetchPlan E nonce keys got)"
proof -
  let ?p0 = "\<lparr>idxMap = [], toGet = [], toSave = [], p_decoded = replicate (length got) None, p_lme = replicate (length got) None\<rparr>"
  let ?xs = "zip [0..<length got] (zip keys got)"
  have "n \<le> length keys \<Longrightarrow> plan_ok E nonce keys got n (foldl (plan_item E nonce) ?p0 (take n ?xs))" for n
  proof (induction n)
    case 0
    then show ?case by (simp add: plan_ok_def)
  next
    case (Suc n)
    have "take (Suc n) ?xs = take n ?xs @ [(n, keys ! n, got ! n)]" using Suc.prems assms by (simp add: take_Suc_conv_app_nth)
    then show ?case using plan_ok_step [OF Suc.IH] Suc.prems assms by simp
  qed
  from this [of "length keys"] show ?thesis using assms by (simp add: makeFetchPlan_def)
qed

text \<open>The results of the datastore, put in their places, and the items to swap in.\<close>

definition result_at :: "plan \<Rightarrow> nat \<Rightarrow> rierror + PropertyMap \<Rightarrow> bool" where
  "result_at p i x = (case x of Inr pm \<Rightarrow> p_decoded p ! i = Some pm \<and> p_lme p ! i = None | Inl err \<Rightarrow> p_lme p ! i = Some err)"

lemma fetched_length:
  "length (p_decoded (fst (fetched E metas p xs cas))) = length (p_decoded p)" "length (p_lme (fst (fetched E metas p xs cas))) = length (p_lme p)"
  by (induction E metas p xs cas rule: fetched.induct) (auto simp: Let_def split: sum.split)

lemma fetched_rest:
  "i \<notin> fst ` set xs \<Longrightarrow> p_decoded (fst (fetched E metas p xs cas)) ! i = p_decoded p ! i \<and> p_lme (fst (fetched E metas p xs cas)) ! i = p_lme p ! i"
  by (induction E metas p xs cas rule: fetched.induct) (auto simp: Let_def split: sum.split)

lemma fetched_at:
  assumes "distinct (map fst xs)" "(i, save, r) \<in> set xs" "i < length (p_decoded p)" "i < length (p_lme p)" "p_lme p ! i = None"
  shows "result_at (fst (fetched E metas p xs cas)) i (ds_result r)"
  using assms
proof (induction E metas p xs cas rule: fetched.induct)
  case (2 E metas p i' save' r' xs cas)
  let ?x = "ds_result r'"
  let ?p = "case ?x of Inr pm \<Rightarrow> p\<lparr>p_decoded := (p_decoded p)[i' := Some pm]\<rparr> | Inl err \<Rightarrow> p\<lparr>p_lme := (p_lme p)[i' := Some err]\<rparr>"
  let ?c = "case Option.bind save' (\<lambda>save. save_item E (metas i') save ?x) of None \<Rightarrow> cas | Some item \<Rightarrow> cas @ [item]"
  have eq: "fetched E metas p ((i', save', r') # xs) cas = fetched E metas ?p xs ?c" by (simp add: Let_def)
  show ?case
  proof (cases "(i, save, r) = (i', save', r')")
    case True
    then have "i \<notin> fst ` set xs" using 2(2) by simp
    from fetched_rest [OF this, of E metas ?p ?c] show ?thesis
      unfolding eq using True 2(4-6) by (auto simp: result_at_def split: sum.splits)
  next
    case False
    then have "(i, save, r) \<in> set xs" using 2(3) by auto
    moreover from this have "i \<noteq> i'" using 2(2) by force
    ultimately show ?thesis unfolding eq using 2(2,4-6) by (intro 2(1) [OF refl refl refl]) (auto split: sum.split)
  qed
qed simp

lemma fetched_cas:
  "itm \<in> set (snd (fetched E metas p xs cas)) \<Longrightarrow>
    itm \<in> set cas \<or> (\<exists>i sv r. (i, Some sv, r) \<in> set xs \<and> save_item E (metas i) sv (ds_result r) = Some itm)"
proof (induction E metas p xs cas rule: fetched.induct)
  case (2 E metas p i save r xs cas)
  from 2(1) [OF refl refl refl] 2(2) show ?case
    by (fastforce simp: Let_def split: option.splits bind_splits)
qed simp

section \<open>What a read may write\<close>

lemma save_item_cases:
  assumes "save_item E mg sv x = Some itm"
  shows "it_key itm = it_key sv" "it_CasID itm = it_CasID sv"
    "it_flags itm = ItemHasLock \<or> resp_data E x = Some (it_value itm)"
  using assms by (auto simp: save_item_def resp_data_def split: sum.splits if_splits)

lemma ds_result_data: "resp_data E (ds_result r) = Some v \<Longrightarrow> \<exists>x. r = DsItem x \<and> resp_data E x = Some v"
  by (cases r) (auto simp: ds_result_def resp_data_def)

lemma mkRandKeys_at:
  assumes "i < length (mkRandKeys E intn keys metas)" "mkRandKeys E intn keys metas ! i \<noteq> ''''"
    and "\<forall>i n. 0 < n \<longrightarrow> intn i n < n"
  shows "mkRandKeys E intn keys metas ! i \<in> mkeys E (keys ! i)"
proof -
  have "i < length keys" "numShards E (keys ! i) \<noteq> 0" "mkRandKeys E intn keys metas ! i = MakeMemcacheKey E (intn i (numShards E (keys ! i))) (keys ! i)"
    using assms(1,2) by (auto simp: mkRandKeys_def Let_def nth_enumerate_eq split: if_splits)
  then show ?thesis using assms(3) by (auto simp: mkeys_def)
qed

lemma mkRandLockItems_length: "mkRandLockItems E intn nonce keys metas = [] \<or> length (mkRandLockItems E intn nonce keys metas) = length keys"
  by (simp add: mkRandLockItems_def mkRandKeys_def Let_def length_enumerate)

lemma mkRandLockItems_at:
  assumes "i < length keys" "mkRandLockItems E intn nonce keys metas \<noteq> []" "mkRandLockItems E intn nonce keys metas ! i = Some lk"
    and "\<forall>i n. 0 < n \<longrightarrow> intn i n < n"
  shows "it_flags lk = ItemHasLock" "it_CasID lk = 0" "it_key lk \<in> mkeys E (keys ! i)" "it_value lk = nonce"
proof -
  have i: "i < length (mkRandKeys E intn keys metas)" using assms(1,2) mkRandLockItems_length [of E intn nonce keys metas] by (simp add: mkRandLockItems_def)
  then have lk: "lk = lock_item (mkRandKeys E intn keys metas ! i) nonce" "mkRandKeys E intn keys metas ! i \<noteq> ''''"
    using assms(3) by (auto simp: mkRandLockItems_def split: if_splits)
  show "it_flags lk = ItemHasLock" "it_CasID lk = 0" "it_value lk = nonce" by (simp_all add: lk lock_item_def NewItem_def)
  show "it_key lk \<in> mkeys E (keys ! i)" using mkRandKeys_at [OF i lk(2) assms(4)] by (simp add: lk lock_item_def NewItem_def)
qed

text \<open>The program of \<^verbatim>\<open>GetMulti\<close> behind its locks, and where it can be.\<close>

definition plan_of :: "cache_env \<Rightarrow> byte list \<Rightarrow> Key list \<Rightarrow> mcItem option list \<Rightarrow> event list \<Rightarrow> plan" where
  "plan_of E nonce keys L lg = makeFetchPlan E nonce keys (got_items L (map ev_resp lg))"

definition fetched_of :: "cache_env \<Rightarrow> (nat \<Rightarrow> cache_meta) \<Rightarrow> plan \<Rightarrow> event list \<Rightarrow> plan \<times> mcItem list" where
  "fetched_of E metas p ld = fetched E metas p (zip (idxMap p) (zip (toSave p) (map ev_resp ld))) []"

lemma GetMulti_cases:
  assumes "after (dsc_GetMulti E intn nonce keys metas) l = Some p" and L: "L = mkRandLockItems E intn nonce keys metas" "L \<noteq> []"
  obtains (add) n g where "n < length (filterItems L)" "p = Do (McAdd (filterItems L ! n)) g"
  | (quiet) c g where "p = Do c g" "c = DsEnd \<or> (\<exists>x. c = McGet x) \<or> (\<exists>k. c = DsGet k)"
  | (error) err where "p = Ret (Inl err)"
  | (cached) la lg where "l = la @ lg" "map ev_cmd lg = map (\<lambda>i. McGet (it_key i)) (filterItems L)"
      "idxMap (plan_of E nonce keys L lg) = []" "p = Ret (Inr (plan_results (plan_of E nonce keys L lg)))"
  | (fetched) la lg ld lc where "l = la @ lg @ ld @ lc" "map ev_cmd lg = map (\<lambda>i. McGet (it_key i)) (filterItems L)"
      "map ev_cmd ld = map DsGet (toGet (plan_of E nonce keys L lg))"
      "(\<exists>n g. n < length (snd (fetched_of E metas (plan_of E nonce keys L lg) ld)) \<and>
         p = Do (McCAS (snd (fetched_of E metas (plan_of E nonce keys L lg) ld) ! n)) g) \<or>
       p = Ret (Inr (plan_results (fst (fetched_of E metas (plan_of E nonce keys L lg) ld))))"
proof -
  have "dsc_GetMulti E intn nonce keys metas =
      each McAdd (filterItems L) [] (\<lambda>_. each McGet (map it_key (filterItems L)) [] (\<lambda>gs.
        let p = makeFetchPlan E nonce keys (got_items L gs) in
        if idxMap p = [] then Ret (Inr (plan_results p))
        else each DsGet (toGet p) [] (\<lambda>rs. Do DsEnd (\<lambda>r.
          case ds_end r of
            Some err \<Rightarrow> Ret (Inl err)
          | None \<Rightarrow> (case fetched E metas p (zip (idxMap p) (zip (toSave p) rs)) [] of (p, toCas) \<Rightarrow>
              each McCAS toCas [] (\<lambda>_. Ret (Inr (plan_results p))))))))"
    using L(2) unfolding dsc_GetMulti_def L(1) [symmetric] by (simp add: Let_def)
  note a1 = assms(1) [unfolded this]
  show ?thesis
  proof (cases rule: after_each [OF a1])
    case (1 n g)
    then show ?thesis using add by blast
  next
    case (2 la l2)
    note la = 2
    show ?thesis
    proof (cases rule: after_each [OF la(3)])
      case (1 n g)
      then show ?thesis using quiet by blast
    next
      case (2 lg l3)
      let ?p = "plan_of E nonce keys L lg"
      have lg: "map ev_cmd lg = map (\<lambda>i. McGet (it_key i)) (filterItems L)" using 2(2) by (simp add: comp_def)
      note a3 = 2(3) [unfolded append_Nil Let_def plan_of_def [symmetric]]
      show ?thesis
      proof (cases "idxMap ?p = []")
        case True
        then have "l3 = []" "p = Ret (Inr (plan_results ?p))" using a3 by simp_all
        then show ?thesis using cached [OF _ lg True] la(1) 2(1) by simp
      next
        case False
        from a3 False have a4: "after (each DsGet (toGet ?p) [] (\<lambda>rs. Do DsEnd (\<lambda>r.
          case ds_end r of
            Some err \<Rightarrow> Ret (Inl err)
          | None \<Rightarrow> (case fetched E metas ?p (zip (idxMap ?p) (zip (toSave ?p) rs)) [] of (p, toCas) \<Rightarrow>
              each McCAS toCas [] (\<lambda>_. Ret (Inr (plan_results p))))))) l3 = Some p" by simp
        show ?thesis
        proof (cases rule: after_each [OF a4])
          case (1 n g)
          then show ?thesis using quiet by blast
        next
          case (2 ld l4)
          note ld = 2
          show ?thesis
          proof (cases rule: after_Do [OF ld(3)])
            case 1
            then show ?thesis using quiet by blast
          next
            case (2 e l5)
            let ?f = "fetched_of E metas ?p ld"
            show ?thesis
            proof (cases "ds_end (ev_resp e)")
              case (Some err)
              then show ?thesis using 2(3) error by simp
            next
              case None
              then have a5: "after (each McCAS (snd ?f) [] (\<lambda>_. Ret (Inr (plan_results (fst ?f))))) l5 = Some p"
                using 2(3) by (simp add: fetched_of_def case_prod_beta)
              have "(\<exists>n g. n < length (snd ?f) \<and> p = Do (McCAS (snd ?f ! n)) g) \<or> p = Ret (Inr (plan_results (fst ?f)))"
                using after_each_ex [OF a5] by auto
              then show ?thesis using fetched [of la lg ld "e # l5"] la(1) \<open>l2 = lg @ l3\<close> ld(1,2) 2(1) lg by simp
            qed
          qed
        qed
      qed
    qed
  qed
qed

text \<open>The items after \<^verbatim>\<open>Get\<close> belong to their keys; the identifier of a lock of this call is known.\<close>

lemma got_item_at:
  assumes L: "L = mkRandLockItems E intn nonce keys metas" "L \<noteq> []" and intn: "\<forall>i n. 0 < n \<longrightarrow> intn i n < n"
    and lg: "map ev_cmd lg = map (\<lambda>i. McGet (it_key i)) (filterItems L)"
    and i: "i < length keys" "got_items L (map ev_resp lg) ! i = Some itm"
  obtains lk where "it_key itm \<in> mkeys E (keys ! i)" "got_from lg lk itm" "it_key lk = it_key itm" "it_CasID lk = 0" "it_flags lk = ItemHasLock"
proof -
  have len: "length L = length keys" using L mkRandLockItems_length [of E intn nonce keys metas] by simp
  note all2 = got_items_from [OF lg]
  have "case L ! i of None \<Rightarrow> got_items L (map ev_resp lg) ! i = None | Some lk \<Rightarrow> \<exists>itm. got_items L (map ev_resp lg) ! i = Some itm \<and> got_from lg lk itm"
    using list_all2_nthD [OF all2, of i] i(1) len by simp
  then obtain lk where lk: "L ! i = Some lk" "got_from lg lk itm" using i(2) by (auto split: option.splits)
  note m = mkRandLockItems_at [OF i(1) L(2) [unfolded L(1)] lk(1) [unfolded L(1)] intn]
  have "it_key lk = it_key itm" using lk(2) by (auto simp: got_from_def)
  then show ?thesis using that [of lk] lk(2) m by simp
qed

lemma got_length:
  fixes lg :: "event list"
  assumes "L = mkRandLockItems E intn nonce keys metas" "L \<noteq> []" "map ev_cmd lg = map (\<lambda>i. McGet (it_key i)) (filterItems L)"
  shows "length (got_items L (map ev_resp lg)) = length keys"
  using list_all2_lengthD [OF got_items_from [OF assms(3)]] assms(1,2) mkRandLockItems_length [of E intn nonce keys metas] by simp

lemma GetMulti_permitted:
  assumes ok: "set keys \<subseteq> K" "length nonce = NonceBytes" and intn: "\<forall>i n. 0 < n \<longrightarrow> intn i n < n"
    and run: "after (dsc_GetMulti E intn nonce keys metas) l = Some (Do cm f)"
  shows "permitted E K l cm"
proof (cases "mkRandLockItems E intn nonce keys metas = []")
  case True
  then have "all_cmds (permitted E K l) (dsc_GetMulti E intn nonce keys metas)"
    by (auto simp: dsc_GetMulti_def permitted_def intro!: all_cmds_each split: option.split)
  from after_all_cmds [OF run this] show ?thesis by simp
next
  case False
  define L where "L = mkRandLockItems E intn nonce keys metas"
  note L = L_def False [folded L_def]
  show ?thesis
  proof (cases rule: GetMulti_cases [OF run L])
    case (1 n g)
    then have "Some (filterItems L ! n) \<in> set L" using filterItems_set nth_mem by blast
    then show ?thesis using 1 by (auto simp: L(1) mkRandLockItems_def lock_item_def NewItem_def permitted_def split: if_splits)
  next
    case (2 c g)
    then show ?thesis by (auto simp: permitted_def)
  next
    case (5 la lg ld lc)
    let ?got = "got_items L (map ev_resp lg)" and ?p = "plan_of E nonce keys L lg"
    obtain itm where itm: "cm = McCAS itm" "itm \<in> set (snd (fetched_of E metas ?p ld))" using 5(4) nth_mem by auto
    note P = makeFetchPlan_ok [OF got_length [OF L 5(2)], of E nonce, folded plan_of_def, unfolded plan_ok_def]
    have lens: "length (toGet ?p) = length (idxMap ?p)" "length (toSave ?p) = length (idxMap ?p)" "length ld = length (idxMap ?p)"
      using P 5(3) by (auto dest: map_eq_imp_length_eq)
    obtain i sv r where x: "(i, Some sv, r) \<in> set (zip (idxMap ?p) (zip (toSave ?p) (map ev_resp ld)))" "save_item E (metas i) sv (ds_result r) = Some itm"
      using fetched_cas [OF itm(2) [unfolded fetched_of_def]] by auto
    then obtain j where j: "j < length (idxMap ?p)" "idxMap ?p ! j = i" "toSave ?p ! j = Some sv" "ev_resp (ld ! j) = r"
      using lens by (auto simp: set_zip)
    have i: "i < length keys" "toGet ?p ! j = keys ! i" "?got ! i = Some sv" "it_value sv = nonce" using P j by auto
    obtain lk where lk: "it_key sv \<in> mkeys E (keys ! i)" "got_from lg lk sv" "it_key lk = it_key sv" "it_CasID lk = 0"
      using got_item_at [OF L intn 5(2) i(1,3)] by blast
    have "nonce \<noteq> []" using ok(2) by (auto simp: NonceBytes_def)
    then have kn: "known lg (it_key sv) (it_CasID sv)" using lk(2-4) i(4) by (auto simp: got_from_def known_def)
    note c = save_item_cases [OF x(2)]
    show ?thesis
    proof (cases "it_flags itm = ItemHasLock")
      case True
      then show ?thesis using itm(1) by (simp add: permitted_def)
    next
      case False
      then obtain y where y: "r = DsItem y" "resp_data E y = Some (it_value itm)" using c(3) ds_result_data by blast
      have "ld = take j ld @ ld ! j # drop (Suc j) ld" using j(1) lens(3) by (simp add: id_take_nth_drop)
      then have "l = (la @ lg @ take j ld) @ ld ! j # (drop (Suc j) ld @ lc)" using 5(1) by (metis append_Cons append_assoc)
      moreover have "known (la @ lg @ take j ld) (it_key sv) (it_CasID sv)" using known_append kn by blast
      moreover have "ev_cmd (ld ! j) = DsGet (keys ! i)" using 5(3) j(1) lens i(2) by (metis nth_map)
      ultimately have "claimed E l (keys ! i) (it_key itm) (it_CasID itm) (it_value itm)" unfolding claimed_def c(1,2) using y j(4) by blast
      moreover have "keys ! i \<in> K" using ok(1) i(1) by auto
      ultimately show ?thesis using itm(1) lk(1) c(1) by (auto simp: permitted_def)
    qed
  qed simp_all
qed

section \<open>What a read returns\<close>

definition from_ds :: "event \<Rightarrow> Key \<Rightarrow> rierror + PropertyMap \<Rightarrow> bool" where
  "from_ds e k x \<longleftrightarrow> ev_cmd e = DsGet k \<and> ds_result (ev_resp e) = x"

definition from_cache :: "cache_env \<Rightarrow> event \<Rightarrow> Key \<Rightarrow> rierror + PropertyMap \<Rightarrow> bool" where
  "from_cache E e k x \<longleftrightarrow> (\<exists>y it. y \<in> mkeys E k \<and> ev_cmd e = McGet y \<and> ev_resp e = McItem (Inr it) \<and> it_flags it = ItemHasData \<and>
     (case x of Inl err \<Rightarrow> err = NoSuchEntity \<and> decodeItemValue E (it_value it) = DecNoEntity
      | Inr pm \<Rightarrow> decodeItemValue E (it_value it) = DecEntity pm))"

lemma plan_results_at:
  assumes "i < length (p_decoded p)" "i < length (p_lme p)" "result_at p i x"
  shows "plan_results p ! i = x"
  using assms by (auto simp: plan_results_def result_at_def split: sum.splits)

lemma cached_at:
  assumes L: "L = mkRandLockItems E intn nonce keys metas" "L \<noteq> []" and intn: "\<forall>i n. 0 < n \<longrightarrow> intn i n < n"
    and lg: "map ev_cmd lg = map (\<lambda>i. McGet (it_key i)) (filterItems L)"
    and i: "i < length keys" "i \<notin> set (idxMap (plan_of E nonce keys L lg))"
  shows "\<exists>x. result_at (plan_of E nonce keys L lg) i x \<and> (\<exists>e \<in> set lg. from_cache E e (keys ! i) x)"
proof -
  let ?p = "plan_of E nonce keys L lg" and ?got = "got_items L (map ev_resp lg)"
  note P = makeFetchPlan_ok [OF got_length [OF L lg], of E nonce, folded plan_of_def, unfolded plan_ok_def]
  obtain itm where itm: "?got ! i = Some itm" "it_flags itm = ItemHasData"
    and d: "decodeItemValue E (it_value itm) = DecNoEntity \<and> p_lme ?p ! i = Some NoSuchEntity \<or>
      (\<exists>pm. decodeItemValue E (it_value itm) = DecEntity pm \<and> p_decoded ?p ! i = Some pm \<and> p_lme ?p ! i = None)"
    using P i by auto
  obtain lk where lk: "it_key itm \<in> mkeys E (keys ! i)" "got_from lg lk itm" "it_key lk = it_key itm" "it_flags lk = ItemHasLock"
    using got_item_at [OF L intn lg i(1) itm(1)] by blast
  have "ItemHasData \<noteq> ItemHasLock" by (simp add: ItemHasData_def ItemHasLock_def)
  then obtain e it where e: "e \<in> set lg" "ev_cmd e = McGet (it_key itm)" "ev_resp e = McItem (Inr it)" "it_flags it = ItemHasData" "it_value it = it_value itm"
    using lk(2-4) itm(2) unfolding got_from_def by metis
  show ?thesis
  proof (cases "decodeItemValue E (it_value itm)")
    case DecNoEntity
    then have "result_at ?p i (Inl NoSuchEntity)" "from_cache E e (keys ! i) (Inl NoSuchEntity)" using d e lk(1) by (auto simp: result_at_def from_cache_def)
    then show ?thesis using e(1) by blast
  next
    case (DecEntity pm)
    then have "result_at ?p i (Inr pm)" "from_cache E e (keys ! i) (Inr pm)" using d e lk(1) by (auto simp: result_at_def from_cache_def)
    then show ?thesis using e(1) by blast
  qed (use d in simp)
qed

lemma GetMulti_result:
  assumes intn: "\<forall>i n. 0 < n \<longrightarrow> intn i n < n"
    and run: "after (dsc_GetMulti E intn nonce keys metas) l = Some (Ret (Inr rs))"
  shows "length rs = length keys \<and> (\<forall>i < length keys. \<exists>e \<in> set l. from_ds e (keys ! i) (rs ! i) \<or> from_cache E e (keys ! i) (rs ! i))"
proof (cases "mkRandLockItems E intn nonce keys metas = []")
  case True
  then have "after (each DsGet keys [] (\<lambda>rs. Do DsEnd (\<lambda>r. case ds_end r of Some err \<Rightarrow> Ret (Inl err) | None \<Rightarrow> Ret (Inr (map ds_result rs))))) l =
      Some (Ret (Inr rs))" using run by (simp add: dsc_GetMulti_def)
  from after_each_ex [OF this, unfolded append_Nil] obtain l1 l2 where l: "l = l1 @ l2" "map ev_cmd l1 = map DsGet keys"
    "after (Do DsEnd (\<lambda>r. case ds_end r of Some err \<Rightarrow> Ret (Inl err) | None \<Rightarrow> Ret (Inr (map ds_result (map ev_resp l1))))) l2 = Some (Ret (Inr rs))"
    by blast
  then have rs: "rs = map ds_result (map ev_resp l1)" by (cases rule: after_Do [OF l(3)]) (auto split: option.splits)
  have len: "length l1 = length keys" using l(2) by (rule map_eq_imp_length_eq)
  have "\<exists>e \<in> set l. from_ds e (keys ! i) (rs ! i)" if "i < length keys" for i
  proof (rule bexI)
    have "ev_cmd (l1 ! i) = DsGet (keys ! i)" using l(2) that len by (metis nth_map)
    then show "from_ds (l1 ! i) (keys ! i) (rs ! i)" using that len by (simp add: from_ds_def rs)
    show "l1 ! i \<in> set l" using that len l(1) by simp
  qed
  then show ?thesis using rs len by auto
next
  case False
  define L where "L = mkRandLockItems E intn nonce keys metas"
  note L = L_def False [folded L_def]
  show ?thesis
  proof (cases rule: GetMulti_cases [OF run L])
    case (4 la lg)
    let ?p = "plan_of E nonce keys L lg"
    note P = makeFetchPlan_ok [OF got_length [OF L 4(2)], of E nonce, folded plan_of_def, unfolded plan_ok_def]
    have len: "length (p_decoded ?p) = length keys" "length (p_lme ?p) = length keys" using P got_length [OF L 4(2)] by simp_all
    have rs: "rs = plan_results ?p" using 4(4) by simp
    have "\<exists>e \<in> set l. from_cache E e (keys ! i) (rs ! i)" if i: "i < length keys" for i
      using cached_at [OF L intn 4(2) i] 4(1,3) plan_results_at [of i ?p] len i rs by fastforce
    then show ?thesis using rs len by (auto simp: plan_results_def)
  next
    case (5 la lg ld lc)
    let ?p = "plan_of E nonce keys L lg" and ?f = "fst (fetched_of E metas (plan_of E nonce keys L lg) ld)"
    let ?xs = "zip (idxMap ?p) (zip (toSave ?p) (map ev_resp ld))"
    note P = makeFetchPlan_ok [OF got_length [OF L 5(2)], of E nonce, folded plan_of_def, unfolded plan_ok_def]
    have lens: "length (toGet ?p) = length (idxMap ?p)" "length (toSave ?p) = length (idxMap ?p)" "length ld = length (idxMap ?p)"
      using P 5(3) by (auto dest: map_eq_imp_length_eq)
    have len: "length (p_decoded ?p) = length keys" "length (p_lme ?p) = length keys" using P got_length [OF L 5(2)] by simp_all
    have flen: "length (p_decoded ?f) = length keys" "length (p_lme ?f) = length keys" using fetched_length len by (simp_all add: fetched_of_def)
    have idx: "map fst ?xs = idxMap ?p" "fst ` set ?xs = set (idxMap ?p)" using lens by (simp_all flip: set_map)
    have rs: "rs = plan_results ?f" using 5(4) by simp
    have "\<exists>e \<in> set l. from_ds e (keys ! i) (rs ! i) \<or> from_cache E e (keys ! i) (rs ! i)" if i: "i < length keys" for i
    proof (cases "i \<in> set (idxMap ?p)")
      case True
      then obtain j where j: "j < length (idxMap ?p)" "idxMap ?p ! j = i" by (auto simp: in_set_conv_nth)
      then have "?xs ! j = (i, toSave ?p ! j, ev_resp (ld ! j))" "j < length ?xs" using lens by simp_all
      then have "(i, toSave ?p ! j, ev_resp (ld ! j)) \<in> set ?xs" by (metis nth_mem)
      moreover have "p_lme ?p ! i = None" "distinct (idxMap ?p)" using P True i got_length [OF L 5(2)] by auto
      ultimately have "result_at ?f i (ds_result (ev_resp (ld ! j)))" unfolding fetched_of_def using i len idx(1) by (intro fetched_at) auto
      then have "rs ! i = ds_result (ev_resp (ld ! j))" using plan_results_at i flen rs by metis
      moreover have "ev_cmd (ld ! j) = DsGet (keys ! i)"
      proof -
        have "ev_cmd (ld ! j) = DsGet (toGet ?p ! j)" using 5(3) j(1) lens by (metis nth_map)
        then show ?thesis using P j by auto
      qed
      moreover have "ld ! j \<in> set l" using 5(1) j(1) lens by simp
      ultimately show ?thesis by (auto simp: from_ds_def)
    next
      case False
      then obtain x e where x: "result_at ?p i x" "e \<in> set lg" "from_cache E e (keys ! i) x" using cached_at [OF L intn 5(2) i] by blast
      have "result_at ?f i x" using x(1) fetched_rest [of i ?xs E metas ?p "[]"] False idx(2) by (simp add: result_at_def fetched_of_def split: sum.splits)
      then have "rs ! i = x" using plan_results_at i flen rs by metis
      then show ?thesis using x(2,3) 5(1) by auto
    qed
    then show ?thesis using rs flen by (simp add: plan_results_def)
  qed simp_all
qed

end
