(* ===== verification/DsCache_Props.thy ===== *)
theory DsCache_Props
  imports DsCache_Get
begin

text \<open>
  The cache filter among any number of concurrent calls: the locks of mutations, that what is cached is what the datastore has, and
  that a read returns what the datastore had at a moment during the call.
\<close>

section \<open>Mutations\<close>

lemma set_mkAllKeys:
  assumes "\<forall>k \<in> set ks. Key_IsIncomplete k = Some False"
  shows "set (mkAllKeys E ks) = (\<Union>k \<in> set ks. mkeys E k)"
  using assms by (auto simp: mkAllKeys_def mkeys_def MakeMemcacheKey_def)

lemma txn_add_spec:
  assumes "toLock s = map (\<lambda>x. lock_item x []) (toDelete s)"
  shows "toLock (txn_add E s ks) = map (\<lambda>x. lock_item x []) (toDelete (txn_add E s ks)) \<and>
    set (toDelete (txn_add E s ks)) = set (toDelete s) \<union> set (mkAllKeys E ks)"
proof -
  let ?f = "\<lambda>s (li, k). if k \<in> set (toDelete s) then s else s\<lparr>toLock := toLock s @ [li], toDelete := toDelete s @ [k]\<rparr>"
  have "toLock (foldl ?f s (map (\<lambda>x. (lock_item x [], x)) xs)) = map (\<lambda>x. lock_item x []) (toDelete (foldl ?f s (map (\<lambda>x. (lock_item x [], x)) xs))) \<and>
    set (toDelete (foldl ?f s (map (\<lambda>x. (lock_item x [], x)) xs))) = set (toDelete s) \<union> set xs" for xs
    using assms by (induction xs arbitrary: s) auto
  moreover have "zip (map (\<lambda>k. lock_item k []) xs) xs = map (\<lambda>x. (lock_item x [], x)) xs" for xs by (induction xs) auto
  ultimately show ?thesis by (simp add: txn_add_def mkAllLockItems_def Let_def)
qed

lemma txn_adds_spec:
  "let s = foldl (txn_add E) txn_reset calls in
     toLock s = map (\<lambda>x. lock_item x []) (toDelete s) \<and> set (toDelete s) = set (mkAllKeys E (concat calls))"
proof (induction calls rule: rev_induct)
  case Nil
  then show ?case by (simp add: txn_reset_def mkAllKeys_def)
next
  case (snoc ks calls)
  then show ?case using txn_add_spec [of "foldl (txn_add E) txn_reset calls" E ks] by (auto simp: Let_def mkAllKeys_def)
qed

lemma locked_ops_cmds:
  assumes "\<forall>itm \<in> set items. Q (McSet itm)" "\<forall>op \<in> set ops. Q op" "Q DsEnd" "\<forall>x. Q (McDelete x)"
  shows "all_cmds Q (locked_ops items ks ops)"
  using assms by (auto simp: locked_ops_def ds_ops_def intro!: all_cmds_each split: option.split)

lemma ds_ops_cmds:
  assumes "\<forall>op \<in> set ops. Q op" "Q DsEnd"
  shows "all_cmds Q (ds_ops ops (\<lambda>err. case err of None \<Rightarrow> Ret a | Some e \<Rightarrow> Ret (f e)))"
  using assms by (auto simp: ds_ops_def intro!: all_cmds_each split: option.split)

text \<open>The keys that a mutation locks and its operations; the order in which it releases the locks.\<close>

inductive mutates :: "cache_env \<Rightarrow> call \<Rightarrow> Key list \<Rightarrow> cmd list \<Rightarrow> bool" for E where
  put: "mutates E (CPut keys vals) keys (map2 DsPut keys vals)"
| delete: "mutates E (CDelete keys) keys (map DsDelete keys)"
| txn: "mutates E (CTxn order calls ops) (concat calls) ops"

lemma mutates_prog:
  assumes "call_ok K c" "mutates E c keys ops"
  shows "set keys \<subseteq> K" "list_all (write_ok (set keys)) ops"
    "\<exists>xs ys. set xs = set (mkAllKeys E keys) \<and> set ys = set xs \<and>
      (call_prog E c = locked_ops (map (\<lambda>x. lock_item x []) xs) ys ops \<or>
       xs = [] \<and> call_prog E c = ds_ops ops (\<lambda>err. case err of None \<Rightarrow> Ret (Inr []) | Some e \<Rightarrow> Ret (Inl e)))"
proof -
  show "set keys \<subseteq> K" using assms(2,1) by (cases rule: mutates.cases) auto
  show "list_all (write_ok (set keys)) ops"
    using assms(2,1) by (cases rule: mutates.cases) (auto simp: list_all_iff write_ok_def elim!: in_set_zipE)
  have mut: "\<exists>xs ys. set xs = set (mkAllKeys E keys) \<and> set ys = set xs \<and>
      (mutation E keys ops = locked_ops (map (\<lambda>x. lock_item x []) xs) ys ops \<or>
       xs = [] \<and> mutation E keys ops = ds_ops ops (\<lambda>err. case err of None \<Rightarrow> Ret (Inr []) | Some e \<Rightarrow> Ret (Inl e)))"
    by (rule exI [of _ "mkAllKeys E keys"], rule exI [of _ "mkAllKeys E keys"]) (simp add: mutation_def mkAllLockItems_def Let_def)
  show "\<exists>xs ys. set xs = set (mkAllKeys E keys) \<and> set ys = set xs \<and>
      (call_prog E c = locked_ops (map (\<lambda>x. lock_item x []) xs) ys ops \<or>
       xs = [] \<and> call_prog E c = ds_ops ops (\<lambda>err. case err of None \<Rightarrow> Ret (Inr []) | Some e \<Rightarrow> Ret (Inl e)))"
    using assms(2)
  proof (cases rule: mutates.cases)
    case (txn order calls)
    let ?s = "foldl (txn_add E) txn_reset calls"
    have "toLock ?s = map (\<lambda>x. lock_item x []) (toDelete ?s)" "set (toDelete ?s) = set (mkAllKeys E keys)"
      using txn_adds_spec [of E calls] txn(2) by (simp_all add: Let_def)
    moreover have "set (order (toDelete ?s)) = set (toDelete ?s)" using assms(1) txn(1) by simp
    moreover have "call_prog E c = locked_ops (toLock ?s) (order (toDelete ?s)) ops" by (simp add: txn(1) dsc_RunInTransaction_def Let_def)
    ultimately show ?thesis by metis
  qed (use mut in \<open>simp_all add: dsc_PutMulti_def dsc_DeleteMulti_def\<close>)
qed

lemma call_cases:
  obtains intn nonce keys metas where "c = CGet intn nonce keys metas" | keys ops where "mutates E c keys ops"
  by (cases c) (auto intro: mutates.intros)

text \<open>Every call does only what is permitted.\<close>

lemma call_permitted:
  assumes "call_ok K c" "after (call_prog E c) l = Some (Do cm f)"
  shows "permitted E K l cm"
proof (cases c rule: call_cases [where E = E])
  case (1 intn nonce keys metas)
  then show ?thesis using assms GetMulti_permitted [of keys K nonce intn E metas l cm f] by simp
next
  case (2 keys ops)
  note m = mutates_prog [OF assms(1) 2]
  have ops: "\<forall>op \<in> set ops. permitted E K l op" using m(2) by (fastforce simp: list_all_iff write_ok_def permitted_def split: cmd.splits)
  have rest: "permitted E K l DsEnd" "\<forall>x. permitted E K l (McDelete x)" by (simp_all add: permitted_def)
  have "\<forall>itm \<in> set (map (\<lambda>x. lock_item x []) xs). permitted E K l (McSet itm)" for xs by (auto simp: permitted_def lock_item_def)
  then have "all_cmds (permitted E K l) (call_prog E c)"
    using m(3) locked_ops_cmds [OF _ ops rest] ds_ops_cmds [OF ops rest(1)] by auto
  from after_all_cmds [OF assms(2) this] show ?thesis by simp
qed

text \<open>What the log of a mutation looks like around a write.\<close>

lemma split_past: "l1 @ e # l2 = la @ lb \<Longrightarrow> e \<notin> set la \<Longrightarrow> \<exists>l1'. l1 = la @ l1' \<and> lb = l1' @ e # l2"
  by (auto simp: append_eq_append_conv2 append_eq_Cons_conv Cons_eq_append_conv)

lemma split_before: "l1 @ e # l2 = la @ lb \<Longrightarrow> e \<notin> set lb \<Longrightarrow> \<exists>l2'. l2 = l2' @ lb"
  by (auto simp: append_eq_append_conv2 append_eq_Cons_conv Cons_eq_append_conv)

lemma quiet_cmds: "map ev_cmd l = map c xs \<Longrightarrow> \<forall>x. written (c x) = {} \<Longrightarrow> e \<in> set l \<Longrightarrow> written (ev_cmd e) = {}"
  by (metis (no_types, lifting) image_iff list.set_map)

definition locked_before :: "cache_env \<Rightarrow> event list \<Rightarrow> Key \<Rightarrow> bool" where
  "locked_before E l k \<longleftrightarrow> (\<forall>x \<in> mkeys E k. \<exists>e \<in> set l. ev_cmd e = McSet (lock_item x []) \<and> ev_resp e = McErr None)"

definition released_after :: "cache_env \<Rightarrow> event list \<Rightarrow> Key \<Rightarrow> bool" where
  "released_after E l k \<longleftrightarrow> (\<forall>x \<in> mkeys E k. \<exists>e \<in> set l. ev_cmd e = McDelete x)"

lemma locked_ops_log:
  assumes run: "after (locked_ops (map (\<lambda>x. lock_item x []) xs) ys ops) l = Some p" and ys: "set ys = set xs"
    and l: "l = l1 @ e # l2" and k: "k \<in> written (ev_cmd e)" and cover: "mkeys E k \<subseteq> set xs"
  shows "locked_before E l1 k" "p = Ret (Inr r) \<Longrightarrow> released_after E l2 k"
proof -
  let ?items = "map (\<lambda>x. lock_item x []) xs"
  obtain la lb where ab: "l = la @ lb" "map ev_cmd la = map McSet ?items"
    "after (if list_ex mc_failed (map ev_resp la) then Ret (Inl ErrStop)
       else ds_ops ops (\<lambda>err. case err of None \<Rightarrow> each McDelete ys [] (\<lambda>_. Ret (Inr [])) | Some e \<Rightarrow> Ret (Inl e))) lb = Some p"
  proof (cases rule: after_each [OF run [unfolded locked_ops_def]])
    case (1 n g)
    then have "written (ev_cmd e) = {}" using l by (intro quiet_cmds [of l McSet "take n ?items"]) simp_all
    then show ?thesis using k by simp
  next
    case (2 la lb)
    then show ?thesis using that by simp
  qed
  have "e \<notin> set la" using quiet_cmds [OF ab(2)] k by fastforce
  then obtain l1' where l1': "l1 = la @ l1'" "lb = l1' @ e # l2" using split_past [of l1 e l2 la lb] l ab(1) by auto
  then have ok: "\<not> list_ex mc_failed (map ev_resp la)" using ab(3) by (auto split: if_splits)
  show "locked_before E l1 k" unfolding locked_before_def
  proof
    fix x assume "x \<in> mkeys E k"
    then have "McSet (lock_item x []) \<in> set (map ev_cmd la)" using cover ab(2) by auto
    then obtain e' where e': "e' \<in> set la" "ev_cmd e' = McSet (lock_item x [])" by auto
    then have "\<not> mc_failed (ev_resp e')" using ok by (auto simp: list_ex_iff)
    then have "ev_resp e' = McErr None" by (auto simp: mc_failed_def split: resp.splits)
    then show "\<exists>e \<in> set l1. ev_cmd e = McSet (lock_item x []) \<and> ev_resp e = McErr None" using e' l1'(1) by auto
  qed
  assume p: "p = Ret (Inr r)"
  have a3: "after (each id ops [] (\<lambda>_. Do DsEnd (\<lambda>r. case ds_end r of None \<Rightarrow> each McDelete ys [] (\<lambda>_. Ret (Inr [])) | Some e \<Rightarrow> Ret (Inl e)))) lb = Some (Ret (Inr r))"
    using ab(3) ok p by (simp add: ds_ops_def)
  from after_each_ex [OF this] obtain lo lr where lo: "lb = lo @ lr"
    "after (Do DsEnd (\<lambda>r. case ds_end r of None \<Rightarrow> each McDelete ys [] (\<lambda>_. Ret (Inr [])) | Some e \<Rightarrow> Ret (Inl e))) lr = Some (Ret (Inr r))" by auto
  obtain e1 ld where e1: "lr = e1 # ld" "ev_cmd e1 = DsEnd"
    "after (case ds_end (ev_resp e1) of None \<Rightarrow> each McDelete ys [] (\<lambda>_. Ret (Inr [])) | Some e \<Rightarrow> Ret (Inl e)) ld = Some (Ret (Inr r))"
    by (cases rule: after_Do [OF lo(2)]) auto
  then have "after (each McDelete ys [] (\<lambda>_. Ret (Inr [] :: call_result))) ld = Some (Ret (Inr r))" by (cases "ds_end (ev_resp e1)") auto
  from after_each_ex [OF this] have ld: "map ev_cmd ld = map McDelete ys" by auto
  have "e \<notin> set ld" using quiet_cmds [OF ld] k by fastforce
  moreover have "l1 @ e # l2 = (la @ lo @ [e1]) @ ld" using l ab(1) lo(1) e1(1) by simp
  ultimately obtain l2' where l2': "l2 = l2' @ ld" using split_before [of l1 e l2 "la @ lo @ [e1]" ld] by blast
  show "released_after E l2 k" unfolding released_after_def
  proof
    fix x assume "x \<in> mkeys E k"
    then have "McDelete x \<in> set (map ev_cmd ld)" unfolding ld using cover ys by auto
    then show "\<exists>e \<in> set l2. ev_cmd e = McDelete x" unfolding l2' by auto
  qed
qed

lemma write_ok_written: "write_ok K c \<Longrightarrow> written c \<subseteq> K"
  by (cases c) (simp_all add: write_ok_def)

lemma log_cmds: "after p l = Some q \<Longrightarrow> all_cmds Q p \<Longrightarrow> e \<in> set l \<Longrightarrow> Q (ev_cmd e)"
  by (induction p l rule: after.induct) (auto split: if_splits)

lemma GetMulti_reads_only: "all_cmds (\<lambda>cm. written cm = {}) (dsc_GetMulti E intn nonce keys metas)"
  by (auto simp: dsc_GetMulti_def Let_def intro!: all_cmds_each split: option.split prod.split)

lemma call_log:
  assumes ok: "call_ok K c" "\<forall>k \<in> K. Key_IsIncomplete k = Some False" and run: "after (call_prog E c) l = Some p"
    and l: "l = l1 @ e # l2" and k: "k \<in> written (ev_cmd e)"
  shows "locked_before E l1 k \<and> (\<forall>r. p = Ret (Inr r) \<longrightarrow> released_after E l2 k)"
proof -
  have e: "e \<in> set l" using l by simp
  show ?thesis
  proof (cases c rule: call_cases [where E = E])
    case (1 intn nonce keys metas)
    then show ?thesis using log_cmds [OF run _ e, of "\<lambda>cm. written cm = {}"] GetMulti_reads_only k by auto
  next
    case (2 keys ops)
    note m = mutates_prog [OF ok(1) 2]
    have ops: "\<forall>op \<in> set ops. written op \<subseteq> set keys" using m(2) write_ok_written unfolding list_all_iff by blast
    obtain xs ys where xs: "set xs = set (mkAllKeys E keys)" "set ys = set xs"
      "call_prog E c = locked_ops (map (\<lambda>x. lock_item x []) xs) ys ops \<or>
       xs = [] \<and> call_prog E c = ds_ops ops (\<lambda>err. case err of None \<Rightarrow> Ret (Inr []) | Some e \<Rightarrow> Ret (Inl e))" using m(3) by blast
    have "all_cmds (\<lambda>cm. written cm \<subseteq> set keys) (call_prog E c)"
      using xs(3) locked_ops_cmds [OF _ ops] ds_ops_cmds [OF ops] by auto
    then have "k \<in> set keys" using log_cmds [OF run _ e] k by blast
    then have cover: "mkeys E k \<subseteq> set xs" using set_mkAllKeys [of keys E] m(1) ok(2) xs(1) by blast
    from xs(3) show ?thesis
    proof
      assume "call_prog E c = locked_ops (map (\<lambda>x. lock_item x []) xs) ys ops"
      then show ?thesis using locked_ops_log [OF _ xs(2) l k cover] run by auto
    next
      assume "xs = [] \<and> call_prog E c = ds_ops ops (\<lambda>err. case err of None \<Rightarrow> Ret (Inr []) | Some e \<Rightarrow> Ret (Inl e))"
      then show ?thesis using cover by (simp add: locked_before_def released_after_def)
    qed
  qed
qed

section \<open>Values\<close>

text \<open>The entity as the cache returns it: no metadata, and the keys among the property values in the cache's context.\<close>

definition cached_form :: "cache_env \<Rightarrow> PropertyMap \<Rightarrow> string \<rightharpoonup> PropertyData" where
  "cached_form E pm = (\<lambda>n. map_option (recontext_data WithoutContext WithoutContext (c_kc E)) (map_of (pm_Save pm False) n))"

definition cache_env_ok :: "cache_env \<Rightarrow> bool" where
  "cache_env_ok E \<longleftrightarrow> cmpbin_ok (c_cmpbin E) \<and> (\<forall>d. c_unzlib E (c_zlib E d) = Some d)"

lemma pm_Save_idem: "pm_Save (pm_Save pm False) False = pm_Save pm False"
  by (simp add: pm_Save_eq)

lemma decode_encode:
  assumes "cache_env_ok E" "putable pm"
  shows "\<exists>v pm'. encodeItemValue E pm = Some v \<and> decodeItemValue E v = DecEntity pm' \<and> map_of pm' = cached_form E pm"
proof -
  have C: "cmpbin_ok (c_cmpbin E)" "\<And>d. c_unzlib E (c_zlib E d) = Some d" using assms(1) by (simp_all add: cache_env_ok_def)
  have "pm_storable (pm_Save pm False)" using assms(2) by (auto simp: putable_def pm_storable_def pm_Save_idem pm_wf_def pm_Save_eq distinct_map_filter)
  from ReadPropertyMap_Write [OF C(1) this, of "c_det E" WithoutContext WithoutContext "c_kc E" "[]"]
  obtain bs pm' where w: "WritePropertyMap (c_cmpbin E) (c_det E) WithoutContext (pm_Save pm False) = Some bs"
    "ReadPropertyMap (c_cmpbin E) WithoutContext (c_kc E) bs = Inr (pm', [])" "map_of pm' = cached_form E pm"
    by (auto simp: cached_form_def pm_Save_idem)
  have "\<exists>v. encodeItemValue E pm = Some v \<and> decodeItemValue E v = DecEntity pm'"
    using w(1,2) C(2) by (auto simp: encodeItemValue_def decodeItemValue_def Let_def)
  then show ?thesis using w(3) by blast
qed

text \<open>What an entry with data means.\<close>

definition value_of :: "cache_env \<Rightarrow> decoded \<Rightarrow> PropertyMap option \<Rightarrow> bool" where
  "value_of E d v = (case v of None \<Rightarrow> d = DecNoEntity | Some pm \<Rightarrow> \<exists>pm'. d = DecEntity pm' \<and> map_of pm' = cached_form E pm)"

lemma value_of_data:
  assumes "cache_env_ok E" "\<forall>k pm. sh_ds s k = Some pm \<longrightarrow> putable pm"
  shows "value_of E (decodeItemValue E (data_of E s k)) (sh_ds s k)"
proof (cases "sh_ds s k")
  case None
  then show ?thesis by (simp add: value_of_def data_of_def decodeItemValue_def)
next
  case (Some pm)
  then show ?thesis using decode_encode [OF assms(1), of pm] assms(2) by (auto simp: value_of_def data_of_def)
qed

text \<open>Where the result of a read comes from: what the datastore held at the event, or an exposed entry.\<close>

definition current_at :: "cache_env \<Rightarrow> event \<Rightarrow> Key \<Rightarrow> rierror + PropertyMap \<Rightarrow> bool" where
  "current_at E e k r \<longleftrightarrow>
     (case r of
        Inl err \<Rightarrow> sh_ds (ev_at e) k = None
      | Inr pm \<Rightarrow> \<exists>pm0. sh_ds (ev_at e) k = Some pm0 \<and> (pm = pm0 \<or> map_of pm = cached_form E pm0)) \<or>
     (\<exists>x \<in> mkeys E k. ev_cmd e = McGet x \<and> x \<in> ev_exposed e)"

lemma current_from_ds:
  assumes "event_ok E K e" "from_ds e k r"
  shows "(\<exists>err. r = Inl err \<and> err \<noteq> NoSuchEntity) \<or> current_at E e k r"
proof -
  have ds: "ev_cmd e = DsGet k" "ds_result (ev_resp e) = r" using assms(2) by (simp_all add: from_ds_def)
  show ?thesis
  proof (cases "ev_resp e")
    case (DsItem y)
    then have "case y of Inr pm \<Rightarrow> sh_ds (ev_at e) k = Some pm | Inl err \<Rightarrow> err = NoSuchEntity \<longrightarrow> sh_ds (ev_at e) k = None"
      using assms(1) ds(1) by (simp add: event_ok_def)
    moreover have "r = y" using ds(2) DsItem by (simp add: ds_result_def)
    ultimately show ?thesis by (cases y) (auto simp: current_at_def)
  qed (use ds(2) [symmetric] in \<open>simp_all add: ds_result_def\<close>)
qed

lemma current_from_cache:
  assumes "cache_env_ok E" "event_ok E K e" "k \<in> K" "from_cache E e k r"
  shows "current_at E e k r"
proof -
  obtain y it where y: "y \<in> mkeys E k" "ev_cmd e = McGet y" "ev_resp e = McItem (Inr it)" "it_flags it = ItemHasData"
    "case r of Inl err \<Rightarrow> err = NoSuchEntity \<and> decodeItemValue E (it_value it) = DecNoEntity
      | Inr pm \<Rightarrow> decodeItemValue E (it_value it) = DecEntity pm" using assms(4) by (auto simp: from_cache_def)
  have "it_flags it \<noteq> ItemHasLock" using y(4) by (simp add: ItemHasData_def ItemHasLock_def)
  then have "it_value it = data_of E (ev_at e) k \<or> y \<in> ev_exposed e" using assms(2,3) y(1-3) unfolding event_ok_def by blast
  moreover have "value_of E (decodeItemValue E (data_of E (ev_at e) k)) (sh_ds (ev_at e) k)"
    by (rule value_of_data [OF assms(1)]) (use assms(2) in \<open>simp add: event_ok_def\<close>)
  ultimately show ?thesis using y(1,2,5) unfolding current_at_def by (fastforce simp: value_of_def split: sum.splits option.splits)
qed

lemma reachable_inv:
  assumes "keys_ok E K" "cache_reachable E K S"
  shows "cache_inv E K S"
proof -
  obtain D where D: "\<forall>k pm. D k = Some pm \<longrightarrow> putable pm" "(cache_step E K)\<^sup>*\<^sup>* (cache_init D) S" using assms(2) by (auto simp: cache_reachable_def)
  from D(2) show ?thesis
  proof (induction rule: rtranclp_induct)
    case base
    then show ?case using D(1) by (simp add: cache_inv_def cache_init_def entries_ok_def)
  next
    case (step S1 S2)
    then show ?case using cache_step_inv [OF step(2,3)] call_permitted assms(1) by (auto simp: keys_ok_def)
  qed
qed

section \<open>A run\<close>

text \<open>A datastore with one entity, and a read of it through the empty cache.\<close>

definition ex_cache :: cache_env where
  "ex_cache = \<lparr>c_cmpbin = simple_cmpbin, c_det = False, c_kc = MkKeyContext ''app'' ''n'', c_sha1 = (\<lambda>_. []), c_zlib = id, c_unzlib = Some,
     shardsForKey = []\<rparr>"

abbreviation ex_x :: string where "ex_x \<equiv> ''gae:1:0:''"
abbreviation ex_nonce :: "byte list" where "ex_nonce \<equiv> replicate 8 1"
abbreviation ex_metas :: "nat \<Rightarrow> cache_meta" where "ex_metas \<equiv> \<lambda>_. \<lparr>CacheEnableMeta = None, CacheExpirationMeta = None\<rparr>"
abbreviation ex_get :: call where "ex_get \<equiv> CGet (\<lambda>_ _. 0) ex_nonce [ex_key ''n''] ex_metas"

lemma ex_cache_ok: "cache_env_ok ex_cache" "keys_ok ex_cache {ex_key ''n''}" "call_ok {ex_key ''n''} ex_get"
  by (simp_all add: cache_env_ok_def ex_cache_def simple_cmpbin_ok keys_ok_def NonceBytes_def Key_IsIncomplete_def ex_key_def LastTok_def mkTok_def KeyTok_IsIncomplete_def)

lemma ex_shard: "numShards ex_cache k = 1" "MakeMemcacheKey ex_cache 0 k = ex_x" "mkeys ex_cache k = {ex_x}"
proof -
  show n: "numShards ex_cache k = 1" by (simp add: numShards_def ex_cache_def DefaultShards_def MaxShards_def)
  show m: "MakeMemcacheKey ex_cache 0 k = ex_x"
    by (simp add: MakeMemcacheKey_def memcache_key_def HashKey_def ex_cache_def b64_std_def hex.simps [of 0])
  have "{..<Suc 0} = {0 :: nat}" by auto
  then show "mkeys ex_cache k = {ex_x}" by (simp add: mkeys_def n m)
qed

lemma run_one:
  assumes "(cache_step E K)\<^sup>*\<^sup>* S0 S" "sy_calls S = [(c, l, Do cm f)]"
    and "exec (sy_shared S) cm r s'" "no_wrap (sh_mc (sy_shared S))"
  shows "\<exists>S' e. (cache_step E K)\<^sup>*\<^sup>* S0 S' \<and> sy_shared S' = s' \<and> (sy_exposed S = {} \<and> written cm = {} \<longrightarrow> sy_exposed S' = {}) \<and>
    sy_calls S' = [(c, l @ [e], f r)] \<and> ev_cmd e = cm \<and> ev_resp e = r"
proof -
  let ?e = "\<lparr>ev_cmd = cm, ev_resp = r, ev_at = sy_shared S, ev_exposed = sy_exposed S\<rparr>"
  let ?S = "do_event E S cm r s' 0 (c, l @ [?e], f r)"
  have "cache_step E K S ?S" using assms(2-4) by (intro cache_step.run) simp_all
  with assms(1) have "(cache_step E K)\<^sup>*\<^sup>* S0 ?S" by (rule rtranclp.rtrancl_into_rtrancl)
  moreover have "sy_exposed S = {} \<and> written cm = {} \<longrightarrow> sy_exposed ?S = {}" by (simp add: do_event_def expose_def)
  ultimately show ?thesis using assms(2) by (intro exI [of _ ?S] exI [of _ ?e]) (simp add: do_event_def)
qed

lemma ex_bytes: "\<exists>v. encodeItemValue ex_cache ex_pm = Some v \<and> length v \<le> 1000"
  by (simp add: encodeItemValue_def ex_cache_def WritePropertyMap_def write_row_def WriteProperty_def writePropertyImpl_def IndexTypeAndValue_def
      ex_pm_def pm_Save_eq isMetaKey_def Let_def Property_Type_def Property_Value_def writeIndexValue_def simple_cmpbin_def enc_bytes_def length_enc_nat CompressionThreshold_def)

definition ex_rest :: "resp \<Rightarrow> call_result prog" where
  "ex_rest g =
     (let p = makeFetchPlan ex_cache ex_nonce [ex_key ''n''] (got_items [Some (lock_item ex_x ex_nonce)] [g]) in
      if idxMap p = [] then Ret (Inr (plan_results p))
      else each DsGet (toGet p) [] (\<lambda>rs. Do DsEnd (\<lambda>r.
         case ds_end r of
           Some err \<Rightarrow> Ret (Inl err)
         | None \<Rightarrow> (case fetched ex_cache ex_metas p (zip (idxMap p) (zip (toSave p) rs)) [] of (p, toCas) \<Rightarrow>
             each McCAS toCas [] (\<lambda>_. Ret (Inr (plan_results p)))))))"

lemma ex_prog:
  "dsc_GetMulti ex_cache (\<lambda>_ _. 0) ex_nonce [ex_key ''n''] ex_metas = Do (McAdd (lock_item ex_x ex_nonce)) (\<lambda>_. Do (McGet ex_x) ex_rest)"
proof -
  have "mkRandLockItems ex_cache (\<lambda>_ _. 0) ex_nonce [ex_key ''n''] ex_metas = [Some (lock_item ex_x ex_nonce)]"
    by (simp add: mkRandLockItems_def mkRandKeys_def meta_default_def ex_shard Let_def)
  moreover have "it_key (lock_item ex_x ex_nonce) = ex_x" by (simp add: lock_item_def NewItem_def)
  ultimately show ?thesis by (simp add: dsc_GetMulti_def Let_def ex_rest_def [abs_def] del: got_items.simps)
qed

text \<open>The item that holds the lock of the call, and the item that is swapped in.\<close>

definition ex_item :: mcItem where
  "ex_item = \<lparr>it_key = ex_x, it_value = ex_nonce, it_flags = ItemHasLock, it_expiration = 0, it_CasID = 1\<rparr>"

definition ex_data :: "byte list \<Rightarrow> mcItem" where
  "ex_data v = ex_item\<lparr>it_flags := ItemHasData, it_expiration := CacheTimeSeconds * 1000000000, it_value := v\<rparr>"

lemma ex_rest_item:
  assumes "encodeItemValue ex_cache ex_pm = Some v" "length v \<le> 1000"
  shows "\<exists>f g. ex_rest (McItem (Inr ex_item)) = Do (DsGet (ex_key ''n'')) f \<and> f (DsItem (Inr ex_pm)) = Do DsEnd g \<and>
    g (DsErr None) = Do (McCAS (ex_data v)) (\<lambda>_. Ret (Inr [Inr ex_pm]))"
proof -
  have save: "save_item ex_cache (ex_metas 0) ex_item (Inr ex_pm) = Some (ex_data v)"
    using assms by (simp add: save_item_def ex_data_def meta_default_def ValueSizeLimit_def)
  have got: "got_items [Some (lock_item ex_x ex_nonce)] [McItem (Inr ex_item)] = [Some ex_item]"
    by (simp add: SetAll_def ex_item_def lock_item_def NewItem_def)
  have "makeFetchPlan ex_cache ex_nonce [ex_key ''n''] [Some ex_item] =
      \<lparr>idxMap = [0], toGet = [ex_key ''n''], toSave = [Some ex_item], p_decoded = [None], p_lme = [None]\<rparr>"
    by (simp add: makeFetchPlan_def plan_item_def plan_add_def ex_item_def)
  then have "ex_rest (McItem (Inr ex_item)) = Do (DsGet (ex_key ''n'')) (\<lambda>r. Do DsEnd (\<lambda>r'.
      case ds_end r' of Some err \<Rightarrow> Ret (Inl err)
      | None \<Rightarrow> (case fetched ex_cache ex_metas \<lparr>idxMap = [0], toGet = [ex_key ''n''], toSave = [Some ex_item], p_decoded = [None], p_lme = [None]\<rparr>
          [(0, Some ex_item, r)] [] of (p, toCas) \<Rightarrow> each McCAS toCas [] (\<lambda>_. Ret (Inr (plan_results p))))))"
    unfolding ex_rest_def got by (simp add: Let_def cong: option.case_cong)
  then show ?thesis using save by (simp add: ds_end_def ds_result_def plan_results_def)
qed

lemma ex_not_expired: "\<not> expired zero_time \<lparr>d_value = v, d_flags = f, d_expiration = time_Truncate 1000000000 (time_Add zero_time 31000000000), d_casID = i\<rparr>"
  by (simp add: expired_def time_Before_def time_Truncate_def time_Add_def zero_time_def)

lemma ex_memcache:
  fixes v :: "byte list"
  defines "m0 \<equiv> \<lparr>mc_items = [], mc_casID = 0, mc_stats = zero_stats\<rparr>"
  shows "\<exists>m1 m2 m3 d. mc_Add zero_time (lock_item ex_x ex_nonce) m0 = (None, m1) \<and> no_wrap m1 \<and>
    mc_Get zero_time ex_x m1 = (Inr ex_item, m2) \<and> no_wrap m2 \<and> mc_CompareAndSwap zero_time (ex_data v) m2 = (None, m3) \<and>
    entry m3 ex_x = Some d \<and> d_flags d = ItemHasData \<and> d_value d = v"
proof -
  define d where "d = \<lparr>d_value = ex_nonce, d_flags = ItemHasLock, d_expiration = time_Truncate 1000000000 (time_Add zero_time 31000000000), d_casID = 1\<rparr>"
  obtain m1 where m1: "mc_Add zero_time (lock_item ex_x ex_nonce) m0 = (None, m1)" "mc_items m1 = [(ex_x, d)]" "mc_casID m1 = 1"
    by (simp add: m0_def mc_Add_def hasItemLocked_def setItemLocked_def mkDataItemLocked_def lock_item_def NewItem_def LockTimeSeconds_def Let_def d_def)
  have live: "\<not> expired zero_time d" unfolding d_def by (rule ex_not_expired)
  obtain m2 where m2: "mc_Get zero_time ex_x m1 = (Inr ex_item, m2)" "mc_items m2 = [(ex_x, d)]" "mc_casID m2 = 1"
    using m1(2,3) live by (simp add: mc_Get_def retrieveLocked_def hasItemLocked_def toUserItem_def ex_item_def d_def)
  obtain m3 d' where "mc_CompareAndSwap zero_time (ex_data v) m2 = (None, m3)" "entry m3 ex_x = Some d'" "d_flags d' = ItemHasData" "d_value d' = v"
    using m2(2,3) live
    by (simp add: mc_CompareAndSwap_def retrieveLocked_def hasItemLocked_def ex_data_def ex_item_def d_def setItemLocked_def mkDataItemLocked_def Let_def)
  then show ?thesis using m1 m2 by (auto simp: no_wrap_def)
qed

text \<open>The read has returned the entity and left it in the cache.\<close>

lemma ex_run:
  obtains S log d where "cache_reachable ex_cache {ex_key ''n''} S" "sy_calls S = [(ex_get, log, Ret (Inr [Inr ex_pm]))]" "sy_exposed S = {}"
    "entry (sh_mc (sy_shared S)) ex_x = Some d" "d_flags d = ItemHasData" "sh_ds (sy_shared S) (ex_key ''n'') = Some ex_pm"
proof -
  let ?E = ex_cache and ?k = "ex_key ''n''" and ?D = "[ex_key ''n'' \<mapsto> ex_pm]"
  obtain v where v: "encodeItemValue ex_cache ex_pm = Some v" "length v \<le> 1000" using ex_bytes by blast
  obtain f g where p: "ex_rest (McItem (Inr ex_item)) = Do (DsGet ?k) f" "f (DsItem (Inr ex_pm)) = Do DsEnd g"
    "g (DsErr None) = Do (McCAS (ex_data v)) (\<lambda>_. Ret (Inr [Inr ex_pm]))" using ex_rest_item [OF v] by blast
  let ?m0 = "\<lparr>mc_items = [], mc_casID = 0, mc_stats = zero_stats\<rparr>"
  obtain m1 m2 m3 d where m: "mc_Add zero_time (lock_item ex_x ex_nonce) ?m0 = (None, m1)" "no_wrap m1"
    "mc_Get zero_time ex_x m1 = (Inr ex_item, m2)" "no_wrap m2" "mc_CompareAndSwap zero_time (ex_data v) m2 = (None, m3)"
    "entry m3 ex_x = Some d" "d_flags d = ItemHasData" using ex_memcache [of v] by blast
  let ?S0 = "cache_init ?D" and ?step = "cache_step ?E {?k}"
  define S1 where "S1 = ?S0\<lparr>sy_calls := [(ex_get, [], call_prog ?E ex_get)]\<rparr>"
  have "?step ?S0 (?S0\<lparr>sy_calls := sy_calls ?S0 @ [(ex_get, [], call_prog ?E ex_get)]\<rparr>)" by (rule cache_step.start [OF ex_cache_ok(3)])
  then have S1: "?step\<^sup>*\<^sup>* ?S0 S1" "sy_shared S1 = \<lparr>sh_mc = ?m0, sh_ds = ?D\<rparr>" "sy_exposed S1 = {}"
    "sy_calls S1 = [(ex_get, [], Do (McAdd (lock_item ex_x ex_nonce)) (\<lambda>_. Do (McGet ex_x) ex_rest))]"
    by (simp_all add: S1_def cache_init_def ex_prog r_into_rtranclp)
  have "exec (sy_shared S1) (McAdd (lock_item ex_x ex_nonce)) (McErr None) ((sy_shared S1)\<lparr>sh_mc := m1\<rparr>)" using m(1) S1(2) by (intro exec.add) simp
  from run_one [OF S1(1,4) this] obtain S2 e2 where S2: "?step\<^sup>*\<^sup>* ?S0 S2" "sy_shared S2 = \<lparr>sh_mc = m1, sh_ds = ?D\<rparr>" "sy_exposed S2 = {}" "sy_calls S2 = [(ex_get, [] @ [e2], Do (McGet ex_x) ex_rest)]"
    using S1(3) S1(2) by (auto simp: no_wrap_def)
  have "exec (sy_shared S2) (McGet ex_x) (McItem (Inr ex_item)) ((sy_shared S2)\<lparr>sh_mc := m2\<rparr>)" using m(3) S2(2) by (intro exec.get) simp
  from run_one [OF S2(1,4) this] obtain S3 e3 where S3: "?step\<^sup>*\<^sup>* ?S0 S3" "sy_shared S3 = \<lparr>sh_mc = m2, sh_ds = ?D\<rparr>" "sy_exposed S3 = {}" "sy_calls S3 = [(ex_get, ([] @ [e2]) @ [e3], Do (DsGet ?k) f)]"
    using S2(3) S2(2) m(2) p(1) by auto
  have "exec (sy_shared S3) (DsGet ?k) (DsItem (Inr ex_pm)) (sy_shared S3)" using exec.ds_get [of "sy_shared S3" ?k] S3(2) by simp
  from run_one [OF S3(1,4) this] obtain S4 e4 where S4: "?step\<^sup>*\<^sup>* ?S0 S4" "sy_shared S4 = \<lparr>sh_mc = m2, sh_ds = ?D\<rparr>" "sy_exposed S4 = {}" "sy_calls S4 = [(ex_get, (([] @ [e2]) @ [e3]) @ [e4], Do DsEnd g)]"
    using S3(3) S3(2) m(4) p(2) by auto
  have "exec (sy_shared S4) DsEnd (DsErr None) (sy_shared S4)" by (rule exec.ds_end)
  from run_one [OF S4(1,4) this] obtain S5 e5 where S5: "?step\<^sup>*\<^sup>* ?S0 S5" "sy_shared S5 = \<lparr>sh_mc = m2, sh_ds = ?D\<rparr>" "sy_exposed S5 = {}"
    "sy_calls S5 = [(ex_get, ((([] @ [e2]) @ [e3]) @ [e4]) @ [e5], Do (McCAS (ex_data v)) (\<lambda>_. Ret (Inr [Inr ex_pm])))]"
    using S4(3) S4(2) m(4) p(3) by auto
  have "exec (sy_shared S5) (McCAS (ex_data v)) (McErr None) ((sy_shared S5)\<lparr>sh_mc := m3\<rparr>)" using m(5) S5(2) by (intro exec.cas) simp
  from run_one [OF S5(1,4) this] obtain S6 e6 where S6: "?step\<^sup>*\<^sup>* ?S0 S6" "sy_shared S6 = \<lparr>sh_mc = m3, sh_ds = ?D\<rparr>" "sy_exposed S6 = {}"
    "sy_calls S6 = [(ex_get, (((([] @ [e2]) @ [e3]) @ [e4]) @ [e5]) @ [e6], Ret (Inr [Inr ex_pm]))]"
    using S5(3) S5(2) m(4) by auto
  have "cache_reachable ?E {?k} S6" unfolding cache_reachable_def using S6(1) ex_ok(3) by (intro exI [of _ ?D]) auto
  then show ?thesis using that [OF _ S6(4,3)] S6(2) m(6,7) by simp
qed

text \<open>A delete, up to its end.\<close>

lemma ex_delete:
  obtains S e1 e2 e3 e4 where "cache_reachable ex_cache {ex_key ''n''} S"
    "sy_calls S = [(CDelete [ex_key ''n''], [e1, e2, e3, e4], Ret (Inr []))]" "ev_cmd e2 = DsDelete (ex_key ''n'')"
proof -
  let ?k = "ex_key ''n''" and ?c = "CDelete [ex_key ''n'']" and ?D = "[ex_key ''n'' \<mapsto> ex_pm]"
  let ?m0 = "\<lparr>mc_items = [], mc_casID = 0, mc_stats = zero_stats\<rparr>" and ?lk = "lock_item ex_x []"
  have inc: "Key_IsIncomplete ?k = Some False" using ex_cache_ok(2) by (simp add: keys_ok_def)
  have all: "mkAllKeys ex_cache [?k] = [ex_x]" using inc ex_shard(2) [of ?k] by (simp add: mkAllKeys_def ex_shard(1) MakeMemcacheKey_def)
  let ?fin = "\<lambda>r. case ds_end r of None \<Rightarrow> Do (McDelete ex_x) (\<lambda>_. Ret (Inr [])) | Some e \<Rightarrow> Ret (Inl e)"
  have p: "call_prog ex_cache ?c = Do (McSet ?lk) (\<lambda>r. if mc_failed r then Ret (Inl ErrStop) else Do (DsDelete ?k) (\<lambda>_. Do DsEnd ?fin))"
    by (simp add: dsc_DeleteMulti_def mutation_def mkAllLockItems_def all locked_ops_def ds_ops_def cong: if_cong option.case_cong)
  let ?S0 = "cache_init ?D" and ?step = "cache_step ex_cache {?k}"
  obtain m1 where m1: "mc_Set zero_time ?lk ?m0 = (None, m1)" "mc_casID m1 = 1"
    by (simp add: mc_Set_def setItemLocked_def mkDataItemLocked_def Let_def)
  obtain e m2 where m2: "mc_Delete zero_time ex_x m1 = (e, m2)" by fastforce
  define S1 where "S1 = ?S0\<lparr>sy_calls := [(?c, [], call_prog ex_cache ?c)]\<rparr>"
  have "?step ?S0 (?S0\<lparr>sy_calls := sy_calls ?S0 @ [(?c, [], call_prog ex_cache ?c)]\<rparr>)" by (rule cache_step.start) simp
  then have S1: "?step\<^sup>*\<^sup>* ?S0 S1" "sy_shared S1 = \<lparr>sh_mc = ?m0, sh_ds = ?D\<rparr>" "sy_calls S1 = [(?c, [], call_prog ex_cache ?c)]"
    by (simp_all add: S1_def cache_init_def r_into_rtranclp)
  have "exec (sy_shared S1) (McSet ?lk) (McErr None) ((sy_shared S1)\<lparr>sh_mc := m1\<rparr>)" using m1(1) S1(2) by (intro exec.set) simp
  from run_one [OF S1(1) S1(3) [unfolded p] this] obtain S2 e1 where S2: "?step\<^sup>*\<^sup>* ?S0 S2" "sy_shared S2 = \<lparr>sh_mc = m1, sh_ds = ?D\<rparr>"
    "sy_calls S2 = [(?c, [] @ [e1], Do (DsDelete ?k) (\<lambda>_. Do DsEnd ?fin))]" using S1(2) by (auto simp: no_wrap_def mc_failed_def)
  have "exec (sy_shared S2) (DsDelete ?k) (DsErr None) ((sy_shared S2)\<lparr>sh_ds := (sh_ds (sy_shared S2))(?k := None)\<rparr>)" by (rule exec.ds_delete)
  from run_one [OF S2(1,3) this] obtain S3 e2 where S3: "?step\<^sup>*\<^sup>* ?S0 S3" "sh_mc (sy_shared S3) = m1" "ev_cmd e2 = DsDelete ?k"
    "sy_calls S3 = [(?c, ([] @ [e1]) @ [e2], Do DsEnd ?fin)]" using S2(2) m1(2) by (auto simp: no_wrap_def)
  have "exec (sy_shared S3) DsEnd (DsErr None) (sy_shared S3)" by (rule exec.ds_end)
  from run_one [OF S3(1,4) this] obtain S4 e3 where S4: "?step\<^sup>*\<^sup>* ?S0 S4" "sh_mc (sy_shared S4) = m1"
    "sy_calls S4 = [(?c, (([] @ [e1]) @ [e2]) @ [e3], Do (McDelete ex_x) (\<lambda>_. Ret (Inr [])))]" using S3(2) m1(2) by (fastforce simp: no_wrap_def ds_end_def)
  have "exec (sy_shared S4) (McDelete ex_x) (McErr e) ((sy_shared S4)\<lparr>sh_mc := m2\<rparr>)" using m2 S4(2) by (intro exec.delete) simp
  from run_one [OF S4(1,3) this] obtain S5 e4 where S5: "?step\<^sup>*\<^sup>* ?S0 S5" "sy_calls S5 = [(?c, ((([] @ [e1]) @ [e2]) @ [e3]) @ [e4], Ret (Inr []))]"
    using S4(2) m1(2) by (auto simp: no_wrap_def)
  have "cache_reachable ex_cache {?k} S5" unfolding cache_reachable_def using S5(1) ex_ok(3) by (intro exI [of _ ?D]) auto
  then show ?thesis using that [OF _ _ S3(3)] S5(2) by simp
qed

section \<open>Properties\<close>

text \<open>
  Mutations hold their locks. In every reachable state and for every call, finished or not: when it put or deleted an entity (also in the commit of a
  transaction), it had before that set its lock under every memcache key of the entity, and memcache had accepted each; and if the call has
  returned without an error, it has since deleted every one of these keys.
\<close>

theorem dscache_lock_protocol:
  assumes "keys_ok E K" "cache_reachable E K S" "(c, log, p) \<in> set (sy_calls S)"
    and "log = l1 @ e # l2" "ev_cmd e = DsPut k pm \<or> ev_cmd e = DsDelete k"
  shows "(\<forall>x \<in> mkeys E k. \<exists>e' \<in> set l1. ev_cmd e' = McSet (lock_item x []) \<and> ev_resp e' = McErr None) \<and>
    (\<forall>r. p = Ret (Inr r) \<longrightarrow> (\<forall>x \<in> mkeys E k. \<exists>e' \<in> set l2. ev_cmd e' = McDelete x))"
proof -
  have "call_inv E K (sy_shared S) (sy_exposed S) (c, log, p)"
    using reachable_inv [OF assms(1,2)] assms(3) by (auto simp: cache_inv_def list_all_iff)
  then have "call_ok K c" "after (call_prog E c) log = Some p" by (simp_all add: call_inv_def)
  moreover have "\<forall>k \<in> K. Key_IsIncomplete k = Some False" using assms(1) by (simp add: keys_ok_def)
  moreover have "k \<in> written (ev_cmd e)" using assms(5) by auto
  ultimately show ?thesis using call_log [of K c E log p l1 e l2 k] assms(4) unfolding locked_before_def released_after_def by blast
qed

theorem dscache_lock_protocol_witness:
  "\<exists>S e1 e2 e3 e4. cache_reachable ex_cache {ex_key ''n''} S \<and>
     sy_calls S = [(CDelete [ex_key ''n''], [e1, e2, e3, e4], Ret (Inr []))] \<and> ev_cmd e2 = DsDelete (ex_key ''n'') \<and>
     ev_cmd e1 = McSet (lock_item ex_x []) \<and> ev_resp e1 = McErr None \<and> (ev_cmd e3 = McDelete ex_x \<or> ev_cmd e4 = McDelete ex_x)"
proof -
  obtain S e1 e2 e3 e4 where S: "cache_reachable ex_cache {ex_key ''n''} S"
    "sy_calls S = [(CDelete [ex_key ''n''], [e1, e2, e3, e4], Ret (Inr []))]" "ev_cmd e2 = DsDelete (ex_key ''n'')" by (rule ex_delete)
  have mem: "(CDelete [ex_key ''n''], [e1, e2, e3, e4], Ret (Inr [])) \<in> set (sy_calls S)" using S(2) by simp
  have log: "[e1, e2, e3, e4] = [e1] @ e2 # [e3, e4]" by simp
  have cmd: "ev_cmd e2 = DsPut (ex_key ''n'') [] \<or> ev_cmd e2 = DsDelete (ex_key ''n'')" using S(3) by simp
  from dscache_lock_protocol [OF ex_cache_ok(2) S(1) mem log cmd]
  have "ev_cmd e1 = McSet (lock_item ex_x []) \<and> ev_resp e1 = McErr None \<and> (ev_cmd e3 = McDelete ex_x \<or> ev_cmd e4 = McDelete ex_x)"
    unfolding ex_shard by simp
  then show ?thesis using S by (intro exI [of _ S] exI [of _ e1] exI [of _ e2] exI [of _ e3] exI [of _ e4] conjI) simp_all
qed



text \<open>
  C12. A read through the cache returns what the datastore had. Under the same conditions, whatever runs concurrently: when \<^verbatim>\<open>GetMulti\<close> of the filter
  has returned, there is a result for each key, and unless the datastore failed for the key, the result is the entity (as the datastore returned it, or in its cached
  form), or its absence, that the datastore held at the moment of one of the operations of this very call, or it was read
  from an entry that was exposed then.
\<close>

theorem dscache_reads_current:
  assumes "cache_env_ok E" "keys_ok E K" "cache_reachable E K S"
    and "(CGet intn nonce keys metas, log, Ret (Inr rs)) \<in> set (sy_calls S)"
  shows "length rs = length keys \<and> (\<forall>i < length keys. (\<exists>err. rs ! i = Inl err \<and> err \<noteq> NoSuchEntity) \<or>
    (\<exists>e \<in> set log.
       (case rs ! i of
          Inl err \<Rightarrow> sh_ds (ev_at e) (keys ! i) = None
        | Inr pm \<Rightarrow> \<exists>pm0. sh_ds (ev_at e) (keys ! i) = Some pm0 \<and> (pm = pm0 \<or> map_of pm = cached_form E pm0)) \<or>
       (\<exists>x \<in> mkeys E (keys ! i). ev_cmd e = McGet x \<and> x \<in> ev_exposed e)))"
proof -
  have "call_inv E K (sy_shared S) (sy_exposed S) (CGet intn nonce keys metas, log, Ret (Inr rs))"
    using reachable_inv [OF assms(2,3)] assms(4) by (auto simp: cache_inv_def list_all_iff)
  then have c: "set keys \<subseteq> K" "\<forall>i n. 0 < n \<longrightarrow> intn i n < n" "after (dsc_GetMulti E intn nonce keys metas) log = Some (Ret (Inr rs))"
    "list_all (event_ok E K) log" by (simp_all add: call_inv_def)
  have "(\<exists>err. rs ! i = Inl err \<and> err \<noteq> NoSuchEntity) \<or> (\<exists>e \<in> set log. current_at E e (keys ! i) (rs ! i))" if i: "i < length keys" for i
  proof -
    obtain e where e: "e \<in> set log" "from_ds e (keys ! i) (rs ! i) \<or> from_cache E e (keys ! i) (rs ! i)" using GetMulti_result [OF c(2,3)] i by blast
    have "event_ok E K e" "keys ! i \<in> K" using c(1,4) e(1) i by (auto simp: list_all_iff)
    then show ?thesis using current_from_ds [of E K e] current_from_cache [OF assms(1), of K e] e by blast
  qed
  then show ?thesis using GetMulti_result [OF c(2,3)] unfolding current_at_def by blast
qed

theorem dscache_reads_current_witness:
  "\<exists>S log. cache_reachable ex_cache {ex_key ''n''} S \<and> (ex_get, log, Ret (Inr [Inr ex_pm])) \<in> set (sy_calls S) \<and>
     (\<exists>e \<in> set log. (\<exists>pm0. sh_ds (ev_at e) (ex_key ''n'') = Some pm0 \<and> (ex_pm = pm0 \<or> map_of ex_pm = cached_form ex_cache pm0)) \<or>
       (ev_cmd e = McGet ex_x \<and> ex_x \<in> ev_exposed e))"
proof -
  obtain S log where S: "cache_reachable ex_cache {ex_key ''n''} S" "sy_calls S = [(ex_get, log, Ret (Inr [Inr ex_pm]))]" by (rule ex_run)
  from dscache_reads_current [OF ex_cache_ok(1,2) S(1), of "\<lambda>_ _. 0" ex_nonce "[ex_key ''n'']" ex_metas log "[Inr ex_pm]"]
  have "\<exists>e \<in> set log. (\<exists>pm0. sh_ds (ev_at e) (ex_key ''n'') = Some pm0 \<and> (ex_pm = pm0 \<or> map_of ex_pm = cached_form ex_cache pm0)) \<or>
       (ev_cmd e = McGet ex_x \<and> ex_x \<in> ev_exposed e)" using S(2) by (simp add: ex_shard)
  moreover have "(ex_get, log, Ret (Inr [Inr ex_pm])) \<in> set (sy_calls S)" using S(2) by simp
  ultimately show ?thesis using S(1) by blast
qed

end
