(* ===== verification/Spec2Isabelle.thy ===== *)
theory Spec2Isabelle
  imports Txn_Merge Byte_Tools Memcache TaskQueue_Props DsCache_Props
begin

text \<open>
  \<^bold>\<open>A verification of the luci/gae library\<close>

  The repository wraps the Google App Engine services (datastore, memcache, task queues, ...)
  behind Go interfaces (\<^verbatim>\<open>service/\<close>), implements them in memory for tests
  (\<^verbatim>\<open>impl/memory/\<close>), in production and in the cloud (\<^verbatim>\<open>impl/prod\<close>, \<^verbatim>\<open>impl/cloud\<close>), and offers
  filters that sit between client and service (\<^verbatim>\<open>filter/\<close>). This development models the
  parts that carry logic of their own, as executable functions, and proves what makes them
  correct.

  \<^bold>\<open>Theories\<close>

  \<^item> \<open>Prelude\<close>: machine integers, strings as bytes, the comparison contract (locale
    \<open>go_compare\<close>) with its combinators, Go maps as association lists (\<open>al_set\<close>,
    \<open>al_get\<close>, \<open>al_delete\<close>), Go's \<^verbatim>\<open>sort.Search\<close>.
  \<^item> \<open>Go_Base\<close>: floating-point numbers by their bits, geo points, \<^verbatim>\<open>time.Time\<close>, and the
    time conversions of \<^verbatim>\<open>properties.go\<close>.
  \<^item> \<open>Keys\<close>: \<^verbatim>\<open>service/datastore/key.go\<close>. \<open>Properties\<close>:
    \<^verbatim>\<open>service/datastore/properties.go\<close>. \<open>Indexes\<close>: \<^verbatim>\<open>service/datastore/index.go\<close>.
    Data types with the source's fields, one function per method, the orders as
    interpretations of \<open>go_compare\<close>.
  \<^item> \<open>Serialize\<close>, \<open>Serialize_Props\<close>, \<open>Wire_Instance\<close>:
    \<^verbatim>\<open>service/datastore/serialize/serialize.go\<close>. Writers are functions to byte lists,
    readers take the buffer and return an error or a value and the rest. The number encoding of
    package \<^verbatim>\<open>cmpbin\<close> is not part of the repository: it is a record of functions with the
    laws \<open>cmpbin_ok\<close> and \<open>cmpbin_sorted\<close>, and \<open>Wire_Instance\<close> has an encoding
    that satisfies them.
  \<^item> \<open>Byte_Tools\<close>: \<^verbatim>\<open>binary_tools.go\<close> and \<^verbatim>\<open>invertible.go\<close> of the same package.
  \<^item> \<open>Query\<close>, \<open>Query_Props\<close>: \<^verbatim>\<open>query.go\<close> and \<^verbatim>\<open>finalized_query.go\<close>: the builder,
    \<^verbatim>\<open>finalizeImpl\<close> with its checks, the accessors; the builder's reachable queries are the
    inductive predicate \<open>built\<close>.
  \<^item> \<open>Memcache\<close>: \<^verbatim>\<open>impl/memory/memcache.go\<close>; every call under the lock is one step of
    \<open>mc_step\<close>.
  \<^item> \<open>Go_Heap\<close>: Go's \<^verbatim>\<open>container/heap\<close>, correct for every order of the locale
    \<open>heap_order\<close>. \<open>TaskQueue\<close>, \<open>TaskQueue_Inv\<close>, \<open>TaskQueue_Props\<close>:
    \<^verbatim>\<open>impl/memory/taskqueue.go\<close>, \<^verbatim>\<open>taskqueue_data.go\<close> and \<^verbatim>\<open>transaction.go\<close>. Task objects live
    in a memory that the name maps and the heaps point into; every call under the lock is one
    step of \<open>tq_step\<close>; a panic is \<open>None\<close>.
  \<^item> \<open>MemStore\<close>, \<open>Iterate\<close>: \<^verbatim>\<open>impl/memory/memstore.go\<close> and \<^verbatim>\<open>memstore_iter.go\<close>, the ordered store with
    collections and snapshots, the iterators and their intersection \<^verbatim>\<open>multiIterate\<close>. The trees of
    package \<^verbatim>\<open>gtreap\<close> are outside the repository: the locale \<open>treap\<close> has their documented laws, and
    sorted association lists satisfy them.
  \<^item> \<open>Datastore_Index\<close>, \<open>Index_Rows\<close>, \<open>Index_Store\<close>, \<open>Index_Consistency\<close>, \<open>Index_Build\<close>:
    \<^verbatim>\<open>impl/memory/datastore_index.go\<close>, the rows of an entity, their upkeep and compound indexes; the
    environment \<open>dsenv\<close> holds what the code takes from elsewhere, with the locale \<open>ds_env\<close> for its laws.
  \<^item> \<open>Datastore\<close>, \<open>Datastore_Inv\<close>, \<open>Datastore_Props\<close>, \<open>Datastore_Txn\<close>: \<^verbatim>\<open>impl/memory/datastore_data.go\<close>,
    entities, versions of entity groups, put, get, delete, transactions and their commit; the abstract
    state is a map from namespaces and key paths to property maps with a version per group.
  \<^item> \<open>Datastore_Query\<close>, \<open>Index_Selection\<close>, \<open>Query_Execution\<close> with \<open>Selection_Props\<close>, \<open>Query_Bounds\<close>,
    \<open>Query_Cursor\<close>, \<open>Query_Rows\<close>, \<open>Query_Correct\<close>: \<^verbatim>\<open>datastore_query.go\<close>, \<^verbatim>\<open>datastore_index_selection.go\<close>,
    \<^verbatim>\<open>datastore_query_execution.go\<close> and \<^verbatim>\<open>datastore.go\<close>: reduction, choice of indexes, strategies, cursors, \<^verbatim>\<open>Run\<close> and
    \<^verbatim>\<open>Count\<close>. The orders in which Go ranges over maps are a parameter (\<open>ranges\<close>).
  \<^item> \<open>Raw_Interface\<close>, \<open>Mem_Buffer\<close>: \<^verbatim>\<open>RawInterface\<close> as a record of operations on the state of a datastore, the
    check filter of \<^verbatim>\<open>checkfilter.go\<close>, and the contracts between a datastore and its clients as the locales
    \<open>raw_reader\<close>, \<open>raw_store\<close>, \<open>raw_buffer\<close> and \<open>raw_sorted\<close>; the in-memory datastore satisfies them.
  \<^item> \<open>TxnBuf\<close>, \<open>Txn_Query\<close> with \<open>TxnBuf_Props\<close>, \<open>Txn_Correct\<close>, \<open>Txn_Merge\<close>: the filter \<^verbatim>\<open>filter/txnBuf\<close>
    (\<^verbatim>\<open>state.go\<close>, \<^verbatim>\<open>ds.go\<close>, \<^verbatim>\<open>ds_txn.go\<close>, \<^verbatim>\<open>query_merger.go\<close>) over any datastore with these contracts: the locale
    \<open>txn\<close>, which is itself a \<open>raw_reader\<close>, so that transactions nest, and which the in-memory
    datastore instantiates as buffer and as parent (\<open>mem_txn\<close>).
  \<^item> \<open>DsCache\<close>, \<open>DsCache_Run\<close> with \<open>DsCache_Inv\<close>, \<open>DsCache_Get\<close>, \<open>DsCache_Props\<close>: the filter \<^verbatim>\<open>filter/dscache\<close>
    (\<^verbatim>\<open>dscache.go\<close>, \<^verbatim>\<open>support.go\<close>, \<^verbatim>\<open>plan.go\<close>, \<^verbatim>\<open>serialize.go\<close>, \<^verbatim>\<open>ds.go\<close>, \<^verbatim>\<open>ds_txn_state.go\<close>), the cache of entities in memcache. Each call
    is a program over single operations of the memcache of \<open>Memcache\<close> and of a datastore (\<open>prog\<close>), the step relation \<open>cache_step\<close> interleaves
    any number of calls, with memcache losing items or failing and the datastore failing. SHA-1, zlib, the random
    numbers and the shard functions come from elsewhere and are fields of \<open>cache_env\<close> or arguments.

  \<^bold>\<open>What is shown\<close>

  Orders: \<^verbatim>\<open>Property.Compare\<close>, \<^verbatim>\<open>Key.Less\<close> and \<^verbatim>\<open>IndexDefinition.Less\<close> are total orders, and the
  bytes written to an index sort as \<^verbatim>\<open>Compare\<close> does. Round trips: keys, properties, property
  maps and index definitions are read back as they were written, with the size limits of the
  readers. Queries: what finalization guarantees, that the inequality methods are
  conjunctions, that no built query panics. Memcache: exact statistics, compare-and-swap
  safety, refinement of a map with expiry. Task queues: the index invariant in every
  reachable state, leases as a list specification, exclusiveness and ownership of leases,
  tombstones, batches, commits.

  In-memory datastore: its operations refine a map with versions; a transaction commits exactly
  when no group it touched has changed; every index table holds exactly the rows of the stored
  entities after any sequence of operations and after indexes are added. In-memory queries: index
  selection ends and covers every filter, or reports or panics in stated cases; the iterators visit the
  intersection of their ranges; bounds and cursors are exact; a keys-only query returns exactly the
  matching entities.

  Transaction buffer: reads, puts and deletes of a transaction refine a map on top of the parent with an
  exact limit on entity groups; a commit leaves in the datastore, or in the enclosing transaction, what the
  transaction saw; the budgets of a nested commit are exact; a query returns the merge of buffer and
  parent. The errors found on the way
  (an entity without properties, descending orders, keys of other contexts) are theorems or
  parts of statements.

  Cache filter: a mutation sets its locks on all shards before it writes and removes them after
  (\<open>dscache_lock_protocol\<close>); in every reachable state the cached data is what the datastore holds, except where a lock was lost before
  the write it should protect; a read returns what the datastore held at a moment during the read.

  \<^bold>\<open>Bounds and termination\<close>

  All functions are total, except \<open>multi_loop\<close>, the loop of \<^verbatim>\<open>multiIterate\<close>: it is a partial function
  into options, proved to return on every store. Readers recur on the element count they have read, which their
  limits bound; the heap loops, the selection of indexes and the merge of query results have
  measures; \<^verbatim>\<open>extract\<close> recurs on the number of tasks still
  wanted. Integers that can wrap are words; times are unbounded integers of nanoseconds,
  because \<^verbatim>\<open>time.Time\<close> holds seconds in 64 bits and the code stays far from that range; sizes and
  counters of the transaction buffer are unbounded, being far below 64 bits. The runs of the cache filter stop
  before memcache's 64-bit counter of writes would wrap (\<open>no_wrap\<close>).

  \<^bold>\<open>Not modelled\<close>

  The reflection on user structs (\<^verbatim>\<open>pls\<close>, \<^verbatim>\<open>multiarg\<close>) and \<^verbatim>\<open>interface.go\<close>, which drives it, since they are about
  Go's run-time types. \<^verbatim>\<open>allocateIDs\<close> of the in-memory datastore, which groups keys by their
  printed form; the transaction buffer takes it as a parameter. The installation and the global
  switch of the cache filter (\<^verbatim>\<open>context.go\<close>, \<^verbatim>\<open>globalconfig.go\<close>); the
  filters that count, break or refuse calls. \<^verbatim>\<open>impl/prod\<close>, \<^verbatim>\<open>impl/cloud\<close> and
  \<^verbatim>\<open>impl/dummy\<close>, which pass calls to the App Engine SDK and Google Cloud; generated protocol
  buffers; GQL, JSON and GOB forms of keys and queries; context plumbing.
\<close>

end
